(* ===== verification/Prelude.thy ===== *)
theory Prelude
  imports Main "HOL-Library.Word"
begin

text \<open>
  What every component shares: names for the machine types of the C sources, the
  sequencing of calls that can fail, copying into memory blocks, and the
  facts on words and byte strings that the component proofs rest on.
\<close>

unbundle bit_operations_syntax

section \<open>Machine types\<close>

type_synonym u8 = "8 word"
type_synonym u16 = "16 word"
type_synonym u32 = "32 word"
type_synonym u64 = "64 word"
type_synonym bytes = "u8 list"

text \<open>
  Lengths and indices (\<open>size_t\<close>) are natural numbers; wherever the code tests for or
  relies on the wrap-around of \<open>size_t\<close>, the sum is taken modulo \<open>2 ^ 64\<close> with
  \<open>size_add\<close> and \<open>size_mul\<close> (the 64-bit iOS targets).
\<close>

definition size_add :: "nat \<Rightarrow> nat \<Rightarrow> nat" where
  "size_add a b = (a + b) mod 2 ^ 64"

definition size_mul :: "nat \<Rightarrow> nat \<Rightarrow> nat" where
  "size_mul a b = (a * b) mod 2 ^ 64"

definition INT_MAX :: nat where
  "INT_MAX = 2 ^ 31 - 1"

text \<open>
  Rule collections: the contracts of the byte string readers, of the writers that append, and
  the invariants that the operations of a container keep.
\<close>

named_theorems reader_rules
named_theorems appender_rules
named_theorems invariant_rules

section \<open>Calls that can fail\<close>

text \<open>
  A C function that returns 1 or 0 and works on an object through a pointer is a function
  from the object's state to an optional result and the new state. The state is returned on
  failure too: the C code does not roll it back. \<open>on_ok r k\<close> is the code's
  \<open>if (!f(&s)) return 0; ...\<close>.
\<close>

fun on_ok :: "'a option \<times> 's \<Rightarrow> ('a \<Rightarrow> 's \<Rightarrow> 'b option \<times> 's) \<Rightarrow> 'b option \<times> 's" where
  "on_ok (None, s) k = (None, s)"
| "on_ok (Some a, s) k = k a s"

lemma on_ok_Some:
  "on_ok r k = (Some b, s') \<longleftrightarrow> (\<exists>a s. r = (Some a, s) \<and> k a s = (Some b, s'))"
  by (cases "(r, k)" rule: on_ok.cases) auto

lemma on_ok_split:
  "P (on_ok r k) \<longleftrightarrow>
     (\<forall>s. r = (None, s) \<longrightarrow> P (None, s)) \<and> (\<forall>a s. r = (Some a, s) \<longrightarrow> P (k a s))"
  by (cases "(r, k)" rule: on_ok.cases) auto

lemma on_ok_assoc: "on_ok (on_ok r k) h = on_ok r (\<lambda>a s. on_ok (k a s) h)"
  by (cases "(r, k)" rule: on_ok.cases) auto

lemma on_ok_cong [fundef_cong]:
  "r = r' \<Longrightarrow> (\<And>a s. r' = (Some a, s) \<Longrightarrow> k a s = k' a s) \<Longrightarrow> on_ok r k = on_ok r' k'"
  by (cases "(r, k)" rule: on_ok.cases) auto

section \<open>Memory blocks\<close>

text \<open>\<open>memcpy\<close> of \<open>src\<close> to offset \<open>off\<close> of a block, and \<open>memset\<close>.\<close>

definition blit :: "'a list \<Rightarrow> nat \<Rightarrow> 'a list \<Rightarrow> 'a list" where
  "blit buf off src = take off buf @ src @ drop (off + length src) buf"

lemma length_blit [simp]: "off + length src \<le> length buf \<Longrightarrow> length (blit buf off src) = length buf"
  by (simp add: blit_def)

lemma blit_Nil [simp]: "blit buf off [] = buf"
  by (simp add: blit_def)

lemma take_blit_before: "n \<le> off \<Longrightarrow> off \<le> length buf \<Longrightarrow> take n (blit buf off src) = take n buf"
  by (simp add: blit_def min_def)

lemma take_blit_upto:
  "off \<le> length buf \<Longrightarrow> take (off + length src) (blit buf off src) = take off buf @ src"
  by (simp add: blit_def min_def)

lemma nth_blit:
  "off + length src \<le> length buf \<Longrightarrow> i < length buf \<Longrightarrow>
   blit buf off src ! i = (if off \<le> i \<and> i < off + length src then src ! (i - off) else buf ! i)"
  by (auto simp: blit_def nth_append min_def not_less add.commute)

section \<open>Words\<close>

lemma unat_8_less: "unat (b :: u8) < 256"
  using unsigned_less [of b, where ?'a = nat] by simp

lemma unat_push_bit_or:
  fixes w x :: "'a::len word"
  assumes "unat w * 2 ^ n < 2 ^ LENGTH('a)" and "unat x < 2 ^ n" and "n < LENGTH('a)"
  shows "unat (push_bit n w OR x) = unat w * 2 ^ n + unat x"
proof -
  have bx: "\<not> bit x i" if "n \<le> i" for i
  proof -
    have "take_bit n (unat x) = unat x"
      using assms(2) by (simp add: take_bit_nat_eq_self_iff)
    then have "bit (unat x) i \<longleftrightarrow> i < n \<and> bit (unat x) i"
      by (metis bit_take_bit_iff)
    with that show ?thesis
      by (simp add: bit_unsigned_iff)
  qed
  have "push_bit n w AND x = 0"
    by (rule bit_word_eqI) (auto simp: bit_and_iff bit_push_bit_iff dest: bx)
  then have "push_bit n w OR x = push_bit n w + x"
    by (simp add: disjunctive_add_eq_or)
  moreover have pw: "unat (push_bit n w) = unat w * 2 ^ n"
    using assms(1) by (subst unsigned_push_bit_eq) (simp add: push_bit_eq_mult take_bit_nat_eq_self)
  have le: "unat w * 2 ^ n + unat x < 2 ^ LENGTH('a)"
  proof -
    have "unat w < 2 ^ (LENGTH('a) - n)"
      using assms(1,3) by (metis less_or_eq_imp_le nat_mult_less_cancel_disj le_add_diff_inverse2 mult.commute power_add)
    then have "Suc (unat w) \<le> 2 ^ (LENGTH('a) - n)" by simp
    then have "Suc (unat w) * 2 ^ n \<le> 2 ^ (LENGTH('a) - n) * 2 ^ n"
      by (rule mult_le_mono1)
    also have "\<dots> = 2 ^ LENGTH('a)"
      using assms(3) by (simp flip: power_add)
    finally show ?thesis using assms(2) by simp
  qed
  ultimately show ?thesis
    by (simp add: unat_word_ariths pw)
qed

section \<open>Big-endian byte strings\<close>

definition be_val :: "bytes \<Rightarrow> nat" where
  "be_val bs = foldl (\<lambda>r b. r * 256 + unat b) 0 bs"

lemma foldl_be: "foldl (\<lambda>r b. r * 256 + unat b) a bs = a * 256 ^ length bs + be_val (bs::bytes)"
proof (induction bs arbitrary: a)
  case Nil
  then show ?case by (simp add: be_val_def)
next
  case (Cons b bs)
  have "foldl (\<lambda>r b. r * 256 + unat b) a (b # bs) = (a * 256 + unat b) * 256 ^ length bs + be_val bs"
    by (simp add: Cons.IH)
  moreover have "be_val (b # bs) = unat b * 256 ^ length bs + be_val bs"
    using Cons.IH [of "unat b"] by (simp add: be_val_def)
  ultimately show ?case by (simp add: algebra_simps)
qed

lemma be_val_Nil [simp]: "be_val [] = 0"
  by (simp add: be_val_def)

lemma be_val_Cons [simp]: "be_val (b # bs) = unat b * 256 ^ length bs + be_val bs"
  using foldl_be [of "unat b" bs] by (simp add: be_val_def)

lemma be_val_append: "be_val (as @ bs) = be_val as * 256 ^ length bs + be_val bs"
  by (induction as) (simp_all add: algebra_simps power_add)

lemma be_val_less: "be_val bs < 256 ^ length bs"
proof (induction bs)
  case Nil
  then show ?case by simp
next
  case (Cons b bs)
  have "unat b * 256 ^ length bs + be_val bs < Suc (unat b) * 256 ^ length bs"
    using Cons by simp
  also have "\<dots> \<le> 256 * 256 ^ length bs"
    using unat_8_less [of b] by (intro mult_le_mono1) linarith
  finally show ?case by simp
qed

text \<open>The shortest big-endian encoding of a number; it has no leading zero byte.\<close>

fun be_bytes :: "nat \<Rightarrow> bytes" where
  "be_bytes n = (if n = 0 then [] else be_bytes (n div 256) @ [of_nat (n mod 256)])"

declare be_bytes.simps [simp del]

lemma be_bytes_0 [simp]: "be_bytes 0 = []"
  by (simp add: be_bytes.simps)

lemma unat_of_nat_mod [simp]: "unat (of_nat (n mod 256) :: u8) = n mod 256"
  by (simp add: unat_of_nat take_bit_eq_mod)

lemma be_val_be_bytes [simp]: "be_val (be_bytes n) = n"
proof (induction n rule: be_bytes.induct)
  case (1 n)
  then show ?case
    by (cases "n = 0") (simp_all add: be_bytes.simps [of n] be_val_append)
qed

lemma of_nat_unat_8 [simp]: "of_nat (unat b) = (b :: u8)"
  by simp

lemma be_bytes_be_val: "bs = [] \<or> hd bs \<noteq> 0 \<Longrightarrow> be_bytes (be_val bs) = bs"
proof (induction bs rule: rev_induct)
  case Nil
  then show ?case by simp
next
  case (snoc b bs)
  have val: "be_val (bs @ [b]) = be_val bs * 256 + unat b"
    by (simp add: be_val_append)
  have nz: "be_val (bs @ [b]) \<noteq> 0"
  proof (cases bs)
    case Nil
    with snoc.prems show ?thesis by (simp add: unat_eq_0)
  next
    case (Cons d ds)
    with snoc.prems show ?thesis by (simp add: unat_eq_0)
  qed
  have "be_bytes (be_val bs) = bs"
    using snoc by (cases bs) auto
  moreover have "be_val (bs @ [b]) div 256 = be_val bs" "be_val (bs @ [b]) mod 256 = unat b"
    using unat_8_less [of b] by (simp_all add: val)
  ultimately show ?case
    using nz by (subst be_bytes.simps) simp
qed

lemma length_be_bytes: "n \<noteq> 0 \<Longrightarrow> 256 ^ (length (be_bytes n) - 1) \<le> n \<and> n < 256 ^ length (be_bytes n)"
proof (induction n rule: be_bytes.induct)
  case (1 n)
  show ?case
  proof (cases "n div 256 = 0")
    case True
    then have "n < 256" by simp
    with True "1.prems" show ?thesis by (simp add: be_bytes.simps [of n])
  next
    case False
    let ?l = "length (be_bytes (n div 256))"
    have IH: "256 ^ (?l - 1) \<le> n div 256" "n div 256 < 256 ^ ?l"
      using "1.IH" "1.prems" False by auto
    have "?l \<noteq> 0" using IH(2) False by (intro notI) simp
    then have "(256::nat) ^ ?l = 256 * 256 ^ (?l - 1)"
      by (cases ?l) simp_all
    moreover have "256 * (n div 256) \<le> n" by simp
    ultimately have "256 ^ ?l \<le> n" using IH(1) by linarith
    moreover have "n < 256 * 256 ^ ?l" using IH(2) by (simp add: div_less_iff_less_mult mult.commute)
    ultimately show ?thesis
      using "1.prems" by (simp add: be_bytes.simps [of n])
  qed
qed

lemma length_be_bytes_le:
  assumes "n < 256 ^ k"
  shows "length (be_bytes n) \<le> k"
proof (cases "n = 0")
  case False
  then have "256 ^ (length (be_bytes n) - 1) < (256 :: nat) ^ k"
    using length_be_bytes [of n] assms by linarith
  then have "length (be_bytes n) - 1 < k" by (simp only: power_strict_increasing_iff [of "256 :: nat"])
  then show ?thesis by linarith
qed simp

lemma unat_ucast_up: "LENGTH('b) \<le> LENGTH('a) \<Longrightarrow> unat (ucast (w :: 'b::len word) :: 'a::len word) = unat w"
proof -
  assume le: "LENGTH('b) \<le> LENGTH('a)"
  have "unat w < 2 ^ LENGTH('b)" by simp
  also have "\<dots> \<le> 2 ^ LENGTH('a)" using le by (rule power_increasing) simp
  finally show ?thesis
    by (simp add: unsigned_ucast_eq take_bit_nat_eq_self)
qed

section \<open>Single bits and masks\<close>

lemma bit_top_u8: "bit (b :: u8) 7 \<longleftrightarrow> 128 \<le> unat b"
proof -
  have "bit b 7 \<longleftrightarrow> bit (unat b) 7"
    by (simp add: bit_unsigned_iff)
  also have "\<dots> \<longleftrightarrow> odd (unat b div 2 ^ 7)"
    by (rule bit_iff_odd)
  finally have "bit b 7 \<longleftrightarrow> odd (unat b div 128)"
    by simp
  moreover have "unat b div 128 < 2"
    using unat_8_less [of b] by (simp add: div_less_iff_less_mult)
  ultimately show ?thesis
    by (cases "unat b div 128 = 0") (auto simp: div_eq_0_iff)
qed

lemma and_0x80_iff: "(b :: u8) AND 0x80 = 0 \<longleftrightarrow> unat b < 128"
  using bit_iff_and_push_bit_not_eq_0 [of b 7] bit_top_u8 [of b] by auto

lemma unat_and_mask: "unat (w AND mask n) = unat w mod 2 ^ n"
  by (subst take_bit_eq_mask [symmetric], subst unsigned_take_bit_eq) (simp add: take_bit_eq_mod)

lemma unat_and_0x7f: "unat (w AND 0x7f) = unat w mod 128"
  using unat_and_mask [of w 7] by (simp add: mask_eq_exp_minus_1)

lemma unat_drop_bit: "unat (drop_bit n (v :: 'a::len word)) = unat v div 2 ^ n"
  by (subst unat_drop_bit_eq) (simp add: drop_bit_eq_div)

lemma drop_bit_eq_0_iff: "drop_bit n (v :: 'a::len word) = 0 \<longleftrightarrow> unat v < 2 ^ n"
proof -
  have "drop_bit n v = 0 \<longleftrightarrow> unat v div 2 ^ n = 0"
    by (metis drop_bit_eq_div unat_drop_bit_eq unat_eq_0)
  then show ?thesis by (simp add: div_eq_0_iff)
qed

lemma unat_of_nat_u8: "n < 256 \<Longrightarrow> unat (of_nat n :: u8) = n"
  by (simp add: unat_of_nat take_bit_nat_eq_self)

lemma unat_of_nat_u64: "n < 2 ^ 64 \<Longrightarrow> unat (of_nat n :: u64) = n"
  by (simp add: unat_of_nat take_bit_nat_eq_self)

end
