(* ===== verification/Mem.thy ===== *)
theory Mem
  imports Prelude
begin

text \<open>
  \<open>crypto/mem.c\<close> of BoringSSL: the allocator wrapper every other component allocates
  through, the constant-time comparison, the FNV-1a hash and the C string functions.
  C strings are byte lists that contain their terminating NUL.
\<close>

section \<open>Allocation\<close>

text \<open>
  \<open>mem n\<close> is what the platform's \<open>malloc(n)\<close> gives: arbitrary contents, or \<open>None\<close> for
  \<open>NULL\<close>. Any function is allowed: \<open>ossl_malloc\<close> cuts the block to the size it asked for.
  \<open>OPENSSL_malloc\<close> asks for 8 bytes more than its caller and keeps the caller's size there;
  the sum is computed in \<open>size_t\<close>, without a check. The usable part of the block is a list of
  elements of \<open>w\<close> bytes (1 for bytes, 8 for pointers).
\<close>

definition OPENSSL_MALLOC_PREFIX :: nat where
  "OPENSSL_MALLOC_PREFIX = 8"

definition ossl_malloc :: "nat \<Rightarrow> (nat \<Rightarrow> 'a list option) \<Rightarrow> 'a \<Rightarrow> nat \<Rightarrow> 'a list option" where
  "ossl_malloc w mem z sz =
     (case mem (size_add sz OPENSSL_MALLOC_PREFIX) of
        None \<Rightarrow> None
      | Some b \<Rightarrow>
          let n = (size_add sz OPENSSL_MALLOC_PREFIX - OPENSSL_MALLOC_PREFIX) div w
          in Some (take n (b @ replicate n z)))"

definition ossl_realloc ::
  "nat \<Rightarrow> (nat \<Rightarrow> 'a list option) \<Rightarrow> 'a \<Rightarrow> 'a list option \<Rightarrow> nat \<Rightarrow> 'a list option" where
  "ossl_realloc w mem z orig new_size =
     (case orig of
        None \<Rightarrow> ossl_malloc w mem z new_size
      | Some old \<Rightarrow>
          (case ossl_malloc w mem z new_size of
             None \<Rightarrow> None
           | Some ret \<Rightarrow>
               let to_copy = (if length old * w < new_size then length old * w else new_size)
               in Some (blit ret 0 (take (to_copy div w) old))))"

abbreviation OPENSSL_malloc :: "(nat \<Rightarrow> bytes option) \<Rightarrow> nat \<Rightarrow> bytes option" where
  "OPENSSL_malloc mem \<equiv> ossl_malloc 1 mem 0"

abbreviation OPENSSL_realloc :: "(nat \<Rightarrow> bytes option) \<Rightarrow> bytes option \<Rightarrow> nat \<Rightarrow> bytes option" where
  "OPENSSL_realloc mem \<equiv> ossl_realloc 1 mem 0"

definition OPENSSL_memdup :: "(nat \<Rightarrow> bytes option) \<Rightarrow> bytes \<Rightarrow> nat \<Rightarrow> bytes option" where
  "OPENSSL_memdup mem data sz =
     (if sz = 0 then None
      else case OPENSSL_malloc mem sz of
        None \<Rightarrow> None
      | Some ret \<Rightarrow> Some (blit ret 0 (take sz data)))"

lemma ossl_malloc_length:
  "ossl_malloc w mem z sz = Some b \<Longrightarrow> sz + 8 < 2 ^ 64 \<Longrightarrow> length b = sz div w"
  by (auto simp: ossl_malloc_def size_add_def OPENSSL_MALLOC_PREFIX_def Let_def split: option.splits)

lemma ossl_realloc_length:
  "ossl_realloc w mem z orig sz = Some b \<Longrightarrow> sz + 8 < 2 ^ 64 \<Longrightarrow> length b = sz div w"
  by (auto simp: ossl_realloc_def Let_def min_def div_le_mono less_eq_div_iff_mult_less_eq
      dest!: ossl_malloc_length split: option.splits if_splits)

lemma ossl_realloc_take:
  assumes "ossl_realloc w mem z (Some old) sz = Some b" and "sz + 8 < 2 ^ 64"
    and "0 < w" and "n \<le> length old" and "n \<le> sz div w"
  shows "take n b = take n old"
proof -
  obtain r where r: "ossl_malloc w mem z sz = Some r"
    and b: "b = blit r 0 (take ((if length old * w < sz then length old * w else sz) div w) old)"
    using assms(1) by (auto simp: ossl_realloc_def Let_def split: option.splits)
  then show ?thesis
    using assms(3-5) by (auto simp: blit_def min_def)
qed

text \<open>A block that is large enough for the caller: what every client of the allocator needs.\<close>

theorem OPENSSL_malloc_block:
  assumes "OPENSSL_malloc mem sz = Some b" and "sz + 8 < 2 ^ 64"
  shows "length b = sz"
  using ossl_malloc_length [OF assms] by simp

lemma OPENSSL_malloc_works:
  assumes "\<forall>k. mem k \<noteq> None" and "sz + 8 < 2 ^ 64"
  shows "\<exists>blk. OPENSSL_malloc mem sz = Some blk \<and> length blk = sz"
proof -
  have "OPENSSL_malloc mem sz \<noteq> None"
    using assms(1) by (auto simp: ossl_malloc_def Let_def split: option.split)
  then show ?thesis using OPENSSL_malloc_block [OF _ assms(2)] by blast
qed

lemma OPENSSL_memdup_eq:
  "OPENSSL_memdup mem data sz = Some b \<Longrightarrow> sz \<le> length data \<Longrightarrow> sz + 8 < 2 ^ 64 \<Longrightarrow>
   b = take sz data"
  by (auto simp: OPENSSL_memdup_def blit_def dest!: ossl_malloc_length split: if_splits option.splits)

section \<open>Comparison and hashing\<close>

definition CRYPTO_memcmp :: "bytes \<Rightarrow> bytes \<Rightarrow> nat \<Rightarrow> u8" where
  "CRYPTO_memcmp a b n = foldl (\<lambda>x i. x OR (a ! i XOR b ! i)) 0 [0..<n]"

lemma foldl_or_eq_0:
  "foldl (\<lambda>x i. x OR f i) (a :: 'a::len word) is = 0 \<longleftrightarrow> a = 0 \<and> (\<forall>i\<in>set is. f i = 0)"
proof (induction "is" arbitrary: a)
  case Nil
  then show ?case by simp
next
  case (Cons i "is")
  have "a OR f i = 0 \<longleftrightarrow> a = 0 \<and> f i = 0"
    by (simp add: or_eq_0_iff)
  with Cons show ?case by auto
qed

lemma xor_eq_0_word: "(a :: 'a::len word) XOR b = 0 \<longleftrightarrow> a = b"
  by (metis xor.assoc xor.right_neutral xor_self_eq xor.left_neutral)

lemma CRYPTO_memcmp_iff:
  assumes "n \<le> length a" and "n \<le> length b"
  shows "CRYPTO_memcmp a b n = 0 \<longleftrightarrow> take n a = take n b"
  using assms
  by (auto simp: CRYPTO_memcmp_def foldl_or_eq_0 xor_eq_0_word list_eq_iff_nth_eq)

definition OPENSSL_hash32 :: "bytes \<Rightarrow> u32" where
  "OPENSSL_hash32 bs = foldl (\<lambda>h b. (h XOR ucast b) * 16777619) 2166136261 bs"

section \<open>C strings\<close>

definition c_strlen :: "bytes \<Rightarrow> nat" where
  "c_strlen s = length (takeWhile (\<lambda>c. c \<noteq> 0) s)"

fun strnlen_loop :: "bytes \<Rightarrow> nat \<Rightarrow> nat \<Rightarrow> nat \<Rightarrow> nat" where
  "strnlen_loop s len i 0 = len"
| "strnlen_loop s len i (Suc k) = (if s ! i = 0 then i else strnlen_loop s len (Suc i) k)"

definition OPENSSL_strnlen :: "bytes \<Rightarrow> nat \<Rightarrow> nat" where
  "OPENSSL_strnlen s len = strnlen_loop s len 0 len"

definition OPENSSL_strdup :: "(nat \<Rightarrow> bytes option) \<Rightarrow> bytes option \<Rightarrow> bytes option" where
  "OPENSSL_strdup mem s =
     (case s of
        None \<Rightarrow> None
      | Some str \<Rightarrow>
          let len = c_strlen str + 1
          in case OPENSSL_malloc mem len of
               None \<Rightarrow> None
             | Some ret \<Rightarrow> Some (blit ret 0 (take len str)))"

definition OPENSSL_strndup :: "(nat \<Rightarrow> bytes option) \<Rightarrow> bytes option \<Rightarrow> nat \<Rightarrow> bytes option" where
  "OPENSSL_strndup mem s sz =
     (case s of
        None \<Rightarrow> None
      | Some str \<Rightarrow>
          let sz' = OPENSSL_strnlen str sz; alloc_size = size_add sz' 1
          in if alloc_size < sz' then None
             else case OPENSSL_malloc mem alloc_size of
               None \<Rightarrow> None
             | Some ret \<Rightarrow> Some ((blit ret 0 (take sz' str)) [sz' := 0]))"

definition OPENSSL_tolower :: "int \<Rightarrow> int" where
  "OPENSSL_tolower c = (if 65 \<le> c \<and> c \<le> 90 then c + (97 - 65) else c)"

fun strncasecmp_loop :: "bytes \<Rightarrow> bytes \<Rightarrow> nat \<Rightarrow> nat \<Rightarrow> int" where
  "strncasecmp_loop a b i 0 = 0"
| "strncasecmp_loop a b i (Suc k) =
     (let aa = OPENSSL_tolower (sint (a ! i)); bb = OPENSSL_tolower (sint (b ! i))
      in if aa < bb then -1 else if bb < aa then 1 else if aa = 0 then 0
         else strncasecmp_loop a b (Suc i) k)"

definition OPENSSL_strncasecmp :: "bytes \<Rightarrow> bytes \<Rightarrow> nat \<Rightarrow> int" where
  "OPENSSL_strncasecmp a b n = strncasecmp_loop a b 0 n"

text \<open>
  The loop of \<open>OPENSSL_strlcpy\<close> keeps the destination, the write position, the rest of the
  source, the room left and the number of bytes copied.
\<close>

fun strlcpy_loop :: "bytes \<Rightarrow> nat \<Rightarrow> bytes \<Rightarrow> nat \<Rightarrow> nat \<Rightarrow> bytes \<times> nat \<times> bytes \<times> nat \<times> nat" where
  "strlcpy_loop dst i [] n l = (dst, i, [], n, l)"
| "strlcpy_loop dst i (c # src) n l =
     (if 1 < n \<and> c \<noteq> 0 then strlcpy_loop (dst[i := c]) (Suc i) src (n - 1) (Suc l)
      else (dst, i, c # src, n, l))"

definition strlcpy_at :: "bytes \<Rightarrow> nat \<Rightarrow> bytes \<Rightarrow> nat \<Rightarrow> bytes \<times> nat" where
  "strlcpy_at dst off src dst_size =
     (case strlcpy_loop dst off src dst_size 0 of
        (dst', i, rest, n, l) \<Rightarrow> (if n \<noteq> 0 then dst'[i := 0] else dst', l + c_strlen rest))"

definition OPENSSL_strlcpy :: "bytes \<Rightarrow> bytes \<Rightarrow> nat \<Rightarrow> bytes \<times> nat" where
  "OPENSSL_strlcpy dst src dst_size = strlcpy_at dst 0 src dst_size"

fun strlcat_loop :: "bytes \<Rightarrow> nat \<Rightarrow> nat \<Rightarrow> nat" where
  "strlcat_loop dst 0 i = i"
| "strlcat_loop dst (Suc n) i = (if dst ! i \<noteq> 0 then strlcat_loop dst n (Suc i) else i)"

definition OPENSSL_strlcat :: "bytes \<Rightarrow> bytes \<Rightarrow> nat \<Rightarrow> bytes \<times> nat" where
  "OPENSSL_strlcat dst src dst_size =
     (let l = strlcat_loop dst dst_size 0
      in case strlcpy_at dst l src (dst_size - l) of (dst', r) \<Rightarrow> (dst', l + r))"

lemma strlcpy_loop_correct:
  assumes "off + n \<le> length dst" and "0 \<in> set src" and "0 < n"
  shows "\<exists>rest n'. 0 < n' \<and>
    strlcpy_loop dst off src n l =
      (blit dst off (take (n - 1) (takeWhile (\<lambda>c. c \<noteq> 0) src)),
       off + min (n - 1) (c_strlen src), rest, n', l + min (n - 1) (c_strlen src)) \<and>
    c_strlen rest = c_strlen src - min (n - 1) (c_strlen src)"
  using assms
proof (induction src arbitrary: dst off n l)
  case Nil
  then show ?case by simp
next
  case (Cons c src)
  show ?case
  proof (cases "1 < n \<and> c \<noteq> 0")
    case True
    then have "\<exists>rest n'. 0 < n' \<and>
      strlcpy_loop (dst[off := c]) (Suc off) src (n - 1) (Suc l) =
      (blit (dst[off := c]) (Suc off) (take (n - 1 - 1) (takeWhile (\<lambda>c. c \<noteq> 0) src)),
       Suc off + min (n - 1 - 1) (c_strlen src), rest, n', Suc l + min (n - 1 - 1) (c_strlen src)) \<and>
      c_strlen rest = c_strlen src - min (n - 1 - 1) (c_strlen src)"
      using Cons.prems by (intro Cons.IH) auto
    moreover have "blit (dst[off := c]) (Suc off) (take (n - 1 - 1) (takeWhile (\<lambda>c. c \<noteq> 0) src)) =
      blit dst off (take (n - 1) (c # takeWhile (\<lambda>c. c \<noteq> 0) src))"
      using True Cons.prems(1)
      by (cases "n - 1") (auto simp: blit_def take_Suc_conv_app_nth)
    ultimately show ?thesis
      using True by (auto simp: c_strlen_def min_def)
  next
    case False
    with Cons.prems show ?thesis by (auto simp: c_strlen_def)
  qed
qed

end
