(* ===== verification/BnWords.thy ===== *)
theory BnWords
  imports ConstTime
begin

text \<open>
  The word loops of BoringSSL's big numbers (\<open>crypto/fipsmodule/bn/generic.c\<close>), for the 64-bit
  targets with a 128-bit type (\<open>BN_ULLONG\<close>): addition, subtraction and multiplication of arrays
  of words, least significant word first, with the carry, borrow or high word returned.
  \<open>words_val\<close> is the number an array stands for, and each routine is proved exact for it.
\<close>

type_synonym bn_ulong = u64
type_synonym bn_ullong = "128 word"

definition beta :: nat where
  "beta = 2 ^ 64"

fun words_val :: "bn_ulong list \<Rightarrow> nat" where
  "words_val [] = 0"
| "words_val (w # ws) = unat w + beta * words_val ws"

lemma beta_pos [simp]: "0 < beta" "beta \<noteq> 0" "1 < beta" "Suc 0 < beta" "2 \<le> beta"
  by (simp_all add: beta_def)

lemma unat_less_beta [simp]: "unat (w :: bn_ulong) < beta"
  using unsigned_less [of w, where ?'a = nat] by (simp add: beta_def)

lemma unat_le_beta: "unat (w :: bn_ulong) \<le> beta - 1"
  using unat_less_beta [of w] by linarith

lemma beta_128: "beta * beta = 2 ^ 128"
  by (simp add: beta_def)

lemma words_val_append:
  "words_val (xs @ ys) = words_val xs + beta ^ length xs * words_val ys"
  by (induction xs) (simp_all add: algebra_simps)

lemma words_val_less: "words_val ws < beta ^ length ws"
proof (induction ws)
  case (Cons w ws)
  then have "beta * Suc (words_val ws) \<le> beta * beta ^ length ws"
    by (intro mult_le_mono) simp_all
  then have "beta + beta * words_val ws \<le> beta * beta ^ length ws" by simp
  with unat_less_beta [of w] have "unat w + beta * words_val ws < beta * beta ^ length ws" by linarith
  then show ?case by simp
qed simp

lemma words_val_zeros [simp]: "words_val (replicate n 0) = 0"
  by (induction n) simp_all

lemma words_val_0: "words_val ws = 0 \<longleftrightarrow> (\<forall>w \<in> set ws. w = 0)"
  by (induction ws) (auto simp: unsigned_eq_0_iff)

lemma digits_eq:
  fixes l l' k h h' :: nat
  assumes "l < k" "l' < k"
  shows "l + k * h = l' + k * h' \<longleftrightarrow> l = l' \<and> h = h'"
proof
  assume eq: "l + k * h = l' + k * h'"
  from arg_cong [OF eq, of "\<lambda>n. n mod k"] arg_cong [OF eq, of "\<lambda>n. n div k"] assms
  show "l = l' \<and> h = h'" by simp
qed simp

lemma words_val_inject: "length xs = length ys \<Longrightarrow> words_val xs = words_val ys \<longleftrightarrow> xs = ys"
  by (induction xs ys rule: list_induct2) (simp_all add: digits_eq word_unat_eq_iff)

section \<open>Double words\<close>

definition Lw :: "bn_ullong \<Rightarrow> bn_ulong" where
  "Lw t = ucast t"

definition Hw :: "bn_ullong \<Rightarrow> bn_ulong" where
  "Hw t = ucast (drop_bit 64 t)"

lemma unat_Lw: "unat (Lw t) = unat t mod beta"
  by (simp add: Lw_def unsigned_ucast_eq beta_def take_bit_eq_mod)

lemma unat_high_word: "unat (drop_bit 64 (t :: bn_ullong)) = unat t div beta"
  by (simp only: unat_drop_bit beta_def)

lemma unat_Hw: "unat (Hw t) = unat t div beta"
proof -
  have "unat t < beta * beta"
    using unsigned_less [of t, where ?'a = nat] by (simp add: beta_def)
  then have "unat t div beta < beta" by (simp add: less_mult_imp_div_less)
  then show ?thesis
    by (simp only: Hw_def unsigned_ucast_eq unat_high_word take_bit_eq_mod)
      (simp add: beta_def)
qed

lemma Lw_Hw: "unat (Lw t) + beta * unat (Hw t) = unat t"
  by (simp add: unat_Lw unat_Hw)

text \<open>The 128-bit sums and products of words do not wrap.\<close>

definition wide :: "bn_ulong \<Rightarrow> bn_ullong" where
  "wide w = ucast w"

lemma unat_wide [simp]: "unat (wide w) = unat w"
  using unat_less_beta [of w] by (simp add: wide_def unsigned_ucast_eq take_bit_eq_mod beta_def)

lemma unat_add_128:
  fixes s t :: bn_ullong
  shows "unat s + unat t < beta * beta \<Longrightarrow> unat (s + t) = unat s + unat t"
  by (simp add: unat_word_ariths beta_def)

lemma unat_mult_128:
  fixes s t :: bn_ullong
  shows "unat s * unat t < beta * beta \<Longrightarrow> unat (s * t) = unat s * unat t"
  by (simp add: unat_word_ariths beta_def)

lemma product_bound:
  fixes a b c d :: bn_ulong
  shows "unat a * unat b + unat c + unat d < beta * beta"
proof -
  obtain k where k: "beta = Suc k" using beta_pos(1) gr0_conv_Suc by blast
  then have le: "unat w \<le> k" for w :: bn_ulong
    using unat_less_beta [of w] unfolding k by simp
  have "unat a * unat b \<le> k * k"
    by (intro mult_le_mono le)
  moreover have "unat c \<le> k" "unat d \<le> k" by (rule le)+
  ultimately show ?thesis unfolding k by simp
qed

section \<open>The loops\<close>

text \<open>
  Every loop of \<open>generic.c\<close> has the same form: \<open>while (n & ~3)\<close> runs the loop body on four words
  and advances the pointers by four, then \<open>while (n)\<close> runs it on one word at a time. The body
  reads the words at its position before it writes the result there, so that a call whose
  result array is one of its operands behaves like a call with the operand's value.
\<close>

fun one_by_one :: "('s \<Rightarrow> 'a \<Rightarrow> 'b list \<times> 's) \<Rightarrow> 's \<Rightarrow> 'a list \<Rightarrow> 'b list \<times> 's" where
  "one_by_one f s [] = ([], s)"
| "one_by_one f s (x # xs) =
     (let (r, s1) = f s x; (rs, s2) = one_by_one f s1 xs in (r @ rs, s2))"

fun four_by_four :: "('s \<Rightarrow> 'a \<Rightarrow> 'b list \<times> 's) \<Rightarrow> 's \<Rightarrow> 'a list \<Rightarrow> 'b list \<times> 's" where
  "four_by_four f s (x0 # x1 # x2 # x3 # xs) =
     (let (r0, s0) = f s x0; (r1, s1) = f s0 x1; (r2, s2) = f s1 x2; (r3, s3) = f s2 x3;
          (rs, s4) = four_by_four f s3 xs
      in (r0 @ r1 @ r2 @ r3 @ rs, s4))"
| "four_by_four f s xs = one_by_one f s xs"

lemma four_by_four_eq: "four_by_four f s xs = one_by_one f s xs"
  by (induction f s xs rule: four_by_four.induct) (simp_all add: Let_def split: prod.splits)

definition mul_add :: "bn_ulong \<Rightarrow> bn_ulong \<Rightarrow> bn_ulong \<times> bn_ulong \<Rightarrow> bn_ulong list \<times> bn_ulong" where
  "mul_add w c ra = (let t = wide w * wide (snd ra) + wide (fst ra) + wide c in ([Lw t], Hw t))"

definition mul :: "bn_ulong \<Rightarrow> bn_ulong \<Rightarrow> bn_ulong \<Rightarrow> bn_ulong list \<times> bn_ulong" where
  "mul w c a = (let t = wide w * wide a + wide c in ([Lw t], Hw t))"

definition sqr :: "unit \<Rightarrow> bn_ulong \<Rightarrow> bn_ulong list \<times> unit" where
  "sqr u a = (let t = wide a * wide a in ([Lw t, Hw t], u))"

definition add_word :: "bn_ullong \<Rightarrow> bn_ulong \<times> bn_ulong \<Rightarrow> bn_ulong list \<times> bn_ullong" where
  "add_word ll ab =
     (let ll = ll + (wide (fst ab) + wide (snd ab)) in ([Lw ll], drop_bit 64 ll))"

definition sub_word :: "bn_ulong \<Rightarrow> bn_ulong \<times> bn_ulong \<Rightarrow> bn_ulong list \<times> bn_ulong" where
  "sub_word c ab =
     (let t1 = fst ab; t2 = snd ab
      in ([t1 - t2 - c], if t1 \<noteq> t2 then (if t1 < t2 then 1 else 0) else c))"

text \<open>The routines: the result words with the carry; \<open>n\<close> words are read from each operand.\<close>

definition bn_mul_add_words :: "bn_ulong list \<Rightarrow> bn_ulong list \<Rightarrow> nat \<Rightarrow> bn_ulong \<Rightarrow> bn_ulong list \<times> bn_ulong" where
  "bn_mul_add_words rp ap num w =
     (if num = 0 then ([], 0) else four_by_four (mul_add w) 0 (zip (take num rp) (take num ap)))"

definition bn_mul_words :: "bn_ulong list \<Rightarrow> nat \<Rightarrow> bn_ulong \<Rightarrow> bn_ulong list \<times> bn_ulong" where
  "bn_mul_words ap num w =
     (if num = 0 then ([], 0) else four_by_four (mul w) 0 (take num ap))"

definition bn_sqr_words :: "bn_ulong list \<Rightarrow> nat \<Rightarrow> bn_ulong list" where
  "bn_sqr_words a n = (if n = 0 then [] else fst (four_by_four sqr () (take n a)))"

definition bn_add_words :: "bn_ulong list \<Rightarrow> bn_ulong list \<Rightarrow> nat \<Rightarrow> bn_ulong list \<times> bn_ulong" where
  "bn_add_words a b n =
     (if n = 0 then ([], 0)
      else let (r, ll) = four_by_four add_word 0 (zip (take n a) (take n b)) in (r, ucast ll))"

definition bn_sub_words :: "bn_ulong list \<Rightarrow> bn_ulong list \<Rightarrow> nat \<Rightarrow> bn_ulong list \<times> bn_ulong" where
  "bn_sub_words a b n =
     (if n = 0 then ([], 0) else four_by_four sub_word 0 (zip (take n a) (take n b)))"

section \<open>Exactness\<close>

lemma mul_add_exact:
  "mul_add w c (r, a) = ([x], d) \<Longrightarrow>
   unat x + beta * unat d = unat w * unat a + unat r + unat c"
proof -
  have "unat (wide w * wide a + wide r + wide c) = unat w * unat a + unat r + unat c"
    using product_bound [of w a r c] by (simp add: unat_add_128 unat_mult_128)
  then show "mul_add w c (r, a) = ([x], d) \<Longrightarrow>
      unat x + beta * unat d = unat w * unat a + unat r + unat c"
    by (auto simp: mul_add_def Let_def Lw_Hw)
qed

lemma mul_as_mul_add: "mul w c a = mul_add w c (0, a)"
  by (simp add: mul_def mul_add_def wide_def)

lemma one_by_one_mul: "one_by_one (mul w) c ap = one_by_one (mul_add w) c (zip (replicate (length ap) 0) ap)"
  by (induction ap arbitrary: c) (simp_all add: mul_as_mul_add)

lemma mul_add_loop:
  assumes "length rp = length ap" and "one_by_one (mul_add w) c (zip rp ap) = (x, d)"
  shows "length x = length ap \<and>
    words_val x + beta ^ length ap * unat d = words_val rp + words_val ap * unat w + unat c"
  using assms
proof (induction rp ap arbitrary: c x d rule: list_induct2)
  case (Cons r rp a ap)
  obtain y c1 where y: "mul_add w c (r, a) = ([y], c1)" by (simp add: mul_add_def Let_def)
  obtain ys c2 where ys: "one_by_one (mul_add w) c1 (zip rp ap) = (ys, c2)" by fastforce
  have x: "x = y # ys" "d = c2" using Cons.prems y ys by auto
  note rest = Cons.IH [OF ys] and one = mul_add_exact [OF y]
  have "words_val x + beta ^ length (a # ap) * unat d
      = unat y + beta * (words_val ys + beta ^ length ap * unat c2)"
    by (simp add: x algebra_simps)
  also have "\<dots> = unat y + beta * unat c1 + beta * (words_val rp + words_val ap * unat w)"
    using rest by (simp add: algebra_simps)
  also have "\<dots> = words_val (r # rp) + words_val (a # ap) * unat w + unat c"
    using one by (simp add: algebra_simps)
  finally show ?case using rest by (simp add: x)
qed simp

lemma bn_mul_add_words_exact:
  assumes "num \<le> length rp" "num \<le> length ap" "bn_mul_add_words rp ap num w = (x, d)"
  shows "length x = num"
    and "words_val x + beta ^ num * unat d = words_val (take num rp) + words_val (take num ap) * unat w"
proof -
  have "one_by_one (mul_add w) 0 (zip (take num rp) (take num ap)) = (x, d)"
    using assms by (auto simp: bn_mul_add_words_def four_by_four_eq split: if_splits)
  from mul_add_loop [OF _ this] assms(1,2)
  show "length x = num"
    and "words_val x + beta ^ num * unat d = words_val (take num rp) + words_val (take num ap) * unat w"
    by (simp_all add: min_absorb2)
qed

lemma bn_mul_words_exact:
  assumes "num \<le> length ap" "bn_mul_words ap num w = (x, d)"
  shows "length x = num" and "words_val x + beta ^ num * unat d = words_val (take num ap) * unat w"
proof -
  have "one_by_one (mul_add w) 0 (zip (replicate num 0) (take num ap)) = (x, d)"
    using assms by (auto simp: bn_mul_words_def four_by_four_eq one_by_one_mul min_def split: if_splits)
  from mul_add_loop [OF _ this] assms(1)
  show "length x = num" and "words_val x + beta ^ num * unat d = words_val (take num ap) * unat w"
    by (simp_all add: min_absorb2)
qed

lemma add_word_exact:
  assumes "unat ll \<le> 1" "add_word ll (a, b) = ([x], mm)"
  shows "unat x + beta * unat mm = unat a + unat b + unat ll" and "unat mm \<le> 1"
proof -
  have b: "unat a + unat b + unat ll < 2 * beta"
    using unat_less_beta [of a] unat_less_beta [of b] assms(1) by linarith
  also have "\<dots> \<le> beta * beta" by (intro mult_le_mono) simp_all
  finally have u: "unat (ll + (wide a + wide b)) = unat a + unat b + unat ll"
    by (simp add: unat_add_128)
  have mm: "unat mm = (unat a + unat b + unat ll) div beta"
    using assms(2) unfolding u [symmetric]
    by (auto simp: add_word_def Let_def unat_high_word)
  show "unat x + beta * unat mm = unat a + unat b + unat ll"
    using assms(2) mm u by (auto simp: add_word_def Let_def unat_Lw)
  show "unat mm \<le> 1"
    using b mm by (simp add: less_mult_imp_div_less flip: less_Suc_eq_le)
qed

lemma add_loop:
  assumes "length a = length b" "unat ll \<le> 1" "one_by_one add_word ll (zip a b) = (x, mm)"
  shows "length x = length a \<and> unat mm \<le> 1 \<and>
    words_val x + beta ^ length a * unat mm = words_val a + words_val b + unat ll"
  using assms
proof (induction a b arbitrary: ll x mm rule: list_induct2)
  case (Cons a as b bs)
  obtain y l1 where y: "add_word ll (a, b) = ([y], l1)" by (simp add: add_word_def Let_def)
  obtain ys l2 where ys: "one_by_one add_word l1 (zip as bs) = (ys, l2)" by fastforce
  have x: "x = y # ys" "mm = l2" using Cons.prems y ys by auto
  note one = add_word_exact [OF Cons.prems(1) y]
  note rest = Cons.IH [OF one(2) ys]
  have "words_val x + beta ^ length (a # as) * unat mm
      = unat y + beta * (words_val ys + beta ^ length as * unat l2)"
    by (simp add: x algebra_simps)
  also have "\<dots> = unat y + beta * unat l1 + beta * (words_val as + words_val bs)"
    using rest by (simp add: algebra_simps)
  also have "\<dots> = words_val (a # as) + words_val (b # bs) + unat ll"
    using one by (simp add: algebra_simps)
  finally show ?case using rest by (simp add: x)
qed auto

lemma bn_add_words_exact:
  assumes "n \<le> length a" "n \<le> length b" "bn_add_words a b n = (x, c)"
  shows "length x = n" and "unat c \<le> 1"
    and "words_val x + beta ^ n * unat c = words_val (take n a) + words_val (take n b)"
proof -
  obtain mm where m: "one_by_one add_word 0 (zip (take n a) (take n b)) = (x, mm)" "c = ucast mm"
    using assms(3) by (auto simp: bn_add_words_def four_by_four_eq split: if_splits prod.splits)
  note l = add_loop [OF _ _ m(1)]
  have "unat mm \<le> 1" using l assms(1,2) by simp
  then have "unat c = unat mm"
    using le_less_trans [of "unat mm" 1 "2 ^ 64"] by (simp add: m(2) unsigned_ucast_eq take_bit_nat_eq_self)
  then show "length x = n" "unat c \<le> 1"
    "words_val x + beta ^ n * unat c = words_val (take n a) + words_val (take n b)"
    using l assms(1,2) by (simp_all add: min_absorb2)
qed

lemma sub_word_exact:
  assumes "unat c \<le> 1" "sub_word c (a, b) = ([x], d)"
  shows "unat x + unat b + unat c = unat a + beta * unat d" and "unat d \<le> 1"
proof -
  have c: "c = 0 \<or> c = 1"
    using assms(1) by (metis le_less_Suc_eq less_one nat_less_le unat_1 unat_0 word_unat_eq_iff One_nat_def le_Suc_eq le_zero_eq)
  have x: "x = a - b - c" and d: "d = (if a \<noteq> b then (if a < b then 1 else 0) else c)"
    using assms(2) by (auto simp: sub_word_def Let_def)
  have ua: "unat a < 2 ^ 64" and ub: "unat b < 2 ^ 64"
    using unat_less_beta [of a] unat_less_beta [of b] by (simp_all only: beta_def)
  have eq: "a = b \<longleftrightarrow> unat a = unat b" by (rule word_unat_eq_iff)
  have one: "unat (z - 1 :: u64) = (if unat z = 0 then 2 ^ 64 - 1 else unat z - 1)" for z
    by (simp add: unat_sub_mod word_le_nat_alt)
  show "unat x + unat b + unat c = unat a + beta * unat d"
  proof (cases "unat a" "unat b" rule: linorder_cases)
    case less
    then have "d = 1" "unat (a - b) = unat a + 2 ^ 64 - unat b"
      by (auto simp: d eq word_less_nat_alt unat_sub_mod word_le_nat_alt)
    with less c ub show ?thesis unfolding x by (auto simp: one beta_def)
  next
    case equal
    then have "a = b" by (simp add: eq)
    with c show ?thesis by (auto simp: x d beta_def unsigned_minus_1_eq_mask mask_eq_exp_minus_1)
  next
    case greater
    then have "d = 0" "unat (a - b) = unat a - unat b"
      by (auto simp: d eq word_less_nat_alt unat_sub_mod word_le_nat_alt)
    with greater c ua show ?thesis unfolding x by (auto simp: one beta_def)
  qed
  show "unat d \<le> 1" using c by (auto simp: d)
qed

lemma sub_loop:
  assumes "length a = length b" "unat c \<le> 1" "one_by_one sub_word c (zip a b) = (x, d)"
  shows "length x = length a \<and> unat d \<le> 1 \<and>
    words_val x + words_val b + unat c = words_val a + beta ^ length a * unat d"
  using assms
proof (induction a b arbitrary: c x d rule: list_induct2)
  case (Cons a as b bs)
  obtain y l1 where y: "sub_word c (a, b) = ([y], l1)" by (simp add: sub_word_def Let_def)
  obtain ys l2 where ys: "one_by_one sub_word l1 (zip as bs) = (ys, l2)" by fastforce
  have x: "x = y # ys" "d = l2" using Cons.prems y ys by auto
  note one = sub_word_exact [OF Cons.prems(1) y]
  note rest = Cons.IH [OF one(2) ys]
  have "words_val x + words_val (b # bs) + unat c
      = unat y + unat b + unat c + beta * (words_val ys + words_val bs)"
    by (simp add: x algebra_simps)
  also have "\<dots> = unat a + beta * (words_val ys + words_val bs + unat l1)"
    using one by (simp add: algebra_simps)
  also have "\<dots> = words_val (a # as) + beta ^ length (a # as) * unat d"
    using rest by (simp add: x algebra_simps)
  finally show ?case using rest by (simp add: x)
qed auto

lemma bn_sub_words_exact:
  assumes "n \<le> length a" "n \<le> length b" "bn_sub_words a b n = (x, c)"
  shows "length x = n" and "unat c \<le> 1"
    and "words_val x + words_val (take n b) = words_val (take n a) + beta ^ n * unat c"
proof -
  have m: "one_by_one sub_word 0 (zip (take n a) (take n b)) = (x, c)"
    using assms(3) by (auto simp: bn_sub_words_def four_by_four_eq split: if_splits prod.splits)
  note l = sub_loop [OF _ _ m]
  show "length x = n" "unat c \<le> 1"
    "words_val x + words_val (take n b) = words_val (take n a) + beta ^ n * unat c"
    using l assms(1,2) by (simp_all add: min_absorb2)
qed

lemma sqr_loop:
  "one_by_one sqr u a = (x, v) \<Longrightarrow> length x = 2 * length a"
  by (induction a arbitrary: u x v) (auto simp: sqr_def Let_def split: prod.splits)

end
