(* ===== verification/BnComba.thy ===== *)
theory BnComba
  imports BnWords
begin

text \<open>
  The column-wise products of four and eight words of \<open>crypto/fipsmodule/bn/generic.c\<close>
  (\<open>bn_mul_comba4/8\<close>, \<open>bn_sqr_comba4/8\<close>). Each column of partial products is added to a
  three-word accumulator, whose low word is the next word of the result; the roles of the three
  variables rotate with the columns. The columns are tables with the entries in the order of the
  source; the theorems show that the tables are complete and that the accumulator never overflows.
\<close>

type_synonym acc = "bn_ulong \<times> bn_ulong \<times> bn_ulong"

definition acc_val :: "acc \<Rightarrow> nat" where
  "acc_val c = (case c of (c0, c1, c2) \<Rightarrow> unat c0 + beta * unat c1 + beta * beta * unat c2)"

text \<open>Adding a double word to the accumulator: \<open>t += c0\<close> and the carries into \<open>c1\<close> and \<open>c2\<close>.\<close>

definition add_to_acc :: "bn_ullong \<Rightarrow> acc \<Rightarrow> acc" where
  "add_to_acc t c =
     (case c of (c0, c1, c2) \<Rightarrow>
        let t = t + wide c0; hi = Hw t; c1 = c1 + hi
        in (Lw t, c1, if c1 < hi then c2 + 1 else c2))"

definition mul_add_c :: "bn_ulong \<Rightarrow> bn_ulong \<Rightarrow> acc \<Rightarrow> acc" where
  "mul_add_c a b c = add_to_acc (wide a * wide b) c"

definition mul_add_c2 :: "bn_ulong \<Rightarrow> bn_ulong \<Rightarrow> acc \<Rightarrow> acc" where
  "mul_add_c2 a b c = (let t = wide a * wide b in add_to_acc t (add_to_acc t c))"

definition sqr_add_c :: "bn_ulong list \<Rightarrow> nat \<Rightarrow> acc \<Rightarrow> acc" where
  "sqr_add_c a i c = add_to_acc (wide (a ! i) * wide (a ! i)) c"

definition sqr_add_c2 :: "bn_ulong list \<Rightarrow> nat \<Rightarrow> nat \<Rightarrow> acc \<Rightarrow> acc" where
  "sqr_add_c2 a i j c = mul_add_c2 (a ! i) (a ! j) c"

fun comba :: "('t \<Rightarrow> acc \<Rightarrow> acc) \<Rightarrow> acc \<Rightarrow> 't list list \<Rightarrow> bn_ulong list" where
  "comba f c [] = [fst c]"
| "comba f c (col # cols) =
     (case fold f col c of (c1, c2, c3) \<Rightarrow> c1 # comba f (c2, c3, 0) cols)"

datatype sqr_term = Once nat | Twice nat nat

definition bn_mul_comba8_columns :: "(nat \<times> nat) list list" where
  "bn_mul_comba8_columns =
     [[(0, 0)],
      [(0, 1), (1, 0)],
      [(2, 0), (1, 1), (0, 2)],
      [(0, 3), (1, 2), (2, 1), (3, 0)],
      [(4, 0), (3, 1), (2, 2), (1, 3), (0, 4)],
      [(0, 5), (1, 4), (2, 3), (3, 2), (4, 1), (5, 0)],
      [(6, 0), (5, 1), (4, 2), (3, 3), (2, 4), (1, 5), (0, 6)],
      [(0, 7), (1, 6), (2, 5), (3, 4), (4, 3), (5, 2), (6, 1), (7, 0)],
      [(7, 1), (6, 2), (5, 3), (4, 4), (3, 5), (2, 6), (1, 7)],
      [(2, 7), (3, 6), (4, 5), (5, 4), (6, 3), (7, 2)],
      [(7, 3), (6, 4), (5, 5), (4, 6), (3, 7)],
      [(4, 7), (5, 6), (6, 5), (7, 4)],
      [(7, 5), (6, 6), (5, 7)],
      [(6, 7), (7, 6)],
      [(7, 7)]]"

definition bn_mul_comba4_columns :: "(nat \<times> nat) list list" where
  "bn_mul_comba4_columns =
     [[(0, 0)],
      [(0, 1), (1, 0)],
      [(2, 0), (1, 1), (0, 2)],
      [(0, 3), (1, 2), (2, 1), (3, 0)],
      [(3, 1), (2, 2), (1, 3)],
      [(2, 3), (3, 2)],
      [(3, 3)]]"

definition bn_sqr_comba8_columns :: "sqr_term list list" where
  "bn_sqr_comba8_columns =
     [[Once 0],
      [Twice 1 0],
      [Once 1, Twice 2 0],
      [Twice 3 0, Twice 2 1],
      [Once 2, Twice 3 1, Twice 4 0],
      [Twice 5 0, Twice 4 1, Twice 3 2],
      [Once 3, Twice 4 2, Twice 5 1, Twice 6 0],
      [Twice 7 0, Twice 6 1, Twice 5 2, Twice 4 3],
      [Once 4, Twice 5 3, Twice 6 2, Twice 7 1],
      [Twice 7 2, Twice 6 3, Twice 5 4],
      [Once 5, Twice 6 4, Twice 7 3],
      [Twice 7 4, Twice 6 5],
      [Once 6, Twice 7 5],
      [Twice 7 6],
      [Once 7]]"

definition bn_sqr_comba4_columns :: "sqr_term list list" where
  "bn_sqr_comba4_columns =
     [[Once 0],
      [Twice 1 0],
      [Once 1, Twice 2 0],
      [Twice 3 0, Twice 2 1],
      [Once 2, Twice 3 1],
      [Twice 3 2],
      [Once 3]]"

definition mul_term :: "bn_ulong list \<Rightarrow> bn_ulong list \<Rightarrow> nat \<times> nat \<Rightarrow> acc \<Rightarrow> acc" where
  "mul_term a b = (\<lambda>(i, j). mul_add_c (a ! i) (b ! j))"

fun sqr_step :: "bn_ulong list \<Rightarrow> sqr_term \<Rightarrow> acc \<Rightarrow> acc" where
  "sqr_step a (Once i) c = sqr_add_c a i c"
| "sqr_step a (Twice i j) c = sqr_add_c2 a i j c"

definition bn_mul_comba8 :: "bn_ulong list \<Rightarrow> bn_ulong list \<Rightarrow> bn_ulong list" where
  "bn_mul_comba8 a b = comba (mul_term a b) (0, 0, 0) bn_mul_comba8_columns"

definition bn_mul_comba4 :: "bn_ulong list \<Rightarrow> bn_ulong list \<Rightarrow> bn_ulong list" where
  "bn_mul_comba4 a b = comba (mul_term a b) (0, 0, 0) bn_mul_comba4_columns"

definition bn_sqr_comba8 :: "bn_ulong list \<Rightarrow> bn_ulong list" where
  "bn_sqr_comba8 a = comba (sqr_step a) (0, 0, 0) bn_sqr_comba8_columns"

definition bn_sqr_comba4 :: "bn_ulong list \<Rightarrow> bn_ulong list" where
  "bn_sqr_comba4 a = comba (sqr_step a) (0, 0, 0) bn_sqr_comba4_columns"

declare comba.simps [simp del]

section \<open>Exactness\<close>

lemma unat_add_carry:
  "unat (a + b :: bn_ulong) + beta * (if a + b < b then 1 else 0) = unat a + unat b"
proof -
  have u: "unat (a + b) = (unat a + unat b) mod beta" by (simp add: unat_word_ariths beta_def)
  note less = unat_less_beta [of a] unat_less_beta [of b]
  show ?thesis
  proof (cases "unat a + unat b < beta")
    case True
    then show ?thesis using u by (simp add: word_less_nat_alt)
  next
    case False
    then have "unat (a + b) = unat a + unat b - beta"
      using u less mod_nat_eqI [of "unat a + unat b - beta" beta "unat a + unat b"] by simp
    moreover from this False less have "unat (a + b) < unat b" by linarith
    then have "a + b < b" by (simp add: word_less_nat_alt)
    ultimately show ?thesis using False by simp
  qed
qed

lemma add_to_acc_exact:
  assumes t: "unat t + (beta - 1) < beta * beta" and fits: "acc_val c + unat t < beta ^ 3"
  shows "acc_val (add_to_acc t c) = acc_val c + unat t"
proof -
  obtain c0 c1 c2 where c: "c = (c0, c1, c2)" by (cases c)
  define s where "s = t + wide c0"
  define k :: nat where "k = (if c1 + Hw s < Hw s then 1 else 0)"
  have s: "unat s = unat t + unat c0"
    unfolding s_def using t unat_le_beta [of c0] by (simp add: unat_add_128)
  have low: "unat (Lw s) + beta * (unat (c1 + Hw s) + beta * k) = unat t + unat c0 + beta * unat c1"
    using unat_add_carry [of c1 "Hw s"] Lw_Hw [of s] s by (simp add: k_def algebra_simps)
  have "beta * beta * (unat c2 + k) \<le> acc_val c + unat t"
    using low by (simp add: acc_val_def c algebra_simps)
  also have "\<dots> < beta * beta * beta" using fits by (simp add: eval_nat_numeral algebra_simps)
  finally have "unat c2 + k < beta" by simp
  then have "unat (if c1 + Hw s < Hw s then c2 + 1 else c2) = unat c2 + k"
    using unat_word_ariths(1) [of c2 1] by (simp add: k_def beta_def split: if_splits)
  then show ?thesis
    using low by (simp add: acc_val_def add_to_acc_def c Let_def flip: s_def) (simp add: algebra_simps)
qed

lemma product_less:
  fixes a b :: bn_ulong
  shows "unat (wide a * wide b) = unat a * unat b" "unat a * unat b + (beta - 1) < beta * beta"
proof -
  have "\<exists>w. unat (w :: bn_ulong) = beta - 1"
    by (rule exI [of _ "- 1"]) (simp add: unsigned_minus_1_eq_mask mask_eq_exp_minus_1 beta_def)
  then obtain w :: bn_ulong where "unat w = beta - 1" by blast
  with product_bound [of a b w 0] show "unat a * unat b + (beta - 1) < beta * beta" by simp
  then show "unat (wide a * wide b) = unat a * unat b" by (simp add: unat_mult_128)
qed

lemma mul_add_c_exact:
  "acc_val c + unat a * unat b < beta ^ 3 \<Longrightarrow> acc_val (mul_add_c a b c) = acc_val c + unat a * unat b"
  using product_less [of a b] by (simp add: mul_add_c_def add_to_acc_exact)

lemma mul_add_c2_exact:
  "acc_val c + 2 * (unat a * unat b) < beta ^ 3 \<Longrightarrow>
   acc_val (mul_add_c2 a b c) = acc_val c + 2 * (unat a * unat b)"
  using product_less [of a b] by (simp add: mul_add_c2_def Let_def add_to_acc_exact)

text \<open>
  A step function adds weights: the accumulator keeps the exact sum of a column as long as the
  sum fits in three words.
\<close>

definition adds :: "('t \<Rightarrow> acc \<Rightarrow> acc) \<Rightarrow> ('t \<Rightarrow> nat) \<Rightarrow> bool" where
  "adds f v \<longleftrightarrow> (\<forall>t c. acc_val c + v t < beta ^ 3 \<longrightarrow> acc_val (f t c) = acc_val c + v t)"

lemma adds_mul: "adds (mul_term a b) (\<lambda>(i, j). unat (a ! i) * unat (b ! j))"
  by (auto simp: adds_def mul_term_def mul_add_c_exact)

fun sqr_weight :: "bn_ulong list \<Rightarrow> sqr_term \<Rightarrow> nat" where
  "sqr_weight a (Once i) = unat (a ! i) * unat (a ! i)"
| "sqr_weight a (Twice i j) = 2 * (unat (a ! i) * unat (a ! j))"

lemma adds_sqr: "adds (sqr_step a) (sqr_weight a)"
  unfolding adds_def
proof (intro allI impI)
  fix t c
  show "acc_val c + sqr_weight a t < beta ^ 3 \<Longrightarrow>
      acc_val (sqr_step a t c) = acc_val c + sqr_weight a t"
    by (cases t) (simp_all add: sqr_add_c_def sqr_add_c2_def mul_add_c2_exact mul_add_c_exact
        flip: mul_add_c_def)
qed

lemma fold_adds:
  "adds f v \<Longrightarrow> acc_val c + sum_list (map v col) < beta ^ 3 \<Longrightarrow>
   acc_val (fold f col c) = acc_val c + sum_list (map v col)"
proof (induction col arbitrary: c)
  case (Cons t col)
  from Cons.prems have "acc_val c + v t < beta ^ 3" by simp
  with Cons.prems(1) have "acc_val (f t c) = acc_val c + v t" unfolding adds_def by blast
  with Cons show ?case by (simp add: add.assoc)
qed simp

fun columns_val :: "('t \<Rightarrow> nat) \<Rightarrow> 't list list \<Rightarrow> nat" where
  "columns_val v [] = 0"
| "columns_val v (col # cols) = sum_list (map v col) + beta * columns_val v cols"

lemma mod_step: "c mod beta + beta * ((c div beta + y) mod k) = (c + beta * y) mod (beta * k)"
proof -
  have "(c + beta * y) mod (beta * k) = (c + beta * y) mod beta + beta * ((c + beta * y) div beta mod k)"
    by (simp add: mod_mult2_eq)
  then show ?thesis by (simp add: add.commute)
qed

lemma comba_exact:
  assumes "adds f v" and "\<And>col. col \<in> set cols \<Longrightarrow> sum_list (map v col) + beta * beta \<le> beta ^ 3"
    and "acc_val c < beta * beta"
  shows "words_val (comba f c cols) = (acc_val c + columns_val v cols) mod beta ^ Suc (length cols)"
  using assms(2,3)
proof (induction cols arbitrary: c)
  case Nil
  obtain c0 c1 c2 where "c = (c0, c1, c2)" by (cases c)
  moreover have "(unat c0 + beta * unat c1 + beta * beta * unat c2) mod beta = unat c0"
    by (simp add: mult.assoc)
  ultimately show ?case by (simp add: acc_val_def comba.simps)
next
  case (Cons col cols)
  obtain c1 c2 c3 where f: "fold f col c = (c1, c2, c3)" using prod_cases3 by blast
  have "acc_val c + sum_list (map v col) < beta ^ 3"
    using Cons.prems(1) [of col] Cons.prems(2) by simp
  then have s: "acc_val (c1, c2, c3) = acc_val c + sum_list (map v col)"
    using fold_adds [OF assms(1)] f by metis
  have shift: "acc_val (c1, c2, c3) = unat c1 + beta * acc_val (c2, c3, 0)"
    by (simp add: acc_val_def algebra_simps)
  have less: "acc_val (c2, c3, 0) < beta * beta"
    using words_val_less [of "[c2, c3]"] by (simp add: acc_val_def eval_nat_numeral)
  have "words_val (comba f c (col # cols)) =
      unat c1 + beta * ((acc_val (c2, c3, 0) + columns_val v cols) mod beta ^ Suc (length cols))"
    using Cons.IH [OF Cons.prems(1) less] by (simp add: f comba.simps)
  also have "unat c1 = acc_val (c1, c2, c3) mod beta" by (simp add: shift)
  also have "acc_val (c2, c3, 0) = acc_val (c1, c2, c3) div beta" by (simp add: shift)
  also note mod_step
  finally show ?case by (simp add: s add.assoc)
qed

lemma length_comba [simp]: "length (comba f c cols) = Suc (length cols)"
  by (induction cols arbitrary: c) (auto simp: comba.simps split: prod.splits)

lemma product_le: "unat (a :: bn_ulong) * unat (b :: bn_ulong) \<le> beta * beta"
  using unat_less_beta [of a] unat_less_beta [of b] by (intro mult_le_mono less_imp_le)

lemma sum_bound: "(\<And>t. t \<in> set col \<Longrightarrow> v t \<le> k) \<Longrightarrow> sum_list (map v col) \<le> length col * k" for k :: nat
  by (induction col) (auto intro: add_mono)

lemma column_fits:
  assumes "\<And>t. t \<in> set col \<Longrightarrow> v t \<le> 2 * (beta * beta)" and "length col \<le> 8"
  shows "sum_list (map v col) + beta * beta \<le> beta ^ 3"
proof -
  have "sum_list (map v col) + beta * beta \<le> length col * (2 * (beta * beta)) + beta * beta"
    using sum_bound [of col v] assms(1) by simp
  also have "\<dots> \<le> 17 * (beta * beta)" using assms(2) by simp
  also have "\<dots> \<le> beta * (beta * beta)" by (intro mult_le_mono) (simp_all add: beta_def)
  finally show ?thesis by (simp add: eval_nat_numeral algebra_simps)
qed

lemma mul_comba:
  assumes cols: "\<forall>col \<in> set cols. length col \<le> 8" and len: "length a + length b = Suc (length cols)"
    and all: "columns_val (\<lambda>(i, j). unat (a ! i) * unat (b ! j)) cols = words_val a * words_val b"
  shows "words_val (comba (mul_term a b) (0, 0, 0) cols) = words_val a * words_val b"
proof -
  have "words_val (comba (mul_term a b) (0, 0, 0) cols) =
      (acc_val (0, 0, 0) + words_val a * words_val b) mod beta ^ Suc (length cols)"
    unfolding all [symmetric]
    by (rule comba_exact [OF adds_mul])
      (use cols in \<open>auto intro!: column_fits le_trans [OF product_le] simp: acc_val_def\<close>)
  moreover have "words_val a * words_val b < beta ^ Suc (length cols)"
    unfolding len [symmetric] power_add by (intro mult_strict_mono words_val_less) simp_all
  ultimately show ?thesis by (simp add: acc_val_def)
qed

lemma sqr_comba:
  assumes cols: "\<forall>col \<in> set cols. length col \<le> 8" and len: "2 * length a = Suc (length cols)"
    and all: "columns_val (sqr_weight a) cols = words_val a * words_val a"
  shows "words_val (comba (sqr_step a) (0, 0, 0) cols) = words_val a * words_val a"
proof -
  have w: "sqr_weight a t \<le> 2 * (beta * beta)" for t
    using product_le by (cases t) (auto intro: le_trans [OF product_le])
  have "words_val (comba (sqr_step a) (0, 0, 0) cols) =
      (acc_val (0, 0, 0) + words_val a * words_val a) mod beta ^ Suc (length cols)"
    unfolding all [symmetric]
    by (rule comba_exact [OF adds_sqr]) (use cols w in \<open>auto intro!: column_fits simp: acc_val_def\<close>)
  moreover have "words_val a * words_val a < beta ^ Suc (length cols)"
    unfolding len [symmetric] mult_2 power_add by (intro mult_strict_mono words_val_less) simp_all
  ultimately show ?thesis by (simp add: acc_val_def)
qed

lemma eight_words: "length a = 8 \<Longrightarrow> \<exists>a0 a1 a2 a3 a4 a5 a6 a7. a = [a0, a1, a2, a3, a4, a5, a6, a7]"
  by (simp add: eval_nat_numeral length_Suc_conv) blast

lemma four_words: "length a = 4 \<Longrightarrow> \<exists>a0 a1 a2 a3. a = [a0, a1, a2, a3]"
  by (simp add: eval_nat_numeral length_Suc_conv) blast

lemma bn_mul_comba8_exact:
  assumes "length a = 8" "length b = 8"
  shows "words_val (bn_mul_comba8 a b) = words_val a * words_val b" "length (bn_mul_comba8 a b) = 16"
proof -
  have "columns_val (\<lambda>(i, j). unat (a ! i) * unat (b ! j)) bn_mul_comba8_columns = words_val a * words_val b"
    using eight_words [OF assms(1)] eight_words [OF assms(2)]
    by (elim exE) (simp add: bn_mul_comba8_columns_def algebra_simps)
  then show "words_val (bn_mul_comba8 a b) = words_val a * words_val b"
    unfolding bn_mul_comba8_def using assms by (intro mul_comba) (simp_all add: bn_mul_comba8_columns_def)
qed (simp add: bn_mul_comba8_def bn_mul_comba8_columns_def)

lemma bn_mul_comba4_exact:
  assumes "length a = 4" "length b = 4"
  shows "words_val (bn_mul_comba4 a b) = words_val a * words_val b" "length (bn_mul_comba4 a b) = 8"
proof -
  have "columns_val (\<lambda>(i, j). unat (a ! i) * unat (b ! j)) bn_mul_comba4_columns = words_val a * words_val b"
    using four_words [OF assms(1)] four_words [OF assms(2)]
    by (elim exE) (simp add: bn_mul_comba4_columns_def algebra_simps)
  then show "words_val (bn_mul_comba4 a b) = words_val a * words_val b"
    unfolding bn_mul_comba4_def using assms by (intro mul_comba) (simp_all add: bn_mul_comba4_columns_def)
qed (simp add: bn_mul_comba4_def bn_mul_comba4_columns_def)

lemma bn_sqr_comba8_exact:
  assumes "length a = 8"
  shows "words_val (bn_sqr_comba8 a) = words_val a * words_val a" "length (bn_sqr_comba8 a) = 16"
proof -
  have "columns_val (sqr_weight a) bn_sqr_comba8_columns = words_val a * words_val a"
    using eight_words [OF assms(1)]
    by (elim exE) (simp add: bn_sqr_comba8_columns_def algebra_simps)
  then show "words_val (bn_sqr_comba8 a) = words_val a * words_val a"
    unfolding bn_sqr_comba8_def using assms by (intro sqr_comba) (simp_all add: bn_sqr_comba8_columns_def)
qed (simp add: bn_sqr_comba8_def bn_sqr_comba8_columns_def)

lemma bn_sqr_comba4_exact:
  assumes "length a = 4"
  shows "words_val (bn_sqr_comba4 a) = words_val a * words_val a" "length (bn_sqr_comba4 a) = 8"
proof -
  have "columns_val (sqr_weight a) bn_sqr_comba4_columns = words_val a * words_val a"
    using four_words [OF assms(1)]
    by (elim exE) (simp add: bn_sqr_comba4_columns_def algebra_simps)
  then show "words_val (bn_sqr_comba4 a) = words_val a * words_val a"
    unfolding bn_sqr_comba4_def using assms by (intro sqr_comba) (simp_all add: bn_sqr_comba4_columns_def)
qed (simp add: bn_sqr_comba4_def bn_sqr_comba4_columns_def)

end
