(* ===== verification/Bn.thy ===== *)
theory Bn
  imports BnComba
begin

text \<open>
  The \<open>BIGNUM\<close> object of BoringSSL: \<open>crypto/fipsmodule/bn/bn.c\<close> (allocation, width, sign, copies)
  and \<open>cmp.c\<close> (comparisons). A number is a sign and \<open>bn_width\<close> words of the block \<open>bn_d\<close> of
  \<open>bn_dmax\<close> words; the width may exceed the minimal one. \<open>bn_abs\<close> and \<open>bn_int\<close> are the number the
  object stands for, and the operations are proved for every width, as \<open>bn.h\<close> asks.
  \<open>mem\<close> is the platform's allocator with arbitrary contents of the fresh words.
\<close>

record bignum =
  bn_d :: "bn_ulong list"
  bn_width :: nat
  bn_dmax :: nat
  bn_neg :: bool
  bn_malloced :: bool
  bn_static :: bool

type_synonym bn_mem = "nat \<Rightarrow> bn_ulong list option"

definition bn_ok :: "bignum \<Rightarrow> bool" where
  "bn_ok bn \<longleftrightarrow> length (bn_d bn) = bn_dmax bn \<and> bn_width bn \<le> bn_dmax bn \<and> bn_dmax bn \<le> INT_MAX"

definition bn_words :: "bignum \<Rightarrow> bn_ulong list" where
  "bn_words bn = take (bn_width bn) (bn_d bn)"

definition bn_abs :: "bignum \<Rightarrow> nat" where
  "bn_abs bn = words_val (bn_words bn)"

definition bn_int :: "bignum \<Rightarrow> int" where
  "bn_int bn = (if bn_neg bn then - int (bn_abs bn) else int (bn_abs bn))"

text \<open>The sign of a zero is never negative.\<close>

definition bn_canonical :: "bignum \<Rightarrow> bool" where
  "bn_canonical bn \<longleftrightarrow> (bn_neg bn \<longrightarrow> bn_abs bn \<noteq> 0)"

section \<open>Allocation and assignment (bn.c)\<close>

definition BN_init :: bignum where
  "BN_init = \<lparr>bn_d = [], bn_width = 0, bn_dmax = 0, bn_neg = False,
     bn_malloced = False, bn_static = False\<rparr>"

definition BN_new :: "bn_mem \<Rightarrow> bignum option" where
  "BN_new mem =
     (case ossl_malloc 8 mem 0 24 of
        None \<Rightarrow> None
      | Some _ \<Rightarrow> Some (BN_init\<lparr>bn_malloced := True\<rparr>))"

definition bn_wexpand :: "bn_mem \<Rightarrow> nat \<Rightarrow> bignum \<Rightarrow> unit option \<times> bignum" where
  "bn_wexpand mem words bn =
     (if words \<le> bn_dmax bn then (Some (), bn)
      else if words > INT_MAX div (4 * 64) then (None, bn)
      else if bn_static bn then (None, bn)
      else case ossl_malloc 8 mem 0 (size_mul 8 words) of
        None \<Rightarrow> (None, bn)
      | Some a \<Rightarrow>
          (Some (), bn\<lparr>bn_d := blit a 0 (take (bn_width bn) (bn_d bn)), bn_dmax := words\<rparr>))"

definition bn_expand :: "bn_mem \<Rightarrow> nat \<Rightarrow> bignum \<Rightarrow> unit option \<times> bignum" where
  "bn_expand mem bits bn =
     (if size_add bits (64 - 1) < bits then (None, bn)
      else bn_wexpand mem ((bits + 64 - 1) div 64) bn)"

definition BN_copy :: "bn_mem \<Rightarrow> bignum \<Rightarrow> bignum \<Rightarrow> unit option \<times> bignum" where
  "BN_copy mem src dest =
     on_ok (bn_wexpand mem (bn_width src) dest) (\<lambda>_ dest.
       (Some (), dest\<lparr>bn_d := blit (bn_d dest) 0 (take (bn_width src) (bn_d src)),
                      bn_width := bn_width src, bn_neg := bn_neg src\<rparr>))"

definition BN_dup :: "bn_mem \<Rightarrow> bignum \<Rightarrow> bignum option" where
  "BN_dup mem src =
     (case BN_new mem of
        None \<Rightarrow> None
      | Some copy \<Rightarrow>
          (case BN_copy mem src copy of (None, _) \<Rightarrow> None | (Some _, copy) \<Rightarrow> Some copy))"

definition BN_clear :: "bignum \<Rightarrow> bignum" where
  "BN_clear bn = bn\<lparr>bn_d := replicate (bn_dmax bn) 0, bn_width := 0, bn_neg := False\<rparr>"

definition BN_value_one :: bignum where
  "BN_value_one = \<lparr>bn_d = [1], bn_width = 1, bn_dmax = 1, bn_neg = False,
     bn_malloced = False, bn_static = True\<rparr>"

definition num_bits_block :: "nat \<Rightarrow> nat \<times> bn_ulong \<Rightarrow> nat \<times> bn_ulong" where
  "num_bits_block k = (\<lambda>(bits, l).
     let x = drop_bit k l; mk = 0 - x; mk = 0 - drop_bit (64 - 1) mk
     in (bits + unat (of_nat k AND mk), l XOR ((x XOR l) AND mk)))"

definition BN_num_bits_word :: "bn_ulong \<Rightarrow> nat" where
  "BN_num_bits_word l =
     fst (num_bits_block 1 (num_bits_block 2 (num_bits_block 4 (num_bits_block 8
       (num_bits_block 16 (num_bits_block 32 (if l \<noteq> 0 then 1 else 0, l)))))))"

fun minimal_width :: "bn_ulong list \<Rightarrow> nat \<Rightarrow> nat" where
  "minimal_width d 0 = 0"
| "minimal_width d (Suc ret) = (if d ! ret = 0 then minimal_width d ret else Suc ret)"

definition bn_minimal_width :: "bignum \<Rightarrow> nat" where
  "bn_minimal_width bn = minimal_width (bn_d bn) (bn_width bn)"

definition bn_set_minimal_width :: "bignum \<Rightarrow> bignum" where
  "bn_set_minimal_width bn =
     (let bn = bn\<lparr>bn_width := bn_minimal_width bn\<rparr>
      in if bn_width bn = 0 then bn\<lparr>bn_neg := False\<rparr> else bn)"

definition BN_num_bits :: "bignum \<Rightarrow> nat" where
  "BN_num_bits bn =
     (let width = bn_minimal_width bn
      in if width = 0 then 0 else (width - 1) * 64 + BN_num_bits_word (bn_d bn ! (width - 1)))"

definition BN_num_bytes :: "bignum \<Rightarrow> nat" where
  "BN_num_bytes bn = (BN_num_bits bn + 7) div 8"

definition BN_zero :: "bignum \<Rightarrow> bignum" where
  "BN_zero bn = bn\<lparr>bn_width := 0, bn_neg := False\<rparr>"

definition BN_set_word :: "bn_mem \<Rightarrow> bn_ulong \<Rightarrow> bignum \<Rightarrow> unit option \<times> bignum" where
  "BN_set_word mem v bn =
     (if v = 0 then (Some (), BN_zero bn)
      else on_ok (bn_wexpand mem 1 bn) (\<lambda>_ bn.
        (Some (), bn\<lparr>bn_neg := False, bn_d := (bn_d bn)[0 := v], bn_width := 1\<rparr>)))"

definition BN_one :: "bn_mem \<Rightarrow> bignum \<Rightarrow> unit option \<times> bignum" where
  "BN_one mem bn = BN_set_word mem 1 bn"

definition BN_set_u64 :: "bn_mem \<Rightarrow> u64 \<Rightarrow> bignum \<Rightarrow> unit option \<times> bignum" where
  "BN_set_u64 mem v bn = BN_set_word mem v bn"

definition bn_set_words :: "bn_mem \<Rightarrow> bn_ulong list \<Rightarrow> nat \<Rightarrow> bignum \<Rightarrow> unit option \<times> bignum" where
  "bn_set_words mem words num bn =
     on_ok (bn_wexpand mem num bn) (\<lambda>_ bn.
       (Some (), bn\<lparr>bn_d := blit (bn_d bn) 0 (take num words), bn_width := num, bn_neg := False\<rparr>))"

definition or_words :: "bn_ulong list \<Rightarrow> bn_ulong" where
  "or_words ws = foldl (\<lambda>m w. m OR w) 0 ws"

definition bn_fits_in_words :: "bignum \<Rightarrow> nat \<Rightarrow> bool" where
  "bn_fits_in_words bn num = (or_words (drop num (take (bn_width bn) (bn_d bn))) = 0)"

definition bn_copy_words :: "nat \<Rightarrow> bignum \<Rightarrow> bn_ulong list option" where
  "bn_copy_words num bn =
     (if bn_neg bn then None
      else if bn_width bn > num \<and> \<not> bn_fits_in_words bn num then None
      else let width = (if bn_width bn > num then num else bn_width bn)
           in Some (blit (replicate num 0) 0 (take width (bn_d bn))))"

definition BN_is_negative :: "bignum \<Rightarrow> bool" where
  "BN_is_negative bn = bn_neg bn"

definition BN_is_zero :: "bignum \<Rightarrow> bool" where
  "BN_is_zero bn = bn_fits_in_words bn 0"

definition BN_set_negative :: "bool \<Rightarrow> bignum \<Rightarrow> bignum" where
  "BN_set_negative sg bn = bn\<lparr>bn_neg := sg \<and> \<not> BN_is_zero bn\<rparr>"

definition bn_resize_words :: "bn_mem \<Rightarrow> nat \<Rightarrow> bignum \<Rightarrow> unit option \<times> bignum" where
  "bn_resize_words mem words bn =
     (if bn_width bn \<le> words then
        on_ok (bn_wexpand mem words bn) (\<lambda>_ bn.
          (Some (), bn\<lparr>bn_d := blit (bn_d bn) (bn_width bn) (replicate (words - bn_width bn) 0),
                       bn_width := words\<rparr>))
      else if \<not> bn_fits_in_words bn words then (None, bn)
      else (Some (), bn\<lparr>bn_width := words\<rparr>))"

definition bn_select_words :: "bn_ulong \<Rightarrow> bn_ulong list \<Rightarrow> bn_ulong list \<Rightarrow> nat \<Rightarrow> bn_ulong list" where
  "bn_select_words m a b num = map (\<lambda>i. constant_time_select_w m (a ! i) (b ! i)) [0..<num]"

section \<open>Comparisons (cmp.c)\<close>

definition cmp_word :: "bn_ulong \<times> bn_ulong \<Rightarrow> 32 word \<Rightarrow> 32 word" where
  "cmp_word = (\<lambda>(a, b) ret.
     constant_time_select_int (constant_time_eq_w a b) ret
       (constant_time_select_int (constant_time_lt_w a b) (- 1) 1))"

definition bn_cmp_words_consttime :: "bn_ulong list \<Rightarrow> nat \<Rightarrow> bn_ulong list \<Rightarrow> nat \<Rightarrow> 32 word" where
  "bn_cmp_words_consttime a a_len b b_len =
     (let mn = (if a_len < b_len then a_len else b_len);
          ret = fold cmp_word (zip (take mn a) (take mn b)) 0
      in if a_len < b_len then
           constant_time_select_int
             (constant_time_is_zero_w (or_words (drop a_len (take b_len b)))) ret (- 1)
         else if b_len < a_len then
           constant_time_select_int
             (constant_time_is_zero_w (or_words (drop b_len (take a_len a)))) ret 1
         else ret)"

definition BN_ucmp :: "bignum \<Rightarrow> bignum \<Rightarrow> 32 word" where
  "BN_ucmp a b = bn_cmp_words_consttime (bn_d a) (bn_width a) (bn_d b) (bn_width b)"

fun BN_cmp :: "bignum option \<Rightarrow> bignum option \<Rightarrow> 32 word" where
  "BN_cmp (Some a) (Some b) =
     (if bn_neg a \<noteq> bn_neg b then (if bn_neg a then - 1 else 1)
      else let ret = BN_ucmp a b in if bn_neg a then - ret else ret)"
| "BN_cmp (Some a) None = - 1"
| "BN_cmp None (Some b) = 1"
| "BN_cmp None None = 0"

definition bn_less_than_words :: "bn_ulong list \<Rightarrow> bn_ulong list \<Rightarrow> nat \<Rightarrow> bool" where
  "bn_less_than_words a b n = (sint (bn_cmp_words_consttime a n b n) < 0)"

definition BN_abs_is_word :: "bignum \<Rightarrow> bn_ulong \<Rightarrow> bool" where
  "BN_abs_is_word bn w =
     (if bn_width bn = 0 then w = 0
      else (bn_d bn ! 0 XOR w) OR or_words (drop 1 (take (bn_width bn) (bn_d bn))) = 0)"

definition BN_cmp_word :: "bignum \<Rightarrow> bn_ulong \<Rightarrow> 32 word" where
  "BN_cmp_word a b =
     BN_cmp (Some a)
       (Some (BN_init\<lparr>bn_d := [b], bn_width := (if b > 0 then 1 else 0), bn_dmax := 1, bn_static := True\<rparr>))"

definition BN_is_one :: "bignum \<Rightarrow> bool" where
  "BN_is_one bn = (\<not> bn_neg bn \<and> BN_abs_is_word bn 1)"

definition BN_is_word :: "bignum \<Rightarrow> bn_ulong \<Rightarrow> bool" where
  "BN_is_word bn w = (BN_abs_is_word bn w \<and> (w = 0 \<or> \<not> bn_neg bn))"

definition BN_is_odd :: "bignum \<Rightarrow> bool" where
  "BN_is_odd bn = (bn_width bn > 0 \<and> bn_d bn ! 0 AND 1 = 1)"

definition BN_is_pow2 :: "bignum \<Rightarrow> bool" where
  "BN_is_pow2 bn =
     (let width = bn_minimal_width bn
      in if width = 0 \<or> bn_neg bn then False
         else if \<exists>w \<in> set (take (width - 1) (bn_d bn)). w \<noteq> 0 then False
         else bn_d bn ! (width - 1) AND (bn_d bn ! (width - 1) - 1) = 0)"

definition BN_equal_consttime :: "bignum \<Rightarrow> bignum \<Rightarrow> bool" where
  "BN_equal_consttime a b =
     (let mn = (if bn_width a < bn_width b then bn_width a else bn_width b);
          m = or_words (drop (bn_width a) (take (bn_width b) (bn_d b)))
              OR or_words (drop (bn_width b) (take (bn_width a) (bn_d a)))
              OR or_words (map2 (XOR) (take mn (bn_d a)) (take mn (bn_d b)))
              OR (if bn_neg a \<noteq> bn_neg b then 1 else 0)
      in m = 0)"

section \<open>The block and its capacity\<close>

lemma length_bn_words [simp]: "bn_ok bn \<Longrightarrow> length (bn_words bn) = bn_width bn"
  by (simp add: bn_ok_def bn_words_def)

lemma bn_abs_less: "bn_ok bn \<Longrightarrow> bn_abs bn < beta ^ bn_width bn"
  using words_val_less [of "bn_words bn"] by (simp add: bn_abs_def)

lemma bn_wexpand_cases:
  assumes "bn_ok bn"
  obtains (fail) "bn_wexpand mem words bn = (None, bn)"
  | (ok) bn' where "bn_wexpand mem words bn = (Some (), bn')" "bn_ok bn'" "bn_words bn' = bn_words bn"
      "words \<le> bn_dmax bn'" "bn_width bn' = bn_width bn" "bn_neg bn' = bn_neg bn"
      "bn_static bn' = bn_static bn" "bn_dmax bn \<le> bn_dmax bn'"
proof (cases "bn_wexpand mem words bn = (Some (), bn) \<and> words \<le> bn_dmax bn")
  case True
  then show ?thesis using assms ok by blast
next
  case False
  show ?thesis
  proof (cases "fst (bn_wexpand mem words bn)")
    case None
    then show ?thesis
      using fail False by (auto simp: bn_wexpand_def split: if_splits option.splits)
  next
    case (Some u)
    then obtain a where a: "ossl_malloc 8 mem 0 (size_mul 8 words) = Some a" "\<not> words \<le> bn_dmax bn"
      and w: "words \<le> INT_MAX div (4 * 64)"
      and e: "bn_wexpand mem words bn =
        (Some (), bn\<lparr>bn_d := blit a 0 (take (bn_width bn) (bn_d bn)), bn_dmax := words\<rparr>)"
      using False by (auto simp: bn_wexpand_def split: if_splits option.splits)
    have "size_mul 8 words = 8 * words"
      using w by (simp add: size_mul_def INT_MAX_def)
    with a(1) w have la: "length a = words"
      using ossl_malloc_length [OF a(1)] by (simp add: INT_MAX_def)
    show ?thesis
    proof (rule ok [OF e])
      show "bn_ok (bn\<lparr>bn_d := blit a 0 (take (bn_width bn) (bn_d bn)), bn_dmax := words\<rparr>)"
        using assms a(2) la w by (simp add: bn_ok_def INT_MAX_def)
    qed (use assms a(2) la in \<open>simp_all add: bn_ok_def bn_words_def blit_def min_def\<close>)
  qed
qed

lemma bn_wexpand_ok:
  assumes "bn_wexpand mem words bn = (Some u, bn')" "bn_ok bn"
  shows "bn_ok bn'" "bn_words bn' = bn_words bn" "words \<le> bn_dmax bn'" "bn_width bn' = bn_width bn"
    "bn_neg bn' = bn_neg bn" "bn_static bn' = bn_static bn" "bn_dmax bn \<le> bn_dmax bn'"
  using assms(1) by (cases rule: bn_wexpand_cases [OF assms(2), of mem words]; simp)+

lemma on_ok_unit:
  assumes "on_ok r k = (Some b, s')" obtains s where "r = (Some (), s)" "k () s = (Some b, s')"
  using assms by (cases "(r, k)" rule: on_ok.cases) auto

lemma bn_wexpand_fails: "bn_wexpand mem words bn = (None, bn') \<Longrightarrow> bn' = bn"
  by (auto simp: bn_wexpand_def split: if_splits option.splits)

text \<open>The only reasons for a failure: the size, a static block, or no memory.\<close>

lemma bn_wexpand_works:
  assumes "words \<le> INT_MAX div 256" "\<not> bn_static bn" "\<And>n. mem n \<noteq> None"
  shows "\<exists>bn'. bn_wexpand mem words bn = (Some (), bn')"
proof -
  obtain b where "mem (size_add (size_mul 8 words) OPENSSL_MALLOC_PREFIX) = Some b"
    using assms(3) by blast
  then show ?thesis
    using assms(1,2) by (auto simp: bn_wexpand_def ossl_malloc_def Let_def)
qed

section \<open>Widths\<close>

lemma minimal_width_le: "minimal_width d n \<le> n"
  by (induction n) auto

lemma minimal_width_val:
  "n \<le> length d \<Longrightarrow> words_val (take (minimal_width d n) d) = words_val (take n d)"
  by (induction n) (auto simp: take_Suc_conv_app_nth words_val_append)

lemma minimal_width_top: "minimal_width d n \<noteq> 0 \<Longrightarrow> d ! (minimal_width d n - 1) \<noteq> 0"
  by (induction n) auto

lemma minimal_width_0:
  "n \<le> length d \<Longrightarrow> minimal_width d n = 0 \<longleftrightarrow> words_val (take n d) = 0"
proof (induction n)
  case (Suc n)
  then show ?case
    by (auto simp: take_Suc_conv_app_nth words_val_append unsigned_eq_0_iff)
qed simp

lemma words_val_top_le:
  assumes "0 < n" "n \<le> length d"
  shows "words_val (take n d) = words_val (take (n - 1) d) + beta ^ (n - 1) * unat (d ! (n - 1))"
proof -
  obtain m where n: "n = Suc m" using assms(1) gr0_conv_Suc by blast
  with assms(2) show ?thesis by (simp add: take_Suc_conv_app_nth words_val_append)
qed

lemma bn_set_minimal_width_spec:
  assumes "bn_ok bn"
  shows "bn_ok (bn_set_minimal_width bn)" "bn_abs (bn_set_minimal_width bn) = bn_abs bn"
    "bn_int (bn_set_minimal_width bn) = bn_int bn" "bn_canonical (bn_set_minimal_width bn)"
    "bn_d (bn_set_minimal_width bn) = bn_d bn"
    "bn_width (bn_set_minimal_width bn) = bn_minimal_width bn"
proof -
  let ?m = "bn_set_minimal_width bn"
  show d: "bn_d ?m = bn_d bn" and w: "bn_width ?m = bn_minimal_width bn"
    by (simp_all add: bn_set_minimal_width_def Let_def)
  have le: "bn_minimal_width bn \<le> bn_width bn"
    by (simp add: bn_minimal_width_def minimal_width_le)
  have len: "bn_width bn \<le> length (bn_d bn)" using assms by (simp add: bn_ok_def)
  show "bn_ok ?m"
    using assms le by (simp add: bn_ok_def bn_set_minimal_width_def Let_def)
  show a: "bn_abs ?m = bn_abs bn"
    using minimal_width_val [OF len] by (simp add: bn_abs_def bn_words_def d w bn_minimal_width_def)
  have z: "bn_minimal_width bn = 0 \<longleftrightarrow> bn_abs bn = 0"
    using minimal_width_0 [OF len] by (simp add: bn_minimal_width_def bn_abs_def bn_words_def)
  have n: "bn_neg ?m = (bn_neg bn \<and> bn_abs bn \<noteq> 0)"
    using z by (simp add: bn_set_minimal_width_def Let_def)
  show "bn_int ?m = bn_int bn" by (simp add: bn_int_def a n)
  show "bn_canonical ?m" by (simp add: bn_canonical_def a n)
qed

section \<open>Bit lengths\<close>

fun bit_len :: "nat \<Rightarrow> nat" where
  "bit_len n = (if n = 0 then 0 else Suc (bit_len (n div 2)))"

declare bit_len.simps [simp del]

lemma bit_len_0 [simp]: "bit_len 0 = 0"
  by (simp add: bit_len.simps)

lemma bit_len_bounds: "n \<noteq> 0 \<Longrightarrow> 2 ^ (bit_len n - 1) \<le> n \<and> n < 2 ^ bit_len n \<and> 0 < bit_len n"
proof (induction n rule: less_induct)
  case (less n)
  show ?case
  proof (cases "n div 2 = 0")
    case True
    with less.prems have "n = 1" by presburger
    then show ?thesis by (simp add: bit_len.simps)
  next
    case False
    have l: "bit_len n = Suc (bit_len (n div 2))" using less.prems by (subst bit_len.simps) simp
    obtain k where k: "bit_len (n div 2) = Suc k" using less.IH [OF _ False] less.prems gr0_conv_Suc by auto
    have "2 ^ k \<le> n div 2" "n div 2 < 2 ^ Suc k" using less.IH [OF _ False] less.prems k by auto
    then have "2 * 2 ^ k \<le> n" "n < 2 * 2 ^ Suc k" by linarith+
    then show ?thesis by (simp add: l k)
  qed
qed

lemma bit_len_unique:
  assumes "2 ^ k \<le> n" "n < 2 ^ Suc k"
  shows "bit_len n = Suc k"
proof -
  have n: "n \<noteq> 0" using assms(1) by (metis not_less zero_less_numeral zero_less_power)
  note b = bit_len_bounds [OF n]
  have "2 ^ k < (2::nat) ^ bit_len n" "2 ^ (bit_len n - 1) < (2::nat) ^ Suc k"
    using b assms by linarith+
  then have "k < bit_len n" "bit_len n - 1 < Suc k"
    by (simp_all only: power_strict_increasing_iff [of 2] one_less_numeral_iff semiring_norm(76))
  then show ?thesis by simp
qed

lemma bit_len_shift: "n div 2 ^ k \<noteq> 0 \<Longrightarrow> bit_len n = k + bit_len (n div 2 ^ k)"
proof (induction k arbitrary: n)
  case (Suc k)
  have "n div 2 ^ Suc k = n div 2 div 2 ^ k" by (simp add: div_mult2_eq)
  moreover have "n \<noteq> 0" using Suc.prems by (metis div_0)
  then have "bit_len n = Suc (bit_len (n div 2))" by (subst bit_len.simps) simp
  ultimately show ?case using Suc by simp
qed simp

lemma bit_len_append:
  "h \<noteq> 0 \<Longrightarrow> l < beta ^ n \<Longrightarrow> bit_len (l + beta ^ n * h) = n * 64 + bit_len h"
proof -
  assume a: "h \<noteq> 0" "l < beta ^ n"
  have p: "beta ^ n = 2 ^ (n * 64)" unfolding beta_def by (simp only: power_mult [symmetric] mult.commute)
  have "(l + beta ^ n * h) div 2 ^ (n * 64) = h"
    using a unfolding p [symmetric] by simp
  then show ?thesis using a bit_len_shift [of "l + beta ^ n * h" "n * 64"] by simp
qed

definition counted :: "nat \<Rightarrow> nat \<Rightarrow> bool \<Rightarrow> nat \<times> bn_ulong \<Rightarrow> bool" where
  "counted n k z = (\<lambda>(bits, l). unat l < 2 ^ k \<and> (l = 0 \<longleftrightarrow> z) \<and> bits + bit_len (unat l) = n)"

lemma num_bits_block_spec:
  assumes "counted n (2 * k) z s" "k \<in> {1, 2, 4, 8, 16, 32}"
  shows "counted n k z (num_bits_block k s)"
proof -
  obtain bits l where s: "s = (bits, l)" by (cases s)
  define x where "x = drop_bit k l"
  have ux: "unat x = unat l div 2 ^ k"
    by (simp only: x_def unat_drop_bit)
  have "unat l < 2 ^ k * 2 ^ k" using assms(1) by (simp add: counted_def s mult_2 power_add)
  then have xl: "unat x < 2 ^ k" by (simp add: ux less_mult_imp_div_less)
  have "(2::nat) ^ k \<le> 2 ^ 32" using assms(2) by (intro power_increasing) auto
  with xl have x63: "unat x < 2 ^ 32" by linarith
  have "bit (0 - x) 63 \<longleftrightarrow> x \<noteq> 0"
  proof (cases "x = 0")
    case False
    then have "unat (0 - x) = 2 ^ 64 - unat x"
      by (simp only: unat_sub_mod word_le_nat_alt) (simp add: unsigned_eq_0_iff)
    then show ?thesis using False x63 by (simp add: bit_63_iff)
  qed (simp add: bit_63_iff)
  then have mk: "0 - drop_bit (64 - 1) (0 - x) = ct_mask (x \<noteq> 0)"
    using constant_time_msb [of "0 - x"] by (simp add: constant_time_msb_w_def)
  have nb: "num_bits_block k s = (if x \<noteq> 0 then (bits + k, x) else (bits, l))"
  proof -
    have "unat (of_nat k :: u64) = k" using assms(2) by auto
    moreover have "l XOR (x XOR l) = x" by (simp add: xor.left_commute [of l x l])
    ultimately show ?thesis
      unfolding num_bits_block_def Let_def s prod.case x_def [symmetric] mk
      by (simp add: ct_mask_def)
  qed
  show ?thesis
  proof (cases "x = 0")
    case True
    then have "unat l < 2 ^ k" using ux by (simp add: div_eq_0_iff)
    with True nb assms(1) show ?thesis by (simp add: counted_def s)
  next
    case False
    then have "unat l div 2 ^ k \<noteq> 0" by (simp flip: ux add: unsigned_eq_0_iff)
    from bit_len_shift [OF this] have "bit_len (unat l) = k + bit_len (unat x)" by (simp add: ux)
    moreover have "l \<noteq> 0" using False by (auto simp: x_def)
    ultimately show ?thesis using False nb xl assms(1) by (simp add: counted_def s)
  qed
qed

lemma BN_num_bits_word_spec: "BN_num_bits_word l = bit_len (unat l)"
proof -
  define b where "b = (if l \<noteq> 0 then 1 else (0::nat))"
  have "counted (b + bit_len (unat l)) (2 * 32) (l = 0) (b, l)"
    using unsigned_less [of l, where ?'a = nat] by (simp add: counted_def)
  from num_bits_block_spec [OF this]
  have "counted (b + bit_len (unat l)) (2 * 16) (l = 0) (num_bits_block 32 (b, l))" by simp
  from num_bits_block_spec [OF this]
  have "counted (b + bit_len (unat l)) (2 * 8) (l = 0) (num_bits_block 16 (num_bits_block 32 (b, l)))" by simp
  from num_bits_block_spec [OF this]
  have "counted (b + bit_len (unat l)) (2 * 4) (l = 0)
      (num_bits_block 8 (num_bits_block 16 (num_bits_block 32 (b, l))))" by simp
  from num_bits_block_spec [OF this]
  have "counted (b + bit_len (unat l)) (2 * 2) (l = 0)
      (num_bits_block 4 (num_bits_block 8 (num_bits_block 16 (num_bits_block 32 (b, l)))))" by simp
  from num_bits_block_spec [OF this]
  have "counted (b + bit_len (unat l)) (2 * 1) (l = 0)
      (num_bits_block 2 (num_bits_block 4 (num_bits_block 8 (num_bits_block 16 (num_bits_block 32 (b, l))))))" by simp
  from num_bits_block_spec [OF this]
  have "counted (b + bit_len (unat l)) 1 (l = 0)
      (num_bits_block 1 (num_bits_block 2 (num_bits_block 4 (num_bits_block 8
        (num_bits_block 16 (num_bits_block 32 (b, l)))))))" by simp
  then obtain n v where nv: "num_bits_block 1 (num_bits_block 2 (num_bits_block 4 (num_bits_block 8
        (num_bits_block 16 (num_bits_block 32 (b, l)))))) = (n, v)"
    and c: "unat v < 2" "v = 0 \<longleftrightarrow> l = 0" "n + bit_len (unat v) = b + bit_len (unat l)"
    by (auto simp: counted_def)
  have "bit_len (unat v) = b"
  proof (cases "v = 0")
    case False
    with c(1) have "unat v = 1" using unsigned_eq_0_iff [of v] by (cases "unat v") auto
    with False c(2) show ?thesis by (simp add: b_def bit_len.simps)
  qed (use c in \<open>simp add: b_def\<close>)
  with c(3) nv show ?thesis by (simp add: BN_num_bits_word_def flip: b_def)
qed

lemma BN_num_bits_spec:
  assumes "bn_ok bn"
  shows "BN_num_bits bn = bit_len (bn_abs bn)"
proof -
  have len: "bn_width bn \<le> length (bn_d bn)" using assms by (simp add: bn_ok_def)
  define w where "w = bn_minimal_width bn"
  have val: "bn_abs bn = words_val (take w (bn_d bn))"
    using minimal_width_val [OF len] by (simp add: bn_abs_def bn_words_def w_def bn_minimal_width_def)
  show ?thesis
  proof (cases "w = 0")
    case False
    have wl: "w \<le> length (bn_d bn)"
      using minimal_width_le len le_trans unfolding w_def bn_minimal_width_def by blast
    have top: "unat (bn_d bn ! (w - 1)) \<noteq> 0"
      using minimal_width_top [of "bn_d bn" "bn_width bn"] False
      by (simp add: w_def bn_minimal_width_def unsigned_eq_0_iff)
    have less: "words_val (take (w - 1) (bn_d bn)) < beta ^ (w - 1)"
      using words_val_less [of "take (w - 1) (bn_d bn)"] wl by simp
    have "bn_abs bn = words_val (take (w - 1) (bn_d bn)) + beta ^ (w - 1) * unat (bn_d bn ! (w - 1))"
      using words_val_top_le [OF _ wl] False val by simp
    then have "bit_len (bn_abs bn) = (w - 1) * 64 + bit_len (unat (bn_d bn ! (w - 1)))"
      using bit_len_append [OF top less] by simp
    with False show ?thesis by (simp add: BN_num_bits_def Let_def BN_num_bits_word_spec flip: w_def)
  qed (simp add: BN_num_bits_def val flip: w_def)
qed

section \<open>Assignment\<close>

lemma words_val_blit: "take n (blit a 0 ws) = ws" if "length ws = n" for a ws :: "bn_ulong list"
  using that by (simp add: blit_def)

lemma BN_copy_spec:
  assumes "bn_ok src" "bn_ok dest" "BN_copy mem src dest = (Some u, d)"
  shows "bn_ok d" "bn_int d = bn_int src" "bn_abs d = bn_abs src"
proof -
  from assms(3) obtain e where e: "bn_wexpand mem (bn_width src) dest = (Some (), e)"
    and d: "d = e\<lparr>bn_d := blit (bn_d e) 0 (bn_words src), bn_width := bn_width src, bn_neg := bn_neg src\<rparr>"
    by (auto simp: BN_copy_def on_ok_Some bn_words_def)
  note x = bn_wexpand_ok [OF e assms(2)]
  show "bn_ok d" using x assms(1) by (simp add: d bn_ok_def bn_words_def)
  show "bn_abs d = bn_abs src" using x assms(1)
    by (simp add: d bn_abs_def bn_words_def bn_ok_def words_val_blit)
  then show "bn_int d = bn_int src" by (simp add: bn_int_def) (simp add: d)
qed

lemma BN_zero_spec: "bn_ok bn \<Longrightarrow> bn_ok (BN_zero bn)" "bn_int (BN_zero bn) = 0" "bn_canonical (BN_zero bn)"
  by (simp_all add: BN_zero_def bn_ok_def bn_int_def bn_abs_def bn_words_def bn_canonical_def)

lemma BN_set_word_spec:
  assumes "bn_ok bn" "BN_set_word mem v bn = (Some u, bn')"
  shows "bn_ok bn' \<and> bn_int bn' = int (unat v) \<and> bn_canonical bn'"
proof (cases "v = 0")
  case True
  then show ?thesis using assms BN_zero_spec by (auto simp: BN_set_word_def)
next
  case False
  then obtain e where e: "bn_wexpand mem 1 bn = (Some (), e)"
    and d: "bn' = e\<lparr>bn_neg := False, bn_d := (bn_d e)[0 := v], bn_width := 1\<rparr>"
    using assms(2) unfolding BN_set_word_def if_not_P [OF False] by (auto elim: on_ok_unit)
  note x = bn_wexpand_ok [OF e assms(1)]
  have "take 1 ((bn_d e)[0 := v]) = [v]"
    using x(1,3) by (cases "bn_d e") (auto simp: bn_ok_def)
  then show ?thesis using x
    by (simp add: d bn_ok_def bn_int_def bn_abs_def bn_words_def bn_canonical_def)
qed

lemma bn_set_words_spec:
  assumes "bn_ok bn" "num \<le> length ws" "bn_set_words mem ws num bn = (Some u, bn')"
  shows "bn_ok bn' \<and> bn_int bn' = int (words_val (take num ws)) \<and> bn_width bn' = num"
proof -
  from assms(3) obtain e where e: "bn_wexpand mem num bn = (Some (), e)"
    and d: "bn' = e\<lparr>bn_d := blit (bn_d e) 0 (take num ws), bn_width := num, bn_neg := False\<rparr>"
    by (auto simp: bn_set_words_def on_ok_Some)
  note x = bn_wexpand_ok [OF e assms(1)]
  show ?thesis using x assms(2)
    by (simp add: d bn_ok_def bn_int_def bn_abs_def bn_words_def words_val_blit)
qed

lemma foldl_or: "foldl (\<lambda>m w. m OR w) m ws = m OR or_words ws" for m :: bn_ulong
proof (induction ws arbitrary: m)
  case (Cons w ws)
  show ?case using Cons [of "m OR w"] Cons [of "0 OR w"] by (simp add: or_words_def or.assoc)
qed (simp add: or_words_def)

lemma or_words_simps [simp]: "or_words [] = 0" "or_words (w # ws) = w OR or_words ws"
  using foldl_or [of w ws] by (simp_all add: or_words_def)

lemma or_words_0: "or_words ws = 0 \<longleftrightarrow> (\<forall>w \<in> set ws. w = 0)"
  by (induction ws) (auto simp: or_eq_0_iff)

lemma or_words_val: "or_words ws = 0 \<longleftrightarrow> words_val ws = 0"
  by (simp add: or_words_0 words_val_0)

lemma words_split: "words_val ws = words_val (take n ws) + beta ^ min n (length ws) * words_val (drop n ws)"
  using words_val_append [of "take n ws" "drop n ws"] by (simp add: min.commute)

lemma bn_fits_in_words_spec:
  assumes "bn_ok bn"
  shows "bn_fits_in_words bn num \<longleftrightarrow> bn_abs bn < beta ^ num"
proof (cases "bn_width bn \<le> num")
  case True
  then have "beta ^ bn_width bn \<le> beta ^ num" by (simp add: power_increasing)
  with bn_abs_less [OF assms] have "bn_abs bn < beta ^ num" by linarith
  with True show ?thesis by (simp add: bn_fits_in_words_def)
next
  case False
  then have len: "length (take num (bn_words bn)) = num" using assms by simp
  have "bn_abs bn = words_val (take num (bn_words bn)) + beta ^ num * words_val (drop num (bn_words bn))"
    using words_split [of "bn_words bn" num] False assms by (simp add: bn_abs_def)
  moreover have "words_val (take num (bn_words bn)) < beta ^ num"
    using words_val_less [of "take num (bn_words bn)"] len by simp
  ultimately have "bn_abs bn < beta ^ num \<longleftrightarrow> words_val (drop num (bn_words bn)) = 0"
    by (cases "words_val (drop num (bn_words bn))") auto
  then show ?thesis by (simp add: bn_fits_in_words_def or_words_val bn_words_def)
qed

lemma BN_is_zero_spec: "bn_ok bn \<Longrightarrow> BN_is_zero bn \<longleftrightarrow> bn_abs bn = 0"
  by (simp add: BN_is_zero_def bn_fits_in_words_spec)

lemma bn_copy_words_spec:
  assumes "bn_ok bn"
  shows "bn_copy_words num bn = Some ws \<Longrightarrow> length ws = num \<and> int (words_val ws) = bn_int bn"
    and "bn_copy_words num bn = None \<longleftrightarrow> bn_neg bn \<or> beta ^ num \<le> bn_abs bn"
proof -
  have less: "bn_width bn \<le> num \<Longrightarrow> bn_abs bn < beta ^ num"
    using bn_abs_less [OF assms] by (meson beta_pos(3) less_le_trans power_increasing less_imp_le)
  show "bn_copy_words num bn = None \<longleftrightarrow> bn_neg bn \<or> beta ^ num \<le> bn_abs bn"
    using less by (auto simp: bn_copy_words_def bn_fits_in_words_spec [OF assms] not_le not_less)
  assume c: "bn_copy_words num bn = Some ws"
  have pad: "words_val (blit (replicate num 0) 0 us) = words_val us" if "length us \<le> num" for us
    by (simp add: blit_def words_val_append)
  define w where "w = (if bn_width bn > num then num else bn_width bn)"
  have ws: "ws = blit (replicate num 0) 0 (take w (bn_d bn))" and n: "\<not> bn_neg bn"
    using c by (auto simp: bn_copy_words_def w_def Let_def split: if_splits)
  have wn: "w \<le> num" "w \<le> bn_width bn" by (simp_all add: w_def)
  have "bn_abs bn = words_val (take w (bn_d bn))"
  proof (cases "bn_width bn > num")
    case True
    then have "bn_fits_in_words bn num" using c by (auto simp: bn_copy_words_def split: if_splits)
    then have "words_val (drop num (bn_words bn)) = 0"
      by (simp add: bn_fits_in_words_def or_words_val bn_words_def)
    then show ?thesis
      using words_split [of "bn_words bn" num] True by (simp add: bn_abs_def w_def bn_words_def min_def)
  qed (simp add: bn_abs_def bn_words_def w_def)
  moreover have "length (take w (bn_d bn)) \<le> num" using wn by simp
  ultimately show "length ws = num \<and> int (words_val ws) = bn_int bn"
    using n pad by (simp add: ws bn_int_def)
qed

lemma bn_resize_words_spec:
  assumes "bn_ok bn" "bn_resize_words mem words bn = (Some u, bn')"
  shows "bn_ok bn' \<and> bn_int bn' = bn_int bn \<and> bn_width bn' = words"
proof (cases "bn_width bn \<le> words")
  case True
  with assms(2) obtain e where e: "bn_wexpand mem words bn = (Some (), e)"
    and d: "bn' = e\<lparr>bn_d := blit (bn_d e) (bn_width e) (replicate (words - bn_width e) 0), bn_width := words\<rparr>"
    by (auto simp: bn_resize_words_def on_ok_Some)
  note x = bn_wexpand_ok [OF e assms(1)]
  have "take words (blit (bn_d e) (bn_width e) (replicate (words - bn_width e) 0)) =
      bn_words e @ replicate (words - bn_width e) 0"
    using x(1,3,4) True take_blit_upto [of "bn_width e" "bn_d e" "replicate (words - bn_width e) 0"]
    by (simp add: bn_ok_def bn_words_def)
  with x True show ?thesis
    by (simp add: d bn_ok_def bn_int_def bn_abs_def words_val_append)
      (simp add: bn_words_def words_val_append)
next
  case False
  with assms(2) have fits: "bn_fits_in_words bn words" and d: "bn' = bn\<lparr>bn_width := words\<rparr>"
    by (auto simp: bn_resize_words_def split: if_splits)
  have "words_val (drop words (bn_words bn)) = 0"
    using fits by (simp add: bn_fits_in_words_def or_words_val bn_words_def)
  then have "words_val (take words (bn_d bn)) = bn_abs bn"
    using words_split [of "bn_words bn" words] False by (simp add: bn_abs_def bn_words_def min_def)
  with False assms(1) show ?thesis by (simp add: d bn_ok_def bn_int_def bn_abs_def bn_words_def)
qed

lemma bn_select_words_spec:
  assumes "num \<le> length a" "num \<le> length b"
  shows "bn_select_words (ct_mask p) a b num = take num (if p then a else b)"
  using assms by (intro nth_equalityI) (auto simp: bn_select_words_def constant_time_select)

lemma ct_mask_neg_bool: "0 - (if p then 1 else 0 :: bn_ulong) = ct_mask p"
  by (simp add: ct_mask_def)

section \<open>Comparisons\<close>

lemma constant_time_select_int: "constant_time_select_int (ct_mask p) a b = (if p then a else b)"
proof -
  have "(ucast (scast x :: u64) :: 32 word) = x" for x :: "32 word"
    by (rule bit_word_eqI) (simp add: bit_simps)
  then show ?thesis by (simp add: constant_time_select_int_def constant_time_select)
qed

lemma cmp_word_spec: "cmp_word (a, b) ret = (if a = b then ret else if a < b then - 1 else 1)"
  by (simp add: cmp_word_def constant_time_eq constant_time_lt constant_time_select_int)

definition cmp_is :: "32 word \<Rightarrow> nat \<Rightarrow> nat \<Rightarrow> bool" where
  "cmp_is ret a b \<longleftrightarrow> ret = (if a < b then - 1 else if a = b then 0 else 1)"

lemma less_digit:
  fixes a b :: bn_ulong
  shows "unat a + beta * m < unat b + beta * n \<longleftrightarrow> m < n \<or> m = n \<and> a < b"
proof (cases m n rule: linorder_cases)
  case less
  then have "beta * Suc m \<le> beta * n" by (intro mult_le_mono) simp_all
  then have "beta + beta * m \<le> beta * n" by simp
  with unat_less_beta [of a] have "unat a + beta * m < unat b + beta * n" by linarith
  with less show ?thesis by simp
next
  case greater
  then have "beta * Suc n \<le> beta * m" by (intro mult_le_mono) simp_all
  then have "beta + beta * n \<le> beta * m" by simp
  with unat_less_beta [of b] have "\<not> unat a + beta * m < unat b + beta * n" by linarith
  with greater show ?thesis by simp
qed (simp add: word_less_nat_alt)

lemma fold_cmp:
  assumes "length a = length b"
  shows "fold cmp_word (zip a b) ret =
    (if words_val a = words_val b then ret else if words_val a < words_val b then - 1 else 1)"
  using assms
proof (induction a b arbitrary: ret rule: list_induct2)
  case (Cons x xs y ys)
  have eq: "unat x + beta * words_val xs = unat y + beta * words_val ys \<longleftrightarrow> x = y \<and> words_val xs = words_val ys"
    using words_val_inject [of "x # xs" "y # ys"] words_val_inject [of xs ys] Cons.hyps by simp
  show ?case
    by (simp only: zip_Cons_Cons fold_simps Cons.IH words_val.simps eq less_digit cmp_word_spec)
      (auto simp: not_less)
qed simp

lemma bn_cmp_words_consttime_spec:
  assumes "n \<le> length a" "m \<le> length b"
  shows "cmp_is (bn_cmp_words_consttime a n b m) (words_val (take n a)) (words_val (take m b))"
proof -
  have extra: "words_val (take k ys) = words_val (take j ys) + beta ^ j * words_val (drop j (take k ys))"
    if "j \<le> k" "k \<le> length ys" for j k and ys :: "bn_ulong list"
    using words_split [of "take k ys" j] that by (simp add: min_def)
  have big: "words_val xs < words_val ys + beta ^ k * v" if "v \<noteq> 0" "length xs = k" for xs ys k v
  proof -
    have "words_val xs < beta ^ k * 1" using words_val_less [of xs] that(2) by simp
    also have "\<dots> \<le> beta ^ k * v" using that(1) by (intro mult_le_mono) simp_all
    finally show ?thesis by simp
  qed
  show ?thesis
  proof (cases n m rule: linorder_cases)
    case less
    then have f: "fold cmp_word (zip (take n a) (take n b)) 0 = (if words_val (take n a) = words_val (take n b) then 0
        else if words_val (take n a) < words_val (take n b) then - 1 else 1)"
      using assms by (intro fold_cmp) simp
    show ?thesis
      using less assms extra [of n m b] big [of "words_val (drop n (take m b))" "take n a" n "take n b"]
      by (auto simp add: bn_cmp_words_consttime_def f constant_time_is_zero constant_time_select_int
          or_words_val cmp_is_def)
  next
    case equal
    with assms show ?thesis
      by (simp add: bn_cmp_words_consttime_def fold_cmp cmp_is_def)
  next
    case greater
    then have f: "fold cmp_word (zip (take m a) (take m b)) 0 = (if words_val (take m a) = words_val (take m b) then 0
        else if words_val (take m a) < words_val (take m b) then - 1 else 1)"
      using assms by (intro fold_cmp) simp
    show ?thesis
      using greater assms extra [of m n a] big [of "words_val (drop m (take n a))" "take m b" m "take m a"]
      by (auto simp add: bn_cmp_words_consttime_def f constant_time_is_zero constant_time_select_int
          or_words_val cmp_is_def)
  qed
qed

lemma BN_ucmp_spec:
  assumes "bn_ok a" "bn_ok b"
  shows "cmp_is (BN_ucmp a b) (bn_abs a) (bn_abs b)"
  using assms bn_cmp_words_consttime_spec [of "bn_width a" "bn_d a" "bn_width b" "bn_d b"]
  by (simp add: BN_ucmp_def bn_abs_def bn_words_def bn_ok_def)

lemma sint_cmp: "sint (if p then - 1 else if q then 0 else 1 :: 32 word) = (if p then - 1 else if q then 0 else 1)"
  by simp

lemma BN_ucmp_less: "bn_ok a \<Longrightarrow> bn_ok b \<Longrightarrow> sint (BN_ucmp a b) < 0 \<longleftrightarrow> bn_abs a < bn_abs b"
  using BN_ucmp_spec [of a b] by (simp add: cmp_is_def)

lemma xor_eq_0: "x XOR y = 0 \<longleftrightarrow> x = y" for x y :: bn_ulong
  by (auto simp: bit_eq_iff bit_xor_iff)

lemma BN_cmp_spec:
  assumes "bn_ok a" "bn_ok b" "bn_canonical a" "bn_canonical b"
  shows "sint (BN_cmp (Some a) (Some b)) = sgn (bn_int a - bn_int b)"
  using assms BN_ucmp_spec [of a b]
  by (auto simp: cmp_is_def bn_int_def bn_canonical_def Let_def sgn_if)

lemma BN_abs_is_word_spec:
  assumes "bn_ok bn"
  shows "BN_abs_is_word bn w \<longleftrightarrow> bn_abs bn = unat w"
proof (cases "bn_words bn")
  case Nil
  then have "bn_width bn = 0" using assms by (metis length_bn_words list.size(3))
  with Nil show ?thesis by (auto simp: BN_abs_is_word_def bn_abs_def unsigned_eq_0_iff)
next
  case (Cons v vs)
  then have "bn_width bn \<noteq> 0" by (cases "bn_width bn") (simp_all add: bn_words_def)
  moreover from this have "bn_d bn ! 0 = v" using Cons by (simp add: bn_words_def) (metis nth_Cons_0 nth_take gr0I)
  moreover have "drop 1 (bn_words bn) = vs" by (simp add: Cons)
  ultimately have "BN_abs_is_word bn w \<longleftrightarrow> v = w \<and> words_val vs = 0"
    by (simp add: BN_abs_is_word_def or_eq_0_iff or_words_val xor_eq_0 flip: bn_words_def)
  also have "\<dots> \<longleftrightarrow> unat v + beta * words_val vs = unat w + beta * 0"
    using words_val_inject [of "v # vs" "w # replicate (length vs) 0"]
      words_val_inject [of vs "replicate (length vs) 0"] by simp
  finally show ?thesis by (simp add: bn_abs_def Cons)
qed

lemma BN_is_word_spec:
  assumes "bn_ok bn" "bn_canonical bn"
  shows "BN_is_word bn w \<longleftrightarrow> bn_int bn = int (unat w)" and "BN_is_one bn \<longleftrightarrow> bn_int bn = 1"
proof -
  show "BN_is_word bn w \<longleftrightarrow> bn_int bn = int (unat w)"
    using assms BN_abs_is_word_spec [of bn w]
    by (auto simp: BN_is_word_def bn_int_def bn_canonical_def unsigned_eq_0_iff simp del: of_nat_unat)
  show "BN_is_one bn \<longleftrightarrow> bn_int bn = 1"
    using assms BN_abs_is_word_spec [of bn 1]
    by (auto simp: BN_is_one_def bn_int_def)
qed

lemma odd_unat: "odd (unat (v :: bn_ulong)) \<longleftrightarrow> odd v"
  by (simp add: bit_unsigned_iff flip: bit_0)

lemma BN_is_odd_spec:
  assumes "bn_ok bn"
  shows "BN_is_odd bn \<longleftrightarrow> odd (bn_abs bn)"
proof (cases "bn_words bn")
  case Nil
  then have "bn_width bn = 0" using assms by (metis length_bn_words list.size(3))
  with Nil show ?thesis by (simp add: BN_is_odd_def bn_abs_def)
next
  case (Cons v vs)
  then have "bn_width bn \<noteq> 0" by (cases "bn_width bn") (simp_all add: bn_words_def)
  moreover from this have "bn_d bn ! 0 = v" using Cons by (simp add: bn_words_def) (metis nth_Cons_0 nth_take gr0I)
  moreover have "v AND 1 = 1 \<longleftrightarrow> odd (unat v)"
    by (simp add: odd_unat and_one_eq mod_2_eq_odd)
  moreover have "even beta" by (simp add: beta_def)
  ultimately show ?thesis by (simp add: BN_is_odd_def bn_abs_def Cons)
qed

lemma BN_equal_consttime_spec:
  assumes "bn_ok a" "bn_ok b" "bn_canonical a" "bn_canonical b"
  shows "BN_equal_consttime a b \<longleftrightarrow> bn_int a = bn_int b"
proof -
  define n where "n = min (bn_width a) (bn_width b)"
  have xor: "or_words (map2 (XOR) xs ys) = 0 \<longleftrightarrow> xs = ys" if "length xs = length ys" for xs ys
    using that by (induction xs ys rule: list_induct2) (auto simp: or_eq_0_iff xor_eq_0)
  have da: "bn_abs a = words_val (take n (bn_d a)) + beta ^ n * words_val (drop (bn_width b) (bn_words a))"
    and db: "bn_abs b = words_val (take n (bn_d b)) + beta ^ n * words_val (drop (bn_width a) (bn_words b))"
    using words_split [of "bn_words a" "bn_width b"] words_split [of "bn_words b" "bn_width a"] assms(1,2)
    by (auto simp add: bn_abs_def bn_words_def n_def min_def bn_ok_def split: if_splits)
  have la: "length (take n (bn_d a)) = n" and lb: "length (take n (bn_d b)) = n"
    using assms(1,2) by (auto simp add: bn_ok_def n_def min_def)
  have less: "words_val (take n (bn_d a)) < beta ^ n" "words_val (take n (bn_d b)) < beta ^ n"
    using words_val_less [of "take n (bn_d a)"] words_val_less [of "take n (bn_d b)"] la lb by simp_all
  have one: "drop (bn_width b) (bn_words a) = [] \<or> drop (bn_width a) (bn_words b) = []"
    using assms by auto
  have abs: "words_val (take n (bn_d a)) = words_val (take n (bn_d b)) \<and>
      words_val (drop (bn_width b) (bn_words a)) = 0 \<and> words_val (drop (bn_width a) (bn_words b)) = 0
      \<longleftrightarrow> bn_abs a = bn_abs b"
    using one unfolding da db digits_eq [OF less] by auto
  have "BN_equal_consttime a b \<longleftrightarrow> bn_abs a = bn_abs b \<and> bn_neg a = bn_neg b"
  proof -
    have l: "length (take n (bn_d a)) = length (take n (bn_d b))" using la lb by simp
    have mn: "(if bn_width a < bn_width b then bn_width a else bn_width b) = n" by (simp add: n_def)
    have "BN_equal_consttime a b \<longleftrightarrow> words_val (drop (bn_width a) (bn_words b)) = 0 \<and>
        words_val (drop (bn_width b) (bn_words a)) = 0 \<and>
        take n (bn_d a) = take n (bn_d b) \<and> bn_neg a = bn_neg b"
      unfolding BN_equal_consttime_def Let_def mn or_eq_0_iff or_words_val [symmetric] bn_words_def xor [OF l]
      by auto
    then show ?thesis unfolding abs [symmetric] words_val_inject [OF l] by blast
  qed
  also have "\<dots> \<longleftrightarrow> bn_int a = bn_int b"
    using assms(3,4) by (auto simp: bn_int_def bn_canonical_def)
  finally show ?thesis .
qed

end
