(* ===== verification/BnAdd.thy ===== *)
theory BnAdd
  imports Bn
begin

text \<open>
  Addition and subtraction of big numbers: \<open>crypto/fipsmodule/bn/add.c\<close>. The absolute values are
  added and subtracted word by word, the signed operations choose between them, and the
  single-word operations work in place. Every operation is proved exact, and the errors are
  the lack of memory and a negative difference.
\<close>

text \<open>The carry and the borrow run through the words that only the longer operand has.\<close>

fun carry_loop :: "bn_ulong \<Rightarrow> bn_ulong list \<Rightarrow> bn_ulong list \<times> bn_ulong" where
  "carry_loop carry [] = ([], carry)"
| "carry_loop carry (w # ws) =
     (let tmp = carry + w; carry = (if tmp < w then 1 else 0); (rs, carry) = carry_loop carry ws
      in (tmp # rs, carry))"

definition bn_uadd_consttime :: "bn_mem \<Rightarrow> bignum \<Rightarrow> bignum \<Rightarrow> bignum \<Rightarrow> unit option \<times> bignum" where
  "bn_uadd_consttime mem a b r =
     (let (a, b) = (if bn_width a < bn_width b then (b, a) else (a, b));
          mx = bn_width a; mn = bn_width b
      in on_ok (bn_wexpand mem (mx + 1) r) (\<lambda>_ r.
           let (lo, carry) = bn_add_words (bn_d a) (bn_d b) mn;
               (hi, carry) = carry_loop carry (drop mn (take mx (bn_d a)))
           in (Some (), r\<lparr>bn_width := mx + 1, bn_d := blit (bn_d r) 0 (lo @ hi @ [carry])\<rparr>)))"

definition BN_uadd :: "bn_mem \<Rightarrow> bignum \<Rightarrow> bignum \<Rightarrow> bignum \<Rightarrow> unit option \<times> bignum" where
  "BN_uadd mem a b r =
     on_ok (bn_uadd_consttime mem a b r) (\<lambda>_ r. (Some (), bn_set_minimal_width r))"

fun borrow_loop :: "bn_ulong \<Rightarrow> bn_ulong list \<Rightarrow> bn_ulong list \<times> bn_ulong" where
  "borrow_loop borrow [] = ([], borrow)"
| "borrow_loop borrow (w # ws) =
     (let r = w - borrow; borrow = (if w < r then 1 else 0); (rs, borrow) = borrow_loop borrow ws
      in (r # rs, borrow))"

definition bn_usub_consttime :: "bn_mem \<Rightarrow> bignum \<Rightarrow> bignum \<Rightarrow> bignum \<Rightarrow> unit option \<times> bignum" where
  "bn_usub_consttime mem a b r =
     (if bn_width b > bn_width a \<and> \<not> bn_fits_in_words b (bn_width a) then (None, r)
      else
        let b_width = (if bn_width b > bn_width a then bn_width a else bn_width b)
        in on_ok (bn_wexpand mem (bn_width a) r) (\<lambda>_ r.
             let (lo, borrow) = bn_sub_words (bn_d a) (bn_d b) b_width;
                 (hi, borrow) = borrow_loop borrow (drop b_width (take (bn_width a) (bn_d a)));
                 r = r\<lparr>bn_d := blit (bn_d r) 0 (lo @ hi)\<rparr>
             in if borrow \<noteq> 0 then (None, r)
                else (Some (), r\<lparr>bn_width := bn_width a, bn_neg := False\<rparr>)))"

definition BN_usub :: "bn_mem \<Rightarrow> bignum \<Rightarrow> bignum \<Rightarrow> bignum \<Rightarrow> unit option \<times> bignum" where
  "BN_usub mem a b r =
     on_ok (bn_usub_consttime mem a b r) (\<lambda>_ r. (Some (), bn_set_minimal_width r))"

text \<open>The difference of two absolute values with its sign: the common end of \<open>BN_add\<close> and \<open>BN_sub\<close>.\<close>

definition BN_diff :: "bn_mem \<Rightarrow> bignum \<Rightarrow> bignum \<Rightarrow> bignum \<Rightarrow> unit option \<times> bignum" where
  "BN_diff mem a b r =
     (if sint (BN_ucmp a b) < 0
      then on_ok (BN_usub mem b a r) (\<lambda>_ r. (Some (), r\<lparr>bn_neg := True\<rparr>))
      else on_ok (BN_usub mem a b r) (\<lambda>_ r. (Some (), r\<lparr>bn_neg := False\<rparr>)))"

definition BN_add :: "bn_mem \<Rightarrow> bignum \<Rightarrow> bignum \<Rightarrow> bignum \<Rightarrow> unit option \<times> bignum" where
  "BN_add mem a b r =
     (if bn_neg a \<noteq> bn_neg b then
        let (a, b) = (if bn_neg a then (b, a) else (a, b)) in BN_diff mem a b r
      else let (ret, r) = BN_uadd mem a b r in (ret, r\<lparr>bn_neg := bn_neg a\<rparr>))"

definition BN_sub :: "bn_mem \<Rightarrow> bignum \<Rightarrow> bignum \<Rightarrow> bignum \<Rightarrow> unit option \<times> bignum" where
  "BN_sub mem a b r =
     (let (add, neg, a, b) =
        (if bn_neg a then (if bn_neg b then (False, False, b, a) else (True, True, a, b))
         else if bn_neg b then (True, False, a, b) else (False, False, a, b))
      in if add then on_ok (BN_uadd mem a b r) (\<lambda>_ r. (Some (), r\<lparr>bn_neg := neg\<rparr>))
         else BN_diff mem a b r)"

text \<open>
  The word operations. \<open>add_word_loop\<close> returns the words, what is left of \<open>w\<close> and the index it
  stopped at; \<open>sub_word_loop\<close> has no bound in the code, so running off the words is \<open>None\<close>.
\<close>

fun add_word_loop :: "bn_ulong \<Rightarrow> bn_ulong list \<Rightarrow> bn_ulong list \<times> bn_ulong \<times> nat" where
  "add_word_loop w [] = ([], w, 0)"
| "add_word_loop w (x # xs) =
     (if w = 0 then (x # xs, w, 0)
      else let l = x + w; (ys, w', i) = add_word_loop (if w > l then 1 else 0) xs
           in (l # ys, w', Suc i))"

fun sub_word_loop :: "bn_ulong \<Rightarrow> bn_ulong list \<Rightarrow> (bn_ulong list \<times> nat) option" where
  "sub_word_loop w [] = None"
| "sub_word_loop w (x # xs) =
     (if x \<ge> w then Some ((x - w) # xs, 0)
      else map_option (\<lambda>(ys, i). ((x - w) # ys, Suc i)) (sub_word_loop 1 xs))"

function BN_add_word :: "bn_mem \<Rightarrow> bn_ulong \<Rightarrow> bignum \<Rightarrow> unit option \<times> bignum"
  and BN_sub_word :: "bn_mem \<Rightarrow> bn_ulong \<Rightarrow> bignum \<Rightarrow> unit option \<times> bignum" where
  "BN_add_word mem w a =
     (if w = 0 then (Some (), a)
      else if BN_is_zero a then BN_set_word mem w a
      else if bn_neg a then
        let (i, a) = BN_sub_word mem w (a\<lparr>bn_neg := False\<rparr>)
        in (i, if BN_is_zero a then a else a\<lparr>bn_neg := \<not> bn_neg a\<rparr>)
      else
        let (ds, w, i) = add_word_loop w (take (bn_width a) (bn_d a));
            a = a\<lparr>bn_d := blit (bn_d a) 0 ds\<rparr>
        in if w \<noteq> 0 \<and> i = bn_width a then
             on_ok (bn_wexpand mem (bn_width a + 1) a) (\<lambda>_ a.
               (Some (), a\<lparr>bn_width := bn_width a + 1, bn_d := (bn_d a)[i := w]\<rparr>))
           else (Some (), a))"
| "BN_sub_word mem w a =
     (if w = 0 then (Some (), a)
      else if BN_is_zero a then
        on_ok (BN_set_word mem w a) (\<lambda>_ a. (Some (), BN_set_negative True a))
      else if bn_neg a then
        let (i, a) = BN_add_word mem w (a\<lparr>bn_neg := False\<rparr>) in (i, a\<lparr>bn_neg := True\<rparr>)
      else if bn_minimal_width a = 1 \<and> bn_d a ! 0 < w then
        (Some (), a\<lparr>bn_d := (bn_d a)[0 := w - bn_d a ! 0], bn_neg := True\<rparr>)
      else
        (case sub_word_loop w (take (bn_width a) (bn_d a)) of
           None \<Rightarrow> (None, a)
         | Some (ds, i) \<Rightarrow>
             let a = a\<lparr>bn_d := blit (bn_d a) 0 ds\<rparr>
             in (Some (), if bn_d a ! i = 0 \<and> i = bn_width a - 1 then a\<lparr>bn_width := bn_width a - 1\<rparr> else a)))"
  by pat_completeness auto

termination
  by (relation "measure (\<lambda>x. case x of Inl (_, _, a) \<Rightarrow> if bn_neg a then 1 else 0
                                   | Inr (_, _, a) \<Rightarrow> if bn_neg a then 1 else 0)") auto

section \<open>Absolute values\<close>

lemma unat_pos: "0 < unat w \<longleftrightarrow> w \<noteq> 0" for w :: bn_ulong
  by (auto simp: unsigned_eq_0_iff simp flip: neq0_conv)

lemma carry_word: "unat (c :: bn_ulong) \<le> 1 \<Longrightarrow> c = 0 \<or> c = 1"
  by (auto simp: le_Suc_eq unsigned_eq_0_iff word_unat_eq_iff [of c 1])

lemma carry_loop_spec:
  assumes "carry_loop c ws = (rs, d)" "unat c \<le> 1"
  shows "length rs = length ws \<and> unat d \<le> 1 \<and>
    words_val rs + beta ^ length ws * unat d = words_val ws + unat c"
  using assms
proof (induction ws arbitrary: c rs d)
  case (Cons w ws)
  define k :: bn_ulong where "k = (if c + w < w then 1 else 0)"
  have k: "unat (c + w) + beta * unat k = unat c + unat w"
    using unat_add_carry [of c w] by (cases "c + w < w") (simp_all add: k_def)
  obtain qs e where q: "carry_loop k ws = (qs, e)" by fastforce
  then have rs: "rs = (c + w) # qs" "d = e" using Cons.prems(1) by (simp_all add: Let_def k_def)
  have IH: "length qs = length ws \<and> unat e \<le> 1 \<and>
      words_val qs + beta ^ length ws * unat e = words_val ws + unat k"
    by (rule Cons.IH [OF q]) (simp add: k_def)
  have "words_val rs + beta ^ length (w # ws) * unat d =
      unat (c + w) + beta * (words_val qs + beta ^ length ws * unat e)"
    by (simp add: rs algebra_simps)
  also have "\<dots> = words_val (w # ws) + unat c" using IH k by (simp add: algebra_simps)
  finally show ?case using IH by (simp add: rs)
qed simp

lemma borrow_loop_spec:
  assumes "borrow_loop c ws = (rs, d)" "unat c \<le> 1"
  shows "length rs = length ws \<and> unat d \<le> 1 \<and>
    words_val rs + unat c = words_val ws + beta ^ length ws * unat d"
  using assms
proof (induction ws arbitrary: c rs d)
  case (Cons w ws)
  define k :: bn_ulong where "k = (if w < w - c then 1 else 0)"
  have c: "c = 0 \<or> c = 1" using Cons.prems(2) by (rule carry_word)
  have k: "unat (w - c) + unat c = unat w + beta * unat k"
  proof (cases "c = 1 \<and> w = 0")
    case True
    then show ?thesis
      by (simp add: k_def word_less_nat_alt unsigned_minus_1_eq_mask mask_eq_exp_minus_1 beta_def)
  next
    case False
    then have "c \<le> w" using c by (auto simp: word_le_nat_alt unat_pos Suc_le_eq)
    then show ?thesis by (simp add: k_def unat_sub_mod word_less_nat_alt word_le_nat_alt)
  qed
  obtain qs e where q: "borrow_loop k ws = (qs, e)" by fastforce
  then have rs: "rs = (w - c) # qs" "d = e" using Cons.prems(1) by (simp_all add: Let_def k_def)
  have IH: "length qs = length ws \<and> unat e \<le> 1 \<and>
      words_val qs + unat k = words_val ws + beta ^ length ws * unat e"
    by (rule Cons.IH [OF q]) (simp add: k_def)
  have "words_val rs + unat c = unat w + beta * (words_val qs + unat k)"
    using k by (simp add: rs algebra_simps)
  also have "\<dots> = words_val (w # ws) + beta ^ length (w # ws) * unat d"
    using IH by (simp add: rs algebra_simps)
  finally show ?case using IH by (simp add: rs)
qed simp

lemma bn_words_split:
  assumes "bn_ok a" "n \<le> bn_width a"
  shows "bn_abs a = words_val (take n (bn_d a)) + beta ^ n * words_val (drop n (take (bn_width a) (bn_d a)))"
    and "n \<le> length (bn_d a)"
  using words_split [of "bn_words a" n] assms by (auto simp: bn_abs_def bn_words_def bn_ok_def min_def)

lemma bn_uadd_ordered:
  assumes ok: "bn_ok a" "bn_ok b" "bn_ok r" and le: "bn_width b \<le> bn_width a"
    and r: "on_ok (bn_wexpand mem (bn_width a + 1) r) (\<lambda>_ r.
           let (lo, carry) = bn_add_words (bn_d a) (bn_d b) (bn_width b);
               (hi, carry) = carry_loop carry (drop (bn_width b) (take (bn_width a) (bn_d a)))
           in (Some (), r\<lparr>bn_width := bn_width a + 1, bn_d := blit (bn_d r) 0 (lo @ hi @ [carry])\<rparr>))
      = (Some (), r')"
  shows "bn_ok r' \<and> bn_abs r' = bn_abs a + bn_abs b \<and> bn_neg r' = bn_neg r \<and> bn_width r' = bn_width a + 1"
proof -
  obtain e where e: "bn_wexpand mem (bn_width a + 1) r = (Some (), e)" using r by (auto elim: on_ok_unit)
  note x = bn_wexpand_ok [OF e ok(3)]
  obtain lo c where lo: "bn_add_words (bn_d a) (bn_d b) (bn_width b) = (lo, c)" by fastforce
  obtain hi d where hi: "carry_loop c (drop (bn_width b) (take (bn_width a) (bn_d a))) = (hi, d)" by fastforce
  have r': "r' = e\<lparr>bn_width := bn_width a + 1, bn_d := blit (bn_d e) 0 (lo @ hi @ [d])\<rparr>"
    using r e by (simp add: lo hi)
  note sa = bn_words_split [OF ok(1) le] and sb = bn_words_split [OF ok(2) order_refl]
  note l = bn_add_words_exact [OF sa(2) sb(2) lo]
  note h = carry_loop_spec [OF hi l(2)]
  have len: "length (drop (bn_width b) (take (bn_width a) (bn_d a))) = bn_width a - bn_width b"
    using ok(1) by (simp add: bn_ok_def)
  have "length (lo @ hi @ [d]) = bn_width a + 1" using l(1) h le len by simp
  moreover from this have "take (bn_width a + 1) (blit (bn_d e) 0 (lo @ hi @ [d])) = lo @ hi @ [d]"
    by (rule words_val_blit)
  moreover have "words_val (lo @ hi @ [d]) = bn_abs a + bn_abs b"
  proof -
    have "words_val (lo @ hi @ [d]) = words_val lo + beta ^ bn_width b * (words_val hi +
        beta ^ (bn_width a - bn_width b) * unat d)"
      using l(1) h len by (simp add: words_val_append)
    also have "\<dots> = words_val lo + beta ^ bn_width b * unat c + beta ^ bn_width b *
        words_val (drop (bn_width b) (take (bn_width a) (bn_d a)))"
      using h len by (simp add: algebra_simps)
    also have "\<dots> = bn_abs a + bn_abs b" using l(3) sa(1) sb(1) by simp
    finally show ?thesis .
  qed
  ultimately show ?thesis using x
    by (simp add: r' bn_ok_def bn_abs_def [of "_\<lparr>bn_width := _, bn_d := _\<rparr>"] bn_words_def [of "_\<lparr>bn_width := _, bn_d := _\<rparr>"])
qed

lemma bn_uadd_consttime_spec:
  assumes "bn_ok a" "bn_ok b" "bn_ok r" "bn_uadd_consttime mem a b r = (Some u, r')"
  shows "bn_ok r' \<and> bn_abs r' = bn_abs a + bn_abs b \<and> bn_neg r' = bn_neg r"
proof (cases "bn_width a < bn_width b")
  case True
  then show ?thesis
    using bn_uadd_ordered [of b a r mem r'] assms by (simp add: bn_uadd_consttime_def Let_def)
next
  case False
  then show ?thesis
    using bn_uadd_ordered [of a b r mem r'] assms by (simp add: bn_uadd_consttime_def Let_def)
qed

lemma BN_uadd_spec:
  assumes "bn_ok a" "bn_ok b" "bn_ok r" "BN_uadd mem a b r = (Some u, r')"
  shows "bn_ok r' \<and> bn_abs r' = bn_abs a + bn_abs b \<and> (bn_neg r' \<longleftrightarrow> bn_neg r \<and> bn_abs r' \<noteq> 0)"
proof -
  obtain e where e: "bn_uadd_consttime mem a b r = (Some (), e)" and r': "r' = bn_set_minimal_width e"
    using assms(4) by (auto simp: BN_uadd_def elim: on_ok_unit)
  note c = bn_uadd_consttime_spec [OF assms(1-3) e]
  note m = bn_set_minimal_width_spec [OF conjunct1 [OF c]]
  have "bn_neg r' \<longleftrightarrow> bn_neg r \<and> bn_abs r' \<noteq> 0"
    using m(3,4) c by (auto simp: r' bn_int_def bn_canonical_def bn_set_minimal_width_def Let_def split: if_splits)
  then show ?thesis using c m by (simp add: r')
qed

lemma bn_usub_words:
  assumes ok: "bn_ok a" "bn_ok b" and n: "n = min (bn_width a) (bn_width b)"
    and fits: "words_val (drop n (bn_words b)) = 0"
    and lo: "bn_sub_words (bn_d a) (bn_d b) n = (lo, c)"
    and hi: "borrow_loop c (drop n (take (bn_width a) (bn_d a))) = (hi, d)"
  shows "length (lo @ hi) = bn_width a"
    and "words_val (lo @ hi) + bn_abs b = bn_abs a + beta ^ bn_width a * unat d" and "unat d \<le> 1"
proof -
  have na: "n \<le> bn_width a" and nb: "n \<le> bn_width b" by (simp_all add: n)
  note sa = bn_words_split [OF ok(1) na] and sb = bn_words_split [OF ok(2) nb]
  note l = bn_sub_words_exact [OF sa(2) sb(2) lo]
  note h = borrow_loop_spec [OF hi l(2)]
  have len: "length (drop n (take (bn_width a) (bn_d a))) = bn_width a - n"
    using ok(1) by (simp add: bn_ok_def)
  have vb: "bn_abs b = words_val (take n (bn_d b))" using sb(1) fits by (simp add: bn_words_def)
  show "length (lo @ hi) = bn_width a" using l(1) h len na by simp
  have p: "beta ^ n * beta ^ (bn_width a - n) = beta ^ bn_width a"
    using na by (simp flip: power_add)
  have "words_val (lo @ hi) + bn_abs b = words_val lo + words_val (take n (bn_d b)) + beta ^ n * words_val hi"
    using l(1) vb by (simp add: words_val_append)
  also have "\<dots> = words_val (take n (bn_d a)) + beta ^ n * (words_val hi + unat c)"
    using l(3) by (simp add: algebra_simps)
  also have "\<dots> = bn_abs a + beta ^ n * beta ^ (bn_width a - n) * unat d"
    using h len sa(1) by (simp add: algebra_simps)
  finally show "words_val (lo @ hi) + bn_abs b = bn_abs a + beta ^ bn_width a * unat d" by (simp add: p)
  show "unat d \<le> 1" using h by simp
qed

lemma bn_fits_drop:
  "bn_fits_in_words b num \<longleftrightarrow> words_val (drop num (bn_words b)) = 0"
  by (simp add: bn_fits_in_words_def or_words_val bn_words_def)

text \<open>A subtraction ends in an error when the difference is negative, and otherwise only without memory.\<close>

lemma bn_usub_consttime_spec:
  assumes ok: "bn_ok a" "bn_ok b" "bn_ok r" and res: "bn_usub_consttime mem a b r = (res, r')"
  shows "res = Some u \<Longrightarrow> bn_ok r' \<and> bn_abs r' + bn_abs b = bn_abs a \<and> \<not> bn_neg r'"
    and "res = None \<Longrightarrow> bn_abs b \<le> bn_abs a \<Longrightarrow> bn_wexpand mem (bn_width a) r = (None, r)"
proof -
  define n where "n = min (bn_width a) (bn_width b)"
  have mn: "(if bn_width b > bn_width a then bn_width a else bn_width b) = n" by (simp add: n_def)
  obtain lo c where lo: "bn_sub_words (bn_d a) (bn_d b) n = (lo, c)" by fastforce
  obtain hi d where hi: "borrow_loop c (drop n (take (bn_width a) (bn_d a))) = (hi, d)" by fastforce
  show "bn_ok r' \<and> bn_abs r' + bn_abs b = bn_abs a \<and> \<not> bn_neg r'" if s: "res = Some u"
  proof -
    have fits: "words_val (drop n (bn_words b)) = 0"
      using res s ok(2) by (cases "bn_width b > bn_width a") (auto simp: bn_usub_consttime_def n_def bn_fits_drop split: if_splits)
    note w = bn_usub_words [OF ok(1,2) n_def fits lo hi]
    obtain e where e: "bn_wexpand mem (bn_width a) r = (Some (), e)"
      using res s by (auto simp: bn_usub_consttime_def Let_def elim: on_ok_unit split: if_splits)
    note x = bn_wexpand_ok [OF e ok(3)]
    have d: "d = 0" and r': "r' = e\<lparr>bn_d := blit (bn_d e) 0 (lo @ hi), bn_width := bn_width a, bn_neg := False\<rparr>"
      using res s e lo hi by (auto simp: bn_usub_consttime_def Let_def mn split: if_splits)
    have "take (bn_width a) (blit (bn_d e) 0 (lo @ hi)) = lo @ hi"
      using w(1) by (rule words_val_blit)
    moreover have "words_val (lo @ hi) + bn_abs b = bn_abs a" using w(2) d by simp
    moreover have "length (blit (bn_d e) 0 (lo @ hi)) = bn_dmax e"
      using w(1) x(1,3) by (simp add: bn_ok_def del: length_append)
    ultimately show ?thesis using x(1,3)
      by (simp add: r' bn_ok_def bn_abs_def [of "_\<lparr>bn_d := _, bn_width := _, bn_neg := _\<rparr>"]
          bn_words_def [of "_\<lparr>bn_d := _, bn_width := _, bn_neg := _\<rparr>"])
  qed
  show "bn_wexpand mem (bn_width a) r = (None, r)" if s: "res = None" and le: "bn_abs b \<le> bn_abs a"
  proof (rule ccontr)
    assume "bn_wexpand mem (bn_width a) r \<noteq> (None, r)"
    then obtain e where e: "bn_wexpand mem (bn_width a) r = (Some (), e)"
      using bn_wexpand_cases [OF ok(3), of mem "bn_width a"] by metis
    have less: "bn_abs b < beta ^ bn_width a" using le bn_abs_less [OF ok(1)] by linarith
    then have f: "bn_fits_in_words b (bn_width a)" using bn_fits_in_words_spec [OF ok(2)] by simp
    then have fits: "words_val (drop n (bn_words b)) = 0"
      using ok(2) by (cases "bn_width b > bn_width a") (simp_all add: n_def bn_fits_drop)
    note w = bn_usub_words [OF ok(1,2) n_def fits lo hi]
    have "d \<noteq> 0" using res s f e lo hi by (auto simp: bn_usub_consttime_def Let_def mn split: if_splits)
    then have "unat d = 1" using w(3) unat_pos [of d] by simp
    moreover have "words_val (lo @ hi) < beta ^ bn_width a" using words_val_less [of "lo @ hi"] w(1) by simp
    ultimately show False using w(2) less le by simp
  qed
qed

lemma BN_usub_spec:
  assumes "bn_ok a" "bn_ok b" "bn_ok r" "BN_usub mem a b r = (Some u, r')"
  shows "bn_ok r' \<and> bn_abs r' + bn_abs b = bn_abs a \<and> \<not> bn_neg r'"
proof -
  obtain e where e: "bn_usub_consttime mem a b r = (Some (), e)" and r': "r' = bn_set_minimal_width e"
    using assms(4) by (auto simp: BN_usub_def elim: on_ok_unit)
  note c = bn_usub_consttime_spec(1) [OF assms(1-3) e refl]
  note m = bn_set_minimal_width_spec [OF conjunct1 [OF c]]
  have "\<not> bn_neg r'" using c by (simp add: r' bn_set_minimal_width_def Let_def)
  then show ?thesis using c m by (simp add: r')
qed

lemma BN_usub_fails:
  assumes "bn_ok a" "bn_ok b" "bn_ok r" "BN_usub mem a b r = (None, r')" "bn_abs b \<le> bn_abs a"
  shows "bn_wexpand mem (bn_width a) r = (None, r)"
proof (cases "bn_usub_consttime mem a b r")
  case (Pair x y)
  with assms(4) have "x = None" by (cases x) (auto simp: BN_usub_def)
  with bn_usub_consttime_spec(2) [OF assms(1-3) Pair _ assms(5)] show ?thesis by simp
qed

section \<open>Signed operations\<close>

lemma BN_diff_spec:
  assumes "bn_ok a" "bn_ok b" "bn_ok r" "BN_diff mem a b r = (Some u, r')"
  shows "bn_ok r' \<and> bn_int r' = int (bn_abs a) - int (bn_abs b) \<and> bn_canonical r'"
proof (cases "bn_abs a < bn_abs b")
  case True
  then obtain e where e: "BN_usub mem b a r = (Some (), e)" and r': "r' = e\<lparr>bn_neg := True\<rparr>"
    using assms(4) BN_ucmp_less [OF assms(1,2)] by (auto simp: BN_diff_def elim: on_ok_unit)
  note BN_usub_spec [OF assms(2,1,3) e]
  then show ?thesis using True
    by (auto simp: r' bn_ok_def bn_int_def bn_abs_def bn_words_def bn_canonical_def)
next
  case False
  then obtain e where e: "BN_usub mem a b r = (Some (), e)" and r': "r' = e\<lparr>bn_neg := False\<rparr>"
    using assms(4) BN_ucmp_less [OF assms(1,2)] by (auto simp: BN_diff_def elim: on_ok_unit)
  note BN_usub_spec [OF assms(1,2,3) e]
  then show ?thesis using False
    by (auto simp: r' bn_ok_def bn_int_def bn_abs_def bn_words_def bn_canonical_def)
qed

lemma bn_neg_update [simp]:
  "bn_ok (e\<lparr>bn_neg := s\<rparr>) = bn_ok e" "bn_abs (e\<lparr>bn_neg := s\<rparr>) = bn_abs e"
  "bn_words (e\<lparr>bn_neg := s\<rparr>) = bn_words e"
  by (simp_all add: bn_ok_def bn_abs_def bn_words_def)

lemma BN_add_spec:
  assumes ok: "bn_ok a" "bn_ok b" "bn_ok r" and res: "BN_add mem a b r = (Some u, r')"
  shows "bn_ok r' \<and> bn_int r' = bn_int a + bn_int b"
    and "bn_canonical a \<Longrightarrow> bn_canonical r'"
proof -
  have "bn_ok r' \<and> bn_int r' = bn_int a + bn_int b \<and> (bn_canonical a \<longrightarrow> bn_canonical r')"
  proof (cases "bn_neg a = bn_neg b")
    case True
    then obtain e where e: "BN_uadd mem a b r = (Some u, e)" and r': "r' = e\<lparr>bn_neg := bn_neg a\<rparr>"
      using res by (auto simp: BN_add_def split: prod.splits)
    from BN_uadd_spec [OF ok e] True show ?thesis
      by (auto simp: r' bn_int_def bn_canonical_def)
  next
    case False
    then show ?thesis
      using res BN_diff_spec [OF ok(1,2,3)] BN_diff_spec [OF ok(2,1,3)]
      by (cases "bn_neg a") (auto simp: BN_add_def bn_int_def)
  qed
  then show "bn_ok r' \<and> bn_int r' = bn_int a + bn_int b" "bn_canonical a \<Longrightarrow> bn_canonical r'" by auto
qed

lemma BN_sub_spec:
  assumes ok: "bn_ok a" "bn_ok b" "bn_ok r" and res: "BN_sub mem a b r = (Some u, r')"
  shows "bn_ok r' \<and> bn_int r' = bn_int a - bn_int b"
    and "bn_canonical a \<Longrightarrow> bn_canonical r'"
proof -
  have "bn_ok r' \<and> bn_int r' = bn_int a - bn_int b \<and> (bn_canonical a \<longrightarrow> bn_canonical r')"
  proof (cases "bn_neg a = bn_neg b")
    case False
    then obtain e where e: "BN_uadd mem a b r = (Some (), e)" and r': "r' = e\<lparr>bn_neg := bn_neg a\<rparr>"
      using res by (cases "bn_neg a") (auto simp: BN_sub_def elim: on_ok_unit)
    from BN_uadd_spec [OF ok e] False show ?thesis
      by (auto simp: r' bn_int_def bn_canonical_def)
  next
    case True
    then show ?thesis
      using res BN_diff_spec [OF ok(1,2,3)] BN_diff_spec [OF ok(2,1,3)]
      by (cases "bn_neg a") (auto simp: BN_sub_def bn_int_def)
  qed
  then show "bn_ok r' \<and> bn_int r' = bn_int a - bn_int b" "bn_canonical a \<Longrightarrow> bn_canonical r'" by auto
qed

section \<open>Word operations\<close>

lemma add_word_loop_spec:
  assumes "add_word_loop w xs = (ys, w', i)"
  shows "length ys = length xs \<and> words_val ys + beta ^ length xs * unat w' = words_val xs + unat w \<and>
    (w' \<noteq> 0 \<longrightarrow> i = length xs)"
  using assms
proof (induction w xs arbitrary: ys w' i rule: add_word_loop.induct)
  case (2 w x xs)
  show ?case
  proof (cases "w = 0")
    case True
    with 2(2) show ?thesis by auto
  next
    case False
    define k :: bn_ulong where "k = (if w > x + w then 1 else 0)"
    obtain zs v j where z: "add_word_loop k xs = (zs, v, j)" using prod_cases3 by blast
    then have r: "ys = (x + w) # zs" "w' = v" "i = Suc j" using 2(2) False by (simp_all add: Let_def k_def)
    have k: "unat (x + w) + beta * unat k = unat x + unat w"
      using unat_add_carry [of x w] by (cases "x + w < w") (simp_all add: k_def)
    have IH: "length zs = length xs \<and> words_val zs + beta ^ length xs * unat v = words_val xs + unat k \<and>
        (v \<noteq> 0 \<longrightarrow> j = length xs)"
      using 2(1) [OF False refl] z by (simp add: k_def)
    have "words_val ys + beta ^ length (x # xs) * unat w' =
        unat (x + w) + beta * (words_val zs + beta ^ length xs * unat v)"
      by (simp add: r algebra_simps)
    also have "\<dots> = words_val (x # xs) + unat w" using IH k by (simp add: algebra_simps)
    finally show ?thesis using IH r by simp
  qed
qed simp

lemma sub_word_loop_spec:
  assumes "unat w \<le> words_val xs" "w \<noteq> 0"
  shows "\<exists>ys i. sub_word_loop w xs = Some (ys, i) \<and> length ys = length xs \<and> i < length xs \<and>
    words_val ys + unat w = words_val xs"
  using assms
proof (induction w xs rule: sub_word_loop.induct)
  case (1 w)
  then show ?case by (simp add: unsigned_eq_0_iff)
next
  case (2 w x xs)
  show ?case
  proof (cases "x \<ge> w")
    case True
    then show ?thesis by (simp add: unat_sub_mod word_le_nat_alt)
  next
    case False
    then have l: "unat x < unat w" by (simp add: word_le_nat_alt)
    then have "words_val xs \<noteq> 0" using 2(2) by (cases "words_val xs") auto
    then have "unat (1 :: bn_ulong) \<le> words_val xs" by simp
    then obtain ys i where y: "sub_word_loop 1 xs = Some (ys, i)" "length ys = length xs" "i < length xs"
      "words_val ys + 1 = words_val xs"
      using 2(1) [OF False] by auto
    have "unat (x - w) + unat w = unat x + beta"
      using l unat_less_beta [of w] by (simp add: unat_sub_mod word_le_nat_alt beta_def)
    then have "words_val ((x - w) # ys) + unat w = words_val (x # xs)"
      unfolding words_val.simps y(4) [symmetric] by simp
    with y False show ?thesis by simp
  qed
qed

lemma bn_abs_blit:
  assumes "bn_ok a" "length ds = bn_width a"
  shows "bn_ok (a\<lparr>bn_d := blit (bn_d a) 0 ds\<rparr>)" "bn_abs (a\<lparr>bn_d := blit (bn_d a) 0 ds\<rparr>) = words_val ds"
    "bn_words (a\<lparr>bn_d := blit (bn_d a) 0 ds\<rparr>) = ds"
  using assms by (simp_all add: bn_ok_def bn_abs_def bn_words_def words_val_blit)

declare BN_add_word.simps [simp del] BN_sub_word.simps [simp del]

lemma BN_add_word_nonneg:
  assumes ok: "bn_ok a" and n: "\<not> bn_neg a" and res: "BN_add_word mem w a = (Some u, r)"
  shows "bn_ok r \<and> bn_int r = bn_int a + int (unat w) \<and> bn_canonical r"
proof (cases "w = 0 \<or> bn_abs a = 0")
  case True
  then show ?thesis
    using res ok n BN_set_word_spec [OF ok, of mem w u r] BN_is_zero_spec [OF ok]
    by (auto simp: BN_add_word.simps [of mem w a] bn_int_def bn_canonical_def split: if_splits)
next
  case False
  obtain ds v i where l: "add_word_loop w (bn_words a) = (ds, v, i)" using prod_cases3 by blast
  define b where "b = a\<lparr>bn_d := blit (bn_d a) 0 ds\<rparr>"
  note x = add_word_loop_spec [OF l]
  have len: "length ds = bn_width a" using x ok by simp
  note b = bn_abs_blit [OF ok len, folded b_def]
  have bw: "bn_width b = bn_width a" "bn_neg b = bn_neg a" by (simp_all add: b_def)
  have val: "words_val ds + beta ^ bn_width a * unat v = bn_abs a + unat w"
    using x ok by (simp add: bn_abs_def)
  have eq: "BN_add_word mem w a =
      (if v \<noteq> 0 \<and> i = bn_width b then
         on_ok (bn_wexpand mem (bn_width b + 1) b) (\<lambda>_ a.
           (Some (), a\<lparr>bn_width := bn_width a + 1, bn_d := (bn_d a)[i := v]\<rparr>))
       else (Some (), b))"
    using False n l BN_is_zero_spec [OF ok]
    by (simp add: BN_add_word.simps [of mem w a] b_def flip: bn_words_def)
  show ?thesis
  proof (cases "v = 0")
    case True
    then show ?thesis using eq res b val n bw by (simp add: bn_int_def bn_canonical_def)
  next
    case False
    then have i: "i = bn_width b" using x ok bw by simp
    from res [unfolded eq] False i obtain e where e: "bn_wexpand mem (bn_width b + 1) b = (Some (), e)"
      and r: "r = e\<lparr>bn_width := bn_width e + 1, bn_d := (bn_d e)[i := v]\<rparr>"
      by (auto elim: on_ok_unit)
    note y = bn_wexpand_ok [OF e b(1)]
    have "take (Suc i) ((bn_d e)[i := v]) = ds @ [v]"
      using y(1,2,3,4) b(3) i by (simp add: take_Suc_conv_app_nth bn_ok_def bn_words_def)
    then have "bn_abs r = words_val (ds @ [v])"
      using y(4) i by (simp add: r bn_abs_def bn_words_def)
    moreover have "bn_ok r" using y(1,3,4) by (simp add: r bn_ok_def)
    ultimately show ?thesis
      using val len n bw y(5) by (simp add: bn_int_def bn_canonical_def words_val_append r)
  qed
qed

lemma bn_minimal_width_1:
  assumes "bn_ok a" "bn_minimal_width a = 1"
  shows "bn_abs a = unat (bn_d a ! 0)" "0 < bn_width a"
proof -
  have len: "bn_width a \<le> length (bn_d a)" using assms by (simp add: bn_ok_def)
  show w: "0 < bn_width a"
    using assms(2) minimal_width_le [of "bn_d a" "bn_width a"] by (simp add: bn_minimal_width_def)
  have "bn_abs a = words_val (take 1 (bn_d a))"
    using minimal_width_val [OF len] assms(2) by (simp add: bn_abs_def bn_words_def bn_minimal_width_def)
  also have "\<dots> = unat (bn_d a ! 0)"
    using w len by (cases "bn_d a") auto
  finally show "bn_abs a = unat (bn_d a ! 0)" .
qed

lemma bn_minimal_width_2:
  assumes "bn_ok a" "1 < bn_minimal_width a"
  shows "beta \<le> bn_abs a"
proof -
  define m where "m = bn_minimal_width a"
  have len: "bn_width a \<le> length (bn_d a)" using assms by (simp add: bn_ok_def)
  have ml: "m \<le> length (bn_d a)" using minimal_width_le len le_trans unfolding m_def bn_minimal_width_def by blast
  have "0 < unat (bn_d a ! (m - 1))"
    using minimal_width_top [of "bn_d a" "bn_width a"] assms(2) by (simp add: m_def bn_minimal_width_def unat_pos)
  moreover have "bn_abs a = words_val (take m (bn_d a))"
    using minimal_width_val [OF len] by (simp add: bn_abs_def bn_words_def m_def bn_minimal_width_def)
  moreover have "beta ^ 1 \<le> beta ^ (m - 1)"
    using assms(2) by (intro power_increasing) (simp_all add: m_def Suc_leI)
  ultimately have "beta * 1 \<le> beta ^ (m - 1) * unat (bn_d a ! (m - 1))"
    by (intro mult_le_mono) simp_all
  then show ?thesis
    using words_val_top_le [OF _ ml] assms(2) \<open>bn_abs a = words_val (take m (bn_d a))\<close> by (simp add: m_def)
qed

lemma BN_sub_word_zero:
  assumes ok: "bn_ok a" and z: "bn_abs a = 0" "w \<noteq> 0" and res: "BN_sub_word mem w a = (Some u, r)"
  shows "bn_ok r \<and> bn_int r = - int (unat w) \<and> bn_canonical r"
proof -
  from res z ok obtain e where e: "BN_set_word mem w a = (Some (), e)" and r: "r = BN_set_negative True e"
    by (auto simp: BN_sub_word.simps [of mem w a] BN_is_zero_spec elim: on_ok_unit)
  from BN_set_word_spec [OF ok e] have "bn_ok e" "bn_int e = int (unat w)" "bn_canonical e" by auto
  moreover from this have "bn_abs e = unat w" "bn_abs e \<noteq> 0" "\<not> bn_neg e"
    using z(2) unat_pos [of w] by (auto simp: bn_int_def simp del: of_nat_unat split: if_splits)
  ultimately show ?thesis by (simp add: r BN_set_negative_def BN_is_zero_spec bn_int_def bn_canonical_def)
qed

lemma BN_sub_word_nonneg:
  assumes ok: "bn_ok a" and n: "\<not> bn_neg a" and res: "BN_sub_word mem w a = (Some u, r)"
  shows "bn_ok r \<and> bn_int r = bn_int a - int (unat w) \<and> bn_canonical r"
proof -
  consider (zero) "w = 0" | (empty) "w \<noteq> 0" "bn_abs a = 0"
    | (small) "w \<noteq> 0" "bn_abs a \<noteq> 0" "bn_minimal_width a = 1" "bn_d a ! 0 < w"
    | (large) "w \<noteq> 0" "bn_abs a \<noteq> 0" "\<not> (bn_minimal_width a = 1 \<and> bn_d a ! 0 < w)"
    by blast
  then show ?thesis
  proof cases
    case zero
    with res n ok show ?thesis by (simp add: BN_sub_word.simps [of mem 0 a] bn_canonical_def)
  next
    case empty
    with BN_sub_word_zero [OF ok _ _ res] n show ?thesis by (simp add: bn_int_def)
  next
    case small
    note m = bn_minimal_width_1 [OF ok small(3)]
    have u: "unat (w - bn_d a ! 0) = unat w - unat (bn_d a ! 0)" "unat (bn_d a ! 0) < unat w"
      using small(4) by (simp_all add: unat_sub_mod word_less_nat_alt word_le_nat_alt)
    have r: "r = a\<lparr>bn_d := (bn_d a)[0 := w - bn_d a ! 0], bn_neg := True\<rparr>"
      using res small n ok by (simp add: BN_sub_word.simps [of mem w a] BN_is_zero_spec)
    obtain x xs where x: "bn_words a = x # xs" "bn_d a ! 0 = x" "bn_words r = (w - x) # xs"
      using m(2) ok by (cases "bn_d a"; cases "bn_width a") (auto simp: bn_words_def bn_ok_def r)
    have "words_val xs = 0" using m(1) x by (simp add: bn_abs_def)
    then have "bn_abs r = unat w - bn_abs a" using x u m(1) by (simp add: bn_abs_def)
    moreover have "bn_ok r" using ok by (simp add: r bn_ok_def)
    ultimately show ?thesis using n u m(1) by (simp add: bn_int_def bn_canonical_def r)
  next
    case large
    have "bn_minimal_width a \<noteq> 0"
      using large(2) minimal_width_0 [of "bn_width a" "bn_d a"] ok
      by (simp add: bn_minimal_width_def bn_abs_def bn_words_def bn_ok_def)
    moreover have "unat w \<le> bn_abs a" if "beta \<le> bn_abs a"
      using that unat_less_beta [of w] by linarith
    ultimately have "unat w \<le> bn_abs a"
      using bn_minimal_width_1 [OF ok] bn_minimal_width_2 [OF ok] large(3)
      by (cases "bn_minimal_width a = 1") (auto simp: word_less_nat_alt not_less)
    then have "unat w \<le> words_val (bn_words a)" by (simp add: bn_abs_def)
    from sub_word_loop_spec [OF this large(1)] obtain ds i where l: "sub_word_loop w (bn_words a) = Some (ds, i)"
      and ds: "length ds = length (bn_words a)" "i < length (bn_words a)"
        "words_val ds + unat w = words_val (bn_words a)" by blast
    define b where "b = a\<lparr>bn_d := blit (bn_d a) 0 ds\<rparr>"
    have len: "length ds = bn_width a" using ds(1) ok by simp
    note b = bn_abs_blit [OF ok len, folded b_def]
    have r: "r = (if bn_d b ! i = 0 \<and> i = bn_width b - 1 then b\<lparr>bn_width := bn_width b - 1\<rparr> else b)"
    proof -
      have "BN_sub_word mem w a =
        (case sub_word_loop w (take (bn_width a) (bn_d a)) of
           None \<Rightarrow> (None, a)
         | Some (ds, i) \<Rightarrow>
             let a = a\<lparr>bn_d := blit (bn_d a) 0 ds\<rparr>
             in (Some (), if bn_d a ! i = 0 \<and> i = bn_width a - 1 then a\<lparr>bn_width := bn_width a - 1\<rparr> else a))"
        by (simp only: BN_sub_word.simps [of mem w a] BN_is_zero_spec [OF ok] large(1,2) n if_False if_not_P [OF large(3)])
      then have "BN_sub_word mem w a =
        (Some (), if bn_d b ! i = 0 \<and> i = bn_width b - 1 then b\<lparr>bn_width := bn_width b - 1\<rparr> else b)"
        using l by (simp only: bn_words_def option.case prod.case Let_def b_def)
      then show ?thesis using res by (simp only: prod.inject)

    qed
    have "bn_ok r \<and> bn_abs r = bn_abs b \<and> bn_neg r = bn_neg a"
    proof (cases "bn_d b ! i = 0 \<and> i = bn_width b - 1")
      case True
      have "0 < bn_width b" using ds ok by (auto simp: b_def)
      moreover have "bn_d b ! (bn_width b - 1) = 0" using True by auto
      ultimately have "bn_abs b = words_val (take (bn_width b - 1) (bn_d b))"
        using words_val_top_le [of "bn_width b" "bn_d b"] b(1)
        by (simp add: bn_abs_def bn_words_def bn_ok_def)
      moreover have "r = b\<lparr>bn_width := bn_width b - 1\<rparr>" unfolding r by (rule if_P [OF True])
      moreover have "bn_neg b = bn_neg a" by (simp add: b_def)
      ultimately show ?thesis using b(1) by (auto simp: bn_ok_def bn_abs_def bn_words_def)
    next
      case False
      then have "r = b" unfolding r by (rule if_not_P)
      with b(1) show ?thesis by (simp add: b_def)
    qed
    moreover have "int (words_val ds) = int (bn_abs a) - int (unat w)"
      using ds(3) unfolding bn_abs_def by linarith
    ultimately show ?thesis using b(2) n by (simp add: bn_int_def bn_canonical_def del: of_nat_unat)
  qed
qed

lemma BN_add_word_spec:
  assumes ok: "bn_ok a" and res: "BN_add_word mem w a = (Some u, r)"
  shows "bn_ok r \<and> bn_int r = bn_int a + int (unat w) \<and> (bn_canonical a \<longrightarrow> bn_canonical r)"
proof (cases "bn_neg a \<and> w \<noteq> 0 \<and> bn_abs a \<noteq> 0")
  case True
  obtain e where e: "BN_sub_word mem w (a\<lparr>bn_neg := False\<rparr>) = (Some u, e)"
    and r: "r = (if BN_is_zero e then e else e\<lparr>bn_neg := \<not> bn_neg e\<rparr>)"
    using res True by (auto simp: BN_add_word.simps [of mem w a] BN_is_zero_spec [OF ok] split: prod.splits)
  from BN_sub_word_nonneg [OF _ _ e] ok
  have x: "bn_ok e" "bn_int e = int (bn_abs a) - int (unat w)" "bn_canonical e" by (simp_all add: bn_int_def)
  then show ?thesis using True
    by (auto simp: r BN_is_zero_spec bn_int_def bn_canonical_def split: if_splits)
next
  case False
  then consider "\<not> bn_neg a" | "w = 0" | "bn_abs a = 0" "w \<noteq> 0" by blast
  then show ?thesis
  proof cases
    case 3
    then show ?thesis using res BN_set_word_spec [OF ok, of mem w u r] BN_is_zero_spec [OF ok]
      by (simp add: BN_add_word.simps [of mem w a] bn_int_def)
  qed (use BN_add_word_nonneg [OF ok _ res] res ok in \<open>auto simp: BN_add_word.simps [of mem 0 a]\<close>)
qed

lemma BN_sub_word_spec:
  assumes ok: "bn_ok a" and res: "BN_sub_word mem w a = (Some u, r)"
  shows "bn_ok r \<and> bn_int r = bn_int a - int (unat w) \<and> (bn_canonical a \<longrightarrow> bn_canonical r)"
proof (cases "bn_neg a \<and> w \<noteq> 0 \<and> bn_abs a \<noteq> 0")
  case True
  obtain e where e: "BN_add_word mem w (a\<lparr>bn_neg := False\<rparr>) = (Some u, e)"
    and r: "r = e\<lparr>bn_neg := True\<rparr>"
    using res True by (auto simp: BN_sub_word.simps [of mem w a] BN_is_zero_spec [OF ok] split: prod.splits)
  from BN_add_word_nonneg [OF _ _ e] ok
  have x: "bn_ok e" "bn_int e = int (bn_abs a) + int (unat w)" by (simp_all add: bn_int_def)
  then have "\<not> bn_neg e" "int (bn_abs e) = int (bn_abs a) + int (unat w)"
    using True by (auto simp: bn_int_def simp del: of_nat_unat split: if_splits)
  then show ?thesis using True x(1) by (simp add: r bn_int_def bn_canonical_def del: of_nat_unat)
next
  case False
  then consider "\<not> bn_neg a" | "w = 0" | "bn_abs a = 0" "w \<noteq> 0" by blast
  then show ?thesis
  proof cases
    case 3
    then show ?thesis using BN_sub_word_zero [OF ok _ _ res] by (simp add: bn_int_def)
  qed (use BN_sub_word_nonneg [OF ok _ res] res ok in \<open>auto simp: BN_sub_word.simps [of mem 0 a]\<close>)
qed

end
