(* ===== verification/BnShift.thy ===== *)
theory BnShift
  imports BnAdd
begin

text \<open>
  Shifts and single bits: \<open>crypto/fipsmodule/bn/shift.c\<close>. The shifts are proved to multiply by and
  divide by a power of two, for whole words and for the bits within a word.
\<close>

text \<open>The bit shift of \<open>BN_lshift\<close>, downwards over the words; \<open>t\<close> is the result array.\<close>

fun lshift_loop :: "bn_ulong list \<Rightarrow> nat \<Rightarrow> nat \<Rightarrow> nat \<Rightarrow> nat \<Rightarrow> bn_ulong list \<Rightarrow> bn_ulong list" where
  "lshift_loop f nw lb rb 0 t = t"
| "lshift_loop f nw lb rb (Suc i) t =
     (let l = f ! i;
          t = t[nw + i + 1 := t ! (nw + i + 1) OR drop_bit rb l];
          t = t[nw + i := push_bit lb l]
      in lshift_loop f nw lb rb i t)"

fun lshift_words_loop :: "bn_ulong list \<Rightarrow> nat \<Rightarrow> nat \<Rightarrow> bn_ulong list \<Rightarrow> bn_ulong list" where
  "lshift_words_loop f nw 0 t = t"
| "lshift_words_loop f nw (Suc i) t = lshift_words_loop f nw i (t[nw + i := f ! i])"

definition BN_lshift :: "bn_mem \<Rightarrow> bignum \<Rightarrow> int \<Rightarrow> bignum \<Rightarrow> unit option \<times> bignum" where
  "BN_lshift mem a n r =
     (if n < 0 then (None, r)
      else
        let r = r\<lparr>bn_neg := bn_neg a\<rparr>;
            nw = nat n div 64
        in on_ok (bn_wexpand mem (bn_width a + nw + 1) r) (\<lambda>_ r.
             let lb = nat n mod 64; rb = 64 - lb;
                 t = (bn_d r)[bn_width a + nw := 0];
                 t = (if lb = 0 then lshift_words_loop (bn_d a) nw (bn_width a) t
                      else lshift_loop (bn_d a) nw lb rb (bn_width a) t);
                 t = blit t 0 (replicate nw 0)
             in (Some (), bn_set_minimal_width (r\<lparr>bn_d := t, bn_width := bn_width a + nw + 1\<rparr>))))"

fun lshift1_loop :: "bn_ulong \<Rightarrow> bn_ulong list \<Rightarrow> bn_ulong list \<times> bn_ulong" where
  "lshift1_loop c [] = ([], c)"
| "lshift1_loop c (t # ap) =
     (let (rp, c') = lshift1_loop (drop_bit (64 - 1) t) ap in ((push_bit 1 t OR c) # rp, c'))"

definition BN_lshift1 :: "bn_mem \<Rightarrow> bignum \<Rightarrow> bignum \<Rightarrow> unit option \<times> bignum" where
  "BN_lshift1 mem a r =
     (let r = r\<lparr>bn_neg := bn_neg a\<rparr>
      in on_ok (bn_wexpand mem (bn_width a + 1) r) (\<lambda>_ r.
           let (rp, c) = lshift1_loop 0 (take (bn_width a) (bn_d a));
               r = r\<lparr>bn_width := bn_width a, bn_d := blit (bn_d r) 0 rp\<rparr>
           in (Some (), if c \<noteq> 0 then r\<lparr>bn_d := (bn_d r)[bn_width a := 1], bn_width := bn_width r + 1\<rparr> else r)))"

definition bn_rshift_words :: "bn_ulong list \<Rightarrow> nat \<Rightarrow> nat \<Rightarrow> bn_ulong list" where
  "bn_rshift_words a shift num =
     (let shift_bits = shift mod 64; shift_words = shift div 64
      in if shift_words \<ge> num then replicate num 0
         else
           (if shift_bits = 0 then take (num - shift_words) (drop shift_words a)
            else map (\<lambda>i. drop_bit shift_bits (a ! i) OR push_bit (64 - shift_bits) (a ! (i + 1)))
                   [shift_words..<num - 1]
                 @ [drop_bit shift_bits (a ! (num - 1))])
           @ replicate shift_words 0)"

definition BN_rshift :: "bn_mem \<Rightarrow> bignum \<Rightarrow> int \<Rightarrow> bignum \<Rightarrow> unit option \<times> bignum" where
  "BN_rshift mem a n r =
     (if n < 0 then (None, r)
      else on_ok (bn_wexpand mem (bn_width a) r) (\<lambda>_ r.
        (Some (), bn_set_minimal_width
          (r\<lparr>bn_d := blit (bn_d r) 0 (bn_rshift_words (bn_d a) (nat n) (bn_width a)),
             bn_neg := bn_neg a, bn_width := bn_width a\<rparr>))))"

definition bn_rshift1_words :: "bn_ulong list \<Rightarrow> nat \<Rightarrow> bn_ulong list" where
  "bn_rshift1_words a num =
     (if num = 0 then []
      else map (\<lambda>i. drop_bit 1 (a ! i) OR push_bit (64 - 1) (a ! (i + 1))) [0..<num - 1]
           @ [drop_bit 1 (a ! (num - 1))])"

definition BN_rshift1 :: "bn_mem \<Rightarrow> bignum \<Rightarrow> bignum \<Rightarrow> unit option \<times> bignum" where
  "BN_rshift1 mem a r =
     on_ok (bn_wexpand mem (bn_width a) r) (\<lambda>_ r.
       (Some (), bn_set_minimal_width
         (r\<lparr>bn_d := blit (bn_d r) 0 (bn_rshift1_words (bn_d a) (bn_width a)),
            bn_width := bn_width a, bn_neg := bn_neg a\<rparr>)))"

text \<open>
  The shift by a secret amount, as a sequence of shifts by powers of two that are kept or
  dropped under a mask; \<open>tmp\<close> is the temporary of the \<open>BN_CTX\<close>, \<open>None\<close> when there is none.
\<close>

function rshift_secret_loop :: "nat \<Rightarrow> nat \<Rightarrow> nat \<Rightarrow> nat \<Rightarrow> bn_ulong list \<Rightarrow> bn_ulong list" where
  "rshift_secret_loop n max_bits width i d =
     (if max_bits div 2 ^ i = 0 then d
      else rshift_secret_loop n max_bits width (i + 1)
             (bn_select_words (0 - of_nat (n div 2 ^ i mod 2)) (bn_rshift_words d (2 ^ i) width) d width))"
  by pat_completeness auto

termination
proof (relation "measure (\<lambda>(n, m, width, i, d). m - i)", goal_cases)
  case (2 n m width i d)
  then have "2 ^ i \<le> m" by (simp add: div_eq_0_iff not_less)
  with less_exp [of i] have "i < m" by (rule less_le_trans)
  then show ?case by simp
qed simp

definition bn_rshift_secret_shift ::
  "bn_mem \<Rightarrow> bignum option \<Rightarrow> bignum \<Rightarrow> nat \<Rightarrow> bignum \<Rightarrow> unit option \<times> bignum" where
  "bn_rshift_secret_shift mem tmp a n r =
     (case tmp of
        None \<Rightarrow> (None, r)
      | Some tmp \<Rightarrow>
          on_ok (BN_copy mem a r) (\<lambda>_ r.
            case bn_wexpand mem (bn_width r) tmp of
              (None, _) \<Rightarrow> (None, r)
            | (Some _, _) \<Rightarrow>
                (Some (), r\<lparr>bn_d := blit (bn_d r) 0
                    (rshift_secret_loop n (64 * bn_width r) (bn_width r) 0 (bn_words r))\<rparr>)))"

definition BN_set_bit :: "bn_mem \<Rightarrow> int \<Rightarrow> bignum \<Rightarrow> unit option \<times> bignum" where
  "BN_set_bit mem n a =
     (if n < 0 then (None, a)
      else
        let i = nat n div 64; j = nat n mod 64
        in on_ok
             (if bn_width a \<le> i then
                on_ok (bn_wexpand mem (i + 1) a) (\<lambda>_ a.
                  (Some (), a\<lparr>bn_d := blit (bn_d a) (bn_width a) (replicate (i + 1 - bn_width a) 0),
                              bn_width := i + 1\<rparr>))
              else (Some (), a))
             (\<lambda>_ a. (Some (), a\<lparr>bn_d := (bn_d a)[i := bn_d a ! i OR push_bit j 1]\<rparr>)))"

definition BN_clear_bit :: "int \<Rightarrow> bignum \<Rightarrow> unit option \<times> bignum" where
  "BN_clear_bit n a =
     (if n < 0 then (None, a)
      else
        let i = nat n div 64; j = nat n mod 64
        in if bn_width a \<le> i then (None, a)
           else (Some (), bn_set_minimal_width
                  (a\<lparr>bn_d := (bn_d a)[i := bn_d a ! i AND NOT (push_bit j 1)]\<rparr>)))"

definition bn_is_bit_set_words :: "bn_ulong list \<Rightarrow> nat \<Rightarrow> nat \<Rightarrow> bool" where
  "bn_is_bit_set_words a num b =
     (let i = b div 64; j = b mod 64
      in if i \<ge> num then False else drop_bit j (a ! i) AND 1 \<noteq> 0)"

definition BN_is_bit_set :: "bignum \<Rightarrow> int \<Rightarrow> bool" where
  "BN_is_bit_set a n = (if n < 0 then False else bn_is_bit_set_words (bn_d a) (bn_width a) (nat n))"

definition BN_mask_bits :: "int \<Rightarrow> bignum \<Rightarrow> unit option \<times> bignum" where
  "BN_mask_bits n a =
     (if n < 0 then (None, a)
      else
        let w = nat n div 64; b = nat n mod 64
        in if w \<ge> bn_width a then (Some (), a)
           else (Some (), bn_set_minimal_width
                  (if b = 0 then a\<lparr>bn_width := w\<rparr>
                   else a\<lparr>bn_width := w + 1,
                          bn_d := (bn_d a)[w := bn_d a ! w AND NOT (push_bit b (- 1))]\<rparr>)))"

section \<open>Words\<close>

lemma unat_push: "unat (push_bit k w) = unat w * 2 ^ k mod beta" for w :: bn_ulong
proof -
  have "unat (push_bit k w) = take_bit LENGTH(64) (push_bit k (unat w))"
    by (rule unsigned_push_bit_eq)
  then show ?thesis by (simp add: take_bit_eq_mod push_bit_eq_mult beta_def)
qed

lemma unat_or_disjoint: "x AND y = 0 \<Longrightarrow> unat (x OR y) = unat x + unat y" for x y :: bn_ulong
proof -
  assume a: "x AND y = 0"
  have "unat x AND unat y = 0" using arg_cong [OF a, of unat] by (simp add: unsigned_and_eq)
  then show ?thesis by (simp add: unsigned_or_eq disjunctive_add_eq_or)
qed

lemma beta_split: "k \<le> 64 \<Longrightarrow> beta = 2 ^ k * 2 ^ (64 - k)"
  unfolding beta_def power_add [symmetric] by simp

lemma shifted_pair:
  fixes w v :: bn_ulong
  assumes "0 < k" "k < 64"
  shows "unat (push_bit k w OR drop_bit (64 - k) v) = unat w * 2 ^ k mod beta + unat v div 2 ^ (64 - k)"
proof -
  have "push_bit k w AND drop_bit (64 - k) v = 0"
    using assms by (intro bit_word_eqI) (auto simp: bit_simps dest: bit_imp_le_length)
  then show ?thesis
    by (simp only: unat_or_disjoint unat_push unat_drop_bit)
qed

section \<open>Shifting words to the left\<close>

fun shl :: "nat \<Rightarrow> bn_ulong \<Rightarrow> bn_ulong list \<Rightarrow> bn_ulong list" where
  "shl k v [] = [drop_bit (64 - k) v]"
| "shl k v (w # ws) = (push_bit k w OR drop_bit (64 - k) v) # shl k w ws"

lemma shl_val:
  assumes "0 < k" "k < 64"
  shows "words_val (shl k v ws) = unat v div 2 ^ (64 - k) + 2 ^ k * words_val ws"
proof (induction ws arbitrary: v)
  case (Cons w ws)
  have "unat w * 2 ^ k = unat w * 2 ^ k mod beta + beta * (unat w div 2 ^ (64 - k))"
  proof -
    have "unat w * 2 ^ k div beta = unat w div 2 ^ (64 - k)"
      using assms by (simp add: beta_split [of k] mult.commute [of "2 ^ k"])
    then show ?thesis using mod_mult_div_eq [of "unat w * 2 ^ k" beta] by simp
  qed
  then show ?case
    using Cons [of w] by (simp add: shifted_pair [OF assms] algebra_simps)
qed (simp add: unat_drop_bit)

lemma length_shl [simp]: "length (shl k v ws) = Suc (length ws)"
  by (induction ws arbitrary: v) simp_all

lemma nth_shl:
  "p \<le> length ws \<Longrightarrow> shl k v ws ! p =
     (if p < length ws then push_bit k (ws ! p) OR drop_bit (64 - k) ((v # ws) ! p)
      else drop_bit (64 - k) ((v # ws) ! p))"
  by (induction ws arbitrary: v p) (auto simp: nth_Cons less_Suc_eq_0_disj split: nat.splits)

lemma length_lshift_loop [simp]:
  "length (lshift_loop f nw lb rb n t) = length t"
  by (induction n arbitrary: t) (simp_all add: Let_def)

lemma length_lshift_words_loop [simp]: "length (lshift_words_loop f nw n t) = length t"
  by (induction n arbitrary: t) simp_all

lemma nth_lshift_loop:
  assumes "nw + n < length t" "p < length t"
  shows "lshift_loop f nw lb rb n t ! p =
    (if nw \<le> p \<and> p < nw + n then push_bit lb (f ! (p - nw)) OR (if nw < p then drop_bit rb (f ! (p - nw - 1)) else 0)
     else if p = nw + n \<and> 0 < n then t ! p OR drop_bit rb (f ! (n - 1))
     else t ! p)"
  using assms
proof (induction n arbitrary: t)
  case (Suc n)
  define t1 where "t1 = t[nw + n + 1 := t ! (nw + n + 1) OR drop_bit rb (f ! n), nw + n := push_bit lb (f ! n)]"
  have eq: "lshift_loop f nw lb rb (Suc n) t = lshift_loop f nw lb rb n t1"
    by (simp add: t1_def Let_def)
  have t1: "t1 ! p = (if p = nw + n then push_bit lb (f ! n)
      else if p = nw + n + 1 then t ! p OR drop_bit rb (f ! n) else t ! p)"
    using Suc.prems by (simp add: t1_def nth_list_update)
  have len: "nw + n < length t1" "p < length t1" using Suc.prems by (simp_all add: t1_def)
  show ?case
    unfolding eq Suc.IH [OF len] t1 by (auto simp: less_Suc_eq)
qed auto

lemma nth_lshift_words_loop:
  assumes "nw + n < length t" "p < length t"
  shows "lshift_words_loop f nw n t ! p = (if nw \<le> p \<and> p < nw + n then f ! (p - nw) else t ! p)"
  using assms by (induction n arbitrary: t) (auto simp: nth_list_update less_Suc_eq)

lemma BN_lshift_spec:
  assumes ok: "bn_ok a" "bn_ok r" and res: "BN_lshift mem a n r = (Some u, r')"
  shows "bn_ok r' \<and> bn_int r' = bn_int a * 2 ^ nat n \<and> 0 \<le> n \<and> bn_canonical r'"
proof -
  define nw where "nw = nat n div 64"
  define lb where "lb = nat n mod 64"
  have n: "\<not> n < 0" using res by (auto simp: BN_lshift_def)
  from res n obtain e where e: "bn_wexpand mem (bn_width a + nw + 1) (r\<lparr>bn_neg := bn_neg a\<rparr>) = (Some (), e)"
    by (auto simp: BN_lshift_def Let_def nw_def elim: on_ok_unit)
  have okn: "bn_ok (r\<lparr>bn_neg := bn_neg a\<rparr>)" using ok by simp
  note x = bn_wexpand_ok [OF e okn]
  define t where "t = (if lb = 0 then lshift_words_loop (bn_d a) nw (bn_width a) ((bn_d e)[bn_width a + nw := 0])
    else lshift_loop (bn_d a) nw lb (64 - lb) (bn_width a) ((bn_d e)[bn_width a + nw := 0]))"
  have r': "r' = bn_set_minimal_width (e\<lparr>bn_d := blit t 0 (replicate nw 0), bn_width := bn_width a + nw + 1\<rparr>)"
    unfolding t_def nw_def lb_def using res n e [unfolded nw_def]
    by (simp add: BN_lshift_def Let_def split del: if_split)
  have len: "length t = bn_dmax e" "bn_width a + nw + 1 \<le> bn_dmax e" "length (bn_d e) = bn_dmax e"
    using x(1,3) by (simp_all add: t_def bn_ok_def)
  have wa: "bn_width a \<le> length (bn_d a)" using ok by (simp add: bn_ok_def)
  define out where "out = (if lb = 0 then bn_words a @ [0] else shl lb 0 (bn_words a))"
  have lo: "length out = bn_width a + 1" using ok by (simp add: out_def)
  have "take (bn_width a + nw + 1) (blit t 0 (replicate nw 0)) = replicate nw 0 @ out"
  proof (rule nth_equalityI)
    show "length (take (bn_width a + nw + 1) (blit t 0 (replicate nw 0))) = length (replicate nw (0::bn_ulong) @ out)"
      using len lo by simp
    fix p assume "p < length (take (bn_width a + nw + 1) (blit t 0 (replicate nw 0)))"
    then have p: "p < bn_width a + nw + 1" "p < length t" using len by auto
    have "blit t 0 (replicate nw 0) ! p = (if p < nw then 0 else t ! p)"
      using p len by (simp add: nth_blit)
    moreover have "t ! p = out ! (p - nw)" if np: "nw \<le> p"
    proof (cases "lb = 0")
      case True
      then have "t ! p = (if p < nw + bn_width a then bn_d a ! (p - nw) else 0)"
        using p len np by (simp add: t_def nth_lshift_words_loop nth_list_update)
      with True p np wa show ?thesis
        by (auto simp: out_def nth_append bn_words_def min_absorb2)
    next
      case False
      have "t ! p = (if p < nw + bn_width a
          then push_bit lb (bn_d a ! (p - nw)) OR (if nw < p then drop_bit (64 - lb) (bn_d a ! (p - nw - 1)) else 0)
          else if 0 < bn_width a then drop_bit (64 - lb) (bn_d a ! (bn_width a - 1)) else 0)"
        using p len np False by (auto simp: t_def nth_lshift_loop nth_list_update)
      moreover obtain q where q: "p = nw + q" using np le_Suc_ex by blast
      ultimately show ?thesis using False p wa
        by (cases "q = bn_width a"; cases q; cases "bn_width a")
          (auto simp: out_def nth_shl bn_words_def min_absorb2)
    qed
    ultimately show "take (bn_width a + nw + 1) (blit t 0 (replicate nw 0)) ! p = (replicate nw 0 @ out) ! p"
      using p by (auto simp: nth_append)
  qed
  moreover have "words_val out = bn_abs a * 2 ^ lb"
  proof (cases "lb = 0")
    case False
    then have "0 < lb" "lb < 64" by (simp_all add: lb_def)
    from shl_val [OF this] show ?thesis using False by (simp add: out_def bn_abs_def)
  qed (simp add: out_def bn_abs_def words_val_append)
  moreover have "beta ^ nw * 2 ^ lb = 2 ^ nat n"
  proof -
    have "beta ^ nw = 2 ^ (64 * nw)" unfolding beta_def by (simp only: power_mult)
    then show ?thesis by (simp add: nw_def lb_def flip: power_add)
  qed
  ultimately have v: "bn_abs (e\<lparr>bn_d := blit t 0 (replicate nw 0), bn_width := bn_width a + nw + 1\<rparr>) = bn_abs a * 2 ^ nat n"
    by (simp add: bn_abs_def [of "_\<lparr>bn_d := _, bn_width := _\<rparr>"] bn_words_def [of "_\<lparr>bn_d := _, bn_width := _\<rparr>"]
        words_val_append mult.left_commute [of "beta ^ nw"])
  have o: "bn_ok (e\<lparr>bn_d := blit t 0 (replicate nw 0), bn_width := bn_width a + nw + 1\<rparr>)"
    using len x(1) by (simp add: bn_ok_def)
  have "bn_neg e = bn_neg a" using x(5) by simp
  with bn_set_minimal_width_spec [OF o, folded r'] v n show ?thesis by (simp add: bn_int_def [of "_\<lparr>bn_d := _, bn_width := _\<rparr>"] bn_int_def [of a])
qed

lemma lshift1_loop_spec:
  "lshift1_loop (drop_bit 63 v) ws = (rp, c) \<Longrightarrow> shl 1 v ws = rp @ [c]"
  by (induction ws arbitrary: v rp c) (auto split: prod.splits)

lemma BN_lshift1_spec:
  assumes ok: "bn_ok a" "bn_ok r" and res: "BN_lshift1 mem a r = (Some u, r')"
  shows "bn_ok r' \<and> bn_int r' = 2 * bn_int a"
proof -
  obtain rp c where l: "lshift1_loop 0 (bn_words a) = (rp, c)" by fastforce
  from res obtain e where e: "bn_wexpand mem (bn_width a + 1) (r\<lparr>bn_neg := bn_neg a\<rparr>) = (Some (), e)"
    by (auto simp: BN_lshift1_def Let_def elim: on_ok_unit)
  have "bn_ok (r\<lparr>bn_neg := bn_neg a\<rparr>)" using ok by simp
  note x = bn_wexpand_ok [OF e this]
  have s: "shl 1 0 (bn_words a) = rp @ [c]" using lshift1_loop_spec [of 0] l by simp
  have len: "length rp = bn_width a"
    using arg_cong [OF s, of length] ok by simp
  have val: "words_val rp + beta ^ bn_width a * unat c = 2 * bn_abs a"
    using shl_val [of 1 0 "bn_words a"] s len by (simp add: bn_abs_def words_val_append)
  define d where "d = e\<lparr>bn_width := bn_width a, bn_d := blit (bn_d e) 0 rp\<rparr>"
  have d: "bn_ok d" "bn_words d = rp" "bn_neg d = bn_neg a"
    using x len by (simp_all add: d_def bn_ok_def bn_words_def words_val_blit)
  have r': "r' = (if c \<noteq> 0 then d\<lparr>bn_d := (bn_d d)[bn_width a := 1], bn_width := bn_width d + 1\<rparr> else d)"
    unfolding d_def using res e l by (simp add: BN_lshift1_def Let_def bn_words_def split del: if_split)
  show ?thesis
  proof (cases "c = 0")
    case True
    with r' d val show ?thesis by (simp add: bn_int_def bn_abs_def)
  next
    case False
    have "unat c = 1"
    proof -
      have "beta ^ bn_width a * unat c < beta ^ bn_width a * 2"
        using val bn_abs_less [OF ok(1)] by linarith
      then have "unat c < 2" by (simp only: nat_mult_less_cancel_disj)
      with False show ?thesis using unat_pos [of c] by simp
    qed
    then have c: "c = 1" by (simp add: word_unat_eq_iff [of c 1])
    have "take (Suc (bn_width a)) ((bn_d d)[bn_width a := 1]) = rp @ [1]"
      using d(2) x(1,3) len by (simp add: take_Suc_conv_app_nth d_def bn_ok_def bn_words_def)
    then have "bn_abs r' = 2 * bn_abs a"
      using val c len False by (simp add: r' bn_abs_def [of "_\<lparr>bn_d := _, bn_width := _\<rparr>"]
          bn_words_def [of "_\<lparr>bn_d := _, bn_width := _\<rparr>"] d_def words_val_append)
    moreover have "bn_ok r'" using x len False by (simp add: r' d_def bn_ok_def)
    ultimately show ?thesis using d(3) False by (simp add: r' bn_int_def)
  qed
qed

section \<open>Shifting words to the right\<close>

fun shr :: "nat \<Rightarrow> bn_ulong list \<Rightarrow> bn_ulong list" where
  "shr k [] = []"
| "shr k [w] = [drop_bit k w]"
| "shr k (w # v # ws) = (drop_bit k w OR push_bit (64 - k) v) # shr k (v # ws)"

lemma length_shr [simp]: "length (shr k ws) = length ws"
  by (induction k ws rule: shr.induct) simp_all

lemma shr_val:
  assumes "0 < k" "k < 64"
  shows "words_val (shr k ws) = words_val ws div 2 ^ k"
proof (induction ws rule: induct_list012)
  case (3 w v ws)
  define V where "V = words_val (v # ws)"
  have b: "beta = 2 ^ k * 2 ^ (64 - k)" using assms by (simp add: beta_split)
  have first: "unat (drop_bit k w OR push_bit (64 - k) v) = unat w div 2 ^ k + 2 ^ (64 - k) * (V mod 2 ^ k)"
  proof -
    have "unat (drop_bit k w OR push_bit (64 - k) v) = unat w div 2 ^ k + unat v * 2 ^ (64 - k) mod beta"
      using shifted_pair [of "64 - k" v w] assms by (simp add: or.commute)
    also have "unat v * 2 ^ (64 - k) mod beta = 2 ^ (64 - k) * (unat v mod 2 ^ k)"
      unfolding b mult_mod_right by (simp only: mult.commute)
    also have "unat v mod 2 ^ k = V mod 2 ^ k"
      unfolding V_def words_val.simps b mult.assoc by (simp only: mod_mult_self2)
    finally show ?thesis .
  qed
  have "(unat w + beta * V) div 2 ^ k = unat w div 2 ^ k + 2 ^ (64 - k) * V"
    unfolding b mult.assoc by simp
  also have "2 ^ (64 - k) * V = 2 ^ (64 - k) * (V mod 2 ^ k) + beta * (V div 2 ^ k)"
  proof -
    have "2 ^ (64 - k) * V = 2 ^ (64 - k) * (V mod 2 ^ k + 2 ^ k * (V div 2 ^ k))" by simp
    then show ?thesis unfolding b by (simp only: distrib_left mult.assoc mult.left_commute)
  qed
  finally show ?case using first 3 by (simp add: V_def)
qed (simp_all add: unat_drop_bit)

lemma shr_map:
  assumes "length ws = Suc m"
  shows "map (\<lambda>i. drop_bit k (ws ! i) OR push_bit (64 - k) (ws ! Suc i)) [0..<m] @ [drop_bit k (ws ! m)] = shr k ws"
  using assms
proof (induction k ws arbitrary: m rule: shr.induct)
  case (3 k w v ws)
  then obtain n where m: "m = Suc n" by (cases m) auto
  with 3 show ?case
    by (simp add: upt_conv_Cons map_Suc_upt [symmetric] comp_def del: upt_Suc)
qed simp_all

lemma bn_rshift_words_spec:
  assumes "num \<le> length a"
  shows "words_val (bn_rshift_words a shift num) = words_val (take num a) div 2 ^ shift"
    "length (bn_rshift_words a shift num) = num"
proof -
  define k where "k = shift mod 64"
  define sw where "sw = shift div 64"
  define ws where "ws = drop sw (take num a)"
  have p: "(2::nat) ^ shift = beta ^ sw * 2 ^ k"
  proof -
    have "beta ^ sw = 2 ^ (64 * sw)" unfolding beta_def by (simp only: power_mult)
    then show ?thesis by (simp add: sw_def k_def flip: power_add)
  qed
  have "words_val (bn_rshift_words a shift num) = words_val (take num a) div 2 ^ shift \<and>
    length (bn_rshift_words a shift num) = num"
  proof (cases "sw \<ge> num")
    case True
    have "words_val (take num a) < beta ^ num" using words_val_less [of "take num a"] assms by simp
    also have "beta ^ num \<le> beta ^ sw" using True by (intro power_increasing) (simp_all add: Suc_leI)
    also have "\<dots> \<le> beta ^ sw * 2 ^ k" by simp
    finally show ?thesis using True by (simp add: bn_rshift_words_def p flip: sw_def)
  next
    case False
    have len: "length ws = Suc (num - 1 - sw)" using False assms by (simp add: ws_def)
    have val: "words_val (take num a) div 2 ^ shift = words_val ws div 2 ^ k"
      using words_split [of "take num a" sw] words_val_less [of "take sw (take num a)"] False assms
      by (simp add: p div_mult2_eq ws_def min_def)
    define out where "out = (if k = 0 then take (num - sw) (drop sw a)
      else map (\<lambda>i. drop_bit k (a ! i) OR push_bit (64 - k) (a ! (i + 1))) [sw..<num - 1] @ [drop_bit k (a ! (num - 1))])"
    have "out = (if k = 0 then ws else shr k ws)"
    proof (cases "k = 0")
      case False
      have "out = map (\<lambda>i. drop_bit k (ws ! i) OR push_bit (64 - k) (ws ! Suc i)) [0..<num - 1 - sw]
          @ [drop_bit k (ws ! (num - 1 - sw))]"
        using False \<open>\<not> sw \<ge> num\<close> assms
        by (auto simp: out_def ws_def intro!: nth_equalityI)
      with False shr_map [OF len] show ?thesis by simp
    qed (simp add: out_def ws_def drop_take)
    moreover have "bn_rshift_words a shift num = out @ replicate sw 0"
      using False by (simp add: bn_rshift_words_def Let_def out_def k_def sw_def)
    moreover have "0 < k \<Longrightarrow> k < 64" by (simp add: k_def)
    ultimately show ?thesis
      using len False val shr_val [of k ws] by (auto simp: words_val_append)
  qed
  then show "words_val (bn_rshift_words a shift num) = words_val (take num a) div 2 ^ shift"
    "length (bn_rshift_words a shift num) = num" by auto
qed

lemma bn_rshift1_words_spec:
  assumes "num \<le> length a"
  shows "bn_rshift1_words a num = bn_rshift_words a 1 num"
  by (auto simp: bn_rshift1_words_def bn_rshift_words_def)

definition shift_int :: "int \<Rightarrow> nat \<Rightarrow> int" where
  "shift_int v n = sgn v * (\<bar>v\<bar> div 2 ^ n)"

lemma BN_rshift_result:
  assumes ok: "bn_ok a" "bn_ok r" and e: "bn_wexpand mem (bn_width a) r = (Some (), e)"
    and ws: "length ws = bn_width a" "words_val ws = bn_abs a div 2 ^ n"
    and r': "r' = bn_set_minimal_width (e\<lparr>bn_d := blit (bn_d e) 0 ws, bn_neg := bn_neg a, bn_width := bn_width a\<rparr>)"
  shows "bn_ok r' \<and> bn_int r' = shift_int (bn_int a) n \<and> bn_canonical r'"
proof -
  note x = bn_wexpand_ok [OF e ok(2)]
  define d where "d = e\<lparr>bn_d := blit (bn_d e) 0 ws, bn_neg := bn_neg a, bn_width := bn_width a\<rparr>"
  have d: "bn_ok d" "bn_words d = ws" "bn_neg d = bn_neg a"
    using x ws(1) by (simp_all add: d_def bn_ok_def bn_words_def words_val_blit)
  have "bn_int d = shift_int (bn_int a) n"
    using d ws(2) by (simp add: bn_int_def bn_abs_def [of d] shift_int_def sgn_if zdiv_int)
  with bn_set_minimal_width_spec [OF d(1)] show ?thesis by (simp add: r' flip: d_def)
qed

lemma BN_rshift_spec:
  assumes ok: "bn_ok a" "bn_ok r" and res: "BN_rshift mem a n r = (Some u, r')"
  shows "bn_ok r' \<and> bn_int r' = shift_int (bn_int a) (nat n) \<and> bn_canonical r' \<and> 0 \<le> n"
proof -
  have n: "0 \<le> n" using res by (auto simp: BN_rshift_def split: if_splits)
  then obtain e where e: "bn_wexpand mem (bn_width a) r = (Some (), e)"
    and r': "r' = bn_set_minimal_width (e\<lparr>bn_d := blit (bn_d e) 0 (bn_rshift_words (bn_d a) (nat n) (bn_width a)),
      bn_neg := bn_neg a, bn_width := bn_width a\<rparr>)"
    using res by (auto simp: BN_rshift_def elim: on_ok_unit)
  have "bn_width a \<le> length (bn_d a)" using ok by (simp add: bn_ok_def)
  note w = bn_rshift_words_spec [OF this, of "nat n"]
  from BN_rshift_result [OF ok e w(2) _ r'] w(1) n show ?thesis by (simp add: bn_abs_def bn_words_def)
qed

lemma BN_rshift1_spec:
  assumes ok: "bn_ok a" "bn_ok r" and res: "BN_rshift1 mem a r = (Some u, r')"
  shows "bn_ok r' \<and> bn_int r' = shift_int (bn_int a) 1 \<and> bn_canonical r'"
proof -
  have len: "bn_width a \<le> length (bn_d a)" using ok by (simp add: bn_ok_def)
  have swap: "e\<lparr>bn_d := d, bn_width := w, bn_neg := n\<rparr> = e\<lparr>bn_d := d, bn_neg := n, bn_width := w\<rparr>" for e :: bignum and d w n
    by (cases e) simp
  obtain e where e: "bn_wexpand mem (bn_width a) r = (Some (), e)"
    and r': "r' = bn_set_minimal_width (e\<lparr>bn_d := blit (bn_d e) 0 (bn_rshift_words (bn_d a) 1 (bn_width a)),
      bn_neg := bn_neg a, bn_width := bn_width a\<rparr>)"
    using res unfolding BN_rshift1_def bn_rshift1_words_spec [OF len] swap by (auto elim!: on_ok_unit)
  note w = bn_rshift_words_spec [OF len, of 1]
  from BN_rshift_result [where n = 1, OF ok e w(2) _ r'] w(1) show ?thesis by (simp add: bn_abs_def bn_words_def)
qed

text \<open>
  The loop over the bits of the shift looks at the bits of \<open>n\<close> below the bit length of the
  operand's size only.
\<close>

declare rshift_secret_loop.simps [simp del]

lemma rshift_secret_loop_spec:
  assumes "length d = width" "0 < width"
  shows "length (rshift_secret_loop n m width i d) = width \<and>
    words_val (rshift_secret_loop n m width i d) =
      words_val d div 2 ^ (n mod 2 ^ bit_len m - n mod 2 ^ min i (bit_len m))"
  using assms
proof (induction n m width i d rule: rshift_secret_loop.induct)
  case (1 n m width i d)
  show ?case
  proof (cases "m div 2 ^ i = 0")
    case True
    have "bit_len m \<le> i"
    proof (rule ccontr)
      assume "\<not> bit_len m \<le> i"
      then have "i \<le> bit_len m - 1" "m \<noteq> 0" by (cases "m = 0"; simp)+
      then have "(2::nat) ^ i \<le> 2 ^ (bit_len m - 1)" by (intro power_increasing) simp_all
      also have "\<dots> \<le> m" using bit_len_bounds \<open>m \<noteq> 0\<close> by blast
      finally have "2 ^ i \<le> m" .
      with True show False by (simp add: div_eq_0_iff)
    qed
    then show ?thesis using 1(2) True by (simp add: rshift_secret_loop.simps [of n m width i d] min_def)
  next
    case False
    then have "bit_len m = i + bit_len (m div 2 ^ i)" "bit_len (m div 2 ^ i) \<noteq> 0"
      using bit_len_shift [of m i] bit_len_bounds [of "m div 2 ^ i"] by auto
    then have i: "i < bit_len m" by simp
    define b where "b = n div 2 ^ i mod 2"
    define d' where "d' = bn_select_words (0 - of_nat b) (bn_rshift_words d (2 ^ i) width) d width"
    have "b = 0 \<or> b = 1" unfolding b_def by presburger
    then have mk: "0 - of_nat b = (ct_mask (b = 1) :: bn_ulong)" by (auto simp: ct_mask_def)
    note w = bn_rshift_words_spec [of width d "2 ^ i"]
    have "d' = (if b = 1 then bn_rshift_words d (2 ^ i) width else d)"
      unfolding d'_def mk using w(2) 1(2) by (subst bn_select_words_spec) auto
    then have d': "length d' = width" "words_val d' = words_val d div 2 ^ (b * 2 ^ i)"
      using w 1(2) \<open>b = 0 \<or> b = 1\<close> by auto
    have bits: "n mod 2 ^ Suc i = n mod 2 ^ i + b * 2 ^ i"
      unfolding b_def power_Suc2 mod_mult2_eq by (simp only: ac_simps)
    have "n mod 2 ^ Suc i = n mod 2 ^ bit_len m mod 2 ^ Suc i"
      using i by (simp add: mod_mod_cancel le_imp_power_dvd Suc_le_eq del: power_Suc)
    then have le: "n mod 2 ^ Suc i \<le> n mod 2 ^ bit_len m" by (metis mod_less_eq_dividend)
    have "rshift_secret_loop n m width i d = rshift_secret_loop n m width (i + 1) d'"
      using False by (simp add: rshift_secret_loop.simps [of n m width i d] d'_def b_def)
    then show ?thesis
      using 1(1) [OF False, folded b_def, folded d'_def] d' i bits le 1(3)
      by (simp add: min_absorb1 Suc_le_eq div_mult2_eq [symmetric] power_add [symmetric] del: power_Suc)
  qed
qed

lemma bn_rshift_secret_shift_spec:
  assumes ok: "bn_ok a" "bn_ok r" and res: "bn_rshift_secret_shift mem tmp a n r = (Some u, r')"
    and w: "0 < bn_width a"
  shows "bn_ok r' \<and> bn_abs r' = bn_abs a div 2 ^ (n mod 2 ^ bit_len (64 * bn_width a)) \<and> bn_neg r' = bn_neg a"
proof -
  obtain t where t: "tmp = Some t" using res by (auto simp: bn_rshift_secret_shift_def split: option.splits)
  then obtain e where e: "BN_copy mem a r = (Some (), e)"
    and r': "r' = e\<lparr>bn_d := blit (bn_d e) 0 (rshift_secret_loop n (64 * bn_width e) (bn_width e) 0 (bn_words e))\<rparr>"
    using res by (auto simp: bn_rshift_secret_shift_def elim!: on_ok_unit split: prod.splits option.splits)
  note c = BN_copy_spec [OF ok e]
  have ce: "bn_width e = bn_width a" "bn_neg e = bn_neg a"
    using e by (auto simp: BN_copy_def elim!: on_ok_unit)
  have "length (bn_words e) = bn_width e" using c(1) by simp
  note l = rshift_secret_loop_spec [OF this, of n "64 * bn_width e" 0]
  have len: "length (rshift_secret_loop n (64 * bn_width e) (bn_width e) 0 (bn_words e)) = bn_width e"
    using l w ce by simp
  show ?thesis
    using bn_abs_blit [OF c(1) len] l w ce c(3) by (simp add: r' bn_abs_def [of e])
qed

section \<open>Single bits\<close>

lemma bit_words_val:
  "bit (words_val ws) p \<longleftrightarrow> p div 64 < length ws \<and> bit (ws ! (p div 64)) (p mod 64)"
proof (induction ws arbitrary: p)
  case (Cons w ws)
  have "unat w AND push_bit 64 (words_val ws) = 0"
    by (rule bit_eqI) (auto simp: bit_simps dest: bit_imp_le_length)
  then have v: "words_val (w # ws) = unat w OR push_bit 64 (words_val ws)"
    by (simp add: beta_def push_bit_eq_mult disjunctive_add_eq_or mult.commute)
  have hi: "\<not> bit w p" if "64 \<le> p" using that by (auto dest: bit_imp_le_length)
  show ?case
  proof (cases "p < 64")
    case True
    then show ?thesis unfolding v by (auto simp: bit_simps)
  next
    case False
    then have "p div 64 = Suc ((p - 64) div 64)" "(p - 64) mod 64 = p mod 64"
      by (simp_all add: le_div_geq le_mod_geq)
    with False hi show ?thesis unfolding v by (simp add: bit_simps Cons)
  qed
qed simp

lemma bn_is_bit_set_words_spec:
  "num \<le> length a \<Longrightarrow> bn_is_bit_set_words a num p \<longleftrightarrow> bit (words_val (take num a)) p"
  by (auto simp: bn_is_bit_set_words_def Let_def bit_words_val and_one_eq mod_2_eq_odd
      bit_iff_odd_drop_bit [symmetric] split: if_splits)

lemma BN_is_bit_set_spec:
  assumes "bn_ok a"
  shows "BN_is_bit_set a n \<longleftrightarrow> 0 \<le> n \<and> bit (bn_abs a) (nat n)"
  using assms bn_is_bit_set_words_spec [of "bn_width a" "bn_d a" "nat n"]
  by (simp add: BN_is_bit_set_def bn_abs_def bn_words_def bn_ok_def)

lemma bit_bn_abs:
  assumes "bn_ok a"
  shows "bit (bn_abs a) p \<longleftrightarrow> p div 64 < bn_width a \<and> bit (bn_d a ! (p div 64)) (p mod 64)"
  using assms by (simp add: bn_abs_def bit_words_val) (auto simp: bn_words_def)

lemma BN_set_bit_spec:
  assumes ok: "bn_ok a" and res: "BN_set_bit mem n a = (Some u, r)"
  shows "bn_ok r \<and> bn_abs r = set_bit (nat n) (bn_abs a) \<and> bn_neg r = bn_neg a \<and> 0 \<le> n"
proof -
  define i where "i = nat n div 64"
  have n: "0 \<le> n" using res by (auto simp: BN_set_bit_def split: if_splits)
  obtain b where b: "bn_ok b" "bn_abs b = bn_abs a" "bn_neg b = bn_neg a" "i < bn_width b"
    and r: "r = b\<lparr>bn_d := (bn_d b)[i := bn_d b ! i OR push_bit (nat n mod 64) 1]\<rparr>"
  proof (cases "bn_width a \<le> i")
    case True
    then obtain e where e: "bn_wexpand mem (i + 1) a = (Some (), e)"
      and r: "r = (let b = e\<lparr>bn_d := blit (bn_d e) (bn_width e) (replicate (i + 1 - bn_width e) 0), bn_width := i + 1\<rparr>
        in b\<lparr>bn_d := (bn_d b)[i := bn_d b ! i OR push_bit (nat n mod 64) 1]\<rparr>)"
      using res n by (auto simp: BN_set_bit_def Let_def i_def elim!: on_ok_unit)
    define b where "b = e\<lparr>bn_d := blit (bn_d e) (bn_width e) (replicate (i + 1 - bn_width e) 0), bn_width := i + 1\<rparr>"
    have "bn_resize_words mem (i + 1) a = (Some (), b)"
      using True e by (simp add: bn_resize_words_def b_def)
    note rs = bn_resize_words_spec [OF ok this]
    have "bn_neg b = bn_neg a" using bn_wexpand_ok [OF e ok] by (simp add: b_def)
    with rs have "bn_abs b = bn_abs a" by (auto simp: bn_int_def split: if_splits)
    with rs \<open>bn_neg b = bn_neg a\<close> r show ?thesis by (intro that [of b]) (simp_all add: Let_def b_def)
  next
    case False
    then show ?thesis using res n ok by (intro that [of a]) (auto simp: BN_set_bit_def Let_def i_def)
  qed
  have okr: "bn_ok r" using b(1) by (simp add: r bn_ok_def)
  have il: "i < length (bn_d b)" using b(1,4) by (simp add: bn_ok_def)
  have "bn_abs r = set_bit (nat n) (bn_abs b)"
  proof (rule bit_eqI)
    fix p
    have same: "p div 64 = i \<Longrightarrow> p mod 64 = nat n mod 64 \<Longrightarrow> p = nat n"
      unfolding i_def by (metis div_mult_mod_eq)
    show "bit (bn_abs r) p \<longleftrightarrow> bit (set_bit (nat n) (bn_abs b)) p"
      unfolding bit_set_bit_iff bit_bn_abs [OF okr] bit_bn_abs [OF b(1)]
      using b(4) il same
      by (cases "p div 64 = i") (auto simp: r bit_simps nth_list_update i_def)
  qed
  with b okr n show ?thesis by (simp add: r)
qed

lemma bn_set_minimal_width_bits:
  assumes "bn_ok b" shows "bn_ok (bn_set_minimal_width b) \<and> bn_abs (bn_set_minimal_width b) = bn_abs b"
  using bn_set_minimal_width_spec [OF assms] by simp

lemma BN_clear_bit_spec:
  assumes ok: "bn_ok a" and res: "BN_clear_bit n a = (Some u, r)"
  shows "bn_ok r \<and> bn_abs r = unset_bit (nat n) (bn_abs a) \<and> bn_canonical r \<and> 0 \<le> n"
proof -
  define i where "i = nat n div 64"
  define b where "b = a\<lparr>bn_d := (bn_d a)[i := bn_d a ! i AND NOT (push_bit (nat n mod 64) 1)]\<rparr>"
  have n: "0 \<le> n" "i < bn_width a" "r = bn_set_minimal_width b"
    using res by (auto simp: BN_clear_bit_def Let_def i_def b_def split: if_splits)
  have b: "bn_ok b" using ok by (simp add: b_def bn_ok_def)
  have il: "i < length (bn_d a)" using ok n by (simp add: bn_ok_def)
  have "bn_abs b = unset_bit (nat n) (bn_abs a)"
  proof (rule bit_eqI)
    fix p
    have same: "p div 64 = i \<Longrightarrow> p mod 64 = nat n mod 64 \<Longrightarrow> p = nat n"
      unfolding i_def by (metis div_mult_mod_eq)
    show "bit (bn_abs b) p \<longleftrightarrow> bit (unset_bit (nat n) (bn_abs a)) p"
      unfolding bit_unset_bit_iff bit_bn_abs [OF b] bit_bn_abs [OF ok]
      using n(2) il same
      by (cases "p div 64 = i") (auto simp: b_def bit_simps nth_list_update i_def)
  qed
  with bn_set_minimal_width_spec [OF b] n show ?thesis by simp
qed

lemma BN_mask_bits_spec:
  assumes ok: "bn_ok a" and res: "BN_mask_bits n a = (Some u, r)"
  shows "bn_ok r \<and> bn_abs r = bn_abs a mod 2 ^ nat n \<and> 0 \<le> n"
proof -
  define w where "w = nat n div 64"
  define k where "k = nat n mod 64"
  have nk: "nat n = 64 * w + k" by (simp add: w_def k_def)
  have n: "0 \<le> n" using res by (auto simp: BN_mask_bits_def split: if_splits)
  show ?thesis
  proof (cases "w \<ge> bn_width a")
    case True
    have "\<not> bit (bn_abs a) p" if "nat n \<le> p" for p
      using that True by (auto simp: bit_bn_abs [OF ok] nk)
    then have "bn_abs a mod 2 ^ nat n = bn_abs a"
      by (intro bit_eqI) (auto simp: bit_take_bit_iff simp flip: take_bit_eq_mod intro: ccontr)
    with True n res ok show ?thesis by (auto simp: BN_mask_bits_def w_def)
  next
    case False
    define b where "b = (if k = 0 then a\<lparr>bn_width := w\<rparr>
      else a\<lparr>bn_width := w + 1, bn_d := (bn_d a)[w := bn_d a ! w AND NOT (push_bit k (- 1))]\<rparr>)"
    have r: "r = bn_set_minimal_width b"
      using res n False by (auto simp: BN_mask_bits_def Let_def b_def w_def k_def)
    have b: "bn_ok b" using ok False by (auto simp: b_def bn_ok_def)
    have wl: "w < length (bn_d a)" using False ok by (simp add: bn_ok_def)
    have "bn_abs b = bn_abs a mod 2 ^ nat n"
    proof (rule bit_eqI)
      fix p :: nat
      have pd: "p = 64 * (p div 64) + p mod 64" by simp
      have k: "k < 64" "p mod 64 < 64" by (simp_all add: k_def)
      have less: "p < nat n \<longleftrightarrow> p div 64 < w \<or> p div 64 = w \<and> p mod 64 < k"
      proof (cases "p div 64" w rule: linorder_cases)
        case less
        with pd k show ?thesis unfolding nk by (intro iffI) (simp, linarith)
      next
        case equal
        with pd show ?thesis unfolding nk by linarith
      next
        case greater
        with pd k show ?thesis unfolding nk by (intro iffI) (linarith, simp)
      qed
      show "bit (bn_abs b) p \<longleftrightarrow> bit (bn_abs a mod 2 ^ nat n) p"
        unfolding take_bit_eq_mod [symmetric] bit_take_bit_iff less bit_bn_abs [OF b] bit_bn_abs [OF ok]
        using False wl k by (auto simp: b_def nth_list_update bit_simps less_Suc_eq)
    qed
    with bn_set_minimal_width_spec [OF b] n show ?thesis by (simp add: r)
  qed
qed

section \<open>Low zero bits\<close>

text \<open>One block of the count: when the low half is zero, it is counted and the high half is left.\<close>

definition low_zero_block :: "nat \<Rightarrow> nat \<times> bn_ulong \<Rightarrow> nat \<times> bn_ulong" where
  "low_zero_block k s =
     (let (bits, l) = s; m = constant_time_is_zero_w (push_bit (64 - k) l)
      in (bits + unat (of_nat k AND m), constant_time_select_w m (drop_bit k l) l))"

definition bn_count_low_zero_bits_word :: "bn_ulong \<Rightarrow> nat" where
  "bn_count_low_zero_bits_word l =
     fst (low_zero_block 1 (low_zero_block 2 (low_zero_block 4 (low_zero_block 8
       (low_zero_block 16 (low_zero_block 32 (0, l)))))))"

fun low_zero_loop :: "bn_ulong list \<Rightarrow> nat \<Rightarrow> bn_ulong \<Rightarrow> bn_ulong \<Rightarrow> bn_ulong" where
  "low_zero_loop [] i saw ret = ret"
| "low_zero_loop (d # ds) i saw ret =
     (let nonzero = NOT (constant_time_is_zero_w d); first = NOT saw AND nonzero;
          bits = bn_count_low_zero_bits_word d
      in low_zero_loop ds (i + 1) (saw OR nonzero) (ret OR (first AND of_nat (i * 64 + bits))))"

definition BN_count_low_zero_bits :: "bignum \<Rightarrow> nat" where
  "BN_count_low_zero_bits bn = unat (low_zero_loop (bn_words bn) 0 0 0)"

definition low_zeros :: "nat \<Rightarrow> nat \<Rightarrow> bool" where
  "low_zeros k n \<longleftrightarrow> 2 ^ k dvd n \<and> \<not> 2 ^ Suc k dvd n"

lemma low_zero_block_spec:
  assumes "2 ^ bits * unat l = n" "\<not> 2 ^ (2 * k) dvd unat l" "k \<in> {1, 2, 4, 8, 16, 32}"
    and "low_zero_block k (bits, l) = (bits', l')"
  shows "2 ^ bits' * unat l' = n \<and> \<not> 2 ^ k dvd unat l'"
proof -
  have k: "0 < k" "k < 64" using assms(3) by auto
  have z: "push_bit (64 - k) l = 0 \<longleftrightarrow> 2 ^ k dvd unat l"
  proof -
    have "push_bit (64 - k) l = 0 \<longleftrightarrow> (\<forall>i < k. \<not> bit l i)"
    proof (intro iffI allI impI)
      fix i assume "push_bit (64 - k) l = 0" "i < k"
      then have "\<not> bit (push_bit (64 - k) l) (64 - k + i)" by simp
      then show "\<not> bit l i" using k \<open>i < k\<close> by (simp add: bit_push_bit_iff)
    next
      assume "\<forall>i < k. \<not> bit l i"
      then show "push_bit (64 - k) l = 0" using k by (intro bit_word_eqI) (auto simp: bit_push_bit_iff)
    qed
    also have "\<dots> \<longleftrightarrow> take_bit k (unat l) = 0"
      by (simp add: bit_eq_iff bit_simps)
    finally show ?thesis by (simp add: take_bit_eq_mod dvd_eq_mod_eq_0)
  qed
  have uk: "unat (of_nat k :: u64) = k" using assms(3) by auto
  have blk: "low_zero_block k (bits, l) = (if 2 ^ k dvd unat l then (bits + k, drop_bit k l) else (bits, l))"
    using uk z by (simp add: low_zero_block_def Let_def constant_time_is_zero constant_time_select) (simp add: ct_mask_def)
  show ?thesis
  proof (cases "2 ^ k dvd unat l")
    case True
    then obtain m where m: "unat l = 2 ^ k * m" by (auto elim: dvdE)
    have "unat (drop_bit k l) = m" by (simp add: unat_drop_bit m)
    moreover have "\<not> 2 ^ k dvd m" using assms(2) m by (auto simp: mult_2 power_add mult_dvd_mono)
    ultimately show ?thesis using assms(1,4) blk True m by (auto simp: power_add mult.assoc)
  next
    case False
    with assms blk show ?thesis by simp
  qed
qed

lemma bn_count_low_zero_bits_word_spec:
  assumes "l \<noteq> 0"
  shows "low_zeros (bn_count_low_zero_bits_word l) (unat l)"
proof -
  define b where "b k s = low_zero_block k s" for k s
  obtain n1 l1 where 1: "low_zero_block 32 (0, l) = (n1, l1)" by fastforce
  obtain n2 l2 where 2: "low_zero_block 16 (n1, l1) = (n2, l2)" by fastforce
  obtain n3 l3 where 3: "low_zero_block 8 (n2, l2) = (n3, l3)" by fastforce
  obtain n4 l4 where 4: "low_zero_block 4 (n3, l3) = (n4, l4)" by fastforce
  obtain n5 l5 where 5: "low_zero_block 2 (n4, l4) = (n5, l5)" by fastforce
  obtain n6 l6 where 6: "low_zero_block 1 (n5, l5) = (n6, l6)" by fastforce
  have "\<not> 2 ^ (2 * 32) dvd unat l"
    using unsigned_less [of l, where ?'a = nat] unat_pos [of l] assms by (auto dest: dvd_imp_le)
  from low_zero_block_spec [OF _ this _ 1, of "unat l"]
  have i1: "2 ^ n1 * unat l1 = unat l" "\<not> 2 ^ (2 * 16) dvd unat l1" by simp_all
  from low_zero_block_spec [OF i1 _ 2]
  have i2: "2 ^ n2 * unat l2 = unat l" "\<not> 2 ^ (2 * 8) dvd unat l2" by simp_all
  from low_zero_block_spec [OF i2 _ 3]
  have i3: "2 ^ n3 * unat l3 = unat l" "\<not> 2 ^ (2 * 4) dvd unat l3" by simp_all
  from low_zero_block_spec [OF i3 _ 4]
  have i4: "2 ^ n4 * unat l4 = unat l" "\<not> 2 ^ (2 * 2) dvd unat l4" by simp_all
  from low_zero_block_spec [OF i4 _ 5]
  have i5: "2 ^ n5 * unat l5 = unat l" "\<not> 2 ^ (2 * 1) dvd unat l5" by simp_all
  from low_zero_block_spec [OF i5 _ 6]
  have i6: "2 ^ n6 * unat l6 = unat l" "\<not> 2 dvd unat l6" by simp_all
  have "bn_count_low_zero_bits_word l = n6"
    by (simp only: bn_count_low_zero_bits_word_def 1 2 3 4 5 6 fst_conv)
  moreover have "2 ^ n6 dvd unat l" using i6(1) by (metis dvd_triv_left)
  moreover have "\<not> 2 ^ Suc n6 dvd unat l" using i6 by (simp flip: i6(1))
  ultimately show ?thesis by (simp add: low_zeros_def)
qed

lemma low_zero_loop_seen: "low_zero_loop ds i (- 1) ret = ret"
  by (induction ds arbitrary: i) (simp_all add: Let_def)

lemma low_zeros_less:
  assumes "low_zeros k (unat (l :: u64))"
  shows "k < 64"
proof -
  have "unat l \<noteq> 0" using assms unfolding low_zeros_def by (metis dvd_0_right)
  then have "2 ^ k \<le> unat l" using assms by (auto simp: low_zeros_def dest: dvd_imp_le)
  also have "\<dots> < 2 ^ 64" using unsigned_less [of l, where ?'a = nat] by simp
  finally show ?thesis by (simp only: power_less_imp_less_exp [of "2 :: nat"] one_less_numeral_iff semiring_norm)
qed

lemma low_zeros_digit:
  assumes "low_zeros k (unat d)"
  shows "low_zeros k (unat (d :: u64) + beta * n)"
proof -
  have "(2::nat) ^ Suc k dvd beta" unfolding beta_def using low_zeros_less [OF assms] by (intro le_imp_power_dvd) simp
  then have "(2::nat) ^ Suc k dvd beta * n" by simp
  then show ?thesis
    using assms dvd_trans [of "2 ^ k" "2 ^ Suc k" "beta * n"] by (auto simp: low_zeros_def dvd_add_left_iff)
qed

lemma low_zeros_shift: "low_zeros k n \<Longrightarrow> low_zeros (64 + k) (beta * n)"
  unfolding low_zeros_def beta_def add_Suc_right [symmetric] power_add [of 2 64] by simp

text \<open>The count is that of the lowest word that is not zero, and zero for zero.\<close>

lemma low_zero_loop_spec:
  assumes "i + length ds < 2 ^ 57"
  shows "if words_val ds = 0 then low_zero_loop ds i 0 0 = 0
    else \<exists>k. unat (low_zero_loop ds i 0 0) = i * 64 + k \<and> low_zeros k (words_val ds)"
  using assms
proof (induction ds arbitrary: i)
  case (Cons d ds)
  show ?case
  proof (cases "d = 0")
    case True
    then have l: "low_zero_loop (d # ds) i 0 0 = low_zero_loop ds (i + 1) 0 0"
      by (simp add: Let_def constant_time_is_zero ct_mask_def)
    have "i + 1 + length ds < 2 ^ 57" using Cons.prems by simp
    note IH = Cons.IH [OF this]
    show ?thesis
    proof (cases "words_val ds = 0")
      case True
      with IH \<open>d = 0\<close> show ?thesis unfolding l by simp
    next
      case False
      then obtain k where k: "unat (low_zero_loop ds (i + 1) 0 0) = (i + 1) * 64 + k" "low_zeros k (words_val ds)"
        using IH by auto
      from low_zeros_shift [OF k(2)] have "low_zeros (64 + k) (words_val (d # ds))" using \<open>d = 0\<close> by simp
      moreover have "(i + 1) * 64 + k = i * 64 + (64 + k)" by simp
      ultimately show ?thesis using k(1) False \<open>d = 0\<close> unfolding l by auto
    qed
  next
    case False
    let ?k = "bn_count_low_zero_bits_word d"
    have z: "low_zeros ?k (unat d)" using False by (rule bn_count_low_zero_bits_word_spec)
    have "i * 64 + ?k < 2 ^ 64" using low_zeros_less [OF z] Cons.prems by simp
    then have "unat (of_nat (i * 64 + ?k) :: u64) = i * 64 + ?k" by (simp add: unat_of_nat take_bit_eq_mod del: of_nat_add of_nat_mult)
    moreover have "low_zero_loop (d # ds) i 0 0 = of_nat (i * 64 + ?k)"
      using False by (simp add: Let_def constant_time_is_zero ct_mask_def low_zero_loop_seen del: of_nat_add of_nat_mult)
    moreover have "words_val (d # ds) \<noteq> 0" using False unat_pos [of d] by simp
    ultimately show ?thesis using low_zeros_digit [OF z] by auto
  qed
qed simp

lemma BN_count_low_zero_bits_spec:
  assumes "bn_ok bn"
  shows "if bn_abs bn = 0 then BN_count_low_zero_bits bn = 0 else low_zeros (BN_count_low_zero_bits bn) (bn_abs bn)"
proof -
  have "0 + length (bn_words bn) < 2 ^ 57"
    using assms by (simp add: bn_ok_def bn_words_def INT_MAX_def)
  from low_zero_loop_spec [OF this] show ?thesis
    by (auto simp: BN_count_low_zero_bits_def bn_abs_def split: if_splits)
qed

end
