(* ===== verification/BnBytes.thy ===== *)
theory BnBytes
  imports BnShift
begin

text \<open>
  Big numbers as byte strings: \<open>crypto/fipsmodule/bn/bytes.c\<close>. The words of a number lie in memory
  with their least significant byte first (the code supports little-endian targets only), so that
  \<open>memcpy\<close> moves between words and little-endian strings.
\<close>

section \<open>The memory image of an array of words\<close>

definition word_byte :: "bn_ulong \<Rightarrow> nat \<Rightarrow> u8" where
  "word_byte w k = ucast (drop_bit (8 * k) w)"

definition word_bytes :: "bn_ulong \<Rightarrow> bytes" where
  "word_bytes w = map (word_byte w) [0..<8]"

definition image_bytes :: "bn_ulong list \<Rightarrow> bytes" where
  "image_bytes ws = concat (map word_bytes ws)"

fun bytes_word :: "bytes \<Rightarrow> bn_ulong" where
  "bytes_word [] = 0"
| "bytes_word (b # bs) = ucast b OR push_bit 8 (bytes_word bs)"

fun image_words :: "bytes \<Rightarrow> bn_ulong list" where
  "image_words bs = (if bs = [] then [] else bytes_word (take 8 bs) # image_words (drop 8 bs))"

declare image_words.simps [simp del]

section \<open>The operations\<close>

text \<open>The loop of \<open>BN_bin2bn\<close>: \<open>m\<close> is the number of bytes that the current word still takes, less one.\<close>

fun bin2bn_loop :: "bytes \<Rightarrow> bn_ulong \<Rightarrow> nat \<Rightarrow> nat \<Rightarrow> bn_ulong list \<Rightarrow> bn_ulong list" where
  "bin2bn_loop [] w m num_words d = d"
| "bin2bn_loop (b # bs) w m num_words d =
     (let w = push_bit 8 w OR ucast b
      in if m = 0 then bin2bn_loop bs 0 (8 - 1) (num_words - 1) (d[num_words - 1 := w])
         else bin2bn_loop bs w (m - 1) num_words d)"

text \<open>\<open>ret\<close> is \<open>None\<close> for \<open>NULL\<close>: a fresh number is made.\<close>

definition BN_bin2bn :: "bn_mem \<Rightarrow> bytes \<Rightarrow> bignum option \<Rightarrow> unit option \<times> bignum option" where
  "BN_bin2bn mem inp ret =
     (case (case ret of None \<Rightarrow> BN_new mem | Some r \<Rightarrow> Some r) of
        None \<Rightarrow> (None, None)
      | Some r \<Rightarrow>
          let len = length inp
          in if len = 0 then (Some (), Some (r\<lparr>bn_width := 0\<rparr>))
             else
               let num_words = (len - 1) div 8 + 1; m = (len - 1) mod 8
               in (case bn_wexpand mem num_words r of
                     (None, r) \<Rightarrow> (None, ret)
                   | (Some _, r) \<Rightarrow>
                       (Some (), Some (r\<lparr>bn_width := num_words, bn_neg := False,
                                         bn_d := bin2bn_loop inp 0 m num_words (bn_d r)\<rparr>))))"

definition BN_le2bn :: "bn_mem \<Rightarrow> bytes \<Rightarrow> bignum option \<Rightarrow> unit option \<times> bignum option" where
  "BN_le2bn mem inp ret =
     (case (case ret of None \<Rightarrow> BN_new mem | Some r \<Rightarrow> Some r) of
        None \<Rightarrow> (None, None)
      | Some r \<Rightarrow>
          let len = length inp
          in if len = 0 then (Some (), Some (r\<lparr>bn_width := 0, bn_neg := False\<rparr>))
             else
               let num_words = (len - 1) div 8 + 1
               in (case bn_wexpand mem num_words r of
                     (None, r) \<Rightarrow> (None, ret)
                   | (Some _, r) \<Rightarrow>
                       let d = (bn_d r)[num_words - 1 := 0]
                       in (Some (), Some (r\<lparr>bn_width := num_words,
                             bn_d := image_words (blit (image_bytes d) 0 inp)\<rparr>))))"

definition BN_bn2bin :: "bignum \<Rightarrow> bytes" where
  "BN_bn2bin inp =
     map (\<lambda>i. ucast (drop_bit (8 * (i mod 8)) (bn_d inp ! (i div 8))) AND 0xff) (rev [0..<BN_num_bytes inp])"

definition fits_in_bytes :: "bytes \<Rightarrow> nat \<Rightarrow> nat \<Rightarrow> bool" where
  "fits_in_bytes bs num_bytes len = (foldl (OR) 0 (drop len (take num_bytes bs)) = 0)"

definition BN_bn2le_padded :: "nat \<Rightarrow> bignum \<Rightarrow> bytes option" where
  "BN_bn2le_padded len inp =
     (let bs = image_bytes (bn_d inp); num_bytes = bn_width inp * 8
      in if len < num_bytes \<and> \<not> fits_in_bytes bs num_bytes len then None
         else
           let num_bytes = (if len < num_bytes then len else num_bytes)
           in Some (take num_bytes bs @ replicate (len - num_bytes) 0))"

definition BN_bn2bin_padded :: "nat \<Rightarrow> bignum \<Rightarrow> bytes option" where
  "BN_bn2bin_padded len inp =
     (let bs = image_bytes (bn_d inp); num_bytes = bn_width inp * 8
      in if len < num_bytes \<and> \<not> fits_in_bytes bs num_bytes len then None
         else
           let num_bytes = (if len < num_bytes then len else num_bytes)
           in Some (replicate (len - num_bytes) 0 @ rev (take num_bytes bs)))"

definition BN_get_word :: "bignum \<Rightarrow> bn_ulong" where
  "BN_get_word bn =
     (let w = bn_minimal_width bn
      in if w = 0 then 0 else if w = 1 then bn_d bn ! 0 else - 1)"

definition BN_get_u64 :: "bignum \<Rightarrow> u64 option" where
  "BN_get_u64 bn =
     (let w = bn_minimal_width bn
      in if w = 0 then Some 0 else if w = 1 then Some (bn_d bn ! 0) else None)"

section \<open>Little-endian values\<close>

fun le_val :: "bytes \<Rightarrow> nat" where
  "le_val [] = 0"
| "le_val (b # bs) = unat b + 256 * le_val bs"

lemma le_val_append: "le_val (as @ bs) = le_val as + 256 ^ length as * le_val bs"
  by (induction as) (simp_all add: algebra_simps)

lemma le_val_rev: "le_val (rev bs) = be_val bs"
  by (induction bs) (simp_all add: le_val_append)

lemma le_val_zeros [simp]: "le_val (replicate n 0) = 0"
  by (induction n) simp_all

lemma le_val_less: "le_val bs < 256 ^ length bs"
  using be_val_less [of "rev bs"] le_val_rev [of "rev bs"] by simp

lemma le_val_0: "le_val bs = 0 \<longleftrightarrow> (\<forall>b \<in> set bs. b = 0)"
  by (induction bs) (auto simp: unsigned_eq_0_iff)

lemma beta_256: "beta = 256 ^ 8"
  by (simp add: beta_def)

lemma word_bytes_val: "le_val (word_bytes w) = unat w" "length (word_bytes w) = 8"
proof -
  have "le_val (map (word_byte w) [k..<k + n]) = unat w div 256 ^ k mod 256 ^ n" for k n
  proof (induction n arbitrary: k)
    case (Suc n)
    have "unat (word_byte w k) = unat w div 256 ^ k mod 256"
      by (simp add: word_byte_def unsigned_ucast_eq take_bit_eq_mod unat_drop_bit power_mult)
    moreover have "unat w div 256 ^ Suc k = unat w div 256 ^ k div 256"
      by (simp only: power_Suc2 div_mult2_eq)
    moreover have "x mod 256 ^ Suc n = x mod 256 + 256 * (x div 256 mod 256 ^ n)" for x :: nat
      by (simp add: mod_mult2_eq)
    ultimately show ?case using Suc [of "Suc k"] by (simp add: upt_conv_Cons del: upt_Suc power_Suc)
  qed simp
  from this [of 0 8] show "le_val (word_bytes w) = unat w"
    using unat_less_beta [of w] by (simp add: word_bytes_def beta_256 del: upt_Suc)
  show "length (word_bytes w) = 8" by (simp add: word_bytes_def)
qed

lemma image_bytes_simps [simp]: "image_bytes [] = []" "image_bytes (w # ws) = word_bytes w @ image_bytes ws"
  by (simp_all add: image_bytes_def)

lemma length_image_bytes [simp]: "length (image_bytes ws) = 8 * length ws"
  by (induction ws) (simp_all add: word_bytes_val)

lemma image_bytes_val: "le_val (image_bytes ws) = words_val ws"
  by (induction ws) (simp_all add: le_val_append word_bytes_val beta_256)

lemma image_bytes_append: "image_bytes (ws @ vs) = image_bytes ws @ image_bytes vs"
  by (simp add: image_bytes_def)

lemma map_word_byte_0: "map (word_byte 0) ks = replicate (length ks) 0"
  by (induction ks) (simp_all add: word_byte_def)

lemma take_image_bytes: "take (8 * n) (image_bytes ws) = image_bytes (take n ws)"
proof (induction ws arbitrary: n)
  case (Cons w ws)
  then show ?case by (cases n) (simp_all add: word_bytes_val)
qed simp

lemma nth_image_bytes:
  "i < 8 * length ws \<Longrightarrow> image_bytes ws ! i = word_byte (ws ! (i div 8)) (i mod 8)"
proof (induction ws arbitrary: i)
  case (Cons w ws)
  show ?case
  proof (cases "i < 8")
    case True
    then show ?thesis by (simp add: nth_append word_bytes_val) (simp add: word_bytes_def del: upt_Suc)
  next
    case False
    then show ?thesis using Cons by (simp add: nth_append word_bytes_val le_div_geq le_mod_geq)
  qed
qed simp

lemma bytes_word_val: "length bs \<le> 8 \<Longrightarrow> unat (bytes_word bs) = le_val bs"
proof (induction bs)
  case (Cons b bs)
  have less: "le_val bs * 256 < beta"
  proof -
    have "le_val bs < 256 ^ 7"
      using le_val_less [of bs] Cons.prems power_increasing [of "length bs" 7 "256::nat"] by simp
    then show ?thesis by (simp add: beta_256)
  qed
  have "(ucast b :: bn_ulong) AND push_bit 8 (bytes_word bs) = 0"
    by (rule bit_word_eqI) (auto simp: bit_simps dest: bit_imp_le_length)
  moreover have "unat (ucast b :: bn_ulong) = unat b" by (rule unat_ucast_up) simp
  ultimately show ?case
    using Cons less by (simp add: unat_or_disjoint unat_push)
qed simp

lemma image_words_val: "words_val (image_words bs) = le_val bs"
proof (induction bs rule: image_words.induct)
  case (1 bs)
  show ?case
  proof (cases "bs = []")
    case False
    have "le_val bs = le_val (take 8 bs) + 256 ^ length (take 8 bs) * le_val (drop 8 bs)"
      using le_val_append [of "take 8 bs" "drop 8 bs"] by simp
    also have "256 ^ length (take 8 bs) * le_val (drop 8 bs) = beta * le_val (drop 8 bs)"
      by (cases "8 \<le> length bs") (simp_all add: beta_256 min_def)
    finally show ?thesis
      using 1 False by (simp add: image_words.simps [of bs] bytes_word_val)
  qed (simp add: image_words.simps)
qed

lemma length_image_words: "length bs = 8 * n \<Longrightarrow> length (image_words bs) = n"
proof (induction n arbitrary: bs)
  case (Suc n)
  then have "bs \<noteq> []" "length (drop 8 bs) = 8 * n" by auto
  with Suc.IH [of "drop 8 bs"] show ?case by (simp add: image_words.simps [of bs])
qed (simp add: image_words.simps)

lemma take_image_words: "take n (image_words bs) = image_words (take (8 * n) bs)"
proof (induction n arbitrary: bs)
  case (Suc n)
  show ?case
  proof (cases "bs = []")
    case False
    then show ?thesis
      using Suc [of "drop 8 bs"] by (simp add: image_words.simps [of bs] image_words.simps [of "take _ bs"] drop_take min_def)
  qed (simp add: image_words.simps)
qed (simp add: image_words.simps)

section \<open>Reading\<close>

lemma length_bin2bn_loop [simp]: "length (bin2bn_loop bs w m k d) = length d"
  by (induction bs w m k d rule: bin2bn_loop.induct) (simp_all add: Let_def)

lemma bin2bn_loop_val:
  assumes "length bs + 8 = 8 * k + m + 1" "m < 8" "unat w < 256 ^ (7 - m)" "k \<le> length d"
  shows "words_val (take k (bin2bn_loop bs w m k d)) = unat w * 256 ^ length bs + be_val bs"
    and "drop k (bin2bn_loop bs w m k d) = drop k d"
proof -
  have "words_val (take k (bin2bn_loop bs w m k d)) = unat w * 256 ^ length bs + be_val bs \<and>
    drop k (bin2bn_loop bs w m k d) = drop k d"
    using assms
  proof (induction bs w m k d rule: bin2bn_loop.induct)
    case (1 w m k d)
    then have "8 * k + m + 1 = 8" by simp
    then have "k = 0" "m = 7" using 1(2) by presburger+
    with 1 show ?case by simp
  next
    case (2 b bs w m k d)
    define v where "v = push_bit 8 w OR (ucast b :: bn_ulong)"
    have "unat w < 256 ^ 7" using 2(5) power_increasing [of "7 - m" 7 "256::nat"] by simp
    then have less: "unat w * 256 < beta" by (simp add: beta_256)
    have "push_bit 8 w AND (ucast b :: bn_ulong) = 0"
      by (rule bit_word_eqI) (auto simp: bit_simps dest: bit_imp_le_length)
    moreover have "unat (ucast b :: bn_ulong) = unat b" by (rule unat_ucast_up) simp
    ultimately have v: "unat v = unat w * 256 + unat b"
      using less by (simp add: v_def unat_or_disjoint unat_push)
    show ?case
    proof (cases "m = 0")
      case True
      then have l: "length bs = 8 * (k - 1)" "0 < k" using 2(3) by simp_all
      let ?d = "d[k - 1 := v]"
      have IH: "words_val (take (k - 1) (bin2bn_loop bs 0 7 (k - 1) ?d)) = be_val bs"
        "drop (k - 1) (bin2bn_loop bs 0 7 (k - 1) ?d) = drop (k - 1) ?d"
        using 2(1) [OF v_def True] l 2(6) by simp_all
      have kd: "k - 1 < length d" using l 2(6) by simp
      have "bin2bn_loop bs 0 7 (k - 1) ?d ! (k - 1) = v"
        using arg_cong [OF IH(2), of hd] kd by (simp add: hd_drop_conv_nth)
      then have "words_val (take k (bin2bn_loop bs 0 7 (k - 1) ?d)) = be_val bs + beta ^ (k - 1) * unat v"
        using words_val_top_le [of k "bin2bn_loop bs 0 7 (k - 1) ?d"] l kd 2(6) IH(1) by simp
      moreover have "beta ^ (k - 1) = 256 ^ length bs" by (simp only: beta_256 l power_mult)
      moreover have "drop k (bin2bn_loop bs 0 7 (k - 1) ?d) = drop k d"
        using arg_cong [OF IH(2), of "drop 1"] l by simp
      ultimately show ?thesis using True v by (simp add: v_def algebra_simps)
    next
      case False
      have "unat v < 256 ^ (7 - (m - 1))"
      proof -
        have "7 - (m - 1) = Suc (7 - m)" using False 2(4) by simp
        moreover have "Suc (unat w) * 256 \<le> 256 ^ (7 - m) * 256" using 2(5) by (intro mult_le_mono) simp_all
        ultimately show ?thesis using v unat_8_less [of b] by simp
      qed
      then show ?thesis
        using 2(2) [OF v_def False] 2(3-6) False v by (simp add: v_def algebra_simps)
    qed
  qed
  then show "words_val (take k (bin2bn_loop bs w m k d)) = unat w * 256 ^ length bs + be_val bs"
    "drop k (bin2bn_loop bs w m k d) = drop k d" by auto
qed

lemma BN_new_ok: "BN_new mem = Some r \<Longrightarrow> bn_ok r \<and> \<not> bn_neg r \<and> \<not> bn_static r"
  by (auto simp: BN_new_def bn_ok_def BN_init_def split: option.splits)

text \<open>What is read is the big-endian value; the sign of the target survives an empty string only.\<close>

lemma BN_bin2bn_exact:
  assumes ok: "\<And>r. ret = Some r \<Longrightarrow> bn_ok r" and res: "BN_bin2bn mem inp ret = (Some u, Some r')"
  shows "bn_ok r' \<and> bn_abs r' = be_val inp"
    and "inp \<noteq> [] \<Longrightarrow> \<not> bn_neg r'"
    and "inp = [] \<Longrightarrow> bn_neg r' = (case ret of None \<Rightarrow> False | Some r \<Rightarrow> bn_neg r)"
proof -
  from res obtain r where r: "(case ret of None \<Rightarrow> BN_new mem | Some r \<Rightarrow> Some r) = Some r"
    by (auto simp: BN_bin2bn_def split: option.splits)
  then have okr: "bn_ok r" using ok BN_new_ok by (auto split: option.splits)
  have "(bn_ok r' \<and> bn_abs r' = be_val inp) \<and> (inp \<noteq> [] \<longrightarrow> \<not> bn_neg r') \<and>
    (inp = [] \<longrightarrow> bn_neg r' = (case ret of None \<Rightarrow> False | Some r \<Rightarrow> bn_neg r))"
  proof (cases "inp = []")
    case True
    then have "r' = r\<lparr>bn_width := 0\<rparr>" using res r by (simp add: BN_bin2bn_def)
    then show ?thesis using True okr r BN_new_ok [of mem]
      by (auto simp: bn_ok_def bn_abs_def bn_words_def split: option.splits)
  next
    case False
    define k where "k = (length inp - 1) div 8 + 1"
    define m where "m = (length inp - 1) mod 8"
    obtain e where e: "bn_wexpand mem k r = (Some (), e)"
      and r': "r' = e\<lparr>bn_width := k, bn_neg := False, bn_d := bin2bn_loop inp 0 m k (bn_d e)\<rparr>"
      using res r False by (auto simp: BN_bin2bn_def Let_def k_def m_def split: prod.splits option.splits)
    note x = bn_wexpand_ok [OF e okr]
    have "length inp + 8 = 8 * k + m + 1"
    proof -
      obtain n where "length inp = Suc n" using False by (cases "length inp") auto
      then show ?thesis by (simp add: k_def m_def)
    qed
    moreover have "k \<le> length (bn_d e)" using x by (simp add: bn_ok_def)
    ultimately have "words_val (take k (bin2bn_loop inp 0 m k (bn_d e))) = be_val inp"
      using bin2bn_loop_val(1) [of inp k m 0 "bn_d e"] by (simp add: m_def)
    then show ?thesis using x False by (simp add: r' bn_ok_def bn_abs_def bn_words_def)
  qed
  then show "bn_ok r' \<and> bn_abs r' = be_val inp" "inp \<noteq> [] \<Longrightarrow> \<not> bn_neg r'"
    "inp = [] \<Longrightarrow> bn_neg r' = (case ret of None \<Rightarrow> False | Some r \<Rightarrow> bn_neg r)" by auto
qed

text \<open>The little-endian reader does not touch the sign of a target it fills.\<close>

lemma BN_le2bn_exact:
  assumes ok: "\<And>r. ret = Some r \<Longrightarrow> bn_ok r" and res: "BN_le2bn mem inp ret = (Some u, Some r')"
  shows "bn_ok r' \<and> bn_abs r' = le_val inp"
    and "bn_neg r' \<longleftrightarrow> inp \<noteq> [] \<and> (case ret of None \<Rightarrow> False | Some r \<Rightarrow> bn_neg r)"
proof -
  from res obtain r where r: "(case ret of None \<Rightarrow> BN_new mem | Some r \<Rightarrow> Some r) = Some r"
    by (auto simp: BN_le2bn_def split: option.splits)
  then have okr: "bn_ok r" using ok BN_new_ok by (auto split: option.splits)
  have neg: "bn_neg r = (case ret of None \<Rightarrow> False | Some r \<Rightarrow> bn_neg r)"
    using r BN_new_ok [of mem] by (auto split: option.splits)
  have "(bn_ok r' \<and> bn_abs r' = le_val inp) \<and>
    (bn_neg r' \<longleftrightarrow> inp \<noteq> [] \<and> (case ret of None \<Rightarrow> False | Some r \<Rightarrow> bn_neg r))"
  proof (cases "inp = []")
    case True
    then have "r' = r\<lparr>bn_width := 0, bn_neg := False\<rparr>" using res r by (simp add: BN_le2bn_def)
    then show ?thesis using True okr by (simp add: bn_ok_def bn_abs_def bn_words_def)
  next
    case False
    define k where "k = (length inp - 1) div 8 + 1"
    obtain e where e: "bn_wexpand mem k r = (Some (), e)"
      and r': "r' = e\<lparr>bn_width := k, bn_d := image_words (blit (image_bytes ((bn_d e)[k - 1 := 0])) 0 inp)\<rparr>"
      using res r False by (auto simp: BN_le2bn_def Let_def k_def split: prod.splits option.splits)
    note x = bn_wexpand_ok [OF e okr]
    obtain n where n: "length inp = Suc n" using False by (cases "length inp") auto
    have k: "length inp \<le> 8 * k" "8 * (k - 1) < length inp" "0 < k"
      unfolding k_def n by auto
    have kd: "k \<le> length (bn_d e)" using x by (simp add: bn_ok_def)
    have fits: "length inp \<le> 8 * length (bn_d e)" using k kd by linarith
    have "take (8 * k) (blit (image_bytes ((bn_d e)[k - 1 := 0])) 0 inp) =
        inp @ drop (length inp) (take (8 * k) (image_bytes ((bn_d e)[k - 1 := 0])))"
      using k by (simp add: blit_def drop_take)
    also have "take (8 * k) (image_bytes ((bn_d e)[k - 1 := 0])) = image_bytes (take (k - 1) (bn_d e)) @ replicate 8 0"
    proof -
      have "take k ((bn_d e)[k - 1 := 0]) = take (k - 1) (bn_d e) @ [0]"
        using k kd by (cases k) (simp_all add: take_Suc_conv_app_nth)
      moreover have "word_bytes 0 = replicate 8 0"
        by (simp add: word_bytes_def map_word_byte_0 del: upt_Suc)
      ultimately show ?thesis by (simp add: take_image_bytes image_bytes_append)
    qed
    also have "drop (length inp) (image_bytes (take (k - 1) (bn_d e)) @ replicate 8 0) =
        replicate (8 - (length inp - 8 * (k - 1))) 0"
      using k kd by (simp add: min_absorb2)
    finally have "words_val (take k (image_words (blit (image_bytes ((bn_d e)[k - 1 := 0])) 0 inp))) = le_val inp"
      by (simp add: take_image_words image_words_val le_val_append)
    moreover have "length (image_words (blit (image_bytes ((bn_d e)[k - 1 := 0])) 0 inp)) = length (bn_d e)"
      using fits by (intro length_image_words) simp
    ultimately show ?thesis using x False neg by (simp add: r' bn_ok_def bn_abs_def bn_words_def)
  qed
  then show "bn_ok r' \<and> bn_abs r' = le_val inp"
    "bn_neg r' \<longleftrightarrow> inp \<noteq> [] \<and> (case ret of None \<Rightarrow> False | Some r \<Rightarrow> bn_neg r)" by auto
qed

section \<open>Writing\<close>

lemma bit_len_bytes: "n < 256 ^ ((bit_len n + 7) div 8)" "0 < n \<Longrightarrow> 256 ^ ((bit_len n + 7) div 8 - 1) \<le> n"
proof -
  have "n < 2 ^ bit_len n" using bit_len_bounds [of n] by (cases "n = 0") auto
  also have "\<dots> \<le> 2 ^ (8 * ((bit_len n + 7) div 8))" by (intro power_increasing) presburger+
  finally show "n < 256 ^ ((bit_len n + 7) div 8)" by (simp add: power_mult)
  assume "0 < n"
  then have "2 ^ (bit_len n - 1) \<le> n" "0 < bit_len n" using bit_len_bounds [of n] by auto
  moreover from this have "(2::nat) ^ (8 * ((bit_len n + 7) div 8 - 1)) \<le> 2 ^ (bit_len n - 1)"
    by (intro power_increasing) presburger+
  ultimately show "256 ^ ((bit_len n + 7) div 8 - 1) \<le> n" by (simp add: power_mult)
qed

lemma length_be_bytes_unique: "256 ^ (k - 1) \<le> n \<Longrightarrow> n < 256 ^ k \<Longrightarrow> 0 < n \<Longrightarrow> length (be_bytes n) = k"
proof -
  assume a: "256 ^ (k - 1) \<le> n" "n < 256 ^ k" "0 < n"
  then have b: "256 ^ (length (be_bytes n) - 1) \<le> n" "n < 256 ^ length (be_bytes n)"
    using length_be_bytes [of n] by simp_all
  have "(256::nat) ^ (k - 1) < 256 ^ length (be_bytes n)" "(256::nat) ^ (length (be_bytes n) - 1) < 256 ^ k"
    using a b by linarith+
  then have "k - 1 < length (be_bytes n)" "length (be_bytes n) - 1 < k"
    by (simp_all only: power_strict_increasing_iff [of 256] one_less_numeral_iff semiring_norm(76) semiring_norm)
  then show ?thesis by linarith
qed

lemma be_bytes_unique: "length bs = length (be_bytes (be_val bs)) \<Longrightarrow> be_bytes (be_val bs) = bs"
proof -
  assume l: "length bs = length (be_bytes (be_val bs))"
  have "as = bs" if "length as = length bs" "be_val as = be_val bs" for as bs
    using that
  proof (induction as bs rule: list_induct2)
    case (Cons a as b bs)
    have "unat a * 256 ^ length as + be_val as = unat b * 256 ^ length as + be_val bs"
      using Cons by simp
    then have "unat a = unat b \<and> be_val as = be_val bs"
      using digits_eq [of "be_val as" "256 ^ length as" "be_val bs" "unat a" "unat b"]
        be_val_less [of as] be_val_less [of bs] Cons.hyps by (simp add: mult.commute add.commute)
    with Cons.IH show ?case by (simp add: word_unat_eq_iff)
  qed simp
  from this [of "be_bytes (be_val bs)" bs] l show ?thesis by simp
qed

lemma BN_bn2bin_le:
  assumes "bn_ok a"
  shows "BN_bn2bin a = rev (take (BN_num_bytes a) (image_bytes (bn_words a)))" "BN_num_bytes a \<le> 8 * bn_width a"
proof -
  show le: "BN_num_bytes a \<le> 8 * bn_width a"
  proof (rule ccontr)
    assume "\<not> BN_num_bytes a \<le> 8 * bn_width a"
    then have "64 * bn_width a < bit_len (bn_abs a)"
      by (simp add: BN_num_bytes_def BN_num_bits_spec [OF assms])
    then have "64 * bn_width a \<le> bit_len (bn_abs a) - 1" "bn_abs a \<noteq> 0" by (cases "bn_abs a = 0"; simp)+
    then have "(2::nat) ^ (64 * bn_width a) \<le> 2 ^ (bit_len (bn_abs a) - 1)" by (intro power_increasing) simp_all
    also have "\<dots> \<le> bn_abs a" using bit_len_bounds \<open>bn_abs a \<noteq> 0\<close> by blast
    finally have "beta ^ bn_width a \<le> bn_abs a" unfolding beta_def power_mult .
    with bn_abs_less [OF assms] show False by simp
  qed
  have m: "x AND 0xff = x" for x :: u8
  proof -
    have "x AND 0xff = x AND mask 8" by (simp add: mask_eq_exp_minus_1)
    also have "\<dots> = take_bit 8 x" by (rule take_bit_eq_mask [symmetric])
    finally show ?thesis by (simp add: take_bit_word_eq_self)
  qed
  have "BN_bn2bin a = rev (map (\<lambda>i. word_byte (bn_d a ! (i div 8)) (i mod 8)) [0..<BN_num_bytes a])"
    by (simp add: BN_bn2bin_def m word_byte_def rev_map)
  also have "map (\<lambda>i. word_byte (bn_d a ! (i div 8)) (i mod 8)) [0..<BN_num_bytes a] =
      take (BN_num_bytes a) (image_bytes (bn_words a))"
    using le assms by (intro nth_equalityI) (auto simp: nth_image_bytes bn_words_def bn_ok_def)
  finally show "BN_bn2bin a = rev (take (BN_num_bytes a) (image_bytes (bn_words a)))" .
qed

text \<open>The output of \<open>BN_bn2bin\<close> is the shortest big-endian encoding of the absolute value.\<close>

lemma le_val_take: "le_val bs < 256 ^ n \<Longrightarrow> n \<le> length bs \<Longrightarrow> le_val (take n bs) = le_val bs \<and> le_val (drop n bs) = 0"
proof -
  assume a: "le_val bs < 256 ^ n" "n \<le> length bs"
  have "le_val bs = le_val (take n bs) + 256 ^ n * le_val (drop n bs)"
    using le_val_append [of "take n bs" "drop n bs"] a by (simp add: min_def)
  with a(1) show ?thesis by (cases "le_val (drop n bs)") auto
qed

lemma BN_bn2bin_exact:
  assumes "bn_ok a"
  shows "BN_bn2bin a = be_bytes (bn_abs a)" "length (BN_bn2bin a) = BN_num_bytes a"
proof -
  note le = BN_bn2bin_le [OF assms]
  have nb: "BN_num_bytes a = (bit_len (bn_abs a) + 7) div 8"
    by (simp add: BN_num_bytes_def BN_num_bits_spec [OF assms])
  have "le_val (image_bytes (bn_words a)) = bn_abs a" by (simp add: image_bytes_val bn_abs_def)
  then have "le_val (take (BN_num_bytes a) (image_bytes (bn_words a))) = bn_abs a"
    using le_val_take [of "image_bytes (bn_words a)" "BN_num_bytes a"] bit_len_bytes(1) [of "bn_abs a"] le(2) assms
    by (simp add: nb)
  then have v: "be_val (BN_bn2bin a) = bn_abs a" by (simp add: le(1) flip: le_val_rev)
  show l: "length (BN_bn2bin a) = BN_num_bytes a" by (simp add: BN_bn2bin_def)
  have "length (be_bytes (bn_abs a)) = BN_num_bytes a"
  proof (cases "bn_abs a = 0")
    case False
    then show ?thesis unfolding nb by (intro length_be_bytes_unique bit_len_bytes) simp_all
  qed (simp add: nb)
  then show "BN_bn2bin a = be_bytes (bn_abs a)"
    using be_bytes_unique [of "BN_bn2bin a"] v l by simp
qed

lemma fits_in_bytes_spec: "fits_in_bytes bs n len \<longleftrightarrow> le_val (drop len (take n bs)) = 0"
proof -
  have "foldl (OR) m cs = 0 \<longleftrightarrow> m = 0 \<and> (\<forall>c \<in> set cs. c = 0)" for m :: u8 and cs
    by (induction cs arbitrary: m) (auto simp: or_eq_0_iff)
  then show ?thesis by (simp add: fits_in_bytes_def le_val_0)
qed

lemma padded_bytes:
  fixes a :: bignum and len :: nat
  assumes ok: "bn_ok a"
  defines "bs \<equiv> image_bytes (bn_d a)" and "n \<equiv> bn_width a * 8"
  defines "k \<equiv> (if len < n then len else n)"
  shows "len < n \<and> \<not> fits_in_bytes bs n len \<longleftrightarrow> 256 ^ len \<le> bn_abs a"
    and "bn_abs a < 256 ^ len \<Longrightarrow> le_val (take k bs) = bn_abs a" and "length (take k bs) = k" "k \<le> len"
proof -
  have t: "take n bs = image_bytes (bn_words a)"
    using take_image_bytes [of "bn_width a" "bn_d a"] by (simp add: bs_def n_def bn_words_def mult.commute)
  have v: "le_val (take n bs) = bn_abs a" by (simp add: t image_bytes_val bn_abs_def)
  have l: "length (take n bs) = n" using ok unfolding t by (simp add: n_def)
  then show lk: "length (take k bs) = k" by (simp add: k_def min_def split: if_splits)
  show "k \<le> len" by (simp add: k_def)
  have big: "bn_abs a < 256 ^ n" using le_val_less [of "take n bs"] v l by simp
  have split: "bn_abs a = le_val (take len bs) + 256 ^ len * le_val (drop len (take n bs))" if "len < n"
  proof -
    have "take n bs = take len bs @ drop len (take n bs)"
      using append_take_drop_id [of len "take n bs"] that by (simp add: min_absorb1)
    moreover have "length (take len bs) = len" using l that by (auto simp: min_def split: if_splits)
    ultimately show ?thesis using v le_val_append [of "take len bs" "drop len (take n bs)"] by simp
  qed
  have less: "le_val (take len bs) < 256 ^ len" if "len < n"
    using le_val_less [of "take len bs"] l that by (simp add: min_def split: if_splits)
  show "len < n \<and> \<not> fits_in_bytes bs n len \<longleftrightarrow> 256 ^ len \<le> bn_abs a"
  proof (cases "len < n")
    case True
    with split less show ?thesis
      by (cases "le_val (drop len (take n bs))") (auto simp: fits_in_bytes_spec)
  next
    case False
    then have "(256::nat) ^ n \<le> 256 ^ len" by (intro power_increasing) simp_all
    with big have "bn_abs a < 256 ^ len" by linarith
    with False show ?thesis by simp
  qed
  show "le_val (take k bs) = bn_abs a" if "bn_abs a < 256 ^ len"
  proof (cases "len < n")
    case True
    with split [OF True] that show ?thesis
      by (cases "le_val (drop len (take n bs))") (auto simp: k_def)
  qed (use v in \<open>simp add: k_def\<close>)
qed

lemma BN_bn2le_padded_spec:
  assumes "bn_ok a"
  shows "BN_bn2le_padded len a = Some out \<Longrightarrow> length out = len \<and> le_val out = bn_abs a"
    and "BN_bn2le_padded len a = None \<longleftrightarrow> 256 ^ len \<le> bn_abs a"
  using padded_bytes [OF assms, of len]
  by (auto simp: BN_bn2le_padded_def Let_def le_val_append not_le split: if_splits)

lemma BN_bn2bin_padded_spec:
  assumes "bn_ok a"
  shows "BN_bn2bin_padded len a = Some out \<Longrightarrow> length out = len \<and> be_val out = bn_abs a"
    and "BN_bn2bin_padded len a = None \<longleftrightarrow> 256 ^ len \<le> bn_abs a"
  using padded_bytes [OF assms, of len]
  by (auto simp: BN_bn2bin_padded_def Let_def le_val_append not_le simp flip: le_val_rev split: if_splits)

lemma BN_get_word_spec:
  assumes "bn_ok a"
  shows "BN_get_u64 a = Some w \<longleftrightarrow> bn_abs a = unat w"
    and "BN_get_word a = (if bn_abs a < beta then of_nat (bn_abs a) else - 1)"
proof -
  have z: "bn_minimal_width a = 0 \<longleftrightarrow> bn_abs a = 0"
    using minimal_width_0 [of "bn_width a" "bn_d a"] assms
    by (simp add: bn_minimal_width_def bn_abs_def bn_words_def bn_ok_def)
  have "(BN_get_u64 a = Some w \<longleftrightarrow> bn_abs a = unat w) \<and>
    BN_get_word a = (if bn_abs a < beta then of_nat (bn_abs a) else - 1)"
  proof (cases "bn_minimal_width a" "1::nat" rule: linorder_cases)
    case less
    with z show ?thesis by (auto simp: BN_get_u64_def BN_get_word_def unsigned_eq_0_iff)
  next
    case equal
    with bn_minimal_width_1 [OF assms] show ?thesis
      by (auto simp: BN_get_u64_def BN_get_word_def word_unat_eq_iff)
  next
    case greater
    with bn_minimal_width_2 [OF assms] unat_less_beta [of w] show ?thesis
      by (simp add: BN_get_u64_def BN_get_word_def del: unat_less_beta)
  qed
  then show "BN_get_u64 a = Some w \<longleftrightarrow> bn_abs a = unat w"
    "BN_get_word a = (if bn_abs a < beta then of_nat (bn_abs a) else - 1)" by auto
qed

end
