(* ===== verification/BnMul.thy ===== *)
theory BnMul
  imports BnBytes
begin

text \<open>
  Multiplication and squaring of big numbers: \<open>crypto/fipsmodule/bn/mul.c\<close>. The schoolbook product
  works in the result array; Karatsuba's recursion splits both operands in halves and needs one
  multiplication of their differences instead of two of the halves, with the sign of the
  differences kept in a mask. The scratch arrays \<open>t\<close> of the code are local values here: every word
  of them is written before it is read.
\<close>

section \<open>The schoolbook product\<close>

fun mul_rows :: "bn_ulong list \<Rightarrow> nat \<Rightarrow> nat \<Rightarrow> bn_ulong list \<Rightarrow> bn_ulong list \<Rightarrow> bn_ulong list" where
  "mul_rows a na j [] r = r"
| "mul_rows a na j (b # bs) r =
     (let (x, c) = bn_mul_add_words (drop j r) a na b in mul_rows a na (j + 1) bs (blit r j (x @ [c])))"

definition bn_mul_normal ::
  "bn_ulong list \<Rightarrow> bn_ulong list \<Rightarrow> nat \<Rightarrow> bn_ulong list \<Rightarrow> nat \<Rightarrow> bn_ulong list" where
  "bn_mul_normal r a na b nb =
     (let (a, na, b, nb) = (if na < nb then (b, nb, a, na) else (a, na, b, nb))
      in if nb = 0 then blit r 0 (replicate na 0)
         else let (x, c) = bn_mul_words a na (b ! 0)
              in mul_rows a na 1 (drop 1 (take nb b)) (blit r 0 (x @ [c])))"

section \<open>Differences of arrays of different lengths\<close>

definition neg_word :: "bn_ulong \<Rightarrow> bn_ulong \<Rightarrow> bn_ulong list \<times> bn_ulong" where
  "neg_word c t = ([0 - t - c], if t \<noteq> 0 then 1 else c)"

definition dec_word :: "bn_ulong \<Rightarrow> bn_ulong \<Rightarrow> bn_ulong list \<times> bn_ulong" where
  "dec_word c t = ([t - c], if t \<noteq> 0 then 0 else c)"

text \<open>While there is a borrow, four words at a time; then the rest is copied.\<close>

fun sub_rest :: "bn_ulong \<Rightarrow> bn_ulong list \<Rightarrow> bn_ulong list \<times> bn_ulong" where
  "sub_rest c ts =
     (if ts = [] then ([], c)
      else if c = 0 then (ts, c)
      else let (r, c) = one_by_one dec_word c (take 4 ts); (rs, c) = sub_rest c (drop 4 ts)
           in (r @ rs, c))"

declare sub_rest.simps [simp del]

definition bn_sub_part_words ::
  "bn_ulong list \<Rightarrow> bn_ulong list \<Rightarrow> nat \<Rightarrow> int \<Rightarrow> bn_ulong list \<times> bn_ulong" where
  "bn_sub_part_words a b cl dl =
     (let (r, c) = bn_sub_words a b cl
      in if dl = 0 then (r, c)
         else if dl < 0 then
           let (rs, c) = one_by_one neg_word c (take (nat (- dl)) (drop cl b)) in (r @ rs, c)
         else
           let (rs, c) = sub_rest c (take (nat dl) (drop cl a)) in (r @ rs, c))"

definition bn_abs_sub_part_words ::
  "bn_ulong list \<Rightarrow> bn_ulong list \<Rightarrow> nat \<Rightarrow> int \<Rightarrow> bn_ulong list \<times> bn_ulong" where
  "bn_abs_sub_part_words a b cl dl =
     (let (tmp, borrow) = bn_sub_part_words a b cl dl;
          (r, _) = bn_sub_part_words b a cl (- dl);
          r_len = cl + (if dl < 0 then nat (- dl) else nat dl);
          borrow = 0 - borrow
      in (bn_select_words borrow r tmp r_len, borrow))"

definition bn_abs_sub_words :: "bn_ulong list \<Rightarrow> bn_ulong list \<Rightarrow> nat \<Rightarrow> bn_ulong list" where
  "bn_abs_sub_words a b num =
     (let (tmp, borrow) = bn_sub_words a b num; (r, _) = bn_sub_words b a num
      in bn_select_words (0 - borrow) r tmp num)"

section \<open>Karatsuba's multiplication\<close>

text \<open>
  The common end of the recursive products: \<open>r\<close> holds \<open>a0*b0\<close> and \<open>a1*b1\<close>, \<open>t23\<close> the absolute value of
  \<open>(a0 - a1)*(b1 - b0)\<close> and \<open>neg\<close> its sign as a mask; the middle term is added at word \<open>n\<close>.
\<close>

definition add_middle :: "nat \<Rightarrow> bn_ulong \<Rightarrow> bn_ulong list \<Rightarrow> bn_ulong list \<Rightarrow> bn_ulong list \<times> bn_ulong" where
  "add_middle n neg t23 r =
     (let n2 = 2 * n;
          (t, c) = bn_add_words r (drop n2 r) n2;
          (d, bw) = bn_sub_words t t23 n2; c_neg = c - bw;
          (s, cy) = bn_add_words t t23 n2; c_pos = c + cy;
          m = bn_select_words neg d s n2;
          c = constant_time_select_w neg c_neg c_pos;
          (r12, cy) = bn_add_words (drop n r) m n2;
          (hi, c) = carry_loop (c + cy) (take n (drop (n + n2) r))
      in (take n r @ r12 @ hi, c))"

definition BN_MUL_RECURSIVE_SIZE_NORMAL :: nat where
  "BN_MUL_RECURSIVE_SIZE_NORMAL = 16"

function bn_mul_recursive ::
  "bn_ulong list \<Rightarrow> bn_ulong list \<Rightarrow> nat \<Rightarrow> int \<Rightarrow> int \<Rightarrow> bn_ulong list \<Rightarrow> bn_ulong list" where
  "bn_mul_recursive a b n2 dna dnb r =
     (if n2 = 8 \<and> dna = 0 \<and> dnb = 0 then bn_mul_comba8 a b
      else if n2 < BN_MUL_RECURSIVE_SIZE_NORMAL then
        let r = bn_mul_normal r a (nat (int n2 + dna)) b (nat (int n2 + dnb))
        in if dna + dnb < 0
           then blit r (nat (2 * int n2 + dna + dnb)) (replicate (nat (- (dna + dnb))) 0) else r
      else
        let n = n2 div 2; tna = int n + dna; tnb = int n + dnb;
            (t0, neg) = bn_abs_sub_part_words a (drop n a) (nat tna) (int n - tna);
            (t1, neg') = bn_abs_sub_part_words (drop n b) b (nat tnb) (tnb - int n);
            neg = neg XOR neg';
            (t23, r) =
              (if n = 4 \<and> dna = 0 \<and> dnb = 0
               then (bn_mul_comba4 t0 t1, bn_mul_comba4 a b @ bn_mul_comba4 (drop n a) (drop n b))
               else if n = 8 \<and> dna = 0 \<and> dnb = 0
               then (bn_mul_comba8 t0 t1, bn_mul_comba8 a b @ bn_mul_comba8 (drop n a) (drop n b))
               else (bn_mul_recursive t0 t1 n 0 0 (take n2 r),
                     bn_mul_recursive a b n 0 0 (take n2 r)
                     @ bn_mul_recursive (drop n a) (drop n b) n dna dnb (drop n2 r)))
        in fst (add_middle n neg t23 r))"
  by pat_completeness auto

termination
  by (relation "measure (\<lambda>(a, b, n2, dna, dnb, r). n2)") (auto simp: BN_MUL_RECURSIVE_SIZE_NORMAL_def)

declare bn_mul_recursive.simps [simp del]

text \<open>
  The product of numbers that are longer than \<open>n\<close> words but shorter than \<open>2 * n\<close>. The last block of the
  result is cleared before the product of the high parts is written to it.
\<close>

function bottom_half :: "nat \<Rightarrow> nat \<Rightarrow> nat \<Rightarrow> nat option" where
  "bottom_half i tna tnb =
     (let i = i div 2
      in if i < tna \<or> i < tnb \<or> i = tna \<or> i = tnb then Some i
         else if i = 0 then None
         else bottom_half i tna tnb)"
  by pat_completeness auto

termination
  by (relation "measure (\<lambda>(i, tna, tnb). i)") auto

declare bottom_half.simps [simp del]

lemma bottom_half_less: "bottom_half i tna tnb = Some k \<Longrightarrow> 0 < i \<Longrightarrow> k < i"
proof (induction i tna tnb rule: bottom_half.induct)
  case (1 i tna tnb)
  then show ?case
    by (auto simp: bottom_half.simps [of i] Let_def split: if_splits dest: less_trans)
qed

function bn_mul_part_recursive ::
  "bn_ulong list \<Rightarrow> bn_ulong list \<Rightarrow> nat \<Rightarrow> nat \<Rightarrow> nat \<Rightarrow> bn_ulong list \<Rightarrow> bn_ulong list" where
  "bn_mul_part_recursive a b n tna tnb r =
     (let n2 = 2 * n
      in if n < 8 then
           let r = bn_mul_normal r a (n + tna) b (n + tnb)
           in image_words (blit (image_bytes r) (8 * (n2 + tna + tnb)) (replicate (n2 - tna - tnb) 0))
         else
           let (t0, neg) = bn_abs_sub_part_words a (drop n a) tna (int n - int tna);
               (t1, neg') = bn_abs_sub_part_words (drop n b) b tnb (int tnb - int n);
               neg = neg XOR neg';
               (t23, r) =
                 (if n = 8 then
                    let hi = bn_mul_normal (drop n2 r) (drop n a) tna (drop n b) tnb
                    in (bn_mul_comba8 t0 t1,
                        bn_mul_comba8 a b @ blit hi (tna + tnb) (replicate (n2 - tna - tnb) 0))
                  else
                    let zs = replicate n2 0;
                        hi =
                          (if tna < BN_MUL_RECURSIVE_SIZE_NORMAL \<and> tnb < BN_MUL_RECURSIVE_SIZE_NORMAL
                           then bn_mul_normal zs (drop n a) tna (drop n b) tnb
                           else case bottom_half n tna tnb of
                             None \<Rightarrow> zs
                           | Some i \<Rightarrow>
                               if i < tna \<or> i < tnb
                               then blit zs 0 (bn_mul_part_recursive (drop n a) (drop n b) i (tna - i) (tnb - i) (take (4 * i) zs))
                               else blit zs 0 (bn_mul_recursive (drop n a) (drop n b) i (int tna - int i) (int tnb - int i) (take (2 * i) zs)))
                    in (bn_mul_recursive t0 t1 n 0 0 (take n2 r),
                        bn_mul_recursive a b n 0 0 (take n2 r) @ hi))
           in fst (add_middle n neg t23 r))"
  by pat_completeness auto

termination
  by (relation "measure (\<lambda>(a, b, n, tna, tnb, r). n)") (auto dest: bottom_half_less)

declare bn_mul_part_recursive.simps [simp del]

section \<open>Exactness of the schoolbook product\<close>

lemma take_blit_at: "j + length xs \<le> length r \<Longrightarrow> take (j + length xs) (blit r j xs) = take j r @ xs"
  by (simp add: blit_def)

lemma drop_blit_after: "j + length xs \<le> k \<Longrightarrow> k \<le> length r \<Longrightarrow> drop k (blit r j xs) = drop k r"
  by (simp add: blit_def)

lemma mul_rows_val:
  assumes "j + na + length bs \<le> length r" "na \<le> length a"
  shows "length (mul_rows a na j bs r) = length r \<and>
    words_val (take (j + na + length bs) (mul_rows a na j bs r)) =
      words_val (take (j + na) r) + beta ^ j * (words_val (take na a) * words_val bs) \<and>
    drop (j + na + length bs) (mul_rows a na j bs r) = drop (j + na + length bs) r"
  using assms
proof (induction bs arbitrary: j r)
  case (Cons b bs)
  obtain x c where x: "bn_mul_add_words (drop j r) a na b = (x, c)" by fastforce
  have "na \<le> length (drop j r)" using Cons.prems by simp
  note e = bn_mul_add_words_exact [OF this Cons.prems(2) x]
  define r1 where "r1 = blit r j (x @ [c])"
  have fits: "j + length (x @ [c]) \<le> length r" using Cons.prems e(1) by simp
  have t: "take (j + 1 + na) r1 = take j r @ x @ [c]"
    using take_blit_at [OF fits] e(1) by (simp add: r1_def add.commute add.left_commute)
  have lr: "length r1 = length r" using fits by (simp add: r1_def)
  have v: "words_val (take (j + 1 + na) r1) = words_val (take (j + na) r) + beta ^ j * (words_val (take na a) * unat b)"
  proof -
    have "take (j + na) r = take j r @ take na (drop j r)" by (simp add: take_add)
    then have "words_val (take (j + na) r) = words_val (take j r) + beta ^ j * words_val (take na (drop j r))"
      using fits by (simp add: words_val_append)
    moreover have "words_val (take (j + 1 + na) r1) = words_val (take j r) + beta ^ j * (words_val x + beta ^ na * unat c)"
      using fits e(1) by (simp only: t words_val_append) simp
    ultimately show ?thesis by (simp only: e(2)) (simp add: algebra_simps)
  qed
  have "j + 1 + na + length bs \<le> length r1" using Cons.prems lr by simp
  note IH = Cons.IH [OF this Cons.prems(2)]
  have step: "mul_rows a na j (b # bs) r = mul_rows a na (j + 1) bs r1" by (simp add: x r1_def)
  have n: "j + na + length (b # bs) = j + 1 + na + length bs" by simp
  have d: "drop (j + 1 + na + length bs) r1 = drop (j + 1 + na + length bs) r"
    using fits e(1) Cons.prems unfolding r1_def by (intro drop_blit_after) simp_all
  show ?case
    unfolding step n using IH lr d v by (simp add: algebra_simps)
qed simp

lemma mul_normal_ordered:
  assumes "na + nb \<le> length r" "na \<le> length a" "nb \<le> length b"
  defines "r' \<equiv> (if nb = 0 then blit r 0 (replicate na 0)
    else let (x, c) = bn_mul_words a na (b ! 0)
         in mul_rows a na 1 (drop 1 (take nb b)) (blit r 0 (x @ [c])))"
  shows "length r' = length r \<and>
    words_val (take (na + nb) r') = words_val (take na a) * words_val (take nb b) \<and>
    drop (na + nb) r' = drop (na + nb) r"
proof (cases nb)
  case 0
  then have "r' = blit r 0 (replicate na 0)" by (simp add: r'_def)
  with 0 assms(1) show ?thesis by (simp add: blit_def)
next
  case (Suc k)
  obtain x c where x: "bn_mul_words a na (b ! 0) = (x, c)" by fastforce
  note e = bn_mul_words_exact [OF assms(2) x]
  define r1 where "r1 = blit r 0 (x @ [c])"
  define bs where "bs = drop 1 (take nb b)"
  have fits: "0 + length (x @ [c]) \<le> length r" using assms(1) e(1) Suc by simp
  have lr: "length r1 = length r" using fits by (simp add: r1_def)
  have lb: "length bs = k" using assms(3) Suc by (simp add: bs_def)
  have tb: "take nb b = b ! 0 # bs"
    using assms(3) Suc by (cases b) (simp_all add: bs_def)
  have "1 + na + length bs \<le> length r1" using assms(1) Suc lb lr by simp
  note m = mul_rows_val [OF this assms(2)]
  have r': "r' = mul_rows a na 1 bs r1"
    using Suc by (simp add: r'_def x r1_def bs_def)
  have t: "take (1 + na) r1 = x @ [c]" using take_blit_at [OF fits] e(1) by (simp add: r1_def)
  have n: "na + nb = 1 + na + length bs" by (simp add: Suc lb)
  have "drop (1 + na + length bs) r1 = drop (1 + na + length bs) r"
    unfolding r1_def using fits e(1) assms(1) Suc lb by (intro drop_blit_after) simp_all
  moreover have "words_val (x @ [c]) = words_val (take na a) * unat (b ! 0)"
    using e by (simp add: words_val_append)
  ultimately show ?thesis
    unfolding r' n using m t lr by (simp add: tb algebra_simps)
qed

lemma bn_mul_normal_exact:
  assumes "na + nb \<le> length r" "na \<le> length a" "nb \<le> length b"
  shows "length (bn_mul_normal r a na b nb) = length r"
    and "words_val (take (na + nb) (bn_mul_normal r a na b nb)) = words_val (take na a) * words_val (take nb b)"
    and "drop (na + nb) (bn_mul_normal r a na b nb) = drop (na + nb) r"
proof -
  have "length (bn_mul_normal r a na b nb) = length r \<and>
    words_val (take (na + nb) (bn_mul_normal r a na b nb)) = words_val (take na a) * words_val (take nb b) \<and>
    drop (na + nb) (bn_mul_normal r a na b nb) = drop (na + nb) r"
  proof (cases "na < nb")
    case True
    then show ?thesis
      using mul_normal_ordered [of nb na r b a] assms
      by (simp only: bn_mul_normal_def if_True if_P Let_def prod.case) (simp add: add.commute mult.commute)
  next
    case False
    then show ?thesis
      using mul_normal_ordered [of na nb r a b] assms
      by (simp only: bn_mul_normal_def if_False Let_def prod.case)
  qed
  then show "length (bn_mul_normal r a na b nb) = length r"
    and "words_val (take (na + nb) (bn_mul_normal r a na b nb)) = words_val (take na a) * words_val (take nb b)"
    and "drop (na + nb) (bn_mul_normal r a na b nb) = drop (na + nb) r" by auto
qed

section \<open>Exactness of the differences\<close>

lemma neg_word_sub: "neg_word c t = sub_word c (0, t)"
  by (auto simp: neg_word_def sub_word_def word_gt_0)

lemma dec_word_sub: "dec_word c t = sub_word c (t, 0)"
  by (auto simp: dec_word_def sub_word_def Let_def)

lemma one_by_one_neg: "one_by_one neg_word c ts = one_by_one sub_word c (zip (replicate (length ts) 0) ts)"
  by (induction ts arbitrary: c) (simp_all add: neg_word_sub)

lemma one_by_one_dec: "one_by_one dec_word c ts = one_by_one sub_word c (zip ts (replicate (length ts) 0))"
  by (induction ts arbitrary: c) (simp_all add: dec_word_sub)

lemma one_by_one_dec_0: "one_by_one dec_word 0 ts = (ts, 0)"
  by (induction ts) (simp_all add: dec_word_def)

lemma one_by_one_append:
  "one_by_one f s (xs @ ys) =
     (let (r, s1) = one_by_one f s xs; (rs, s2) = one_by_one f s1 ys in (r @ rs, s2))"
  by (induction xs arbitrary: s) (simp_all add: Let_def split: prod.splits)

lemma sub_rest_eq: "sub_rest c ts = one_by_one dec_word c ts"
proof (induction c ts rule: sub_rest.induct)
  case (1 c ts)
  show ?case
  proof (cases "ts = [] \<or> c = 0")
    case True
    then show ?thesis by (auto simp: sub_rest.simps [of c ts] one_by_one_dec_0)
  next
    case False
    obtain r d where rd: "one_by_one dec_word c (take 4 ts) = (r, d)" by fastforce
    have "one_by_one dec_word c ts = one_by_one dec_word c (take 4 ts @ drop 4 ts)" by simp
    then show ?thesis
      using 1 False rd by (simp only: one_by_one_append) (simp add: sub_rest.simps [of c ts])
  qed
qed

lemma sub_loop_append:
  assumes "length a = length b" "unat c \<le> 1" "one_by_one sub_word c (zip a b) = (x, d)"
  shows "length x = length a" "unat d \<le> 1" "words_val x + words_val b + unat c = words_val a + beta ^ length a * unat d"
  using sub_loop [OF assms] by auto

lemma bn_sub_part_words_exact:
  assumes "cl + nat dl \<le> length a" "cl + nat (- dl) \<le> length b" "bn_sub_part_words a b cl dl = (r, c)"
  shows "length r = cl + nat \<bar>dl\<bar>" "unat c \<le> 1"
    and "words_val r + words_val (take (cl + nat (- dl)) b) =
         words_val (take (cl + nat dl) a) + beta ^ (cl + nat \<bar>dl\<bar>) * unat c"
proof -
  obtain lo e where lo: "bn_sub_words a b cl = (lo, e)" by fastforce
  have la: "cl \<le> length a" and lb: "cl \<le> length b" using assms by simp_all
  note l = bn_sub_words_exact [OF la lb lo]
  define as where "as = (if dl < 0 then replicate (nat \<bar>dl\<bar>) 0 else take (nat dl) (drop cl a))"
  define bs where "bs = (if dl < 0 then take (nat (- dl)) (drop cl b) else replicate (nat \<bar>dl\<bar>) 0)"
  have len: "length as = nat \<bar>dl\<bar>" "length bs = nat \<bar>dl\<bar>" using assms by (auto simp: as_def bs_def)
  obtain hi d where hi: "one_by_one sub_word e (zip as bs) = (hi, d)" by fastforce
  have "length as = length bs" using len by simp
  note h = sub_loop_append [OF this l(2) hi]
  have rc: "r = lo @ hi" "c = d"
  proof -
    have "bn_sub_part_words a b cl dl = (lo @ hi, d)"
    proof (cases "dl = 0")
      case True
      then have "as = []" by (simp add: as_def)
      with True hi lo show ?thesis by (simp add: bn_sub_part_words_def)
    next
      case False
      with hi lo len show ?thesis
        by (cases "dl < 0") (auto simp: bn_sub_part_words_def one_by_one_neg sub_rest_eq one_by_one_dec as_def bs_def)
    qed
    then show "r = lo @ hi" "c = d" using assms(3) by auto
  qed
  show "length r = cl + nat \<bar>dl\<bar>" "unat c \<le> 1" using l h len by (simp_all add: rc)
  have va: "words_val (take (cl + nat dl) a) = words_val (take cl a) + beta ^ cl * words_val as"
    using la by (auto simp: take_add words_val_append as_def)
  have vb: "words_val (take (cl + nat (- dl)) b) = words_val (take cl b) + beta ^ cl * words_val bs"
    using lb by (auto simp: take_add words_val_append bs_def)
  have "words_val r + words_val (take (cl + nat (- dl)) b) =
      words_val lo + words_val (take cl b) + beta ^ cl * (words_val hi + words_val bs)"
    using l(1) by (simp add: rc vb words_val_append algebra_simps)
  also have "\<dots> = words_val (take cl a) + beta ^ cl * (words_val hi + words_val bs + unat e)"
    using l(3) by (simp add: algebra_simps)
  also have "\<dots> = words_val (take (cl + nat dl) a) + beta ^ (cl + nat \<bar>dl\<bar>) * unat c"
    using h(3) len by (simp add: va rc power_add algebra_simps)
  finally show "words_val r + words_val (take (cl + nat (- dl)) b) =
         words_val (take (cl + nat dl) a) + beta ^ (cl + nat \<bar>dl\<bar>) * unat c" .
qed

definition nat_diff :: "nat \<Rightarrow> nat \<Rightarrow> nat" where
  "nat_diff a b = (if a < b then b - a else a - b)"

lemma borrow_iff:
  assumes "x + b = a + k * unat (c :: bn_ulong)" "unat c \<le> 1" "x < k" "b < k" "a < k"
  shows "c = (if a < b then 1 else 0) \<and> (b \<le> a \<longrightarrow> x = a - b)"
  using carry_word [OF assms(2)] assms by auto

lemma bn_abs_sub_part_words_exact:
  assumes "cl + nat dl \<le> length a" "cl + nat (- dl) \<le> length b" "bn_abs_sub_part_words a b cl dl = (r, m)"
  shows "length r = cl + nat \<bar>dl\<bar> \<and>
    words_val r = nat_diff (words_val (take (cl + nat dl) a)) (words_val (take (cl + nat (- dl)) b)) \<and>
    m = ct_mask (words_val (take (cl + nat dl) a) < words_val (take (cl + nat (- dl)) b))"
proof -
  let ?A = "words_val (take (cl + nat dl) a)" and ?B = "words_val (take (cl + nat (- dl)) b)"
  define n where "n = cl + nat \<bar>dl\<bar>"
  obtain x c where x: "bn_sub_part_words a b cl dl = (x, c)" by fastforce
  obtain y d where y: "bn_sub_part_words b a cl (- dl) = (y, d)" by fastforce
  note ex = bn_sub_part_words_exact [OF assms(1,2) x, folded n_def]
  have "cl + nat (- dl) \<le> length b" "cl + nat (- (- dl)) \<le> length a" using assms by simp_all
  note ey = bn_sub_part_words_exact [OF this y, unfolded minus_minus abs_minus_cancel, folded n_def]
  have bound: "words_val (take k ws) < beta ^ n" if "k \<le> n" "k \<le> length ws" for k and ws :: "bn_ulong list"
  proof -
    have "words_val (take k ws) < beta ^ k" using words_val_less [of "take k ws"] that by simp
    also have "\<dots> \<le> beta ^ n" using that by (intro power_increasing) (simp_all add: Suc_leI)
    finally show ?thesis .
  qed
  have A: "?A < beta ^ n" by (rule bound) (use assms(1) in \<open>simp_all add: n_def\<close>)
  have B: "?B < beta ^ n" by (rule bound) (use assms(2) in \<open>simp_all add: n_def\<close>)
  have X: "words_val x < beta ^ n" and Y: "words_val y < beta ^ n"
    using words_val_less [of x] words_val_less [of y] ex(1) ey(1) by simp_all
  note bx = borrow_iff [OF ex(3) ex(2) X B A] and by' = borrow_iff [OF ey(3) ey(2) Y A B]
  have rl: "cl + (if dl < 0 then nat (- dl) else nat dl) = n" by (simp add: n_def)
  have "0 - c = ct_mask (?A < ?B)" using bx by (simp add: ct_mask_def)
  moreover from this have "m = 0 - c" "r = bn_select_words (ct_mask (?A < ?B)) y x n"
    using assms(3) x y by (auto simp add: bn_abs_sub_part_words_def rl Let_def)
  ultimately have m: "m = ct_mask (?A < ?B)" and r: "r = (if ?A < ?B then y else x)"
    using ex(1) ey(1) by (simp_all add: bn_select_words_spec)
  then show ?thesis
    using bx by' ex(1) ey(1) by (auto simp: nat_diff_def n_def)
qed

lemma bn_abs_sub_words_exact:
  assumes "num \<le> length a" "num \<le> length b"
  shows "length (bn_abs_sub_words a b num) = num \<and>
    words_val (bn_abs_sub_words a b num) = nat_diff (words_val (take num a)) (words_val (take num b))"
proof -
  have "bn_abs_sub_words a b num = fst (bn_abs_sub_part_words a b num 0)"
    by (simp add: bn_abs_sub_words_def bn_abs_sub_part_words_def bn_sub_part_words_def Let_def split: prod.splits)
  with bn_abs_sub_part_words_exact [of num 0 a b] assms show ?thesis
    by (cases "bn_abs_sub_part_words a b num 0") simp
qed

section \<open>Exactness of Karatsuba's multiplication\<close>

lemma carry_loop_val:
  assumes "carry_loop c ws = (rs, d)"
  shows "length rs = length ws \<and> words_val rs + beta ^ length ws * unat d = words_val ws + unat c"
proof (cases ws)
  case Nil
  with assms show ?thesis by simp
next
  case (Cons w vs)
  define k :: bn_ulong where "k = (if c + w < w then 1 else 0)"
  have k: "unat (c + w) + beta * unat k = unat c + unat w"
    using unat_add_carry [of c w] by (cases "c + w < w") (simp_all add: k_def)
  obtain qs e where q: "carry_loop k vs = (qs, e)" by fastforce
  then have rs: "rs = (c + w) # qs" "d = e" using assms by (simp_all add: Cons Let_def k_def)
  have "unat k \<le> 1" by (simp add: k_def)
  note IH = carry_loop_spec [OF q this]
  have "words_val rs + beta ^ length ws * unat d = unat (c + w) + beta * (words_val qs + beta ^ length vs * unat e)"
    by (simp add: rs Cons algebra_simps)
  also have "\<dots> = words_val ws + unat c" using IH k by (simp add: Cons algebra_simps)
  finally show ?thesis using IH by (simp add: rs Cons)
qed

lemma unat_add_small: "unat a + unat b < beta \<Longrightarrow> unat (a + b) = unat a + unat b" for a b :: bn_ulong
  by (simp add: unat_word_ariths beta_def)

lemma four_less_beta: "4 < beta"
  by (simp add: beta_def)

lemma middle_term:
  fixes p :: bool
  assumes len: "length t = 2 * n" "length t23 = 2 * n" and c: "unat c \<le> 1"
    and d: "bn_sub_words t t23 (2 * n) = (d, bw)" and s: "bn_add_words t t23 (2 * n) = (s, cy)"
    and le: "p \<Longrightarrow> words_val t23 \<le> words_val t + beta ^ (2 * n) * unat c"
  defines "c' \<equiv> constant_time_select_w (ct_mask p) (c - bw) (c + cy)"
    and "m \<equiv> bn_select_words (ct_mask p) d s (2 * n)"
  shows "length m = 2 * n \<and> unat c' \<le> 2 \<and> words_val m + beta ^ (2 * n) * unat c' =
    (if p then words_val t + beta ^ (2 * n) * unat c - words_val t23
     else words_val t + beta ^ (2 * n) * unat c + words_val t23)"
proof -
  note ed = bn_sub_words_exact [OF _ _ d] and es = bn_add_words_exact [OF _ _ s]
  have m: "m = (if p then d else s)"
    using ed(1) es(1) len by (simp add: m_def bn_select_words_spec)
  have c': "c' = (if p then c - bw else c + cy)"
    by (simp add: c'_def constant_time_select)
  show ?thesis
  proof (cases p)
    case True
    have "words_val d < beta ^ (2 * n)" using words_val_less [of d] ed(1) len by simp
    then have "unat bw \<le> unat c"
      using ed(2,3) len le [OF True] carry_word [OF c] carry_word [of bw] by auto
    then have "unat (c - bw) = unat c - unat bw" by (simp add: unat_sub_mod word_le_nat_alt)
    moreover have "words_val d + beta ^ (2 * n) * (unat c - unat bw) = words_val t + beta ^ (2 * n) * unat c - words_val t23"
      using ed(3) len \<open>unat bw \<le> unat c\<close> by (simp add: diff_mult_distrib2)
    ultimately show ?thesis using True c ed(1) len by (simp add: m c')
  next
    case False
    have "unat (c + cy) = unat c + unat cy"
      using c es(2) len four_less_beta by (intro unat_add_small) simp
    with False es len c show ?thesis by (simp add: m c' algebra_simps)
  qed
qed

lemma add_middle_exact:
  fixes p :: bool
  assumes len: "length r = 4 * n" "length t23 = 2 * n"
  defines "R \<equiv> words_val (take (2 * n) r) + words_val (drop (2 * n) r)"
  defines "M \<equiv> (if p then R - words_val t23 else R + words_val t23)"
  assumes le: "p \<Longrightarrow> words_val t23 \<le> R" and fits: "words_val r + beta ^ n * M < beta ^ (4 * n)"
  shows "length (fst (add_middle n (ct_mask p) t23 r)) = 4 * n \<and>
    words_val (fst (add_middle n (ct_mask p) t23 r)) = words_val r + beta ^ n * M \<and>
    snd (add_middle n (ct_mask p) t23 r) = 0"
proof -
  obtain t c where t: "bn_add_words r (drop (2 * n) r) (2 * n) = (t, c)" by fastforce
  obtain d bw where d: "bn_sub_words t t23 (2 * n) = (d, bw)" by fastforce
  obtain s cy where s: "bn_add_words t t23 (2 * n) = (s, cy)" by fastforce
  define m where "m = bn_select_words (ct_mask p) d s (2 * n)"
  define c' where "c' = constant_time_select_w (ct_mask p) (c - bw) (c + cy)"
  obtain r12 e where r12: "bn_add_words (drop n r) m (2 * n) = (r12, e)" by fastforce
  obtain hi f where hi: "carry_loop (c' + e) (take n (drop (3 * n) r)) = (hi, f)" by fastforce
  have am: "add_middle n (ct_mask p) t23 r = (take n r @ r12 @ hi, f)"
    using t d s r12 hi by (simp add: add_middle_def m_def c'_def)
  have et: "length t = 2 * n" "unat c \<le> 1" "words_val t + beta ^ (2 * n) * unat c = R"
    using bn_add_words_exact [OF _ _ t] len by (simp_all add: R_def)
  note mt = middle_term [OF et(1) len(2) et(2) d s, of p, folded m_def c'_def]
  have M: "length m = 2 * n" "unat c' \<le> 2" "words_val m + beta ^ (2 * n) * unat c' = M"
    using mt le et(3) by (auto simp: M_def)
  have e: "length r12 = 2 * n" "unat e \<le> 1"
    "words_val r12 + beta ^ (2 * n) * unat e = words_val (take (2 * n) (drop n r)) + words_val m"
    using bn_add_words_exact [OF _ _ r12] len M(1) by simp_all
  have ce: "unat (c' + e) = unat c' + unat e"
    using M(2) e(2) four_less_beta by (intro unat_add_small) simp
  have h: "length hi = n" "words_val hi + beta ^ n * unat f = words_val (drop (3 * n) r) + unat c' + unat e"
    using carry_loop_val [OF hi] len ce by simp_all
  have r: "words_val r = words_val (take n r) + beta ^ n * (words_val (take (2 * n) (drop n r)) + beta ^ (2 * n) * words_val (drop (3 * n) r))"
  proof -
    have "r = take n r @ take (2 * n) (drop n r) @ drop (3 * n) r"
      by (metis append_take_drop_id drop_drop add.commute mult_2 mult_Suc numeral_3_eq_3 numeral_2_eq_2 add_mult_distrib One_nat_def Suc_eq_plus1)
    then have "words_val r = words_val (take n r @ take (2 * n) (drop n r) @ drop (3 * n) r)" by simp
    then show ?thesis using len by (simp add: words_val_append)
  qed
  have v: "words_val (take n r @ r12 @ hi) + beta ^ (4 * n) * unat f = words_val r + beta ^ n * M"
  proof -
    have p4: "beta ^ (4 * n) = beta ^ n * beta ^ (2 * n) * beta ^ n" by (simp flip: power_add)
    have "words_val (take n r @ r12 @ hi) + beta ^ (4 * n) * unat f =
        words_val (take n r) + beta ^ n * (words_val r12 + beta ^ (2 * n) * (words_val hi + beta ^ n * unat f))"
      using len e(1) by (simp add: words_val_append p4 distrib_left mult.assoc)
    also have "\<dots> = words_val (take n r) + beta ^ n * (words_val r12 + beta ^ (2 * n) * unat e
        + beta ^ (2 * n) * (words_val (drop (3 * n) r) + unat c'))"
      by (simp only: h(2)) (simp add: algebra_simps)
    also have "\<dots> = words_val r + beta ^ n * (words_val m + beta ^ (2 * n) * unat c')"
      by (simp only: e(3) r) (simp add: algebra_simps)
    finally show ?thesis by (simp only: M(3))
  qed
  have "beta ^ (4 * n) * unat f < beta ^ (4 * n)" using v fits by linarith
  then have "unat f = 0" by simp
  then show ?thesis using v len e(1) h(1) unat_pos [of f] by (simp add: am)
qed

lemma karatsuba_middle:
  fixes a0 a1 b0 b1 :: nat
  defines "T \<equiv> nat_diff a0 a1 * nat_diff b1 b0" and "p \<equiv> (a0 < a1) \<noteq> (b1 < b0)"
  shows "p \<Longrightarrow> T \<le> a0 * b0 + a1 * b1"
    and "(if p then a0 * b0 + a1 * b1 - T else a0 * b0 + a1 * b1 + T) = a0 * b1 + a1 * b0"
proof -
  have "(p \<longrightarrow> T \<le> a0 * b0 + a1 * b1) \<and>
    (if p then a0 * b0 + a1 * b1 - T else a0 * b0 + a1 * b1 + T) = a0 * b1 + a1 * b0"
  proof (cases "a0 < a1"; cases "b1 < b0")
    assume "a0 < a1" "b1 < b0"
    then obtain d e where "a1 = a0 + d" "b0 = b1 + e" using less_imp_add_positive by metis
    with \<open>a0 < a1\<close> \<open>b1 < b0\<close> show ?thesis by (simp add: T_def p_def nat_diff_def algebra_simps)
  next
    assume "a0 < a1" "\<not> b1 < b0"
    then obtain d e where "a1 = a0 + d" "b1 = b0 + e" by (metis less_imp_add_positive le_Suc_ex not_less)
    with \<open>a0 < a1\<close> show ?thesis by (simp add: T_def p_def nat_diff_def algebra_simps)
  next
    assume "\<not> a0 < a1" "b1 < b0"
    then obtain d e where "a0 = a1 + d" "b0 = b1 + e" by (metis less_imp_add_positive le_Suc_ex not_less)
    with \<open>b1 < b0\<close> show ?thesis by (simp add: T_def p_def nat_diff_def algebra_simps)
  next
    assume "\<not> a0 < a1" "\<not> b1 < b0"
    then obtain d e where "a0 = a1 + d" "b1 = b0 + e" by (metis le_Suc_ex not_less)
    then show ?thesis by (simp add: T_def p_def nat_diff_def algebra_simps)
  qed
  then show "p \<Longrightarrow> T \<le> a0 * b0 + a1 * b1"
    "(if p then a0 * b0 + a1 * b1 - T else a0 * b0 + a1 * b1 + T) = a0 * b1 + a1 * b0" by auto
qed

lemma abs_sub_high:
  assumes "n + ta \<le> length a" "ta \<le> n" "bn_abs_sub_part_words a (drop n a) ta (int n - int ta) = (t0, m0)"
  shows "length t0 = n \<and> words_val t0 = nat_diff (words_val (take n a)) (words_val (take ta (drop n a))) \<and>
    m0 = ct_mask (words_val (take n a) < words_val (take ta (drop n a)))"
  using bn_abs_sub_part_words_exact [OF _ _ assms(3)] assms(1,2)
  by (auto simp: nat_diff_distrib of_nat_diff)

lemma abs_sub_low:
  assumes "n + tb \<le> length b" "tb \<le> n" "bn_abs_sub_part_words (drop n b) b tb (int tb - int n) = (t1, m1)"
  shows "length t1 = n \<and> words_val t1 = nat_diff (words_val (take tb (drop n b))) (words_val (take n b)) \<and>
    m1 = ct_mask (words_val (take tb (drop n b)) < words_val (take n b))"
  using bn_abs_sub_part_words_exact [OF _ _ assms(3)] assms(1,2)
  by (auto simp: nat_diff_distrib of_nat_diff)

text \<open>One step of the recursion, whichever routine made the three products.\<close>

lemma karatsuba_step:
  assumes la: "n + ta \<le> length a" "ta \<le> n" and lb: "n + tb \<le> length b" "tb \<le> n"
    and t0: "bn_abs_sub_part_words a (drop n a) ta (int n - int ta) = (t0, m0)"
    and t1: "bn_abs_sub_part_words (drop n b) b tb (int tb - int n) = (t1, m1)"
    and t23: "length t23 = 2 * n" "length t0 = n \<Longrightarrow> length t1 = n \<Longrightarrow> words_val t23 = words_val t0 * words_val t1"
    and lo: "length lo = 2 * n" "words_val lo = words_val (take n a) * words_val (take n b)"
    and hi: "length hi = 2 * n" "words_val hi = words_val (take ta (drop n a)) * words_val (take tb (drop n b))"
  shows "length (fst (add_middle n (m0 XOR m1) t23 (lo @ hi))) = 4 * n \<and>
    words_val (fst (add_middle n (m0 XOR m1) t23 (lo @ hi))) =
      words_val (take (n + ta) a) * words_val (take (n + tb) b)"
proof -
  define a0 a1 b0 b1 where "a0 = words_val (take n a)" and "a1 = words_val (take ta (drop n a))"
    and "b0 = words_val (take n b)" and "b1 = words_val (take tb (drop n b))"
  have e0: "length t0 = n" "words_val t0 = nat_diff a0 a1" "m0 = ct_mask (a0 < a1)"
    using abs_sub_high [OF la t0] by (simp_all add: a0_def a1_def)
  have e1: "length t1 = n" "words_val t1 = nat_diff b1 b0" "m1 = ct_mask (b1 < b0)"
    using abs_sub_low [OF lb t1] by (simp_all add: b0_def b1_def)
  define p where "p = ((a0 < a1) \<noteq> (b1 < b0))"
  have neg: "m0 XOR m1 = ct_mask p" by (auto simp: e0(3) e1(3) p_def ct_mask_def)
  note km = karatsuba_middle [of a0 a1 b1 b0, folded p_def]
  have T: "words_val t23 = nat_diff a0 a1 * nat_diff b1 b0" using t23(2) e0 e1 by simp
  have R: "words_val (take (2 * n) (lo @ hi)) + words_val (drop (2 * n) (lo @ hi)) = a0 * b0 + a1 * b1"
    using lo hi by (simp add: a0_def a1_def b0_def b1_def)
  have A: "words_val (take (n + ta) a) = a0 + beta ^ n * a1" and B: "words_val (take (n + tb) b) = b0 + beta ^ n * b1"
    using la lb by (simp_all add: take_add words_val_append a0_def a1_def b0_def b1_def)
  have prod: "words_val (lo @ hi) + beta ^ n * (a0 * b1 + a1 * b0) =
      words_val (take (n + ta) a) * words_val (take (n + tb) b)"
  proof -
    have "beta ^ (2 * n) = beta ^ n * beta ^ n" by (simp add: mult_2 power_add)
    then show ?thesis using lo hi
      by (simp add: A B words_val_append a0_def [symmetric] a1_def [symmetric] b0_def [symmetric] b1_def [symmetric])
        (simp add: algebra_simps)
  qed
  have "words_val (take (n + ta) a) * words_val (take (n + tb) b) < beta ^ (n + ta) * beta ^ (n + tb)"
    using words_val_less [of "take (n + ta) a"] words_val_less [of "take (n + tb) b"] la lb
    by (intro mult_strict_mono) simp_all
  also have "\<dots> \<le> beta ^ (4 * n)"
    unfolding power_add [symmetric] using la lb by (intro power_increasing) (simp_all add: Suc_leI)
  finally have fits: "words_val (lo @ hi) + beta ^ n * (a0 * b1 + a1 * b0) < beta ^ (4 * n)" by (simp only: prod)
  have len: "length (lo @ hi) = 4 * n" using lo hi by simp
  note add_middle_exact [OF len t23(1), of p, unfolded R T km(2)]
  with km(1) fits prod neg show ?thesis by simp
qed

lemma comba_cong:
  assumes "\<And>col t c. col \<in> set cols \<Longrightarrow> t \<in> set col \<Longrightarrow> f t c = g t c"
  shows "comba f c cols = comba g c cols"
  using assms
proof (induction cols arbitrary: c)
  case (Cons col cols)
  have "fold f col c = fold g col c" by (intro fold_cong refl ext) (rule Cons.prems [OF list.set_intros(1)])
  moreover have "comba f c cols = comba g c cols" for c
    by (rule Cons.IH) (rule Cons.prems [OF list.set_intros(2)])
  ultimately show ?case by (simp add: comba.simps)
qed (simp add: comba.simps)

lemma bn_mul_comba8_take: "bn_mul_comba8 a b = bn_mul_comba8 (take 8 a) (take 8 b)"
  unfolding bn_mul_comba8_def
  by (intro comba_cong) (auto simp: bn_mul_comba8_columns_def mul_term_def)

lemma bn_mul_comba8_prefix:
  assumes "8 \<le> length a" "8 \<le> length b"
  shows "words_val (bn_mul_comba8 a b) = words_val (take 8 a) * words_val (take 8 b)" "length (bn_mul_comba8 a b) = 16"
  using bn_mul_comba8_exact [of "take 8 a" "take 8 b"] assms by (simp_all add: bn_mul_comba8_take [of a b])

text \<open>The product with the unused top words of the result cleared.\<close>

lemma padded_product:
  assumes "la + lb \<le> length r" "la \<le> length a" "lb \<le> length b"
  shows "words_val (blit (bn_mul_normal r a la b lb) (la + lb) (replicate (length r - (la + lb)) 0)) =
      words_val (take la a) * words_val (take lb b)"
    and "length (blit (bn_mul_normal r a la b lb) (la + lb) (replicate (length r - (la + lb)) 0)) = length r"
  using bn_mul_normal_exact [OF assms] assms(1) by (simp_all add: blit_def words_val_append)

lemma bn_mul_recursive_exact:
  assumes "n2 = 2 ^ k" "-8 \<le> dna" "dna \<le> 0" "-8 \<le> dnb" "dnb \<le> 0"
    and "0 \<le> int n2 + dna" "0 \<le> int n2 + dnb" "length r = 2 * n2"
    and "nat (int n2 + dna) \<le> length a" "nat (int n2 + dnb) \<le> length b"
  shows "length (bn_mul_recursive a b n2 dna dnb r) = 2 * n2 \<and>
    words_val (bn_mul_recursive a b n2 dna dnb r) =
      words_val (take (nat (int n2 + dna)) a) * words_val (take (nat (int n2 + dnb)) b)"
  using assms
proof (induction k arbitrary: a b n2 dna dnb r rule: less_induct)
  case (less k)
  define la where "la = nat (int n2 + dna)"
  define lb where "lb = nat (int n2 + dnb)"
  have il: "int la = int n2 + dna" "int lb = int n2 + dnb" using less.prems by (simp_all add: la_def lb_def)
  show ?case
  proof (cases "n2 < 16")
    case small: True
    show ?thesis
    proof (cases "n2 = 8 \<and> dna = 0 \<and> dnb = 0")
      case True
      have "bn_mul_recursive a b n2 dna dnb r = bn_mul_comba8 a b"
        by (subst bn_mul_recursive.simps) (simp only: if_P [OF True])
      with True show ?thesis
        using bn_mul_comba8_prefix [of a b] less.prems(9,10) by simp
    next
      case False
      have fits: "la + lb \<le> length r" using less.prems il by linarith
      have off: "nat (2 * int n2 + dna + dnb) = la + lb" using il by linarith
      have pad: "nat (- (dna + dnb)) = length r - (la + lb)" using il less.prems by linarith
      have pos: "\<not> dna + dnb < 0 \<Longrightarrow> length r - (la + lb) = 0" using pad by simp
      have eq: "bn_mul_recursive a b n2 dna dnb r =
          blit (bn_mul_normal r a la b lb) (la + lb) (replicate (length r - (la + lb)) 0)"
      proof -
        have "bn_mul_recursive a b n2 dna dnb r =
            (if dna + dnb < 0 then blit (bn_mul_normal r a la b lb) (la + lb) (replicate (length r - (la + lb)) 0)
             else bn_mul_normal r a la b lb)"
          by (subst bn_mul_recursive.simps)
            (simp only: if_not_P [OF False] if_P [OF small] BN_MUL_RECURSIVE_SIZE_NORMAL_def Let_def off pad
              la_def [symmetric] lb_def [symmetric])
        then show ?thesis using pos by simp
      qed
      have "la \<le> length a" "lb \<le> length b" using less.prems by (simp_all add: la_def lb_def)
      note padded_product [OF fits this]
      with less.prems(8) show ?thesis unfolding eq la_def lb_def by simp
    qed
  next
    case large: False
    then obtain j where k: "k = Suc j" using less.prems(1) by (cases k) auto
    define n where "n = n2 div 2"
    have n: "n = 2 ^ j" "n2 = 2 * n" using less.prems(1) k by (simp_all add: n_def)
    have n8: "8 \<le> n" using large n by simp
    define ta where "ta = nat (int n + dna)"
    define tb where "tb = nat (int n + dnb)"
    have it: "int ta = int n + dna" "int tb = int n + dnb" using less.prems n8 by (simp_all add: ta_def tb_def)
    have l: "la = n + ta" "lb = n + tb" using il it n by linarith+
    have bounds: "ta \<le> n" "tb \<le> n" "n + ta \<le> length a" "n + tb \<le> length b"
      using it less.prems(3,5) less.prems(9,10) [folded la_def lb_def] l by linarith+
    obtain t0 m0 where t0: "bn_abs_sub_part_words a (drop n a) ta (int n - int ta) = (t0, m0)" by fastforce
    obtain t1 m1 where t1: "bn_abs_sub_part_words (drop n b) b tb (int tb - int n) = (t1, m1)" by fastforce
    define c8 where "c8 = (n = 8 \<and> dna = 0 \<and> dnb = 0)"
    define t23 where "t23 = (if c8 then bn_mul_comba8 t0 t1 else bn_mul_recursive t0 t1 n 0 0 (take n2 r))"
    define lo where "lo = (if c8 then bn_mul_comba8 a b else bn_mul_recursive a b n 0 0 (take n2 r))"
    define hi where "hi = (if c8 then bn_mul_comba8 (drop n a) (drop n b)
      else bn_mul_recursive (drop n a) (drop n b) n dna dnb (drop n2 r))"
    have eq: "bn_mul_recursive a b n2 dna dnb r = fst (add_middle n (m0 XOR m1) t23 (lo @ hi))"
    proof -
      have c: "\<not> (n2 = 8 \<and> dna = 0 \<and> dnb = 0)" "\<not> n2 < 16" "\<not> (n = 4 \<and> dna = 0 \<and> dnb = 0)"
        using large n8 by auto
      have tas: "nat (int n + dna) = ta" "nat (int n + dnb) = tb" "int n - (int n + dna) = int n - int ta"
        "int n + dnb - int n = int tb - int n"
        using it by (simp_all add: ta_def tb_def)
      have "(if c8 then (bn_mul_comba8 t0 t1, bn_mul_comba8 a b @ bn_mul_comba8 (drop n a) (drop n b))
          else (bn_mul_recursive t0 t1 n 0 0 (take n2 r), bn_mul_recursive a b n 0 0 (take n2 r)
            @ bn_mul_recursive (drop n a) (drop n b) n dna dnb (drop n2 r))) = (t23, lo @ hi)"
        by (simp add: t23_def lo_def hi_def)
      then show ?thesis
        by (subst bn_mul_recursive.simps)
          (simp only: if_not_P [OF c(1)] if_not_P [OF c(2)] if_not_P [OF c(3)] BN_MUL_RECURSIVE_SIZE_NORMAL_def
            Let_def n_def [symmetric] tas t0 t1 prod.case c8_def [symmetric])
    qed
    have IH: "length (bn_mul_recursive x y n da db z) = 2 * n \<and>
      words_val (bn_mul_recursive x y n da db z) =
        words_val (take (nat (int n + da)) x) * words_val (take (nat (int n + db)) y)"
      if "-8 \<le> da" "da \<le> 0" "-8 \<le> db" "db \<le> 0" "length z = 2 * n"
        "nat (int n + da) \<le> length x" "nat (int n + db) \<le> length y" for x y da db z
    proof -
      have "0 \<le> int n + da" "0 \<le> int n + db" using n8 that by linarith+
      with that k show ?thesis by (intro less.IH [OF _ n(1)]) simp_all
    qed
    have r: "length (take n2 r) = 2 * n" "length (drop n2 r) = 2 * n" using less.prems(8) n by simp_all
    have lens: "n \<le> length a" "n \<le> length b" "ta \<le> length (drop n a)" "tb \<le> length (drop n b)"
      using bounds by simp_all
    have c8ab: "8 \<le> length a \<and> 8 \<le> length b \<and> ta = 8 \<and> tb = 8 \<and> n = 8" if c8
      using that lens it by (auto simp: c8_def ta_def tb_def)
    have vlo: "length lo = 2 * n" "words_val lo = words_val (take n a) * words_val (take n b)"
      using bn_mul_comba8_prefix [of a b] c8ab IH [of 0 0 "take n2 r" a b] r lens
      by (auto simp: lo_def)
    have vhi: "length hi = 2 * n" "words_val hi = words_val (take ta (drop n a)) * words_val (take tb (drop n b))"
      using bn_mul_comba8_prefix [of "drop n a" "drop n b"] c8ab lens
        IH [of dna dnb "drop n2 r" "drop n a" "drop n b"] r less.prems(2-5)
      by (auto simp: hi_def simp flip: ta_def tb_def)
    have vt: "length t0 = n \<Longrightarrow> length t1 = n \<Longrightarrow> length t23 = 2 * n \<and> words_val t23 = words_val t0 * words_val t1"
      using bn_mul_comba8_prefix [of t0 t1] c8ab IH [of 0 0 "take n2 r" t0 t1] r
      by (auto simp: t23_def)
    have lt: "length t0 = n" "length t1 = n"
      using abs_sub_high [OF bounds(3,1) t0] abs_sub_low [OF bounds(4,2) t1] by simp_all
    note karatsuba_step [OF bounds(3,1) bounds(4,2) t0 t1 conjunct1 [OF vt [OF lt]] conjunct2 [OF vt] vlo vhi]
    then show ?thesis unfolding eq l [symmetric] la_def [symmetric] lb_def [symmetric] by (simp add: n(2))
  qed
qed

text \<open>Half of the rest, for the larger of the two lengths.\<close>

lemma bottom_half_spec:
  assumes "i = 2 ^ k" "16 \<le> max ta tb" "max ta tb < i" "ta \<le> tb + 1" "tb \<le> ta + 1"
  shows "\<exists>j m. bottom_half i ta tb = Some j \<and> j = 2 ^ m \<and> 16 \<le> j \<and> j < i \<and> j \<le> max ta tb \<and> max ta tb < 2 * j"
  using assms
proof (induction k arbitrary: i)
  case (Suc k)
  define h where "h = i div 2"
  have h: "h = 2 ^ k" "i = 2 * h" using Suc.prems(1) by (simp_all add: h_def)
  show ?case
  proof (cases "h \<le> max ta tb")
    case True
    have "8 < h" using Suc.prems(2,3) h(2) by linarith
    have "h \<noteq> 9 \<and> h \<noteq> 10 \<and> h \<noteq> 11 \<and> h \<noteq> 12 \<and> h \<noteq> 13 \<and> h \<noteq> 14 \<and> h \<noteq> 15"
    proof -
      have "k \<le> 3 \<or> 4 \<le> k" by linarith
      then show ?thesis
      proof
        assume "k \<le> 3"
        then have "h \<le> 2 ^ 3" unfolding h(1) by (intro power_increasing) simp_all
        with \<open>8 < h\<close> show ?thesis by simp
      next
        assume "4 \<le> k"
        then have "2 ^ 4 \<le> h" unfolding h(1) by (intro power_increasing) simp_all
        then show ?thesis by simp
      qed
    qed
    with \<open>8 < h\<close> have "16 \<le> h" by linarith
    moreover have "bottom_half i ta tb = Some h"
      using True by (subst bottom_half.simps) (auto simp: Let_def h_def [symmetric] max_def split: if_splits)
    ultimately show ?thesis using True h Suc.prems(3) by auto
  next
    case False
    then have "bottom_half i ta tb = bottom_half h ta tb"
      using h Suc.prems by (subst bottom_half.simps) (auto simp: Let_def h_def [symmetric])
    with Suc.IH [OF h(1) Suc.prems(2) _ Suc.prems(4,5)] False h show ?thesis by fastforce
  qed
qed simp

lemma words_val_blit_zeros:
  "length w \<le> n \<Longrightarrow> length (blit (replicate n 0) 0 w) = n \<and> words_val (blit (replicate n 0) 0 w) = words_val w"
  by (simp add: blit_def words_val_append)

lemma bn_mul_part_recursive_exact:
  assumes "n = 2 ^ k" "8 \<le> n" "ta < n" "tb < n" "ta \<le> tb + 1" "tb \<le> ta + 1" "length r = 4 * n"
    and "n + ta \<le> length a" "n + tb \<le> length b"
  shows "length (bn_mul_part_recursive a b n ta tb r) = 4 * n \<and>
    words_val (bn_mul_part_recursive a b n ta tb r) = words_val (take (n + ta) a) * words_val (take (n + tb) b)"
  using assms
proof (induction n arbitrary: k a b ta tb r rule: less_induct)
  case (less n)
  obtain t0 m0 where t0: "bn_abs_sub_part_words a (drop n a) ta (int n - int ta) = (t0, m0)" by fastforce
  obtain t1 m1 where t1: "bn_abs_sub_part_words (drop n b) b tb (int tb - int n) = (t1, m1)" by fastforce
  define zs where "zs = (replicate (2 * n) 0 :: bn_ulong list)"
  define hi where "hi =
    (if n = 8 then blit (bn_mul_normal (drop (2 * n) r) (drop n a) ta (drop n b) tb) (ta + tb) (replicate (2 * n - ta - tb) 0)
     else if ta < 16 \<and> tb < 16 then bn_mul_normal zs (drop n a) ta (drop n b) tb
     else case bottom_half n ta tb of
       None \<Rightarrow> zs
     | Some i \<Rightarrow>
         if i < ta \<or> i < tb
         then blit zs 0 (bn_mul_part_recursive (drop n a) (drop n b) i (ta - i) (tb - i) (take (4 * i) zs))
         else blit zs 0 (bn_mul_recursive (drop n a) (drop n b) i (int ta - int i) (int tb - int i) (take (2 * i) zs)))"
  define t23 where "t23 = (if n = 8 then bn_mul_comba8 t0 t1 else bn_mul_recursive t0 t1 n 0 0 (take (2 * n) r))"
  define lo where "lo = (if n = 8 then bn_mul_comba8 a b else bn_mul_recursive a b n 0 0 (take (2 * n) r))"
  have eq: "bn_mul_part_recursive a b n ta tb r = fst (add_middle n (m0 XOR m1) t23 (lo @ hi))"
  proof -
    have "\<not> n < 8" using less.prems(2) by simp
    then show ?thesis
      unfolding t23_def lo_def hi_def zs_def
      by (subst bn_mul_part_recursive.simps) (simp add: Let_def t0 t1 BN_MUL_RECURSIVE_SIZE_NORMAL_def)
  qed
  have lens: "n \<le> length a" "n \<le> length b" "ta \<le> length (drop n a)" "tb \<le> length (drop n b)"
    using less.prems by simp_all
  have r: "length (take (2 * n) r) = 2 * n" "length (drop (2 * n) r) = 2 * n" using less.prems(7) by simp_all
  note full = bn_mul_recursive_exact [OF less.prems(1), of 0 0, simplified]
  have vlo: "length lo = 2 * n" "words_val lo = words_val (take n a) * words_val (take n b)"
    using bn_mul_comba8_prefix [of a b] full [of "take (2 * n) r" a b] r lens by (auto simp: lo_def)
  have vt: "length t0 = n \<Longrightarrow> length t1 = n \<Longrightarrow> length t23 = 2 * n \<and> words_val t23 = words_val t0 * words_val t1"
    using bn_mul_comba8_prefix [of t0 t1] full [of "take (2 * n) r" t0 t1] r by (auto simp: t23_def)
  have vhi: "length hi = 2 * n \<and> words_val hi = words_val (take ta (drop n a)) * words_val (take tb (drop n b))"
  proof (cases "n = 8")
    case True
    then show ?thesis
      using padded_product [of ta tb "drop (2 * n) r" "drop n a" "drop n b"] less.prems lens r
      by (simp add: hi_def)
  next
    case n8: False
    show ?thesis
    proof (cases "ta < 16 \<and> tb < 16")
      case True
      have "ta + tb \<le> length zs" using less.prems by (simp add: zs_def)
      note m = bn_mul_normal_exact [OF this lens(3,4)]
      have "hi = take (ta + tb) hi @ replicate (2 * n - (ta + tb)) 0"
        using m(3) n8 True append_take_drop_id [of "ta + tb" hi] by (simp add: hi_def zs_def)
      then have "words_val hi = words_val (take (ta + tb) hi)"
        using words_val_append [of "take (ta + tb) hi" "replicate (2 * n - (ta + tb)) 0"] by simp
      then show ?thesis using m n8 True by (simp add: hi_def zs_def)
    next
      case False
      have "16 \<le> max ta tb" "max ta tb < n" using False less.prems by auto
      from bottom_half_spec [OF less.prems(1) this less.prems(5,6)]
      obtain i m where i: "bottom_half n ta tb = Some i" "i = 2 ^ m" "16 \<le> i" "i < n" "i \<le> max ta tb" "max ta tb < 2 * i"
        by blast
      show ?thesis
      proof (cases "i < ta \<or> i < tb")
        case True
        have tt: "i \<le> ta" "i \<le> tb" using True less.prems(5,6) by linarith+
        have "i \<noteq> 1" using i(3) by simp
        then have "2 * i \<le> n"
        proof -
          have "m < k" using i(2,4) less.prems(1) by (simp add: power_strict_increasing_iff)
          then have "2 ^ Suc m \<le> (2::nat) ^ k" by (intro power_increasing) simp_all
          then show ?thesis using i(2) less.prems(1) by simp
        qed
        then have z: "length (take (4 * i) zs) = 4 * i" by (simp add: zs_def)
        have "length (bn_mul_part_recursive (drop n a) (drop n b) i (ta - i) (tb - i) (take (4 * i) zs)) = 4 * i \<and>
          words_val (bn_mul_part_recursive (drop n a) (drop n b) i (ta - i) (tb - i) (take (4 * i) zs)) =
            words_val (take (i + (ta - i)) (drop n a)) * words_val (take (i + (tb - i)) (drop n b))"
          using i less.prems tt z lens by (intro less.IH [of i m]) auto
        moreover have "hi = blit zs 0 (bn_mul_part_recursive (drop n a) (drop n b) i (ta - i) (tb - i) (take (4 * i) zs))"
          by (simp only: hi_def if_not_P [OF n8] if_not_P [OF False] i(1) option.case if_P [OF True])
        ultimately show ?thesis
          using tt words_val_blit_zeros [of _ "2 * n"] \<open>2 * i \<le> n\<close> by (simp add: zs_def)
      next
        case bottom: False
        have tt: "ta \<le> i" "tb \<le> i" "i - 1 \<le> ta" "i - 1 \<le> tb" using bottom i(5) less.prems(5,6) by auto
        have z: "length (take (2 * i) zs) = 2 * i" using i(4) by (simp add: zs_def)
        have "length (bn_mul_recursive (drop n a) (drop n b) i (int ta - int i) (int tb - int i) (take (2 * i) zs)) = 2 * i \<and>
          words_val (bn_mul_recursive (drop n a) (drop n b) i (int ta - int i) (int tb - int i) (take (2 * i) zs)) =
            words_val (take (nat (int i + (int ta - int i))) (drop n a)) * words_val (take (nat (int i + (int tb - int i))) (drop n b))"
        proof (intro bn_mul_recursive_exact [OF i(2)])
          show "- 8 \<le> int ta - int i" "- 8 \<le> int tb - int i" using tt by linarith+
        qed (use tt z lens in simp_all)
        moreover have "hi = blit zs 0 (bn_mul_recursive (drop n a) (drop n b) i (int ta - int i) (int tb - int i) (take (2 * i) zs))"
          by (simp only: hi_def if_not_P [OF n8] if_not_P [OF False] i(1) option.case if_not_P [OF bottom])
        ultimately show ?thesis
          using i(4) words_val_blit_zeros [of _ "2 * n"] by (simp add: zs_def)
      qed
    qed
  qed
  have lt: "length t0 = n" "length t1 = n"
    using abs_sub_high [OF less.prems(8) less_imp_le [OF less.prems(3)] t0]
      abs_sub_low [OF less.prems(9) less_imp_le [OF less.prems(4)] t1] by simp_all
  note karatsuba_step [OF less.prems(8) less_imp_le [OF less.prems(3)] less.prems(9) less_imp_le [OF less.prems(4)]
      t0 t1 conjunct1 [OF vt [OF lt]] conjunct2 [OF vt] vlo conjunct1 [OF vhi] conjunct2 [OF vhi]]
  then show ?case by (simp add: eq)
qed

end
