(* ===== verification/BnSqr.thy ===== *)
theory BnSqr
  imports BnMul
begin

text \<open>
  Squaring and the products of whole numbers: the second half of
  \<open>crypto/fipsmodule/bn/mul.c\<close>. A square adds every mixed product once, doubles the sum and adds
  the squares of the words. The numbers from the \<open>BN_CTX\<close> are arguments, \<open>None\<close> when the context
  has none; \<open>alias\<close> says that the target is one of the operands.
\<close>

section \<open>Squaring words\<close>

fun sqr_rows :: "bn_ulong list \<Rightarrow> nat \<Rightarrow> bn_ulong list \<Rightarrow> bn_ulong list" where
  "sqr_rows [] off r = r"
| "sqr_rows (w # ap) off r =
     (if ap = [] then r
      else let (x, c) = bn_mul_add_words (drop off r) ap (length ap) w
           in sqr_rows ap (off + 2) (blit r off (x @ [c])))"

definition bn_sqr_normal :: "bn_ulong list \<Rightarrow> bn_ulong list \<Rightarrow> nat \<Rightarrow> bn_ulong list" where
  "bn_sqr_normal r a n =
     (if n = 0 then r
      else
        let mx = n * 2;
            r = r[0 := 0, mx - 1 := 0];
            r = (if n > 1 then let (x, c) = bn_mul_words (drop 1 a) (n - 1) (a ! 0) in blit r 1 (x @ [c]) else r);
            r = (if n > 2 then sqr_rows (drop 1 (take n a)) 3 r else r);
            r = blit r 0 (fst (bn_add_words r r mx));
            tmp = bn_sqr_words a n
        in blit r 0 (fst (bn_add_words r tmp mx)))"

definition BN_SQR_RECURSIVE_SIZE_NORMAL :: nat where
  "BN_SQR_RECURSIVE_SIZE_NORMAL = BN_MUL_RECURSIVE_SIZE_NORMAL"

function bn_sqr_recursive :: "bn_ulong list \<Rightarrow> nat \<Rightarrow> bn_ulong list \<Rightarrow> bn_ulong list" where
  "bn_sqr_recursive a n2 r =
     (if n2 = 4 then bn_sqr_comba4 a
      else if n2 = 8 then bn_sqr_comba8 a
      else if n2 < BN_SQR_RECURSIVE_SIZE_NORMAL then bn_sqr_normal r a n2
      else
        let n = n2 div 2;
            t0 = bn_abs_sub_words a (drop n a) n;
            t23 = bn_sqr_recursive t0 n (take n2 r);
            r = bn_sqr_recursive a n (take n2 r) @ bn_sqr_recursive (drop n a) n (drop n2 r);
            (t, c) = bn_add_words r (drop n2 r) n2;
            (t23, bw) = bn_sub_words t t23 n2; c = c - bw;
            (r12, cy) = bn_add_words (drop n r) t23 n2; c = c + cy;
            (hi, c) = carry_loop c (take n (drop (n + n2) r))
        in take n r @ r12 @ hi)"
  by pat_completeness auto

termination
  by (relation "measure (\<lambda>(a, n2, r). n2)")
    (auto simp: BN_SQR_RECURSIVE_SIZE_NORMAL_def BN_MUL_RECURSIVE_SIZE_NORMAL_def)

declare bn_sqr_recursive.simps [simp del]

section \<open>Products of numbers\<close>

text \<open>The product is computed in \<open>rr\<close>, the target or a number of the context.\<close>

definition mul_into :: "bn_mem \<Rightarrow> bignum option \<Rightarrow> bignum \<Rightarrow> bignum \<Rightarrow> bignum \<Rightarrow> unit option \<times> bignum" where
  "mul_into mem ctx_t a b rr =
     (let al = bn_width a; bl = bn_width b;
          rr = rr\<lparr>bn_neg := (bn_neg a \<noteq> bn_neg b)\<rparr>;
          i = int al - int bl;
          tp = al + bl
      in if i = 0 \<and> al = 8 then
           on_ok (bn_wexpand mem 16 rr) (\<lambda>_ rr.
             (Some (), rr\<lparr>bn_width := 16, bn_d := blit (bn_d rr) 0 (bn_mul_comba8 (bn_d a) (bn_d b))\<rparr>))
         else if al \<ge> 16 \<and> bl \<ge> 16 \<and> -1 \<le> i \<and> i \<le> 1 then
           let j = BN_num_bits_word (of_nat (if i \<ge> 0 then al else bl)); j = 2 ^ (j - 1)
           in (case ctx_t of
                 None \<Rightarrow> (None, rr)
               | Some t \<Rightarrow>
                   if al > j \<or> bl > j then
                     (case bn_wexpand mem (j * 8) t of
                        (None, _) \<Rightarrow> (None, rr)
                      | (Some _, _) \<Rightarrow>
                          on_ok (bn_wexpand mem (j * 4) rr) (\<lambda>_ rr.
                            (Some (), rr\<lparr>bn_width := tp, bn_d := blit (bn_d rr) 0
                                (bn_mul_part_recursive (bn_d a) (bn_d b) j (al - j) (bl - j) (take (4 * j) (bn_d rr)))\<rparr>)))
                   else
                     (case bn_wexpand mem (j * 4) t of
                        (None, _) \<Rightarrow> (None, rr)
                      | (Some _, _) \<Rightarrow>
                          on_ok (bn_wexpand mem (j * 2) rr) (\<lambda>_ rr.
                            (Some (), rr\<lparr>bn_width := tp, bn_d := blit (bn_d rr) 0
                                (bn_mul_recursive (bn_d a) (bn_d b) j (int al - int j) (int bl - int j) (take (2 * j) (bn_d rr)))\<rparr>))))
         else
           on_ok (bn_wexpand mem tp rr) (\<lambda>_ rr.
             (Some (), rr\<lparr>bn_width := tp, bn_d := bn_mul_normal (bn_d rr) (bn_d a) al (bn_d b) bl\<rparr>)))"

definition bn_mul_impl ::
  "bn_mem \<Rightarrow> bignum option \<Rightarrow> bignum option \<Rightarrow> bool \<Rightarrow> bignum \<Rightarrow> bignum \<Rightarrow> bignum \<Rightarrow> unit option \<times> bignum" where
  "bn_mul_impl mem ctx_rr ctx_t alias a b r =
     (if bn_width a = 0 \<or> bn_width b = 0 then (Some (), BN_zero r)
      else if alias then
        (case ctx_rr of
           None \<Rightarrow> (None, r)
         | Some rr \<Rightarrow>
             (case mul_into mem ctx_t a b rr of
                (None, _) \<Rightarrow> (None, r)
              | (Some _, rr) \<Rightarrow> BN_copy mem rr r))
      else mul_into mem ctx_t a b r)"

definition BN_mul ::
  "bn_mem \<Rightarrow> bignum option \<Rightarrow> bignum option \<Rightarrow> bool \<Rightarrow> bignum \<Rightarrow> bignum \<Rightarrow> bignum \<Rightarrow> unit option \<times> bignum" where
  "BN_mul mem ctx_rr ctx_t alias a b r =
     on_ok (bn_mul_impl mem ctx_rr ctx_t alias a b r) (\<lambda>_ r. (Some (), bn_set_minimal_width r))"

definition bn_mul_consttime ::
  "bn_mem \<Rightarrow> bignum option \<Rightarrow> bignum option \<Rightarrow> bool \<Rightarrow> bignum \<Rightarrow> bignum \<Rightarrow> bignum \<Rightarrow> unit option \<times> bignum" where
  "bn_mul_consttime mem ctx_rr ctx_t alias a b r =
     (if bn_neg a \<or> bn_neg b then (None, r) else bn_mul_impl mem ctx_rr ctx_t alias a b r)"

text \<open>\<open>abort()\<close> is \<open>None\<close>.\<close>

definition bn_mul_small ::
  "bn_ulong list \<Rightarrow> nat \<Rightarrow> bn_ulong list \<Rightarrow> nat \<Rightarrow> bn_ulong list \<Rightarrow> nat \<Rightarrow> bn_ulong list option" where
  "bn_mul_small r num_r a num_a b num_b =
     (if num_r \<noteq> num_a + num_b then None
      else if num_a = 8 \<and> num_b = 8 then Some (blit r 0 (bn_mul_comba8 a b))
      else Some (bn_mul_normal r a num_a b num_b))"

definition BN_mul_word :: "bn_mem \<Rightarrow> bn_ulong \<Rightarrow> bignum \<Rightarrow> unit option \<times> bignum" where
  "BN_mul_word mem w bn =
     (if bn_width bn = 0 then (Some (), bn)
      else if w = 0 then (Some (), BN_zero bn)
      else
        let (ds, ll) = bn_mul_words (bn_d bn) (bn_width bn) w;
            bn = bn\<lparr>bn_d := blit (bn_d bn) 0 ds\<rparr>
        in if ll \<noteq> 0 then
             on_ok (bn_wexpand mem (bn_width bn + 1) bn) (\<lambda>_ bn.
               (Some (), bn\<lparr>bn_d := (bn_d bn)[bn_width bn := ll], bn_width := bn_width bn + 1\<rparr>))
           else (Some (), bn))"

definition sqr_into :: "bn_mem \<Rightarrow> bignum \<Rightarrow> bignum \<Rightarrow> bignum \<Rightarrow> unit option \<times> bignum" where
  "sqr_into mem tmp a rr =
     (let al = bn_width a; mx = 2 * al
      in on_ok (bn_wexpand mem mx rr) (\<lambda>_ rr.
           on_ok
             (if al = 4 then (Some (blit (bn_d rr) 0 (bn_sqr_comba4 (bn_d a))), rr)
              else if al = 8 then (Some (blit (bn_d rr) 0 (bn_sqr_comba8 (bn_d a))), rr)
              else if al < BN_SQR_RECURSIVE_SIZE_NORMAL then (Some (bn_sqr_normal (bn_d rr) (bn_d a) al), rr)
              else if al \<noteq> 0 \<and> al AND (al - 1) = 0 then
                (case bn_wexpand mem (al * 4) tmp of
                   (None, _) \<Rightarrow> (None, rr)
                 | (Some _, _) \<Rightarrow> (Some (blit (bn_d rr) 0 (bn_sqr_recursive (bn_d a) al (take mx (bn_d rr)))), rr))
              else
                (case bn_wexpand mem mx tmp of
                   (None, _) \<Rightarrow> (None, rr)
                 | (Some _, _) \<Rightarrow> (Some (bn_sqr_normal (bn_d rr) (bn_d a) al), rr)))
             (\<lambda>d rr. (Some (), rr\<lparr>bn_d := d, bn_neg := False, bn_width := mx\<rparr>))))"

definition bn_sqr_consttime ::
  "bn_mem \<Rightarrow> bignum option \<Rightarrow> bignum option \<Rightarrow> bool \<Rightarrow> bignum \<Rightarrow> bignum \<Rightarrow> unit option \<times> bignum" where
  "bn_sqr_consttime mem ctx_rr ctx_tmp alias a r =
     (if bn_width a = 0 then (Some (), r\<lparr>bn_width := 0, bn_neg := False\<rparr>)
      else case (if \<not> alias then Some r else ctx_rr, ctx_tmp) of
        (Some rr, Some tmp) \<Rightarrow>
          if alias then
            (case sqr_into mem tmp a rr of (None, _) \<Rightarrow> (None, r) | (Some _, rr) \<Rightarrow> BN_copy mem rr r)
          else sqr_into mem tmp a rr
      | _ \<Rightarrow> (None, r))"

definition BN_sqr ::
  "bn_mem \<Rightarrow> bignum option \<Rightarrow> bignum option \<Rightarrow> bool \<Rightarrow> bignum \<Rightarrow> bignum \<Rightarrow> unit option \<times> bignum" where
  "BN_sqr mem ctx_rr ctx_tmp alias a r =
     on_ok (bn_sqr_consttime mem ctx_rr ctx_tmp alias a r) (\<lambda>_ r. (Some (), bn_set_minimal_width r))"

definition BN_SMALL_MAX_WORDS :: nat where
  "BN_SMALL_MAX_WORDS = 9"

definition bn_sqr_small :: "bn_ulong list \<Rightarrow> nat \<Rightarrow> bn_ulong list \<Rightarrow> nat \<Rightarrow> bn_ulong list option" where
  "bn_sqr_small r num_r a num_a =
     (if num_r \<noteq> 2 * num_a \<or> num_a > BN_SMALL_MAX_WORDS then None
      else if num_a = 4 then Some (blit r 0 (bn_sqr_comba4 a))
      else if num_a = 8 then Some (blit r 0 (bn_sqr_comba8 a))
      else Some (bn_sqr_normal r a num_a))"

section \<open>Exactness of squaring\<close>

fun mixed_rows :: "bn_ulong list \<Rightarrow> nat" where
  "mixed_rows [] = 0"
| "mixed_rows (w # ws) = unat w * words_val ws + beta * beta * mixed_rows ws"

fun squares_val :: "bn_ulong list \<Rightarrow> nat" where
  "squares_val [] = 0"
| "squares_val (w # ws) = unat w * unat w + beta * beta * squares_val ws"

lemma square_split: "words_val ws * words_val ws = squares_val ws + 2 * (beta * mixed_rows ws)"
proof (induction ws)
  case (Cons w ws)
  have "words_val (w # ws) * words_val (w # ws) =
      unat w * unat w + 2 * (beta * (unat w * words_val ws)) + beta * beta * (words_val ws * words_val ws)"
    by (simp add: algebra_simps)
  then show ?case unfolding Cons by (simp add: algebra_simps)
qed simp

lemma bn_sqr_words_exact:
  assumes "n \<le> length a"
  shows "words_val (bn_sqr_words a n) = squares_val (take n a)" "length (bn_sqr_words a n) = 2 * n"
proof -
  have *: "words_val (fst (one_by_one sqr u ws)) = squares_val ws \<and> length (fst (one_by_one sqr u ws)) = 2 * length ws" for u ws
  proof (induction ws arbitrary: u)
    case (Cons w ws)
    have v: "unat (Lw (wide w * wide w)) + beta * unat (Hw (wide w * wide w)) = unat w * unat w"
      using Lw_Hw [of "wide w * wide w"] product_less(1) [of w w] by simp
    have "fst (one_by_one sqr u (w # ws)) = Lw (wide w * wide w) # Hw (wide w * wide w) # fst (one_by_one sqr u ws)"
      by (simp add: sqr_def Let_def split: prod.splits)
    then show ?case using Cons [of u] v by (simp only: words_val.simps squares_val.simps) (simp add: algebra_simps)
  qed simp
  then show "words_val (bn_sqr_words a n) = squares_val (take n a)" "length (bn_sqr_words a n) = 2 * n"
    using assms * [of "()" "take n a"] by (simp_all add: bn_sqr_words_def four_by_four_eq)
qed

lemma sqr_rows_val:
  assumes "off + 2 * length ws \<le> length r"
  shows "length (sqr_rows (w # ws) off r) = length r \<and>
    words_val (take (off + 2 * length ws) (sqr_rows (w # ws) off r)) =
      words_val (take (off + length ws) r) + beta ^ off * mixed_rows (w # ws) \<and>
    drop (off + 2 * length ws) (sqr_rows (w # ws) off r) = drop (off + 2 * length ws) r"
  using assms
proof (induction ws arbitrary: w off r)
  case (Cons v ws)
  let ?ap = "v # ws" and ?L = "length (v # ws)"
  obtain x c where x: "bn_mul_add_words (drop off r) ?ap ?L w = (x, c)" by fastforce
  have "?L \<le> length (drop off r)" using Cons.prems by simp
  note e = bn_mul_add_words_exact [OF this order_refl x]
  define r1 where "r1 = blit r off (x @ [c])"
  have fits: "off + length (x @ [c]) \<le> length r" using Cons.prems e(1) by simp
  have t: "take (off + ?L + 1) r1 = take off r @ x @ [c]"
    using take_blit_at [OF fits] e(1) by (simp add: r1_def)
  have lr: "length r1 = length r" using fits by (simp add: r1_def)
  have v: "words_val (take (off + ?L + 1) r1) = words_val (take (off + ?L) r) + beta ^ off * (unat w * words_val ?ap)"
  proof -
    have "words_val (take (off + ?L) r) = words_val (take off r) + beta ^ off * words_val (take ?L (drop off r))"
      using fits by (simp only: take_add words_val_append) simp
    moreover have "words_val (take (off + ?L + 1) r1) = words_val (take off r) + beta ^ off * (words_val x + beta ^ ?L * unat c)"
      using fits e(1) by (simp only: t words_val_append) simp
    ultimately show ?thesis by (simp only: e(2)) (simp add: algebra_simps)
  qed
  have "off + 2 + 2 * length ws \<le> length r1" using Cons.prems lr by simp
  note IH = Cons.IH [OF this, of v]
  have step: "sqr_rows (w # ?ap) off r = sqr_rows ?ap (off + 2) r1" using x by (simp add: r1_def)
  have n: "off + 2 * ?L = off + 2 + 2 * length ws" "off + ?L + 1 = off + 2 + length ws" by simp_all
  have d: "drop (off + 2 + 2 * length ws) r1 = drop (off + 2 + 2 * length ws) r"
    unfolding r1_def using fits e(1) Cons.prems by (intro drop_blit_after) simp_all
  have b: "beta ^ (off + 2) = beta ^ off * (beta * beta)" by (simp add: power_add power2_eq_square)
  show ?case
    unfolding step n(1) using IH lr d v unfolding n(2) b by (simp add: algebra_simps)
qed simp

lemma bn_sqr_normal_exact:
  assumes "2 * n \<le> length r" "n \<le> length a"
  shows "length (bn_sqr_normal r a n) = length r \<and>
    words_val (take (2 * n) (bn_sqr_normal r a n)) = words_val (take n a) * words_val (take n a) \<and>
    drop (2 * n) (bn_sqr_normal r a n) = drop (2 * n) r"
proof (cases n)
  case (Suc m)
  define as where "as = take n a"
  have la: "length as = n" using assms by (simp add: as_def)
  obtain w ws where as: "as = w # ws" using la Suc by (cases as) auto
  have ws: "length ws = m" using la as Suc by simp
  have dw: "drop 1 (take n a) = ws" using as by (simp add: as_def [symmetric])
  have aw: "a ! 0 = w" using arg_cong [OF as, of "\<lambda>l. l ! 0"] Suc by (simp add: as_def)
  have tw: "take m (drop 1 a) = ws" using dw Suc by (simp add: take_drop)
  define r0 where "r0 = r[0 := 0, n * 2 - 1 := 0]"
  define r1 where "r1 = (if n > 1 then let (x, c) = bn_mul_words (drop 1 a) (n - 1) (a ! 0) in blit r0 1 (x @ [c]) else r0)"
  define r2 where "r2 = (if n > 2 then sqr_rows (drop 1 (take n a)) 3 r1 else r1)"
  have l0: "length r0 = length r" by (simp add: r0_def)
  have rpos: "0 < length r" "Suc (2 * m) < length r" using assms Suc by (auto simp: Suc_le_eq)
  have d0: "drop (2 * n) r0 = drop (2 * n) r" "r0 ! 0 = 0" "r0 ! (2 * m + 1) = 0"
    using rpos Suc by (simp_all add: r0_def nth_list_update mult.commute drop_update_cancel)
  have "length r2 = length r \<and> words_val (take (2 * n) r2) = beta * mixed_rows as \<and> drop (2 * n) r2 = drop (2 * n) r"
  proof (cases m)
    case 0
    then have "r2 = r0" using Suc by (simp add: r2_def r1_def)
    moreover have "take 2 r0 = [0, 0]"
      using d0 assms Suc 0 l0 by (cases r0; cases "tl r0") (auto simp: eval_nat_numeral)
    ultimately show ?thesis using l0 d0 Suc 0 as ws by simp
  next
    case (Suc k)
    obtain x c where x: "bn_mul_words (drop 1 a) m w = (x, c)" by fastforce
    have "m \<le> length (drop 1 a)" using assms \<open>n = Suc m\<close> by simp
    note e = bn_mul_words_exact [OF this x]
    have r1: "r1 = blit r0 1 (x @ [c])" using x \<open>n = Suc m\<close> Suc aw by (simp add: r1_def)
    have fits: "1 + length (x @ [c]) \<le> length r0" using assms \<open>n = Suc m\<close> Suc e(1) l0 by simp
    have t: "take (3 + k) r1 = [0] @ x @ [c]"
    proof -
      have "take 1 r0 = [0]" using fits d0(2) by (cases r0) simp_all
      moreover have "1 + length (x @ [c]) = 3 + k" using e(1) Suc by simp
      ultimately show ?thesis using take_blit_at [OF fits] by (simp only: r1)
    qed
    have v1: "words_val (take (3 + k) r1) = beta * (unat w * words_val ws)"
      using e tw by (simp add: t words_val_append mult.commute)
    have l1: "length r1 = length r" using fits l0 by (simp add: r1)
    have d1: "drop (2 * m + 1) r1 = drop (2 * m + 1) r0"
      unfolding r1 using fits e(1) Suc assms \<open>n = Suc m\<close> l0 by (intro drop_blit_after) simp_all
    obtain u us where us: "ws = u # us" "length us = k" using ws Suc by (cases ws) auto
    have r2: "r2 = sqr_rows (u # us) 3 r1"
      using us dw Suc \<open>n = Suc m\<close> by (cases k) (simp_all add: r2_def)
    have "3 + 2 * length us \<le> length r1" using us Suc \<open>n = Suc m\<close> assms l1 by simp
    note s = sqr_rows_val [OF this, of u, folded r2, unfolded us(2)]
    have n: "3 + 2 * k = 2 * m + 1" "2 * n = Suc (2 * m + 1)" using Suc \<open>n = Suc m\<close> by simp_all
    have d2: "drop (2 * m + 1) r2 = drop (2 * m + 1) r0" using s d1 unfolding n by simp
    have lt: "2 * m + 1 < length r2" using s l1 assms n by simp
    have top: "r2 ! (2 * m + 1) = 0"
      using arg_cong [OF d2, of hd] lt l0 l1 s d0(3) by (simp add: hd_drop_conv_nth)
    have "words_val (take (2 * m + 1) r2) = beta * (unat w * words_val ws) + beta ^ 3 * mixed_rows ws"
      using s v1 us unfolding n by simp
    also have "\<dots> = beta * mixed_rows as" by (simp add: as eval_nat_numeral algebra_simps)
    finally have "words_val (take (2 * n) r2) = beta * mixed_rows as"
      unfolding n(2) using lt top by (simp only: take_Suc_conv_app_nth) (simp add: words_val_append)
    moreover have "drop (2 * n) r2 = drop (2 * n) r"
      using arg_cong [OF d2, of "drop 1"] d0(1) n(2) by simp
    ultimately show ?thesis using s l1 by simp
  qed
  then have r2: "length r2 = length r" "words_val (take (2 * n) r2) = beta * mixed_rows as" "drop (2 * n) r2 = drop (2 * n) r"
    by auto
  have sq: "squares_val as + 2 * (beta * mixed_rows as) < beta ^ (2 * n)"
  proof -
    have "words_val as * words_val as < beta ^ n * beta ^ n"
      using words_val_less [of as] la by (intro mult_strict_mono) simp_all
    then show ?thesis unfolding square_split mult_2 [of n] power_add .
  qed
  have exact: "words_val x = s" if "words_val x + beta ^ k * unat c = s" "s < beta ^ k" for x k s and c :: bn_ulong
  proof -
    have "beta ^ k * unat c < beta ^ k" using that by linarith
    then show ?thesis using that(1) by simp
  qed
  have l2: "2 * n \<le> length r2" using r2 assms by simp
  obtain x c where x: "bn_add_words r2 r2 (2 * n) = (x, c)" by fastforce
  note ex = bn_add_words_exact [OF l2 l2 x]
  have vx: "words_val x = 2 * (beta * mixed_rows as)"
    using exact [OF ex(3)] r2(2) sq by simp
  define r3 where "r3 = blit r2 0 x"
  have r3: "take (2 * n) r3 = x" "length r3 = length r" "drop (2 * n) r3 = drop (2 * n) r"
    using ex(1) l2 r2 by (simp_all add: r3_def blit_def)
  note q = bn_sqr_words_exact [OF assms(2)]
  obtain y d where y: "bn_add_words r3 (bn_sqr_words a n) (2 * n) = (y, d)" by fastforce
  have "2 * n \<le> length r3" "2 * n \<le> length (bn_sqr_words a n)" using r3 assms q by simp_all
  note ey = bn_add_words_exact [OF this y]
  have vy: "words_val y = words_val as * words_val as"
    using exact [OF ey(3)] sq q r3 vx by (simp add: square_split as_def)
  have "bn_sqr_normal r a n = blit r3 0 y"
    using Suc x y unfolding bn_sqr_normal_def Let_def r3_def r2_def r1_def r0_def
    by (simp add: mult.commute)
  then show ?thesis using ey(1) r3 assms vy by (simp add: as_def) (simp add: blit_def)
qed (use assms in \<open>simp add: bn_sqr_normal_def\<close>)

section \<open>Exactness of the recursive square\<close>

lemma bn_sqr_comba8_prefix:
  assumes "8 \<le> length a"
  shows "words_val (bn_sqr_comba8 a) = words_val (take 8 a) * words_val (take 8 a)" "length (bn_sqr_comba8 a) = 16"
proof -
  have "bn_sqr_comba8 a = bn_sqr_comba8 (take 8 a)"
    unfolding bn_sqr_comba8_def
    by (intro comba_cong) (auto simp: bn_sqr_comba8_columns_def sqr_add_c_def sqr_add_c2_def)
  with bn_sqr_comba8_exact [of "take 8 a"] assms
  show "words_val (bn_sqr_comba8 a) = words_val (take 8 a) * words_val (take 8 a)" "length (bn_sqr_comba8 a) = 16"
    by simp_all
qed

lemma bn_sqr_comba4_prefix:
  assumes "4 \<le> length a"
  shows "words_val (bn_sqr_comba4 a) = words_val (take 4 a) * words_val (take 4 a)" "length (bn_sqr_comba4 a) = 8"
proof -
  have "bn_sqr_comba4 a = bn_sqr_comba4 (take 4 a)"
    unfolding bn_sqr_comba4_def
    by (intro comba_cong) (auto simp: bn_sqr_comba4_columns_def sqr_add_c_def sqr_add_c2_def)
  with bn_sqr_comba4_exact [of "take 4 a"] assms
  show "words_val (bn_sqr_comba4 a) = words_val (take 4 a) * words_val (take 4 a)" "length (bn_sqr_comba4 a) = 8"
    by simp_all
qed

text \<open>The square is the product with the sign of the middle term fixed.\<close>

lemma bn_sqr_recursive_step:
  assumes "\<not> n2 < 16" "n = n2 div 2" "even n2"
    and "t23 = bn_sqr_recursive (bn_abs_sub_words a (drop n a) n) n (take n2 r)"
    and "q = bn_sqr_recursive a n (take n2 r) @ bn_sqr_recursive (drop n a) n (drop n2 r)"
    and "length t23 = n2" "length q = 2 * n2"
  shows "bn_sqr_recursive a n2 r = fst (add_middle n (ct_mask True) t23 q)"
proof -
  have n2: "n2 = 2 * n" "n2 \<noteq> 4" "n2 \<noteq> 8" using assms by auto
  obtain t c where t: "bn_add_words q (drop n2 q) n2 = (t, c)" by fastforce
  obtain d bw where d: "bn_sub_words t t23 n2 = (d, bw)" by fastforce
  obtain s cy where s: "bn_add_words t t23 n2 = (s, cy)" by fastforce
  have l: "length t = n2" using bn_add_words_exact [OF _ _ t] assms(6,7) by simp
  have "length d = n2" "length s = n2"
    using bn_sub_words_exact [OF _ _ d] bn_add_words_exact [OF _ _ s] assms(6) l by simp_all
  then have m: "bn_select_words (ct_mask True) d s n2 = d"
    by (simp add: bn_select_words_spec)
  have "bn_sqr_recursive a n2 r =
      (let (r12, cy) = bn_add_words (drop n q) d n2; (hi, c) = carry_loop (c - bw + cy) (take n (drop (n + n2) q))
       in take n q @ r12 @ hi)"
    by (subst bn_sqr_recursive.simps)
      (simp only: if_not_P [OF n2(2)] if_not_P [OF n2(3)] if_not_P [OF assms(1)] Let_def assms(2) [symmetric]
        assms(4) [symmetric] assms(5) [symmetric] BN_SQR_RECURSIVE_SIZE_NORMAL_def BN_MUL_RECURSIVE_SIZE_NORMAL_def
        t d prod.case)
  also have "\<dots> = fst (add_middle n (ct_mask True) t23 q)"
    using t d s m n2(1) by (simp add: add_middle_def Let_def constant_time_select split: prod.splits)
  finally show ?thesis .
qed

lemma bn_sqr_normal_full:
  assumes "length r = 2 * n" "n \<le> length a"
  shows "length (bn_sqr_normal r a n) = 2 * n \<and> words_val (bn_sqr_normal r a n) = words_val (take n a) * words_val (take n a)"
proof -
  have "2 * n \<le> length r" using assms by simp
  from bn_sqr_normal_exact [OF this assms(2)] assms(1) show ?thesis
    by (metis order_refl take_all_iff)
qed

lemma bn_sqr_recursive_exact:
  assumes "n2 = 2 ^ k" "length r = 2 * n2" "n2 \<le> length a"
  shows "length (bn_sqr_recursive a n2 r) = 2 * n2 \<and>
    words_val (bn_sqr_recursive a n2 r) = words_val (take n2 a) * words_val (take n2 a)"
  using assms
proof (induction k arbitrary: a n2 r)
  case 0
  then show ?case
    using bn_sqr_normal_full [of r n2 a]
    by (simp add: bn_sqr_recursive.simps BN_SQR_RECURSIVE_SIZE_NORMAL_def BN_MUL_RECURSIVE_SIZE_NORMAL_def)
next
  case (Suc k)
  show ?case
  proof (cases "n2 < 16")
    case True
    consider "n2 = 4" | "n2 = 8" | "n2 \<noteq> 4" "n2 \<noteq> 8" by blast
    then show ?thesis
    proof cases
      case 1
      with bn_sqr_comba4_prefix [of a] Suc.prems(3) show ?thesis by (simp add: bn_sqr_recursive.simps)
    next
      case 2
      with bn_sqr_comba8_prefix [of a] Suc.prems(3) show ?thesis by (simp add: bn_sqr_recursive.simps)
    next
      case 3
      then have "bn_sqr_recursive a n2 r = bn_sqr_normal r a n2"
        using True by (simp add: bn_sqr_recursive.simps BN_SQR_RECURSIVE_SIZE_NORMAL_def BN_MUL_RECURSIVE_SIZE_NORMAL_def)
      with bn_sqr_normal_full [of r n2 a] Suc.prems(2,3) show ?thesis by simp
    qed
  next
    case large: False
    define n where "n = n2 div 2"
    have n: "n = 2 ^ k" "n2 = 2 * n" "even n2" using Suc.prems(1) by (simp_all add: n_def)
    define a0 where "a0 = words_val (take n a)"
    define a1 where "a1 = words_val (take n (drop n a))"
    have lens: "n \<le> length a" "n \<le> length (drop n a)" using Suc.prems(3) n(2) by simp_all
    note t0 = bn_abs_sub_words_exact [OF lens, folded a0_def a1_def]
    define t23 where "t23 = bn_sqr_recursive (bn_abs_sub_words a (drop n a) n) n (take n2 r)"
    define lo where "lo = bn_sqr_recursive a n (take n2 r)"
    define hi where "hi = bn_sqr_recursive (drop n a) n (drop n2 r)"
    have rl: "length (take n2 r) = 2 * n" "length (drop n2 r) = 2 * n" using Suc.prems(2) n(2) by simp_all
    have T: "length t23 = 2 * n \<and> words_val t23 = nat_diff a0 a1 * nat_diff a1 a0"
      using Suc.IH [OF n(1) rl(1), of "bn_abs_sub_words a (drop n a) n"] t0
      by (simp add: t23_def nat_diff_def)
    have L: "length lo = 2 * n \<and> words_val lo = a0 * a0"
      using Suc.IH [OF n(1) rl(1) lens(1)] by (simp add: lo_def a0_def)
    have H: "length hi = 2 * n \<and> words_val hi = a1 * a1"
      using Suc.IH [OF n(1) rl(2) lens(2)] by (simp add: hi_def a1_def)
    have eq: "bn_sqr_recursive a n2 r = fst (add_middle n (ct_mask True) t23 (lo @ hi))"
      by (rule bn_sqr_recursive_step [OF large n_def n(3) t23_def]) (use T L H n(2) in \<open>simp_all add: lo_def hi_def\<close>)
    have R: "words_val (take (2 * n) (lo @ hi)) + words_val (drop (2 * n) (lo @ hi)) = a0 * a0 + a1 * a1"
      using L H by simp
    have A: "words_val (take n2 a) = a0 + beta ^ n * a1"
      using lens n(2) by (simp add: mult_2 take_add words_val_append a0_def a1_def)
    have le: "words_val t23 \<le> a0 * a0 + a1 * a1 \<and> a0 * a0 + a1 * a1 - words_val t23 = 2 * (a0 * a1)"
    proof (cases "a0 < a1")
      case True
      then obtain d where "a1 = a0 + d" using less_imp_add_positive by metis
      with True T show ?thesis by (simp add: nat_diff_def algebra_simps)
    next
      case False
      then obtain d where "a0 = a1 + d" by (metis le_Suc_ex not_less)
      with T show ?thesis by (simp add: nat_diff_def algebra_simps)
    qed
    have prod: "words_val (lo @ hi) + beta ^ n * (2 * (a0 * a1)) = words_val (take n2 a) * words_val (take n2 a)"
    proof -
      have "beta ^ (2 * n) = beta ^ n * beta ^ n" by (simp add: mult_2 power_add)
      then show ?thesis using L H by (simp add: A words_val_append) (simp add: algebra_simps)
    qed
    have "words_val (take n2 a) * words_val (take n2 a) < beta ^ n2 * beta ^ n2"
      using words_val_less [of "take n2 a"] Suc.prems(3) by (intro mult_strict_mono) simp_all
    then have fits: "words_val (lo @ hi) + beta ^ n * (2 * (a0 * a1)) < beta ^ (4 * n)"
      unfolding prod n(2) power_add [symmetric] by (simp add: mult.commute)
    have len: "length (lo @ hi) = 4 * n" using L H by simp
    note add_middle_exact [OF len conjunct1 [OF T], of True, unfolded R if_True conjunct2 [OF le]]
    with conjunct1 [OF le] fits prod have "length (fst (add_middle n (ct_mask True) t23 (lo @ hi))) = 2 * n2 \<and>
      words_val (fst (add_middle n (ct_mask True) t23 (lo @ hi))) = words_val (take n2 a) * words_val (take n2 a)"
      by (simp add: n(2))
    then show ?thesis unfolding eq .
  qed
qed

section \<open>Exactness of the products of numbers\<close>

lemma words_val_prefix: "n \<le> length d \<Longrightarrow> words_val d = words_val (take n d) + beta ^ n * words_val (drop n d)"
  using words_val_append [of "take n d" "drop n d"] by simp

text \<open>A product of \<open>la\<close> and \<open>lb\<close> words in a longer array has its value in the first \<open>la + lb\<close> words.\<close>

lemma product_prefix:
  assumes "words_val p = words_val x * words_val y" "length x + length y \<le> length p"
  shows "words_val (take (length x + length y) p) = words_val x * words_val y"
proof -
  let ?n = "length x + length y"
  have "words_val p < beta ^ ?n"
    using words_val_less [of x] words_val_less [of y] assms(1) by (simp add: power_add mult_strict_mono)
  moreover note words_val_prefix [OF assms(2)]
  ultimately have "beta ^ ?n * words_val (drop ?n p) < beta ^ ?n" by linarith
  then have "words_val (drop ?n p) = 0" by simp
  with words_val_prefix [OF assms(2)] assms(1) show ?thesis by simp
qed

text \<open>The result of a product routine written to the array of a number.\<close>

lemma number_of_product:
  assumes "bn_ok e" "length x + length y \<le> length p" "length p \<le> bn_dmax e"
    and "words_val p = words_val x * words_val y"
  shows "bn_ok (e\<lparr>bn_width := length x + length y, bn_d := blit (bn_d e) 0 p\<rparr>) \<and>
    bn_abs (e\<lparr>bn_width := length x + length y, bn_d := blit (bn_d e) 0 p\<rparr>) = words_val x * words_val y"
proof -
  have l: "length (bn_d e) = bn_dmax e" using assms(1) by (simp add: bn_ok_def)
  then have "take (length x + length y) (blit (bn_d e) 0 p) = take (length x + length y) p"
    using assms(2,3) by (simp add: blit_def)
  with product_prefix [OF assms(4,2)] have "words_val (take (length x + length y) (blit (bn_d e) 0 p)) = words_val x * words_val y"
    by simp
  then show ?thesis using assms(1-3) l by (auto simp: bn_ok_def bn_abs_def bn_words_def)
qed

text \<open>The routine is chosen by the lengths; every choice computes the product.\<close>

lemma mul_into_spec:
  assumes "bn_ok a" "bn_ok b" "bn_ok rr" "mul_into mem ctx_t a b rr = (Some u, r')"
  shows "bn_ok r' \<and> bn_abs r' = bn_abs a * bn_abs b \<and> bn_neg r' = (bn_neg a \<noteq> bn_neg b)"
proof -
  define al where "al = bn_width a"
  define bl where "bl = bn_width b"
  define r0 where "r0 = rr\<lparr>bn_neg := (bn_neg a \<noteq> bn_neg b)\<rparr>"
  have ok0: "bn_ok r0" using assms(3) by (simp add: r0_def bn_ok_def)
  have la: "al \<le> length (bn_d a)" and lb: "bl \<le> length (bn_d b)" and small: "al \<le> INT_MAX" "bl \<le> INT_MAX"
    using assms(1,2) by (simp_all add: bn_ok_def al_def bl_def)
  have wa: "bn_words a = take al (bn_d a)" "length (bn_words a) = al" and wb: "bn_words b = take bl (bn_d b)" "length (bn_words b) = bl"
    using la lb by (simp_all add: bn_words_def al_def bl_def)
  have fin: ?thesis
    if e: "bn_wexpand mem k r0 = (Some v, e)" and p: "al + bl \<le> length p" "length p \<le> k"
      "words_val p = words_val (take al (bn_d a)) * words_val (take bl (bn_d b))"
      and r': "r' = e\<lparr>bn_width := al + bl, bn_d := blit (bn_d e) 0 p\<rparr>" for k v e p
  proof -
    note x = bn_wexpand_ok [OF e ok0]
    have "length (bn_words a) + length (bn_words b) \<le> length p" "length p \<le> bn_dmax e"
      "words_val p = words_val (bn_words a) * words_val (bn_words b)"
      using wa wb p x(3) by simp_all
    note n = number_of_product [OF x(1) this, unfolded wa(2) wb(2), folded r']
    show ?thesis using n x(5) by (simp add: r' bn_abs_def [of a] bn_abs_def [of b] r0_def)
  qed
  consider (comba) "al = 8" "bl = 8"
    | (karatsuba) "16 \<le> al" "16 \<le> bl" "al \<le> bl + 1" "bl \<le> al + 1"
    | (normal) "\<not> (int al - int bl = 0 \<and> al = 8)" "\<not> (16 \<le> al \<and> 16 \<le> bl \<and> -1 \<le> int al - int bl \<and> int al - int bl \<le> 1)"
    by linarith
  then show ?thesis
  proof cases
    case comba
    then have "on_ok (bn_wexpand mem 16 r0) (\<lambda>_ rr.
        (Some (), rr\<lparr>bn_width := 16, bn_d := blit (bn_d rr) 0 (bn_mul_comba8 (bn_d a) (bn_d b))\<rparr>)) = (Some u, r')"
      using assms(4) by (simp add: mul_into_def Let_def al_def bl_def r0_def)
    then obtain e where e: "bn_wexpand mem 16 r0 = (Some (), e)"
      and r': "r' = e\<lparr>bn_width := al + bl, bn_d := blit (bn_d e) 0 (bn_mul_comba8 (bn_d a) (bn_d b))\<rparr>"
      using comba by (auto elim: on_ok_unit)
    show ?thesis by (rule fin [OF e _ _ _ r']) (use bn_mul_comba8_prefix [of "bn_d a" "bn_d b"] comba la lb in simp_all)
  next
    case normal
    then have "on_ok (bn_wexpand mem (al + bl) r0) (\<lambda>_ rr.
        (Some (), rr\<lparr>bn_width := al + bl, bn_d := bn_mul_normal (bn_d rr) (bn_d a) al (bn_d b) bl\<rparr>)) = (Some u, r')"
      using assms(4) unfolding mul_into_def Let_def al_def [symmetric] bl_def [symmetric] r0_def [symmetric]
      by (simp only: if_not_P if_False)
    then obtain e where e: "bn_wexpand mem (al + bl) r0 = (Some (), e)"
      and r': "r' = e\<lparr>bn_width := al + bl, bn_d := bn_mul_normal (bn_d e) (bn_d a) al (bn_d b) bl\<rparr>"
      by (auto elim: on_ok_unit)
    note x = bn_wexpand_ok [OF e ok0]
    have "al + bl \<le> length (bn_d e)" using x(1,3) by (simp add: bn_ok_def)
    note m = bn_mul_normal_exact [OF this la lb]
    show ?thesis
      using m x wa wb by (simp add: r' bn_ok_def bn_abs_def bn_words_def [of e] bn_words_def r0_def al_def bl_def)
  next
    case karatsuba
    define w where "w = (if int al - int bl \<ge> 0 then al else bl)"
    define j :: nat where "j = 2 ^ (BN_num_bits_word (of_nat w) - 1)"
    have w: "w = max al bl" by (auto simp: w_def)
    have "unat (of_nat w :: bn_ulong) = w"
      using small by (simp add: w INT_MAX_def unat_of_nat take_bit_eq_mod)
    then have "j = 2 ^ (bit_len w - 1)" by (simp add: j_def BN_num_bits_word_spec)
    moreover have "w \<noteq> 0" "16 \<le> w" using karatsuba w by simp_all
    ultimately have j: "j \<le> w" "w < 2 * j"
      using bit_len_bounds [of w] by (cases "bit_len w"; simp)+
    have jlo: "8 \<le> j" "al < 2 * j" "bl < 2 * j" using j karatsuba w by linarith+
    obtain m where pow: "j = 2 ^ m" by (simp add: j_def)
    have no: "\<not> (int al - int bl = 0 \<and> al = 8)" and yes: "16 \<le> al \<and> 16 \<le> bl \<and> -1 \<le> int al - int bl \<and> int al - int bl \<le> 1"
      using karatsuba by auto
    note eq = assms(4) [unfolded mul_into_def Let_def al_def [symmetric] bl_def [symmetric] r0_def [symmetric]
      w_def [symmetric] j_def [symmetric] if_not_P [OF no] if_P [OF yes]]
    then obtain t where t: "ctx_t = Some t" by (cases ctx_t) simp_all
    show ?thesis
    proof (cases "al > j \<or> bl > j")
      case True
      with eq t obtain e where e: "bn_wexpand mem (j * 4) r0 = (Some (), e)"
        and r': "r' = e\<lparr>bn_width := al + bl, bn_d := blit (bn_d e) 0
          (bn_mul_part_recursive (bn_d a) (bn_d b) j (al - j) (bl - j) (take (4 * j) (bn_d e)))\<rparr>"
        by (auto elim!: on_ok_unit split: prod.splits option.splits)
      have le: "j \<le> al" "j \<le> bl" using True karatsuba by linarith+
      have "length (take (4 * j) (bn_d e)) = 4 * j" using bn_wexpand_ok [OF e ok0] by (simp add: bn_ok_def)
      then have "length (bn_mul_part_recursive (bn_d a) (bn_d b) j (al - j) (bl - j) (take (4 * j) (bn_d e))) = 4 * j \<and>
          words_val (bn_mul_part_recursive (bn_d a) (bn_d b) j (al - j) (bl - j) (take (4 * j) (bn_d e))) =
          words_val (take (j + (al - j)) (bn_d a)) * words_val (take (j + (bl - j)) (bn_d b))"
        using jlo karatsuba le la lb by (intro bn_mul_part_recursive_exact [OF pow]) auto
      then show ?thesis using le jlo by (intro fin [OF e _ _ _ r']) simp_all
    next
      case False
      with eq t obtain e where e: "bn_wexpand mem (j * 2) r0 = (Some (), e)"
        and r': "r' = e\<lparr>bn_width := al + bl, bn_d := blit (bn_d e) 0
          (bn_mul_recursive (bn_d a) (bn_d b) j (int al - int j) (int bl - int j) (take (2 * j) (bn_d e)))\<rparr>"
        by (auto elim!: on_ok_unit split: prod.splits option.splits)
      have le: "al \<le> j" "bl \<le> j" "j \<le> al + 1" "j \<le> bl + 1" using False karatsuba j w by linarith+
      have len: "length (take (2 * j) (bn_d e)) = 2 * j" using bn_wexpand_ok [OF e ok0] by (simp add: bn_ok_def)
      have "length (bn_mul_recursive (bn_d a) (bn_d b) j (int al - int j) (int bl - int j) (take (2 * j) (bn_d e))) = 2 * j \<and>
          words_val (bn_mul_recursive (bn_d a) (bn_d b) j (int al - int j) (int bl - int j) (take (2 * j) (bn_d e))) =
          words_val (take (nat (int j + (int al - int j))) (bn_d a)) * words_val (take (nat (int j + (int bl - int j))) (bn_d b))"
      proof (intro bn_mul_recursive_exact [OF pow _ _ _ _ _ _ len])
        show "- 8 \<le> int al - int j" "- 8 \<le> int bl - int j" using le by linarith+
      qed (use le la lb in simp_all)
      then show ?thesis using le by (intro fin [OF e _ _ _ r']) simp_all
    qed
  qed
qed

lemma bn_int_product:
  "bn_abs r = bn_abs a * bn_abs b \<Longrightarrow> bn_neg r = (bn_neg a \<noteq> bn_neg b) \<Longrightarrow> bn_int r = bn_int a * bn_int b"
  by (auto simp: bn_int_def)

lemma bn_mul_impl_spec:
  assumes "bn_ok a" "bn_ok b" "bn_ok r" "pred_option bn_ok ctx_rr"
    and "bn_mul_impl mem ctx_rr ctx_t alias a b r = (Some u, r')"
  shows "bn_ok r'" "bn_int r' = bn_int a * bn_int b" "bn_abs r' = bn_abs a * bn_abs b"
proof -
  have "bn_ok r' \<and> bn_int r' = bn_int a * bn_int b \<and> bn_abs r' = bn_abs a * bn_abs b"
  proof (cases "bn_width a = 0 \<or> bn_width b = 0")
    case True
    then have "bn_abs a = 0 \<or> bn_abs b = 0" by (auto simp: bn_abs_def bn_words_def)
    moreover have "r' = BN_zero r" using True assms(5) by (simp add: bn_mul_impl_def)
    moreover have "bn_abs (BN_zero r) = 0" by (simp add: BN_zero_def bn_abs_def bn_words_def)
    ultimately show ?thesis using BN_zero_spec(1,2) assms(3) by (auto simp: bn_int_def)
  next
    case nz: False
    show ?thesis
    proof (cases "alias")
      case True
      then obtain rr v f where f: "ctx_rr = Some rr" "mul_into mem ctx_t a b rr = (Some v, f)" "BN_copy mem f r = (Some u, r')"
        using nz assms(5) unfolding bn_mul_impl_def if_not_P [OF nz]
        by (auto split: option.splits prod.splits)
      have "bn_ok rr" using assms(4) f(1) by simp
      note m = mul_into_spec [OF assms(1,2) this f(2)]
      note BN_copy_spec [OF conjunct1 [OF m] assms(3) f(3)]
      with m bn_int_product [of f a b] show ?thesis by simp
    next
      case False
      then have "mul_into mem ctx_t a b r = (Some u, r')"
        using assms(5) unfolding bn_mul_impl_def if_not_P [OF nz] by simp
      from mul_into_spec [OF assms(1-3) this] bn_int_product [of r' a b] show ?thesis by simp
    qed
  qed
  then show "bn_ok r'" "bn_int r' = bn_int a * bn_int b" "bn_abs r' = bn_abs a * bn_abs b" by auto
qed

lemma BN_mul_spec:
  assumes "bn_ok a" "bn_ok b" "bn_ok r" "pred_option bn_ok ctx_rr"
    and "BN_mul mem ctx_rr ctx_t alias a b r = (Some u, r')"
  shows "bn_ok r' \<and> bn_int r' = bn_int a * bn_int b \<and> bn_canonical r'"
proof -
  from assms(5) obtain m where m: "bn_mul_impl mem ctx_rr ctx_t alias a b r = (Some (), m)" "r' = bn_set_minimal_width m"
    by (auto simp: BN_mul_def elim: on_ok_unit)
  note s = bn_mul_impl_spec [OF assms(1-4) m(1)]
  from s bn_set_minimal_width_spec [OF s(1)] show ?thesis by (simp add: m(2))
qed

lemma bn_mul_consttime_spec:
  assumes "bn_ok a" "bn_ok b" "bn_ok r" "pred_option bn_ok ctx_rr"
    and "bn_mul_consttime mem ctx_rr ctx_t alias a b r = (Some u, r')"
  shows "bn_ok r' \<and> bn_int r' = bn_int a * bn_int b \<and> \<not> bn_neg a \<and> \<not> bn_neg b"
  using assms bn_mul_impl_spec [OF assms(1-4)] by (auto simp: bn_mul_consttime_def split: if_splits)

lemma power_of_two_test:
  fixes n :: nat
  assumes "n \<noteq> 0" "n AND (n - 1) = 0"
  shows "\<exists>k. n = 2 ^ k"
proof (rule ccontr)
  assume no: "\<nexists>k. n = 2 ^ k"
  define k where "k = bit_len n - 1"
  have k: "2 ^ k \<le> n" "n < 2 * 2 ^ k"
    using bit_len_bounds [OF assms(1)] by (cases "bit_len n"; simp add: k_def)+
  moreover have "n \<noteq> 2 ^ k" using no by blast
  ultimately have "n div 2 ^ k = 1" "(n - 1) div 2 ^ k = 1"
    by (auto intro!: div_nat_eqI)
  then have "bit n k" "bit (n - 1) k" by (simp_all add: bit_iff_odd)
  then have "bit (n AND (n - 1)) k" by (simp only: bit_and_iff)
  then show False unfolding assms(2) by simp
qed

lemma sqr_into_spec:
  assumes "bn_ok a" "bn_ok rr" "sqr_into mem tmp a rr = (Some u, r')"
  shows "bn_ok r' \<and> bn_abs r' = bn_abs a * bn_abs a \<and> \<not> bn_neg r'"
proof -
  define al where "al = bn_width a"
  have la: "al \<le> length (bn_d a)" using assms(1) by (simp add: bn_ok_def al_def)
  have wa: "bn_words a = take al (bn_d a)" "length (bn_words a) = al" using la by (simp_all add: bn_words_def al_def)
  obtain e where e: "bn_wexpand mem (2 * al) rr = (Some (), e)"
    using assms(3) by (auto simp: sqr_into_def Let_def al_def elim: on_ok_unit)
  note x = bn_wexpand_ok [OF e assms(2)]
  have le: "2 * al \<le> length (bn_d e)" "length (bn_d e) = bn_dmax e" using x(1,3) by (simp_all add: bn_ok_def)
  define good where "good d \<longleftrightarrow> length d = length (bn_d e) \<and> words_val (take (2 * al) d) = bn_abs a * bn_abs a"
    for d
  have fin: "bn_ok r' \<and> bn_abs r' = bn_abs a * bn_abs a \<and> \<not> bn_neg r'"
    if r': "r' = e\<lparr>bn_d := d, bn_neg := False, bn_width := 2 * al\<rparr>" and "good d" for d
  proof -
    have "bn_abs r' = words_val (take (2 * al) d)" by (simp add: r' bn_abs_def bn_words_def)
    with \<open>good d\<close> x(1,3) le show ?thesis by (simp add: good_def) (simp add: r' bn_ok_def)
  qed
  have blit: "good (blit (bn_d e) 0 p)" if "length p = 2 * al" "words_val p = words_val (take al (bn_d a)) * words_val (take al (bn_d a))" for p
    using that le by (simp add: good_def blit_def bn_abs_def wa)
  have normal: "good (bn_sqr_normal (bn_d e) (bn_d a) al)"
    using bn_sqr_normal_exact [OF le(1) la] by (simp add: good_def bn_abs_def wa)
  have rest: "on_ok
             (if al = 4 then (Some (blit (bn_d e) 0 (bn_sqr_comba4 (bn_d a))), e)
              else if al = 8 then (Some (blit (bn_d e) 0 (bn_sqr_comba8 (bn_d a))), e)
              else if al < BN_SQR_RECURSIVE_SIZE_NORMAL then (Some (bn_sqr_normal (bn_d e) (bn_d a) al), e)
              else if al \<noteq> 0 \<and> al AND (al - 1) = 0 then
                (case bn_wexpand mem (al * 4) tmp of
                   (None, _) \<Rightarrow> (None, e)
                 | (Some _, _) \<Rightarrow> (Some (blit (bn_d e) 0 (bn_sqr_recursive (bn_d a) al (take (2 * al) (bn_d e)))), e))
              else
                (case bn_wexpand mem (2 * al) tmp of
                   (None, _) \<Rightarrow> (None, e)
                 | (Some _, _) \<Rightarrow> (Some (bn_sqr_normal (bn_d e) (bn_d a) al), e)))
             (\<lambda>d rr. (Some (), rr\<lparr>bn_d := d, bn_neg := False, bn_width := 2 * al\<rparr>)) = (Some u, r')"
    using assms(3) e unfolding sqr_into_def Let_def al_def [symmetric] by simp
  consider (c4) "al = 4" | (c8) "al = 8" | (small) "al \<noteq> 4" "al \<noteq> 8" "al < BN_SQR_RECURSIVE_SIZE_NORMAL"
    | (pow) "al \<noteq> 4" "al \<noteq> 8" "\<not> al < BN_SQR_RECURSIVE_SIZE_NORMAL" "al \<noteq> 0 \<and> al AND (al - 1) = 0"
    | (large) "al \<noteq> 4" "al \<noteq> 8" "\<not> al < BN_SQR_RECURSIVE_SIZE_NORMAL" "\<not> (al \<noteq> 0 \<and> al AND (al - 1) = 0)"
    by blast
  then show ?thesis
  proof cases
    case c4
    with rest have "r' = e\<lparr>bn_d := blit (bn_d e) 0 (bn_sqr_comba4 (bn_d a)), bn_neg := False, bn_width := 2 * al\<rparr>"
      by simp
    from fin [OF this blit] show ?thesis using bn_sqr_comba4_prefix [of "bn_d a"] c4 la by simp
  next
    case c8
    with rest have "r' = e\<lparr>bn_d := blit (bn_d e) 0 (bn_sqr_comba8 (bn_d a)), bn_neg := False, bn_width := 2 * al\<rparr>"
      by simp
    from fin [OF this blit] show ?thesis using bn_sqr_comba8_prefix [of "bn_d a"] c8 la by simp
  next
    case small
    with rest have "r' = e\<lparr>bn_d := bn_sqr_normal (bn_d e) (bn_d a) al, bn_neg := False, bn_width := 2 * al\<rparr>"
      by simp
    from fin [OF this normal] show ?thesis .
  next
    case pow
    from rest have "r' = e\<lparr>bn_d := blit (bn_d e) 0 (bn_sqr_recursive (bn_d a) al (take (2 * al) (bn_d e))), bn_neg := False, bn_width := 2 * al\<rparr>"
      unfolding if_not_P [OF pow(1)] if_not_P [OF pow(2)] if_not_P [OF pow(3)] if_P [OF pow(4)]
      by (auto split: prod.splits option.splits)
    note f = fin [OF this blit]
    obtain k where "al = 2 ^ k" using power_of_two_test [of al] pow(4) by auto
    from bn_sqr_recursive_exact [OF this _ la, of "take (2 * al) (bn_d e)"] f le show ?thesis by simp
  next
    case large
    from rest have "r' = e\<lparr>bn_d := bn_sqr_normal (bn_d e) (bn_d a) al, bn_neg := False, bn_width := 2 * al\<rparr>"
      unfolding if_not_P [OF large(1)] if_not_P [OF large(2)] if_not_P [OF large(3)] if_not_P [OF large(4)]
      by (auto split: prod.splits option.splits)
    from fin [OF this normal] show ?thesis .
  qed
qed

lemma bn_sqr_consttime_spec:
  assumes "bn_ok a" "bn_ok r" "pred_option bn_ok ctx_rr"
    and "bn_sqr_consttime mem ctx_rr ctx_tmp alias a r = (Some u, r')"
  shows "bn_ok r' \<and> bn_int r' = bn_int a * bn_int a"
proof (cases "bn_width a = 0")
  case True
  then show ?thesis using assms
    by (auto simp: bn_sqr_consttime_def bn_int_def bn_abs_def bn_words_def bn_ok_def)
next
  case False
  then obtain rr tmp where c: "(if \<not> alias then Some r else ctx_rr) = Some rr" "ctx_tmp = Some tmp"
    using assms(4) by (auto simp: bn_sqr_consttime_def split: option.splits if_splits)
  then have rr: "bn_ok rr" using assms(2,3) by (auto split: if_splits)
  obtain v f where f: "sqr_into mem tmp a rr = (Some v, f)" "bn_int r' = bn_int f" "bn_ok f \<Longrightarrow> bn_ok r'"
  proof (cases "alias")
    case True
    then obtain v f where "sqr_into mem tmp a rr = (Some v, f)" "BN_copy mem f r = (Some u, r')"
      using c False assms(4) by (auto simp: bn_sqr_consttime_def split: prod.splits option.splits)
    with BN_copy_spec [OF _ assms(2), of f] sqr_into_spec [OF assms(1) rr] that show thesis by blast
  next
    case False
    with c \<open>bn_width a \<noteq> 0\<close> assms(4) that show thesis by (auto simp: bn_sqr_consttime_def)
  qed
  from sqr_into_spec [OF assms(1) rr f(1)] f show ?thesis by (auto simp: bn_int_def)
qed

lemma BN_sqr_spec:
  assumes "bn_ok a" "bn_ok r" "pred_option bn_ok ctx_rr"
    and "BN_sqr mem ctx_rr ctx_tmp alias a r = (Some u, r')"
  shows "bn_ok r' \<and> bn_int r' = bn_int a * bn_int a \<and> bn_canonical r'"
proof -
  from assms(4) obtain m where m: "bn_sqr_consttime mem ctx_rr ctx_tmp alias a r = (Some (), m)" "r' = bn_set_minimal_width m"
    by (auto simp: BN_sqr_def elim: on_ok_unit)
  note s = bn_sqr_consttime_spec [OF assms(1-3) m(1)]
  from s bn_set_minimal_width_spec [OF conjunct1 [OF s]] show ?thesis by (simp add: m(2))
qed

lemma BN_mul_word_spec:
  assumes "bn_ok a" "BN_mul_word mem w a = (Some u, r)"
  shows "bn_ok r \<and> bn_int r = bn_int a * int (unat w)"
proof -
  consider "bn_width a = 0" | "bn_width a \<noteq> 0" "w = 0" | "bn_width a \<noteq> 0" "w \<noteq> 0" by blast
  then show ?thesis
  proof cases
    case 1
    then show ?thesis using assms by (simp add: BN_mul_word_def bn_int_def bn_abs_def bn_words_def)
  next
    case 2
    then show ?thesis using assms BN_zero_spec by (auto simp: BN_mul_word_def)
  next
    case 3
    obtain ds ll where m: "bn_mul_words (bn_d a) (bn_width a) w = (ds, ll)" by fastforce
    have la: "bn_width a \<le> length (bn_d a)" using assms(1) by (simp add: bn_ok_def)
    note e = bn_mul_words_exact [OF la m]
    define b where "b = a\<lparr>bn_d := blit (bn_d a) 0 ds\<rparr>"
    have b: "bn_ok b" "bn_width b = bn_width a" "bn_neg b = bn_neg a" "bn_words b = ds"
      using assms(1) e(1) la by (simp_all add: b_def bn_ok_def bn_words_def blit_def)
    show ?thesis
    proof (cases "ll = 0")
      case True
      then have "r = b" using assms(2) 3 m by (simp add: BN_mul_word_def b_def)
      with b e(2) True show ?thesis by (simp add: bn_int_def bn_abs_def bn_words_def [of a])
    next
      case False
      then obtain c where c: "bn_wexpand mem (bn_width b + 1) b = (Some (), c)"
        and r: "r = c\<lparr>bn_d := (bn_d c)[bn_width c := ll], bn_width := bn_width c + 1\<rparr>"
        using assms(2) 3 m by (auto simp: BN_mul_word_def simp flip: b_def elim!: on_ok_unit)
      note x = bn_wexpand_ok [OF c b(1)]
      have lc: "bn_width c < length (bn_d c)" using x(1,3,4) by (simp add: bn_ok_def)
      then have "bn_words r = bn_words c @ [ll]"
        by (simp add: r bn_words_def take_Suc_conv_app_nth)
      then have "bn_abs r = words_val (take (bn_width a) (bn_d a)) * unat w"
        using x(2) b e by (simp add: bn_abs_def words_val_append)
      then show ?thesis using x b lc by (auto simp: r bn_int_def bn_ok_def bn_abs_def [of a] bn_words_def [of a])
    qed
  qed
qed

lemma bn_mul_small_spec:
  assumes "length r = num_r" "num_a \<le> length a" "num_b \<le> length b" "bn_mul_small r num_r a num_a b num_b = Some r'"
  shows "length r' = num_r \<and> words_val r' = words_val (take num_a a) * words_val (take num_b b)"
  using bn_mul_comba8_prefix [of a b] bn_mul_normal_exact [of num_a num_b r a b] assms
  by (auto simp: bn_mul_small_def blit_def split: if_splits)

lemma bn_sqr_small_spec:
  assumes "length r = num_r" "num_a \<le> length a" "bn_sqr_small r num_r a num_a = Some r'"
  shows "length r' = num_r \<and> words_val r' = words_val (take num_a a) * words_val (take num_a a)"
  using bn_sqr_comba8_prefix [of a] bn_sqr_comba4_prefix [of a] bn_sqr_normal_full [of r num_a a] assms
  by (auto simp: bn_sqr_small_def blit_def split: if_splits)

section \<open>The absolute difference\<close>

definition bn_abs_sub_consttime ::
  "bn_mem \<Rightarrow> bignum option \<Rightarrow> bignum \<Rightarrow> bignum \<Rightarrow> bignum \<Rightarrow> unit option \<times> bignum" where
  "bn_abs_sub_consttime mem ctx_tmp a b r =
     (let cl = min (bn_width a) (bn_width b);
          dl = int (bn_width a) - int (bn_width b);
          r_len = max (bn_width a) (bn_width b)
      in case ctx_tmp of
           None \<Rightarrow> (None, r)
         | Some tmp \<Rightarrow>
             on_ok (bn_wexpand mem r_len r) (\<lambda>_ r.
               case bn_wexpand mem r_len tmp of
                 (None, _) \<Rightarrow> (None, r)
               | (Some _, _) \<Rightarrow>
                   (Some (), r\<lparr>bn_d := blit (bn_d r) 0 (fst (bn_abs_sub_part_words (bn_d a) (bn_d b) cl dl)),
                               bn_width := r_len\<rparr>)))"

text \<open>The sign of the target is not set.\<close>

lemma bn_abs_sub_consttime_spec:
  assumes "bn_ok a" "bn_ok b" "bn_ok r" "bn_abs_sub_consttime mem ctx_tmp a b r = (Some u, r')"
  shows "bn_ok r' \<and> bn_abs r' = nat_diff (bn_abs a) (bn_abs b) \<and> bn_neg r' = bn_neg r"
proof -
  define cl where "cl = min (bn_width a) (bn_width b)"
  define dl where "dl = int (bn_width a) - int (bn_width b)"
  define n where "n = max (bn_width a) (bn_width b)"
  have w: "cl + nat dl = bn_width a" "cl + nat (- dl) = bn_width b" "cl + nat \<bar>dl\<bar> = n"
    by (auto simp: cl_def dl_def n_def)
  have "cl + nat dl \<le> length (bn_d a)" "cl + nat (- dl) \<le> length (bn_d b)"
    using assms(1,2) w by (simp_all add: bn_ok_def)
  note x = bn_abs_sub_part_words_exact [OF this surjective_pairing, unfolded w]
  obtain e where e: "bn_wexpand mem n r = (Some (), e)"
    and r': "r' = e\<lparr>bn_d := blit (bn_d e) 0 (fst (bn_abs_sub_part_words (bn_d a) (bn_d b) cl dl)), bn_width := n\<rparr>"
    using assms(4) unfolding bn_abs_sub_consttime_def Let_def cl_def [symmetric] dl_def [symmetric] n_def [symmetric]
    by (auto elim!: on_ok_unit split: option.splits prod.splits)
  note we = bn_wexpand_ok [OF e assms(3)]
  show ?thesis
    using x we by (auto simp: r' bn_ok_def bn_abs_def bn_words_def words_val_blit)
qed

end
