(* ===== verification/BnWorks.thy ===== *)
theory BnWorks
  imports BnSqr BnBytes
begin

text \<open>
  The operations on big numbers return a result whenever there is room for it: memory, a block
  that may be replaced, and a size within the limit of \<open>bn_wexpand\<close>.
\<close>

definition bn_room :: "bn_mem \<Rightarrow> nat \<Rightarrow> bignum \<Rightarrow> bool" where
  "bn_room mem words bn \<longleftrightarrow> words \<le> INT_MAX div 256 \<and> \<not> bn_static bn \<and> (\<forall>n. mem n \<noteq> None)"

lemma bn_room_update [simp]:
  "bn_room mem n (bn\<lparr>bn_neg := x\<rparr>) = bn_room mem n bn"
  "bn_room mem n (bn\<lparr>bn_width := w\<rparr>) = bn_room mem n bn"
  "bn_room mem n (bn\<lparr>bn_d := d\<rparr>) = bn_room mem n bn"
  by (simp_all add: bn_room_def)

lemma bn_room_minimal [simp]: "bn_room mem n (bn_set_minimal_width bn) = bn_room mem n bn"
  by (simp add: bn_set_minimal_width_def Let_def)

definition succeeds :: "'a option \<times> 's \<Rightarrow> bool" where
  "succeeds m \<longleftrightarrow> fst m \<noteq> None"

lemma succeeds_Some [simp]: "succeeds (Some x, s)"
  by (simp add: succeeds_def)

lemma bn_wexpand_room:
  assumes "bn_room mem n bn" "words \<le> n"
  shows "succeeds (bn_wexpand mem words bn)"
proof -
  have "words \<le> INT_MAX div 256" "\<not> bn_static bn" "\<And>n. mem n \<noteq> None"
    using assms by (auto simp: bn_room_def)
  then obtain bn' where "bn_wexpand mem words bn = (Some (), bn')" by (metis bn_wexpand_works)
  then show ?thesis by simp
qed

lemma bn_wexpand_static: "bn_wexpand mem words bn = (u, bn') \<Longrightarrow> bn_static bn' = bn_static bn"
  by (auto simp: bn_wexpand_def split: if_splits option.splits)

lemma bn_wexpand_keeps_room: "bn_wexpand mem words bn = (u, bn') \<Longrightarrow> bn_room mem n bn' = bn_room mem n bn"
  using bn_wexpand_static by (auto simp: bn_room_def)

lemma on_ok_works:
  "succeeds m \<Longrightarrow> (\<And>a s. m = (Some a, s) \<Longrightarrow> succeeds (k a s)) \<Longrightarrow> succeeds (on_ok m k)"
  by (cases "(m, k)" rule: on_ok.cases) (auto simp: succeeds_def)

lemma expand_then_works:
  "bn_room mem n bn \<Longrightarrow> words \<le> n \<Longrightarrow> (\<And>s. bn_room mem n s \<Longrightarrow> succeeds (k () s)) \<Longrightarrow>
   succeeds (on_ok (bn_wexpand mem words bn) k)"
  by (intro on_ok_works bn_wexpand_room) (auto dest: bn_wexpand_keeps_room)

lemma works: "succeeds m \<Longrightarrow> \<exists>s. m = (Some (), s)" for m :: "unit option \<times> 's"
  by (cases m) (auto simp: succeeds_def)

lemma exact_or_no_room:
  fixes m :: "unit option \<times> 's"
  assumes "\<And>s. m = (Some (), s) \<Longrightarrow> P s" "R \<Longrightarrow> succeeds m"
  shows "case m of (Some _, s) \<Rightarrow> P s | (None, _) \<Rightarrow> \<not> R"
  using assms by (cases m; cases "fst m") (auto simp: succeeds_def)

section \<open>Assignment\<close>

lemma BN_copy_room: "bn_room mem n dest \<Longrightarrow> bn_width src \<le> n \<Longrightarrow> succeeds (BN_copy mem src dest)"
  unfolding BN_copy_def by (rule expand_then_works) auto

lemma BN_set_word_room: "bn_room mem n bn \<Longrightarrow> 1 \<le> n \<Longrightarrow> succeeds (BN_set_word mem w bn)"
  unfolding BN_set_word_def by (auto simp: BN_zero_def intro!: expand_then_works [where n = n])

section \<open>Addition\<close>

lemma BN_uadd_room:
  assumes "bn_room mem n r" "max (bn_width a) (bn_width b) + 1 \<le> n"
  shows "succeeds (BN_uadd mem a b r)"
proof -
  have "succeeds (bn_uadd_consttime mem a b r)"
    using assms unfolding bn_uadd_consttime_def Let_def
    by (auto simp: max_def split: if_splits prod.splits intro!: expand_then_works [where n = n])
  then show ?thesis unfolding BN_uadd_def by (rule on_ok_works) simp
qed

lemma BN_usub_room:
  assumes "bn_ok a" "bn_ok b" "bn_ok r" "bn_room mem n r" "bn_width a \<le> n" "bn_abs b \<le> bn_abs a"
  shows "succeeds (BN_usub mem a b r)"
proof (rule ccontr)
  assume "\<not> succeeds (BN_usub mem a b r)"
  then obtain r' where "BN_usub mem a b r = (None, r')" by (cases "BN_usub mem a b r"; cases "fst (BN_usub mem a b r)") (simp_all add: succeeds_def)
  from BN_usub_fails [OF assms(1-3) this assms(6)] bn_wexpand_room [OF assms(4,5)] show False
    by (simp add: succeeds_def)
qed

lemma BN_diff_room:
  assumes "bn_ok a" "bn_ok b" "bn_ok r" "bn_room mem n r" "max (bn_width a) (bn_width b) \<le> n"
  shows "succeeds (BN_diff mem a b r)"
proof (cases "sint (BN_ucmp a b) < 0")
  case True
  then have "bn_abs a \<le> bn_abs b" using BN_ucmp_spec [OF assms(1,2)] by (auto simp: cmp_is_def split: if_splits)
  then show ?thesis
    using True assms BN_usub_room [of b a r mem n] unfolding BN_diff_def if_P [OF True] by (intro on_ok_works) auto
next
  case False
  then have "bn_abs b \<le> bn_abs a" using BN_ucmp_spec [OF assms(1,2)] by (auto simp: cmp_is_def split: if_splits)
  then show ?thesis
    using False assms BN_usub_room [of a b r mem n] unfolding BN_diff_def if_not_P [OF False] by (intro on_ok_works) auto
qed

lemma BN_add_room:
  assumes "bn_ok a" "bn_ok b" "bn_ok r" "bn_room mem n r" "max (bn_width a) (bn_width b) + 1 \<le> n"
  shows "succeeds (BN_add mem a b r)"
  using assms BN_uadd_room [of mem n r a b] BN_diff_room [of a b r mem n] BN_diff_room [of b a r mem n]
  by (auto simp: BN_add_def max_def succeeds_def split: prod.splits if_splits)

lemma BN_sub_room:
  assumes "bn_ok a" "bn_ok b" "bn_ok r" "bn_room mem n r" "max (bn_width a) (bn_width b) + 1 \<le> n"
  shows "succeeds (BN_sub mem a b r)"
  using assms BN_uadd_room [of mem n r a b] BN_diff_room [of a b r mem n] BN_diff_room [of b a r mem n]
  by (auto simp: BN_sub_def max_def split: if_splits intro!: on_ok_works)

section \<open>Shifts\<close>

lemma BN_lshift_room:
  assumes "bn_room mem n r" "bn_width a + nat k div 64 + 1 \<le> n" "0 \<le> k"
  shows "succeeds (BN_lshift mem a k r)"
  using assms unfolding BN_lshift_def Let_def by (auto intro!: expand_then_works [where n = n])

lemma BN_rshift_room:
  assumes "bn_room mem n r" "bn_width a \<le> n" "0 \<le> k"
  shows "succeeds (BN_rshift mem a k r)"
  using assms unfolding BN_rshift_def Let_def by (auto intro!: expand_then_works [where n = n])

section \<open>Multiplication\<close>

lemma mul_into_room:
  assumes "bn_room mem n rr" "pred_option (bn_room mem n) ctx_t" "ctx_t \<noteq> None" "8 * (bn_width a + bn_width b) \<le> n"
    and "bn_width a \<noteq> 0" "bn_width b \<noteq> 0" "bn_ok a" "bn_ok b"
  shows "succeeds (mul_into mem ctx_t a b rr)"
proof -
  obtain t where t: "ctx_t = Some t" "bn_room mem n t" using assms(2,3) by auto
  define w where "w = (if int (bn_width a) - int (bn_width b) \<ge> 0 then bn_width a else bn_width b)"
  define j :: nat where "j = 2 ^ (BN_num_bits_word (of_nat w) - 1)"
  have w0: "w \<noteq> 0" "w \<le> INT_MAX" "w \<le> bn_width a + bn_width b" using assms(5-8) by (auto simp: w_def bn_ok_def)
  have "unat (of_nat w :: bn_ulong) = w"
    using w0(2) by (simp add: INT_MAX_def unat_of_nat take_bit_eq_mod)
  then have "j \<le> w" using bit_len_bounds [OF w0(1)] by (simp add: j_def BN_num_bits_word_spec)
  then have n: "j * 8 \<le> n" "j * 4 \<le> n" "j * 2 \<le> n" "16 \<le> n \<or> bn_width a \<noteq> 8" "bn_width a + bn_width b \<le> n"
    using assms(4) w0(3) by auto
  obtain t8 where t8: "bn_wexpand mem (j * 8) t = (Some (), t8)" using works [OF bn_wexpand_room [OF t(2) n(1)]] by blast
  obtain t4 where t4: "bn_wexpand mem (j * 4) t = (Some (), t4)" using works [OF bn_wexpand_room [OF t(2) n(2)]] by blast
  show ?thesis
    unfolding mul_into_def Let_def w_def [symmetric] j_def [symmetric] t(1) option.case t8 t4 prod.case
    using assms(1) n by (auto intro!: expand_then_works [where n = n])
qed

lemma mul_into_width: "mul_into mem ctx_t a b rr = (Some u, r') \<Longrightarrow> bn_width r' = bn_width a + bn_width b"
  by (auto simp: mul_into_def Let_def elim!: on_ok_unit split: if_splits option.splits prod.splits)

lemma BN_mul_room:
  assumes "bn_room mem n r" "pred_option (bn_room mem n) ctx_rr" "pred_option (bn_room mem n) ctx_t"
    and "alias \<longrightarrow> ctx_rr \<noteq> None" "ctx_t \<noteq> None" "8 * (bn_width a + bn_width b) \<le> n" "bn_ok a" "bn_ok b"
  shows "succeeds (BN_mul mem ctx_rr ctx_t alias a b r)"
proof -
  have "succeeds (bn_mul_impl mem ctx_rr ctx_t alias a b r)"
  proof (cases "bn_width a = 0 \<or> bn_width b = 0")
    case True
    then show ?thesis by (simp add: bn_mul_impl_def)
  next
    case nz: False
    note m = mul_into_room [OF _ assms(3,5,6)]
    show ?thesis
    proof (cases "alias")
      case True
      then obtain rr where rr: "ctx_rr = Some rr" "bn_room mem n rr" using assms(2,4) by auto
      then obtain f where f: "mul_into mem ctx_t a b rr = (Some (), f)"
        using works [OF m] nz assms(7,8) by blast
      have "bn_width f \<le> n" using mul_into_width [OF f] assms(6) by simp
      then show ?thesis
        using nz True rr f BN_copy_room [OF assms(1), of f] by (simp add: bn_mul_impl_def)
    next
      case False
      then show ?thesis using nz m [OF assms(1)] assms(7,8) by (simp add: bn_mul_impl_def)
    qed
  qed
  then show ?thesis unfolding BN_mul_def by (rule on_ok_works) simp
qed

lemma sqr_into_room:
  assumes "bn_room mem n rr" "bn_room mem n tmp" "4 * bn_width a \<le> n"
  shows "succeeds (sqr_into mem tmp a rr)"
proof -
  have n: "bn_width a * 4 \<le> n" "2 * bn_width a \<le> n" using assms(3) by simp_all
  obtain t4 where t4: "bn_wexpand mem (bn_width a * 4) tmp = (Some (), t4)"
    using works [OF bn_wexpand_room [OF assms(2) n(1)]] by blast
  obtain t2 where t2: "bn_wexpand mem (2 * bn_width a) tmp = (Some (), t2)"
    using works [OF bn_wexpand_room [OF assms(2) n(2)]] by blast
  show ?thesis
    unfolding sqr_into_def Let_def t2 t4 option.case prod.case
    using assms(1) n by (intro expand_then_works [where n = n] on_ok_works) auto
qed

lemma sqr_into_width: "sqr_into mem tmp a rr = (Some u, r') \<Longrightarrow> bn_width r' = 2 * bn_width a"
  unfolding sqr_into_def Let_def by (elim on_ok_unit) (auto simp: on_ok_Some)

lemma BN_sqr_room:
  assumes "bn_room mem n r" "pred_option (bn_room mem n) ctx_rr" "pred_option (bn_room mem n) ctx_tmp"
    and "alias \<longrightarrow> ctx_rr \<noteq> None" "ctx_tmp \<noteq> None" "4 * bn_width a \<le> n"
  shows "succeeds (BN_sqr mem ctx_rr ctx_tmp alias a r)"
proof -
  obtain tmp where t: "ctx_tmp = Some tmp" "bn_room mem n tmp" using assms(3,5) by auto
  have "succeeds (bn_sqr_consttime mem ctx_rr ctx_tmp alias a r)"
  proof (cases "alias")
    case True
    then obtain rr where rr: "ctx_rr = Some rr" "bn_room mem n rr" using assms(2,4) by auto
    then obtain f where f: "sqr_into mem tmp a rr = (Some (), f)"
      using works [OF sqr_into_room [OF _ t(2) assms(6)]] by blast
    have "bn_width f \<le> n" using sqr_into_width [OF f] assms(6) by simp
    then show ?thesis
      using True rr f t BN_copy_room [OF assms(1), of f] by (simp add: bn_sqr_consttime_def)
  next
    case False
    then show ?thesis using sqr_into_room [OF assms(1) t(2) assms(6)] t(1) by (simp add: bn_sqr_consttime_def)
  qed
  then show ?thesis unfolding BN_sqr_def by (rule on_ok_works) simp
qed

end
