(* ===== verification/BnDiv.thy ===== *)
theory BnDiv
  imports BnWorks "HOL-Library.Signed_Division"
begin

text \<open>
  Division of big numbers: the first part of \<open>crypto/fipsmodule/bn/div.c\<close>. \<open>BN_div\<close> is Knuth's
  algorithm D: both operands are shifted so that the top bit of the divisor is set, each word of
  the quotient is estimated from three words of the window and two of the divisor, and a negative
  difference is corrected once. The context is the list of the numbers that \<open>BN_CTX_get\<close> returns,
  after which it returns \<open>NULL\<close>.
\<close>

section \<open>One word of the quotient\<close>

definition join_words :: "bn_ulong \<Rightarrow> bn_ulong \<Rightarrow> bn_ullong" where
  "join_words h l = push_bit 64 (wide h) OR wide l"

text \<open>A divisor of zero traps in the code; it does not occur.\<close>

definition bn_div_rem_words :: "bn_ulong \<Rightarrow> bn_ulong \<Rightarrow> bn_ulong \<Rightarrow> bn_ulong \<times> bn_ulong" where
  "bn_div_rem_words n0 n1 d0 =
     (let q = Lw (join_words n0 n1 div wide d0) in (q, n1 - q * d0))"

lemma no_overflow_increases:
  fixes rm d0 :: bn_ulong
  assumes "\<not> rm + d0 < d0" "d0 \<noteq> 0"
  shows "unat (rm + d0) = unat rm + unat d0" "unat rm < unat (rm + d0)"
proof -
  show "unat (rm + d0) = unat rm + unat d0"
    using assms(1) unat_less_beta [of "rm + d0"] unat_less_beta [of rm]
    by (simp add: word_less_nat_alt unat_word_ariths beta_def mod_if split: if_splits)
  then show "unat rm < unat (rm + d0)" using assms(2) unat_pos [of d0] by simp
qed

text \<open>The correction with the second word; for \<open>d0 = 0\<close> the division before would have trapped.\<close>

function fix_quotient ::
  "bn_ulong \<Rightarrow> bn_ulong \<Rightarrow> bn_ulong \<Rightarrow> bn_ulong \<Rightarrow> bn_ulong \<Rightarrow> bn_ullong \<Rightarrow> bn_ulong" where
  "fix_quotient d0 d1 n2 q rm t2 =
     (if t2 \<le> join_words rm n2 then q
      else let q = q - 1; rm = rm + d0
           in if rm < d0 \<or> d0 = 0 then q else fix_quotient d0 d1 n2 q rm (t2 - wide d1))"
  by pat_completeness auto

termination
proof (relation "measure (\<lambda>(d0, d1, n2, q, rm, t2). beta - unat rm)", goal_cases)
  case (2 d0 d1 n2 q rm t2 q' rm')
  then have "unat rm < unat rm'" using no_overflow_increases [of rm d0] by simp
  then have "beta - unat rm' < beta - unat rm" using unat_less_beta [of rm'] by linarith
  then show ?case by simp
qed simp

declare fix_quotient.simps [simp del]

definition div_quotient ::
  "bn_ulong \<Rightarrow> bn_ulong \<Rightarrow> bn_ulong \<Rightarrow> bn_ulong \<Rightarrow> bn_ulong \<Rightarrow> bn_ulong" where
  "div_quotient n0 n1 n2 d0 d1 =
     (if n0 = d0 then - 1
      else let (q, rm) = bn_div_rem_words n0 n1 d0 in fix_quotient d0 d1 n2 q rm (wide d1 * wide q))"

text \<open>
  One round: \<open>s\<close> is the dividend, of which \<open>n + 1\<close> words from \<open>j\<close> on are the window, \<open>dv\<close> the divisor.
\<close>

definition div_step ::
  "bn_ulong list \<Rightarrow> nat \<Rightarrow> bn_ulong \<Rightarrow> bn_ulong \<Rightarrow> nat \<Rightarrow> bn_ulong list \<Rightarrow> bn_ulong \<times> bn_ulong list" where
  "div_step dv n d0 d1 j s =
     (let p = j + n;
          q = div_quotient (s ! p) (s ! (p - 1)) (s ! (p - 2)) d0 d1;
          (tmp, l0) = bn_mul_words dv n q;
          (w, bw) = bn_sub_words (drop j s) (tmp @ [l0]) (n + 1);
          s = blit s j w
      in if bw \<noteq> 0 then
           let (w, c) = bn_add_words (drop j s) dv n; s = blit s j w
           in (q - 1, if c \<noteq> 0 then s[p := s ! p + 1] else s)
         else (q, s))"

fun div_loop ::
  "bn_ulong list \<Rightarrow> nat \<Rightarrow> bn_ulong \<Rightarrow> bn_ulong \<Rightarrow> nat \<Rightarrow> bn_ulong list \<Rightarrow> bn_ulong list \<Rightarrow> bn_ulong list \<times> bn_ulong list" where
  "div_loop dv n d0 d1 0 s r = (s, r)"
| "div_loop dv n d0 d1 (Suc k) s r =
     (let (q, s) = div_step dv n d0 d1 (Suc k) s in div_loop dv n d0 d1 k s (r[k := q]))"

section \<open>Exactness of a word of the quotient\<close>

lemma unat_join_words: "unat (join_words h l) = beta * unat h + unat l"
proof -
  have "join_words h l = push_bit 64 (wide h) + wide l"
    unfolding join_words_def
    by (rule disjunctive_add_eq_or [symmetric], rule bit_word_eqI)
      (auto simp: bit_simps wide_def dest: bit_imp_le_length)
  moreover have "unat (push_bit 64 (wide h)) = beta * unat h"
  proof -
    have "beta * unat h < beta * beta" using unat_less_beta by simp
    then show ?thesis
      by (simp add: push_bit_eq_mult unat_word_ariths beta_def mult.commute)
  qed
  moreover have "beta * unat h + unat l < beta * beta"
  proof -
    have "beta * unat h + unat l < beta * unat h + beta" by simp
    also have "\<dots> = beta * Suc (unat h)" by simp
    also have "\<dots> \<le> beta * beta" using unat_less_beta [of h] by (intro mult_le_mono2) (simp only: Suc_le_eq)
    finally show ?thesis .
  qed
  ultimately show ?thesis by (simp add: unat_add_128)
qed

lemma bn_div_rem_words_spec:
  assumes "n0 < d0" "bn_div_rem_words n0 n1 d0 = (q, rm)"
  shows "unat q = (beta * unat n0 + unat n1) div unat d0 \<and> unat rm = (beta * unat n0 + unat n1) mod unat d0"
proof -
  let ?n = "beta * unat n0 + unat n1"
  have d: "unat n0 < unat d0" "0 < unat d0" using assms(1) by (simp_all add: word_less_nat_alt)
  have "?n < beta * unat n0 + beta" by simp
  also have "\<dots> = beta * Suc (unat n0)" by simp
  also have "\<dots> \<le> beta * unat d0" using d(1) by (intro mult_le_mono2) simp
  finally have "?n div unat d0 < beta" by (simp add: less_mult_imp_div_less)
  then have q: "unat q = ?n div unat d0"
    using assms(2) by (auto simp: bn_div_rem_words_def Let_def unat_Lw unat_div unat_join_words)
  have "unat (of_nat ?n :: bn_ulong) = ?n mod beta"
    by (simp add: unat_of_nat take_bit_eq_mod beta_def del: of_nat_add of_nat_mult)
  then have n1: "of_nat ?n = n1" by (simp add: word_unat_eq_iff)
  have "rm = n1 - q * d0" using assms(2) by (auto simp: bn_div_rem_words_def Let_def)
  also have "\<dots> = of_nat ?n - of_nat (?n div unat d0 * unat d0)"
    by (simp only: n1 of_nat_mult q [symmetric]) simp
  also have "\<dots> = of_nat (?n - ?n div unat d0 * unat d0)" by (simp add: of_nat_diff)
  also have "?n - ?n div unat d0 * unat d0 = ?n mod unat d0" by (simp add: minus_div_mult_eq_mod)
  finally have "rm = of_nat (?n mod unat d0)" .
  moreover have "?n mod unat d0 < beta" using d(2) unat_less_beta [of d0] by (metis mod_less_divisor less_trans)
  ultimately have "unat rm = ?n mod unat d0" by (simp add: unat_of_nat take_bit_eq_mod beta_def)
  with q show ?thesis by simp
qed

text \<open>The correction finds the quotient of three words by two, or keeps a smaller estimate.\<close>

lemma fix_quotient_spec:
  fixes d0 d1 n2 q rm :: bn_ulong
  assumes "unat t2 = unat q * unat d1" "d0 \<noteq> 0"
  shows "unat (fix_quotient d0 d1 n2 q rm t2) =
    min (unat q) ((beta * (unat rm + unat q * unat d0) + unat n2) div (beta * unat d0 + unat d1))"
  using assms
proof (induction d0 d1 n2 q rm t2 rule: fix_quotient.induct)
  case (1 d0 d1 n2 q rm t2)
  define B where "B = beta * unat d0 + unat d1"
  define A where "A = beta * (unat rm + unat q * unat d0) + unat n2"
  have B0: "0 < B" using 1(3) unat_pos [of d0] by (simp add: B_def)
  have test: "t2 \<le> join_words rm n2 \<longleftrightarrow> unat q * B \<le> A"
    using 1(2) by (simp add: word_le_nat_alt unat_join_words A_def B_def algebra_simps)
  show ?case
  proof (cases "t2 \<le> join_words rm n2")
    case True
    then have "unat q \<le> A div B" using test B0 by (simp add: less_eq_div_iff_mult_less_eq)
    with True show ?thesis
      by (simp add: fix_quotient.simps [of d0 d1 n2 q rm t2] flip: A_def B_def)
  next
    case False
    then have AB: "A div B < unat q" using test B0 by (simp add: div_less_iff_less_mult)
    then have q0: "0 < unat q" by simp
    then have uq: "unat (q - 1) = unat q - 1" "q \<noteq> 0" by (simp_all add: unat_minus_one unat_pos)
    have d1: "unat d1 \<le> unat t2" using 1(2) q0 by simp
    have t2: "unat (t2 - wide d1) = unat (q - 1) * unat d1"
    proof -
      have "unat (t2 - wide d1) = unat t2 - unat d1"
        using d1 unat_sub_if' [of t2 "wide d1"] by simp
      then show ?thesis by (simp add: 1(2) uq diff_mult_distrib)
    qed
    obtain k where k: "unat q = Suc k" using q0 gr0_implies_Suc by blast
    show ?thesis
    proof (cases "rm + d0 < d0")
      case True
      have "beta \<le> unat rm + unat d0"
        using True unat_less_beta [of rm] unat_less_beta [of d0]
        by (simp add: word_less_nat_alt unat_word_ariths beta_def mod_if split: if_splits)
      then have "beta * beta \<le> beta * (unat rm + unat d0)" by (rule mult_le_mono2)
      moreover have "k * unat d1 \<le> beta * beta"
        using k unat_less_beta [of q] unat_less_beta [of d1] by (intro mult_le_mono) linarith+
      ultimately have "k * B \<le> A" by (simp add: A_def B_def k algebra_simps)
      then have "k \<le> A div B" using B0 by (simp add: less_eq_div_iff_mult_less_eq)
      then have "A div B = k" using AB k by simp
      moreover have "fix_quotient d0 d1 n2 q rm t2 = q - 1"
        using False True by (simp add: fix_quotient.simps [of d0 d1 n2 q rm t2])
      ultimately show ?thesis unfolding A_def [symmetric] B_def [symmetric] using uq k by simp
    next
      case no: False
      have rm': "unat (rm + d0) = unat rm + unat d0"
        using no_overflow_increases(1) [OF no 1(3)] .
      have A': "beta * (unat (rm + d0) + unat (q - 1) * unat d0) + unat n2 = A"
        by (simp add: rm' uq k A_def)
      have "unat (fix_quotient d0 d1 n2 (q - 1) (rm + d0) (t2 - wide d1)) = min (unat (q - 1)) (A div B)"
        using 1(1) [OF False refl refl _ t2 1(3)] no 1(3) unfolding A' by (simp flip: B_def)
      moreover have "fix_quotient d0 d1 n2 q rm t2 = fix_quotient d0 d1 n2 (q - 1) (rm + d0) (t2 - wide d1)"
        using False no 1(3) by (simp add: fix_quotient.simps [of d0 d1 n2 q rm t2])
      ultimately show ?thesis unfolding A_def [symmetric] B_def [symmetric] using AB uq k by simp
    qed
  qed
qed

lemma div_quotient_spec:
  assumes "unat n0 \<le> unat d0" "d0 \<noteq> 0"
  shows "unat (div_quotient n0 n1 n2 d0 d1) =
    (if n0 = d0 then beta - 1
     else (beta * (beta * unat n0 + unat n1) + unat n2) div (beta * unat d0 + unat d1))"
proof (cases "n0 = d0")
  case True
  then show ?thesis by (simp add: div_quotient_def unsigned_minus_1_eq_mask mask_eq_exp_minus_1 beta_def)
next
  case False
  then have less: "n0 < d0" using assms(1) by (simp add: word_less_nat_alt le_less word_unat_eq_iff)
  define N where "N = beta * unat n0 + unat n1"
  define B where "B = beta * unat d0 + unat d1"
  obtain q rm where qr: "bn_div_rem_words n0 n1 d0 = (q, rm)" by fastforce
  note d = bn_div_rem_words_spec [OF less qr, folded N_def]
  have N: "unat rm + unat q * unat d0 = N" using d by simp
  have "unat (wide d1 * wide q) = unat q * unat d1" using product_less(1) [of d1 q] by (simp add: mult.commute)
  from fix_quotient_spec [OF this assms(2), of n2 rm]
  have "unat (div_quotient n0 n1 n2 d0 d1) = min (unat q) ((beta * N + unat n2) div B)"
    using False qr by (simp add: div_quotient_def N B_def)
  moreover have "(beta * N + unat n2) div B \<le> unat q"
  proof -
    let ?Q = "(beta * N + unat n2) div B"
    have "?Q * B \<le> beta * N + unat n2" by simp
    also have "\<dots> < beta * (N + 1)" by simp
    finally have "beta * (?Q * unat d0) < beta * (N + 1)" by (simp add: B_def algebra_simps)
    then have "?Q * unat d0 \<le> N" unfolding mult_less_cancel1 by simp
    then show ?thesis using d assms(2) unat_pos [of d0] by (simp add: less_eq_div_iff_mult_less_eq)
  qed
  ultimately show ?thesis using False by (simp add: N_def B_def)
qed

section \<open>The estimate is at most one too large\<close>

text \<open>Knuth's bounds, for three words \<open>A\<close> of the dividend by two words \<open>B\<close> of the divisor.\<close>

lemma estimate_3_by_2:
  fixes A B k u d :: nat
  assumes "u < k" "d < k" "A div B \<le> B + 1" "0 < B"
  shows "(A * k + u) div (B * k + d) \<le> A div B" "A div B \<le> (A * k + u) div (B * k + d) + 1"
proof -
  let ?U = "A * k + u" and ?D = "B * k + d"
  have k: "0 < k" using assms(1) by simp
  show "?U div ?D \<le> A div B"
  proof -
    let ?t = "?U div ?D"
    have "?t * (B * k) \<le> ?t * ?D" by simp
    also have "\<dots> \<le> ?U" by (rule div_times_less_eq_dividend)
    also have "\<dots> < (A + 1) * k" using assms(1) by simp
    finally have "(?t * B) * k < (A + 1) * k" by (simp add: mult.assoc)
    then have "?t * B < A + 1" unfolding mult_less_cancel2 by simp
    then show ?thesis using assms(4) by (simp add: less_eq_div_iff_mult_less_eq)
  qed
  show "A div B \<le> ?U div ?D + 1"
  proof (cases "A div B")
    case (Suc q)
    have "q * ?D = q * B * k + q * d" by (simp add: algebra_simps)
    also have "\<dots> \<le> q * B * k + q * k" using assms(2) by simp
    also have "\<dots> \<le> q * B * k + B * k"
    proof -
      have "q \<le> B" using assms(3) Suc by simp
      then show ?thesis by simp
    qed
    also have "\<dots> = Suc q * B * k" by (simp add: algebra_simps)
    also have "\<dots> \<le> A * k"
    proof -
      have "Suc q * B \<le> A" unfolding Suc [symmetric] by (rule div_times_less_eq_dividend)
      then show ?thesis by (rule mult_le_mono1)
    qed
    also have "\<dots> \<le> ?U" by simp
    finally have "q \<le> ?U div ?D" using assms(4) k by (simp add: less_eq_div_iff_mult_less_eq)
    with Suc show ?thesis by simp
  qed simp
qed

lemma estimate_saturated:
  fixes d0 :: nat
  assumes "d0 * b * k \<le> U" "D < (d0 + 1) * k" "U < b * D" "b \<le> 2 * d0" "2 \<le> b"
  shows "U div D \<le> b - 1" "b - 1 \<le> U div D + 1"
proof -
  have D: "0 < D" using assms(3) by (cases D) simp_all
  have "U div D < b" using assms(3) D by (simp only: div_less_iff_less_mult)
  then show "U div D \<le> b - 1" by linarith
  obtain c where b: "b = c + 2" using assms(5) le_Suc_ex by (metis add.commute)
  have "c * D \<le> c * ((d0 + 1) * k)" using assms(2) by simp
  also have "\<dots> = (c * d0 + c) * k" by (simp add: algebra_simps)
  also have "\<dots> \<le> (d0 * b) * k" using assms(4) by (intro mult_le_mono1) (simp add: b algebra_simps)
  also have "\<dots> \<le> U" by (rule assms(1))
  finally have "c \<le> U div D" using D by (simp add: less_eq_div_iff_mult_less_eq)
  then show "b - 1 \<le> U div D + 1" by (simp add: b)
qed

lemma quotient_estimate:
  assumes "n < length l" "n \<le> length dv" "1 \<le> n" "beta \<le> 2 * unat (dv ! (n - 1))"
    and less: "words_val (take (Suc n) l) < beta * words_val (take n dv)"
    and n2: "2 \<le> n \<Longrightarrow> n2 = l ! (n - 2)"
  defines "q \<equiv> div_quotient (l ! n) (l ! (n - 1)) n2 (dv ! (n - 1)) (if n = 1 then 0 else dv ! (n - 2))"
  shows "words_val (take (Suc n) l) div words_val (take n dv) \<le> unat q \<and>
    unat q \<le> words_val (take (Suc n) l) div words_val (take n dv) + 1"
proof -
  define U where "U = words_val (take (Suc n) l)"
  define D where "D = words_val (take n dv)"
  define d0 where "d0 = dv ! (n - 1)"
  define k where "k = beta ^ (n - 1)"
  have U: "U = words_val (take n l) + beta ^ n * unat (l ! n)"
    using words_val_top_le [of "Suc n" l] assms(1) by (simp add: U_def)
  have D: "D = words_val (take (n - 1) dv) + k * unat d0"
    using words_val_top_le [of n dv] assms(2,3) by (simp add: D_def d0_def k_def)
  have "words_val (take (n - 1) dv) < k"
    using words_val_less [of "take (n - 1) dv"] assms(2) by (simp add: k_def)
  then have Dk: "D < (unat d0 + 1) * k" by (simp add: D algebra_simps)
  have bk: "beta ^ n = beta * k" using assms(3) by (cases n) (simp_all add: k_def)
  have Ut: "unat (l ! n) * beta * k \<le> U" by (simp add: U bk algebra_simps)
  have d0: "d0 \<noteq> 0" using assms(4) by (auto simp: d0_def)
  have n0: "unat (l ! n) \<le> unat d0"
  proof -
    have "unat (l ! n) * beta * k \<le> U" by (rule Ut)
    also have "\<dots> < beta * D" using less by (simp add: U_def D_def)
    also have "\<dots> \<le> beta * ((unat d0 + 1) * k)" using Dk by simp
    finally have "unat (l ! n) * (beta * k) < (unat d0 + 1) * (beta * k)" by (simp add: algebra_simps)
    then show ?thesis unfolding mult_less_cancel2 by simp
  qed
  note spec = div_quotient_spec [OF n0 d0, of "l ! (n - 1)" n2 "if n = 1 then 0 else dv ! (n - 2)",
      folded q_def [folded d0_def]]
  have less': "U < beta * D" using less by (simp add: U_def D_def)
  have "U div D \<le> unat q \<and> unat q \<le> U div D + 1"
  proof (cases "l ! n = d0")
    case True
    then have "unat q = beta - 1" using spec by simp
    moreover have "unat d0 * beta * k \<le> U" using Ut True by simp
    ultimately show ?thesis
      using estimate_saturated [OF _ Dk less'] assms(4) by (simp add: d0_def)
  next
    case False
    define N where "N = beta * unat (l ! n) + unat (l ! (n - 1))"
    define A where "A = beta * N + unat n2"
    define B where "B = beta * unat d0 + unat (if n = 1 then 0 else dv ! (n - 2))"
    have q: "unat q = A div B" using spec False by (simp add: A_def B_def N_def)
    have Nk: "U = words_val (take (n - 1) l) + k * N"
      using words_val_top_le [of n l] assms(1,3) by (simp add: U bk N_def k_def algebra_simps)
    show ?thesis
    proof (cases "n = 1")
      case True
      have "A div B = N div unat d0"
      proof -
        have "(beta * N + unat n2) div (beta * unat d0) = (beta * N + unat n2) div beta div unat d0"
          by (simp add: div_mult2_eq)
        then show ?thesis using True by (simp add: A_def B_def)
      qed
      moreover have "U = N" "D = unat d0" using True Nk D by (simp_all add: k_def)
      ultimately show ?thesis using q by simp
    next
      case False
      define h where "h = beta ^ (n - 2)"
      have n: "2 \<le> n" using False assms(3) by simp
      have kh: "k = beta * h"
      proof -
        have "n - 1 = Suc (n - 2)" using n by simp
        then show ?thesis by (simp add: k_def h_def)
      qed
      have lw: "words_val (take (n - 1) l) = words_val (take (n - 2) l) + h * unat n2"
        using words_val_top_le [of "n - 1" l] n assms(1) n2 [OF n] by (simp add: h_def numeral_2_eq_2)
      have dw: "words_val (take (n - 1) dv) = words_val (take (n - 2) dv) + h * unat (dv ! (n - 2))"
        using words_val_top_le [of "n - 1" dv] n assms(2) by (simp add: h_def numeral_2_eq_2)
      have Uh: "U = A * h + words_val (take (n - 2) l)" unfolding Nk lw A_def kh by (simp add: algebra_simps)
      have Dh: "D = B * h + words_val (take (n - 2) dv)" using False unfolding D dw B_def kh by (simp add: algebra_simps)
      have small: "words_val (take (n - 2) l) < h" "words_val (take (n - 2) dv) < h"
        using words_val_less [of "take (n - 2) l"] words_val_less [of "take (n - 2) dv"] assms(1,2)
        by (simp_all add: h_def)
      have "beta \<le> B"
      proof -
        have "beta * 1 \<le> beta * unat d0" using d0 unat_pos [of d0] by (intro mult_le_mono2) simp
        then show ?thesis unfolding B_def by linarith
      qed
      then have "A div B \<le> B + 1" "0 < B" using q unat_less_beta [of q] beta_pos(1) by linarith+
      from estimate_3_by_2 [OF small this] show ?thesis by (simp add: Uh Dh q)
    qed
  qed
  then show ?thesis by (simp add: U_def D_def)
qed

section \<open>A round and the loop\<close>

lemma window_value:
  assumes "n < length l" "words_val (drop 1 l) < beta ^ n"
  shows "words_val (take (Suc n) l) = words_val l" "words_val (drop (Suc n) l) = 0"
proof -
  have "words_val l = words_val (take (Suc n) l) + beta ^ Suc n * words_val (drop (Suc n) l)"
    using words_val_prefix [of "Suc n" l] assms(1) by simp
  moreover have "words_val (drop (Suc n) l) = 0"
  proof -
    have "n \<le> length (drop 1 l)" using assms(1) by simp
    then have "beta ^ n * words_val (drop n (drop 1 l)) < beta ^ n * 1"
      using words_val_prefix [of n "drop 1 l"] assms(2) by linarith
    then show ?thesis by simp
  qed
  ultimately show "words_val (take (Suc n) l) = words_val l" "words_val (drop (Suc n) l) = 0" by simp_all
qed

text \<open>The window after a round, as a whole: the corrections are those of the code.\<close>

lemma subtract_product:
  assumes len: "n < length l" "n \<le> length dv"
    and t: "bn_mul_words dv n q = (tmp, l0)" and w: "bn_sub_words l (tmp @ [l0]) (n + 1) = (w, bw)"
    and e: "U = words_val (take (Suc n) l)" "D = words_val (take n dv)"
    and q: "U div D \<le> unat q" "unat q \<le> U div D + 1" and D: "0 < D" "D < beta ^ n"
  defines "r \<equiv> (if bw \<noteq> 0 then
        let (v, c) = bn_add_words w dv n; x = blit w 0 v in (q - 1, if c \<noteq> 0 then x[n := x ! n + 1] else x)
      else (q, w))"
  shows "unat (fst r) = U div D \<and> length (snd r) = Suc n \<and> words_val (snd r) = U mod D"
proof -
  note et = bn_mul_words_exact [OF len(2) t]
  have lt: "length (tmp @ [l0]) = n + 1" "words_val (tmp @ [l0]) = D * unat q"
    using et e(2) by (simp_all add: words_val_append)
  have "n + 1 \<le> length l" "n + 1 \<le> length (tmp @ [l0])" using len(1) lt(1) by simp_all
  note ew = bn_sub_words_exact [OF this w]
  have V: "words_val w + D * unat q = U + beta ^ Suc n * unat bw"
    using ew(3) lt by (simp add: e(1))
  have W: "words_val w < beta ^ Suc n" using words_val_less [of w] ew(1) by simp
  have div: "U = D * (U div D) + U mod D" by simp
  have m: "U mod D < D" using D(1) by simp
  show ?thesis
  proof (cases "unat q = U div D")
    case True
    have w: "U mod D + beta ^ Suc n * unat bw = words_val w" using V div unfolding True by linarith
    then have "beta ^ Suc n * unat bw < beta ^ Suc n" using W by linarith
    then have "unat bw = 0" by simp
    then have "bw = 0" using unat_pos [of bw] by simp
    with True w ew(1) show ?thesis by (simp add: r_def)
  next
    case False
    then have q1: "unat q = U div D + 1" using q by linarith
    have V': "words_val w + D = U mod D + beta ^ Suc n * unat bw"
      using V div unfolding q1 distrib_left by linarith
    have "unat bw \<noteq> 0" using V' m by (auto intro: ccontr)
    then have bw: "bw \<noteq> 0" "unat bw = 1" using ew(2) by auto
    obtain v c where v: "bn_add_words w dv n = (v, c)" by fastforce
    have "n \<le> length w" using ew(1) by simp
    note ev = bn_add_words_exact [OF this len(2) v]
    define t where "t = w ! n"
    have wt: "words_val w = words_val (take n w) + beta ^ n * unat t"
      using words_val_top_le [of "Suc n" w] ew(1) by (simp add: t_def)
    have x: "blit w 0 v = v @ [t]"
      using ev(1) ew(1) by (auto simp: blit_def t_def intro: nth_equalityI)
    define y where "y = (if c \<noteq> 0 then (v @ [t])[n := (v @ [t]) ! n + 1] else v @ [t])"
    have y: "y = v @ [t + c]"
      using ev(1) carry_word [OF ev(2)] by (auto simp: y_def nth_append list_update_append)
    have r: "r = (q - 1, y)" using bw(1) v by (simp add: r_def x y_def Let_def)
    have total: "words_val v + beta ^ n * (unat t + unat c) = U mod D + beta ^ Suc n"
      using ev(3) wt V' bw(2) e(2) by (simp add: algebra_simps)
    have vl: "words_val v < beta ^ n" using words_val_less [of v] ev(1) by simp
    have "unat t + unat c = beta"
    proof -
      have "beta ^ n * (unat t + unat c) < beta ^ n * (beta + 1)" using total m D(2) unfolding distrib_left power_Suc2 mult_1_right by linarith
      then have "unat t + unat c \<le> beta" unfolding mult_less_cancel1 by simp
      moreover have "beta ^ n * beta < beta ^ n * (unat t + unat c + 1)" using total vl by (simp add: algebra_simps)
      then have "beta \<le> unat t + unat c" unfolding mult_less_cancel1 by simp
      ultimately show ?thesis by simp
    qed
    moreover from this have "unat (t + c) = 0" by (simp add: unat_word_ariths beta_def)
    ultimately have "words_val y = U mod D" using total ev(1) by (simp add: y words_val_append)
    moreover have "q \<noteq> 0" using q1 by auto
    then have "unat (q - 1) = U div D" using q1 by (simp add: unat_minus_one)
    ultimately show ?thesis using ev(1) by (simp add: r y)
  qed
qed


lemma blit_window:
  assumes "j + length w \<le> length s"
  shows "take j (blit s j w) = take j s" "drop j (blit s j w) = w @ drop (length w) (drop j s)"
    "length (blit s j w) = length s"
  using assms by (simp_all add: blit_def add.commute)

lemma blit_front: "length v \<le> length w \<Longrightarrow> blit (w @ z) 0 v = blit w 0 v @ z"
  by (simp add: blit_def)

lemma blit_shift: "j \<le> length s \<Longrightarrow> blit s j v = take j s @ blit (drop j s) 0 v"
  by (simp add: blit_def add.commute)

lemma bn_add_words_prefix: "n \<le> length w \<Longrightarrow> bn_add_words (w @ z) b n = bn_add_words w b n"
  by (simp add: bn_add_words_def)

lemma update_window: "n < length x \<Longrightarrow> (take j s @ x)[j + n := v] = take j s @ x[n := v]" if "j \<le> length s"
  using that by (simp add: list_update_append)

lemma div_step_spec:
  assumes "j + n < length s" "n \<le> length dv" "1 \<le> n" "beta \<le> 2 * unat (dv ! (n - 1))"
    and X: "words_val (drop (Suc j) s) < words_val (take n dv)"
    and step: "div_step dv n (dv ! (n - 1)) (if n = 1 then 0 else dv ! (n - 2)) j s = (q, s')"
  shows "length s' = length s \<and> take j s' = take j s \<and> unat q = words_val (drop j s) div words_val (take n dv) \<and>
    words_val (drop j s') = words_val (drop j s) mod words_val (take n dv)"
proof -
  define l where "l = drop j s"
  define D where "D = words_val (take n dv)"
  define d0 where "d0 = dv ! (n - 1)"
  define d1 where "d1 = (if n = 1 then 0 else dv ! (n - 2))"
  have ln: "n < length l" using assms(1) by (simp add: l_def)
  have Dn: "D < beta ^ n" using words_val_less [of "take n dv"] assms(2) by (simp add: D_def)
  have tl: "words_val (drop 1 l) < beta ^ n" using X Dn by (simp add: l_def D_def)
  note win = window_value [OF ln tl]
  have D0: "0 < D" using X by (cases D) (simp_all add: D_def)
  have U: "words_val l < beta * D"
  proof -
    obtain u us where l: "l = u # us" using ln by (cases l) auto
    then have "us = drop (Suc j) s" by (metis l_def drop_Suc drop_drop list.sel(3) tl_drop drop_0 plus_1_eq_Suc)
    then have "words_val us + 1 \<le> D" using X by (simp add: D_def)
    then have "beta * (words_val us + 1) \<le> beta * D" by (rule mult_le_mono2)
    then show ?thesis using unat_less_beta [of u] unfolding l words_val.simps distrib_left mult_1_right by linarith
  qed
  define p where "p = j + n"
  have idx: "s ! p = l ! n" "s ! (p - 1) = l ! (n - 1)" "2 \<le> n \<Longrightarrow> s ! (p - 2) = l ! (n - 2)"
    using assms(1,3) by (simp_all add: l_def p_def)
  define q0 where "q0 = div_quotient (s ! p) (s ! (p - 1)) (s ! (p - 2)) d0 d1"
  have est: "words_val (take (Suc n) l) div D \<le> unat q0 \<and> unat q0 \<le> words_val (take (Suc n) l) div D + 1"
    using quotient_estimate [OF ln assms(2,3,4), of "s ! (p - 2)"] idx U win(1)
    by (simp add: q0_def d0_def d1_def D_def)
  obtain tmp l0 where t: "bn_mul_words dv n q0 = (tmp, l0)" by fastforce
  obtain w bw where w: "bn_sub_words l (tmp @ [l0]) (n + 1) = (w, bw)" by fastforce
  have lw: "length w = n + 1"
    using bn_sub_words_exact(1) [OF _ _ w] bn_mul_words_exact(1) [OF assms(2) t] ln by simp
  define z where "z = drop (n + 1) l"
  have z: "words_val z = 0" using win(2) by (simp add: z_def)
  define r where "r = (if bw \<noteq> 0 then
        let (v, c) = bn_add_words w dv n; x = blit w 0 v in (q0 - 1, if c \<noteq> 0 then x[n := x ! n + 1] else x)
      else (q0, w))"
  note sub = subtract_product [OF ln assms(2) t w refl D_def _ _ D0 Dn, folded r_def, OF conjunct1 [OF est] conjunct2 [OF est]]
  have s1: "blit s j w = take j s @ w @ z"
    using lw assms(1) by (simp add: blit_def z_def l_def add.commute)
  have "(q, s') = (fst r, take j s @ snd r @ z)"
  proof (cases "bw \<noteq> 0")
    case False
    then show ?thesis
      using step t w s1 unfolding div_step_def Let_def p_def [symmetric] d0_def [symmetric] d1_def [symmetric]
        q0_def [symmetric] l_def [symmetric]
      by (simp add: r_def)
  next
    case True
    obtain v c where v: "bn_add_words w dv n = (v, c)" by fastforce
    have lv: "length v = n" using bn_add_words_exact(1) [OF _ assms(2) v] lw by simp
    have jl: "j \<le> length s" using assms(1) by simp
    have a: "bn_add_words (drop j (blit s j w)) dv n = (v, c)"
      using v lw jl by (simp add: s1 bn_add_words_prefix)
    define y where "y = blit w 0 v"
    have x: "blit (blit s j w) j v = take j s @ y @ z"
    proof -
      have "blit (blit s j w) j v = take j (blit s j w) @ blit (drop j (blit s j w)) 0 v"
        using jl lw by (intro blit_shift) (simp add: s1)
      then show ?thesis using jl lw lv by (simp add: s1 blit_front y_def)
    qed
    have ly: "n < length y" using lv lw by (simp add: y_def)
    have upd: "(take j s @ y @ z)[p := (take j s @ y @ z) ! p + 1] = take j s @ y[n := y ! n + 1] @ z"
    proof -
      have "(take j s @ y @ z) ! p = y ! n" using jl ly by (simp add: p_def nth_append)
      then show ?thesis using jl ly by (simp add: p_def list_update_append)
    qed
    define s2 where "s2 = blit (blit s j w) j v"
    have "(q, s') = (q0 - 1, if c \<noteq> 0 then s2[p := s2 ! p + 1] else s2)"
      using step t w a True unfolding div_step_def Let_def p_def [symmetric] d0_def [symmetric] d1_def [symmetric]
        q0_def [symmetric] l_def [symmetric]
      by (auto simp: s2_def)
    then have "(q, s') = (q0 - 1, if c \<noteq> 0 then take j s @ y[n := y ! n + 1] @ z else take j s @ y @ z)"
      unfolding s2_def x upd .
    then show ?thesis using True v by (simp add: r_def Let_def y_def split: if_splits)
  qed
  then have q: "q = fst r" and s': "s' = take j s @ snd r @ z" by simp_all
  have lr: "length (snd r) = Suc n" using sub by simp
  have jl: "j \<le> length s" using assms(1) by simp
  have "words_val (drop j s') = words_val (snd r)"
    using jl z by (simp add: s' words_val_append)
  moreover have "length s' = length s"
    using lr assms(1) by (simp add: s' z_def l_def)
  moreover have "take j s' = take j s" using jl by (simp add: s')
  ultimately show ?thesis using sub win(1) by (simp add: q flip: l_def D_def)
qed

lemma bn_sub_words_prefix: "n \<le> length w \<Longrightarrow> bn_sub_words (w @ z) b n = bn_sub_words w b n"
  by (simp add: bn_sub_words_def)

lemma div_step_length:
  assumes "j + n < length s" "n \<le> length dv" "div_step dv n d0 d1 j s = (q, s')"
  shows "length s' = length s"
proof -
  define q0 where "q0 = div_quotient (s ! (j + n)) (s ! (j + n - 1)) (s ! (j + n - 2)) d0 d1"
  obtain tmp l0 where t: "bn_mul_words dv n q0 = (tmp, l0)" by fastforce
  obtain w bw where w: "bn_sub_words (drop j s) (tmp @ [l0]) (n + 1) = (w, bw)" by fastforce
  have "length w = n + 1"
    using bn_sub_words_exact(1) [OF _ _ w] bn_mul_words_exact(1) [OF assms(2) t] assms(1) by simp
  then have s1: "length (blit s j w) = length s" using assms(1) by (simp add: blit_def)
  obtain v c where v: "bn_add_words (drop j (blit s j w)) dv n = (v, c)" by fastforce
  have "length v = n" using bn_add_words_exact(1) [OF _ assms(2) v] s1 assms(1) by simp
  then have "length (blit (blit s j w) j v) = length s" using s1 assms(1) by (simp add: blit_def)
  then show ?thesis
    using assms(3) s1 t w v unfolding div_step_def Let_def q0_def [symmetric] by (auto split: if_splits)
qed

lemma div_step_append:
  assumes "j + n < length s" "n \<le> length dv" "2 \<le> j + n" "div_step dv n d0 d1 j s = (q, s')"
  shows "div_step dv n d0 d1 j (s @ z) = (q, s' @ z)"
proof -
  define q0 where "q0 = div_quotient (s ! (j + n)) (s ! (j + n - 1)) (s ! (j + n - 2)) d0 d1"
  have q0z: "div_quotient ((s @ z) ! (j + n)) ((s @ z) ! (j + n - 1)) ((s @ z) ! (j + n - 2)) d0 d1 = q0"
  proof -
    have "j + n - 1 < length s" "j + n - 2 < length s" using assms(1) by simp_all
    then show ?thesis using assms(1) by (simp only: q0_def nth_append if_True)
  qed
  obtain tmp l0 where t: "bn_mul_words dv n q0 = (tmp, l0)" by fastforce
  obtain w bw where w: "bn_sub_words (drop j s) (tmp @ [l0]) (n + 1) = (w, bw)" by fastforce
  have lw: "length w = n + 1"
    using bn_sub_words_exact(1) [OF _ _ w] bn_mul_words_exact(1) [OF assms(2) t] assms(1) by simp
  have wz: "bn_sub_words (drop j (s @ z)) (tmp @ [l0]) (n + 1) = (w, bw)"
    using w assms(1) by (simp add: bn_sub_words_prefix)
  define s1 where "s1 = blit s j w"
  have s1: "length s1 = length s" "blit (s @ z) j w = s1 @ z"
    using lw assms(1) by (simp_all add: s1_def blit_def)
  obtain v c where v: "bn_add_words (drop j s1) dv n = (v, c)" by fastforce
  have lv: "length v = n" using bn_add_words_exact(1) [OF _ assms(2) v] s1 assms(1) by simp
  have vz: "bn_add_words (drop j (s1 @ z)) dv n = (v, c)"
    using v s1 assms(1) by (simp add: bn_add_words_prefix)
  define s2 where "s2 = blit s1 j v"
  have s2: "length s2 = length s" "blit (s1 @ z) j v = s2 @ z"
    using lv s1 assms(1) by (simp_all add: s2_def blit_def)
  have upd: "(s2 @ z)[j + n := (s2 @ z) ! (j + n) + 1] = s2[j + n := s2 ! (j + n) + 1] @ z"
    using s2(1) assms(1) by (simp add: nth_append list_update_append)
  have "(q, s') = (if bw \<noteq> 0 then (q0 - 1, if c \<noteq> 0 then s2[j + n := s2 ! (j + n) + 1] else s2) else (q0, s1))"
    unfolding assms(4) [symmetric] div_step_def Let_def q0_def [symmetric] t w v prod.case s1_def [symmetric] s2_def [symmetric] ..
  moreover have "div_step dv n d0 d1 j (s @ z) =
      (if bw \<noteq> 0 then (q0 - 1, if c \<noteq> 0 then s2[j + n := s2 ! (j + n) + 1] @ z else s2 @ z) else (q0, s1 @ z))"
    unfolding div_step_def Let_def q0z t wz prod.case s1(2) vz s2(2) upd ..
  ultimately show ?thesis by (simp split: if_splits)
qed

lemma div_loop_append:
  assumes "k + n < length s" "n \<le> length dv" "1 \<le> n" "div_loop dv n d0 d1 k s r = (s', r')"
  shows "div_loop dv n d0 d1 k (s @ z) r = (s' @ z, r')"
  using assms(1,4)
proof (induction k arbitrary: s r)
  case (Suc k)
  obtain q t where t: "div_step dv n d0 d1 (Suc k) s = (q, t)" by fastforce
  have "div_step dv n d0 d1 (Suc k) (s @ z) = (q, t @ z)"
    using div_step_append [OF Suc.prems(1) assms(2) _ t] assms(3) by simp
  moreover have "length t = length s" using div_step_length [OF Suc.prems(1) assms(2) t] .
  ultimately show ?case using Suc.IH [of t "r[k := q]"] Suc.prems t by simp
qed simp

text \<open>The words of the quotient and what is left of the dividend, from the second word on.\<close>

lemma div_loop_spec:
  assumes "k + n < length s" "n \<le> length dv" "1 \<le> n" "beta \<le> 2 * unat (dv ! (n - 1))" "k \<le> length r"
    and "words_val (drop (Suc k) s) < words_val (take n dv)"
    and "div_loop dv n (dv ! (n - 1)) (if n = 1 then 0 else dv ! (n - 2)) k s r = (s', r')"
  shows "length s' = length s \<and> length r' = length r \<and> take 1 s' = take 1 s \<and> drop k r' = drop k r \<and>
    words_val (take k r') = words_val (drop 1 s) div words_val (take n dv) \<and>
    words_val (drop 1 s') = words_val (drop 1 s) mod words_val (take n dv)"
  using assms(1,5-)
proof (induction k arbitrary: s r)
  case 0
  then show ?case by simp
next
  case (Suc k)
  define D where "D = words_val (take n dv)"
  obtain q t where t: "div_step dv n (dv ! (n - 1)) (if n = 1 then 0 else dv ! (n - 2)) (Suc k) s = (q, t)" by fastforce
  note st = div_step_spec [OF Suc.prems(1) assms(2-4) Suc.prems(3) t, folded D_def]
  have D: "0 < D" using Suc.prems(3) by (cases D) (simp_all add: D_def)
  have "words_val (drop (Suc k) t) < D" using st D by simp
  then have IH: "length s' = length t" "length r' = length r" "take 1 s' = take 1 t" "drop k r' = drop k (r[k := q])"
    "words_val (take k r') = words_val (drop 1 t) div D" "words_val (drop 1 s') = words_val (drop 1 t) mod D"
    using Suc.IH [of t "r[k := q]"] Suc.prems st t by (simp_all add: D_def)
  define S where "S = words_val (drop (Suc k) s)"
  define L where "L = words_val (take k (drop 1 s))"
  have t1: "take (Suc k) t = take (Suc k) s" "words_val (drop (Suc k) t) = S mod D" "unat q = S div D" "length t = length s"
    using st by (simp_all add: S_def)
  have parts: "words_val (drop 1 x) = words_val (take k (drop 1 x)) + beta ^ k * words_val (drop (Suc k) x)"
    if "length x = length s" for x
    using words_val_prefix [of k "drop 1 x"] Suc.prems(1) that by simp
  have "take k (drop 1 t) = take k (drop 1 s)"
    using arg_cong [OF t1(1), of "drop 1"] by (simp add: drop_take)
  then have pt: "words_val (drop 1 t) = L + beta ^ k * (S mod D)" using parts [OF t1(4)] t1(2) by (simp add: L_def)
  have ps: "words_val (drop 1 s) = words_val (drop 1 t) + beta ^ k * unat q * D"
  proof -
    define a b where "a = S div D" and "b = S mod D"
    have "S = a * D + b" by (simp add: a_def b_def)
    then have "beta ^ k * S = beta ^ k * b + beta ^ k * a * D" by (simp add: algebra_simps)
    moreover have "words_val (drop 1 s) = L + beta ^ k * S" using parts [OF refl] by (simp add: L_def S_def)
    ultimately show ?thesis unfolding pt t1(3) a_def b_def by linarith
  qed
  have k: "k < length r" using Suc.prems(2) by simp
  have rk: "r' ! k = q"
    using arg_cong [OF IH(4), of hd] k IH(2) by (simp add: hd_drop_conv_nth)
  have "take (Suc k) r' = take k r' @ [q]" using k IH(2) rk by (simp add: take_Suc_conv_app_nth)
  then have "words_val (take (Suc k) r') = words_val (take k r') + beta ^ k * unat q"
    using k IH(2) by (simp add: words_val_append)
  moreover have "words_val (drop 1 s) div D = words_val (drop 1 t) div D + beta ^ k * unat q"
    unfolding ps using D by simp
  moreover have "words_val (drop 1 s) mod D = words_val (drop 1 t) mod D" unfolding ps by simp
  moreover have "take 1 s' = take 1 s"
    using arg_cong [OF t1(1), of "take 1"] IH(3) by (simp add: min_def)
  moreover have "drop (Suc k) r' = drop (Suc k) r"
    using arg_cong [OF IH(4), of "drop 1"] by simp
  ultimately show ?case using IH t1(4) by (simp flip: D_def)
qed

section \<open>Division\<close>

text \<open>
  \<open>BN_div\<close> in the parts of its body: the two shifted operands with room for the window, the loop
  into the quotient, and the remainder shifted back. Its outputs are the states of \<open>quotient\<close> and
  \<open>rem\<close>, \<open>None\<close> for \<open>NULL\<close>.
\<close>

definition pad_snum :: "bn_mem \<Rightarrow> nat \<Rightarrow> bignum \<Rightarrow> unit option \<times> bignum" where
  "pad_snum mem dn snum =
     (if bn_width snum \<le> dn + 1 then
        on_ok (bn_wexpand mem (dn + 2) snum) (\<lambda>_ snum.
          (Some (), snum\<lparr>bn_d := blit (bn_d snum) (bn_width snum) (replicate (dn + 2 - bn_width snum) 0),
                         bn_width := dn + 2\<rparr>))
      else
        on_ok (bn_wexpand mem (bn_width snum + 1) snum) (\<lambda>_ snum.
          (Some (), snum\<lparr>bn_d := (bn_d snum)[bn_width snum := 0], bn_width := bn_width snum + 1\<rparr>)))"

definition div_normalise ::
  "bn_mem \<Rightarrow> nat \<Rightarrow> bignum \<Rightarrow> bignum \<Rightarrow> bignum \<Rightarrow> bignum \<Rightarrow> (bignum \<times> bignum) option" where
  "div_normalise mem norm_shift numerator divisor snum dvs =
     (case BN_lshift mem divisor (int norm_shift) dvs of
        (None, _) \<Rightarrow> None
      | (Some _, dvs) \<Rightarrow>
          let dvs = (bn_set_minimal_width dvs)\<lparr>bn_neg := False\<rparr>
          in case BN_lshift mem numerator (int (norm_shift + 64)) snum of
               (None, _) \<Rightarrow> None
             | (Some _, snum) \<Rightarrow>
                 (case pad_snum mem (bn_width dvs) ((bn_set_minimal_width snum)\<lparr>bn_neg := False\<rparr>) of
                    (None, _) \<Rightarrow> None
                  | (Some _, snum) \<Rightarrow> Some (snum, dvs)))"

definition div_into ::
  "bn_mem \<Rightarrow> bignum \<Rightarrow> bignum \<Rightarrow> bignum \<Rightarrow> bool \<Rightarrow> bignum \<Rightarrow> bignum option \<times> bignum" where
  "div_into mem tmp snum dvs neg res =
     (let div_n = bn_width dvs; num_n = bn_width snum; loop = num_n - div_n;
          d0 = bn_d dvs ! (div_n - 1);
          d1 = (if div_n = 1 then 0 else bn_d dvs ! (div_n - 2))
      in on_ok (bn_wexpand mem (loop + 1) (res\<lparr>bn_neg := neg\<rparr>)) (\<lambda>_ res.
           let res = res\<lparr>bn_width := loop - 1\<rparr>
           in case bn_wexpand mem (div_n + 1) tmp of
                (None, _) \<Rightarrow> (None, res)
              | (Some _, _) \<Rightarrow>
                  let res = (if bn_width res = 0 then res\<lparr>bn_neg := False\<rparr> else res);
                      (s, d) = div_loop (bn_d dvs) div_n d0 d1 (loop - 1) (bn_d snum) (bn_d res)
                  in (Some (bn_set_minimal_width (snum\<lparr>bn_d := s\<rparr>)), res\<lparr>bn_d := d\<rparr>)))"

definition bad_padding :: "bignum \<Rightarrow> bool" where
  "bad_padding bn \<longleftrightarrow> bn_minimal_width bn > 0 \<and> bn_d bn ! (bn_minimal_width bn - 1) = 0"

definition BN_div ::
  "bn_mem \<Rightarrow> bignum list \<Rightarrow> bignum \<Rightarrow> bignum \<Rightarrow> bignum option \<times> bignum option \<Rightarrow>
   unit option \<times> bignum option \<times> bignum option" where
  "BN_div mem ctx numerator divisor = (\<lambda>(quotient, rem).
     if bad_padding numerator \<or> bad_padding divisor then (None, quotient, rem)
     else if BN_is_zero divisor then (None, quotient, rem)
     else case ctx of
       tmp # snum # dvs # rest \<Rightarrow>
         (case if quotient = None \<and> rest \<noteq> [] then Some (hd rest) else quotient of
            None \<Rightarrow> (None, quotient, rem)
          | Some res \<Rightarrow>
              let norm_shift = 64 - BN_num_bits divisor mod 64
              in case div_normalise mem norm_shift numerator divisor snum dvs of
                   None \<Rightarrow> (None, quotient, rem)
                 | Some (snum, dvs) \<Rightarrow>
                     (case div_into mem tmp snum dvs (bn_neg numerator \<noteq> bn_neg divisor) res of
                        (None, res) \<Rightarrow> (None, map_option (\<lambda>_. res) quotient, rem)
                      | (Some snum, res) \<Rightarrow>
                          (case rem of
                             None \<Rightarrow> (Some (), map_option (\<lambda>_. bn_set_minimal_width res) quotient, None)
                           | Some r \<Rightarrow>
                               (case BN_rshift mem snum (int (norm_shift + 64)) r of
                                  (None, r) \<Rightarrow> (None, map_option (\<lambda>_. res) quotient, Some r)
                                | (Some _, r) \<Rightarrow>
                                    (Some (), map_option (\<lambda>_. bn_set_minimal_width res) quotient,
                                     Some (if BN_is_zero r then r else r\<lparr>bn_neg := bn_neg numerator\<rparr>))))))
     | _ \<Rightarrow> (None, quotient, rem))"

definition BN_mod :: "bn_mem \<Rightarrow> bignum list \<Rightarrow> bignum \<Rightarrow> bignum \<Rightarrow> bignum \<Rightarrow> unit option \<times> bignum" where
  "BN_mod mem ctx numerator divisor rem =
     (case BN_div mem ctx numerator divisor (None, Some rem) of
        (u, _, Some r) \<Rightarrow> (u, r)
      | (u, _, None) \<Rightarrow> (u, rem))"

definition BN_nnmod :: "bn_mem \<Rightarrow> bignum list \<Rightarrow> bignum \<Rightarrow> bignum \<Rightarrow> bignum \<Rightarrow> unit option \<times> bignum" where
  "BN_nnmod mem ctx m d r =
     on_ok (BN_mod mem ctx m d r) (\<lambda>_ r.
       if \<not> bn_neg r then (Some (), r)
       else if bn_neg d then BN_sub mem r d r else BN_add mem r d r)"

section \<open>Exactness of the division\<close>

lemma pad_snum_spec:
  assumes "bn_ok s" "pad_snum mem dn s = (Some u, s')"
  shows "bn_ok s' \<and> bn_abs s' = bn_abs s \<and> bn_neg s' = bn_neg s \<and> dn + 2 \<le> bn_width s' \<and>
      bn_d s' ! (bn_width s' - 1) = 0"
    and "bn_width s' = max (dn + 2) (bn_width s + 1)"
proof -
  define k where "k = max (dn + 2) (bn_width s + 1) - bn_width s"
  have k: "0 < k" "max (dn + 2) (bn_width s + 1) = bn_width s + k" by (simp_all add: k_def)
  have "\<exists>e. bn_wexpand mem (bn_width s + k) s = (Some (), e) \<and>
      s' = e\<lparr>bn_d := blit (bn_d e) (bn_width s) (replicate k 0), bn_width := bn_width s + k\<rparr>"
  proof (cases "bn_width s \<le> dn + 1")
    case True
    then have "bn_width s + k = dn + 2" "k = dn + 2 - bn_width s" by (simp_all add: k_def)
    then show ?thesis
      using assms bn_wexpand_ok(4) [OF _ assms(1)] True by (fastforce simp: pad_snum_def elim: on_ok_unit)
  next
    case False
    then have k1: "k = 1" by (simp add: k_def)
    then obtain e where e: "bn_wexpand mem (bn_width s + 1) s = (Some (), e)"
      and s': "s' = e\<lparr>bn_d := (bn_d e)[bn_width e := 0], bn_width := bn_width e + 1\<rparr>"
      using assms(2) False by (auto simp: pad_snum_def elim: on_ok_unit)
    note x = bn_wexpand_ok [OF e assms(1)]
    have "(bn_d e)[bn_width e := 0] = blit (bn_d e) (bn_width s) [0]"
      using x by (simp add: blit_def upd_conv_take_nth_drop bn_ok_def)
    then show ?thesis using e s' x(4) by (simp add: k1)
  qed
  then obtain e where e: "bn_wexpand mem (bn_width s + k) s = (Some (), e)"
    and s': "s' = e\<lparr>bn_d := blit (bn_d e) (bn_width s) (replicate k 0), bn_width := bn_width s + k\<rparr>" by blast
  note x = bn_wexpand_ok [OF e assms(1)]
  have len: "bn_width s + k \<le> length (bn_d e)" using x(1,3) by (simp add: bn_ok_def)
  have d: "take (bn_width s + k) (bn_d s') = bn_words s @ replicate k 0"
    using take_blit_upto [of "bn_width s" "bn_d e" "replicate k 0"] len x(2,4) by (simp add: s' bn_words_def)
  have w: "bn_width s' = bn_width s + k" by (simp add: s')
  have "bn_d s' ! (bn_width s + k - 1) = (bn_words s @ replicate k 0) ! (bn_width s + k - 1)"
    using k(1) by (simp flip: d)
  moreover have "\<not> bn_width s + k - 1 < bn_width s" "bn_width s + k - 1 - bn_width s < k" using k(1) by simp_all
  ultimately have "bn_d s' ! (bn_width s' - 1) = 0" using assms(1) w by (simp add: nth_append)
  moreover have "bn_ok s'" using x len by (simp add: s' bn_ok_def)
  moreover have "bn_abs s' = bn_abs s" using d w by (simp add: bn_abs_def bn_words_def words_val_append)
  ultimately show "bn_ok s' \<and> bn_abs s' = bn_abs s \<and> bn_neg s' = bn_neg s \<and> dn + 2 \<le> bn_width s' \<and>
      bn_d s' ! (bn_width s' - 1) = 0"
    using w x(5) k by (simp add: s')
  show "bn_width s' = max (dn + 2) (bn_width s + 1)" using w k by simp
qed

lemma bit_len_mult_power: "n \<noteq> 0 \<Longrightarrow> bit_len (n * 2 ^ k) = k + bit_len n"
  using bit_len_shift [where n = "n * 2 ^ k" and k = k] by simp

lemma normal_top:
  assumes "bn_ok e" "bn_abs e \<noteq> 0" "bit_len (bn_abs e) mod 64 = 0"
  defines "d \<equiv> bn_set_minimal_width e"
  shows "1 \<le> bn_width d \<and> beta \<le> 2 * unat (bn_d d ! (bn_width d - 1))"
proof -
  define w where "w = bn_width d"
  note m = bn_set_minimal_width_spec [OF assms(1), folded d_def]
  have wm: "w = minimal_width (bn_d d) (bn_width e)" using m(5,6) by (simp add: w_def bn_minimal_width_def)
  have val: "bn_abs e = words_val (take w (bn_d d))" using m(2) by (simp add: w_def bn_abs_def bn_words_def)
  then have w0: "w \<noteq> 0" using assms(2) by (intro notI) simp
  have wl: "w \<le> length (bn_d d)" using m(1) by (simp add: bn_ok_def w_def)
  define top where "top = unat (bn_d d ! (w - 1))"
  have top: "top \<noteq> 0" using minimal_width_top [of "bn_d d" "bn_width e"] w0
    by (simp add: top_def unsigned_eq_0_iff flip: wm)
  have less: "words_val (take (w - 1) (bn_d d)) < beta ^ (w - 1)"
    using words_val_less [of "take (w - 1) (bn_d d)"] wl by simp
  have "bn_abs e = words_val (take (w - 1) (bn_d d)) + beta ^ (w - 1) * top"
    using words_val_top_le [OF _ wl] w0 val by (simp add: top_def)
  then have "bit_len (bn_abs e) = (w - 1) * 64 + bit_len top" using bit_len_append [OF top less] by simp
  then have "bit_len top mod 64 = 0" using assms(3) by (simp add: mod_add_left_eq [symmetric])
  moreover have "top < 2 ^ 64" using unat_less_beta [of "bn_d d ! (w - 1)"] by (simp add: top_def beta_def)
  have "bit_len top \<le> 64"
  proof (rule ccontr)
    assume "\<not> bit_len top \<le> 64"
    then have "(2::nat) ^ 64 \<le> 2 ^ (bit_len top - 1)" by (intro power_increasing) auto
    then show False using bit_len_bounds [OF top] \<open>top < 2 ^ 64\<close> by linarith
  qed
  moreover have "0 < bit_len top" using bit_len_bounds [OF top] by simp
  ultimately have "bit_len top = 64" by presburger
  then have "2 ^ 63 \<le> top" using bit_len_bounds [OF top] by simp
  then show ?thesis using w0 by (simp add: w_def top_def beta_def)
qed

lemma BN_lshift_abs:
  assumes "bn_ok a" "bn_ok r" "BN_lshift mem a (int k) r = (Some u, r')"
  shows "bn_ok r'" "bn_abs r' = bn_abs a * 2 ^ k"
proof -
  have e: "bn_ok r' \<and> bn_int r' = bn_int a * 2 ^ k" using BN_lshift_spec [OF assms] by simp
  then show "bn_ok r'" by simp
  have "int (bn_abs r') = \<bar>bn_int r'\<bar>" "\<bar>bn_int a\<bar> = int (bn_abs a)" by (simp_all add: bn_int_def)
  then have "int (bn_abs r') = int (bn_abs a * 2 ^ k)" using e by (simp add: abs_mult)
  then show "bn_abs r' = bn_abs a * 2 ^ k" by (simp only: of_nat_eq_iff)
qed

lemma div_normalise_spec:
  assumes "bn_ok a" "bn_ok b" "bn_ok snum" "bn_ok dvs" "bn_abs b \<noteq> 0"
    and ns: "ns = 64 - BN_num_bits b mod 64" and res: "div_normalise mem ns a b snum dvs = Some (s, d)"
  shows "bn_ok s \<and> bn_ok d \<and> 1 \<le> bn_width d \<and> beta \<le> 2 * unat (bn_d d ! (bn_width d - 1)) \<and>
    bn_abs d = bn_abs b * 2 ^ ns \<and> bn_abs s = bn_abs a * 2 ^ (ns + 64) \<and> \<not> bn_neg s \<and>
    bn_width d + 2 \<le> bn_width s \<and> bn_d s ! (bn_width s - 1) = 0"
proof -
  obtain d0 s0 where d0: "BN_lshift mem b (int ns) dvs = (Some (), d0)" "d = (bn_set_minimal_width d0)\<lparr>bn_neg := False\<rparr>"
    and s0: "BN_lshift mem a (int (ns + 64)) snum = (Some (), s0)"
      "pad_snum mem (bn_width d) ((bn_set_minimal_width s0)\<lparr>bn_neg := False\<rparr>) = (Some (), s)"
    using res by (auto simp: div_normalise_def Let_def split: prod.splits option.splits)
  note ld = BN_lshift_abs [OF assms(2,4) d0(1)]
  note ls = BN_lshift_abs [OF assms(1,3) s0(1)]
  have "bit_len (bn_abs d0) mod 64 = 0"
  proof -
    have "bit_len (bn_abs d0) = ns + BN_num_bits b"
      using bit_len_mult_power [OF assms(5)] BN_num_bits_spec [OF assms(2)] ld(2) by simp
    then show ?thesis unfolding ns by presburger
  qed
  moreover have "bn_abs d0 \<noteq> 0" using ld(2) assms(5) by simp
  ultimately have "1 \<le> bn_width d \<and> beta \<le> 2 * unat (bn_d d ! (bn_width d - 1))"
    using normal_top [OF ld(1)] by (simp add: d0(2))
  moreover have "bn_ok d" "bn_abs d = bn_abs d0" using bn_set_minimal_width_spec [OF ld(1)] by (simp_all add: d0(2))
  moreover have "bn_ok ((bn_set_minimal_width s0)\<lparr>bn_neg := False\<rparr>)"
    "bn_abs ((bn_set_minimal_width s0)\<lparr>bn_neg := False\<rparr>) = bn_abs s0"
    using bn_set_minimal_width_spec [OF ls(1)] by simp_all
  moreover from this have "bn_ok s" "bn_abs s = bn_abs s0" "\<not> bn_neg s" "bn_width d + 2 \<le> bn_width s"
    "bn_d s ! (bn_width s - 1) = 0"
    using pad_snum_spec(1) [OF _ s0(2)] by simp_all
  ultimately show ?thesis using ld(2) ls(2) by simp
qed

text \<open>The loop leaves the quotient in \<open>res\<close> and the shifted remainder, over a zero word, in \<open>snum\<close>.\<close>

lemma div_into_spec:
  assumes ok: "bn_ok s" "bn_ok d" "bn_ok res"
    and d: "1 \<le> bn_width d" "beta \<le> 2 * unat (bn_d d ! (bn_width d - 1))"
    and s: "bn_width d + 2 \<le> bn_width s" "bn_d s ! (bn_width s - 1) = 0" "bn_abs s = A * 2 ^ (ns + 64)"
    and B: "bn_abs d = B * 2 ^ ns" and "div_into mem tmp s d neg res = (Some s', res')"
  shows "bn_ok s' \<and> bn_abs s' = A mod B * 2 ^ (ns + 64) \<and> bn_ok res' \<and> bn_abs res' = A div B \<and>
    bn_neg res' = neg \<and> bn_neg s' = (bn_neg s \<and> bn_abs s' \<noteq> 0)"
proof -
  define n where "n = bn_width d"
  define m where "m = bn_width s"
  define k where "k = m - n - 1"
  define dv where "dv = bn_d d"
  define sv where "sv = take m (bn_d s)"
  have k: "m = Suc k + n" "0 < k" using s(1) by (simp_all add: k_def m_def n_def)
  obtain e t where e: "bn_wexpand mem (m - n + 1) (res\<lparr>bn_neg := neg\<rparr>) = (Some (), e)"
    and t: "div_loop dv n (dv ! (n - 1)) (if n = 1 then 0 else dv ! (n - 2)) k (bn_d s) (bn_d e) = t"
    and out: "s' = bn_set_minimal_width (s\<lparr>bn_d := fst t\<rparr>)" "res' = e\<lparr>bn_width := k, bn_d := snd t\<rparr>"
    using assms(10) k(2) by (auto simp: div_into_def Let_def n_def m_def k_def dv_def elim!: on_ok_unit
        split: prod.splits option.splits if_splits)
  note xe = bn_wexpand_ok [OF e]
  have oke: "bn_ok e" "m - n + 1 \<le> length (bn_d e)" "bn_neg e = neg"
    using xe ok(3) by (simp_all add: bn_ok_def)
  have len: "length sv = m" "n \<le> length dv" "bn_d s = sv @ drop m (bn_d s)"
    using ok by (simp_all add: sv_def dv_def m_def n_def bn_ok_def)
  obtain u r where l: "div_loop dv n (dv ! (n - 1)) (if n = 1 then 0 else dv ! (n - 2)) k sv (bn_d e) = (u, r)" by fastforce
  have n: "1 \<le> n" "beta \<le> 2 * unat (dv ! (n - 1))" using d by (simp_all add: n_def dv_def)
  have kn: "k + n < length sv" using k len by simp
  have tt: "t = (u @ drop m (bn_d s), r)"
    using t div_loop_append [OF kn len(2) n(1) l, of "drop m (bn_d s)"] len(3) by simp
  have X: "words_val (drop (Suc k) sv) < words_val (take n dv)"
  proof -
    have last: "drop (Suc k) sv ! (n - 1) = 0" and ld: "length (drop (Suc k) sv) = n"
      using s(2) k(1) n(1) len(1) by (simp_all add: sv_def flip: m_def)
    have "words_val (drop (Suc k) sv) = words_val (take (n - 1) (drop (Suc k) sv))"
      using words_val_top_le [of n "drop (Suc k) sv"] n(1) ld last by simp
    also have "\<dots> < beta ^ (n - 1)" using words_val_less [of "take (n - 1) (drop (Suc k) sv)"] ld by simp
    also have "\<dots> \<le> beta ^ (n - 1) * unat (dv ! (n - 1))"
      using n(2) by (cases "unat (dv ! (n - 1))") (simp_all add: beta_def)
    also have "\<dots> \<le> words_val (take n dv)" using words_val_top_le [of n dv] n(1) len(2) by simp
    finally show ?thesis .
  qed
  have "k \<le> length (bn_d e)" using oke(2) k by simp
  note sp = div_loop_spec [OF kn len(2) n this X l]
  obtain x xs where sv: "sv = x # xs" using kn by (cases sv) auto
  have Dv: "words_val (take n dv) = B * 2 ^ ns" using B by (simp add: bn_abs_def bn_words_def n_def dv_def)
  have "words_val sv = beta * (A * 2 ^ ns)"
    using s(3) by (simp add: bn_abs_def bn_words_def sv_def m_def beta_def power_add)
  then have "unat x + beta * words_val xs = 0 + beta * (A * 2 ^ ns)" by (simp add: sv)
  then have x: "unat x = 0" "words_val xs = A * 2 ^ ns" using digits_eq [of "unat x" beta 0] by simp_all
  then have val: "words_val (drop 1 sv) = A * 2 ^ ns" by (simp add: sv)
  have lu: "length u = m" "length r = length (bn_d e)" using sp len by simp_all
  have "take 1 u = [x]" using sp sv by simp
  then obtain us where us: "u = x # us" by (cases u) auto
  then have "words_val u = beta * (A mod B * 2 ^ ns)" using sp x val Dv by simp
  moreover have "bn_words (s\<lparr>bn_d := fst t\<rparr>) = u" using lu by (simp add: bn_words_def tt m_def)
  ultimately have as: "bn_abs (s\<lparr>bn_d := fst t\<rparr>) = A mod B * 2 ^ (ns + 64)"
    by (simp add: bn_abs_def power_add beta_def)
  have "bn_ok (s\<lparr>bn_d := fst t\<rparr>)" using ok(1) lu by (simp add: bn_ok_def tt m_def)
  note m = bn_set_minimal_width_spec [OF this, folded out(1)]
  have r: "bn_ok res'" "bn_neg res' = neg" using oke lu k by (simp_all add: out(2) bn_ok_def tt)
  have q: "bn_abs res' = A div B" using sp val Dv by (simp add: out(2) bn_abs_def bn_words_def tt)
  have "bn_neg s' = (bn_neg s \<and> bn_abs s' \<noteq> 0)"
    using m(3,4) by (auto simp: bn_int_def bn_canonical_def out(1) bn_set_minimal_width_def Let_def)
  then show ?thesis using m(1,2) as r q by simp
qed

lemma bn_int_quotient:
  "bn_int a sdiv bn_int b = (if bn_neg a \<noteq> bn_neg b then - int (bn_abs a div bn_abs b) else int (bn_abs a div bn_abs b))"
  by (auto simp: signed_divide_int_def bn_int_def sgn_if zdiv_int)

lemma bn_int_remainder:
  "bn_int a smod bn_int b = (if bn_neg a then - int (bn_abs a mod bn_abs b) else int (bn_abs a mod bn_abs b))"
  by (auto simp: signed_modulo_int_def bn_int_def sgn_if zmod_int)

lemma shift_int_mult: "shift_int (int (k * 2 ^ n)) n = int k"
  by (cases "k = 0") (simp_all add: shift_int_def)

lemma BN_div_spec:
  assumes ok: "bn_ok a" "bn_ok b" "list_all bn_ok ctx" "pred_option bn_ok q" "pred_option bn_ok r"
    and res: "BN_div mem ctx a b (q, r) = (Some u, q', r')"
  shows "bn_int b \<noteq> 0 \<and> (q' = None \<longleftrightarrow> q = None) \<and> (r' = None \<longleftrightarrow> r = None) \<and>
    pred_option (\<lambda>x. bn_ok x \<and> bn_int x = bn_int a sdiv bn_int b \<and> bn_canonical x) q' \<and>
    pred_option (\<lambda>x. bn_ok x \<and> bn_int x = bn_int a smod bn_int b \<and> bn_canonical x) r'"
proof -
  have nz: "bn_abs b \<noteq> 0" using res BN_is_zero_spec [OF ok(2)] by (auto simp: BN_div_def split: if_splits)
  define ns where "ns = 64 - BN_num_bits b mod 64"
  obtain tmp snum dvs rest f s d s' res' where ctx: "ctx = tmp # snum # dvs # rest"
    and f: "(if q = None \<and> rest \<noteq> [] then Some (hd rest) else q) = Some f"
    and nm: "div_normalise mem ns a b snum dvs = Some (s, d)"
    and into: "div_into mem tmp s d (bn_neg a \<noteq> bn_neg b) f = (Some s', res')"
    and q': "q' = map_option (\<lambda>_. bn_set_minimal_width res') q"
    and r': "(r = None \<and> r' = None) \<or> (\<exists>x y. r = Some x \<and> BN_rshift mem s' (int (ns + 64)) x = (Some (), y) \<and>
      r' = Some (if BN_is_zero y then y else y\<lparr>bn_neg := bn_neg a\<rparr>))"
    using res unfolding BN_div_def prod.case ns_def [symmetric] Let_def
    by (auto split: if_splits list.splits option.splits prod.splits)
  have oks: "bn_ok tmp" "bn_ok snum" "bn_ok dvs" "bn_ok f"
    using ok(3,4) f ctx by (auto split: if_splits simp: neq_Nil_conv)
  note n = div_normalise_spec [OF ok(1,2) oks(2,3) nz ns_def nm]
  have i: "bn_ok s' \<and> bn_abs s' = bn_abs a mod bn_abs b * 2 ^ (ns + 64) \<and> bn_ok res' \<and>
      bn_abs res' = bn_abs a div bn_abs b \<and> bn_neg res' = (bn_neg a \<noteq> bn_neg b) \<and> \<not> bn_neg s'"
    using div_into_spec [where A = "bn_abs a" and B = "bn_abs b" and ns = ns, OF _ _ oks(4) _ _ _ _ _ _ into] n by blast
  have "bn_int res' = bn_int a sdiv bn_int b"
    unfolding bn_int_quotient using i by (simp add: bn_int_def [of res'])
  then have "pred_option (\<lambda>x. bn_ok x \<and> bn_int x = bn_int a sdiv bn_int b \<and> bn_canonical x) q'"
    using bn_set_minimal_width_spec [of res'] i by (cases q) (simp_all add: q')
  moreover have "pred_option (\<lambda>x. bn_ok x \<and> bn_int x = bn_int a smod bn_int b \<and> bn_canonical x) r'"
  proof (cases r)
    case None
    then show ?thesis using r' by simp
  next
    case (Some x)
    then obtain y where y: "BN_rshift mem s' (int (ns + 64)) x = (Some (), y)"
      and r'y: "r' = Some (if BN_is_zero y then y else y\<lparr>bn_neg := bn_neg a\<rparr>)" using r' by auto
    have "bn_ok x" using ok(5) Some by simp
    then have sh: "bn_ok y \<and> bn_int y = shift_int (bn_int s') (ns + 64) \<and> bn_canonical y"
      using BN_rshift_spec [OF _ _ y] i by (simp only: nat_int simp_thms)
    have "bn_int s' = int (bn_abs a mod bn_abs b * 2 ^ (ns + 64))" using i by (simp add: bn_int_def)
    then have v: "bn_int y = int (bn_abs a mod bn_abs b)"
      using sh by (simp only: shift_int_mult)
    then have ya: "bn_abs y = bn_abs a mod bn_abs b" by (auto simp: bn_int_def split: if_splits)
    show ?thesis
    proof (cases "bn_abs y = 0")
      case True
      then show ?thesis using sh v ya BN_is_zero_spec [of y] by (simp add: r'y bn_int_remainder)
    next
      case False
      then show ?thesis
        using sh ya BN_is_zero_spec [of y] by (simp add: r'y bn_int_remainder bn_int_def [of "y\<lparr>bn_neg := bn_neg a\<rparr>"] bn_canonical_def)
    qed
  qed
  ultimately show ?thesis using nz q' r' by (auto simp: bn_int_def)
qed

lemma BN_mod_spec:
  assumes "bn_ok a" "bn_ok b" "list_all bn_ok ctx" "bn_ok r" "BN_mod mem ctx a b r = (Some u, r')"
  shows "bn_ok r' \<and> bn_int r' = bn_int a smod bn_int b \<and> bn_canonical r' \<and> bn_int b \<noteq> 0"
proof -
  obtain q where "BN_div mem ctx a b (None, Some r) = (Some u, q, Some r')"
    using assms(5) BN_div_spec [OF assms(1-3), of None "Some r" mem u _ None] assms(4)
    by (auto simp: BN_mod_def split: prod.splits option.splits)
  from BN_div_spec [OF assms(1-3) _ _ this] assms(4) show ?thesis by simp
qed

lemma mod_of_smod:
  fixes a b :: int
  assumes "b \<noteq> 0"
  shows "a mod \<bar>b\<bar> = (if a smod b < 0 then a smod b + \<bar>b\<bar> else a smod b)"
proof -
  define c where "c = \<bar>b\<bar>"
  have c: "0 < c" using assms by (simp add: c_def)
  have b: "0 \<le> a mod c" "0 \<le> (- a) mod c" "(- a) mod c < c" using c by simp_all
  have s: "a smod b = sgn a * (\<bar>a\<bar> mod c)" by (simp add: signed_modulo_int_def c_def)
  show ?thesis
  proof (cases "0 \<le> a")
    case True
    then have "a smod b = a mod c" by (simp add: s sgn_if)
    then show ?thesis using b(1) by (simp add: c_def)
  next
    case False
    then have "a smod b = - ((- a) mod c)" by (simp add: s sgn_if)
    moreover have "a mod c = (if (- a) mod c = 0 then 0 else c - (- a) mod c)"
      using zmod_zminus1_eq_if [of "- a" c] by simp
    ultimately show ?thesis using b(2) unfolding c_def [symmetric] by auto
  qed
qed

lemma BN_nnmod_spec:
  assumes "bn_ok a" "bn_ok b" "list_all bn_ok ctx" "bn_ok r" "BN_nnmod mem ctx a b r = (Some u, r')"
  shows "bn_ok r' \<and> bn_int r' = bn_int a mod \<bar>bn_int b\<bar> \<and> bn_int b \<noteq> 0"
proof -
  obtain m where m: "BN_mod mem ctx a b r = (Some (), m)"
    and r': "(if \<not> bn_neg m then (Some (), m) else if bn_neg b then BN_sub mem m b m else BN_add mem m b m) = (Some u, r')"
    using assms(5) by (auto simp: BN_nnmod_def elim: on_ok_unit)
  note s = BN_mod_spec [OF assms(1-4) m]
  have md: "bn_int a mod \<bar>bn_int b\<bar> = (if bn_int a smod bn_int b < 0 then bn_int a smod bn_int b + \<bar>bn_int b\<bar>
      else bn_int a smod bn_int b)"
    using s by (intro mod_of_smod) simp
  have can: "bn_canonical m" and b0: "bn_int b \<noteq> 0" using s by simp_all
  have ng: "bn_neg m \<longleftrightarrow> bn_int m < 0" using can by (auto simp: bn_int_def bn_canonical_def)
  have nb: "bn_neg b \<longleftrightarrow> bn_int b < 0" using b0 by (auto simp: bn_int_def)
  show ?thesis
  proof (cases "bn_neg m")
    case False
    then show ?thesis using r' s md ng by simp
  next
    case True
    then show ?thesis
      using r' s md ng nb BN_sub_spec(1) [OF _ assms(2), of m m mem u r'] BN_add_spec(1) [OF _ assms(2), of m m mem u r']
      by (auto split: if_splits)
  qed
qed

section \<open>Room for the division\<close>

lemma not_bad_padding: "\<not> bad_padding bn"
  using minimal_width_top [of "bn_d bn" "bn_width bn"] by (auto simp: bad_padding_def bn_minimal_width_def)

lemma pad_snum_room:
  assumes "bn_room mem n s" "dn + 2 \<le> n" "bn_width s + 1 \<le> n"
  shows "succeeds (pad_snum mem dn s)"
  using assms unfolding pad_snum_def by (auto intro!: expand_then_works [where n = n])

lemma bn_width_minimal: "bn_width (bn_set_minimal_width bn) \<le> bn_width bn"
  by (simp add: bn_set_minimal_width_def bn_minimal_width_def Let_def minimal_width_le)

lemma BN_lshift_keeps:
  assumes "BN_lshift mem a k r = (Some u, r')" "bn_ok a" "bn_ok r"
  shows "bn_width r' \<le> bn_width a + nat k div 64 + 1" "bn_room mem n r' = bn_room mem n r"
proof -
  have k: "\<not> k < 0" using assms(1) by (auto simp: BN_lshift_def)
  then obtain e where e: "bn_wexpand mem (bn_width a + nat k div 64 + 1) (r\<lparr>bn_neg := bn_neg a\<rparr>) = (Some (), e)"
    using assms(1) by (auto simp: BN_lshift_def Let_def elim: on_ok_unit)
  obtain t where r': "r' = bn_set_minimal_width (e\<lparr>bn_d := t, bn_width := bn_width a + nat k div 64 + 1\<rparr>)"
    using assms(1) unfolding BN_lshift_def Let_def if_not_P [OF k] e on_ok.simps by (metis prod.inject)
  show "bn_width r' \<le> bn_width a + nat k div 64 + 1"
    using bn_width_minimal [of "e\<lparr>bn_d := t, bn_width := bn_width a + nat k div 64 + 1\<rparr>"] by (simp add: r')
  show "bn_room mem n r' = bn_room mem n r" using bn_wexpand_keeps_room [OF e, of n] by (simp add: r')
qed

lemma div_normalise_room:
  assumes "bn_ok a" "bn_ok b" "bn_ok snum" "bn_ok dvs" "bn_room mem n snum" "bn_room mem n dvs"
    and "bn_width a + 4 \<le> n" "bn_width b + 4 \<le> n" "ns \<le> 64"
  shows "\<exists>s d. div_normalise mem ns a b snum dvs = Some (s, d) \<and> bn_width s \<le> max (bn_width a) (bn_width b) + 4"
proof -
  have k: "nat (int ns) div 64 \<le> 1" "nat (int (ns + 64)) div 64 \<le> 2" using assms(9) by simp_all
  obtain d0 where d0: "BN_lshift mem b (int ns) dvs = (Some (), d0)"
    using works [OF BN_lshift_room [OF assms(6), of b "int ns"]] k assms(8) by auto
  note kd = BN_lshift_keeps [OF d0 assms(2,4)]
  obtain s0 where s0: "BN_lshift mem a (int (ns + 64)) snum = (Some (), s0)"
    using works [OF BN_lshift_room [OF assms(5), of a "int (ns + 64)"]] k assms(7) by auto
  note ks = BN_lshift_keeps [OF s0 assms(1,3)]
  define d where "d = (bn_set_minimal_width d0)\<lparr>bn_neg := False\<rparr>"
  define s1 where "s1 = (bn_set_minimal_width s0)\<lparr>bn_neg := False\<rparr>"
  have w: "bn_width d \<le> bn_width b + 2" "bn_width s1 \<le> bn_width a + 3"
    using bn_width_minimal [of d0] bn_width_minimal [of s0] kd(1) ks(1) k unfolding d_def s1_def by simp_all
  have "bn_room mem n s1" using ks(2) assms(5) by (simp add: s1_def)
  then obtain s where s: "pad_snum mem (bn_width d) s1 = (Some (), s)"
    using works [OF pad_snum_room [of mem n s1 "bn_width d"]] w assms(7,8) by auto
  have "bn_ok s1"
    using bn_set_minimal_width_spec(1) [OF BN_lshift_abs(1) [OF assms(1,3) s0]] by (simp add: s1_def)
  from pad_snum_spec(2) [OF this s] w have "bn_width s \<le> max (bn_width a) (bn_width b) + 4" by linarith
  then show ?thesis
    unfolding div_normalise_def Let_def d0 s0 prod.case option.case d_def [symmetric] s1_def [symmetric] s by blast
qed

lemma div_into_room:
  assumes "bn_room mem n res" "bn_room mem n tmp" "bn_width s \<le> n" "1 \<le> bn_width d" "bn_width d + 2 \<le> bn_width s"
  shows "\<exists>s' r'. div_into mem tmp s d neg res = (Some s', r') \<and> bn_width s' \<le> bn_width s"
proof -
  obtain t where t: "bn_wexpand mem (bn_width d + 1) tmp = (Some (), t)"
    using works [OF bn_wexpand_room [OF assms(2), of "bn_width d + 1"]] assms(3,5) by auto
  have "bn_width s - bn_width d + 1 \<le> n" using assms(3-5) by simp
  then obtain e where e: "bn_wexpand mem (bn_width s - bn_width d + 1) (res\<lparr>bn_neg := neg\<rparr>) = (Some (), e)"
    using works [OF bn_wexpand_room [of mem n "res\<lparr>bn_neg := neg\<rparr>"]] assms(1) by auto
  have "bn_width (bn_set_minimal_width (s\<lparr>bn_d := x\<rparr>)) \<le> bn_width s" for x
    using bn_width_minimal [of "s\<lparr>bn_d := x\<rparr>"] by simp
  then show ?thesis
    unfolding div_into_def Let_def e on_ok.simps t option.case prod.case
    using assms(4,5) by (simp split: prod.split)
qed

lemma BN_div_room:
  assumes ok: "bn_ok a" "bn_ok b" "list_all bn_ok ctx" "pred_option bn_ok q" "pred_option bn_ok r"
    and room: "list_all (bn_room mem n) ctx" "pred_option (bn_room mem n) q" "pred_option (bn_room mem n) r"
    and nz: "bn_int b \<noteq> 0" and len: "4 \<le> length ctx" and n: "max (bn_width a) (bn_width b) + 4 \<le> n"
  shows "succeeds (BN_div mem ctx a b (q, r))"
proof -
  obtain tmp snum dvs f0 rest where ctx: "ctx = tmp # snum # dvs # f0 # rest"
    using len by (auto simp: Suc_le_length_iff eval_nat_numeral)
  define ns where "ns = 64 - BN_num_bits b mod 64"
  obtain f where f: "(if q = None \<and> f0 # rest \<noteq> [] then Some (hd (f0 # rest)) else q) = Some f"
    and rf: "bn_room mem n f" "bn_ok f" using ok(3,4) room(1,2) ctx by (cases q) auto
  have c: "bn_ok snum" "bn_ok dvs" "bn_room mem n snum" "bn_room mem n dvs" "bn_room mem n tmp"
    using ok(3) room(1) ctx by simp_all
  have bz: "bn_abs b \<noteq> 0" using nz by (simp add: bn_int_def split: if_splits)
  have an: "bn_width a + 4 \<le> n" "bn_width b + 4 \<le> n" "ns \<le> 64" using n by (simp_all add: ns_def)
  obtain s d where nm: "div_normalise mem ns a b snum dvs = Some (s, d)"
    and ws: "bn_width s \<le> max (bn_width a) (bn_width b) + 4"
    using div_normalise_room [OF ok(1,2) c(1-4) an] by blast
  note sp = div_normalise_spec [OF ok(1,2) c(1,2) bz ns_def nm]
  have wn: "bn_width s \<le> n" using ws n by simp
  obtain s' r' where into: "div_into mem tmp s d (bn_neg a \<noteq> bn_neg b) f = (Some s', r')" and w': "bn_width s' \<le> bn_width s"
    using div_into_room [OF rf(1) c(5) wn, of d] sp by blast
  have z: "\<not> BN_is_zero b" using BN_is_zero_spec [OF ok(2)] bz by simp
  show ?thesis
  proof (cases r)
    case None
    then show ?thesis
      unfolding BN_div_def prod.case ctx ns_def [symmetric] list.case Let_def f nm option.case into
      by (simp add: not_bad_padding z)
  next
    case (Some x)
    then obtain y where "BN_rshift mem s' (int (ns + 64)) x = (Some (), y)"
      using works [OF BN_rshift_room [of mem n x s' "int (ns + 64)"]] room(3) w' wn by auto
    then show ?thesis
      unfolding BN_div_def prod.case ctx ns_def [symmetric] list.case Let_def f nm option.case into
      using Some by (simp add: not_bad_padding z)
  qed
qed

section \<open>Division by a word and by a power of two\<close>

text \<open>The words of \<open>a\<close> from the top; the result is the quotient's words and the remainder.\<close>

fun div_word_loop :: "bn_ulong \<Rightarrow> nat \<Rightarrow> bn_ulong \<Rightarrow> bn_ulong list \<Rightarrow> bn_ulong \<times> bn_ulong list" where
  "div_word_loop w 0 ret d = (ret, d)"
| "div_word_loop w (Suc i) ret d =
     (let l = d ! i; (q, _) = bn_div_rem_words ret l w in div_word_loop w i (l - q * w) (d[i := q]))"

definition BN_div_word :: "bn_mem \<Rightarrow> bn_ulong \<Rightarrow> bignum \<Rightarrow> bn_ulong \<times> bignum" where
  "BN_div_word mem w a =
     (if w = 0 then (- 1, a)
      else if bn_width a = 0 then (0, a)
      else
        let j = 64 - BN_num_bits_word w; w = push_bit j w
        in case BN_lshift mem a (int j) a of
             (None, a) \<Rightarrow> (- 1, a)
           | (Some _, a) \<Rightarrow>
               let (ret, d) = div_word_loop w (bn_width a) 0 (bn_d a)
               in (drop_bit j ret, bn_set_minimal_width (a\<lparr>bn_d := d\<rparr>)))"

fun mod_word_loop :: "bn_ulong \<Rightarrow> nat \<Rightarrow> bn_ulong list \<Rightarrow> bn_ullong \<Rightarrow> bn_ullong" where
  "mod_word_loop w 0 d ret = ret"
| "mod_word_loop w (Suc i) d ret = mod_word_loop w i d ((push_bit 64 ret OR wide (d ! i)) mod wide w)"

definition BN_mod_word :: "bignum \<Rightarrow> bn_ulong \<Rightarrow> bn_ulong" where
  "BN_mod_word a w = (if w = 0 then - 1 else Lw (mod_word_loop w (bn_width a) (bn_d a) 0))"

definition mask_top :: "nat \<Rightarrow> nat \<Rightarrow> bn_ulong list \<Rightarrow> bn_ulong list" where
  "mask_top e num_words d =
     (if e mod 64 \<noteq> 0 then d[num_words - 1 := d ! (num_words - 1) AND (push_bit (e mod 64) 1 - 1)] else d)"

definition BN_mod_pow2 :: "bn_mem \<Rightarrow> bignum \<Rightarrow> nat \<Rightarrow> bignum \<Rightarrow> unit option \<times> bignum" where
  "BN_mod_pow2 mem a e r =
     (if e = 0 \<or> bn_width a = 0 then (Some (), BN_zero r)
      else
        let num_words = 1 + (e - 1) div 64
        in if bn_width a < num_words then BN_copy mem a r
           else on_ok (bn_wexpand mem num_words r) (\<lambda>_ r.
             let d = mask_top e num_words (blit (bn_d r) 0 (take num_words (bn_d a)))
             in (Some (), bn_set_minimal_width (r\<lparr>bn_d := d, bn_neg := bn_neg a, bn_width := num_words\<rparr>))))"

definition BN_nnmod_pow2 :: "bn_mem \<Rightarrow> bignum \<Rightarrow> nat \<Rightarrow> bignum \<Rightarrow> unit option \<times> bignum" where
  "BN_nnmod_pow2 mem a e r =
     on_ok (BN_mod_pow2 mem a e r) (\<lambda>_ r.
       if BN_is_zero r \<or> \<not> bn_neg r then (Some (), r)
       else
         let num_words = 1 + (e - 1) div 64
         in on_ok (bn_wexpand mem num_words r) (\<lambda>_ r.
              let d = blit (bn_d r) (bn_width r) (replicate (num_words - bn_width r) 0);
                  d = blit d 0 (map (\<lambda>x. NOT x) (take num_words d));
                  r = bn_set_minimal_width (r\<lparr>bn_d := mask_top e num_words d, bn_neg := False, bn_width := num_words\<rparr>)
              in BN_add mem r BN_value_one r))"

lemma div_word_loop_spec:
  assumes "i \<le> length d" "w \<noteq> 0" "ret < w" "div_word_loop w i ret d = (ret', d')"
  shows "length d' = length d \<and> drop i d' = drop i d \<and> unat ret' < unat w \<and>
    words_val (take i d) + beta ^ i * unat ret = words_val (take i d') * unat w + unat ret'"
  using assms(1,3,4)
proof (induction i arbitrary: ret d)
  case 0
  then show ?case by (simp add: word_less_nat_alt)
next
  case (Suc i)
  obtain q rm where q: "bn_div_rem_words ret (d ! i) w = (q, rm)" by fastforce
  note qs = bn_div_rem_words_spec [OF Suc.prems(2) q]
  have rm: "rm = d ! i - q * w" using q by (auto simp: bn_div_rem_words_def Let_def)
  have "rm < w" using qs assms(2) unat_pos [of w] by (simp add: word_less_nat_alt)
  note IH = Suc.IH [OF _ this, of "d[i := q]"]
  have loop: "div_word_loop w i rm (d[i := q]) = (ret', d')" using Suc.prems(3) q rm by simp
  have i: "i < length d" using Suc.prems(1) by simp
  have d': "length d' = length d" "drop i d' = drop i (d[i := q])" "unat ret' < unat w"
    "words_val (take i d) + beta ^ i * unat rm = words_val (take i d') * unat w + unat ret'"
    using IH loop i by simp_all
  have "d' ! i = q" using arg_cong [OF d'(2), of hd] i d'(1) by (simp add: hd_drop_conv_nth)
  then have t': "words_val (take (Suc i) d') = words_val (take i d') + beta ^ i * unat q"
    using i d'(1) by (simp add: take_Suc_conv_app_nth words_val_append)
  have t: "words_val (take (Suc i) d) = words_val (take i d) + beta ^ i * unat (d ! i)"
    using i by (simp add: take_Suc_conv_app_nth words_val_append)
  have "beta * unat ret + unat (d ! i) = unat q * unat w + unat rm" using qs by simp
  then have "beta ^ i * (beta * unat ret + unat (d ! i)) = beta ^ i * (unat q * unat w + unat rm)" by simp
  then have "words_val (take (Suc i) d) + beta ^ Suc i * unat ret = words_val (take (Suc i) d') * unat w + unat ret'"
    using d'(4) t t' by (simp add: algebra_simps)
  moreover have "drop (Suc i) d' = drop (Suc i) d" using arg_cong [OF d'(2), of "drop 1"] by simp
  ultimately show ?case using d' by simp
qed

lemma normalised_word:
  assumes "w \<noteq> 0"
  shows "unat (push_bit (64 - BN_num_bits_word w) w) = unat w * 2 ^ (64 - BN_num_bits_word w)"
proof -
  define b where "b = BN_num_bits_word w"
  have "unat w \<noteq> 0" using assms unat_pos [of w] by simp
  note bl = bit_len_bounds [OF this, folded BN_num_bits_word_spec b_def]
  have "b \<le> 64"
  proof (rule ccontr)
    assume "\<not> b \<le> 64"
    then have "(2::nat) ^ 64 \<le> 2 ^ (b - 1)" by (intro power_increasing) auto
    then show False using bl unat_less_beta [of w] by (simp add: beta_def)
  qed
  then have "(2::nat) ^ b * 2 ^ (64 - b) = beta" by (simp add: beta_def flip: power_add)
  moreover have "unat w * 2 ^ (64 - b) < 2 ^ b * 2 ^ (64 - b)" using bl by simp
  ultimately show ?thesis unfolding b_def [symmetric] by (simp add: unat_push)
qed

lemma div_mod_unique: "n = q * w + r \<Longrightarrow> r < w \<Longrightarrow> q = n div w \<and> r = n mod w" for n q w r :: nat
  by simp

lemma BN_div_word_spec:
  assumes ok: "bn_ok a" "w \<noteq> 0" and room: "bn_room mem n a" "bn_width a + 2 \<le> n"
    and res: "BN_div_word mem w a = (ret, a')"
  shows "bn_ok a' \<and> bn_int a' = bn_int a sdiv int (unat w) \<and> unat ret = bn_abs a mod unat w"
proof (cases "bn_width a = 0")
  case True
  then have "bn_abs a = 0" by (simp add: bn_abs_def bn_words_def)
  then show ?thesis using True res ok by (simp add: BN_div_word_def bn_int_def)
next
  case False
  define j where "j = 64 - BN_num_bits_word w"
  define W where "W = push_bit j w"
  have W: "unat W = unat w * 2 ^ j" using normalised_word [OF ok(2)] by (simp add: W_def j_def)
  have w0: "0 < unat w" using ok(2) unat_pos [of w] by simp
  then have W0: "0 < unat W" "W \<noteq> 0" using W unat_pos [of W] by auto
  have "nat (int j) div 64 \<le> 1" by (simp add: j_def)
  then obtain e where e: "BN_lshift mem a (int j) a = (Some (), e)"
    using works [OF BN_lshift_room [OF room(1), of a "int j"]] room(2) by auto
  note es = BN_lshift_abs [OF ok(1) ok(1) e]
  have ei: "bn_int e = bn_int a * 2 ^ j" "bn_canonical e" using BN_lshift_spec [OF ok(1) ok(1) e] by simp_all
  obtain r d where l: "div_word_loop W (bn_width e) 0 (bn_d e) = (r, d)" by fastforce
  have we: "bn_width e \<le> length (bn_d e)" using es(1) by (simp add: bn_ok_def)
  have out: "ret = drop_bit j r" "a' = bn_set_minimal_width (e\<lparr>bn_d := d\<rparr>)"
    using res ok(2) False e l by (simp_all add: BN_div_word_def Let_def flip: j_def W_def)
  have "0 < W" using W0 by (simp add: word_less_nat_alt)
  note ls = div_word_loop_spec [OF we W0(2) this l]
  have "bn_abs e = words_val (take (bn_width e) d) * unat W + unat r"
    using ls by (simp add: bn_abs_def bn_words_def)
  then have qr: "words_val (take (bn_width e) d) = bn_abs e div unat W" "unat r = bn_abs e mod unat W"
    using div_mod_unique ls by blast+
  have q: "bn_abs (e\<lparr>bn_d := d\<rparr>) = bn_abs a div unat w"
    using qr(1) es(2) W by (simp add: bn_abs_def [of "e\<lparr>bn_d := d\<rparr>"] bn_words_def)
  have r: "unat ret = bn_abs a mod unat w"
  proof -
    have "unat ret = unat r div 2 ^ j" unfolding out(1) unat_drop_bit_eq by (rule drop_bit_eq_div)
    then show ?thesis using qr(2) es(2) W by simp
  qed
  have "bn_ok (e\<lparr>bn_d := d\<rparr>)" using es(1) ls by (simp add: bn_ok_def)
  note m = bn_set_minimal_width_spec [OF this, folded out(2)]
  have "bn_int (e\<lparr>bn_d := d\<rparr>) = bn_int a sdiv int (unat w)"
  proof -
    have "bn_neg e = (bn_neg a \<and> bn_abs a \<noteq> 0)"
      using ei es(2) by (auto simp: bn_int_def bn_canonical_def split: if_splits)
    moreover define m where "m = unat w"
    ultimately show ?thesis
      using q w0 unfolding m_def [symmetric] by (auto simp: bn_int_def signed_divide_int_def sgn_if zdiv_int)
  qed
  then show ?thesis using m r by simp
qed

lemma mod_word_loop_spec:
  assumes "i \<le> length d" "w \<noteq> 0" "unat ret < unat w"
  shows "unat (mod_word_loop w i d ret) = (words_val (take i d) + beta ^ i * unat ret) mod unat w"
  using assms(1,3)
proof (induction i arbitrary: ret)
  case (Suc i)
  have "unat ret < beta" using Suc.prems(2) unat_less_beta [of w] by linarith
  then have wr: "ret = wide (Lw ret)" by (simp add: word_unat_eq_iff unat_Lw)
  define t where "t = (push_bit 64 ret OR wide (d ! i)) mod wide w"
  have j: "push_bit 64 ret OR wide (d ! i) = join_words (Lw ret) (d ! i)"
    unfolding join_words_def by (simp only: wr [symmetric])
  have lw: "unat (Lw ret) = unat ret" using \<open>unat ret < beta\<close> by (simp add: unat_Lw)
  have t: "unat t = (beta * unat ret + unat (d ! i)) mod unat w"
    unfolding t_def j unat_mod_distrib unat_join_words unat_wide lw ..
  then have "unat t < unat w" using assms(2) unat_pos [of w] by simp
  then have "unat (mod_word_loop w (Suc i) d ret) = (words_val (take i d) + beta ^ i * unat t) mod unat w"
    using Suc by (simp add: t_def)
  also have "\<dots> = (words_val (take i d) + beta ^ i * (beta * unat ret + unat (d ! i))) mod unat w"
    unfolding t by (metis mod_add_right_eq mod_mult_right_eq)
  also have "words_val (take i d) + beta ^ i * (beta * unat ret + unat (d ! i)) =
      words_val (take (Suc i) d) + beta ^ Suc i * unat ret"
    using Suc.prems(1) by (simp add: take_Suc_conv_app_nth words_val_append algebra_simps)
  finally show ?case .
qed simp

lemma BN_mod_word_spec:
  assumes "bn_ok a" "w \<noteq> 0"
  shows "unat (BN_mod_word a w) = bn_abs a mod unat w"
proof -
  have "bn_width a \<le> length (bn_d a)" using assms(1) by (simp add: bn_ok_def)
  from mod_word_loop_spec [OF this assms(2), of 0] assms(2) unat_pos [of w]
  have m: "unat (mod_word_loop w (bn_width a) (bn_d a) 0) = bn_abs a mod unat w"
    by (simp add: bn_abs_def bn_words_def)
  then have "unat (mod_word_loop w (bn_width a) (bn_d a) 0) < beta"
    using assms(2) unat_pos [of w] unat_less_beta [of w] by (metis mod_less_divisor order_less_trans)
  then show ?thesis using assms(2) m by (simp add: BN_mod_word_def unat_Lw)
qed

lemma words_cover: "e \<le> 64 * (1 + (e - 1) div 64)" for e :: nat
proof (cases e)
  case (Suc m)
  then show ?thesis using dividend_less_times_div [of 64 m] by simp
qed simp

lemma power_dvd_beta: "e \<le> 64 * n \<Longrightarrow> (2::nat) ^ e dvd beta ^ n"
proof -
  assume "e \<le> 64 * n"
  then have "(2::nat) ^ e dvd 2 ^ (64 * n)" by (rule le_imp_power_dvd)
  then show ?thesis by (simp only: beta_def power_mult)
qed

lemma mask_top_spec:
  assumes "0 < e" "nw = 1 + (e - 1) div 64" "nw \<le> length d"
  shows "length (mask_top e nw d) = length d \<and> words_val (take nw (mask_top e nw d)) = words_val (take nw d) mod 2 ^ e"
proof (cases "e mod 64 = 0")
  case True
  then obtain q where q: "e = 64 * q" by auto
  then have "(64 * q - 1) div 64 = q - 1" "0 < q" using assms(1) by linarith+
  then have "e = 64 * nw" using assms(2) q by simp
  then have "(2::nat) ^ e = beta ^ nw" by (simp add: beta_def power_mult)
  moreover have "words_val (take nw d) < beta ^ nw" using words_val_less [of "take nw d"] assms(3) by simp
  ultimately show ?thesis using True by (simp add: mask_top_def)
next
  case False
  define k where "k = e mod 64"
  define m where "m = nw - 1"
  define q where "q = e div 64"
  have ek: "e = 64 * q + k" by (simp add: k_def q_def)
  have "0 < k" "k < 64" using False by (simp_all add: k_def)
  then have "(64 * q + k - 1) div 64 = q" by linarith
  then have "nw = Suc q" using assms(2) unfolding ek [symmetric] by simp
  then have m: "nw = Suc m" "e = 64 * m + k" using ek by (simp_all only: m_def diff_Suc_1)
  define t where "t = d ! m"
  have pe: "(2::nat) ^ e = beta ^ m * 2 ^ k" by (simp add: m beta_def power_add power_mult)
  have tm: "unat (t AND (push_bit k 1 - 1)) = unat t mod 2 ^ k"
  proof -
    have "push_bit k 1 - 1 = (mask k :: bn_ulong)" by (simp add: mask_eq_exp_minus_1 push_bit_eq_mult)
    then have "t AND (push_bit k 1 - 1) = take_bit k t" by (simp add: take_bit_eq_mask)
    then show ?thesis by (simp only: unsigned_take_bit_eq) (rule take_bit_eq_mod)
  qed
  have md: "m < length d" using assms(3) m(1) by simp
  have less: "words_val (take m d) < beta ^ m" using words_val_less [of "take m d"] md by simp
  have split: "words_val (take nw x) = words_val (take m x) + beta ^ m * unat (x ! m)" if "m < length x" for x
    using that by (simp add: m(1) take_Suc_conv_app_nth words_val_append)
  have "words_val (take nw d) mod 2 ^ e = words_val (take m d) + beta ^ m * (unat t mod 2 ^ k)"
    unfolding pe mod_mult2_eq split [OF md] using less by (simp add: t_def)
  moreover have "mask_top e nw d = d[m := t AND (push_bit k 1 - 1)]"
    using False by (simp add: mask_top_def t_def m(1) k_def)
  ultimately show ?thesis using md split [of "d[m := t AND (push_bit k 1 - 1)]"] tm by simp
qed

lemma words_val_not: "words_val (map (\<lambda>x. NOT x) ws) + words_val ws + 1 = beta ^ length ws"
proof (induction ws)
  case (Cons w ws)
  have "unat (NOT w) + unat w + 1 = beta"
  proof -
    have "NOT w = - 1 - w" by (simp add: not_eq_complement)
    then have "unat (NOT w) = unat (- 1 :: bn_ulong) - unat w" by (simp only: unat_sub [OF word_order.extremum])
    moreover have "unat (- 1 :: bn_ulong) = beta - 1" by (simp add: beta_def unsigned_minus_1_eq_mask mask_eq_exp_minus_1)
    ultimately show ?thesis using unat_less_beta [of w] by linarith
  qed
  moreover have "beta * (words_val (map (\<lambda>x. NOT x) ws) + words_val ws + 1) = beta * beta ^ length ws"
    using Cons by simp
  ultimately show ?case by (simp add: algebra_simps)
qed simp

lemma BN_mod_pow2_spec:
  assumes ok: "bn_ok a" "bn_ok r" and res: "BN_mod_pow2 mem a e r = (Some u, r')"
  shows "bn_ok r' \<and> bn_int r' = bn_int a smod 2 ^ e \<and> (bn_canonical a \<longrightarrow> bn_canonical r') \<and>
    (e \<noteq> 0 \<longrightarrow> bn_width r' \<le> 1 + (e - 1) div 64)"
proof (cases "e = 0 \<or> bn_width a = 0")
  case True
  then have "bn_int a smod 2 ^ e = 0"
    by (auto simp: bn_int_def bn_abs_def bn_words_def signed_modulo_int_def)
  then show ?thesis using True res BN_zero_spec(1) [OF ok(2)] BN_zero_spec(2,3) by (auto simp: BN_mod_pow2_def BN_zero_def)
next
  case nz: False
  define nw where "nw = 1 + (e - 1) div 64"
  have sm: "bn_int a smod 2 ^ e = (if bn_neg a then - int (bn_abs a mod 2 ^ e) else int (bn_abs a mod 2 ^ e))"
    by (auto simp: signed_modulo_int_def bn_int_def sgn_if zmod_int)
  show ?thesis
  proof (cases "bn_width a < nw")
    case True
    have c: "BN_copy mem a r = (Some u, r')"
      using res unfolding BN_mod_pow2_def Let_def if_not_P [OF nz] nw_def [symmetric] if_P [OF True] .
    have "bn_abs a < beta ^ bn_width a" by (rule bn_abs_less [OF ok(1)])
    also have "\<dots> = 2 ^ (64 * bn_width a)" by (simp add: beta_def power_mult)
    also have "\<dots> \<le> 2 ^ e"
      using True nz unfolding nw_def by (intro power_increasing) auto
    finally have "bn_int a smod 2 ^ e = bn_int a" unfolding sm by (simp add: bn_int_def)
    moreover have "bn_width r' = bn_width a \<and> bn_neg r' = bn_neg a"
      using c by (auto simp: BN_copy_def elim!: on_ok_unit)
    ultimately show ?thesis using BN_copy_spec [OF ok c] True by (simp add: bn_canonical_def nw_def)
  next
    case False
    then obtain x where x: "bn_wexpand mem nw r = (Some (), x)"
      and r': "r' = bn_set_minimal_width (x\<lparr>bn_d := mask_top e nw (blit (bn_d x) 0 (take nw (bn_d a))),
        bn_neg := bn_neg a, bn_width := nw\<rparr>)"
      using res unfolding BN_mod_pow2_def Let_def if_not_P [OF nz] nw_def [symmetric] if_not_P [OF False]
      by (auto elim: on_ok_unit)
    note e = bn_wexpand_ok [OF x ok(2)]
    define d where "d = blit (bn_d x) 0 (take nw (bn_d a))"
    have la: "nw \<le> length (bn_d a)" using False ok(1) by (simp add: bn_ok_def)
    have d: "take nw d = take nw (bn_d a)" "length d = bn_dmax x" "nw \<le> length d"
      using la e(1,3) by (simp_all add: d_def words_val_blit bn_ok_def)
    note m = mask_top_spec [OF _ nw_def d(3)]
    define b where "b = x\<lparr>bn_d := mask_top e nw d, bn_neg := bn_neg a, bn_width := nw\<rparr>"
    have b: "bn_ok b" using e m d nz by (simp add: b_def bn_ok_def)
    have "bn_abs a mod 2 ^ e = words_val (take nw (bn_d a)) mod 2 ^ e"
    proof -
      have "take nw (bn_words a) = take nw (bn_d a)" using False by (simp add: bn_words_def min_def)
      then have "bn_abs a = words_val (take nw (bn_d a)) + beta ^ nw * words_val (drop nw (bn_words a))"
        using words_val_prefix [of nw "bn_words a"] False ok(1) by (simp add: bn_abs_def)
      moreover have "e \<le> 64 * nw" unfolding nw_def by (rule words_cover)
      then have "(2::nat) ^ e dvd beta ^ nw" by (rule power_dvd_beta)
      then obtain c where "beta ^ nw = 2 ^ e * c" by (rule dvdE)
      ultimately show ?thesis by (simp add: mult.assoc)
    qed
    then have "bn_abs b = bn_abs a mod 2 ^ e"
      using m d nz by (simp add: b_def bn_abs_def [of b, unfolded b_def] bn_words_def)
    moreover have "bn_neg b = bn_neg a" by (simp add: b_def)
    ultimately have "bn_int b = bn_int a smod 2 ^ e" unfolding sm by (simp add: bn_int_def [of b])
    moreover have rb: "r' = bn_set_minimal_width b" unfolding r' b_def d_def ..
    moreover have "bn_width r' \<le> nw" using bn_width_minimal [of b] unfolding rb by (simp add: b_def)
    ultimately show ?thesis using bn_set_minimal_width_spec [OF b] unfolding nw_def by simp
  qed
qed

lemma complement_mod:
  fixes y x p :: nat
  assumes "y + x + 1 = p * c" "x < p"
  shows "y mod p + x + 1 = p"
proof -
  obtain k where k: "c = Suc k" using assms by (cases c) auto
  then have "y = (p - 1 - x) + p * k" using assms by simp
  then have "y mod p = (p - 1 - x) mod p" by (simp only: mod_mult_self2)
  then have "y mod p = p - 1 - x" using assms(2) by simp
  then show ?thesis using assms(2) by simp
qed

lemma BN_nnmod_pow2_spec:
  assumes ok: "bn_ok a" "bn_ok r" and res: "BN_nnmod_pow2 mem a e r = (Some u, r')"
  shows "bn_ok r' \<and> bn_int r' = bn_int a mod 2 ^ e"
proof -
  obtain p where p: "BN_mod_pow2 mem a e r = (Some (), p)"
    using res by (auto simp: BN_nnmod_pow2_def elim: on_ok_unit)
  note ps = BN_mod_pow2_spec [OF ok p]
  have md: "bn_int a mod 2 ^ e = (if bn_int p < 0 then bn_int p + 2 ^ e else bn_int p)"
    using mod_of_smod [of "2 ^ e" "bn_int a"] ps by simp
  show ?thesis
  proof (cases "BN_is_zero p \<or> \<not> bn_neg p")
    case True
    then have "\<not> bn_int p < 0" using BN_is_zero_spec [OF conjunct1 [OF ps]] by (auto simp: bn_int_def [of p])
    then show ?thesis using res p True ps md by (simp add: BN_nnmod_pow2_def)
  next
    case False
    define nw where "nw = 1 + (e - 1) div 64"
    obtain x where x: "bn_wexpand mem nw p = (Some (), x)"
      using res p False unfolding BN_nnmod_pow2_def p on_ok.simps if_not_P [OF False] Let_def nw_def [symmetric]
      by (auto elim: on_ok_unit)
    note xs = bn_wexpand_ok [OF x conjunct1 [OF ps]]
    define z where "z = blit (bn_d x) (bn_width x) (replicate (nw - bn_width x) 0)"
    define d where "d = blit z 0 (map (\<lambda>y. NOT y) (take nw z))"
    define f where "f = x\<lparr>bn_d := mask_top e nw d, bn_neg := False, bn_width := nw\<rparr>"
    define s where "s = bn_set_minimal_width f"
    have add: "BN_add mem s BN_value_one s = (Some u, r')"
      using res unfolding BN_nnmod_pow2_def p on_ok.simps if_not_P [OF False] Let_def nw_def [symmetric] x
        z_def [symmetric] d_def [symmetric] f_def [symmetric] s_def [symmetric] .
    have ip: "bn_int p = - int (bn_abs p)" "0 < bn_abs p"
      using False BN_is_zero_spec [OF conjunct1 [OF ps]] by (auto simp: bn_int_def [of p])
    have lt: "bn_abs p < 2 ^ e"
    proof -
      have "\<bar>bn_int a smod 2 ^ e\<bar> < 2 ^ e" by (auto simp: signed_modulo_int_def abs_mult sgn_if)
      then have "\<bar>bn_int p\<bar> < 2 ^ e" using ps by simp
      then have "int (bn_abs p) < 2 ^ e" using ip by linarith
      then show ?thesis by simp
    qed
    have e0: "e \<noteq> 0" using lt ip(2) by (intro notI) simp
    have wp: "bn_width x \<le> nw" using ps e0 xs(4) by (simp add: nw_def)
    have lx: "nw \<le> length (bn_d x)" "length (bn_d x) = bn_dmax x" using xs(1,3) by (simp_all add: bn_ok_def)
    have tz: "take nw z = bn_words x @ replicate (nw - bn_width x) 0"
      using take_blit_upto [of "bn_width x" "bn_d x" "replicate (nw - bn_width x) 0"] wp lx(1)
      by (simp add: z_def bn_words_def)
    have lz: "length z = length (bn_d x)" using wp lx(1) by (simp add: z_def blit_def)
    have vz: "words_val (take nw z) = bn_abs p" using tz xs(2) by (simp add: words_val_append bn_abs_def)
    have ld: "length d = length (bn_d x)" "take nw d = map (\<lambda>y. NOT y) (take nw z)"
      using lz lx(1) by (simp_all add: d_def blit_def)
    have "words_val (take nw d) + bn_abs p + 1 = beta ^ nw"
      using words_val_not [of "take nw z"] vz lz lx(1) by (simp add: ld(2))
    moreover have "e \<le> 64 * nw" unfolding nw_def by (rule words_cover)
    then have "(2::nat) ^ e dvd beta ^ nw" by (rule power_dvd_beta)
    then obtain c where c: "beta ^ nw = 2 ^ e * c" by (rule dvdE)
    ultimately have v: "words_val (take nw d) mod 2 ^ e + bn_abs p + 1 = 2 ^ e"
      using complement_mod [OF _ lt] by simp
    have ok_f: "bn_ok f"
      using mask_top_spec [OF _ nw_def, of d] e0 lx ld(1) xs(1) by (simp add: bn_ok_def f_def)
    have "bn_abs f + bn_abs p + 1 = 2 ^ e"
      using mask_top_spec [OF _ nw_def, of d] e0 lx ld(1) v
      by (simp only: bn_abs_def [of f] bn_words_def) (simp add: f_def)
    then have "int (bn_abs f + bn_abs p + 1) = 2 ^ e" by (simp only: of_nat_power of_nat_numeral)
    moreover have "bn_int s = int (bn_abs f)"
      using bn_set_minimal_width_spec(3) [OF ok_f] by (simp add: s_def bn_int_def [of f]) (simp add: f_def)
    ultimately have "bn_int s + int (bn_abs p) + 1 = 2 ^ e" by simp
    moreover have "bn_ok s" using bn_set_minimal_width_spec(1) [OF ok_f] by (simp add: s_def)
    moreover have "bn_ok BN_value_one" "bn_int BN_value_one = 1"
      by (simp_all add: BN_value_one_def bn_ok_def bn_int_def bn_abs_def bn_words_def INT_MAX_def)
    ultimately have "bn_ok r' \<and> bn_int r' = 2 ^ e - int (bn_abs p)" using BN_add_spec(1) [OF _ _ _ add] by simp
    then show ?thesis using md ip by simp
  qed
qed

section \<open>Room for the remainder\<close>

lemma BN_rshift_keeps:
  assumes "BN_rshift mem a k r = (Some u, r')"
  shows "bn_width r' \<le> bn_width a" "bn_room mem n r' = bn_room mem n r"
proof -
  have k: "\<not> k < 0" using assms by (auto simp: BN_rshift_def)
  then obtain e where e: "bn_wexpand mem (bn_width a) r = (Some (), e)"
    using assms by (auto simp: BN_rshift_def elim: on_ok_unit)
  obtain t where r': "r' = bn_set_minimal_width (e\<lparr>bn_d := t, bn_neg := bn_neg a, bn_width := bn_width a\<rparr>)"
    using assms unfolding BN_rshift_def if_not_P [OF k] e on_ok.simps by (metis prod.inject)
  show "bn_width r' \<le> bn_width a"
    using bn_width_minimal [of "e\<lparr>bn_d := t, bn_neg := bn_neg a, bn_width := bn_width a\<rparr>"] by (simp add: r')
  show "bn_room mem n r' = bn_room mem n r" using bn_wexpand_keeps_room [OF e, of n] by (simp add: r')
qed

lemma div_normalise_width:
  assumes "bn_ok a" "bn_ok b" "bn_ok snum" "bn_ok dvs" "ns \<le> 64" "div_normalise mem ns a b snum dvs = Some (s, d)"
  shows "bn_width s \<le> max (bn_width a) (bn_width b) + 4"
proof -
  have k: "nat (int ns) div 64 \<le> 1" "nat (int (ns + 64)) div 64 \<le> 2" using assms(5) by simp_all
  obtain d0 s0 where d0: "BN_lshift mem b (int ns) dvs = (Some (), d0)" "d = (bn_set_minimal_width d0)\<lparr>bn_neg := False\<rparr>"
    and s0: "BN_lshift mem a (int (ns + 64)) snum = (Some (), s0)"
      "pad_snum mem (bn_width d) ((bn_set_minimal_width s0)\<lparr>bn_neg := False\<rparr>) = (Some (), s)"
    using assms(6) by (auto simp: div_normalise_def Let_def split: prod.splits option.splits)
  have w: "bn_width d \<le> bn_width b + 2" "bn_width ((bn_set_minimal_width s0)\<lparr>bn_neg := False\<rparr>) \<le> bn_width a + 3"
    using bn_width_minimal [of d0] bn_width_minimal [of s0] BN_lshift_keeps(1) [OF d0(1) assms(2,4)]
      BN_lshift_keeps(1) [OF s0(1) assms(1,3)] k unfolding d0(2) by simp_all
  have "bn_ok ((bn_set_minimal_width s0)\<lparr>bn_neg := False\<rparr>)"
    using bn_set_minimal_width_spec(1) [OF BN_lshift_abs(1) [OF assms(1,3) s0(1)]] by simp
  from pad_snum_spec(2) [OF this s0(2)] w show ?thesis by linarith
qed

lemma div_into_width:
  assumes "div_into mem tmp s d neg res = (Some s', r')"
  shows "bn_width s' \<le> bn_width s"
proof -
  obtain v t where t: "bn_wexpand mem (bn_width d + 1) tmp = (v, t)" by fastforce
  obtain t where "s' = bn_set_minimal_width (s\<lparr>bn_d := t\<rparr>)"
    using assms unfolding div_into_def Let_def on_ok_Some t prod.case
    by (cases v) (auto simp: t case_prod_beta Let_def)
  then show ?thesis using bn_width_minimal [of "s\<lparr>bn_d := t\<rparr>"] by simp
qed

lemma BN_mod_keeps:
  assumes ok: "bn_ok a" "bn_ok b" "list_all bn_ok ctx" and res: "BN_mod mem ctx a b r = (Some u, r')"
  shows "bn_width r' \<le> max (bn_width a) (bn_width b) + 4" "bn_room mem n r' = bn_room mem n r"
proof -
  define ns where "ns = 64 - BN_num_bits b mod 64"
  have ns: "ns \<le> 64" by (simp add: ns_def)
  have "\<exists>tmp snum dvs rest s d s' q y. ctx = tmp # snum # dvs # rest \<and>
      div_normalise mem ns a b snum dvs = Some (s, d) \<and>
      div_into mem tmp s d (bn_neg a \<noteq> bn_neg b) (hd rest) = (Some s', q) \<and>
      BN_rshift mem s' (int (ns + 64)) r = (Some (), y) \<and> (r' = y \<or> r' = y\<lparr>bn_neg := bn_neg a\<rparr>)"
    using res unfolding BN_mod_def BN_div_def prod.case ns_def [symmetric] Let_def
    by (fastforce split: if_splits list.splits option.splits prod.splits)
  then obtain tmp snum dvs rest s d s' q y where x: "ctx = tmp # snum # dvs # rest"
    "div_normalise mem ns a b snum dvs = Some (s, d)"
    "div_into mem tmp s d (bn_neg a \<noteq> bn_neg b) (hd rest) = (Some s', q)"
    "BN_rshift mem s' (int (ns + 64)) r = (Some (), y)" and ry: "r' = y \<or> r' = y\<lparr>bn_neg := bn_neg a\<rparr>"
    by blast
  have w: "bn_width s \<le> max (bn_width a) (bn_width b) + 4"
    using div_normalise_width [OF ok(1,2) _ _ ns x(2)] ok(3) x(1) by simp
  have y: "bn_width y \<le> max (bn_width a) (bn_width b) + 4" "bn_room mem n y = bn_room mem n r"
    using BN_rshift_keeps [OF x(4)] div_into_width [OF x(3)] w by simp_all
  then show "bn_width r' \<le> max (bn_width a) (bn_width b) + 4" "bn_room mem n r' = bn_room mem n r"
    using ry by auto
qed

lemma BN_mod_room:
  assumes "bn_ok a" "bn_ok b" "list_all bn_ok ctx" "bn_ok r" "list_all (bn_room mem n) ctx" "bn_room mem n r"
    and "bn_int b \<noteq> 0" "4 \<le> length ctx" "max (bn_width a) (bn_width b) + 4 \<le> n"
  shows "succeeds (BN_mod mem ctx a b r)"
proof -
  have d: "succeeds (BN_div mem ctx a b (None, Some r))"
    using BN_div_room [OF assms(1-3), of None "Some r" mem n] assms(4-) by simp
  then obtain q r' where "BN_div mem ctx a b (None, Some r) = (Some (), q, r')"
    using works by (metis surj_pair)
  then show ?thesis by (auto simp: BN_mod_def split: option.split)
qed

lemma BN_nnmod_room:
  assumes "bn_ok a" "bn_ok b" "list_all bn_ok ctx" "bn_ok r" "list_all (bn_room mem n) ctx" "bn_room mem n r"
    and "bn_int b \<noteq> 0" "4 \<le> length ctx" "max (bn_width a) (bn_width b) + 5 \<le> n"
  shows "succeeds (BN_nnmod mem ctx a b r)"
proof -
  have n: "max (bn_width a) (bn_width b) + 4 \<le> n" using assms(9) by simp
  show ?thesis
    unfolding BN_nnmod_def
  proof (rule on_ok_works [OF BN_mod_room [OF assms(1-8) n]])
    fix u m assume m: "BN_mod mem ctx a b r = (Some u, m)"
    note k = BN_mod_keeps [OF assms(1-3) m]
    have "bn_ok m" using BN_mod_spec [OF assms(1-4) m] by simp
    moreover have "bn_room mem n m" using k(2) assms(6) by simp
    moreover have "max (bn_width m) (bn_width b) + 1 \<le> n" using k(1) assms(9) by simp
    ultimately show "succeeds (if \<not> bn_neg m then (Some (), m) else if bn_neg b then BN_sub mem m b m else BN_add mem m b m)"
      using BN_sub_room [of m b m mem n] BN_add_room [of m b m mem n] assms(2) by simp
  qed
qed

lemma smod_bounds:
  fixes a b :: int
  assumes "b \<noteq> 0"
  shows "\<bar>a smod b\<bar> < \<bar>b\<bar>" "0 \<le> (a smod b) * a"
proof -
  define m where "m = \<bar>a\<bar> mod \<bar>b\<bar>"
  have m: "0 \<le> m" "m < \<bar>b\<bar>" using assms by (simp_all add: m_def)
  have e: "a smod b = sgn a * m" by (simp add: signed_modulo_int_def m_def)
  show "\<bar>a smod b\<bar> < \<bar>b\<bar>" unfolding e using m by (cases a "0::int" rule: linorder_cases) simp_all
  have "(a smod b) * a = \<bar>a\<bar> * m" unfolding e by (cases a "0::int" rule: linorder_cases) simp_all
  then show "0 \<le> (a smod b) * a" using m by simp
qed

end
