(* ===== verification/Cbs.thy ===== *)
theory Cbs
  imports Mem
begin

text \<open>
  \<open>crypto/bytestring/cbs.c\<close> of BoringSSL: the parser object \<open>CBS\<close>, which reads big-endian
  integers, length-prefixed strings and DER elements from a byte string. A \<open>CBS\<close> is the
  memory from its data pointer to the end of the object it points into, and the length of the
  part it may read; \<open>cbs_wf\<close> says that this part lies inside the object. Every function
  returns its result (\<open>None\<close> for the C functions' 0) and the \<open>CBS\<close> as it leaves it, on
  failure too. An output parameter that is a \<open>CBS\<close> is a \<open>cbs\<close> in the result.
\<close>

section \<open>The parser object\<close>

record cbs =
  cbs_data :: bytes
  cbs_len :: nat

type_synonym 'a reader = "cbs \<Rightarrow> 'a option \<times> cbs"

definition CBS_init :: "bytes \<Rightarrow> nat \<Rightarrow> cbs" where
  "CBS_init data n = \<lparr>cbs_data = data, cbs_len = n\<rparr>"

definition cbs_get :: "cbs \<Rightarrow> nat \<Rightarrow> bytes option \<times> cbs" where
  "cbs_get c n =
     (if cbs_len c < n then (None, c)
      else (Some (cbs_data c), \<lparr>cbs_data = drop n (cbs_data c), cbs_len = cbs_len c - n\<rparr>))"

definition CBS_skip :: "nat \<Rightarrow> unit reader" where
  "CBS_skip n c = on_ok (cbs_get c n) (\<lambda>_ c'. (Some (), c'))"

definition CBS_data :: "cbs \<Rightarrow> bytes" where
  "CBS_data c = cbs_data c"

definition CBS_len :: "cbs \<Rightarrow> nat" where
  "CBS_len c = cbs_len c"

definition CBS_stow :: "(nat \<Rightarrow> bytes option) \<Rightarrow> cbs \<Rightarrow> (bytes option \<times> nat) option" where
  "CBS_stow mem c =
     (if cbs_len c = 0 then Some (None, 0)
      else case OPENSSL_memdup mem (cbs_data c) (cbs_len c) of
        None \<Rightarrow> None
      | Some p \<Rightarrow> Some (Some p, cbs_len c))"

definition CBS_strdup :: "(nat \<Rightarrow> bytes option) \<Rightarrow> cbs \<Rightarrow> bytes option" where
  "CBS_strdup mem c = OPENSSL_strndup mem (Some (cbs_data c)) (cbs_len c)"

definition CBS_contains_zero_byte :: "cbs \<Rightarrow> bool" where
  "CBS_contains_zero_byte c \<longleftrightarrow> 0 \<in> set (take (cbs_len c) (cbs_data c))"

definition CBS_mem_equal :: "cbs \<Rightarrow> bytes \<Rightarrow> nat \<Rightarrow> bool" where
  "CBS_mem_equal c data n \<longleftrightarrow> n = cbs_len c \<and> CRYPTO_memcmp (cbs_data c) data n = 0"

section \<open>Integers\<close>

definition cbs_get_u :: "nat \<Rightarrow> u64 reader" where
  "cbs_get_u n c =
     on_ok (cbs_get c n) (\<lambda>data c'.
       (Some (foldl (\<lambda>result b. push_bit 8 result OR ucast b) 0 (take n data)), c'))"

definition CBS_get_u8 :: "u8 reader" where
  "CBS_get_u8 c = on_ok (cbs_get c 1) (\<lambda>v c'. (Some (v ! 0), c'))"

definition CBS_get_u16 :: "u16 reader" where
  "CBS_get_u16 c = on_ok (cbs_get_u 2 c) (\<lambda>v c'. (Some (ucast v), c'))"

definition CRYPTO_bswap2 :: "u16 \<Rightarrow> u16" where
  "CRYPTO_bswap2 x = drop_bit 8 x OR push_bit 8 x"

definition CRYPTO_bswap4 :: "u32 \<Rightarrow> u32" where
  "CRYPTO_bswap4 x =
     (let x = drop_bit 16 x OR push_bit 16 x
      in drop_bit 8 (x AND 0xff00ff00) OR push_bit 8 (x AND 0x00ff00ff))"

definition CRYPTO_bswap8 :: "u64 \<Rightarrow> u64" where
  "CRYPTO_bswap8 x =
     ucast (CRYPTO_bswap4 (ucast (drop_bit 32 x))) OR push_bit 32 (ucast (CRYPTO_bswap4 (ucast x)))"

definition CBS_get_u16le :: "u16 reader" where
  "CBS_get_u16le c = on_ok (CBS_get_u16 c) (\<lambda>v c'. (Some (CRYPTO_bswap2 v), c'))"

definition CBS_get_u24 :: "u32 reader" where
  "CBS_get_u24 c = on_ok (cbs_get_u 3 c) (\<lambda>v c'. (Some (ucast v), c'))"

definition CBS_get_u32 :: "u32 reader" where
  "CBS_get_u32 c = on_ok (cbs_get_u 4 c) (\<lambda>v c'. (Some (ucast v), c'))"

definition CBS_get_u32le :: "u32 reader" where
  "CBS_get_u32le c = on_ok (CBS_get_u32 c) (\<lambda>v c'. (Some (CRYPTO_bswap4 v), c'))"

definition CBS_get_u64 :: "u64 reader" where
  "CBS_get_u64 c = cbs_get_u 8 c"

definition CBS_get_u64le :: "u64 reader" where
  "CBS_get_u64le c = on_ok (cbs_get_u 8 c) (\<lambda>v c'. (Some (CRYPTO_bswap8 v), c'))"

definition CBS_get_last_u8 :: "u8 reader" where
  "CBS_get_last_u8 c =
     (if cbs_len c = 0 then (None, c)
      else (Some (cbs_data c ! (cbs_len c - 1)), c\<lparr>cbs_len := cbs_len c - 1\<rparr>))"

definition CBS_get_bytes :: "nat \<Rightarrow> cbs reader" where
  "CBS_get_bytes n c = on_ok (cbs_get c n) (\<lambda>v c'. (Some (CBS_init v n), c'))"

definition CBS_copy_bytes :: "nat \<Rightarrow> bytes reader" where
  "CBS_copy_bytes n c = on_ok (cbs_get c n) (\<lambda>v c'. (Some (take n v), c'))"

definition cbs_get_length_prefixed :: "nat \<Rightarrow> cbs reader" where
  "cbs_get_length_prefixed len_len c =
     on_ok (cbs_get_u len_len c) (\<lambda>n c'. CBS_get_bytes (unat n) c')"

definition CBS_get_u8_length_prefixed :: "cbs reader" where
  "CBS_get_u8_length_prefixed = cbs_get_length_prefixed 1"

definition CBS_get_u16_length_prefixed :: "cbs reader" where
  "CBS_get_u16_length_prefixed = cbs_get_length_prefixed 2"

definition CBS_get_u24_length_prefixed :: "cbs reader" where
  "CBS_get_u24_length_prefixed = cbs_get_length_prefixed 3"

lemma CBS_get_u8_decreases: "CBS_get_u8 c = (Some b, c') \<Longrightarrow> cbs_len c' < cbs_len c"
  by (auto simp: CBS_get_u8_def cbs_get_def on_ok_Some split: if_splits)

text \<open>The \<open>do\<close> loop of \<open>parse_base128_integer\<close>; every turn consumes a byte.\<close>

function parse_base128_loop :: "cbs \<Rightarrow> u64 \<Rightarrow> u64 option \<times> cbs" where
  "parse_base128_loop c v =
     on_ok (CBS_get_u8 c) (\<lambda>b c'.
       if drop_bit (64 - 7) v \<noteq> 0 then (None, c')
       else if v = 0 \<and> b = 0x80 then (None, c')
       else let v' = push_bit 7 v OR (ucast b AND 0x7f)
            in if b AND 0x80 \<noteq> 0 then parse_base128_loop c' v' else (Some v', c'))"
  by pat_completeness auto
termination
  by (relation "measure (\<lambda>(c, v). cbs_len c)") (auto dest: CBS_get_u8_decreases)

declare parse_base128_loop.simps [simp del]

definition parse_base128_integer :: "u64 reader" where
  "parse_base128_integer c = parse_base128_loop c 0"

section \<open>ASN.1 elements\<close>

definition CBS_ASN1_TAG_SHIFT :: nat where "CBS_ASN1_TAG_SHIFT = 24"
definition CBS_ASN1_CONSTRUCTED :: u32 where "CBS_ASN1_CONSTRUCTED = push_bit CBS_ASN1_TAG_SHIFT 0x20"
definition CBS_ASN1_TAG_NUMBER_MASK :: u32 where
  "CBS_ASN1_TAG_NUMBER_MASK = push_bit (5 + CBS_ASN1_TAG_SHIFT) 1 - 1"
definition CBS_ASN1_BOOLEAN :: u32 where "CBS_ASN1_BOOLEAN = 1"
definition CBS_ASN1_INTEGER :: u32 where "CBS_ASN1_INTEGER = 2"
definition CBS_ASN1_OCTETSTRING :: u32 where "CBS_ASN1_OCTETSTRING = 4"

definition parse_asn1_tag :: "u32 reader" where
  "parse_asn1_tag c =
     on_ok (CBS_get_u8 c) (\<lambda>tag_byte c1.
       let tag = push_bit CBS_ASN1_TAG_SHIFT (ucast tag_byte AND 0xe0);
           tag_number = ucast (tag_byte AND 0x1f)
       in if tag_number = 0x1f
          then on_ok (parse_base128_integer c1) (\<lambda>v c2.
                 if v > ucast CBS_ASN1_TAG_NUMBER_MASK \<or> v < 0x1f then (None, c2)
                 else (Some (tag OR ucast v), c2))
          else (Some (tag OR tag_number), c1))"

text \<open>
  The element's length test works on a copy \<open>header\<close> of the parser; only the final
  \<open>CBS_get_bytes\<close> moves the parser itself. The result is the element (header included), its
  tag and the length of its header.
\<close>

definition asn1_element_length ::
  "bool \<Rightarrow> cbs \<Rightarrow> u32 \<Rightarrow> cbs \<Rightarrow> nat \<Rightarrow> u8 \<Rightarrow> (cbs \<times> u32 \<times> nat) option \<times> cbs" where
  "asn1_element_length ber_ok c tag header header_len length_byte =
     (if length_byte AND 0x80 = 0
      then on_ok (CBS_get_bytes (unat length_byte + header_len) c)
             (\<lambda>out c'. (Some (out, tag, header_len), c'))
      else
        let num_bytes = unat (length_byte AND 0x7f)
        in if ber_ok \<and> tag AND CBS_ASN1_CONSTRUCTED \<noteq> 0 \<and> num_bytes = 0
           then on_ok (CBS_get_bytes header_len c) (\<lambda>out c'. (Some (out, tag, header_len), c'))
           else if num_bytes = 0 \<or> num_bytes > 4 then (None, c)
           else
             (case cbs_get_u num_bytes header of
                (None, _) \<Rightarrow> (None, c)
              | (Some len64, _) \<Rightarrow>
                if len64 < 128 then (None, c)
                else if drop_bit ((num_bytes - 1) * 8) len64 = 0 then (None, c)
                else
                  let n = unat len64
                  in if size_add n (header_len + num_bytes) < n then (None, c)
                     else on_ok (CBS_get_bytes (n + (header_len + num_bytes)) c)
                            (\<lambda>out c'. (Some (out, tag, header_len + num_bytes), c'))))"

definition cbs_get_any_asn1_element :: "bool \<Rightarrow> (cbs \<times> u32 \<times> nat) reader" where
  "cbs_get_any_asn1_element ber_ok c =
     (case parse_asn1_tag c of
        (None, _) \<Rightarrow> (None, c)
      | (Some tag, header) \<Rightarrow>
        (case CBS_get_u8 header of
           (None, _) \<Rightarrow> (None, c)
         | (Some length_byte, header') \<Rightarrow>
           asn1_element_length ber_ok c tag header' (CBS_len c - CBS_len header') length_byte))"

definition CBS_get_any_asn1_element :: "(cbs \<times> u32 \<times> nat) reader" where
  "CBS_get_any_asn1_element = cbs_get_any_asn1_element False"

definition CBS_get_any_ber_asn1_element :: "(cbs \<times> u32 \<times> nat) reader" where
  "CBS_get_any_ber_asn1_element = cbs_get_any_asn1_element True"

definition CBS_get_any_asn1 :: "(cbs \<times> u32) reader" where
  "CBS_get_any_asn1 c =
     on_ok (CBS_get_any_asn1_element c) (\<lambda>(out, tag, header_len) c'.
       case CBS_skip header_len out of
         (None, _) \<Rightarrow> (None, c')
       | (Some _, out') \<Rightarrow> (Some (out', tag), c'))"

definition cbs_get_asn1 :: "u32 \<Rightarrow> bool \<Rightarrow> cbs reader" where
  "cbs_get_asn1 tag_value skip_header c =
     on_ok (CBS_get_any_asn1_element c) (\<lambda>(out, tag, header_len) c'.
       if tag \<noteq> tag_value then (None, c')
       else if skip_header then
         (case CBS_skip header_len out of
            (None, _) \<Rightarrow> (None, c')
          | (Some _, out') \<Rightarrow> (Some out', c'))
       else (Some out, c'))"

definition CBS_get_asn1 :: "u32 \<Rightarrow> cbs reader" where
  "CBS_get_asn1 tag_value = cbs_get_asn1 tag_value True"

definition CBS_get_asn1_element :: "u32 \<Rightarrow> cbs reader" where
  "CBS_get_asn1_element tag_value = cbs_get_asn1 tag_value False"

definition CBS_peek_asn1_tag :: "cbs \<Rightarrow> u32 \<Rightarrow> bool" where
  "CBS_peek_asn1_tag c tag_value \<longleftrightarrow>
     \<not> CBS_len c < 1 \<and> fst (parse_asn1_tag c) = Some tag_value"

section \<open>ASN.1 values\<close>

fun asn1_uint64_loop :: "bytes \<Rightarrow> u64 \<Rightarrow> u64 option" where
  "asn1_uint64_loop [] out = Some out"
| "asn1_uint64_loop (b # bs) out =
     (if drop_bit 56 out \<noteq> 0 then None
      else asn1_uint64_loop bs (push_bit 8 out OR ucast b))"

definition CBS_get_asn1_uint64 :: "u64 reader" where
  "CBS_get_asn1_uint64 c =
     on_ok (CBS_get_asn1 CBS_ASN1_INTEGER c) (\<lambda>b c'.
       let data = CBS_data b; n = CBS_len b
       in if n = 0 then (None, c')
          else if data ! 0 AND 0x80 \<noteq> 0 then (None, c')
          else if data ! 0 = 0 \<and> n > 1 \<and> data ! 1 AND 0x80 = 0 then (None, c')
          else (asn1_uint64_loop (take n data) 0, c'))"

text \<open>
  The union of \<open>CBS_get_asn1_int64\<close> overlays an \<open>int64_t\<close> with its bytes, least significant
  first on the little-endian targets; \<open>int64_of_bytes\<close> reads them back.
\<close>

definition int64_of_bytes :: "bytes \<Rightarrow> int" where
  "int64_of_bytes u = sint (of_nat (be_val (rev u)) :: u64)"

definition CBS_get_asn1_int64 :: "int reader" where
  "CBS_get_asn1_int64 c =
     on_ok (CBS_get_asn1 CBS_ASN1_INTEGER c) (\<lambda>b c'.
       let data = CBS_data b; n = CBS_len b
       in if n = 0 \<or> n > 8 then (None, c')
          else if n > 1 \<and> data ! 0 = 0 \<and> data ! 1 AND 0x80 = 0 then (None, c')
          else if n > 1 \<and> data ! 0 = 0xff \<and> data ! 1 AND 0x80 \<noteq> 0 then (None, c')
          else let is_negative = (data ! 0 AND 0x80 \<noteq> 0);
                   u = rev (take n data) @ replicate (8 - n) (if is_negative then 0xff else 0)
               in (Some (int64_of_bytes u), c'))"

definition CBS_get_asn1_bool :: "bool reader" where
  "CBS_get_asn1_bool c =
     on_ok (CBS_get_asn1 CBS_ASN1_BOOLEAN c) (\<lambda>b c'.
       if CBS_len b \<noteq> 1 then (None, c')
       else let val = CBS_data b ! 0
            in if val \<noteq> 0 \<and> val \<noteq> 0xff then (None, c') else (Some (val \<noteq> 0), c'))"

text \<open>The optional readers: \<open>Some None\<close> is success with \<open>*out_present = 0\<close>.\<close>

definition CBS_get_optional_asn1 :: "u32 \<Rightarrow> cbs option reader" where
  "CBS_get_optional_asn1 tag c =
     (if CBS_peek_asn1_tag c tag
      then on_ok (CBS_get_asn1 tag c) (\<lambda>out c'. (Some (Some out), c'))
      else (Some None, c))"

definition CBS_get_optional_asn1_octet_string :: "u32 \<Rightarrow> (cbs \<times> bool) reader" where
  "CBS_get_optional_asn1_octet_string tag c =
     on_ok (CBS_get_optional_asn1 tag c) (\<lambda>r c'.
       case r of
         Some child \<Rightarrow>
           (case CBS_get_asn1 CBS_ASN1_OCTETSTRING child of
              (None, _) \<Rightarrow> (None, c')
            | (Some out, child') \<Rightarrow>
              if CBS_len child' \<noteq> 0 then (None, c') else (Some (out, True), c'))
       | None \<Rightarrow> (Some (CBS_init [] 0, False), c'))"

definition CBS_get_optional_asn1_uint64 :: "u32 \<Rightarrow> u64 \<Rightarrow> u64 reader" where
  "CBS_get_optional_asn1_uint64 tag default_value c =
     on_ok (CBS_get_optional_asn1 tag c) (\<lambda>r c'.
       case r of
         Some child \<Rightarrow>
           (case CBS_get_asn1_uint64 child of
              (None, _) \<Rightarrow> (None, c')
            | (Some out, child') \<Rightarrow>
              if CBS_len child' \<noteq> 0 then (None, c') else (Some out, c'))
       | None \<Rightarrow> (Some default_value, c'))"

definition CBS_get_optional_asn1_bool :: "u32 \<Rightarrow> int \<Rightarrow> int reader" where
  "CBS_get_optional_asn1_bool tag default_value c =
     on_ok (CBS_get_optional_asn1 tag c) (\<lambda>r c'.
       case r of
         Some child \<Rightarrow>
           (case CBS_get_asn1 CBS_ASN1_BOOLEAN child of
              (None, _) \<Rightarrow> (None, c')
            | (Some child2, child') \<Rightarrow>
              if CBS_len child2 \<noteq> 1 \<or> CBS_len child' \<noteq> 0 then (None, c')
              else let boolean = CBS_data child2 ! 0
                   in if boolean = 0 then (Some 0, c')
                      else if boolean = 0xff then (Some 1, c')
                      else (None, c'))
       | None \<Rightarrow> (Some default_value, c'))"

section \<open>Bit strings\<close>

definition CBS_is_valid_asn1_bitstring :: "cbs \<Rightarrow> bool" where
  "CBS_is_valid_asn1_bitstring c =
     (case CBS_get_u8 c of
        (None, _) \<Rightarrow> False
      | (Some num_unused_bits, in1) \<Rightarrow>
        if num_unused_bits > 7 then False
        else if num_unused_bits = 0 then True
        else (case CBS_get_last_u8 in1 of
                (None, _) \<Rightarrow> False
              | (Some last_byte, _) \<Rightarrow>
                last_byte AND (push_bit (unat num_unused_bits) 1 - 1) = 0))"

definition CBS_asn1_bitstring_has_bit :: "cbs \<Rightarrow> nat \<Rightarrow> bool" where
  "CBS_asn1_bitstring_has_bit c b =
     (if \<not> CBS_is_valid_asn1_bitstring c then False
      else let byte_num = b div 8 + 1; bit_num = 7 - b mod 8
           in byte_num < CBS_len c \<and> CBS_data c ! byte_num AND push_bit bit_num 1 \<noteq> 0)"

section \<open>What a reader may touch\<close>

definition cbs_wf :: "cbs \<Rightarrow> bool" where
  "cbs_wf c \<longleftrightarrow> cbs_len c \<le> length (cbs_data c)"

definition cbs_view :: "cbs \<Rightarrow> bytes" where
  "cbs_view c = take (cbs_len c) (cbs_data c)"

definition advance :: "nat \<Rightarrow> cbs \<Rightarrow> cbs" where
  "advance k c = \<lparr>cbs_data = drop k (cbs_data c), cbs_len = cbs_len c - k\<rparr>"

definition adv :: "cbs \<Rightarrow> cbs \<Rightarrow> bool" where
  "adv c c' \<longleftrightarrow> (\<exists>k \<le> cbs_len c. c' = advance k c)"

text \<open>
  Two parsers that show the same bytes, whatever lies in memory behind them; results of
  readers that agree up to \<open>R\<close> and leave such parsers.
\<close>

definition same :: "cbs \<Rightarrow> cbs \<Rightarrow> bool" where
  "same c d \<longleftrightarrow> cbs_wf c \<and> cbs_wf d \<and> cbs_view c = cbs_view d"

definition sameR :: "('a \<Rightarrow> 'a \<Rightarrow> bool) \<Rightarrow> 'a option \<times> cbs \<Rightarrow> 'a option \<times> cbs \<Rightarrow> bool" where
  "sameR R x y \<longleftrightarrow> rel_option R (fst x) (fst y) \<and> same (snd x) (snd y)"

lemma advance_sel [simp]:
  "cbs_data (advance k c) = drop k (cbs_data c)" "cbs_len (advance k c) = cbs_len c - k"
  by (simp_all add: advance_def)

lemma advance_0 [simp]: "advance 0 c = c"
  by (simp add: advance_def)

lemma advance_advance [simp]: "advance j (advance k c) = advance (k + j) c"
  by (simp add: advance_def add.commute)

lemma length_cbs_view [simp]: "cbs_wf c \<Longrightarrow> length (cbs_view c) = cbs_len c"
  by (simp add: cbs_wf_def cbs_view_def)

lemma cbs_view_advance [simp]: "cbs_view (advance k c) = drop k (cbs_view c)"
  by (simp add: cbs_view_def drop_take)

lemma cbs_wf_advance: "cbs_wf c \<Longrightarrow> cbs_wf (advance k c)"
  by (auto simp: cbs_wf_def)

lemma CBS_init_wf [simp]: "cbs_wf (CBS_init bs (length bs))" and CBS_init_view [simp]: "cbs_view (CBS_init bs (length bs)) = bs"
  by (simp_all add: cbs_wf_def cbs_view_def CBS_init_def)

lemma adv_refl [simp, intro]: "adv c c"
  by (auto simp: adv_def intro!: exI [of _ 0])

lemma adv_trans: "adv c d \<Longrightarrow> adv d e \<Longrightarrow> adv c e"
  unfolding adv_def by (metis add_le_imp_le_diff advance_advance advance_sel(2) le_diff_conv2 add.commute)

lemma adv_wf: "adv c d \<Longrightarrow> cbs_wf c \<Longrightarrow> cbs_wf d"
  by (auto simp: adv_def intro: cbs_wf_advance)

lemma adv_advance [intro]: "k \<le> cbs_len c \<Longrightarrow> adv c (advance k c)"
  by (auto simp: adv_def)

lemma adv_on_ok:
  assumes "adv c (snd x)" and "\<And>a s. x = (Some a, s) \<Longrightarrow> adv s (snd (k a s))"
  shows "adv c (snd (on_ok x k))"
  using assms by (cases "(x, k)" rule: on_ok.cases) (auto intro: adv_trans)

lemma same_len: "same c d \<Longrightarrow> cbs_len c = cbs_len d"
  by (metis length_cbs_view same_def)

lemma same_advance: "same c d \<Longrightarrow> same (advance k c) (advance k d)"
  by (auto simp: same_def intro: cbs_wf_advance)

lemma take_cbs_data: "n \<le> cbs_len c \<Longrightarrow> take n (cbs_data c) = take n (cbs_view c)"
  by (simp add: cbs_view_def min_def)

lemma nth_cbs_data: "i < cbs_len c \<Longrightarrow> cbs_data c ! i = cbs_view c ! i"
  by (simp add: cbs_view_def)

lemma same_take: "same c d \<Longrightarrow> n \<le> cbs_len c \<Longrightarrow> take n (cbs_data c) = take n (cbs_data d)"
  using same_len [of c d] by (simp add: take_cbs_data same_def)

lemma same_nth: "same c d \<Longrightarrow> i < cbs_len c \<Longrightarrow> cbs_data c ! i = cbs_data d ! i"
  using same_len [of c d] by (simp add: nth_cbs_data same_def)

lemma sameR_on_ok:
  assumes "sameR R x y"
    and "\<And>a b s t. x = (Some a, s) \<Longrightarrow> R a b \<Longrightarrow> same s t \<Longrightarrow> sameR S (k a s) (l b t)"
  shows "sameR S (on_ok x k) (on_ok y l)"
proof -
  obtain a s b t where xy: "x = (a, s)" "y = (b, t)" by fastforce
  with assms(1) have ab: "rel_option R a b" and st: "same s t"
    by (auto simp: sameR_def)
  from ab show ?thesis
  proof (cases rule: option.rel_cases)
    case None
    with xy st show ?thesis by (simp add: sameR_def)
  next
    case (Some u v)
    with xy st show ?thesis using assms(2) [of u s v t] by simp
  qed
qed

lemma sameR_case:
  assumes "sameR R x y" and "sameR S u v"
    and "\<And>a b s t. x = (Some a, s) \<Longrightarrow> R a b \<Longrightarrow> same s t \<Longrightarrow> sameR S (k a s) (l b t)"
  shows "sameR S (case x of (None, _) \<Rightarrow> u | (Some a, s) \<Rightarrow> k a s)
                 (case y of (None, _) \<Rightarrow> v | (Some b, t) \<Rightarrow> l b t)"
proof -
  obtain a s b t where xy: "x = (a, s)" "y = (b, t)" by fastforce
  with assms(1) have "rel_option R a b" and st: "same s t"
    by (auto simp: sameR_def)
  then show ?thesis
    by (cases rule: option.rel_cases) (use xy st assms(2,3) in auto)
qed

lemma sameR_None: "same c d \<Longrightarrow> sameR R (None, c) (None, d)"
  by (simp add: sameR_def)

lemma sameR_Some: "same c d \<Longrightarrow> R a b \<Longrightarrow> sameR R (Some a, c) (Some b, d)"
  by (simp add: sameR_def)

lemmas sameR_intros = sameR_on_ok sameR_case sameR_None sameR_Some

text \<open>
  The contract of a reader: it only moves the parser forwards, within the bytes it had, and
  its result depends on nothing but these bytes. \<open>R\<close> compares results: equality for numbers,
  \<open>same\<close> for parsers.
\<close>

locale reader =
  fixes R :: "'a \<Rightarrow> 'a \<Rightarrow> bool" and p :: "cbs \<Rightarrow> 'a option \<times> cbs"
  assumes forward: "adv c (snd (p c))"
    and view_only: "same c d \<Longrightarrow> sameR R (p c) (p d)"
begin

lemma keeps_wf: "cbs_wf c \<Longrightarrow> cbs_wf (snd (p c))"
  by (rule adv_wf [OF forward])

lemma result_view_only: "same c d \<Longrightarrow> rel_option R (fst (p c)) (fst (p d))"
  using view_only by (simp add: sameR_def)

lemma result_step: "p c = (r, c') \<Longrightarrow> \<exists>k \<le> cbs_len c. c' = advance k c"
  using forward [of c] by (simp add: adv_def)

lemma rest_view: "p c = (r, c') \<Longrightarrow> \<exists>k \<le> cbs_len c. cbs_view c' = drop k (cbs_view c)"
  using result_step by fastforce

lemma rest_len: "p c = (r, c') \<Longrightarrow> cbs_len c' \<le> cbs_len c"
  using result_step by fastforce

end

text \<open>A reader that consumes at least one byte whenever it succeeds: loops over it end.\<close>

locale progressing_reader = reader +
  assumes progress: "p c = (Some a, c') \<Longrightarrow> cbs_len c' < cbs_len c"
begin

lemma empty_fails: "cbs_len c = 0 \<Longrightarrow> fst (p c) = None"
  using progress [of c] by (cases "p c"; cases "fst (p c)") auto

end

section \<open>The readers keep the contract\<close>

lemma cbs_get_advance:
  "cbs_get c n = (if cbs_len c < n then (None, c) else (Some (cbs_data c), advance n c))"
  by (simp add: cbs_get_def advance_def)

lemma forward_cbs_get: "adv c (snd (cbs_get c n))"
  by (simp add: cbs_get_advance adv_advance)

lemma view_cbs_get: "same c d \<Longrightarrow> sameR (\<lambda>v w. take n v = take n w) (cbs_get c n) (cbs_get d n)"
  using same_len [of c d] same_advance [of c d n] same_take [of c d n]
  by (simp add: cbs_get_advance sameR_def)

lemma reader_cbs_get [reader_rules]: "reader (\<lambda>v w. take n v = take n w) (\<lambda>c. cbs_get c n)"
  by unfold_locales (auto intro: forward_cbs_get view_cbs_get)

text \<open>A reader followed by a continuation on its result, the code's \<open>if (!f(&c)) return 0\<close>.\<close>

lemma reader_bind:
  assumes p: "reader R p"
    and k: "\<And>a c. adv c (snd (k a c))"
    and view: "\<And>a b c d. R a b \<Longrightarrow> same c d \<Longrightarrow> sameR S (k a c) (k b d)"
  shows "reader S (\<lambda>c. on_ok (p c) k)"
proof
  show "adv c (snd (on_ok (p c) k))" for c
    by (rule adv_on_ok [OF reader.forward [OF p] k])
  show "sameR S (on_ok (p c) k) (on_ok (p d) k)" if "same c d" for c d
    by (rule sameR_on_ok [OF reader.view_only [OF p that]]) (rule view)
qed

text \<open>A reader whose result is computed from another's.\<close>

lemma reader_map:
  assumes "reader R p" and "\<And>a b. R a b \<Longrightarrow> S (f a) (f b)"
  shows "reader S (\<lambda>c. on_ok (p c) (\<lambda>v c'. (Some (f v), c')))"
  using assms by (intro reader_bind [OF assms(1)]) (auto intro: sameR_intros)

lemma reader_cbs_get_u [reader_rules]: "reader (=) (cbs_get_u n)"
  unfolding cbs_get_u_def [abs_def] by (rule reader_map [OF reader_cbs_get]) simp

lemma reader_CBS_skip [reader_rules]: "reader (=) (CBS_skip n)"
  unfolding CBS_skip_def [abs_def] by (rule reader_map [OF reader_cbs_get]) simp

lemma reader_CBS_get_u8 [reader_rules]: "reader (=) CBS_get_u8"
  unfolding CBS_get_u8_def [abs_def]
  by (rule reader_map [OF reader_cbs_get]) (metis nth_take zero_less_one)

lemma reader_CBS_copy_bytes [reader_rules]: "reader (=) (CBS_copy_bytes n)"
  unfolding CBS_copy_bytes_def [abs_def] by (rule reader_map [OF reader_cbs_get]) simp

lemma CBS_get_bytes_advance:
  "CBS_get_bytes n c = (if cbs_len c < n then (None, c) else (Some (CBS_init (cbs_data c) n), advance n c))"
  by (simp add: CBS_get_bytes_def cbs_get_advance)

lemma reader_CBS_get_bytes [reader_rules]: "reader same (CBS_get_bytes n)"
proof
  show "adv c (snd (CBS_get_bytes n c))" for c
    by (simp add: CBS_get_bytes_advance adv_advance)
  show "sameR same (CBS_get_bytes n c) (CBS_get_bytes n d)" if s: "same c d" for c d
  proof -
    have "same (CBS_init (cbs_data c) n) (CBS_init (cbs_data d) n)" if "n \<le> cbs_len c"
      using s that same_len [OF s] same_take [OF s that]
      by (auto simp: same_def CBS_init_def cbs_wf_def cbs_view_def)
    then show ?thesis
      using s same_len [OF s] same_advance [OF s, of n]
      by (simp add: CBS_get_bytes_advance sameR_def)
  qed
qed

lemma reader_CBS_get_u16 [reader_rules]: "reader (=) CBS_get_u16"
  unfolding CBS_get_u16_def [abs_def] by (rule reader_map [OF reader_cbs_get_u]) simp

lemma reader_CBS_get_u16le [reader_rules]: "reader (=) CBS_get_u16le"
  unfolding CBS_get_u16le_def [abs_def] by (rule reader_map [OF reader_CBS_get_u16]) simp

lemma reader_CBS_get_u24 [reader_rules]: "reader (=) CBS_get_u24"
  unfolding CBS_get_u24_def [abs_def] by (rule reader_map [OF reader_cbs_get_u]) simp

lemma reader_CBS_get_u32 [reader_rules]: "reader (=) CBS_get_u32"
  unfolding CBS_get_u32_def [abs_def] by (rule reader_map [OF reader_cbs_get_u]) simp

lemma reader_CBS_get_u32le [reader_rules]: "reader (=) CBS_get_u32le"
  unfolding CBS_get_u32le_def [abs_def] by (rule reader_map [OF reader_CBS_get_u32]) simp

lemma reader_CBS_get_u64 [reader_rules]: "reader (=) CBS_get_u64"
  using reader_cbs_get_u [of 8] by (simp add: CBS_get_u64_def [abs_def])

lemma reader_CBS_get_u64le [reader_rules]: "reader (=) CBS_get_u64le"
  unfolding CBS_get_u64le_def [abs_def] by (rule reader_map [OF reader_cbs_get_u]) simp

lemma reader_length_prefixed [reader_rules]: "reader same (cbs_get_length_prefixed k)"
  unfolding cbs_get_length_prefixed_def [abs_def]
  by (rule reader_bind [OF reader_cbs_get_u])
    (auto intro: reader.forward [OF reader_CBS_get_bytes] reader.view_only [OF reader_CBS_get_bytes])

lemma parse_base128_loop_contract:
  "adv c (snd (parse_base128_loop c v)) \<and>
   (\<forall>d. same c d \<longrightarrow> sameR (=) (parse_base128_loop c v) (parse_base128_loop d v))"
proof (induction c v rule: parse_base128_loop.induct)
  case (1 c v)
  note u8 = reader.forward [OF reader_CBS_get_u8] reader.view_only [OF reader_CBS_get_u8]
  let ?v' = "\<lambda>b::u8. push_bit 7 v OR (ucast b AND 0x7f)"
  have IH: "adv c' (snd (parse_base128_loop c' (?v' b)))"
    "same c' d \<Longrightarrow> sameR (=) (parse_base128_loop c' (?v' b)) (parse_base128_loop d (?v' b))"
    if "CBS_get_u8 c = (Some b, c')" "\<not> drop_bit (64 - 7) v \<noteq> 0" "\<not> (v = 0 \<and> b = 0x80)"
      "b AND 0x80 \<noteq> 0" for b c' d
    using "1.IH" [OF that(1,2,3) refl that(4)] by auto
  have "adv c (snd (parse_base128_loop c v))"
    by (subst parse_base128_loop.simps) (auto simp: Let_def intro!: adv_on_ok u8(1) IH(1))
  moreover have "sameR (=) (parse_base128_loop c v) (parse_base128_loop d v)" if "same c d" for d
    using that
    by (subst (1 2) parse_base128_loop.simps)
      (auto simp: Let_def intro!: sameR_intros u8(2) IH(2))
  ultimately show ?case by blast
qed

lemma reader_parse_base128_integer [reader_rules]: "reader (=) parse_base128_integer"
  by unfold_locales (auto simp: parse_base128_integer_def parse_base128_loop_contract)

lemma reader_parse_asn1_tag [reader_rules]: "reader (=) parse_asn1_tag"
  unfolding parse_asn1_tag_def [abs_def]
  by (rule reader_bind [OF reader_CBS_get_u8])
    (auto simp: Let_def intro!: adv_on_ok sameR_intros
      intro: reader.forward [OF reader_parse_base128_integer]
        reader.view_only [OF reader_parse_base128_integer])

lemma adv_case:
  assumes "adv c (snd u)" and "\<And>a s. x = (Some a, s) \<Longrightarrow> adv c (snd (k a s))"
  shows "adv c (snd (case x of (None, _) \<Rightarrow> u | (Some a, s) \<Rightarrow> k a s))"
  using assms by (auto split: prod.splits option.splits)

lemma sameR_case_eq:
  assumes "sameR (=) x y" and "sameR S u v"
    and "\<And>a s t. x = (Some a, s) \<Longrightarrow> same s t \<Longrightarrow> sameR S (k a s) (l a t)"
  shows "sameR S (case x of (None, _) \<Rightarrow> u | (Some a, s) \<Rightarrow> k a s)
                 (case y of (None, _) \<Rightarrow> v | (Some b, t) \<Rightarrow> l b t)"
  by (rule sameR_case [OF assms(1,2)]) (simp add: assms(3))

lemma bytes_result_contract:
  "adv c (snd (on_ok (CBS_get_bytes n c) (\<lambda>out c'. (Some (out, r), c'))))"
  "same c d \<Longrightarrow> sameR (rel_prod same (=)) (on_ok (CBS_get_bytes n c) (\<lambda>out c'. (Some (out, r), c')))
                  (on_ok (CBS_get_bytes n d) (\<lambda>out c'. (Some (out, r), c')))"
  by (auto intro!: adv_on_ok sameR_intros
      intro: reader.forward [OF reader_CBS_get_bytes] reader.view_only [OF reader_CBS_get_bytes])

lemma asn1_element_length_forward: "adv c (snd (asn1_element_length ber_ok c tag h n b))"
  unfolding asn1_element_length_def Let_def
  by (auto intro!: adv_case bytes_result_contract(1))

lemma asn1_element_length_view:
  assumes "same c d" and "same h h'"
  shows "sameR (rel_prod same (=)) (asn1_element_length ber_ok c tag h n b)
           (asn1_element_length ber_ok d tag h' n b)"
  using assms unfolding asn1_element_length_def Let_def
  by (auto intro!: sameR_case_eq sameR_None bytes_result_contract(2)
      intro: reader.view_only [OF reader_cbs_get_u])

lemma reader_any_asn1_element [reader_rules]: "reader (rel_prod same (=)) (cbs_get_any_asn1_element ber_ok)"
proof
  show "adv c (snd (cbs_get_any_asn1_element ber_ok c))" for c
    unfolding cbs_get_any_asn1_element_def
    by (auto intro!: adv_case asn1_element_length_forward)
  show "sameR (rel_prod same (=)) (cbs_get_any_asn1_element ber_ok c) (cbs_get_any_asn1_element ber_ok d)"
    if s: "same c d" for c d
    unfolding cbs_get_any_asn1_element_def
  proof (rule sameR_case_eq [OF reader.view_only [OF reader_parse_asn1_tag s] sameR_None [OF s]])
    fix tag h h' assume h: "same h h'"
    show "sameR (rel_prod same (=))
      (case CBS_get_u8 h of (None, _) \<Rightarrow> (None, c)
       | (Some b, k) \<Rightarrow> asn1_element_length ber_ok c tag k (CBS_len c - CBS_len k) b)
      (case CBS_get_u8 h' of (None, _) \<Rightarrow> (None, d)
       | (Some b, k) \<Rightarrow> asn1_element_length ber_ok d tag k (CBS_len d - CBS_len k) b)"
    proof (rule sameR_case_eq [OF reader.view_only [OF reader_CBS_get_u8 h] sameR_None [OF s]])
      fix b k k' assume k: "same k k'"
      have "CBS_len c - CBS_len k = CBS_len d - CBS_len k'"
        by (simp add: CBS_len_def same_len [OF s] same_len [OF k])
      with s k show "sameR (rel_prod same (=))
        (asn1_element_length ber_ok c tag k (CBS_len c - CBS_len k) b)
        (asn1_element_length ber_ok d tag k' (CBS_len d - CBS_len k') b)"
        by (simp add: asn1_element_length_view)
    qed
  qed
qed

lemma reader_CBS_get_any_asn1_element [reader_rules]: "reader (rel_prod same (=)) CBS_get_any_asn1_element"
  by (simp add: CBS_get_any_asn1_element_def reader_any_asn1_element)

lemma reader_CBS_get_any_ber_asn1_element [reader_rules]: "reader (rel_prod same (=)) CBS_get_any_ber_asn1_element"
  by (simp add: CBS_get_any_ber_asn1_element_def reader_any_asn1_element)

lemma CBS_skip_advance: "CBS_skip n c = (if cbs_len c < n then (None, c) else (Some (), advance n c))"
  by (simp add: CBS_skip_def cbs_get_advance)

lemma reader_cbs_get_asn1 [reader_rules]: "reader same (cbs_get_asn1 tag skip)"
  unfolding cbs_get_asn1_def [abs_def]
  by (rule reader_bind [OF reader_CBS_get_any_asn1_element])
    (auto simp: CBS_skip_advance same_len intro!: adv_case sameR_None sameR_Some same_advance)

lemma reader_CBS_get_asn1 [reader_rules]: "reader same (CBS_get_asn1 tag)"
  by (simp add: CBS_get_asn1_def reader_cbs_get_asn1)

lemma reader_CBS_get_asn1_element [reader_rules]: "reader same (CBS_get_asn1_element tag)"
  by (simp add: CBS_get_asn1_element_def reader_cbs_get_asn1)

lemma reader_CBS_get_any_asn1 [reader_rules]: "reader (rel_prod same (=)) CBS_get_any_asn1"
  unfolding CBS_get_any_asn1_def [abs_def]
  by (rule reader_bind [OF reader_CBS_get_any_asn1_element])
    (auto simp: CBS_skip_advance same_len intro!: adv_case sameR_None sameR_Some same_advance)

lemma reader_CBS_get_asn1_uint64 [reader_rules]: "reader (=) CBS_get_asn1_uint64"
  unfolding CBS_get_asn1_uint64_def [abs_def] Let_def CBS_data_def CBS_len_def
  by (rule reader_bind [OF reader_CBS_get_asn1])
    (auto simp: same_nth same_len same_take sameR_def option.rel_eq)

lemma reader_CBS_get_asn1_int64 [reader_rules]: "reader (=) CBS_get_asn1_int64"
  unfolding CBS_get_asn1_int64_def [abs_def] Let_def CBS_data_def CBS_len_def
  by (rule reader_bind [OF reader_CBS_get_asn1])
    (auto simp: same_nth same_len same_take sameR_def option.rel_eq)

lemma reader_CBS_get_asn1_bool [reader_rules]: "reader (=) CBS_get_asn1_bool"
  unfolding CBS_get_asn1_bool_def [abs_def] Let_def CBS_data_def CBS_len_def
  by (rule reader_bind [OF reader_CBS_get_asn1])
    (auto simp: same_nth same_len same_take sameR_def option.rel_eq)

lemma CBS_peek_same: "same c d \<Longrightarrow> CBS_peek_asn1_tag c tag = CBS_peek_asn1_tag d tag"
  using reader.result_view_only [OF reader_parse_asn1_tag, of c d]
  by (simp add: CBS_peek_asn1_tag_def CBS_len_def same_len option.rel_eq)

lemma reader_CBS_get_optional_asn1 [reader_rules]: "reader (rel_option same) (CBS_get_optional_asn1 tag)"
proof
  show "adv c (snd (CBS_get_optional_asn1 tag c))" for c
    by (auto simp: CBS_get_optional_asn1_def intro!: adv_on_ok
        intro: reader.forward [OF reader_CBS_get_asn1])
  show "sameR (rel_option same) (CBS_get_optional_asn1 tag c) (CBS_get_optional_asn1 tag d)"
    if "same c d" for c d
    using that
    by (auto simp: CBS_get_optional_asn1_def CBS_peek_same intro!: sameR_intros
        intro: reader.view_only [OF reader_CBS_get_asn1])
qed

text \<open>An optional element whose contents, when present, must parse completely.\<close>

lemma reader_optional:
  assumes "reader R p" and "\<And>a b. R a b \<Longrightarrow> S (f a) (f b)" and "S dflt dflt"
  shows "reader S (\<lambda>c. on_ok (CBS_get_optional_asn1 tag c) (\<lambda>r c'. case r of
      Some child \<Rightarrow> (case p child of (None, _) \<Rightarrow> (None, c')
        | (Some out, child') \<Rightarrow> if CBS_len child' \<noteq> 0 then (None, c') else (Some (f out), c'))
    | None \<Rightarrow> (Some dflt, c')))"
proof (rule reader_bind [OF reader_CBS_get_optional_asn1])
  fix a c show "adv c (snd (case a of
      Some child \<Rightarrow> (case p child of (None, _) \<Rightarrow> (None, c)
         | (Some out, child') \<Rightarrow> if CBS_len child' \<noteq> 0 then (None, c) else (Some (f out), c))
    | None \<Rightarrow> (Some dflt, c)))"
    by (cases a) (auto intro!: adv_case)
next
  fix a b c d assume "rel_option same a b" and s: "same c d"
  then show "sameR S (case a of
      Some child \<Rightarrow> (case p child of (None, _) \<Rightarrow> (None, c)
         | (Some out, child') \<Rightarrow> if CBS_len child' \<noteq> 0 then (None, c) else (Some (f out), c))
    | None \<Rightarrow> (Some dflt, c))
    (case b of
      Some child \<Rightarrow> (case p child of (None, _) \<Rightarrow> (None, d)
         | (Some out, child') \<Rightarrow> if CBS_len child' \<noteq> 0 then (None, d) else (Some (f out), d))
    | None \<Rightarrow> (Some dflt, d))"
    by (cases rule: option.rel_cases)
      (auto simp: CBS_len_def same_len assms(2,3) intro!: sameR_case sameR_None sameR_Some
        intro: reader.view_only [OF assms(1)])
qed

lemma reader_CBS_get_optional_asn1_uint64 [reader_rules]: "reader (=) (CBS_get_optional_asn1_uint64 tag dflt)"
  unfolding CBS_get_optional_asn1_uint64_def [abs_def]
  by (rule reader_optional [OF reader_CBS_get_asn1_uint64, where f = "\<lambda>x. x"]) auto

lemma reader_CBS_get_optional_asn1_octet_string [reader_rules]:
  "reader (rel_prod same (=)) (CBS_get_optional_asn1_octet_string tag)"
  unfolding CBS_get_optional_asn1_octet_string_def [abs_def]
  by (rule reader_optional [OF reader_CBS_get_asn1, where f = "\<lambda>x. (x, True)"])
    (auto simp: same_def cbs_wf_def CBS_init_def)

lemma reader_CBS_get_optional_asn1_bool [reader_rules]: "reader (=) (CBS_get_optional_asn1_bool tag dflt)"
  unfolding CBS_get_optional_asn1_bool_def [abs_def]
proof (rule reader_bind [OF reader_CBS_get_optional_asn1])
  fix a c show "adv c (snd (case a of
      Some child \<Rightarrow> (case CBS_get_asn1 CBS_ASN1_BOOLEAN child of (None, _) \<Rightarrow> (None, c)
        | (Some child2, child') \<Rightarrow> if CBS_len child2 \<noteq> 1 \<or> CBS_len child' \<noteq> 0 then (None, c)
            else let boolean = CBS_data child2 ! 0 in if boolean = 0 then (Some 0, c)
              else if boolean = 0xff then (Some 1, c) else (None, c))
    | None \<Rightarrow> (Some dflt, c)))"
    by (cases a) (auto intro!: adv_case simp: Let_def)
next
  fix a b c d assume "rel_option same a b" and s: "same c d"
  then show "sameR (=) (case a of
      Some child \<Rightarrow> (case CBS_get_asn1 CBS_ASN1_BOOLEAN child of (None, _) \<Rightarrow> (None, c)
        | (Some child2, child') \<Rightarrow> if CBS_len child2 \<noteq> 1 \<or> CBS_len child' \<noteq> 0 then (None, c)
            else let boolean = CBS_data child2 ! 0 in if boolean = 0 then (Some 0, c)
              else if boolean = 0xff then (Some 1, c) else (None, c))
    | None \<Rightarrow> (Some dflt, c))
    (case b of
      Some child \<Rightarrow> (case CBS_get_asn1 CBS_ASN1_BOOLEAN child of (None, _) \<Rightarrow> (None, d)
        | (Some child2, child') \<Rightarrow> if CBS_len child2 \<noteq> 1 \<or> CBS_len child' \<noteq> 0 then (None, d)
            else let boolean = CBS_data child2 ! 0 in if boolean = 0 then (Some 0, d)
              else if boolean = 0xff then (Some 1, d) else (None, d))
    | None \<Rightarrow> (Some dflt, d))"
    by (cases rule: option.rel_cases)
      (auto simp: CBS_len_def CBS_data_def Let_def same_len same_nth intro!: sameR_case sameR_None sameR_Some
        intro: reader.view_only [OF reader_CBS_get_asn1])
qed

section \<open>What the integer readers return\<close>

lemma foldl_be_word:
  fixes r :: "'a::len word"
  assumes "8 < LENGTH('a)" and "unat r * 256 ^ length bs + be_val bs < 2 ^ LENGTH('a)"
  shows "unat (foldl (\<lambda>r b. push_bit 8 r OR ucast b) r bs) = unat r * 256 ^ length bs + be_val bs"
  using assms
proof (induction bs arbitrary: r)
  case Nil
  then show ?case by simp
next
  case (Cons b bs)
  let ?r' = "push_bit 8 r OR (ucast b :: 'a word)"
  have "unat r * 256 * 1 \<le> unat r * 256 * 256 ^ length bs"
    by (intro mult_le_mono2) simp
  also have "\<dots> \<le> unat r * 256 ^ length (b # bs) + be_val (b # bs)"
    by simp
  finally have "unat r * 2 ^ 8 < 2 ^ LENGTH('a)"
    using Cons.prems(2) by (simp only: mult_1_right) simp
  then have r': "unat ?r' = unat r * 256 + unat b"
    using unat_8_less [of b] Cons.prems(1) by (subst unat_push_bit_or) (simp_all add: unat_ucast_up)
  have "unat (foldl (\<lambda>r b. push_bit 8 r OR ucast b) ?r' bs) = unat ?r' * 256 ^ length bs + be_val bs"
    using Cons.prems(2) by (intro Cons.IH [OF Cons.prems(1)]) (simp add: r' algebra_simps)
  then show ?case by (simp add: r' algebra_simps)
qed

lemma cbs_get_u_fails: "cbs_len c < n \<Longrightarrow> cbs_get_u n c = (None, c)"
  by (simp add: cbs_get_u_def cbs_get_advance)

lemma cbs_get_u_be:
  assumes "cbs_wf c" and "n \<le> cbs_len c" and "n \<le> 8"
  obtains v where "cbs_get_u n c = (Some v, advance n c)" and "unat v = be_val (take n (cbs_view c))"
proof -
  let ?bs = "take n (cbs_data c)"
  have n: "length ?bs = n" using assms by (simp add: cbs_wf_def)
  have "be_val ?bs < 2 ^ 64"
  proof -
    have "be_val ?bs < 256 ^ n" using be_val_less [of ?bs] n by simp
    also have "\<dots> \<le> 256 ^ 8" using assms(3) by (rule power_increasing) simp
    finally show ?thesis by simp
  qed
  then have "unat (foldl (\<lambda>r b. push_bit 8 r OR ucast b) (0 :: u64) ?bs) = be_val ?bs"
    using foldl_be_word [of "0 :: u64" ?bs] by simp
  moreover have "cbs_get_u n c = (Some (foldl (\<lambda>r b. push_bit 8 r OR ucast b) 0 ?bs), advance n c)"
    using assms(2) by (simp add: cbs_get_u_def cbs_get_advance)
  ultimately show thesis
    using that assms(2) by (simp add: take_cbs_data)
qed

lemma CBS_get_u8_eq:
  "cbs_wf c \<Longrightarrow> CBS_get_u8 c =
     (case cbs_view c of [] \<Rightarrow> (None, c) | b # _ \<Rightarrow> (Some b, advance 1 c))"
  by (cases "cbs_data c"; cases "cbs_len c")
    (auto simp: CBS_get_u8_def cbs_get_advance cbs_wf_def cbs_view_def)

lemma cbs_get_length_prefixed_eq:
  assumes "cbs_wf c" and "cbs_view c = hdr @ body @ rest" and "length hdr = k" and "k \<le> 8"
    and "be_val hdr = length body"
  obtains out where "cbs_get_length_prefixed k c = (Some out, advance (k + length body) c)"
    and "cbs_wf out" and "cbs_view out = body"
proof -
  have len: "cbs_len c = k + length body + length rest"
    using assms(1-3) length_cbs_view [of c] by simp
  obtain v where v: "cbs_get_u k c = (Some v, advance k c)" "unat v = be_val (take k (cbs_view c))"
    using assms len by (auto intro: cbs_get_u_be [of c k])
  let ?out = "CBS_init (drop k (cbs_data c)) (length body)"
  have "cbs_get_length_prefixed k c = (Some ?out, advance (k + length body) c)"
    using v assms(2,3,5) len
    by (simp add: cbs_get_length_prefixed_def CBS_get_bytes_advance)
  moreover have "cbs_wf ?out"
    using assms(1) len by (simp add: cbs_wf_def CBS_init_def)
  moreover have "cbs_view ?out = body"
  proof -
    have "cbs_view ?out = take (length body) (drop k (cbs_view c))"
      using len by (simp add: cbs_view_def CBS_init_def drop_take min_def)
    then show ?thesis using assms(2,3) by simp
  qed
  ultimately show thesis by (rule that)
qed

section \<open>The readers as interpretations\<close>

interpretation get_u8: progressing_reader "(=)" CBS_get_u8
  by (intro progressing_reader.intro reader_CBS_get_u8 progressing_reader_axioms.intro)
    (rule CBS_get_u8_decreases)

lemma parse_base128_loop_len: "parse_base128_loop c v = (r, c') \<Longrightarrow> cbs_len c' \<le> cbs_len c"
  using parse_base128_loop_contract [of c v] by (auto simp: adv_def)

lemma parse_base128_loop_decreases:
  "parse_base128_loop c v = (Some w, c') \<Longrightarrow> cbs_len c' < cbs_len c"
  by (subst (asm) parse_base128_loop.simps)
    (auto simp: on_ok_Some Let_def split: if_splits
      dest!: CBS_get_u8_decreases dest: parse_base128_loop_len)

interpretation base128: progressing_reader "(=)" parse_base128_integer
  by (intro progressing_reader.intro reader_parse_base128_integer progressing_reader_axioms.intro)
    (auto simp: parse_base128_integer_def dest: parse_base128_loop_decreases)

interpretation asn1_tag: progressing_reader "(=)" parse_asn1_tag
proof (intro progressing_reader.intro reader_parse_asn1_tag progressing_reader_axioms.intro)
  fix c a c' assume "parse_asn1_tag c = (Some a, c')"
  then obtain b c1 where "CBS_get_u8 c = (Some b, c1)" and "c1 = c' \<or> (\<exists>v. parse_base128_integer c1 = (Some v, c'))"
    by (auto simp: parse_asn1_tag_def on_ok_Some Let_def split: if_splits)
  then show "cbs_len c' < cbs_len c"
    by (auto dest!: get_u8.progress base128.progress)
qed

text \<open>\<open>CBS_get_last_u8\<close> takes its byte from the end.\<close>

lemma last_u8_rest: "snd (CBS_get_last_u8 c) = c\<lparr>cbs_len := cbs_len c - 1\<rparr>"
  by (simp add: CBS_get_last_u8_def)

lemma last_u8_view: "rel_fun same (sameR (=)) CBS_get_last_u8 CBS_get_last_u8"
proof (rule rel_funI)
  fix c d assume s: "same c d"
  have n: "cbs_len c = cbs_len d" by (rule same_len [OF s])
  show "sameR (=) (CBS_get_last_u8 c) (CBS_get_last_u8 d)"
  proof (cases "cbs_len d = 0")
    case True
    then show ?thesis using s n by (simp add: CBS_get_last_u8_def sameR_def)
  next
    case False
    have "same (c\<lparr>cbs_len := cbs_len c - 1\<rparr>) (d\<lparr>cbs_len := cbs_len d - 1\<rparr>)"
      using s n same_take [OF s, of "cbs_len d - 1"] by (auto simp: same_def cbs_wf_def cbs_view_def)
    then show ?thesis using same_nth [OF s, of "cbs_len d - 1"] False n
      by (simp add: CBS_get_last_u8_def sameR_def)
  qed
qed

end
