(* ===== verification/Der.thy ===== *)
theory Der
  imports Cbs
begin

text \<open>
  The distinguished encoding that \<open>cbs.c\<close> reads and \<open>cbb.c\<close> writes, as a specification:
  tags and lengths in their shortest form (ITU-T X.690, sections 8.1.2, 8.1.3 and 10.1). The
  parser of \<open>cbs.c\<close> accepts exactly these encodings.
\<close>

section \<open>Base-128 integers\<close>

fun b128_hi :: "nat \<Rightarrow> bytes" where
  "b128_hi n = (if n = 0 then [] else b128_hi (n div 128) @ [of_nat (n mod 128 + 128)])"

declare b128_hi.simps [simp del]

definition b128 :: "nat \<Rightarrow> bytes" where
  "b128 n = b128_hi (n div 128) @ [of_nat (n mod 128)]"

lemma b128_hi_0 [simp]: "b128_hi 0 = []"
  by (simp add: b128_hi.simps)

lemma length_b128_hi: "n < 128 ^ k \<Longrightarrow> length (b128_hi n) \<le> k"
proof (induction k arbitrary: n)
  case 0
  then show ?case by simp
next
  case (Suc k)
  then have "n div 128 < 128 ^ k"
    by (simp add: div_less_iff_less_mult mult.commute)
  then show ?case
    using Suc.IH [of "n div 128"] by (simp add: b128_hi.simps [of n])
qed

lemma base128_step:
  assumes "unat v < 2 ^ 57"
  shows "unat (push_bit 7 v OR (ucast b AND 0x7f) :: u64) = unat v * 128 + unat (b :: u8) mod 128"
  using assms
  by (subst unat_push_bit_or) (simp_all add: unat_and_0x7f unat_ucast_up)

text \<open>\<open>parse_base128_integer\<close> on the bytes a parser shows.\<close>

fun p128 :: "bytes \<Rightarrow> u64 \<Rightarrow> (u64 \<times> bytes) option" where
  "p128 [] v = None"
| "p128 (b # bs) v =
     (if drop_bit 57 v \<noteq> 0 then None
      else if v = 0 \<and> b = 0x80 then None
      else let v' = push_bit 7 v OR (ucast b AND 0x7f)
           in if b AND 0x80 \<noteq> 0 then p128 bs v' else Some (v', bs))"

lemma parse_base128_loop_p128:
  assumes "cbs_wf c" and "cbs_view c = bs"
  shows "case p128 bs v of
      None \<Rightarrow> fst (parse_base128_loop c v) = None
    | Some (w, rest) \<Rightarrow> \<exists>k. parse_base128_loop c v = (Some w, advance k c) \<and>
        k \<le> cbs_len c \<and> drop k bs = rest"
  using assms
proof (induction bs arbitrary: c v)
  case Nil
  then show ?case
    by (subst parse_base128_loop.simps) (simp add: CBS_get_u8_eq)
next
  case (Cons b bs)
  then have u8: "CBS_get_u8 c = (Some b, advance (Suc 0) c)" and len: "Suc 0 \<le> cbs_len c"
    using length_cbs_view [of c] by (auto simp: CBS_get_u8_eq)
  let ?v' = "push_bit 7 v OR (ucast b AND 0x7f)"
  have IH: "case p128 bs ?v' of
      None \<Rightarrow> fst (parse_base128_loop (advance (Suc 0) c) ?v') = None
    | Some (w, rest) \<Rightarrow> \<exists>k. parse_base128_loop (advance (Suc 0) c) ?v' = (Some w, advance k (advance (Suc 0) c)) \<and>
        k \<le> cbs_len (advance (Suc 0) c) \<and> drop k bs = rest"
    by (rule Cons.IH) (simp_all add: Cons.prems cbs_wf_advance)
  show ?case
  proof (cases "drop_bit 57 v = 0 \<and> \<not> (v = 0 \<and> b = 0x80) \<and> b AND 0x80 \<noteq> 0")
    case True
    then have "parse_base128_loop c v = parse_base128_loop (advance (Suc 0) c) ?v'"
      by (subst parse_base128_loop.simps) (auto simp: u8 Let_def)
    moreover have "p128 (b # bs) v = p128 bs ?v'"
      using True by (auto simp: Let_def)
    ultimately show ?thesis
      using IH len by (force split: option.splits)
  next
    case False
    with len show ?thesis
      by (auto simp: parse_base128_loop.simps [of c v] parse_base128_loop.simps [of c 0] u8 Let_def intro!: exI [of _ "Suc 0"])
  qed
qed

lemma p128_hi: "m < 2 ^ 57 \<Longrightarrow> p128 (b128_hi m @ bs) 0 = p128 bs (of_nat m)"
proof (induction m arbitrary: bs rule: b128_hi.induct)
  case (1 m)
  show ?case
  proof (cases "m = 0")
    case False
    let ?b = "of_nat (m mod 128 + 128) :: u8" and ?w = "of_nat (m div 128) :: u64"
    have b: "unat ?b = m mod 128 + 128"
      by (rule unat_of_nat_u8) (simp add: less_diff_conv [symmetric])
    have w: "unat ?w = m div 128"
      using "1.prems" by (intro unat_of_nat_u64) simp
    have step: "push_bit 7 ?w OR (ucast ?b AND 0x7f) = (of_nat m :: u64)"
      using "1.prems" by (intro word_unat_eq_iff [THEN iffD2])
        (simp add: base128_step w b unat_of_nat_u64 del: of_nat_add of_nat_numeral)
    have "p128 (b128_hi m @ bs) 0 = p128 (b128_hi (m div 128) @ ?b # bs) 0"
      using False by (simp add: b128_hi.simps [of m])
    also have "\<dots> = p128 (?b # bs) ?w"
      using "1.IH" [OF False] "1.prems" by simp
    also have "\<dots> = p128 bs (of_nat m)"
    proof -
      have "drop_bit 57 ?w = 0"
        using "1.prems" by (simp add: drop_bit_eq_0_iff w)
      moreover have "\<not> (?w = 0 \<and> ?b = 0x80)"
      proof
        assume "?w = 0 \<and> ?b = 0x80"
        then have "m div 128 = 0" "m mod 128 + 128 = 128"
          using w b by (auto dest: arg_cong [where f = unat])
        with False show False by (metis add_cancel_left_left div_mult_mod_eq mult_zero_left)
      qed
      moreover have "?b AND 0x80 \<noteq> 0"
        by (simp add: and_0x80_iff b del: of_nat_add of_nat_numeral)
      ultimately show ?thesis by (simp only: p128.simps step Let_def) simp
    qed
    finally show ?thesis .
  qed simp
qed

lemma p128_b128:
  assumes "n < 2 ^ 64"
  shows "p128 (b128 n @ rest) 0 = Some (of_nat n, rest)"
proof -
  let ?b = "of_nat (n mod 128) :: u8" and ?w = "of_nat (n div 128) :: u64"
  have b: "unat ?b = n mod 128" by (simp add: unat_of_nat take_bit_nat_eq_self)
  have w: "unat ?w = n div 128" using assms by (simp add: unat_of_nat take_bit_nat_eq_self)
  have step: "push_bit 7 ?w OR (ucast ?b AND 0x7f) = (of_nat n :: u64)"
    using assms by (intro word_unat_eq_iff [THEN iffD2])
      (simp add: base128_step w b unat_of_nat take_bit_nat_eq_self)
  have "p128 (b128 n @ rest) 0 = p128 (?b # rest) ?w"
    using assms p128_hi [of "n div 128" "?b # rest"] by (simp add: b128_def)
  also have "\<dots> = Some (of_nat n, rest)"
  proof -
    have "?b \<noteq> 0x80" using b by (intro notI) (simp add: arg_cong [where f = unat])
    moreover have "drop_bit 57 ?w = 0" using assms by (simp add: drop_bit_eq_0_iff w)
    moreover have "?b AND 0x80 = 0" by (simp add: and_0x80_iff b)
    ultimately show ?thesis by (simp only: p128.simps step Let_def) simp
  qed
  finally show ?thesis .
qed

lemma p128_canonical:
  "p128 bs v = Some (w, rest) \<Longrightarrow> b128_hi (unat v) @ bs = b128 (unat w) @ rest"
proof (induction bs v rule: p128.induct)
  case (2 b bs v)
  let ?v' = "push_bit 7 v OR (ucast b AND 0x7f)"
  have c: "drop_bit 57 v = 0" "\<not> (v = 0 \<and> b = 0x80)"
    using "2.prems" by (auto split: if_splits)
  have v': "unat ?v' = unat v * 128 + unat b mod 128"
    using c(1) by (simp add: base128_step drop_bit_eq_0_iff)
  show ?case
  proof (cases "b AND 0x80 = 0")
    case True
    then have "unat b < 128" by (simp add: and_0x80_iff)
    with True c v' "2.prems" show ?thesis
      by (auto simp: Let_def b128_def)
  next
    case False
    then have b: "128 \<le> unat b" "unat b mod 128 + 128 = unat b"
      using unat_8_less [of b] by (auto simp: and_0x80_iff mod_if)
    have "unat v \<noteq> 0 \<or> unat b \<noteq> 128"
      using c(2) by (simp add: word_unat_eq_iff)
    then have "unat ?v' \<noteq> 0"
      using v' b by linarith
    then have "b128_hi (unat ?v') = b128_hi (unat v) @ [b]"
      using b by (subst b128_hi.simps) (simp add: v' del: of_nat_add of_nat_numeral)
    moreover have "b128_hi (unat ?v') @ bs = b128 (unat w) @ rest"
      using "2.IH" [OF _ c(2) refl] c(1) False "2.prems" c by (auto simp: Let_def)
    ultimately show ?thesis by simp
  qed
qed simp

section \<open>Tags\<close>

definition tag_class :: "u32 \<Rightarrow> u8" where
  "tag_class tag = ucast (drop_bit 24 tag) AND 0xe0"

definition tag_num :: "u32 \<Rightarrow> nat" where
  "tag_num tag = unat (tag AND mask 29)"

definition der_tag :: "u32 \<Rightarrow> bytes" where
  "der_tag tag =
     (if tag_num tag < 31 then [tag_class tag OR of_nat (tag_num tag)]
      else (tag_class tag OR 0x1f) # b128 (tag_num tag))"

lemma high_bits: "(0xe0 :: u8) = push_bit 5 (mask 3)" "(0xe0 :: u32) = push_bit 5 (mask 3)"
  and low_bits: "(0x1f :: u8) = mask 5" "(0x1f :: u32) = mask 5"
  by (simp_all add: mask_eq_exp_minus_1)

lemma tag_num_less: "tag_num tag < 2 ^ 29"
  by (simp add: tag_num_def unat_and_mask)

lemma tag_class_build:
  assumes "n AND mask 29 = n"
  shows "tag_class (push_bit 24 (ucast b AND 0xe0) OR n) = b AND 0xe0"
    and "(push_bit 24 (ucast b AND 0xe0) OR n) AND mask 29 = n"
proof -
  have n: "bit n i \<Longrightarrow> i < 29" for i
    using arg_cong [where f = "\<lambda>x. bit x i", OF assms] by (auto simp: bit_and_iff bit_mask_iff)
  show "tag_class (push_bit 24 (ucast b AND 0xe0) OR n) = b AND 0xe0"
    unfolding tag_class_def high_bits
    by (rule bit_word_eqI) (auto simp: bit_simps dest: n)
  show "(push_bit 24 (ucast b AND 0xe0) OR n) AND mask 29 = n"
    unfolding high_bits
    by (rule bit_word_eqI) (auto simp: bit_simps dest: n)
qed

lemma tag_rebuild:
  assumes "x AND 0xe0 = 0"
  shows "push_bit 24 (ucast (tag_class tag OR x) AND 0xe0) OR (tag AND mask 29) = tag"
proof (rule bit_word_eqI)
  fix n assume n: "n < LENGTH(32)"
  have x: "29 \<le> n \<Longrightarrow> \<not> bit x (n - 24)"
    using arg_cong [where f = "\<lambda>x. bit x (n - 24)", OF assms] n unfolding high_bits
    by (auto simp: bit_simps)
  show "bit (push_bit 24 (ucast (tag_class tag OR x) AND 0xe0) OR (tag AND mask 29)) n = bit tag n"
    using n x unfolding tag_class_def high_bits
    by (auto simp: bit_simps)
qed

lemma class_or_low:
  assumes "x AND mask 5 = x"
  shows "(tag_class tag OR x) AND 0x1f = x"
proof (rule bit_word_eqI)
  fix n assume n: "n < LENGTH(8)"
  have x: "bit x n \<Longrightarrow> n < 5"
    using arg_cong [where f = "\<lambda>x. bit x n", OF assms] by (auto simp: bit_and_iff bit_mask_iff)
  show "bit ((tag_class tag OR x) AND 0x1f) n = bit x n"
    using n x unfolding tag_class_def high_bits low_bits by (auto simp: bit_simps)
qed

lemma class_low_split: "(b AND 0xe0) OR (b AND 0x1f) = (b :: u8)"
  unfolding high_bits low_bits by (rule bit_word_eqI) (auto simp: bit_simps)

lemma parse_base128_integer_b128:
  assumes "cbs_wf c" and "cbs_view c = b128 n @ rest" and "n < 2 ^ 64"
  shows "parse_base128_integer c = (Some (of_nat n), advance (length (b128 n)) c)"
proof -
  have "p128 (cbs_view c) 0 = Some (of_nat n, rest)"
    using assms p128_b128 by simp
  then obtain k where k: "parse_base128_loop c 0 = (Some (of_nat n), advance k c)"
    "k \<le> cbs_len c" "drop k (cbs_view c) = rest"
    using parse_base128_loop_p128 [OF assms(1) refl, of 0] by auto
  have "length (cbs_view c) - k = length rest"
    using k(3) by (metis length_drop)
  then have "k = length (b128 n)"
    using k(2) assms(1) by (simp add: assms(2) flip: length_cbs_view)
  with k(1) show ?thesis by (simp add: parse_base128_integer_def)
qed

lemma parse_base128_integer_canonical:
  assumes "cbs_wf c" and "parse_base128_integer c = (Some w, c')"
  shows "cbs_view c = b128 (unat w) @ cbs_view c'"
proof -
  have "fst (parse_base128_loop c 0) = Some w"
    using assms(2) by (simp add: parse_base128_integer_def)
  then obtain rest k where p: "p128 (cbs_view c) 0 = Some (w, rest)"
    and k: "parse_base128_loop c 0 = (Some w, advance k c)" "drop k (cbs_view c) = rest"
    using parse_base128_loop_p128 [OF assms(1) refl, of 0]
    by (cases "p128 (cbs_view c) 0") auto
  have "cbs_view c = b128 (unat w) @ rest"
    using p128_canonical [OF p] by simp
  with k assms(2) show ?thesis by (auto simp: parse_base128_integer_def)
qed

lemma of_nat_num_low: "n < 31 \<Longrightarrow> (of_nat n :: u8) AND mask 5 = of_nat n"
  by (rule word_unat_eq_iff [THEN iffD2]) (simp add: unat_and_mask unat_of_nat_u8)

lemma parse_asn1_tag_der:
  assumes wf: "cbs_wf c" and view: "cbs_view c = der_tag tag @ rest"
  shows "parse_asn1_tag c = (Some tag, advance (length (der_tag tag)) c)"
proof (cases "tag_num tag < 31")
  case True
  let ?n = "of_nat (tag_num tag) :: u8"
  have tag: "der_tag tag = [tag_class tag OR ?n]" using True by (simp add: der_tag_def)
  have low: "(tag_class tag OR ?n) AND 0x1f = ?n"
    by (rule class_or_low [OF of_nat_num_low [OF True]])
  have "tag AND mask 29 \<noteq> 0x1f"
    using True by (auto simp: word_unat_eq_iff simp flip: tag_num_def)
  moreover have "(ucast ?n :: u32) = tag AND mask 29"
    using True by (simp add: word_unat_eq_iff unat_ucast_up unat_of_nat_u8 flip: tag_num_def)
  moreover have "?n AND 0xe0 = 0"
  proof (rule bit_word_eqI)
    fix i assume "i < LENGTH(8)"
    show "bit (?n AND 0xe0) i = bit (0 :: u8) i"
      using arg_cong [where f = "\<lambda>x. bit x i", OF of_nat_num_low [OF True]]
      unfolding high_bits by (auto simp: bit_simps)
  qed
  then have "push_bit 24 (ucast (tag_class tag OR ?n) AND 0xe0) OR (tag AND mask 29) = tag"
    by (rule tag_rebuild)
  ultimately show ?thesis
    using view unfolding parse_asn1_tag_def CBS_ASN1_TAG_SHIFT_def
    by (simp add: CBS_get_u8_eq [OF wf] tag low Let_def)
next
  case False
  let ?w = "of_nat (tag_num tag) :: u64"
  have tag: "der_tag tag = (tag_class tag OR 0x1f) # b128 (tag_num tag)"
    using False by (simp add: der_tag_def)
  have low: "(tag_class tag OR 0x1f) AND 0x1f = 0x1f"
    by (rule class_or_low) (simp add: low_bits)
  have "cbs_view (advance (Suc 0) c) = b128 (tag_num tag) @ rest"
    by (simp add: view tag)
  then have base: "parse_base128_integer (advance (Suc 0) c) =
      (Some ?w, advance (length (b128 (tag_num tag))) (advance (Suc 0) c))"
    using tag_num_less [of tag] by (intro parse_base128_integer_b128) (simp_all add: cbs_wf_advance wf)
  have w: "unat ?w = tag_num tag"
    using tag_num_less [of tag] by (intro unat_of_nat_u64) simp
  have "\<not> (?w > ucast CBS_ASN1_TAG_NUMBER_MASK \<or> ?w < 0x1f)"
    using tag_num_less [of tag] False
    by (simp add: word_less_nat_alt w unat_ucast_up CBS_ASN1_TAG_NUMBER_MASK_def CBS_ASN1_TAG_SHIFT_def)
  moreover have "ucast ?w = tag AND mask 29"
    using tag_num_less [of tag]
    by (simp add: word_unat_eq_iff unsigned_ucast_eq w take_bit_nat_eq_self flip: tag_num_def)
  moreover have "push_bit 24 (ucast (tag_class tag OR 0x1f) AND 0xe0) OR (tag AND mask 29) = tag"
    by (rule tag_rebuild) simp
  ultimately show ?thesis
    using view unfolding parse_asn1_tag_def CBS_ASN1_TAG_SHIFT_def
    by (simp add: CBS_get_u8_eq [OF wf] tag low base Let_def)
qed

lemma length_der_tag: "0 < length (der_tag tag) \<and> length (der_tag tag) \<le> 6"
proof -
  have "tag_num tag div 128 < 128 ^ 4"
    using tag_num_less [of tag] by (simp add: div_less_iff_less_mult)
  from length_b128_hi [OF this] show ?thesis
    by (simp add: der_tag_def b128_def)
qed

lemma unat_and_0x1f: "unat ((b :: u8) AND 0x1f) = unat b mod 32"
  using unat_and_mask [of b 5] by (simp add: low_bits)

lemma parse_asn1_tag_canonical:
  assumes wf: "cbs_wf c" and parse: "parse_asn1_tag c = (Some tag, c')"
  shows "cbs_view c = der_tag tag @ cbs_view c'"
proof -
  obtain b bs where bs: "cbs_view c = b # bs"
    using parse by (cases "cbs_view c") (auto simp: parse_asn1_tag_def CBS_get_u8_eq [OF wf])
  let ?c1 = "advance (Suc 0) c"
  have u8: "CBS_get_u8 c = (Some b, ?c1)" by (simp add: CBS_get_u8_eq [OF wf] bs)
  have view1: "cbs_view ?c1 = bs" by (simp add: bs)
  have low: "(ucast (b AND 0x1f) :: u32) AND mask 29 = ucast (b AND 0x1f)"
    unfolding low_bits by (rule bit_word_eqI) (auto simp: bit_simps)
  have low_unat: "unat (ucast (b AND 0x1f) :: u32) = unat b mod 32"
    by (simp add: unat_ucast_up unat_and_0x1f)
  show ?thesis
  proof (cases "(ucast (b AND 0x1f) :: u32) = 0x1f")
    case False
    then have tag: "tag = push_bit 24 (ucast b AND 0xe0) OR ucast (b AND 0x1f)" and c': "c' = ?c1"
      using parse by (simp_all add: parse_asn1_tag_def u8 CBS_ASN1_TAG_SHIFT_def Let_def)
    have cls: "tag_class tag = b AND 0xe0" and num: "tag_num tag = unat b mod 32"
      using tag_class_build [OF low, of b] by (simp_all add: tag tag_num_def low_unat)
    have "unat b mod 32 \<noteq> 31"
      using False low_unat by (auto simp: word_unat_eq_iff)
    then have "tag_num tag < 31" using num by (simp add: less_Suc_eq_le [symmetric] order.not_eq_order_implies_strict)
    moreover have "of_nat (unat b mod 32) = b AND 0x1f"
      by (simp add: word_unat_eq_iff unat_of_nat_u8 unat_and_0x1f)
    ultimately show ?thesis
      using bs by (simp add: der_tag_def cls num class_low_split c')
  next
    case True
    then obtain v where base: "parse_base128_integer ?c1 = (Some v, c')"
      and v: "v \<le> ucast CBS_ASN1_TAG_NUMBER_MASK" "\<not> v < 0x1f"
      and tag: "tag = push_bit 24 (ucast b AND 0xe0) OR ucast v"
      using parse by (auto simp: parse_asn1_tag_def u8 CBS_ASN1_TAG_SHIFT_def Let_def on_ok_Some split: if_splits)
    have vn: "unat v < 2 ^ 29"
      using v(1) by (simp add: word_le_nat_alt unat_ucast_up CBS_ASN1_TAG_NUMBER_MASK_def CBS_ASN1_TAG_SHIFT_def)
    have uv: "unat (ucast v :: u32) = unat v"
      using vn by (simp add: unsigned_ucast_eq take_bit_nat_eq_self)
    have "(ucast v :: u32) AND mask 29 = ucast v"
      using vn by (simp add: word_unat_eq_iff unat_and_mask uv)
    from tag_class_build [OF this, of b] have cls: "tag_class tag = b AND 0xe0" and num: "tag_num tag = unat v"
      by (simp_all add: tag tag_num_def uv)
    have "b AND 0x1f = 0x1f"
      using True low_unat by (simp add: word_unat_eq_iff unat_and_0x1f)
    then have b: "tag_class tag OR 0x1f = b"
      using class_low_split [of b] by (simp add: cls)
    have "\<not> tag_num tag < 31"
      using v(2) by (simp add: num word_less_nat_alt)
    moreover have "bs = b128 (unat v) @ cbs_view c'"
      using parse_base128_integer_canonical [OF cbs_wf_advance [OF wf] base] by (simp only: view1)
    ultimately show ?thesis
      by (simp add: der_tag_def bs b num)
  qed
qed

section \<open>Elements\<close>

definition der_length :: "nat \<Rightarrow> bytes" where
  "der_length n =
     (if n < 128 then [of_nat n] else of_nat (128 + length (be_bytes n)) # be_bytes n)"

definition der_header :: "u32 \<Rightarrow> nat \<Rightarrow> bytes" where
  "der_header tag n = der_tag tag @ der_length n"

definition der_element :: "u32 \<Rightarrow> bytes \<Rightarrow> bytes" where
  "der_element tag body = der_header tag (length body) @ body"

lemma CBS_get_bytes_view:
  assumes "cbs_wf c" and "cbs_view c = as @ rest"
  shows "\<exists>out. CBS_get_bytes (length as) c = (Some out, advance (length as) c) \<and>
    cbs_wf out \<and> cbs_view out = as"
proof -
  have len: "cbs_len c = length as + length rest"
    using assms length_cbs_view [of c] by simp
  have "cbs_view (CBS_init (cbs_data c) (length as)) = take (length as) (cbs_view c)"
    using len by (simp add: cbs_view_def CBS_init_def min_def)
  then show ?thesis
    using assms len by (auto simp: CBS_get_bytes_advance CBS_init_def cbs_wf_def)
qed

lemma any_asn1_element_der:
  assumes wf: "cbs_wf c" and view: "cbs_view c = der_element tag body @ rest"
    and len: "length body < 2 ^ 32"
  obtains out where "cbs_get_any_asn1_element ber_ok c =
      (Some (out, tag, length (der_header tag (length body))), advance (length (der_element tag body)) c)"
    and "cbs_wf out" and "cbs_view out = der_element tag body"
proof -
  let ?n = "length body" and ?t = "length (der_tag tag)"
  obtain out where out: "CBS_get_bytes (length (der_element tag body)) c =
      (Some out, advance (length (der_element tag body)) c)" "cbs_wf out" "cbs_view out = der_element tag body"
    using CBS_get_bytes_view [OF wf view] by blast
  have tag: "parse_asn1_tag c = (Some tag, advance ?t c)"
    using view by (intro parse_asn1_tag_der [OF wf]) (simp add: der_element_def der_header_def)
  let ?h = "advance ?t c"
  have hwf: "cbs_wf ?h" and hview: "cbs_view ?h = der_length ?n @ body @ rest"
    using view by (simp_all add: cbs_wf_advance wf der_element_def der_header_def)
  have clen: "cbs_len c = ?t + length (der_length ?n) + ?n + length rest"
    using view length_cbs_view [OF wf] by (simp add: der_element_def der_header_def)
  have "cbs_get_any_asn1_element ber_ok c =
      (Some (out, tag, length (der_header tag ?n)), advance (length (der_element tag body)) c)"
  proof (cases "?n < 128")
    case True
    then have dl: "der_length ?n = [of_nat ?n]" and u: "unat (of_nat ?n :: u8) = ?n"
      by (simp_all add: der_length_def unat_of_nat_u8)
    have u8: "CBS_get_u8 ?h = (Some (of_nat ?n), advance (Suc ?t) c)"
      using hview by (simp add: CBS_get_u8_eq [OF hwf] dl)
    have "(of_nat ?n :: u8) AND 0x80 = 0" using True by (simp add: and_0x80_iff u)
    moreover have "cbs_len c - (cbs_len c - Suc ?t) = Suc ?t" using clen dl by simp
    moreover have "length (der_element tag body) = ?n + Suc ?t"
      by (simp add: der_element_def der_header_def dl)
    ultimately show ?thesis
      using out by (simp add: cbs_get_any_asn1_element_def tag u8 asn1_element_length_def CBS_len_def
          u der_header_def dl)
  next
    case False
    let ?l = "length (be_bytes ?n)"
    have n0: "?n \<noteq> 0" using False by auto
    have pow: "256 ^ (?l - 1) \<le> ?n" "?n < 256 ^ ?l"
      using length_be_bytes [OF n0] by blast+
    have l: "1 \<le> ?l" "?l \<le> 4"
    proof -
      show "1 \<le> ?l" using pow(2) n0 by (cases ?l) auto
      show "?l \<le> 4"
      proof (rule ccontr)
        assume "\<not> ?l \<le> 4"
        then have "(256::nat) ^ 4 \<le> 256 ^ (?l - 1)" by (intro power_increasing) auto
        with pow(1) len show False by simp
      qed
    qed
    let ?b = "of_nat (128 + ?l) :: u8"
    have b: "unat ?b = 128 + ?l" using l by (intro unat_of_nat_u8) simp
    have dl: "der_length ?n = ?b # be_bytes ?n" using False by (simp add: der_length_def)
    have u8: "CBS_get_u8 ?h = (Some ?b, advance (Suc ?t) c)"
      using hview by (simp add: CBS_get_u8_eq [OF hwf] dl)
    have num: "unat (?b AND 0x7f) = ?l"
      using l by (simp add: unat_and_0x7f b del: of_nat_add of_nat_numeral)
    let ?k = "advance (Suc ?t) c"
    have kview: "cbs_view ?k = be_bytes ?n @ body @ rest" and kwf: "cbs_wf ?k"
      using arg_cong [where f = tl, OF hview] by (simp_all add: dl cbs_wf_advance wf tl_drop drop_Suc)
    have "?l \<le> cbs_len ?k" using clen dl by simp
    then obtain v where v: "cbs_get_u ?l ?k = (Some v, advance ?l ?k)" "unat v = ?n"
      using cbs_get_u_be [OF kwf, of ?l] l kview by auto
    have "\<not> v < 128" using False v(2) by (simp add: word_less_nat_alt)
    moreover have "drop_bit ((?l - 1) * 8) v \<noteq> 0"
    proof -
      have "(256::nat) ^ (?l - 1) = 2 ^ ((?l - 1) * 8)"
        by (simp add: power_mult mult.commute)
      then show ?thesis using pow(1) by (simp add: drop_bit_eq_0_iff v(2))
    qed
    moreover have "\<not> size_add ?n (Suc ?t + ?l) < ?n"
    proof -
      have "?t \<le> 6" using length_der_tag [of tag] by simp
      with len l show ?thesis by (simp add: size_add_def)
    qed
    moreover have "?b AND 0x80 \<noteq> 0" by (simp add: and_0x80_iff b del: of_nat_add of_nat_numeral)
    moreover have "cbs_len c - (cbs_len c - Suc ?t) = Suc ?t" using clen dl by simp
    moreover have "length (der_element tag body) = ?n + (Suc ?t + ?l)"
      by (simp add: der_element_def der_header_def dl)
    moreover have "be_bytes ?n \<noteq> [] \<and> \<not> ?l > 4" using l by auto
    ultimately show ?thesis
      using out l by (simp add: cbs_get_any_asn1_element_def tag u8 asn1_element_length_def CBS_len_def
          num v der_header_def dl Let_def del: of_nat_add of_nat_numeral)
  qed
  with out that show thesis by blast
qed

lemma any_asn1_element_canonical:
  assumes wf: "cbs_wf c" and parse: "cbs_get_any_asn1_element False c = (Some (out, tag, h), c')"
  shows "\<exists>body. cbs_view c = der_element tag body @ cbs_view c' \<and> cbs_view out = der_element tag body \<and>
    cbs_wf out \<and> h = length (der_header tag (length body)) \<and> length body < 2 ^ 32"
proof -
  obtain hd1 b hd2 where tag: "parse_asn1_tag c = (Some tag, hd1)"
    and u8: "CBS_get_u8 hd1 = (Some b, hd2)"
    and elem: "asn1_element_length False c tag hd2 (CBS_len c - CBS_len hd2) b = (Some (out, tag, h), c')"
  proof -
    obtain r1 hd1 where p1: "parse_asn1_tag c = (r1, hd1)" by fastforce
    obtain r2 hd2 where p2: "CBS_get_u8 hd1 = (r2, hd2)" by fastforce
    show thesis
      using parse that p1 p2
      by (auto simp: cbs_get_any_asn1_element_def asn1_element_length_def Let_def on_ok_Some
          split: option.splits if_splits prod.splits)
  qed
  have wf1: "cbs_wf hd1" and wf2: "cbs_wf hd2"
    using asn1_tag.keeps_wf [OF wf] get_u8.keeps_wf [of hd1] tag u8 by auto
  have v1: "cbs_view c = der_tag tag @ cbs_view hd1"
    using parse_asn1_tag_canonical [OF wf tag] .
  obtain bs where bs: "cbs_view hd1 = b # bs" and hd2: "hd2 = advance (Suc 0) hd1"
    using u8 by (auto simp: CBS_get_u8_eq [OF wf1] split: list.splits)
  have v2: "cbs_view hd2 = bs" by (simp add: hd2 bs)
  have hl: "CBS_len c - CBS_len hd2 = Suc (length (der_tag tag))" (is "_ = ?hl")
    using v1 bs length_cbs_view [OF wf] length_cbs_view [OF wf2] v2 by (simp add: CBS_len_def)
  have view: "cbs_view c = der_tag tag @ b # bs" by (simp add: v1 bs)
  show ?thesis
  proof (cases "b AND 0x80 = 0")
    case True
    then have b: "unat b < 128" by (simp add: and_0x80_iff)
    obtain get: "CBS_get_bytes (unat b + ?hl) c = (Some out, c')" and h: "h = ?hl"
      using elem True by (auto simp: asn1_element_length_def hl on_ok_Some)
    then have len: "unat b + ?hl \<le> cbs_len c" and c': "c' = advance (unat b + ?hl) c"
      and out: "out = CBS_init (cbs_data c) (unat b + ?hl)"
      by (auto simp: CBS_get_bytes_advance split: if_splits)
    let ?body = "take (unat b) bs"
    have lb: "length ?body = unat b"
      using len length_cbs_view [OF wf] by (simp add: view)
    have e: "der_element tag ?body = der_tag tag @ b # ?body"
      using b lb by (simp add: der_element_def der_header_def der_length_def)
    have "cbs_view out = take (unat b + ?hl) (cbs_view c)"
      using len by (simp add: out cbs_view_def CBS_init_def min_def)
    then have "cbs_view out = der_element tag ?body" by (simp add: e view)
    moreover have "cbs_view c = der_element tag ?body @ cbs_view c'"
      by (simp add: e view c')
    moreover have "cbs_wf out" using len wf by (simp add: out cbs_wf_def CBS_init_def)
    moreover have "h = length (der_header tag (length ?body))"
      unfolding lb using b by (simp add: h der_header_def der_length_def)
    ultimately show ?thesis using b lb by (intro exI [of _ ?body]) simp
  next
    case False
    let ?l = "unat (b AND 0x7f)"
    have l: "?l = unat b - 128"
      using False unat_8_less [of b] by (simp add: unat_and_0x7f and_0x80_iff mod_if)
    obtain len64 r where l14: "?l \<noteq> 0" "?l \<le> 4" and get_u: "cbs_get_u ?l hd2 = (Some len64, r)"
      and min128: "\<not> len64 < 128" and minlen: "drop_bit ((?l - 1) * 8) len64 \<noteq> 0"
      and get: "CBS_get_bytes (unat len64 + (?hl + ?l)) c = (Some out, c')" and h: "h = ?hl + ?l"
      using elem False
      by (auto simp: asn1_element_length_def hl on_ok_Some Let_def simp del: mult_Suc_right
          split: if_splits prod.splits option.splits)
    have l2: "?l \<le> cbs_len hd2" using get_u cbs_get_u_fails [of hd2 ?l] by (cases "cbs_len hd2 < ?l") auto
    let ?lb = "take ?l bs" and ?n = "unat len64"
    have n: "?n = be_val ?lb"
      using cbs_get_u_be [OF wf2 l2] l14 get_u v2 by fastforce
    have ll: "length ?lb = ?l" using l2 length_cbs_view [OF wf2] by (simp add: v2)
    have be: "be_bytes ?n = ?lb"
    proof -
      have ge: "256 ^ (?l - 1) \<le> ?n"
        using minlen by (simp add: drop_bit_eq_0_iff power_mult mult.commute [of _ 8])
      have "hd ?lb \<noteq> 0"
      proof
        assume hd0: "hd ?lb = 0"
        obtain d ds where ds: "?lb = d # ds" using ll l14 by (cases ?lb) auto
        then have "?n < 256 ^ length ds" and "length ds = ?l - 1"
          using be_val_less [of ds] ll hd0 by (auto simp: n)
        with ge show False by simp
      qed
      then show ?thesis unfolding n by (intro be_bytes_be_val) simp
    qed
    have "?n < 256 ^ ?l" using be_val_less [of ?lb] unfolding ll n .
    also have "(256::nat) ^ ?l \<le> 256 ^ 4" using l14 by (intro power_increasing) auto
    finally have n32: "?n < 2 ^ 32" by simp
    have len: "?n + (?hl + ?l) \<le> cbs_len c" and c': "c' = advance (?n + (?hl + ?l)) c"
      and out: "out = CBS_init (cbs_data c) (?n + (?hl + ?l))"
      using get by (auto simp: CBS_get_bytes_advance split: if_splits)
    let ?body = "take ?n (drop ?l bs)"
    have lb: "length ?body = ?n"
      using len length_cbs_view [OF wf] by (simp add: view)
    have b: "of_nat (128 + ?l) = b"
      using l False by (simp add: and_0x80_iff not_less del: of_nat_add of_nat_numeral)
    have dl: "der_length ?n = b # ?lb"
      using min128 b be ll by (simp add: der_length_def word_less_nat_alt)
    have e: "der_element tag ?body = der_tag tag @ b # ?lb @ ?body"
      by (simp only: der_element_def der_header_def lb dl) simp
    have split: "bs = ?lb @ ?body @ drop (?n + ?l) bs"
      by (simp flip: drop_drop)
    have view': "cbs_view c = der_element tag ?body @ drop (?n + ?l) bs"
      unfolding e view by (subst split) simp
    have lc: "length (der_element tag ?body) = ?n + (?hl + ?l)"
      by (simp only: e length_append list.size lb ll)
    have "cbs_view out = take (?n + (?hl + ?l)) (cbs_view c)"
      using len by (simp add: out cbs_view_def CBS_init_def min_def)
    then have "cbs_view out = der_element tag ?body"
      by (simp only: view' flip: lc) simp
    moreover have "c' = advance (length (der_element tag ?body)) c"
      using c' by (simp only: lc)
    then have "cbs_view c = der_element tag ?body @ cbs_view c'"
      by (simp add: view')
    moreover have "cbs_wf out" using len wf by (simp add: out cbs_wf_def CBS_init_def)
    moreover have "h = length (der_header tag (length ?body))"
      unfolding lb by (simp add: h der_header_def dl ll del: length_take)
    ultimately show ?thesis using n32 lb by (intro exI [of _ ?body]) (simp only: lb)
  qed
qed

lemma CBS_get_any_asn1_element_iff:
  assumes "cbs_wf c"
  shows "(\<exists>out h c'. CBS_get_any_asn1_element c = (Some (out, tag, h), c') \<and>
            cbs_view out = e \<and> cbs_view c' = rest) \<longleftrightarrow>
         (\<exists>body. length body < 2 ^ 32 \<and> e = der_element tag body \<and> cbs_view c = e @ rest)"
proof
  assume "\<exists>out h c'. CBS_get_any_asn1_element c = (Some (out, tag, h), c') \<and>
    cbs_view out = e \<and> cbs_view c' = rest"
  then show "\<exists>body. length body < 2 ^ 32 \<and> e = der_element tag body \<and> cbs_view c = e @ rest"
    using any_asn1_element_canonical [OF assms] by (fastforce simp: CBS_get_any_asn1_element_def)
next
  assume "\<exists>body. length body < 2 ^ 32 \<and> e = der_element tag body \<and> cbs_view c = e @ rest"
  then obtain body where "length body < 2 ^ 32" "e = der_element tag body" "cbs_view c = e @ rest"
    by blast
  then obtain out where out: "CBS_get_any_asn1_element c =
      (Some (out, tag, length (der_header tag (length body))), advance (length e) c)" "cbs_view out = e"
    using any_asn1_element_der [OF assms, of tag body rest False]
    by (auto simp: CBS_get_any_asn1_element_def)
  moreover have "cbs_view (advance (length e) c) = rest"
    by (simp add: \<open>cbs_view c = e @ rest\<close>)
  ultimately show "\<exists>out h c'. CBS_get_any_asn1_element c = (Some (out, tag, h), c') \<and>
    cbs_view out = e \<and> cbs_view c' = rest"
    by blast
qed

lemma der_element_skip: "drop (length (der_header tag (length body))) (der_element tag body) = body"
  by (simp add: der_element_def)

lemma length_der_element: "length (der_header tag (length body)) \<le> length (der_element tag body)"
  by (simp add: der_element_def)

lemma length_der_element_le:
  assumes "length body < 2 ^ 32"
  shows "length (der_element tag body) \<le> length body + 11"
proof -
  have "length (be_bytes (length body)) \<le> 4"
  proof (rule ccontr)
    assume long: "\<not> ?thesis"
    then have n: "length body \<noteq> 0" by auto
    have "(256 :: nat) ^ 4 \<le> 256 ^ (length (be_bytes (length body)) - 1)"
      using long by (intro power_increasing) auto
    then show False using length_be_bytes [OF n] assms by simp
  qed
  then show ?thesis
    using length_der_tag [of tag] by (auto simp: der_element_def der_header_def der_length_def)
qed

lemma CBS_get_asn1_der:
  assumes "cbs_wf c" and "cbs_view c = der_element tag body @ rest" and "length body < 2 ^ 32"
  obtains out where "CBS_get_asn1 tag c = (Some out, advance (length (der_element tag body)) c)"
    and "cbs_wf out" and "cbs_view out = body"
proof -
  let ?h = "length (der_header tag (length body))"
  obtain out where out: "cbs_get_any_asn1_element False c = (Some (out, tag, ?h),
      advance (length (der_element tag body)) c)" "cbs_wf out" "cbs_view out = der_element tag body"
    using any_asn1_element_der [OF assms] .
  have "?h \<le> cbs_len out"
    using length_der_element [of tag body] by (simp flip: length_cbs_view [OF out(2)] add: out(3))
  then have "CBS_get_asn1 tag c = (Some (advance ?h out), advance (length (der_element tag body)) c)"
    by (simp add: CBS_get_asn1_def cbs_get_asn1_def CBS_get_any_asn1_element_def out(1) CBS_skip_advance)
  moreover have "cbs_view (advance ?h out) = body"
    by (simp add: out(3) der_element_skip)
  ultimately show thesis
    using that out(2) by (blast intro: cbs_wf_advance)
qed

lemma CBS_get_asn1_canonical:
  assumes "cbs_wf c" and "CBS_get_asn1 tag c = (Some out, c')"
  shows "cbs_view c = der_element tag (cbs_view out) @ cbs_view c' \<and> cbs_wf out \<and>
    length (cbs_view out) < 2 ^ 32"
proof -
  obtain el t h x where el: "cbs_get_any_asn1_element False c = (Some (el, t, h), c')"
    and t: "t = tag" and skip: "CBS_skip h el = (Some (), out)"
    using assms(2)
    by (auto simp: CBS_get_asn1_def cbs_get_asn1_def CBS_get_any_asn1_element_def on_ok_Some
        split: if_splits option.splits prod.splits)
  then have out: "out = advance h el" by (auto simp: CBS_skip_advance split: if_splits)
  obtain body where b: "cbs_view c = der_element t body @ cbs_view c'" "cbs_view el = der_element t body"
    "cbs_wf el" "h = length (der_header t (length body))" "length body < 2 ^ 32"
    using any_asn1_element_canonical [OF assms(1) el] by blast
  have "cbs_view out = body" by (simp add: out b(2,4) der_element_skip)
  with b t show ?thesis by (simp add: out cbs_wf_advance)
qed

section \<open>Integers\<close>

definition uint_bytes :: "nat \<Rightarrow> bytes" where
  "uint_bytes n =
     (if n = 0 then [0]
      else let bs = be_bytes n in if 128 \<le> unat (hd bs) then 0 # bs else bs)"

lemma asn1_uint64_loop_eq:
  "asn1_uint64_loop bs v =
     (if unat v * 256 ^ length bs + be_val bs < 2 ^ 64
      then Some (of_nat (unat v * 256 ^ length bs + be_val bs)) else None)"
proof (induction bs arbitrary: v)
  case Nil
  have "unat v < 2 ^ 64" using unsigned_less [of v, where ?'a = nat] by simp
  then show ?case by simp
next
  case (Cons b bs)
  show ?case
  proof (cases "drop_bit 56 v = 0")
    case True
    then have "unat (push_bit 8 v OR ucast b) = unat v * 256 + unat b"
      using unat_8_less [of b]
      by (subst unat_push_bit_or) (simp_all add: unat_ucast_up drop_bit_eq_0_iff)
    with True show ?thesis
      by (simp add: Cons.IH algebra_simps)
  next
    case False
    then have "2 ^ 56 \<le> unat v" by (simp add: drop_bit_eq_0_iff)
    then have "2 ^ 56 * 256 ^ 1 \<le> unat v * 256 ^ length (b # bs)"
      by (intro mult_le_mono power_increasing) auto
    then have "\<not> unat v * 256 ^ length (b # bs) + be_val (b # bs) < 2 ^ 64"
      by simp
    with False show ?thesis by simp
  qed
qed

lemma uint_bytes_canonical:
  assumes "bs \<noteq> []" and "unat (hd bs) < 128" and "\<not> (hd bs = 0 \<and> 1 < length bs \<and> unat (bs ! 1) < 128)"
  shows "uint_bytes (be_val bs) = bs"
proof (cases "hd bs = 0")
  case False
  then have "be_bytes (be_val bs) = bs" by (simp add: be_bytes_be_val)
  moreover have "be_val bs \<noteq> 0"
    using assms(1) False by (cases bs) (auto simp: unat_eq_0)
  ultimately show ?thesis using assms(2) by (simp add: uint_bytes_def)
next
  case True
  show ?thesis
  proof (cases "length bs = 1")
    case True
    with \<open>hd bs = 0\<close> have "bs = [0]" by (cases bs) auto
    then show ?thesis by (simp add: uint_bytes_def)
  next
    case False
    then obtain d ds where ds: "bs = 0 # d # ds"
      using assms(1) True by (cases bs; cases "tl bs") auto
    then have d: "128 \<le> unat d" using assms(3) by simp
    then have "d \<noteq> 0" by auto
    then have "be_bytes (be_val (d # ds)) = d # ds" by (intro be_bytes_be_val) simp
    moreover have "be_val (d # ds) \<noteq> 0" using d by simp
    ultimately show ?thesis using d by (simp add: uint_bytes_def ds)
  qed
qed

lemma hd_be_bytes: "n \<noteq> 0 \<Longrightarrow> be_bytes n \<noteq> [] \<and> hd (be_bytes n) \<noteq> 0"
proof (induction n rule: be_bytes.induct)
  case (1 n)
  show ?case
  proof (cases "n div 256 = 0")
    case True
    then have "n < 256" by simp
    then have "(of_nat n :: u8) \<noteq> 0"
      using "1.prems" by (metis unat_0 unat_of_nat_u8)
    with True "1.prems" \<open>n < 256\<close> show ?thesis by (simp add: be_bytes.simps [of n])
  next
    case False
    with "1.IH" "1.prems" show ?thesis by (simp add: be_bytes.simps [of n])
  qed
qed

lemma uint_bytes_props:
  "uint_bytes n \<noteq> []" "unat (hd (uint_bytes n)) < 128" "be_val (uint_bytes n) = n"
  "\<not> (hd (uint_bytes n) = 0 \<and> 1 < length (uint_bytes n) \<and> unat (uint_bytes n ! 1) < 128)"
proof -
  show "uint_bytes n \<noteq> []" "unat (hd (uint_bytes n)) < 128"
    using hd_be_bytes [of n] by (simp_all add: uint_bytes_def Let_def)
  show "be_val (uint_bytes n) = n"
    by (simp add: uint_bytes_def Let_def)
  show "\<not> (hd (uint_bytes n) = 0 \<and> 1 < length (uint_bytes n) \<and> unat (uint_bytes n ! 1) < 128)"
    using hd_be_bytes [of n] by (cases "be_bytes n") (simp_all add: uint_bytes_def Let_def)
qed

lemma uint_bytes_iff:
  "(bs \<noteq> [] \<and> unat (bs ! 0) < 128 \<and> \<not> (bs ! 0 = 0 \<and> 1 < length bs \<and> unat (bs ! 1) < 128)) \<longleftrightarrow>
   bs \<noteq> [] \<and> bs = uint_bytes (be_val bs)"
proof (cases "bs = []")
  case False
  then have hd: "bs ! 0 = hd bs" by (simp add: hd_conv_nth)
  show ?thesis
  proof
    assume "bs \<noteq> [] \<and> unat (bs ! 0) < 128 \<and> \<not> (bs ! 0 = 0 \<and> 1 < length bs \<and> unat (bs ! 1) < 128)"
    then show "bs \<noteq> [] \<and> bs = uint_bytes (be_val bs)"
      using uint_bytes_canonical [of bs] by (simp add: hd)
  next
    assume "bs \<noteq> [] \<and> bs = uint_bytes (be_val bs)"
    then have eq: "uint_bytes (be_val bs) = bs" by simp
    show "bs \<noteq> [] \<and> unat (bs ! 0) < 128 \<and> \<not> (bs ! 0 = 0 \<and> 1 < length bs \<and> unat (bs ! 1) < 128)"
      using uint_bytes_props(2,4) [of "be_val bs"] False unfolding eq hd by blast
  qed
qed simp

lemma length_uint_bytes: "n < 2 ^ 64 \<Longrightarrow> length (uint_bytes n) \<le> 9"
proof -
  assume n: "n < 2 ^ 64"
  have "length (be_bytes n) \<le> 8"
  proof (cases "n = 0")
    case False
    then have "(256::nat) ^ (length (be_bytes n) - 1) < 256 ^ 8"
      using length_be_bytes [of n] n by simp
    then have "length (be_bytes n) - 1 < 8"
      by (rule power_less_imp_less_exp [rotated]) simp
    then show ?thesis by simp
  qed simp
  then show ?thesis by (simp add: uint_bytes_def Let_def)
qed

lemma CBS_get_asn1_uint64_value:
  assumes "CBS_get_asn1 CBS_ASN1_INTEGER c = (Some b, c')" and "cbs_wf b"
  shows "CBS_get_asn1_uint64 c =
     (if cbs_view b \<noteq> [] \<and> cbs_view b = uint_bytes (be_val (cbs_view b)) \<and> be_val (cbs_view b) < 2 ^ 64
      then Some (of_nat (be_val (cbs_view b))) else None, c')"
proof -
  let ?bs = "cbs_view b"
  have len: "cbs_len b = length ?bs" by (simp add: assms(2))
  have nth: "cbs_data b ! i = ?bs ! i" if "i < length ?bs" for i
    using that by (simp add: nth_cbs_data flip: len)
  have loop: "asn1_uint64_loop ?bs 0 = (if be_val ?bs < 2 ^ 64 then Some (of_nat (be_val ?bs)) else None)"
    by (simp add: asn1_uint64_loop_eq)
  have tk: "take (length ?bs) (cbs_data b) = ?bs"
    by (simp add: cbs_view_def min_def)
  have "CBS_get_asn1_uint64 c =
     (if ?bs \<noteq> [] \<and> unat (?bs ! 0) < 128 \<and>
        \<not> (?bs ! 0 = 0 \<and> 1 < length ?bs \<and> unat (?bs ! 1) < 128)
      then asn1_uint64_loop ?bs 0 else None, c')"
    using nth [of 0] nth [of 1]
    by (cases "Suc 0 < length ?bs") (auto simp: CBS_get_asn1_uint64_def assms(1) CBS_data_def
        CBS_len_def len Let_def and_0x80_iff tk simp del: length_cbs_view)
  then show ?thesis unfolding uint_bytes_iff loop by simp
qed

lemma CBS_get_asn1_uint64_iff:
  assumes "cbs_wf c"
  shows "(\<exists>c'. CBS_get_asn1_uint64 c = (Some v, c') \<and> cbs_view c' = rest) \<longleftrightarrow>
    cbs_view c = der_element CBS_ASN1_INTEGER (uint_bytes (unat v)) @ rest"
proof
  assume "\<exists>c'. CBS_get_asn1_uint64 c = (Some v, c') \<and> cbs_view c' = rest"
  then obtain c' where get: "CBS_get_asn1_uint64 c = (Some v, c')" and c': "cbs_view c' = rest"
    by blast
  then obtain b c1 where b: "CBS_get_asn1 CBS_ASN1_INTEGER c = (Some b, c1)"
    by (auto simp: CBS_get_asn1_uint64_def on_ok_Some)
  note can = CBS_get_asn1_canonical [OF assms b]
  then have "c1 = c'" and "cbs_view b = uint_bytes (be_val (cbs_view b))"
    and "v = of_nat (be_val (cbs_view b))" and "be_val (cbs_view b) < 2 ^ 64"
    using get CBS_get_asn1_uint64_value [OF b] by (auto split: if_splits)
  with can c' show "cbs_view c = der_element CBS_ASN1_INTEGER (uint_bytes (unat v)) @ rest"
    by (simp add: unat_of_nat_u64)
next
  assume view: "cbs_view c = der_element CBS_ASN1_INTEGER (uint_bytes (unat v)) @ rest"
  have v: "unat v < 2 ^ 64" using unsigned_less [of v, where ?'a = nat] by simp
  have "length (uint_bytes (unat v)) < 2 ^ 32"
    using length_uint_bytes [OF v] by simp
  then obtain out where out: "CBS_get_asn1 CBS_ASN1_INTEGER c =
      (Some out, advance (length (der_element CBS_ASN1_INTEGER (uint_bytes (unat v)))) c)"
    "cbs_wf out" "cbs_view out = uint_bytes (unat v)"
    using CBS_get_asn1_der [OF assms view] by blast
  then show "\<exists>c'. CBS_get_asn1_uint64 c = (Some v, c') \<and> cbs_view c' = rest"
    using CBS_get_asn1_uint64_value [OF out(1,2)] v by (simp add: uint_bytes_props view)
qed

end
