(* ===== verification/Cbb.thy ===== *)
theory Cbb
  imports Der
begin

text \<open>
  \<open>crypto/bytestring/cbb.c\<close> of BoringSSL: the builder object \<open>CBB\<close>. Several \<open>CBB\<close>s write to
  one growing buffer: the top one and, while length prefixes are pending, a chain of children,
  each the \<open>child\<close> of the one before. A \<open>cbb\<close> is the shared buffer and that chain, and a
  handle is a depth in it: 0 is the top object, \<open>d\<close> the \<open>d\<close>-th child. A handle deeper than the
  chain is an object whose \<open>base\<close> has been set to \<open>NULL\<close>. \<open>mem\<close> is the platform's allocator.
  The second half specifies the builder abstractly and proves that it implements that.
\<close>

section \<open>The builder object\<close>

record cbb_buffer =
  buf :: bytes
  buf_len :: nat
  cap :: nat
  can_resize :: bool
  error :: bool

record cbb_child =
  offset :: nat
  pending_len_len :: nat
  pending_is_asn1 :: bool

record cbb =
  base :: cbb_buffer
  chain :: "cbb_child list"

type_synonym alloc = "nat \<Rightarrow> bytes option"

text \<open>\<open>cbb_init\<close> allocates the 32 bytes of a \<open>cbb_buffer_st\<close>.\<close>

definition cbb_init :: "alloc \<Rightarrow> bytes \<Rightarrow> nat \<Rightarrow> cbb option" where
  "cbb_init mem b capacity =
     (case OPENSSL_malloc mem 32 of
        None \<Rightarrow> None
      | Some _ \<Rightarrow>
          Some \<lparr>base = \<lparr>buf = b, buf_len = 0, cap = capacity, can_resize = True, error = False\<rparr>,
                chain = []\<rparr>)"

text \<open>
  The buffer of a \<open>CBB_init\<close> with capacity 0 may be \<open>NULL\<close>: it is the empty block, which
  \<open>OPENSSL_realloc\<close> treats in the same way.
\<close>

definition CBB_init :: "alloc \<Rightarrow> nat \<Rightarrow> cbb option" where
  "CBB_init mem initial_capacity =
     (case OPENSSL_malloc mem initial_capacity of
        None \<Rightarrow> if initial_capacity > 0 then None else cbb_init mem [] 0
      | Some b \<Rightarrow> cbb_init mem b initial_capacity)"

definition CBB_init_fixed :: "alloc \<Rightarrow> bytes \<Rightarrow> nat \<Rightarrow> cbb option" where
  "CBB_init_fixed mem b n =
     (case cbb_init mem b n of
        None \<Rightarrow> None
      | Some s \<Rightarrow> Some (s\<lparr>base := (base s)\<lparr>can_resize := False\<rparr>\<rparr>))"

definition cbb_buffer_reserve :: "alloc \<Rightarrow> nat \<Rightarrow> cbb_buffer \<Rightarrow> nat option \<times> cbb_buffer" where
  "cbb_buffer_reserve mem n b =
     (let newlen = size_add (buf_len b) n
      in if newlen < buf_len b then (None, b\<lparr>error := True\<rparr>)
         else if newlen > cap b then
           if \<not> can_resize b then (None, b\<lparr>error := True\<rparr>)
           else
             let newcap = size_mul (cap b) 2;
                 newcap = (if newcap < cap b \<or> newcap < newlen then newlen else newcap)
             in case OPENSSL_realloc mem (Some (buf b)) newcap of
                  None \<Rightarrow> (None, b\<lparr>error := True\<rparr>)
                | Some newbuf \<Rightarrow> (Some (buf_len b), b\<lparr>buf := newbuf, cap := newcap\<rparr>)
         else (Some (buf_len b), b))"

definition cbb_buffer_add :: "alloc \<Rightarrow> nat \<Rightarrow> cbb_buffer \<Rightarrow> nat option \<times> cbb_buffer" where
  "cbb_buffer_add mem n b =
     on_ok (cbb_buffer_reserve mem n b) (\<lambda>out b. (Some out, b\<lparr>buf_len := buf_len b + n\<rparr>))"

text \<open>The loop that stores the low bytes of a number from the last position down.\<close>

fun store_be :: "bytes \<Rightarrow> nat \<Rightarrow> nat \<Rightarrow> nat \<Rightarrow> bytes \<times> nat" where
  "store_be b off 0 v = (b, v)"
| "store_be b off (Suc i) v = store_be (b[off + i := of_nat v]) off i (v div 256)"

definition cbb_buffer_add_u :: "alloc \<Rightarrow> u64 \<Rightarrow> nat \<Rightarrow> cbb_buffer \<Rightarrow> unit option \<times> cbb_buffer" where
  "cbb_buffer_add_u mem v len_len b =
     (if len_len = 0 then (Some (), b)
      else on_ok (cbb_buffer_add mem len_len b) (\<lambda>out b.
        let (b', v') = store_be (buf b) out len_len (unat v)
        in if v' \<noteq> 0 then (None, b\<lparr>buf := b', error := True\<rparr>)
           else (Some (), b\<lparr>buf := b'\<rparr>)))"

definition cbb_fail :: "cbb \<Rightarrow> unit option \<times> cbb" where
  "cbb_fail s = (None, s\<lparr>base := (base s)\<lparr>error := True\<rparr>\<rparr>)"

text \<open>The part of \<open>CBB_flush\<close> that decides the long form and makes room for it.\<close>

definition flush_asn1_prefix ::
  "alloc \<Rightarrow> cbb_child \<Rightarrow> nat \<Rightarrow> nat \<Rightarrow> cbb_buffer \<Rightarrow> (cbb_child \<times> nat) option \<times> cbb_buffer" where
  "flush_asn1_prefix mem child child_start n b =
     (if n > 0xfffffffe then (None, b)
      else
        let (len_len, initial_length_byte, n') =
          (if n > 0xffffff then (5, 0x80 OR 4, n)
           else if n > 0xffff then (4, 0x80 OR 3, n)
           else if n > 0xff then (3, 0x80 OR 2, n)
           else if n > 0x7f then (2, 0x80 OR 1, n)
           else (1, of_nat n, 0)) :: nat \<times> u8 \<times> nat;
          extra_bytes = len_len - 1
        in on_ok
          (if len_len \<noteq> 1 then
             on_ok (cbb_buffer_add mem extra_bytes b) (\<lambda>_ b.
               (Some (), b\<lparr>buf := blit (buf b) (child_start + extra_bytes)
                                (take n' (drop child_start (buf b)))\<rparr>))
           else (Some (), b))
          (\<lambda>_ b.
            (Some (child\<lparr>offset := offset child + 1, pending_len_len := len_len - 1\<rparr>, n'),
             b\<lparr>buf := (buf b)[offset child := initial_length_byte]\<rparr>)))"

text \<open>\<open>CBB_flush\<close> once its child is flushed: the child's length prefix is written out.\<close>

definition flush_prefix :: "alloc \<Rightarrow> nat \<Rightarrow> cbb_child \<Rightarrow> cbb \<Rightarrow> unit option \<times> cbb" where
  "flush_prefix mem d child s =
     (let child_start = size_add (offset child) (pending_len_len child)
      in if child_start < offset child \<or> buf_len (base s) < child_start then cbb_fail s
         else
           let n = buf_len (base s) - child_start
           in case
             (if pending_is_asn1 child then flush_asn1_prefix mem child child_start n (base s)
              else (Some (child, n), base s))
           of (None, b) \<Rightarrow> cbb_fail (s\<lparr>base := b\<rparr>)
            | (Some (child', n'), b) \<Rightarrow>
                let (b', rest) = store_be (buf b) (offset child') (pending_len_len child') n'
                in if rest \<noteq> 0 then cbb_fail (s\<lparr>base := b\<lparr>buf := b'\<rparr>\<rparr>)
                   else (Some (), s\<lparr>base := b\<lparr>buf := b'\<rparr>, chain := take d (chain s)\<rparr>))"

function CBB_flush :: "alloc \<Rightarrow> nat \<Rightarrow> cbb \<Rightarrow> unit option \<times> cbb" where
  "CBB_flush mem d s =
     (if length (chain s) < d \<or> error (base s) then (None, s)
      else if length (chain s) = d \<or> pending_len_len (chain s ! d) = 0 then (Some (), s)
      else case CBB_flush mem (Suc d) s of
          (None, s') \<Rightarrow> cbb_fail s'
        | (Some _, s') \<Rightarrow> flush_prefix mem d (chain s ! d) s')"
  by pat_completeness auto
termination
  by (relation "measure (\<lambda>(mem, d, s). length (chain s) - d)") auto

declare CBB_flush.simps [simp del]

definition cbb_on_base :: "(cbb_buffer \<Rightarrow> 'a option \<times> cbb_buffer) \<Rightarrow> cbb \<Rightarrow> 'a option \<times> cbb" where
  "cbb_on_base f s = (case f (base s) of (r, b) \<Rightarrow> (r, s\<lparr>base := b\<rparr>))"

text \<open>
  \<open>CBB_finish\<close> returns the buffer and the length, both pointers given; the object is cleaned
  up on success.
\<close>

definition CBB_finish :: "alloc \<Rightarrow> nat \<Rightarrow> cbb \<Rightarrow> (bytes \<times> nat) option \<times> cbb" where
  "CBB_finish mem d s =
     (if d \<noteq> 0 then (None, s)
      else on_ok (CBB_flush mem d s) (\<lambda>_ s. (Some (buf (base s), buf_len (base s)), s)))"

definition cbb_start :: "nat \<Rightarrow> cbb \<Rightarrow> nat" where
  "cbb_start d s =
     (if d = 0 then 0
      else offset (chain s ! (d - 1)) + pending_len_len (chain s ! (d - 1)))"

definition CBB_data :: "nat \<Rightarrow> cbb \<Rightarrow> bytes" where
  "CBB_data d s = drop (cbb_start d s) (buf (base s))"

definition CBB_len :: "nat \<Rightarrow> cbb \<Rightarrow> nat" where
  "CBB_len d s = buf_len (base s) - cbb_start d s"

definition cbb_add_length_prefixed :: "alloc \<Rightarrow> nat \<Rightarrow> nat \<Rightarrow> cbb \<Rightarrow> unit option \<times> cbb" where
  "cbb_add_length_prefixed mem len_len d s =
     on_ok (CBB_flush mem d s) (\<lambda>_ s.
       let off = buf_len (base s)
       in on_ok (cbb_on_base (cbb_buffer_add mem len_len) s) (\<lambda>prefix_bytes s.
         (Some (),
          s\<lparr>base := (base s)\<lparr>buf := blit (buf (base s)) prefix_bytes (replicate len_len 0)\<rparr>,
            chain := take d (chain s) @
              [\<lparr>offset = off, pending_len_len = len_len, pending_is_asn1 = False\<rparr>]\<rparr>)))"

definition CBB_add_u8_length_prefixed :: "alloc \<Rightarrow> nat \<Rightarrow> cbb \<Rightarrow> unit option \<times> cbb" where
  "CBB_add_u8_length_prefixed mem = cbb_add_length_prefixed mem 1"

definition CBB_add_u16_length_prefixed :: "alloc \<Rightarrow> nat \<Rightarrow> cbb \<Rightarrow> unit option \<times> cbb" where
  "CBB_add_u16_length_prefixed mem = cbb_add_length_prefixed mem 2"

definition CBB_add_u24_length_prefixed :: "alloc \<Rightarrow> nat \<Rightarrow> cbb \<Rightarrow> unit option \<times> cbb" where
  "CBB_add_u24_length_prefixed mem = cbb_add_length_prefixed mem 3"

definition cbb_add_u :: "alloc \<Rightarrow> nat \<Rightarrow> u64 \<Rightarrow> nat \<Rightarrow> cbb \<Rightarrow> unit option \<times> cbb" where
  "cbb_add_u mem n v d s =
     on_ok (CBB_flush mem d s) (\<lambda>_. cbb_on_base (cbb_buffer_add_u mem v n))"

definition CBB_add_u8 :: "alloc \<Rightarrow> u8 \<Rightarrow> nat \<Rightarrow> cbb \<Rightarrow> unit option \<times> cbb" where
  "CBB_add_u8 mem v = cbb_add_u mem 1 (ucast v)"

definition CBB_add_u16 :: "alloc \<Rightarrow> u16 \<Rightarrow> nat \<Rightarrow> cbb \<Rightarrow> unit option \<times> cbb" where
  "CBB_add_u16 mem v = cbb_add_u mem 2 (ucast v)"

definition CBB_add_u16le :: "alloc \<Rightarrow> u16 \<Rightarrow> nat \<Rightarrow> cbb \<Rightarrow> unit option \<times> cbb" where
  "CBB_add_u16le mem v = CBB_add_u16 mem (CRYPTO_bswap2 v)"

definition CBB_add_u24 :: "alloc \<Rightarrow> u32 \<Rightarrow> nat \<Rightarrow> cbb \<Rightarrow> unit option \<times> cbb" where
  "CBB_add_u24 mem v = cbb_add_u mem 3 (ucast v)"

definition CBB_add_u32 :: "alloc \<Rightarrow> u32 \<Rightarrow> nat \<Rightarrow> cbb \<Rightarrow> unit option \<times> cbb" where
  "CBB_add_u32 mem v = cbb_add_u mem 4 (ucast v)"

definition CBB_add_u32le :: "alloc \<Rightarrow> u32 \<Rightarrow> nat \<Rightarrow> cbb \<Rightarrow> unit option \<times> cbb" where
  "CBB_add_u32le mem v = CBB_add_u32 mem (CRYPTO_bswap4 v)"

definition CBB_add_u64 :: "alloc \<Rightarrow> u64 \<Rightarrow> nat \<Rightarrow> cbb \<Rightarrow> unit option \<times> cbb" where
  "CBB_add_u64 mem v = cbb_add_u mem 8 v"

definition CBB_add_u64le :: "alloc \<Rightarrow> u64 \<Rightarrow> nat \<Rightarrow> cbb \<Rightarrow> unit option \<times> cbb" where
  "CBB_add_u64le mem v = CBB_add_u64 mem (CRYPTO_bswap8 v)"

function base128_len :: "u64 \<Rightarrow> nat" where
  "base128_len copy = (if copy > 0 then Suc (base128_len (drop_bit 7 copy)) else 0)"
  by pat_completeness auto
termination
  by (relation "measure unat") (auto simp: unat_drop_bit_eq drop_bit_eq_div unat_div word_greater_zero_iff unat_gt_0)

declare base128_len.simps [simp del]

fun base128_bytes :: "alloc \<Rightarrow> u64 \<Rightarrow> nat \<Rightarrow> nat \<Rightarrow> cbb \<Rightarrow> unit option \<times> cbb" where
  "base128_bytes mem v 0 d s = (Some (), s)"
| "base128_bytes mem v (Suc i) d s =
     (let byte = ucast (drop_bit (7 * i) v AND 0x7f) :: u8;
          byte = (if i \<noteq> 0 then byte OR 0x80 else byte)
      in on_ok (CBB_add_u8 mem byte d s) (\<lambda>_. base128_bytes mem v i d))"

definition add_base128_integer :: "alloc \<Rightarrow> u64 \<Rightarrow> nat \<Rightarrow> cbb \<Rightarrow> unit option \<times> cbb" where
  "add_base128_integer mem v =
     (let len_len = base128_len v; len_len = (if len_len = 0 then 1 else len_len)
      in base128_bytes mem v len_len)"

definition CBB_add_asn1 :: "alloc \<Rightarrow> u32 \<Rightarrow> nat \<Rightarrow> cbb \<Rightarrow> unit option \<times> cbb" where
  "CBB_add_asn1 mem tag d s =
     on_ok (CBB_flush mem d s) (\<lambda>_ s.
       let tag_bits = ucast (drop_bit CBS_ASN1_TAG_SHIFT tag) AND 0xe0 :: u8;
           tag_number = tag AND CBS_ASN1_TAG_NUMBER_MASK
       in on_ok
         (if tag_number \<ge> 0x1f then
            on_ok (CBB_add_u8 mem (tag_bits OR 0x1f) d s)
              (\<lambda>_. add_base128_integer mem (ucast tag_number) d)
          else CBB_add_u8 mem (tag_bits OR ucast tag_number) d s)
         (\<lambda>_ s. let off = buf_len (base s)
           in on_ok (CBB_add_u8 mem 0 d s) (\<lambda>_ s.
             (Some (), s\<lparr>chain := take d (chain s) @
                [\<lparr>offset = off, pending_len_len = 1, pending_is_asn1 = True\<rparr>]\<rparr>))))"

definition CBB_add_bytes :: "alloc \<Rightarrow> bytes \<Rightarrow> nat \<Rightarrow> cbb \<Rightarrow> unit option \<times> cbb" where
  "CBB_add_bytes mem data d s =
     on_ok (CBB_flush mem d s) (\<lambda>_ s.
       on_ok (cbb_on_base (cbb_buffer_add mem (length data)) s) (\<lambda>dest s.
         (Some (), s\<lparr>base := (base s)\<lparr>buf := blit (buf (base s)) dest data\<rparr>\<rparr>)))"

definition CBB_add_space :: "alloc \<Rightarrow> nat \<Rightarrow> nat \<Rightarrow> cbb \<Rightarrow> nat option \<times> cbb" where
  "CBB_add_space mem n d s =
     on_ok (CBB_flush mem d s) (\<lambda>_. cbb_on_base (cbb_buffer_add mem n))"

definition CBB_reserve :: "alloc \<Rightarrow> nat \<Rightarrow> nat \<Rightarrow> cbb \<Rightarrow> nat option \<times> cbb" where
  "CBB_reserve mem n d s =
     on_ok (CBB_flush mem d s) (\<lambda>_. cbb_on_base (cbb_buffer_reserve mem n))"

definition CBB_did_write :: "nat \<Rightarrow> nat \<Rightarrow> cbb \<Rightarrow> unit option \<times> cbb" where
  "CBB_did_write n d s =
     (let newlen = size_add (buf_len (base s)) n
      in if d < length (chain s) \<or> newlen < buf_len (base s) \<or> newlen > cap (base s) then (None, s)
         else (Some (), s\<lparr>base := (base s)\<lparr>buf_len := newlen\<rparr>\<rparr>))"

definition CBB_discard_child :: "nat \<Rightarrow> cbb \<Rightarrow> cbb" where
  "CBB_discard_child d s =
     (if length (chain s) \<le> d then s
      else s\<lparr>base := (base s)\<lparr>buf_len := offset (chain s ! d)\<rparr>, chain := take d (chain s)\<rparr>)"

section \<open>ASN.1 values\<close>

fun asn1_uint64_bytes :: "alloc \<Rightarrow> u64 \<Rightarrow> nat \<Rightarrow> bool \<Rightarrow> nat \<Rightarrow> cbb \<Rightarrow> bool option \<times> cbb" where
  "asn1_uint64_bytes mem v 0 started d s = (Some started, s)"
| "asn1_uint64_bytes mem v (Suc k) started d s =
     (let byte = ucast (drop_bit (8 * k) v AND 0xff) :: u8
      in if \<not> started \<and> byte = 0 then asn1_uint64_bytes mem v k started d s
         else on_ok
           (if \<not> started \<and> byte AND 0x80 \<noteq> 0 then CBB_add_u8 mem 0 d s else (Some (), s))
           (\<lambda>_ s. on_ok (CBB_add_u8 mem byte d s) (\<lambda>_. asn1_uint64_bytes mem v k True d)))"

definition CBB_add_asn1_uint64 :: "alloc \<Rightarrow> u64 \<Rightarrow> nat \<Rightarrow> cbb \<Rightarrow> unit option \<times> cbb" where
  "CBB_add_asn1_uint64 mem v d s =
     on_ok (CBB_add_asn1 mem CBS_ASN1_INTEGER d s) (\<lambda>_ s.
       on_ok (asn1_uint64_bytes mem v 8 False (Suc d) s) (\<lambda>started s.
         on_ok (if \<not> started then CBB_add_u8 mem 0 (Suc d) s else (Some (), s))
           (\<lambda>_. CBB_flush mem d)))"

text \<open>
  The union \<open>u\<close> of \<open>CBB_add_asn1_int64\<close> on a little-endian target: byte \<open>i\<close> is the \<open>i\<close>-th
  from the low end of the two's complement representation.
\<close>

definition int64_byte :: "u64 \<Rightarrow> nat \<Rightarrow> u8" where
  "int64_byte v i = ucast (drop_bit (8 * i) v)"

fun int64_start :: "u64 \<Rightarrow> nat \<Rightarrow> nat" where
  "int64_start v 0 = 0"
| "int64_start v (Suc k) =
     (if int64_byte v (Suc k) = 0xff \<and> int64_byte v k AND 0x80 \<noteq> 0 then int64_start v k else Suc k)"

fun add_u8s :: "alloc \<Rightarrow> bytes \<Rightarrow> nat \<Rightarrow> cbb \<Rightarrow> unit option \<times> cbb" where
  "add_u8s mem [] d s = (Some (), s)"
| "add_u8s mem (b # bs) d s = on_ok (CBB_add_u8 mem b d s) (\<lambda>_. add_u8s mem bs d)"

definition CBB_add_asn1_int64 :: "alloc \<Rightarrow> u64 \<Rightarrow> nat \<Rightarrow> cbb \<Rightarrow> unit option \<times> cbb" where
  "CBB_add_asn1_int64 mem v d s =
     (if 0 \<le> sint v then CBB_add_asn1_uint64 mem v d s
      else let start = int64_start v 7
        in on_ok (CBB_add_asn1 mem CBS_ASN1_INTEGER d s) (\<lambda>_ s.
          on_ok (add_u8s mem (map (int64_byte v) (rev [0..<Suc start])) (Suc d) s)
            (\<lambda>_. CBB_flush mem d)))"

definition CBB_add_asn1_octet_string :: "alloc \<Rightarrow> bytes \<Rightarrow> nat \<Rightarrow> cbb \<Rightarrow> unit option \<times> cbb" where
  "CBB_add_asn1_octet_string mem data d s =
     on_ok (CBB_add_asn1 mem CBS_ASN1_OCTETSTRING d s) (\<lambda>_ s.
       on_ok (CBB_add_bytes mem data (Suc d) s) (\<lambda>_. CBB_flush mem d))"

definition CBB_add_asn1_bool :: "alloc \<Rightarrow> int \<Rightarrow> nat \<Rightarrow> cbb \<Rightarrow> unit option \<times> cbb" where
  "CBB_add_asn1_bool mem v d s =
     on_ok (CBB_add_asn1 mem CBS_ASN1_BOOLEAN d s) (\<lambda>_ s.
       on_ok (CBB_add_u8 mem (if v \<noteq> 0 then 0xff else 0) (Suc d) s) (\<lambda>_. CBB_flush mem d))"


section \<open>What the builder promises\<close>

fun be_fixed :: "nat \<Rightarrow> nat \<Rightarrow> bytes" where
  "be_fixed 0 v = []"
| "be_fixed (Suc n) v = be_fixed n (v div 256) @ [of_nat v]"

lemma length_be_fixed [simp]: "length (be_fixed n v) = n"
  by (induction n arbitrary: v) auto

lemma be_val_be_fixed: "be_val (be_fixed n v) = v mod 256 ^ n"
proof (induction n arbitrary: v)
  case (Suc n)
  have "v mod (256 * 256 ^ n) = 256 * (v div 256 mod 256 ^ n) + v mod 256"
    by (rule mod_mult2_eq)
  then show ?case by (simp add: Suc be_val_append unat_of_nat take_bit_eq_mod)
qed simp

lemma store_be_eq:
  "off + n \<le> length b \<Longrightarrow> store_be b off n v = (blit b off (be_fixed n v), v div 256 ^ n)"
proof (induction n arbitrary: b v)
  case (Suc n)
  have "blit (b[off + n := of_nat v]) off (be_fixed n (v div 256)) =
      blit b off (be_fixed n (v div 256) @ [of_nat v])"
    using Suc.prems by (simp add: blit_def upd_conv_take_nth_drop min_def)
  then show ?case using Suc by (simp add: div_mult2_eq)
qed simp

text \<open>A length prefix: a fixed number of bytes, or a DER length.\<close>

datatype prefix = Fixed nat | Asn1

type_synonym frame = "prefix \<times> bytes"

fun prefix_size :: "prefix \<Rightarrow> nat" where
  "prefix_size (Fixed n) = n"
| "prefix_size Asn1 = 1"

fun close :: "prefix \<Rightarrow> bytes \<Rightarrow> bytes option" where
  "close (Fixed n) body = (if length body < 256 ^ n then Some (be_fixed n (length body) @ body) else None)"
| "close Asn1 body = (if length body \<le> 0xfffffffe then Some (der_length (length body) @ body) else None)"

text \<open>The children that are pending, from the outside in, with the bytes written to each.\<close>

fun collapse :: "frame list \<Rightarrow> bytes option" where
  "collapse [] = Some []"
| "collapse ((k, bs) # fs) = (case collapse fs of None \<Rightarrow> None | Some cl \<Rightarrow> close k (bs @ cl))"

fun layout :: "frame list \<Rightarrow> bytes" where
  "layout [] = []"
| "layout ((k, bs) # fs) = replicate (prefix_size k) 0 @ bs @ layout fs"

fun frames_at :: "nat \<Rightarrow> frame list \<Rightarrow> cbb_child list" where
  "frames_at off [] = []"
| "frames_at off ((k, bs) # fs) =
     \<lparr>offset = off, pending_len_len = prefix_size k, pending_is_asn1 = (k = Asn1)\<rparr> #
       frames_at (off + prefix_size k + length bs) fs"

definition buffer_ok :: "cbb_buffer \<Rightarrow> bool" where
  "buffer_ok b \<longleftrightarrow> \<not> error b \<and> buf_len b \<le> cap b \<and> length (buf b) = cap b"

definition written :: "cbb_buffer \<Rightarrow> bytes" where
  "written b = take (buf_len b) (buf b)"

text \<open>
  The object has \<open>cs\<close> pending down to the handle in question, and below it the children
  \<open>fs\<close>; \<open>root\<close> is what is in the buffer before them.
\<close>

definition represents :: "cbb \<Rightarrow> cbb_child list \<Rightarrow> bytes \<Rightarrow> frame list \<Rightarrow> bool" where
  "represents s cs root fs \<longleftrightarrow>
     buffer_ok (base s) \<and> written (base s) = root @ layout fs \<and>
     chain s = cs @ frames_at (length root) fs \<and> (\<forall>(k, bs) \<in> set fs. 0 < prefix_size k)"

text \<open>The object can hold \<open>n\<close> bytes: its block is large enough or can be reallocated.\<close>

definition ready :: "alloc \<Rightarrow> nat \<Rightarrow> cbb_buffer \<Rightarrow> bool" where
  "ready mem n b \<longleftrightarrow> n \<le> cap b \<or> can_resize b \<and> (\<forall>k. mem k \<noteq> None)"

definition grown :: "cbb_buffer \<Rightarrow> cbb_buffer \<Rightarrow> bool" where
  "grown b b' \<longleftrightarrow> cap b \<le> cap b' \<and> can_resize b' = can_resize b"

lemma grown_refl [simp]: "grown b b"
  and grown_trans: "grown a b \<Longrightarrow> grown b c \<Longrightarrow> grown a c"
  by (auto simp: grown_def)

lemma ready_grown: "grown b b' \<Longrightarrow> ready mem n b \<Longrightarrow> m \<le> n \<Longrightarrow> ready mem m b'"
  by (auto simp: grown_def ready_def)

text \<open>
  What a call that appends leaves: on success the given bytes and no pending child, and it
  fails only where the buffer cannot hold them.
\<close>

definition yields ::
  "alloc \<Rightarrow> cbb \<Rightarrow> cbb_child list \<Rightarrow> bytes \<Rightarrow> 'a option \<times> cbb \<Rightarrow> bool" where
  "yields mem s cs out rs \<longleftrightarrow>
     (case rs of
        (Some _, s') \<Rightarrow> represents s' cs out [] \<and> grown (base s) (base s')
      | (None, s') \<Rightarrow> \<not> ready mem (length out) (base s))"

lemma buffer_add:
  assumes "buffer_ok b" and "buf_len b + n \<le> 2 ^ 62"
  shows "case cbb_buffer_add mem n b of
      (Some off, b') \<Rightarrow> off = buf_len b \<and> buffer_ok b' \<and> buf_len b' = buf_len b + n \<and>
        take (buf_len b) (buf b') = written b \<and> grown b b'
    | (None, b') \<Rightarrow> error b' \<and> \<not> ready mem (buf_len b + n) b"
proof (cases "buf_len b + n \<le> cap b")
  case True
  then show ?thesis
    using assms by (simp add: cbb_buffer_add_def cbb_buffer_reserve_def size_add_def Let_def
        buffer_ok_def written_def grown_def)
next
  case False
  let ?n = "buf_len b + n"
  let ?c = "if size_mul (cap b) 2 < cap b \<or> size_mul (cap b) 2 < ?n then ?n else size_mul (cap b) 2"
  have "cap b < 2 ^ 62" using False assms(2) by simp
  then have c: "?n \<le> ?c" "?c + 8 < 2 ^ 64" "cap b \<le> ?c"
    using False assms(2) by (auto simp: size_mul_def)
  show ?thesis
  proof (cases "can_resize b")
    case resize: True
    show ?thesis
    proof (cases "OPENSSL_realloc mem (Some (buf b)) ?c")
      case None
      then have "\<exists>k. mem k = None"
        by (auto simp: ossl_realloc_def ossl_malloc_def Let_def split: option.splits)
      with None False resize assms show ?thesis
        by (simp add: cbb_buffer_add_def cbb_buffer_reserve_def size_add_def Let_def ready_def)
    next
      case (Some nb)
      have "length nb = ?c" using ossl_realloc_length [OF Some c(2)] by simp
      moreover have "take (buf_len b) nb = take (buf_len b) (buf b)"
        using assms(1) c by (intro ossl_realloc_take [OF Some]) (auto simp: buffer_ok_def)
      ultimately show ?thesis
        using Some False resize assms c
        by (simp add: cbb_buffer_add_def cbb_buffer_reserve_def size_add_def Let_def
            buffer_ok_def written_def grown_def)
    qed
  next
    case noresize: False
    with False assms show ?thesis
      by (simp add: cbb_buffer_add_def cbb_buffer_reserve_def size_add_def Let_def ready_def)
  qed
qed


lemma be_bytes_fixed:
  assumes "256 ^ k \<le> n" and "n < 256 ^ Suc k"
  shows "be_bytes n = be_fixed (Suc k) n"
proof -
  have v: "be_val (be_fixed (Suc k) n) = n"
    using assms by (simp only: be_val_be_fixed mod_less)
  obtain d ds where ds: "be_fixed (Suc k) n = d # ds"
    by (cases "be_fixed (Suc k) n") auto
  then have "length ds = k" using length_be_fixed [of "Suc k" n] by simp
  moreover have "be_val (d # ds) = n" using v by (simp only: ds)
  ultimately have "d \<noteq> 0" using assms(1) be_val_less [of ds] by auto
  then have "be_bytes (be_val (be_fixed (Suc k) n)) = be_fixed (Suc k) n"
    by (intro be_bytes_be_val) (simp add: ds del: be_fixed.simps)
  then show ?thesis by (simp only: v)
qed

text \<open>The ladder of \<open>CBB_flush\<close> picks the shortest form.\<close>

lemma asn1_length_choice:
  assumes "127 < n" and "n \<le> 0xfffffffe"
  obtains e ib where "e \<noteq> 0"
    and "(if n > 0xffffff then (5, 0x80 OR 4, n)
          else if n > 0xffff then (4, 0x80 OR 3, n)
          else if n > 0xff then (3, 0x80 OR 2, n)
          else if n > 0x7f then (2, 0x80 OR 1, n)
          else (1, of_nat n, 0)) = (Suc e, ib :: u8, n)"
    and "der_length n = ib # be_fixed e n" and "n < 256 ^ e"
proof -
  have long: "der_length n = of_nat (128 + k) # be_fixed k n"
    if "256 ^ (k - 1) \<le> n" "n < 256 ^ k" "k \<noteq> 0" for k
  proof -
    obtain j where "k = Suc j" using \<open>k \<noteq> 0\<close> by (cases k) auto
    then have "be_bytes n = be_fixed k n" using that be_bytes_fixed [of j n] by simp
    then show ?thesis using assms(1) by (simp only: der_length_def length_be_fixed) simp
  qed
  consider "n \<le> 0xff" | "0xff < n" "n \<le> 0xffff" | "0xffff < n" "n \<le> 0xffffff" | "0xffffff < n"
    by linarith
  then show thesis
  proof cases
    case 1
    then have "der_length n = (0x80 OR 1) # be_fixed 1 n"
      using assms long [of 1] by (simp del: be_fixed.simps)
    with 1 assms show ?thesis by (intro that [of 1 "0x80 OR 1"]) (simp_all del: be_fixed.simps)
  next
    case 2
    then have "der_length n = (0x80 OR 2) # be_fixed 2 n"
      using assms long [of 2] by (simp del: be_fixed.simps)
    with 2 assms show ?thesis by (intro that [of 2 "0x80 OR 2"]) (simp_all del: be_fixed.simps)
  next
    case 3
    then have "der_length n = (0x80 OR 3) # be_fixed 3 n"
      using assms long [of 3] by (simp del: be_fixed.simps)
    with 3 assms show ?thesis by (intro that [of 3 "0x80 OR 3"]) (simp_all del: be_fixed.simps)
  next
    case 4
    then have "der_length n = (0x80 OR 4) # be_fixed 4 n"
      using assms long [of 4] by (simp del: be_fixed.simps)
    with 4 assms show ?thesis by (intro that [of 4 "0x80 OR 4"]) (simp_all del: be_fixed.simps)
  qed
qed

lemma block_split:
  assumes "take n b = root @ xs" and "n = length root + length xs" and "n + e \<le> length b"
  obtains re rest where "b = root @ xs @ re @ rest" and "length re = e"
proof -
  have "b = take n b @ take e (drop n b) @ drop (n + e) b"
    by (metis append_take_drop_id drop_drop add.commute)
  then show thesis
    using that [of "take e (drop n b)" "drop (n + e) b"] assms by simp
qed

lemma blit_mid: "length r = off \<Longrightarrow> length x = length src \<Longrightarrow> blit (r @ x @ y) off src = r @ src @ y"
  by (simp add: blit_def)

lemma written_eq:
  "buffer_ok b \<Longrightarrow> written b = out \<longleftrightarrow> buf_len b = length out \<and> take (length out) (buf b) = out"
  by (auto simp: written_def buffer_ok_def min_def)


lemma flush_prefix_Fixed:
  assumes rep: "represents s cs root [(Fixed k, body)]" and n: "length body < 256 ^ k"
    and bound: "length root + k + length body \<le> 2 ^ 62"
  shows "\<exists>s'. flush_prefix mem (length cs)
      \<lparr>offset = length root, pending_len_len = k, pending_is_asn1 = False\<rparr> s = (Some (), s') \<and>
    represents s' cs (root @ be_fixed k (length body) @ body) [] \<and> grown (base s) (base s')"
proof -
  let ?b = "base s" and ?n = "length body"
  let ?out = "root @ replicate k 0 @ body"
  have ok: "buffer_ok ?b" and out: "written ?b = ?out" and ch: "take (length cs) (chain s) = cs"
    using rep by (simp_all add: represents_def)
  then have len: "buf_len ?b = length ?out" and tk: "take (length ?out) (buf ?b) = ?out"
    by (simp_all only: written_eq)
  obtain rest where buf: "buf ?b = ?out @ rest"
    using tk by (metis append_take_drop_id)
  have "store_be (buf ?b) (length root) k ?n = (blit (buf ?b) (length root) (be_fixed k ?n), 0)"
    using n by (subst store_be_eq) (simp_all add: buf)
  moreover have "blit (buf ?b) (length root) (be_fixed k ?n) = root @ be_fixed k ?n @ body @ rest"
    by (simp add: buf blit_mid)
  moreover have "size_add (length root) k = length root + k"
    using bound by (simp add: size_add_def)
  ultimately show ?thesis
    using ok bound len by (simp add: flush_prefix_def Let_def represents_def buffer_ok_def written_def
        grown_def ch buf)
qed

lemma flush_prefix_Asn1:
  assumes rep: "represents s cs root [(Asn1, body)]" and n: "length body \<le> 0xfffffffe"
    and bound: "length root + length (der_length (length body)) + length body \<le> 2 ^ 62"
  shows "yields mem s cs (root @ der_length (length body) @ body) (flush_prefix mem (length cs)
      \<lparr>offset = length root, pending_len_len = 1, pending_is_asn1 = True\<rparr> s)"
proof -
  let ?b = "base s" and ?n = "length body" and ?r = "length root"
  let ?out = "root @ 0 # body"
  have ok: "buffer_ok ?b" and out: "written ?b = ?out" and ch: "take (length cs) (chain s) = cs"
    using rep by (simp_all add: represents_def)
  then have len: "buf_len ?b = length ?out" and tk: "take (length ?out) (buf ?b) = ?out"
    by (simp_all only: written_eq)
  have start: "size_add ?r 1 = ?r + 1"
    using bound by (simp add: size_add_def)
  show ?thesis
  proof (cases "?n \<le> 127")
    case True
    obtain rest where buf: "buf ?b = ?out @ rest"
      using tk by (metis append_take_drop_id)
    from True show ?thesis
      using ok bound len start
      by (simp add: flush_prefix_def flush_asn1_prefix_def Let_def yields_def represents_def
          buffer_ok_def written_def grown_def ch buf der_length_def)
  next
    case False
    then obtain e ib where e: "e \<noteq> 0"
      and choice: "(if ?n > 0xffffff then (5, 0x80 OR 4, ?n)
          else if ?n > 0xffff then (4, 0x80 OR 3, ?n)
          else if ?n > 0xff then (3, 0x80 OR 2, ?n)
          else if ?n > 0x7f then (2, 0x80 OR 1, ?n)
          else (1, of_nat ?n, 0)) = (Suc e, ib :: u8, ?n)"
      and der: "der_length ?n = ib # be_fixed e ?n" and lt: "?n < 256 ^ e"
      using n by (metis asn1_length_choice not_le)
    have add: "case cbb_buffer_add mem e ?b of
      (Some off, b') \<Rightarrow> off = buf_len ?b \<and> buffer_ok b' \<and> buf_len b' = buf_len ?b + e \<and>
        take (buf_len ?b) (buf b') = written ?b \<and> grown ?b b'
    | (None, b') \<Rightarrow> error b' \<and> \<not> ready mem (buf_len ?b + e) ?b"
      by (rule buffer_add [OF ok]) (use bound in \<open>simp add: len der\<close>)
    have prefix: "flush_asn1_prefix mem \<lparr>offset = ?r, pending_len_len = 1, pending_is_asn1 = True\<rparr>
        (?r + 1) ?n ?b =
      on_ok (cbb_buffer_add mem e ?b) (\<lambda>_ b.
        (Some (\<lparr>offset = ?r + 1, pending_len_len = e, pending_is_asn1 = True\<rparr>, ?n),
         b\<lparr>buf := (blit (buf b) (?r + 1 + e) (take ?n (drop (?r + 1) (buf b))))[?r := ib]\<rparr>))"
      using n e unfolding flush_asn1_prefix_def choice
      by (simp add: Let_def on_ok_assoc)
    show ?thesis
    proof (cases "cbb_buffer_add mem e ?b")
      case (Pair r b)
      show ?thesis
      proof (cases r)
        case None
        with Pair add show ?thesis
          using bound len by (simp add: flush_prefix_def start [simplified] prefix [simplified] Let_def yields_def cbb_fail_def
              ready_def der)
      next
        case (Some off)
        with Pair add have b: "buffer_ok b" "buf_len b = length ?out + e"
          "take (length ?out) (buf b) = ?out" "grown ?b b"
          by (simp_all add: len out)
        then obtain re rest where buf: "buf b = ?out @ re @ rest" and re: "length re = e"
          using block_split [of "length ?out" "buf b" root "0 # body" e] by (auto simp: buffer_ok_def)
        have body: "take ?n (drop (?r + 1) (buf b)) = body" by (simp add: buf)
        have "blit (buf b) (?r + 1 + e) body = root @ [0] @ take e (body @ re) @ body @ rest"
        proof -
          have "buf b = (root @ [0] @ take e (body @ re)) @ drop e (body @ re) @ rest"
            unfolding buf by (simp del: take_append drop_append)
          then show ?thesis by (simp only:) (subst blit_mid, simp_all add: re)
        qed
        then have b1: "(blit (buf b) (?r + 1 + e) body)[?r := ib] =
            root @ ib # take e (body @ re) @ body @ rest"
          by simp
        have st: "store_be (root @ ib # take e (body @ re) @ body @ rest) (Suc ?r) e ?n =
            (root @ ib # be_fixed e ?n @ body @ rest, 0)"
        proof (subst store_be_eq)
          show "Suc ?r + e \<le> length (root @ ib # take e (body @ re) @ body @ rest)"
            by (simp add: re)
          have "blit ((root @ [ib]) @ take e (body @ re) @ body @ rest) (Suc ?r) (be_fixed e ?n) =
              (root @ [ib]) @ be_fixed e ?n @ body @ rest"
            by (rule blit_mid) (simp_all add: re)
          then show "(blit (root @ ib # take e (body @ re) @ body @ rest) (Suc ?r) (be_fixed e ?n), ?n div 256 ^ e) =
              (root @ ib # be_fixed e ?n @ body @ rest, 0)"
            using lt by simp
        qed
        have "length (buf b) = length (root @ ib # be_fixed e ?n @ body @ rest)"
          by (simp add: buf re)
        with Pair Some show ?thesis
          using b bound len st
          by (simp add: flush_prefix_def start [simplified] prefix [simplified] Let_def yields_def
              body [simplified] b1 [simplified] represents_def buffer_ok_def written_def ch grown_def der)
      qed
    qed
  qed
qed


lemma frame_flush:
  assumes "represents s cs root [(k, body)]" and "close k body = Some cl"
    and "length (root @ cl) \<le> 2 ^ 62"
  shows "yields mem s cs (root @ cl)
    (flush_prefix mem (length cs) (hd (frames_at (length root) [(k, body)])) s)"
proof (cases k)
  case (Fixed n)
  then show ?thesis
    using assms flush_prefix_Fixed [of s cs root n body mem]
    by (auto simp: yields_def split: if_splits)
next
  case Asn1
  then show ?thesis
    using assms flush_prefix_Asn1 [of s cs root body mem] by (auto split: if_splits)
qed

lemma layout_append: "layout (fs @ gs) = layout fs @ layout gs"
  by (induction fs rule: layout.induct) auto

lemma frames_at_append:
  "frames_at off (fs @ gs) = frames_at off fs @ frames_at (off + length (layout fs)) gs"
  by (induction off fs rule: frames_at.induct) (simp_all add: add.assoc)

lemma length_frames_at [simp]: "length (frames_at off fs) = length fs"
  by (induction off fs rule: frames_at.induct) auto

lemma length_close: "close k bs = Some cl \<Longrightarrow> prefix_size k + length bs \<le> length cl"
  by (cases k) (auto split: if_splits simp: der_length_def)

lemma collapse_length: "collapse fs = Some cl \<Longrightarrow> length (layout fs) \<le> length cl"
proof (induction fs arbitrary: cl rule: collapse.induct)
  case (2 k bs fs)
  then show ?case by (auto split: option.splits dest!: length_close)
qed simp

lemma yields_trans:
  assumes "yields mem s cs out (Some x, s')" and "yields mem s' cs out' r" and "length out \<le> length out'"
  shows "yields mem s cs out' r"
  using assms by (auto simp: yields_def split: option.splits prod.splits dest: grown_trans ready_grown)

lemma yields_seq:
  assumes "yields mem s cs out (f s)" and "length out \<le> length out'"
    and "\<And>x s'. represents s' cs out [] \<Longrightarrow> yields mem s' cs out' (k x s')"
  shows "yields mem s cs out' (on_ok (f s) k)"
proof -
  obtain r s' where r: "f s = (r, s')" by fastforce
  show ?thesis
  proof (cases r)
    case None
    with assms(1,2) r show ?thesis by (auto simp: yields_def ready_def)
  next
    case (Some x)
    with assms(1) r have "represents s' cs out []" by (simp add: yields_def)
    from assms(3) [OF this] assms(1,2) r Some show ?thesis by (auto intro: yields_trans)
  qed
qed

text \<open>\<open>CBB_flush\<close> closes every pending child, the innermost first.\<close>

lemma CBB_flush_yields:
  assumes "represents s cs root fs" and "collapse fs = Some cl" and "length (root @ cl) \<le> 2 ^ 62"
  shows "yields mem s cs (root @ cl) (CBB_flush mem (length cs) s)"
  using assms
proof (induction fs arbitrary: cs root cl)
  case Nil
  then show ?case
    by (simp add: CBB_flush.simps yields_def represents_def buffer_ok_def)
next
  case (Cons f fs)
  obtain k bs where f: "f = (k, bs)" by (cases f)
  let ?child = "hd (frames_at (length root) [(k, bs)])"
  obtain cl' where cl': "collapse fs = Some cl'" and close: "close k (bs @ cl') = Some cl"
    using Cons.prems(2) by (auto simp: f split: option.splits)
  let ?root = "root @ replicate (prefix_size k) 0 @ bs"
  have "represents s (cs @ [?child]) ?root fs"
    using Cons.prems(1) by (auto simp: represents_def f ac_simps)
  moreover have "length (?root @ cl') \<le> length (root @ cl)"
    using length_close [OF close] by simp
  ultimately have IH: "yields mem s (cs @ [?child]) (?root @ cl') (CBB_flush mem (Suc (length cs)) s)"
    using Cons.IH [of "cs @ [?child]" ?root cl'] cl' Cons.prems(3) by simp
  have flush: "CBB_flush mem (length cs) s =
      (case CBB_flush mem (Suc (length cs)) s of
         (None, s') \<Rightarrow> cbb_fail s' | (Some _, s') \<Rightarrow> flush_prefix mem (length cs) ?child s')"
  proof -
    have nth: "chain s ! length cs = ?child" and "length cs < length (chain s)"
      "\<not> error (base s)" "pending_len_len ?child \<noteq> 0"
      using Cons.prems(1) by (auto simp: represents_def buffer_ok_def f)
    then show ?thesis
      unfolding CBB_flush.simps [of mem "length cs" s] nth by simp
  qed
  obtain r s' where rs: "CBB_flush mem (Suc (length cs)) s = (r, s')" by fastforce
  show ?case
  proof (cases r)
    case None
    with IH rs flush \<open>length (?root @ cl') \<le> length (root @ cl)\<close> show ?thesis
      by (auto simp: yields_def cbb_fail_def ready_def)
  next
    case (Some x)
    with IH rs have s': "represents s' (cs @ [?child]) (?root @ cl') []" "grown (base s) (base s')"
      by (simp_all add: yields_def)
    then have "represents s' cs root [(k, bs @ cl')]"
      using Cons.prems(1) by (simp add: represents_def f)
    from frame_flush [OF this close] Cons.prems(3)
    have "yields mem s' cs (root @ cl) (flush_prefix mem (length cs) ?child s')"
      by simp
    then show ?thesis
      using s'(2) by (auto simp: flush rs Some yields_def split: option.splits prod.splits
          dest: grown_trans ready_grown)
  qed
qed


text \<open>Where a body does not fit its prefix, \<open>CBB_flush\<close> fails; a failure always sets the error flag.\<close>

lemma CBB_flush_error:
  assumes "CBB_flush mem d s = (None, s')" and "d \<le> length (chain s)" and "\<not> error (base s)"
  shows "error (base s')"
proof -
  have fp: "error (base t')" if "flush_prefix mem d ch t = (None, t')" for ch t t'
    using that by (auto simp: flush_prefix_def cbb_fail_def Let_def split: if_splits option.splits prod.splits)
  show ?thesis
    using assms fp by (subst (asm) CBB_flush.simps) (auto simp: cbb_fail_def split: if_splits option.splits prod.splits)
qed

lemma length_close_le: "close k bs = Some cl \<Longrightarrow> length cl \<le> prefix_size k + length bs + 4"
proof (cases k)
  case Asn1
  assume "close k bs = Some cl"
  then have "cl = der_length (length bs) @ bs" "length bs < 2 ^ 32" using Asn1 by (auto split: if_splits)
  then have "length (der_length (length bs)) \<le> 5"
    using length_be_bytes_le [of "length bs" 4] by (simp add: der_length_def)
  with \<open>cl = _\<close> show ?thesis using Asn1 by simp
qed (auto split: if_splits)

lemma collapse_length_le: "collapse fs = Some cl \<Longrightarrow> length cl \<le> length (layout fs) + 4 * length fs"
proof (induction fs arbitrary: cl rule: collapse.induct)
  case (2 k bs fs)
  then show ?case by (fastforce split: option.splits dest!: length_close_le)
qed simp

lemma flush_prefix_too_long:
  assumes rep: "represents s cs root [(k, body)]" and long: "close k body = None"
    and bound: "length root + prefix_size k + length body \<le> 2 ^ 62"
  shows "fst (flush_prefix mem (length cs) (hd (frames_at (length root) [(k, body)])) s) = None"
proof -
  let ?b = "base s"
  let ?out = "root @ replicate (prefix_size k) 0 @ body"
  have len: "buf_len ?b = length ?out" and tk: "take (length ?out) (buf ?b) = ?out"
    using rep unfolding represents_def layout.simps append_Nil2 by (metis written_eq)+
  have start: "size_add (length root) (prefix_size k) = length root + prefix_size k"
    using bound by (simp add: size_add_def)
  have lb: "length root + prefix_size k \<le> length (buf ?b)"
    using arg_cong [OF tk, of length] by simp
  show ?thesis
  proof (cases k)
    case (Fixed n)
    then have "256 ^ n \<le> length body" using long by (auto split: if_splits)
    then have "length body div 256 ^ n \<noteq> 0" by (simp add: div_eq_0_iff)
    then show ?thesis
      using Fixed lb start len by (simp add: flush_prefix_def Let_def store_be_eq cbb_fail_def)
  next
    case Asn1
    then have "length body > 0xfffffffe" using long by (auto split: if_splits)
    then show ?thesis
      using Asn1 start len by (simp add: flush_prefix_def Let_def flush_asn1_prefix_def cbb_fail_def)
  qed
qed

lemma CBB_flush_too_long:
  assumes "represents s cs root fs" and "collapse fs = None"
    and "length (root @ layout fs) + 4 * length fs \<le> 2 ^ 62"
  shows "fst (CBB_flush mem (length cs) s) = None"
  using assms
proof (induction fs arbitrary: cs root)
  case (Cons f fs)
  obtain k bs where f: "f = (k, bs)" by (cases f)
  let ?child = "hd (frames_at (length root) [(k, bs)])"
  let ?root = "root @ replicate (prefix_size k) 0 @ bs"
  have rep: "represents s (cs @ [?child]) ?root fs"
    using Cons.prems(1) by (auto simp: represents_def f ac_simps)
  have flush: "CBB_flush mem (length cs) s =
      (case CBB_flush mem (Suc (length cs)) s of
         (None, s') \<Rightarrow> cbb_fail s' | (Some _, s') \<Rightarrow> flush_prefix mem (length cs) ?child s')"
  proof -
    have nth: "chain s ! length cs = ?child" and "length cs < length (chain s)"
      "\<not> error (base s)" "pending_len_len ?child \<noteq> 0"
      using Cons.prems(1) by (auto simp: represents_def buffer_ok_def f)
    then show ?thesis
      unfolding CBB_flush.simps [of mem "length cs" s] nth by simp
  qed
  have bound: "length (?root @ layout fs) + 4 * length fs \<le> 2 ^ 62" using Cons.prems(3) by (simp add: f)
  show ?case
  proof (cases "collapse fs")
    case None
    then have "fst (CBB_flush mem (Suc (length cs)) s) = None"
      using Cons.IH [OF rep None bound] by simp
    then show ?thesis unfolding flush by (auto simp: cbb_fail_def split: prod.splits option.splits)
  next
    case (Some cl')
    then have close: "close k (bs @ cl') = None" using Cons.prems(2) by (simp add: f)
    have len: "length cl' \<le> length (layout fs) + 4 * length fs" by (rule collapse_length_le [OF Some])
    have IH: "yields mem s (cs @ [?child]) (?root @ cl') (CBB_flush mem (Suc (length cs)) s)"
      using CBB_flush_yields [OF rep Some, of mem] len bound by simp
    show ?thesis
    proof (cases "CBB_flush mem (Suc (length cs)) s")
      case (Pair r s')
      show ?thesis
      proof (cases r)
        case None
        then show ?thesis unfolding flush Pair by (simp add: cbb_fail_def)
      next
        case (Some x)
        then have "represents s' (cs @ [?child]) (?root @ cl') []" using IH Pair by (simp add: yields_def)
        then have "represents s' cs root [(k, bs @ cl')]"
          using Cons.prems(1) by (simp add: represents_def f)
        from flush_prefix_too_long [OF this close] len bound show ?thesis
          unfolding flush Pair Some by simp
      qed
    qed
  qed
qed simp


section \<open>The interface of the writers\<close>

text \<open>
  A writer appends a fixed byte string to a \<open>CBB\<close>: after the pending children below it are
  closed, and only if the buffer can hold the result.
\<close>

locale appender =
  fixes mem :: alloc
    and w :: "nat \<Rightarrow> cbb \<Rightarrow> 'a option \<times> cbb"
    and enc :: bytes
  assumes appends: "represents s cs root fs \<Longrightarrow> collapse fs = Some cl \<Longrightarrow>
    length (root @ cl @ enc) \<le> 2 ^ 62 \<Longrightarrow> yields mem s cs (root @ cl @ enc) (w (length cs) s)"
begin

lemma appends_here:
  "represents s cs root [] \<Longrightarrow> length (root @ enc) \<le> 2 ^ 62 \<Longrightarrow>
   yields mem s cs (root @ enc) (w (length cs) s)"
  using appends [of s cs root "[]" "[]"] by simp

text \<open>A run from an empty object gives exactly the encoding.\<close>

lemma finish_exact:
  assumes "buffer_ok b" and "buf_len b = 0" and "length enc \<le> 2 ^ 62"
    and "w 0 \<lparr>base = b, chain = []\<rparr> = (Some x, s)"
  shows "\<exists>out s'. CBB_finish mem 0 s = (Some (out, length enc), s') \<and> take (length enc) out = enc"
proof -
  have "represents \<lparr>base = b, chain = []\<rparr> [] [] []"
    using assms by (simp add: represents_def written_def)
  from appends_here [OF this] have "represents s [] enc []"
    using assms(3,4) by (simp add: yields_def)
  then have "\<not> error (base s)" "chain s = []" "written (base s) = enc" "buffer_ok (base s)"
    by (simp_all add: represents_def buffer_ok_def)
  then show ?thesis
    by (auto simp: CBB_finish_def CBB_flush.simps [of mem 0 s] written_eq)
qed

lemma succeeds:
  assumes "represents s cs root fs" and "collapse fs = Some cl" and "length (root @ cl @ enc) \<le> 2 ^ 62"
    and "ready mem (length (root @ cl @ enc)) (base s)"
  shows "\<exists>x s'. w (length cs) s = (Some x, s') \<and> represents s' cs (root @ cl @ enc) []"
  using appends [OF assms(1-3)] assms(4) by (auto simp: yields_def split: option.splits prod.splits)

end

text \<open>After the flush with which every writer starts, nothing is pending.\<close>

lemma appender_flush:
  assumes "\<And>s cs root. represents s cs root [] \<Longrightarrow> length (root @ enc) \<le> 2 ^ 62 \<Longrightarrow>
    yields mem s cs (root @ enc) (w (length cs) s)"
  shows "appender mem (\<lambda>d s. on_ok (CBB_flush mem d s) (\<lambda>_. w d)) enc"
proof
  fix s cs root fs cl
  assume a: "represents s cs root fs" "collapse fs = Some cl" "length (root @ cl @ enc) \<le> 2 ^ 62"
  then have flush: "yields mem s cs (root @ cl) (CBB_flush mem (length cs) s)"
    by (intro CBB_flush_yields) auto
  obtain r s' where rs: "CBB_flush mem (length cs) s = (r, s')" by fastforce
  show "yields mem s cs (root @ cl @ enc) (on_ok (CBB_flush mem (length cs) s) (\<lambda>_. w (length cs)))"
  proof (cases r)
    case None
    with flush rs show ?thesis by (auto simp: yields_def ready_def)
  next
    case (Some x)
    then have "represents s' cs (root @ cl) []" using flush rs by (simp add: yields_def)
    from assms [OF this] a(3) have "yields mem s' cs (root @ cl @ enc) (w (length cs) s')" by simp
    with flush rs Some show ?thesis
      by (auto intro: yields_trans)
  qed
qed

lemma appender_seq:
  assumes "appender mem w1 e1" and "\<And>x. appender mem (w2 x) e2"
  shows "appender mem (\<lambda>d s. on_ok (w1 d s) (\<lambda>x. w2 x d)) (e1 @ e2)"
proof
  fix s cs root fs cl
  assume a: "represents s cs root fs" "collapse fs = Some cl" "length (root @ cl @ e1 @ e2) \<le> 2 ^ 62"
  then have first: "yields mem s cs (root @ cl @ e1) (w1 (length cs) s)"
    by (intro appender.appends [OF assms(1)]) auto
  obtain r s' where rs: "w1 (length cs) s = (r, s')" by fastforce
  show "yields mem s cs (root @ cl @ e1 @ e2) (on_ok (w1 (length cs) s) (\<lambda>x. w2 x (length cs)))"
  proof (cases r)
    case None
    with first rs show ?thesis by (auto simp: yields_def ready_def)
  next
    case (Some x)
    then have "represents s' cs (root @ cl @ e1) []" using first rs by (simp add: yields_def)
    from appender.appends_here [OF assms(2) this] a(3)
    have "yields mem s' cs (root @ cl @ e1 @ e2) (w2 x (length cs) s')" by simp
    with first rs Some show ?thesis by (auto intro: yields_trans)
  qed
qed

lemma appender_on_base:
  assumes "\<And>b out. buffer_ok b \<Longrightarrow> written b = out \<Longrightarrow> length out + length enc \<le> 2 ^ 62 \<Longrightarrow>
    (case f b of
      (Some _, b') \<Rightarrow> buffer_ok b' \<and> written b' = out @ enc \<and> grown b b'
    | (None, _) \<Rightarrow> \<not> ready mem (length out + length enc) b)"
  shows "appender mem (\<lambda>d s. on_ok (CBB_flush mem d s) (\<lambda>_. cbb_on_base f)) enc"
proof (rule appender_flush)
  fix s :: cbb and cs root
  assume "represents s cs root []" "length (root @ enc) \<le> 2 ^ 62"
  with assms [of "base s" root]
  show "yields mem s cs (root @ enc) (cbb_on_base f s)"
    by (auto simp: yields_def represents_def cbb_on_base_def split: prod.splits option.splits)
qed

text \<open>Bytes and integers.\<close>

lemma append_block:
  assumes ok: "buffer_ok b" and bound: "length (written b) + length data \<le> 2 ^ 62"
  shows "case cbb_buffer_add mem (length data) b of
      (Some off, b') \<Rightarrow> off + length data \<le> length (buf b') \<and>
        buffer_ok (b'\<lparr>buf := blit (buf b') off data\<rparr>) \<and>
        written (b'\<lparr>buf := blit (buf b') off data\<rparr>) = written b @ data \<and> grown b b'
    | (None, _) \<Rightarrow> \<not> ready mem (length (written b) + length data) b"
proof -
  let ?o = "written b"
  have len: "length ?o = buf_len b"
    using ok by (simp add: buffer_ok_def written_def)
  then have bound': "buf_len b + length data \<le> 2 ^ 62" using bound by simp
  obtain r b' where rb: "cbb_buffer_add mem (length data) b = (r, b')" by fastforce
  show ?thesis
  proof (cases r)
    case None
    with buffer_add [OF ok bound', of mem] show ?thesis by (simp add: rb len)
  next
    case (Some off)
    with buffer_add [OF ok bound', of mem] have b': "off = length ?o" "buffer_ok b'"
      "buf_len b' = length ?o + length data" "take (length ?o) (buf b') = ?o" "grown b b'"
      by (simp_all add: rb len)
    then have fits: "length ?o + length data \<le> length (buf b')" by (simp add: buffer_ok_def)
    then have "take (length ?o + length data) (blit (buf b') (length ?o) data) = ?o @ data"
      by (subst take_blit_upto) (simp_all add: b'(4))
    then have "written (b'\<lparr>buf := blit (buf b') off data\<rparr>) = ?o @ data"
      by (simp add: written_def [of "b'\<lparr>buf := blit (buf b') (length ?o) data\<rparr>"] b'(1,3))
    moreover have "buffer_ok (b'\<lparr>buf := blit (buf b') off data\<rparr>)"
      using b'(2) fits by (simp add: buffer_ok_def b'(1))
    ultimately show ?thesis using Some b'(5) fits by (simp add: rb b'(1))
  qed
qed

lemma appender_add_bytes [appender_rules]: "appender mem (CBB_add_bytes mem data) data"
proof -
  have "appender mem (\<lambda>d s. on_ok (CBB_flush mem d s) (\<lambda>_ s.
       on_ok (cbb_on_base (cbb_buffer_add mem (length data)) s) (\<lambda>dest s.
         (Some (), s\<lparr>base := (base s)\<lparr>buf := blit (buf (base s)) dest data\<rparr>\<rparr>)))) data"
  proof (rule appender_flush)
    fix s :: cbb and cs root
    assume rep: "represents s cs root []" and bound: "length (root @ data) \<le> 2 ^ 62"
    have root: "written (base s) = root" and ok: "buffer_ok (base s)"
      using rep by (simp_all add: represents_def)
    obtain r b' where rb: "cbb_buffer_add mem (length data) (base s) = (r, b')" by fastforce
    have add: "case (r, b') of
        (Some off, b') \<Rightarrow> off + length data \<le> length (buf b') \<and> buffer_ok (b'\<lparr>buf := blit (buf b') off data\<rparr>) \<and>
          written (b'\<lparr>buf := blit (buf b') off data\<rparr>) = root @ data \<and> grown (base s) b'
      | (None, _) \<Rightarrow> \<not> ready mem (length root + length data) (base s)"
      using append_block [OF ok, of data mem] bound by (simp only: root rb length_append)
    show "yields mem s cs (root @ data) (on_ok (cbb_on_base (cbb_buffer_add mem (length data)) s) (\<lambda>dest s.
         (Some (), s\<lparr>base := (base s)\<lparr>buf := blit (buf (base s)) dest data\<rparr>\<rparr>)))"
      using add rep
      by (cases r) (simp_all add: yields_def represents_def cbb_on_base_def grown_def rb)
  qed
  then show ?thesis by (simp add: CBB_add_bytes_def [abs_def])
qed

lemma appender_add_u [appender_rules]:
  assumes "unat v < 256 ^ n"
  shows "appender mem (cbb_add_u mem n v) (be_fixed n (unat v))"
proof -
  let ?e = "be_fixed n (unat v)"
  have "appender mem (\<lambda>d s. on_ok (CBB_flush mem d s) (\<lambda>_. cbb_on_base (cbb_buffer_add_u mem v n))) ?e"
  proof (rule appender_on_base)
    fix b :: cbb_buffer and out
    assume b: "buffer_ok b" "written b = out" and bound: "length out + length ?e \<le> 2 ^ 62"
    obtain r b' where rb: "cbb_buffer_add mem n b = (r, b')" by fastforce
    show "case cbb_buffer_add_u mem v n b of
        (Some _, b') \<Rightarrow> buffer_ok b' \<and> written b' = out @ ?e \<and> grown b b'
      | (None, _) \<Rightarrow> \<not> ready mem (length out + length ?e) b"
    proof (cases "n = 0")
      case True
      with b show ?thesis by (simp add: cbb_buffer_add_u_def)
    next
      case False
      have add: "case (r, b') of
          (Some off, b') \<Rightarrow> off + n \<le> length (buf b') \<and> buffer_ok (b'\<lparr>buf := blit (buf b') off ?e\<rparr>) \<and>
            written (b'\<lparr>buf := blit (buf b') off ?e\<rparr>) = out @ ?e \<and> grown b b'
        | (None, _) \<Rightarrow> \<not> ready mem (length out + n) b"
        using append_block [OF b(1), of ?e mem] bound by (simp only: b(2) length_be_fixed rb)
      show ?thesis
      proof (cases r)
        case None
        with False rb add show ?thesis by (simp add: cbb_buffer_add_u_def)
      next
        case (Some off)
        with add have "store_be (buf b') off n (unat v) = (blit (buf b') off ?e, 0)"
          using assms by (subst store_be_eq) auto
        with False rb add Some show ?thesis by (simp add: cbb_buffer_add_u_def grown_def)
      qed
    qed
  qed
  then show ?thesis by (simp add: cbb_add_u_def [abs_def])
qed


lemma appender_add_u8 [appender_rules]: "appender mem (CBB_add_u8 mem v) [v]"
  using appender_add_u [of "ucast v" 1 mem] unat_8_less [of v]
  by (simp add: CBB_add_u8_def unat_ucast_up)

lemma appender_nothing: "appender mem (\<lambda>d s. on_ok (CBB_flush mem d s) (\<lambda>_ s. (Some (), s))) []"
  by (rule appender_flush) (simp add: yields_def)

lemma appender_add_u8s: "bs \<noteq> [] \<Longrightarrow> appender mem (add_u8s mem bs) bs"
proof (induction bs)
  case (Cons b bs)
  show ?case
  proof (cases "bs = []")
    case True
    have "add_u8s mem [b] d s = CBB_add_u8 mem b d s" for d s
    proof -
      obtain r s' where "CBB_add_u8 mem b d s = (r, s')" by fastforce
      then show ?thesis by (cases r) simp_all
    qed
    then have "add_u8s mem [b] = CBB_add_u8 mem b" by (intro ext)
    then show ?thesis using True appender_add_u8 by (simp del: add_u8s.simps)
  next
    case False
    with Cons.IH have "appender mem (add_u8s mem bs) bs" by simp
    from appender_seq [OF appender_add_u8 this] show ?thesis by simp
  qed
qed simp

section \<open>Base-128 integers\<close>

definition b128_byte :: "nat \<Rightarrow> nat \<Rightarrow> u8" where
  "b128_byte x i = of_nat (x div 128 ^ i mod 128 + (if i = 0 then 0 else 128))"

lemma rev_upt_Suc: "rev [0..<Suc n] = map Suc (rev [0..<n]) @ [0]"
proof -
  have "[0..<Suc n] = 0 # map Suc [0..<n]" by (simp add: map_Suc_upt upt_conv_Cons del: upt_Suc)
  then show ?thesis by (simp add: rev_map del: upt_Suc)
qed

lemma b128_hi_eq:
  "x < 128 ^ n \<Longrightarrow> x = 0 \<and> n = 0 \<or> 128 ^ (n - 1) \<le> x \<Longrightarrow>
   b128_hi x = map (\<lambda>i. of_nat (x div 128 ^ i mod 128 + 128)) (rev [0..<n])"
proof (induction n arbitrary: x)
  case (Suc n)
  then have x: "x \<noteq> 0" "x div 128 < 128 ^ n"
    by (auto simp: div_less_iff_less_mult mult.commute)
  have "x div 128 = 0 \<and> n = 0 \<or> 128 ^ (n - 1) \<le> x div 128"
    using Suc.prems by (cases n) (auto simp: less_eq_div_iff_mult_less_eq mult.commute)
  from Suc.IH [OF x(2) this] x(1) show ?case
    unfolding rev_upt_Suc by (simp add: b128_hi.simps [of x] div_mult2_eq)
qed simp

lemma b128_eq:
  assumes "n \<noteq> 0" and "x < 128 ^ n" and "n = 1 \<or> 128 ^ (n - 1) \<le> x"
  shows "map (b128_byte x) (rev [0..<n]) = b128 x"
proof -
  obtain m where n: "n = Suc m" using assms(1) by (cases n) auto
  have "x div 128 = 0 \<and> m = 0 \<or> 128 ^ (m - 1) \<le> x div 128"
    using assms by (cases m) (auto simp: n less_eq_div_iff_mult_less_eq mult.commute)
  moreover have "x div 128 < 128 ^ m"
    using assms(2) by (simp add: n div_less_iff_less_mult mult.commute)
  ultimately have "b128_hi (x div 128) = map (\<lambda>i. of_nat (x div 128 div 128 ^ i mod 128 + 128)) (rev [0..<m])"
    by (intro b128_hi_eq)
  then show ?thesis
    unfolding n rev_upt_Suc by (simp add: b128_def b128_byte_def div_mult2_eq)
qed

lemma base128_len_bounds:
  "unat v < 128 ^ base128_len v \<and> (v \<noteq> 0 \<longrightarrow> 128 ^ (base128_len v - 1) \<le> unat v \<and> base128_len v \<noteq> 0)"
proof (induction v rule: base128_len.induct)
  case (1 v)
  let ?w = "drop_bit 7 v" and ?l = "base128_len (drop_bit 7 v)"
  have w: "unat ?w = unat v div 128" by (simp add: unat_drop_bit)
  show ?case
  proof (cases "v = 0")
    case False
    then have IH: "unat v div 128 < 128 ^ ?l" "?w \<noteq> 0 \<Longrightarrow> 128 ^ (?l - 1) \<le> unat v div 128 \<and> ?l \<noteq> 0"
      using "1.IH" by (simp_all add: w word_greater_zero_iff)
    have "128 ^ ?l \<le> unat v"
    proof (cases "?w = 0")
      case True
      then show ?thesis using False by (simp add: base128_len.simps [of 0] unat_gt_0 Suc_leI)
    next
      case False
      with IH(2) have "128 * 128 ^ (?l - 1) \<le> unat v" "?l \<noteq> 0"
        by (simp_all add: less_eq_div_iff_mult_less_eq mult.commute)
      then show ?thesis by (cases ?l) simp_all
    qed
    then show ?thesis using False IH(1)
      by (simp add: base128_len.simps [of v] word_greater_zero_iff div_less_iff_less_mult mult.commute)
  qed (simp add: base128_len.simps)
qed

lemma b128_byte_word:
  "(let byte = ucast (drop_bit (7 * i) v AND 0x7f) :: u8 in if i \<noteq> 0 then byte OR 0x80 else byte) =
   b128_byte (unat v) i"
proof -
  let ?m = "unat v div 128 ^ i mod 128"
  have m: "unat (drop_bit (7 * i) v AND 0x7f) = ?m"
    by (simp add: unat_and_0x7f unat_drop_bit power_mult)
  have b: "ucast (drop_bit (7 * i) v AND 0x7f) = (of_nat ?m :: u8)"
    by (simp flip: m)
  have "?m < 128" by simp
  then have "unat (of_nat ?m :: u8) = ?m" by (intro unat_of_nat_u8) simp
  then have "unat (push_bit 7 1 OR of_nat ?m :: u8) = 128 + ?m"
    using \<open>?m < 128\<close> by (subst unat_push_bit_or) simp_all
  then have "(push_bit 7 1 OR of_nat ?m :: u8) = of_nat (?m + 128)"
    by (intro word_unat_eq_iff [THEN iffD2]) (simp add: unat_of_nat_u8 del: of_nat_add)
  then have "(of_nat ?m OR 0x80 :: u8) = of_nat (?m + 128)"
    by (simp add: or.commute)
  then show ?thesis by (simp only: b Let_def b128_byte_def) simp
qed

lemma appender_base128_bytes:
  "n \<noteq> 0 \<Longrightarrow> appender mem (base128_bytes mem v n) (map (b128_byte (unat v)) (rev [0..<n]))"
proof -
  have "base128_bytes mem v n = add_u8s mem (map (b128_byte (unat v)) (rev [0..<n]))"
  proof (induction n)
    case (Suc n)
    then show ?case
      using b128_byte_word [of n v] by (intro ext) (simp add: Let_def)
  qed (simp add: fun_eq_iff)
  then show "n \<noteq> 0 \<Longrightarrow> ?thesis" using appender_add_u8s by simp
qed

lemma appender_add_base128 [appender_rules]: "appender mem (add_base128_integer mem v) (b128 (unat v))"
proof -
  define l where "l = (if base128_len v = 0 then 1 else base128_len v)"
  have l: "l \<noteq> 0" "unat v < 128 ^ l" "l = 1 \<or> 128 ^ (l - 1) \<le> unat v"
    using base128_len_bounds [of v] base128_len.simps [of 0]
    by (cases "v = 0", auto simp: l_def)
  have "add_base128_integer mem v = base128_bytes mem v l"
    by (simp add: add_base128_integer_def l_def)
  then show ?thesis
    using appender_base128_bytes [OF l(1), of mem v] by (simp only: b128_eq [OF l])
qed


section \<open>Children\<close>

text \<open>
  An opener appends bytes and leaves a pending child of the given kind; what is written to the
  child becomes its contents when the parent is used again.
\<close>

locale opener =
  fixes mem :: alloc
    and w :: "nat \<Rightarrow> cbb \<Rightarrow> unit option \<times> cbb"
    and pre :: bytes and k :: prefix
  assumes opens: "represents s cs root fs \<Longrightarrow> collapse fs = Some cl \<Longrightarrow>
    length (root @ cl @ pre) + prefix_size k \<le> 2 ^ 62 \<Longrightarrow>
    case w (length cs) s of
      (Some _, s') \<Rightarrow> represents s' cs (root @ cl @ pre) [(k, [])] \<and> grown (base s) (base s')
    | (None, s') \<Rightarrow> \<not> ready mem (length (root @ cl @ pre) + prefix_size k) (base s)"
begin

lemma nested:
  assumes body: "appender mem v body" and close: "close k body = Some e"
  shows "appender mem (\<lambda>d s. on_ok (w d s) (\<lambda>_ s. on_ok (v (Suc d) s) (\<lambda>_. CBB_flush mem d))) (pre @ e)"
proof
  fix s cs root fs cl
  assume a: "represents s cs root fs" "collapse fs = Some cl" "length (root @ cl @ pre @ e) \<le> 2 ^ 62"
  let ?root = "root @ cl @ pre" and ?d = "length cs"
  let ?child = "hd (frames_at (length ?root) [(k, [])])"
  have k: "prefix_size k + length body \<le> length e" by (rule length_close [OF close])
  have open_: "case w ?d s of
      (Some _, s') \<Rightarrow> represents s' cs ?root [(k, [])] \<and> grown (base s) (base s')
    | (None, s') \<Rightarrow> \<not> ready mem (length ?root + prefix_size k) (base s)"
    using a k by (intro opens) auto
  obtain r s1 where r: "w ?d s = (r, s1)" by fastforce
  show "yields mem s cs (root @ cl @ pre @ e)
    (on_ok (w ?d s) (\<lambda>_ s. on_ok (v (Suc ?d) s) (\<lambda>_. CBB_flush mem ?d)))"
  proof (cases r)
    case None
    with open_ k show ?thesis by (auto simp: r yields_def ready_def)
  next
    case (Some x)
    with open_ r have s1: "represents s1 cs ?root [(k, [])]" "grown (base s) (base s1)" by simp_all
    let ?in = "?root @ replicate (prefix_size k) 0"
    have rep: "represents s1 (cs @ [?child]) ?in []"
      using s1(1) by (simp add: represents_def)
    have "length (?in @ body) \<le> 2 ^ 62" using a(3) k by simp
    from appender.appends_here [OF body rep this]
    have inner: "yields mem s1 (cs @ [?child]) (?in @ body) (v (Suc ?d) s1)" by simp
    obtain r2 s2 where r2: "v (Suc ?d) s1 = (r2, s2)" by fastforce
    show ?thesis
    proof (cases r2)
      case None
      with inner k have "\<not> ready mem (length (?root @ e)) (base s1)"
        by (auto simp: yields_def r2 ready_def)
      then show ?thesis using s1(2)
        by (auto simp: r Some r2 None yields_def dest: ready_grown)
    next
      case (Some y)
      with inner r2 have s2: "represents s2 (cs @ [?child]) (?in @ body) []" "grown (base s1) (base s2)"
        by (simp_all add: yields_def)
      then have "represents s2 cs ?root [(k, body)]"
        using s1(1) by (simp add: represents_def)
      then have "yields mem s2 cs (?root @ e) (CBB_flush mem ?d s2)"
        using a(3) close by (intro CBB_flush_yields) auto
      moreover have "grown (base s) (base s2)" by (rule grown_trans [OF s1(2) s2(2)])
      ultimately show ?thesis
        by (auto simp: r \<open>r = Some x\<close> r2 Some yields_def split: option.splits prod.splits
            dest: grown_trans ready_grown)
    qed
  qed
qed

end

lemma opener_length_prefixed:
  assumes "0 < n"
  shows "opener mem (cbb_add_length_prefixed mem n) [] (Fixed n)"
proof
  fix s cs root fs cl
  assume a: "represents s cs root fs" "collapse fs = Some cl"
    "length (root @ cl @ []) + prefix_size (Fixed n) \<le> 2 ^ 62"
  let ?out = "root @ cl" and ?d = "length cs" and ?z = "replicate n (0 :: u8)"
  have flush: "yields mem s cs ?out (CBB_flush mem ?d s)"
    using a by (intro CBB_flush_yields) auto
  obtain r s1 where r: "CBB_flush mem ?d s = (r, s1)" by fastforce
  show "case cbb_add_length_prefixed mem n ?d s of
      (None, s') \<Rightarrow> \<not> ready mem (length (root @ cl @ []) + prefix_size (Fixed n)) (base s)
    | (Some _, s') \<Rightarrow> represents s' cs (root @ cl @ []) [(Fixed n, [])] \<and> grown (base s) (base s')"
  proof (cases r)
    case None
    with flush show ?thesis by (auto simp: cbb_add_length_prefixed_def r yields_def ready_def)
  next
    case (Some x)
    with flush r have s1: "represents s1 cs ?out []" "grown (base s) (base s1)"
      by (simp_all add: yields_def)
    then have ok: "buffer_ok (base s1)" and w: "written (base s1) = ?out" and ch: "chain s1 = cs"
      by (simp_all add: represents_def)
    have len: "buf_len (base s1) = length ?out" using ok w by (simp add: written_eq)
    obtain r2 b where r2: "cbb_buffer_add mem n (base s1) = (r2, b)" by fastforce
    have add: "case (r2, b) of
        (Some off, b') \<Rightarrow> off + n \<le> length (buf b') \<and> buffer_ok (b'\<lparr>buf := blit (buf b') off ?z\<rparr>) \<and>
          written (b'\<lparr>buf := blit (buf b') off ?z\<rparr>) = ?out @ ?z \<and> grown (base s1) b'
      | (None, _) \<Rightarrow> \<not> ready mem (length ?out + n) (base s1)"
    proof -
      have "length (written (base s1)) + length ?z \<le> 2 ^ 62" using a(3) by (simp add: w)
      from append_block [OF ok this, of mem] show ?thesis by (simp only: w r2 length_replicate)
    qed
    show ?thesis
    proof (cases r2)
      case None
      then show ?thesis using add s1(2)
        by (auto simp: cbb_add_length_prefixed_def r Some cbb_on_base_def r2 Let_def dest: ready_grown)
    next
      case (Some off)
      then show ?thesis using add s1(2) assms
        by (auto simp: cbb_add_length_prefixed_def r \<open>r = Some x\<close> cbb_on_base_def r2 Let_def
            represents_def ch len grown_def)
    qed
  qed
qed


text \<open>\<open>CBB_add_asn1\<close>: the tag, and a child with a DER length.\<close>

lemma tag_bytes:
  "(if tag AND CBS_ASN1_TAG_NUMBER_MASK \<ge> 0x1f
    then (ucast (drop_bit CBS_ASN1_TAG_SHIFT tag) AND 0xe0 OR 0x1f) #
      b128 (unat (ucast (tag AND CBS_ASN1_TAG_NUMBER_MASK) :: u64))
    else [ucast (drop_bit CBS_ASN1_TAG_SHIFT tag) AND 0xe0 OR ucast (tag AND CBS_ASN1_TAG_NUMBER_MASK)]) =
   der_tag tag"
proof -
  have mask: "CBS_ASN1_TAG_NUMBER_MASK = mask 29"
    by (simp add: CBS_ASN1_TAG_NUMBER_MASK_def CBS_ASN1_TAG_SHIFT_def mask_eq_exp_minus_1)
  have num: "unat (tag AND mask 29) = tag_num tag" by (simp add: tag_num_def)
  then have "(ucast (tag AND mask 29) :: u8) = of_nat (tag_num tag)"
    by (metis of_nat_unat)
  moreover have "tag AND mask 29 \<ge> 0x1f \<longleftrightarrow> \<not> tag_num tag < 31"
    by (auto simp: word_le_nat_alt num)
  ultimately show ?thesis
    by (simp add: mask der_tag_def tag_class_def CBS_ASN1_TAG_SHIFT_def num unat_ucast_up)
qed

lemma appender_tag:
  "appender mem (\<lambda>d s. if tag AND CBS_ASN1_TAG_NUMBER_MASK \<ge> 0x1f then
      on_ok (CBB_add_u8 mem (ucast (drop_bit CBS_ASN1_TAG_SHIFT tag) AND 0xe0 OR 0x1f) d s)
        (\<lambda>_. add_base128_integer mem (ucast (tag AND CBS_ASN1_TAG_NUMBER_MASK)) d)
    else CBB_add_u8 mem (ucast (drop_bit CBS_ASN1_TAG_SHIFT tag) AND 0xe0 OR ucast (tag AND CBS_ASN1_TAG_NUMBER_MASK)) d s)
    (der_tag tag)"
proof (cases "tag AND CBS_ASN1_TAG_NUMBER_MASK \<ge> 0x1f")
  case True
  let ?b = "ucast (drop_bit CBS_ASN1_TAG_SHIFT tag) AND 0xe0 OR 0x1f :: u8"
  have "der_tag tag = [?b] @ b128 (unat (ucast (tag AND CBS_ASN1_TAG_NUMBER_MASK) :: u64))"
    using True tag_bytes [of tag] by simp
  with True show ?thesis
    by (simp only: if_True) (rule appender_seq [OF appender_add_u8 appender_add_base128])
next
  case False
  then have "der_tag tag = [ucast (drop_bit CBS_ASN1_TAG_SHIFT tag) AND 0xe0 OR ucast (tag AND CBS_ASN1_TAG_NUMBER_MASK)]"
    using tag_bytes [of tag] by simp
  with False show ?thesis by (simp only: if_False appender_add_u8)
qed

lemma flush_nothing: "represents s cs root [] \<Longrightarrow> CBB_flush mem (length cs) s = (Some (), s)"
  by (simp add: CBB_flush.simps [of mem "length cs" s] represents_def buffer_ok_def)

lemma opener_asn1: "opener mem (CBB_add_asn1 mem tag) (der_tag tag) Asn1"
proof
  fix s cs root fs cl
  assume a: "represents s cs root fs" "collapse fs = Some cl"
    "length (root @ cl @ der_tag tag) + prefix_size Asn1 \<le> 2 ^ 62"
  define t where "t = (\<lambda>d s. if tag AND CBS_ASN1_TAG_NUMBER_MASK \<ge> 0x1f then
      on_ok (CBB_add_u8 mem (ucast (drop_bit CBS_ASN1_TAG_SHIFT tag) AND 0xe0 OR 0x1f) d s)
        (\<lambda>_. add_base128_integer mem (ucast (tag AND CBS_ASN1_TAG_NUMBER_MASK)) d)
    else CBB_add_u8 mem (ucast (drop_bit CBS_ASN1_TAG_SHIFT tag) AND 0xe0 OR ucast (tag AND CBS_ASN1_TAG_NUMBER_MASK)) d s)"
  have t: "appender mem t (der_tag tag)" unfolding t_def by (rule appender_tag)
  have add: "CBB_add_asn1 mem tag d s =
      on_ok (CBB_flush mem d s) (\<lambda>_ s. on_ok (t d s) (\<lambda>_ s.
        on_ok (CBB_add_u8 mem 0 d s) (\<lambda>_ s'. (Some (), s'\<lparr>chain := take d (chain s') @
          [\<lparr>offset = buf_len (base s), pending_len_len = 1, pending_is_asn1 = True\<rparr>]\<rparr>))))" for d s
    by (simp add: CBB_add_asn1_def t_def Let_def)
  let ?d = "length cs" and ?out = "root @ cl @ der_tag tag"
  have flush: "yields mem s cs (root @ cl) (CBB_flush mem ?d s)"
    using a by (intro CBB_flush_yields) auto
  obtain r s1 where r: "CBB_flush mem ?d s = (r, s1)" by fastforce
  show "case CBB_add_asn1 mem tag ?d s of
      (None, s') \<Rightarrow> \<not> ready mem (length ?out + prefix_size Asn1) (base s)
    | (Some _, s') \<Rightarrow> represents s' cs ?out [(Asn1, [])] \<and> grown (base s) (base s')"
  proof (cases r)
    case None
    with flush show ?thesis by (auto simp: add r yields_def ready_def)
  next
    case r1: (Some x)
    with flush r have s1: "represents s1 cs (root @ cl) []" "grown (base s) (base s1)"
      by (simp_all add: yields_def)
    have ty: "yields mem s1 cs ?out (t ?d s1)"
      using appender.appends_here [OF t s1(1)] a(3) by simp
    obtain r2 s2 where r2: "t ?d s1 = (r2, s2)" by fastforce
    show ?thesis
    proof (cases r2)
      case None
      with ty r2 s1(2) show ?thesis
        by (auto simp: add r r1 yields_def dest!: ready_grown [where m = "length ?out"])
    next
      case r2s: (Some y)
      with ty r2 have s2: "represents s2 cs ?out []" "grown (base s1) (base s2)"
        by (simp_all add: yields_def)
      have zy: "yields mem s2 cs (?out @ [0]) (CBB_add_u8 mem 0 ?d s2)"
        using appender.appends_here [OF appender_add_u8 s2(1)] a(3) by simp
      have len: "buf_len (base s2) = length ?out"
        using s2(1) written_eq [of "base s2" ?out] by (simp add: represents_def)
      have g: "grown (base s) (base s2)" by (rule grown_trans [OF s1(2) s2(2)])
      obtain r3 s3 where r3: "CBB_add_u8 mem 0 ?d s2 = (r3, s3)" by fastforce
      show ?thesis
      proof (cases r3)
        case None
        with zy r3 g show ?thesis
          by (auto simp: add r r1 r2 r2s yields_def dest!: ready_grown [where m = "Suc (length ?out)"])
      next
        case (Some z)
        with zy r3 have s3: "represents s3 cs (?out @ [0]) []" "grown (base s2) (base s3)"
          by (simp_all add: yields_def)
        then show ?thesis
          using grown_trans [OF g s3(2)]
          by (simp add: add r r1 r2 r2s r3 Some represents_def len)
      qed
    qed
  qed
qed

lemma close_der: "length body < 0xffffffff \<Longrightarrow> close Asn1 body = Some (der_length (length body) @ body)"
  by simp

lemma appender_asn1 [appender_rules]:
  assumes "appender mem v body" and "length body < 0xffffffff"
  shows "appender mem (\<lambda>d s. on_ok (CBB_add_asn1 mem tag d s) (\<lambda>_ s.
    on_ok (v (Suc d) s) (\<lambda>_. CBB_flush mem d))) (der_element tag body)"
  using opener.nested [OF opener_asn1 assms(1) close_der [OF assms(2)], of tag]
  by (simp add: der_element_def der_header_def)

lemma appender_octet_string [appender_rules]:
  "length data < 0xffffffff \<Longrightarrow>
   appender mem (CBB_add_asn1_octet_string mem data) (der_element CBS_ASN1_OCTETSTRING data)"
  using appender_asn1 [OF appender_add_bytes, of data mem CBS_ASN1_OCTETSTRING]
  by (simp add: CBB_add_asn1_octet_string_def [abs_def])

lemma appender_bool [appender_rules]:
  "appender mem (CBB_add_asn1_bool mem v)
     (der_element CBS_ASN1_BOOLEAN [if v \<noteq> 0 then 0xff else 0])"
  using appender_asn1 [OF appender_add_u8, of "if v \<noteq> 0 then 0xff else 0" mem CBS_ASN1_BOOLEAN]
  by (simp add: CBB_add_asn1_bool_def [abs_def])


lemma CBB_init_represents:
  assumes "\<forall>k. mem k \<noteq> None" and "n + 8 < 2 ^ 64"
  obtains s where "CBB_init mem n = Some s" and "represents s [] [] []" and "can_resize (base s)"
proof -
  obtain b where b: "OPENSSL_malloc mem n = Some b"
    using assms(1) [rule_format, of "size_add n OPENSSL_MALLOC_PREFIX"]
    by (auto simp: ossl_malloc_def Let_def)
  then have "length b = n" using assms(2) OPENSSL_malloc_block by blast
  moreover obtain m where "OPENSSL_malloc mem 32 = Some m"
    using assms(1) [rule_format, of "size_add 32 OPENSSL_MALLOC_PREFIX"]
    by (auto simp: ossl_malloc_def Let_def)
  then have "CBB_init mem n =
      Some \<lparr>base = \<lparr>buf = b, buf_len = 0, cap = n, can_resize = True, error = False\<rparr>, chain = []\<rparr>"
    unfolding CBB_init_def b by (simp add: cbb_init_def)
  ultimately show thesis using that by (simp add: represents_def buffer_ok_def written_def)
qed

lemma CBB_finish_represents:
  assumes "represents s [] out []"
  shows "\<exists>s'. CBB_finish mem 0 s = (Some (buf (base s), length out), s') \<and> take (length out) (buf (base s)) = out"
proof -
  have "written (base s) = out" "buffer_ok (base s)" using assms by (simp_all add: represents_def)
  moreover have "CBB_flush mem 0 s = (Some (), s)"
    using flush_nothing [OF assms, of mem] by simp
  ultimately show ?thesis by (simp add: CBB_finish_def written_eq)
qed

section \<open>ASN.1 integers\<close>

lemma be_fixed_map: "be_fixed k x = map (\<lambda>i. of_nat (x div 256 ^ i)) (rev [0..<k])"
proof (induction k arbitrary: x)
  case (Suc k)
  then show ?case
    unfolding rev_upt_Suc by (simp add: div_mult2_eq)
qed simp

lemma be_fixed_Suc: "be_fixed (Suc k) x = of_nat (x div 256 ^ k) # be_fixed k x"
  by (simp only: be_fixed_map) simp

lemma be_fixed_mod: "be_fixed k (x mod 256 ^ k) = be_fixed k x"
proof (induction k arbitrary: x)
  case (Suc k)
  have "x mod (256 * 256 ^ k) div 256 = x div 256 mod 256 ^ k"
    by (simp add: mod_mult2_eq)
  moreover have "(of_nat (x mod (256 * 256 ^ k)) :: u8) = of_nat x"
    by (simp add: word_unat_eq_iff unat_of_nat take_bit_eq_mod mod_mod_cancel)
  ultimately show ?case using Suc [of "x div 256"] by simp
qed simp

lemma byte_of_word: "(ucast (drop_bit (8 * k) (v :: u64) AND 0xff) :: u8) = of_nat (unat v div 256 ^ k)"
proof -
  have m: "(0xff :: u64) = mask 8" by (simp add: mask_eq_exp_minus_1)
  have "(ucast (drop_bit (8 * k) v AND 0xff) :: u8) = ucast (drop_bit (8 * k) v)"
    unfolding m by (intro bit_word_eqI) (auto simp: bit_simps)
  also have "\<dots> = of_nat (unat (drop_bit (8 * k) v))"
    by simp
  also have "unat (drop_bit (8 * k) v) = unat v div 256 ^ k"
    by (simp add: unat_drop_bit power_mult)
  finally show ?thesis .
qed

lemma asn1_uint64_bytes_started:
  "asn1_uint64_bytes mem v k True d =
     (\<lambda>s. on_ok (add_u8s mem (be_fixed k (unat v)) d s) (\<lambda>_ s. (Some True, s)))"
proof (induction k)
  case (Suc k)
  show ?case
    by (intro ext) (simp add: byte_of_word Let_def Suc be_fixed_Suc on_ok_assoc del: be_fixed.simps)
qed (simp add: fun_eq_iff)

lemma uint_bytes_fixed:
  assumes "(of_nat (x div 256 ^ k) :: u8) \<noteq> 0"
  shows "uint_bytes (x mod 256 ^ Suc k) =
    (if of_nat (x div 256 ^ k) AND (0x80 :: u8) \<noteq> 0 then 0 # be_fixed (Suc k) x else be_fixed (Suc k) x)"
proof -
  let ?x = "x mod 256 ^ Suc k" and ?b = "of_nat (x div 256 ^ k) :: u8"
  have split: "?x = 256 ^ k * (x div 256 ^ k mod 256) + x mod 256 ^ k"
    by (simp add: mod_mult2_eq mult.commute [of 256])
  have b: "unat ?b = x div 256 ^ k mod 256"
    by (simp add: unat_of_nat take_bit_eq_mod)
  have "unat ?b \<noteq> 0" using assms by (simp only: unat_eq_0) simp
  then have "1 \<le> x div 256 ^ k mod 256" by (simp add: b)
  then have "256 ^ k * 1 \<le> 256 ^ k * (x div 256 ^ k mod 256)" by (rule mult_le_mono2)
  then have ge: "256 ^ k \<le> ?x" unfolding split by linarith
  then have "be_bytes ?x = be_fixed (Suc k) ?x" by (intro be_bytes_fixed) simp_all
  also have "\<dots> = be_fixed (Suc k) x" by (rule be_fixed_mod)
  finally have bb: "be_bytes ?x = be_fixed (Suc k) x" .
  have nz: "?x \<noteq> 0" using ge by (intro notI) simp
  have hd: "hd (be_fixed (Suc k) x) = ?b" by (simp only: be_fixed_Suc list.sel)
  show ?thesis
    using nz unfolding uint_bytes_def bb Let_def hd and_0x80_iff by (simp add: not_less)
qed

lemma asn1_uint64_bytes_eq:
  "asn1_uint64_bytes mem v k False d s =
     (if unat v mod 256 ^ k = 0 then (Some False, s)
      else on_ok (add_u8s mem (uint_bytes (unat v mod 256 ^ k)) d s) (\<lambda>_ s. (Some True, s)))"
proof (induction k)
  case (Suc k)
  let ?x = "unat v" and ?b = "of_nat (unat v div 256 ^ k) :: u8"
  have split: "?x mod 256 ^ Suc k = 256 ^ k * (?x div 256 ^ k mod 256) + ?x mod 256 ^ k"
    by (simp add: mod_mult2_eq mult.commute [of 256])
  have b: "unat ?b = ?x div 256 ^ k mod 256"
    by (simp add: unat_of_nat take_bit_eq_mod)
  show ?case
  proof (cases "?b = 0")
    case True
    then have "?x div 256 ^ k mod 256 = 0" using b by (simp only: unat_0)
    then have x: "?x mod 256 ^ Suc k = ?x mod 256 ^ k" unfolding split by simp
    show ?thesis
      unfolding x using True Suc by (simp only: asn1_uint64_bytes.simps byte_of_word Let_def) simp
  next
    case False
    have "unat ?b \<noteq> 0" using False by (simp only: unat_eq_0) simp
    then have nz: "?x mod 256 ^ Suc k \<noteq> 0" unfolding split by (simp add: b)
    show ?thesis
      unfolding uint_bytes_fixed [OF False] if_not_P [OF nz]
      using False
      by (simp add: byte_of_word Let_def asn1_uint64_bytes_started be_fixed_Suc on_ok_assoc
          del: be_fixed.simps)
  qed
qed simp

lemma appender_uint64_body:
  "appender mem (\<lambda>d s. on_ok (asn1_uint64_bytes mem v 8 False d s) (\<lambda>started s.
     if \<not> started then CBB_add_u8 mem 0 d s else (Some (), s))) (uint_bytes (unat v))"
proof -
  have v: "unat v mod 256 ^ 8 = unat v"
    using unsigned_less [of v, where ?'a = nat] by simp
  have one: "add_u8s mem [0] d s = CBB_add_u8 mem 0 d s" for d s
  proof -
    obtain r s' where "CBB_add_u8 mem 0 d s = (r, s')" by fastforce
    then show ?thesis by (cases r) simp_all
  qed
  have same: "on_ok (add_u8s mem bs d s) (\<lambda>_ s. (Some (), s)) = add_u8s mem bs d s" for bs d s
  proof -
    obtain r s' where "add_u8s mem bs d s = (r, s')" by fastforce
    then show ?thesis by (cases r) simp_all
  qed
  have "(\<lambda>d s. on_ok (asn1_uint64_bytes mem v 8 False d s) (\<lambda>started s.
     if \<not> started then CBB_add_u8 mem 0 d s else (Some (), s))) = add_u8s mem (uint_bytes (unat v))"
  proof (intro ext)
    fix d s
    show "on_ok (asn1_uint64_bytes mem v 8 False d s) (\<lambda>started s.
     if \<not> started then CBB_add_u8 mem 0 d s else (Some (), s)) = add_u8s mem (uint_bytes (unat v)) d s"
      unfolding asn1_uint64_bytes_eq v
      by (cases "unat v = 0")
        (simp_all add: on_ok_assoc same uint_bytes_def [of 0] one del: add_u8s.simps)
  qed
  then show ?thesis using appender_add_u8s [OF uint_bytes_props(1)] by simp
qed

lemma appender_uint64 [appender_rules]:
  "appender mem (CBB_add_asn1_uint64 mem v) (der_element CBS_ASN1_INTEGER (uint_bytes (unat v)))"
proof -
  have "length (uint_bytes (unat v)) < 0xffffffff"
    using length_uint_bytes [of "unat v"] unsigned_less [of v, where ?'a = nat] by simp
  from appender_asn1 [OF appender_uint64_body this, of mem CBS_ASN1_INTEGER]
  show ?thesis by (simp add: CBB_add_asn1_uint64_def [abs_def] on_ok_assoc)
qed

section \<open>A finished object, read back\<close>

text \<open>
  What a caller does with a writer: initialise an object, write, finish it, and hand the
  bytes to a parser.
\<close>

definition built :: "alloc \<Rightarrow> nat \<Rightarrow> (nat \<Rightarrow> cbb \<Rightarrow> 'a option \<times> cbb) \<Rightarrow> cbs option" where
  "built mem initial_capacity w =
     (case CBB_init mem initial_capacity of
        None \<Rightarrow> None
      | Some s \<Rightarrow>
          (case on_ok (w 0 s) (\<lambda>_. CBB_finish mem 0) of
             (None, _) \<Rightarrow> None
           | (Some (out, n), _) \<Rightarrow> Some (CBS_init out n)))"

context appender
begin

lemma built_view:
  assumes mem: "\<forall>k. mem k \<noteq> None" and n: "n + 8 < 2 ^ 64" and len: "length enc \<le> 2 ^ 62"
  obtains c where "built mem n w = Some c" and "cbs_wf c" and "cbs_view c = enc"
proof -
  obtain s where init: "CBB_init mem n = Some s" and s: "represents s [] [] []" "can_resize (base s)"
    using CBB_init_represents [OF mem n] .
  have "ready mem (length enc) (base s)" using s(2) mem by (simp add: ready_def)
  then obtain x t where w: "w 0 s = (Some x, t)" and t: "represents t [] enc []"
    using succeeds [OF s(1), of "[]"] len by auto
  obtain out u where fin: "CBB_finish mem 0 t = (Some (out, length enc), u)" and out: "take (length enc) out = enc"
    using CBB_finish_represents [OF t, of mem] by blast
  have "length enc \<le> length out" using out by (metis nat_le_linear take_all_iff length_take min.absorb_iff2 min.commute)
  then show ?thesis
    using that [of "CBS_init out (length enc)"] out
    by (simp add: built_def init w fin cbs_wf_def cbs_view_def CBS_init_def)
qed

end

text \<open>
  The writers meet the two contracts, for every allocator: their results (that an empty buffer
  then holds exactly the encoding, and that a call succeeds where there is room) follow.
\<close>

interpretation add_bytes: appender mem "CBB_add_bytes mem data" data for mem data
  by (rule appender_add_bytes)

interpretation add_u8: appender mem "CBB_add_u8 mem v" "[v]" for mem v
  by (rule appender_add_u8)

interpretation add_bool: appender mem "CBB_add_asn1_bool mem v"
    "der_element CBS_ASN1_BOOLEAN [if v \<noteq> 0 then 0xff else 0]" for mem v
  by (rule appender_bool)

interpretation add_uint64: appender mem "CBB_add_asn1_uint64 mem v"
    "der_element CBS_ASN1_INTEGER (uint_bytes (unat v))" for mem v
  by (rule appender_uint64)

interpretation u8_prefix: opener mem "cbb_add_length_prefixed mem 1" "[]" "Fixed 1" for mem
  by (rule opener_length_prefixed) simp

interpretation u16_prefix: opener mem "cbb_add_length_prefixed mem 2" "[]" "Fixed 2" for mem
  by (rule opener_length_prefixed) simp

interpretation asn1_prefix: opener mem "CBB_add_asn1 mem tag" "der_tag tag" Asn1 for mem tag
  by (rule opener_asn1)

end
