(* ===== verification/Oid.thy ===== *)
theory Oid
  imports Cbb
begin

text \<open>
  Object identifiers: \<open>CBB_add_asn1_oid_from_text\<close> of \<open>cbb.c\<close>, which parses the dotted text
  and writes the contents of the DER element, and \<open>CBS_asn1_oid_to_text\<close> of \<open>cbs.c\<close>, which
  goes back. Each is proved against the same specification of text and contents, so they are
  inverse to each other.
\<close>

section \<open>From text\<close>

text \<open>
  \<open>parse_dotted_decimal\<close>, its loop with \<open>*out\<close> and \<open>seen_digit\<close> as arguments.
\<close>

function dotted_loop :: "cbs \<Rightarrow> u64 \<Rightarrow> bool \<Rightarrow> u64 option \<times> cbs" where
  "dotted_loop c out seen_digit =
     (case CBS_get_u8 c of
        (None, c') \<Rightarrow> (if seen_digit then Some out else None, c')
      | (Some u, c') \<Rightarrow>
          if u = 46 \<and> CBS_len c' > 0 then (if seen_digit then Some out else None, c')
          else if u < 48 \<or> u > 57 \<or> (seen_digit \<and> out = 0) \<or> out > - 1 div 10 \<or>
             out * 10 > - 1 - ucast (u - 48) then (None, c')
          else dotted_loop c' (out * 10 + ucast (u - 48)) True)"
  by pat_completeness auto
termination
  by (relation "measure (\<lambda>(c, out, seen). cbs_len c)")
    (auto dest: CBS_get_u8_decreases [OF sym])

declare dotted_loop.simps [simp del]

definition parse_dotted_decimal :: "u64 reader" where
  "parse_dotted_decimal c = dotted_loop c 0 False"

lemma dotted_loop_len:
  "dotted_loop c out seen = (r, c') \<Longrightarrow> cbs_len c' \<le> cbs_len c \<and> (r \<noteq> None \<longrightarrow> seen \<or> cbs_len c' < cbs_len c)"
proof (induction c out seen rule: dotted_loop.induct)
  case (1 c out seen)
  obtain b d where bd: "CBS_get_u8 c = (b, d)" by fastforce
  show ?case
  proof (cases b)
    case None
    then have "d = c" using bd by (auto simp: CBS_get_u8_def cbs_get_def split: if_splits)
    with "1.prems" bd None show ?thesis by (subst (asm) dotted_loop.simps) (auto split: if_splits)
  next
    case (Some u)
    then have d: "cbs_len d < cbs_len c" using bd CBS_get_u8_decreases by auto
    from "1.prems" bd Some show ?thesis
      using d "1.IH" [of b d u]
      by (subst (asm) dotted_loop.simps) (auto split: if_splits)
  qed
qed

lemma parse_dotted_decimal_decreases:
  "parse_dotted_decimal c = (Some v, c') \<Longrightarrow> cbs_len c' < cbs_len c"
  using dotted_loop_len by (fastforce simp: parse_dotted_decimal_def)

text \<open>The loop over the components after the second.\<close>

function oid_from_text_loop :: "alloc \<Rightarrow> cbs \<Rightarrow> nat \<Rightarrow> cbb \<Rightarrow> unit option \<times> cbb" where
  "oid_from_text_loop mem c d s =
     (if CBS_len c > 0 then
        case parse_dotted_decimal c of
          (None, c') \<Rightarrow> (None, s)
        | (Some a, c') \<Rightarrow>
            on_ok (add_base128_integer mem a d s) (\<lambda>_. oid_from_text_loop mem c' d)
      else (Some (), s))"
  by pat_completeness auto
termination
  by (relation "measure (\<lambda>(mem, c, d, s). cbs_len c)")
    (auto dest!: parse_dotted_decimal_decreases [OF sym])

declare oid_from_text_loop.simps [simp del]

definition CBB_add_asn1_oid_from_text :: "alloc \<Rightarrow> bytes \<Rightarrow> nat \<Rightarrow> cbb \<Rightarrow> unit option \<times> cbb" where
  "CBB_add_asn1_oid_from_text mem text d s =
     on_ok (CBB_flush mem d s) (\<lambda>_ s.
       let c = CBS_init text (length text)
       in case parse_dotted_decimal c of
          (None, c) \<Rightarrow> (None, s)
        | (Some a, c) \<Rightarrow>
          (case parse_dotted_decimal c of
             (None, c) \<Rightarrow> (None, s)
           | (Some b, c) \<Rightarrow>
               if a > 2 \<or> (a < 2 \<and> b > 39) \<or> b > - 1 - 80 then (None, s)
               else on_ok (add_base128_integer mem (40 * a + b) d s)
                 (\<lambda>_. oid_from_text_loop mem c d)))"

section \<open>To text\<close>

text \<open>\<open>snprintf\<close> with \<open>%PRIu64\<close>: the decimal digits, at most 20 and without leading zeros.\<close>

fun dec :: "nat \<Rightarrow> bytes" where
  "dec n = (if n < 10 then [of_nat (48 + n)] else dec (n div 10) @ [of_nat (48 + n mod 10)])"

declare dec.simps [simp del]

definition add_decimal :: "alloc \<Rightarrow> u64 \<Rightarrow> nat \<Rightarrow> cbb \<Rightarrow> unit option \<times> cbb" where
  "add_decimal mem v = CBB_add_bytes mem (dec (unat v))"

function oid_to_text_loop :: "alloc \<Rightarrow> cbs \<Rightarrow> cbb \<Rightarrow> unit option \<times> cbb" where
  "oid_to_text_loop mem copy s =
     (if CBS_len copy \<noteq> 0 then
        case parse_base128_integer copy of
          (None, c') \<Rightarrow> (None, s)
        | (Some v, c') \<Rightarrow>
            on_ok (CBB_add_u8 mem 46 0 s) (\<lambda>_ s.
              on_ok (add_decimal mem v 0 s) (\<lambda>_. oid_to_text_loop mem c'))
      else (Some (), s))"
  by pat_completeness auto
termination
  by (relation "measure (\<lambda>(mem, c, s). cbs_len c)")
    (auto dest!: base128.progress [OF sym])

declare oid_to_text_loop.simps [simp del]

definition CBS_asn1_oid_to_text :: "alloc \<Rightarrow> cbs \<Rightarrow> bytes option" where
  "CBS_asn1_oid_to_text mem c =
     (case CBB_init mem 32 of
        None \<Rightarrow> None
      | Some s \<Rightarrow>
        (case parse_base128_integer c of
           (None, _) \<Rightarrow> None
         | (Some v, copy) \<Rightarrow>
             map_option fst (fst
               (on_ok
                 (if v \<ge> 80 then
                    on_ok (CBB_add_bytes mem [50, 46] 0 s) (\<lambda>_. add_decimal mem (v - 80) 0)
                  else
                    on_ok (add_decimal mem (v div 40) 0 s) (\<lambda>_ s.
                      on_ok (CBB_add_u8 mem 46 0 s) (\<lambda>_. add_decimal mem (v mod 40) 0)))
                 (\<lambda>_ s. on_ok (oid_to_text_loop mem copy s) (\<lambda>_ s.
                   on_ok (CBB_add_u8 mem 0 0 s) (\<lambda>_. CBB_finish mem 0)))))))"


section \<open>The specification\<close>

text \<open>\<open>parse_dotted_decimal\<close> on the bytes that are left, with the number read so far.\<close>

fun dotted :: "bytes \<Rightarrow> nat \<Rightarrow> bool \<Rightarrow> (nat \<times> bytes) option" where
  "dotted [] m seen = (if seen then Some (m, []) else None)"
| "dotted (u # bs) m seen =
     (if u = 46 \<and> bs \<noteq> [] then if seen then Some (m, bs) else None
      else if unat u < 48 \<or> 57 < unat u \<or> seen \<and> m = 0 \<or> 2 ^ 64 \<le> m * 10 + (unat u - 48) then None
      else dotted bs (m * 10 + (unat u - 48)) True)"

lemma digit_overflow:
  fixes out :: u64 and u :: u8
  assumes "\<not> u < 48" and "\<not> u > 57"
  shows "(out > - 1 div 10 \<or> out * 10 > - 1 - ucast (u - 48)) \<longleftrightarrow>
      2 ^ 64 \<le> unat out * 10 + (unat u - 48)"
    and "\<not> (out > - 1 div 10 \<or> out * 10 > - 1 - ucast (u - 48)) \<Longrightarrow>
      unat (out * 10 + ucast (u - 48)) = unat out * 10 + (unat u - 48)"
proof -
  have "unat (u - 48) = unat u - 48" "unat u - 48 \<le> 9"
    using assms by (simp_all add: unat_sub word_less_nat_alt word_le_nat_alt not_less)
  then have d: "unat (ucast (u - 48) :: u64) = unat u - 48" "unat u - 48 \<le> 9"
    by (simp_all add: unat_ucast_up)
  have m: "unat (- 1 - ucast (u - 48) :: u64) = 2 ^ 64 - 1 - (unat u - 48)"
    using d by (subst unat_sub) (simp_all add: word_le_nat_alt unsigned_minus_1_eq_mask mask_eq_exp_minus_1)
  have le: "out > - 1 div 10 \<longleftrightarrow> unat out > (2 ^ 64 - 1) div 10"
    by (simp add: word_less_nat_alt)
  have mul: "unat (out * 10) = unat out * 10" if "\<not> out > - 1 div 10"
    using that le by (simp add: unat_word_ariths)
  show "(out > - 1 div 10 \<or> out * 10 > - 1 - ucast (u - 48)) \<longleftrightarrow>
      2 ^ 64 \<le> unat out * 10 + (unat u - 48)"
  proof (cases "out > - 1 div 10")
    case True
    with le show ?thesis by simp
  next
    case False
    with le mul [OF False] m d show ?thesis by (auto simp: word_less_nat_alt)
  qed
  then show "\<not> (out > - 1 div 10 \<or> out * 10 > - 1 - ucast (u - 48)) \<Longrightarrow>
      unat (out * 10 + ucast (u - 48)) = unat out * 10 + (unat u - 48)"
    using mul d by (simp add: unat_word_ariths)
qed

lemma dotted_loop_dotted:
  assumes "cbs_wf c" and "cbs_view c = bs"
  shows "case dotted bs (unat v) seen of
      None \<Rightarrow> fst (dotted_loop c v seen) = None
    | Some (n, rest) \<Rightarrow> \<exists>k. dotted_loop c v seen = (Some (of_nat n), advance k c) \<and>
        k \<le> cbs_len c \<and> drop k bs = rest"
  using assms
proof (induction bs arbitrary: c v seen)
  case Nil
  then show ?case
    by (simp add: dotted_loop.simps [of c] CBS_get_u8_eq) (metis advance_0 le0)
next
  case (Cons u bs)
  then have u8: "CBS_get_u8 c = (Some u, advance (Suc 0) c)" and len: "cbs_len c = Suc (length bs)"
    using length_cbs_view [of c] by (auto simp: CBS_get_u8_eq)
  have dot: "CBS_len (advance (Suc 0) c) > 0 \<longleftrightarrow> bs \<noteq> []"
    by (simp add: CBS_len_def len)
  have range: "u < 48 \<longleftrightarrow> unat u < 48" "u > 57 \<longleftrightarrow> 57 < unat u"
    by (simp_all add: word_less_nat_alt)
  have z: "v = 0 \<longleftrightarrow> unat v = 0" by (simp add: unat_eq_0)
  let ?v' = "v * 10 + ucast (u - 48)"
  have IH: "case dotted bs (unat ?v') True of
      None \<Rightarrow> fst (dotted_loop (advance (Suc 0) c) ?v' True) = None
    | Some (n, rest) \<Rightarrow> \<exists>k. dotted_loop (advance (Suc 0) c) ?v' True = (Some (of_nat n), advance k (advance (Suc 0) c)) \<and>
        k \<le> cbs_len (advance (Suc 0) c) \<and> drop k bs = rest"
    by (rule Cons.IH) (simp_all add: Cons.prems cbs_wf_advance)
  show ?case
  proof (cases "u = 46 \<and> bs \<noteq> []")
    case True
    then show ?thesis using len
      by (auto simp: dotted_loop.simps [of c] u8 dot intro!: exI [of _ "Suc 0"])
  next
    case False
    then have loop: "dotted_loop c v seen =
        (if u < 48 \<or> u > 57 \<or> (seen \<and> v = 0) \<or> v > - 1 div 10 \<or> v * 10 > - 1 - ucast (u - 48)
         then (None, advance (Suc 0) c) else dotted_loop (advance (Suc 0) c) ?v' True)"
      by (simp add: dotted_loop.simps [of c] u8 dot)
    show ?thesis
    proof (cases "u < 48 \<or> u > 57")
      case True
      then show ?thesis using False unfolding loop by (auto simp: range)
    next
      case in_range: False
      note ov = digit_overflow [of u v]
      show ?thesis
      proof (cases "(seen \<and> v = 0) \<or> v > - 1 div 10 \<or> v * 10 > - 1 - ucast (u - 48)")
        case True
        then have "dotted_loop c v seen = (None, advance (Suc 0) c)" unfolding loop by simp
        moreover have "dotted (u # bs) (unat v) seen = None"
          using True False ov(1) in_range z by auto
        ultimately show ?thesis by simp
      next
        case ok: False
        then have "dotted_loop c v seen = dotted_loop (advance (Suc 0) c) ?v' True"
          using in_range unfolding loop by (cases seen) simp_all
        moreover have "unat ?v' = unat v * 10 + (unat u - 48)" using ov(2) in_range ok by blast
        moreover have "\<not> 2 ^ 64 \<le> unat v * 10 + (unat u - 48)" using ov(1) in_range ok by blast
        then have "dotted (u # bs) (unat v) seen = dotted bs (unat v * 10 + (unat u - 48)) True"
          using False ok in_range z by (auto simp: range)
        ultimately show ?thesis
          using IH len by (force split: option.splits)
      qed
    qed
  qed
qed

lemma digit_byte: "d < 10 \<Longrightarrow> unat (of_nat (48 + d) :: u8) = 48 + d"
  by (rule unat_of_nat_u8) simp

lemma dotted_digit:
  "d < 10 \<Longrightarrow> (m \<noteq> 0 \<or> \<not> seen) \<Longrightarrow> m * 10 + d < 2 ^ 64 \<Longrightarrow>
   dotted (of_nat (48 + d) # bs) m seen = dotted bs (m * 10 + d) True"
  using digit_byte [of d] by (auto simp del: of_nat_add of_nat_numeral)

lemma dotted_dec:
  "n < 2 ^ 64 \<Longrightarrow> dotted (dec n @ rest) 0 False = dotted rest n True"
proof (induction n arbitrary: rest rule: dec.induct)
  case (1 n)
  show ?case
  proof (cases "n < 10")
    case True
    then show ?thesis using dotted_digit [of n 0 False rest] by (simp add: dec.simps [of n] del: of_nat_add of_nat_numeral dotted.simps)
  next
    case False
    then have "dotted (dec n @ rest) 0 False = dotted (of_nat (48 + n mod 10) # rest) (n div 10) True"
      using "1.IH" [OF False] "1.prems" by (simp add: dec.simps [of n] del: of_nat_add of_nat_numeral dotted.simps)
    also have "\<dots> = dotted rest (n div 10 * 10 + n mod 10) True"
      using False "1.prems" by (intro dotted_digit) auto
    finally show ?thesis by simp
  qed
qed


lemma dec_nonempty [simp]: "dec n \<noteq> []"
  by (subst dec.simps) simp

lemma dotted_canonical:
  "dotted bs m seen = Some (n, rest) \<Longrightarrow> \<not> seen \<longrightarrow> m = 0 \<Longrightarrow> m < 2 ^ 64 \<Longrightarrow>
   (if seen then dec m else []) @ bs = dec n @ (if rest = [] then [] else 46 # rest) \<and> n < 2 ^ 64"
proof (induction bs m seen rule: dotted.induct)
  case (2 u bs m seen)
  show ?case
  proof (cases "u = 46 \<and> bs \<noteq> []")
    case True
    with "2.prems" show ?thesis by (auto split: if_splits)
  next
    case False
    let ?d = "unat u - 48" and ?m = "m * 10 + (unat u - 48)"
    have ok: "\<not> (unat u < 48 \<or> 57 < unat u \<or> seen \<and> m = 0 \<or> 2 ^ 64 \<le> ?m)"
      and step: "dotted bs ?m True = Some (n, rest)"
      using "2.prems"(1) False by (auto split: if_splits)
    have "48 + ?d = unat u" and u2: "?d < 10" using ok by linarith+
    then have u: "u = of_nat (48 + ?d)" "?d < 10"
      by (simp_all only: of_nat_unat_8)
    have "(if seen then dec m else []) @ [u] = dec ?m"
    proof (cases seen)
      case True
      have "?m div 10 = m" "?m mod 10 = ?d"
        using u(2) by (simp_all only: div_mult_self3 mod_mult_self3 mod_less div_less)
      moreover have "0 < m" using ok True by simp
      then have "\<not> ?m < 10" by linarith
      ultimately have "\<not> ?m < 10" "?m div 10 = m" "?m mod 10 = ?d" by blast+
      then show ?thesis using True u(1) by (simp add: dec.simps [of ?m] del: of_nat_add of_nat_numeral)
    next
      case False
      then have m: "m = 0" using "2.prems"(2) by simp
      have "dec ?d = [of_nat (48 + ?d)]" using u(2) by (simp only: dec.simps [of ?d] if_True)
      with False show ?thesis by (simp only: m u(1) [symmetric] mult_0 add_0 if_False append_Nil)
    qed
    moreover have "dec ?m @ bs = dec n @ (if rest = [] then [] else 46 # rest) \<and> n < 2 ^ 64"
      using "2.IH" [OF False ok] step ok by auto
    ultimately show ?thesis by (metis append_Cons append_Nil append_assoc)
  qed
qed (auto split: if_splits)

fun dots :: "nat list \<Rightarrow> bytes" where
  "dots [] = []"
| "dots [n] = dec n"
| "dots (n # ns) = dec n @ 46 # dots ns"

lemma dots_Cons: "dots (n # ns) = dec n @ (if dots ns = [] then [] else 46 # dots ns)"
  and dots_empty [simp]: "dots ns = [] \<longleftrightarrow> ns = []"
proof -
  show e: "dots ns = [] \<longleftrightarrow> ns = []" for ns by (cases ns rule: dots.cases) auto
  show "dots (n # ns) = dec n @ (if dots ns = [] then [] else 46 # dots ns)"
    by (cases ns) (simp_all add: e)
qed

lemma parse_dotted_dots:
  assumes "cbs_wf c" and "cbs_view c = dots (n # ns)" and "n < 2 ^ 64"
  shows "\<exists>k. parse_dotted_decimal c = (Some (of_nat n), advance k c) \<and> cbs_view (advance k c) = dots ns"
proof -
  have "dotted (cbs_view c) 0 False = Some (n, dots ns)"
  proof (cases "ns = []")
    case True
    with assms(2) dotted_dec [OF assms(3), of "[]"] show ?thesis by simp
  next
    case False
    with assms(2) dotted_dec [OF assms(3), of "46 # dots ns"] show ?thesis by (simp add: dots_Cons [of n])
  qed
  with dotted_loop_dotted [OF assms(1) refl, of 0 False] show ?thesis
    by (auto simp: parse_dotted_decimal_def)
qed

lemma parse_dotted_canonical:
  assumes "cbs_wf c" and "parse_dotted_decimal c = (Some v, c')"
  shows "cbs_view c = dec (unat v) @ (if cbs_view c' = [] then [] else 46 # cbs_view c') \<and> cbs_wf c'"
proof -
  obtain n rest where d: "dotted (cbs_view c) 0 False = Some (n, rest)"
    using dotted_loop_dotted [OF assms(1) refl, of 0 False] assms(2)
    by (cases "dotted (cbs_view c) 0 False") (auto simp: parse_dotted_decimal_def)
  from dotted_canonical [OF d] have can: "cbs_view c = dec n @ (if rest = [] then [] else 46 # rest)" "n < 2 ^ 64"
    by simp_all
  obtain k where "parse_dotted_decimal c = (Some (of_nat n), advance k c)" "drop k (cbs_view c) = rest"
    using dotted_loop_dotted [OF assms(1) refl, of 0 False] d by (auto simp: parse_dotted_decimal_def)
  with can assms show ?thesis by (auto simp: unat_of_nat_u64 cbs_wf_advance)
qed

text \<open>The arcs of an object identifier, its text and the contents of its DER element.\<close>

fun oid_valid :: "nat list \<Rightarrow> bool" where
  "oid_valid (a # b # ns) \<longleftrightarrow>
     a \<le> 2 \<and> (a < 2 \<longrightarrow> b \<le> 39) \<and> b + 80 < 2 ^ 64 \<and> (\<forall>n \<in> set ns. n < 2 ^ 64)"
| "oid_valid _ \<longleftrightarrow> False"

fun oid_der :: "nat list \<Rightarrow> bytes" where
  "oid_der (a # b # ns) = b128 (40 * a + b) @ concat (map b128 ns)"
| "oid_der _ = []"


lemma length_b128_le: "n < 2 ^ 64 \<Longrightarrow> length (b128 n) \<le> 10"
  using length_b128_hi [of "n div 128" 9] by (simp add: b128_def)

lemma length_dots_ge: "length ns \<le> length (dots ns)"
proof (induction ns)
  case (Cons n ns)
  have "1 \<le> length (dec n)" using dec_nonempty [of n] by (simp add: Suc_leI)
  then show ?case using Cons by (cases ns) auto
qed simp

lemma length_oid_der:
  assumes "oid_valid ns"
  shows "length (oid_der ns) \<le> 10 * length ns"
  using assms
proof (cases ns rule: oid_valid.cases)
  case (1 a b ms)
  have a: "40 * a + b < 2 ^ 64" using assms by (auto simp: 1)
  have "\<forall>n \<in> set ms. n < 2 ^ 64 \<Longrightarrow> length (concat (map b128 ms)) \<le> 10 * length ms" for ms
  proof (induction ms)
    case (Cons n ms)
    then show ?case using length_b128_le [of n] by simp
  qed simp
  then have "length (concat (map b128 ms)) \<le> 10 * length ms" using assms by (simp add: 1)
  then show ?thesis using length_b128_le [OF a] by (simp add: 1)
qed auto

lemma oid_from_text_loop_yields:
  "represents s cs root [] \<Longrightarrow> cbs_wf c \<Longrightarrow> cbs_view c = dots ns \<Longrightarrow> \<forall>n \<in> set ns. n < 2 ^ 64 \<Longrightarrow>
   length (root @ concat (map b128 ns)) \<le> 2 ^ 62 \<Longrightarrow>
   yields mem s cs (root @ concat (map b128 ns)) (oid_from_text_loop mem c (length cs) s)"
proof (induction ns arbitrary: s root c)
  case Nil
  then have "CBS_len c = 0" using length_cbs_view [of c] by (simp add: CBS_len_def)
  with Nil show ?case by (simp add: oid_from_text_loop.simps [of mem c] yields_def)
next
  case (Cons n ns)
  then obtain k where k: "parse_dotted_decimal c = (Some (of_nat n), advance k c)"
    "cbs_view (advance k c) = dots ns"
    using parse_dotted_dots [of c n ns] by auto
  have "CBS_len c \<noteq> 0"
  proof -
    have "length (cbs_view c) \<noteq> 0" by (simp only: Cons.prems(3) length_0_conv dots_empty) simp
    then show ?thesis using Cons.prems(2) by (simp add: CBS_len_def)
  qed
  then have loop: "oid_from_text_loop mem c (length cs) s =
      on_ok (add_base128_integer mem (of_nat n) (length cs) s)
        (\<lambda>_. oid_from_text_loop mem (advance k c) (length cs))"
    by (simp add: oid_from_text_loop.simps [of mem c] k(1))
  have n: "unat (of_nat n :: u64) = n" using Cons.prems(4) by (intro unat_of_nat_u64) simp
  have "length (root @ b128 n) \<le> 2 ^ 62" using Cons.prems(5) by simp
  with appender.appends_here [OF appender_add_base128 Cons.prems(1), of "of_nat n" mem]
  have add: "yields mem s cs (root @ b128 n) (add_base128_integer mem (of_nat n) (length cs) s)"
    by (simp add: n)
  obtain r s' where r: "add_base128_integer mem (of_nat n) (length cs) s = (r, s')" by fastforce
  show ?case
  proof (cases r)
    case None
    with add r show ?thesis by (auto simp: loop yields_def ready_def)
  next
    case (Some x)
    with add r have "represents s' cs (root @ b128 n) []" by (simp add: yields_def)
    from Cons.IH [OF this cbs_wf_advance [OF Cons.prems(2)] k(2)] Cons.prems(4,5)
    have "yields mem s' cs (root @ concat (map b128 (n # ns)))
        (oid_from_text_loop mem (advance k c) (length cs) s')" by simp
    with add r Some show ?thesis unfolding loop
      by (auto intro: yields_trans)
  qed
qed

lemma oid_range:
  assumes "oid_valid (a # b # ns)"
  shows "unat (of_nat a :: u64) = a" "unat (of_nat b :: u64) = b"
    "\<not> ((of_nat a :: u64) > 2 \<or> ((of_nat a :: u64) < 2 \<and> (of_nat b :: u64) > 39) \<or> (of_nat b :: u64) > - 1 - 80)"
    "unat (40 * of_nat a + of_nat b :: u64) = 40 * a + b"
proof -
  show a: "unat (of_nat a :: u64) = a" and b: "unat (of_nat b :: u64) = b"
    using assms by (auto intro!: unat_of_nat_u64)
  show "\<not> ((of_nat a :: u64) > 2 \<or> ((of_nat a :: u64) < 2 \<and> (of_nat b :: u64) > 39) \<or> (of_nat b :: u64) > - 1 - 80)"
    using assms by (auto simp: word_less_nat_alt a b)
  show "unat (40 * of_nat a + of_nat b :: u64) = 40 * a + b"
    using assms by (simp add: unat_word_ariths a b mod_simps)
qed

lemma appender_oid_from_text:
  assumes "oid_valid ns"
  shows "appender mem (CBB_add_asn1_oid_from_text mem (dots ns)) (oid_der ns)"
proof -
  obtain a b rest where ns: "ns = a # b # rest" using assms by (cases ns rule: oid_valid.cases) auto
  define c where "c = CBS_init (dots ns) (length (dots ns))"
  have c: "cbs_wf c" "cbs_view c = dots (a # b # rest)" by (simp_all only: c_def CBS_init_wf CBS_init_view ns)
  note valid = assms [unfolded ns]
  obtain k1 where k1: "parse_dotted_decimal c = (Some (of_nat a), advance k1 c)"
    "cbs_view (advance k1 c) = dots (b # rest)"
    using parse_dotted_dots [OF c] valid by auto
  obtain k2 where k2: "parse_dotted_decimal (advance k1 c) = (Some (of_nat b), advance k2 (advance k1 c))"
    "cbs_view (advance k2 (advance k1 c)) = dots rest"
    using parse_dotted_dots [OF cbs_wf_advance [OF c(1)] k1(2)] valid by auto
  have "appender mem (\<lambda>d s. on_ok (CBB_flush mem d s) (\<lambda>_ s.
    on_ok (add_base128_integer mem (40 * of_nat a + of_nat b) d s)
      (\<lambda>_. oid_from_text_loop mem (advance k2 (advance k1 c)) d))) (oid_der ns)"
  proof (rule appender_flush)
    fix s :: cbb and cs root
    assume rep: "represents s cs root []" and bound: "length (root @ oid_der ns) \<le> 2 ^ 62"
    let ?w = "40 * of_nat a + of_nat b :: u64" and ?r = "root @ b128 (40 * a + b)"
    have add: "yields mem s cs ?r (add_base128_integer mem ?w (length cs) s)"
      using appender.appends_here [OF appender_add_base128 rep, of ?w mem] bound oid_range(4) [OF valid]
      by (simp add: ns)
    obtain r s' where r: "add_base128_integer mem ?w (length cs) s = (r, s')" by fastforce
    show "yields mem s cs (root @ oid_der ns) (on_ok (add_base128_integer mem ?w (length cs) s)
      (\<lambda>_. oid_from_text_loop mem (advance k2 (advance k1 c)) (length cs)))"
    proof (cases r)
      case None
      with add r show ?thesis by (auto simp: yields_def ready_def ns)
    next
      case (Some x)
      with add r have "represents s' cs ?r []" by (simp add: yields_def)
      from oid_from_text_loop_yields [OF this _ k2(2), of mem] bound valid
      have "yields mem s' cs (root @ oid_der ns)
          (oid_from_text_loop mem (advance k2 (advance k1 c)) (length cs) s')"
        by (simp add: ns cbs_wf_advance c(1))
      with add r Some show ?thesis by (auto intro: yields_trans simp: ns)
    qed
  qed
  moreover have "CBB_add_asn1_oid_from_text mem (dots ns) = (\<lambda>d s. on_ok (CBB_flush mem d s) (\<lambda>_ s.
    on_ok (add_base128_integer mem (40 * of_nat a + of_nat b) d s)
      (\<lambda>_. oid_from_text_loop mem (advance k2 (advance k1 c)) d)))"
    unfolding CBB_add_asn1_oid_from_text_def Let_def c_def [symmetric]
    by (intro ext) (simp only: k1(1) k2(1) prod.case option.case if_not_P [OF oid_range(3) [OF valid]])
  ultimately show ?thesis by simp
qed


lemma oid_from_text_loop_canonical:
  "oid_from_text_loop mem c d s = (Some x, s') \<Longrightarrow> cbs_wf c \<Longrightarrow>
   \<exists>ns. cbs_view c = dots ns \<and> (\<forall>n \<in> set ns. n < 2 ^ 64)"
proof (induction mem c d s rule: oid_from_text_loop.induct)
  case (1 mem c d s)
  show ?case
  proof (cases "CBS_len c > 0")
    case False
    then have "cbs_view c = []" using length_cbs_view [OF "1.prems"(2)] by (simp add: CBS_len_def)
    then have "cbs_view c = dots [] \<and> (\<forall>n \<in> set []. n < (2 :: nat) ^ 64)" by simp
    then show ?thesis by blast
  next
    case True
    with "1.prems"(1) obtain a c' y s1 where a: "parse_dotted_decimal c = (Some a, c')"
      and y: "add_base128_integer mem a d s = (Some y, s1)"
      and loop: "oid_from_text_loop mem c' d s1 = (Some x, s')"
      by (auto simp: oid_from_text_loop.simps [of mem c d s] on_ok_Some split: prod.splits option.splits)
    note can = parse_dotted_canonical [OF "1.prems"(2) a]
    obtain ns where ns: "cbs_view c' = dots ns" "\<forall>n \<in> set ns. n < 2 ^ 64"
      using "1.IH" [OF True a [symmetric] refl y loop] can by blast
    have "unat a < 2 ^ 64" using unsigned_less [of a, where ?'a = nat] by simp
    with ns can have "cbs_view c = dots (unat a # ns) \<and> (\<forall>n \<in> set (unat a # ns). n < 2 ^ 64)"
      by (simp add: dots_Cons [of "unat a"])
    then show ?thesis by blast
  qed
qed

lemma oid_from_text_canonical:
  assumes "CBB_add_asn1_oid_from_text mem text d s = (Some x, s')"
  shows "\<exists>ns. oid_valid ns \<and> text = dots ns"
proof -
  let ?c = "CBS_init text (length text)"
  obtain s1 a c1 b c2 y s2 where a: "parse_dotted_decimal ?c = (Some a, c1)"
    and b: "parse_dotted_decimal c1 = (Some b, c2)"
    and range: "\<not> (a > 2 \<or> (a < 2 \<and> b > 39) \<or> b > - 1 - 80)"
    and loop: "oid_from_text_loop mem c2 d s2 = (Some x, s')"
  proof -
    from assms obtain y s1 where "(case parse_dotted_decimal ?c of
          (None, c) \<Rightarrow> (None, s1)
        | (Some a, c) \<Rightarrow>
          (case parse_dotted_decimal c of
             (None, c) \<Rightarrow> (None, s1)
           | (Some b, c) \<Rightarrow>
               if a > 2 \<or> (a < 2 \<and> b > 39) \<or> b > - 1 - 80 then (None, s1)
               else on_ok (add_base128_integer mem (40 * a + b) d s1)
                 (\<lambda>_. oid_from_text_loop mem c d))) = (Some x, s')"
      unfolding CBB_add_asn1_oid_from_text_def Let_def on_ok_Some by blast
    then show thesis
      using that by (auto simp: on_ok_Some split: prod.split_asm option.split_asm if_split_asm)
  qed
  have can1: "text = dec (unat a) @ (if cbs_view c1 = [] then [] else 46 # cbs_view c1)" "cbs_wf c1"
    using parse_dotted_canonical [OF _ a] by simp_all
  note can2 = parse_dotted_canonical [OF can1(2) b]
  obtain ns where ns: "cbs_view c2 = dots ns" "\<forall>n \<in> set ns. n < 2 ^ 64"
    using oid_from_text_loop_canonical [OF loop] can2 by blast
  have "text = dots (unat a # unat b # ns)"
    using can1(1) can2 ns(1) by (simp add: dots_Cons [of "unat b"])
  moreover have "oid_valid (unat a # unat b # ns)"
  proof -
    have "unat a \<le> 2" "unat a < 2 \<longrightarrow> unat b \<le> 39" "unat b \<le> 2 ^ 64 - 1 - 80"
      using range by (auto simp: word_less_nat_alt not_less)
    with ns(2) show ?thesis by simp
  qed
  ultimately show ?thesis by blast
qed

text \<open>Back to text.\<close>

lemma appender_add_decimal: "appender mem (add_decimal mem v) (dec (unat v))"
  by (simp add: add_decimal_def appender_add_bytes)

lemma oid_to_text_loop_yields:
  "represents s [] root [] \<Longrightarrow> cbs_wf c \<Longrightarrow> cbs_view c = concat (map b128 ns) \<Longrightarrow> \<forall>n \<in> set ns. n < 2 ^ 64 \<Longrightarrow>
   length (root @ concat (map (\<lambda>n. 46 # dec n) ns)) \<le> 2 ^ 62 \<Longrightarrow>
   yields mem s [] (root @ concat (map (\<lambda>n. 46 # dec n) ns)) (oid_to_text_loop mem c s)"
proof (induction ns arbitrary: s root c)
  case Nil
  then have "CBS_len c = 0" using length_cbs_view [of c] by (simp add: CBS_len_def)
  with Nil show ?case by (simp add: oid_to_text_loop.simps [of mem c] yields_def)
next
  case (Cons n ns)
  let ?c = "advance (length (b128 n)) c"
  have k: "parse_base128_integer c = (Some (of_nat n), ?c)"
    using Cons.prems by (intro parse_base128_integer_b128) auto
  have v: "cbs_view ?c = concat (map b128 ns)" by (simp add: Cons.prems(3))
  have "CBS_len c \<noteq> 0"
    using Cons.prems(2,3) length_cbs_view [of c] by (auto simp: CBS_len_def b128_def)
  then have loop: "oid_to_text_loop mem c s =
      on_ok (CBB_add_u8 mem 46 0 s) (\<lambda>_ s. on_ok (add_decimal mem (of_nat n) 0 s) (\<lambda>_. oid_to_text_loop mem ?c))"
    by (simp add: oid_to_text_loop.simps [of mem c] k)
  have n: "unat (of_nat n :: u64) = n" using Cons.prems(4) by (intro unat_of_nat_u64) simp
  show ?case unfolding loop
  proof (rule yields_seq)
    show "yields mem s [] (root @ [46]) (CBB_add_u8 mem 46 0 s)"
      using appender.appends_here [OF appender_add_u8 Cons.prems(1), of 46 mem] Cons.prems(5) by simp
    fix s1 x assume s1: "represents s1 [] (root @ [46]) []"
    show "yields mem s1 [] (root @ concat (map (\<lambda>n. 46 # dec n) (n # ns)))
        (on_ok (add_decimal mem (of_nat n) 0 s1) (\<lambda>_. oid_to_text_loop mem ?c))"
    proof (rule yields_seq)
      show "yields mem s1 [] (root @ 46 # dec n) (add_decimal mem (of_nat n) 0 s1)"
        using appender.appends_here [OF appender_add_decimal s1, of "of_nat n" mem] Cons.prems(5) by (simp add: n)
      fix s2 x assume "represents s2 [] (root @ 46 # dec n) []"
      from Cons.IH [OF this cbs_wf_advance [OF Cons.prems(2)] v] Cons.prems(4,5)
      show "yields mem s2 [] (root @ concat (map (\<lambda>n. 46 # dec n) (n # ns))) (oid_to_text_loop mem ?c s2)"
        by simp
    qed simp
  qed simp
qed

lemma dots_concat: "dots (n # ns) = dec n @ concat (map (\<lambda>n. 46 # dec n) ns)"
  by (induction ns arbitrary: n) auto


lemma oid_to_text_correct:
  assumes mem: "\<forall>k. mem k \<noteq> None" and valid: "oid_valid ns"
    and wf: "cbs_wf c" and view: "cbs_view c = oid_der ns" and bound: "length (dots ns) < 2 ^ 62"
  shows "\<exists>txt. CBS_asn1_oid_to_text mem c = Some txt \<and> take (Suc (length (dots ns))) txt = dots ns @ [0]"
proof -
  obtain a b rest where ns: "ns = a # b # rest" using valid by (cases ns rule: oid_valid.cases) auto
  have range: "a \<le> 2" "a < 2 \<longrightarrow> b \<le> 39" "b + 80 < 2 ^ 64" "\<forall>n \<in> set rest. n < 2 ^ 64"
    using valid by (simp_all add: ns)
  define v where "v = (of_nat (40 * a + b) :: u64)"
  define copy where "copy = advance (length (b128 (40 * a + b))) c"
  have p: "parse_base128_integer c = (Some v, copy)"
    unfolding v_def copy_def using range view by (intro parse_base128_integer_b128 [OF wf]) (auto simp: ns)
  have copy: "cbs_wf copy" "cbs_view copy = concat (map b128 rest)"
    by (simp_all add: copy_def cbs_wf_advance wf view ns)
  have v: "unat v = 40 * a + b"
    unfolding v_def using range by (intro unat_of_nat_u64) auto
  let ?out1 = "dec a @ 46 # dec b" and ?tail = "concat (map (\<lambda>n. 46 # dec n) rest)"
  have dots: "dots ns = ?out1 @ ?tail" unfolding ns dots_concat by simp
  obtain s where s: "CBB_init mem 32 = Some s" "represents s [] [] []" "can_resize (base s)"
    by (rule CBB_init_represents [OF mem, of 32]) auto
  have "yields mem s [] ?out1
      (if v \<ge> 80 then on_ok (CBB_add_bytes mem [50, 46] 0 s) (\<lambda>_. add_decimal mem (v - 80) 0)
       else on_ok (add_decimal mem (v div 40) 0 s) (\<lambda>_ s.
         on_ok (CBB_add_u8 mem 46 0 s) (\<lambda>_. add_decimal mem (v mod 40) 0)))"
  proof (cases "a = 2")
    case True
    have ge: "v \<ge> 80" by (simp add: word_le_nat_alt v True)
    then have sub: "unat (v - 80) = b" by (subst unat_sub) (simp_all add: v True)
    have app: "appender mem (\<lambda>d s. on_ok (CBB_add_bytes mem [50, 46] d s) (\<lambda>_. add_decimal mem (v - 80) d)) ([50, 46] @ dec b)"
      using appender_seq [OF appender_add_bytes, of mem "\<lambda>_. add_decimal mem (v - 80)" "dec b" "[50, 46]"]
        appender_add_decimal [of mem "v - 80"] by (simp add: sub)
    have "?out1 = [50, 46] @ dec b" by (simp add: True dec.simps [of 2])
    with ge show ?thesis
      using appender.appends_here [OF app s(2)] bound by (simp add: dots)
  next
    case False
    then have small: "a < 2" "b \<le> 39" using range by auto
    then have lt: "\<not> v \<ge> 80" by (simp add: word_le_nat_alt v)
    have q: "unat (v div 40) = a" "unat (v mod 40) = b"
      using small by (simp_all add: unat_div unat_mod v)
    have app: "appender mem (\<lambda>d s. on_ok (add_decimal mem (v div 40) d s) (\<lambda>_ s.
        on_ok (CBB_add_u8 mem 46 d s) (\<lambda>_. add_decimal mem (v mod 40) d))) (dec a @ [46] @ dec b)"
      using appender_seq [OF appender_add_decimal
          appender_seq [OF appender_add_u8 appender_add_decimal], of mem "v div 40" 46 "v mod 40"]
      by (simp add: q)
    from lt show ?thesis
      using appender.appends_here [OF app s(2)] bound by (simp add: dots)
  qed
  then have "yields mem s [] (dots ns @ [0]) (on_ok
      (if v \<ge> 80 then on_ok (CBB_add_bytes mem [50, 46] 0 s) (\<lambda>_. add_decimal mem (v - 80) 0)
       else on_ok (add_decimal mem (v div 40) 0 s) (\<lambda>_ s.
         on_ok (CBB_add_u8 mem 46 0 s) (\<lambda>_. add_decimal mem (v mod 40) 0)))
      (\<lambda>_ s. on_ok (oid_to_text_loop mem copy s) (\<lambda>_. CBB_add_u8 mem 0 0)))" (is "yields _ _ _ _ ?run")
  proof (rule yields_seq [where f = "\<lambda>s. (if v \<ge> 80 then on_ok (CBB_add_bytes mem [50, 46] 0 s) (\<lambda>_. add_decimal mem (v - 80) 0)
       else on_ok (add_decimal mem (v div 40) 0 s) (\<lambda>_ s.
         on_ok (CBB_add_u8 mem 46 0 s) (\<lambda>_. add_decimal mem (v mod 40) 0)))"])
    fix s1 :: cbb and x :: unit assume s1: "represents s1 [] ?out1 []"
    show "yields mem s1 [] (dots ns @ [0]) (on_ok (oid_to_text_loop mem copy s1) (\<lambda>_. CBB_add_u8 mem 0 0))"
    proof (rule yields_seq)
      show "yields mem s1 [] (dots ns) (oid_to_text_loop mem copy s1)"
        using oid_to_text_loop_yields [OF s1 copy range(4), of mem] bound by (simp add: dots)
      fix s2 y assume "represents s2 [] (dots ns) []"
      from appender.appends_here [OF appender_add_u8 this, of 0 mem] bound
      show "yields mem s2 [] (dots ns @ [0]) (CBB_add_u8 mem 0 0 s2)" by simp
    qed simp
  qed (simp add: dots)
  moreover have "ready mem (length (dots ns @ [0])) (base s)"
    using mem s(3) by (simp add: ready_def)
  ultimately obtain y s' where run: "?run = (Some y, s')" and rep: "represents s' [] (dots ns @ [0]) []"
    by (cases ?run; cases "fst ?run") (auto simp: yields_def)
  obtain s'' where "CBB_finish mem 0 s' = (Some (buf (base s'), length (dots ns @ [0])), s'')"
    and "take (length (dots ns @ [0])) (buf (base s')) = dots ns @ [0]"
    using CBB_finish_represents [OF rep] by blast
  moreover have "CBS_asn1_oid_to_text mem c = map_option fst (fst (on_ok ?run (\<lambda>_. CBB_finish mem 0)))"
    by (simp add: CBS_asn1_oid_to_text_def s(1) p on_ok_assoc)
  ultimately show ?thesis by (simp add: run)
qed

end
