(* ===== verification/Libc.thy ===== *)
theory Libc
  imports Prelude "HOL-Library.Multiset"
begin

text \<open>
  The functions of the C library that the containers and the encoders call: \<open>memcmp\<close>,
  \<open>strcmp\<close> and \<open>qsort\<close>, and the contract of the comparison functions that are handed to \<open>qsort\<close>.
\<close>

text \<open>\<open>memcmp\<close>, with -1 and 1 for its negative and positive results.\<close>

fun memcmp :: "bytes \<Rightarrow> bytes \<Rightarrow> nat \<Rightarrow> int" where
  "memcmp (x # a) (y # b) (Suc n) = (if x = y then memcmp a b n else if x < y then - 1 else 1)"
| "memcmp _ _ _ = 0"

lemma memcmp_take:
  "n \<le> length a \<Longrightarrow> n \<le> length b \<Longrightarrow> memcmp a b n = memcmp (take n a) (take n b) n"
  by (induction a b n rule: memcmp.induct) auto

lemma memcmp_swap: "memcmp b a n = - memcmp a b n"
  by (induction a b n rule: memcmp.induct) auto

lemma memcmp_eq_0: "n \<le> length a \<Longrightarrow> n \<le> length b \<Longrightarrow> memcmp a b n = 0 \<longleftrightarrow> take n a = take n b"
  by (induction a b n rule: memcmp.induct) auto

text \<open>\<open>strcmp\<close> compares up to and including the first NUL.\<close>

definition strcmp :: "bytes \<Rightarrow> bytes \<Rightarrow> int" where
  "strcmp a b =
     (let s = takeWhile (\<lambda>c. c \<noteq> 0) a; t = takeWhile (\<lambda>c. c \<noteq> 0) b
      in memcmp (s @ [0]) (t @ [0]) (Suc (min (length s) (length t))))"

lemma strcmp_eq_0: "strcmp a b = 0 \<longleftrightarrow> takeWhile (\<lambda>c. c \<noteq> 0) a = takeWhile (\<lambda>c. c \<noteq> 0) b"
proof -
  have prefix: "s = t" if "take (Suc (min (length s) (length t))) (s @ [0]) = take (Suc (min (length s) (length t))) (t @ [0])"
    and "0 \<notin> set s" and "0 \<notin> set t" for s t :: bytes
  proof (cases "length s = length t")
    case False
    have no: "length u \<le> length v" if "take (Suc (length v)) (u @ [0]) = v @ [0]" "0 \<notin> set u" for u v :: bytes
    proof (rule ccontr)
      assume "\<not> length u \<le> length v"
      then have "take (Suc (length v)) u = v @ [0]" using that(1) by simp
      then have "0 \<in> set (take (Suc (length v)) u)" by simp
      with that(2) show False by (auto dest: in_set_takeD)
    qed
    from False consider "length s < length t" | "length t < length s" by linarith
    then show ?thesis
      by cases (use that no [of s t] no [of t s] in \<open>auto simp: min_def\<close>)
  qed (use that in simp)
  have zero: "0 \<notin> set (takeWhile (\<lambda>c. c \<noteq> 0) u)" for u :: bytes by (auto dest: set_takeWhileD)
  show ?thesis using prefix [OF _ zero zero, of a b] by (auto simp: strcmp_def Let_def memcmp_eq_0)
qed

text \<open>
  \<open>qsort\<close> need not be stable; the results about it below hold of any sorting permutation, since
  they only use that it permutes and sorts.
\<close>

fun qsort_insert :: "('a \<Rightarrow> 'a \<Rightarrow> int) \<Rightarrow> 'a \<Rightarrow> 'a list \<Rightarrow> 'a list" where
  "qsort_insert cmp x [] = [x]"
| "qsort_insert cmp x (y # ys) = (if cmp x y \<le> 0 then x # y # ys else y # qsort_insert cmp x ys)"

definition qsort :: "('a \<Rightarrow> 'a \<Rightarrow> int) \<Rightarrow> 'a list \<Rightarrow> 'a list" where
  "qsort cmp xs = foldr (qsort_insert cmp) xs []"

lemma mset_qsort: "mset (qsort cmp xs) = mset xs"
proof -
  have "mset (qsort_insert cmp x ys) = add_mset x (mset ys)" for x ys
    by (induction ys) auto
  then show ?thesis unfolding qsort_def by (induction xs) auto
qed

lemma set_qsort [simp]: "set (qsort cmp xs) = set xs"
  and length_qsort [simp]: "length (qsort cmp xs) = length xs"
  using mset_qsort [of cmp xs] by (auto dest: mset_eq_setD mset_eq_length)

text \<open>A comparison function that orders the elements of \<open>S\<close>.\<close>

locale comparison =
  fixes cmp :: "'a \<Rightarrow> 'a \<Rightarrow> int" and S :: "'a set"
  assumes swap: "x \<in> S \<Longrightarrow> y \<in> S \<Longrightarrow> cmp y x < 0 \<longleftrightarrow> 0 < cmp x y"
    and trans: "x \<in> S \<Longrightarrow> y \<in> S \<Longrightarrow> z \<in> S \<Longrightarrow> cmp x y \<le> 0 \<Longrightarrow> cmp y z \<le> 0 \<Longrightarrow> cmp x z \<le> 0"
begin

lemma total: "x \<in> S \<Longrightarrow> y \<in> S \<Longrightarrow> cmp x y \<le> 0 \<or> cmp y x \<le> 0"
  using swap [of x y] by linarith

lemma less_trans: "x \<in> S \<Longrightarrow> y \<in> S \<Longrightarrow> z \<in> S \<Longrightarrow> 0 < cmp x y \<Longrightarrow> cmp z y \<le> 0 \<Longrightarrow> 0 < cmp x z"
  using trans [of x z y] by force

lemma sorted_insert:
  "x \<in> S \<Longrightarrow> set ys \<subseteq> S \<Longrightarrow> sorted_wrt (\<lambda>x y. cmp x y \<le> 0) ys \<Longrightarrow>
   sorted_wrt (\<lambda>x y. cmp x y \<le> 0) (qsort_insert cmp x ys)"
proof (induction ys)
  case (Cons y ys)
  have set: "set (qsort_insert cmp x ys) = insert x (set ys)" by (induction ys) auto
  have y: "y \<in> S" "set ys \<subseteq> S" "\<forall>z \<in> set ys. cmp y z \<le> 0"
    and ys: "sorted_wrt (\<lambda>x y. cmp x y \<le> 0) ys" using Cons.prems by auto
  show ?case
  proof (cases "cmp x y \<le> 0")
    case True
    then have "\<forall>z \<in> set ys. cmp x z \<le> 0" using trans [OF Cons.prems(1) y(1)] y by blast
    with True Cons.prems(3) show ?thesis by simp
  next
    case False
    then have "cmp y x \<le> 0" using total [OF Cons.prems(1) y(1)] by simp
    with False show ?thesis using Cons.IH [OF Cons.prems(1) y(2) ys] y(3) by (simp add: set)
  qed
qed simp

lemma sorted_qsort: "set xs \<subseteq> S \<Longrightarrow> sorted_wrt (\<lambda>x y. cmp x y \<le> 0) (qsort cmp xs)"
proof (induction xs)
  case (Cons x xs)
  then have "sorted_wrt (\<lambda>x y. cmp x y \<le> 0) (qsort_insert cmp x (qsort cmp xs))"
    by (intro sorted_insert) auto
  then show ?case by (simp add: qsort_def)
qed (simp add: qsort_def)

end

lemma comparison_mono:
  assumes "comparison cmp S" and "T \<subseteq> S"
  shows "comparison cmp T"
proof
  show "cmp y x < 0 \<longleftrightarrow> 0 < cmp x y" if "x \<in> T" "y \<in> T" for x y
    using that assms(2) by (intro comparison.swap [OF assms(1)]) auto
  show "cmp x z \<le> 0" if T: "x \<in> T" "y \<in> T" "z \<in> T" and "cmp x y \<le> 0" "cmp y z \<le> 0" for x y z
    using T assms(2) by (intro comparison.trans [OF assms(1) _ _ _ that(4,5)]) auto
qed

end
