(* ===== verification/Asn1Values.thy ===== *)
theory Asn1Values
  imports Cbb Libc
begin

text \<open>
  The rest of the ASN.1 values that both \<open>cbb.c\<close> writes and \<open>cbs.c\<close> reads: signed integers
  and the contents of a SET OF, which \<open>CBB_flush_asn1_set_of\<close> puts into DER order.
\<close>

section \<open>Signed integers\<close>

text \<open>The shortest two's complement form of a 64-bit integer.\<close>

definition int_bytes :: "u64 \<Rightarrow> bytes" where
  "int_bytes v =
     (if 0 \<le> sint v then uint_bytes (unat v)
      else map (int64_byte v) (rev [0..<Suc (int64_start v 7)]))"

lemma int64_byte_nat: "int64_byte v i = of_nat (unat v div 256 ^ i)"
proof -
  have "int64_byte v i = of_nat (unat (drop_bit (8 * i) v))"
    by (simp add: int64_byte_def)
  then show ?thesis by (simp add: unat_drop_bit power_mult)
qed

lemma int64_bytes_fixed: "map (int64_byte v) (rev [0..<n]) = be_fixed n (unat v)"
  by (simp add: be_fixed_map int64_byte_nat)

lemma int64_start_le: "int64_start v k \<le> k"
  by (induction k) auto

lemma int64_start_sign: "int64_start v k < i \<Longrightarrow> i \<le> k \<Longrightarrow> int64_byte v i = 0xff"
  by (induction k) (auto simp: le_Suc_eq split: if_splits)

lemma int64_start_minimal:
  "0 < int64_start v k \<Longrightarrow>
   \<not> (int64_byte v (int64_start v k) = 0xff \<and> int64_byte v (int64_start v k - 1) AND 0x80 \<noteq> 0)"
  by (induction k) (auto split: if_splits)

lemma int64_start_top:
  "int64_byte v k AND 0x80 \<noteq> 0 \<Longrightarrow> int64_byte v (int64_start v k) AND 0x80 \<noteq> 0"
  by (induction k) (auto split: if_splits)

lemma sint_neg_top: "sint (v :: u64) < 0 \<longleftrightarrow> int64_byte v 7 AND 0x80 \<noteq> 0"
proof -
  have "sint v < 0 \<longleftrightarrow> bit v 63"
    using bit_last_iff [of v] by simp
  also have "\<dots> \<longleftrightarrow> bit (int64_byte v 7) 7"
    by (simp add: int64_byte_def bit_simps)
  also have "\<dots> \<longleftrightarrow> int64_byte v 7 AND 0x80 \<noteq> 0"
    by (simp add: bit_top_u8 and_0x80_iff not_less)
  finally show ?thesis .
qed

lemma length_int_bytes: "length (int_bytes v) \<le> 9"
  using length_uint_bytes [of "unat v"] int64_start_le [of v 7] unsigned_less [of v, where ?'a = nat]
  by (simp add: int_bytes_def)

lemma appender_int64:
  "appender mem (CBB_add_asn1_int64 mem v) (der_element CBS_ASN1_INTEGER (int_bytes v))"
proof (cases "0 \<le> sint v")
  case True
  then show ?thesis
    using appender_uint64 [of mem v] by (simp add: CBB_add_asn1_int64_def [abs_def] int_bytes_def)
next
  case False
  let ?bs = "map (int64_byte v) (rev [0..<Suc (int64_start v 7)])"
  have "length ?bs < 0xffffffff" using int64_start_le [of v 7] by simp
  from appender_asn1 [OF appender_add_u8s this, of mem CBS_ASN1_INTEGER] False
  show ?thesis
    by (simp add: CBB_add_asn1_int64_def [abs_def] int_bytes_def Let_def del: upt_Suc)
qed

interpretation add_int64: appender mem "CBB_add_asn1_int64 mem v"
    "der_element CBS_ASN1_INTEGER (int_bytes v)" for mem v
  by (rule appender_int64)

text \<open>What the reader makes of the contents of an INTEGER.\<close>

definition int64_of_contents :: "bytes \<Rightarrow> int option" where
  "int64_of_contents bs =
     (let n = length bs
      in if n = 0 \<or> n > 8 then None
         else if n > 1 \<and> bs ! 0 = 0 \<and> bs ! 1 AND 0x80 = 0 then None
         else if n > 1 \<and> bs ! 0 = 0xff \<and> bs ! 1 AND 0x80 \<noteq> 0 then None
         else Some (int64_of_bytes (rev bs @ replicate (8 - n) (if bs ! 0 AND 0x80 \<noteq> 0 then 0xff else 0))))"

lemma CBS_get_asn1_int64_contents:
  assumes "CBS_get_asn1 CBS_ASN1_INTEGER c = (Some b, c')" and wf: "cbs_wf b"
  shows "CBS_get_asn1_int64 c = (int64_of_contents (cbs_view b), c')"
proof -
  let ?bs = "cbs_view b"
  have len: "cbs_len b = length ?bs" by (simp add: wf)
  have nth: "cbs_data b ! i = ?bs ! i" if "i < length ?bs" for i
    using that by (simp add: nth_cbs_data flip: len)
  have tk: "take (length ?bs) (cbs_data b) = ?bs"
    by (simp add: cbs_view_def min_def)
  show ?thesis
  proof (cases "?bs = []")
    case True
    then show ?thesis
      by (simp add: CBS_get_asn1_int64_def assms(1) CBS_len_def len int64_of_contents_def del: length_cbs_view)
  next
    case False
    then have "cbs_data b ! 0 = ?bs ! 0" by (simp add: nth)
    moreover have "length ?bs > 1 \<Longrightarrow> cbs_data b ! 1 = ?bs ! 1" by (simp add: nth)
    ultimately show ?thesis using False
      by (cases "length ?bs > 1")
        (simp_all add: CBS_get_asn1_int64_def assms(1) CBS_len_def CBS_data_def len tk
          int64_of_contents_def Let_def del: length_cbs_view)
  qed
qed

lemma int64_of_bytes_rev: "int64_of_bytes (rev bs) = sint (of_nat (be_val bs) :: u64)"
  by (simp add: int64_of_bytes_def)

lemma int64_of_contents_int_bytes: "int64_of_contents (int_bytes v) = Some (sint v)"
proof (cases "0 \<le> sint v")
  case True
  let ?n = "unat v" and ?bs = "uint_bytes (unat v)"
  have lt: "sint v < 2 ^ 63" using sint_lt [of v] by simp
  moreover have "sint v = int ?n"
    using True lt uint_sint [of v] by (simp add: take_bit_int_eq_self)
  ultimately have "int ?n < int (2 ^ 63)" by simp
  then have n: "?n < 2 ^ 63" by (simp only: of_nat_less_iff)
  have "length ?bs \<le> 8"
  proof (rule ccontr)
    assume long: "\<not> length ?bs \<le> 8"
    then have nz: "?n \<noteq> 0" by (intro notI) (simp add: uint_bytes_def)
    have len: "length ?bs = 9" using length_uint_bytes [of ?n] n long by simp
    have "length (be_bytes ?n) \<le> 8"
    proof (rule ccontr)
      assume "\<not> length (be_bytes ?n) \<le> 8"
      then have "(256 :: nat) ^ 8 \<le> 256 ^ (length (be_bytes ?n) - 1)" by (intro power_increasing) auto
      with length_be_bytes [OF nz] n show False by simp
    qed
    with len nz obtain d ds where d: "be_bytes ?n = d # ds" "128 \<le> unat d" "length ds = 7"
      by (cases "be_bytes ?n") (auto simp: uint_bytes_def Let_def split: if_splits)
    then have "be_val (be_bytes ?n) \<ge> 128 * 256 ^ 7" by simp
    with n show False by simp
  qed
  moreover have "be_val (rev (rev ?bs @ replicate (8 - length ?bs) 0)) = ?n"
  proof -
    have z: "be_val (replicate k 0 @ bs) = be_val bs" for k bs by (induction k) simp_all
    show ?thesis by (simp add: z uint_bytes_props)
  qed
  moreover have hd: "?bs ! 0 = hd ?bs" using uint_bytes_props(1) [of ?n] by (simp add: hd_conv_nth)
  moreover have "hd ?bs AND 0x80 = 0" using uint_bytes_props(2) [of ?n] by (simp add: and_0x80_iff)
  moreover have "hd ?bs \<noteq> 0xff" using uint_bytes_props(2) [of ?n] by auto
  moreover have "\<not> (hd ?bs = 0 \<and> 1 < length ?bs \<and> ?bs ! 1 AND 0x80 = 0)"
    using uint_bytes_props(4) [of ?n] by (simp add: and_0x80_iff)
  ultimately show ?thesis
    using True uint_bytes_props(1) [of ?n]
    by (auto simp: int64_of_contents_def int_bytes_def Let_def int64_of_bytes_def)
next
  case False
  let ?st = "int64_start v 7" and ?bs = "map (int64_byte v) (rev [0..<Suc (int64_start v 7)])"
  have st: "?st \<le> 7" by (rule int64_start_le)
  have "int64_byte v 7 AND 0x80 \<noteq> 0" using False sint_neg_top [of v] by simp
  then have top: "int64_byte v ?st AND 0x80 \<noteq> 0" by (rule int64_start_top)
  have b0: "?bs ! 0 = int64_byte v ?st" by simp
  have b1: "0 < ?st \<Longrightarrow> ?bs ! 1 = int64_byte v (?st - 1)" by (simp add: rev_nth nth_append)
  have "replicate (7 - ?st) 0xff @ ?bs = map (int64_byte v) (rev [0..<8])"
  proof -
    have "rev [0..<8] = rev [Suc ?st..<8] @ rev [0..<Suc ?st]"
    proof -
      have "Suc ?st + (7 - ?st) = 8" using st by simp
      with upt_add_eq_append [of 0 "Suc ?st" "7 - ?st"] have "[0..<8] = [0..<Suc ?st] @ [Suc ?st..<8]"
        by simp
      then show ?thesis by (simp del: upt_Suc)
    qed
    moreover have "map (int64_byte v) (rev [Suc ?st..<8]) = replicate (7 - ?st) 0xff"
      using int64_start_sign [of v 7] by (intro replicate_eqI) auto
    ultimately show ?thesis by simp
  qed
  then have pad: "replicate (7 - ?st) 0xff @ ?bs = be_fixed 8 (unat v)"
    by (simp only: int64_bytes_fixed)
  have "rev ?bs @ replicate (8 - length ?bs) 0xff = rev (replicate (7 - ?st) 0xff @ ?bs)"
    by (simp del: upt_Suc)
  then have "rev ?bs @ replicate (8 - length ?bs) 0xff = rev (be_fixed 8 (unat v))"
    by (simp only: pad)
  moreover have "be_val (be_fixed 8 (unat v)) = unat v"
    using unsigned_less [of v, where ?'a = nat] by (simp add: be_val_be_fixed del: be_fixed.simps)
  moreover have "?bs ! 0 \<noteq> 0" using top b0 by auto
  moreover have "1 < length ?bs \<Longrightarrow> \<not> (?bs ! 0 = 0xff \<and> ?bs ! 1 AND 0x80 \<noteq> 0)"
    using int64_start_minimal [of v 7] b0 b1 by (simp del: upt_Suc)
  ultimately show ?thesis
    using False top st b0
    by (cases "?st = 0")
      (simp_all add: int64_of_contents_def int_bytes_def Let_def int64_of_bytes_rev del: upt_Suc)
qed


section \<open>The contents of a SET OF\<close>

lemma element_progress:
  assumes "cbs_get_any_asn1_element ber_ok c = (Some e, c')"
  shows "cbs_len c' < cbs_len c"
proof -
  obtain tag h b h' where h: "parse_asn1_tag c = (Some tag, h)" "CBS_get_u8 h = (Some b, h')"
    and l: "asn1_element_length ber_ok c tag h' (CBS_len c - CBS_len h') b = (Some e, c')"
    using assms by (auto simp: cbs_get_any_asn1_element_def split: prod.split_asm option.split_asm)
  from h have "cbs_len h' < cbs_len c" by (auto dest!: asn1_tag.progress get_u8.progress)
  then have "\<exists>n \<ge> CBS_len c - CBS_len h'. \<exists>out. CBS_get_bytes n c = (Some out, c')"
    using l by (auto simp: asn1_element_length_def Let_def on_ok_Some
        split: if_split_asm prod.split_asm option.split_asm intro: le_add2 order_trans [OF le_add1 le_add2])
  with \<open>cbs_len h' < cbs_len c\<close> show ?thesis
    by (auto simp: CBS_get_bytes_advance CBS_len_def split: if_split_asm)
qed

interpretation any_asn1_element: progressing_reader "rel_prod same (=)" CBS_get_any_asn1_element
  by (intro progressing_reader.intro reader_CBS_get_any_asn1_element progressing_reader_axioms.intro)
    (auto simp: CBS_get_any_asn1_element_def dest: element_progress)

definition compare_set_of_element :: "cbs \<Rightarrow> cbs \<Rightarrow> int" where
  "compare_set_of_element a b =
     (let a_len = CBS_len a; b_len = CBS_len b;
          min_len = (if a_len < b_len then a_len else b_len);
          ret = memcmp (CBS_data a) (CBS_data b) min_len
      in if ret \<noteq> 0 then ret
         else if a_len = b_len then 0
         else if a_len < b_len then - 1 else 1)"

function count_elements :: "cbs \<Rightarrow> nat option" where
  "count_elements c =
     (if CBS_len c \<noteq> 0 then
        case CBS_get_any_asn1_element c of
          (None, _) \<Rightarrow> None
        | (Some _, c') \<Rightarrow> map_option Suc (count_elements c')
      else Some 0)"
  by pat_completeness auto
termination
  by (relation "measure cbs_len") (auto dest!: any_asn1_element.progress [OF sym])

declare count_elements.simps [simp del]

fun get_elements :: "nat \<Rightarrow> cbs \<Rightarrow> cbs list option" where
  "get_elements 0 c = Some []"
| "get_elements (Suc n) c =
     (case CBS_get_any_asn1_element c of
        (None, _) \<Rightarrow> None
      | (Some (child, _, _), c') \<Rightarrow> map_option (Cons child) (get_elements n c'))"

fun add_elements :: "alloc \<Rightarrow> cbs list \<Rightarrow> nat \<Rightarrow> cbb \<Rightarrow> unit option \<times> cbb" where
  "add_elements mem [] d s = (Some (), s)"
| "add_elements mem (c # cs) d s =
     on_ok (CBB_add_bytes mem (take (CBS_len c) (CBS_data c)) d s) (\<lambda>_. add_elements mem cs d)"

definition CBB_flush_asn1_set_of :: "alloc \<Rightarrow> nat \<Rightarrow> cbb \<Rightarrow> unit option \<times> cbb" where
  "CBB_flush_asn1_set_of mem d s =
     on_ok (CBB_flush mem d s) (\<lambda>_ s.
       let data = CBB_data d s; n = CBB_len d s
       in case count_elements (CBS_init data n) of
          None \<Rightarrow> (None, s)
        | Some num_children \<Rightarrow>
            if num_children < 2 then (Some (), s)
            else if num_children > (2 ^ 64 - 1) div 16 then (None, s)
            else
              (case (OPENSSL_memdup mem data n, OPENSSL_malloc mem (num_children * 16)) of
                 (Some b, Some _) \<Rightarrow>
                   (case get_elements num_children (CBS_init b n) of
                      None \<Rightarrow> (None, s)
                    | Some children \<Rightarrow>
                        add_elements mem (qsort compare_set_of_element children) d
                          (s\<lparr>base := (base s)\<lparr>buf_len := cbb_start d s\<rparr>\<rparr>))
               | _ \<Rightarrow> (None, s)))"

text \<open>The order of X.690, section 11.6: ascending, a prefix before what extends it.\<close>

fun der_le :: "bytes \<Rightarrow> bytes \<Rightarrow> bool" where
  "der_le [] b \<longleftrightarrow> True"
| "der_le (x # a) [] \<longleftrightarrow> False"
| "der_le (x # a) (y # b) \<longleftrightarrow> x < y \<or> x = y \<and> der_le a b"

lemma der_le_total: "der_le a b \<or> der_le b a"
  by (induction a b rule: der_le.induct) auto

lemma der_le_trans: "der_le a b \<Longrightarrow> der_le b c \<Longrightarrow> der_le a c"
proof (induction a b arbitrary: c rule: der_le.induct)
  case (3 x a y b)
  then show ?case by (cases c) auto
qed auto

lemma memcmp_der_le:
  "(let n = min (length a) (length b); r = memcmp a b n
    in if r \<noteq> 0 then r else if length a = length b then 0 else if length a < length b then - 1 else 1) \<le> (0 :: int)
   \<longleftrightarrow> der_le a b"
proof (induction a b rule: der_le.induct)
  case (3 x a y b)
  then show ?case by (auto simp: Let_def split: if_splits)
qed auto

lemma compare_der_le:
  assumes "cbs_wf a" and "cbs_wf b"
  shows "compare_set_of_element a b \<le> 0 \<longleftrightarrow> der_le (cbs_view a) (cbs_view b)"
proof -
  let ?m = "min (cbs_len a) (cbs_len b)"
  have m: "(if cbs_len a < cbs_len b then cbs_len a else cbs_len b) = ?m" by auto
  have "memcmp (cbs_data a) (cbs_data b) ?m = memcmp (cbs_view a) (cbs_view b) ?m"
    using assms memcmp_take [of ?m "cbs_data a" "cbs_data b"] memcmp_take [of ?m "cbs_view a" "cbs_view b"]
    by (simp add: cbs_wf_def take_cbs_data)
  then show ?thesis
    using memcmp_der_le [of "cbs_view a" "cbs_view b"] assms
    by (simp only: compare_set_of_element_def CBS_len_def CBS_data_def m Let_def length_cbs_view)
qed


definition der_elements :: "bytes list \<Rightarrow> bool" where
  "der_elements els \<longleftrightarrow>
     (\<forall>e \<in> set els. \<exists>tag body. e = der_element tag body \<and> length body < 2 ^ 32)"

lemma der_element_get:
  assumes "cbs_wf c" and "cbs_view c = e @ rest" and "der_elements (e # els)"
  obtains out x where "CBS_get_any_asn1_element c = (Some (out, x), advance (length e) c)"
    and "cbs_wf out" and "cbs_view out = e" and "0 < length e"
proof -
  obtain tag body where e: "e = der_element tag body" "length body < 2 ^ 32"
    using assms(3) by (auto simp: der_elements_def)
  then have "0 < length e"
    using length_der_tag [of tag] by (simp add: der_element_def der_header_def)
  with e show thesis
    using any_asn1_element_der [OF assms(1) _ e(2), of tag rest False] assms(2) that
    by (metis CBS_get_any_asn1_element_def)
qed

lemma count_elements_concat:
  "cbs_wf c \<Longrightarrow> cbs_view c = concat els \<Longrightarrow> der_elements els \<Longrightarrow> count_elements c = Some (length els)"
proof (induction els arbitrary: c)
  case Nil
  then have "CBS_len c = 0" using length_cbs_view [of c] by (simp add: CBS_len_def)
  then show ?case by (simp add: count_elements.simps)
next
  case (Cons e els)
  then obtain out x where out: "CBS_get_any_asn1_element c = (Some (out, x), advance (length e) c)" "0 < length e"
  proof -
    have "cbs_view c = e @ concat els" using Cons.prems(2) by simp
    from der_element_get [OF Cons.prems(1) this Cons.prems(3)] show thesis using that by blast
  qed
  have "CBS_len c = length e + length (concat els)"
    using Cons.prems(2) length_cbs_view [OF Cons.prems(1)] by (simp add: CBS_len_def)
  then have "CBS_len c \<noteq> 0" using out(2) by linarith
  moreover have "count_elements (advance (length e) c) = Some (length els)"
    using Cons.prems by (intro Cons.IH) (simp_all add: cbs_wf_advance der_elements_def)
  ultimately show ?case by (simp add: count_elements.simps [of c] out(1))
qed

lemma get_elements_concat:
  "cbs_wf c \<Longrightarrow> cbs_view c = concat els \<Longrightarrow> der_elements els \<Longrightarrow>
   \<exists>cs. get_elements (length els) c = Some cs \<and> map cbs_view cs = els \<and> (\<forall>c \<in> set cs. cbs_wf c)"
proof (induction els arbitrary: c)
  case (Cons e els)
  then obtain out x where out: "CBS_get_any_asn1_element c = (Some (out, x), advance (length e) c)"
    "cbs_wf out" "cbs_view out = e"
  proof -
    have "cbs_view c = e @ concat els" using Cons.prems(2) by simp
    from der_element_get [OF Cons.prems(1) this Cons.prems(3)] show thesis using that by blast
  qed
  obtain cs where cs: "get_elements (length els) (advance (length e) c) = Some cs" "map cbs_view cs = els"
    "\<forall>c \<in> set cs. cbs_wf c"
    using Cons.IH [of "advance (length e) c"] Cons.prems by (auto simp: cbs_wf_advance der_elements_def)
  obtain a b where "x = (a, b)" by fastforce
  with out cs show ?case by simp
qed simp

text \<open>The comparison function orders the parsers that lie in their bytes.\<close>

lemma compare_set_of_swap: "compare_set_of_element b a = - compare_set_of_element a b"
proof -
  let ?m = "if CBS_len a < CBS_len b then CBS_len a else CBS_len b"
  have "(if CBS_len b < CBS_len a then CBS_len b else CBS_len a) = ?m" by auto
  then show ?thesis
    using memcmp_swap [of "CBS_data a" "CBS_data b" ?m] unfolding compare_set_of_element_def Let_def by auto
qed

interpretation set_of: comparison compare_set_of_element "Collect cbs_wf"
proof
  fix x y z
  show "compare_set_of_element y x < 0 \<longleftrightarrow> 0 < compare_set_of_element x y"
    using compare_set_of_swap [of y x] by simp
  assume "x \<in> Collect cbs_wf" "y \<in> Collect cbs_wf" "z \<in> Collect cbs_wf"
    "compare_set_of_element x y \<le> 0" "compare_set_of_element y z \<le> 0"
  then show "compare_set_of_element x z \<le> 0"
    using der_le_trans [of "cbs_view x" "cbs_view y" "cbs_view z"] by (simp add: compare_der_le)
qed

lemma sorted_set_of:
  assumes "\<forall>c \<in> set cs. cbs_wf c"
  shows "sorted_wrt der_le (map cbs_view (qsort compare_set_of_element cs))"
proof -
  have "sorted_wrt (\<lambda>x y. compare_set_of_element x y \<le> 0) (qsort compare_set_of_element cs)"
    using assms by (intro set_of.sorted_qsort) auto
  then show ?thesis
    unfolding sorted_wrt_map by (rule sorted_wrt_mono_rel [rotated]) (use assms in \<open>simp add: compare_der_le\<close>)
qed

lemma add_elements_yields:
  "represents s cs root [] \<Longrightarrow> \<forall>c \<in> set es. cbs_wf c \<Longrightarrow>
   length (root @ concat (map cbs_view es)) \<le> 2 ^ 62 \<Longrightarrow>
   yields mem s cs (root @ concat (map cbs_view es)) (add_elements mem es (length cs) s)"
proof (induction es arbitrary: s root)
  case Nil
  then show ?case by (simp add: yields_def)
next
  case (Cons e es)
  have v: "take (CBS_len e) (CBS_data e) = cbs_view e"
    by (simp add: CBS_len_def CBS_data_def cbs_view_def)
  show ?case unfolding add_elements.simps v
  proof (rule yields_seq)
    show "yields mem s cs (root @ cbs_view e) (CBB_add_bytes mem (cbs_view e) (length cs) s)"
      using appender.appends_here [OF appender_add_bytes Cons.prems(1)] Cons.prems(3) by simp
    fix s' x assume "represents s' cs (root @ cbs_view e) []"
    from Cons.IH [OF this] Cons.prems
    show "yields mem s' cs (root @ concat (map cbs_view (e # es))) (add_elements mem es (length cs) s')"
      by simp
  qed simp
qed

lemma length_elements: "der_elements els \<Longrightarrow> length els \<le> length (concat els)"
proof (induction els)
  case (Cons e els)
  then obtain tag body where "e = der_element tag body" by (auto simp: der_elements_def)
  then have "1 \<le> length e"
    using length_der_tag [of tag] by (simp add: der_element_def der_header_def Suc_le_eq)
  moreover have "length els \<le> length (concat els)"
    using Cons by (auto simp: der_elements_def)
  ultimately have "1 + length els \<le> length e + length (concat els)" by (rule add_le_mono)
  then show ?case by simp
qed simp


text \<open>\<open>CBB_flush_asn1_set_of\<close> puts the elements in ascending order.\<close>

lemma flush_set_of_sorts:
  assumes mem: "\<forall>k. mem k \<noteq> None" and rep: "represents s cs (pre @ concat els) []"
    and els: "der_elements els" and start: "cbb_start (length cs) s = length pre"
    and bound: "length (pre @ concat els) < 2 ^ 60"
  shows "\<exists>els' s'. CBB_flush_asn1_set_of mem (length cs) s = (Some (), s') \<and>
    represents s' cs (pre @ concat els') [] \<and> mset els' = mset els \<and> sorted_wrt der_le els'"
proof -
  let ?d = "length cs" and ?b = "base s" and ?n = "length (concat els)"
  have ok: "buffer_ok ?b" and ch: "chain s = cs" and w: "written ?b = pre @ concat els"
    using rep by (simp_all add: represents_def)
  then have len: "buf_len ?b = length pre + ?n" and tk: "take (length pre + ?n) (buf ?b) = pre @ concat els"
    using written_eq [OF ok] by simp_all
  let ?c = "CBS_init (CBB_data ?d s) (CBB_len ?d s)"
  have n: "CBB_len ?d s = ?n" by (simp add: CBB_len_def start len)
  have data: "take ?n (CBB_data ?d s) = concat els"
    using tk by (simp add: CBB_data_def start take_drop add.commute)
  have c: "cbs_wf ?c" "cbs_view ?c = concat els"
    using data ok len
    by (simp_all add: cbs_wf_def cbs_view_def CBS_init_def n CBB_data_def start buffer_ok_def le_diff_conv2)
  have count: "count_elements ?c = Some (length els)" by (rule count_elements_concat [OF c els])
  have le: "length els \<le> ?n" by (rule length_elements [OF els])
  show ?thesis
  proof (cases "length els < 2")
    case True
    then have "sorted_wrt der_le els" by (cases els; cases "tl els") auto
    moreover have "CBB_flush_asn1_set_of mem ?d s = (Some (), s)"
      using True by (simp add: CBB_flush_asn1_set_of_def flush_nothing [OF rep] count Let_def)
    ultimately show ?thesis using rep by blast
  next
    case False
    have malloc: "OPENSSL_malloc mem k \<noteq> None" for k
      using mem [rule_format, of "size_add k OPENSSL_MALLOC_PREFIX"]
      by (auto simp: ossl_malloc_def Let_def)
    have nz: "?n \<noteq> 0" using False le by linarith
    obtain m where m: "OPENSSL_malloc mem ?n = Some m" using malloc by blast
    have "OPENSSL_memdup mem (CBB_data ?d s) ?n = Some (blit m 0 (take ?n (CBB_data ?d s)))"
      unfolding OPENSSL_memdup_def if_not_P [OF nz] m option.case ..
    then obtain b where b: "OPENSSL_memdup mem (CBB_data ?d s) ?n = Some b"
      by blast
    have "?n \<le> length (CBB_data ?d s)"
      using ok len by (simp add: CBB_data_def start buffer_ok_def le_diff_conv2)
    then have "b = concat els"
      using OPENSSL_memdup_eq [OF b] bound data by simp
    then obtain es where es: "get_elements (length els) (CBS_init b ?n) = Some es"
      "map cbs_view es = els" "\<forall>e \<in> set es. cbs_wf e"
      using get_elements_concat [OF _ _ els, of "CBS_init b ?n"] by auto
    let ?q = "qsort compare_set_of_element es" and ?s = "s\<lparr>base := ?b\<lparr>buf_len := cbb_start ?d s\<rparr>\<rparr>"
    obtain children where m2: "OPENSSL_malloc mem (length els * 16) = Some children"
      using malloc by blast
    have max: "\<not> length els > (2 ^ 64 - 1) div 16" using le bound by simp
    have run: "CBB_flush_asn1_set_of mem ?d s = add_elements mem ?q ?d ?s"
      unfolding CBB_flush_asn1_set_of_def flush_nothing [OF rep] on_ok.simps Let_def n count [unfolded n]
        option.case if_not_P [OF False] if_not_P [OF max] b m2 prod.case es(1) ..
    have sub: "represents ?s cs pre []"
      using ok len tk ch by (auto simp: represents_def buffer_ok_def written_def start
          dest: arg_cong [where f = "take (length pre)"] simp: min_def)
    have sorted: "sorted_wrt der_le (map cbs_view ?q)"
      using es(3) by (intro sorted_set_of)
    have ms: "mset (map cbs_view ?q) = mset els"
      unfolding mset_map mset_qsort by (simp only: es(2) flip: mset_map)
    have "sum_list (map length xs) = sum_mset (image_mset length (mset xs))" for xs :: "bytes list"
      by (simp add: sum_mset_sum_list flip: mset_map)
    then have "length (concat (map cbs_view ?q)) = ?n"
      unfolding length_concat by (simp only: ms)
    then have "length (pre @ concat (map cbs_view ?q)) \<le> 2 ^ 62"
      and len': "length (pre @ concat (map cbs_view ?q)) = length pre + ?n" using bound by simp_all
    moreover have "\<forall>e \<in> set ?q. cbs_wf e"
      using es(3) by simp
    ultimately have "yields mem ?s cs (pre @ concat (map cbs_view ?q)) (add_elements mem ?q ?d ?s)"
      by (intro add_elements_yields [OF sub])
    moreover have "ready mem (length pre + ?n) (base ?s)"
      using ok len by (simp add: ready_def buffer_ok_def)
    ultimately obtain s' where "add_elements mem ?q ?d ?s = (Some (), s')"
      and "represents s' cs (pre @ concat (map cbs_view ?q)) []"
      unfolding yields_def len' by (auto split: prod.split_asm option.split_asm)
    with run ms sorted show ?thesis by auto
  qed
qed

end
