(* ===== verification/Unicode.thy ===== *)
theory Unicode
  imports Cbb
begin

text \<open>
  \<open>crypto/bytestring/unicode.c\<close> of BoringSSL: reading and writing a code point as UTF-8,
  Latin-1, UCS-2 and UTF-32. The UTF-8 reader is proved to accept exactly the shortest
  encodings of the valid code points, which are what the writer produces.
\<close>

section \<open>The functions\<close>

definition is_valid_code_point :: "u32 \<Rightarrow> bool" where
  "is_valid_code_point v \<longleftrightarrow>
     \<not> (v > 0x10ffff \<or> v AND 0xfffe = 0xfffe \<or> (v \<ge> 0xfdd0 \<and> v \<le> 0xfdef) \<or>
        (v \<ge> 0xd800 \<and> v \<le> 0xdfff))"

definition BOTTOM_BITS :: "nat \<Rightarrow> u8" where
  "BOTTOM_BITS n = ucast ((push_bit n 1 :: u32) - 1)"

definition TOP_BITS :: "nat \<Rightarrow> u8" where
  "TOP_BITS n = NOT (BOTTOM_BITS (8 - n))"

fun utf8_tail :: "nat \<Rightarrow> u32 \<Rightarrow> u32 reader" where
  "utf8_tail 0 v c = (Some v, c)"
| "utf8_tail (Suc n) v c =
     on_ok (CBS_get_u8 c) (\<lambda>b c'.
       if b AND TOP_BITS 2 \<noteq> TOP_BITS 1 then (None, c')
       else utf8_tail n (push_bit 6 v OR ucast (b AND BOTTOM_BITS 6)) c')"

definition cbs_get_utf8 :: "u32 reader" where
  "cbs_get_utf8 c =
     on_ok (CBS_get_u8 c) (\<lambda>b c1.
       if b \<le> 0x7f then (Some (ucast b), c1)
       else
         case (if b AND TOP_BITS 3 = TOP_BITS 2 then Some (b AND BOTTOM_BITS 5, 1, 0x80)
               else if b AND TOP_BITS 4 = TOP_BITS 3 then Some (b AND BOTTOM_BITS 4, 2, 0x800)
               else if b AND TOP_BITS 5 = TOP_BITS 4 then Some (b AND BOTTOM_BITS 3, 3, 0x10000)
               else None)
         of None \<Rightarrow> (None, c1)
          | Some (v, n, lower_bound) \<Rightarrow>
              on_ok (utf8_tail n (ucast v) c1) (\<lambda>v c2.
                if \<not> is_valid_code_point v \<or> v < lower_bound then (None, c2) else (Some v, c2)))"

definition cbs_get_latin1 :: "u32 reader" where
  "cbs_get_latin1 c = on_ok (CBS_get_u8 c) (\<lambda>b c'. (Some (ucast b), c'))"

definition cbs_get_ucs2_be :: "u32 reader" where
  "cbs_get_ucs2_be c =
     on_ok (CBS_get_u16 c) (\<lambda>v c'.
       if \<not> is_valid_code_point (ucast v) then (None, c') else (Some (ucast v), c'))"

definition cbs_get_utf32_be :: "u32 reader" where
  "cbs_get_utf32_be c =
     on_ok (CBS_get_u32 c) (\<lambda>v c'. if is_valid_code_point v then (Some v, c') else (None, c'))"

definition cbb_get_utf8_len :: "u32 \<Rightarrow> nat" where
  "cbb_get_utf8_len u = (if u \<le> 0x7f then 1 else if u \<le> 0x7ff then 2 else if u \<le> 0xffff then 3 else 4)"

definition cbb_add_utf8 :: "alloc \<Rightarrow> u32 \<Rightarrow> nat \<Rightarrow> cbb \<Rightarrow> unit option \<times> cbb" where
  "cbb_add_utf8 mem u d s =
     (if \<not> is_valid_code_point u then (None, s)
      else if u \<le> 0x7f then CBB_add_u8 mem (ucast u) d s
      else if u \<le> 0x7ff then
        on_ok (CBB_add_u8 mem (TOP_BITS 2 OR ucast (drop_bit 6 u)) d s) (\<lambda>_.
          CBB_add_u8 mem (TOP_BITS 1 OR (ucast u AND BOTTOM_BITS 6)) d)
      else if u \<le> 0xffff then
        on_ok (CBB_add_u8 mem (TOP_BITS 3 OR ucast (drop_bit 12 u)) d s) (\<lambda>_ s.
          on_ok (CBB_add_u8 mem (TOP_BITS 1 OR (ucast (drop_bit 6 u) AND BOTTOM_BITS 6)) d s) (\<lambda>_.
            CBB_add_u8 mem (TOP_BITS 1 OR (ucast u AND BOTTOM_BITS 6)) d))
      else if u \<le> 0x10ffff then
        on_ok (CBB_add_u8 mem (TOP_BITS 4 OR ucast (drop_bit 18 u)) d s) (\<lambda>_ s.
          on_ok (CBB_add_u8 mem (TOP_BITS 1 OR (ucast (drop_bit 12 u) AND BOTTOM_BITS 6)) d s) (\<lambda>_ s.
            on_ok (CBB_add_u8 mem (TOP_BITS 1 OR (ucast (drop_bit 6 u) AND BOTTOM_BITS 6)) d s) (\<lambda>_.
              CBB_add_u8 mem (TOP_BITS 1 OR (ucast u AND BOTTOM_BITS 6)) d)))
      else (None, s))"

definition cbb_add_latin1 :: "alloc \<Rightarrow> u32 \<Rightarrow> nat \<Rightarrow> cbb \<Rightarrow> unit option \<times> cbb" where
  "cbb_add_latin1 mem u d s = (if u \<le> 0xff then CBB_add_u8 mem (ucast u) d s else (None, s))"

definition cbb_add_ucs2_be :: "alloc \<Rightarrow> u32 \<Rightarrow> nat \<Rightarrow> cbb \<Rightarrow> unit option \<times> cbb" where
  "cbb_add_ucs2_be mem u d s =
     (if u \<le> 0xffff \<and> is_valid_code_point u then CBB_add_u16 mem (ucast u) d s else (None, s))"

definition cbb_add_utf32_be :: "alloc \<Rightarrow> u32 \<Rightarrow> nat \<Rightarrow> cbb \<Rightarrow> unit option \<times> cbb" where
  "cbb_add_utf32_be mem u d s =
     (if is_valid_code_point u then CBB_add_u32 mem u d s else (None, s))"

section \<open>UTF-8 as arithmetic\<close>

definition utf8 :: "nat \<Rightarrow> bytes" where
  "utf8 n = map of_nat
     (if n < 0x80 then [n]
      else if n < 0x800 then [192 + n div 64, 128 + n mod 64]
      else if n < 0x10000 then [224 + n div 4096, 128 + n div 64 mod 64, 128 + n mod 64]
      else [240 + n div 262144, 128 + n div 4096 mod 64, 128 + n div 64 mod 64, 128 + n mod 64])"

lemma BOTTOM_BITS_mask: "n \<le> 8 \<Longrightarrow> BOTTOM_BITS n = mask n"
proof -
  assume "n \<le> 8"
  have "push_bit n 1 - 1 = (mask n :: u32)" by (simp add: mask_eq_exp_minus_1 push_bit_eq_mult)
  with \<open>n \<le> 8\<close> show ?thesis
    unfolding BOTTOM_BITS_def by (intro bit_word_eqI) (auto simp: bit_simps)
qed

lemma unat_and_top: "n \<le> 8 \<Longrightarrow> unat ((b :: u8) AND TOP_BITS n) = unat b div 2 ^ (8 - n) * 2 ^ (8 - n)"
proof -
  have "b AND NOT (mask (8 - n)) = push_bit (8 - n) (drop_bit (8 - n) b)"
    by (rule bit_word_eqI) (auto simp: bit_simps)
  moreover have "unat b div 2 ^ (8 - n) * 2 ^ (8 - n) < 256"
    using unat_8_less [of b] by (metis div_times_less_eq_dividend le_less_trans)
  moreover have "unat (push_bit (8 - n) (drop_bit (8 - n) b)) = take_bit 8 (push_bit (8 - n) (unat b div 2 ^ (8 - n)))"
    by (subst unsigned_push_bit_eq) (simp add: unat_drop_bit)
  ultimately show ?thesis
    by (simp add: TOP_BITS_def BOTTOM_BITS_mask push_bit_eq_mult take_bit_nat_eq_self)
qed

lemma TOP_BITS_unat: "unat (TOP_BITS (Suc 0)) = 128" "unat (TOP_BITS 2) = 192" "unat (TOP_BITS 3) = 224"
  "unat (TOP_BITS 4) = 240"
  by (simp_all add: TOP_BITS_def BOTTOM_BITS_mask mask_eq_exp_minus_1)

lemma top_bits_iff:
  "b AND TOP_BITS 2 = TOP_BITS (Suc 0) \<longleftrightarrow> unat b div 64 = 2"
  "b AND TOP_BITS 3 = TOP_BITS 2 \<longleftrightarrow> unat b div 32 = 6"
  "b AND TOP_BITS 4 = TOP_BITS 3 \<longleftrightarrow> unat b div 16 = 14"
  "b AND TOP_BITS 5 = TOP_BITS 4 \<longleftrightarrow> unat b div 8 = 30"
  by (simp_all add: word_unat_eq_iff unat_and_top TOP_BITS_unat)

lemma unat_and_bottom: "n \<le> 8 \<Longrightarrow> unat ((b :: u8) AND BOTTOM_BITS n) = unat b mod 2 ^ n"
  by (simp add: BOTTOM_BITS_mask unat_and_mask)

lemma utf8_tail_iff:
  assumes "cbs_wf c" and "Suc (unat v) * 64 ^ n \<le> 2 ^ 26"
  shows "utf8_tail n v c = (Some w, c') \<longleftrightarrow>
    (\<exists>bs. length bs = n \<and> (\<forall>b \<in> set bs. unat b div 64 = 2) \<and> cbs_view c = bs @ cbs_view c' \<and>
      c' = advance n c \<and> unat w = foldl (\<lambda>a b. a * 64 + unat b mod 64) (unat v) bs)"
  using assms
proof (induction n arbitrary: c v)
  case 0
  then show ?case by (auto simp: word_unat_eq_iff)
next
  case (Suc n)
  show ?case
  proof (cases "cbs_view c")
    case Nil
    then show ?thesis by (auto simp: CBS_get_u8_eq [OF Suc.prems(1)])
  next
    case (Cons b rest)
    let ?c = "advance (Suc 0) c" and ?v = "push_bit 6 v OR ucast (b AND BOTTOM_BITS 6)"
    have "Suc (unat v) * 64 ^ 1 \<le> Suc (unat v) * 64 ^ Suc n"
      by (intro mult_le_mono2 power_increasing) auto
    then have small: "unat v < 2 ^ 20" using Suc.prems(2) by simp
    have v: "unat ?v = unat v * 64 + unat b mod 64"
      using small unat_and_bottom [of 6 b]
      by (subst unat_push_bit_or) (simp_all add: unat_ucast_up)
    have "Suc (unat ?v) * 64 ^ n \<le> (Suc (unat v) * 64) * 64 ^ n"
      unfolding v by (intro mult_le_mono1) simp
    also have "\<dots> = Suc (unat v) * 64 ^ Suc n" by (simp add: algebra_simps)
    also note Suc.prems(2)
    finally have bound: "Suc (unat ?v) * 64 ^ n \<le> 2 ^ 26" .
    have u8: "CBS_get_u8 c = (Some b, ?c)" by (simp add: CBS_get_u8_eq [OF Suc.prems(1)] Cons)
    have IH: "utf8_tail n ?v ?c = (Some w, c') \<longleftrightarrow>
      (\<exists>bs. length bs = n \<and> (\<forall>b \<in> set bs. unat b div 64 = 2) \<and> rest = bs @ cbs_view c' \<and>
        c' = advance (Suc n) c \<and> unat w = foldl (\<lambda>a b. a * 64 + unat b mod 64) (unat ?v) bs)"
      using Suc.IH [OF cbs_wf_advance [OF Suc.prems(1)] bound] by (simp add: Cons)
    show ?thesis
    proof
      assume "utf8_tail (Suc n) v c = (Some w, c')"
      then have "unat b div 64 = 2" "utf8_tail n ?v ?c = (Some w, c')"
        by (auto simp: u8 top_bits_iff split: if_splits)
      with IH obtain bs where "length bs = n" "\<forall>b \<in> set bs. unat b div 64 = 2" "rest = bs @ cbs_view c'"
        "c' = advance (Suc n) c" "unat w = foldl (\<lambda>a b. a * 64 + unat b mod 64) (unat ?v) bs" by blast
      then show "\<exists>bs. length bs = Suc n \<and> (\<forall>b \<in> set bs. unat b div 64 = 2) \<and> cbs_view c = bs @ cbs_view c' \<and>
          c' = advance (Suc n) c \<and> unat w = foldl (\<lambda>a b. a * 64 + unat b mod 64) (unat v) bs"
        using \<open>unat b div 64 = 2\<close> v Cons by (intro exI [of _ "b # bs"]) simp
    next
      assume "\<exists>bs. length bs = Suc n \<and> (\<forall>b \<in> set bs. unat b div 64 = 2) \<and> cbs_view c = bs @ cbs_view c' \<and>
          c' = advance (Suc n) c \<and> unat w = foldl (\<lambda>a b. a * 64 + unat b mod 64) (unat v) bs"
      then obtain bs where bs: "length (b # bs) = Suc n" "\<forall>b \<in> set (b # bs). unat b div 64 = 2"
        "rest = bs @ cbs_view c'" "c' = advance (Suc n) c"
        "unat w = foldl (\<lambda>a b. a * 64 + unat b mod 64) (unat v) (b # bs)"
        by (auto simp: Cons length_Suc_conv)
      with v have "utf8_tail n ?v ?c = (Some w, c')"
        unfolding IH by (intro exI [of _ bs]) simp
      with bs(2) show "utf8_tail (Suc n) v c = (Some w, c')"
        by (simp add: u8 top_bits_iff)
    qed
  qed
qed


lemma valid_less: "is_valid_code_point u \<Longrightarrow> unat u < 0x110000"
  by (simp add: is_valid_code_point_def word_less_nat_alt)

lemma of_nat_eq_byte: "of_nat n = (b :: u8) \<longleftrightarrow> n mod 256 = unat b"
  by (simp add: word_unat_eq_iff unat_of_nat take_bit_eq_mod)

text \<open>The two longer forms, as the bytes that follow the first one.\<close>

lemma utf8_lead:
  assumes b: "b = of_nat (k + v0)" and kv: "(n, k, m) \<in> {(1, 192, 32), (2, 224, 16), (3, 240, 8)}"
    and v0: "v0 < m" and c: "cbs_wf c" and view: "cbs_view c = b # bs @ rest"
    and len: "length bs = n" and cont: "\<forall>b \<in> set bs. unat b div 64 = 2"
    and u: "unat u = foldl (\<lambda>a b. a * 64 + unat b mod 64) v0 bs"
    and valid: "is_valid_code_point u" and low: "[0x80, 0x800, 0x10000] ! (n - 1) \<le> u"
  shows "cbs_get_utf8 c = (Some u, advance (Suc n) c)"
proof -
  let ?c = "advance (Suc 0) c"
  have kv': "k + v0 < 256" using kv v0 by auto
  then have ub: "unat b = k + v0" unfolding b by (rule unat_of_nat_u8)
  have u8: "CBS_get_u8 c = (Some b, ?c)" by (simp add: CBS_get_u8_eq [OF c] view)
  have tail: "utf8_tail n (of_nat v0) ?c = (Some u, advance (Suc n) c)"
  proof -
    have v: "unat (of_nat v0 :: u32) = v0" using kv v0 by (auto simp: unat_of_nat take_bit_nat_eq_self)
    then have "Suc (unat (of_nat v0 :: u32)) * 64 ^ n \<le> 2 ^ 26" using kv v0 by auto
    from utf8_tail_iff [OF cbs_wf_advance [OF c, of "Suc 0"] this, where w = u and c' = "advance (Suc n) c"] show ?thesis
      using len cont u view v by auto
  qed
  have lead: "ucast (b AND BOTTOM_BITS j) = (of_nat v0 :: u32)" if "2 ^ j = m" "j \<le> 8" for j
  proof -
    have "unat (b AND BOTTOM_BITS j) = v0"
      using that kv v0 mod_mult_self3 [of 6 32 v0] mod_mult_self3 [of 14 16 v0] mod_mult_self3 [of 30 8 v0]
      by (auto simp: unat_and_bottom ub)
    then show ?thesis by (metis of_nat_unat)
  qed
  have not7: "\<not> b \<le> 0x7f" using kv ub by (auto simp: word_le_nat_alt)
  have ge: "\<not> u < [0x80, 0x800, 0x10000] ! (n - 1)" using low by simp
  from kv consider "n = 1" "k = 192" "m = 32" | "n = 2" "k = 224" "m = 16" | "n = 3" "k = 240" "m = 8"
    by auto
  then show ?thesis
  proof cases
    case 1
    then have "b AND TOP_BITS 3 = TOP_BITS 2" using v0 ub by (simp add: top_bits_iff)
    with 1 lead [of 5] tail valid ge not7 show ?thesis by (simp add: cbs_get_utf8_def u8)
  next
    case 2
    then have "b AND TOP_BITS 3 \<noteq> TOP_BITS 2" "b AND TOP_BITS 4 = TOP_BITS 3"
      using v0 ub by (simp_all add: top_bits_iff)
    moreover have "ucast (b AND BOTTOM_BITS 4) = (of_nat v0 :: u32)" using lead [of 4] 2 by simp
    ultimately show ?thesis
      using 2 tail valid ge not7 by (simp add: cbs_get_utf8_def u8 del: utf8_tail.simps)
  next
    case 3
    then have "b AND TOP_BITS 3 \<noteq> TOP_BITS 2" "b AND TOP_BITS 4 \<noteq> TOP_BITS 3" "b AND TOP_BITS 5 = TOP_BITS 4"
      using v0 ub by (simp_all add: top_bits_iff)
    moreover have "ucast (b AND BOTTOM_BITS 3) = (of_nat v0 :: u32)" using lead [of 3] 3 by simp
    ultimately show ?thesis
      using 3 tail valid ge not7 by (simp add: cbs_get_utf8_def u8 del: utf8_tail.simps)
  qed
qed

lemma div_64: "(n :: nat) div 4096 = n div 64 div 64" "n div 262144 = n div 64 div 64 div 64"
  by (simp_all flip: div_mult2_eq)

lemma cbs_get_utf8_complete:
  assumes c: "cbs_wf c" and view: "cbs_view c = utf8 (unat u) @ rest" and valid: "is_valid_code_point u"
  shows "cbs_get_utf8 c = (Some u, advance (length (utf8 (unat u))) c)"
proof -
  let ?n = "unat u"
  have lt: "?n < 0x110000" by (rule valid_less [OF valid])
  have cont: "unat (of_nat (128 + x mod 64) :: u8) = 128 + x mod 64" for x
    by (rule unat_of_nat_u8) (simp add: less_diff_conv [symmetric])
  have m64: "(128 + x mod 64) mod 64 = x mod (64 :: nat)" for x
    using mod_mult_self3 [of 2 64 "x mod 64"] by simp
  consider "?n < 0x80" | "0x80 \<le> ?n" "?n < 0x800" | "0x800 \<le> ?n" "?n < 0x10000" | "0x10000 \<le> ?n"
    by linarith
  then show ?thesis
  proof cases
    case 1
    then have "unat (of_nat ?n :: u8) = ?n" by (intro unat_of_nat_u8) simp
    moreover from this have "(ucast (of_nat ?n :: u8) :: u32) = u"
      by (simp add: word_unat_eq_iff unat_ucast_up)
    ultimately show ?thesis using 1 view
      by (simp add: cbs_get_utf8_def CBS_get_u8_eq [OF c] utf8_def word_le_nat_alt)
  next
    case 2
    have "?n = ?n div 64 * 64 + ?n mod 64" by simp
    with 2 show ?thesis
      using view by (subst utf8_lead [OF refl, of 1 192 32 "?n div 64" c "[of_nat (128 + ?n mod 64)]" rest u])
        (auto simp: c utf8_def cont m64 valid word_le_nat_alt simp del: of_nat_add of_nat_numeral
          simp flip: numeral_2_eq_2 numeral_3_eq_3)
  next
    case 3
    have "?n = (?n div 4096 * 64 + ?n div 64 mod 64) * 64 + ?n mod 64"
      by (simp only: div_64 div_mult_mod_eq)
    with 3 show ?thesis
      using view by (subst utf8_lead [OF refl, of 2 224 16 "?n div 4096" c
            "[of_nat (128 + ?n div 64 mod 64), of_nat (128 + ?n mod 64)]" rest u])
        (auto simp: c utf8_def cont m64 valid word_le_nat_alt simp del: of_nat_add of_nat_numeral
          simp flip: numeral_2_eq_2 numeral_3_eq_3)
  next
    case 4
    have "?n = ((?n div 262144 * 64 + ?n div 4096 mod 64) * 64 + ?n div 64 mod 64) * 64 + ?n mod 64"
      by (simp only: div_64 div_mult_mod_eq)
    with 4 lt show ?thesis
      using view by (subst utf8_lead [OF refl, of 3 240 8 "?n div 262144" c
            "[of_nat (128 + ?n div 4096 mod 64), of_nat (128 + ?n div 64 mod 64), of_nat (128 + ?n mod 64)]" rest u])
        (auto simp: c utf8_def cont m64 valid word_le_nat_alt simp del: of_nat_add of_nat_numeral
          simp flip: numeral_2_eq_2 numeral_3_eq_3)
  qed
qed


lemma ascii_valid: "unat u < 128 \<Longrightarrow> is_valid_code_point u"
proof -
  assume u: "unat u < 128"
  have "u AND 0xfffe \<le> u" by (rule word_and_le2)
  then have "u AND 0xfffe \<noteq> 0xfffe" using u by (auto simp: word_le_nat_alt)
  with u show ?thesis by (simp add: is_valid_code_point_def word_less_nat_alt word_le_nat_alt)
qed

lemma step_64: "((q :: nat) * 64 + r mod 64) div 64 = q" "(q * 64 + r mod 64) mod 64 = r mod 64"
  by simp_all

lemma utf8_bytes:
  assumes "\<forall>b \<in> set bs. unat b div 64 = 2" and "unat b = k + v0" and "v0 < m"
    and "(length bs, k, m) \<in> {(1, 192, 32), (2, 224, 16), (3, 240, 8)}"
    and "n = foldl (\<lambda>a b. a * 64 + unat b mod 64) v0 bs"
    and "[0x80, 0x800, 0x10000] ! (length bs - 1) \<le> n"
  shows "utf8 n = b # bs"
proof -
  have cont: "of_nat (128 + unat x mod 64) = x" if "x \<in> set bs" for x :: u8
  proof -
    have "128 + unat x mod 64 = unat x" using assms(1) that div_mult_mod_eq [of "unat x" 64] by simp
    then show ?thesis by (simp only: of_nat_unat_8)
  qed
  have b: "of_nat (k + v0) = b" by (simp flip: assms(2))
  consider x where "bs = [x]" "k = 192" "m = 32" | x y where "bs = [x, y]" "k = 224" "m = 16"
    | x y z where "bs = [x, y, z]" "k = 240" "m = 8"
    using assms(4) by (auto simp: length_Suc_conv numeral_2_eq_2 numeral_3_eq_3)
  then show ?thesis
  proof cases
    case 1
    then have n: "n = v0 * 64 + unat x mod 64" using assms(5) by simp
    then have "n div 64 = v0" "n mod 64 = unat x mod 64" by (simp_all only: step_64)
    with 1 n assms(3,6) b cont [of x] show ?thesis by (simp add: utf8_def del: of_nat_add of_nat_numeral)
  next
    case 2
    then have n: "n = (v0 * 64 + unat x mod 64) * 64 + unat y mod 64" using assms(5) by simp
    then have "n div 4096 = v0" "n div 64 mod 64 = unat x mod 64" "n mod 64 = unat y mod 64"
      by (simp_all only: div_64 step_64)
    moreover have "n < 0x10000"
    proof -
      have "v0 \<le> 15" "unat x mod 64 \<le> 63" "unat y mod 64 \<le> 63"
        using 2 assms(3) by (simp_all add: less_Suc_eq_le [symmetric])
      moreover have "(p * 64 + q) * 64 + r < 0x10000" if "p \<le> 15" "q \<le> 63" "r \<le> 63" for p q r :: nat
        using that by simp
      ultimately show ?thesis unfolding n by blast
    qed
    ultimately show ?thesis using 2 assms(6) b cont [of x] cont [of y]
      by (simp add: utf8_def del: of_nat_add of_nat_numeral)
  next
    case 3
    then have n: "n = ((v0 * 64 + unat x mod 64) * 64 + unat y mod 64) * 64 + unat z mod 64" using assms(5) by simp
    then have "n div 262144 = v0" "n div 4096 mod 64 = unat x mod 64" "n div 64 mod 64 = unat y mod 64" "n mod 64 = unat z mod 64"
      by (simp_all only: div_64 step_64)
    with 3 n assms(3,6) b cont [of x] cont [of y] cont [of z] show ?thesis
      by (simp add: utf8_def del: of_nat_add of_nat_numeral)
  qed
qed

lemma cbs_get_utf8_canonical:
  assumes c: "cbs_wf c" and get: "cbs_get_utf8 c = (Some u, c')"
  shows "is_valid_code_point u \<and> cbs_view c = utf8 (unat u) @ cbs_view c'"
proof -
  obtain b rest where view: "cbs_view c = b # rest"
    using get by (cases "cbs_view c") (auto simp: cbs_get_utf8_def CBS_get_u8_eq [OF c])
  have u8: "CBS_get_u8 c = (Some b, advance (Suc 0) c)" by (simp add: CBS_get_u8_eq [OF c] view)
  note wf1 = cbs_wf_advance [OF c, of "Suc 0"]
  show ?thesis
  proof (cases "b \<le> 0x7f")
    case True
    then have b: "unat b < 128" by (simp add: word_le_nat_alt)
    have u: "u = ucast b" "c' = advance (Suc 0) c" using True get by (simp_all add: cbs_get_utf8_def u8)
    then have "unat u = unat b" by (simp add: unat_ucast_up)
    with b ascii_valid [of u] u(2) show ?thesis by (simp add: view utf8_def)
  next
    case False
    have from_tail: ?thesis
      if tail: "utf8_tail n (ucast (b AND BOTTOM_BITS j)) (advance (Suc 0) c) = (Some u, c')"
        and valid: "is_valid_code_point u" and low: "\<not> u < lb"
        and j: "(n, j, k, m, lb) \<in> {(1, 5, 192, 32, 0x80), (2, 4, 224, 16, 0x800), (3, 3, 240, 8, 0x10000)}"
        and lead: "unat b div m = k div m" for n j k m lb
    proof -
      let ?v0 = "unat b mod m"
      have v0: "unat (ucast (b AND BOTTOM_BITS j) :: u32) = ?v0"
        using j by (auto simp: unat_ucast_up unat_and_bottom)
      have m: "?v0 < m" using j by auto
      have "Suc (unat (ucast (b AND BOTTOM_BITS j) :: u32)) * 64 ^ n \<le> 2 ^ 26"
        using j m unfolding v0 by auto
      from utf8_tail_iff [OF wf1 this, of u c'] tail obtain bs where bs: "length bs = n"
        "\<forall>b \<in> set bs. unat b div 64 = 2" "rest = bs @ cbs_view c'"
        "unat u = foldl (\<lambda>a b. a * 64 + unat b mod 64) ?v0 bs"
        unfolding v0 by (auto simp: view)
      have b: "unat b = k + ?v0"
      proof -
        have "k = k div m * m" using j by auto
        then show ?thesis using lead by (metis div_mult_mod_eq)
      qed
      have "utf8 (unat u) = b # bs"
        using low j bs(1) by (intro utf8_bytes [OF bs(2) b m _ bs(4)]) (auto simp: word_less_nat_alt)
      with bs(3) valid show ?thesis by (simp add: view)
    qed
    show ?thesis
      using get False from_tail [where n = 1 and j = 5 and lb = "0x80" and k = 192 and m = 32]
        from_tail [where n = 2 and j = 4 and lb = "0x800" and k = 224 and m = 16]
        from_tail [where n = 3 and j = 3 and lb = "0x10000" and k = 240 and m = 8]
      by (auto simp: cbs_get_utf8_def u8 on_ok_Some top_bits_iff simp del: utf8_tail.simps
          split: if_splits)
  qed
qed


section \<open>Writing\<close>

lemma or_top:
  assumes "x < 2 ^ n" and "n \<le> 7"
  shows "TOP_BITS (8 - n) OR (of_nat x :: u8) = of_nat (unat (TOP_BITS (8 - n)) + x)"
proof -
  have x: "unat (of_nat x :: u8) = x"
    using assms power_increasing [of n 7 "2 :: nat"] by (intro unat_of_nat_u8) simp
  have t: "TOP_BITS (8 - n) = push_bit n (drop_bit n (TOP_BITS (8 - n)))"
    using assms(2) by (intro bit_word_eqI) (auto simp: TOP_BITS_def BOTTOM_BITS_mask bit_simps)
  have "unat (drop_bit n (TOP_BITS (8 - n))) * 2 ^ n < 2 ^ LENGTH(8)"
    using unat_8_less [of "TOP_BITS (8 - n)"]
    by (simp add: unat_drop_bit) (metis div_times_less_eq_dividend le_less_trans)
  then have "unat (TOP_BITS (8 - n) OR (of_nat x :: u8)) =
      unat (drop_bit n (TOP_BITS (8 - n))) * 2 ^ n + x"
    using assms by (subst t, subst unat_push_bit_or) (simp_all add: x)
  moreover have "unat (TOP_BITS (8 - n)) = unat (drop_bit n (TOP_BITS (8 - n))) * 2 ^ n"
    using assms(2) unat_8_less [of "TOP_BITS (8 - n)"]
    by (subst t, subst unsigned_push_bit_eq)
      (simp add: unat_drop_bit push_bit_eq_mult take_bit_eq_mod le_less_trans [OF div_times_less_eq_dividend])
  ultimately show ?thesis
    by (metis of_nat_unat_8)
qed


lemma ucast_of_nat: "(ucast (u :: u32) :: u8) = of_nat (unat u)"
  by simp

lemma low_six: "(ucast (u :: u32) :: u8) AND BOTTOM_BITS 6 = of_nat (unat u mod 64)"
proof -
  have "unat (of_nat (unat u mod 64) :: u8) = unat u mod 64"
    by (intro unat_of_nat_u8) (simp add: less_trans [of _ 64])
  then show ?thesis
    by (simp add: word_unat_eq_iff unat_and_bottom unsigned_ucast_eq take_bit_eq_mod mod_mod_cancel)
qed

lemma lead_bytes:
  "x < 64 \<Longrightarrow> TOP_BITS 2 OR (of_nat x :: u8) = of_nat (192 + x)"
  "x < 32 \<Longrightarrow> TOP_BITS 3 OR (of_nat x :: u8) = of_nat (224 + x)"
  "x < 16 \<Longrightarrow> TOP_BITS 4 OR (of_nat x :: u8) = of_nat (240 + x)"
  "x < 128 \<Longrightarrow> TOP_BITS (Suc 0) OR (of_nat x :: u8) = of_nat (128 + x)"
  using or_top [of x 6] or_top [of x 5] or_top [of x 4] or_top [of x 7]
  by (simp_all add: TOP_BITS_unat)

lemma appender_utf8:
  assumes "is_valid_code_point u"
  shows "appender mem (cbb_add_utf8 mem u) (utf8 (unat u))"
proof -
  let ?n = "unat u"
  have lt: "?n < 0x110000" by (rule valid_less [OF assms])
  have tail: "TOP_BITS (Suc 0) OR (ucast v AND BOTTOM_BITS 6) = (of_nat (128 + unat v mod 64) :: u8)" for v :: u32
    unfolding low_six by (rule lead_bytes(4)) (simp add: less_trans [of _ 64])
  have dr: "unat (drop_bit k u) = ?n div 2 ^ k" for k by (rule unat_drop_bit)
  have le: "u \<le> 0x7f \<longleftrightarrow> ?n < 0x80" "u \<le> 0x7ff \<longleftrightarrow> ?n < 0x800" "u \<le> 0xffff \<longleftrightarrow> ?n < 0x10000"
    "u \<le> 0x10ffff" using lt by (auto simp: word_le_nat_alt)
  note step = appender_seq [OF appender_add_u8]
  consider "?n < 0x80" | "0x80 \<le> ?n" "?n < 0x800" | "0x800 \<le> ?n" "?n < 0x10000" | "0x10000 \<le> ?n"
    by linarith
  then show ?thesis
  proof cases
    case 1
    then have "cbb_add_utf8 mem u = CBB_add_u8 mem (of_nat ?n)"
      by (intro ext) (simp add: cbb_add_utf8_def assms le)
    with 1 show ?thesis by (simp add: utf8_def appender_add_u8)
  next
    case 2
    then have "TOP_BITS 2 OR (ucast (drop_bit 6 u) :: u8) = of_nat (192 + ?n div 64)"
      unfolding ucast_of_nat dr by (subst lead_bytes) simp_all
    with 2 have "cbb_add_utf8 mem u = (\<lambda>d s. on_ok (CBB_add_u8 mem (of_nat (192 + ?n div 64)) d s)
        (\<lambda>_. CBB_add_u8 mem (of_nat (128 + ?n mod 64)) d))"
      by (intro ext) (simp add: cbb_add_utf8_def assms le tail del: of_nat_add of_nat_numeral)
    with 2 step [OF appender_add_u8, of mem "of_nat (192 + ?n div 64)" "of_nat (128 + ?n mod 64)"]
    show ?thesis by (simp add: utf8_def del: of_nat_add of_nat_numeral)
  next
    case 3
    then have "TOP_BITS 3 OR (ucast (drop_bit 12 u) :: u8) = of_nat (224 + ?n div 4096)"
      unfolding ucast_of_nat dr by (subst lead_bytes) simp_all
    with 3 have "cbb_add_utf8 mem u = (\<lambda>d s. on_ok (CBB_add_u8 mem (of_nat (224 + ?n div 4096)) d s)
        (\<lambda>_ s. on_ok (CBB_add_u8 mem (of_nat (128 + ?n div 64 mod 64)) d s)
          (\<lambda>_. CBB_add_u8 mem (of_nat (128 + ?n mod 64)) d)))"
      by (intro ext) (simp add: cbb_add_utf8_def assms le tail dr del: of_nat_add of_nat_numeral)
    with 3 step [OF step [OF appender_add_u8], of mem "of_nat (224 + ?n div 4096)"
        "of_nat (128 + ?n div 64 mod 64)" "of_nat (128 + ?n mod 64)"]
    show ?thesis by (simp add: utf8_def del: of_nat_add of_nat_numeral)
  next
    case 4
    then have "TOP_BITS 4 OR (ucast (drop_bit 18 u) :: u8) = of_nat (240 + ?n div 262144)"
      using lt unfolding ucast_of_nat dr by (subst lead_bytes) simp_all
    with 4 have "cbb_add_utf8 mem u = (\<lambda>d s. on_ok (CBB_add_u8 mem (of_nat (240 + ?n div 262144)) d s)
        (\<lambda>_ s. on_ok (CBB_add_u8 mem (of_nat (128 + ?n div 4096 mod 64)) d s)
          (\<lambda>_ s. on_ok (CBB_add_u8 mem (of_nat (128 + ?n div 64 mod 64)) d s)
            (\<lambda>_. CBB_add_u8 mem (of_nat (128 + ?n mod 64)) d))))"
      by (intro ext) (simp add: cbb_add_utf8_def assms le tail dr del: of_nat_add of_nat_numeral)
    with 4 step [OF step [OF step [OF appender_add_u8]], of mem "of_nat (240 + ?n div 262144)"
        "of_nat (128 + ?n div 4096 mod 64)" "of_nat (128 + ?n div 64 mod 64)" "of_nat (128 + ?n mod 64)"]
    show ?thesis by (simp add: utf8_def del: of_nat_add of_nat_numeral)
  qed
qed

lemma length_utf8: "is_valid_code_point u \<Longrightarrow> length (utf8 (unat u)) = cbb_get_utf8_len u"
  by (auto simp: utf8_def cbb_get_utf8_len_def word_le_nat_alt dest!: valid_less)

lemma cbs_get_u_fixed:
  assumes "cbs_wf c" and "cbs_view c = be_fixed n x @ rest" and "n \<le> 8" and "x < 256 ^ n"
  shows "cbs_get_u n c = (Some (of_nat x), advance n c)"
proof -
  have "n \<le> cbs_len c" using assms(2) length_cbs_view [OF assms(1)] by simp
  then obtain v where v: "cbs_get_u n c = (Some v, advance n c)" "unat v = be_val (take n (cbs_view c))"
    using cbs_get_u_be [OF assms(1) _ assms(3)] by blast
  then have "unat v = x" using assms(2,4) by (simp add: be_val_be_fixed)
  then have "v = of_nat x" by (metis of_nat_unat ucast_id)
  with v show ?thesis by simp
qed

lemma utf32_roundtrip:
  assumes "is_valid_code_point u" and "cbs_wf c" and "cbs_view c = be_fixed 4 (unat u) @ rest"
  shows "cbs_get_utf32_be c = (Some u, advance 4 c)"
proof -
  have "unat u < 256 ^ 4" using unsigned_less [of u, where ?'a = nat] by simp
  from cbs_get_u_fixed [OF assms(2,3) _ this]
  have "cbs_get_u 4 c = (Some (of_nat (unat u)), advance 4 c)" by simp
  moreover have "(ucast (ucast u :: u64) :: u32) = u"
    by (rule bit_word_eqI) (auto simp: bit_simps)
  ultimately show ?thesis using assms(1) by (simp add: cbs_get_utf32_be_def CBS_get_u32_def)
qed

lemma ucs2_roundtrip:
  assumes "is_valid_code_point u" and "u \<le> 0xffff" and "cbs_wf c" and "cbs_view c = be_fixed 2 (unat u) @ rest"
  shows "cbs_get_ucs2_be c = (Some u, advance 2 c)"
proof -
  have u: "unat u < 256 ^ 2" using assms(2) by (simp add: word_le_nat_alt)
  have "(ucast (ucast u :: u64) :: u16) = ucast u"
    by (rule bit_word_eqI) (auto simp: bit_simps)
  with cbs_get_u_fixed [OF assms(3,4) _ u]
  have get: "CBS_get_u16 c = (Some (of_nat (unat u)), advance 2 c)" by (simp add: CBS_get_u16_def)
  have "ucast (of_nat (unat u) :: u16) = u"
    using u by (simp add: word_unat_eq_iff unsigned_ucast_eq unat_of_nat unsigned_take_bit_eq take_bit_nat_eq_self)
  then show ?thesis using assms(1) get by (simp add: cbs_get_ucs2_be_def)
qed

end
