(* ===== verification/Ber.thy ===== *)
theory Ber
  imports Asn1Values
begin

text \<open>
  \<open>crypto/bytestring/ber.c\<close> of BoringSSL: the search for BER constructs in an input, the
  conversion of BER to DER, and the implicitly tagged strings that PKCS#12 files use. The
  parser \<open>in\<close> and the builder \<open>out\<close> of \<open>cbs_convert_ber\<close> are passed and returned explicitly;
  \<open>out\<close> is a handle into the chain of pending children (see \<open>Cbb\<close>).
\<close>

section \<open>Looking for BER\<close>

definition kMaxDepth :: nat where
  "kMaxDepth = 2048"

definition string_tags :: "u32 list" where
  "string_tags = [3, 4, 0xc, 0x12, 0x13, 0x14, 0x15, 0x16, 0x19, 0x1a, 0x1b, 0x1c, 0x1e]"

definition is_string_type :: "u32 \<Rightarrow> bool" where
  "is_string_type tag \<longleftrightarrow> tag AND NOT CBS_ASN1_CONSTRUCTED \<in> set string_tags"

definition is_indefinite :: "nat \<Rightarrow> cbs \<Rightarrow> bool" where
  "is_indefinite header_len contents \<longleftrightarrow>
     CBS_len contents = header_len \<and> header_len > 0 \<and> CBS_data contents ! (header_len - 1) = 0x80"

lemma ber_element_sizes:
  assumes "CBS_get_any_ber_asn1_element c = (Some (out, tag, h), c')"
  shows "0 < h \<and> cbs_len out \<le> cbs_len c \<and> cbs_len c' < cbs_len c"
proof -
  note el = assms [unfolded CBS_get_any_ber_asn1_element_def]
  obtain hd b hd' where h: "parse_asn1_tag c = (Some tag, hd)" "CBS_get_u8 hd = (Some b, hd')"
    and l: "asn1_element_length True c tag hd' (CBS_len c - CBS_len hd') b = (Some (out, tag, h), c')"
    using el by (auto simp: cbs_get_any_asn1_element_def asn1_element_length_def on_ok_Some Let_def
        split: prod.split_asm option.split_asm if_split_asm)
  have "CBS_len hd' < CBS_len c"
    using h by (auto simp: CBS_len_def dest!: asn1_tag.progress get_u8.progress)
  then have "0 < h \<and> (\<exists>n. CBS_get_bytes n c = (Some out, c'))"
    using l by (auto simp: asn1_element_length_def Let_def on_ok_Some
        split: if_split_asm prod.split_asm option.split_asm)
  then show ?thesis
    using element_progress [OF el] by (auto simp: CBS_get_bytes_advance CBS_init_def split: if_split_asm)
qed

text \<open>
  \<open>cbs_find_ber\<close> is the loop with \<open>*ber_found\<close> cleared; \<open>Some found\<close> is the return value 1. The
  recursive call writes through the same pointer, so its answer replaces what was found before.
\<close>

function find_ber_loop :: "cbs \<Rightarrow> bool \<Rightarrow> nat \<Rightarrow> bool option" where
  "find_ber_loop c ber_found depth =
     (if CBS_len c > 0 then
        case CBS_get_any_ber_asn1_element c of
          (None, _) \<Rightarrow> None
        | (Some (contents, tag, header_len), c') \<Rightarrow>
            if is_indefinite header_len contents then Some True
            else if tag AND CBS_ASN1_CONSTRUCTED \<noteq> 0 then
              if is_string_type tag then Some True
              else
                (case CBS_skip header_len contents of
                   (None, _) \<Rightarrow> None
                 | (Some _, body) \<Rightarrow>
                     if depth + 1 > kMaxDepth then None
                     else
                       (case find_ber_loop body False (depth + 1) of
                          None \<Rightarrow> None
                        | Some found \<Rightarrow> find_ber_loop c' found depth))
            else find_ber_loop c' ber_found depth
      else Some ber_found)"
  by pat_completeness auto
termination
proof (relation "measure (\<lambda>(c, found, depth). cbs_len c)", goal_cases)
  case (2 c found depth r c' e contents x tag h u body)
  then show ?case
    by (auto simp: CBS_skip_advance split: if_split_asm dest!: ber_element_sizes [OF sym])
qed (auto dest!: ber_element_sizes [OF sym])

declare find_ber_loop.simps [simp del]

definition cbs_find_ber :: "cbs \<Rightarrow> nat \<Rightarrow> bool option" where
  "cbs_find_ber orig_in depth =
     (if depth > kMaxDepth then None
      else find_ber_loop (CBS_init (CBS_data orig_in) (CBS_len orig_in)) False depth)"

definition is_eoc :: "nat \<Rightarrow> cbs \<Rightarrow> bool" where
  "is_eoc header_len contents \<longleftrightarrow>
     header_len = 2 \<and> CBS_len contents = 2 \<and> take 2 (CBS_data contents) = [0, 0]"


section \<open>The conversion\<close>

text \<open>
  Where the element's contents go: into \<open>out\<close> itself for the parts of a constructed string,
  into a new child otherwise. The result is the handle and the string tag for the children.
\<close>

definition ber_open_element ::
  "alloc \<Rightarrow> u32 \<Rightarrow> u32 \<Rightarrow> nat \<Rightarrow> cbb \<Rightarrow> (nat \<times> u32) option \<times> cbb" where
  "ber_open_element mem string_tag tag d s =
     (if string_tag \<noteq> 0 then
        if tag AND NOT CBS_ASN1_CONSTRUCTED \<noteq> string_tag then (None, s) else (Some (d, string_tag), s)
      else
        let (out_tag, child_string_tag) =
          (if tag AND CBS_ASN1_CONSTRUCTED \<noteq> 0 \<and> is_string_type tag
           then (tag AND NOT CBS_ASN1_CONSTRUCTED, tag AND NOT CBS_ASN1_CONSTRUCTED)
           else (tag, string_tag))
        in on_ok (CBB_add_asn1 mem out_tag d s) (\<lambda>_ s. (Some (Suc d, child_string_tag), s)))"

text \<open>
  The depth is tested on entry by the C function and here on every turn of its loop; it does
  not change in between.
\<close>

function cbs_convert_ber ::
  "alloc \<Rightarrow> u32 \<Rightarrow> bool \<Rightarrow> nat \<Rightarrow> nat \<Rightarrow> cbs \<Rightarrow> cbb \<Rightarrow> unit option \<times> cbs \<times> cbb" where
  "cbs_convert_ber mem string_tag looking_for_eoc depth d c s =
     (if depth > kMaxDepth then (None, c, s)
      else if CBS_len c > 0 then
        (case CBS_get_any_ber_asn1_element c of
           (None, c') \<Rightarrow> (None, c', s)
         | (Some (contents, tag, header_len), c') \<Rightarrow>
             if is_eoc header_len contents then (if looking_for_eoc then Some () else None, c', s)
             else
               (case ber_open_element mem string_tag tag d s of
                  (None, s) \<Rightarrow> (None, c', s)
                | (Some (d', child_tag), s) \<Rightarrow>
                    if is_indefinite header_len contents then
                      (case cbs_convert_ber mem child_tag True (depth + 1) d' c' s of
                         (None, c', s) \<Rightarrow> (None, c', s)
                       | (Some _, c', s) \<Rightarrow>
                           (case CBB_flush mem d s of
                              (None, s) \<Rightarrow> (None, c', s)
                            | (Some _, s) \<Rightarrow> cbs_convert_ber mem string_tag looking_for_eoc depth d c' s))
                    else
                      (case CBS_skip header_len contents of
                         (None, _) \<Rightarrow> (None, c', s)
                       | (Some _, body) \<Rightarrow>
                           (case (if tag AND CBS_ASN1_CONSTRUCTED \<noteq> 0 then
                                    (case cbs_convert_ber mem child_tag False (depth + 1) d' body s of
                                       (r, _, s) \<Rightarrow> (r, s))
                                  else CBB_add_bytes mem (take (CBS_len body) (CBS_data body)) d' s)
                            of (None, s) \<Rightarrow> (None, c', s)
                             | (Some _, s) \<Rightarrow>
                                 (case CBB_flush mem d s of
                                    (None, s) \<Rightarrow> (None, c', s)
                                  | (Some _, s) \<Rightarrow>
                                      cbs_convert_ber mem string_tag looking_for_eoc depth d c' s)))))
      else (if looking_for_eoc then None else Some (), c, s))"
  by pat_completeness auto

lemma cbs_convert_ber_len:
  "cbs_convert_ber_dom (mem, st, eoc, depth, d, c, s) \<Longrightarrow>
   cbs_convert_ber mem st eoc depth d c s = (r, c', s') \<Longrightarrow> cbs_len c' \<le> cbs_len c"
proof (induction arbitrary: r c' s' rule: cbs_convert_ber.pinduct)
  case (1 mem st eoc depth d c s)
  note run = "1.prems" [unfolded cbs_convert_ber.psimps [OF "1.hyps"]]
  show ?case
  proof (cases "depth > kMaxDepth \<or> \<not> CBS_len c > 0")
    case True
    with run show ?thesis by (auto split: if_split_asm)
  next
    case False
    then have pos: "\<not> kMaxDepth < depth" "0 < CBS_len c" by auto
    obtain e c1 where e: "CBS_get_any_ber_asn1_element c = (e, c1)" by fastforce
    show ?thesis
    proof (cases e)
      case None
      then show ?thesis using run pos e reader.rest_len [OF reader_CBS_get_any_ber_asn1_element e] by simp
    next
      case (Some el)
      obtain out tag h where el: "el = (out, tag, h)" by (cases el)
      have c1: "cbs_len c1 < cbs_len c" using ber_element_sizes e Some el by blast
      obtain o1 s1 where o: "ber_open_element mem st tag d s = (o1, s1)" by fastforce
      show ?thesis
      proof (cases "is_eoc h out \<or> o1 = None")
        case True
        then show ?thesis using run pos e Some el o c1 by (cases "is_eoc h out") auto
      next
        case no_eoc: False
        then obtain d' ct where o1: "o1 = Some (d', ct)" by auto
        show ?thesis
        proof (cases "is_indefinite h out")
          case True
          obtain r2 c2 s2 where r2: "cbs_convert_ber mem ct True (depth + 1) d' c1 s1 = (r2, c2, s2)"
            by (metis prod_cases3)
          have c2: "cbs_len c2 \<le> cbs_len c1"
            using no_eoc
            by (intro "1.IH"(1) [OF pos e [symmetric] Some el [symmetric] refl _ o [symmetric] o1 refl True r2]) simp
          obtain r3 s3 where r3: "CBB_flush mem d s2 = (r3, s3)" by fastforce
          show ?thesis
          proof (cases "r2 = None \<or> r3 = None")
            case True
            with run pos e Some el o o1 \<open>is_indefinite h out\<close> no_eoc r2 r3 c1 c2 show ?thesis
              by (cases r2) auto
          next
            case False
            then obtain x y where x: "r2 = Some x" and y: "r3 = Some y" by auto
            have eoc: "\<not> is_eoc h out" using no_eoc by simp
            have "cbs_convert_ber mem st eoc depth d c2 s3 = (r, c', s')"
              using run pos e Some el o o1 True eoc r2 r3 x y by simp
            then have "cbs_len c' \<le> cbs_len c2"
              by (rule "1.IH"(2) [OF pos e [symmetric] Some el [symmetric] refl eoc o [symmetric] o1 refl True
                    r2 [symmetric] x refl r3 [symmetric] y])
            with c1 c2 show ?thesis by simp
          qed
        next
          case definite: False
          obtain sk body where sk: "CBS_skip h out = (sk, body)" by fastforce
          show ?thesis
          proof (cases sk)
            case None
            with run pos e Some el o o1 definite no_eoc sk c1 show ?thesis by simp
          next
            case sks: (Some u)
            obtain r2 s2 where r2: "(if tag AND CBS_ASN1_CONSTRUCTED \<noteq> 0 then
                case cbs_convert_ber mem ct False (depth + 1) d' body s1 of (r, _, s) \<Rightarrow> (r, s)
              else CBB_add_bytes mem (take (CBS_len body) (CBS_data body)) d' s1) = (r2, s2)"
              by fastforce
            obtain r3 s3 where r3: "CBB_flush mem d s2 = (r3, s3)" by fastforce
            show ?thesis
            proof (cases "r2 = None \<or> r3 = None")
              case True
              with run pos e Some el o o1 definite no_eoc sk sks r2 r3 c1 show ?thesis
                by (cases r2) auto
            next
              case False
              then obtain x y where x: "r2 = Some x" and y: "r3 = Some y" by auto
              have eoc: "\<not> is_eoc h out" using no_eoc by simp
              have "cbs_convert_ber mem st eoc depth d c1 s3 = (r, c', s')"
                using run pos e Some el o o1 definite eoc sk sks r2 r3 x y by simp
              then have "cbs_len c' \<le> cbs_len c1"
                by (rule "1.IH"(4) [OF pos e [symmetric] Some el [symmetric] refl eoc o [symmetric] o1 refl definite
                      sk [symmetric] sks r2 [symmetric] x r3 [symmetric] y])
              with c1 show ?thesis by simp
            qed
          qed
        qed
      qed
    qed
  qed
qed

termination cbs_convert_ber
proof (relation "measure (\<lambda>(mem, st, eoc, depth, d, c, s). cbs_len c)", goal_cases)
  case 1
  show ?case by simp
next
  case 2
  then show ?case by (auto dest!: ber_element_sizes [OF sym])
next
  case 3
  then show ?case by (auto dest!: ber_element_sizes [OF sym] dest: cbs_convert_ber_len [OF _ sym])
next
  case 4
  then show ?case
    by (auto simp: CBS_skip_advance split: if_split_asm dest!: ber_element_sizes [OF sym])
next
  case 5
  then show ?case by (auto dest!: ber_element_sizes [OF sym])
qed

declare cbs_convert_ber.simps [simp del]

text \<open>
  \<open>CBS_asn1_ber_to_der\<close>: the element of the input, or the converted copy, which is also the
  storage that the caller frees.
\<close>

definition CBS_asn1_ber_to_der :: "alloc \<Rightarrow> cbs \<Rightarrow> (cbs \<times> bytes option) option \<times> cbs" where
  "CBS_asn1_ber_to_der mem c =
     (case cbs_find_ber c 0 of
        None \<Rightarrow> (None, c)
      | Some conversion_needed \<Rightarrow>
          if \<not> conversion_needed then
            on_ok (CBS_get_any_asn1_element c) (\<lambda>(out, _, _) c'. (Some (out, None), c'))
          else
            (case CBB_init mem (CBS_len c) of
               None \<Rightarrow> (None, c)
             | Some s \<Rightarrow>
                 (case cbs_convert_ber mem 0 False 0 0 c s of
                    (None, c', _) \<Rightarrow> (None, c')
                  | (Some _, c', s) \<Rightarrow>
                      (case CBB_finish mem 0 s of
                         (None, _) \<Rightarrow> (None, c')
                       | (Some (storage, n), _) \<Rightarrow> (Some (CBS_init storage n, Some storage), c')))))"

text \<open>The loop of \<open>CBS_get_asn1_implicit_string\<close> over the parts of a constructed string.\<close>

lemma CBS_get_asn1_decreases: "CBS_get_asn1 tag c = (Some out, c') \<Longrightarrow> cbs_len c' < cbs_len c"
  by (auto simp: CBS_get_asn1_def cbs_get_asn1_def on_ok_Some dest!: any_asn1_element.progress
      split: if_split_asm prod.split_asm option.split_asm)

function implicit_string_loop :: "alloc \<Rightarrow> u32 \<Rightarrow> cbs \<Rightarrow> cbb \<Rightarrow> unit option \<times> cbb" where
  "implicit_string_loop mem inner_tag child s =
     (if CBS_len child > 0 then
        (case CBS_get_asn1 inner_tag child of
           (None, _) \<Rightarrow> (None, s)
         | (Some chunk, child') \<Rightarrow>
             on_ok (CBB_add_bytes mem (take (CBS_len chunk) (CBS_data chunk)) 0 s)
               (\<lambda>_. implicit_string_loop mem inner_tag child'))
      else (Some (), s))"
  by pat_completeness auto
termination
  by (relation "measure (\<lambda>(mem, tag, c, s). cbs_len c)")
    (auto dest!: CBS_get_asn1_decreases [OF sym])

declare implicit_string_loop.simps [simp del]

definition CBS_get_asn1_implicit_string ::
  "alloc \<Rightarrow> u32 \<Rightarrow> u32 \<Rightarrow> cbs \<Rightarrow> (cbs \<times> bytes option) option \<times> cbs" where
  "CBS_get_asn1_implicit_string mem outer_tag inner_tag c =
     (if CBS_peek_asn1_tag c outer_tag then
        on_ok (CBS_get_asn1 outer_tag c) (\<lambda>out c'. (Some (out, None), c'))
      else
        (case CBB_init mem (CBS_len c) of
           None \<Rightarrow> (None, c)
         | Some s \<Rightarrow>
             on_ok (CBS_get_asn1 (outer_tag OR CBS_ASN1_CONSTRUCTED) c) (\<lambda>child c'.
               case implicit_string_loop mem inner_tag child s of
                 (None, _) \<Rightarrow> (None, c')
               | (Some _, s) \<Rightarrow>
                   (case CBB_finish mem 0 s of
                      (None, _) \<Rightarrow> (None, c')
                    | (Some (data, n), _) \<Rightarrow> (Some (CBS_init data n, Some data), c')))))"


section \<open>Inputs that are already DER\<close>

text \<open>
  A sequence of DER elements without constructed strings, nested at most \<open>k\<close> deep; the
  contents of primitive elements are arbitrary.
\<close>

inductive der_forest :: "nat \<Rightarrow> bytes \<Rightarrow> bool" where
  der_forest_Nil: "der_forest k []"
| der_forest_primitive:
    "tag AND CBS_ASN1_CONSTRUCTED = 0 \<Longrightarrow> length body < 2 ^ 32 \<Longrightarrow> der_forest k rest \<Longrightarrow>
     der_forest k (der_element tag body @ rest)"
| der_forest_constructed:
    "tag AND CBS_ASN1_CONSTRUCTED \<noteq> 0 \<Longrightarrow> \<not> is_string_type tag \<Longrightarrow> length body < 2 ^ 32 \<Longrightarrow>
     der_forest k body \<Longrightarrow> der_forest (Suc k) rest \<Longrightarrow> der_forest (Suc k) (der_element tag body @ rest)"

lemma ber_get_der:
  assumes "cbs_wf c" and "cbs_view c = der_element tag body @ rest" and "length body < 2 ^ 32"
  obtains out where "CBS_get_any_ber_asn1_element c = (Some (out, tag, length (der_header tag (length body))),
      advance (length (der_element tag body)) c)"
    and "cbs_wf out" and "cbs_view out = der_element tag body"
    and "\<not> is_indefinite (length (der_header tag (length body))) out"
proof -
  let ?h = "length (der_header tag (length body))"
  obtain out where out: "cbs_get_any_asn1_element True c = (Some (out, tag, ?h), advance (length (der_element tag body)) c)"
    "cbs_wf out" "cbs_view out = der_element tag body"
    using any_asn1_element_der [OF assms] by blast
  have "\<not> is_indefinite ?h out"
  proof
    assume ind: "is_indefinite ?h out"
    then have "length (cbs_view out) = ?h" "0 < ?h"
      using out(2) by (simp_all add: is_indefinite_def CBS_len_def)
    then have body: "body = []" by (simp add: out(3) der_element_def)
    then have "cbs_view out = der_tag tag @ [0]" by (simp add: out(3) der_element_def der_header_def der_length_def)
    moreover have "?h = Suc (length (der_tag tag))" using body by (simp add: der_header_def der_length_def)
    ultimately have "cbs_data out ! (?h - 1) = 0"
      using out(2) by (subst nth_cbs_data) (simp_all flip: length_cbs_view)
    with ind show False by (simp add: is_indefinite_def CBS_data_def)
  qed
  with out that show thesis by (auto simp: CBS_get_any_ber_asn1_element_def)
qed

lemma find_ber_forest:
  "der_forest k bs \<Longrightarrow> cbs_wf c \<Longrightarrow> cbs_view c = bs \<Longrightarrow> depth + k \<le> kMaxDepth \<Longrightarrow>
   find_ber_loop c False depth = Some False"
proof (induction arbitrary: c depth rule: der_forest.induct)
  case (der_forest_Nil k)
  then have "CBS_len c = 0" using length_cbs_view [of c] by (simp add: CBS_len_def)
  then show ?case by (simp add: find_ber_loop.simps)
next
  case (der_forest_primitive tag body k rest)
  let ?c = "advance (length (der_element tag body)) c"
  obtain out where out: "CBS_get_any_ber_asn1_element c = (Some (out, tag, length (der_header tag (length body))), ?c)"
    "\<not> is_indefinite (length (der_header tag (length body))) out"
    using ber_get_der [OF der_forest_primitive.prems(1,2) der_forest_primitive.hyps(2)] by blast
  have "CBS_len c > 0" using ber_element_sizes [OF out(1)] by (simp add: CBS_len_def)
  moreover have "find_ber_loop ?c False depth = Some False"
    using der_forest_primitive by (intro der_forest_primitive.IH) (simp_all add: cbs_wf_advance)
  ultimately show ?case
    using der_forest_primitive.hyps(1) by (simp add: find_ber_loop.simps [of c] out)
next
  case (der_forest_constructed tag body k rest)
  let ?c = "advance (length (der_element tag body)) c" and ?h = "length (der_header tag (length body))"
  obtain out where out: "CBS_get_any_ber_asn1_element c = (Some (out, tag, ?h), ?c)"
    "\<not> is_indefinite ?h out" "cbs_wf out" "cbs_view out = der_element tag body"
    using ber_get_der [OF der_forest_constructed.prems(1,2) der_forest_constructed.hyps(3)] by blast
  have "CBS_len c > 0" using ber_element_sizes [OF out(1)] by (simp add: CBS_len_def)
  moreover have "find_ber_loop ?c False depth = Some False"
    using der_forest_constructed.prems by (intro der_forest_constructed.IH(2)) (simp_all add: cbs_wf_advance)
  moreover have "?h \<le> cbs_len out"
    using length_der_element [of tag body] by (simp add: out(4) flip: length_cbs_view [OF out(3)])
  then have "CBS_skip ?h out = (Some (), advance ?h out)" by (simp add: CBS_skip_advance)
  moreover have "find_ber_loop (advance ?h out) False (depth + 1) = Some False"
    using der_forest_constructed.prems out
    by (intro der_forest_constructed.IH(1)) (simp_all add: cbs_wf_advance der_element_skip)
  ultimately show ?case
    using der_forest_constructed.hyps(1,2) der_forest_constructed.prems(3)
    by (simp add: find_ber_loop.simps [of c] out)
qed

lemma ber_to_der_identity:
  assumes "cbs_wf c" and "cbs_view c = der_element tag body @ rest" and "length body < 2 ^ 32"
    and "der_forest kMaxDepth (der_element tag body @ rest)"
  shows "\<exists>out c'. CBS_asn1_ber_to_der mem c = (Some (out, None), c') \<and>
    cbs_view out = der_element tag body \<and> cbs_view c' = rest"
proof -
  have "find_ber_loop c False 0 = Some False"
    using assms by (intro find_ber_forest [OF assms(4)]) simp_all
  then have "cbs_find_ber c 0 = Some False"
    by (cases c) (simp add: cbs_find_ber_def CBS_init_def CBS_data_def CBS_len_def)
  moreover obtain out where "CBS_get_any_asn1_element c = (Some (out, tag, length (der_header tag (length body))),
      advance (length (der_element tag body)) c)" "cbs_view out = der_element tag body"
    using any_asn1_element_der [OF assms(1-3), of False] by (auto simp: CBS_get_any_asn1_element_def)
  moreover have "cbs_view (advance (length (der_element tag body)) c) = rest" by (simp add: assms(2))
  ultimately show ?thesis by (auto simp: CBS_asn1_ber_to_der_def)
qed

section \<open>What hides BER from the search\<close>

text \<open>The search depends on the bytes of its parser only.\<close>

lemma is_indefinite_same: "same c d \<Longrightarrow> is_indefinite h c = is_indefinite h d"
  using same_len [of c d] same_nth [of c d "h - 1"] by (auto simp: is_indefinite_def CBS_len_def CBS_data_def)

lemma find_ber_loop_same: "same c d \<Longrightarrow> find_ber_loop c f depth = find_ber_loop d f depth"
proof (induction c f depth arbitrary: d rule: find_ber_loop.induct)
  case (1 c f depth)
  have len: "CBS_len c = CBS_len d" using same_len [OF 1(4)] by (simp add: CBS_len_def)
  show ?case
  proof (cases "CBS_len c > 0")
    case False
    then show ?thesis using len by (simp add: find_ber_loop.simps [of c] find_ber_loop.simps [of d])
  next
    case pos: True
    have el: "sameR (rel_prod same (=)) (CBS_get_any_ber_asn1_element c) (CBS_get_any_ber_asn1_element d)"
      by (rule reader.view_only [OF reader_CBS_get_any_ber_asn1_element 1(4)])
    obtain e c' where e: "CBS_get_any_ber_asn1_element c = (e, c')" by fastforce
    obtain g d' where g: "CBS_get_any_ber_asn1_element d = (g, d')" by fastforce
    have st: "same c' d'" and eg: "rel_option (rel_prod same (=)) e g" using el e g by (simp_all add: sameR_def)
    show ?thesis
    proof (cases e)
      case None
      then show ?thesis using eg e g len by (simp add: find_ber_loop.simps [of c] find_ber_loop.simps [of d])
    next
      case (Some x)
      then obtain out tag h where x: "e = Some (out, tag, h)" by (cases x) auto
      then obtain out2 where g2: "g = Some (out2, tag, h)" and so: "same out out2"
        using eg by (cases g) (auto elim: rel_prod.cases)
      obtain sk body where sk: "CBS_skip h out = (sk, body)" by fastforce
      obtain sk2 body2 where sk2: "CBS_skip h out2 = (sk2, body2)" by fastforce
      have ss: "same body body2" "rel_option (=) sk sk2"
        using reader.view_only [OF reader_CBS_skip so, of h] sk sk2 by (simp_all add: sameR_def)
      have ind: "is_indefinite h out = is_indefinite h out2" by (rule is_indefinite_same [OF so])
      show ?thesis
      proof (cases "is_indefinite h out")
        case True
        then show ?thesis using pos len e g x g2 ind
          by (simp add: find_ber_loop.simps [of c] find_ber_loop.simps [of d])
      next
        case ni: False
        note step = 1(1-3) [OF pos e [symmetric] x refl refl ni]
        show ?thesis
        proof (cases "tag AND CBS_ASN1_CONSTRUCTED \<noteq> 0")
          case False
          have "find_ber_loop c' f depth = find_ber_loop d' f depth"
            using 1(3) [OF pos e [symmetric] x refl refl ni False st] .
          then show ?thesis using pos len e g x g2 ind ni False
            by (simp add: find_ber_loop.simps [of c] find_ber_loop.simps [of d])
        next
          case con: True
          show ?thesis
          proof (cases "is_string_type tag \<or> sk = None \<or> depth + 1 > kMaxDepth")
            case True
            then show ?thesis using pos len e g x g2 ind ni con sk sk2 ss(2)
              by (cases sk; cases sk2) (auto simp: find_ber_loop.simps [of c] find_ber_loop.simps [of d])
          next
            case False
            then obtain u where u: "sk = Some u" by auto
            then have u2: "sk2 = Some u" using ss(2) by (cases sk2) auto
            have ns: "\<not> is_string_type tag" "\<not> depth + 1 > kMaxDepth" using False by auto
            have b: "find_ber_loop body False (depth + 1) = find_ber_loop body2 False (depth + 1)"
              using 1(1) [OF pos e [symmetric] x refl refl ni con ns(1) sk [symmetric] u ns(2) ss(1)] .
            have r: "find_ber_loop c' fd depth = find_ber_loop d' fd depth"
              if "find_ber_loop body False (depth + 1) = Some fd" for fd
              using 1(2) [OF pos e [symmetric] x refl refl ni con ns(1) sk [symmetric] u ns(2) that st] .
            show ?thesis using pos len e g x g2 ind ni con sk sk2 u u2 ns b r
              by (simp add: find_ber_loop.simps [of c] find_ber_loop.simps [of d] split: option.split)
          qed
        qed
      qed
    qed
  qed
qed

lemma cbs_find_ber_loop: "depth \<le> kMaxDepth \<Longrightarrow> cbs_find_ber c depth = find_ber_loop c False depth"
  by (cases c) (simp add: cbs_find_ber_def CBS_init_def CBS_data_def CBS_len_def)

text \<open>
  One turn of the loop over a constructed element with a definite length: the flag is what the
  search of its contents found, whatever was found before.
\<close>

lemma find_ber_constructed:
  assumes wf: "cbs_wf c" and view: "cbs_view c = der_element tag body @ rest" and len: "length body < 2 ^ 32"
    and tag: "tag AND CBS_ASN1_CONSTRUCTED \<noteq> 0" "\<not> is_string_type tag" and depth: "depth < kMaxDepth"
  shows "find_ber_loop c f depth =
    (case cbs_find_ber (CBS_init body (length body)) (depth + 1) of
       None \<Rightarrow> None
     | Some found \<Rightarrow> find_ber_loop (advance (length (der_element tag body)) c) found depth)"
proof -
  let ?c = "advance (length (der_element tag body)) c" and ?h = "length (der_header tag (length body))"
  obtain out where out: "CBS_get_any_ber_asn1_element c = (Some (out, tag, ?h), ?c)"
    "\<not> is_indefinite ?h out" "cbs_wf out" "cbs_view out = der_element tag body"
    using ber_get_der [OF wf view len] by blast
  have pos: "CBS_len c > 0" using ber_element_sizes [OF out(1)] by (simp add: CBS_len_def)
  have "?h \<le> cbs_len out"
    using length_der_element [of tag body] by (simp add: out(4) flip: length_cbs_view [OF out(3)])
  then have skip: "CBS_skip ?h out = (Some (), advance ?h out)" by (simp add: CBS_skip_advance)
  have "same (advance ?h out) (CBS_init body (length body))"
    using out(3,4) by (simp add: same_def cbs_wf_advance der_element_skip)
  then have "find_ber_loop (advance ?h out) False (depth + 1) = cbs_find_ber (CBS_init body (length body)) (depth + 1)"
    using depth by (subst cbs_find_ber_loop) (simp, rule find_ber_loop_same)
  then show ?thesis
    using tag depth pos by (simp add: find_ber_loop.simps [of c f] out skip)
qed

lemma find_ber_empty: "cbs_wf c \<Longrightarrow> cbs_view c = [] \<Longrightarrow> find_ber_loop c f depth = Some f"
  using length_cbs_view [of c] by (simp add: find_ber_loop.simps CBS_len_def)

lemma ber_hidden_by_sibling:
  assumes bad: "cbs_find_ber (CBS_init bad (length bad)) 2 = Some True"
    and tags: "\<forall>t \<in> {tag, t1, t2}. t AND CBS_ASN1_CONSTRUCTED \<noteq> 0 \<and> \<not> is_string_type t"
    and good: "der_forest (kMaxDepth - 2) good" "der_forest (kMaxDepth - 1) rest"
    and len: "length (der_element t1 bad @ der_element t2 good @ rest) < 2 ^ 32"
  shows "cbs_wf c \<Longrightarrow> cbs_view c = der_element tag (der_element t1 bad) \<Longrightarrow> cbs_find_ber c 0 = Some True"
    and "cbs_wf c \<Longrightarrow> cbs_view c = der_element tag (der_element t1 bad @ der_element t2 good @ rest) \<Longrightarrow>
      cbs_find_ber c 0 = Some False"
proof -
  have k: "(0::nat) < kMaxDepth" "1 < kMaxDepth" "2 \<le> kMaxDepth" by (simp_all add: kMaxDepth_def)
  have l1: "length bad < 2 ^ 32" "length good < 2 ^ 32" using len by (auto simp: der_element_def)
  have bl: "length (der_element t1 bad) < 2 ^ 32" using len by simp
  { fix c assume c: "cbs_wf c" "cbs_view c = der_element tag (der_element t1 bad)"
    have v: "cbs_view c = der_element tag (der_element t1 bad) @ []" using c(2) by simp
    let ?d = "CBS_init (der_element t1 bad) (length (der_element t1 bad))"
    have v1: "cbs_view ?d = der_element t1 bad @ []" by simp
    have "find_ber_loop (advance (length (der_element t1 bad)) ?d) True 1 = Some True"
      by (rule find_ber_empty) (simp_all add: cbs_wf_advance)
    then have "cbs_find_ber ?d 1 = Some True"
      using find_ber_constructed [OF _ v1 l1(1), of 1 False] tags bad k cbs_find_ber_loop [of 1 ?d] by (simp add: numeral_2_eq_2)
    moreover have "find_ber_loop (advance (length (der_element tag (der_element t1 bad))) c) True 0 = Some True"
      using c by (intro find_ber_empty) (simp_all add: cbs_wf_advance)
    ultimately show "cbs_find_ber c 0 = Some True"
      using find_ber_constructed [OF c(1) v bl, of 0 False] tags k cbs_find_ber_loop [of 0 c] by simp }
  { fix c assume c: "cbs_wf c" "cbs_view c = der_element tag (der_element t1 bad @ der_element t2 good @ rest)"
    define b where "b = der_element t1 bad @ der_element t2 good @ rest"
    have v: "cbs_view c = der_element tag b @ []" using c(2) by (simp add: b_def)
    have lb: "length b < 2 ^ 32" unfolding b_def by (rule len)
    let ?d = "CBS_init b (length b)"
    let ?d1 = "advance (length (der_element t1 bad)) ?d"
    let ?d2 = "advance (length (der_element t2 good)) ?d1"
    have v1: "cbs_view ?d = der_element t1 bad @ der_element t2 good @ rest" unfolding b_def by (rule CBS_init_view)
    have w1: "cbs_wf ?d1" "cbs_wf ?d2" by (simp_all add: cbs_wf_advance)
    have v2: "cbs_view ?d1 = der_element t2 good @ rest" unfolding cbs_view_advance v1 by simp
    have "cbs_find_ber (CBS_init good (length good)) 2 = Some False"
      using find_ber_forest [OF good(1), of "CBS_init good (length good)" 2] k by (subst cbs_find_ber_loop) simp_all
    moreover have "find_ber_loop ?d2 False 1 = Some False"
      by (rule find_ber_forest [OF good(2) w1(2)]) (unfold cbs_view_advance [of _ ?d1] v2, use k in simp_all)
    ultimately have "find_ber_loop ?d1 True 1 = Some False"
      using find_ber_constructed [OF w1(1) v2 l1(2), of 1 True] tags k by (simp add: numeral_2_eq_2)
    then have "cbs_find_ber ?d 1 = Some False"
      using find_ber_constructed [OF _ v1 l1(1), of 1 False] tags bad k cbs_find_ber_loop [of 1 ?d] by (simp add: numeral_2_eq_2)
    moreover have "find_ber_loop (advance (length (der_element tag b)) c) False 0 = Some False"
      using c v by (intro find_ber_empty) (simp_all add: cbs_wf_advance)
    ultimately show "cbs_find_ber c 0 = Some False"
      using find_ber_constructed [OF c(1) v lb, of 0 False] tags k cbs_find_ber_loop [of 0 c] by simp }
qed

section \<open>Implicitly tagged strings\<close>

lemma implicit_string_loop_yields:
  "represents s [] root [] \<Longrightarrow> cbs_wf c \<Longrightarrow> cbs_view c = concat (map (der_element tag) chunks) \<Longrightarrow>
   \<forall>k \<in> set chunks. length k < 2 ^ 32 \<Longrightarrow> length (root @ concat chunks) \<le> 2 ^ 62 \<Longrightarrow>
   yields mem s [] (root @ concat chunks) (implicit_string_loop mem tag c s)"
proof (induction chunks arbitrary: s root c)
  case Nil
  then have "CBS_len c = 0" using length_cbs_view [of c] by (simp add: CBS_len_def)
  with Nil show ?case by (simp add: implicit_string_loop.simps [of mem tag c] yields_def)
next
  case (Cons k chunks)
  let ?c = "advance (length (der_element tag k)) c"
  have view: "cbs_view c = der_element tag k @ concat (map (der_element tag) chunks)"
    using Cons.prems(3) by simp
  obtain chunk where chunk: "CBS_get_asn1 tag c = (Some chunk, ?c)" "cbs_wf chunk" "cbs_view chunk = k"
    using CBS_get_asn1_der [OF Cons.prems(2) view] Cons.prems(4) by auto
  have "CBS_len c > 0" using CBS_get_asn1_decreases [OF chunk(1)] by (simp add: CBS_len_def)
  moreover have "take (CBS_len chunk) (CBS_data chunk) = k"
    using chunk(3) by (simp add: cbs_view_def CBS_len_def CBS_data_def)
  ultimately have loop: "implicit_string_loop mem tag c s =
      on_ok (CBB_add_bytes mem k 0 s) (\<lambda>_. implicit_string_loop mem tag ?c)"
    by (simp add: implicit_string_loop.simps [of mem tag c] chunk(1))
  show ?case unfolding loop
  proof (rule yields_seq)
    show "yields mem s [] (root @ k) (CBB_add_bytes mem k 0 s)"
      using appender.appends_here [OF appender_add_bytes Cons.prems(1)] Cons.prems(5) by simp
    fix s' x assume "represents s' [] (root @ k) []"
    from Cons.IH [OF this cbs_wf_advance [OF Cons.prems(2)], of "length (der_element tag k)"] Cons.prems(4,5)
    show "yields mem s' [] (root @ concat (k # chunks)) (implicit_string_loop mem tag ?c s')"
      by (simp add: view)
  qed simp
qed


lemma implicit_string_constructed:
  assumes mem: "\<forall>k. mem k \<noteq> None" and outer: "outer AND CBS_ASN1_CONSTRUCTED = 0"
    and wf: "cbs_wf c" and view: "cbs_view c =
      der_element (outer OR CBS_ASN1_CONSTRUCTED) (concat (map (der_element inner) chunks)) @ rest"
    and len: "length (concat (map (der_element inner) chunks)) < 2 ^ 32"
    and small: "cbs_len c < 2 ^ 62"
  shows "\<exists>out st c'. CBS_get_asn1_implicit_string mem outer inner c = (Some (out, Some st), c') \<and>
    cbs_view out = concat chunks \<and> cbs_view c' = rest"
proof -
  let ?tag = "outer OR CBS_ASN1_CONSTRUCTED" and ?body = "concat (map (der_element inner) chunks)"
  have ne: "?tag \<noteq> outer"
  proof
    assume "?tag = outer"
    then have "CBS_ASN1_CONSTRUCTED = outer AND CBS_ASN1_CONSTRUCTED"
      by (metis and.commute or.commute word_bw_comms word_ao_absorbs(1))
    with outer show False by (simp add: CBS_ASN1_CONSTRUCTED_def CBS_ASN1_TAG_SHIFT_def)
  qed
  have "cbs_view c = der_tag ?tag @ der_length (length ?body) @ ?body @ rest"
    using view by (simp add: der_element_def der_header_def)
  from parse_asn1_tag_der [OF wf this] have peek: "\<not> CBS_peek_asn1_tag c outer"
    using ne by (simp add: CBS_peek_asn1_tag_def)
  obtain child where child: "CBS_get_asn1 ?tag c = (Some child, advance (length (der_element ?tag ?body)) c)"
    "cbs_wf child" "cbs_view child = ?body"
    using CBS_get_asn1_der [OF wf view len] .
  have chunks: "\<forall>k \<in> set chunks. length k < 2 ^ 32" "length (concat chunks) < 2 ^ 32"
  proof -
    have le: "length k \<le> length (der_element inner k)" for k by (simp add: der_element_def)
    show "\<forall>k \<in> set chunks. length k < 2 ^ 32"
    proof
      fix k assume "k \<in> set chunks"
      then have "length (der_element inner k) \<le> length ?body"
        by (auto simp: length_concat intro!: member_le_sum_list)
      with le [of k] len show "length k < 2 ^ 32" by simp
    qed
    have "length (concat chunks) \<le> length ?body"
      unfolding length_concat using le by (induction chunks) (auto intro: add_mono)
    with len show "length (concat chunks) < 2 ^ 32" by simp
  qed
  obtain s where s: "CBB_init mem (CBS_len c) = Some s" "represents s [] [] []" "can_resize (base s)"
    using CBB_init_represents [OF mem, of "CBS_len c"] small by (auto simp: CBS_len_def)
  have "yields mem s [] (concat chunks) (implicit_string_loop mem inner child s)"
    using implicit_string_loop_yields [OF s(2) child(2,3) chunks(1), of mem] chunks(2) by simp
  moreover have "ready mem (length (concat chunks)) (base s)" using mem s(3) by (simp add: ready_def)
  ultimately obtain s' where run: "implicit_string_loop mem inner child s = (Some (), s')"
    and rep: "represents s' [] (concat chunks) []"
    by (auto simp: yields_def split: prod.split_asm option.split_asm)
  obtain s'' where "CBB_finish mem 0 s' = (Some (buf (base s'), length (concat chunks)), s'')"
    and "take (length (concat chunks)) (buf (base s')) = concat chunks"
    using CBB_finish_represents [OF rep] by blast
  with run peek child(1) s(1) show ?thesis
    by (simp add: CBS_get_asn1_implicit_string_def view) (simp add: cbs_view_def CBS_init_def)
qed

end
