(* ===== verification/Base64.thy ===== *)
theory Base64
  imports ConstTime
begin

text \<open>
  \<open>crypto/base64/base64.c\<close> of BoringSSL. An output buffer is the list of the bytes written to
  it, the NUL that the encoders put after their output included; lengths that the C code
  returns are separate results. The incremental interface keeps an \<open>evp_encode_ctx\<close>.
\<close>

section \<open>Characters\<close>

definition constant_time_lt_args_8 :: "u8 \<Rightarrow> u8 \<Rightarrow> u8" where
  "constant_time_lt_args_8 a b = ucast (constant_time_msb_w (ucast a - ucast b))"

definition constant_time_in_range_8 :: "u8 \<Rightarrow> u8 \<Rightarrow> u8 \<Rightarrow> u8" where
  "constant_time_in_range_8 a lo hi = constant_time_lt_args_8 (a - lo) (hi - lo + 1)"

definition conv_bin2ascii :: "u8 \<Rightarrow> u8" where
  "conv_bin2ascii a =
     (let a = a AND 0x3f;
          ret = constant_time_select_8 (constant_time_eq_8 (ucast a) 62) 43 47;
          ret = constant_time_select_8 (constant_time_lt_args_8 a 62) (a - 52 + 48) ret;
          ret = constant_time_select_8 (constant_time_lt_args_8 a 52) (a - 26 + 97) ret
      in constant_time_select_8 (constant_time_lt_args_8 a 26) (a + 65) ret)"

definition base64_ascii_to_bin :: "u8 \<Rightarrow> u8" where
  "base64_ascii_to_bin a =
     (let is_upper = constant_time_in_range_8 a 65 90;
          is_lower = constant_time_in_range_8 a 97 122;
          is_digit = constant_time_in_range_8 a 48 57;
          is_plus = constant_time_eq_8 (ucast a) 43;
          is_slash = constant_time_eq_8 (ucast a) 47;
          is_equals = constant_time_eq_8 (ucast a) 61;
          ret = 0xff;
          ret = constant_time_select_8 is_upper (a - 65) ret;
          ret = constant_time_select_8 is_lower (a - 97 + 26) ret;
          ret = constant_time_select_8 is_digit (a - 48 + 52) ret;
          ret = constant_time_select_8 is_plus 62 ret;
          ret = constant_time_select_8 is_slash 63 ret
      in constant_time_select_8 is_equals 0 ret)"

lemma constant_time_lt_args: "constant_time_lt_args_8 a b = ct_mask (a < b)"
proof -
  have a: "unat (ucast a :: u64) = unat a" and b: "unat (ucast b :: u64) = unat b"
    by (simp_all add: unat_ucast_up)
  have "bit (ucast a - ucast b :: u64) 63 \<longleftrightarrow> a < b"
    using unat_8_less [of a] unat_8_less [of b]
    by (auto simp: bit_63_iff unat_sub_mod word_le_nat_alt word_less_nat_alt a b)
  then show ?thesis by (simp add: constant_time_lt_args_8_def constant_time_msb)
qed

lemma ucast_8_64_eq: "(ucast (a :: u8) :: u64) = ucast b \<longleftrightarrow> a = b"
  by (simp add: word_unat_eq_iff unat_ucast_up)

lemma constant_time_in_range:
  assumes "lo \<le> hi" and "unat hi < 255"
  shows "constant_time_in_range_8 a lo hi = ct_mask (lo \<le> a \<and> a \<le> hi)"
proof -
  have "a - lo < hi - lo + 1 \<longleftrightarrow> lo \<le> a \<and> a \<le> hi"
    using assms unat_8_less [of a] unat_8_less [of lo]
    by (auto simp: word_less_nat_alt word_le_nat_alt unat_sub_if' unat_word_ariths split: if_splits)
  then show ?thesis by (simp add: constant_time_in_range_8_def constant_time_lt_args)
qed

lemma conv_bin2ascii_eq:
  "conv_bin2ascii x =
     (let a = x AND 0x3f
      in if a < 26 then a + 65 else if a < 52 then a - 26 + 97
         else if a < 62 then a - 52 + 48 else if a = 62 then 43 else 47)"
proof -
  have "constant_time_eq_8 (ucast a) 62 = ct_mask (a = (62 :: u8))" for a
    using ucast_8_64_eq [of a 62] by (simp add: constant_time_eq_8_mask)
  then show ?thesis
    by (simp add: conv_bin2ascii_def constant_time_lt_args constant_time_select_8_mask Let_def)
qed

lemma base64_ascii_to_bin_eq:
  "base64_ascii_to_bin a =
     (if a = 61 then 0 else if a = 47 then 63 else if a = 43 then 62
      else if 48 \<le> a \<and> a \<le> 57 then a - 48 + 52
      else if 97 \<le> a \<and> a \<le> 122 then a - 97 + 26
      else if 65 \<le> a \<and> a \<le> 90 then a - 65 else 0xff)"
proof -
  have "constant_time_eq_8 (ucast a) 61 = ct_mask (a = 61)" "constant_time_eq_8 (ucast a) 47 = ct_mask (a = 47)"
    "constant_time_eq_8 (ucast a) 43 = ct_mask (a = 43)"
    using ucast_8_64_eq [of a 61] ucast_8_64_eq [of a 47] ucast_8_64_eq [of a 43]
    by (simp_all add: constant_time_eq_8_mask)
  then show ?thesis
    by (simp add: base64_ascii_to_bin_def constant_time_in_range constant_time_select_8_mask Let_def)
qed

lemma six_less: "unat ((x :: u8) AND 0x3f) < 64"
  using unat_and_mask [of x 6] by (simp add: mask_eq_exp_minus_1)

lemma ascii_to_bin_conv:
  "base64_ascii_to_bin (conv_bin2ascii x) = x AND 0x3f"
  "conv_bin2ascii x \<noteq> 61" "x AND 0x3f \<noteq> 0xff"
proof -
  obtain y where y: "x AND 0x3f = y" "unat y < 64" using six_less [of x] by blast
  show "x AND 0x3f \<noteq> 0xff" using y by auto
  show "conv_bin2ascii x \<noteq> 61" "base64_ascii_to_bin (conv_bin2ascii x) = x AND 0x3f"
    using y(2) unfolding conv_bin2ascii_eq base64_ascii_to_bin_eq y(1) Let_def
    by (auto simp: word_unat_eq_iff word_less_nat_alt word_le_nat_alt unat_word_ariths unat_sub_if'
        split: if_splits)
qed


section \<open>Encoding\<close>

record evp_encode_ctx =
  data_used :: nat
  data :: bytes
  eof_seen :: bool
  error_encountered :: bool

definition EVP_EncodedLength :: "nat \<Rightarrow> nat option" where
  "EVP_EncodedLength n =
     (if size_add n 2 < n then None
      else
        let n = size_add n 2 div 3
        in if size_mul n 4 div 4 \<noteq> n then None
           else
             let n = size_mul n 4
             in if size_add n 1 < n then None else Some (size_add n 1))"

definition EVP_EncodeInit :: evp_encode_ctx where
  "EVP_EncodeInit =
     \<lparr>data_used = 0, data = replicate 48 0, eof_seen = False, error_encountered = False\<rparr>"

definition encode_word :: "u32 \<Rightarrow> nat \<Rightarrow> u8" where
  "encode_word l n = conv_bin2ascii (ucast (drop_bit n l))"

text \<open>The loop of \<open>EVP_EncodeBlock\<close>; \<open>ret\<close> counts what is written to \<open>dst\<close>.\<close>

fun encode_quads :: "bytes \<Rightarrow> bytes" where
  "encode_quads [] = []"
| "encode_quads [a] =
     (let l = push_bit 16 (ucast a) in [encode_word l 18, encode_word l 12, 61, 61])"
| "encode_quads [a, b] =
     (let l = push_bit 16 (ucast a) OR push_bit 8 (ucast b)
      in [encode_word l 18, encode_word l 12, encode_word l 6, 61])"
| "encode_quads (a # b # c # src) =
     (let l = push_bit 16 (ucast a) OR push_bit 8 (ucast b) OR ucast c
      in [encode_word l 18, encode_word l 12, encode_word l 6, encode_word l 0] @ encode_quads src)"

definition EVP_EncodeBlock :: "bytes \<Rightarrow> bytes \<times> nat" where
  "EVP_EncodeBlock src = (encode_quads src @ [0], length (encode_quads src))"

text \<open>
  The loop over whole lines of \<open>EVP_EncodeUpdate\<close>: the output so far without its NUL, the
  count, which is \<open>None\<close> once it has overflowed, and the rest of the input.
\<close>

function encode_lines :: "bytes \<Rightarrow> bytes \<Rightarrow> nat \<Rightarrow> bytes \<times> nat option \<times> bytes" where
  "encode_lines inp out tot =
     (if length inp \<ge> 48 then
        let (dst, encoded) = EVP_EncodeBlock (take 48 inp);
            out = out @ take encoded dst @ [10]
        in if size_add (size_add tot encoded) 1 < tot then (out, None, drop 48 inp)
           else encode_lines (drop 48 inp) out (size_add tot (encoded + 1))
      else (out, Some tot, inp))"
  by pat_completeness auto
termination
  by (relation "measure (\<lambda>(inp, out, tot). length inp)") auto

declare encode_lines.simps [simp del]

definition EVP_EncodeUpdate :: "evp_encode_ctx \<Rightarrow> bytes \<Rightarrow> evp_encode_ctx \<times> bytes \<times> nat" where
  "EVP_EncodeUpdate ctx inp =
     (if length inp = 0 then (ctx, [], 0)
      else if 48 - data_used ctx > length inp then
        (ctx\<lparr>data := blit (data ctx) (data_used ctx) inp, data_used := data_used ctx + length inp\<rparr>, [], 0)
      else
        let (ctx, out, tot, inp) =
          (if data_used ctx \<noteq> 0 then
             let todo = 48 - data_used ctx;
                 d = blit (data ctx) (data_used ctx) (take todo inp);
                 (dst, encoded) = EVP_EncodeBlock d
             in (ctx\<lparr>data := d, data_used := 0\<rparr>, take encoded dst @ [10], encoded + 1, drop todo inp)
           else (ctx, [], 0, inp))
        in case encode_lines inp out tot of
             (out, None, rest) \<Rightarrow> (ctx, out @ [0], 0)
           | (out, Some tot, rest) \<Rightarrow>
               (ctx\<lparr>data := blit (data ctx) 0 rest, data_used := length rest\<rparr>,
                if out = [] then [] else out @ [0],
                if tot > INT_MAX then 0 else tot))"

definition EVP_EncodeFinal :: "evp_encode_ctx \<Rightarrow> evp_encode_ctx \<times> bytes \<times> nat" where
  "EVP_EncodeFinal ctx =
     (if data_used ctx = 0 then (ctx, [], 0)
      else
        let (dst, encoded) = EVP_EncodeBlock (take (data_used ctx) (data ctx))
        in (ctx\<lparr>data_used := 0\<rparr>, take encoded dst @ [10, 0], encoded + 1))"

section \<open>Decoding\<close>

definition EVP_DecodedLength :: "nat \<Rightarrow> nat option" where
  "EVP_DecodedLength n = (if n mod 4 \<noteq> 0 then None else Some (size_mul (n div 4) 3))"

definition EVP_DecodeInit :: evp_encode_ctx where
  "EVP_DecodeInit = EVP_EncodeInit"

definition base64_decode_quad :: "bytes \<Rightarrow> bytes option" where
  "base64_decode_quad q =
     (let a = base64_ascii_to_bin (q ! 0); b = base64_ascii_to_bin (q ! 1);
          c = base64_ascii_to_bin (q ! 2); d = base64_ascii_to_bin (q ! 3)
      in if a = 0xff \<or> b = 0xff \<or> c = 0xff \<or> d = 0xff then None
         else
           let v = push_bit 18 (ucast a) OR push_bit 12 (ucast b) OR push_bit 6 (ucast c) OR ucast d :: u32;
               padding_pattern = map (\<lambda>i. q ! i = 61) [0, 1, 2, 3]
           in if padding_pattern = [False, False, False, False] then
                Some [ucast (drop_bit 16 v), ucast (drop_bit 8 v), ucast v]
              else if padding_pattern = [False, False, False, True] then
                Some [ucast (drop_bit 16 v), ucast (drop_bit 8 v)]
              else if padding_pattern = [False, False, True, True] then
                Some [ucast (drop_bit 16 v)]
              else None)"

definition is_b64_space :: "u8 \<Rightarrow> bool" where
  "is_b64_space c \<longleftrightarrow> c = 32 \<or> c = 9 \<or> c = 13 \<or> c = 10"

text \<open>The loop of \<open>EVP_DecodeUpdate\<close>: \<open>None\<close> for \<open>return -1\<close>.\<close>

fun decode_chars :: "bytes \<Rightarrow> bytes \<Rightarrow> evp_encode_ctx \<Rightarrow> bytes option \<times> evp_encode_ctx" where
  "decode_chars [] out ctx = (Some out, ctx)"
| "decode_chars (c # inp) out ctx =
     (if is_b64_space c then decode_chars inp out ctx
      else if eof_seen ctx then (None, ctx\<lparr>error_encountered := True\<rparr>)
      else
        let ctx = ctx\<lparr>data := (data ctx)[data_used ctx := c], data_used := data_used ctx + 1\<rparr>
        in if data_used ctx = 4 then
             (case base64_decode_quad (data ctx) of
                None \<Rightarrow> (None, ctx\<lparr>error_encountered := True\<rparr>)
              | Some bs \<Rightarrow>
                  decode_chars inp (out @ bs)
                    (ctx\<lparr>data_used := 0, eof_seen := eof_seen ctx \<or> length bs < 3\<rparr>))
           else decode_chars inp out ctx)"

text \<open>The return value (-1, 0 or 1), the bytes written and \<open>*out_len\<close>.\<close>

definition EVP_DecodeUpdate :: "evp_encode_ctx \<Rightarrow> bytes \<Rightarrow> (int \<times> bytes \<times> nat) \<times> evp_encode_ctx" where
  "EVP_DecodeUpdate ctx inp =
     (if error_encountered ctx then ((- 1, [], 0), ctx)
      else case decode_chars inp [] ctx of
        (None, ctx) \<Rightarrow> ((- 1, [], 0), ctx)
      | (Some out, ctx) \<Rightarrow>
          if length out > INT_MAX then ((- 1, out, 0), ctx\<lparr>error_encountered := True\<rparr>)
          else ((if eof_seen ctx then 0 else 1, out, length out), ctx))"

definition EVP_DecodeFinal :: "evp_encode_ctx \<Rightarrow> int" where
  "EVP_DecodeFinal ctx = (if error_encountered ctx \<or> data_used ctx \<noteq> 0 then - 1 else 1)"

fun decode_quads :: "bytes \<Rightarrow> bytes option" where
  "decode_quads (a # b # c # d # inp) =
     (case base64_decode_quad [a, b, c, d] of
        None \<Rightarrow> None
      | Some bs \<Rightarrow>
          if length bs \<noteq> 3 \<and> inp \<noteq> [] then None
          else map_option (\<lambda>rest. bs @ rest) (decode_quads inp))"
| "decode_quads _ = Some []"

definition EVP_DecodeBase64 :: "nat \<Rightarrow> bytes \<Rightarrow> bytes option" where
  "EVP_DecodeBase64 max_out inp =
     (if length inp mod 4 \<noteq> 0 then None
      else case EVP_DecodedLength (length inp) of
        None \<Rightarrow> None
      | Some max_len \<Rightarrow> if max_out < max_len then None else decode_quads inp)"

definition pad_to_3 :: "bytes \<Rightarrow> bytes" where
  "pad_to_3 dst = dst @ replicate ((3 - length dst mod 3) mod 3) 0"

definition EVP_DecodeBlock :: "bytes \<Rightarrow> bytes option" where
  "EVP_DecodeBlock src =
     (let src = dropWhile (\<lambda>c. c = 32 \<or> c = 9) src;
          src = rev (dropWhile is_b64_space (rev src))
      in case EVP_DecodedLength (length src) of
           None \<Rightarrow> None
         | Some dst_len \<Rightarrow>
             if dst_len > INT_MAX then None
             else map_option pad_to_3 (EVP_DecodeBase64 dst_len src))"

section \<open>Quads\<close>

lemma sextets:
  assumes "\<And>n. bit l n \<Longrightarrow> n < 24"
  shows "push_bit 18 (ucast ((ucast (drop_bit 18 l) :: u8) AND 0x3f)) OR
    push_bit 12 (ucast ((ucast (drop_bit 12 l) :: u8) AND 0x3f)) OR
    push_bit 6 (ucast ((ucast (drop_bit 6 l) :: u8) AND 0x3f)) OR ucast ((ucast (drop_bit 0 l) :: u8) AND 0x3f) = (l :: u32)"
    (is "?v = l")
proof (rule bit_word_eqI)
  fix n assume n: "n < LENGTH(32)"
  have m: "(0x3f :: u8) = mask 6" by (simp add: mask_eq_exp_minus_1)
  consider "n < 6" | "6 \<le> n" "n < 12" | "12 \<le> n" "n < 18" | "18 \<le> n" "n < 24" | "24 \<le> n" by linarith
  then show "bit ?v n \<longleftrightarrow> bit l n"
  proof cases
    case 5
    then have "\<not> bit l n" using assms [of n] by auto
    with 5 show ?thesis unfolding m by (simp add: bit_simps)
  qed (use n in \<open>auto simp: m bit_simps\<close>)
qed

lemma octets:
  fixes a b c :: u8
  defines "l \<equiv> push_bit 16 (ucast a) OR push_bit 8 (ucast b) OR ucast c :: u32"
  shows "bit l n \<Longrightarrow> n < 24" "ucast (drop_bit 16 l) = a" "ucast (drop_bit 8 l) = b" "ucast l = c"
proof -
  have beyond: "8 \<le> i \<Longrightarrow> \<not> bit (x :: u8) i" for x i
    using bit_imp_le_length [of x i] by auto
  show "bit l n \<Longrightarrow> n < 24"
    unfolding l_def by (rule ccontr) (auto simp: bit_simps beyond)
  show "ucast (drop_bit 16 l) = a" "ucast (drop_bit 8 l) = b" "ucast l = c"
    unfolding l_def by (rule bit_word_eqI; simp add: bit_simps beyond)+
qed


lemma bin_encode_word:
  "base64_ascii_to_bin (encode_word l n) = ucast (drop_bit n l) AND 0x3f"
  "encode_word l n \<noteq> 61" "base64_ascii_to_bin (encode_word l n) \<noteq> 0xff"
  using ascii_to_bin_conv [of "ucast (drop_bit n l)"] by (simp_all add: encode_word_def)

lemma encode_word_not_space: "\<not> is_b64_space (encode_word l n)"
proof
  assume "is_b64_space (encode_word l n)"
  then have "base64_ascii_to_bin (encode_word l n) = 0xff"
    by (auto simp: is_b64_space_def base64_ascii_to_bin_eq word_le_nat_alt)
  with bin_encode_word(3) show False by blast
qed

lemma decode_quad_word:
  fixes l :: u32
  assumes "\<And>n. bit l n \<Longrightarrow> n < 24"
    and "base64_ascii_to_bin w = ucast (drop_bit 18 l) AND 0x3f" and "base64_ascii_to_bin w \<noteq> 0xff"
    and "base64_ascii_to_bin x = ucast (drop_bit 12 l) AND 0x3f" and "base64_ascii_to_bin x \<noteq> 0xff"
    and "base64_ascii_to_bin y = ucast (drop_bit 6 l) AND 0x3f" and "base64_ascii_to_bin y \<noteq> 0xff"
    and "base64_ascii_to_bin z = ucast (drop_bit 0 l) AND 0x3f" and "base64_ascii_to_bin z \<noteq> 0xff"
    and "w \<noteq> 61" and "x \<noteq> 61" and "y = 61 \<longrightarrow> z = 61"
  shows "base64_decode_quad [w, x, y, z] =
    Some (if y = 61 then [ucast (drop_bit 16 l)] else if z = 61 then [ucast (drop_bit 16 l), ucast (drop_bit 8 l)]
      else [ucast (drop_bit 16 l), ucast (drop_bit 8 l), ucast l])"
proof -
  have v: "push_bit 18 (ucast (base64_ascii_to_bin w)) OR push_bit 12 (ucast (base64_ascii_to_bin x)) OR
      push_bit 6 (ucast (base64_ascii_to_bin y)) OR ucast (base64_ascii_to_bin z) = (l :: u32)"
    unfolding assms(2,4,6,8) by (rule sextets) (rule assms(1))
  have q: "[w, x, y, z] ! 0 = w" "[w, x, y, z] ! 1 = x" "[w, x, y, z] ! 2 = y" "[w, x, y, z] ! 3 = z"
    by simp_all
  show ?thesis
    unfolding base64_decode_quad_def Let_def q v list.map
    using assms(3,5,7,9-) by auto
qed

lemma bin_equals: "base64_ascii_to_bin 61 = 0"
  by (simp add: base64_ascii_to_bin_eq)

lemma decode_quad_3: "base64_decode_quad (encode_quads [a, b, c]) = Some [a, b, c]"
proof -
  define l where "l = (push_bit 16 (ucast a) OR push_bit 8 (ucast b) OR ucast c :: u32)"
  note o = octets [of a b c, folded l_def]
  have "encode_quads [a, b, c] = [encode_word l 18, encode_word l 12, encode_word l 6, encode_word l 0]"
    by (simp add: l_def Let_def)
  with decode_quad_word [OF o(1) bin_encode_word(1,3) bin_encode_word(1,3) bin_encode_word(1,3) bin_encode_word(1,3)
      bin_encode_word(2) bin_encode_word(2)] bin_encode_word(2) o(2-4)
  show ?thesis by simp
qed

lemma low_bits_0:
  "(ucast (drop_bit 0 (push_bit 16 (ucast (a :: u8)) OR push_bit 8 (ucast (b :: u8)) :: u32)) :: u8) AND 0x3f = 0"
  "(ucast (drop_bit 0 (push_bit 16 (ucast (a :: u8)) :: u32)) :: u8) AND 0x3f = 0"
  "(ucast (drop_bit 6 (push_bit 16 (ucast (a :: u8)) :: u32)) :: u8) AND 0x3f = 0"
proof -
  have m: "(0x3f :: u8) = mask 6" by (simp add: mask_eq_exp_minus_1)
  show "(ucast (drop_bit 0 (push_bit 16 (ucast (a :: u8)) OR push_bit 8 (ucast (b :: u8)) :: u32)) :: u8) AND 0x3f = 0"
    "(ucast (drop_bit 0 (push_bit 16 (ucast (a :: u8)) :: u32)) :: u8) AND 0x3f = 0"
    "(ucast (drop_bit 6 (push_bit 16 (ucast (a :: u8)) :: u32)) :: u8) AND 0x3f = 0"
    unfolding m by (rule bit_word_eqI; simp add: bit_simps)+
qed

lemma decode_quad_2: "base64_decode_quad (encode_quads [a, b]) = Some [a, b]"
proof -
  define l where "l = (push_bit 16 (ucast a) OR push_bit 8 (ucast b) :: u32)"
  have l0: "push_bit 16 (ucast a) OR push_bit 8 (ucast b) OR ucast (0 :: u8) = l" by (simp add: l_def)
  note o = octets [of a b 0, unfolded l0]
  have z: "base64_ascii_to_bin 61 = ucast (drop_bit 0 l) AND 0x3f"
    unfolding bin_equals l_def by (rule low_bits_0(1) [symmetric])
  have zz: "base64_ascii_to_bin 61 \<noteq> 0xff" by (simp add: bin_equals)
  have "encode_quads [a, b] = [encode_word l 18, encode_word l 12, encode_word l 6, 61]"
    by (simp add: l_def Let_def)
  with decode_quad_word [OF o(1) bin_encode_word(1,3) bin_encode_word(1,3) bin_encode_word(1,3) z zz
      bin_encode_word(2) bin_encode_word(2)] bin_encode_word(2) o(2-3)
  show ?thesis by simp
qed

lemma decode_quad_1: "base64_decode_quad (encode_quads [a]) = Some [a]"
proof -
  define l where "l = (push_bit 16 (ucast a) :: u32)"
  have l0: "push_bit 16 (ucast a) OR push_bit 8 (ucast (0 :: u8)) OR ucast (0 :: u8) = l" by (simp add: l_def)
  note o = octets [of a 0 0, unfolded l0]
  have z: "base64_ascii_to_bin 61 = ucast (drop_bit 0 l) AND 0x3f" "base64_ascii_to_bin 61 = ucast (drop_bit 6 l) AND 0x3f"
    unfolding bin_equals l_def by (rule low_bits_0(2,3) [symmetric])+
  have zz: "base64_ascii_to_bin 61 \<noteq> 0xff" by (simp add: bin_equals)
  have "encode_quads [a] = [encode_word l 18, encode_word l 12, 61, 61]"
    by (simp add: l_def Let_def)
  with decode_quad_word [OF o(1) bin_encode_word(1,3) bin_encode_word(1,3) z(2) zz z(1) zz
      bin_encode_word(2) bin_encode_word(2)] o(2)
  show ?thesis by simp
qed

lemma encode_quads_Cons3: "encode_quads (a # b # c # src) = encode_quads [a, b, c] @ encode_quads src"
  by (simp add: Let_def)

text \<open>A quad's worth of characters.\<close>

lemma encode_quads_4:
  "src \<noteq> [] \<Longrightarrow> \<exists>w x y z. encode_quads (take 3 src) = [w, x, y, z] \<and>
     base64_decode_quad [w, x, y, z] = Some (take 3 src) \<and>
     \<not> is_b64_space w \<and> \<not> is_b64_space x \<and> \<not> is_b64_space y \<and> \<not> is_b64_space z"
proof -
  have eq: "\<not> is_b64_space 61" by (simp add: is_b64_space_def)
  assume "src \<noteq> []"
  then consider a where "take 3 src = [a]" | a b where "take 3 src = [a, b]" | a b c where "take 3 src = [a, b, c]"
    by (cases src rule: encode_quads.cases) auto
  then show ?thesis
  proof cases
    case 1 with decode_quad_1 [of a] eq encode_word_not_space show ?thesis by (auto simp: Let_def)
  next
    case 2 with decode_quad_2 [of a b] eq encode_word_not_space show ?thesis by (auto simp: Let_def)
  next
    case 3 with decode_quad_3 [of a b c] eq encode_word_not_space show ?thesis by (auto simp: Let_def)
  qed
qed

lemma encode_quads_step: "encode_quads src = encode_quads (take 3 src) @ encode_quads (drop 3 src)"
  by (cases src rule: encode_quads.cases) (simp_all add: Let_def)

lemma length_encode_quads: "length (encode_quads src) = (length src + 2) div 3 * 4"
proof (induction src rule: encode_quads.induct)
  case (4 a b c src)
  have "(length (a # b # c # src) + 2) div 3 = Suc ((length src + 2) div 3)" by simp
  with 4 show ?case by (simp add: Let_def)
qed (simp_all add: Let_def)

lemma decode_quads_encode: "decode_quads (encode_quads src) = Some src"
proof (induction src rule: length_induct)
  case (1 src)
  show ?case
  proof (cases "src = []")
    case False
    obtain w x y z where q: "encode_quads (take 3 src) = [w, x, y, z]"
      "base64_decode_quad [w, x, y, z] = Some (take 3 src)" using encode_quads_4 [OF False] by blast
    have IH: "decode_quads (encode_quads (drop 3 src)) = Some (drop 3 src)" using "1.IH" False by simp
    have "length (take 3 src) = 3 \<or> encode_quads (drop 3 src) = []"
      by (cases "3 \<le> length src") simp_all
    then show ?thesis
      using q IH by (subst encode_quads_step) auto
  qed simp
qed

text \<open>One-shot decoding inverts one-shot encoding.\<close>

lemma EVP_DecodeBase64_encode:
  assumes "length src < 2 ^ 62" and "length src + 2 \<le> max_out"
  shows "EVP_DecodeBase64 max_out (encode_quads src) = Some src"
proof -
  have "(length src + 2) div 3 * 3 < 2 ^ 64" using assms(1) div_times_less_eq_dividend [of "length src + 2" 3]
    by (intro le_less_trans [OF div_times_less_eq_dividend]) simp
  then show ?thesis
    using assms(2) div_times_less_eq_dividend [of "length src + 2" 3]
    by (simp add: EVP_DecodeBase64_def EVP_DecodedLength_def length_encode_quads size_mul_def decode_quads_encode)
qed



lemma EVP_EncodedLength_Some:
  assumes "EVP_EncodedLength n = Some r" and "n < 2 ^ 64"
  shows "r = (n + 2) div 3 * 4 + 1"
proof (cases "n + 2 < 2 ^ 64")
  case True
  let ?m = "(n + 2) div 3"
  have m: "size_add n 2 = n + 2" using True by (simp add: size_add_def)
  have "size_mul ?m 4 div 4 = ?m"
    using assms(1) unfolding EVP_EncodedLength_def Let_def m by (auto split: if_splits)
  then have "?m * 4 < 2 ^ 64"
    unfolding size_mul_def by (metis div_mult_mod_eq div_times_less_eq_dividend le_less_trans mod_less_divisor zero_less_numeral zero_less_power)
  then have "size_mul ?m 4 = ?m * 4" by (simp add: size_mul_def)
  moreover from \<open>?m * 4 < 2 ^ 64\<close> have "?m < 2 ^ 62" by simp
  then have "?m * 4 + 1 < 2 ^ 64" by simp
  then have "size_add (?m * 4) 1 = ?m * 4 + 1" by (simp add: size_add_def)
  ultimately show ?thesis
    using assms(1) unfolding EVP_EncodedLength_def Let_def m by (auto split: if_splits)
next
  case False
  then have "size_add n 2 < n" using assms(2) by (simp add: size_add_def mod_if)
  with assms(1) show ?thesis by (simp add: EVP_EncodedLength_def)
qed

section \<open>Encoding in pieces\<close>

text \<open>The lines of 48 input bytes that are complete, and what is left over.\<close>

function full_lines :: "bytes \<Rightarrow> bytes" where
  "full_lines bs =
     (if length bs < 48 then [] else encode_quads (take 48 bs) @ [10] @ full_lines (drop 48 bs))"
  by pat_completeness auto
termination by (relation "measure length") auto

declare full_lines.simps [simp del]

function leftover :: "bytes \<Rightarrow> bytes" where
  "leftover bs = (if length bs < 48 then bs else leftover (drop 48 bs))"
  by pat_completeness auto
termination by (relation "measure length") auto

declare leftover.simps [simp del]

definition base64_text :: "bytes \<Rightarrow> bytes" where
  "base64_text bs =
     full_lines bs @ (if leftover bs = [] then [] else encode_quads (leftover bs) @ [10])"

lemma full_lines_append: "full_lines (xs @ ys) = full_lines xs @ full_lines (leftover xs @ ys)"
proof (induction xs rule: full_lines.induct)
  case (1 xs)
  show ?case
  proof (cases "length xs < 48")
    case False
    then have "full_lines (xs @ ys) = encode_quads (take 48 xs) @ [10] @ full_lines (drop 48 xs @ ys)"
      by (subst full_lines.simps) simp
    also have "full_lines (drop 48 xs @ ys) = full_lines (drop 48 xs) @ full_lines (leftover (drop 48 xs) @ ys)"
      using "1.IH" False by simp
    finally show ?thesis
      using False by (simp add: full_lines.simps [of xs] leftover.simps [of xs])
  qed (simp add: full_lines.simps [of xs] leftover.simps [of xs])
qed

lemma leftover_append: "leftover (xs @ ys) = leftover (leftover xs @ ys)"
proof (induction xs rule: leftover.induct)
  case (1 xs)
  show ?case
  proof (cases "length xs < 48")
    case False
    then have "leftover (xs @ ys) = leftover (drop 48 xs @ ys)" by (subst leftover.simps) simp
    with "1.IH" False show ?thesis by (simp add: leftover.simps [of xs])
  qed (simp add: leftover.simps [of xs])
qed

lemma length_leftover: "length (leftover bs) < 48"
  by (induction bs rule: leftover.induct) (subst leftover.simps, simp)

lemma length_full_lines: "length (full_lines bs) \<le> 2 * length bs"
proof (induction bs rule: full_lines.induct)
  case (1 bs)
  show ?case
  proof (cases "length bs < 48")
    case False
    then have "length (full_lines bs) = 65 + length (full_lines (drop 48 bs))"
      by (subst full_lines.simps) (simp add: length_encode_quads min_def)
    with "1.IH" False show ?thesis by simp
  qed (simp add: full_lines.simps)
qed

lemma encode_lines_full:
  "tot + length (full_lines inp) < 2 ^ 63 \<Longrightarrow>
   encode_lines inp out tot = (out @ full_lines inp, Some (tot + length (full_lines inp)), leftover inp)"
proof (induction inp arbitrary: out tot rule: full_lines.induct)
  case (1 inp)
  show ?case
  proof (cases "length inp < 48")
    case False
    let ?e = "encode_quads (take 48 inp)"
    have e: "length ?e = 64" using False by (simp add: length_encode_quads min_def)
    have f: "full_lines inp = ?e @ [10] @ full_lines (drop 48 inp)" using False by (subst full_lines.simps) simp
    have small: "tot + 65 + length (full_lines (drop 48 inp)) < 2 ^ 63" using "1.prems" by (simp add: f e)
    then have s: "\<not> size_add (size_add tot 64) 1 < tot" "size_add tot (64 + 1) = tot + 65"
      by (simp_all add: size_add_def)
    have "encode_lines inp out tot = encode_lines (drop 48 inp) (out @ ?e @ [10]) (tot + 65)"
      using False s by (subst encode_lines.simps) (simp add: EVP_EncodeBlock_def e Let_def)
    moreover have "encode_lines (drop 48 inp) (out @ ?e @ [10]) (tot + 65) =
        ((out @ ?e @ [10]) @ full_lines (drop 48 inp), Some (tot + 65 + length (full_lines (drop 48 inp))), leftover (drop 48 inp))"
      using small by (intro "1.IH" [OF False])
    ultimately show ?thesis using False by (simp add: f e leftover.simps [of inp])
  qed (simp add: encode_lines.simps [of inp] full_lines.simps [of inp] leftover.simps [of inp])
qed

definition encode_ctx_ok :: "evp_encode_ctx \<Rightarrow> bool" where
  "encode_ctx_ok ctx \<longleftrightarrow> data_used ctx < 48 \<and> length (data ctx) = 48"

definition pending :: "evp_encode_ctx \<Rightarrow> bytes" where
  "pending ctx = take (data_used ctx) (data ctx)"

lemma length_pending: "encode_ctx_ok ctx \<Longrightarrow> length (pending ctx) = data_used ctx"
  by (simp add: encode_ctx_ok_def pending_def)

lemma EVP_EncodeUpdate_lines:
  assumes ok: "encode_ctx_ok ctx" and len: "length inp \<le> 2 ^ 29"
    and run: "EVP_EncodeUpdate ctx inp = (ctx', out, n)"
  shows "encode_ctx_ok ctx' \<and> pending ctx' = leftover (pending ctx @ inp) \<and>
    take n out = full_lines (pending ctx @ inp) \<and> n = length (full_lines (pending ctx @ inp))"
proof (cases "inp = []")
  case True
  then show ?thesis
    using run ok length_pending [OF ok]
    by (auto simp: EVP_EncodeUpdate_def encode_ctx_ok_def leftover.simps [of "pending ctx'"] full_lines.simps [of "pending ctx'"])
next
  case ne: False
  show ?thesis
  proof (cases "48 - data_used ctx > length inp")
    case True
    then have "ctx' = ctx\<lparr>data := blit (data ctx) (data_used ctx) inp, data_used := data_used ctx + length inp\<rparr>"
      "out = []" "n = 0"
      using run ne by (auto simp: EVP_EncodeUpdate_def)
    moreover have "length (pending ctx @ inp) < 48" using True length_pending [OF ok] by simp
    then have "leftover (pending ctx @ inp) = pending ctx @ inp" "full_lines (pending ctx @ inp) = []"
      by (simp_all add: leftover.simps [of "pending ctx @ inp"] full_lines.simps [of "pending ctx @ inp"])
    ultimately show ?thesis
      using True ok by (simp add: encode_ctx_ok_def pending_def take_blit_upto)
  next
    case False
    have fl: "length (full_lines (pending ctx @ inp)) \<le> INT_MAX"
      using length_full_lines [of "pending ctx @ inp"] length_pending [OF ok] ok len
      by (simp add: encode_ctx_ok_def INT_MAX_def)
    have lo: "length (leftover bs) < 48" for bs by (rule length_leftover)
    have rest: "encode_ctx_ok (c\<lparr>data := blit (data c) 0 (leftover bs), data_used := length (leftover bs)\<rparr>) \<and>
        pending (c\<lparr>data := blit (data c) 0 (leftover bs), data_used := length (leftover bs)\<rparr>) = leftover bs"
      if "length (data c) = 48" for c :: evp_encode_ctx and bs
      using that lo [of bs] take_blit_upto [of 0 "data c" "leftover bs"] by (simp add: encode_ctx_ok_def pending_def)
    show ?thesis
    proof (cases "data_used ctx = 0")
      case True
      then have p: "pending ctx = []" by (simp add: pending_def)
      have "encode_lines inp [] 0 = (full_lines inp, Some (length (full_lines inp)), leftover inp)"
        using fl encode_lines_full [of 0 inp "[]"] by (simp add: p INT_MAX_def)
      then have "ctx' = ctx\<lparr>data := blit (data ctx) 0 (leftover inp), data_used := length (leftover inp)\<rparr>"
        "take n out = full_lines inp" "n = length (full_lines inp)"
        using run ne False True fl by (auto simp: EVP_EncodeUpdate_def p split: if_splits)
      with rest [of ctx inp] ok show ?thesis by (simp add: p encode_ctx_ok_def)
    next
      case used: False
      let ?todo = "48 - data_used ctx"
      let ?d = "blit (data ctx) (data_used ctx) (take ?todo inp)"
      have todo: "?todo \<le> length inp" using False by simp
      have d: "?d = pending ctx @ take ?todo inp"
      proof -
        have "take 48 ?d = take (data_used ctx + length (take ?todo inp)) ?d" using todo ok by (simp add: encode_ctx_ok_def min_def)
        also have "\<dots> = pending ctx @ take ?todo inp"
          using ok by (subst take_blit_upto) (simp_all add: encode_ctx_ok_def pending_def)
        finally show ?thesis using ok todo by (simp add: encode_ctx_ok_def min_def)
      qed
      have ld: "length ?d = 48" using ok todo by (simp add: encode_ctx_ok_def min_def)
      have split: "pending ctx @ inp = ?d @ drop ?todo inp" by (simp add: d)
      have full: "full_lines (pending ctx @ inp) = encode_quads ?d @ [10] @ full_lines (drop ?todo inp)"
        unfolding split using ld by (subst full_lines.simps) simp
      have left: "leftover (pending ctx @ inp) = leftover (drop ?todo inp)"
        unfolding split using ld by (subst leftover.simps) simp
      have "encode_lines (drop ?todo inp) (encode_quads ?d @ [10]) (length (encode_quads ?d) + 1) =
          (full_lines (pending ctx @ inp), Some (length (full_lines (pending ctx @ inp))), leftover (pending ctx @ inp))"
        using fl by (subst encode_lines_full) (simp_all add: full left INT_MAX_def)
      then have "ctx' = ctx\<lparr>data := blit ?d 0 (leftover (pending ctx @ inp)), data_used := length (leftover (pending ctx @ inp))\<rparr>"
        "take n out = full_lines (pending ctx @ inp)" "n = length (full_lines (pending ctx @ inp))"
        using run ne False used fl by (auto simp: EVP_EncodeUpdate_def EVP_EncodeBlock_def Let_def split: if_splits)
      with rest [of "ctx\<lparr>data := ?d\<rparr>" "pending ctx @ inp"] ld show ?thesis by simp
    qed
  qed
qed

text \<open>Any way of cutting the input into pieces gives the same text.\<close>

fun encode_pieces :: "evp_encode_ctx \<Rightarrow> bytes list \<Rightarrow> bytes" where
  "encode_pieces ctx [] = (case EVP_EncodeFinal ctx of (_, out, n) \<Rightarrow> take n out)"
| "encode_pieces ctx (p # ps) =
     (case EVP_EncodeUpdate ctx p of (ctx', out, n) \<Rightarrow> take n out @ encode_pieces ctx' ps)"

lemma encode_pieces_text:
  "encode_ctx_ok ctx \<Longrightarrow> \<forall>p \<in> set ps. length p \<le> 2 ^ 29 \<Longrightarrow>
   encode_pieces ctx ps = base64_text (pending ctx @ concat ps)"
proof (induction ps arbitrary: ctx)
  case Nil
  then have "length (pending ctx) < 48" using length_pending by (simp add: encode_ctx_ok_def)
  then show ?case
    using length_pending [OF Nil(1)]
    by (auto simp: EVP_EncodeFinal_def EVP_EncodeBlock_def base64_text_def full_lines.simps [of "pending ctx"]
        leftover.simps [of "pending ctx"] Let_def simp flip: pending_def)
next
  case (Cons p ps)
  obtain ctx' out n where u: "EVP_EncodeUpdate ctx p = (ctx', out, n)" by (metis prod_cases3)
  have s: "encode_ctx_ok ctx'" "pending ctx' = leftover (pending ctx @ p)" "take n out = full_lines (pending ctx @ p)"
    using EVP_EncodeUpdate_lines [OF Cons.prems(1) _ u] Cons.prems(2) by auto
  have "encode_pieces ctx' ps = base64_text (leftover (pending ctx @ p) @ concat ps)"
    using Cons.IH [OF s(1)] Cons.prems(2) by (simp add: s(2))
  then show ?case
    using full_lines_append [of "pending ctx @ p" "concat ps"] leftover_append [of "pending ctx @ p" "concat ps"]
    by (simp add: u s(3) base64_text_def)
qed


section \<open>Decoding in pieces\<close>

lemma decode_chars_append:
  "decode_chars (xs @ ys) out ctx =
     (case decode_chars xs out ctx of
        (None, ctx') \<Rightarrow> (None, ctx')
      | (Some out', ctx') \<Rightarrow> decode_chars ys out' ctx')"
  by (induction xs out ctx rule: decode_chars.induct) (auto simp: Let_def split: option.splits)

lemma decode_chars_out:
  "decode_chars xs out ctx =
     (case decode_chars xs [] ctx of (None, ctx') \<Rightarrow> (None, ctx') | (Some o', ctx') \<Rightarrow> (Some (out @ o'), ctx'))"
proof (induction xs arbitrary: out ctx)
  case (Cons c xs)
  show ?case
  proof (cases "is_b64_space c \<or> eof_seen ctx")
    case True
    then show ?thesis using Cons.IH [of out ctx] by auto
  next
    case False
    let ?ctx = "ctx\<lparr>data := (data ctx)[data_used ctx := c], data_used := data_used ctx + 1\<rparr>"
    show ?thesis
    proof (cases "data_used ?ctx = 4 \<and> base64_decode_quad (data ?ctx) \<noteq> None")
      case True
      then obtain bs where bs: "base64_decode_quad (data ?ctx) = Some bs" by auto
      let ?c2 = "?ctx\<lparr>data_used := 0, eof_seen := eof_seen ctx \<or> length bs < 3\<rparr>"
      have "decode_chars (c # xs) o0 ctx = decode_chars xs (o0 @ bs) ?c2" for o0
        using True False bs by (simp add: Let_def)
      then show ?thesis
        using Cons.IH [of "out @ bs" ?c2] Cons.IH [of bs ?c2] by (auto split: prod.splits option.splits)
    next
      case no: False
      then show ?thesis
        using False Cons.IH [of out ?ctx] by (auto simp: Let_def split: option.splits)
    qed
  qed
qed simp

lemma quad_first_four: "base64_decode_quad (w # x # y # z # r) = base64_decode_quad [w, x, y, z]"
  unfolding base64_decode_quad_def list.map Let_def by simp

lemma decode_chars_quad:
  assumes "data_used ctx = 0" and "4 \<le> length (data ctx)" and "\<not> eof_seen ctx"
    and "base64_decode_quad [w, x, y, z] = Some bs"
    and "\<not> is_b64_space w" "\<not> is_b64_space x" "\<not> is_b64_space y" "\<not> is_b64_space z"
  shows "\<exists>d. length d = length (data ctx) \<and> decode_chars (w # x # y # z # rest) out ctx =
    decode_chars rest (out @ bs) (ctx\<lparr>data := d, data_used := 0, eof_seen := length bs < 3\<rparr>)"
proof -
  obtain a b c e r where d: "data ctx = a # b # c # e # r"
    using assms(2) by (auto simp: Suc_le_length_iff numeral_eq_Suc)
  have "decode_chars (w # x # y # z # rest) out ctx =
    decode_chars rest (out @ bs) (ctx\<lparr>data := w # x # y # z # r, data_used := 0, eof_seen := length bs < 3\<rparr>)"
    using assms by (simp add: d Let_def quad_first_four [of w x y z r])
  then show ?thesis using d by (intro exI [of _ "w # x # y # z # r"]) simp
qed

definition decode_ctx_ok :: "evp_encode_ctx \<Rightarrow> bool" where
  "decode_ctx_ok ctx \<longleftrightarrow> data_used ctx = 0 \<and> 4 \<le> length (data ctx) \<and> \<not> error_encountered ctx"

lemma decode_chars_encode:
  "decode_ctx_ok ctx \<Longrightarrow> \<not> eof_seen ctx \<Longrightarrow>
   \<exists>ctx'. decode_chars (encode_quads src) out ctx = (Some (out @ src), ctx') \<and> decode_ctx_ok ctx' \<and>
     (eof_seen ctx' \<longleftrightarrow> length src mod 3 \<noteq> 0)"
proof (induction src arbitrary: out ctx rule: length_induct)
  case (1 src)
  show ?case
  proof (cases "src = []")
    case False
    obtain w x y z where q: "encode_quads (take 3 src) = [w, x, y, z]"
      "base64_decode_quad [w, x, y, z] = Some (take 3 src)"
      "\<not> is_b64_space w" "\<not> is_b64_space x" "\<not> is_b64_space y" "\<not> is_b64_space z"
      using encode_quads_4 [OF False] by blast
    have enc: "encode_quads src = w # x # y # z # encode_quads (drop 3 src)"
      using q(1) encode_quads_step [of src] by simp
    obtain d where d: "length d = length (data ctx)"
      "decode_chars (encode_quads src) out ctx = decode_chars (encode_quads (drop 3 src)) (out @ take 3 src)
        (ctx\<lparr>data := d, data_used := 0, eof_seen := length (take 3 src) < 3\<rparr>)" (is "_ = decode_chars _ _ ?c")
      using decode_chars_quad [OF _ _ "1.prems"(2) q(2-6)] "1.prems"(1) unfolding enc decode_ctx_ok_def by blast
    have ok: "decode_ctx_ok ?c" using "1.prems"(1) d(1) by (simp add: decode_ctx_ok_def)
    show ?thesis
    proof (cases "3 \<le> length src")
      case True
      then have "\<not> eof_seen ?c" "length (drop 3 src) < length src" by (simp_all add: min_def)
      with "1.IH" ok obtain ctx' where "decode_chars (encode_quads (drop 3 src)) (out @ take 3 src) ?c =
          (Some ((out @ take 3 src) @ drop 3 src), ctx')" "decode_ctx_ok ctx'" "eof_seen ctx' \<longleftrightarrow> length (drop 3 src) mod 3 \<noteq> 0"
        by blast
      moreover have "length (drop 3 src) mod 3 = length src mod 3" using True by (simp add: le_mod_geq)
      ultimately show ?thesis using d(2) by simp
    next
      case short: False
      then have "length src mod 3 = length src" "length src \<noteq> 0" using False by simp_all
      with short d(2) ok show ?thesis by (simp add: min_def)
    qed
  qed (use 1 in \<open>simp\<close>)
qed

lemma decode_chars_newline: "decode_chars (10 # rest) out ctx = decode_chars rest out ctx"
  by (simp add: is_b64_space_def)

lemma base64_text_step:
  "base64_text bs = (if length bs < 48 then if bs = [] then [] else encode_quads bs @ [10]
     else encode_quads (take 48 bs) @ 10 # base64_text (drop 48 bs))"
  by (auto simp: base64_text_def full_lines.simps [of bs] leftover.simps [of bs])

lemma decode_chars_text:
  "decode_ctx_ok ctx \<Longrightarrow> \<not> eof_seen ctx \<Longrightarrow>
   \<exists>ctx'. decode_chars (base64_text bs) out ctx = (Some (out @ bs), ctx') \<and> decode_ctx_ok ctx' \<and>
     (eof_seen ctx' \<longleftrightarrow> length bs mod 3 \<noteq> 0)"
proof (induction bs arbitrary: out ctx rule: full_lines.induct)
  case (1 bs)
  show ?case
  proof (cases "length bs < 48")
    case True
    then show ?thesis
      using decode_chars_encode [OF "1.prems", of bs out] "1.prems"
      by (cases "bs = []")
        (auto simp: base64_text_step [of bs] base64_text_step [of "[]"] decode_chars_append is_b64_space_def)
  next
    case False
    obtain ctx1 where c1: "decode_chars (encode_quads (take 48 bs)) out ctx = (Some (out @ take 48 bs), ctx1)"
      "decode_ctx_ok ctx1" "\<not> eof_seen ctx1"
      using decode_chars_encode [OF "1.prems", of "take 48 bs" out] False by (auto simp: min_def)
    obtain ctx2 where c2: "decode_chars (base64_text (drop 48 bs)) (out @ take 48 bs) ctx1 =
        (Some ((out @ take 48 bs) @ drop 48 bs), ctx2)" "decode_ctx_ok ctx2" "eof_seen ctx2 \<longleftrightarrow> length (drop 48 bs) mod 3 \<noteq> 0"
      using "1.IH" [OF False c1(2,3)] by blast
    have "length (drop 48 bs) mod 3 = length bs mod 3"
    proof -
      have "length bs = length (drop 48 bs) + 16 * 3" using False by simp
      then show ?thesis by (metis mod_mult_self1)
    qed
    with c2 show ?thesis
      using False by (simp add: base64_text_step [of bs] decode_chars_append c1(1) is_b64_space_def)
  qed
qed

lemma decode_text:
  assumes "length bs \<le> INT_MAX"
  shows "\<exists>ctx. EVP_DecodeUpdate EVP_DecodeInit (base64_text bs) =
      ((if length bs mod 3 = 0 then 1 else 0, bs, length bs), ctx) \<and> EVP_DecodeFinal ctx = 1"
proof -
  have "decode_ctx_ok EVP_DecodeInit" "\<not> eof_seen EVP_DecodeInit"
    by (simp_all add: decode_ctx_ok_def EVP_DecodeInit_def EVP_EncodeInit_def)
  from decode_chars_text [OF this, of bs "[]"] assms show ?thesis
    by (auto simp: EVP_DecodeUpdate_def EVP_DecodeInit_def EVP_EncodeInit_def EVP_DecodeFinal_def
        decode_ctx_ok_def)
qed

text \<open>The characters may come in any pieces.\<close>

fun decode_pieces :: "evp_encode_ctx \<Rightarrow> bytes list \<Rightarrow> bytes option \<times> evp_encode_ctx" where
  "decode_pieces ctx [] = (Some [], ctx)"
| "decode_pieces ctx (p # ps) =
     (case EVP_DecodeUpdate ctx p of
        ((r, out, n), ctx') \<Rightarrow>
          if r = - 1 then (None, ctx')
          else (case decode_pieces ctx' ps of (o', c) \<Rightarrow> (map_option ((@) (take n out)) o', c)))"

lemma EVP_DecodeUpdate_ok:
  "\<not> error_encountered ctx \<Longrightarrow> decode_chars p [] ctx = (Some out, ctx') \<Longrightarrow> length out \<le> INT_MAX \<Longrightarrow>
   \<exists>r. r \<noteq> - 1 \<and> EVP_DecodeUpdate ctx p = ((r, out, length out), ctx')"
  by (auto simp: EVP_DecodeUpdate_def)

lemma decode_chars_error: "decode_chars p out ctx = (Some o', ctx') \<Longrightarrow> error_encountered ctx' = error_encountered ctx"
  by (induction p out ctx rule: decode_chars.induct) (auto simp: Let_def split: if_splits option.splits)

lemma decode_pieces_concat:
  "\<not> error_encountered ctx \<Longrightarrow> decode_chars (concat ps) [] ctx = (Some out, ctx') \<Longrightarrow>
   length out \<le> INT_MAX \<Longrightarrow> decode_pieces ctx ps = (Some out, ctx')"
proof (induction ps arbitrary: ctx out)
  case (Cons p ps)
  obtain o1 c1 where p: "decode_chars p [] ctx = (Some o1, c1)"
    and rest: "decode_chars (concat ps) o1 c1 = (Some out, ctx')"
    using Cons.prems(2) by (auto simp: decode_chars_append split: prod.split_asm option.split_asm)
  obtain o2 where o2: "decode_chars (concat ps) [] c1 = (Some o2, ctx')" "out = o1 @ o2"
    using rest decode_chars_out [of "concat ps" o1 c1] by (auto split: prod.split_asm option.split_asm)
  obtain r where "r \<noteq> - 1" "EVP_DecodeUpdate ctx p = ((r, o1, length o1), c1)"
    using EVP_DecodeUpdate_ok [OF Cons.prems(1) p] Cons.prems(3) o2(2) by auto
  moreover have "decode_pieces c1 ps = (Some o2, ctx')"
    using Cons.prems(1,3) o2 decode_chars_error [OF p] by (intro Cons.IH) simp_all
  ultimately show ?case by (simp add: o2(2))
qed simp

end
