(* ===== verification/Stack.thy ===== *)
theory Stack
  imports Mem Libc
begin

text \<open>
  \<open>stack/stack.c\<close>: the growable array of pointers behind every \<open>STACK_OF\<close> type. A pointer
  is a 64-bit word, a function pointer a number; what the functions behind the pointers do is
  a parameter (\<open>call_cmp\<close> compares what two pointers point to, as \<open>call_cmp_func\<close> does in the
  code). The stack itself may be the null pointer, so the operations work on \<open>stack option\<close>.
\<close>

type_synonym ptr = u64
type_synonym fn = nat
type_synonym palloc = "nat \<Rightarrow> ptr list option"
type_synonym call_cmp = "fn \<Rightarrow> ptr \<Rightarrow> ptr \<Rightarrow> int"

abbreviation NULL :: ptr where
  "NULL \<equiv> 0"

record stack =
  st_num :: nat
  st_data :: "ptr list"
  st_sorted :: bool
  st_num_alloc :: nat
  st_comp :: "fn option"

definition kMinSize :: nat where
  "kMinSize = 4"

definition sk_new :: "palloc \<Rightarrow> fn option \<Rightarrow> stack option" where
  "sk_new mem cf =
     (case ossl_malloc 8 mem NULL 40 of
        None \<Rightarrow> None
      | Some _ \<Rightarrow>
          (case ossl_malloc 8 mem NULL (size_mul 8 kMinSize) of
             None \<Rightarrow> None
           | Some d \<Rightarrow>
               Some \<lparr>st_num = 0, st_data = blit d 0 (replicate kMinSize NULL), st_sorted = False,
                     st_num_alloc = kMinSize, st_comp = cf\<rparr>))"

definition sk_new_null :: "palloc \<Rightarrow> stack option" where
  "sk_new_null mem = sk_new mem None"

definition sk_num :: "stack option \<Rightarrow> nat" where
  "sk_num sk = (case sk of None \<Rightarrow> 0 | Some s \<Rightarrow> st_num s)"

definition sk_zero :: "stack option \<Rightarrow> stack option" where
  "sk_zero sk =
     (case sk of
        None \<Rightarrow> None
      | Some s \<Rightarrow>
          if st_num s = 0 then Some s
          else Some (s\<lparr>st_data := blit (st_data s) 0 (replicate (st_num s) NULL), st_num := 0, st_sorted := False\<rparr>))"

definition sk_value :: "stack option \<Rightarrow> nat \<Rightarrow> ptr" where
  "sk_value sk i =
     (case sk of None \<Rightarrow> NULL | Some s \<Rightarrow> if i \<ge> st_num s then NULL else st_data s ! i)"

definition sk_set :: "stack option \<Rightarrow> nat \<Rightarrow> ptr \<Rightarrow> ptr \<times> stack option" where
  "sk_set sk i v =
     (case sk of
        None \<Rightarrow> (NULL, None)
      | Some s \<Rightarrow>
          if i \<ge> st_num s then (NULL, Some s) else (v, Some (s\<lparr>st_data := (st_data s)[i := v]\<rparr>)))"

text \<open>\<open>sk_pop_free_ex\<close> frees the stack; its result is the sequence of calls of \<open>free_func\<close>.\<close>

definition sk_pop_free_ex :: "stack option \<Rightarrow> ptr list" where
  "sk_pop_free_ex sk =
     (case sk of None \<Rightarrow> [] | Some s \<Rightarrow> filter (\<lambda>p. p \<noteq> NULL) (map ((!) (st_data s)) [0..<st_num s]))"

definition sk_pop_free :: "stack option \<Rightarrow> ptr list" where
  "sk_pop_free sk = sk_pop_free_ex sk"

text \<open>The growth of \<open>sk_insert\<close>: doubling, or one more if that overflows, or failure.\<close>

definition sk_grow :: "palloc \<Rightarrow> stack \<Rightarrow> stack option" where
  "sk_grow mem s =
     (let fits = (\<lambda>n. \<not> (n < st_num_alloc s \<or> size_mul n 8 div 8 \<noteq> n));
          new_alloc = size_mul (st_num_alloc s) 2;
          new_alloc = (if fits new_alloc then new_alloc else size_add (st_num_alloc s) 1)
      in if \<not> fits new_alloc then None
         else
           (case ossl_realloc 8 mem NULL (Some (st_data s)) (size_mul new_alloc 8) of
              None \<Rightarrow> None
            | Some d \<Rightarrow> Some (s\<lparr>st_data := d, st_num_alloc := new_alloc\<rparr>)))"

definition sk_put :: "stack \<Rightarrow> ptr \<Rightarrow> nat \<Rightarrow> nat \<times> stack" where
  "sk_put s p pos =
     (let d = (if pos \<ge> st_num s then (st_data s)[st_num s := p]
               else (blit (st_data s) (pos + 1) (take (st_num s - pos) (drop pos (st_data s))))[pos := p]);
          n = size_add (st_num s) 1
      in (n, s\<lparr>st_data := d, st_num := n, st_sorted := False\<rparr>))"

definition sk_insert :: "palloc \<Rightarrow> stack option \<Rightarrow> ptr \<Rightarrow> nat \<Rightarrow> nat \<times> stack option" where
  "sk_insert mem sk p pos =
     (case sk of
        None \<Rightarrow> (0, None)
      | Some s \<Rightarrow>
          (case (if st_num_alloc s \<le> size_add (st_num s) 1 then sk_grow mem s else Some s) of
             None \<Rightarrow> (0, Some s)
           | Some s \<Rightarrow> (case sk_put s p pos of (n, s') \<Rightarrow> (n, Some s'))))"

definition sk_delete :: "stack option \<Rightarrow> nat \<Rightarrow> ptr \<times> stack option" where
  "sk_delete sk pos =
     (case sk of
        None \<Rightarrow> (NULL, None)
      | Some s \<Rightarrow>
          if pos \<ge> st_num s then (NULL, Some s)
          else
            (st_data s ! pos,
             Some (s\<lparr>st_data := (if pos \<noteq> st_num s - 1
                  then blit (st_data s) pos (take (st_num s - pos - 1) (drop (pos + 1) (st_data s)))
                  else st_data s),
                st_num := st_num s - 1\<rparr>)))"

text \<open>The linear searches: the first of \<open>k\<close> entries from index \<open>i\<close> on that satisfies \<open>P\<close>.\<close>

fun sk_scan :: "('p \<Rightarrow> bool) \<Rightarrow> 'p list \<Rightarrow> nat \<Rightarrow> nat \<Rightarrow> nat option" where
  "sk_scan P d i 0 = None"
| "sk_scan P d i (Suc k) = (if P (d ! i) then Some i else sk_scan P d (Suc i) k)"

definition sk_delete_ptr :: "stack option \<Rightarrow> ptr \<Rightarrow> ptr \<times> stack option" where
  "sk_delete_ptr sk p =
     (case sk of
        None \<Rightarrow> (NULL, None)
      | Some s \<Rightarrow>
          (case sk_scan (\<lambda>q. q = p) (st_data s) 0 (st_num s) of
             None \<Rightarrow> (NULL, Some s)
           | Some i \<Rightarrow> sk_delete (Some s) i))"

text \<open>The binary search of \<open>sk_find\<close>, over the half-open interval from \<open>lo\<close> to \<open>hi\<close>.\<close>

function sk_bsearch :: "('p \<Rightarrow> int) \<Rightarrow> 'p list \<Rightarrow> nat \<Rightarrow> nat \<Rightarrow> nat option" where
  "sk_bsearch r d lo hi =
     (if lo < hi then
        let mid = lo + (hi - lo - 1) div 2
        in if r (d ! mid) > 0 then sk_bsearch r d (mid + 1) hi
           else if r (d ! mid) < 0 then sk_bsearch r d lo mid
           else if hi - lo = 1 then Some mid
           else sk_bsearch r d lo (mid + 1)
      else None)"
  by pat_completeness auto
termination by (relation "measure (\<lambda>(r, d, lo, hi). hi - lo)") auto

declare sk_bsearch.simps [simp del]

definition sk_is_sorted :: "stack option \<Rightarrow> bool" where
  "sk_is_sorted sk \<longleftrightarrow> (case sk of None \<Rightarrow> True | Some s \<Rightarrow> st_sorted s)"

definition sk_find :: "call_cmp \<Rightarrow> stack option \<Rightarrow> ptr \<Rightarrow> nat option" where
  "sk_find call_cmp sk p =
     (case sk of
        None \<Rightarrow> None
      | Some s \<Rightarrow>
          (case st_comp s of
             None \<Rightarrow> sk_scan (\<lambda>q. q = p) (st_data s) 0 (st_num s)
           | Some cf \<Rightarrow>
               if p = NULL then None
               else if \<not> sk_is_sorted (Some s) then
                 sk_scan (\<lambda>q. call_cmp cf p q = 0) (st_data s) 0 (st_num s)
               else sk_bsearch (call_cmp cf p) (st_data s) 0 (st_num s)))"

definition sk_shift :: "stack option \<Rightarrow> ptr \<times> stack option" where
  "sk_shift sk =
     (case sk of
        None \<Rightarrow> (NULL, None)
      | Some s \<Rightarrow> if st_num s = 0 then (NULL, Some s) else sk_delete (Some s) 0)"

text \<open>\<open>sk_push\<close> reads the length through the pointer before anything is tested: it is not \<open>NULL\<close>.\<close>

definition sk_push :: "palloc \<Rightarrow> stack \<Rightarrow> ptr \<Rightarrow> nat \<times> stack option" where
  "sk_push mem s p = sk_insert mem (Some s) p (st_num s)"

definition sk_pop :: "stack option \<Rightarrow> ptr \<times> stack option" where
  "sk_pop sk =
     (case sk of
        None \<Rightarrow> (NULL, None)
      | Some s \<Rightarrow> if st_num s = 0 then (NULL, Some s) else sk_delete (Some s) (st_num s - 1))"

definition sk_dup :: "palloc \<Rightarrow> stack option \<Rightarrow> stack option" where
  "sk_dup mem sk =
     (case sk of
        None \<Rightarrow> None
      | Some s \<Rightarrow>
          (case sk_new mem (st_comp s) of
             None \<Rightarrow> None
           | Some ret \<Rightarrow>
               (case ossl_realloc 8 mem NULL (Some (st_data ret)) (size_mul 8 (st_num_alloc s)) of
                  None \<Rightarrow> None
                | Some d \<Rightarrow>
                    Some (ret\<lparr>st_data := blit d 0 (take (st_num s) (st_data s)), st_num := st_num s,
                              st_sorted := st_sorted s, st_num_alloc := st_num_alloc s, st_comp := st_comp s\<rparr>))))"

definition sk_sort :: "call_cmp \<Rightarrow> stack option \<Rightarrow> stack option" where
  "sk_sort call_cmp sk =
     (case sk of
        None \<Rightarrow> None
      | Some s \<Rightarrow>
          (case st_comp s of
             None \<Rightarrow> Some s
           | Some cf \<Rightarrow>
               if st_sorted s then Some s
               else
                 let d = (if st_num s \<ge> 2
                          then blit (st_data s) 0 (qsort (call_cmp cf) (take (st_num s) (st_data s)))
                          else st_data s)
                 in Some (s\<lparr>st_data := d, st_sorted := True\<rparr>)))"

definition sk_set_cmp_func :: "stack \<Rightarrow> fn option \<Rightarrow> fn option \<times> stack" where
  "sk_set_cmp_func s cf =
     (st_comp s, s\<lparr>st_sorted := (st_sorted s \<and> st_comp s = cf), st_comp := cf\<rparr>)"

text \<open>
  \<open>sk_deep_copy\<close>, with the function that copies an element; on failure the elements that
  were copied are freed, in this order.
\<close>

fun copy_elements :: "(ptr \<Rightarrow> ptr) \<Rightarrow> nat \<Rightarrow> nat \<Rightarrow> ptr list \<Rightarrow> ptr list \<times> nat option" where
  "copy_elements f i 0 d = (d, None)"
| "copy_elements f i (Suc k) d =
     (if d ! i = NULL then copy_elements f (Suc i) k d
      else if f (d ! i) = NULL then (d[i := NULL], Some i)
      else copy_elements f (Suc i) k (d[i := f (d ! i)]))"

definition sk_deep_copy :: "palloc \<Rightarrow> (ptr \<Rightarrow> ptr) \<Rightarrow> stack option \<Rightarrow> stack option \<times> ptr list" where
  "sk_deep_copy mem copy_func sk =
     (case sk_dup mem sk of
        None \<Rightarrow> (None, [])
      | Some ret \<Rightarrow>
          (case copy_elements copy_func 0 (st_num ret) (st_data ret) of
             (d, None) \<Rightarrow> (Some (ret\<lparr>st_data := d\<rparr>), [])
           | (d, Some i) \<Rightarrow> (None, filter (\<lambda>p. p \<noteq> NULL) (map ((!) d) [0..<i]))))"


section \<open>The list that a stack represents\<close>

definition stack_ok :: "stack \<Rightarrow> bool" where
  "stack_ok s \<longleftrightarrow>
     length (st_data s) = st_num_alloc s \<and> st_num s < st_num_alloc s \<and> st_num_alloc s \<le> 2 ^ 59"

definition elems :: "stack \<Rightarrow> ptr list" where
  "elems s = take (st_num s) (st_data s)"

lemma length_elems [simp]: "stack_ok s \<Longrightarrow> length (elems s) = st_num s"
  by (simp add: stack_ok_def elems_def)

lemma nth_elems: "i < st_num s \<Longrightarrow> elems s ! i = st_data s ! i"
  by (simp add: elems_def)

lemma sk_new_empty [invariant_rules]:
  assumes "sk_new mem cf = Some s"
  shows "stack_ok s" and "elems s = []" and "\<not> st_sorted s" and "st_comp s = cf"
proof -
  obtain d where d: "ossl_malloc 8 mem NULL (size_mul 8 kMinSize) = Some d"
    and s: "s = \<lparr>st_num = 0, st_data = blit d 0 (replicate kMinSize NULL), st_sorted = False,
      st_num_alloc = kMinSize, st_comp = cf\<rparr>"
    using assms by (auto simp: sk_new_def split: option.split_asm)
  have "length d = 4" using ossl_malloc_length [OF d] by (simp add: size_mul_def kMinSize_def)
  then show "stack_ok s" "elems s = []" "\<not> st_sorted s" "st_comp s = cf"
    by (simp_all add: s stack_ok_def elems_def kMinSize_def)
qed

lemma sk_zero_empty:
  assumes "stack_ok s"
  shows "\<exists>s'. sk_zero (Some s) = Some s' \<and> stack_ok s' \<and> elems s' = []"
  using assms by (auto simp: sk_zero_def stack_ok_def elems_def)

lemma sk_value_elems:
  "sk_value (Some s) i = (if i < st_num s then elems s ! i else NULL)"
  by (simp add: sk_value_def nth_elems)

lemma sk_set_elems:
  assumes "stack_ok s"
  shows "\<exists>s'. sk_set (Some s) i v = (if i < st_num s then v else NULL, Some s') \<and>
    stack_ok s' \<and> elems s' = (elems s)[i := v]"
  using assms by (auto simp: sk_set_def stack_ok_def elems_def take_update_swap list_update_beyond)

lemma sk_grow_ok:
  assumes s: "stack_ok s" and n: "st_num_alloc s \<le> 2 ^ 58"
  shows "case sk_grow mem s of None \<Rightarrow> \<exists>n. mem n = None
    | Some s' \<Rightarrow> stack_ok s' \<and> elems s' = elems s \<and> st_num s' = st_num s \<and> st_comp s' = st_comp s \<and>
        st_num s + 1 < st_num_alloc s'"
proof -
  let ?n = "2 * st_num_alloc s"
  have fits: "size_mul (st_num_alloc s) 2 = ?n" "size_mul ?n 8 = 8 * ?n" "8 * ?n + 8 < 2 ^ 64"
    using n by (simp_all add: size_mul_def)
  then have grow: "sk_grow mem s = (case ossl_realloc 8 mem NULL (Some (st_data s)) (8 * ?n) of
      None \<Rightarrow> None | Some d \<Rightarrow> Some (s\<lparr>st_data := d, st_num_alloc := ?n\<rparr>))"
    by (simp add: sk_grow_def Let_def)
  show ?thesis
  proof (cases "ossl_realloc 8 mem NULL (Some (st_data s)) (8 * ?n)")
    case None
    then have "\<exists>n. mem n = None" by (auto simp: ossl_realloc_def ossl_malloc_def Let_def split: option.split_asm)
    with None show ?thesis by (simp add: grow)
  next
    case (Some d)
    then have "length d = ?n" using ossl_realloc_length [OF Some fits(3)] by simp
    moreover have "take (st_num s) d = take (st_num s) (st_data s)"
      using ossl_realloc_take [OF Some fits(3)] s by (simp add: stack_ok_def)
    ultimately show ?thesis using Some s n by (auto simp: grow stack_ok_def elems_def)
  qed
qed

lemma insert_blit:
  assumes "n < length d"
  shows "take (Suc n) (if i \<ge> n then d[n := p] else (blit d (i + 1) (take (n - i) (drop i d)))[i := p]) =
    take i (take n d) @ p # drop i (take n d)"
    and "length (if i \<ge> n then d[n := p] else (blit d (i + 1) (take (n - i) (drop i d)))[i := p]) = length d"
proof -
  show "take (Suc n) (if i \<ge> n then d[n := p] else (blit d (i + 1) (take (n - i) (drop i d)))[i := p]) =
    take i (take n d) @ p # drop i (take n d)"
  proof (cases "i \<ge> n")
    case True
    then show ?thesis using assms by (simp add: take_Suc_conv_app_nth take_update_cancel min_def)
  next
    case False
    have "take (Suc n) ((take (Suc i) d @ drop i (take n d) @ r)[i := p]) =
        take i d @ p # drop i (take n d)" for r
      using assms False by (simp add: list_update_append take_Suc_conv_app_nth min_def Suc_diff_le)
    then show ?thesis
      using False assms by (simp add: blit_def drop_take min_def)
  qed
qed (use assms in \<open>auto simp: blit_def\<close>)


lemma sk_put_elems:
  assumes "stack_ok s" and "st_num s + 1 < st_num_alloc s"
  obtains s' where "sk_put s p i = (st_num s + 1, s')" and "stack_ok s'" and "st_comp s' = st_comp s"
    and "elems s' = take i (elems s) @ p # drop i (elems s)" and "\<not> st_sorted s'"
proof
  let ?d = "if i \<ge> st_num s then (st_data s)[st_num s := p]
    else (blit (st_data s) (i + 1) (take (st_num s - i) (drop i (st_data s))))[i := p]"
  let ?s' = "s\<lparr>st_data := ?d, st_num := st_num s + 1, st_sorted := False\<rparr>"
  have n: "st_num s < length (st_data s)" "size_add (st_num s) 1 = st_num s + 1"
    using assms by (simp_all add: stack_ok_def size_add_def)
  show "sk_put s p i = (st_num s + 1, ?s')" unfolding sk_put_def Let_def n(2) ..
  have "length ?d = length (st_data s)" by (rule insert_blit(2) [OF n(1)])
  then show "stack_ok ?s'" using assms by (simp add: stack_ok_def del: if_split)
  show "elems ?s' = take i (elems s) @ p # drop i (elems s)"
    using insert_blit(1) [OF n(1), of i p] by (simp add: elems_def del: if_split)
qed simp_all

text \<open>Insertion; it fails only when no memory is left.\<close>

lemma sk_insert_elems [invariant_rules]:
  assumes s: "stack_ok s" and n: "st_num s < 2 ^ 57"
  obtains "sk_insert mem (Some s) p i = (0, Some s)" and "\<exists>n. mem n = None"
  | s' where "sk_insert mem (Some s) p i = (st_num s + 1, Some s')" and "stack_ok s'"
    and "elems s' = take i (elems s) @ p # drop i (elems s)" and "\<not> st_sorted s'" and "st_comp s' = st_comp s"
proof (cases "st_num_alloc s \<le> st_num s + 1")
  case True
  then have grow: "case sk_grow mem s of None \<Rightarrow> \<exists>n. mem n = None
    | Some t \<Rightarrow> stack_ok t \<and> elems t = elems s \<and> st_num t = st_num s \<and> st_comp t = st_comp s \<and>
        st_num s + 1 < st_num_alloc t"
    using n by (intro sk_grow_ok [OF s]) simp
  have run: "sk_insert mem (Some s) p i = (case sk_grow mem s of None \<Rightarrow> (0, Some s)
    | Some s \<Rightarrow> (case sk_put s p i of (n, s') \<Rightarrow> (n, Some s')))"
    using True n by (simp add: sk_insert_def size_add_def)
  show ?thesis
  proof (cases "sk_grow mem s")
    case None
    with grow show ?thesis by (intro that(1)) (simp_all add: run)
  next
    case (Some t)
    with grow have t: "stack_ok t" "elems t = elems s" "st_num t = st_num s" "st_comp t = st_comp s"
      "st_num t + 1 < st_num_alloc t" by simp_all
    obtain s' where s': "sk_put t p i = (st_num t + 1, s')" "stack_ok s'" "st_comp s' = st_comp t"
        "elems s' = take i (elems t) @ p # drop i (elems t)" "\<not> st_sorted s'"
      using sk_put_elems [OF t(1,5)] .
    show ?thesis by (rule that(2) [of s']) (simp_all add: run Some s' t)
  qed
next
  case False
  then have "st_num s + 1 < st_num_alloc s" by simp
  then obtain s' where s': "sk_put s p i = (st_num s + 1, s')" "stack_ok s'" "st_comp s' = st_comp s"
      "elems s' = take i (elems s) @ p # drop i (elems s)" "\<not> st_sorted s'"
    using sk_put_elems [OF s] by metis
  show ?thesis
    by (rule that(2) [of s']) (use False n in \<open>simp_all add: sk_insert_def size_add_def s'\<close>)
qed

lemma sk_delete_elems [invariant_rules]:
  assumes s: "stack_ok s" and i: "i < st_num s"
  obtains s' where "sk_delete (Some s) i = (elems s ! i, Some s')" and "stack_ok s'"
    and "elems s' = take i (elems s) @ drop (Suc i) (elems s)"
    and "st_sorted s' = st_sorted s" and "st_comp s' = st_comp s"
proof
  let ?d = "if i \<noteq> st_num s - 1 then blit (st_data s) i (take (st_num s - i - 1) (drop (i + 1) (st_data s)))
    else st_data s"
  have d: "length ?d = length (st_data s)" "take (st_num s - 1) ?d = take i (elems s) @ drop (Suc i) (elems s)"
    using s i by (auto simp: stack_ok_def elems_def blit_def drop_take min_def take_append)
  let ?s' = "s\<lparr>st_data := ?d, st_num := st_num s - 1\<rparr>"
  show "sk_delete (Some s) i = (elems s ! i, Some ?s')" using i by (simp add: sk_delete_def nth_elems)
  show "stack_ok ?s'" using s i d(1) by (simp add: stack_ok_def less_imp_diff_less del: if_split)
  show "elems ?s' = take i (elems s) @ drop (Suc i) (elems s)" using d(2) by (simp add: elems_def)
qed simp_all

lemma sk_scan_Some:
  "sk_scan P d i k = Some j \<longleftrightarrow> i \<le> j \<and> j < i + k \<and> P (d ! j) \<and> (\<forall>l. i \<le> l \<and> l < j \<longrightarrow> \<not> P (d ! l))"
proof (induction k arbitrary: i)
  case (Suc k)
  have split: "(\<forall>l. i \<le> l \<and> l < j \<longrightarrow> \<not> P (d ! l)) \<longleftrightarrow>
      (i < j \<longrightarrow> \<not> P (d ! i)) \<and> (\<forall>l. Suc i \<le> l \<and> l < j \<longrightarrow> \<not> P (d ! l))"
    by (auto simp: Suc_le_eq dest: le_neq_implies_less)
  show ?case
  proof (cases "P (d ! i)")
    case True
    then show ?thesis by (auto simp: not_less_iff_gr_or_eq)
  next
    case False
    then show ?thesis unfolding sk_scan.simps split if_not_P [OF False] Suc by (auto simp: Suc_le_eq le_less)
  qed
qed auto

lemma sk_scan_None: "sk_scan P d i k = None \<longleftrightarrow> (\<forall>l. i \<le> l \<and> l < i + k \<longrightarrow> \<not> P (d ! l))"
proof (induction k arbitrary: i)
  case (Suc k)
  have "(\<forall>l. i \<le> l \<and> l < i + Suc k \<longrightarrow> \<not> P (d ! l)) \<longleftrightarrow>
      \<not> P (d ! i) \<and> (\<forall>l. Suc i \<le> l \<and> l < Suc i + k \<longrightarrow> \<not> P (d ! l))"
    by (auto simp: Suc_le_eq dest: le_neq_implies_less)
  then show ?case by (simp add: Suc)
qed auto


lemma sk_delete_ptr_elems [invariant_rules]:
  assumes s: "stack_ok s"
  obtains "p \<notin> set (elems s)" and "sk_delete_ptr (Some s) p = (NULL, Some s)"
  | s' where "p \<in> set (elems s)" and "sk_delete_ptr (Some s) p = (p, Some s')" and "stack_ok s'"
    and "elems s' = remove1 p (elems s)"
proof (cases "sk_scan (\<lambda>q. q = p) (st_data s) 0 (st_num s)")
  case None
  then have "p \<notin> set (elems s)" using s by (auto simp: sk_scan_None in_set_conv_nth nth_elems)
  with None show ?thesis by (intro that(1)) (simp_all add: sk_delete_ptr_def)
next
  case (Some i)
  then have i: "i < st_num s" "elems s ! i = p" "\<forall>l < i. elems s ! l \<noteq> p"
    by (auto simp: sk_scan_Some nth_elems)
  obtain s' where s': "sk_delete (Some s) i = (elems s ! i, Some s')" "stack_ok s'"
      "elems s' = take i (elems s) @ drop (Suc i) (elems s)"
    using sk_delete_elems [OF s i(1)] by metis
  have split: "elems s = take i (elems s) @ p # drop (Suc i) (elems s)"
    using id_take_nth_drop [of i "elems s"] i s by simp
  moreover have "p \<notin> set (take i (elems s))" using i s by (auto simp: in_set_conv_nth)
  ultimately have "remove1 p (elems s) = elems s'"
    unfolding s'(3) by (metis remove1.simps(2) remove1_append)
  moreover have "p \<in> set (elems s)" using i s nth_mem by fastforce
  ultimately show ?thesis
    using that(2) [of s'] s' i(2) Some by (simp add: sk_delete_ptr_def)
qed

text \<open>The binary search misses the last element when it lies below all others.\<close>

lemma sk_bsearch_all_above:
  "lo \<le> hi \<Longrightarrow> (\<And>j. lo \<le> j \<Longrightarrow> j < hi \<Longrightarrow> r (d ! j) < 0) \<Longrightarrow> sk_bsearch r d lo hi = None"
proof (induction r d lo hi rule: sk_bsearch.induct)
  case (1 r d lo hi)
  let ?mid = "lo + (hi - lo - 1) div 2"
  show ?case
  proof (cases "lo < hi")
    case True
    then have m: "?mid < hi" by auto
    have neg: "r (d ! ?mid) < 0" by (rule 1(5)) (use m in simp_all)
    then have np: "\<not> r (d ! ?mid) > 0" by simp
    have "sk_bsearch r d lo hi = sk_bsearch r d lo ?mid"
      using True neg np by (subst sk_bsearch.simps) (simp only: Let_def if_True if_False)
    moreover have "sk_bsearch r d lo ?mid = None"
      by (rule 1(2) [OF True refl np neg]) (use 1(5) m in auto)
    ultimately show ?thesis by simp
  qed (simp add: sk_bsearch.simps)
qed

lemma sk_bsearch_last_below:
  assumes "2 \<le> n" and "\<And>j. j < n - 1 \<Longrightarrow> r (d ! j) < 0"
  shows "sk_bsearch r d 0 n = None"
proof -
  have "(n - 1) div 2 < n - 1" "0 < n" using assms(1) by simp_all
  moreover from this have "r (d ! ((n - 1) div 2)) < 0" "\<not> r (d ! ((n - 1) div 2)) > 0"
    using assms(2) [of "(n - 1) div 2"] by simp_all
  ultimately have "sk_bsearch r d 0 n = sk_bsearch r d 0 ((n - 1) div 2)"
    by (subst sk_bsearch.simps) (simp only: Let_def if_True if_False add_0 diff_zero)
  then show ?thesis using assms(2) \<open>(n - 1) div 2 < n - 1\<close> sk_bsearch_all_above [of 0 "(n - 1) div 2" r d] by simp
qed

text \<open>The binary search: sound where the comparison orders the elements, total in any case.\<close>

context comparison
begin

lemma trans_less: "x \<in> S \<Longrightarrow> y \<in> S \<Longrightarrow> z \<in> S \<Longrightarrow> cmp x y < 0 \<Longrightarrow> cmp y z \<le> 0 \<Longrightarrow> cmp x z < 0"
  using trans [of y z x] swap [of x y] swap [of y x] swap [of x z] swap [of z x] by linarith

lemma sk_bsearch_sound:
  assumes sorted: "\<And>i j. i < j \<Longrightarrow> j < n \<Longrightarrow> cmp (d ! i) (d ! j) \<le> 0"
    and S: "\<And>i. i < n \<Longrightarrow> d ! i \<in> S" "p \<in> S"
  shows "hi \<le> n \<Longrightarrow> \<forall>l < lo. l < n \<longrightarrow> 0 < cmp p (d ! l) \<Longrightarrow>
    (\<forall>l. hi \<le> l \<and> l < n \<longrightarrow> cmp p (d ! l) < 0) \<or> (\<exists>j. lo \<le> j \<and> j < hi \<and> cmp p (d ! j) = 0) \<Longrightarrow>
    (case sk_bsearch (cmp p) d lo hi of
       None \<Rightarrow> \<forall>l < n. cmp p (d ! l) \<noteq> 0
     | Some j \<Rightarrow> j < n \<and> cmp p (d ! j) = 0 \<and> (\<forall>l < j. 0 < cmp p (d ! l)))"
proof (induction "hi - lo" arbitrary: lo hi rule: less_induct)
  case (less lo hi)
  note hi = less.prems(1) and low = less.prems(2) and high = less.prems(3)
  let ?mid = "lo + (hi - lo - 1) div 2"
  show ?case
  proof (cases "lo < hi")
    case False
    then have "\<forall>l < n. cmp p (d ! l) \<noteq> 0"
    proof (intro allI impI)
      fix l assume "l < n"
      with low False have "lo \<le> l \<longrightarrow> hi \<le> l" "l < lo \<longrightarrow> 0 < cmp p (d ! l)" by auto
      moreover have "\<forall>l. hi \<le> l \<and> l < n \<longrightarrow> cmp p (d ! l) < 0" using high False by auto
      ultimately show "cmp p (d ! l) \<noteq> 0" using \<open>l < n\<close> by (cases "l < lo") auto
    qed
    with False show ?thesis by (simp add: sk_bsearch.simps)
  next
    case True
    then have mid: "lo \<le> ?mid" "?mid < hi" "?mid < n" using hi by auto
    consider "0 < cmp p (d ! ?mid)" | "cmp p (d ! ?mid) < 0" | "cmp p (d ! ?mid) = 0" "hi - lo = 1"
      | "cmp p (d ! ?mid) = 0" "hi - lo \<noteq> 1" by linarith
    then show ?thesis
    proof cases
      case 1
      have l: "\<forall>l < ?mid + 1. l < n \<longrightarrow> 0 < cmp p (d ! l)"
        using less_trans [OF S(2) S(1) [OF mid(3)] S(1)] sorted [OF _ mid(3)] 1 by (auto simp: less_Suc_eq)
      have "(\<forall>l. hi \<le> l \<and> l < n \<longrightarrow> cmp p (d ! l) < 0) \<or> (\<exists>j. ?mid + 1 \<le> j \<and> j < hi \<and> cmp p (d ! j) = 0)"
      proof (use high in \<open>elim disjE\<close>)
        assume "\<exists>j. lo \<le> j \<and> j < hi \<and> cmp p (d ! j) = 0"
        then obtain j where j: "lo \<le> j" "j < hi" "cmp p (d ! j) = 0" by blast
        then have "\<not> j < ?mid + 1" using l hi by fastforce
        with j show ?thesis by (intro disjI2 exI [of _ j]) simp
      qed blast
      moreover have "hi - (?mid + 1) < hi - lo" using True mid by linarith
      moreover have "sk_bsearch (cmp p) d lo hi = sk_bsearch (cmp p) d (?mid + 1) hi"
        using True 1 by (subst sk_bsearch.simps) (simp add: Let_def)
      ultimately show ?thesis using less.hyps [OF _ hi l] by simp
    next
      case 2
      have "\<forall>l. ?mid \<le> l \<and> l < n \<longrightarrow> cmp p (d ! l) < 0"
        using trans_less [OF S(2) S(1) [OF mid(3)] S(1) 2] sorted [of ?mid] 2 by (auto simp: le_less)
      moreover have "sk_bsearch (cmp p) d lo hi = sk_bsearch (cmp p) d lo ?mid"
        using True 2 by (subst sk_bsearch.simps) (simp add: Let_def)
      moreover have "?mid - lo < hi - lo" "?mid \<le> n" using mid by linarith+
      ultimately show ?thesis using less.hyps [of ?mid lo] low by simp
    next
      case 3
      then show ?thesis using True mid low by (simp add: sk_bsearch.simps [of _ d lo] Let_def)
    next
      case 4
      then have step: "?mid + 1 - lo < hi - lo" "?mid + 1 \<le> n" using True mid hi by auto
      have "\<exists>j. lo \<le> j \<and> j < ?mid + 1 \<and> cmp p (d ! j) = 0"
        using mid 4 by (intro exI [of _ ?mid]) simp
      note less.hyps [OF step low disjI2 [OF this]]
      moreover have "sk_bsearch (cmp p) d lo hi = sk_bsearch (cmp p) d lo (?mid + 1)"
        using True 4 by (subst sk_bsearch.simps) (simp add: Let_def)
      ultimately show ?thesis by simp
    qed
  qed
qed

lemma sk_bsearch_scan:
  assumes "sorted_wrt (\<lambda>x y. cmp x y \<le> 0) (take n d)" and "set (take n d) \<subseteq> S" and "p \<in> S" and "n \<le> length d"
  shows "sk_bsearch (cmp p) d 0 n = sk_scan (\<lambda>q. cmp p q = 0) d 0 n"
proof -
  have "\<And>i j. i < j \<Longrightarrow> j < n \<Longrightarrow> cmp (d ! i) (d ! j) \<le> 0"
    using sorted_wrt_nth_less [OF assms(1)] assms(4) by fastforce
  moreover have "\<And>i. i < n \<Longrightarrow> d ! i \<in> S"
    using assms(2,4) by (force simp: set_conv_nth subset_iff)
  ultimately have "case sk_bsearch (cmp p) d 0 n of
       None \<Rightarrow> \<forall>l < n. cmp p (d ! l) \<noteq> 0
     | Some j \<Rightarrow> j < n \<and> cmp p (d ! j) = 0 \<and> (\<forall>l < j. 0 < cmp p (d ! l))"
    by (rule sk_bsearch_sound [OF _ _ assms(3)]) simp_all
  then have result: "case sk_bsearch (cmp p) d 0 n of None \<Rightarrow> sk_scan (\<lambda>q. cmp p q = 0) d 0 n = None
     | Some j \<Rightarrow> sk_scan (\<lambda>q. cmp p q = 0) d 0 n = Some j"
    unfolding sk_scan_None sk_scan_Some by (fastforce split: option.splits)
  then show ?thesis by (simp split: option.splits)
qed

end


text \<open>
  The search does not depend on whether the stack is sorted: the binary search gives the first
  match, which is what the scan gives.
\<close>

definition sorted_flag_ok :: "call_cmp \<Rightarrow> stack \<Rightarrow> bool" where
  "sorted_flag_ok call_cmp s \<longleftrightarrow>
     (st_sorted s \<longrightarrow> (\<exists>cf. st_comp s = Some cf \<and> sorted_wrt (\<lambda>x y. call_cmp cf x y \<le> 0) (elems s)))"

lemma sk_find_scan:
  assumes s: "stack_ok s" and flag: "sorted_flag_ok call_cmp s"
    and cmp: "\<And>cf. st_comp s = Some cf \<Longrightarrow> comparison (call_cmp cf) (insert p (set (elems s)))"
  shows "sk_find call_cmp (Some s) p = sk_find call_cmp (Some (s\<lparr>st_sorted := False\<rparr>)) p"
proof (cases "st_sorted s")
  case True
  then obtain cf where cf: "st_comp s = Some cf" "sorted_wrt (\<lambda>x y. call_cmp cf x y \<le> 0) (elems s)"
    using flag by (auto simp: sorted_flag_ok_def)
  have "sk_bsearch (call_cmp cf p) (st_data s) 0 (st_num s) =
      sk_scan (\<lambda>q. call_cmp cf p q = 0) (st_data s) 0 (st_num s)"
    using s cf(2) by (intro comparison.sk_bsearch_scan [OF cmp [OF cf(1)]]) (auto simp: stack_ok_def elems_def)
  with True cf(1) show ?thesis by (simp add: sk_find_def sk_is_sorted_def)
qed (simp add: sk_find_def sk_is_sorted_def split: option.split)

lemma sk_find_first:
  assumes s: "stack_ok s" and flag: "sorted_flag_ok call_cmp s"
    and cmp: "\<And>cf. st_comp s = Some cf \<Longrightarrow> comparison (call_cmp cf) (insert p (set (elems s)))"
    and p: "p \<noteq> NULL"
  defines "hit \<equiv> (\<lambda>q. case st_comp s of None \<Rightarrow> q = p | Some cf \<Rightarrow> call_cmp cf p q = 0)"
  shows "sk_find call_cmp (Some s) p = Some i \<longleftrightarrow>
    i < st_num s \<and> hit (elems s ! i) \<and> (\<forall>j < i. \<not> hit (elems s ! j))"
proof -
  have "sk_find call_cmp (Some (s\<lparr>st_sorted := False\<rparr>)) p = sk_scan hit (st_data s) 0 (st_num s)"
    using p by (simp add: sk_find_def sk_is_sorted_def hit_def split: option.split)
  then have "sk_find call_cmp (Some s) p = sk_scan hit (st_data s) 0 (st_num s)"
    using sk_find_scan [OF s flag cmp] by simp
  then show ?thesis by (auto simp: sk_scan_Some nth_elems)
qed

lemma sk_sort_sorts [invariant_rules]:
  assumes s: "stack_ok s" and flag: "sorted_flag_ok call_cmp s"
    and cmp: "\<And>cf. st_comp s = Some cf \<Longrightarrow> comparison (call_cmp cf) (set (elems s))"
  obtains s' where "sk_sort call_cmp (Some s) = Some s'" and "stack_ok s'" and "sorted_flag_ok call_cmp s'"
    and "mset (elems s') = mset (elems s)" and "st_comp s' = st_comp s"
    and "st_comp s \<noteq> None \<Longrightarrow> st_sorted s'"
proof (cases "st_comp s = None \<or> st_sorted s")
  case True
  then have "sk_sort call_cmp (Some s) = Some s" by (auto simp: sk_sort_def split: option.split)
  then show ?thesis by (rule that) (use True s flag in auto)
next
  case False
  then obtain cf where cf: "st_comp s = Some cf" by auto
  let ?q = "qsort (call_cmp cf) (elems s)"
  let ?d = "if st_num s \<ge> 2 then blit (st_data s) 0 ?q else st_data s"
  let ?s' = "s\<lparr>st_data := ?d, st_sorted := True\<rparr>"
  have small: "st_num s < 2 \<Longrightarrow> ?q = elems s"
    using length_elems [OF s] by (cases "elems s"; cases "tl (elems s)") (auto simp: qsort_def)
  have "take (st_num s) ?d = ?q"
    using s small by (cases "st_num s \<ge> 2") (auto simp: elems_def blit_def stack_ok_def)
  then have e: "elems ?s' = ?q" by (simp add: elems_def)
  show ?thesis
  proof (rule that [of ?s'])
    show "sk_sort call_cmp (Some s) = Some ?s'"
      using False cf by (simp add: sk_sort_def elems_def)
    show "stack_ok ?s'" using s by (simp add: stack_ok_def elems_def blit_def)
    show "mset (elems ?s') = mset (elems s)" unfolding e by (rule mset_qsort)
    show "sorted_flag_ok call_cmp ?s'"
      unfolding sorted_flag_ok_def e using comparison.sorted_qsort [OF cmp [OF cf]] cf by simp
  qed simp_all
qed

lemma sk_delete_sorted [invariant_rules]:
  assumes "stack_ok s" and "sorted_flag_ok call_cmp s" and "sk_delete (Some s) i = (p, Some s')"
  shows "sorted_flag_ok call_cmp s'"
proof (cases "i < st_num s")
  case True
  then have e: "elems s' = take i (elems s) @ drop (Suc i) (elems s)"
    using sk_delete_elems [OF assms(1)] assms(3) by (metis option.inject prod.inject)
  have "elems s = take i (elems s) @ elems s ! i # drop (Suc i) (elems s)"
    using id_take_nth_drop [of i "elems s"] True assms(1) by simp
  then have "sorted_wrt P (elems s) \<Longrightarrow> sorted_wrt P (elems s')" for P
    unfolding e by (metis (no_types, lifting) list.set_intros(2) sorted_wrt.simps(2) sorted_wrt_append)
  moreover have "st_sorted s' = st_sorted s" "st_comp s' = st_comp s"
    using assms(3) True by (auto simp: sk_delete_def)
  ultimately show ?thesis using assms(2) by (auto simp: sorted_flag_ok_def)
next
  case False
  then show ?thesis using assms by (auto simp: sk_delete_def)
qed

lemma sk_dup_elems [invariant_rules]:
  assumes s: "stack_ok s" and dup: "sk_dup mem (Some s) = Some s'"
  shows "stack_ok s' \<and> elems s' = elems s \<and> st_sorted s' = st_sorted s \<and> st_comp s' = st_comp s"
proof -
  obtain ret d where ret: "sk_new mem (st_comp s) = Some ret"
    and d: "ossl_realloc 8 mem NULL (Some (st_data ret)) (size_mul 8 (st_num_alloc s)) = Some d"
    and s': "s' = ret\<lparr>st_data := blit d 0 (take (st_num s) (st_data s)), st_num := st_num s,
      st_sorted := st_sorted s, st_num_alloc := st_num_alloc s, st_comp := st_comp s\<rparr>"
    using dup by (auto simp: sk_dup_def split: option.split_asm)
  have n: "size_mul 8 (st_num_alloc s) = 8 * st_num_alloc s" "8 * st_num_alloc s + 8 < 2 ^ 64"
    using s by (simp_all add: stack_ok_def size_mul_def)
  have "length d = st_num_alloc s" using ossl_realloc_length [OF d [unfolded n(1)] n(2)] by simp
  with s show ?thesis by (simp add: s' stack_ok_def elems_def blit_def)
qed

end
