(* ===== verification/Buf.thy ===== *)
theory Buf
  imports Mem
begin

text \<open>
  \<open>buf/buf.c\<close>: the growable byte buffer \<open>BUF_MEM\<close>. \<open>bm_max\<close> is the size of the block at
  \<open>bm_data\<close>, of which the first \<open>bm_length\<close> bytes are in use.
\<close>

record buf_mem =
  bm_length :: nat
  bm_data :: "bytes option"
  bm_max :: nat

definition BUF_MEM_new :: "(nat \<Rightarrow> bytes option) \<Rightarrow> buf_mem option" where
  "BUF_MEM_new mem =
     (case OPENSSL_malloc mem 24 of
        None \<Rightarrow> None
      | Some _ \<Rightarrow> Some \<lparr>bm_length = 0, bm_data = None, bm_max = 0\<rparr>)"

definition BUF_MEM_reserve :: "(nat \<Rightarrow> bytes option) \<Rightarrow> nat \<Rightarrow> buf_mem \<Rightarrow> unit option \<times> buf_mem" where
  "BUF_MEM_reserve mem cap b =
     (if bm_max b \<ge> cap then (Some (), b)
      else
        let n = size_add cap 3
        in if n < cap then (None, b)
           else
             let n = n div 3; alloc_size = size_mul n 4
             in if alloc_size div 4 \<noteq> n then (None, b)
                else
                  (case OPENSSL_realloc mem (bm_data b) alloc_size of
                     None \<Rightarrow> (None, b)
                   | Some d \<Rightarrow> (Some (), b\<lparr>bm_data := Some d, bm_max := alloc_size\<rparr>)))"

definition BUF_MEM_grow :: "(nat \<Rightarrow> bytes option) \<Rightarrow> nat \<Rightarrow> buf_mem \<Rightarrow> nat \<times> buf_mem" where
  "BUF_MEM_grow mem len b =
     (case BUF_MEM_reserve mem len b of
        (None, b) \<Rightarrow> (0, b)
      | (Some _, b) \<Rightarrow>
          (len, b\<lparr>bm_data := (if bm_length b < len
                  then map_option (\<lambda>d. blit d (bm_length b) (replicate (len - bm_length b) 0)) (bm_data b)
                  else bm_data b),
                 bm_length := len\<rparr>))"

definition BUF_MEM_grow_clean :: "(nat \<Rightarrow> bytes option) \<Rightarrow> nat \<Rightarrow> buf_mem \<Rightarrow> nat \<times> buf_mem" where
  "BUF_MEM_grow_clean mem len b = BUF_MEM_grow mem len b"

definition BUF_MEM_append :: "(nat \<Rightarrow> bytes option) \<Rightarrow> bytes \<Rightarrow> buf_mem \<Rightarrow> unit option \<times> buf_mem" where
  "BUF_MEM_append mem inp b =
     (if length inp = 0 then (Some (), b)
      else
        let new_len = size_add (bm_length b) (length inp)
        in if new_len < length inp then (None, b)
           else on_ok (BUF_MEM_reserve mem new_len b) (\<lambda>_ b.
             (Some (), b\<lparr>bm_data := map_option (\<lambda>d. blit d (bm_length b) inp) (bm_data b),
                         bm_length := new_len\<rparr>)))"

text \<open>The string functions of the old interface.\<close>

definition BUF_strdup :: "(nat \<Rightarrow> bytes option) \<Rightarrow> bytes option \<Rightarrow> bytes option" where
  "BUF_strdup mem str = OPENSSL_strdup mem str"

definition BUF_strnlen :: "bytes \<Rightarrow> nat \<Rightarrow> nat" where
  "BUF_strnlen str max_len = OPENSSL_strnlen str max_len"

definition BUF_strndup :: "(nat \<Rightarrow> bytes option) \<Rightarrow> bytes option \<Rightarrow> nat \<Rightarrow> bytes option" where
  "BUF_strndup mem str sz = OPENSSL_strndup mem str sz"

definition BUF_strlcpy :: "bytes \<Rightarrow> bytes \<Rightarrow> nat \<Rightarrow> bytes \<times> nat" where
  "BUF_strlcpy dst src dst_size = OPENSSL_strlcpy dst src dst_size"

definition BUF_strlcat :: "bytes \<Rightarrow> bytes \<Rightarrow> nat \<Rightarrow> bytes \<times> nat" where
  "BUF_strlcat dst src dst_size = OPENSSL_strlcat dst src dst_size"

definition BUF_memdup :: "(nat \<Rightarrow> bytes option) \<Rightarrow> bytes \<Rightarrow> nat \<Rightarrow> bytes option" where
  "BUF_memdup mem data sz = OPENSSL_memdup mem data sz"

section \<open>The bytes of a buffer\<close>

definition buf_ok :: "buf_mem \<Rightarrow> bool" where
  "buf_ok b \<longleftrightarrow> bm_length b \<le> bm_max b \<and>
     (case bm_data b of None \<Rightarrow> bm_max b = 0 | Some d \<Rightarrow> length d = bm_max b)"

definition buf_bytes :: "buf_mem \<Rightarrow> bytes" where
  "buf_bytes b = (case bm_data b of None \<Rightarrow> [] | Some d \<Rightarrow> take (bm_length b) d)"

lemma BUF_MEM_new_empty [invariant_rules]:
  "BUF_MEM_new mem = Some b \<Longrightarrow> buf_ok b \<and> buf_bytes b = []"
  by (auto simp: BUF_MEM_new_def buf_ok_def buf_bytes_def split: option.split_asm)

lemma length_buf_bytes [simp]: "buf_ok b \<Longrightarrow> length (buf_bytes b) = bm_length b"
  by (auto simp: buf_ok_def buf_bytes_def split: option.splits)

lemma BUF_MEM_reserve_ok:
  assumes b: "buf_ok b" and cap: "cap < 2 ^ 61"
  obtains "BUF_MEM_reserve mem cap b = (None, b)" and "\<exists>n. mem n = None"
  | b' where "BUF_MEM_reserve mem cap b = (Some (), b')" and "buf_ok b'" and "cap \<le> bm_max b'"
    and "buf_bytes b' = buf_bytes b" and "bm_length b' = bm_length b"
proof (cases "bm_max b \<ge> cap")
  case True
  then show ?thesis by (intro that(2) [of b]) (use b in \<open>simp_all add: BUF_MEM_reserve_def\<close>)
next
  case False
  let ?n = "(cap + 3) div 3 * 4"
  have n: "size_add cap 3 = cap + 3" "size_mul ((cap + 3) div 3) 4 = ?n" "?n + 8 < 2 ^ 64" "cap \<le> ?n"
    using cap by (simp_all add: size_add_def size_mul_def)
  have run: "BUF_MEM_reserve mem cap b = (case OPENSSL_realloc mem (bm_data b) ?n of None \<Rightarrow> (None, b)
      | Some d \<Rightarrow> (Some (), b\<lparr>bm_data := Some d, bm_max := ?n\<rparr>))"
    using False unfolding BUF_MEM_reserve_def n(1,2) Let_def by simp
  show ?thesis
  proof (cases "OPENSSL_realloc mem (bm_data b) ?n")
    case None
    then have "\<exists>n. mem n = None"
      by (auto simp: ossl_realloc_def ossl_malloc_def Let_def split: option.split_asm)
    with None show ?thesis by (intro that(1)) (simp_all only: run option.case)
  next
    case (Some d)
    have d: "length d = ?n" using ossl_realloc_length [OF Some n(3)] by simp
    let ?b = "b\<lparr>bm_data := Some d, bm_max := ?n\<rparr>"
    have same: "buf_bytes ?b = buf_bytes b"
    proof (cases "bm_data b")
      case None
      with b show ?thesis by (simp add: buf_bytes_def buf_ok_def)
    next
      case old: (Some old)
      have "take (bm_length b) d = take (bm_length b) old"
        using b old False n(4) by (intro ossl_realloc_take [OF Some [unfolded old] n(3)]) (auto simp: buf_ok_def)
      with old show ?thesis by (simp add: buf_bytes_def)
    qed
    show ?thesis
    proof (rule that(2) [of ?b])
      show "BUF_MEM_reserve mem cap b = (Some (), ?b)" by (simp only: run Some option.case)
      show "buf_ok ?b" using b d False n(4) by (simp add: buf_ok_def)
    qed (use n(4) same in simp_all)
  qed
qed

lemma BUF_MEM_append_bytes [invariant_rules]:
  assumes b: "buf_ok b" and len: "bm_length b + length inp < 2 ^ 61"
  obtains "BUF_MEM_append mem inp b = (None, b)" and "\<exists>n. mem n = None"
  | b' where "BUF_MEM_append mem inp b = (Some (), b')" and "buf_ok b'" and "buf_bytes b' = buf_bytes b @ inp"
proof (cases "inp = []")
  case True
  then show ?thesis by (intro that(2) [of b]) (use b in \<open>simp_all add: BUF_MEM_append_def\<close>)
next
  case False
  let ?n = "bm_length b + length inp"
  have n: "size_add (bm_length b) (length inp) = ?n" using len by (simp add: size_add_def)
  have run: "BUF_MEM_append mem inp b = on_ok (BUF_MEM_reserve mem ?n b) (\<lambda>_ b.
      (Some (), b\<lparr>bm_data := map_option (\<lambda>d. blit d (bm_length b) inp) (bm_data b), bm_length := ?n\<rparr>))"
    using False unfolding BUF_MEM_append_def n Let_def by simp
  from b len show ?thesis
  proof (cases rule: BUF_MEM_reserve_ok [where mem = mem])
    case 1
    then show ?thesis by (intro that(1)) (simp_all add: run)
  next
    case (2 b')
    obtain d where d: "bm_data b' = Some d" "length d = bm_max b'"
      using 2(2,3) False by (auto simp: buf_ok_def split: option.split_asm)
    let ?b = "b'\<lparr>bm_data := Some (blit d (bm_length b') inp), bm_length := ?n\<rparr>"
    show ?thesis
    proof (rule that(2) [of ?b])
      show "BUF_MEM_append mem inp b = (Some (), ?b)" by (simp add: run 2(1) d(1))
      show "buf_ok ?b" using 2 d by (simp add: buf_ok_def)
      show "buf_bytes ?b = buf_bytes b @ inp"
        using 2(3,5) take_blit_upto [of "bm_length b" d inp] d unfolding 2(4) [symmetric] by (simp add: buf_bytes_def)
    qed
  qed
qed

lemma BUF_MEM_grow_bytes [invariant_rules]:
  assumes b: "buf_ok b" and len: "len < 2 ^ 61"
  obtains "BUF_MEM_grow mem len b = (0, b)" and "\<exists>n. mem n = None"
  | b' where "BUF_MEM_grow mem len b = (len, b')" and "buf_ok b'"
    and "buf_bytes b' = take len (buf_bytes b) @ replicate (len - bm_length b) 0"
  using b len
proof (cases rule: BUF_MEM_reserve_ok [where mem = mem])
  case 1
  then show ?thesis by (intro that(1)) (simp_all add: BUF_MEM_grow_def)
next
  case (2 b')
  let ?b = "b'\<lparr>bm_data := (if bm_length b' < len
      then map_option (\<lambda>d. blit d (bm_length b') (replicate (len - bm_length b') 0)) (bm_data b')
      else bm_data b'), bm_length := len\<rparr>"
  show ?thesis
  proof (rule that(2) [of ?b])
    show "BUF_MEM_grow mem len b = (len, ?b)" by (simp add: BUF_MEM_grow_def 2(1))
    show "buf_ok ?b" using 2 by (auto simp: buf_ok_def split: option.split)
    show "buf_bytes ?b = take len (buf_bytes b) @ replicate (len - bm_length b) 0"
      unfolding 2(4) [symmetric] 2(5) [symmetric] using 2(2,3)
      by (auto simp: buf_bytes_def buf_ok_def blit_def split: option.splits)
  qed
qed

end
