(* ===== verification/Lhash.thy ===== *)
theory Lhash
  imports Stack
begin

text \<open>
  \<open>lhash/lhash.c\<close>: the chained hash table behind every \<open>LHASH_OF\<close> type. The chain of a bucket is a
  list of items; a pointer into it (the \<open>LHASH_ITEM **\<close> of the code) is the bucket and the
  position in its chain. \<open>call_hash\<close> and \<open>call_cmp\<close> are the helpers that call the hash and
  the comparison function of the element type.
\<close>

type_synonym call_hash = "fn \<Rightarrow> ptr \<Rightarrow> u32"

record lhash_item =
  it_data :: ptr
  it_hash :: u32

record lhash =
  lh_items :: nat
  lh_buckets :: "lhash_item list list"
  lh_num_buckets :: nat
  lh_depth :: nat
  lh_comp :: fn
  lh_hash :: fn

definition kMinNumBuckets :: nat where
  "kMinNumBuckets = 16"

definition kMaxAverageChainLength :: nat where
  "kMaxAverageChainLength = 2"

definition kMinAverageChainLength :: nat where
  "kMinAverageChainLength = 1"

definition lh_new :: "palloc \<Rightarrow> fn \<Rightarrow> fn \<Rightarrow> lhash option" where
  "lh_new mem hf cf =
     (case ossl_malloc 8 mem NULL 48 of
        None \<Rightarrow> None
      | Some _ \<Rightarrow>
          (case ossl_malloc 8 mem NULL (size_mul 8 kMinNumBuckets) of
             None \<Rightarrow> None
           | Some _ \<Rightarrow>
               Some \<lparr>lh_items = 0, lh_buckets = replicate kMinNumBuckets [], lh_num_buckets = kMinNumBuckets,
                     lh_depth = 0, lh_comp = cf, lh_hash = hf\<rparr>))"

definition lh_num_items :: "lhash \<Rightarrow> nat" where
  "lh_num_items lh = lh_items lh"

fun chain_pos :: "(ptr \<Rightarrow> bool) \<Rightarrow> lhash_item list \<Rightarrow> nat" where
  "chain_pos hit [] = 0"
| "chain_pos hit (cur # rest) = (if hit (it_data cur) then 0 else Suc (chain_pos hit rest))"

definition bucket_of :: "lhash \<Rightarrow> u32 \<Rightarrow> nat" where
  "bucket_of lh h = unat h mod lh_num_buckets lh"

definition get_next_ptr_and_hash :: "call_hash \<Rightarrow> call_cmp \<Rightarrow> lhash \<Rightarrow> ptr \<Rightarrow> u32 \<times> nat \<times> nat" where
  "get_next_ptr_and_hash call_hash call_cmp lh d =
     (let h = call_hash (lh_hash lh) d; b = bucket_of lh h
      in (h, b, chain_pos (\<lambda>c. call_cmp (lh_comp lh) c d = 0) (lh_buckets lh ! b)))"

definition get_next_ptr_by_key :: "lhash \<Rightarrow> u32 \<Rightarrow> (ptr \<Rightarrow> int) \<Rightarrow> nat \<times> nat" where
  "get_next_ptr_by_key lh key_hash cmp_key =
     (let b = bucket_of lh key_hash in (b, chain_pos (\<lambda>c. cmp_key c = 0) (lh_buckets lh ! b)))"

definition item_data_at :: "lhash \<Rightarrow> nat \<Rightarrow> nat \<Rightarrow> ptr" where
  "item_data_at lh b k =
     (if k < length (lh_buckets lh ! b) then it_data (lh_buckets lh ! b ! k) else NULL)"

definition lh_retrieve :: "call_hash \<Rightarrow> call_cmp \<Rightarrow> lhash \<Rightarrow> ptr \<Rightarrow> ptr" where
  "lh_retrieve call_hash call_cmp lh d =
     (case get_next_ptr_and_hash call_hash call_cmp lh d of (_, b, k) \<Rightarrow> item_data_at lh b k)"

definition lh_retrieve_key :: "lhash \<Rightarrow> u32 \<Rightarrow> (ptr \<Rightarrow> int) \<Rightarrow> ptr" where
  "lh_retrieve_key lh key_hash cmp_key =
     (case get_next_ptr_by_key lh key_hash cmp_key of (b, k) \<Rightarrow> item_data_at lh b k)"

text \<open>The items move, in bucket order, to the front of their new chains.\<close>

definition lh_redistribute :: "nat \<Rightarrow> lhash_item list \<Rightarrow> lhash_item list list \<Rightarrow> lhash_item list list" where
  "lh_redistribute n items new_buckets =
     foldl (\<lambda>nb cur. let b = unat (it_hash cur) mod n in nb[b := cur # nb ! b]) new_buckets items"

definition lh_rebucket :: "palloc \<Rightarrow> nat \<Rightarrow> lhash \<Rightarrow> lhash" where
  "lh_rebucket mem n lh =
     (let alloc_size = size_mul 8 n
      in if alloc_size div 8 \<noteq> n then lh
         else
           (case ossl_malloc 8 mem NULL alloc_size of
              None \<Rightarrow> lh
            | Some _ \<Rightarrow>
                lh\<lparr>lh_num_buckets := n,
                   lh_buckets := lh_redistribute n (concat (lh_buckets lh)) (replicate n [])\<rparr>))"

definition lh_maybe_resize :: "palloc \<Rightarrow> lhash \<Rightarrow> lhash" where
  "lh_maybe_resize mem lh =
     (if lh_depth lh > 0 then lh
      else
        let avg_chain_length = lh_items lh div lh_num_buckets lh
        in if avg_chain_length > kMaxAverageChainLength then
             let n = size_mul (lh_num_buckets lh) 2
             in if n > lh_num_buckets lh then lh_rebucket mem n lh else lh
           else if avg_chain_length < kMinAverageChainLength \<and> lh_num_buckets lh > kMinNumBuckets then
             let n = lh_num_buckets lh div 2
             in lh_rebucket mem (if n < kMinNumBuckets then kMinNumBuckets else n) lh
           else lh)"

text \<open>\<open>lh_insert\<close> returns what it returns and the element that was replaced.\<close>

definition lh_insert :: "palloc \<Rightarrow> call_hash \<Rightarrow> call_cmp \<Rightarrow> ptr \<Rightarrow> lhash \<Rightarrow> (bool \<times> ptr) \<times> lhash" where
  "lh_insert mem call_hash call_cmp d lh =
     (case get_next_ptr_and_hash call_hash call_cmp lh d of
        (h, b, k) \<Rightarrow>
          let chain = lh_buckets lh ! b
          in if k < length chain then
               ((True, it_data (chain ! k)),
                lh\<lparr>lh_buckets := (lh_buckets lh)[b := chain[k := (chain ! k)\<lparr>it_data := d\<rparr>]]\<rparr>)
             else
               (case ossl_malloc 8 mem NULL 24 of
                  None \<Rightarrow> ((False, NULL), lh)
                | Some _ \<Rightarrow>
                    ((True, NULL),
                     lh_maybe_resize mem
                       (lh\<lparr>lh_buckets := (lh_buckets lh)[b := take k chain @ [\<lparr>it_data = d, it_hash = h\<rparr>]],
                          lh_items := size_add (lh_items lh) 1\<rparr>))))"

definition lh_delete :: "palloc \<Rightarrow> call_hash \<Rightarrow> call_cmp \<Rightarrow> ptr \<Rightarrow> lhash \<Rightarrow> ptr \<times> lhash" where
  "lh_delete mem call_hash call_cmp d lh =
     (case get_next_ptr_and_hash call_hash call_cmp lh d of
        (_, b, k) \<Rightarrow>
          let chain = lh_buckets lh ! b
          in if k \<ge> length chain then (NULL, lh)
             else
               (it_data (chain ! k),
                lh_maybe_resize mem
                  (lh\<lparr>lh_buckets := (lh_buckets lh)[b := take k chain @ drop (Suc k) chain],
                     lh_items := lh_items lh - 1\<rparr>)))"

text \<open>
  \<open>lh_doall_arg\<close> for callbacks that leave the table alone: the elements they are called with,
  in order. \<open>callback_depth\<close> saturates at \<open>UINT_MAX\<close>.
\<close>

definition lh_doall_arg :: "palloc \<Rightarrow> lhash option \<Rightarrow> ptr list \<times> lhash option" where
  "lh_doall_arg mem lh =
     (case lh of
        None \<Rightarrow> ([], None)
      | Some lh \<Rightarrow>
          let lh1 = (if lh_depth lh < 2 ^ 32 - 1 then lh\<lparr>lh_depth := lh_depth lh + 1\<rparr> else lh);
              calls = map it_data (concat (lh_buckets lh1));
              lh2 = (if lh_depth lh1 < 2 ^ 32 - 1 then lh1\<lparr>lh_depth := lh_depth lh1 - 1\<rparr> else lh1)
          in (calls, Some (lh_maybe_resize mem lh2)))"

definition lh_strhash :: "bytes option \<Rightarrow> u32" where
  "lh_strhash c = (case c of None \<Rightarrow> 0 | Some s \<Rightarrow> OPENSSL_hash32 (take (c_strlen s) s))"


section \<open>The elements of a table\<close>

text \<open>
  What the table relies on of the functions of the element type: the comparison recognises an
  equivalence, and equivalent elements have the same hash.
\<close>

locale element_laws =
  fixes hash :: "ptr \<Rightarrow> u32" and cmp :: "ptr \<Rightarrow> ptr \<Rightarrow> int"
  assumes refl: "cmp x x = 0"
    and sym: "cmp x y = 0 \<Longrightarrow> cmp y x = 0"
    and trans: "cmp x y = 0 \<Longrightarrow> cmp y z = 0 \<Longrightarrow> cmp x z = 0"
    and hash: "cmp x y = 0 \<Longrightarrow> hash x = hash y"
begin

lemma same_class: "cmp x y = 0 \<Longrightarrow> cmp z x = 0 \<longleftrightarrow> cmp z y = 0"
  using sym trans by blast

end

definition table :: "lhash \<Rightarrow> lhash_item multiset" where
  "table lh = mset (concat (lh_buckets lh))"

definition found :: "(ptr \<Rightarrow> ptr \<Rightarrow> int) \<Rightarrow> lhash_item multiset \<Rightarrow> ptr \<Rightarrow> lhash_item multiset" where
  "found cmp M x = filter_mset (\<lambda>i. cmp (it_data i) x = 0) M"

text \<open>
  The invariant: every item lies in the bucket of its cached hash, the items are counted, and no
  two items are equivalent.
\<close>

definition placed :: "nat \<Rightarrow> lhash_item list list \<Rightarrow> bool" where
  "placed n bs \<longleftrightarrow> length bs = n \<and> (\<forall>b < n. \<forall>i \<in> set (bs ! b). unat (it_hash i) mod n = b)"

definition table_ok :: "(ptr \<Rightarrow> u32) \<Rightarrow> (ptr \<Rightarrow> ptr \<Rightarrow> int) \<Rightarrow> lhash \<Rightarrow> bool" where
  "table_ok hash cmp lh \<longleftrightarrow>
     0 < lh_num_buckets lh \<and> placed (lh_num_buckets lh) (lh_buckets lh) \<and> lh_items lh = size (table lh) \<and>
     (\<forall>i \<in># table lh. it_hash i = hash (it_data i)) \<and> (\<forall>x. size (found cmp (table lh) x) \<le> 1)"

lemma mset_concat_update:
  assumes "b < length bs"
  shows "mset (concat (bs[b := c])) + mset (bs ! b) = mset (concat bs) + mset c"
proof -
  have "mset (concat bs) = mset (concat (take b bs @ bs ! b # drop (Suc b) bs))"
    using assms by (simp add: id_take_nth_drop [symmetric])
  then show ?thesis using assms by (simp add: upd_conv_take_nth_drop)
qed

lemma bucket_in_table: "b < length bs \<Longrightarrow> i \<in> set (bs ! b) \<Longrightarrow> i \<in># mset (concat bs)"
  by force

lemma placed_update:
  "placed n bs \<Longrightarrow> \<forall>i \<in> set c. unat (it_hash i) mod n = b \<Longrightarrow> placed n (bs[b := c])"
  by (cases "b < length bs") (auto simp: placed_def nth_list_update)

lemma lh_redistribute:
  "0 < n \<Longrightarrow> placed n nb \<Longrightarrow>
   placed n (lh_redistribute n items nb) \<and>
   mset (concat (lh_redistribute n items nb)) = mset (concat nb) + mset items"
proof (induction items arbitrary: nb)
  case (Cons cur items)
  let ?b = "unat (it_hash cur) mod n"
  let ?nb = "nb[?b := cur # nb ! ?b]"
  have b: "?b < length nb" using Cons.prems by (simp add: placed_def)
  have "placed n ?nb"
    using Cons.prems b by (intro placed_update) (auto simp: placed_def)
  moreover have "mset (concat ?nb) = mset (concat nb) + {#cur#}"
    using mset_concat_update [OF b, of "cur # nb ! ?b"] by simp
  ultimately show ?case
    using Cons.IH [of ?nb] Cons.prems(1) by (simp add: lh_redistribute_def Let_def)
qed (simp add: lh_redistribute_def)

lemma placed_empty: "placed n (replicate n [])"
  by (simp add: placed_def)

lemma table_ok_same:
  assumes "table_ok hash cmp lh" and "table lh' = table lh" and "lh_items lh' = lh_items lh"
    and "0 < lh_num_buckets lh'" and "placed (lh_num_buckets lh') (lh_buckets lh')"
  shows "table_ok hash cmp lh'"
  using assms by (simp add: table_ok_def)

lemma lh_rebucket_table:
  assumes ok: "table_ok hash cmp lh" and n: "0 < n"
  shows "table_ok hash cmp (lh_rebucket mem n lh) \<and> table (lh_rebucket mem n lh) = table lh \<and>
    lh_comp (lh_rebucket mem n lh) = lh_comp lh \<and> lh_hash (lh_rebucket mem n lh) = lh_hash lh"
proof -
  let ?nb = "lh_redistribute n (concat (lh_buckets lh)) (replicate n [])"
  let ?lh = "lh\<lparr>lh_num_buckets := n, lh_buckets := ?nb\<rparr>"
  have nb: "placed n ?nb" "mset (concat ?nb) = mset (concat (lh_buckets lh))"
    using lh_redistribute [OF n placed_empty] by auto
  then have "table ?lh = table lh" by (simp add: table_def)
  moreover from this have "table_ok hash cmp ?lh" using nb(1) n by (intro table_ok_same [OF ok]) simp_all
  moreover have "lh_rebucket mem n lh = lh \<or> lh_rebucket mem n lh = ?lh"
    by (simp add: lh_rebucket_def Let_def split: option.split)
  ultimately show ?thesis using ok by auto
qed

lemma lh_maybe_resize_table [invariant_rules]:
  assumes ok: "table_ok hash cmp lh"
  shows "table_ok hash cmp (lh_maybe_resize mem lh) \<and> table (lh_maybe_resize mem lh) = table lh \<and>
    lh_comp (lh_maybe_resize mem lh) = lh_comp lh \<and> lh_hash (lh_maybe_resize mem lh) = lh_hash lh"
proof -
  define P where "P l \<longleftrightarrow> table_ok hash cmp l \<and> table l = table lh \<and> lh_comp l = lh_comp lh \<and> lh_hash l = lh_hash lh" for l
  have P: "P lh" "0 < n \<Longrightarrow> P (lh_rebucket mem n lh)" for n
    using ok lh_rebucket_table [OF ok] by (auto simp: P_def)
  have "P (lh_maybe_resize mem lh)"
    using P by (simp add: lh_maybe_resize_def Let_def kMinNumBuckets_def)
  then show ?thesis by (simp add: P_def)
qed

lemma chain_pos:
  "chain_pos hit c \<le> length c \<and>
   (chain_pos hit c < length c \<longrightarrow> hit (it_data (c ! chain_pos hit c))) \<and>
   (chain_pos hit c = length c \<longrightarrow> (\<forall>i \<in> set c. \<not> hit (it_data i)))"
  by (induction c) auto

lemma size_le_1:
  assumes "size M \<le> 1" and "i \<in># M"
  shows "M = {#i#}"
proof -
  obtain N where "M = add_mset i N" using assms(2) by (blast dest: multi_member_split)
  with assms(1) show ?thesis by simp
qed

lemma found_memD: "i \<in># found cmp M x \<Longrightarrow> i \<in># M \<and> cmp (it_data i) x = 0"
  by (simp add: found_def)

lemma found_add: "found cmp (add_mset i M) x = (if cmp (it_data i) x = 0 then add_mset i (found cmp M x) else found cmp M x)"
  by (simp add: found_def)

definition value_of :: "lhash_item multiset \<Rightarrow> ptr" where
  "value_of N = (if N = {#} then NULL else it_data (the_elem (set_mset N)))"

context element_laws
begin

lemma found_same: "cmp x y = 0 \<Longrightarrow> found cmp M x = found cmp M y"
  unfolding found_def using same_class by (intro filter_mset_cong) auto

text \<open>The position that the search returns, and what is there.\<close>

lemma get_next_found:
  assumes ok: "table_ok hash cmp lh" and fns: "call_hash (lh_hash lh) = hash" "call_cmp (lh_comp lh) = cmp"
    and get: "get_next_ptr_and_hash call_hash call_cmp lh x = (h, b, k)"
  shows "h = hash x" and "b = unat h mod lh_num_buckets lh" and "b < length (lh_buckets lh)" and "k \<le> length (lh_buckets lh ! b)"
    and "k < length (lh_buckets lh ! b) \<Longrightarrow> found cmp (table lh) x = {#lh_buckets lh ! b ! k#}"
    and "k = length (lh_buckets lh ! b) \<Longrightarrow> found cmp (table lh) x = {#}"
proof -
  let ?c = "lh_buckets lh ! b"
  have h: "h = hash x" "b = unat h mod lh_num_buckets lh" "k = chain_pos (\<lambda>c. cmp c x = 0) ?c"
    using get by (auto simp: get_next_ptr_and_hash_def Let_def fns bucket_of_def)
  show "h = hash x" "b = unat h mod lh_num_buckets lh" by (rule h)+
  show b: "b < length (lh_buckets lh)" using ok h(2) by (simp add: table_ok_def placed_def)
  show "k \<le> length ?c" using chain_pos h(3) by simp
  have here: "i \<in> set ?c" if i: "i \<in># found cmp (table lh) x" for i
  proof -
    obtain c where "c \<in> set (lh_buckets lh)" "i \<in> set c"
      using i by (auto simp: found_def table_def)
    then obtain b' where b': "b' < length (lh_buckets lh)" "i \<in> set (lh_buckets lh ! b')"
      by (metis in_set_conv_nth)
    have "cmp (it_data i) x = 0" "it_hash i = hash (it_data i)"
      using i ok by (auto simp: found_def table_ok_def)
    then have "it_hash i = h" using hash h(1) by simp
    with b' ok h(2) have "b' = b" by (auto simp: table_ok_def placed_def)
    with b'(2) show ?thesis by simp
  qed
  show "found cmp (table lh) x = {#?c ! k#}" if "k < length ?c"
  proof (rule size_le_1)
    show "size (found cmp (table lh) x) \<le> 1" using ok by (simp add: table_ok_def)
    show "?c ! k \<in># found cmp (table lh) x"
      using that chain_pos [of "\<lambda>c. cmp c x = 0" ?c] bucket_in_table [OF b nth_mem [OF that]] h(3)
      unfolding found_def table_def by auto
  qed
  show "found cmp (table lh) x = {#}" if "k = length ?c"
    using that here chain_pos [of "\<lambda>c. cmp c x = 0" ?c] h(3)
    by (metis (mono_tags, lifting) found_def mem_Collect_eq multiset_nonemptyE set_mset_filter)
qed

lemma lh_retrieve_value:
  assumes ok: "table_ok hash cmp lh" and fns: "call_hash (lh_hash lh) = hash" "call_cmp (lh_comp lh) = cmp"
  shows "lh_retrieve call_hash call_cmp lh x = value_of (found cmp (table lh) x)"
proof -
  obtain h b k where get: "get_next_ptr_and_hash call_hash call_cmp lh x = (h, b, k)" by (metis prod_cases3)
  note pos = get_next_found [OF ok fns get]
  show ?thesis
    using pos(4,5,6)
    by (cases "k < length (lh_buckets lh ! b)") (auto simp: lh_retrieve_def get item_data_at_def value_of_def)
qed

lemma found_put:
  assumes "it_data i = d" and "found cmp R d = {#}"
  shows "found cmp (add_mset i R) y = (if cmp d y = 0 then {#i#} else found cmp R y)"
proof (cases "cmp d y = 0")
  case True
  from found_same [OF this, of R] assms True show ?thesis by (simp add: found_add)
qed (simp add: found_add assms)

lemma found_removed:
  assumes one: "found cmp (add_mset old R) d = {#old#}"
  shows "found cmp R y = (if cmp d y = 0 then {#} else found cmp (add_mset old R) y)"
proof -
  have "old \<in># found cmp (add_mset old R) d" by (simp add: one)
  then have old: "cmp (it_data old) d = 0" by (blast dest: found_memD)
  then have R: "found cmp R d = {#}" using one by (simp add: found_add)
  show ?thesis
  proof (cases "cmp d y = 0")
    case True
    from found_same [OF this, of R] R True show ?thesis by simp
  next
    case False
    then have "cmp (it_data old) y \<noteq> 0" using old sym trans by blast
    with False show ?thesis by (simp add: found_add)
  qed
qed

text \<open>The tables that an insertion leaves before it resizes.\<close>

lemma replaced_table:
  assumes ok: "table_ok hash cmp lh" and b: "b < length (lh_buckets lh)" and k: "k < length (lh_buckets lh ! b)"
    and one: "found cmp (table lh) d = {#lh_buckets lh ! b ! k#}"
  defines "i \<equiv> (lh_buckets lh ! b ! k)\<lparr>it_data := d\<rparr>"
  defines "lh' \<equiv> lh\<lparr>lh_buckets := (lh_buckets lh)[b := (lh_buckets lh ! b)[k := i]]\<rparr>"
  shows "table_ok hash cmp lh' \<and> (\<forall>y. found cmp (table lh') y = (if cmp d y = 0 then {#i#} else found cmp (table lh) y))"
proof -
  let ?c = "lh_buckets lh ! b"
  have old: "?c ! k \<in># table lh" "cmp (it_data (?c ! k)) d = 0"
    using found_memD [of "?c ! k" cmp "table lh" d] one by auto
  then obtain R where R: "table lh = add_mset (?c ! k) R" by (blast dest: multi_member_split)
  have "mset (?c[k := i]) + {#?c ! k#} = mset ?c + {#i#}"
    using k by (simp add: mset_update)
  then have tab: "table lh' = add_mset i R"
    using mset_concat_update [OF b, of "?c[k := i]"] R
    by (simp add: table_def lh'_def) (metis (no_types, lifting) add_mset_add_single add_right_cancel union_commute union_assoc)
  have f: "found cmp (add_mset i R) y = (if cmp d y = 0 then {#i#} else found cmp (add_mset (?c ! k) R) y)" for y
  proof -
    note rem = found_removed [OF one [unfolded R]]
    have "found cmp R d = {#}" using rem [of d] refl by simp
    then show ?thesis using found_put [of i d R y] rem [of y] by (simp add: i_def)
  qed
  have i: "it_hash i = hash (it_data i)" "it_hash i = it_hash (?c ! k)"
    using ok old hash [of "it_data (?c ! k)" d] by (auto simp: table_ok_def i_def)
  have "placed (lh_num_buckets lh) (lh_buckets lh')"
    unfolding lh'_def using ok b k i(2)
    by (auto simp: table_ok_def intro!: placed_update dest!: set_update_subset_insert [THEN subsetD])
      (auto simp: placed_def)
  moreover have "size (found cmp (add_mset i R) y) \<le> 1" for y
    using ok by (simp add: f R table_ok_def)
  moreover have "\<forall>j \<in># add_mset i R. it_hash j = hash (it_data j)"
    using ok i by (simp add: R table_ok_def)
  ultimately have "table_ok hash cmp lh'"
    using ok by (simp add: table_ok_def tab R) (simp add: lh'_def)
  then show ?thesis using f by (simp add: tab R)
qed

lemma appended_table:
  assumes ok: "table_ok hash cmp lh" and b: "b = unat (hash d) mod lh_num_buckets lh"
    and none: "found cmp (table lh) d = {#}" and items: "lh_items lh < 2 ^ 63"
  defines "i \<equiv> \<lparr>it_data = d, it_hash = hash d\<rparr>"
  defines "lh' \<equiv> lh\<lparr>lh_buckets := (lh_buckets lh)[b := lh_buckets lh ! b @ [i]], lh_items := size_add (lh_items lh) 1\<rparr>"
  shows "table_ok hash cmp lh' \<and> (\<forall>y. found cmp (table lh') y = (if cmp d y = 0 then {#i#} else found cmp (table lh) y))"
proof -
  have b': "b < length (lh_buckets lh)" using ok b by (simp add: table_ok_def placed_def)
  have tab: "table lh' = add_mset i (table lh)"
    using mset_concat_update [OF b', of "lh_buckets lh ! b @ [i]"] by (simp add: table_def lh'_def)
  have f: "found cmp (add_mset i (table lh)) y = (if cmp d y = 0 then {#i#} else found cmp (table lh) y)" for y
    by (rule found_put [OF _ none]) (simp add: i_def)
  have "placed (lh_num_buckets lh) (lh_buckets lh')"
    unfolding lh'_def using ok b b'
    by (auto simp: table_ok_def i_def intro!: placed_update) (auto simp: placed_def)
  moreover have "size (found cmp (add_mset i (table lh)) y) \<le> 1" for y
    using ok by (simp add: f table_ok_def)
  moreover have "lh_items lh' = size (table lh) + 1"
    using ok items by (simp add: lh'_def size_add_def table_ok_def)
  ultimately have "table_ok hash cmp lh'"
    using ok by (simp add: table_ok_def tab i_def) (simp add: lh'_def)
  then show ?thesis using f by (simp add: tab)
qed

lemma removed_table:
  assumes ok: "table_ok hash cmp lh" and b: "b < length (lh_buckets lh)" and k: "k < length (lh_buckets lh ! b)"
    and one: "found cmp (table lh) d = {#lh_buckets lh ! b ! k#}"
  defines "lh' \<equiv> lh\<lparr>lh_buckets := (lh_buckets lh)[b := take k (lh_buckets lh ! b) @ drop (Suc k) (lh_buckets lh ! b)],
    lh_items := lh_items lh - 1\<rparr>"
  shows "table_ok hash cmp lh' \<and> (\<forall>y. found cmp (table lh') y = (if cmp d y = 0 then {#} else found cmp (table lh) y))"
proof -
  let ?c = "lh_buckets lh ! b" and ?r = "take k (lh_buckets lh ! b) @ drop (Suc k) (lh_buckets lh ! b)"
  have c: "mset ?c = add_mset (?c ! k) (mset ?r)"
    by (subst id_take_nth_drop [OF k]) simp
  have tab: "table lh = add_mset (?c ! k) (table lh')"
    using mset_concat_update [OF b, of ?r] unfolding c by (simp add: table_def lh'_def)
  have f: "found cmp (table lh') y = (if cmp d y = 0 then {#} else found cmp (table lh) y)" for y
    using found_removed [OF one [unfolded tab]] unfolding tab .
  have "set ?r \<subseteq> set ?c" by (auto dest: in_set_takeD in_set_dropD)
  then have "placed (lh_num_buckets lh) (lh_buckets lh')"
    unfolding lh'_def using ok b by (auto simp: table_ok_def intro!: placed_update) (auto simp: placed_def)
  moreover have "size (found cmp (table lh') y) \<le> 1" for y
    using ok by (simp add: f table_ok_def)
  moreover have "lh_items lh' = size (table lh')"
  proof -
    have "lh_items lh = size (table lh)" using ok by (simp add: table_ok_def)
    moreover have "size (table lh) = Suc (size (table lh'))" by (simp only: tab size_add_mset)
    moreover have "lh_items lh' = lh_items lh - 1" by (simp add: lh'_def)
    ultimately show ?thesis by linarith
  qed
  moreover have "\<forall>j \<in># table lh'. it_hash j = hash (it_data j)"
    using ok by (simp add: tab table_ok_def)
  ultimately have "table_ok hash cmp lh'"
    using ok by (simp add: table_ok_def) (simp add: lh'_def)
  then show ?thesis using f by simp
qed

text \<open>
  The map laws: what a lookup returns after an insertion and after a deletion, resizing
  included.
\<close>

lemma lh_insert_retrieve [invariant_rules]:
  assumes ok: "table_ok hash cmp lh" and fns: "call_hash (lh_hash lh) = hash" "call_cmp (lh_comp lh) = cmp"
    and items: "lh_items lh < 2 ^ 63"
    and run: "lh_insert mem call_hash call_cmp d lh = ((done, old), lh')"
  shows "old = lh_retrieve call_hash call_cmp lh d \<and>
    (if done then table_ok hash cmp lh' \<and> call_hash (lh_hash lh') = hash \<and> call_cmp (lh_comp lh') = cmp \<and>
       (\<forall>y. lh_retrieve call_hash call_cmp lh' y = (if cmp d y = 0 then d else lh_retrieve call_hash call_cmp lh y))
     else lh' = lh \<and> (\<exists>n. mem n = None))"
proof -
  obtain h b k where get: "get_next_ptr_and_hash call_hash call_cmp lh d = (h, b, k)" by (metis prod_cases3)
  note pos = get_next_found [OF ok, of call_hash call_cmp, OF fns get]
  note val = lh_retrieve_value [OF _ , of _ call_hash call_cmp]
  let ?c = "lh_buckets lh ! b"
  have after: "\<forall>y. lh_retrieve call_hash call_cmp l y = (if cmp d y = 0 then d else lh_retrieve call_hash call_cmp lh y)"
    if "table_ok hash cmp l" "it_data i = d" "lh_comp l = lh_comp lh" "lh_hash l = lh_hash lh"
      "\<forall>y. found cmp (table l) y = (if cmp d y = 0 then {#i#} else found cmp (table lh) y)" for l i
    using val [OF that(1)] val [OF ok] fns that(2-5) by (simp add: value_of_def)
  show ?thesis
  proof (cases "k < length ?c")
    case True
    let ?i = "(?c ! k)\<lparr>it_data := d\<rparr>"
    let ?lh = "lh\<lparr>lh_buckets := (lh_buckets lh)[b := ?c[k := ?i]]\<rparr>"
    have "((done, old), lh') = ((True, it_data (?c ! k)), ?lh)"
      using run True by (simp add: lh_insert_def get Let_def)
    then have r: "done" "old = it_data (?c ! k)" "lh' = ?lh" by simp_all
    note new = replaced_table [OF ok pos(3) True pos(5) [OF True]]
    show ?thesis
      using after [of ?lh ?i] new val [OF ok fns, of d] pos(5) [OF True] fns by (simp add: r value_of_def)
  next
    case False
    then have k: "k = length ?c" and none: "found cmp (table lh) d = {#}" using pos(4,6) by auto
    have NULL: "lh_retrieve call_hash call_cmp lh d = NULL" using val [OF ok fns, of d] none by (simp add: value_of_def)
    show ?thesis
    proof (cases "ossl_malloc 8 mem NULL 24")
      case None
      with run False NULL show ?thesis
        by (auto simp: lh_insert_def get Let_def ossl_malloc_def split: option.split_asm)
    next
      case (Some m)
      let ?i = "\<lparr>it_data = d, it_hash = hash d\<rparr>"
      let ?l0 = "lh\<lparr>lh_buckets := (lh_buckets lh)[b := ?c @ [?i]], lh_items := size_add (lh_items lh) 1\<rparr>"
      have "((done, old), lh') = ((True, NULL), lh_maybe_resize mem ?l0)"
        using run False Some k pos(1) by (simp add: lh_insert_def get Let_def)
      then have r: "done" "old = NULL" "lh' = lh_maybe_resize mem ?l0" by simp_all
      note new = appended_table [OF ok pos(2) [unfolded pos(1)] none items]
      note size = lh_maybe_resize_table [OF conjunct1 [OF new], of mem]
      show ?thesis
        using after [of lh' ?i] new size fns NULL by (simp add: r)
    qed
  qed
qed

lemma lh_delete_retrieve [invariant_rules]:
  assumes ok: "table_ok hash cmp lh" and fns: "call_hash (lh_hash lh) = hash" "call_cmp (lh_comp lh) = cmp"
    and run: "lh_delete mem call_hash call_cmp d lh = (old, lh')"
  shows "old = lh_retrieve call_hash call_cmp lh d \<and> table_ok hash cmp lh' \<and>
    call_hash (lh_hash lh') = hash \<and> call_cmp (lh_comp lh') = cmp \<and>
    (\<forall>y. lh_retrieve call_hash call_cmp lh' y = (if cmp d y = 0 then NULL else lh_retrieve call_hash call_cmp lh y))"
proof -
  obtain h b k where get: "get_next_ptr_and_hash call_hash call_cmp lh d = (h, b, k)" by (metis prod_cases3)
  note pos = get_next_found [OF ok, of call_hash call_cmp, OF fns get]
  note val = lh_retrieve_value [OF _ , of _ call_hash call_cmp]
  let ?c = "lh_buckets lh ! b"
  show ?thesis
  proof (cases "k < length ?c")
    case True
    let ?l0 = "lh\<lparr>lh_buckets := (lh_buckets lh)[b := take k ?c @ drop (Suc k) ?c], lh_items := lh_items lh - 1\<rparr>"
    have r: "old = it_data (?c ! k)" "lh' = lh_maybe_resize mem ?l0"
      using run True by (auto simp: lh_delete_def get Let_def)
    note new = removed_table [OF ok pos(3) True pos(5) [OF True]]
    note size = lh_maybe_resize_table [OF conjunct1 [OF new], of mem]
    have lh': "table_ok hash cmp lh'" "call_hash (lh_hash lh') = hash" "call_cmp (lh_comp lh') = cmp"
      "\<forall>y. found cmp (table lh') y = (if cmp d y = 0 then {#} else found cmp (table lh) y)"
      using new size fns by (simp_all add: r)
    show ?thesis
      using lh' val [OF lh'(1-3)] val [OF ok fns] pos(5) [OF True] by (simp add: r(1) value_of_def)
  next
    case False
    then have none: "found cmp (table lh) d = {#}" using pos(4,6) by auto
    have "old = NULL" "lh' = lh" using run False by (auto simp: lh_delete_def get Let_def)
    with ok fns val [OF ok fns] none show ?thesis
      using found_same [of d] by (auto simp: value_of_def)
  qed
qed

end

lemma lh_new_ok [invariant_rules]:
  assumes "lh_new mem hf cf = Some lh"
  shows "table_ok hash cmp lh \<and> table lh = {#} \<and> lh_hash lh = hf \<and> lh_comp lh = cf"
  using assms
  by (auto simp: lh_new_def table_ok_def table_def placed_def found_def kMinNumBuckets_def split: option.split_asm)

text \<open>The tables of strings, such as those of \<open>conf.c\<close>, hash with \<open>lh_strhash\<close> and compare with \<open>strcmp\<close>.\<close>

interpretation c_string: element_laws "\<lambda>p. lh_strhash (Some (heap p))" "\<lambda>p q. strcmp (heap p) (heap q)"
  for heap :: "ptr \<Rightarrow> bytes"
proof
  have "take (c_strlen s) s = takeWhile (\<lambda>c. c \<noteq> 0) s" for s
    unfolding c_strlen_def by (rule takeWhile_eq_take [symmetric])
  then show "strcmp (heap x) (heap y) = 0 \<Longrightarrow> lh_strhash (Some (heap x)) = lh_strhash (Some (heap y))" for x y
    by (simp add: strcmp_eq_0 lh_strhash_def)
qed (simp_all add: strcmp_eq_0)

end
