(* ===== verification/Bio.thy ===== *)
theory Bio
  imports Mem "HOL-Library.Monad_Syntax"
begin

text \<open>
  \<open>bio/bio.c\<close>: the streams (\<open>BIO\<close>). A BIO is named by its address, and the heap maps the
  addresses of the live ones to their contents; \<open>'p\<close> is what \<open>ptr\<close> points to. The method
  tables are numbered, and \<open>ms\<close> says what is behind each number. An operation returns \<open>None\<close>
  when it touches a BIO that is not live, and also when it does not return.
\<close>

unbundle bit_operations_syntax

type_synonym addr = nat

record 'p bio =
  bio_method :: "nat option"
  bio_init :: bool
  bio_shutdown :: int
  bio_flags :: u32
  bio_retry_reason :: int
  bio_num :: int
  bio_references :: u32
  bio_ptr :: "'p option"
  next_bio :: "addr option"
  num_read :: nat
  num_write :: nat

type_synonym 'p bios = "addr \<Rightarrow> 'p bio option"
type_synonym ('r, 'p) bio_op = "'p bios \<Rightarrow> ('r \<times> 'p bios) option"

text \<open>A read is given the buffer, with its contents from the pointer on, and returns it.\<close>

record 'p bio_methods =
  m_type :: nat
  m_bwrite :: "(addr \<Rightarrow> bytes option \<Rightarrow> int \<Rightarrow> (int, 'p) bio_op) option"
  m_bread :: "(addr \<Rightarrow> bytes option \<Rightarrow> int \<Rightarrow> (int \<times> bytes option, 'p) bio_op) option"
  m_bgets :: "(addr \<Rightarrow> bytes option \<Rightarrow> int \<Rightarrow> (int \<times> bytes option, 'p) bio_op) option"
  m_ctrl :: "(addr \<Rightarrow> nat \<Rightarrow> int \<Rightarrow> addr option \<Rightarrow> (int, 'p) bio_op) option"
  m_create :: "(addr \<Rightarrow> (bool, 'p) bio_op) option"
  m_destroy :: "(addr \<Rightarrow> (bool, 'p) bio_op) option"
  m_callback_ctrl :: "(addr \<Rightarrow> nat \<Rightarrow> nat \<Rightarrow> (int, 'p) bio_op) option"

definition on_bio :: "addr \<Rightarrow> ('p bio \<Rightarrow> 'p bio) \<Rightarrow> 'p bios \<Rightarrow> 'p bios option" where
  "on_bio a f h = do { b \<leftarrow> h a; Some (h(a \<mapsto> f b)) }"


section \<open>Reference counts\<close>

definition CRYPTO_REFCOUNT_MAX :: u32 where
  "CRYPTO_REFCOUNT_MAX = 0xffffffff"

definition CRYPTO_refcount_inc :: "u32 \<Rightarrow> u32" where
  "CRYPTO_refcount_inc count = (if count \<noteq> CRYPTO_REFCOUNT_MAX then count + 1 else count)"

text \<open>The result is \<open>None\<close> where the code aborts.\<close>

definition CRYPTO_refcount_dec_and_test_zero :: "u32 \<Rightarrow> (bool \<times> u32) option" where
  "CRYPTO_refcount_dec_and_test_zero count =
     (if count = 0 then None
      else if count = CRYPTO_REFCOUNT_MAX then Some (False, count)
      else Some (count - 1 = 0, count - 1))"


section \<open>Creation and release\<close>

text \<open>\<open>a\<close> is the address that the allocator returns, if it returns a block.\<close>

definition BIO_new ::
  "(nat \<Rightarrow> bytes option) \<Rightarrow> (nat \<Rightarrow> 'p bio_methods) \<Rightarrow> nat \<Rightarrow> addr \<Rightarrow> (addr option, 'p) bio_op" where
  "BIO_new mem ms m a h =
     (case OPENSSL_malloc mem 64 of
        None \<Rightarrow> Some (None, h)
      | Some _ \<Rightarrow>
          let h = h(a \<mapsto> \<lparr>bio_method = Some m, bio_init = False, bio_shutdown = 1, bio_flags = 0,
                bio_retry_reason = 0, bio_num = 0, bio_references = 1, bio_ptr = None,
                next_bio = None, num_read = 0, num_write = 0\<rparr>)
          in (case m_create (ms m) of
                None \<Rightarrow> Some (Some a, h)
              | Some create \<Rightarrow> do {
                  (ok, h) \<leftarrow> create a h;
                  if ok then Some (Some a, h) else Some (None, h(a := None)) }))"

definition BIO_pop :: "addr option \<Rightarrow> (addr option, 'p) bio_op" where
  "BIO_pop a h =
     (case a of
        None \<Rightarrow> Some (None, h)
      | Some a \<Rightarrow> do { b \<leftarrow> h a; Some (next_bio b, h(a \<mapsto> b\<lparr>next_bio := None\<rparr>)) })"

definition bio_destroy :: "(nat \<Rightarrow> 'p bio_methods) \<Rightarrow> addr \<Rightarrow> 'p bios \<Rightarrow> 'p bios option" where
  "bio_destroy ms a h = do {
     b \<leftarrow> h a;
     (case Option.bind (bio_method b) (\<lambda>m. m_destroy (ms m)) of
        None \<Rightarrow> Some h
      | Some destroy \<Rightarrow> do { (_, h) \<leftarrow> destroy a h; Some h }) }"

partial_function (option) BIO_free ::
  "(nat \<Rightarrow> 'p bio_methods) \<Rightarrow> addr option \<Rightarrow> (bool, 'p) bio_op" where
  "BIO_free ms bio h =
     (case bio of
        None \<Rightarrow> Some (True, h)
      | Some a \<Rightarrow> do {
          b \<leftarrow> h a;
          (zero, count) \<leftarrow> CRYPTO_refcount_dec_and_test_zero (bio_references b);
          let h = h(a \<mapsto> b\<lparr>bio_references := count\<rparr>);
          if \<not> zero then Some (False, h)
          else do {
            (nxt, h) \<leftarrow> BIO_pop (Some a) h;
            h \<leftarrow> bio_destroy ms a h;
            BIO_free ms nxt (h(a := None)) } })"

definition BIO_up_ref :: "addr \<Rightarrow> (bool, 'p) bio_op" where
  "BIO_up_ref a h = do {
     h \<leftarrow> on_bio a (\<lambda>b. b\<lparr>bio_references := CRYPTO_refcount_inc (bio_references b)\<rparr>) h;
     Some (True, h) }"

definition BIO_vfree :: "(nat \<Rightarrow> 'p bio_methods) \<Rightarrow> addr option \<Rightarrow> 'p bios \<Rightarrow> 'p bios option" where
  "BIO_vfree ms bio h = map_option snd (BIO_free ms bio h)"

definition BIO_free_all :: "(nat \<Rightarrow> 'p bio_methods) \<Rightarrow> addr option \<Rightarrow> 'p bios \<Rightarrow> 'p bios option" where
  "BIO_free_all ms bio h = map_option snd (BIO_free ms bio h)"


section \<open>Reading and writing\<close>

text \<open>\<open>BIO_read\<close> and \<open>BIO_gets\<close> differ in the method that they call.\<close>

definition bio_get ::
  "('p bio_methods \<Rightarrow> (addr \<Rightarrow> bytes option \<Rightarrow> int \<Rightarrow> (int \<times> bytes option, 'p) bio_op) option) \<Rightarrow>
   (nat \<Rightarrow> 'p bio_methods) \<Rightarrow> addr option \<Rightarrow> bytes option \<Rightarrow> int \<Rightarrow> (int \<times> bytes option, 'p) bio_op" where
  "bio_get sel ms bio dst len h =
     (case bio of
        None \<Rightarrow> Some ((- 2, dst), h)
      | Some a \<Rightarrow> do {
          b \<leftarrow> h a;
          (case Option.bind (bio_method b) (\<lambda>m. sel (ms m)) of
             None \<Rightarrow> Some ((- 2, dst), h)
           | Some get \<Rightarrow>
               if \<not> bio_init b then Some ((- 2, dst), h)
               else if len \<le> 0 then Some ((0, dst), h)
               else do {
                 ((ret, dst), h) \<leftarrow> get a dst len h;
                 h \<leftarrow> (if ret > 0 then on_bio a (\<lambda>b. b\<lparr>num_read := size_add (num_read b) (nat ret)\<rparr>) h
                      else Some h);
                 Some ((ret, dst), h) }) })"

definition BIO_read ::
  "(nat \<Rightarrow> 'p bio_methods) \<Rightarrow> addr option \<Rightarrow> bytes option \<Rightarrow> int \<Rightarrow> (int \<times> bytes option, 'p) bio_op" where
  "BIO_read = bio_get m_bread"

definition BIO_gets ::
  "(nat \<Rightarrow> 'p bio_methods) \<Rightarrow> addr option \<Rightarrow> bytes option \<Rightarrow> int \<Rightarrow> (int \<times> bytes option, 'p) bio_op" where
  "BIO_gets = bio_get m_bgets"

definition BIO_write ::
  "(nat \<Rightarrow> 'p bio_methods) \<Rightarrow> addr option \<Rightarrow> bytes option \<Rightarrow> int \<Rightarrow> (int, 'p) bio_op" where
  "BIO_write ms bio inp inl h =
     (case bio of
        None \<Rightarrow> Some (- 2, h)
      | Some a \<Rightarrow> do {
          b \<leftarrow> h a;
          (case Option.bind (bio_method b) (\<lambda>m. m_bwrite (ms m)) of
             None \<Rightarrow> Some (- 2, h)
           | Some bwrite \<Rightarrow>
               if \<not> bio_init b then Some (- 2, h)
               else if inl \<le> 0 then Some (0, h)
               else do {
                 (ret, h) \<leftarrow> bwrite a inp inl h;
                 h \<leftarrow> (if ret > 0 then on_bio a (\<lambda>b. b\<lparr>num_write := size_add (num_write b) (nat ret)\<rparr>) h
                      else Some h);
                 Some (ret, h) }) })"

text \<open>
  The loops below advance their pointer by what a call reports; past the end of the buffer
  (a method that reports more than it was asked for) there is no result.
\<close>

partial_function (option) BIO_write_all ::
  "(nat \<Rightarrow> 'p bio_methods) \<Rightarrow> addr option \<Rightarrow> bytes \<Rightarrow> (bool, 'p) bio_op" where
  "BIO_write_all ms bio d h =
     (if length d > 0 then do {
        (ret, h) \<leftarrow> BIO_write ms bio (Some d)
          (if length d > INT_MAX then int INT_MAX else int (length d)) h;
        if ret \<le> 0 then Some (False, h)
        else if nat ret > length d then None
        else BIO_write_all ms bio (drop (nat ret) d) h }
      else Some (True, h))"

text \<open>The conversion of a \<open>size_t\<close> to \<open>int\<close>.\<close>

definition int_of_size :: "nat \<Rightarrow> int" where
  "int_of_size n = sint (of_nat n :: u32)"

definition BIO_puts :: "(nat \<Rightarrow> 'p bio_methods) \<Rightarrow> addr option \<Rightarrow> bytes \<Rightarrow> (int, 'p) bio_op" where
  "BIO_puts ms bio inp = BIO_write ms bio (Some inp) (int_of_size (c_strlen inp))"

partial_function (option) BIO_indent ::
  "(nat \<Rightarrow> 'p bio_methods) \<Rightarrow> addr option \<Rightarrow> nat \<Rightarrow> nat \<Rightarrow> (bool, 'p) bio_op" where
  "BIO_indent ms bio indent max_indent h =
     (let indent = (if indent > max_indent then max_indent else indent)
      in if indent = 0 then Some (True, h)
         else do {
           (ret, h) \<leftarrow> BIO_puts ms bio [32, 0] h;
           if ret \<noteq> 1 then Some (False, h) else BIO_indent ms bio (indent - 1) max_indent h })"

text \<open>The result, whether the first read met the end of the stream, and the buffer.\<close>

partial_function (option) bio_read_full ::
  "(nat \<Rightarrow> 'p bio_methods) \<Rightarrow> addr option \<Rightarrow> bool \<Rightarrow> bytes \<Rightarrow> nat \<Rightarrow> (bool \<times> bool \<times> bytes, 'p) bio_op" where
  "bio_read_full ms bio first_read out len h =
     (if len > 0 then do {
        ((ret, buf), h) \<leftarrow> BIO_read ms bio (Some out) (if len \<le> INT_MAX then int len else int INT_MAX) h;
        out \<leftarrow> buf;
        if ret \<le> 0 then Some ((False, first_read \<and> ret = 0, out), h)
        else if nat ret > len then None
        else do {
          ((ok, eof, rest), h) \<leftarrow> bio_read_full ms bio False (drop (nat ret) out) (len - nat ret) h;
          Some ((ok, eof, take (nat ret) out @ rest), h) } }
      else Some ((True, False, out), h))"

section \<open>Control calls and flags\<close>

definition BIO_ctrl ::
  "(nat \<Rightarrow> 'p bio_methods) \<Rightarrow> addr option \<Rightarrow> nat \<Rightarrow> int \<Rightarrow> addr option \<Rightarrow> (int, 'p) bio_op" where
  "BIO_ctrl ms bio cmd larg parg h =
     (case bio of
        None \<Rightarrow> Some (0, h)
      | Some a \<Rightarrow> do {
          b \<leftarrow> h a;
          (case Option.bind (bio_method b) (\<lambda>m. m_ctrl (ms m)) of
             None \<Rightarrow> Some (- 2, h)
           | Some ctrl \<Rightarrow> ctrl a cmd larg parg h) })"

definition BIO_callback_ctrl ::
  "(nat \<Rightarrow> 'p bio_methods) \<Rightarrow> addr option \<Rightarrow> nat \<Rightarrow> nat \<Rightarrow> (int, 'p) bio_op" where
  "BIO_callback_ctrl ms bio cmd fp h =
     (case bio of
        None \<Rightarrow> Some (0, h)
      | Some a \<Rightarrow> do {
          b \<leftarrow> h a;
          (case Option.bind (bio_method b) (\<lambda>m. m_callback_ctrl (ms m)) of
             None \<Rightarrow> Some (0, h)
           | Some ctrl \<Rightarrow> ctrl a cmd fp h) })"

definition BIO_CTRL_RESET :: nat where "BIO_CTRL_RESET = 1"
definition BIO_CTRL_EOF :: nat where "BIO_CTRL_EOF = 2"
definition BIO_CTRL_INFO :: nat where "BIO_CTRL_INFO = 3"
definition BIO_CTRL_GET_CLOSE :: nat where "BIO_CTRL_GET_CLOSE = 8"
definition BIO_CTRL_SET_CLOSE :: nat where "BIO_CTRL_SET_CLOSE = 9"
definition BIO_CTRL_PENDING :: nat where "BIO_CTRL_PENDING = 10"
definition BIO_CTRL_FLUSH :: nat where "BIO_CTRL_FLUSH = 11"
definition BIO_CTRL_WPENDING :: nat where "BIO_CTRL_WPENDING = 13"

lemmas bio_ctrl_codes =
  BIO_CTRL_RESET_def BIO_CTRL_EOF_def BIO_CTRL_INFO_def BIO_CTRL_GET_CLOSE_def BIO_CTRL_SET_CLOSE_def
  BIO_CTRL_PENDING_def BIO_CTRL_FLUSH_def BIO_CTRL_WPENDING_def

text \<open>The cast of the result from \<open>long\<close> to \<open>int\<close>.\<close>

definition as_int :: "(int, 'p) bio_op \<Rightarrow> (int, 'p) bio_op" where
  "as_int ctrl h = do { (r, h) \<leftarrow> ctrl h; Some (sint (word_of_int r :: 32 word), h) }"

definition BIO_flush :: "(nat \<Rightarrow> 'p bio_methods) \<Rightarrow> addr option \<Rightarrow> (int, 'p) bio_op" where
  "BIO_flush ms bio = as_int (BIO_ctrl ms bio BIO_CTRL_FLUSH 0 None)"

definition BIO_reset :: "(nat \<Rightarrow> 'p bio_methods) \<Rightarrow> addr option \<Rightarrow> (int, 'p) bio_op" where
  "BIO_reset ms bio = as_int (BIO_ctrl ms bio BIO_CTRL_RESET 0 None)"

definition BIO_eof :: "(nat \<Rightarrow> 'p bio_methods) \<Rightarrow> addr option \<Rightarrow> (int, 'p) bio_op" where
  "BIO_eof ms bio = as_int (BIO_ctrl ms bio BIO_CTRL_EOF 0 None)"

definition BIO_set_close :: "(nat \<Rightarrow> 'p bio_methods) \<Rightarrow> addr option \<Rightarrow> int \<Rightarrow> (int, 'p) bio_op" where
  "BIO_set_close ms bio close_flag = as_int (BIO_ctrl ms bio BIO_CTRL_SET_CLOSE close_flag None)"

definition bio_count :: "(int, 'p) bio_op \<Rightarrow> (nat, 'p) bio_op" where
  "bio_count ctrl h = do { (r, h) \<leftarrow> ctrl h; Some (if r < 0 then 0 else nat r, h) }"

definition BIO_pending :: "(nat \<Rightarrow> 'p bio_methods) \<Rightarrow> addr option \<Rightarrow> (nat, 'p) bio_op" where
  "BIO_pending ms bio = bio_count (BIO_ctrl ms bio BIO_CTRL_PENDING 0 None)"

definition BIO_ctrl_pending :: "(nat \<Rightarrow> 'p bio_methods) \<Rightarrow> addr option \<Rightarrow> (nat, 'p) bio_op" where
  "BIO_ctrl_pending ms bio = BIO_pending ms bio"

definition BIO_wpending :: "(nat \<Rightarrow> 'p bio_methods) \<Rightarrow> addr option \<Rightarrow> (nat, 'p) bio_op" where
  "BIO_wpending ms bio = bio_count (BIO_ctrl ms bio BIO_CTRL_WPENDING 0 None)"

definition BIO_FLAGS_READ :: u32 where "BIO_FLAGS_READ = 0x01"
definition BIO_FLAGS_WRITE :: u32 where "BIO_FLAGS_WRITE = 0x02"
definition BIO_FLAGS_IO_SPECIAL :: u32 where "BIO_FLAGS_IO_SPECIAL = 0x04"
definition BIO_FLAGS_SHOULD_RETRY :: u32 where "BIO_FLAGS_SHOULD_RETRY = 0x08"
definition BIO_FLAGS_MEM_RDONLY :: u32 where "BIO_FLAGS_MEM_RDONLY = 0x200"

definition BIO_FLAGS_RWS :: u32 where
  "BIO_FLAGS_RWS = BIO_FLAGS_READ OR BIO_FLAGS_WRITE OR BIO_FLAGS_IO_SPECIAL"

definition kRetryFlags :: u32 where
  "kRetryFlags = BIO_FLAGS_RWS OR BIO_FLAGS_SHOULD_RETRY"

lemmas bio_flag_codes =
  BIO_FLAGS_READ_def BIO_FLAGS_WRITE_def BIO_FLAGS_IO_SPECIAL_def BIO_FLAGS_SHOULD_RETRY_def
  BIO_FLAGS_MEM_RDONLY_def BIO_FLAGS_RWS_def kRetryFlags_def

definition BIO_set_flags :: "u32 \<Rightarrow> 'p bio \<Rightarrow> 'p bio" where
  "BIO_set_flags flags b = b\<lparr>bio_flags := bio_flags b OR flags\<rparr>"

definition BIO_test_flags :: "u32 \<Rightarrow> 'p bio \<Rightarrow> u32" where
  "BIO_test_flags flags b = bio_flags b AND flags"

definition BIO_should_read :: "'p bio \<Rightarrow> u32" where
  "BIO_should_read b = BIO_test_flags BIO_FLAGS_READ b"

definition BIO_should_write :: "'p bio \<Rightarrow> u32" where
  "BIO_should_write b = BIO_test_flags BIO_FLAGS_WRITE b"

definition BIO_should_retry :: "'p bio \<Rightarrow> u32" where
  "BIO_should_retry b = BIO_test_flags BIO_FLAGS_SHOULD_RETRY b"

definition BIO_should_io_special :: "'p bio \<Rightarrow> u32" where
  "BIO_should_io_special b = BIO_test_flags BIO_FLAGS_IO_SPECIAL b"

definition BIO_get_retry_reason :: "'p bio \<Rightarrow> int" where
  "BIO_get_retry_reason b = bio_retry_reason b"

definition BIO_clear_flags :: "u32 \<Rightarrow> 'p bio \<Rightarrow> 'p bio" where
  "BIO_clear_flags flags b = b\<lparr>bio_flags := bio_flags b AND NOT flags\<rparr>"

definition BIO_set_retry_read :: "'p bio \<Rightarrow> 'p bio" where
  "BIO_set_retry_read b = b\<lparr>bio_flags := bio_flags b OR (BIO_FLAGS_READ OR BIO_FLAGS_SHOULD_RETRY)\<rparr>"

definition BIO_set_retry_write :: "'p bio \<Rightarrow> 'p bio" where
  "BIO_set_retry_write b = b\<lparr>bio_flags := bio_flags b OR (BIO_FLAGS_WRITE OR BIO_FLAGS_SHOULD_RETRY)\<rparr>"

definition BIO_set_retry_special :: "'p bio \<Rightarrow> 'p bio" where
  "BIO_set_retry_special b = b\<lparr>bio_flags := bio_flags b OR (BIO_FLAGS_READ OR BIO_FLAGS_IO_SPECIAL)\<rparr>"

definition BIO_get_retry_flags :: "'p bio \<Rightarrow> u32" where
  "BIO_get_retry_flags b = bio_flags b AND kRetryFlags"

definition BIO_clear_retry_flags :: "'p bio \<Rightarrow> 'p bio" where
  "BIO_clear_retry_flags b = b\<lparr>bio_flags := bio_flags b AND NOT kRetryFlags, bio_retry_reason := 0\<rparr>"

definition BIO_method_type :: "(nat \<Rightarrow> 'p bio_methods) \<Rightarrow> 'p bio \<Rightarrow> nat option" where
  "BIO_method_type ms b = map_option (\<lambda>m. m_type (ms m)) (bio_method b)"

definition BIO_copy_next_retry :: "addr \<Rightarrow> 'p bios \<Rightarrow> 'p bios option" where
  "BIO_copy_next_retry a h = do {
     b \<leftarrow> h a;
     n \<leftarrow> next_bio b;
     let b = BIO_clear_retry_flags b;
     let h = h(a \<mapsto> b);
     nb \<leftarrow> h n;
     let h = h(a \<mapsto> BIO_set_flags (BIO_get_retry_flags nb) b);
     nb \<leftarrow> h n;
     on_bio a (\<lambda>b. b\<lparr>bio_retry_reason := bio_retry_reason nb\<rparr>) h }"

definition BIO_number_read :: "'p bio \<Rightarrow> nat" where
  "BIO_number_read b = num_read b"

definition BIO_number_written :: "'p bio \<Rightarrow> nat" where
  "BIO_number_written b = num_write b"


section \<open>Chains\<close>

text \<open>The last BIO of the chain; there is no result for a chain that closes on itself.\<close>

partial_function (option) last_bio :: "addr \<Rightarrow> 'p bios \<Rightarrow> addr option" where
  "last_bio a h = do {
     b \<leftarrow> h a;
     (case next_bio b of None \<Rightarrow> Some a | Some n \<Rightarrow> last_bio n h) }"

definition BIO_push :: "addr option \<Rightarrow> addr option \<Rightarrow> (addr option, 'p) bio_op" where
  "BIO_push bio appended h =
     (case bio of
        None \<Rightarrow> Some (None, h)
      | Some a \<Rightarrow> do {
          l \<leftarrow> last_bio a h;
          h \<leftarrow> on_bio l (\<lambda>b. b\<lparr>next_bio := appended\<rparr>) h;
          Some (Some a, h) })"

definition BIO_next :: "addr option \<Rightarrow> (addr option, 'p) bio_op" where
  "BIO_next bio h = (case bio of None \<Rightarrow> Some (None, h) | Some a \<Rightarrow> do { b \<leftarrow> h a; Some (next_bio b, h) })"

partial_function (option) BIO_find_type ::
  "(nat \<Rightarrow> 'p bio_methods) \<Rightarrow> addr option \<Rightarrow> u32 \<Rightarrow> 'p bios \<Rightarrow> addr option option" where
  "BIO_find_type ms bio type h =
     (case bio of
        None \<Rightarrow> Some None
      | Some a \<Rightarrow> do {
          b \<leftarrow> h a;
          let found = (case bio_method b of
                None \<Rightarrow> False
              | Some m \<Rightarrow>
                  let method_type = of_nat (m_type (ms m))
                  in if type AND 0xff = 0 then method_type AND type \<noteq> 0 else method_type = type);
          if found then Some (Some a) else BIO_find_type ms (next_bio b) type h })"

end
