(* ===== verification/Pair.thy ===== *)
theory Pair
  imports Bio
begin

text \<open>
  \<open>bio/pair.c\<close>: two BIOs, each with a ring buffer for what is written to it; a read takes from
  the ring buffer of the peer. The sums of offsets and lengths are at most twice the size of a
  buffer, so they do not wrap around.
\<close>

record bio_bio =
  bb_peer :: "addr option"
  bb_closed :: bool
  bb_len :: nat
  bb_offset :: nat
  bb_size :: nat
  bb_buf :: "bytes option"
  bb_request :: nat

definition bb_at :: "addr \<Rightarrow> bio_bio bios \<Rightarrow> bio_bio option" where
  "bb_at a h = do { b \<leftarrow> h a; bio_ptr b }"

definition on_bb :: "addr \<Rightarrow> (bio_bio \<Rightarrow> bio_bio) \<Rightarrow> bio_bio bios \<Rightarrow> bio_bio bios option" where
  "on_bb a f h = do { b \<leftarrow> h a; x \<leftarrow> bio_ptr b; Some (h(a \<mapsto> b\<lparr>bio_ptr := Some (f x)\<rparr>)) }"

definition bio_new :: "(nat \<Rightarrow> bytes option) \<Rightarrow> addr \<Rightarrow> (bool, bio_bio) bio_op" where
  "bio_new mem a h =
     (case OPENSSL_malloc mem 56 of
        None \<Rightarrow> Some (False, h)
      | Some _ \<Rightarrow> do {
          h \<leftarrow> on_bio a (\<lambda>b. b\<lparr>bio_ptr := Some \<lparr>bb_peer = None, bb_closed = False, bb_len = 0, bb_offset = 0,
            bb_size = 17 * 1024, bb_buf = None, bb_request = 0\<rparr>\<rparr>) h;
          Some (True, h) })"

definition unpair :: "bio_bio bio \<Rightarrow> bio_bio bio" where
  "unpair b = b\<lparr>bio_init := False,
     bio_ptr := map_option (\<lambda>x. x\<lparr>bb_peer := None, bb_len := 0, bb_offset := 0\<rparr>) (bio_ptr b)\<rparr>"

definition bio_destroy_pair :: "addr \<Rightarrow> bio_bio bios \<Rightarrow> bio_bio bios option" where
  "bio_destroy_pair a h = do {
     b \<leftarrow> h a;
     (case Option.bind (bio_ptr b) bb_peer of
        None \<Rightarrow> Some h
      | Some p \<Rightarrow> do { h \<leftarrow> on_bio p unpair h; on_bio a unpair h }) }"

definition bio_free :: "addr \<Rightarrow> (bool, bio_bio) bio_op" where
  "bio_free a h = do {
     x \<leftarrow> bb_at a h;
     h \<leftarrow> (if bb_peer x \<noteq> None then bio_destroy_pair a h else Some h);
     h \<leftarrow> on_bio a (\<lambda>b. b\<lparr>bio_ptr := None\<rparr>) h;
     Some (True, h) }"

text \<open>
  The loop of \<open>bio_read\<close>, which is entered with \<open>rest > 0\<close>: the ring buffer that is read, the
  output buffer and the position in it. It would run on at an offset at the end of the buffer.
\<close>

partial_function (option) read_loop :: "bio_bio \<Rightarrow> bytes \<Rightarrow> nat \<Rightarrow> nat \<Rightarrow> (bio_bio \<times> bytes) option" where
  "read_loop pb dst pos rest =
     (if rest = 0 then Some (pb, dst)
      else do {
        data \<leftarrow> bb_buf pb;
        let chunk = (if bb_offset pb + rest \<le> bb_size pb then rest else bb_size pb - bb_offset pb);
        let dst = blit dst pos (take chunk (drop (bb_offset pb) data));
        let len = bb_len pb - chunk;
        let off = (if len \<noteq> 0
              then (if bb_offset pb + chunk = bb_size pb then 0 else bb_offset pb + chunk) else 0);
        let pos = (if len \<noteq> 0 then pos + chunk else pos);
        read_loop (pb\<lparr>bb_len := len, bb_offset := off\<rparr>) dst pos (rest - chunk) })"

definition bio_read :: "addr \<Rightarrow> bytes option \<Rightarrow> int \<Rightarrow> (int \<times> bytes option, bio_bio) bio_op" where
  "bio_read a buf size0 h = do {
     let sz = nat (size0 mod 2 ^ 64);
     h \<leftarrow> on_bio a BIO_clear_retry_flags h;
     b \<leftarrow> h a;
     if \<not> bio_init b then Some ((0, buf), h)
     else do {
       x \<leftarrow> bio_ptr b;
       p \<leftarrow> bb_peer x;
       h \<leftarrow> on_bb p (\<lambda>y. y\<lparr>bb_request := 0\<rparr>) h;
       pb \<leftarrow> bb_at p h;
       (case buf of
          None \<Rightarrow> Some ((0, buf), h)
        | Some dst \<Rightarrow>
            if sz = 0 then Some ((0, buf), h)
            else if bb_len pb = 0 then
              if bb_closed pb then Some ((0, buf), h)
              else do {
                h \<leftarrow> on_bio a BIO_set_retry_read h;
                h \<leftarrow> on_bb p (\<lambda>y. y\<lparr>bb_request := (if sz \<le> bb_size y then sz else bb_size y)\<rparr>) h;
                Some ((- 1, buf), h) }
            else do {
              let sz = (if bb_len pb < sz then bb_len pb else sz);
              (pb, dst) \<leftarrow> read_loop pb dst 0 sz;
              h \<leftarrow> on_bb p (\<lambda>_. pb) h;
              Some ((int sz, Some dst), h) }) } }"

text \<open>The loop of \<open>bio_write\<close>, with the input from its pointer on.\<close>

partial_function (option) write_loop :: "bio_bio \<Rightarrow> bytes \<Rightarrow> nat \<Rightarrow> bio_bio option" where
  "write_loop b src rest =
     (if rest = 0 then Some b
      else do {
        data \<leftarrow> bb_buf b;
        let write_offset = bb_offset b + bb_len b;
        let write_offset = (if write_offset \<ge> bb_size b then write_offset - bb_size b else write_offset);
        let chunk = (if write_offset + rest \<le> bb_size b then rest else bb_size b - write_offset);
        write_loop (b\<lparr>bb_buf := Some (blit data write_offset (take chunk src)), bb_len := bb_len b + chunk\<rparr>)
          (drop chunk src) (rest - chunk) })"

definition bio_write :: "addr \<Rightarrow> bytes option \<Rightarrow> int \<Rightarrow> (int, bio_bio) bio_op" where
  "bio_write a buf num0 h = do {
     let num = nat (num0 mod 2 ^ 64);
     h \<leftarrow> on_bio a BIO_clear_retry_flags h;
     b \<leftarrow> h a;
     (case buf of
        None \<Rightarrow> Some (0, h)
      | Some src \<Rightarrow>
          if \<not> bio_init b \<or> num = 0 then Some (0, h)
          else do {
            h \<leftarrow> on_bb a (\<lambda>x. x\<lparr>bb_request := 0\<rparr>) h;
            x \<leftarrow> bb_at a h;
            if bb_closed x then Some (- 1, h)
            else if bb_len x = bb_size x then do {
              h \<leftarrow> on_bio a BIO_set_retry_write h;
              Some (- 1, h) }
            else do {
              let num = (if num > bb_size x - bb_len x then bb_size x - bb_len x else num);
              x \<leftarrow> write_loop x src num;
              h \<leftarrow> on_bb a (\<lambda>_. x) h;
              Some (int num, h) } }) }"

definition pair_buffer :: "(nat \<Rightarrow> bytes option) \<Rightarrow> nat \<Rightarrow> bio_bio \<Rightarrow> bool \<times> bio_bio" where
  "pair_buffer mem writebuf_len x =
     (if bb_buf x = None then
        let x = (if writebuf_len \<noteq> 0 then x\<lparr>bb_size := writebuf_len\<rparr> else x)
        in (case OPENSSL_malloc mem (bb_size x) of
              None \<Rightarrow> (False, x)
            | Some d \<Rightarrow> (True, x\<lparr>bb_buf := Some d, bb_len := 0, bb_offset := 0\<rparr>))
      else (True, x))"

definition bio_make_pair ::
  "(nat \<Rightarrow> bytes option) \<Rightarrow> addr \<Rightarrow> addr \<Rightarrow> nat \<Rightarrow> nat \<Rightarrow> (bool, bio_bio) bio_op" where
  "bio_make_pair mem bio1 bio2 writebuf1_len writebuf2_len h = do {
     b1 \<leftarrow> bb_at bio1 h;
     b2 \<leftarrow> bb_at bio2 h;
     if bb_peer b1 \<noteq> None \<or> bb_peer b2 \<noteq> None then Some (False, h)
     else do {
       let (ok1, b1) = pair_buffer mem writebuf1_len b1;
       h \<leftarrow> on_bb bio1 (\<lambda>_. b1) h;
       if \<not> ok1 then Some (False, h)
       else do {
         b2 \<leftarrow> bb_at bio2 h;
         let (ok2, b2) = pair_buffer mem writebuf2_len b2;
         h \<leftarrow> on_bb bio2 (\<lambda>_. b2) h;
         if \<not> ok2 then Some (False, h)
         else do {
           h \<leftarrow> on_bb bio1 (\<lambda>x. x\<lparr>bb_peer := Some bio2, bb_closed := False, bb_request := 0\<rparr>) h;
           h \<leftarrow> on_bb bio2 (\<lambda>x. x\<lparr>bb_peer := Some bio1, bb_closed := False, bb_request := 0\<rparr>) h;
           h \<leftarrow> on_bio bio1 (\<lambda>b. b\<lparr>bio_init := True\<rparr>) h;
           h \<leftarrow> on_bio bio2 (\<lambda>b. b\<lparr>bio_init := True\<rparr>) h;
           Some (True, h) } } } }"

definition BIO_C_GET_WRITE_BUF_SIZE :: nat where "BIO_C_GET_WRITE_BUF_SIZE = 137"
definition BIO_C_GET_WRITE_GUARANTEE :: nat where "BIO_C_GET_WRITE_GUARANTEE = 140"
definition BIO_C_GET_READ_REQUEST :: nat where "BIO_C_GET_READ_REQUEST = 141"
definition BIO_C_SHUTDOWN_WR :: nat where "BIO_C_SHUTDOWN_WR = 142"
definition BIO_C_RESET_READ_REQUEST :: nat where "BIO_C_RESET_READ_REQUEST = 147"

lemmas pair_ctrl_codes = bio_ctrl_codes BIO_C_GET_WRITE_BUF_SIZE_def BIO_C_GET_WRITE_GUARANTEE_def
  BIO_C_GET_READ_REQUEST_def BIO_C_SHUTDOWN_WR_def BIO_C_RESET_READ_REQUEST_def

definition bio_ctrl :: "addr \<Rightarrow> nat \<Rightarrow> int \<Rightarrow> addr option \<Rightarrow> (int, bio_bio) bio_op" where
  "bio_ctrl a cmd num parg h = do {
     bio \<leftarrow> h a;
     b \<leftarrow> bio_ptr bio;
     if cmd = BIO_C_GET_WRITE_BUF_SIZE then Some (int (bb_size b), h)
     else if cmd = BIO_C_GET_WRITE_GUARANTEE then
       Some (if bb_peer b = None \<or> bb_closed b then 0 else int (bb_size b) - int (bb_len b), h)
     else if cmd = BIO_C_GET_READ_REQUEST then Some (int (bb_request b), h)
     else if cmd = BIO_C_RESET_READ_REQUEST then do {
       h \<leftarrow> on_bb a (\<lambda>x. x\<lparr>bb_request := 0\<rparr>) h; Some (1, h) }
     else if cmd = BIO_C_SHUTDOWN_WR then do {
       h \<leftarrow> on_bb a (\<lambda>x. x\<lparr>bb_closed := True\<rparr>) h; Some (1, h) }
     else if cmd = BIO_CTRL_GET_CLOSE then Some (bio_shutdown bio, h)
     else if cmd = BIO_CTRL_SET_CLOSE then do {
       h \<leftarrow> on_bio a (\<lambda>b. b\<lparr>bio_shutdown := num\<rparr>) h; Some (1, h) }
     else if cmd = BIO_CTRL_PENDING then
       (case bb_peer b of
          None \<Rightarrow> Some (0, h)
        | Some p \<Rightarrow> do { pb \<leftarrow> bb_at p h; Some (int (bb_len pb), h) })
     else if cmd = BIO_CTRL_WPENDING then
       Some (if bb_buf b \<noteq> None then int (bb_len b) else 0, h)
     else if cmd = BIO_CTRL_FLUSH then Some (1, h)
     else if cmd = BIO_CTRL_EOF then
       (case parg of
          None \<Rightarrow> Some (1, h)
        | Some other_bio \<Rightarrow> do {
            other_b \<leftarrow> bb_at other_bio h;
            Some (if bb_len other_b = 0 \<and> bb_closed other_b then 1 else 0, h) })
     else Some (0, h) }"

definition BIO_TYPE_BIO :: nat where
  "BIO_TYPE_BIO = 0x413"

definition methods_biop :: "(nat \<Rightarrow> bytes option) \<Rightarrow> bio_bio bio_methods" where
  "methods_biop mem =
     \<lparr>m_type = BIO_TYPE_BIO, m_bwrite = Some bio_write, m_bread = Some bio_read, m_bgets = None,
      m_ctrl = Some bio_ctrl, m_create = Some (bio_new mem), m_destroy = Some bio_free,
      m_callback_ctrl = None\<rparr>"

text \<open>\<open>m\<close> is the number of the table \<open>methods_biop\<close>; \<open>a1\<close> and \<open>a2\<close> are the addresses of the new BIOs.\<close>

definition BIO_new_bio_pair ::
  "(nat \<Rightarrow> bytes option) \<Rightarrow> (nat \<Rightarrow> bio_bio bio_methods) \<Rightarrow> nat \<Rightarrow> addr \<Rightarrow> addr \<Rightarrow> nat \<Rightarrow> nat \<Rightarrow>
   (bool \<times> addr option \<times> addr option, bio_bio) bio_op" where
  "BIO_new_bio_pair mem ms m a1 a2 writebuf1_len writebuf2_len h = do {
     (bio1, h) \<leftarrow> BIO_new mem ms m a1 h;
     (bio2, h) \<leftarrow> BIO_new mem ms m a2 h;
     (ok, h) \<leftarrow> (case (bio1, bio2) of
         (Some b1, Some b2) \<Rightarrow> bio_make_pair mem b1 b2 writebuf1_len writebuf2_len h
       | _ \<Rightarrow> Some (False, h));
     if ok then Some ((True, bio1, bio2), h)
     else do {
       (_, h) \<leftarrow> BIO_free ms bio1 h;
       (_, h) \<leftarrow> BIO_free ms bio2 h;
       Some ((False, None, None), h) } }"

definition BIO_ctrl_get_read_request :: "(nat \<Rightarrow> 'p bio_methods) \<Rightarrow> addr option \<Rightarrow> (int, 'p) bio_op" where
  "BIO_ctrl_get_read_request ms bio = BIO_ctrl ms bio BIO_C_GET_READ_REQUEST 0 None"

definition BIO_ctrl_get_write_guarantee :: "(nat \<Rightarrow> 'p bio_methods) \<Rightarrow> addr option \<Rightarrow> (int, 'p) bio_op" where
  "BIO_ctrl_get_write_guarantee ms bio = BIO_ctrl ms bio BIO_C_GET_WRITE_GUARANTEE 0 None"

definition BIO_shutdown_wr :: "(nat \<Rightarrow> 'p bio_methods) \<Rightarrow> addr option \<Rightarrow> (int, 'p) bio_op" where
  "BIO_shutdown_wr ms bio = BIO_ctrl ms bio BIO_C_SHUTDOWN_WR 0 None"


section \<open>The queue in a ring buffer\<close>

definition ring_at :: "bytes \<Rightarrow> nat \<Rightarrow> nat \<Rightarrow> bytes" where
  "ring_at data off n = map (\<lambda>i. data ! ((off + i) mod length data)) [0..<n]"

definition ring_ok :: "bio_bio \<Rightarrow> bool" where
  "ring_ok x \<longleftrightarrow>
     (case bb_buf x of
        None \<Rightarrow> False
      | Some data \<Rightarrow> length data = bb_size x \<and> bb_offset x < bb_size x \<and> bb_len x \<le> bb_size x)"

definition ring :: "bio_bio \<Rightarrow> bytes" where
  "ring x = (case bb_buf x of None \<Rightarrow> [] | Some data \<Rightarrow> ring_at data (bb_offset x) (bb_len x))"

lemma length_ring_at [simp]: "length (ring_at data off n) = n"
  by (simp add: ring_at_def)

lemma ring_at_0 [simp]: "ring_at data off 0 = []"
  by (simp add: ring_at_def)

lemma length_ring: "ring_ok x \<Longrightarrow> length (ring x) = bb_len x"
  by (auto simp: ring_def ring_ok_def split: option.splits)

lemma ring_at_contiguous:
  "k \<le> n \<Longrightarrow> off + k \<le> length data \<Longrightarrow> take k (ring_at data off n) = take k (drop off data)"
  by (rule nth_equalityI) (auto simp: ring_at_def)

lemma ring_at_drop:
  "k \<le> n \<Longrightarrow> drop k (ring_at data off n) = ring_at data ((off + k) mod length data) (n - k)"
  by (rule nth_equalityI) (auto simp: ring_at_def mod_add_left_eq add.assoc)

text \<open>A byte written behind the queue keeps the queue: distances below the size do not collide.\<close>

lemma mod_distinct:
  fixes s :: nat
  assumes "i < j" and "j < i + s"
  shows "(off + i) mod s \<noteq> (off + j) mod s"
proof
  assume "(off + i) mod s = (off + j) mod s"
  then have "s dvd (off + j) - (off + i)" using assms(1) by (subst mod_eq_dvd_iff_nat [symmetric]) simp_all
  then show False using assms by (auto dest: dvd_imp_le)
qed

lemma mod_add_no_wrap: "x mod s + j < (s :: nat) \<Longrightarrow> (x + j) mod s = x mod s + j"
  by (metis mod_add_left_eq mod_less)

lemma ring_at_write:
  assumes s: "0 < length data" and n: "n + length src \<le> length data"
    and w: "w = (off + n) mod length data" "w + length src \<le> length data"
  shows "ring_at (blit data w src) off (n + length src) = ring_at data off n @ src"
proof (rule nth_equalityI)
  let ?s = "length data"
  have len: "length (blit data w src) = ?s" using w(2) by (simp add: blit_def)
  fix i assume "i < length (ring_at (blit data w src) off (n + length src))"
  then have i: "i < n + length src" by simp
  have l: "ring_at (blit data w src) off (n + length src) ! i = blit data w src ! ((off + i) mod ?s)"
    using i by (simp add: ring_at_def len)
  have pos: "(off + i) mod ?s < ?s" using s by simp
  show "ring_at (blit data w src) off (n + length src) ! i = (ring_at data off n @ src) ! i"
  proof (cases "i < n")
    case True
    have "(off + i) mod ?s \<noteq> w + j" if j: "j < length src" for j
    proof -
      have "w + j = (off + (n + j)) mod ?s"
        using w j mod_add_no_wrap [of "off + n" ?s j] by (simp add: add.assoc)
      with True j n mod_distinct [of i "n + j" ?s off] show ?thesis by simp
    qed
    then have out: "(off + i) mod ?s < w \<or> w + length src \<le> (off + i) mod ?s"
      by (metis add_diff_inverse_nat nat_add_left_cancel_less not_le)
    then have "blit data w src ! ((off + i) mod ?s) = data ! ((off + i) mod ?s)"
      using w(2) pos by (auto simp: blit_def nth_append min_def)
    with True l show ?thesis by (simp add: nth_append ring_at_def)
  next
    case False
    then obtain j where j: "i = n + j" "j < length src"
      using i by (metis le_Suc_ex nat_add_left_cancel_less not_le)
    have "(off + i) mod ?s = w + j"
      using w j mod_add_no_wrap [of "off + n" ?s j] by (simp add: add.assoc)
    then have "blit data w src ! ((off + i) mod ?s) = src ! j"
      using w(2) j(2) by (simp add: blit_def nth_append)
    with j l show ?thesis by (simp add: nth_append)
  qed
qed simp

text \<open>What the loops do to the queue; they return, since every iteration moves at least one byte.\<close>

lemma blit_nil: "blit dst pos [] = dst"
  by (simp add: blit_def)

lemma blit_blit:
  assumes "pos + length xs + length ys \<le> length dst"
  shows "blit (blit dst pos xs) (pos + length xs) ys = blit dst pos (xs @ ys)"
proof -
  have "pos + length (xs @ ys) = pos + length xs + length ys" by simp
  with assms show ?thesis by (simp add: blit_def ac_simps)
qed

text \<open>One iteration moves \<open>c\<close> bytes; only the last one may leave the position behind.\<close>

lemma read_step:
  assumes ok: "ring_ok pb" and rest: "0 < rest" "rest \<le> bb_len pb"
  obtains c off pos' where "0 < c" and "c \<le> rest" and "pos' = pos + c \<or> c = rest"
    and "read_loop pb dst pos rest =
      read_loop (pb\<lparr>bb_len := bb_len pb - c, bb_offset := off\<rparr>) (blit dst pos (take c (ring pb))) pos' (rest - c)"
    and "ring_ok (pb\<lparr>bb_len := bb_len pb - c, bb_offset := off\<rparr>)"
    and "ring (pb\<lparr>bb_len := bb_len pb - c, bb_offset := off\<rparr>) = drop c (ring pb)"
proof -
  obtain data where data: "bb_buf pb = Some data" "length data = bb_size pb" "bb_offset pb < bb_size pb"
      "bb_len pb \<le> bb_size pb"
    using ok by (auto simp: ring_ok_def split: option.splits)
  define c where "c = (if bb_offset pb + rest \<le> bb_size pb then rest else bb_size pb - bb_offset pb)"
  have nz: "(rest = 0) = False" using rest(1) by simp
  define off where "off = (if bb_len pb - c \<noteq> 0
    then (if bb_offset pb + c = bb_size pb then 0 else bb_offset pb + c) else 0)"
  let ?pb = "pb\<lparr>bb_len := bb_len pb - c, bb_offset := off\<rparr>"
  have c: "0 < c" "c \<le> rest" "bb_offset pb + c \<le> bb_size pb"
    using rest(1) data(3) by (auto simp: c_def)
  have off: "off < bb_size pb" "bb_len pb - c = 0 \<or> (bb_offset pb + c) mod bb_size pb = off"
    using data(3) c(3) by (auto simp: off_def)
  have got: "take c (drop (bb_offset pb) data) = take c (ring pb)"
    using ring_at_contiguous [of c "bb_len pb" "bb_offset pb" data] data c rest(2) by (simp add: ring_def)
  show ?thesis
  proof (rule that [of c "if bb_len pb - c \<noteq> 0 then pos + c else pos" off])
    show "read_loop pb dst pos rest = read_loop ?pb (blit dst pos (take c (ring pb)))
        (if bb_len pb - c \<noteq> 0 then pos + c else pos) (rest - c)"
      unfolding off_def c_def got [unfolded c_def, symmetric]
      by (subst read_loop.simps, simp only: Let_def bind.bind_lunit data(1) nz if_False)
    show "(if bb_len pb - c \<noteq> 0 then pos + c else pos) = pos + c \<or> c = rest" using c(2) rest(2) by auto
    show "ring_ok ?pb" using data off(1) by (simp add: ring_ok_def)
    show "ring ?pb = drop c (ring pb)"
      using off(2) ring_at_drop [of c "bb_len pb" data "bb_offset pb"] data(1,2) c(2) rest(2)
      by (auto simp: ring_def)
  qed (use c in auto)
qed

lemma read_loop_ring:
  "ring_ok pb \<Longrightarrow> rest \<le> bb_len pb \<Longrightarrow> pos + rest \<le> length dst \<Longrightarrow>
   \<exists>off. read_loop pb dst pos rest =
       Some (pb\<lparr>bb_len := bb_len pb - rest, bb_offset := off\<rparr>, blit dst pos (take rest (ring pb))) \<and>
     ring_ok (pb\<lparr>bb_len := bb_len pb - rest, bb_offset := off\<rparr>) \<and>
     ring (pb\<lparr>bb_len := bb_len pb - rest, bb_offset := off\<rparr>) = drop rest (ring pb)"
proof (induction rest arbitrary: pb dst pos rule: less_induct)
  case (less rest)
  show ?case
  proof (cases "rest = 0")
    case True
    then show ?thesis
      using less.prems by (subst read_loop.simps) (auto intro!: exI [of _ "bb_offset pb"] simp: blit_nil)
  next
    case False
    then obtain c o1 pos' where c: "0 < c" "c \<le> rest" "pos' = pos + c \<or> c = rest"
      and run: "read_loop pb dst pos rest = read_loop (pb\<lparr>bb_len := bb_len pb - c, bb_offset := o1\<rparr>)
        (blit dst pos (take c (ring pb))) pos' (rest - c)"
      and pb: "ring_ok (pb\<lparr>bb_len := bb_len pb - c, bb_offset := o1\<rparr>)"
        "ring (pb\<lparr>bb_len := bb_len pb - c, bb_offset := o1\<rparr>) = drop c (ring pb)"
      using read_step [OF less.prems(1) _ less.prems(2), of pos dst] by blast
    have k: "length (take c (ring pb)) = c" using length_ring [OF less.prems(1)] c(2) less.prems(2) by simp
    show ?thesis
    proof (cases "c = rest")
      case True
      then show ?thesis using run pb by (intro exI [of _ o1]) (simp add: read_loop.simps)
    next
      case more: False
      let ?pb = "pb\<lparr>bb_len := bb_len pb - c, bb_offset := o1\<rparr>" and ?dst = "blit dst pos (take c (ring pb))"
      have p: "pos' = pos + c" using c(3) more by simp
      have "rest - c \<le> bb_len ?pb" "pos' + (rest - c) \<le> length ?dst" "rest - c < rest"
        using c(1,2) less.prems(2,3) k p by simp_all
      from less.IH [OF this(3) pb(1) this(1,2)] obtain off where
        rec: "read_loop ?pb ?dst pos' (rest - c) = Some (pb\<lparr>bb_len := bb_len pb - c - (rest - c), bb_offset := off\<rparr>,
            blit ?dst pos' (take (rest - c) (drop c (ring pb))))"
          "ring_ok (pb\<lparr>bb_len := bb_len pb - c - (rest - c), bb_offset := off\<rparr>)"
          "ring (pb\<lparr>bb_len := bb_len pb - c - (rest - c), bb_offset := off\<rparr>) = drop (rest - c) (drop c (ring pb))"
        by (auto simp: pb(2))
      have "bb_len pb - c - (rest - c) = bb_len pb - rest" using c(2) by simp
      moreover have "drop (rest - c) (drop c (ring pb)) = drop rest (ring pb)" using c(2) by simp
      moreover have "blit ?dst pos' (take (rest - c) (drop c (ring pb))) = blit dst pos (take rest (ring pb))"
        using blit_blit [of pos "take c (ring pb)" "take (rest - c) (drop c (ring pb))" dst]
          take_add [of c "rest - c" "ring pb"] c(2) less.prems(3) k p by simp
      ultimately show ?thesis using run rec by auto
    qed
  qed
qed

lemma write_step:
  assumes ok: "ring_ok x" and rest: "0 < rest" "bb_len x + rest \<le> bb_size x" "rest \<le> length src"
  obtains c data where "0 < c" and "c \<le> rest"
    and "write_loop x src rest =
      write_loop (x\<lparr>bb_buf := Some data, bb_len := bb_len x + c\<rparr>) (drop c src) (rest - c)"
    and "ring_ok (x\<lparr>bb_buf := Some data, bb_len := bb_len x + c\<rparr>)"
    and "ring (x\<lparr>bb_buf := Some data, bb_len := bb_len x + c\<rparr>) = ring x @ take c src"
proof -
  obtain data where data: "bb_buf x = Some data" "length data = bb_size x" "bb_offset x < bb_size x"
      "bb_len x \<le> bb_size x"
    using ok by (auto simp: ring_ok_def split: option.splits)
  define w where "w = (if bb_offset x + bb_len x \<ge> bb_size x then bb_offset x + bb_len x - bb_size x
    else bb_offset x + bb_len x)"
  define c where "c = (if w + rest \<le> bb_size x then rest else bb_size x - w)"
  have w: "w = (bb_offset x + bb_len x) mod bb_size x" "w < bb_size x"
    using data(3,4) by (auto simp: w_def le_mod_geq)
  have c: "0 < c" "c \<le> rest" "w + c \<le> bb_size x" using rest(1) w(2) by (auto simp: c_def)
  have len: "length (take c src) = c" using c(2) rest(3) by simp
  show ?thesis
  proof (rule that [of c "blit data w (take c src)"])
    show "write_loop x src rest = write_loop (x\<lparr>bb_buf := Some (blit data w (take c src)), bb_len := bb_len x + c\<rparr>)
        (drop c src) (rest - c)"
      using rest(1) data(1) unfolding c_def w_def
      by (subst write_loop.simps) (simp add: Let_def del: if_split)
    show "ring_ok (x\<lparr>bb_buf := Some (blit data w (take c src)), bb_len := bb_len x + c\<rparr>)"
      using data c(2,3) rest(2) len by (simp add: ring_ok_def)
    show "ring (x\<lparr>bb_buf := Some (blit data w (take c src)), bb_len := bb_len x + c\<rparr>) = ring x @ take c src"
      using ring_at_write [of data "bb_len x" "take c src" w "bb_offset x"] data c rest(2) len w
      by (simp add: ring_def)
  qed (use c in auto)
qed

lemma write_loop_ring:
  "ring_ok x \<Longrightarrow> bb_len x + rest \<le> bb_size x \<Longrightarrow> rest \<le> length src \<Longrightarrow>
   \<exists>data. write_loop x src rest = Some (x\<lparr>bb_buf := Some data, bb_len := bb_len x + rest\<rparr>) \<and>
     ring_ok (x\<lparr>bb_buf := Some data, bb_len := bb_len x + rest\<rparr>) \<and>
     ring (x\<lparr>bb_buf := Some data, bb_len := bb_len x + rest\<rparr>) = ring x @ take rest src"
proof (induction rest arbitrary: x src rule: less_induct)
  case (less rest)
  show ?case
  proof (cases "rest = 0")
    case True
    obtain data where "bb_buf x = Some data" using less.prems(1) by (auto simp: ring_ok_def split: option.splits)
    then have "x\<lparr>bb_buf := Some data\<rparr> = x" by simp
    with True less.prems show ?thesis by (intro exI [of _ data]) (simp add: write_loop.simps)
  next
    case False
    then obtain c data where c: "0 < c" "c \<le> rest"
      and run: "write_loop x src rest =
        write_loop (x\<lparr>bb_buf := Some data, bb_len := bb_len x + c\<rparr>) (drop c src) (rest - c)"
      and x: "ring_ok (x\<lparr>bb_buf := Some data, bb_len := bb_len x + c\<rparr>)"
        "ring (x\<lparr>bb_buf := Some data, bb_len := bb_len x + c\<rparr>) = ring x @ take c src"
      using write_step [OF less.prems(1) _ less.prems(2,3)] by blast
    let ?x = "x\<lparr>bb_buf := Some data, bb_len := bb_len x + c\<rparr>"
    have "rest - c < rest" "bb_len ?x + (rest - c) \<le> bb_size ?x" "rest - c \<le> length (drop c src)"
      using c less.prems(2,3) by simp_all
    from less.IH [OF this(1) x(1) this(2,3)] obtain d where
      rec: "write_loop ?x (drop c src) (rest - c) = Some (x\<lparr>bb_buf := Some d, bb_len := bb_len x + c + (rest - c)\<rparr>)"
        "ring_ok (x\<lparr>bb_buf := Some d, bb_len := bb_len x + c + (rest - c)\<rparr>)"
        "ring (x\<lparr>bb_buf := Some d, bb_len := bb_len x + c + (rest - c)\<rparr>) =
          ring x @ take c src @ take (rest - c) (drop c src)"
      by (auto simp: x(2))
    have "bb_len x + c + (rest - c) = bb_len x + rest" using c(2) by simp
    moreover have "take c src @ take (rest - c) (drop c src) = take rest src"
      using take_add [of c "rest - c" src] c(2) by simp
    ultimately show ?thesis using run rec by auto
  qed
qed


section \<open>Pipes\<close>

text \<open>
  What a half of a pair promises: a bounded queue that the writer may close. A write takes what
  fits, a read what is there; \<open>-1\<close> asks to try again later (or says that the pipe is closed).
\<close>

record pipe =
  p_closed :: bool
  p_size :: nat
  p_queue :: bytes

definition pipe_write :: "bytes \<Rightarrow> pipe \<Rightarrow> int \<times> pipe" where
  "pipe_write d P =
     (if p_closed P \<or> length (p_queue P) = p_size P then (- 1, P)
      else
        let k = min (length d) (p_size P - length (p_queue P))
        in (int k, P\<lparr>p_queue := p_queue P @ take k d\<rparr>))"

definition pipe_read :: "nat \<Rightarrow> pipe \<Rightarrow> (int \<times> bytes) \<times> pipe" where
  "pipe_read n P =
     (if p_queue P = [] then ((if p_closed P then 0 else - 1, []), P)
      else
        let k = min n (length (p_queue P))
        in ((int k, take k (p_queue P)), P\<lparr>p_queue := drop k (p_queue P)\<rparr>))"

definition pipe_of :: "bio_bio \<Rightarrow> pipe" where
  "pipe_of x = \<lparr>p_closed = bb_closed x, p_size = bb_size x, p_queue = ring x\<rparr>"

definition half :: "nat \<Rightarrow> addr \<Rightarrow> bio_bio bio \<Rightarrow> bio_bio \<Rightarrow> bool" where
  "half m p b x \<longleftrightarrow>
     bio_method b = Some m \<and> bio_init b \<and> bio_ptr b = Some x \<and> bb_peer x = Some p \<and> ring_ok x"

definition joined :: "nat \<Rightarrow> addr \<Rightarrow> addr \<Rightarrow> bio_bio bios \<Rightarrow> bool" where
  "joined m a p h \<longleftrightarrow>
     a \<noteq> p \<and> (\<exists>b x pb y. h a = Some b \<and> half m p b x \<and> h p = Some pb \<and> half m a pb y)"

definition pipe_at :: "addr \<Rightarrow> bio_bio bios \<Rightarrow> pipe" where
  "pipe_at a h = (case bb_at a h of None \<Rightarrow> \<lparr>p_closed = True, p_size = 0, p_queue = []\<rparr> | Some x \<Rightarrow> pipe_of x)"

lemma joined_sym: "joined m a p h \<Longrightarrow> joined m p a h"
  unfolding joined_def by blast

lemma joinedE:
  assumes "joined m a p h"
  obtains b x pb y where "a \<noteq> p" and "h a = Some b" and "half m p b x" and "h p = Some pb" and "half m a pb y"
    and "pipe_at a h = pipe_of x" and "pipe_at p h = pipe_of y"
  using assms by (auto simp: joined_def pipe_at_def bb_at_def half_def)

lemma joinedI:
  "a \<noteq> p \<Longrightarrow> h a = Some b \<Longrightarrow> half m p b x \<Longrightarrow> h p = Some pb \<Longrightarrow> half m a pb y \<Longrightarrow>
   joined m a p h \<and> pipe_at a h = pipe_of x \<and> pipe_at p h = pipe_of y"
  by (auto simp: joined_def pipe_at_def bb_at_def half_def)

lemma half_flags:
  "half m p (BIO_clear_retry_flags b) x = half m p b x" "half m p (BIO_set_retry_write b) x = half m p b x"
  "half m p (BIO_set_retry_read b) x = half m p b x" "half m p (b\<lparr>num_read := k\<rparr>) x = half m p b x"
  "half m p (b\<lparr>num_write := k\<rparr>) x = half m p b x"
  by (simp_all add: half_def BIO_clear_retry_flags_def BIO_set_retry_write_def BIO_set_retry_read_def)

lemma bio_ptr_flags [simp]:
  "bio_ptr (BIO_clear_retry_flags b) = bio_ptr b" "bio_init (BIO_clear_retry_flags b) = bio_init b"
  "bio_ptr (BIO_set_retry_write b) = bio_ptr b" "bio_ptr (BIO_set_retry_read b) = bio_ptr b"
  by (simp_all add: BIO_clear_retry_flags_def BIO_set_retry_write_def BIO_set_retry_read_def)

lemma half_ptr: "half m p b x \<Longrightarrow> bb_peer x' = bb_peer x \<Longrightarrow> ring_ok x' \<Longrightarrow> half m p (b\<lparr>bio_ptr := Some x'\<rparr>) x'"
  by (simp add: half_def)

lemma pipe_of_request [simp]: "pipe_of (x\<lparr>bb_request := k\<rparr>) = pipe_of x" "ring_ok (x\<lparr>bb_request := k\<rparr>) = ring_ok x"
  "ring (x\<lparr>bb_request := k\<rparr>) = ring x"
  by (simp_all add: pipe_of_def ring_def ring_ok_def split: option.split)

lemma bio_write_pipe:
  assumes b: "h a = Some b" "half m p b x" and n: "0 < n" "n < 2 ^ 63" "n \<le> int (length src)"
  shows "\<exists>b' x'. bio_write a (Some src) n h = Some (fst (pipe_write (take (nat n) src) (pipe_of x)), h(a \<mapsto> b')) \<and>
    half m p b' x' \<and> pipe_of x' = snd (pipe_write (take (nat n) src) (pipe_of x))"
proof -
  let ?b = "(BIO_clear_retry_flags b)\<lparr>bio_ptr := Some (x\<lparr>bb_request := 0\<rparr>)\<rparr>"
  have num: "n mod 2 ^ 64 = n" "\<not> n \<le> 0" using n by simp_all
  have x: "bio_init b" "bio_ptr b = Some x" "ring_ok x" using b(2) by (simp_all add: half_def)
  have len: "length (ring x) = bb_len x" by (rule length_ring [OF x(3)])
  have hb: "half m p ?b (x\<lparr>bb_request := 0\<rparr>)"
    using b(2) x(3) by (intro half_ptr [of _ _ _ x]) (simp_all add: half_flags)
  show ?thesis
  proof (cases "bb_closed x \<or> bb_len x = bb_size x")
    case True
    then have "bio_write a (Some src) n h = Some (- 1, h(a \<mapsto> (if bb_closed x then ?b else BIO_set_retry_write ?b)))"
      using b(1) x num by (auto simp: bio_write_def on_bio_def on_bb_def bb_at_def Let_def)
    moreover have "half m p (if bb_closed x then ?b else BIO_set_retry_write ?b) (x\<lparr>bb_request := 0\<rparr>)"
      using hb by (simp add: half_flags)
    moreover have "pipe_write (take (nat n) src) (pipe_of x) = (- 1, pipe_of (x\<lparr>bb_request := 0\<rparr>))"
      using True by (simp only: pipe_of_request) (simp add: pipe_write_def pipe_of_def len)
    ultimately show ?thesis by (metis fst_conv snd_conv)
  next
    case False
    define k where "k = (if nat n > bb_size x - bb_len x then bb_size x - bb_len x else nat n)"
    have k: "bb_len x + k \<le> bb_size x" "k \<le> length src" "k = min (nat n) (bb_size x - bb_len x)"
      using x(3) n(3) by (auto simp: k_def ring_ok_def split: option.splits)
    obtain data where w: "write_loop (x\<lparr>bb_request := 0\<rparr>) src k =
        Some (x\<lparr>bb_request := 0, bb_buf := Some data, bb_len := bb_len x + k\<rparr>)"
      "ring_ok (x\<lparr>bb_request := 0, bb_buf := Some data, bb_len := bb_len x + k\<rparr>)"
      "ring (x\<lparr>bb_request := 0, bb_buf := Some data, bb_len := bb_len x + k\<rparr>) = ring x @ take k src"
      using write_loop_ring [of "x\<lparr>bb_request := 0\<rparr>" k src] x(3) k by auto
    let ?x = "x\<lparr>bb_request := 0, bb_buf := Some data, bb_len := bb_len x + k\<rparr>"
    have run: "bio_write a (Some src) n h = Some (int k, h(a \<mapsto> ?b\<lparr>bio_ptr := Some ?x\<rparr>))"
      using False b(1) x num w(1) k_def
      by (cases "bb_size x - bb_len x < nat n") (simp_all add: bio_write_def on_bio_def on_bb_def bb_at_def Let_def)
    have spec: "pipe_write (take (nat n) src) (pipe_of x) = (int k, pipe_of ?x)"
    proof -
      have "length (take (nat n) src) = nat n" "take k (take (nat n) src) = take k src"
        using n(1,3) k(3) by simp_all
      with False w(3) show ?thesis by (simp add: pipe_write_def pipe_of_def len Let_def flip: k(3))
    qed
    have "half m p (?b\<lparr>bio_ptr := Some ?x\<rparr>) ?x"
      by (rule half_ptr [OF hb]) (use w(2) in simp_all)
    with run spec show ?thesis by (intro exI [of _ "?b\<lparr>bio_ptr := Some ?x\<rparr>"] exI [of _ ?x]) simp
  qed
qed

lemma bio_read_pipe:
  assumes ap: "a \<noteq> p" and b: "h a = Some b" "half m p b x" and pb: "h p = Some pb" "half m a pb y"
    and n: "0 < n" "n < 2 ^ 63" "n \<le> int (length dst)"
  shows "\<exists>b' pb' y'. bio_read a (Some dst) n h =
      Some ((fst (fst (pipe_read (nat n) (pipe_of y))),
        Some (blit dst 0 (snd (fst (pipe_read (nat n) (pipe_of y)))))), h(a \<mapsto> b', p \<mapsto> pb')) \<and>
    half m p b' x \<and> half m a pb' y' \<and> pipe_of y' = snd (pipe_read (nat n) (pipe_of y))"
proof -
  have num: "n mod 2 ^ 64 = n" "\<not> n \<le> 0" using n by simp_all
  have x: "bio_init b" "bio_ptr b = Some x" "bb_peer x = Some p" using b(2) by (simp_all add: half_def)
  have y: "bio_ptr pb = Some y" "ring_ok y" using pb(2) by (simp_all add: half_def)
  have len: "length (ring y) = bb_len y" by (rule length_ring [OF y(2)])
  let ?b = "BIO_clear_retry_flags b" and ?pb = "\<lambda>k. pb\<lparr>bio_ptr := Some (y\<lparr>bb_request := k\<rparr>)\<rparr>"
  have hb: "half m p ?b x" "half m p (BIO_set_retry_read ?b) x" using b(2) by (simp_all add: half_flags)
  have hpb: "half m a (?pb k) (y\<lparr>bb_request := k\<rparr>)" for k
    by (rule half_ptr [OF pb(2)]) (simp_all add: y(2))
  show ?thesis
  proof (cases "bb_len y = 0")
    case True
    then have q: "ring y = []" using len by simp
    let ?k = "if bb_closed y then 0 else if nat n \<le> bb_size y then nat n else bb_size y"
    let ?b' = "if bb_closed y then ?b else BIO_set_retry_read ?b"
    have run: "bio_read a (Some dst) n h = Some ((if bb_closed y then 0 else - 1, Some dst), h(a \<mapsto> ?b', p \<mapsto> ?pb ?k))"
      using True ap b(1) pb(1) x y num
      by (auto simp: bio_read_def on_bio_def on_bb_def bb_at_def Let_def fun_upd_twist)
    have spec: "pipe_read (nat n) (pipe_of y) = ((if bb_closed y then 0 else - 1, []), pipe_of (y\<lparr>bb_request := ?k\<rparr>))"
      by (simp only: pipe_of_request) (simp add: pipe_read_def pipe_of_def q)
    have "half m p ?b' x" using hb by simp
    with run spec hpb [of ?k] show ?thesis
      by (intro exI [of _ ?b'] exI [of _ "?pb ?k"] exI [of _ "y\<lparr>bb_request := ?k\<rparr>"]) (simp add: blit_nil)
  next
    case False
    then have q: "ring y \<noteq> []" using len by auto
    define k where "k = (if bb_len y < nat n then bb_len y else nat n)"
    have k: "k \<le> bb_len y" "k \<le> length dst" "k = min (nat n) (bb_len y)" using n(3) by (auto simp: k_def)
    obtain off where r: "read_loop (y\<lparr>bb_request := 0\<rparr>) dst 0 k =
        Some (y\<lparr>bb_request := 0, bb_len := bb_len y - k, bb_offset := off\<rparr>, blit dst 0 (take k (ring y)))"
      "ring_ok (y\<lparr>bb_request := 0, bb_len := bb_len y - k, bb_offset := off\<rparr>)"
      "ring (y\<lparr>bb_request := 0, bb_len := bb_len y - k, bb_offset := off\<rparr>) = drop k (ring y)"
      using read_loop_ring [of "y\<lparr>bb_request := 0\<rparr>" k 0 dst] y(2) k by auto
    let ?y = "y\<lparr>bb_request := 0, bb_len := bb_len y - k, bb_offset := off\<rparr>"
    have run: "bio_read a (Some dst) n h =
        Some ((int k, Some (blit dst 0 (take k (ring y)))), h(a \<mapsto> ?b, p \<mapsto> pb\<lparr>bio_ptr := Some ?y\<rparr>))"
      using False ap b(1) pb(1) x y num r(1) k_def
      by (cases "bb_len y < nat n") (simp_all add: bio_read_def on_bio_def on_bb_def bb_at_def Let_def fun_upd_twist)
    have spec: "pipe_read (nat n) (pipe_of y) = ((int k, take k (ring y)), pipe_of ?y)"
      using q r(3) by (simp add: pipe_read_def pipe_of_def len Let_def flip: k(3))
    have "half m a (pb\<lparr>bio_ptr := Some ?y\<rparr>) ?y"
      by (rule half_ptr [OF pb(2)]) (use r(2) in simp_all)
    with run spec hb(1) show ?thesis
      by (intro exI [of _ ?b] exI [of _ "pb\<lparr>bio_ptr := Some ?y\<rparr>"] exI [of _ ?y]) simp
  qed
qed

end
