(* ===== verification/BioAsn1.thy ===== *)
theory BioAsn1
  imports Bio Der
begin

text \<open>
  The readers of \<open>bio/bio.c\<close> that read a whole stream or one ASN.1 element, and the contract of
  a stream that they rely on.
\<close>

datatype read_error =
  HEADER_TOO_LONG | NOT_ENOUGH_DATA | DECODE_ERROR | TOO_LONG | MALLOC_FAILURE

section \<open>Reading to the end of the stream\<close>

definition kChunkSize :: nat where
  "kChunkSize = 4096"

partial_function (option) bio_read_all_loop ::
  "(nat \<Rightarrow> bytes option) \<Rightarrow> (nat \<Rightarrow> 'p bio_methods) \<Rightarrow> addr option \<Rightarrow> nat \<Rightarrow> bytes \<Rightarrow> nat \<Rightarrow> nat \<Rightarrow>
   ((bytes \<times> nat) option, 'p) bio_op" where
  "bio_read_all_loop mem ms bio max_len out len dn h =
     (if dn = len then Some (None, h)
      else do {
        ((n, buf), h) \<leftarrow> BIO_read ms bio (Some (drop dn out)) (int_of_size (len - dn)) h;
        buf \<leftarrow> buf;
        let out = take dn out @ buf;
        if n = 0 then Some (Some (out, dn), h)
        else if n = - 1 then Some (None, h)
        else
          let dn = nat ((int dn + n) mod 2 ^ 64)
          in if len < max_len \<and> nat ((int len - int dn) mod 2 ^ 64) < kChunkSize div 2 then
               let len = size_add len kChunkSize;
                   len = (if len < kChunkSize \<or> len > max_len then max_len else len)
               in (case OPENSSL_realloc mem (Some out) len of
                     None \<Rightarrow> Some (None, h)
                   | Some out \<Rightarrow> bio_read_all_loop mem ms bio max_len out len dn h)
             else bio_read_all_loop mem ms bio max_len out len dn h })"

definition bio_read_all ::
  "(nat \<Rightarrow> bytes option) \<Rightarrow> (nat \<Rightarrow> 'p bio_methods) \<Rightarrow> addr option \<Rightarrow> bytes \<Rightarrow> nat \<Rightarrow>
   ((bytes \<times> nat) option, 'p) bio_op" where
  "bio_read_all mem ms bio prefx max_len h =
     (let len = size_add (length prefx) kChunkSize;
          len = (if len > max_len then max_len else len)
      in if len < length prefx then Some (None, h)
         else
           (case OPENSSL_malloc mem len of
              None \<Rightarrow> Some (None, h)
            | Some out \<Rightarrow>
                bio_read_all_loop mem ms bio max_len (blit out 0 prefx) len (length prefx) h))"


section \<open>Reading one element\<close>

text \<open>
  The end of \<open>BIO_read_asn1\<close>: the header has been read and announces \<open>len\<close> further bytes. The
  result is the buffer and its length.
\<close>

definition read_asn1_body ::
  "(nat \<Rightarrow> bytes option) \<Rightarrow> (nat \<Rightarrow> 'p bio_methods) \<Rightarrow> addr option \<Rightarrow> nat \<Rightarrow> bytes \<Rightarrow> nat \<Rightarrow> nat \<Rightarrow>
   (read_error + bytes \<times> nat, 'p) bio_op" where
  "read_asn1_body mem ms bio max_len header header_len len h =
     (if size_add len header_len < len \<or> size_add len header_len > max_len \<or> len > INT_MAX then
        Some (Inl TOO_LONG, h)
      else
        let len = size_add len header_len
        in (case OPENSSL_malloc mem len of
              None \<Rightarrow> Some (Inl MALLOC_FAILURE, h)
            | Some out \<Rightarrow>
                let out = blit out 0 (take header_len header)
                in do {
                  ((ok, _, rest), h) \<leftarrow> bio_read_full ms bio True (drop header_len out) (len - header_len) h;
                  if \<not> ok then Some (Inl NOT_ENOUGH_DATA, h)
                  else Some (Inr (take header_len out @ rest, len), h) }))"

definition kInitialHeaderLen :: nat where
  "kInitialHeaderLen = 2"

text \<open>The first contents of \<open>header\<close> do not matter: what is used of it has been read before.\<close>

definition BIO_read_asn1 ::
  "(nat \<Rightarrow> bytes option) \<Rightarrow> (nat \<Rightarrow> 'p bio_methods) \<Rightarrow> addr option \<Rightarrow> nat \<Rightarrow>
   (read_error + bytes \<times> nat, 'p) bio_op" where
  "BIO_read_asn1 mem ms bio max_len h = do {
     ((ok, eof, header), h) \<leftarrow> bio_read_full ms bio True (replicate 6 0) kInitialHeaderLen h;
     if \<not> ok then Some (Inl (if eof then HEADER_TOO_LONG else NOT_ENOUGH_DATA), h)
     else
       let tag = header ! 0; length_byte = header ! 1
       in if tag AND 0x1f = 0x1f then Some (Inl DECODE_ERROR, h)
          else if length_byte AND 0x80 = 0 then
            read_asn1_body mem ms bio max_len header kInitialHeaderLen (unat length_byte) h
          else
            let num_bytes = unat (length_byte AND 0x7f)
            in if tag AND 0x20 \<noteq> 0 \<and> num_bytes = 0 then do {
                 (all, h) \<leftarrow> bio_read_all mem ms bio (take kInitialHeaderLen header) max_len h;
                 Some (case all of None \<Rightarrow> Inl NOT_ENOUGH_DATA | Some (out, n) \<Rightarrow> Inr (out, n), h) }
               else if num_bytes = 0 \<or> num_bytes > 4 then Some (Inl DECODE_ERROR, h)
               else do {
                 ((ok, _, tl), h) \<leftarrow> bio_read_full ms bio True (drop kInitialHeaderLen header) num_bytes h;
                 let header = take kInitialHeaderLen header @ tl;
                 let len32 = foldl (\<lambda>l b. push_bit 8 l OR ucast b) (0 :: u32)
                   (take num_bytes (drop kInitialHeaderLen header));
                 if \<not> ok then Some (Inl NOT_ENOUGH_DATA, h)
                 else if len32 < 128 then Some (Inl DECODE_ERROR, h)
                 else if drop_bit ((num_bytes - 1) * 8) len32 = 0 then Some (Inl DECODE_ERROR, h)
                 else read_asn1_body mem ms bio max_len header (kInitialHeaderLen + num_bytes) (unat len32) h } }"


text \<open>Headers with a tag in the low form.\<close>

lemma der_tag_low:
  assumes "tag_num tag < 31"
  obtains t where "der_tag tag = [t]" and "t AND 0x1f \<noteq> 0x1f"
proof -
  let ?n = "of_nat (tag_num tag) :: u8"
  have "(tag_class tag OR ?n) AND 0x1f = ?n" by (rule class_or_low) (rule of_nat_num_low [OF assms])
  moreover have "?n \<noteq> 0x1f"
    using assms by (simp add: word_unat_eq_iff unat_of_nat_u8)
  ultimately show ?thesis using assms by (intro that [of "tag_class tag OR ?n"]) (simp_all add: der_tag_def)
qed

lemma len32:
  assumes "n < 2 ^ 31" and "n \<noteq> 0"
  shows "unat (foldl (\<lambda>l b. push_bit 8 l OR ucast b) (0 :: u32) (be_bytes n)) = n"
    and "drop_bit ((length (be_bytes n) - 1) * 8)
      (foldl (\<lambda>l b. push_bit 8 l OR ucast b) (0 :: u32) (be_bytes n)) \<noteq> 0"
proof -
  let ?w = "foldl (\<lambda>l b. push_bit 8 l OR ucast b) (0 :: u32) (be_bytes n)"
  show w: "unat ?w = n" using foldl_be_word [of "0 :: u32" "be_bytes n"] assms(1) by simp
  have "(256 :: nat) ^ (length (be_bytes n) - 1) = 2 ^ ((length (be_bytes n) - 1) * 8)"
    by (simp add: power_mult mult.commute [of _ 8])
  then have "\<not> unat ?w < 2 ^ ((length (be_bytes n) - 1) * 8)"
    using length_be_bytes [OF assms(2)] unfolding w by linarith
  then show "drop_bit ((length (be_bytes n) - 1) * 8) ?w \<noteq> 0" by (simp only: drop_bit_eq_0_iff not_False_eq_True)
qed


section \<open>The contract of a stream\<close>

text \<open>
  \<open>pending\<close> are the bytes that can still be read from the BIO at \<open>a\<close>: a read returns some of
  them, at least one if there is any, and leaves the buffer behind them alone.
\<close>

locale bio_source =
  fixes ms :: "nat \<Rightarrow> 'p bio_methods" and a :: addr
    and inv :: "'p bios \<Rightarrow> bool" and pending :: "'p bios \<Rightarrow> bytes"
  assumes read: "inv h \<Longrightarrow> 0 < len \<Longrightarrow> len \<le> int (length buf) \<Longrightarrow> len \<le> int INT_MAX \<Longrightarrow>
    \<exists>ret buf' h'. BIO_read ms (Some a) (Some buf) len h = Some ((ret, Some buf'), h') \<and> inv h' \<and>
      (if pending h = [] then ret \<le> 0 \<and> buf' = buf \<and> pending h' = []
       else 0 < ret \<and> ret \<le> len \<and> nat ret \<le> length (pending h) \<and>
         buf' = take (nat ret) (pending h) @ drop (nat ret) buf \<and> pending h' = drop (nat ret) (pending h))"
begin

text \<open>\<open>bio_read_full\<close> returns, and it succeeds exactly when the stream has enough bytes.\<close>

lemma bio_read_full:
  "inv h \<Longrightarrow> len \<le> length out \<Longrightarrow>
   \<exists>ok eof out' h'. bio_read_full ms (Some a) first out len h = Some ((ok, eof, out'), h') \<and> inv h' \<and>
     (if len \<le> length (pending h)
      then ok \<and> out' = take len (pending h) @ drop len out \<and> pending h' = drop len (pending h)
      else \<not> ok \<and> length out' = length out \<and> pending h' = [])"
proof (induction len arbitrary: first out h rule: less_induct)
  case (less len)
  show ?case
  proof (cases "len = 0")
    case True
    with less.prems show ?thesis by (subst bio_read_full.simps) auto
  next
    case False
    let ?todo = "if len \<le> INT_MAX then int len else int INT_MAX"
    have todo: "0 < ?todo" "?todo \<le> int (length out)" "?todo \<le> int INT_MAX" "?todo \<le> int len"
      using False less.prems(2) by (auto simp: INT_MAX_def)
    obtain ret buf' h' where r: "BIO_read ms (Some a) (Some out) ?todo h = Some ((ret, Some buf'), h')" "inv h'"
      and out: "if pending h = [] then ret \<le> 0 \<and> buf' = out \<and> pending h' = []
        else 0 < ret \<and> ret \<le> ?todo \<and> nat ret \<le> length (pending h) \<and>
          buf' = take (nat ret) (pending h) @ drop (nat ret) out \<and> pending h' = drop (nat ret) (pending h)"
      using read [OF less.prems(1) todo(1-3)] by blast
    show ?thesis
    proof (cases "pending h = []")
      case True
      with r out False show ?thesis by (subst bio_read_full.simps) auto
    next
      case more: False
      let ?r = "nat ret"
      have ret: "0 < ret" "ret \<le> ?todo" "?r \<le> length (pending h)" "buf' = take ?r (pending h) @ drop ?r out"
        "pending h' = drop ?r (pending h)" using out more by simp_all
      have k: "?r \<le> len" "0 < ?r" using ret(1,2) todo(4) by linarith+
      obtain ok eof out' h2 where rec:
        "bio_read_full ms (Some a) False (drop ?r buf') (len - ?r) h' = Some ((ok, eof, out'), h2)" "inv h2"
        "if len - ?r \<le> length (pending h')
          then ok \<and> out' = take (len - ?r) (pending h') @ drop (len - ?r) (drop ?r buf') \<and>
            pending h2 = drop (len - ?r) (pending h')
          else \<not> ok \<and> length out' = length (drop ?r buf') \<and> pending h2 = []"
        using less.IH [of "len - ?r" h' "drop ?r buf'" False] k False r(2) less.prems(2) ret(3,4)
        by fastforce
      have run: "bio_read_full ms (Some a) first out len h = Some ((ok, eof, take ?r buf' @ out'), h2)"
        using r(1) rec(1) ret(1) k False by (subst bio_read_full.simps) simp
      have "len - ?r \<le> length (pending h') \<longleftrightarrow> len \<le> length (pending h)"
        using ret(3,5) k by auto
      moreover have "take ?r buf' @ take (len - ?r) (pending h') @ drop (len - ?r) (drop ?r buf') =
          take len (pending h) @ drop len out"
        using ret(3,4,5) k less.prems(2) take_add [of ?r "len - ?r" "pending h"] by simp
      ultimately show ?thesis using run rec(2,3) ret(3,4,5) k less.prems(2) by (auto simp: min_def)
    qed
  qed
qed

lemma read_asn1_body:
  assumes h: "inv h" and mem: "\<forall>k. mem k \<noteq> None"
    and len: "len \<le> INT_MAX" "len + hl \<le> max_len" "hl \<le> length header" "hl \<le> 6"
  shows "\<exists>h'. read_asn1_body mem ms (Some a) max_len header hl len h =
      Some (if len \<le> length (pending h) then Inr (take hl header @ take len (pending h), len + hl)
            else Inl NOT_ENOUGH_DATA, h') \<and>
    inv h' \<and> pending h' = drop len (pending h)"
proof -
  have n: "size_add len hl = len + hl" "len + hl + 8 < 2 ^ 64"
    using len by (simp_all add: size_add_def INT_MAX_def)
  obtain blk where blk: "OPENSSL_malloc mem (len + hl) = Some blk" "length blk = len + hl"
    using OPENSSL_malloc_works [OF mem n(2)] by blast
  let ?out = "blit blk 0 (take hl header)"
  have out: "length ?out = len + hl" "take hl ?out = take hl header"
    using blk(2) len(3) by (simp_all add: blit_def)
  obtain ok eof out' h' where r:
    "bio_read_full ms (Some a) True (drop hl ?out) len h = Some ((ok, eof, out'), h')" "inv h'"
    "if len \<le> length (pending h)
      then ok \<and> out' = take len (pending h) @ drop len (drop hl ?out) \<and> pending h' = drop len (pending h)
      else \<not> ok \<and> length out' = length (drop hl ?out) \<and> pending h' = []"
    using bio_read_full [OF h, of len "drop hl ?out" True] out(1) by auto
  show ?thesis
    unfolding read_asn1_body_def n(1) using len(1,2) blk(1) r out
    by (cases "len \<le> length (pending h)") (auto simp: Let_def)
qed

text \<open>
  The definite elements: the header is read byte by byte, the element is returned whole, and the
  stream is left behind it.
\<close>

lemma BIO_read_asn1_element:
  assumes h: "inv h" and mem: "\<forall>k. mem k \<noteq> None" and tag: "tag_num tag < 31"
    and len: "length body \<le> INT_MAX" "length (der_element tag body) \<le> max_len"
    and pend: "pending h = der_element tag body @ rest"
  shows "\<exists>h'. BIO_read_asn1 mem ms (Some a) max_len h =
      Some (Inr (der_element tag body, length (der_element tag body)), h') \<and> inv h' \<and> pending h' = rest"
proof -
  let ?n = "length body"
  obtain t where t: "der_tag tag = [t]" "t AND 0x1f \<noteq> 0x1f" by (rule der_tag_low [OF tag])
  have view: "pending h = t # der_length ?n @ body @ rest"
    using pend by (simp add: der_element_def der_header_def t(1))
  have two: "2 \<le> length (pending h)" by (simp add: view der_length_def)
  obtain ok eof hd h1 where r1:
    "bio_read_full ms (Some a) True (replicate 6 0) 2 h = Some ((ok, eof, hd), h1)" "inv h1" "ok"
    "hd = take 2 (pending h) @ replicate 4 0" "pending h1 = drop 2 (pending h)"
    using bio_read_full [OF h, of 2 "replicate 6 0" True] two by auto
  show ?thesis
  proof (cases "?n < 128")
    case True
    have dl: "der_length ?n = [of_nat ?n]" and u: "unat (of_nat ?n :: u8) = ?n"
      using True by (simp_all add: der_length_def unat_of_nat_u8)
    have hd: "hd = [t, of_nat ?n] @ replicate 4 0" "pending h1 = body @ rest"
      by (simp_all add: r1(4,5) view dl)
    have small: "(of_nat ?n :: u8) AND 0x80 = 0" using True u by (simp only: and_0x80_iff)
    obtain h2 where r2: "read_asn1_body mem ms (Some a) max_len hd 2 ?n h1 =
        Some (Inr (take 2 hd @ body, ?n + 2), h2)" "inv h2" "pending h2 = rest"
      using read_asn1_body [OF r1(2) mem len(1), of 2 max_len hd] len(2) hd
      by (auto simp: der_element_def der_header_def t(1) dl)
    have e: "der_element tag body = take 2 hd @ body" "length (der_element tag body) = ?n + 2"
      by (simp_all add: der_element_def der_header_def t(1) dl hd(1))
    have "BIO_read_asn1 mem ms (Some a) max_len h = read_asn1_body mem ms (Some a) max_len hd 2 ?n h1"
      unfolding BIO_read_asn1_def kInitialHeaderLen_def using r1(1,3) t(2) small
      by (simp add: Let_def hd(1) u del: of_nat_add)
    then show ?thesis using r2 e by simp
  next
    case False
    let ?be = "be_bytes ?n" and ?k = "length (be_bytes ?n)"
    have n: "?n < 2 ^ 31" "?n \<noteq> 0" using False len(1) by (auto simp: INT_MAX_def)
    have k: "?k \<le> 4" "0 < ?k"
    proof -
      show "?k \<le> 4" using n(1) by (intro length_be_bytes_le) simp
      show "0 < ?k" using length_be_bytes [OF n(2)] n(2) by (cases "?k") auto
    qed
    let ?b = "of_nat (128 + ?k) :: u8"
    have dl: "der_length ?n = ?b # ?be" using False by (simp add: der_length_def)
    have u: "unat ?b = 128 + ?k" using k(1) by (intro unat_of_nat_u8) linarith
    have hd: "hd = [t, ?b] @ replicate 4 0" "pending h1 = ?be @ body @ rest"
      by (simp_all add: r1(4,5) view dl)
    have long: "?b AND 0x80 \<noteq> 0" "unat (?b AND 0x7f) = ?k"
      using k(1) by (simp_all only: and_0x80_iff unat_and_0x7f u) simp_all
    obtain ok2 eof2 tl h2 where r2:
      "bio_read_full ms (Some a) True (replicate 4 0) ?k h1 = Some ((ok2, eof2, tl), h2)" "inv h2" "ok2"
      "tl = ?be @ replicate (4 - ?k) 0" "pending h2 = body @ rest"
      using bio_read_full [OF r1(2), of ?k "replicate 4 0" True] k(1) by (auto simp: hd(2))
    let ?hd = "[t, ?b] @ tl"
    obtain h3 where r3: "read_asn1_body mem ms (Some a) max_len ?hd (2 + ?k) ?n h2 =
        Some (Inr (take (2 + ?k) ?hd @ body, ?n + (2 + ?k)), h3)" "inv h3" "pending h3 = rest"
      using read_asn1_body [OF r2(2) mem len(1), of "2 + ?k" max_len ?hd] len(2) k(1) r2(5)
      by (auto simp: der_element_def der_header_def t(1) dl r2(4))
    have e: "der_element tag body = take (2 + ?k) ?hd @ body" "length (der_element tag body) = ?n + (2 + ?k)"
      by (simp_all add: der_element_def der_header_def t(1) dl r2(4))
    note w = len32 [OF n]
    have "\<not> foldl (\<lambda>l b. push_bit 8 l OR ucast b) (0 :: u32) ?be < 128"
      using False by (simp add: word_less_nat_alt w(1))
    then have "BIO_read_asn1 mem ms (Some a) max_len h = read_asn1_body mem ms (Some a) max_len ?hd (2 + ?k) ?n h2"
      unfolding BIO_read_asn1_def kInitialHeaderLen_def
      using r1(1,3) t(2) long r2 w k by (simp add: Let_def hd(1) del: of_nat_add)
    then show ?thesis using r3 e by simp
  qed
qed

end

section \<open>The contract of a sink\<close>

text \<open>\<open>sent\<close> are the bytes that have been written to the BIO at \<open>a\<close>: a write appends a prefix of its input.\<close>

locale bio_sink =
  fixes ms :: "nat \<Rightarrow> 'p bio_methods" and a :: addr
    and inv :: "'p bios \<Rightarrow> bool" and sent :: "'p bios \<Rightarrow> bytes"
  assumes writes: "inv h \<Longrightarrow> 0 < len \<Longrightarrow> len \<le> int (length d) \<Longrightarrow> len \<le> int INT_MAX \<Longrightarrow>
    \<exists>ret h'. BIO_write ms (Some a) (Some d) len h = Some (ret, h') \<and> inv h' \<and> ret \<le> len \<and>
      sent h' = sent h @ take (nat ret) d"
begin

text \<open>\<open>BIO_write_all\<close> returns; it has written everything, or, when it fails, a proper prefix.\<close>

lemma BIO_write_all:
  "inv h \<Longrightarrow>
   \<exists>ok k h'. BIO_write_all ms (Some a) d h = Some (ok, h') \<and> inv h' \<and>
     sent h' = sent h @ take k d \<and> (if ok then k = length d else k < length d)"
proof (induction "length d" arbitrary: d h rule: less_induct)
  case (less d)
  show ?case
  proof (cases "d = []")
    case True
    with less.prems show ?thesis by (subst BIO_write_all.simps) auto
  next
    case False
    let ?len = "if length d > INT_MAX then int INT_MAX else int (length d)"
    have len: "0 < ?len" "?len \<le> int (length d)" "?len \<le> int INT_MAX"
      using False by (auto simp: INT_MAX_def)
    obtain ret h' where w: "BIO_write ms (Some a) (Some d) ?len h = Some (ret, h')" "inv h'" "ret \<le> ?len"
      "sent h' = sent h @ take (nat ret) d"
      using writes [OF less.prems len] by blast
    show ?thesis
    proof (cases "ret \<le> 0")
      case True
      then have "BIO_write_all ms (Some a) d h = Some (False, h')" "sent h' = sent h @ take 0 d"
        using w False by (subst BIO_write_all.simps, auto)
      with w(2) False show ?thesis by (intro exI [of _ False] exI [of _ 0] exI [of _ h']) simp
    next
      case more: False
      let ?r = "nat ret"
      have r: "?r \<le> length d" "0 < ?r" using more w(3) len(2) by linarith+
      obtain ok k h2 where rec: "BIO_write_all ms (Some a) (drop ?r d) h' = Some (ok, h2)" "inv h2"
        "sent h2 = sent h' @ take k (drop ?r d)"
        "if ok then k = length (drop ?r d) else k < length (drop ?r d)"
        using less.hyps [of "drop ?r d" h', OF _ w(2)] r False by (auto simp: diff_less)
      have "BIO_write_all ms (Some a) d h = Some (ok, h2)"
        using w(1) rec(1) more r False by (subst BIO_write_all.simps) simp
      moreover have "sent h2 = sent h @ take (?r + k) d" by (simp add: rec(3) w(4) take_add)
      moreover have "if ok then ?r + k = length d else ?r + k < length d" using rec(4) r by auto
      ultimately show ?thesis using rec(2) by blast
    qed
  qed
qed

end

end
