(* ===== verification/PairStream.thy ===== *)
theory PairStream
  imports Pair BioAsn1
begin

text \<open>
  The two halves of a pair (\<open>bio/pair.c\<close>) as streams: \<open>BIO_write\<close> and \<open>BIO_read\<close> refine the
  operations on pipes, so that a pair provides what \<open>BIO_write_all\<close> and \<open>BIO_read_asn1\<close> need.
\<close>

lemma BIO_write_pipe [invariant_rules]:
  assumes j: "joined m a p h" and ms: "ms m = methods_biop mem"
    and n: "0 < n" "n \<le> int INT_MAX" "n \<le> int (length src)"
  defines "W \<equiv> pipe_write (take (nat n) src) (pipe_at a h)"
  shows "\<exists>h'. BIO_write ms (Some a) (Some src) n h = Some (fst W, h') \<and> joined m a p h' \<and>
    pipe_at a h' = snd W \<and> pipe_at p h' = pipe_at p h"
proof -
  obtain b x pb y where h: "a \<noteq> p" "h a = Some b" "half m p b x" "h p = Some pb" "half m a pb y"
      "pipe_at a h = pipe_of x" "pipe_at p h = pipe_of y"
    by (rule joinedE [OF j])
  have n63: "n < 2 ^ 63" using n(2) by (simp add: INT_MAX_def)
  obtain b' x' where w: "bio_write a (Some src) n h = Some (fst W, h(a \<mapsto> b'))" "half m p b' x'" "pipe_of x' = snd W"
    using bio_write_pipe [of h, OF h(2,3) n(1) n63 n(3)] unfolding W_def h(6) by blast
  let ?b = "if fst W > 0 then b'\<lparr>num_write := size_add (num_write b') (nat (fst W))\<rparr> else b'"
  have "BIO_write ms (Some a) (Some src) n h = Some (fst W, h(a \<mapsto> ?b))"
    using h(2,3) ms n(1) w(1) by (simp add: BIO_write_def half_def methods_biop_def on_bio_def)
  moreover have "half m p ?b x'" using w(2) by (simp add: half_flags)
  moreover from this have "joined m a p (h(a \<mapsto> ?b)) \<and> pipe_at a (h(a \<mapsto> ?b)) = pipe_of x' \<and>
      pipe_at p (h(a \<mapsto> ?b)) = pipe_of y"
    using h by (intro joinedI [of _ _ _ ?b _ _ pb]) simp_all
  ultimately show ?thesis using w(3) h(7) by (intro exI [of _ "h(a \<mapsto> ?b)"]) simp
qed

lemma BIO_read_pipe [invariant_rules]:
  assumes j: "joined m a p h" and ms: "ms m = methods_biop mem"
    and n: "0 < n" "n \<le> int INT_MAX" "n \<le> int (length dst)"
  defines "R \<equiv> pipe_read (nat n) (pipe_at p h)"
  shows "\<exists>h'. BIO_read ms (Some a) (Some dst) n h = Some ((fst (fst R), Some (blit dst 0 (snd (fst R)))), h') \<and>
    joined m a p h' \<and> pipe_at p h' = snd R \<and> pipe_at a h' = pipe_at a h"
proof -
  obtain b x pb y where h: "a \<noteq> p" "h a = Some b" "half m p b x" "h p = Some pb" "half m a pb y"
      "pipe_at a h = pipe_of x" "pipe_at p h = pipe_of y"
    by (rule joinedE [OF j])
  have n63: "n < 2 ^ 63" using n(2) by (simp add: INT_MAX_def)
  obtain b' pb' y' where r: "bio_read a (Some dst) n h =
      Some ((fst (fst R), Some (blit dst 0 (snd (fst R)))), h(a \<mapsto> b', p \<mapsto> pb'))"
    "half m p b' x" "half m a pb' y'" "pipe_of y' = snd R"
    using bio_read_pipe [of a p h, OF h(1-5) n(1) n63 n(3)] unfolding R_def h(7) by blast
  let ?b = "if fst (fst R) > 0 then b'\<lparr>num_read := size_add (num_read b') (nat (fst (fst R)))\<rparr> else b'"
  have "BIO_read ms (Some a) (Some dst) n h =
      Some ((fst (fst R), Some (blit dst 0 (snd (fst R)))), h(a \<mapsto> ?b, p \<mapsto> pb'))"
    using h(1-3) ms n(1) r(1)
    by (simp add: BIO_read_def bio_get_def half_def methods_biop_def on_bio_def fun_upd_twist)
  moreover have "half m p ?b x" using r(2) by (simp add: half_flags)
  moreover from this have "joined m a p (h(a \<mapsto> ?b, p \<mapsto> pb')) \<and>
      pipe_at a (h(a \<mapsto> ?b, p \<mapsto> pb')) = pipe_of x \<and> pipe_at p (h(a \<mapsto> ?b, p \<mapsto> pb')) = pipe_of y'"
    using h(1) r(3) by (intro joinedI [of _ _ _ ?b _ _ pb']) simp_all
  ultimately show ?thesis using r(4) h(6) by (intro exI [of _ "h(a \<mapsto> ?b, p \<mapsto> pb')"]) simp
qed

lemma BIO_shutdown_wr_pipe [invariant_rules]:
  assumes j: "joined m a p h" and ms: "ms m = methods_biop mem"
  shows "\<exists>h'. BIO_shutdown_wr ms (Some a) h = Some (1, h') \<and> joined m a p h' \<and>
    pipe_at a h' = pipe_at a h\<lparr>p_closed := True\<rparr> \<and> pipe_at p h' = pipe_at p h"
proof -
  obtain b x pb y where h: "a \<noteq> p" "h a = Some b" "half m p b x" "h p = Some pb" "half m a pb y"
      "pipe_at a h = pipe_of x" "pipe_at p h = pipe_of y"
    by (rule joinedE [OF j])
  let ?x = "x\<lparr>bb_closed := True\<rparr>"
  let ?b = "b\<lparr>bio_ptr := Some ?x\<rparr>"
  have x: "ring_ok ?x" "pipe_of ?x = pipe_of x\<lparr>p_closed := True\<rparr>"
    using h(3) by (auto simp: half_def ring_ok_def pipe_of_def ring_def split: option.splits)
  have "BIO_shutdown_wr ms (Some a) h = Some (1, h(a \<mapsto> ?b))"
    using h(2,3) ms
    by (simp add: BIO_shutdown_wr_def BIO_ctrl_def half_def methods_biop_def bio_ctrl_def on_bb_def pair_ctrl_codes)
  moreover have "half m p ?b ?x" by (rule half_ptr [OF h(3)]) (simp_all add: x(1))
  moreover from this have "joined m a p (h(a \<mapsto> ?b)) \<and> pipe_at a (h(a \<mapsto> ?b)) = pipe_of ?x \<and>
      pipe_at p (h(a \<mapsto> ?b)) = pipe_of y"
    using h by (intro joinedI [of _ _ _ ?b _ _ pb]) simp_all
  ultimately show ?thesis using x(2) h(6,7) by (intro exI [of _ "h(a \<mapsto> ?b)"]) simp
qed


lemma queue_fits:
  assumes "joined m a p h"
  shows "length (p_queue (pipe_at a h)) \<le> p_size (pipe_at a h)"
proof -
  obtain b x where "half m p b x" "pipe_at a h = pipe_of x" by (rule joinedE [OF assms])
  then show ?thesis by (auto simp: half_def pipe_of_def length_ring) (auto simp: ring_ok_def split: option.splits)
qed


section \<open>The pair as a source and a sink\<close>

interpretation pair_source: bio_source "\<lambda>_. methods_biop mem" a "joined m a p" "\<lambda>h. p_queue (pipe_at p h)"
  for mem a m p
proof
  fix h :: "bio_bio bios" and len :: int and buf :: bytes
  assume j: "joined m a p h" and n: "0 < len" "len \<le> int (length buf)" "len \<le> int INT_MAX"
  let ?q = "p_queue (pipe_at p h)" and ?R = "pipe_read (nat len) (pipe_at p h)"
  obtain h' where r: "BIO_read (\<lambda>_. methods_biop mem) (Some a) (Some buf) len h =
      Some ((fst (fst ?R), Some (blit buf 0 (snd (fst ?R)))), h')" "joined m a p h'" "pipe_at p h' = snd ?R"
    using BIO_read_pipe [where ms = "\<lambda>_. methods_biop mem", OF j refl n(1,3,2)] by blast
  show "\<exists>ret buf' h'. BIO_read (\<lambda>_. methods_biop mem) (Some a) (Some buf) len h = Some ((ret, Some buf'), h') \<and>
      joined m a p h' \<and>
      (if ?q = [] then ret \<le> 0 \<and> buf' = buf \<and> p_queue (pipe_at p h') = []
       else 0 < ret \<and> ret \<le> len \<and> nat ret \<le> length ?q \<and>
         buf' = take (nat ret) ?q @ drop (nat ret) buf \<and> p_queue (pipe_at p h') = drop (nat ret) ?q)"
  proof (cases "?q = []")
    case True
    with r show ?thesis by (simp add: pipe_read_def blit_nil)
  next
    case False
    with r n(1) show ?thesis by (simp add: pipe_read_def Let_def blit_def)
  qed
qed

interpretation pair_sink: bio_sink "\<lambda>_. methods_biop mem" a "joined m a p" "\<lambda>h. p_queue (pipe_at a h)"
  for mem a m p
proof
  fix h :: "bio_bio bios" and len :: int and d :: bytes
  assume j: "joined m a p h" and n: "0 < len" "len \<le> int (length d)" "len \<le> int INT_MAX"
  let ?W = "pipe_write (take (nat len) d) (pipe_at a h)"
  obtain h' where w: "BIO_write (\<lambda>_. methods_biop mem) (Some a) (Some d) len h = Some (fst ?W, h')" "joined m a p h'"
      "pipe_at a h' = snd ?W"
    using BIO_write_pipe [where ms = "\<lambda>_. methods_biop mem", OF j refl n(1,3,2)] by blast
  have "fst ?W \<le> len \<and> p_queue (snd ?W) = p_queue (pipe_at a h) @ take (nat (fst ?W)) d"
    using n(1,2) by (auto simp: pipe_write_def Let_def min_def)
  with w show "\<exists>ret h'. BIO_write (\<lambda>_. methods_biop mem) (Some a) (Some d) len h = Some (ret, h') \<and>
      joined m a p h' \<and> ret \<le> len \<and> p_queue (pipe_at a h') = p_queue (pipe_at a h) @ take (nat ret) d"
    by auto
qed


section \<open>Interleavings\<close>

text \<open>
  Any interleaving of calls on the two halves: \<open>sent\<close> is what the writes at \<open>a\<close> accepted, \<open>got\<close>
  what the reads at \<open>p\<close> returned.
\<close>

inductive traffic ::
  "(nat \<Rightarrow> bio_bio bio_methods) \<Rightarrow> addr \<Rightarrow> addr \<Rightarrow> bio_bio bios \<Rightarrow> bytes \<Rightarrow> bytes \<Rightarrow> bio_bio bios \<Rightarrow> bool"
  for ms a p h0 where
  start: "traffic ms a p h0 [] [] h0"
| write_a: "traffic ms a p h0 sent got h \<Longrightarrow> 0 < n \<Longrightarrow> n \<le> int INT_MAX \<Longrightarrow> n \<le> int (length d) \<Longrightarrow>
    BIO_write ms (Some a) (Some d) n h = Some (ret, h') \<Longrightarrow> traffic ms a p h0 (sent @ take (nat ret) d) got h'"
| read_p: "traffic ms a p h0 sent got h \<Longrightarrow> 0 < n \<Longrightarrow> n \<le> int INT_MAX \<Longrightarrow> n \<le> int (length dst) \<Longrightarrow>
    BIO_read ms (Some p) (Some dst) n h = Some ((ret, Some dst'), h') \<Longrightarrow>
    traffic ms a p h0 sent (got @ take (nat ret) dst') h'"
| write_p: "traffic ms a p h0 sent got h \<Longrightarrow> 0 < n \<Longrightarrow> n \<le> int INT_MAX \<Longrightarrow> n \<le> int (length d) \<Longrightarrow>
    BIO_write ms (Some p) (Some d) n h = Some (ret, h') \<Longrightarrow> traffic ms a p h0 sent got h'"
| read_a: "traffic ms a p h0 sent got h \<Longrightarrow> 0 < n \<Longrightarrow> n \<le> int INT_MAX \<Longrightarrow> n \<le> int (length dst) \<Longrightarrow>
    BIO_read ms (Some a) (Some dst) n h = Some ((ret, Some dst'), h') \<Longrightarrow> traffic ms a p h0 sent got h'"
| shutdown: "traffic ms a p h0 sent got h \<Longrightarrow> c \<in> {a, p} \<Longrightarrow> BIO_shutdown_wr ms (Some c) h = Some (ret, h') \<Longrightarrow>
    traffic ms a p h0 sent got h'"

theorem traffic_fifo:
  assumes "traffic ms a p h0 sent got h" and j: "joined m a p h0" and ms: "ms m = methods_biop mem"
    and empty: "p_queue (pipe_at a h0) = []"
  shows "joined m a p h \<and> sent = got @ p_queue (pipe_at a h) \<and> p_size (pipe_at a h) = p_size (pipe_at a h0)"
  using assms(1)
proof induction
  case (write_a sent got h n d ret h')
  then have j': "joined m a p h" by simp
  from BIO_write_pipe [where ms = ms, OF j' ms write_a.hyps(2-4)] write_a.hyps(5) write_a.IH
  show ?case by (auto simp: pipe_write_def Let_def min_def split: if_splits)
next
  case (read_p sent got h n dst ret dst' h')
  then have j': "joined m p a h" using joined_sym by blast
  from BIO_read_pipe [where ms = ms, OF j' ms read_p.hyps(2-4)] read_p.hyps(5) read_p.IH
  show ?case by (auto simp: pipe_read_def Let_def blit_def min_def split: if_splits dest: joined_sym)
next
  case (write_p sent got h n d ret h')
  then have j': "joined m p a h" using joined_sym by blast
  from BIO_write_pipe [where ms = ms, OF j' ms write_p.hyps(2-4)] write_p.hyps(5) write_p.IH
  show ?case by (auto dest: joined_sym)
next
  case (read_a sent got h n dst ret dst' h')
  then have j': "joined m a p h" by simp
  from BIO_read_pipe [where ms = ms, OF j' ms read_a.hyps(2-4)] read_a.hyps(5) read_a.IH
  show ?case by (auto dest: joined_sym)
next
  case (shutdown sent got h c ret h')
  then have j': "joined m a p h" by simp
  from shutdown.hyps(2) consider "c = a" | "c = p" by auto
  then show ?case
  proof cases
    case 1
    from BIO_shutdown_wr_pipe [where ms = ms, OF j' ms] shutdown.hyps(3) shutdown.IH 1 show ?thesis by auto
  next
    case 2
    from BIO_shutdown_wr_pipe [where ms = ms, OF joined_sym [OF j'] ms] shutdown.hyps(3) shutdown.IH 2 show ?thesis
      by (auto dest: joined_sym)
  qed
qed (use j empty in simp)


section \<open>A new pair\<close>

lemma pair_buffer_new:
  assumes mem: "\<forall>k. mem k \<noteq> None" and new: "bb_buf x = None" "bb_size x = 17 * 1024"
    and len: "n < 2 ^ 62"
  obtains x' where "pair_buffer mem n x = (True, x')" and "ring_ok x'" and "bb_peer x' = bb_peer x"
    and "bb_size x' = (if n = 0 then 17 * 1024 else n)" and "ring x' = []"
proof -
  let ?sz = "if n = 0 then 17 * 1024 else n"
  let ?x = "x\<lparr>bb_size := ?sz\<rparr>"
  have "?sz + 8 < 2 ^ 64" using len by simp
  then obtain d where d: "OPENSSL_malloc mem ?sz = Some d" "length d = ?sz"
    using OPENSSL_malloc_works [OF mem] by blast
  have x: "(if n \<noteq> 0 then x\<lparr>bb_size := n\<rparr> else x) = ?x" using new(2) by simp
  have run: "pair_buffer mem n x = (True, ?x\<lparr>bb_buf := Some d, bb_len := 0, bb_offset := 0\<rparr>)"
    unfolding pair_buffer_def x Let_def using new(1) d(1) by simp
  show ?thesis
    by (rule that [OF run]) (use d(2) in \<open>auto simp: ring_ok_def ring_def\<close>)
qed

definition fresh_half :: "nat \<Rightarrow> bio_bio bio \<Rightarrow> bio_bio \<Rightarrow> bool" where
  "fresh_half m b x \<longleftrightarrow> bio_method b = Some m \<and> bio_ptr b = Some x \<and> bb_peer x = None \<and> bb_buf x = None \<and>
     bb_size x = 17 * 1024"

lemma BIO_new_half:
  assumes "\<forall>k. mem k \<noteq> None" and "ms m = methods_biop mem"
  obtains b x where "BIO_new mem ms m a h = Some (Some a, h(a \<mapsto> b))" and "fresh_half m b x"
proof -
  obtain d1 d2 where "OPENSSL_malloc mem 64 = Some d1" "OPENSSL_malloc mem 56 = Some d2"
    using OPENSSL_malloc_works [OF assms(1), of 64] OPENSSL_malloc_works [OF assms(1), of 56] by auto
  then show ?thesis
    using assms(2)
    by (intro that) (auto simp: BIO_new_def methods_biop_def bio_new_def on_bio_def fresh_half_def Let_def)
qed

lemma bio_make_pair_joined:
  assumes mem: "\<forall>k. mem k \<noteq> None" and ne: "a1 \<noteq> a2" and n: "n1 < 2 ^ 62" "n2 < 2 ^ 62"
    and h: "h a1 = Some b1" "fresh_half m b1 x1" "h a2 = Some b2" "fresh_half m b2 x2"
  obtains h' where "bio_make_pair mem a1 a2 n1 n2 h = Some (True, h')" and "joined m a1 a2 h'"
    and "pipe_at a1 h' = \<lparr>p_closed = False, p_size = (if n1 = 0 then 17 * 1024 else n1), p_queue = []\<rparr>"
    and "pipe_at a2 h' = \<lparr>p_closed = False, p_size = (if n2 = 0 then 17 * 1024 else n2), p_queue = []\<rparr>"
proof -
  note f1 = h(2) [unfolded fresh_half_def] and f2 = h(4) [unfolded fresh_half_def]
  obtain y1 where y1: "pair_buffer mem n1 x1 = (True, y1)" "ring_ok y1" "bb_peer y1 = bb_peer x1"
      "bb_size y1 = (if n1 = 0 then 17 * 1024 else n1)" "ring y1 = []"
    using pair_buffer_new [OF mem _ _ n(1), of x1] f1 by blast
  obtain y2 where y2: "pair_buffer mem n2 x2 = (True, y2)" "ring_ok y2" "bb_peer y2 = bb_peer x2"
      "bb_size y2 = (if n2 = 0 then 17 * 1024 else n2)" "ring y2 = []"
    using pair_buffer_new [OF mem _ _ n(2), of x2] f2 by blast
  let ?z1 = "y1\<lparr>bb_peer := Some a2, bb_closed := False, bb_request := 0\<rparr>"
    and ?z2 = "y2\<lparr>bb_peer := Some a1, bb_closed := False, bb_request := 0\<rparr>"
  let ?c1 = "b1\<lparr>bio_ptr := Some ?z1, bio_init := True\<rparr>" and ?c2 = "b2\<lparr>bio_ptr := Some ?z2, bio_init := True\<rparr>"
  let ?h = "h(a1 \<mapsto> ?c1, a2 \<mapsto> ?c2)"
  have run: "bio_make_pair mem a1 a2 n1 n2 h = Some (True, ?h)"
    using h(1,3) ne f1 f2 y1(1) y2(1)
    by (simp add: bio_make_pair_def bb_at_def on_bb_def on_bio_def fun_upd_twist)
  have same: "ring_ok (y\<lparr>bb_peer := p, bb_closed := c\<rparr>) = ring_ok y"
    "ring (y\<lparr>bb_peer := p, bb_closed := c\<rparr>) = ring y" for y p c
    by (simp_all add: ring_ok_def ring_def split: option.split)
  have halves: "half m a2 ?c1 ?z1" "half m a1 ?c2 ?z2"
    using f1 f2 y1(2) y2(2) by (simp_all add: half_def same)
  have pipes: "joined m a1 a2 ?h \<and> pipe_at a1 ?h = pipe_of ?z1 \<and> pipe_at a2 ?h = pipe_of ?z2"
    using ne by (intro joinedI [OF ne _ halves(1) _ halves(2)]) simp_all
  moreover have "pipe_of ?z1 = \<lparr>p_closed = False, p_size = bb_size y1, p_queue = []\<rparr>"
    "pipe_of ?z2 = \<lparr>p_closed = False, p_size = bb_size y2, p_queue = []\<rparr>"
    by (simp_all add: pipe_of_def same y1(5) y2(5))
  ultimately show ?thesis unfolding y1(4) y2(4) by (intro that [OF run]) simp_all
qed

lemma BIO_new_bio_pair_joined [invariant_rules]:
  assumes mem: "\<forall>k. mem k \<noteq> None" and ms: "ms m = methods_biop mem" and ne: "a1 \<noteq> a2"
    and n: "n1 < 2 ^ 62" "n2 < 2 ^ 62"
  obtains h' where "BIO_new_bio_pair mem ms m a1 a2 n1 n2 h = Some ((True, Some a1, Some a2), h')"
    and "joined m a1 a2 h'"
    and "pipe_at a1 h' = \<lparr>p_closed = False, p_size = (if n1 = 0 then 17 * 1024 else n1), p_queue = []\<rparr>"
    and "pipe_at a2 h' = \<lparr>p_closed = False, p_size = (if n2 = 0 then 17 * 1024 else n2), p_queue = []\<rparr>"
proof -
  obtain b1 x1 where b1: "BIO_new mem ms m a1 h = Some (Some a1, h(a1 \<mapsto> b1))" "fresh_half m b1 x1"
    by (rule BIO_new_half [where ms = ms, OF mem ms])
  obtain b2 x2 where b2: "BIO_new mem ms m a2 (h(a1 \<mapsto> b1)) = Some (Some a2, h(a1 \<mapsto> b1, a2 \<mapsto> b2))"
      "fresh_half m b2 x2"
    by (rule BIO_new_half [where ms = ms, OF mem ms])
  have at: "(h(a1 \<mapsto> b1, a2 \<mapsto> b2)) a1 = Some b1" "(h(a1 \<mapsto> b1, a2 \<mapsto> b2)) a2 = Some b2" using ne by simp_all
  obtain h' where h': "bio_make_pair mem a1 a2 n1 n2 (h(a1 \<mapsto> b1, a2 \<mapsto> b2)) = Some (True, h')" "joined m a1 a2 h'"
      "pipe_at a1 h' = \<lparr>p_closed = False, p_size = (if n1 = 0 then 17 * 1024 else n1), p_queue = []\<rparr>"
      "pipe_at a2 h' = \<lparr>p_closed = False, p_size = (if n2 = 0 then 17 * 1024 else n2), p_queue = []\<rparr>"
    by (rule bio_make_pair_joined [OF mem ne n at(1) b1(2) at(2) b2(2)])
  have "BIO_new_bio_pair mem ms m a1 a2 n1 n2 h = Some ((True, Some a1, Some a2), h')"
    by (simp add: BIO_new_bio_pair_def b1(1) b2(1) h'(1))
  then show ?thesis by (rule that) (rule h'(2-4))+
qed

end
