(* ===== verification/BioMem.thy ===== *)
theory BioMem
  imports BioAsn1 Buf
begin

text \<open>
  \<open>bio/bio_mem.c\<close>: a \<open>BUF_MEM\<close> as a stream. In a read-only BIO the pointer of the buffer moves
  over the static bytes; \<open>mp_before\<close> are those that it has passed.
\<close>

record mem_ptr =
  mp_buf :: buf_mem
  mp_before :: bytes

definition mem_at :: "addr \<Rightarrow> mem_ptr bios \<Rightarrow> mem_ptr option" where
  "mem_at a h = do { b \<leftarrow> h a; bio_ptr b }"

definition mem_new :: "(nat \<Rightarrow> bytes option) \<Rightarrow> addr \<Rightarrow> (bool, mem_ptr) bio_op" where
  "mem_new mem a h =
     (case BUF_MEM_new mem of
        None \<Rightarrow> Some (False, h)
      | Some b \<Rightarrow> do {
          h \<leftarrow> on_bio a (\<lambda>bio. bio\<lparr>bio_shutdown := 1, bio_init := True, bio_num := - 1,
            bio_ptr := Some \<lparr>mp_buf = b, mp_before = []\<rparr>\<rparr>) h;
          Some (True, h) })"

definition mem_free :: "addr \<Rightarrow> (bool, mem_ptr) bio_op" where
  "mem_free a h = do {
     bio \<leftarrow> h a;
     if bio_shutdown bio = 0 \<or> \<not> bio_init bio \<or> bio_ptr bio = None then Some (True, h)
     else Some (True, h(a \<mapsto> bio\<lparr>bio_ptr := None\<rparr>)) }"

definition mem_rdonly :: "mem_ptr bio \<Rightarrow> bool" where
  "mem_rdonly bio \<longleftrightarrow> bio_flags bio AND BIO_FLAGS_MEM_RDONLY \<noteq> 0"

text \<open>The copy out of the front of the buffer, of \<open>n > 0\<close> bytes.\<close>

definition mem_take :: "bool \<Rightarrow> nat \<Rightarrow> mem_ptr \<Rightarrow> bytes \<Rightarrow> (mem_ptr \<times> bytes) option" where
  "mem_take rdonly n mp out = do {
     let b = mp_buf mp;
     d \<leftarrow> bm_data b;
     let out = blit out 0 (take n d);
     let len = bm_length b - n;
     Some (if rdonly
           then mp\<lparr>mp_buf := b\<lparr>bm_length := len, bm_data := Some (drop n d)\<rparr>,
                   mp_before := mp_before mp @ take n d\<rparr>
           else mp\<lparr>mp_buf := b\<lparr>bm_length := len, bm_data := Some (blit d 0 (take len (drop n d)))\<rparr>\<rparr>,
           out) }"

definition mem_read :: "addr \<Rightarrow> bytes option \<Rightarrow> int \<Rightarrow> (int \<times> bytes option, mem_ptr) bio_op" where
  "mem_read a out outl h = do {
     mp \<leftarrow> mem_at a h;
     h \<leftarrow> on_bio a BIO_clear_retry_flags h;
     bio \<leftarrow> h a;
     let len = bm_length (mp_buf mp);
     let ret = (if len < INT_MAX \<and> outl > int len then int len else outl);
     if ret > 0 then do {
       dst \<leftarrow> out;
       (mp, dst) \<leftarrow> mem_take (mem_rdonly bio) (nat ret) mp dst;
       Some ((ret, Some dst), h(a \<mapsto> bio\<lparr>bio_ptr := Some mp\<rparr>)) }
     else if len = 0 then
       Some ((bio_num bio, out), h(a \<mapsto> (if bio_num bio \<noteq> 0 then BIO_set_retry_read bio else bio)))
     else Some ((ret, out), h) }"

definition mem_write ::
  "(nat \<Rightarrow> bytes option) \<Rightarrow> addr \<Rightarrow> bytes option \<Rightarrow> int \<Rightarrow> (int, mem_ptr) bio_op" where
  "mem_write mem a inp inl h = do {
     bio \<leftarrow> h a;
     mp \<leftarrow> bio_ptr bio;
     if mem_rdonly bio then Some (- 1, h)
     else do {
       let bio = BIO_clear_retry_flags bio;
       let h = h(a \<mapsto> bio);
       let blen = int_of_size (bm_length (mp_buf mp));
       if int INT_MAX - blen < inl then Some (- 1, h)
       else
         (case BUF_MEM_grow_clean mem (nat (blen + inl)) (mp_buf mp) of
            (n, b) \<Rightarrow>
              if n \<noteq> nat (blen + inl) then Some (- 1, h(a \<mapsto> bio\<lparr>bio_ptr := Some (mp\<lparr>mp_buf := b\<rparr>)\<rparr>))
              else do {
                src \<leftarrow> inp;
                d \<leftarrow> bm_data b;
                let b = b\<lparr>bm_data := Some (blit d (nat blen) (take (nat inl) src))\<rparr>;
                Some (inl, h(a \<mapsto> bio\<lparr>bio_ptr := Some (mp\<lparr>mp_buf := b\<rparr>)\<rparr>)) }) } }"

text \<open>The number of bytes up to and including the first newline, or all.\<close>

fun line_length :: "bytes \<Rightarrow> nat" where
  "line_length [] = 0"
| "line_length (c # p) = (if c = 10 then 1 else Suc (line_length p))"

definition mem_gets :: "addr \<Rightarrow> bytes option \<Rightarrow> int \<Rightarrow> (int \<times> bytes option, mem_ptr) bio_op" where
  "mem_gets a buf sz h = do {
     mp \<leftarrow> mem_at a h;
     h \<leftarrow> on_bio a BIO_clear_retry_flags h;
     let len = int_of_size (bm_length (mp_buf mp));
     let j = (if sz - 1 < len then sz - 1 else len);
     if j \<le> 0 then Some ((0, if sz > 0 then map_option (\<lambda>d. d[0 := 0]) buf else buf), h)
     else do {
       p \<leftarrow> bm_data (mp_buf mp);
       let i = int (line_length (take (nat j) p));
       ((i, buf), h) \<leftarrow> mem_read a buf i h;
       Some ((i, if i > 0 then map_option (\<lambda>d. d[nat i := 0]) buf else buf), h) } }"

definition BIO_C_SET_BUF_MEM :: nat where "BIO_C_SET_BUF_MEM = 114"
definition BIO_C_GET_BUF_MEM_PTR :: nat where "BIO_C_GET_BUF_MEM_PTR = 115"
definition BIO_C_SET_BUF_MEM_EOF_RETURN :: nat where "BIO_C_SET_BUF_MEM_EOF_RETURN = 130"

lemmas mem_ctrl_codes = bio_ctrl_codes BIO_C_SET_BUF_MEM_def BIO_C_GET_BUF_MEM_PTR_def
  BIO_C_SET_BUF_MEM_EOF_RETURN_def

definition mem_reset :: "bool \<Rightarrow> mem_ptr \<Rightarrow> mem_ptr" where
  "mem_reset rdonly mp =
     (let b = mp_buf mp
      in case bm_data b of
           None \<Rightarrow> mp
         | Some d \<Rightarrow>
             if rdonly then
               let k = length (mp_before mp) - (bm_max b - bm_length b)
               in \<lparr>mp_buf = b\<lparr>bm_data := Some (drop k (mp_before mp) @ d), bm_length := bm_max b\<rparr>,
                   mp_before = take k (mp_before mp)\<rparr>
             else mp\<lparr>mp_buf := b\<lparr>bm_data := Some (blit d 0 (replicate (bm_max b) 0)), bm_length := 0\<rparr>\<rparr>)"

text \<open>
  The pointers that \<open>BIO_CTRL_INFO\<close> and \<open>BIO_C_GET_BUF_MEM_PTR\<close> store through \<open>ptr\<close> are the
  buffer of the state. The argument of \<open>BIO_C_SET_BUF_MEM\<close> is a \<open>BUF_MEM\<close>, which has no address
  here; that command is \<open>BIO_set_mem_buf\<close> below.
\<close>

definition mem_ctrl :: "addr \<Rightarrow> nat \<Rightarrow> int \<Rightarrow> addr option \<Rightarrow> (int, mem_ptr) bio_op" where
  "mem_ctrl a cmd num parg h = do {
     bio \<leftarrow> h a;
     mp \<leftarrow> bio_ptr bio;
     let b = mp_buf mp;
     if cmd = BIO_CTRL_RESET then
       Some (1, h(a \<mapsto> bio\<lparr>bio_ptr := Some (mem_reset (mem_rdonly bio) mp)\<rparr>))
     else if cmd = BIO_CTRL_EOF then Some (if bm_length b = 0 then 1 else 0, h)
     else if cmd = BIO_C_SET_BUF_MEM_EOF_RETURN then Some (1, h(a \<mapsto> bio\<lparr>bio_num := num\<rparr>))
     else if cmd = BIO_CTRL_INFO then Some (int (bm_length b), h)
     else if cmd = BIO_C_SET_BUF_MEM then None
     else if cmd = BIO_C_GET_BUF_MEM_PTR then Some (1, h)
     else if cmd = BIO_CTRL_GET_CLOSE then Some (bio_shutdown bio, h)
     else if cmd = BIO_CTRL_SET_CLOSE then Some (1, h(a \<mapsto> bio\<lparr>bio_shutdown := num\<rparr>))
     else if cmd = BIO_CTRL_WPENDING then Some (0, h)
     else if cmd = BIO_CTRL_PENDING then Some (int (bm_length b), h)
     else if cmd = BIO_CTRL_FLUSH then Some (1, h)
     else Some (0, h) }"

definition BIO_set_mem_buf :: "addr \<Rightarrow> buf_mem \<Rightarrow> int \<Rightarrow> (int, mem_ptr) bio_op" where
  "BIO_set_mem_buf a b take_ownership h = do {
     (_, h) \<leftarrow> mem_free a h;
     h \<leftarrow> on_bio a (\<lambda>bio. bio\<lparr>bio_shutdown := take_ownership,
       bio_ptr := Some \<lparr>mp_buf = b, mp_before = []\<rparr>\<rparr>) h;
     Some (1, h) }"

definition BIO_TYPE_MEM :: nat where
  "BIO_TYPE_MEM = 0x401"

definition mem_method :: "(nat \<Rightarrow> bytes option) \<Rightarrow> mem_ptr bio_methods" where
  "mem_method mem =
     \<lparr>m_type = BIO_TYPE_MEM, m_bwrite = Some (mem_write mem), m_bread = Some mem_read,
      m_bgets = Some mem_gets, m_ctrl = Some mem_ctrl, m_create = Some (mem_new mem),
      m_destroy = Some mem_free, m_callback_ctrl = None\<rparr>"

text \<open>\<open>strlen\<close> of a null pointer has no result; \<open>m\<close> is the number of the table \<open>mem_method\<close>.\<close>

definition BIO_new_mem_buf ::
  "(nat \<Rightarrow> bytes option) \<Rightarrow> (nat \<Rightarrow> mem_ptr bio_methods) \<Rightarrow> nat \<Rightarrow> addr \<Rightarrow> bytes option \<Rightarrow> int \<Rightarrow>
   (addr option, mem_ptr) bio_op" where
  "BIO_new_mem_buf mem ms m a buf len h = do {
     sz \<leftarrow> (if len < 0 then map_option c_strlen buf else Some (nat len));
     if buf = None \<and> len \<noteq> 0 then Some (None, h)
     else do {
       (ret, h) \<leftarrow> BIO_new mem ms m a h;
       (case ret of
          None \<Rightarrow> Some (None, h)
        | Some a \<Rightarrow> do {
            h \<leftarrow> on_bio a (\<lambda>bio. bio\<lparr>
              bio_ptr := map_option (\<lambda>mp. mp\<lparr>mp_buf := (mp_buf mp)\<lparr>bm_data := buf, bm_length := sz, bm_max := sz\<rparr>\<rparr>)
                (bio_ptr bio),
              bio_flags := bio_flags bio OR BIO_FLAGS_MEM_RDONLY, bio_num := 0\<rparr>) h;
            Some (Some a, h) }) } }"

definition BIO_mem_contents :: "nat \<Rightarrow> mem_ptr bio \<Rightarrow> (bytes option \<times> nat) option" where
  "BIO_mem_contents m bio =
     (if bio_method bio \<noteq> Some m then None
      else map_option (\<lambda>mp. (bm_data (mp_buf mp), bm_length (mp_buf mp))) (bio_ptr bio))"

definition BIO_get_mem_data :: "(nat \<Rightarrow> 'p bio_methods) \<Rightarrow> addr option \<Rightarrow> (int, 'p) bio_op" where
  "BIO_get_mem_data ms bio = BIO_ctrl ms bio BIO_CTRL_INFO 0 None"

definition BIO_get_mem_ptr :: "(nat \<Rightarrow> 'p bio_methods) \<Rightarrow> addr option \<Rightarrow> (int, 'p) bio_op" where
  "BIO_get_mem_ptr ms bio = BIO_ctrl ms bio BIO_C_GET_BUF_MEM_PTR 0 None"

definition BIO_set_mem_eof_return :: "(nat \<Rightarrow> 'p bio_methods) \<Rightarrow> addr option \<Rightarrow> int \<Rightarrow> (int, 'p) bio_op" where
  "BIO_set_mem_eof_return ms bio eof_value = BIO_ctrl ms bio BIO_C_SET_BUF_MEM_EOF_RETURN eof_value None"


section \<open>The buffer as a source\<close>

definition filled :: "buf_mem \<Rightarrow> bool" where
  "filled b \<longleftrightarrow> (case bm_data b of None \<Rightarrow> bm_length b = 0 | Some d \<Rightarrow> bm_length b \<le> length d)"

definition mem_half :: "nat \<Rightarrow> mem_ptr bio \<Rightarrow> mem_ptr \<Rightarrow> bool" where
  "mem_half m b mp \<longleftrightarrow> bio_method b = Some m \<and> bio_init b \<and> bio_ptr b = Some mp \<and> bio_num b \<le> 0 \<and> filled (mp_buf mp)"

definition readable :: "nat \<Rightarrow> addr \<Rightarrow> mem_ptr bios \<Rightarrow> bool" where
  "readable m a h \<longleftrightarrow> (\<exists>b mp. h a = Some b \<and> mem_half m b mp)"

definition mem_bytes :: "addr \<Rightarrow> mem_ptr bios \<Rightarrow> bytes" where
  "mem_bytes a h = (case mem_at a h of None \<Rightarrow> [] | Some mp \<Rightarrow> buf_bytes (mp_buf mp))"

lemma length_filled: "filled b \<Longrightarrow> length (buf_bytes b) = bm_length b"
  by (auto simp: filled_def buf_bytes_def split: option.splits)

lemma mem_halfD:
  "h a = Some b \<Longrightarrow> mem_half m b mp \<Longrightarrow> readable m a h \<and> mem_bytes a h = buf_bytes (mp_buf mp)"
  by (auto simp: readable_def mem_bytes_def mem_at_def mem_half_def)

lemma mem_half_flags:
  "mem_half m (BIO_clear_retry_flags b) mp = mem_half m b mp" "mem_half m (BIO_set_retry_read b) mp = mem_half m b mp"
  "mem_half m (b\<lparr>num_read := k\<rparr>) mp = mem_half m b mp" "mem_half m (b\<lparr>num_write := k\<rparr>) mp = mem_half m b mp"
  by (simp_all add: mem_half_def BIO_clear_retry_flags_def BIO_set_retry_read_def)

lemma mem_take_bytes:
  assumes f: "filled (mp_buf mp)" and n: "0 < n" "n \<le> bm_length (mp_buf mp)"
  obtains mp' where "mem_take rdonly n mp out = Some (mp', blit out 0 (take n (buf_bytes (mp_buf mp))))"
    and "filled (mp_buf mp')" and "buf_bytes (mp_buf mp') = drop n (buf_bytes (mp_buf mp))"
proof -
  let ?b = "mp_buf mp"
  obtain d where d: "bm_data ?b = Some d" "bm_length ?b \<le> length d"
    using f n by (auto simp: filled_def split: option.splits)
  let ?ro = "mp\<lparr>mp_buf := ?b\<lparr>bm_length := bm_length ?b - n, bm_data := Some (drop n d)\<rparr>, mp_before := mp_before mp @ take n d\<rparr>"
  let ?rw = "mp\<lparr>mp_buf := ?b\<lparr>bm_length := bm_length ?b - n,
    bm_data := Some (blit d 0 (take (bm_length ?b - n) (drop n d)))\<rparr>\<rparr>"
  show ?thesis
  proof (rule that [of "if rdonly then ?ro else ?rw"])
    show "mem_take rdonly n mp out = Some (if rdonly then ?ro else ?rw, blit out 0 (take n (buf_bytes ?b)))"
      using d n by (simp add: mem_take_def buf_bytes_def min_def Let_def)
    show "filled (mp_buf (if rdonly then ?ro else ?rw))" using d n by (auto simp: filled_def blit_def)
    show "buf_bytes (mp_buf (if rdonly then ?ro else ?rw)) = drop n (buf_bytes ?b)"
      using d n by (simp add: buf_bytes_def blit_def drop_take)
  qed
qed

lemma mem_read_bytes:
  assumes h: "h a = Some b" "mem_half m b mp" and n: "0 < n" "n \<le> int INT_MAX"
  defines "q \<equiv> buf_bytes (mp_buf mp)"
  obtains (empty) b' r where "q = []" and "r \<le> 0" and "mem_read a (Some dst) n h = Some ((r, Some dst), h(a \<mapsto> b'))"
      and "mem_half m b' mp"
  | (some) k b' mp' where "q \<noteq> []" and "0 < k" and "int k \<le> n" and "k \<le> length q"
      and "mem_read a (Some dst) n h = Some ((int k, Some (blit dst 0 (take k q))), h(a \<mapsto> b'))"
      and "mem_half m b' mp'" and "buf_bytes (mp_buf mp') = drop k q"
proof -
  let ?len = "bm_length (mp_buf mp)" and ?b = "BIO_clear_retry_flags b"
  have f: "filled (mp_buf mp)" "bio_ptr b = Some mp" "bio_num b \<le> 0" using h(2) by (simp_all add: mem_half_def)
  have len: "length q = ?len" unfolding q_def by (rule length_filled [OF f(1)])
  have num: "bio_num ?b = bio_num b" "bio_ptr ?b = Some mp" using f by (simp_all add: BIO_clear_retry_flags_def)
  have hb: "mem_half m ?b mp" using h(2) by (simp add: mem_half_flags)
  show ?thesis
  proof (cases "?len = 0")
    case True
    let ?b' = "if bio_num b \<noteq> 0 then BIO_set_retry_read ?b else ?b"
    have "mem_read a (Some dst) n h = Some ((bio_num b, Some dst), h(a \<mapsto> ?b'))"
      using True h(1) f n by (simp add: mem_read_def mem_at_def on_bio_def num INT_MAX_def)
    moreover have "mem_half m ?b' mp" using hb by (simp add: mem_half_flags)
    moreover have "q = []" using True len by simp
    ultimately show ?thesis by (intro empty) (use f in auto)
  next
    case False
    define k where "k = nat (if ?len < INT_MAX \<and> n > int ?len then int ?len else n)"
    have k: "0 < k" "int k \<le> n" "k \<le> ?len" using n False by (auto simp: k_def)
    obtain mp' where t: "mem_take (mem_rdonly ?b) k mp dst = Some (mp', blit dst 0 (take k q))"
      "filled (mp_buf mp')" "buf_bytes (mp_buf mp') = drop k q"
      unfolding q_def by (rule mem_take_bytes [OF f(1) k(1,3)])
    let ?b' = "?b\<lparr>bio_ptr := Some mp'\<rparr>"
    have "mem_read a (Some dst) n h = Some ((int k, Some (blit dst 0 (take k q))), h(a \<mapsto> ?b'))"
      using h(1) f(2) t(1) k(1) k_def num(2) False n(1)
      by (cases "?len < INT_MAX \<and> n > int ?len") (auto simp: mem_read_def mem_at_def on_bio_def Let_def)
    moreover have "mem_half m ?b' mp'" using hb t(2) by (simp add: mem_half_def)
    ultimately show ?thesis using k t(3) len False by (intro some [of k ?b' mp']) auto
  qed
qed

interpretation mem_source: bio_source "\<lambda>_. mem_method mem" a "readable m a" "mem_bytes a" for mem a m
proof
  fix h :: "mem_ptr bios" and len :: int and buf :: bytes
  assume r: "readable m a h" and n: "0 < len" "len \<le> int (length buf)" "len \<le> int INT_MAX"
  obtain b mp where h: "h a = Some b" "mem_half m b mp" using r by (auto simp: readable_def)
  let ?q = "mem_bytes a h"
  have q: "?q = buf_bytes (mp_buf mp)" using mem_halfD [of h, OF h] by simp
  from h n(1,3) show "\<exists>ret buf' h'. BIO_read (\<lambda>_. mem_method mem) (Some a) (Some buf) len h = Some ((ret, Some buf'), h') \<and>
      readable m a h' \<and>
      (if ?q = [] then ret \<le> 0 \<and> buf' = buf \<and> mem_bytes a h' = []
       else 0 < ret \<and> ret \<le> len \<and> nat ret \<le> length ?q \<and>
         buf' = take (nat ret) ?q @ drop (nat ret) buf \<and> mem_bytes a h' = drop (nat ret) ?q)"
  proof (cases rule: mem_read_bytes [where dst = buf])
    case (empty b' r)
    have "BIO_read (\<lambda>_. mem_method mem) (Some a) (Some buf) len h = Some ((r, Some buf), h(a \<mapsto> b'))"
      using h n(1) empty(2,3) by (simp add: BIO_read_def bio_get_def mem_half_def mem_method_def)
    with mem_halfD [of "h(a \<mapsto> b')", OF _ empty(4)] empty(1,2) q show ?thesis by simp
  next
    case (some k b' mp')
    let ?b = "b'\<lparr>num_read := size_add (num_read b') k\<rparr>"
    have "BIO_read (\<lambda>_. mem_method mem) (Some a) (Some buf) len h =
        Some ((int k, Some (blit buf 0 (take k ?q))), h(a \<mapsto> ?b))"
      using h n(1) some(2,5) q by (simp add: BIO_read_def bio_get_def mem_half_def mem_method_def on_bio_def)
    moreover have "mem_half m ?b mp'" using some(6) by (simp add: mem_half_flags)
    moreover from this have "readable m a (h(a \<mapsto> ?b)) \<and> mem_bytes a (h(a \<mapsto> ?b)) = drop k ?q"
      using mem_halfD [of "h(a \<mapsto> ?b)" a ?b m mp'] some(7) q by simp
    moreover have "blit buf 0 (take k ?q) = take k ?q @ drop k buf" using some(4) q by (simp add: blit_def)
    ultimately show ?thesis using some(1-4) q by simp
  qed
qed


section \<open>The buffer as a sink\<close>

definition writable :: "nat \<Rightarrow> addr \<Rightarrow> mem_ptr bios \<Rightarrow> bool" where
  "writable m a h \<longleftrightarrow> (\<exists>b mp. h a = Some b \<and> mem_half m b mp \<and> \<not> mem_rdonly b \<and> buf_ok (mp_buf mp) \<and>
     bm_length (mp_buf mp) \<le> INT_MAX)"

lemma buf_ok_filled: "buf_ok b \<Longrightarrow> filled b"
  by (auto simp: buf_ok_def filled_def split: option.splits)

lemma int_of_size: "n \<le> INT_MAX \<Longrightarrow> int_of_size n = int n"
  by (simp add: int_of_size_def INT_MAX_def signed_of_nat signed_take_bit_int_eq_self)

lemma mem_rdonly_flags:
  "mem_rdonly (BIO_clear_retry_flags b) = mem_rdonly b" "mem_rdonly (b\<lparr>bio_ptr := p\<rparr>) = mem_rdonly b"
  "mem_rdonly (b\<lparr>num_write := k\<rparr>) = mem_rdonly b"
proof -
  have "NOT kRetryFlags AND BIO_FLAGS_MEM_RDONLY = BIO_FLAGS_MEM_RDONLY" by (simp add: bio_flag_codes)
  then show "mem_rdonly (BIO_clear_retry_flags b) = mem_rdonly b"
    by (simp add: mem_rdonly_def BIO_clear_retry_flags_def and.assoc)
qed (simp_all add: mem_rdonly_def)

lemma mem_write_bytes:
  assumes h: "h a = Some b" "mem_half m b mp" "\<not> mem_rdonly b" "buf_ok (mp_buf mp)" "bm_length (mp_buf mp) \<le> INT_MAX"
    and n: "0 < n" "n \<le> int (length src)"
  obtains (full) b' where "mem_write mem a (Some src) n h = Some (- 1, h(a \<mapsto> b'))"
      and "mem_half m b' mp" and "\<not> mem_rdonly b'"
  | (wrote) b' mp' where "mem_write mem a (Some src) n h = Some (n, h(a \<mapsto> b'))" and "mem_half m b' mp'"
      and "\<not> mem_rdonly b'" and "buf_ok (mp_buf mp')" and "bm_length (mp_buf mp') \<le> INT_MAX"
      and "buf_bytes (mp_buf mp') = buf_bytes (mp_buf mp) @ take (nat n) src"
proof -
  let ?B = "mp_buf mp" and ?b = "BIO_clear_retry_flags b"
  let ?len = "bm_length ?B"
  have b: "bio_ptr b = Some mp" "mem_half m ?b mp" "\<not> mem_rdonly ?b"
    using h(2,3) by (simp_all add: mem_half_flags mem_rdonly_flags) (simp add: mem_half_def)
  have same: "?b\<lparr>bio_ptr := Some (mp\<lparr>mp_buf := ?B\<rparr>)\<rparr> = ?b" using b(1) by (simp add: BIO_clear_retry_flags_def)
  have blen: "int_of_size ?len = int ?len" by (rule int_of_size [OF h(5)])
  show ?thesis
  proof (cases "int INT_MAX - int ?len < n")
    case True
    then have "mem_write mem a (Some src) n h = Some (- 1, h(a \<mapsto> ?b))"
      using h(1,3) b(1) by (simp add: mem_write_def Let_def blen)
    then show ?thesis using b(2,3) by (rule full)
  next
    case False
    define N where "N = ?len + nat n"
    have N: "nat (int ?len + n) = N" "N < 2 ^ 61" "N \<le> INT_MAX" "?len < N"
      using False n(1) by (auto simp: N_def INT_MAX_def)
    note run = mem_write_def mem_rdonly_flags
    from h(4) N(2) show ?thesis
    proof (cases rule: BUF_MEM_grow_bytes [where mem = mem])
      case 1
      have "mem_write mem a (Some src) n h = Some (- 1, h(a \<mapsto> ?b))"
        using h(1,3) b(1) False 1(1) N same by (simp add: mem_write_def Let_def blen BUF_MEM_grow_clean_def)
      then show ?thesis using b(2,3) by (rule full)
    next
      case (2 B)
      have len: "bm_length B = N" "length (buf_bytes B) = N"
        using length_buf_bytes [OF 2(2)] length_buf_bytes [OF h(4)] 2(3) N(4) by simp_all
      obtain d where d: "bm_data B = Some d" "length d = bm_max B" "N \<le> bm_max B"
        using 2(2) len(1) N(4) by (auto simp: buf_ok_def split: option.splits)
      let ?B' = "B\<lparr>bm_data := Some (blit d ?len (take (nat n) src))\<rparr>"
      let ?mp = "mp\<lparr>mp_buf := ?B'\<rparr>"
      have k: "length (take (nat n) src) = nat n" using n(2) by simp
      have "mem_write mem a (Some src) n h = Some (n, h(a \<mapsto> ?b\<lparr>bio_ptr := Some ?mp\<rparr>))"
        using h(1,3) b(1) False 2(1) N d(1) by (simp add: mem_write_def Let_def blen BUF_MEM_grow_clean_def)
      moreover have ok: "buf_ok ?B'" using 2(2) d k N_def by (simp add: buf_ok_def)
      moreover have "mem_half m (?b\<lparr>bio_ptr := Some ?mp\<rparr>) ?mp"
        using b(2) buf_ok_filled [OF ok] by (simp add: mem_half_def)
      moreover have "buf_bytes ?B' = buf_bytes ?B @ take (nat n) src"
      proof -
        have "take ?len d = take ?len (buf_bytes B)" using d(1) len(1) N(4) by (simp add: buf_bytes_def)
        also have "\<dots> = buf_bytes ?B"
          using 2(3) length_buf_bytes [OF h(4)] N(4) by simp
        finally have front: "take ?len d = buf_bytes ?B" .
        have "buf_bytes ?B' = take (?len + length (take (nat n) src)) (blit d ?len (take (nat n) src))"
          unfolding k by (simp add: buf_bytes_def len(1) N_def)
        also have "\<dots> = take ?len d @ take (nat n) src"
          by (rule take_blit_upto) (use d(2,3) N_def k in simp)
        finally show ?thesis by (simp only: front)
      qed
      ultimately show ?thesis using b(3) len(1) N(3) by (intro wrote [of "?b\<lparr>bio_ptr := Some ?mp\<rparr>" ?mp]) (simp_all add: mem_rdonly_flags)
    qed
  qed
qed

lemma writableI:
  "mem_half m b mp \<Longrightarrow> \<not> mem_rdonly b \<Longrightarrow> buf_ok (mp_buf mp) \<Longrightarrow> bm_length (mp_buf mp) \<le> INT_MAX \<Longrightarrow>
   writable m a (h(a \<mapsto> b)) \<and> mem_bytes a (h(a \<mapsto> b)) = buf_bytes (mp_buf mp)"
  using mem_halfD [of "h(a \<mapsto> b)" a b m mp] by (auto simp: writable_def)

interpretation mem_sink: bio_sink "\<lambda>_. mem_method mem" a "writable m a" "mem_bytes a" for mem a m
proof
  fix h :: "mem_ptr bios" and len :: int and d :: bytes
  assume w: "writable m a h" and n: "0 < len" "len \<le> int (length d)" "len \<le> int INT_MAX"
  obtain b mp where h: "h a = Some b" "mem_half m b mp" "\<not> mem_rdonly b" "buf_ok (mp_buf mp)"
      "bm_length (mp_buf mp) \<le> INT_MAX"
    using w by (auto simp: writable_def)
  have q: "mem_bytes a h = buf_bytes (mp_buf mp)" using mem_halfD [of h, OF h(1,2)] by simp
  from h n(1,2) show "\<exists>ret h'. BIO_write (\<lambda>_. mem_method mem) (Some a) (Some d) len h = Some (ret, h') \<and>
      writable m a h' \<and> ret \<le> len \<and> mem_bytes a h' = mem_bytes a h @ take (nat ret) d"
  proof (cases rule: mem_write_bytes [where mem = mem])
    case (full b')
    have "BIO_write (\<lambda>_. mem_method mem) (Some a) (Some d) len h = Some (- 1, h(a \<mapsto> b'))"
      using h(1,2) n(1) full(1) by (simp add: BIO_write_def mem_half_def mem_method_def)
    with writableI [OF full(2,3) h(4,5)] n(1) q show ?thesis by simp
  next
    case (wrote b' mp')
    let ?b = "b'\<lparr>num_write := size_add (num_write b') (nat len)\<rparr>"
    have "BIO_write (\<lambda>_. mem_method mem) (Some a) (Some d) len h = Some (len, h(a \<mapsto> ?b))"
      using h(1,2) n(1) wrote(1) by (simp add: BIO_write_def mem_half_def mem_method_def on_bio_def)
    moreover have "mem_half m ?b mp'" "\<not> mem_rdonly ?b" using wrote(2,3) by (simp_all add: mem_half_flags mem_rdonly_flags)
    ultimately show ?thesis using writableI [of m ?b mp' a h] wrote(4-6) q by auto
  qed
qed


section \<open>New buffers\<close>

lemma BIO_new_mem_buf_readable [invariant_rules]:
  assumes mem: "\<forall>k. mem k \<noteq> None" and ms: "ms m = mem_method mem" and len: "length buf < 2 ^ 31"
  obtains h' where "BIO_new_mem_buf mem ms m a (Some buf) (int (length buf)) h = Some (Some a, h')"
    and "readable m a h'" and "mem_bytes a h' = buf"
proof -
  obtain d1 d2 where "OPENSSL_malloc mem 64 = Some d1" "OPENSSL_malloc mem 24 = Some d2"
    using OPENSSL_malloc_works [OF mem, of 64] OPENSSL_malloc_works [OF mem, of 24] by auto
  then obtain b where b: "BIO_new_mem_buf mem ms m a (Some buf) (int (length buf)) h = Some (Some a, h(a \<mapsto> b))"
    and "mem_half m b \<lparr>mp_buf = \<lparr>bm_length = length buf, bm_data = Some buf, bm_max = length buf\<rparr>, mp_before = []\<rparr>"
    using ms by (simp add: BIO_new_mem_buf_def BIO_new_def mem_method_def mem_new_def BUF_MEM_new_def on_bio_def Let_def
      mem_half_def filled_def)
  with mem_halfD [of "h(a \<mapsto> b)" a b m] show ?thesis
    by (intro that [OF b]) (auto simp: buf_bytes_def)
qed

end
