(* ===== verification/Modes.thy ===== *)
theory Modes
  imports Cbs
begin

text \<open>
  \<open>fipsmodule/modes/{ofb,cfb,ctr}.c\<close>: the modes that turn a block cipher into a stream cipher. The
  cipher with its key (\<open>block\<close> and \<open>key\<close>) is an argument, as in the code: a function on blocks of
  16 bytes. Input and output are byte lists; \<open>in\<close> and \<open>out\<close> are the same buffer or disjoint.
\<close>

unbundle bit_operations_syntax

type_synonym block = "bytes \<Rightarrow> bytes"

text \<open>A call writes exactly 16 bytes; any function is allowed, its result is cut to that size.\<close>

definition call_block :: "block \<Rightarrow> bytes \<Rightarrow> bytes" where
  "call_block block x = take 16 (block x @ replicate 16 0)"

lemma length_call_block [simp]: "length (call_block block x) = 16"
  by (simp add: call_block_def)

section \<open>Words of a block\<close>

definition load_word_le :: "bytes \<Rightarrow> u64" where
  "load_word_le bs = foldr (\<lambda>b v. ucast b OR push_bit 8 v) (take 8 bs) 0"

definition store_word_le :: "u64 \<Rightarrow> bytes" where
  "store_word_le v = map (\<lambda>i. ucast (drop_bit (8 * i) v)) [0..<8]"

definition GETU32 :: "bytes \<Rightarrow> u32" where
  "GETU32 bs = CRYPTO_bswap4 (foldr (\<lambda>b v. ucast b OR push_bit 8 v) (take 4 bs) 0)"

definition PUTU32 :: "u32 \<Rightarrow> bytes" where
  "PUTU32 v = map (\<lambda>i. ucast (drop_bit (8 * i) (CRYPTO_bswap4 v))) [0..<4]"

text \<open>The loop over the two words of a block.\<close>

definition xor16 :: "bytes \<Rightarrow> bytes \<Rightarrow> bytes" where
  "xor16 a b =
     store_word_le (load_word_le a XOR load_word_le b) @
     store_word_le (load_word_le (drop 8 a) XOR load_word_le (drop 8 b))"

lemma bit_foldr_le:
  "n < LENGTH('a) \<Longrightarrow> length bs * 8 \<le> LENGTH('a) \<Longrightarrow>
   bit (foldr (\<lambda>b v. ucast b OR push_bit 8 v) bs (0 :: 'a::len word)) n \<longleftrightarrow>
     n div 8 < length bs \<and> bit (bs ! (n div 8) :: u8) (n mod 8)"
proof (induction bs arbitrary: n)
  case (Cons b bs)
  show ?case
  proof (cases "n < 8")
    case True
    then show ?thesis using Cons.prems by (simp add: bit_simps)
  next
    case False
    then have n: "n div 8 = Suc ((n - 8) div 8)" "n mod 8 = (n - 8) mod 8"
      by (simp_all add: le_div_geq le_mod_geq not_less)
    have "\<not> bit b n" using False by (auto dest: bit_imp_le_length)
    then show ?thesis using False Cons.prems Cons.IH [of "n - 8"] by (auto simp: bit_simps n)
  qed
qed simp

lemma xor_word:
  assumes "8 \<le> length a" and "8 \<le> length b"
  shows "store_word_le (load_word_le a XOR load_word_le b) = map2 (XOR) (take 8 a) (take 8 b)"
proof (rule nth_equalityI)
  show "length (store_word_le (load_word_le a XOR load_word_le b)) = length (map2 (XOR) (take 8 a) (take 8 b))"
    using assms by (simp add: store_word_le_def)
  fix i assume "i < length (store_word_le (load_word_le a XOR load_word_le b))"
  then have i: "i < 8" by (simp add: store_word_le_def)
  have load: "bit (load_word_le c) (n + 8 * i) \<longleftrightarrow> bit (c ! i) n" if "8 \<le> length c" "n < 8" for c n
  proof -
    have "n + 8 * i < 64" using i that(2) by simp
    then show ?thesis
      using i that unfolding load_word_le_def by (subst bit_foldr_le) (simp_all add: min_def)
  qed
  show "store_word_le (load_word_le a XOR load_word_le b) ! i = map2 (XOR) (take 8 a) (take 8 b) ! i"
  proof (rule bit_word_eqI)
    fix n assume "n < LENGTH(8)"
    then have n: "n < 8" by simp
    show "bit (store_word_le (load_word_le a XOR load_word_le b) ! i) n = bit (map2 (XOR) (take 8 a) (take 8 b) ! i) n"
      using i n assms load [OF assms(1) n] load [OF assms(2) n]
      by (simp add: store_word_le_def bit_simps add.commute)
  qed
qed

lemma xor16: "length a = 16 \<Longrightarrow> length b = 16 \<Longrightarrow> xor16 a b = map2 (XOR) a b"
proof -
  assume len: "length a = 16" "length b = 16"
  have "map2 (XOR) a b = map2 (XOR) (take 8 a @ drop 8 a) (take 8 b @ drop 8 b)" by simp
  also have "\<dots> = map2 (XOR) (take 8 a) (take 8 b) @ map2 (XOR) (drop 8 a) (drop 8 b)"
    using len by (subst zip_append) simp_all
  finally show ?thesis using len by (simp add: xor16_def xor_word)
qed

lemma length_xor16 [simp]: "length (xor16 a b) = 16"
  by (simp add: xor16_def store_word_le_def)


section \<open>The shape of the stream modes\<close>

text \<open>
  The three loops that \<open>CRYPTO_ofb128_encrypt\<close>, \<open>CRYPTO_cfb128_encrypt\<close> and
  \<open>CRYPTO_ctr128_encrypt\<close> consist of: the rest of the last block, whole blocks, and the start of a
  new one. \<open>byte n s b\<close> is the body of the bytewise loops at index \<open>n\<close> of the block, \<open>refill\<close> what
  is done when a new block is begun, and \<open>blk\<close> the wordwise loop over a whole block. The loops
  over whole blocks begin at index 0: the first loop ends there, or at the end of the input.
\<close>

fun mode_head :: "(nat \<Rightarrow> 's \<Rightarrow> u8 \<Rightarrow> u8 \<times> 's) \<Rightarrow> nat \<Rightarrow> 's \<Rightarrow> bytes \<Rightarrow> bytes \<times> nat \<times> 's \<times> bytes" where
  "mode_head byte n s [] = ([], n, s, [])"
| "mode_head byte n s (b # inp) =
     (if n = 0 then ([], n, s, b # inp)
      else
        case byte n s b of (c, s) \<Rightarrow>
          (case mode_head byte ((n + 1) mod 16) s inp of (out, n, s, rest) \<Rightarrow> (c # out, n, s, rest)))"

fun mode_blocks :: "('s \<Rightarrow> 's) \<Rightarrow> ('s \<Rightarrow> bytes \<Rightarrow> bytes \<times> 's) \<Rightarrow> 's \<Rightarrow> bytes \<Rightarrow> bytes \<times> 's \<times> bytes" where
  "mode_blocks refill blk s inp =
     (if length inp \<ge> 16 then
        case blk (refill s) (take 16 inp) of (c, s) \<Rightarrow>
          (case mode_blocks refill blk s (drop 16 inp) of (out, s, rest) \<Rightarrow> (c @ out, s, rest))
      else ([], s, inp))"

declare mode_blocks.simps [simp del]

fun mode_tail :: "(nat \<Rightarrow> 's \<Rightarrow> u8 \<Rightarrow> u8 \<times> 's) \<Rightarrow> nat \<Rightarrow> 's \<Rightarrow> bytes \<Rightarrow> bytes \<times> nat \<times> 's" where
  "mode_tail byte n s [] = ([], n, s)"
| "mode_tail byte n s (b # inp) =
     (case byte n s b of (c, s) \<Rightarrow>
       (case mode_tail byte (n + 1) s inp of (out, n, s) \<Rightarrow> (c # out, n, s)))"

definition stream_mode ::
  "(nat \<Rightarrow> 's \<Rightarrow> u8 \<Rightarrow> u8 \<times> 's) \<Rightarrow> ('s \<Rightarrow> 's) \<Rightarrow> ('s \<Rightarrow> bytes \<Rightarrow> bytes \<times> 's) \<Rightarrow>
   bytes \<Rightarrow> 's \<Rightarrow> nat \<Rightarrow> bytes \<times> 's \<times> nat" where
  "stream_mode byte refill blk inp s n =
     (case mode_head byte n s inp of
        (out1, n, s, inp) \<Rightarrow>
          (case mode_blocks refill blk s inp of
             (out2, s, rest) \<Rightarrow>
               let n = (if length inp \<ge> 16 then 0 else n)
               in if rest = [] then (out1 @ out2, s, n)
                  else (case mode_tail byte n (refill s) rest of
                          (out3, n, s) \<Rightarrow> (out1 @ out2 @ out3, s, n))))"


section \<open>Output feedback\<close>

definition ofb_byte :: "nat \<Rightarrow> bytes \<Rightarrow> u8 \<Rightarrow> u8 \<times> bytes" where
  "ofb_byte n ivec b = (b XOR ivec ! n, ivec)"

definition ofb_block :: "bytes \<Rightarrow> bytes \<Rightarrow> bytes \<times> bytes" where
  "ofb_block ivec inp = (xor16 inp ivec, ivec)"

definition CRYPTO_ofb128_encrypt :: "block \<Rightarrow> bytes \<Rightarrow> bytes \<Rightarrow> nat \<Rightarrow> bytes \<times> bytes \<times> nat" where
  "CRYPTO_ofb128_encrypt block inp ivec num = stream_mode ofb_byte (call_block block) ofb_block inp ivec num"


section \<open>Cipher feedback\<close>

definition cfb_enc_byte :: "nat \<Rightarrow> bytes \<Rightarrow> u8 \<Rightarrow> u8 \<times> bytes" where
  "cfb_enc_byte n ivec b = (let c = ivec ! n XOR b in (c, ivec[n := c]))"

definition cfb_enc_block :: "bytes \<Rightarrow> bytes \<Rightarrow> bytes \<times> bytes" where
  "cfb_enc_block ivec inp = (let tmp = xor16 ivec inp in (tmp, tmp))"

definition cfb_dec_byte :: "nat \<Rightarrow> bytes \<Rightarrow> u8 \<Rightarrow> u8 \<times> bytes" where
  "cfb_dec_byte n ivec c = (ivec ! n XOR c, ivec[n := c])"

definition cfb_dec_block :: "bytes \<Rightarrow> bytes \<Rightarrow> bytes \<times> bytes" where
  "cfb_dec_block ivec inp = (xor16 ivec inp, inp)"

definition CRYPTO_cfb128_encrypt :: "block \<Rightarrow> bytes \<Rightarrow> bytes \<Rightarrow> nat \<Rightarrow> bool \<Rightarrow> bytes \<times> bytes \<times> nat" where
  "CRYPTO_cfb128_encrypt block inp ivec num enc =
     (if enc then stream_mode cfb_enc_byte (call_block block) cfb_enc_block inp ivec num
      else stream_mode cfb_dec_byte (call_block block) cfb_dec_block inp ivec num)"


section \<open>Counter mode\<close>

text \<open>Adds one to the big-endian number in the first \<open>n\<close> bytes, with the carry \<open>c\<close>.\<close>

fun ctr_inc_loop :: "nat \<Rightarrow> u32 \<Rightarrow> bytes \<Rightarrow> bytes" where
  "ctr_inc_loop 0 c counter = counter"
| "ctr_inc_loop (Suc n) c counter =
     (let c = c + ucast (counter ! n) in ctr_inc_loop n (drop_bit 8 c) (counter[n := ucast c]))"

definition ctr128_inc :: "bytes \<Rightarrow> bytes" where
  "ctr128_inc counter = ctr_inc_loop 16 1 counter"

definition ctr96_inc :: "bytes \<Rightarrow> bytes" where
  "ctr96_inc counter = ctr_inc_loop 12 1 counter"

text \<open>The state is the counter block and the encrypted one.\<close>

definition ctr_refill :: "block \<Rightarrow> bytes \<times> bytes \<Rightarrow> bytes \<times> bytes" where
  "ctr_refill block s = (case s of (ivec, _) \<Rightarrow> (ctr128_inc ivec, call_block block ivec))"

definition ctr_byte :: "nat \<Rightarrow> bytes \<times> bytes \<Rightarrow> u8 \<Rightarrow> u8 \<times> bytes \<times> bytes" where
  "ctr_byte n s b = (b XOR snd s ! n, s)"

definition ctr_block :: "bytes \<times> bytes \<Rightarrow> bytes \<Rightarrow> bytes \<times> bytes \<times> bytes" where
  "ctr_block s inp = (xor16 inp (snd s), s)"

definition CRYPTO_ctr128_encrypt ::
  "block \<Rightarrow> bytes \<Rightarrow> bytes \<times> bytes \<Rightarrow> nat \<Rightarrow> bytes \<times> (bytes \<times> bytes) \<times> nat" where
  "CRYPTO_ctr128_encrypt block inp s num =
     stream_mode ctr_byte (ctr_refill block) ctr_block inp s num"


section \<open>The reference: one byte at a time\<close>

definition byte_step :: "(nat \<Rightarrow> 's \<Rightarrow> u8 \<Rightarrow> u8 \<times> 's) \<Rightarrow> ('s \<Rightarrow> 's) \<Rightarrow> 's \<times> nat \<Rightarrow> u8 \<Rightarrow> u8 \<times> 's \<times> nat" where
  "byte_step byte refill st b =
     (case st of (s, n) \<Rightarrow>
       (case byte n (if n = 0 then refill s else s) b of (c, s) \<Rightarrow> (c, s, (n + 1) mod 16)))"

fun run_bytes :: "('st \<Rightarrow> u8 \<Rightarrow> u8 \<times> 'st) \<Rightarrow> 'st \<Rightarrow> bytes \<Rightarrow> bytes \<times> 'st" where
  "run_bytes step st [] = ([], st)"
| "run_bytes step st (b # inp) =
     (case step st b of (c, st) \<Rightarrow> (case run_bytes step st inp of (out, st) \<Rightarrow> (c # out, st)))"

lemma run_bytes_append:
  "run_bytes step st (xs @ ys) =
     (case run_bytes step st xs of (o1, st) \<Rightarrow>
       (case run_bytes step st ys of (o2, st) \<Rightarrow> (o1 @ o2, st)))"
  by (induction xs arbitrary: st) (auto split: prod.split)

text \<open>
  What makes a stream mode of a block function: \<open>blk\<close> does to a whole block what \<open>byte\<close> does at
  the indices 0 to 15. \<open>valid\<close> are the states whose blocks have 16 bytes.
\<close>

locale stream_shape =
  fixes byte :: "nat \<Rightarrow> 's \<Rightarrow> u8 \<Rightarrow> u8 \<times> 's" and refill :: "'s \<Rightarrow> 's"
    and blk :: "'s \<Rightarrow> bytes \<Rightarrow> bytes \<times> 's" and valid :: "'s \<Rightarrow> bool"
  assumes valid_refill: "valid s \<Longrightarrow> valid (refill s)"
    and valid_byte: "valid s \<Longrightarrow> n < 16 \<Longrightarrow> byte n s b = (c, s') \<Longrightarrow> valid s'"
    and whole_block: "valid s \<Longrightarrow> length inp = 16 \<Longrightarrow>
      (case mode_tail byte 0 s inp of (out, n, s) \<Rightarrow> (out, s)) = blk s inp"
begin

abbreviation step where
  "step \<equiv> byte_step byte refill"

lemma valid_step: "valid s \<Longrightarrow> n < 16 \<Longrightarrow> step (s, n) b = (c, s', n') \<Longrightarrow> valid s' \<and> n' < 16"
proof -
  assume s: "valid s" "n < 16" and st: "step (s, n) b = (c, s', n')"
  obtain c1 s1 where b: "byte n (if n = 0 then refill s else s) b = (c1, s1)"
    by (cases "byte n (if n = 0 then refill s else s) b")
  have "valid (if n = 0 then refill s else s)" using s(1) valid_refill by simp
  from valid_byte [OF this s(2) b] have "valid s1" .
  with st b show ?thesis by (auto simp: byte_step_def)
qed

lemma valid_run: "valid s \<Longrightarrow> n < 16 \<Longrightarrow> run_bytes step (s, n) inp = (out, s', n') \<Longrightarrow> valid s' \<and> n' < 16"
proof (induction inp arbitrary: s n out s' n')
  case (Cons b inp)
  obtain c s1 n1 where st: "step (s, n) b = (c, s1, n1)" by (metis prod_cases3)
  obtain out1 s2 n2 where r: "run_bytes step (s1, n1) inp = (out1, s2, n2)" by (metis prod_cases3)
  from valid_step [OF Cons.prems(1,2) st] Cons.IH [OF _ _ r] Cons.prems(3) st r show ?case by auto
qed simp

lemma mode_head_run:
  "n < 16 \<Longrightarrow> mode_head byte n s inp = (out, n', s', rest) \<Longrightarrow>
   n' < 16 \<and> (n' = 0 \<or> rest = []) \<and>
   (\<exists>used. inp = used @ rest \<and> run_bytes step (s, n) used = (out, s', n'))"
proof (induction inp arbitrary: n s out n' s' rest)
  case (Cons b inp)
  show ?case
  proof (cases "n = 0")
    case True
    with Cons.prems show ?thesis by (auto intro: exI [of _ "[]"])
  next
    case False
    obtain c s1 where b: "byte n s b = (c, s1)" by (cases "byte n s b")
    obtain o1 n1 s2 r1 where h: "mode_head byte ((n + 1) mod 16) s1 inp = (o1, n1, s2, r1)" by (metis prod_cases4)
    have eq: "out = c # o1" "n' = n1" "s' = s2" "rest = r1" using Cons.prems(2) False b h by auto
    from Cons.IH [OF _ h] obtain used where u: "n1 < 16" "n1 = 0 \<or> r1 = []" "inp = used @ r1"
      "run_bytes step (s1, (n + 1) mod 16) used = (o1, s2, n1)" by auto
    have "run_bytes step (s, n) (b # used) = (c # o1, s2, n1)"
      using False b u(4) by (simp add: byte_step_def)
    with u show ?thesis unfolding eq by (intro conjI exI [of _ "b # used"]) simp_all
  qed
qed simp

text \<open>From index \<open>n\<close> on, without a new block, the tail loop is the reference.\<close>

lemma mode_tail_run:
  "0 < n \<Longrightarrow> n < 16 \<Longrightarrow> n + length inp \<le> 16 \<Longrightarrow>
   (case run_bytes step (s, n) inp of (out, s', n') \<Rightarrow>
      mode_tail byte n s inp = (out, n + length inp, s') \<and> n' = (n + length inp) mod 16)"
proof (induction inp arbitrary: n s)
  case (Cons b inp)
  obtain c s1 where b: "byte n s b = (c, s1)" by (cases "byte n s b")
  have n: "n < 16" "Suc n + length inp \<le> 16" using Cons.prems by simp_all
  show ?case
  proof (cases inp)
    case Nil
    then show ?thesis using Cons.prems b by (simp add: byte_step_def)
  next
    case (Cons b2 inp2)
    then have "Suc n < 16" using n(2) by simp
    then show ?thesis
      using Cons.prems b Cons.IH [of "Suc n" s1] n by (auto simp: byte_step_def split: prod.splits)
  qed
qed simp

lemma mode_tail_run0:
  assumes "inp \<noteq> []" and "length inp \<le> 16"
  shows "case run_bytes step (s, 0) inp of (out, s', n') \<Rightarrow>
    mode_tail byte 0 (refill s) inp = (out, length inp, s') \<and> n' = length inp mod 16"
proof -
  obtain b rest where inp: "inp = b # rest" using assms(1) by (cases inp) auto
  obtain c s1 where b: "byte 0 (refill s) b = (c, s1)" by (cases "byte 0 (refill s) b")
  show ?thesis
    using mode_tail_run [of 1 rest s1] assms(2) inp b by (auto simp: byte_step_def split: prod.splits)
qed

lemma mode_blocks_run:
  "valid s \<Longrightarrow> mode_blocks refill blk s inp = (out, s', rest) \<Longrightarrow>
   length rest < 16 \<and> valid s' \<and> (\<exists>used. inp = used @ rest \<and> run_bytes step (s, 0) used = (out, s', 0))"
proof (induction "length inp" arbitrary: inp s out s' rest rule: less_induct)
  case (less inp)
  show ?case
  proof (cases "length inp \<ge> 16")
    case False
    with less.prems show ?thesis by (auto simp: mode_blocks.simps [of _ _ _ inp])
  next
    case True
    obtain c s1 where c: "blk (refill s) (take 16 inp) = (c, s1)" by (cases "blk (refill s) (take 16 inp)")
    obtain o2 s2 r2 where r: "mode_blocks refill blk s1 (drop 16 inp) = (o2, s2, r2)" by (metis prod_cases3)
    have eq: "out = c @ o2" "s' = s2" "rest = r2"
      using less.prems(2) True c r by (auto simp: mode_blocks.simps [of _ _ s inp])
    have ne: "take 16 inp \<noteq> []" "length (take 16 inp) \<le> 16" "length (take 16 inp) = 16" using True by auto
    obtain o1 t1 n1 where t: "run_bytes step (s, 0) (take 16 inp) = (o1, t1, n1)" by (metis prod_cases3)
    have tail: "mode_tail byte 0 (refill s) (take 16 inp) = (o1, 16, t1)" "n1 = 0"
      using mode_tail_run0 [OF ne(1,2), of s] ne(3) t by auto
    with whole_block [OF valid_refill [OF less.prems(1)] ne(3)] c have "o1 = c" "t1 = s1" by auto
    with t tail(2) have first: "run_bytes step (s, 0) (take 16 inp) = (c, s1, 0)" by simp
    have "valid s1" using valid_run [OF less.prems(1) _ first] by simp
    moreover have "length (drop 16 inp) < length inp" using True by simp
    ultimately obtain used where u: "length r2 < 16" "valid s2" "drop 16 inp = used @ r2"
      "run_bytes step (s1, 0) used = (o2, s2, 0)"
      using less.hyps [OF _ _ r] by blast
    have "inp = (take 16 inp @ used) @ r2" using u(3) by (metis append_assoc append_take_drop_id)
    moreover have "run_bytes step (s, 0) (take 16 inp @ used) = (c @ o2, s2, 0)"
      by (simp add: run_bytes_append first u(4))
    ultimately show ?thesis unfolding eq using u(1,2) by blast
  qed
qed

theorem stream_mode_run:
  assumes "valid s" and "n < 16" and "stream_mode byte refill blk inp s n = (out, s', n')"
  shows "run_bytes step (s, n) inp = (out, s', n') \<and> valid s' \<and> n' < 16"
proof -
  obtain o1 n1 s1 r1 where h: "mode_head byte n s inp = (o1, n1, s1, r1)" by (metis prod_cases4)
  obtain o2 s2 r2 where m: "mode_blocks refill blk s1 r1 = (o2, s2, r2)" by (metis prod_cases3)
  obtain used where u: "n1 < 16" "n1 = 0 \<or> r1 = []" "inp = used @ r1" "run_bytes step (s, n) used = (o1, s1, n1)"
    using mode_head_run [OF assms(2) h] by auto
  have v1: "valid s1" using valid_run [OF assms(1,2) u(4)] by simp
  obtain used2 where u2: "length r2 < 16" "valid s2" "r1 = used2 @ r2" "run_bytes step (s1, 0) used2 = (o2, s2, 0)"
    using mode_blocks_run [OF v1 m] by auto
  let ?n = "if length r1 \<ge> 16 then 0 else n1"
  show ?thesis
  proof (cases "r2 = []")
    case True
    have res: "out = o1 @ o2" "s' = s2" "n' = ?n"
      using assms(3) True by (auto simp: stream_mode_def h m Let_def)
    have "run_bytes step (s1, n1) r1 = (o2, s2, ?n)"
    proof (cases "r1 = []")
      case True
      with m show ?thesis using u2 by (simp add: mode_blocks.simps)
    next
      case False
      with u(2) have "n1 = 0" by simp
      with u2(3,4) True show ?thesis by simp
    qed
    then show ?thesis using u u2(2) by (simp add: res run_bytes_append)
  next
    case False
    then have n1: "n1 = 0" "?n = 0" using u(2) u2(3) by auto
    obtain o3 s3 n3 where t: "run_bytes step (s2, 0) r2 = (o3, s3, n3)" by (metis prod_cases3)
    have tail: "mode_tail byte 0 (refill s2) r2 = (o3, length r2, s3)" "n3 = length r2"
      using mode_tail_run0 [OF False, of s2] u2(1) t by auto
    have res: "out = o1 @ o2 @ o3" "s' = s3" "n' = length r2"
      using assms(3) False tail n1 by (auto simp: stream_mode_def h m Let_def)
    have "run_bytes step (s1, n1) r1 = (o2 @ o3, s3, length r2)"
      using u2(3,4) t tail(2) n1 by (simp add: run_bytes_append)
    then have "run_bytes step (s, n) inp = (out, s', n')" using u by (simp add: res run_bytes_append)
    with valid_run [OF assms(1,2) this] show ?thesis by simp
  qed
qed

lemma stream_mode_eq:
  "valid s \<Longrightarrow> n < 16 \<Longrightarrow> stream_mode byte refill blk inp s n = run_bytes step (s, n) inp"
  using stream_mode_run by (metis prod_cases3)

text \<open>Input that comes in pieces is treated as if it came at once.\<close>

lemma stream_mode_append:
  assumes "valid s" and "n < 16"
  shows "stream_mode byte refill blk (xs @ ys) s n =
    (case stream_mode byte refill blk xs s n of (o1, s1, n1) \<Rightarrow>
      (case stream_mode byte refill blk ys s1 n1 of (o2, s2, n2) \<Rightarrow> (o1 @ o2, s2, n2)))"
proof -
  obtain o1 s1 n1 where x: "stream_mode byte refill blk xs s n = (o1, s1, n1)" by (metis prod_cases3)
  note r = stream_mode_run [OF assms x]
  show ?thesis
    using assms r stream_mode_eq [of s n "xs @ ys"] stream_mode_eq [of s1 n1 ys]
    by (simp add: x run_bytes_append split: prod.split)
qed

end


section \<open>The modes have the shape\<close>

lemma ofb_tail: "n + length inp \<le> 16 \<Longrightarrow> length s = 16 \<Longrightarrow>
  mode_tail ofb_byte n s inp = (map2 (XOR) inp (drop n s), n + length inp, s)"
  by (induction inp arbitrary: n) (simp_all add: ofb_byte_def Cons_nth_drop_Suc [symmetric])

interpretation ofb: stream_shape ofb_byte "call_block block" ofb_block "\<lambda>s. length s = 16" for block
  by unfold_locales (auto simp: ofb_byte_def ofb_block_def ofb_tail xor16)

lemma cfb_enc_tail: "n + length inp \<le> 16 \<Longrightarrow> length s = 16 \<Longrightarrow>
  mode_tail cfb_enc_byte n s inp =
    (map2 (XOR) (drop n s) inp, n + length inp, take n s @ map2 (XOR) (drop n s) inp @ drop (n + length inp) s)"
proof (induction inp arbitrary: n s)
  case (Cons b inp)
  then have n: "n < length s" by simp
  have "take (Suc n) (s[n := s ! n XOR b]) = take n s @ [s ! n XOR b]"
    using n by (simp add: take_Suc_conv_app_nth)
  with Cons n show ?case by (simp add: cfb_enc_byte_def Let_def Cons_nth_drop_Suc [symmetric])
qed simp

interpretation cfb_enc: stream_shape cfb_enc_byte "call_block block" cfb_enc_block "\<lambda>s. length s = 16" for block
  by unfold_locales (auto simp: cfb_enc_byte_def cfb_enc_block_def cfb_enc_tail xor16 Let_def)

lemma cfb_dec_tail: "n + length inp \<le> 16 \<Longrightarrow> length s = 16 \<Longrightarrow>
  mode_tail cfb_dec_byte n s inp =
    (map2 (XOR) (drop n s) inp, n + length inp, take n s @ inp @ drop (n + length inp) s)"
proof (induction inp arbitrary: n s)
  case (Cons b inp)
  then have n: "n < length s" by simp
  have "take (Suc n) (s[n := b]) = take n s @ [b]"
    using n by (simp add: take_Suc_conv_app_nth)
  with Cons n show ?case by (simp add: cfb_dec_byte_def Cons_nth_drop_Suc [symmetric])
qed simp

interpretation cfb_dec: stream_shape cfb_dec_byte "call_block block" cfb_dec_block "\<lambda>s. length s = 16" for block
  by unfold_locales (auto simp: cfb_dec_byte_def cfb_dec_block_def cfb_dec_tail xor16)

lemma length_ctr_inc_loop [simp]: "length (ctr_inc_loop n c counter) = length counter"
  by (induction n arbitrary: c counter) (simp_all add: Let_def)

lemma ctr_tail: "n + length inp \<le> 16 \<Longrightarrow> length (snd s) = 16 \<Longrightarrow>
  mode_tail ctr_byte n s inp = (map2 (XOR) inp (drop n (snd s)), n + length inp, s)"
  by (induction inp arbitrary: n) (simp_all add: ctr_byte_def Cons_nth_drop_Suc [symmetric])

interpretation ctr: stream_shape ctr_byte "ctr_refill block" ctr_block
  "\<lambda>s. length (fst s) = 16 \<and> length (snd s) = 16" for block
  by unfold_locales
    (auto simp: ctr_byte_def ctr_block_def ctr_refill_def ctr128_inc_def ctr_tail xor16 split: prod.splits)


section \<open>Round trips\<close>

lemma run_inverse:
  assumes "\<And>s b c s'. P s \<Longrightarrow> f s b = (c, s') \<Longrightarrow> g s c = (b, s') \<and> P s'"
  shows "P s \<Longrightarrow> run_bytes f s xs = (ys, s') \<Longrightarrow> run_bytes g s ys = (xs, s') \<and> length ys = length xs"
proof (induction xs arbitrary: s ys)
  case (Cons x xs)
  obtain c s1 where c: "f s x = (c, s1)" by (cases "f s x")
  obtain zs s2 where r: "run_bytes f s1 xs = (zs, s2)" by (cases "run_bytes f s1 xs")
  have "ys = c # zs" "s' = s2" using Cons.prems(2) c r by auto
  then show ?case using Cons.IH [of s1 zs] assms [OF Cons.prems(1) c] r by simp
qed simp

lemma xor_cancel: "a XOR (a XOR b) = (b :: u8)" "(b XOR a) XOR a = (b :: u8)"
  by (simp_all add: xor.assoc flip: xor.assoc [of a a])

lemma byte_inverse:
  assumes inv: "\<And>n s b c s'. enc n s b = (c, s') \<Longrightarrow> dec n s c = (b, s')"
    and run: "run_bytes (byte_step enc r) st xs = (ys, st')"
  shows "run_bytes (byte_step dec r) st ys = (xs, st')"
proof -
  have "byte_step dec r st c = (b, st') \<and> True" if "byte_step enc r st b = (c, st')" for st b c st'
    using that inv by (auto simp: byte_step_def split: prod.splits)
  from run_inverse [of "\<lambda>_. True", OF this _ run] show ?thesis by simp
qed

lemma ofb_inverse: "ofb_byte n s b = (c, s') \<Longrightarrow> ofb_byte n s c = (b, s')"
  by (auto simp: ofb_byte_def xor_cancel)

lemma ctr_inverse: "ctr_byte n s b = (c, s') \<Longrightarrow> ctr_byte n s c = (b, s')"
  by (auto simp: ctr_byte_def xor_cancel)

lemma cfb_inverse: "cfb_enc_byte n s b = (c, s') \<Longrightarrow> cfb_dec_byte n s c = (b, s')"
  by (auto simp: cfb_enc_byte_def cfb_dec_byte_def Let_def xor_cancel)

end
