(* ===== verification/PbDecode.thy ===== *)
theory PbDecode
  imports Mem
begin

text \<open>
  \<open>nanopb/pb_decode.c\<close>: input streams and the decoding of protocol buffers down to the level of
  tags and values. The build defines \<open>PB_ENABLE_MALLOC\<close> and \<open>PB_FIELD_32BIT\<close>, neither
  \<open>PB_BUFFER_ONLY\<close> nor \<open>PB_NO_ERRMSG\<close>. A stream reads from memory (\<open>buf_read\<close>) or through a
  callback on a state of its own, which by the rules of \<open>pb_decode.h\<close> leaves \<open>bytes_left\<close> alone.
\<close>

unbundle bit_operations_syntax

section \<open>Input streams\<close>

text \<open>
  \<open>Buffer\<close> is the memory from \<open>state\<close> on. A callback is asked for a number of bytes; it fails, or
  gives the byte at each position.
\<close>

datatype 's pb_input =
    Buffer bytes
  | Callback "'s \<Rightarrow> nat \<Rightarrow> (nat \<Rightarrow> u8) option \<times> 's" 's

record 's pb_istream =
  is_input :: "'s pb_input"
  is_left :: nat
  is_err :: "string option"

text \<open>\<open>PB_RETURN_ERROR\<close>: the first message is kept.\<close>

definition set_error :: "string \<Rightarrow> 's pb_istream \<Rightarrow> 's pb_istream" where
  "set_error msg st = st\<lparr>is_err := (case is_err st of None \<Rightarrow> Some msg | Some e \<Rightarrow> Some e)\<rparr>"

definition fail :: "string \<Rightarrow> 's pb_istream \<Rightarrow> 'a option \<times> 's pb_istream" where
  "fail msg st = (None, set_error msg st)"

definition call_input :: "nat \<Rightarrow> 's pb_istream \<Rightarrow> bytes option \<times> 's pb_istream" where
  "call_input count st =
     (case is_input st of
        Buffer m \<Rightarrow> (Some (take count m), st\<lparr>is_input := Buffer (drop count m)\<rparr>)
      | Callback f s \<Rightarrow>
          (case f s count of
             (None, s) \<Rightarrow> (None, st\<lparr>is_input := Callback f s\<rparr>)
           | (Some d, s) \<Rightarrow> (Some (map d [0..<count]), st\<lparr>is_input := Callback f s\<rparr>)))"

text \<open>\<open>pb_read\<close> into a buffer; bytes to be skipped on a callback are read in pieces of 16.\<close>

definition read_into :: "nat \<Rightarrow> 's pb_istream \<Rightarrow> bytes option \<times> 's pb_istream" where
  "read_into count st =
     (if count = 0 then (Some [], st)
      else if is_left st < count then fail ''end-of-stream'' st
      else
        (case call_input count st of
           (None, st) \<Rightarrow> fail ''io error'' st
         | (Some d, st) \<Rightarrow> (Some d, st\<lparr>is_left := is_left st - count\<rparr>)))"

fun skip_loop :: "nat \<Rightarrow> 's pb_istream \<Rightarrow> bytes option \<times> 's pb_istream" where
  "skip_loop count st =
     (if count > 16 then on_ok (read_into 16 st) (\<lambda>_. skip_loop (count - 16))
      else read_into count st)"

declare skip_loop.simps [simp del]

definition from_buffer :: "'s pb_istream \<Rightarrow> bool" where
  "from_buffer st = (case is_input st of Buffer _ \<Rightarrow> True | Callback _ _ \<Rightarrow> False)"

definition pb_read :: "nat \<Rightarrow> 's pb_istream \<Rightarrow> bytes option \<times> 's pb_istream" where
  "pb_read count st = read_into count st"

definition pb_read_null :: "nat \<Rightarrow> 's pb_istream \<Rightarrow> unit option \<times> 's pb_istream" where
  "pb_read_null count st =
     on_ok (if count \<noteq> 0 \<and> \<not> from_buffer st then skip_loop count st else read_into count st)
       (\<lambda>_ st. (Some (), st))"

definition pb_readbyte :: "'s pb_istream \<Rightarrow> u8 option \<times> 's pb_istream" where
  "pb_readbyte st =
     (if is_left st = 0 then fail ''end-of-stream'' st
      else
        (case call_input 1 st of
           (None, st) \<Rightarrow> fail ''io error'' st
         | (Some d, st) \<Rightarrow> (Some (hd d), st\<lparr>is_left := is_left st - 1\<rparr>)))"

definition pb_istream_from_buffer :: "bytes \<Rightarrow> nat \<Rightarrow> 's pb_istream" where
  "pb_istream_from_buffer buf bufsize = \<lparr>is_input = Buffer buf, is_left = bufsize, is_err = None\<rparr>"

lemma set_error_left [simp]: "is_left (set_error msg st) = is_left st"
  by (simp add: set_error_def)

lemma call_input_left: "call_input n st = (r, st') \<Longrightarrow> is_left st' = is_left st"
  by (auto simp: call_input_def split: pb_input.splits option.splits prod.splits)

lemma pb_readbyte_less: "pb_readbyte st = (Some b, st') \<Longrightarrow> is_left st' < is_left st"
  by (auto simp: pb_readbyte_def fail_def dest: call_input_left split: if_splits option.splits prod.splits)

lemma read_into_left: "read_into n st = (Some d, st') \<Longrightarrow> n \<le> is_left st \<and> is_left st' = is_left st - n"
  by (auto simp: read_into_def fail_def dest: call_input_left split: if_splits option.splits prod.splits)

section \<open>Varints\<close>

text \<open>
  \<open>bitpos\<close> is a \<open>uint_fast8_t\<close>, one byte on the platforms of the application. The loop returns the
  value, \<open>bitpos\<close> and the last byte.
\<close>

function varint32_loop :: "u8 \<Rightarrow> u32 \<Rightarrow> 's pb_istream \<Rightarrow> (u32 \<times> u8 \<times> u8) option \<times> 's pb_istream" where
  "varint32_loop bitpos result st =
     on_ok (pb_readbyte st) (\<lambda>byte st.
       let sign_extension = (if bitpos < 63 then 0xff else 0x01) :: u8;
           result' = (if bitpos \<ge> 32 then result else result OR push_bit (unat bitpos) (ucast (byte AND 0x7f)))
       in if bitpos \<ge> 32 \<and> byte AND 0x7f \<noteq> 0 \<and> (drop_bit 31 result = 0 \<or> byte \<noteq> sign_extension)
          then fail ''varint overflow'' st
          else if byte AND 0x80 \<noteq> 0 then varint32_loop (bitpos + 7) result' st
          else (Some (result', bitpos + 7, byte), st))"
  by pat_completeness auto
termination
  by (relation "measure (\<lambda>(p, r, st). is_left st)") (auto dest: pb_readbyte_less)

declare varint32_loop.simps [simp del]

text \<open>The flag is \<open>*eof\<close>, which the function only ever sets.\<close>

definition pb_decode_varint32_eof :: "'s pb_istream \<Rightarrow> (u32 option \<times> bool) \<times> 's pb_istream" where
  "pb_decode_varint32_eof st =
     (case pb_readbyte st of
        (None, st) \<Rightarrow> ((None, is_left st = 0), st)
      | (Some byte, st) \<Rightarrow>
          if byte AND 0x80 = 0 then ((Some (ucast byte), False), st)
          else
            (case varint32_loop 7 (ucast (byte AND 0x7f)) st of
               (None, st) \<Rightarrow> ((None, False), st)
             | (Some (result, bitpos, byte), st) \<Rightarrow>
                 if bitpos = 35 \<and> byte AND 0x70 \<noteq> 0
                 then ((None, False), set_error ''varint overflow'' st)
                 else ((Some result, False), st)))"

definition pb_decode_varint32 :: "'s pb_istream \<Rightarrow> u32 option \<times> 's pb_istream" where
  "pb_decode_varint32 st = (case pb_decode_varint32_eof st of ((r, _), st) \<Rightarrow> (r, st))"

function varint_loop :: "nat \<Rightarrow> u64 \<Rightarrow> 's pb_istream \<Rightarrow> u64 option \<times> 's pb_istream" where
  "varint_loop bitpos result st =
     (if bitpos \<ge> 64 then fail ''varint overflow'' st
      else
        on_ok (pb_readbyte st) (\<lambda>byte st.
          let result' = result OR push_bit bitpos (ucast (byte AND 0x7f))
          in if byte AND 0x80 \<noteq> 0 then varint_loop (bitpos + 7) result' st else (Some result', st)))"
  by pat_completeness auto
termination
  by (relation "measure (\<lambda>(p, r, st). is_left st)") (auto dest: pb_readbyte_less)

declare varint_loop.simps [simp del]

definition pb_decode_varint :: "'s pb_istream \<Rightarrow> u64 option \<times> 's pb_istream" where
  "pb_decode_varint st = varint_loop 0 0 st"

function pb_skip_varint :: "'s pb_istream \<Rightarrow> unit option \<times> 's pb_istream" where
  "pb_skip_varint st =
     on_ok (pb_read 1 st) (\<lambda>d st. if hd d AND 0x80 \<noteq> 0 then pb_skip_varint st else (Some (), st))"
  by pat_completeness auto
termination
  by (relation "measure is_left") (auto simp: pb_read_def dest!: read_into_left)

declare pb_skip_varint.simps [simp del]

section \<open>Tags and fields\<close>

definition PB_WT_VARINT :: u32 where "PB_WT_VARINT = 0"
definition PB_WT_64BIT :: u32 where "PB_WT_64BIT = 1"
definition PB_WT_STRING :: u32 where "PB_WT_STRING = 2"
definition PB_WT_32BIT :: u32 where "PB_WT_32BIT = 5"

lemmas wire_types = PB_WT_VARINT_def PB_WT_64BIT_def PB_WT_STRING_def PB_WT_32BIT_def

definition pb_skip_string :: "'s pb_istream \<Rightarrow> unit option \<times> 's pb_istream" where
  "pb_skip_string st = on_ok (pb_decode_varint32 st) (\<lambda>n st. pb_read_null (unat n) st)"

text \<open>On success the wire type and the number of the field; on failure whether \<open>*eof\<close> is set.\<close>

definition pb_decode_tag :: "'s pb_istream \<Rightarrow> (bool + u32 \<times> u32) \<times> 's pb_istream" where
  "pb_decode_tag st =
     (case pb_decode_varint32_eof st of
        ((None, eof), st) \<Rightarrow> (Inl eof, st)
      | ((Some temp, _), st) \<Rightarrow>
          if temp = 0 then (Inl True, st) else (Inr (temp AND 7, drop_bit 3 temp), st))"

definition pb_skip_field :: "u32 \<Rightarrow> 's pb_istream \<Rightarrow> unit option \<times> 's pb_istream" where
  "pb_skip_field wire_type st =
     (if wire_type = PB_WT_VARINT then pb_skip_varint st
      else if wire_type = PB_WT_64BIT then pb_read_null 8 st
      else if wire_type = PB_WT_STRING then pb_skip_string st
      else if wire_type = PB_WT_32BIT then pb_read_null 4 st
      else fail ''invalid wire_type'' st)"

fun raw_varint :: "nat \<Rightarrow> 's pb_istream \<Rightarrow> bytes option \<times> 's pb_istream" where
  "raw_varint 0 st = (None, st)"
| "raw_varint (Suc n) st =
     on_ok (pb_read 1 st) (\<lambda>d st.
       if hd d AND 0x80 \<noteq> 0 then on_ok (raw_varint n st) (\<lambda>r st. (Some (hd d # r), st))
       else (Some [hd d], st))"

definition read_raw_value :: "u32 \<Rightarrow> nat \<Rightarrow> 's pb_istream \<Rightarrow> bytes option \<times> 's pb_istream" where
  "read_raw_value wire_type max_size st =
     (if wire_type = PB_WT_VARINT then raw_varint max_size st
      else if wire_type = PB_WT_64BIT then pb_read 8 st
      else if wire_type = PB_WT_32BIT then pb_read 4 st
      else fail ''invalid wire_type'' st)"

text \<open>A substream is a copy of the stream that is limited to the length read.\<close>

definition pb_make_string_substream :: "'s pb_istream \<Rightarrow> 's pb_istream option \<times> 's pb_istream" where
  "pb_make_string_substream st =
     on_ok (pb_decode_varint32 st) (\<lambda>n st.
       if is_left st < unat n then fail ''parent stream too short'' st
       else (Some (st\<lparr>is_left := unat n\<rparr>), st\<lparr>is_left := is_left st - unat n\<rparr>))"

definition pb_close_string_substream :: "'s pb_istream \<Rightarrow> 's pb_istream \<Rightarrow> unit option \<times> 's pb_istream" where
  "pb_close_string_substream st sub =
     (case (if is_left sub \<noteq> 0 then pb_read_null (is_left sub) sub else (Some (), sub)) of
        (None, _) \<Rightarrow> (None, st)
      | (Some _, sub) \<Rightarrow> (Some (), st\<lparr>is_input := is_input sub, is_err := is_err sub\<rparr>))"

section \<open>Values\<close>

definition pb_decode_bool :: "'s pb_istream \<Rightarrow> bool option \<times> 's pb_istream" where
  "pb_decode_bool st = on_ok (pb_decode_varint32 st) (\<lambda>v st. (Some (v \<noteq> 0), st))"

definition pb_decode_svarint :: "'s pb_istream \<Rightarrow> u64 option \<times> 's pb_istream" where
  "pb_decode_svarint st =
     on_ok (pb_decode_varint st) (\<lambda>v st.
       (Some (if v AND 1 \<noteq> 0 then NOT (drop_bit 1 v) else drop_bit 1 v), st))"

definition le_word :: "bytes \<Rightarrow> 'a::len word" where
  "le_word bs = fold (OR) (map2 (\<lambda>i b. push_bit (8 * i) (ucast b)) [0..<length bs] bs) 0"

definition pb_decode_fixed32 :: "'s pb_istream \<Rightarrow> u32 option \<times> 's pb_istream" where
  "pb_decode_fixed32 st = on_ok (pb_read 4 st) (\<lambda>d st. (Some (le_word d), st))"

definition pb_decode_fixed64 :: "'s pb_istream \<Rightarrow> u64 option \<times> 's pb_istream" where
  "pb_decode_fixed64 st = on_ok (pb_read 8 st) (\<lambda>d st. (Some (le_word d), st))"

end
