(* ===== verification/PbSource.thy ===== *)
theory PbSource
  imports PbDecode
begin

text \<open>
  The contract of an input stream, as a locale, and what the readers of \<open>pb_decode.c\<close> do on every
  stream that keeps it. \<open>holds i bs\<close> says that an input delivers \<open>bs\<close> next, however the reads are
  cut; memory and callbacks are both instances.
\<close>

section \<open>Inputs that deliver given bytes\<close>

fun callback_gives :: "('s \<Rightarrow> nat \<Rightarrow> (nat \<Rightarrow> u8) option \<times> 's) \<Rightarrow> 's \<Rightarrow> bytes \<Rightarrow> bool" where
  "callback_gives f s bs \<longleftrightarrow>
     (\<forall>n\<in>{1..length bs}.
        case f s n of
          (None, _) \<Rightarrow> False
        | (Some d, s') \<Rightarrow> map d [0..<n] = take n bs \<and> callback_gives f s' (drop n bs))"

declare callback_gives.simps [simp del]

definition delivers :: "'s pb_input \<Rightarrow> bytes \<Rightarrow> bool" where
  "delivers i bs =
     (case i of Buffer m \<Rightarrow> take (length bs) m = bs | Callback f s \<Rightarrow> callback_gives f s bs)"

text \<open>A stream with \<open>bs\<close> left, whose input delivers \<open>ahead\<close> after them.\<close>

definition reads :: "('s pb_input \<Rightarrow> bytes \<Rightarrow> bool) \<Rightarrow> 's pb_istream \<Rightarrow> bytes \<Rightarrow> bytes \<Rightarrow> bool" where
  "reads holds st bs ahead \<longleftrightarrow> is_left st = length bs \<and> holds (is_input st) (bs @ ahead)"

lemma reads_error [simp]: "reads holds (st\<lparr>is_err := e\<rparr>) bs ahead = reads holds st bs ahead"
  by (simp add: reads_def)

lemma reads_set_error [simp]: "reads holds (set_error msg st) bs ahead = reads holds st bs ahead"
  by (simp add: set_error_def)

lemma callback_gives_read:
  assumes "callback_gives f s bs" and "n \<noteq> 0" and "n \<le> length bs"
  obtains d s' where "f s n = (Some d, s')" and "map d [0..<n] = take n bs" and "callback_gives f s' (drop n bs)"
proof -
  have "n \<in> {1..length bs}" using assms(2,3) by simp
  with assms(1) have "case f s n of (None, _) \<Rightarrow> False
      | (Some d, s') \<Rightarrow> map d [0..<n] = take n bs \<and> callback_gives f s' (drop n bs)"
    by (subst (asm) callback_gives.simps) (rule bspec)
  then show ?thesis by (auto intro: that split: prod.splits option.splits)
qed

lemma callback_givesI:
  assumes "\<And>n. n \<noteq> 0 \<Longrightarrow> n \<le> length bs \<Longrightarrow>
    \<exists>d s'. f s n = (Some d, s') \<and> map d [0..<n] = take n bs \<and> callback_gives f s' (drop n bs)"
  shows "callback_gives f s bs"
proof (subst callback_gives.simps, rule ballI)
  fix n assume "n \<in> {1..length bs}"
  then obtain d s' where "f s n = (Some d, s')" "map d [0..<n] = take n bs" "callback_gives f s' (drop n bs)"
    using assms [of n] by auto
  then show "case f s n of (None, _) \<Rightarrow> False
      | (Some d, s') \<Rightarrow> map d [0..<n] = take n bs \<and> callback_gives f s' (drop n bs)" by simp
qed

lemma callback_gives_prefix: "callback_gives f s (a @ b) \<Longrightarrow> callback_gives f s a"
proof (induction "length a" arbitrary: a s rule: less_induct)
  case less
  show ?case
  proof (rule callback_givesI)
    fix n assume n: "n \<noteq> 0" "n \<le> length a"
    obtain d s' where d: "f s n = (Some d, s')" "map d [0..<n] = take n (a @ b)"
        "callback_gives f s' (drop n (a @ b))"
      using callback_gives_read [OF less.prems n(1)] n(2) by auto
    have "callback_gives f s' (drop n a)"
      by (rule less.hyps) (use n d(3) in simp_all)
    then show "\<exists>d s'. f s n = (Some d, s') \<and> map d [0..<n] = take n a \<and> callback_gives f s' (drop n a)"
      using d n by auto
  qed
qed

section \<open>The contract\<close>

locale pb_source =
  fixes holds :: "'s pb_input \<Rightarrow> bytes \<Rightarrow> bool"
  assumes prefix: "holds i (a @ b) \<Longrightarrow> holds i a"
    and call: "holds (is_input st) (a @ b) \<Longrightarrow> a \<noteq> [] \<Longrightarrow>
      \<exists>i. call_input (length a) st = (Some a, st\<lparr>is_input := i\<rparr>) \<and> holds i b"
begin

lemma read_into:
  assumes "reads holds st (a @ b) ahead"
  obtains st' where "read_into (length a) st = (Some a, st')" and "reads holds st' b ahead"
    and "is_err st' = is_err st"
proof (cases "a = []")
  case True
  then show ?thesis using that [of st] assms by (simp add: read_into_def)
next
  case False
  have "holds (is_input st) (a @ (b @ ahead))" using assms by (simp add: reads_def)
  from call [OF this False] obtain i where i: "call_input (length a) st = (Some a, st\<lparr>is_input := i\<rparr>)"
    "holds i (b @ ahead)" by blast
  then show ?thesis using False assms
    by (intro that [of "st\<lparr>is_input := i, is_left := length b\<rparr>"]) (auto simp: read_into_def reads_def)
qed

lemma readbyte:
  assumes "reads holds st (x # b) ahead"
  obtains st' where "pb_readbyte st = (Some x, st')" and "reads holds st' b ahead" and "is_err st' = is_err st"
proof -
  have "holds (is_input st) ([x] @ (b @ ahead))" using assms by (simp add: reads_def)
  from call [OF this] obtain i where i: "call_input 1 st = (Some [x], st\<lparr>is_input := i\<rparr>)"
    "holds i (b @ ahead)" by auto
  then show ?thesis using assms
    by (intro that [of "st\<lparr>is_input := i, is_left := length b\<rparr>"]) (auto simp: pb_readbyte_def reads_def)
qed

lemma read:
  assumes "reads holds st (a @ b) ahead"
  obtains st' where "pb_read (length a) st = (Some a, st')" and "reads holds st' b ahead"
    and "is_err st' = is_err st"
  using read_into [OF assms] unfolding pb_read_def by blast

lemma skip_loop:
  assumes "reads holds st (a @ b) ahead"
  shows "\<exists>d st'. skip_loop (length a) st = (Some d, st') \<and> reads holds st' b ahead \<and> is_err st' = is_err st"
  using assms
proof (induction "length a" arbitrary: a st rule: less_induct)
  case less
  show ?case
  proof (cases "length a > 16")
    case True
    then have a: "reads holds st (take 16 a @ (drop 16 a @ b)) ahead" "length (take 16 a) = 16"
      using less.prems by (simp_all flip: append_assoc)
    obtain st1 where st1: "read_into 16 st = (Some (take 16 a), st1)" "reads holds st1 (drop 16 a @ b) ahead"
        "is_err st1 = is_err st"
      using read_into [OF a(1)] a(2) by metis
    from less.hyps [OF _ st1(2)] True st1 show ?thesis by (subst skip_loop.simps) auto
  next
    case False
    obtain st' where st': "read_into (length a) st = (Some a, st')" "reads holds st' b ahead" "is_err st' = is_err st"
      by (rule read_into [OF less.prems])
    have "skip_loop (length a) st = (Some a, st')" using False by (subst skip_loop.simps) (simp add: st'(1))
    then show ?thesis using st'(2,3) by blast
  qed
qed

lemma read_null:
  assumes "reads holds st (a @ b) ahead"
  obtains st' where "pb_read_null (length a) st = (Some (), st')" and "reads holds st' b ahead"
    and "is_err st' = is_err st"
proof (cases "length a \<noteq> 0 \<and> \<not> from_buffer st")
  case True
  obtain d st' where "skip_loop (length a) st = (Some d, st')" "reads holds st' b ahead" "is_err st' = is_err st"
    using skip_loop [OF assms] by blast
  then show ?thesis using True by (intro that [of st']) (auto simp: pb_read_null_def)
next
  case False
  obtain st' where "read_into (length a) st = (Some a, st')" "reads holds st' b ahead" "is_err st' = is_err st"
    by (rule read_into [OF assms])
  then show ?thesis using False by (intro that [of st']) (simp_all only: pb_read_null_def if_False on_ok.simps)
qed

end

lemma end_of_stream:
  assumes "reads holds st [] ahead"
  shows "pb_readbyte st = fail ''end-of-stream'' st"
  using assms by (simp add: pb_readbyte_def reads_def)

interpretation input: pb_source delivers
proof
  fix i :: "'a pb_input" and a b assume "delivers i (a @ b)"
  then show "delivers i a"
  proof (cases i)
    case (Buffer m)
    then have "take (length a) (take (length a + length b) m) = take (length a) (a @ b)"
      using \<open>delivers i (a @ b)\<close> by (simp add: delivers_def)
    then show ?thesis by (simp add: delivers_def Buffer)
  qed (auto simp: delivers_def dest: callback_gives_prefix)
next
  fix st :: "'a pb_istream" and a b assume st: "delivers (is_input st) (a @ b)" "a \<noteq> []"
  show "\<exists>i. call_input (length a) st = (Some a, st\<lparr>is_input := i\<rparr>) \<and> delivers i b"
  proof (cases "is_input st")
    case (Buffer m)
    have m: "take (length a + length b) m = a @ b" using st(1) by (simp add: delivers_def Buffer)
    have "take (length a) (take (length a + length b) m) = a" unfolding m by simp
    moreover have "drop (length a) (take (length a + length b) m) = b" unfolding m by simp
    ultimately show ?thesis
      by (intro exI [of _ "Buffer (drop (length a) m)"]) (simp add: call_input_def Buffer delivers_def drop_take min_def)
  next
    case (Callback f s)
    have "callback_gives f s (a @ b)" using st(1) by (simp add: delivers_def Callback)
    then obtain d s' where "f s (length a) = (Some d, s')" "map d [0..<length a] = take (length a) (a @ b)"
        "callback_gives f s' (drop (length a) (a @ b))"
      by (rule callback_gives_read [where n = "length a"]) (use st(2) in simp_all)
    then show ?thesis
      by (intro exI [of _ "Callback f s'"]) (simp add: call_input_def Callback delivers_def)
  qed
qed

text \<open>Memory of at least the given size is such a stream.\<close>

lemma reads_buffer:
  "reads delivers (pb_istream_from_buffer (bs @ m) (length bs) :: 's pb_istream) bs []"
  by (simp add: reads_def pb_istream_from_buffer_def delivers_def)

end
