(* ===== verification/PbVarint.thy ===== *)
theory PbVarint
  imports PbSource
begin

text \<open>
  The varints of protocol buffers as a specification on byte lists, and the proofs that
  \<open>pb_decode_varint\<close> and \<open>pb_decode_varint32\<close> read them, on every stream that keeps its contract.
\<close>

unbundle bit_operations_syntax

section \<open>Specification\<close>

fun varint :: "nat \<Rightarrow> bytes" where
  "varint n = (if n < 128 then [of_nat n] else of_nat (128 + n mod 128) # varint (n div 128))"

declare varint.simps [simp del]

fun varint_value :: "bytes \<Rightarrow> nat" where
  "varint_value [] = 0"
| "varint_value (b # bs) = unat b mod 128 + 128 * varint_value bs"

fun is_varint :: "bytes \<Rightarrow> bool" where
  "is_varint [] \<longleftrightarrow> False"
| "is_varint [b] \<longleftrightarrow> unat b < 128"
| "is_varint (b # bs) \<longleftrightarrow> 128 \<le> unat b \<and> is_varint bs"

text \<open>The varint of at most \<open>n\<close> bytes at the head of the input, and the rest.\<close>

fun take_varint :: "nat \<Rightarrow> bytes \<Rightarrow> (bytes \<times> bytes) option" where
  "take_varint 0 bs = None"
| "take_varint (Suc n) [] = None"
| "take_varint (Suc n) (b # bs) =
     (if unat b < 128 then Some ([b], bs)
      else map_option (\<lambda>(ds, rest). (b # ds, rest)) (take_varint n bs))"

lemma is_varint_Cons: "bs \<noteq> [] \<Longrightarrow> is_varint (b # bs) \<longleftrightarrow> 128 \<le> unat b \<and> is_varint bs"
  by (cases bs) auto

lemma is_varint_nonempty: "is_varint ds \<Longrightarrow> ds \<noteq> []"
  by auto

lemma power_128: "(128 :: nat) ^ n = 2 ^ (7 * n)"
  by (simp add: power_mult)

lemma is_varint_snoc: "is_varint (ds @ [b]) \<longleftrightarrow> (\<forall>x\<in>set ds. 128 \<le> unat x) \<and> unat b < 128"
  by (induction ds) (simp_all add: is_varint_Cons)

lemma varint_value_append: "varint_value (ds @ es) = varint_value ds + 128 ^ length ds * varint_value es"
  by (induction ds) (simp_all add: algebra_simps)

lemma varint_nonempty [simp]: "varint n \<noteq> []"
  by (simp add: varint.simps)

lemma is_varint_varint [simp]: "is_varint (varint n)"
proof (induction n rule: varint.induct)
  case (1 n)
  show ?case
  proof (cases "n < 128")
    case True
    then show ?thesis by (simp add: varint.simps [of n] unat_of_nat_u8)
  next
    case False
    have "128 + n mod 128 < 256" using mod_less_divisor [of 128 n] by linarith
    then show ?thesis using False 1 by (simp add: varint.simps [of n] is_varint_Cons unat_of_nat_u8 del: of_nat_add)
  qed
qed

lemma varint_value_varint [simp]: "varint_value (varint n) = n"
proof (induction n rule: varint.induct)
  case (1 n)
  show ?case
  proof (cases "n < 128")
    case True
    then show ?thesis by (simp add: varint.simps [of n] unat_of_nat_u8)
  next
    case False
    have "128 + n mod 128 < 256" using mod_less_divisor [of 128 n] by linarith
    then show ?thesis using False 1 by (simp add: varint.simps [of n] unat_of_nat_u8 del: of_nat_add)
  qed
qed

lemma length_varint: "0 < k \<Longrightarrow> n < 128 ^ k \<Longrightarrow> length (varint n) \<le> k"
proof (induction n arbitrary: k rule: varint.induct)
  case (1 n)
  show ?case
  proof (cases "n < 128")
    case True
    then show ?thesis using 1(2) by (simp add: varint.simps [of n])
  next
    case False
    then obtain j where k: "k = Suc j" "0 < j" using 1(2,3) by (cases k; cases "k - 1") auto
    then have "n div 128 < 128 ^ j" using 1(3) by (simp add: less_mult_imp_div_less mult.commute)
    then show ?thesis using 1(1) [OF False k(2)] False k by (simp add: varint.simps [of n])
  qed
qed

lemma length_varint_u64: "length (varint (unat (v :: u64))) \<le> 10"
proof -
  have "unat v < 128 ^ 10" using unsigned_less [of v, where ?'a = nat] by simp
  then show ?thesis by (rule length_varint [rotated]) simp
qed

lemma take_varint_append: "is_varint ds \<Longrightarrow> length ds \<le> n \<Longrightarrow> take_varint n (ds @ rest) = Some (ds, rest)"
proof (induction ds arbitrary: n rule: is_varint.induct)
  case (2 b)
  then show ?case by (cases n) auto
next
  case (3 b c bs)
  then show ?case by (cases n) auto
qed simp

lemma take_varint_long:
  "\<forall>b\<in>set ds. 128 \<le> unat b \<Longrightarrow> n \<le> length ds \<Longrightarrow> take_varint n (ds @ rest) = None"
proof (induction ds arbitrary: n)
  case (Cons b ds)
  then show ?case by (cases n) auto
qed auto

lemma take_varint_Some:
  "take_varint n bs = Some (ds, rest) \<Longrightarrow> bs = ds @ rest \<and> is_varint ds \<and> length ds \<le> n"
proof (induction n bs arbitrary: ds rest rule: take_varint.induct)
  case (3 n b bs)
  show ?case
  proof (cases "unat b < 128")
    case True
    then show ?thesis using 3(2) by auto
  next
    case False
    then obtain ds' where ds': "ds = b # ds'" "take_varint n bs = Some (ds', rest)" using 3(2) by auto
    from 3(1) [OF False ds'(2)] show ?thesis using False ds'(1) by (cases ds') auto
  qed
qed simp_all

section \<open>Bits of a digit\<close>

lemma or_push_bit_eq_add:
  fixes r x :: "'a::len word"
  assumes "unat r < 2 ^ n"
  shows "r OR push_bit n x = r + push_bit n x"
proof -
  have "r AND push_bit n x = 0"
  proof (rule bit_word_eqI)
    fix i
    have "\<not> bit r i" if "n \<le> i"
    proof -
      have "take_bit n r = r" using assms by (simp add: word_unat_eq_iff unsigned_take_bit_eq take_bit_nat_eq_self)
      then show ?thesis using that by (metis bit_take_bit_iff not_less)
    qed
    then show "bit (r AND push_bit n x) i = bit (0 :: 'a word) i" by (auto simp: bit_simps)
  qed
  then show ?thesis using word_plus_and_or [of r "push_bit n x"] by simp
qed

lemma unat_less_16:
  fixes c :: u8
  assumes "c AND 0x70 = 0" and "unat c < 128"
  shows "unat c < 16"
proof -
  have "c AND 0x0f = (c AND 0x70) OR (c AND 0x0f)" using assms(1) by simp
  also have "\<dots> = c AND (0x70 OR 0x0f)" by (rule bit.conj_disj_distrib [symmetric])
  also have "\<dots> = c AND 0x7f" by simp
  also have "\<dots> = c" using assms(2) by (simp add: word_unat_eq_iff unat_and_0x7f)
  finally have "unat c = unat c mod 2 ^ 4" using unat_and_mask [of c 4] by (simp add: mask_eq_exp_minus_1)
  then show ?thesis using mod_less_divisor [of "2 ^ 4" "unat c"] by simp
qed

lemma unat_low_bits_u8: "unat (b AND 0x7f :: u8) < 128"
  by (simp add: unat_and_0x7f)

lemma digit_word:
  "8 \<le> LENGTH('a) \<Longrightarrow> push_bit n (ucast (b AND 0x7f :: u8) :: 'a::len word) = of_nat (2 ^ n * (unat b mod 128))"
  by (simp add: push_bit_eq_mult mult.commute flip: unat_and_0x7f)

lemma digit_u64: "push_bit n (ucast (b AND 0x7f :: u8) :: u64) = of_nat (2 ^ n * (unat b mod 128))"
  by (rule digit_word) simp

lemma digit_u32: "push_bit n (ucast (b AND 0x7f :: u8) :: u32) = of_nat (2 ^ n * (unat b mod 128))"
  by (rule digit_word) simp

lemma and_0x80_nonzero: "(b :: u8) AND 0x80 \<noteq> 0 \<longleftrightarrow> 128 \<le> unat b"
  by (simp add: and_0x80_iff not_less)

lemma unat_add_le: "unat (a + b :: 'a::len word) \<le> unat a + unat b"
  by (simp add: unat_word_ariths(1))

lemma unat_of_nat_le: "unat (of_nat m :: 'a::len word) \<le> m"
  by (simp add: unat_of_nat take_bit_nat_less_eq_self)

lemma unat_add_digit:
  fixes r :: "'a::len word"
  assumes "unat r < 2 ^ n"
  shows "unat (r + of_nat (2 ^ n * (unat (b :: u8) mod 128))) < 2 ^ (n + 7)"
proof -
  have "unat (r + of_nat (2 ^ n * (unat b mod 128))) \<le> unat r + 2 ^ n * (unat b mod 128)"
    using unat_add_le [of r "of_nat (2 ^ n * (unat b mod 128))"] unat_of_nat_le [of "2 ^ n * (unat b mod 128)", where ?'a = 'a]
    by linarith
  also have "\<dots> < 2 ^ n + 2 ^ n * (unat b mod 128)" using assms by simp
  also have "\<dots> = 2 ^ n * (1 + unat b mod 128)" by simp
  also have "\<dots> \<le> 2 ^ n * 128" by (intro mult_left_mono) (simp_all add: Suc_le_eq)
  finally show ?thesis by (simp add: power_add)
qed

section \<open>Decoding 64-bit varints\<close>

context pb_source
begin

lemma varint_loop:
  assumes "reads holds st bs ahead" and "unat r < 2 ^ (7 * k)" and "k \<le> 10"
  shows "(case take_varint (10 - k) bs of
      None \<Rightarrow> fst (varint_loop (7 * k) r st) = None
    | Some (ds, rest) \<Rightarrow> \<exists>st'. varint_loop (7 * k) r st = (Some (r + of_nat (2 ^ (7 * k) * varint_value ds)), st') \<and>
        reads holds st' rest ahead \<and> is_err st' = is_err st)"
  using assms
proof (induction bs arbitrary: st r k)
  case Nil
  show ?case
  proof (cases "k = 10")
    case True
    then show ?thesis by (simp add: varint_loop.simps fail_def)
  next
    case False
    then obtain j where "10 - k = Suc j" using Nil(3) by (cases "10 - k") auto
    then show ?thesis using Nil(1) by (simp add: varint_loop.simps end_of_stream fail_def)
  qed
next
  case (Cons b bs)
  show ?case
  proof (cases "k = 10")
    case True
    then show ?thesis by (simp add: varint_loop.simps fail_def)
  next
    case False
    then obtain j where j: "10 - k = Suc j" "j = 10 - Suc k" "7 * k < 64" "Suc k \<le> 10"
      using Cons.prems(3) by (cases "10 - k") auto
    obtain st1 where st1: "pb_readbyte st = (Some b, st1)" "reads holds st1 bs ahead" "is_err st1 = is_err st"
      by (rule readbyte [OF Cons.prems(1)])
    define r' where "r' = r + of_nat (2 ^ (7 * k) * (unat b mod 128))"
    have r': "r OR push_bit (7 * k) (ucast (b AND 0x7f)) = r'" "unat r' < 2 ^ (7 * Suc k)"
      using or_push_bit_eq_add [OF Cons.prems(2), of "ucast (b AND 0x7f)"] unat_add_digit [OF Cons.prems(2), of b]
      unfolding r'_def digit_u64 by (simp_all only: mult_Suc_right add.commute)
    have step: "varint_loop (7 * k) r st =
        (if b AND 0x80 \<noteq> 0 then varint_loop (7 * Suc k) r' st1 else (Some r', st1))"
    proof -
      have k: "(7 * k \<ge> 64) = False" "7 * k + 7 = 7 * Suc k" using j(3) by simp_all
      show ?thesis by (subst varint_loop.simps) (simp only: k(1) if_False st1(1) on_ok.simps Let_def r'(1) k(2))
    qed
    show ?thesis
    proof (cases "unat b < 128")
      case True
      then show ?thesis using j st1 step by (simp add: and_0x80_iff r'_def)
    next
      case False
      then have loop: "varint_loop (7 * k) r st = varint_loop (7 * Suc k) r' st1" by (simp add: step and_0x80_iff)
      have sum: "r + of_nat (2 ^ (7 * k) * (unat b mod 128 + 128 * n)) = r' + of_nat (2 ^ (7 * Suc k) * n)" for n
        by (simp add: r'_def algebra_simps power_add)
      from Cons.IH [OF st1(2) r'(2) j(4)] show ?thesis
        unfolding loop j(1) using False j(2) st1(3) by (auto simp: sum split: option.splits simp del: of_nat_mult of_nat_add)
    qed
  qed
qed

lemma pb_decode_varint:
  assumes "reads holds st bs ahead"
  shows "(case take_varint 10 bs of
      None \<Rightarrow> fst (pb_decode_varint st) = None
    | Some (ds, rest) \<Rightarrow> \<exists>st'. pb_decode_varint st = (Some (of_nat (varint_value ds)), st') \<and>
        reads holds st' rest ahead \<and> is_err st' = is_err st)"
proof -
  have "unat (0 :: u64) < 2 ^ (7 * 0)" by simp
  from varint_loop [OF assms this] show ?thesis
    by (auto simp: pb_decode_varint_def split: option.splits)
qed

end

section \<open>Digits of a varint\<close>

lemma last_varint: "unat (last (varint n)) = n div 128 ^ (length (varint n) - 1)"
proof (induction n rule: varint.induct)
  case (1 n)
  show ?case
  proof (cases "n < 128")
    case True
    then show ?thesis by (simp add: varint.simps [of n] unat_of_nat_u8)
  next
    case False
    obtain k where k: "length (varint (n div 128)) = Suc k" by (cases "varint (n div 128)") simp_all
    then show ?thesis using False 1 by (simp add: varint.simps [of n] div_mult2_eq)
  qed
qed

lemma last_varint_nonzero: "n \<noteq> 0 \<Longrightarrow> unat (last (varint n)) \<noteq> 0"
proof (induction n rule: varint.induct)
  case (1 n)
  then show ?case by (cases "n < 128") (simp_all add: varint.simps [of n] unat_of_nat_u8 div_eq_0_iff)
qed

lemma varint_split:
  "128 ^ k \<le> n \<Longrightarrow> \<exists>ds. varint n = ds @ varint (n div 128 ^ k) \<and> length ds = k \<and>
     (\<forall>b\<in>set ds. 128 \<le> unat b) \<and> varint_value ds = n mod 128 ^ k"
proof (induction k arbitrary: n)
  case 0
  then show ?case by simp
next
  case (Suc k)
  moreover have "(0 :: nat) < 128 ^ k" by simp
  ultimately have n: "128 ^ k \<le> n div 128" "128 \<le> n"
    by (simp_all add: less_eq_div_iff_mult_less_eq mult.commute, linarith)
  from Suc.IH [OF n(1)] obtain ds where ds: "varint (n div 128) = ds @ varint (n div 128 div 128 ^ k)"
    "length ds = k" "\<forall>b\<in>set ds. 128 \<le> unat b" "varint_value ds = n div 128 mod 128 ^ k" by blast
  have b: "128 + n mod 128 < 256" using mod_less_divisor [of 128 n] by linarith
  have m: "n mod 128 + 128 * (n div 128 mod 128 ^ k) = n mod 128 ^ Suc k"
    by (simp add: mod_mult2_eq)
  show ?case
    by (rule exI [of _ "of_nat (128 + n mod 128) # ds"])
      (use ds n(2) b m in \<open>simp add: varint.simps [of n] div_mult2_eq unat_of_nat_u8 del: of_nat_add\<close>)
qed

section \<open>Decoding 32-bit varints\<close>

abbreviation pos :: "nat \<Rightarrow> u8" where
  "pos k \<equiv> of_nat (7 * k)"

lemma pos_le: "k \<le> 36 \<Longrightarrow> n < 256 \<Longrightarrow> (of_nat n :: u8) \<le> pos k \<longleftrightarrow> n \<le> 7 * k"
  by (simp add: word_le_nat_alt unat_of_nat_u8 del: of_nat_mult)

lemma pos_add: "pos k + 7 = pos (Suc k)"
  by simp

lemma pos_ge_32: "k \<le> 36 \<Longrightarrow> pos k \<ge> 32 \<longleftrightarrow> 5 \<le> k"
  using pos_le [of k 32] by auto

context pb_source
begin

lemma varint32_step:
  assumes "reads holds st (b # bs) ahead" and "k \<le> 36"
  obtains st1 where "reads holds st1 bs ahead" and "is_err st1 = is_err st"
    and "varint32_loop (pos k) r st =
      (if 5 \<le> k \<and> b AND 0x7f \<noteq> 0 \<and> (drop_bit 31 r = 0 \<or> b \<noteq> (if k < 9 then 0xff else 0x01))
       then fail ''varint overflow'' st1
       else if 128 \<le> unat b
       then varint32_loop (pos (Suc k)) (if 5 \<le> k then r else r OR push_bit (7 * k) (ucast (b AND 0x7f))) st1
       else (Some (if 5 \<le> k then r else r OR push_bit (7 * k) (ucast (b AND 0x7f)), pos (Suc k), b), st1))"
proof -
  obtain st1 where st1: "pb_readbyte st = (Some b, st1)" "reads holds st1 bs ahead" "is_err st1 = is_err st"
    by (rule readbyte [OF assms(1)])
  have u: "unat (pos k) = 7 * k" using assms(2) by (simp add: unat_of_nat_u8 del: of_nat_mult)
  have s: "pos k < 63 \<longleftrightarrow> k < 9" using u by (simp add: word_less_nat_alt)
  show ?thesis
    by (rule that [OF st1(2,3)], subst varint32_loop.simps)
      (simp only: st1(1) on_ok.simps Let_def u s pos_ge_32 [OF assms(2)] pos_add and_0x80_nonzero)
qed

text \<open>The first five bytes are collected.\<close>

lemma varint32_low:
  "reads holds st (ds @ bs) ahead \<Longrightarrow> \<forall>b\<in>set ds. 128 \<le> unat b \<Longrightarrow> k + length ds \<le> 5 \<Longrightarrow>
   unat r < 2 ^ (7 * k) \<Longrightarrow>
   \<exists>st'. reads holds st' bs ahead \<and> is_err st' = is_err st \<and>
     varint32_loop (pos k) r st =
       varint32_loop (pos (k + length ds)) (r + of_nat (2 ^ (7 * k) * varint_value ds)) st' \<and>
     unat (r + of_nat (2 ^ (7 * k) * varint_value ds)) < 2 ^ (7 * (k + length ds))"
proof (induction ds arbitrary: st k r)
  case Nil
  then show ?case by auto
next
  case (Cons b ds)
  define r' where "r' = r + of_nat (2 ^ (7 * k) * (unat b mod 128))"
  have r': "r OR push_bit (7 * k) (ucast (b AND 0x7f)) = r'" "unat r' < 2 ^ (7 * Suc k)"
    using or_push_bit_eq_add [OF Cons.prems(4), of "ucast (b AND 0x7f)"] unat_add_digit [OF Cons.prems(4), of b]
    unfolding r'_def digit_u32 by (simp_all only: mult_Suc_right add.commute)
  have k: "k \<le> 36" "\<not> 5 \<le> k" "Suc k + length ds \<le> 5" "128 \<le> unat b" using Cons.prems(2,3) by auto
  have st: "reads holds st (b # (ds @ bs)) ahead" using Cons.prems(1) by simp
  obtain st1 where st1: "reads holds st1 (ds @ bs) ahead" "is_err st1 = is_err st"
      "varint32_loop (pos k) r st = varint32_loop (pos (Suc k)) r' st1"
    by (rule varint32_step [OF st k(1), of r]) (use k r'(1) in \<open>simp del: of_nat_mult\<close>)
  have sum: "r + of_nat (2 ^ (7 * k) * varint_value (b # ds)) = r' + of_nat (2 ^ (7 * Suc k) * varint_value ds)"
    by (simp add: r'_def algebra_simps power_add)
  have "\<forall>b\<in>set ds. 128 \<le> unat b" using Cons.prems(2) by simp
  from Cons.IH [OF st1(1) this k(3) r'(2)] show ?case
    unfolding sum st1(3) using st1(2) by (simp del: of_nat_mult)
qed

lemma varint32_short:
  assumes "reads holds st ((ds @ [b]) @ bs) ahead" and "is_varint (ds @ [b])" and "k + length ds \<le> 4"
    and "unat r < 2 ^ (7 * k)"
  shows "\<exists>st'. reads holds st' bs ahead \<and> is_err st' = is_err st \<and>
    varint32_loop (pos k) r st =
      (Some (r + of_nat (2 ^ (7 * k) * varint_value (ds @ [b])), pos (Suc (k + length ds)), b), st')"
proof -
  have b: "\<forall>x\<in>set ds. 128 \<le> unat x" "unat b < 128" using assms(2) by (simp_all add: is_varint_snoc)
  have r1: "reads holds st (ds @ (b # bs)) ahead" using assms(1) by simp
  define r1' where "r1' = r + of_nat (2 ^ (7 * k) * varint_value ds)"
  have k: "k + length ds \<le> 5" "k + length ds \<le> 36" "\<not> 5 \<le> k + length ds" using assms(3) by simp_all
  obtain st1 where st1: "reads holds st1 (b # bs) ahead" "is_err st1 = is_err st"
      "varint32_loop (pos k) r st = varint32_loop (pos (k + length ds)) r1' st1" "unat r1' < 2 ^ (7 * (k + length ds))"
    using varint32_low [OF r1 b(1) k(1) assms(4)] unfolding r1'_def by blast
  have sum: "r + of_nat (2 ^ (7 * k) * varint_value (ds @ [b])) =
      r1' + of_nat (2 ^ (7 * (k + length ds)) * (unat b mod 128))"
  proof -
    have "2 ^ (7 * k) * varint_value (ds @ [b]) =
        2 ^ (7 * k) * varint_value ds + 2 ^ (7 * (k + length ds)) * (unat b mod 128)"
      by (simp add: varint_value_append power_128 algebra_simps power_add)
    then show ?thesis by (simp only: r1'_def of_nat_add add.assoc)
  qed
  have d: "r1' OR push_bit (7 * (k + length ds)) (ucast (b AND 0x7f)) =
      r1' + of_nat (2 ^ (7 * (k + length ds)) * (unat b mod 128))"
    using or_push_bit_eq_add [OF st1(4), of "ucast (b AND 0x7f)"] unfolding digit_u32 .
  show ?thesis
    by (rule varint32_step [OF st1(1) k(2), of r1'])
      (use st1(2,3) k(3) b(2) d in \<open>simp add: sum del: of_nat_mult of_nat_add\<close>)
qed

text \<open>Beyond 32 bits only digits that repeat the sign are allowed.\<close>

lemma varint32_beyond:
  "reads holds st (ds @ bs) ahead \<Longrightarrow> is_varint ds \<Longrightarrow> unat (last ds) \<noteq> 0 \<Longrightarrow> 5 \<le> k \<Longrightarrow> k + length ds \<le> 9 \<Longrightarrow>
   fst (varint32_loop (pos k) r st) = None"
proof (induction ds arbitrary: st k)
  case (Cons b ds)
  have k: "k \<le> 36" "k < 9" using Cons.prems(5) by simp_all
  have st: "reads holds st (b # (ds @ bs)) ahead" using Cons.prems(1) by simp
  show ?case
  proof (cases "ds = []")
    case True
    then have b: "unat b < 128" "unat b \<noteq> 0" using Cons.prems(2,3) by auto
    then have "b AND 0x7f \<noteq> 0" by (metis mod_less unat_0 unat_and_0x7f)
    moreover have "b \<noteq> 0xff" using b(1) by auto
    ultimately obtain st1 :: "'s pb_istream" where "varint32_loop (pos k) r st = fail ''varint overflow'' st1"
      using varint32_step [OF st k(1), of r] Cons.prems(4) k(2) by (metis (no_types, lifting))
    then show ?thesis by (simp add: fail_def)
  next
    case False
    then have ds: "128 \<le> unat b" "is_varint ds" "unat (last ds) \<noteq> 0" "5 \<le> Suc k" "Suc k + length ds \<le> 9"
      using Cons.prems(2-5) by (simp_all add: is_varint_Cons)
    obtain st1 where st1: "reads holds st1 (ds @ bs) ahead"
        "varint32_loop (pos k) r st =
          (if b AND 0x7f \<noteq> 0 \<and> (drop_bit 31 r = 0 \<or> b \<noteq> 0xff) then fail ''varint overflow'' st1
           else varint32_loop (pos (Suc k)) r st1)"
      by (rule varint32_step [OF st k(1), of r])
        (use Cons.prems(4) k(2) ds(1) in \<open>simp del: of_nat_mult\<close>)
    show ?thesis unfolding st1(2) using Cons.IH [OF st1(1) ds(2-5)] by (simp add: fail_def)
  qed
qed simp

lemma varint32_sign:
  "reads holds st (ds @ 1 # bs) ahead \<Longrightarrow> set ds \<subseteq> {0x80, 0xff} \<Longrightarrow> drop_bit 31 r \<noteq> 0 \<Longrightarrow> 5 \<le> k \<Longrightarrow> k + length ds = 9 \<Longrightarrow>
   \<exists>st'. reads holds st' bs ahead \<and> is_err st' = is_err st \<and>
     varint32_loop (pos k) r st = (Some (r, pos 10, 1), st')"
proof (induction ds arbitrary: st k)
  case Nil
  then have st: "reads holds st (1 # bs) ahead" and k: "k = 9" "9 \<le> (36 :: nat)" by simp_all
  show ?case unfolding k(1)
    by (rule varint32_step [OF st k(2), of r]) (use Nil.prems(3) in auto)
next
  case (Cons b ds)
  have k: "k \<le> 36" "k < 9" "5 \<le> Suc k" "Suc k + length ds = 9" using Cons.prems(4,5) by simp_all
  have b: "b = 0x80 \<or> b = 0xff" "set ds \<subseteq> {0x80, 0xff}" using Cons.prems(2) by auto
  have st: "reads holds st (b # (ds @ 1 # bs)) ahead" using Cons.prems(1) by simp
  obtain st1 where st1: "reads holds st1 (ds @ 1 # bs) ahead" "is_err st1 = is_err st"
      "varint32_loop (pos k) r st = varint32_loop (pos (Suc k)) r st1"
    by (rule varint32_step [OF st k(1), of r])
      (use Cons.prems(3,4) k(2) b(1) in \<open>auto simp del: of_nat_mult\<close>)
  show ?case unfolding st1(3) using Cons.IH [OF st1(1) b(2) Cons.prems(3) k(3,4)] st1(2) by simp
qed

lemma varint32_head:
  assumes "reads holds st (varint v @ bs) ahead" and "128 \<le> v"
  obtains st1 where "reads holds st1 (varint (v div 128) @ bs) ahead" and "is_err st1 = is_err st"
    and "pb_decode_varint32_eof st =
      (case varint32_loop (pos 1) (of_nat (v mod 128)) st1 of
         (None, st) \<Rightarrow> ((None, False), st)
       | (Some (result, bitpos, byte), st) \<Rightarrow>
           if bitpos = 35 \<and> byte AND 0x70 \<noteq> 0 then ((None, False), set_error ''varint overflow'' st)
           else ((Some result, False), st))"
proof -
  define b :: u8 where "b = of_nat (128 + v mod 128)"
  have "128 + v mod 128 < 256" using mod_less_divisor [of 128 v] by linarith
  then have u: "unat b = 128 + v mod 128" unfolding b_def by (rule unat_of_nat_u8)
  have "reads holds st (b # (varint (v div 128) @ bs)) ahead"
    using assms by (simp add: varint.simps [of v] b_def)
  from readbyte [OF this] obtain st1 where st1: "pb_readbyte st = (Some b, st1)"
    "reads holds st1 (varint (v div 128) @ bs) ahead" "is_err st1 = is_err st" by blast
  have d: "ucast (b AND 0x7f) = (of_nat (v mod 128) :: u32)"
    using digit_u32 [of 0 b] u by (simp add: mod_add_left_eq)
  have b: "(b AND 0x80 = 0) = False" by (simp add: and_0x80_iff u)
  have p: "(7 :: u8) = pos 1" by simp
  show ?thesis
    by (rule that [OF st1(2,3)])
      (simp only: pb_decode_varint32_eof_def st1(1) option.case prod.case b if_False d p [symmetric])
qed

lemma varint32_small:
  assumes "reads holds st (varint v @ bs) ahead" and "v < 2 ^ 32"
  shows "\<exists>st'. reads holds st' bs ahead \<and> is_err st' = is_err st \<and>
    pb_decode_varint32_eof st = ((Some (of_nat v), False), st')"
proof (cases "v < 128")
  case True
  then have u: "unat (of_nat v :: u8) = v" by (simp add: unat_of_nat_u8)
  then have c: "ucast (of_nat v :: u8) = (of_nat v :: u32)" by (metis of_nat_unat)
  have "reads holds st (of_nat v # bs) ahead" using assms(1) True by (simp add: varint.simps [of v])
  from readbyte [OF this] obtain st1 where "pb_readbyte st = (Some (of_nat v), st1)" "reads holds st1 bs ahead"
    "is_err st1 = is_err st" by blast
  then show ?thesis using u c True by (simp add: pb_decode_varint32_eof_def and_0x80_iff)
next
  case False
  then have v: "128 \<le> v" by simp
  obtain st1 where st1: "reads holds st1 (varint (v div 128) @ bs) ahead" "is_err st1 = is_err st"
    "pb_decode_varint32_eof st =
      (case varint32_loop (pos 1) (of_nat (v mod 128)) st1 of
         (None, st) \<Rightarrow> ((None, False), st)
       | (Some (result, bitpos, byte), st) \<Rightarrow>
           if bitpos = 35 \<and> byte AND 0x70 \<noteq> 0 then ((None, False), set_error ''varint overflow'' st)
           else ((Some result, False), st))"
    by (rule varint32_head [OF assms(1) v])
  have n: "v div 128 < 128 ^ 4" "v div 128 < 2 ^ 25" using assms(2) by simp_all
  obtain ds b where ds: "varint (v div 128) = ds @ [b]"
    using varint_nonempty [of "v div 128"] by (cases "varint (v div 128)" rule: rev_cases) auto
  have l: "1 + length ds \<le> 4" using length_varint [OF _ n(1)] by (simp add: ds)
  have i: "is_varint (ds @ [b])" using is_varint_varint [of "v div 128"] by (simp add: ds)
  have w: "unat (of_nat (v mod 128) :: u32) < 2 ^ (7 * 1)"
    by (rule le_less_trans [OF unat_of_nat_le]) simp
  have val: "of_nat (v mod 128) + of_nat (2 ^ (7 * 1) * varint_value (ds @ [b])) = (of_nat v :: u32)"
    unfolding ds [symmetric] varint_value_varint
    by (metis of_nat_add mult_1_right mod_mult_div_eq power_128 power_one_right)
  have last: "b AND 0x70 = 0" if "length ds = 3"
  proof -
    have "unat b = v div 128 div 128 ^ 3" using last_varint [of "v div 128"] that by (simp add: ds)
    then have "unat b < 2 ^ 4" using n(2) by simp
    then have "take_bit 4 b = b" by (simp add: word_unat_eq_iff unsigned_take_bit_eq take_bit_nat_eq_self)
    then have "b AND 0x70 = b AND (mask 4 AND 0x70)" by (metis and.assoc take_bit_eq_mask)
    then show ?thesis by (simp add: mask_eq_exp_minus_1)
  qed
  have p: "pos (Suc (1 + length ds)) = 35 \<longleftrightarrow> length ds = 3"
  proof -
    have "length ds = 0 \<or> length ds = 1 \<or> length ds = 2 \<or> length ds = 3" using l by linarith
    then show ?thesis by (elim disjE) simp_all
  qed
  from varint32_short [OF st1(1) [unfolded ds] i l w] obtain st' where st':
    "reads holds st' bs ahead" "is_err st' = is_err st1"
    "varint32_loop (pos 1) (of_nat (v mod 128)) st1 = (Some (of_nat v, pos (Suc (1 + length ds)), b), st')"
    unfolding val by blast
  then show ?thesis unfolding st1(3) st'(3) option.case prod.case p using last st1(2) by auto
qed

text \<open>From five bytes on: the fifth byte ends the number, or the sign follows.\<close>

lemma varint32_collected:
  assumes "reads holds st (varint v @ bs) ahead" and "2 ^ 35 \<le> v"
  obtains st1 where "reads holds st1 (varint (v div 2 ^ 35) @ bs) ahead" and "is_err st1 = is_err st"
    and "pb_decode_varint32_eof st =
      (case varint32_loop (pos 5) (of_nat (v mod 2 ^ 35)) st1 of
         (None, st) \<Rightarrow> ((None, False), st)
       | (Some (result, bitpos, byte), st) \<Rightarrow>
           if bitpos = 35 \<and> byte AND 0x70 \<noteq> 0 then ((None, False), set_error ''varint overflow'' st)
           else ((Some result, False), st))"
proof -
  have v: "128 \<le> v" using assms(2) by simp
  from varint32_head [OF assms(1) v] obtain st0 where st0:
    "reads holds st0 (varint (v div 128) @ bs) ahead" "is_err st0 = is_err st"
    "pb_decode_varint32_eof st =
      (case varint32_loop (pos 1) (of_nat (v mod 128)) st0 of
         (None, st) \<Rightarrow> ((None, False), st)
       | (Some (result, bitpos, byte), st) \<Rightarrow>
           if bitpos = 35 \<and> byte AND 0x70 \<noteq> 0 then ((None, False), set_error ''varint overflow'' st)
           else ((Some result, False), st))" by blast
  have "128 ^ 4 \<le> v div 128" using assms(2) by simp
  from varint_split [OF this] obtain ds where ds: "varint (v div 128) = ds @ varint (v div 2 ^ 35)" "length ds = 4"
    "\<forall>b\<in>set ds. 128 \<le> unat b" "varint_value ds = v div 128 mod 128 ^ 4"
    by (auto simp: div_mult2_eq [symmetric])
  have w: "unat (of_nat (v mod 128) :: u32) < 2 ^ (7 * 1)"
    by (rule le_less_trans [OF unat_of_nat_le]) simp
  have r: "reads holds st0 (ds @ (varint (v div 2 ^ 35) @ bs)) ahead" using st0(1) by (simp add: ds(1))
  have "1 + length ds \<le> 5" by (simp add: ds(2))
  from varint32_low [OF r ds(3) this w] obtain st1 where st1: "reads holds st1 (varint (v div 2 ^ 35) @ bs) ahead"
    "is_err st1 = is_err st0"
    "varint32_loop (pos 1) (of_nat (v mod 128)) st0 =
      varint32_loop (pos (1 + length ds)) (of_nat (v mod 128) + of_nat (2 ^ (7 * 1) * varint_value ds)) st1" by blast
  have "v mod 128 + 128 * (v div 128 mod 128 ^ 4) = v mod (128 * 128 ^ 4)" by (simp only: mod_mult2_eq add.commute)
  then have "v mod 128 + 2 ^ (7 * 1) * varint_value ds = v mod 2 ^ 35" by (simp add: ds(4))
  then have s: "of_nat (v mod 128) + of_nat (2 ^ (7 * 1) * varint_value ds) = (of_nat (v mod 2 ^ 35) :: u32)"
    by (metis of_nat_add)
  have p: "1 + length ds = 5" by (simp add: ds(2))
  show ?thesis using that [OF st1(1)] st1(2) st0(2) st0(3) [unfolded st1(3) s p] by simp
qed

lemma of_nat_mod_2_35: "of_nat (v mod 2 ^ 35) = (of_nat v :: u32)"
  by (simp add: word_unat_eq_iff unat_of_nat take_bit_eq_mod mod_mod_cancel)

lemma varint32_sign_extended:
  assumes "reads holds st (varint v @ bs) ahead" and "varint (v div 2 ^ 35) = ds @ [1]" and "set ds \<subseteq> {0x80, 0xff}"
    and "length ds = 4" and "bit v 31"
  shows "\<exists>st'. reads holds st' bs ahead \<and> is_err st' = is_err st \<and>
    pb_decode_varint32_eof st = ((Some (of_nat v), False), st')"
proof -
  have "v div 2 ^ 35 \<noteq> 0"
  proof
    assume "v div 2 ^ 35 = 0"
    then show False using assms(2,4) by (auto simp: varint.simps [of 0])
  qed
  then have v: "2 ^ 35 \<le> v" by (simp add: div_eq_0_iff)
  from varint32_collected [OF assms(1) v] obtain st1 where st1:
    "reads holds st1 (varint (v div 2 ^ 35) @ bs) ahead" "is_err st1 = is_err st"
    "pb_decode_varint32_eof st =
      (case varint32_loop (pos 5) (of_nat (v mod 2 ^ 35)) st1 of
         (None, st) \<Rightarrow> ((None, False), st)
       | (Some (result, bitpos, byte), st) \<Rightarrow>
           if bitpos = 35 \<and> byte AND 0x70 \<noteq> 0 then ((None, False), set_error ''varint overflow'' st)
           else ((Some result, False), st))" by blast
  have r: "reads holds st1 (ds @ 1 # bs) ahead" using st1(1) unfolding assms(2) by simp
  have "bit (of_nat v :: u32) 31" using assms(5) by (simp add: bit_simps)
  then have "bit (drop_bit 31 (of_nat v :: u32)) 0" by (simp add: bit_drop_bit_eq)
  then have b: "drop_bit 31 (of_nat v :: u32) \<noteq> 0" by force
  have "5 + length ds = 9" by (simp add: assms(4))
  from varint32_sign [OF r assms(3) b _ this] show ?thesis
    unfolding st1(3) of_nat_mod_2_35 using st1(2) by auto
qed

lemma varint32_too_large:
  assumes "reads holds st (varint v @ bs) ahead" and "2 ^ 32 \<le> v" and "v < 2 ^ 63"
  shows "\<exists>st'. pb_decode_varint32_eof st = ((None, False), st')"
proof (cases "2 ^ 35 \<le> v")
  case True
  from varint32_collected [OF assms(1) True] obtain st1 where st1:
    "reads holds st1 (varint (v div 2 ^ 35) @ bs) ahead"
    "pb_decode_varint32_eof st =
      (case varint32_loop (pos 5) (of_nat (v mod 2 ^ 35)) st1 of
         (None, st) \<Rightarrow> ((None, False), st)
       | (Some (result, bitpos, byte), st) \<Rightarrow>
           if bitpos = 35 \<and> byte AND 0x70 \<noteq> 0 then ((None, False), set_error ''varint overflow'' st)
           else ((Some result, False), st))" by blast
  have "v div 2 ^ 35 \<noteq> 0" using True by (simp add: div_eq_0_iff)
  then have l: "unat (last (varint (v div 2 ^ 35))) \<noteq> 0" by (rule last_varint_nonzero)
  have "v div 2 ^ 35 < 128 ^ 4" using assms(3) by simp
  then have n: "5 + length (varint (v div 2 ^ 35)) \<le> 9" using length_varint [of 4 "v div 2 ^ 35"] by simp
  have "fst (varint32_loop (pos 5) (of_nat (v mod 2 ^ 35)) st1) = None"
    by (rule varint32_beyond [OF st1(1) is_varint_varint l _ n]) simp
  then show ?thesis unfolding st1(2) by (auto split: prod.split)
next
  case False
  have v: "128 \<le> v" using assms(2) by simp
  from varint32_head [OF assms(1) v] obtain st1 where st1:
    "reads holds st1 (varint (v div 128) @ bs) ahead"
    "pb_decode_varint32_eof st =
      (case varint32_loop (pos 1) (of_nat (v mod 128)) st1 of
         (None, st) \<Rightarrow> ((None, False), st)
       | (Some (result, bitpos, byte), st) \<Rightarrow>
           if bitpos = 35 \<and> byte AND 0x70 \<noteq> 0 then ((None, False), set_error ''varint overflow'' st)
           else ((Some result, False), st))" by blast
  have "128 ^ 3 \<le> v div 128" using assms(2) by simp
  from varint_split [OF this] obtain ds where ds: "varint (v div 128) = ds @ varint (v div 2 ^ 28)" "length ds = 3"
    by (auto simp: div_mult2_eq [symmetric])
  have n: "16 \<le> v div 2 ^ 28" "v div 2 ^ 28 < 128" using False assms(2) by simp_all
  then have b: "varint (v div 2 ^ 28) = [of_nat (v div 2 ^ 28)]" "16 \<le> v div 2 ^ 28" "v div 2 ^ 28 < 128"
    by (simp_all only: varint.simps [of "v div 2 ^ 28"] if_True)
  define c :: u8 where "c = of_nat (v div 2 ^ 28)"
  have u: "unat c = v div 2 ^ 28" unfolding c_def using b(3) by (simp add: unat_of_nat_u8)
  have w: "unat (of_nat (v mod 128) :: u32) < 2 ^ (7 * 1)"
    by (rule le_less_trans [OF unat_of_nat_le]) simp
  have r: "reads holds st1 ((ds @ [c]) @ bs) ahead" using st1(1) unfolding ds(1) b(1) c_def by simp
  have i: "is_varint (ds @ [c])" using is_varint_varint [of "v div 128"] unfolding ds(1) b(1) c_def .
  have "1 + length ds \<le> 4" by (simp add: ds(2))
  from varint32_short [OF r i this w] obtain r' st2 where st2:
    "varint32_loop (pos 1) (of_nat (v mod 128)) st1 = (Some (r', pos (Suc (1 + length ds)), c), st2)" by blast
  have "c AND 0x70 \<noteq> 0"
  proof
    assume "c AND 0x70 = 0"
    then have "unat c < 16" by (rule unat_less_16) (simp only: u b(3))
    then show False using u b(2) by simp
  qed
  then show ?thesis unfolding st1(2) st2 by (simp add: ds(2))
qed

end

section \<open>What the overflow test lets through\<close>

context pb_source
begin

text \<open>Behind the fifth byte a continuation byte is passed over when its digit is zero or repeats the sign.\<close>

lemma varint32_padding:
  "reads holds st (pad @ bs) ahead \<Longrightarrow> 5 \<le> k \<Longrightarrow> k + length pad \<le> 37 \<Longrightarrow>
   \<forall>i < length pad. pad ! i = 0x80 \<or> pad ! i = 0xff \<and> drop_bit 31 r \<noteq> 0 \<and> k + i < 9 \<Longrightarrow>
   \<exists>st'. reads holds st' bs ahead \<and> varint32_loop (pos k) r st = varint32_loop (pos (k + length pad)) r st'"
proof (induction pad arbitrary: st k)
  case (Cons b pad)
  have st: "reads holds st (b # (pad @ bs)) ahead" using Cons.prems(1) by simp
  have k: "k \<le> 36" using Cons.prems(3) by simp
  have b: "b = 0x80 \<or> b = 0xff \<and> drop_bit 31 r \<noteq> 0 \<and> k < 9" using Cons.prems(4) [rule_format, of 0] by simp
  obtain st1 where st1: "reads holds st1 (pad @ bs) ahead" "varint32_loop (pos k) r st = varint32_loop (pos (Suc k)) r st1"
    by (rule varint32_step [OF st k, of r]) (use b Cons.prems(2) in auto)
  have "\<forall>i < length pad. pad ! i = 0x80 \<or> pad ! i = 0xff \<and> drop_bit 31 r \<noteq> 0 \<and> Suc k + i < 9"
    using Cons.prems(4) by (metis Suc_less_eq add_Suc_shift length_Cons nth_Cons_Suc)
  with Cons.IH [OF st1(1), of "Suc k"] Cons.prems(2,3) st1(2) show ?case by simp
qed auto

text \<open>Five continuation bytes, whatever their value, and what follows them.\<close>

lemma varint32_first_five:
  assumes "reads holds st (ds @ bs) ahead" "length ds = 5" "\<forall>b\<in>set ds. 128 \<le> unat b" "length bs \<noteq> 0"
  obtains st' where "reads holds st' bs ahead"
    and "pb_decode_varint32_eof st =
      (case varint32_loop (pos 5) (of_nat (varint_value ds)) st' of
         (None, st) \<Rightarrow> ((None, False), st)
       | (Some (result, bitpos, byte), st) \<Rightarrow>
           if bitpos = 35 \<and> byte AND 0x70 \<noteq> 0 then ((None, False), set_error ''varint overflow'' st)
           else ((Some result, False), st))"
proof -
  obtain d es where d: "ds = d # es" "length es = 4" using assms(2) by (cases ds) auto
  have d8: "128 \<le> unat d" "\<forall>b\<in>set es. 128 \<le> unat b" using assms(3) d by simp_all
  have st: "reads holds st (d # (es @ bs)) ahead" using assms(1) d by simp
  from readbyte [OF st] obtain st1 where st1: "pb_readbyte st = (Some d, st1)" "reads holds st1 (es @ bs) ahead" by blast
  have dg: "ucast (d AND 0x7f) = (of_nat (unat d mod 128) :: u32)" by (rule digit_u32 [of 0 d, simplified])
  have w: "unat (of_nat (unat d mod 128) :: u32) < 2 ^ (7 * 1)"
    by (rule le_less_trans [OF unat_of_nat_le]) simp
  have k: "1 + length es \<le> 5" "1 + length es = 5" using d(2) by simp_all
  obtain st2 where st2: "reads holds st2 bs ahead"
    "varint32_loop (pos 1) (of_nat (unat d mod 128)) st1 =
       varint32_loop (pos 5) (of_nat (unat d mod 128) + of_nat (2 ^ (7 * 1) * varint_value es)) st2"
    using varint32_low [OF st1(2) d8(2) k(1) w] unfolding k(2) by blast
  have val: "of_nat (unat d mod 128) + of_nat (2 ^ (7 * 1) * varint_value es) = (of_nat (varint_value ds) :: u32)"
    by (simp add: d(1))
  have b: "(d AND 0x80 = 0) = False" using d8(1) by (simp add: and_0x80_iff)
  have p: "(7 :: u8) = pos 1" by simp
  show ?thesis
    by (rule that [OF st2(1)])
      (simp only: pb_decode_varint32_eof_def st1(1) option.case prod.case b if_False dg p st2(2) val)
qed

lemma varint32_truncates:
  assumes "reads holds st (ds @ pad @ [e]) ahead" "length ds = 5" "\<forall>b\<in>set ds. 128 \<le> unat b" "length pad \<le> 4"
    and "set pad \<subseteq> {0x80} \<or> set pad \<subseteq> {0x80, 0xff} \<and> odd (varint_value ds div 2 ^ 31)"
    and "e = 0 \<or> e = 1 \<and> length pad = 4 \<and> odd (varint_value ds div 2 ^ 31)"
  shows "fst (pb_decode_varint32 st) = Some (of_nat (varint_value ds))"
proof -
  define r :: u32 where "r = of_nat (varint_value ds)"
  have sg: "odd (varint_value ds div 2 ^ 31) \<Longrightarrow> drop_bit 31 r \<noteq> 0"
  proof
    assume o: "odd (varint_value ds div 2 ^ 31)" and z: "drop_bit 31 r = 0"
    have "unat r = varint_value ds mod 2 ^ 32" by (simp add: r_def unat_of_nat take_bit_eq_mod)
    then have "unat (drop_bit 31 r) = varint_value ds mod 2 ^ 32 div 2 ^ 31"
      by (simp only: unat_drop_bit_eq) (rule drop_bit_eq_div)
    then have "varint_value ds mod 2 ^ 32 div 2 ^ 31 = 0" using z by simp
    then have "\<not> bit (take_bit 32 (varint_value ds)) 31"
      unfolding bit_iff_odd take_bit_eq_mod by (simp only: even_zero simp_thms)
    moreover have "bit (take_bit 32 (varint_value ds)) 31 = bit (varint_value ds) 31" by (simp add: bit_take_bit_iff)
    ultimately have "\<not> bit (varint_value ds) 31" by simp
    with o show False unfolding bit_iff_odd by blast
  qed
  obtain st1 where st1: "reads holds st1 (pad @ [e]) ahead" and eof: "pb_decode_varint32_eof st =
      (case varint32_loop (pos 5) r st1 of
         (None, st) \<Rightarrow> ((None, False), st)
       | (Some (result, bitpos, byte), st) \<Rightarrow>
           if bitpos = 35 \<and> byte AND 0x70 \<noteq> 0 then ((None, False), set_error ''varint overflow'' st)
           else ((Some result, False), st))"
    by (rule varint32_first_five [of st ds "pad @ [e]" ahead]) (use assms(1-3) r_def in simp_all)
  have "\<forall>i < length pad. pad ! i = 0x80 \<or> pad ! i = 0xff \<and> drop_bit 31 r \<noteq> 0 \<and> 5 + i < 9"
    using assms(4,5) sg nth_mem [of _ pad] by fastforce
  then obtain st2 where st2: "reads holds st2 [e] ahead" "varint32_loop (pos 5) r st1 = varint32_loop (pos (5 + length pad)) r st2"
    using varint32_padding [OF st1, of 5 r] assms(4) by auto
  have k: "5 + length pad \<le> 36" using assms(4) by simp
  have "\<exists>st3. varint32_loop (pos (5 + length pad)) r st2 = (Some (r, pos (Suc (5 + length pad)), e), st3)"
    by (rule varint32_step [OF st2(1) k, of r]) (use assms(6) sg in auto)
  then obtain st3 where st3: "varint32_loop (pos 5) r st1 = (Some (r, pos (Suc (5 + length pad)), e), st3)"
    using st2(2) by auto
  have "e AND 0x70 = 0" using assms(6) by auto
  then show ?thesis using eof st3 by (simp add: pb_decode_varint32_def r_def)
qed

text \<open>Behind 37 bytes \<open>bitpos\<close> is 3 again.\<close>

lemma varint32_wraps:
  assumes "reads holds st (ds @ replicate 32 0x80 @ [b]) ahead" "length ds = 5" "\<forall>b\<in>set ds. 128 \<le> unat b" "unat b < 128"
  shows "fst (pb_decode_varint32 st) = Some (of_nat (varint_value ds) OR push_bit 3 (ucast b))"
proof -
  define r :: u32 where "r = of_nat (varint_value ds)"
  obtain st1 where st1: "reads holds st1 (replicate 32 0x80 @ [b]) ahead" and eof: "pb_decode_varint32_eof st =
      (case varint32_loop (pos 5) r st1 of
         (None, st) \<Rightarrow> ((None, False), st)
       | (Some (result, bitpos, byte), st) \<Rightarrow>
           if bitpos = 35 \<and> byte AND 0x70 \<noteq> 0 then ((None, False), set_error ''varint overflow'' st)
           else ((Some result, False), st))"
    by (rule varint32_first_five [of st ds "replicate 32 0x80 @ [b]" ahead]) (use assms(1-3) r_def in simp_all)
  obtain st2 where st2: "reads holds st2 [b] ahead" "varint32_loop (pos 5) r st1 = varint32_loop (pos 37) r st2"
    using varint32_padding [OF st1, of 5 r] by auto
  from readbyte [OF st2(1)] obtain st3 where st3: "pb_readbyte st2 = (Some b, st3)" by blast
  have p: "pos 37 = 3" "unat (3 :: u8) = 3" "\<not> (3 :: u8) \<ge> 32" by simp_all
  have d: "b AND 0x7f = b" using assms(4) by (simp add: word_unat_eq_iff unat_and_0x7f)
  have d0: "b AND 0x80 = 0" using assms(4) by (simp add: and_0x80_iff)
  have "varint32_loop (pos 37) r st2 = (Some (r OR push_bit 3 (ucast b), 10, b), st3)"
    unfolding p by (subst varint32_loop.simps) (simp add: st3 d d0)
  then show ?thesis using eof st2(2) by (simp add: pb_decode_varint32_def r_def)
qed

end

end
