(* ===== verification/PbFields.thy ===== *)
theory PbFields
  imports PbVarint
begin

text \<open>
  Tags, payloads, substreams and fixed-size values of protocol buffers on every stream that keeps the
  contract of \<open>PbSource\<close>.
\<close>

unbundle bit_operations_syntax

section \<open>Specification\<close>

text \<open>The bytes of a field after its tag, for each wire type.\<close>

definition payload :: "u32 \<Rightarrow> bytes \<Rightarrow> bool" where
  "payload wt d \<longleftrightarrow>
     (if wt = PB_WT_VARINT then is_varint d
      else if wt = PB_WT_64BIT then length d = 8
      else if wt = PB_WT_STRING then \<exists>body. d = varint (length body) @ body \<and> length body < 2 ^ 32
      else if wt = PB_WT_32BIT then length d = 4
      else False)"

definition tag_bytes :: "u32 \<Rightarrow> u32 \<Rightarrow> bytes" where
  "tag_bytes wt field = varint (8 * unat field + unat wt)"

section \<open>Little-endian words\<close>

lemma bit_fold_or: "bit (fold (OR) ws v) i \<longleftrightarrow> bit (v :: 'a::len word) i \<or> (\<exists>w\<in>set ws. bit w i)"
  by (induction ws arbitrary: v) (auto simp: bit_simps)

lemma bit_le_word:
  assumes "length bs * 8 \<le> LENGTH('a)"
  shows "bit (le_word bs :: 'a::len word) i \<longleftrightarrow> i div 8 < length bs \<and> bit (bs ! (i div 8)) (i mod 8)"
proof -
  have "bit (le_word bs :: 'a word) i \<longleftrightarrow>
      (\<exists>j<length bs. bit (push_bit (8 * j) (ucast (bs ! j)) :: 'a word) i)"
  proof -
    have "set (zip [0..<length bs] bs) = (\<lambda>j. (j, bs ! j)) ` {..<length bs}"
      by (auto simp: set_zip image_iff)
        (metis add_0 nth_upt)
    then show ?thesis by (auto simp: le_word_def bit_fold_or)
  qed
  also have "\<dots> \<longleftrightarrow> (\<exists>j<length bs. 8 * j \<le> i \<and> i < LENGTH('a) \<and> bit (bs ! j) (i - 8 * j))"
    by (auto simp: bit_simps)
  also have "\<dots> \<longleftrightarrow> i div 8 < length bs \<and> bit (bs ! (i div 8)) (i mod 8)"
  proof (intro iffI)
    assume "\<exists>j<length bs. 8 * j \<le> i \<and> i < LENGTH('a) \<and> bit (bs ! j) (i - 8 * j)"
    then obtain j where j: "j < length bs" "8 * j \<le> i" "bit (bs ! j) (i - 8 * j)" by blast
    define r where "r = i - 8 * j"
    have "r < 8" using bit_imp_le_length [OF j(3)] by (simp add: r_def)
    moreover have "i = 8 * j + r" using j(2) by (simp add: r_def)
    ultimately have "i div 8 = j" "i mod 8 = i - 8 * j" by simp_all
    then show "i div 8 < length bs \<and> bit (bs ! (i div 8)) (i mod 8)" using j by simp
  next
    assume i: "i div 8 < length bs \<and> bit (bs ! (i div 8)) (i mod 8)"
    have "i < LENGTH('a)" using i assms by linarith
    then show "\<exists>j<length bs. 8 * j \<le> i \<and> i < LENGTH('a) \<and> bit (bs ! j) (i - 8 * j)"
      using i by (intro exI [of _ "i div 8"]) (simp add: minus_mult_div_eq_mod)
  qed
  finally show ?thesis .
qed

lemma le_word_digits:
  assumes "n * 8 = LENGTH('a)"
  shows "le_word (map (\<lambda>i. ucast (drop_bit (8 * i) v AND 0xff) :: u8) [0..<n]) = (v :: 'a::len word)"
proof (rule bit_word_eqI)
  fix i assume "i < LENGTH('a)"
  then have i: "i div 8 < n" using assms by linarith
  have "bit (0xff :: 'a word) k" if "k < 8" "k < LENGTH('a)" for k
  proof -
    have "(0xff :: 'a word) = mask 8" by (simp add: mask_eq_exp_minus_1)
    then show ?thesis by (simp only: bit_mask_iff) (use that in simp)
  qed
  then show "bit (le_word (map (\<lambda>i. ucast (drop_bit (8 * i) v AND 0xff) :: u8) [0..<n]) :: 'a word) i = bit v i"
    using i assms \<open>i < LENGTH('a)\<close> by (subst bit_le_word) (auto simp: bit_simps)
qed

section \<open>Reading\<close>

context pb_source
begin

lemma pb_skip_varint:
  "reads holds st (ds @ bs) ahead \<Longrightarrow> is_varint ds \<Longrightarrow>
   \<exists>st'. pb_skip_varint st = (Some (), st') \<and> reads holds st' bs ahead \<and> is_err st' = is_err st"
proof (induction ds arbitrary: st)
  case (Cons b ds)
  have "reads holds st ([b] @ (ds @ bs)) ahead" using Cons.prems(1) by simp
  then obtain st1 where st1: "pb_read (length [b]) st = (Some [b], st1)" "reads holds st1 (ds @ bs) ahead"
      "is_err st1 = is_err st"
    by (rule read)
  have step: "pb_skip_varint st = (if b AND 0x80 \<noteq> 0 then pb_skip_varint st1 else (Some (), st1))"
    using st1(1) by (subst pb_skip_varint.simps) simp
  show ?case
  proof (cases "ds = []")
    case True
    then show ?thesis using Cons.prems(2) st1 by (simp add: step and_0x80_iff)
  next
    case False
    then show ?thesis using Cons.prems(2) Cons.IH [OF st1(2)] st1(3) by (simp add: step is_varint_Cons and_0x80_nonzero)
  qed
qed simp

lemma pb_decode_varint32:
  assumes "reads holds st (varint v @ bs) ahead" and "v < 2 ^ 32"
  obtains st' where "pb_decode_varint32 st = (Some (of_nat v), st')" and "reads holds st' bs ahead"
    and "is_err st' = is_err st"
  using varint32_small [OF assms] that by (auto simp: pb_decode_varint32_def)

lemma unat_of_nat_u32: "n < 2 ^ 32 \<Longrightarrow> unat (of_nat n :: u32) = n"
  by (simp add: unat_of_nat take_bit_nat_eq_self)

lemma pb_skip_field:
  assumes "payload wt d" and "reads holds st (d @ bs) ahead"
  shows "\<exists>st'. pb_skip_field wt st = (Some (), st') \<and> reads holds st' bs ahead \<and> is_err st' = is_err st"
proof (cases "wt = PB_WT_VARINT \<or> wt \<notin> {PB_WT_64BIT, PB_WT_STRING, PB_WT_32BIT}")
  case True
  then have "wt = PB_WT_VARINT" "is_varint d" using assms(1) by (auto simp: payload_def split: if_splits)
  then show ?thesis using pb_skip_varint [OF assms(2)] by (simp add: pb_skip_field_def)
next
  case False
  then consider (fixed) "wt = PB_WT_64BIT \<and> length d = 8 \<or> wt = PB_WT_32BIT \<and> length d = 4"
    | (string) body where "wt = PB_WT_STRING" "d = varint (length body) @ body" "length body < 2 ^ 32"
    using assms(1) by (auto simp: payload_def split: if_splits)
  then show ?thesis
  proof cases
    case fixed
    obtain st1 where "pb_read_null (length d) st = (Some (), st1)" "reads holds st1 bs ahead" "is_err st1 = is_err st"
      by (rule read_null [OF assms(2)])
    then show ?thesis using fixed by (auto simp: pb_skip_field_def wire_types)
  next
    case string
    have "reads holds st (varint (length body) @ (body @ bs)) ahead" using assms(2) by (simp add: string(2))
    then obtain st1 where st1: "pb_decode_varint32 st = (Some (of_nat (length body)), st1)"
        "reads holds st1 (body @ bs) ahead" "is_err st1 = is_err st"
      by (rule pb_decode_varint32 [OF _ string(3)])
    obtain st2 where st2: "pb_read_null (length body) st1 = (Some (), st2)" "reads holds st2 bs ahead"
        "is_err st2 = is_err st1"
      by (rule read_null [OF st1(2)])
    have "pb_skip_field wt st = (Some (), st2)"
      using string(1) by (simp add: pb_skip_field_def wire_types pb_skip_string_def st1(1) st2(1) unat_of_nat_u32 [OF string(3)])
    then show ?thesis using st2(2,3) st1(3) by simp
  qed
qed

lemma pb_decode_tag:
  assumes "reads holds st (tag_bytes wt field @ bs) ahead" and "unat field < 2 ^ 29" and "unat wt < 8"
    and "field \<noteq> 0 \<or> wt \<noteq> 0"
  obtains st' where "pb_decode_tag st = (Inr (wt, field), st')" and "reads holds st' bs ahead"
    and "is_err st' = is_err st"
proof -
  define v where "v = 8 * unat field + unat wt"
  have v: "v < 2 ^ 32" using assms(2,3) by (simp add: v_def)
  from varint32_small [OF assms(1) [unfolded tag_bytes_def] v [unfolded v_def]] obtain st' where st':
    "reads holds st' bs ahead" "is_err st' = is_err st" "pb_decode_varint32_eof st = ((Some (of_nat v), False), st')"
    unfolding v_def [symmetric] by blast
  define t :: u32 where "t = of_nat v"
  have t: "unat t = v" unfolding t_def by (rule unat_of_nat_u32 [OF v])
  have "v \<noteq> 0" using assms(4) by (auto simp: v_def unat_eq_0)
  then have "t \<noteq> 0" using t by auto
  moreover have "drop_bit 3 t = field" using assms(3) by (simp add: word_unat_eq_iff unat_drop_bit t v_def)
  moreover have "t AND 7 = wt"
    using assms(3) unat_and_mask [of t 3] by (simp add: word_unat_eq_iff mask_eq_exp_minus_1 t v_def)
  ultimately show ?thesis
    using st' by (intro that [of st']) (simp_all add: pb_decode_tag_def flip: t_def)
qed

lemma pb_decode_tag_end:
  assumes "reads holds st [] ahead"
  shows "\<exists>st'. pb_decode_tag st = (Inl True, st')"
  using end_of_stream [OF assms] assms
  by (simp add: pb_decode_tag_def pb_decode_varint32_eof_def fail_def reads_def)

text \<open>A substream covers the body exactly; closing it, read to any point, goes on behind the body.\<close>

lemma pb_make_string_substream:
  assumes "reads holds st (varint (length body) @ body @ bs) ahead" and "length body < 2 ^ 32"
  obtains sub st' where "pb_make_string_substream st = (Some sub, st')" and "reads holds sub body (bs @ ahead)"
    and "\<And>sub' r. reads holds sub' r (bs @ ahead) \<Longrightarrow>
      \<exists>st''. pb_close_string_substream st' sub' = (Some (), st'') \<and> reads holds st'' bs ahead"
proof -
  obtain st1 where st1: "pb_decode_varint32 st = (Some (of_nat (length body)), st1)"
      "reads holds st1 (body @ bs) ahead" "is_err st1 = is_err st"
    by (rule pb_decode_varint32 [OF assms])
  let ?sub = "st1\<lparr>is_left := length body\<rparr>" and ?st = "st1\<lparr>is_left := length bs\<rparr>"
  have "pb_make_string_substream st = (Some ?sub, ?st)"
    using st1(2) by (simp add: pb_make_string_substream_def st1(1) unat_of_nat_u32 [OF assms(2)] reads_def)
  moreover have "reads holds ?sub body (bs @ ahead)" using st1(2) by (simp add: reads_def)
  moreover have "\<exists>st''. pb_close_string_substream ?st sub' = (Some (), st'') \<and> reads holds st'' bs ahead"
    if sub': "reads holds sub' r (bs @ ahead)" for sub' r
  proof -
    have "reads holds sub' (r @ []) (bs @ ahead)" using sub' by simp
    then obtain s where s: "pb_read_null (length r) sub' = (Some (), s)" "reads holds s [] (bs @ ahead)"
      by (rule read_null)
    have l: "is_left sub' = length r" using sub' by (simp add: reads_def)
    show ?thesis using s sub' by (auto simp: pb_close_string_substream_def l reads_def)
  qed
  ultimately show ?thesis by (rule that)
qed

lemma pb_decode_fixed32:
  assumes "reads holds st (d @ bs) ahead" and "length d = 4"
  shows "\<exists>st'. pb_decode_fixed32 st = (Some (le_word d), st') \<and> reads holds st' bs ahead"
  using read [OF assms(1)] assms(2) unfolding pb_decode_fixed32_def by (metis on_ok.simps(2))

lemma pb_decode_fixed64:
  assumes "reads holds st (d @ bs) ahead" and "length d = 8"
  shows "\<exists>st'. pb_decode_fixed64 st = (Some (le_word d), st') \<and> reads holds st' bs ahead"
  using read [OF assms(1)] assms(2) unfolding pb_decode_fixed64_def by (metis on_ok.simps(2))

end

end
