(* ===== verification/PbEncode.thy ===== *)
theory PbEncode
  imports Mem
begin

text \<open>
  \<open>nanopb/pb_encode.c\<close>: output streams and the encoding of protocol buffers down to the level of
  tags and values, for the same build options as the decoder.
\<close>

unbundle bit_operations_syntax

section \<open>Output streams\<close>

text \<open>
  The callback is \<open>NULL\<close> for a stream that only counts; \<open>buf_write\<close> writes to a memory block at
  the position that \<open>state\<close> points to.
\<close>

datatype 's pb_output =
    Sizing
  | To_buffer bytes nat
  | Sink "'s \<Rightarrow> bytes \<Rightarrow> bool \<times> 's" 's

record 's pb_ostream =
  os_output :: "'s pb_output"
  os_max :: nat
  os_written :: nat
  os_err :: "string option"

definition os_fail :: "string \<Rightarrow> 's pb_ostream \<Rightarrow> 'a option \<times> 's pb_ostream" where
  "os_fail msg st = (None, st\<lparr>os_err := (case os_err st of None \<Rightarrow> Some msg | Some e \<Rightarrow> Some e)\<rparr>)"

definition PB_OSTREAM_SIZING :: "'s pb_ostream" where
  "PB_OSTREAM_SIZING = \<lparr>os_output = Sizing, os_max = 0, os_written = 0, os_err = None\<rparr>"

definition pb_ostream_from_buffer :: "bytes \<Rightarrow> nat \<Rightarrow> 's pb_ostream" where
  "pb_ostream_from_buffer buf bufsize =
     \<lparr>os_output = To_buffer buf 0, os_max = bufsize, os_written = 0, os_err = None\<rparr>"

definition buf_write :: "bytes \<Rightarrow> bytes \<Rightarrow> nat \<Rightarrow> 's pb_output" where
  "buf_write d block pos = To_buffer (blit block pos d) (pos + length d)"

definition call_output :: "bytes \<Rightarrow> 's pb_output \<Rightarrow> bool \<times> 's pb_output" where
  "call_output d out =
     (case out of
        Sizing \<Rightarrow> (True, Sizing)
      | To_buffer block pos \<Rightarrow> (True, buf_write d block pos)
      | Sink f s \<Rightarrow> (case f s d of (r, s) \<Rightarrow> (r, Sink f s)))"

definition is_sizing :: "'s pb_ostream \<Rightarrow> bool" where
  "is_sizing st = (case os_output st of Sizing \<Rightarrow> True | _ \<Rightarrow> False)"

definition pb_write :: "bytes \<Rightarrow> nat \<Rightarrow> 's pb_ostream \<Rightarrow> unit option \<times> 's pb_ostream" where
  "pb_write buf count st =
     on_ok
       (if count > 0 \<and> \<not> is_sizing st then
          if size_add (os_written st) count < os_written st \<or> size_add (os_written st) count > os_max st
          then os_fail ''stream full'' st
          else
            (case call_output (take count buf) (os_output st) of
               (ok, out) \<Rightarrow>
                 if ok then (Some (), st\<lparr>os_output := out\<rparr>)
                 else os_fail ''io error'' (st\<lparr>os_output := out\<rparr>))
        else (Some (), st))
       (\<lambda>_ st. (Some (), st\<lparr>os_written := size_add (os_written st) count\<rparr>))"

section \<open>Varints, tags and strings\<close>

function varint_digits :: "u64 \<Rightarrow> bytes" where
  "varint_digits v = (if v = 0 then [] else (ucast (v AND 0x7f) OR 0x80) # varint_digits (drop_bit 7 v))"
  by pat_completeness auto
termination by (relation "measure unat") (auto simp: unat_drop_bit unat_gt_0)

declare varint_digits.simps [simp del]

definition pb_encode_varint :: "u64 \<Rightarrow> 's pb_ostream \<Rightarrow> unit option \<times> 's pb_ostream" where
  "pb_encode_varint v st =
     (if v \<le> 0x7f then pb_write [ucast v] 1 st
      else
        let d = varint_digits v; i = length d; buffer = d[i - 1 := d ! (i - 1) AND 0x7f]
        in pb_write buffer i st)"

definition pb_encode_svarint :: "u64 \<Rightarrow> 's pb_ostream \<Rightarrow> unit option \<times> 's pb_ostream" where
  "pb_encode_svarint v =
     pb_encode_varint (if v <s 0 then NOT (push_bit 1 v) else push_bit 1 v)"

definition pb_encode_fixed32 :: "u32 \<Rightarrow> 's pb_ostream \<Rightarrow> unit option \<times> 's pb_ostream" where
  "pb_encode_fixed32 v = pb_write (map (\<lambda>i. ucast (drop_bit (8 * i) v AND 0xff)) [0..<4]) 4"

definition pb_encode_fixed64 :: "u64 \<Rightarrow> 's pb_ostream \<Rightarrow> unit option \<times> 's pb_ostream" where
  "pb_encode_fixed64 v = pb_write (map (\<lambda>i. ucast (drop_bit (8 * i) v AND 0xff)) [0..<8]) 8"

definition pb_encode_tag :: "u32 \<Rightarrow> u32 \<Rightarrow> 's pb_ostream \<Rightarrow> unit option \<times> 's pb_ostream" where
  "pb_encode_tag wiretype field_number =
     pb_encode_varint (push_bit 3 (ucast field_number) OR ucast wiretype)"

definition pb_encode_string :: "bytes \<Rightarrow> nat \<Rightarrow> 's pb_ostream \<Rightarrow> unit option \<times> 's pb_ostream" where
  "pb_encode_string buffer n st =
     on_ok (pb_encode_varint (of_nat n) st) (\<lambda>_. pb_write buffer n)"

end
