(* ===== verification/PbSink.thy ===== *)
theory PbSink
  imports PbFields PbEncode "HOL-Library.Sublist"
begin

text \<open>
  The contract of an output stream, as a locale with memory and the counting stream as instances,
  and what the encoders of \<open>pb_encode.c\<close> write on it.
\<close>

unbundle bit_operations_syntax

section \<open>The contract\<close>

text \<open>
  \<open>has st bs\<close>: the stream has taken \<open>bs\<close> so far. A write is taken as long as \<open>room\<close> bytes are not
  exceeded, else it fails and the stream stays as it was.
\<close>

locale pb_sink =
  fixes has :: "'s pb_ostream \<Rightarrow> bytes \<Rightarrow> bool" and room :: nat
  assumes takes: "has st bs \<Longrightarrow> length bs + length d \<le> room \<Longrightarrow>
      \<exists>st'. pb_write d (length d) st = (Some (), st') \<and> has st' (bs @ d)"

locale bounded_sink = pb_sink +
  assumes refuses: "has st bs \<Longrightarrow> room < length bs + length d \<Longrightarrow> length d < 2 ^ 64 \<Longrightarrow>
      \<exists>st'. pb_write d (length d) st = (None, st') \<and> has st' bs"

text \<open>An encoder of \<open>d\<close> writes it where there is room; where there is none it writes a beginning of it.\<close>

definition encodes ::
  "('s pb_ostream \<Rightarrow> bytes \<Rightarrow> bool) \<Rightarrow> nat \<Rightarrow> ('s pb_ostream \<Rightarrow> unit option \<times> 's pb_ostream) \<Rightarrow> bytes \<Rightarrow> bool" where
  "encodes has room f d \<longleftrightarrow>
     (\<forall>st bs. has st bs \<longrightarrow> length bs + length d \<le> room \<longrightarrow>
        (\<exists>st'. f st = (Some (), st') \<and> has st' (bs @ d)))"

definition stops ::
  "('s pb_ostream \<Rightarrow> bytes \<Rightarrow> bool) \<Rightarrow> nat \<Rightarrow> ('s pb_ostream \<Rightarrow> unit option \<times> 's pb_ostream) \<Rightarrow> bytes \<Rightarrow> bool" where
  "stops has room f d \<longleftrightarrow>
     (\<forall>st bs. has st bs \<longrightarrow> room < length bs + length d \<longrightarrow>
        (\<exists>st' e. f st = (None, st') \<and> has st' (bs @ e) \<and> prefix e d))"

lemma encodes_ok:
  assumes "encodes has room f d" and "has st bs" and "length bs + length d \<le> room"
  obtains st' where "f st = (Some (), st')" and "has st' (bs @ d)"
  using assms by (auto simp: encodes_def)

lemma encodes_then:
  assumes "encodes has room f d" and "encodes has room g e"
  shows "encodes has room (\<lambda>st. on_ok (f st) (\<lambda>_. g)) (d @ e)"
  unfolding encodes_def
proof (intro allI impI)
  fix st bs assume st: "has st bs" "length bs + length (d @ e) \<le> room"
  obtain st1 where st1: "f st = (Some (), st1)" "has st1 (bs @ d)"
    by (rule encodes_ok [OF assms(1) st(1)]) (use st(2) in simp)
  obtain st2 where "g st1 = (Some (), st2)" "has st2 ((bs @ d) @ e)"
    by (rule encodes_ok [OF assms(2) st1(2)]) (use st(2) in simp)
  then show "\<exists>st'. on_ok (f st) (\<lambda>_. g) = (Some (), st') \<and> has st' (bs @ d @ e)" by (simp add: st1(1))
qed

lemma stops_then:
  assumes "encodes has room f d" and "stops has room f d" and "stops has room g e"
  shows "stops has room (\<lambda>st. on_ok (f st) (\<lambda>_. g)) (d @ e)"
  unfolding stops_def
proof (intro allI impI)
  fix st bs assume st: "has st bs" "room < length bs + length (d @ e)"
  show "\<exists>st' x. on_ok (f st) (\<lambda>_. g) = (None, st') \<and> has st' (bs @ x) \<and> prefix x (d @ e)"
  proof (cases "length bs + length d \<le> room")
    case True
    then obtain st1 where st1: "f st = (Some (), st1)" "has st1 (bs @ d)"
      by (rule encodes_ok [OF assms(1) st(1)])
    have "room < length (bs @ d) + length e" using st(2) by simp
    then obtain st' x where "g st1 = (None, st')" "has st' ((bs @ d) @ x)" "prefix x e"
      using assms(3) st1(2) unfolding stops_def by blast
    then show ?thesis by (intro exI [of _ st'] exI [of _ "d @ x"]) (simp add: st1(1))
  next
    case False
    then obtain st' x where "f st = (None, st')" "has st' (bs @ x)" "prefix x d"
      using assms(2) st(1) unfolding stops_def by (meson not_le)
    then show ?thesis by (intro exI [of _ st'] exI [of _ x]) (simp add: prefix_prefix)
  qed
qed

context pb_sink
begin

lemma pb_write: "encodes has room (pb_write d (length d)) d"
  using takes unfolding encodes_def by blast

end

context bounded_sink
begin

lemma pb_write_stops:
  assumes "length d < 2 ^ 64"
  shows "stops has room (pb_write d (length d)) d"
  unfolding stops_def
proof (intro allI impI)
  fix st bs assume st: "has st bs" "room < length bs + length d"
  from refuses [OF st assms] obtain st' where "pb_write d (length d) st = (None, st')" "has st' (bs @ [])" by auto
  then show "\<exists>st' e. pb_write d (length d) st = (None, st') \<and> has st' (bs @ e) \<and> prefix e d"
    by (intro exI [of _ st'] exI [of _ "[]"]) simp
qed

end

section \<open>The bytes of a value\<close>

lemma unat_and_0x7f_u64: "unat ((v :: u64) AND 0x7f) = unat v mod 128"
  using unat_and_mask [of v 7] by (simp add: mask_eq_exp_minus_1)

lemma unat_ucast_7f: "unat (ucast ((v :: u64) AND 0x7f) :: u8) = unat v mod 128"
  by (simp add: unsigned_ucast_eq take_bit_eq_mod unat_and_0x7f_u64 mod_mod_cancel)

lemma or_0x80:
  assumes "unat (b :: u8) < 128"
  shows "unat (b OR 0x80) = 128 + unat b" and "(b OR 0x80) AND 0x7f = b"
proof -
  have "take_bit 7 b = b" using assms by (simp add: word_unat_eq_iff unsigned_take_bit_eq take_bit_nat_eq_self)
  then have b: "b AND 0x7f = b" by (simp add: take_bit_eq_mask mask_eq_exp_minus_1)
  then have "b AND 0x80 = b AND (0x7f AND 0x80)" by (metis and.assoc)
  then have z: "b AND 0x80 = 0" by simp
  have "(b AND 0x80) + (b OR 0x80) = b + 0x80" by (rule word_plus_and_or)
  then show "unat (b OR 0x80) = 128 + unat b" using assms z by (simp add: unat_word_ariths(1))
  show "(b OR 0x80) AND 0x7f = b" using b by (simp add: bit.conj_disj_distrib2)
qed

lemma varint_digits_last:
  "v \<noteq> 0 \<Longrightarrow> varint_digits v \<noteq> [] \<and>
   (varint_digits v)[length (varint_digits v) - 1 := varint_digits v ! (length (varint_digits v) - 1) AND 0x7f] =
     varint (unat v)"
proof (induction v rule: varint_digits.induct)
  case (1 v)
  define b :: u8 where "b = ucast (v AND 0x7f)"
  have b: "unat b = unat v mod 128" unfolding b_def by (rule unat_ucast_7f)
  have c: "unat (b OR 0x80) = 128 + unat v mod 128" "(b OR 0x80) AND 0x7f = b" using or_0x80 [of b] b by simp_all
  have d: "unat (drop_bit 7 v) = unat v div 128" by (simp add: unat_drop_bit)
  have step: "varint_digits v = (b OR 0x80) # varint_digits (drop_bit 7 v)"
    using "1.prems" by (simp add: varint_digits.simps [of v] b_def)
  show ?case
  proof (cases "drop_bit 7 v = 0")
    case True
    then have "unat v < 128" using drop_bit_eq_0_iff [of 7 v] by simp
    then have "varint (unat v) = [b]" using b
      by (simp add: varint.simps [of "unat v"] word_unat_eq_iff unsigned_ucast_eq take_bit_nat_eq_self)
    then show ?thesis using True c(2) by (simp add: step varint_digits.simps [of 0])
  next
    case False
    then have n: "\<not> unat v < 128" using drop_bit_eq_0_iff [of 7 v] by simp
    have "b OR 0x80 = of_nat (128 + unat v mod 128)" using c(1) by (metis of_nat_unat_8)
    then have "varint (unat v) = (b OR 0x80) # varint (unat (drop_bit 7 v))"
      using n by (simp add: varint.simps [of "unat v"] d)
    then show ?thesis using "1.IH" [OF "1.prems" False]
      by (cases "length (varint_digits (drop_bit 7 v))") (simp_all add: step)
  qed
qed

lemma pb_encode_varint_write:
  "pb_encode_varint v = pb_write (varint (unat v)) (length (varint (unat v)))"
proof (cases "v \<le> 0x7f")
  case True
  then have "unat v < 128" by (simp add: word_le_nat_alt)
  then have "varint (unat v) = [ucast v]" by (simp add: varint.simps [of "unat v"])
  then show ?thesis using True by (simp add: pb_encode_varint_def fun_eq_iff)
next
  case False
  then have "v \<noteq> 0" by auto
  from varint_digits_last [OF this] show ?thesis
    using False by (simp add: pb_encode_varint_def fun_eq_iff Let_def) (metis length_list_update)
qed

definition zigzag :: "u64 \<Rightarrow> u64" where
  "zigzag v = (if v <s 0 then NOT (push_bit 1 v) else push_bit 1 v)"

lemma unzigzag: "(if zigzag v AND 1 \<noteq> 0 then NOT (drop_bit 1 (zigzag v)) else drop_bit 1 (zigzag v)) = v"
proof -
  have s: "v <s 0 \<longleftrightarrow> bit v 63" using bit_last_iff [of v] by (simp add: word_sless_alt)
  have o: "w AND 1 \<noteq> 0 \<longleftrightarrow> bit w 0" for w :: u64 by (simp add: and_one_eq odd_iff_mod_2_eq_one bit_0)
  show ?thesis
  proof (cases "bit v 63")
    case True
    then have z: "zigzag v = NOT (push_bit 1 v)" by (simp only: zigzag_def s if_True)
    have "bit (zigzag v) 0" unfolding z by (simp only: bit_not_iff bit_push_bit_iff) simp
    moreover have "NOT (drop_bit 1 (NOT (push_bit 1 v))) = v"
    proof (rule bit_word_eqI)
      fix i assume "i < LENGTH(64)"
      then show "bit (NOT (drop_bit 1 (NOT (push_bit 1 v)))) i = bit v i"
        using True by (cases "i = 63") (simp_all only: bit_not_iff bit_drop_bit_eq bit_push_bit_iff comp_apply, auto)
    qed
    ultimately show ?thesis by (simp only: o if_True z)
  next
    case False
    then have z: "zigzag v = push_bit 1 v" by (simp only: zigzag_def s if_False)
    have "\<not> bit (zigzag v) 0" unfolding z by (simp only: bit_push_bit_iff) simp
    moreover have "drop_bit 1 (push_bit 1 v) = v"
    proof (rule bit_word_eqI)
      fix i assume "i < LENGTH(64)"
      then show "bit (drop_bit 1 (push_bit 1 v)) i = bit v i"
        using False by (cases "i = 63") (simp_all only: bit_drop_bit_eq bit_push_bit_iff comp_apply, auto)
    qed
    ultimately show ?thesis by (simp only: o if_False z)
  qed
qed

lemma pb_encode_svarint_write: "pb_encode_svarint v = pb_encode_varint (zigzag v)"
  by (simp add: pb_encode_svarint_def zigzag_def)

lemma pb_encode_tag_write:
  assumes "unat wt < 8"
  shows "pb_encode_tag wt field = pb_write (tag_bytes wt field) (length (tag_bytes wt field))"
proof -
  have f: "unat (ucast field :: u64) = unat field" "unat (ucast wt :: u64) = unat wt"
    by (simp_all add: unat_ucast_up)
  have l: "unat field < 2 ^ 32" using unsigned_less [of field, where ?'a = nat] by simp
  have "unat (push_bit 3 (ucast field) OR ucast wt :: u64) = 8 * unat field + unat wt"
    using unat_push_bit_or [of "ucast field :: u64" 3 "ucast wt"] assms l by (simp add: f)
  then show ?thesis by (simp add: pb_encode_tag_def pb_encode_varint_write tag_bytes_def)
qed

section \<open>Instances\<close>

text \<open>
  A stream into memory: \<open>pre\<close> is what stood before its start, \<open>bs\<close> what it wrote, \<open>buf\<close> the memory as
  it was; it may write \<open>room\<close> bytes more than the \<open>w\<close> it had written at its start.
\<close>

definition in_block :: "bytes \<Rightarrow> bytes \<Rightarrow> nat \<Rightarrow> nat \<Rightarrow> 's pb_ostream \<Rightarrow> bytes \<Rightarrow> bool" where
  "in_block pre buf w room st bs \<longleftrightarrow>
     os_output st = To_buffer (pre @ bs @ drop (length pre + length bs) buf) (length pre + length bs) \<and>
     os_written st = w + length bs \<and> os_max st = w + room \<and> length bs \<le> room \<and>
     length pre + room \<le> length buf \<and> w \<le> length pre \<and> length buf < 2 ^ 63"

definition in_buffer :: "bytes \<Rightarrow> nat \<Rightarrow> 's pb_ostream \<Rightarrow> bytes \<Rightarrow> bool" where
  "in_buffer buf room st bs \<longleftrightarrow>
     os_output st = To_buffer (bs @ drop (length bs) buf) (length bs) \<and> os_written st = length bs \<and>
     os_max st = room \<and> length bs \<le> room \<and> room \<le> length buf \<and> length buf < 2 ^ 63"

definition counted :: "'s pb_ostream \<Rightarrow> bytes \<Rightarrow> bool" where
  "counted st bs \<longleftrightarrow> os_output st = Sizing \<and> os_written st = length bs \<and> length bs < 2 ^ 64"

lemma in_buffer_block: "in_buffer buf room = in_block [] buf 0 room"
  by (simp add: fun_eq_iff in_buffer_def in_block_def)

lemma size_add_small: "a + b < 2 ^ 64 \<Longrightarrow> size_add a b = a + b"
  by (simp add: size_add_def)

interpretation block: bounded_sink "in_block pre buf w room :: 's pb_ostream \<Rightarrow> bytes \<Rightarrow> bool" room
proof
  fix st :: "'s pb_ostream" and bs d
  assume st: "in_block pre buf w room st bs"
  then have o: "os_output st = To_buffer (pre @ bs @ drop (length pre + length bs) buf) (length pre + length bs)"
    "os_written st = w + length bs" "os_max st = w + room" "length bs \<le> room" "length pre + room \<le> length buf"
    "w \<le> length pre" "length buf < 2 ^ 63" by (simp_all add: in_block_def)
  have nz: "\<not> is_sizing st" by (simp add: is_sizing_def o(1))
  show "\<exists>st'. pb_write d (length d) st = (Some (), st') \<and> in_block pre buf w room st' (bs @ d)"
    if l: "length bs + length d \<le> room"
  proof -
    have s: "size_add (w + length bs) (length d) = w + length bs + length d"
      by (rule size_add_small) (use l o(5-7) in simp)
    have b: "blit (pre @ bs @ drop (length pre + length bs) buf) (length pre + length bs) d =
        pre @ bs @ d @ drop (length pre + length bs + length d) buf"
      by (simp add: blit_def add.commute)
    show ?thesis
    proof (cases "d = []")
      case True
      then show ?thesis using st s o by (simp add: pb_write_def in_block_def)
    next
      case False
      then show ?thesis using l o nz s b
        by (simp add: pb_write_def in_block_def call_output_def buf_write_def add.assoc)
    qed
  qed
  show "\<exists>st'. pb_write d (length d) st = (None, st') \<and> in_block pre buf w room st' bs"
    if l: "room < length bs + length d" "length d < 2 ^ 64"
  proof -
    have d: "length d > 0" using l(1) o(4) by linarith
    have "size_add (w + length bs) (length d) < w + length bs \<or> size_add (w + length bs) (length d) > w + room"
    proof (cases "w + length bs + length d < 2 ^ 64")
      case True
      then show ?thesis using l(1) by (simp add: size_add_small)
    next
      case False
      have "w + length bs + length d - 2 ^ 64 < 2 ^ 64" using o(4-7) l(2) by simp
      then have "size_add (w + length bs) (length d) = w + length bs + length d - 2 ^ 64"
        using False by (simp only: size_add_def not_less le_mod_geq mod_less)
      then show ?thesis using False l(2) by linarith
    qed
    then show ?thesis using d st nz o by (auto simp: pb_write_def os_fail_def in_block_def)
  qed
qed

interpretation memory: bounded_sink "in_buffer buf room :: 's pb_ostream \<Rightarrow> bytes \<Rightarrow> bool" room
  unfolding in_buffer_block by (rule block.bounded_sink_axioms)

interpretation sizing: pb_sink "counted :: 's pb_ostream \<Rightarrow> bytes \<Rightarrow> bool" "2 ^ 64 - 1"
proof
  fix st :: "'s pb_ostream" and bs d :: bytes
  assume st: "counted st bs" and l: "length bs + length d \<le> 2 ^ 64 - 1"
  have s: "length bs + length d < 2 ^ 64"
    by (rule le_less_trans [OF l]) simp
  then show "\<exists>st'. pb_write d (length d) st = (Some (), st') \<and> counted st' (bs @ d)"
    using st size_add_small [OF s] by (simp add: pb_write_def counted_def is_sizing_def)
qed

section \<open>Encoders\<close>

context pb_sink
begin

lemma pb_encode_varint: "encodes has room (pb_encode_varint v) (varint (unat v))"
  unfolding pb_encode_varint_write by (rule pb_write)

lemma pb_encode_svarint: "encodes has room (pb_encode_svarint v) (varint (unat (zigzag v)))"
  unfolding pb_encode_svarint_write by (rule pb_encode_varint)

lemma pb_encode_tag: "unat wt < 8 \<Longrightarrow> encodes has room (pb_encode_tag wt field) (tag_bytes wt field)"
  by (simp add: pb_encode_tag_write pb_write)

lemma pb_encode_fixed32:
  "encodes has room (pb_encode_fixed32 v) (map (\<lambda>i. ucast (drop_bit (8 * i) v AND 0xff)) [0..<4])"
  using pb_write [of "map (\<lambda>i. ucast (drop_bit (8 * i) v AND 0xff)) [0..<4]"] by (simp add: pb_encode_fixed32_def)

lemma pb_encode_fixed64:
  "encodes has room (pb_encode_fixed64 v) (map (\<lambda>i. ucast (drop_bit (8 * i) v AND 0xff)) [0..<8])"
  using pb_write [of "map (\<lambda>i. ucast (drop_bit (8 * i) v AND 0xff)) [0..<8]"] by (simp add: pb_encode_fixed64_def)

lemma pb_encode_string:
  assumes "length d < 2 ^ 64"
  shows "encodes has room (pb_encode_string d (length d)) (varint (length d) @ d)"
proof -
  have u: "unat (of_nat (length d) :: u64) = length d" by (rule unat_of_nat_u64 [OF assms])
  from encodes_then [OF pb_encode_varint [of "of_nat (length d)"] pb_write [of d]] show ?thesis
    unfolding u by (simp add: pb_encode_string_def [abs_def])
qed

end

context bounded_sink
begin

lemma pb_encode_varint_stops: "stops has room (pb_encode_varint v) (varint (unat v))"
  unfolding pb_encode_varint_write
  by (rule pb_write_stops) (rule le_less_trans [OF length_varint_u64], simp)

lemma pb_encode_string_stops:
  assumes "length d < 2 ^ 64"
  shows "stops has room (pb_encode_string d (length d)) (varint (length d) @ d)"
proof -
  have u: "unat (of_nat (length d) :: u64) = length d" by (rule unat_of_nat_u64 [OF assms])
  from stops_then [OF pb_encode_varint [of "of_nat (length d)"] pb_encode_varint_stops pb_write_stops [OF assms]]
  show ?thesis unfolding u by (simp add: pb_encode_string_def [abs_def])
qed

end

end
