(* ===== verification/PbWire.thy ===== *)
theory PbWire
  imports PbSink
begin

text \<open>What the encoders of \<open>pb_encode.c\<close> write, the decoders of \<open>pb_decode.c\<close> read.\<close>

unbundle bit_operations_syntax

definition decodes :: "('s pb_istream \<Rightarrow> 'a option \<times> 's pb_istream) \<Rightarrow> bytes \<Rightarrow> 'a \<Rightarrow> bool" where
  "decodes f d v \<longleftrightarrow>
     (\<forall>st rest ahead. reads delivers st (d @ rest) ahead \<longrightarrow>
        (\<exists>st'. f st = (Some v, st') \<and> reads delivers st' rest ahead))"

lemma decodes_then:
  assumes "decodes f d v" and "decodes (g v) e w"
  shows "decodes (\<lambda>st. on_ok (f st) g) (d @ e) w"
  using assms unfolding decodes_def by (metis append.assoc on_ok.simps(2))

lemma decodes_map: "decodes f d v \<Longrightarrow> decodes (\<lambda>st. on_ok (f st) (\<lambda>v st. (Some (h v), st))) d (h v)"
  unfolding decodes_def by (metis on_ok.simps(2))

lemma decodes_varint: "decodes pb_decode_varint (varint (unat v)) v"
  unfolding decodes_def
proof (intro allI impI)
  fix st :: "'a pb_istream" and rest ahead
  assume "reads delivers st (varint (unat v) @ rest) ahead"
  from input.pb_decode_varint [OF this] take_varint_append [OF is_varint_varint length_varint_u64]
  show "\<exists>st'. pb_decode_varint st = (Some v, st') \<and> reads delivers st' rest ahead" by auto
qed

lemma decodes_svarint: "decodes pb_decode_svarint (varint (unat (zigzag v))) v"
  using decodes_map [OF decodes_varint [of "zigzag v"], where h = "\<lambda>v. if v AND 1 \<noteq> 0 then NOT (drop_bit 1 v) else drop_bit 1 v"]
  unfolding unzigzag pb_decode_svarint_def [abs_def] .

lemma decodes_varint32: "decodes pb_decode_varint32 (varint (unat v)) v"
  unfolding decodes_def
proof (intro allI impI)
  fix st :: "'a pb_istream" and rest ahead
  assume st: "reads delivers st (varint (unat v) @ rest) ahead"
  have "unat v < 2 ^ 32" using unsigned_less [of v, where ?'a = nat] by simp
  from input.pb_decode_varint32 [OF st this]
  show "\<exists>st'. pb_decode_varint32 st = (Some v, st') \<and> reads delivers st' rest ahead" by auto
qed

lemma decodes_fixed32: "decodes pb_decode_fixed32 (map (\<lambda>i. ucast (drop_bit (8 * i) v AND 0xff)) [0..<4]) v"
  using input.pb_decode_fixed32 [where d = "map (\<lambda>i. ucast (drop_bit (8 * i) v AND 0xff)) [0..<4]"]
    le_word_digits [of 4 v] by (auto simp: decodes_def)

lemma decodes_fixed64: "decodes pb_decode_fixed64 (map (\<lambda>i. ucast (drop_bit (8 * i) v AND 0xff)) [0..<8]) v"
  using input.pb_decode_fixed64 [where d = "map (\<lambda>i. ucast (drop_bit (8 * i) v AND 0xff)) [0..<8]"]
    le_word_digits [of 8 v] by (auto simp: decodes_def)

lemma decodes_skip: "payload wt d \<Longrightarrow> decodes (pb_skip_field wt) d ()"
  unfolding decodes_def using input.pb_skip_field by blast

end
