(* ===== verification/PbMessage.thy ===== *)
theory PbMessage
  imports PbDecode "HOL-Library.Monad_Syntax"
begin

text \<open>
  Messages of nanopb: the descriptors of \<open>pb.h\<close>, the memory a message is decoded into, and the field
  iterator of \<open>pb_common.c\<close>. A descriptor is a finite tree: the \<open>ptr\<close> of a submessage field is
  its list of fields, without the terminating entry. Memory is flat and byte-addressed; addresses are
  numbers, 0 is \<open>NULL\<close>, pointers take 8 bytes and \<open>pb_size_t\<close> 4, lowest byte first.
\<close>

unbundle bit_operations_syntax

section \<open>Descriptors\<close>

datatype 'f pb_ptr = Null | Default_value bytes | Submsg "'f list"

datatype pb_field =
  Pb_field (f_tag: u32) (f_type: u8) (f_data_offset: nat) (f_size_offset: int) (f_data_size: nat)
    (f_array_size: nat) (f_ptr: "pb_field pb_ptr")

definition PB_LTYPE_BOOL :: u8 where "PB_LTYPE_BOOL = 0x00"
definition PB_LTYPE_VARINT :: u8 where "PB_LTYPE_VARINT = 0x01"
definition PB_LTYPE_UVARINT :: u8 where "PB_LTYPE_UVARINT = 0x02"
definition PB_LTYPE_SVARINT :: u8 where "PB_LTYPE_SVARINT = 0x03"
definition PB_LTYPE_FIXED32 :: u8 where "PB_LTYPE_FIXED32 = 0x04"
definition PB_LTYPE_FIXED64 :: u8 where "PB_LTYPE_FIXED64 = 0x05"
definition PB_LTYPE_LAST_PACKABLE :: u8 where "PB_LTYPE_LAST_PACKABLE = 0x05"
definition PB_LTYPE_BYTES :: u8 where "PB_LTYPE_BYTES = 0x06"
definition PB_LTYPE_STRING :: u8 where "PB_LTYPE_STRING = 0x07"
definition PB_LTYPE_SUBMESSAGE :: u8 where "PB_LTYPE_SUBMESSAGE = 0x08"
definition PB_LTYPE_EXTENSION :: u8 where "PB_LTYPE_EXTENSION = 0x09"
definition PB_LTYPE_FIXED_LENGTH_BYTES :: u8 where "PB_LTYPE_FIXED_LENGTH_BYTES = 0x0A"
definition PB_HTYPE_REQUIRED :: u8 where "PB_HTYPE_REQUIRED = 0x00"
definition PB_HTYPE_OPTIONAL :: u8 where "PB_HTYPE_OPTIONAL = 0x10"
definition PB_HTYPE_REPEATED :: u8 where "PB_HTYPE_REPEATED = 0x20"
definition PB_HTYPE_ONEOF :: u8 where "PB_HTYPE_ONEOF = 0x30"
definition PB_ATYPE_STATIC :: u8 where "PB_ATYPE_STATIC = 0x00"
definition PB_ATYPE_POINTER :: u8 where "PB_ATYPE_POINTER = 0x80"
definition PB_ATYPE_CALLBACK :: u8 where "PB_ATYPE_CALLBACK = 0x40"

definition PB_LTYPE :: "u8 \<Rightarrow> u8" where "PB_LTYPE x = x AND 0x0F"
definition PB_HTYPE :: "u8 \<Rightarrow> u8" where "PB_HTYPE x = x AND 0x30"
definition PB_ATYPE :: "u8 \<Rightarrow> u8" where "PB_ATYPE x = x AND 0xC0"

lemmas pb_ltypes = PB_LTYPE_BOOL_def PB_LTYPE_VARINT_def PB_LTYPE_UVARINT_def PB_LTYPE_SVARINT_def
  PB_LTYPE_FIXED32_def PB_LTYPE_FIXED64_def PB_LTYPE_LAST_PACKABLE_def PB_LTYPE_BYTES_def PB_LTYPE_STRING_def
  PB_LTYPE_SUBMESSAGE_def PB_LTYPE_EXTENSION_def PB_LTYPE_FIXED_LENGTH_BYTES_def
lemmas pb_htypes = PB_HTYPE_REQUIRED_def PB_HTYPE_OPTIONAL_def PB_HTYPE_REPEATED_def PB_HTYPE_ONEOF_def
lemmas pb_atypes = PB_ATYPE_STATIC_def PB_ATYPE_POINTER_def PB_ATYPE_CALLBACK_def

definition PB_SIZE_MAX :: nat where "PB_SIZE_MAX = 2 ^ 32 - 1"
definition PB_MAX_REQUIRED_FIELDS :: nat where "PB_MAX_REQUIRED_FIELDS = 64"

definition PB_LAST_FIELD :: pb_field where
  "PB_LAST_FIELD = Pb_field 0 0 0 0 0 0 Null"

definition field_at :: "pb_field list \<Rightarrow> nat \<Rightarrow> pb_field" where
  "field_at fs i = (if i < length fs then fs ! i else PB_LAST_FIELD)"

section \<open>Memory\<close>

type_synonym pb_memory = "nat \<Rightarrow> u8"

definition read_bytes :: "pb_memory \<Rightarrow> nat \<Rightarrow> nat \<Rightarrow> bytes" where
  "read_bytes m a n = map (\<lambda>i. m (a + i)) [0..<n]"

definition write_bytes :: "nat \<Rightarrow> bytes \<Rightarrow> pb_memory \<Rightarrow> pb_memory" where
  "write_bytes a d m = (\<lambda>x. if a \<le> x \<and> x < a + length d then d ! (x - a) else m x)"

definition word_bytes :: "nat \<Rightarrow> 'a::len word \<Rightarrow> bytes" where
  "word_bytes n v = map (\<lambda>i. ucast (drop_bit (8 * i) v)) [0..<n]"

definition read_pointer :: "pb_memory \<Rightarrow> nat \<Rightarrow> nat" where
  "read_pointer m a = unat (le_word (read_bytes m a 8) :: u64)"

definition write_pointer :: "nat \<Rightarrow> nat \<Rightarrow> pb_memory \<Rightarrow> pb_memory" where
  "write_pointer a p = write_bytes a (word_bytes 8 (of_nat p :: u64))"

definition read_count :: "pb_memory \<Rightarrow> nat \<Rightarrow> nat" where
  "read_count m a = unat (le_word (read_bytes m a 4) :: u32)"

definition write_count :: "nat \<Rightarrow> nat \<Rightarrow> pb_memory \<Rightarrow> pb_memory" where
  "write_count a n = write_bytes a (word_bytes 4 (of_nat n :: u32))"

lemma length_word_bytes [simp]: "length (word_bytes n v) = n"
  by (simp add: word_bytes_def)

lemma write_bytes_outside: "x < a \<or> a + length d \<le> x \<Longrightarrow> write_bytes a d m x = m x"
  by (auto simp: write_bytes_def)

section \<open>The field iterator\<close>

text \<open>
  \<open>pSize\<close> points into memory or, for a repeated field of fixed count, to a local variable of
  \<open>pb_decode_noinit\<close>.
\<close>

datatype size_loc = At nat | Fixed_count

record pb_iter =
  it_start :: "pb_field list"
  it_pos :: nat
  it_required :: nat
  it_dest :: nat
  it_data :: nat
  it_size :: size_loc

definition field_of :: "pb_iter \<Rightarrow> pb_field" where
  "field_of it = field_at (it_start it) (it_pos it)"

definition size_at :: "nat \<Rightarrow> pb_field \<Rightarrow> size_loc" where
  "size_at d f = At (nat (int d + f_size_offset f))"

definition pb_field_iter_begin :: "pb_field list \<Rightarrow> nat \<Rightarrow> bool \<times> pb_iter" where
  "pb_field_iter_begin fs dest_struct =
     (let f = field_at fs 0; d = dest_struct + f_data_offset f
      in (f_tag f \<noteq> 0,
          \<lparr>it_start = fs, it_pos = 0, it_required = 0, it_dest = dest_struct, it_data = d, it_size = size_at d f\<rparr>))"

definition prev_size :: "pb_field \<Rightarrow> nat" where
  "prev_size f =
     (if PB_ATYPE (f_type f) = PB_ATYPE_STATIC \<and> PB_HTYPE (f_type f) = PB_HTYPE_REPEATED
      then f_data_size f * f_array_size f
      else if PB_ATYPE (f_type f) = PB_ATYPE_POINTER then 8
      else f_data_size f)"

text \<open>Fields inside a union share their place with the one before.\<close>

definition in_union :: "pb_field \<Rightarrow> pb_field \<Rightarrow> bool" where
  "in_union prev f \<longleftrightarrow>
     PB_HTYPE (f_type prev) = PB_HTYPE_ONEOF \<and> PB_HTYPE (f_type f) = PB_HTYPE_ONEOF \<and>
     f_data_offset f = PB_SIZE_MAX"

definition pb_field_iter_next :: "pb_iter \<Rightarrow> bool \<times> pb_iter" where
  "pb_field_iter_next it =
     (let prev = field_of it; pos = it_pos it + 1; f = field_at (it_start it) pos
      in if f_tag prev = 0 then (False, it)
         else if f_tag f = 0 then (False, snd (pb_field_iter_begin (it_start it) (it_dest it)))
         else if in_union prev f then (True, it\<lparr>it_pos := pos\<rparr>)
         else
           let d = it_data it + prev_size prev + f_data_offset f
           in (True,
               it\<lparr>it_pos := pos,
                 it_required := it_required it + (if PB_HTYPE (f_type prev) = PB_HTYPE_REQUIRED then 1 else 0),
                 it_data := d, it_size := size_at d f\<rparr>))"

text \<open>
  The searches go round the fields until they are back at the start; one step per field, and one
  more for the first test, is enough.
\<close>

fun find_loop :: "(pb_field \<Rightarrow> bool) \<Rightarrow> nat \<Rightarrow> nat \<Rightarrow> pb_iter \<Rightarrow> bool \<times> pb_iter" where
  "find_loop p start 0 it = (False, it)"
| "find_loop p start (Suc n) it =
     (if p (field_of it) then (True, it)
      else
        let it = snd (pb_field_iter_next it)
        in if it_pos it \<noteq> start then find_loop p start n it else (False, it))"

definition pb_field_iter_find :: "u32 \<Rightarrow> pb_iter \<Rightarrow> bool \<times> pb_iter" where
  "pb_field_iter_find tag it =
     find_loop (\<lambda>f. f_tag f = tag \<and> PB_LTYPE (f_type f) \<noteq> PB_LTYPE_EXTENSION)
       (it_pos it) (length (it_start it) + 1) it"

definition find_extension_field :: "pb_iter \<Rightarrow> bool \<times> pb_iter" where
  "find_extension_field it =
     find_loop (\<lambda>f. PB_LTYPE (f_type f) = PB_LTYPE_EXTENSION) (it_pos it) (length (it_start it) + 1) it"

end
