(* ===== verification/PbMsgDecode.thy ===== *)
theory PbMsgDecode
  imports PbMessage
begin

text \<open>
  \<open>nanopb/pb_decode.c\<close>: the decoding of messages into memory. An operation takes a state (stream,
  memory, heap) to an option: \<open>None\<close> when it does not return, else success or failure and the
  state it leaves. User functions (callbacks, extension handlers) and the allocator are arguments,
  collected in an environment. Nesting is counted down by a depth; a message that nests deeper
  than the depth given is reported as not returning.
\<close>

unbundle bit_operations_syntax

record ('s, 'h) pb_state =
  p_in :: "'s pb_istream"
  p_mem :: pb_memory
  p_heap :: 'h
  p_count :: nat

type_synonym ('a, 't) op = "'t \<Rightarrow> ('a option \<times> 't) option"
type_synonym ('a, 's, 'h) pb_op = "('a, ('s, 'h) pb_state) op"

fun andthen :: "('a option \<times> 's) option \<Rightarrow> ('a \<Rightarrow> 's \<Rightarrow> ('b option \<times> 's) option) \<Rightarrow> ('b option \<times> 's) option" where
  "andthen None k = None"
| "andthen (Some (None, s)) k = Some (None, s)"
| "andthen (Some (Some a, s)) k = k a s"

lemma andthen_bind:
  "andthen m k = Option.bind m (\<lambda>r. case fst r of None \<Rightarrow> Some (None, snd r) | Some a \<Rightarrow> k a (snd r))"
  by (cases m; auto split: option.splits simp: prod.case_eq_if)

lemma andthen_mono [partial_function_mono]:
  assumes "mono_option m" and "\<And>a s. mono_option (\<lambda>f. k f a s)"
  shows "mono_option (\<lambda>f. andthen (m f) (k f))"
  unfolding andthen_bind
proof (rule bind_mono [OF assms(1)])
  show "mono_option (\<lambda>f. case fst r of None \<Rightarrow> Some (None, snd r) | Some a \<Rightarrow> k f a (snd r))" for r
    by (cases "fst r") (simp_all add: assms(2) option.const_mono)
qed

definition ret :: "'a \<Rightarrow> ('a, 't) op" where
  "ret a s = Some (Some a, s)"

definition on_stream :: "('s pb_istream \<Rightarrow> 'a option \<times> 's pb_istream) \<Rightarrow> ('a, 's, 'h) pb_op" where
  "on_stream f s = (case f (p_in s) of (r, st) \<Rightarrow> Some (r, s\<lparr>p_in := st\<rparr>))"

definition pb_error :: "string \<Rightarrow> ('a, 's, 'h) pb_op" where
  "pb_error msg = on_stream (fail msg)"

definition poke :: "(pb_memory \<Rightarrow> pb_memory) \<Rightarrow> ('s, 'h) pb_state \<Rightarrow> ('s, 'h) pb_state" where
  "poke f s = s\<lparr>p_mem := f (p_mem s)\<rparr>"

text \<open>
  The user's functions and the allocator. A callback gets the field, the address of \<open>arg\<close> and the
  stream; an extension handler the extension, the tag and the wire type. \<open>e_field\<close> is the
  descriptor that the \<open>arg\<close> of an extension type points to. \<open>e_realloc\<close> returns the new address or
  0; both it and \<open>e_free\<close> act on memory and heap.
\<close>

record ('s, 'h) pb_env =
  e_callback :: "nat \<Rightarrow> pb_field \<Rightarrow> nat \<Rightarrow> ('s, 'h) pb_state \<Rightarrow> bool \<times> ('s, 'h) pb_state"
  e_extension :: "nat \<Rightarrow> nat \<Rightarrow> u32 \<Rightarrow> u32 \<Rightarrow> ('s, 'h) pb_state \<Rightarrow> bool \<times> ('s, 'h) pb_state"
  e_field :: "nat \<Rightarrow> pb_field"
  e_realloc :: "nat \<Rightarrow> nat \<Rightarrow> pb_memory \<Rightarrow> 'h \<Rightarrow> nat \<times> pb_memory \<times> 'h"
  e_free :: "nat \<Rightarrow> pb_memory \<Rightarrow> 'h \<Rightarrow> pb_memory \<times> 'h"

definition passed :: "bool \<times> 't \<Rightarrow> (unit option \<times> 't) option" where
  "passed r = Some (if fst r then Some () else None, snd r)"

section \<open>Counts and flags\<close>

definition get_count :: "size_loc \<Rightarrow> ('s, 'h) pb_state \<Rightarrow> nat" where
  "get_count loc s = (case loc of At a \<Rightarrow> read_count (p_mem s) a | Fixed_count \<Rightarrow> p_count s)"

definition set_count :: "size_loc \<Rightarrow> nat \<Rightarrow> ('s, 'h) pb_state \<Rightarrow> ('s, 'h) pb_state" where
  "set_count loc n s =
     (case loc of
        At a \<Rightarrow> poke (write_count a n) s
      | Fixed_count \<Rightarrow> s\<lparr>p_count := n mod 2 ^ 32\<rparr>)"

definition set_flag :: "size_loc \<Rightarrow> bool \<Rightarrow> ('s, 'h) pb_state \<Rightarrow> ('s, 'h) pb_state" where
  "set_flag loc b s =
     (case loc of At a \<Rightarrow> poke (write_bytes a [if b then 1 else 0]) s | Fixed_count \<Rightarrow> s)"

section \<open>Scalar fields\<close>

definition pb_dec_bool :: "nat \<Rightarrow> (unit, 's, 'h) pb_op" where
  "pb_dec_bool dest s =
     andthen (on_stream pb_decode_varint32 s) (\<lambda>v s.
       ret () (poke (write_bytes dest [if v \<noteq> 0 then 1 else 0]) s))"

text \<open>The value cut to the size of the field, as it compares with the value; no other size is allowed.\<close>

definition clamp :: "bool \<Rightarrow> nat \<Rightarrow> u64 \<Rightarrow> u64 option" where
  "clamp is_signed n v =
     (if n = 8 then Some v
      else if n = 4 then Some (if is_signed then scast (ucast v :: u32) else ucast (ucast v :: u32))
      else if n = 2 then Some (if is_signed then scast (ucast v :: u16) else ucast (ucast v :: u16))
      else if n = 1 then Some (if is_signed then scast (ucast v :: u8) else ucast (ucast v :: u8))
      else None)"

definition store_clamped :: "bool \<Rightarrow> pb_field \<Rightarrow> nat \<Rightarrow> u64 \<Rightarrow> (unit, 's, 'h) pb_op" where
  "store_clamped is_signed field dest v s =
     (case clamp is_signed (f_data_size field) v of
        None \<Rightarrow> pb_error ''invalid data_size'' s
      | Some clamped \<Rightarrow>
          let s = poke (write_bytes dest (word_bytes (f_data_size field) v)) s
          in if clamped \<noteq> v then pb_error ''integer too large'' s else ret () s)"

definition pb_dec_varint :: "pb_field \<Rightarrow> nat \<Rightarrow> (unit, 's, 'h) pb_op" where
  "pb_dec_varint field dest s =
     andthen (on_stream pb_decode_varint s) (\<lambda>v.
       store_clamped True field dest (if f_data_size field = 8 then v else scast (ucast v :: u32)))"

definition pb_dec_uvarint :: "pb_field \<Rightarrow> nat \<Rightarrow> (unit, 's, 'h) pb_op" where
  "pb_dec_uvarint field dest s = andthen (on_stream pb_decode_varint s) (store_clamped False field dest)"

definition pb_dec_svarint :: "pb_field \<Rightarrow> nat \<Rightarrow> (unit, 's, 'h) pb_op" where
  "pb_dec_svarint field dest s = andthen (on_stream pb_decode_svarint s) (store_clamped True field dest)"

definition pb_dec_fixed32 :: "nat \<Rightarrow> (unit, 's, 'h) pb_op" where
  "pb_dec_fixed32 dest s =
     andthen (on_stream pb_decode_fixed32 s) (\<lambda>v s. ret () (poke (write_bytes dest (word_bytes 4 v)) s))"

definition pb_dec_fixed64 :: "nat \<Rightarrow> (unit, 's, 'h) pb_op" where
  "pb_dec_fixed64 dest s =
     andthen (on_stream pb_decode_fixed64 s) (\<lambda>v s. ret () (poke (write_bytes dest (word_bytes 8 v)) s))"

section \<open>Allocation\<close>

definition size_too_large :: "nat \<Rightarrow> nat \<Rightarrow> bool" where
  "size_too_large data_size array_size \<longleftrightarrow>
     (data_size \<ge> 2 ^ 32 \<or> array_size \<ge> 2 ^ 32) \<and> (2 ^ 64 - 1) div array_size < data_size"

definition allocate_field :: "('s, 'h) pb_env \<Rightarrow> nat \<Rightarrow> nat \<Rightarrow> nat \<Rightarrow> (unit, 's, 'h) pb_op" where
  "allocate_field env pData data_size array_size s =
     (if data_size = 0 \<or> array_size = 0 then pb_error ''invalid size'' s
      else if size_too_large data_size array_size then pb_error ''size too large'' s
      else
        (case e_realloc env (read_pointer (p_mem s) pData) (size_mul array_size data_size) (p_mem s) (p_heap s) of
           (p, m, h) \<Rightarrow>
             let s = s\<lparr>p_mem := m, p_heap := h\<rparr>
             in if p = 0 then pb_error ''realloc failed'' s else ret () (poke (write_pointer pData p) s)))"

definition free_at :: "('s, 'h) pb_env \<Rightarrow> nat \<Rightarrow> ('s, 'h) pb_state \<Rightarrow> ('s, 'h) pb_state" where
  "free_at env p s = (case e_free env p (p_mem s) (p_heap s) of (m, h) \<Rightarrow> s\<lparr>p_mem := m, p_heap := h\<rparr>)"

section \<open>Bytes and strings\<close>

definition read_to :: "nat \<Rightarrow> nat \<Rightarrow> (unit, 's, 'h) pb_op" where
  "read_to dest n s = andthen (on_stream (pb_read n) s) (\<lambda>d s. ret () (poke (write_bytes dest d) s))"

definition pb_dec_bytes :: "('s, 'h) pb_env \<Rightarrow> pb_field \<Rightarrow> nat \<Rightarrow> (unit, 's, 'h) pb_op" where
  "pb_dec_bytes env field dest s =
     andthen (on_stream pb_decode_varint32 s) (\<lambda>n s.
       let alloc_size = unat n + 4
       in andthen
           (if PB_ATYPE (f_type field) = PB_ATYPE_POINTER then
              andthen (allocate_field env dest alloc_size 1 s) (\<lambda>_ s. ret (read_pointer (p_mem s) dest) s)
            else if alloc_size > f_data_size field then pb_error ''bytes overflow'' s
            else ret dest s)
           (\<lambda>bdest s. read_to (bdest + 4) (unat n) (poke (write_count bdest (unat n)) s)))"

text \<open>The terminating zero is written whether or not the bytes could be read.\<close>

definition pb_dec_string :: "('s, 'h) pb_env \<Rightarrow> pb_field \<Rightarrow> nat \<Rightarrow> (unit, 's, 'h) pb_op" where
  "pb_dec_string env field dest s =
     andthen (on_stream pb_decode_varint32 s) (\<lambda>n s.
       let alloc_size = unat (n + 1)
       in if alloc_size < unat n then pb_error ''size too large'' s
          else
            andthen
              (if PB_ATYPE (f_type field) = PB_ATYPE_POINTER then
                 andthen (allocate_field env dest alloc_size 1 s) (\<lambda>_ s. ret (read_pointer (p_mem s) dest) s)
               else if alloc_size > f_data_size field then pb_error ''string overflow'' s
               else ret dest s)
              (\<lambda>dest s.
                 map_option (\<lambda>(status, s). (status, poke (write_bytes (dest + unat n) [0]) s))
                   (read_to dest (unat n) s)))"

definition pb_dec_fixed_length_bytes :: "pb_field \<Rightarrow> nat \<Rightarrow> (unit, 's, 'h) pb_op" where
  "pb_dec_fixed_length_bytes field dest s =
     andthen (on_stream pb_decode_varint32 s) (\<lambda>n s.
       if n = 0 then ret () (poke (write_bytes dest (replicate (f_data_size field) 0)) s)
       else if unat n \<noteq> f_data_size field then pb_error ''incorrect fixed length bytes size'' s
       else read_to dest (f_data_size field) s)"

section \<open>Submessages\<close>

text \<open>
  A step runs on a substream of the length read. \<open>close\<close> puts the stream behind it; the status of
  the step counts only if that succeeds.
\<close>

definition in_substream :: "(unit, 's, 'h) pb_op \<Rightarrow> (unit, 's, 'h) pb_op" where
  "in_substream f s =
     andthen (on_stream pb_make_string_substream s) (\<lambda>sub s.
       case f (s\<lparr>p_in := sub\<rparr>) of
         None \<Rightarrow> None
       | Some (status, s') \<Rightarrow>
           andthen (on_stream (\<lambda>st. pb_close_string_substream st (p_in s')) (s'\<lparr>p_in := p_in s\<rparr>))
             (\<lambda>_ s. Some (status, s)))"

text \<open>\<open>noinit\<close> and \<open>init\<close> are \<open>pb_decode_noinit\<close> and \<open>pb_decode\<close> for the level below.\<close>

definition pb_dec_submessage ::
  "(pb_field list \<Rightarrow> nat \<Rightarrow> (unit, 's, 'h) pb_op) \<Rightarrow> (pb_field list \<Rightarrow> nat \<Rightarrow> (unit, 's, 'h) pb_op) \<Rightarrow>
   pb_field \<Rightarrow> nat \<Rightarrow> (unit, 's, 'h) pb_op" where
  "pb_dec_submessage noinit init field dest s =
     (case f_ptr field of
        Submsg fs \<Rightarrow>
          in_substream (if PB_HTYPE (f_type field) = PB_HTYPE_REPEATED then init fs dest else noinit fs dest) s
      | _ \<Rightarrow> andthen (on_stream pb_make_string_substream s) (\<lambda>_. pb_error ''invalid field descriptor''))"

text \<open>\<open>PB_DECODERS\<close>. The slot of extensions is \<open>NULL\<close>; the last slots are not in the table.\<close>

definition pb_decoder ::
  "('s, 'h) pb_env \<Rightarrow> (pb_field list \<Rightarrow> nat \<Rightarrow> (unit, 's, 'h) pb_op) \<Rightarrow> (pb_field list \<Rightarrow> nat \<Rightarrow> (unit, 's, 'h) pb_op) \<Rightarrow>
   pb_field \<Rightarrow> nat \<Rightarrow> (unit, 's, 'h) pb_op" where
  "pb_decoder env noinit init field dest s =
     (let l = PB_LTYPE (f_type field)
      in if l = PB_LTYPE_BOOL then pb_dec_bool dest s
         else if l = PB_LTYPE_VARINT then pb_dec_varint field dest s
         else if l = PB_LTYPE_UVARINT then pb_dec_uvarint field dest s
         else if l = PB_LTYPE_SVARINT then pb_dec_svarint field dest s
         else if l = PB_LTYPE_FIXED32 then pb_dec_fixed32 dest s
         else if l = PB_LTYPE_FIXED64 then pb_dec_fixed64 dest s
         else if l = PB_LTYPE_BYTES then pb_dec_bytes env field dest s
         else if l = PB_LTYPE_STRING then pb_dec_string env field dest s
         else if l = PB_LTYPE_SUBMESSAGE then pb_dec_submessage noinit init field dest s
         else if l = PB_LTYPE_FIXED_LENGTH_BYTES then pb_dec_fixed_length_bytes field dest s
         else None)"

section \<open>Walking over fields and extensions\<close>

text \<open>The loop over all fields of a message; one step for each field is enough.\<close>

fun each_field :: "(pb_iter \<Rightarrow> (unit, 't) op) \<Rightarrow> nat \<Rightarrow> pb_iter \<Rightarrow> (unit, 't) op" where
  "each_field f 0 it s = None"
| "each_field f (Suc k) it s =
     andthen (f it s) (\<lambda>_ s.
       case pb_field_iter_next it of (again, it) \<Rightarrow> if again then each_field f k it s else ret () s)"

definition each_of :: "(pb_iter \<Rightarrow> (unit, 't) op) \<Rightarrow> pb_field list \<Rightarrow> nat \<Rightarrow> (unit, 't) op" where
  "each_of f fs dest s =
     (case pb_field_iter_begin fs dest of
        (ok, it) \<Rightarrow> if ok then each_field f (length fs + 1) it s else ret () s)"

text \<open>The items of an array.\<close>

fun each_item :: "(nat \<Rightarrow> (unit, 't) op) \<Rightarrow> nat \<Rightarrow> nat \<Rightarrow> nat \<Rightarrow> (unit, 't) op" where
  "each_item f step 0 item s = ret () s"
| "each_item f step (Suc k) item s = andthen (f item s) (\<lambda>_. each_item f step k (item + step))"

text \<open>
  The list of extensions, as long as \<open>go\<close> holds. In \<open>pb_extension_t\<close> \<open>type\<close>, \<open>dest\<close>, \<open>next\<close> and
  \<open>found\<close> are at 0, 8, 16 and 24; in its type \<open>decode\<close> is at 0 and \<open>arg\<close> at 16.
\<close>

partial_function (option) each_extension ::
  "(('s, 'h) pb_state \<Rightarrow> bool) \<Rightarrow> (nat \<Rightarrow> (unit, 's, 'h) pb_op) \<Rightarrow> nat \<Rightarrow> (unit, 's, 'h) pb_op" where
  "each_extension go f ext s =
     (if ext \<noteq> 0 \<and> go s then
        andthen (f ext s) (\<lambda>_ s. each_extension go f (read_pointer (p_mem s) (ext + 16)) s)
      else ret () s)"

definition extension_field :: "('s, 'h) pb_env \<Rightarrow> nat \<Rightarrow> pb_memory \<Rightarrow> pb_field" where
  "extension_field env ext m = e_field env (read_pointer m (read_pointer m ext + 16))"

definition iter_from_extension :: "('s, 'h) pb_env \<Rightarrow> nat \<Rightarrow> pb_memory \<Rightarrow> pb_iter" where
  "iter_from_extension env ext m =
     (let field = extension_field env ext m; dest = read_pointer m (ext + 8)
      in (snd (pb_field_iter_begin [field] dest))
           \<lparr>it_data := (if PB_ATYPE (f_type field) = PB_ATYPE_POINTER then ext + 8 else dest),
            it_size := At (ext + 24)\<rparr>)"

section \<open>Defaults\<close>

definition set_default_step ::
  "('s, 'h) pb_env \<Rightarrow> (pb_iter \<Rightarrow> (unit, 's, 'h) pb_op) \<Rightarrow> pb_iter \<Rightarrow> (unit, 's, 'h) pb_op" where
  "set_default_step env set_default it s =
     (let field = field_of it; t = f_type field; pData = it_data it; pSize = it_size it
      in if PB_LTYPE t = PB_LTYPE_EXTENSION then
           each_extension (\<lambda>_. True)
             (\<lambda>ext s.
               let s = poke (write_bytes (ext + 24) [0]) s
               in set_default (iter_from_extension env ext (p_mem s)) s)
             (read_pointer (p_mem s) pData) s
         else if PB_ATYPE t = PB_ATYPE_STATIC then
           if PB_HTYPE t = PB_HTYPE_REPEATED \<or> PB_HTYPE t = PB_HTYPE_ONEOF then ret () (set_count pSize 0 s)
           else
             let s = (if PB_HTYPE t = PB_HTYPE_OPTIONAL \<and> pSize \<noteq> At pData then set_flag pSize False s else s)
             in if PB_LTYPE t = PB_LTYPE_SUBMESSAGE then
                  case f_ptr field of Submsg fs \<Rightarrow> each_of set_default fs pData s | _ \<Rightarrow> None
                else
                  (case f_ptr field of
                     Default_value d \<Rightarrow> ret () (poke (write_bytes pData (take (f_data_size field) d)) s)
                   | _ \<Rightarrow> ret () (poke (write_bytes pData (replicate (f_data_size field) 0)) s))
         else if PB_ATYPE t = PB_ATYPE_POINTER then
           let s = poke (write_pointer pData 0) s
           in ret ()
               (if PB_HTYPE t = PB_HTYPE_REPEATED \<or> PB_HTYPE t = PB_HTYPE_ONEOF then set_count pSize 0 s else s)
         else ret () s)"

primrec pb_field_set_to_default :: "('s, 'h) pb_env \<Rightarrow> nat \<Rightarrow> pb_iter \<Rightarrow> (unit, 's, 'h) pb_op" where
  "pb_field_set_to_default env 0 = (\<lambda>it s. None)"
| "pb_field_set_to_default env (Suc n) = set_default_step env (pb_field_set_to_default env n)"

definition pb_message_set_to_defaults ::
  "('s, 'h) pb_env \<Rightarrow> nat \<Rightarrow> pb_field list \<Rightarrow> nat \<Rightarrow> (unit, 's, 'h) pb_op" where
  "pb_message_set_to_defaults env n = each_of (pb_field_set_to_default env n)"

section \<open>Release\<close>

definition pb_release_with ::
  "(pb_iter \<Rightarrow> (unit, 's, 'h) pb_op) \<Rightarrow> pb_field list \<Rightarrow> nat \<Rightarrow> (unit, 's, 'h) pb_op" where
  "pb_release_with single fs dest s = (if dest = 0 then ret () s else each_of single fs dest s)"

definition release_inner ::
  "('s, 'h) pb_env \<Rightarrow> (pb_iter \<Rightarrow> (unit, 's, 'h) pb_op) \<Rightarrow> pb_iter \<Rightarrow> (unit, 's, 'h) pb_op" where
  "release_inner env single it s =
     (let field = field_of it; t = f_type field; pData = it_data it; pSize = it_size it
      in if PB_LTYPE t = PB_LTYPE_EXTENSION then
           each_extension (\<lambda>_. True) (\<lambda>ext s. single (iter_from_extension env ext (p_mem s)) s)
             (read_pointer (p_mem s) pData) s
         else if PB_LTYPE t = PB_LTYPE_SUBMESSAGE \<and> PB_ATYPE t \<noteq> PB_ATYPE_CALLBACK then
           let pItem = (if PB_ATYPE t = PB_ATYPE_POINTER then read_pointer (p_mem s) pData else pData);
               count =
                 (if PB_HTYPE t = PB_HTYPE_REPEATED then
                    let c = (if PB_ATYPE t = PB_ATYPE_STATIC \<and> pSize = At pData then f_array_size field
                             else get_count pSize s)
                    in if PB_ATYPE t = PB_ATYPE_STATIC \<and> c > f_array_size field then f_array_size field else c
                  else 1)
           in if pItem = 0 then ret () s
              else
                (case f_ptr field of
                   Submsg fs \<Rightarrow> each_item (pb_release_with single fs) (f_data_size field) count pItem s
                 | _ \<Rightarrow> None)
         else ret () s)"

definition release_step ::
  "('s, 'h) pb_env \<Rightarrow> (pb_iter \<Rightarrow> (unit, 's, 'h) pb_op) \<Rightarrow> pb_iter \<Rightarrow> (unit, 's, 'h) pb_op" where
  "release_step env single it s =
     (let field = field_of it; t = f_type field; pData = it_data it; pSize = it_size it
      in if PB_HTYPE t = PB_HTYPE_ONEOF \<and> get_count pSize s \<noteq> unat (f_tag field) then ret () s
         else
           andthen (release_inner env single it s) (\<lambda>_ s.
             if PB_ATYPE t = PB_ATYPE_POINTER then
               andthen
                 (if PB_HTYPE t = PB_HTYPE_REPEATED \<and> (PB_LTYPE t = PB_LTYPE_STRING \<or> PB_LTYPE t = PB_LTYPE_BYTES) then
                    each_item
                      (\<lambda>p s. ret () (poke (write_pointer p 0) (free_at env (read_pointer (p_mem s) p) s)))
                      8 (get_count pSize s) (read_pointer (p_mem s) pData) s
                  else ret () s)
                 (\<lambda>_ s.
                   let s = (if PB_HTYPE t = PB_HTYPE_REPEATED then set_count pSize 0 s else s)
                   in ret () (poke (write_pointer pData 0) (free_at env (read_pointer (p_mem s) pData) s)))
             else ret () s))"

primrec pb_release_single_field :: "('s, 'h) pb_env \<Rightarrow> nat \<Rightarrow> pb_iter \<Rightarrow> (unit, 's, 'h) pb_op" where
  "pb_release_single_field env 0 = (\<lambda>it s. None)"
| "pb_release_single_field env (Suc n) = release_step env (pb_release_single_field env n)"

definition pb_release :: "('s, 'h) pb_env \<Rightarrow> nat \<Rightarrow> pb_field list \<Rightarrow> nat \<Rightarrow> (unit, 's, 'h) pb_op" where
  "pb_release env n = pb_release_with (pb_release_single_field env n)"

end
