(* ===== verification/PbMsgLoop.thy ===== *)
theory PbMsgLoop
  imports PbMsgDecode
begin

text \<open>\<open>nanopb/pb_decode.c\<close>: the decoding of a field in each allocation, and of all fields of a message.\<close>

unbundle bit_operations_syntax

section \<open>Fields in the structure\<close>

partial_function (option) packed_loop ::
  "(nat \<Rightarrow> (unit, 's, 'h) pb_op) \<Rightarrow> pb_iter \<Rightarrow> (bool, 's, 'h) pb_op" where
  "packed_loop func it s =
     (if is_left (p_in s) > 0 \<and> get_count (it_size it) s < f_array_size (field_of it) then
        Option.bind (func (it_data it + f_data_size (field_of it) * get_count (it_size it) s) s) (\<lambda>r.
          if fst r = None then ret False (snd r)
          else packed_loop func it (set_count (it_size it) (get_count (it_size it) (snd r) + 1) (snd r)))
      else ret True s)"

definition status_of :: "bool \<Rightarrow> (unit, 's, 'h) pb_op" where
  "status_of b s = Some (if b then Some () else None, s)"

definition packed_static :: "(nat \<Rightarrow> (unit, 's, 'h) pb_op) \<Rightarrow> pb_iter \<Rightarrow> (unit, 's, 'h) pb_op" where
  "packed_static func it s =
     andthen (on_stream pb_make_string_substream s) (\<lambda>sub s.
       andthen (packed_loop func it (s\<lparr>p_in := sub\<rparr>)) (\<lambda>status s'.
         if is_left (p_in s') \<noteq> 0 then pb_error ''array overflow'' (s'\<lparr>p_in := p_in s\<rparr>)
         else
           andthen (on_stream (\<lambda>st. pb_close_string_substream st (p_in s')) (s'\<lparr>p_in := p_in s\<rparr>))
             (\<lambda>_. status_of status)))"

definition decode_static_field ::
  "(pb_field list \<Rightarrow> nat \<Rightarrow> (unit, 's, 'h) pb_op) \<Rightarrow> (nat \<Rightarrow> (unit, 's, 'h) pb_op) \<Rightarrow> u32 \<Rightarrow> pb_iter \<Rightarrow>
   (unit, 's, 'h) pb_op" where
  "decode_static_field defaults func wire_type it s =
     (let field = field_of it; t = f_type field; pData = it_data it; pSize = it_size it
      in if PB_HTYPE t = PB_HTYPE_REQUIRED then func pData s
         else if PB_HTYPE t = PB_HTYPE_OPTIONAL then
           func pData (if pSize \<noteq> At pData then set_flag pSize True s else s)
         else if PB_HTYPE t = PB_HTYPE_REPEATED then
           if wire_type = PB_WT_STRING \<and> PB_LTYPE t \<le> PB_LTYPE_LAST_PACKABLE then packed_static func it s
           else
             let n = get_count pSize s; s = set_count pSize (n + 1) s
             in if n \<ge> f_array_size field then pb_error ''array overflow'' s
                else func (pData + f_data_size field * n) s
         else
           andthen
             (if PB_LTYPE t = PB_LTYPE_SUBMESSAGE \<and> get_count pSize s \<noteq> unat (f_tag field) then
                let s = poke (write_bytes pData (replicate (f_data_size field) 0)) s
                in (case f_ptr field of Submsg fs \<Rightarrow> defaults fs pData s | _ \<Rightarrow> None)
              else ret () s)
             (\<lambda>_ s. func pData (set_count pSize (unat (f_tag field)) s)))"

section \<open>Fields on the heap\<close>

definition initialize_pointer_field ::
  "(pb_field list \<Rightarrow> nat \<Rightarrow> (unit, 's, 'h) pb_op) \<Rightarrow> nat \<Rightarrow> pb_field \<Rightarrow> (unit, 's, 'h) pb_op" where
  "initialize_pointer_field defaults pItem field s =
     (let l = PB_LTYPE (f_type field)
      in if l = PB_LTYPE_STRING \<or> l = PB_LTYPE_BYTES then ret () (poke (write_pointer pItem 0) s)
         else if l = PB_LTYPE_SUBMESSAGE then
           let s = poke (write_bytes pItem (replicate (f_data_size field) 0)) s
           in (case f_ptr field of Submsg fs \<Rightarrow> defaults fs pItem s | _ \<Rightarrow> None)
         else ret () s)"

text \<open>
  A packed array: storage for the entries that may still come is guessed from the bytes left. The
  result is the status; the message of too many entries goes to the enclosing stream. A field of
  size zero would divide by zero and is \<open>None\<close>.
\<close>

definition grow_packed ::
  "('s, 'h) pb_env \<Rightarrow> pb_iter \<Rightarrow> nat \<Rightarrow> (nat, 's, 'h) pb_op" where
  "grow_packed env it allocated s =
     (let field = field_of it
      in if get_count (it_size it) s + 1 > allocated then
           if f_data_size field = 0 then None else
           let remain = (is_left (p_in s) - 1) div f_data_size field + 1;
               allocated = (if remain < PB_SIZE_MAX - allocated then allocated + remain else allocated + 1)
           in andthen (allocate_field env (it_data it) (f_data_size field) allocated s) (\<lambda>_. ret allocated)
         else ret allocated s)"

definition packed_entry ::
  "('s, 'h) pb_env \<Rightarrow> (pb_field list \<Rightarrow> nat \<Rightarrow> (unit, 's, 'h) pb_op) \<Rightarrow> (nat \<Rightarrow> (unit, 's, 'h) pb_op) \<Rightarrow>
   pb_iter \<Rightarrow> nat \<Rightarrow> (nat, 's, 'h) pb_op" where
  "packed_entry env defaults func it allocated s =
     andthen (grow_packed env it allocated s) (\<lambda>allocated s.
       let pItem = read_pointer (p_mem s) (it_data it) + f_data_size (field_of it) * get_count (it_size it) s
       in andthen (initialize_pointer_field defaults pItem (field_of it) s) (\<lambda>_ s.
            andthen (func pItem s) (\<lambda>_ s.
              ret allocated (set_count (it_size it) (get_count (it_size it) s + 1) s))))"

partial_function (option) packed_pointer_loop ::
  "(nat \<Rightarrow> (nat, 's, 'h) pb_op) \<Rightarrow> size_loc \<Rightarrow> nat \<Rightarrow> (bool \<times> bool, 's, 'h) pb_op" where
  "packed_pointer_loop entry pSize allocated s =
     (if is_left (p_in s) = 0 then ret (True, False) s
      else if get_count pSize s = PB_SIZE_MAX then ret (False, True) s
      else
        Option.bind (entry allocated s) (\<lambda>r.
          if fst r = None then ret (False, False) (snd r)
          else packed_pointer_loop entry pSize (the (fst r)) (snd r)))"

definition packed_pointer ::
  "('s, 'h) pb_env \<Rightarrow> (pb_field list \<Rightarrow> nat \<Rightarrow> (unit, 's, 'h) pb_op) \<Rightarrow> (nat \<Rightarrow> (unit, 's, 'h) pb_op) \<Rightarrow>
   pb_iter \<Rightarrow> (unit, 's, 'h) pb_op" where
  "packed_pointer env defaults func it s =
     (let allocated = get_count (it_size it) s
      in andthen (on_stream pb_make_string_substream s) (\<lambda>sub s.
           andthen (packed_pointer_loop (packed_entry env defaults func it) (it_size it) allocated (s\<lparr>p_in := sub\<rparr>))
             (\<lambda>(status, too_many) s'.
               let parent = (if too_many then (p_in s)\<lparr>is_err := Some ''too many array entries''\<rparr> else p_in s)
               in andthen (on_stream (\<lambda>st. pb_close_string_substream st (p_in s')) (s'\<lparr>p_in := parent\<rparr>))
                    (\<lambda>_. status_of status))))"

definition decode_pointer_field ::
  "('s, 'h) pb_env \<Rightarrow> (pb_field list \<Rightarrow> nat \<Rightarrow> (unit, 's, 'h) pb_op) \<Rightarrow> (pb_iter \<Rightarrow> (unit, 's, 'h) pb_op) \<Rightarrow>
   (nat \<Rightarrow> (unit, 's, 'h) pb_op) \<Rightarrow> u32 \<Rightarrow> pb_iter \<Rightarrow> (unit, 's, 'h) pb_op" where
  "decode_pointer_field env defaults release_single func wire_type it s =
     (let field = field_of it; t = f_type field; pData = it_data it; pSize = it_size it
      in if PB_HTYPE t \<noteq> PB_HTYPE_REPEATED then
           andthen
             (if PB_LTYPE t = PB_LTYPE_SUBMESSAGE \<and> read_pointer (p_mem s) pData \<noteq> 0 then release_single it s
              else ret () s)
             (\<lambda>_ s.
               let s = (if PB_HTYPE t = PB_HTYPE_ONEOF then set_count pSize (unat (f_tag field)) s else s)
               in if PB_LTYPE t = PB_LTYPE_STRING \<or> PB_LTYPE t = PB_LTYPE_BYTES then func pData s
                  else
                    andthen (allocate_field env pData (f_data_size field) 1 s) (\<lambda>_ s.
                      andthen (initialize_pointer_field defaults (read_pointer (p_mem s) pData) field s)
                        (\<lambda>_ s. func (read_pointer (p_mem s) pData) s)))
         else if wire_type = PB_WT_STRING \<and> PB_LTYPE t \<le> PB_LTYPE_LAST_PACKABLE then
           packed_pointer env defaults func it s
         else if get_count pSize s = PB_SIZE_MAX then pb_error ''too many array entries'' s
         else
           andthen (allocate_field env pData (f_data_size field) (get_count pSize s + 1) s) (\<lambda>_ s.
             let pItem = read_pointer (p_mem s) pData + f_data_size field * get_count pSize s;
                 s = set_count pSize (get_count pSize s + 1) s
             in andthen (initialize_pointer_field defaults pItem field s) (\<lambda>_. func pItem)))"

section \<open>Callback fields\<close>

text \<open>In \<open>pb_callback_t\<close> the function is at 0 and \<open>arg\<close> at 8.\<close>

partial_function (option) callback_loop ::
  "(('s, 'h) pb_state \<Rightarrow> bool \<times> ('s, 'h) pb_state) \<Rightarrow> (bool, 's, 'h) pb_op" where
  "callback_loop f s =
     (case f s of (ok, s) \<Rightarrow>
        if \<not> ok then ret False s
        else if is_left (p_in s) \<noteq> 0 then callback_loop f s
        else ret True s)"

definition decode_callback_field :: "('s, 'h) pb_env \<Rightarrow> u32 \<Rightarrow> pb_iter \<Rightarrow> (unit, 's, 'h) pb_op" where
  "decode_callback_field env wire_type it s =
     (let pCallback = it_data it; decode = read_pointer (p_mem s) pCallback;
          call = e_callback env decode (field_of it) (pCallback + 8)
      in if pCallback = 0 \<or> decode = 0 then on_stream (pb_skip_field wire_type) s
         else if wire_type = PB_WT_STRING then
           andthen (on_stream pb_make_string_substream s) (\<lambda>sub s.
             andthen (callback_loop call (s\<lparr>p_in := sub\<rparr>)) (\<lambda>ok s'.
               if \<not> ok then pb_error ''callback failed'' (s'\<lparr>p_in := p_in s\<rparr>)
               else on_stream (\<lambda>st. pb_close_string_substream st (p_in s')) (s'\<lparr>p_in := p_in s\<rparr>)))
         else
           andthen (on_stream (read_raw_value wire_type 10) s) (\<lambda>d s.
             case call (s\<lparr>p_in := pb_istream_from_buffer d (length d)\<rparr>) of
               (ok, s') \<Rightarrow> passed (ok, s'\<lparr>p_in := p_in s\<rparr>)))"

section \<open>One field\<close>

definition pb_release_union_field ::
  "(pb_iter \<Rightarrow> (unit, 's, 'h) pb_op) \<Rightarrow> pb_iter \<Rightarrow> (pb_iter, 's, 'h) pb_op" where
  "pb_release_union_field release_single it s =
     (let old_tag = of_nat (get_count (it_size it) s) :: u32; new_tag = f_tag (field_of it)
      in if old_tag = 0 \<or> old_tag = new_tag then ret it s
         else
           (case pb_field_iter_find old_tag it of
              (False, _) \<Rightarrow> pb_error ''invalid union tag'' s
            | (True, it) \<Rightarrow>
                andthen (release_single it s) (\<lambda>_ s.
                  case pb_field_iter_find new_tag it of
                    (False, _) \<Rightarrow> pb_error ''iterator error'' s
                  | (True, it) \<Rightarrow> ret it s)))"

definition pb_decode_with ::
  "('s, 'h) pb_env \<Rightarrow> nat \<Rightarrow> (pb_field list \<Rightarrow> nat \<Rightarrow> (unit, 's, 'h) pb_op) \<Rightarrow> pb_field list \<Rightarrow> nat \<Rightarrow>
   (unit, 's, 'h) pb_op" where
  "pb_decode_with env n noinit fs dest s =
     andthen (pb_message_set_to_defaults env n fs dest s) (\<lambda>_ s.
       case noinit fs dest s of
         None \<Rightarrow> None
       | Some (Some _, s) \<Rightarrow> ret () s
       | Some (None, s) \<Rightarrow> andthen (pb_release env n fs dest s) (\<lambda>_ s. Some (None, s)))"

definition decode_field ::
  "('s, 'h) pb_env \<Rightarrow> nat \<Rightarrow> (pb_field list \<Rightarrow> nat \<Rightarrow> (unit, 's, 'h) pb_op) \<Rightarrow> u32 \<Rightarrow> pb_iter \<Rightarrow>
   (pb_iter, 's, 'h) pb_op" where
  "decode_field env n noinit wire_type it s =
     andthen
       (if PB_HTYPE (f_type (field_of it)) = PB_HTYPE_ONEOF
        then pb_release_union_field (pb_release_single_field env n) it s else ret it s)
       (\<lambda>it s.
         let field = field_of it; a = PB_ATYPE (f_type field);
             func = pb_decoder env noinit (pb_decode_with env n noinit) field
         in andthen
             (if a = PB_ATYPE_STATIC then
                decode_static_field (pb_message_set_to_defaults env n) func wire_type it s
              else if a = PB_ATYPE_POINTER then
                decode_pointer_field env (pb_message_set_to_defaults env n) (pb_release_single_field env n)
                  func wire_type it s
              else if a = PB_ATYPE_CALLBACK then decode_callback_field env wire_type it s
              else pb_error ''invalid field type'' s)
             (\<lambda>_. ret it))"

section \<open>Extensions\<close>

definition default_extension_decoder ::
  "('s, 'h) pb_env \<Rightarrow> nat \<Rightarrow> (pb_field list \<Rightarrow> nat \<Rightarrow> (unit, 's, 'h) pb_op) \<Rightarrow> nat \<Rightarrow> u32 \<Rightarrow> u32 \<Rightarrow>
   (unit, 's, 'h) pb_op" where
  "default_extension_decoder env n noinit ext tag wire_type s =
     (if f_tag (extension_field env ext (p_mem s)) \<noteq> tag then ret () s
      else
        let it = iter_from_extension env ext (p_mem s); s = poke (write_bytes (ext + 24) [1]) s
        in andthen (decode_field env n noinit wire_type it s) (\<lambda>_. ret ()))"

definition decode_extension ::
  "('s, 'h) pb_env \<Rightarrow> nat \<Rightarrow> (pb_field list \<Rightarrow> nat \<Rightarrow> (unit, 's, 'h) pb_op) \<Rightarrow> u32 \<Rightarrow> u32 \<Rightarrow> pb_iter \<Rightarrow>
   (unit, 's, 'h) pb_op" where
  "decode_extension env n noinit tag wire_type it s =
     (let pos = is_left (p_in s)
      in each_extension (\<lambda>s. pos = is_left (p_in s))
           (\<lambda>ext s.
             let decode = read_pointer (p_mem s) (read_pointer (p_mem s) ext)
             in if decode \<noteq> 0 then passed (e_extension env decode ext tag wire_type s)
                else default_extension_decoder env n noinit ext tag wire_type s)
           (read_pointer (p_mem s) (it_data it)) s)"

section \<open>All fields\<close>

text \<open>What the loop carries: the iterator, the required fields seen, the lowest tag that may be an
  extension, and the repeated field of fixed count that is being counted.\<close>

record pb_loop =
  l_iter :: pb_iter
  l_seen :: "u32 list"
  l_ext_start :: u32
  l_fixed :: "nat option"

definition mark_seen :: "nat \<Rightarrow> u32 list \<Rightarrow> u32 list" where
  "mark_seen i seen =
     seen[i div 32 := seen ! (i div 32) OR push_bit (i mod 32) 1]"

definition unknown_field ::
  "('s, 'h) pb_env \<Rightarrow> nat \<Rightarrow> (pb_field list \<Rightarrow> nat \<Rightarrow> (unit, 's, 'h) pb_op) \<Rightarrow> u32 \<Rightarrow> u32 \<Rightarrow> pb_loop \<Rightarrow>
   (pb_loop, 's, 'h) pb_op" where
  "unknown_field env n noinit wire_type tag l s =
     (let (start, it) =
        (if tag \<ge> l_ext_start l then
           (case find_extension_field (l_iter l) of
              (found, it) \<Rightarrow> (if found then f_tag (field_of it) else - 1, it))
         else (l_ext_start l, l_iter l));
          l' = l\<lparr>l_ext_start := start, l_iter := it\<rparr>
      in if tag \<ge> l_ext_start l \<and> tag \<ge> start then
           let pos = is_left (p_in s)
           in andthen (decode_extension env n noinit tag wire_type it s) (\<lambda>_ s.
                if pos \<noteq> is_left (p_in s) then ret l' s
                else andthen (on_stream (pb_skip_field wire_type) s) (\<lambda>_. ret l'))
         else andthen (on_stream (pb_skip_field wire_type) s) (\<lambda>_. ret l'))"

definition wrong_count :: "pb_loop \<Rightarrow> ('s, 'h) pb_state \<Rightarrow> bool" where
  "wrong_count l s \<longleftrightarrow>
     (case l_fixed l of
        None \<Rightarrow> False
      | Some i \<Rightarrow> p_count s \<noteq> f_array_size (field_at (it_start (l_iter l)) i))"

definition known_field ::
  "('s, 'h) pb_env \<Rightarrow> nat \<Rightarrow> (pb_field list \<Rightarrow> nat \<Rightarrow> (unit, 's, 'h) pb_op) \<Rightarrow> u32 \<Rightarrow> pb_loop \<Rightarrow>
   (pb_loop, 's, 'h) pb_op" where
  "known_field env n noinit wire_type l s =
     (let it = l_iter l; t = f_type (field_of it);
          fixed = PB_HTYPE t = PB_HTYPE_REPEATED \<and> it_size it = At (it_data it)
      in if fixed \<and> l_fixed l \<noteq> Some (it_pos it) \<and> wrong_count l s
         then pb_error ''wrong size for fixed count field'' s
         else
           let s = (if fixed \<and> l_fixed l \<noteq> Some (it_pos it) then s\<lparr>p_count := 0\<rparr> else s);
               l = (if fixed then l\<lparr>l_fixed := Some (it_pos it), l_iter := it\<lparr>it_size := Fixed_count\<rparr>\<rparr> else l);
               l = (if PB_HTYPE t = PB_HTYPE_REQUIRED \<and> it_required it < PB_MAX_REQUIRED_FIELDS
                    then l\<lparr>l_seen := mark_seen (it_required it) (l_seen l)\<rparr> else l)
           in andthen (decode_field env n noinit wire_type (l_iter l) s) (\<lambda>it. ret (l\<lparr>l_iter := it\<rparr>)))"

partial_function (option) message_loop ::
  "(u32 \<Rightarrow> u32 \<Rightarrow> pb_loop \<Rightarrow> (pb_loop, 's, 'h) pb_op) \<Rightarrow> (u32 \<Rightarrow> pb_loop \<Rightarrow> (pb_loop, 's, 'h) pb_op) \<Rightarrow>
   pb_loop \<Rightarrow> (pb_loop, 's, 'h) pb_op" where
  "message_loop unknown known l s =
     (if is_left (p_in s) = 0 then ret l s
      else
        (case pb_decode_tag (p_in s) of (r, st) \<Rightarrow>
           if r = Inl True then ret l (s\<lparr>p_in := st\<rparr>)
           else if r = Inl False then Some (None, s\<lparr>p_in := st\<rparr>)
           else
             (case pb_field_iter_find (snd (projr r)) (l_iter l) of (found, it) \<Rightarrow>
                andthen
                  (if found then known (fst (projr r)) (l\<lparr>l_iter := it\<rparr>) (s\<lparr>p_in := st\<rparr>)
                   else unknown (fst (projr r)) (snd (projr r)) (l\<lparr>l_iter := it\<rparr>) (s\<lparr>p_in := st\<rparr>))
                  (message_loop unknown known))))"

text \<open>The walk to the last field gives the number of required fields.\<close>

fun last_field :: "nat \<Rightarrow> pb_iter \<Rightarrow> nat \<times> u8" where
  "last_field 0 it = (it_required it, f_type (field_of it))"
| "last_field (Suc k) it =
     (case pb_field_iter_next it of (again, it') \<Rightarrow>
        if again then last_field k it' else (it_required it, f_type (field_of it)))"

definition required_count :: "pb_iter \<Rightarrow> nat" where
  "required_count it =
     (case last_field (length (it_start it) + 1) it of (n, t) \<Rightarrow>
        min PB_MAX_REQUIRED_FIELDS
          (if PB_HTYPE t = PB_HTYPE_REQUIRED \<and> f_tag (field_at (it_start it) 0) \<noteq> 0 then n + 1 else n))"

definition all_seen :: "nat \<Rightarrow> u32 list \<Rightarrow> bool" where
  "all_seen n seen \<longleftrightarrow>
     (\<forall>i\<in>{0..<n div 32}. seen ! i = - 1) \<and>
     (n mod 32 = 0 \<or> seen ! (n div 32) = drop_bit (32 - n mod 32) (- 1))"

definition noinit_body ::
  "('s, 'h) pb_env \<Rightarrow> nat \<Rightarrow> (pb_field list \<Rightarrow> nat \<Rightarrow> (unit, 's, 'h) pb_op) \<Rightarrow> pb_field list \<Rightarrow> nat \<Rightarrow>
   (unit, 's, 'h) pb_op" where
  "noinit_body env n noinit fs dest s =
     (let l = \<lparr>l_iter = snd (pb_field_iter_begin fs dest), l_seen = [0, 0], l_ext_start = 0, l_fixed = None\<rparr>
      in map_option (\<lambda>(r, s'). (r, s'\<lparr>p_count := p_count s\<rparr>))
           (andthen (message_loop (unknown_field env n noinit) (known_field env n noinit) l (s\<lparr>p_count := 0\<rparr>))
             (\<lambda>l s.
               if wrong_count l s then pb_error ''wrong size for fixed count field'' s
               else if \<not> all_seen (required_count (l_iter l)) (l_seen l)
               then pb_error ''missing required field'' s
               else ret () s)))"

primrec pb_decode_noinit ::
  "('s, 'h) pb_env \<Rightarrow> nat \<Rightarrow> pb_field list \<Rightarrow> nat \<Rightarrow> (unit, 's, 'h) pb_op" where
  "pb_decode_noinit env 0 = (\<lambda>fs dest s. None)"
| "pb_decode_noinit env (Suc n) = noinit_body env n (pb_decode_noinit env n)"

definition pb_decode :: "('s, 'h) pb_env \<Rightarrow> nat \<Rightarrow> pb_field list \<Rightarrow> nat \<Rightarrow> (unit, 's, 'h) pb_op" where
  "pb_decode env n = pb_decode_with env n (pb_decode_noinit env n)"

definition pb_decode_delimited_noinit ::
  "('s, 'h) pb_env \<Rightarrow> nat \<Rightarrow> pb_field list \<Rightarrow> nat \<Rightarrow> (unit, 's, 'h) pb_op" where
  "pb_decode_delimited_noinit env n fs dest = in_substream (pb_decode_noinit env n fs dest)"

definition pb_decode_delimited :: "('s, 'h) pb_env \<Rightarrow> nat \<Rightarrow> pb_field list \<Rightarrow> nat \<Rightarrow> (unit, 's, 'h) pb_op" where
  "pb_decode_delimited env n fs dest = in_substream (pb_decode env n fs dest)"

definition pb_decode_nullterminated :: "('s, 'h) pb_env \<Rightarrow> nat \<Rightarrow> pb_field list \<Rightarrow> nat \<Rightarrow> (unit, 's, 'h) pb_op" where
  "pb_decode_nullterminated env n fs dest = pb_decode env n fs dest"

end
