(* ===== verification/PbSafe.thy ===== *)
theory PbSafe
  imports PbMsgLoop
begin

text \<open>
  Decoding returns and stays inside the structure: for descriptors whose fields are all stored in
  the structure, every operation returns, changes no memory outside the structure, and moves the
  stream only forward, whatever the input.
\<close>

unbundle bit_operations_syntax

section \<open>Streams move forward\<close>

text \<open>\<open>forward\<close>: a reader never gives bytes back. \<open>consuming\<close>: it takes at least one if it succeeds.\<close>

definition forward :: "('s pb_istream \<Rightarrow> 'a \<times> 's pb_istream) \<Rightarrow> bool" where
  "forward f \<longleftrightarrow> (\<forall>st r st'. f st = (r, st') \<longrightarrow> is_left st' \<le> is_left st)"

definition consuming :: "('s pb_istream \<Rightarrow> 'a option \<times> 's pb_istream) \<Rightarrow> bool" where
  "consuming f \<longleftrightarrow> forward f \<and> (\<forall>st v st'. f st = (Some v, st') \<longrightarrow> is_left st' < is_left st)"

lemma forwardI: "(\<And>st r st'. f st = (r, st') \<Longrightarrow> is_left st' \<le> is_left st) \<Longrightarrow> forward f"
  unfolding forward_def by blast

lemma forwardD: "forward f \<Longrightarrow> f st = (r, st') \<Longrightarrow> is_left st' \<le> is_left st"
  unfolding forward_def by blast

lemma consumingI:
  "forward f \<Longrightarrow> (\<And>st v st'. f st = (Some v, st') \<Longrightarrow> is_left st' < is_left st) \<Longrightarrow> consuming f"
  unfolding consuming_def by blast

lemma consumingD: "consuming f \<Longrightarrow> f st = (Some v, st') \<Longrightarrow> is_left st' < is_left st"
  unfolding consuming_def by blast

lemma consuming_forward: "consuming f \<Longrightarrow> forward f"
  unfolding consuming_def by blast

named_theorems forward_rules

lemma forward_fail [forward_rules]: "forward (fail msg)"
  by (auto simp: forward_def fail_def)

lemma forward_pair [forward_rules]: "forward (\<lambda>st. (r, st))"
  by (simp add: forward_def)

lemma forward_if [forward_rules]: "forward f \<Longrightarrow> forward g \<Longrightarrow> forward (\<lambda>st. if P st then f st else g st)"
  by (simp add: forward_def)

lemma forward_on_ok [forward_rules]:
  assumes f: "forward f" and k: "\<And>a. forward (k a)"
  shows "forward (\<lambda>st. on_ok (f st) k)"
proof (rule forwardI)
  fix st r st' assume run: "on_ok (f st) k = (r, st')"
  obtain x st1 where one: "f st = (x, st1)" by fastforce
  show "is_left st' \<le> is_left st"
    using run one forwardD [OF f one] forwardD [OF k] by (cases x) (auto, meson order_trans)
qed

lemma consuming_on_ok:
  assumes f: "consuming f" and k: "\<And>a. forward (k a)"
  shows "consuming (\<lambda>st. on_ok (f st) k)"
proof (rule consumingI)
  show "forward (\<lambda>st. on_ok (f st) k)"
    by (rule forward_on_ok [OF consuming_forward [OF f] k])
next
  fix st v st' assume "on_ok (f st) k = (Some v, st')"
  then obtain a st1 where "f st = (Some a, st1)" "k a st1 = (Some v, st')" by (auto simp: on_ok_Some)
  then show "is_left st' < is_left st"
    using consumingD [OF f] forwardD [OF k] by (meson le_less_trans)
qed

lemma forward_read_into [forward_rules]: "forward (read_into n)"
  by (rule forwardI)
    (auto simp: read_into_def fail_def split: if_splits prod.splits option.splits dest: call_input_left)

lemma forward_pb_read [forward_rules]: "forward (pb_read n)"
  unfolding pb_read_def by (rule forward_read_into)

lemma consuming_pb_read: "0 < n \<Longrightarrow> consuming (pb_read n)"
  by (rule consumingI [OF forward_pb_read]) (auto simp: pb_read_def dest!: read_into_left)

lemma consuming_readbyte: "consuming pb_readbyte"
  by (rule consumingI [OF _ pb_readbyte_less], rule forwardI)
    (auto simp: pb_readbyte_def fail_def split: if_splits prod.splits option.splits dest: call_input_left)

lemma forward_skip_loop [forward_rules]: "forward (skip_loop n)"
proof (induction n rule: less_induct)
  case (less n)
  show ?case
    using less [of "n - 16"]
    by (subst skip_loop.simps [abs_def]) (cases "n > 16"; simp add: forward_rules)
qed

lemma forward_pb_read_null [forward_rules]: "forward (pb_read_null n)"
proof -
  have "forward (\<lambda>st. if n \<noteq> 0 \<and> \<not> from_buffer st then skip_loop n st else read_into n st)"
    by (intro forward_rules)
  from forward_on_ok [OF this, of "\<lambda>_ st. (Some (), st)"] show ?thesis
    by (simp add: pb_read_null_def [abs_def] forward_rules)
qed


lemma forward_varint32_loop: "varint32_loop b r st = (x, st') \<Longrightarrow> is_left st' \<le> is_left st"
proof (induction "is_left st" arbitrary: b r st rule: less_induct)
  case less
  obtain y st1 where read: "pb_readbyte st = (y, st1)" by fastforce
  show ?case
  proof (cases y)
    case None
    then show ?thesis
      using less(2) [unfolded varint32_loop.simps [of b r st]] read
        forwardD [OF consuming_forward [OF consuming_readbyte] read] by simp
  next
    case (Some c)
    have "is_left st1 < is_left st" using consumingD [OF consuming_readbyte] read Some by blast
    moreover from this have "varint32_loop b' r' st1 = (x, st') \<Longrightarrow> is_left st' \<le> is_left st" for b' r'
      using less(1) by fastforce
    ultimately show ?thesis
      using less(2) [unfolded varint32_loop.simps [of b r st]] read Some
      by (auto simp: Let_def fail_def split: if_splits)
  qed
qed

lemma forward_varint_loop: "varint_loop b r st = (x, st') \<Longrightarrow> is_left st' \<le> is_left st"
proof (induction "is_left st" arbitrary: b r st rule: less_induct)
  case less
  obtain y st1 where read: "pb_readbyte st = (y, st1)" by fastforce
  show ?case
  proof (cases y)
    case None
    then show ?thesis
      using less(2) [unfolded varint_loop.simps [of b r st]] read
        forwardD [OF consuming_forward [OF consuming_readbyte] read] by (auto simp: fail_def split: if_splits)
  next
    case (Some c)
    have "is_left st1 < is_left st" using consumingD [OF consuming_readbyte] read Some by blast
    moreover from this have "varint_loop b' r' st1 = (x, st') \<Longrightarrow> is_left st' \<le> is_left st" for b' r'
      using less(1) by fastforce
    ultimately show ?thesis
      using less(2) [unfolded varint_loop.simps [of b r st]] read Some
      by (auto simp: Let_def fail_def split: if_splits)
  qed
qed

lemma varint_loop_consuming:
  assumes "varint_loop b r st = (Some v, st')"
  shows "is_left st' < is_left st"
proof -
  obtain c st1 where "pb_readbyte st = (Some c, st1)"
    and "(Some v, st') = (Some (r OR push_bit b (ucast (c AND 127))), st1) \<or>
         (\<exists>b r. varint_loop b r st1 = (Some v, st'))"
    using assms [unfolded varint_loop.simps [of b r st]]
    by (auto simp: on_ok_Some Let_def fail_def split: if_splits)
  then have "is_left st1 < is_left st" and "is_left st' \<le> is_left st1"
    using consumingD [OF consuming_readbyte] by (blast, auto dest: forward_varint_loop)
  then show ?thesis by simp
qed

lemma varint32_eof_left:
  assumes "pb_decode_varint32_eof st = ((r, eof), st')"
  shows "is_left st' \<le> is_left st \<and> (r \<noteq> None \<longrightarrow> is_left st' < is_left st)"
proof (cases "pb_readbyte st")
  case (Pair y st1)
  show ?thesis
  proof (cases y)
    case None
    then show ?thesis
      using assms Pair forwardD [OF consuming_forward [OF consuming_readbyte] Pair]
      by (auto simp: pb_decode_varint32_eof_def)
  next
    case (Some c)
    then have less: "is_left st1 < is_left st" using consumingD [OF consuming_readbyte] Pair by blast
    have "is_left st' \<le> is_left st1"
      using assms Pair Some
      by (auto simp: pb_decode_varint32_eof_def split: option.splits prod.splits if_splits dest: forward_varint32_loop)
    then show ?thesis using less by simp
  qed
qed

lemma consuming_varint32: "consuming pb_decode_varint32"
  unfolding consuming_def forward_def pb_decode_varint32_def
  by (auto split: prod.splits dest!: varint32_eof_left)

lemma consuming_varint: "consuming pb_decode_varint"
  unfolding consuming_def forward_def pb_decode_varint_def
  using forward_varint_loop varint_loop_consuming by blast

lemma consuming_svarint: "consuming pb_decode_svarint"
  unfolding pb_decode_svarint_def [abs_def] by (intro consuming_on_ok consuming_varint forward_rules)

lemma consuming_fixed32: "consuming pb_decode_fixed32"
  unfolding pb_decode_fixed32_def [abs_def] by (intro consuming_on_ok consuming_pb_read forward_rules) simp

lemma consuming_fixed64: "consuming pb_decode_fixed64"
  unfolding pb_decode_fixed64_def [abs_def] by (intro consuming_on_ok consuming_pb_read forward_rules) simp

lemmas consuming_readers = consuming_varint32 consuming_varint consuming_svarint consuming_fixed32 consuming_fixed64
lemmas forward_readers [forward_rules] = consuming_readers [THEN consuming_forward]

lemma forward_skip_varint [forward_rules]: "forward pb_skip_varint"
proof (rule forwardI)
  show "pb_skip_varint st = (r, st') \<Longrightarrow> is_left st' \<le> is_left st" for st r and st' :: "'s pb_istream"
  proof (induction st arbitrary: r st' rule: pb_skip_varint.induct)
    case (1 st)
    obtain y st1 where read: "pb_read 1 st = (y, st1)" by fastforce
    show ?case
      using 1(2) [unfolded pb_skip_varint.simps [of st]] read forwardD [OF forward_pb_read read] 1(1) [of _ st1 r st']
      by (cases y) (auto split: if_splits)
  qed
qed

lemma forward_skip_field [forward_rules]: "forward (pb_skip_field w)"
  unfolding pb_skip_field_def [abs_def] pb_skip_string_def [abs_def] by (intro forward_rules)

lemma decode_tag_left:
  assumes "pb_decode_tag st = (r, st')"
  shows "is_left st' \<le> is_left st \<and> (\<forall>w t. r = Inr (w, t) \<longrightarrow> is_left st' < is_left st \<and> t < - 1)"
proof -
  have top: "drop_bit 3 v < - 1" for v :: u32
    using unsigned_less [where 'a=nat, of v]
    by (simp add: word_less_nat_alt unat_drop_bit_eq drop_bit_nat_def unsigned_minus_1_eq_mask mask_eq_exp_minus_1)
  show ?thesis
    using assms top by (auto simp: pb_decode_tag_def split: prod.splits option.splits if_splits dest!: varint32_eof_left)
qed

lemma make_substream_left:
  "pb_make_string_substream st = (r, st') \<Longrightarrow>
     is_left st' \<le> is_left st \<and> (\<forall>sub. r = Some sub \<longrightarrow> is_left st' + is_left sub < is_left st)"
  unfolding pb_make_string_substream_def
  by (cases "pb_decode_varint32 st"; cases "fst (pb_decode_varint32 st)")
    (auto simp: fail_def split: if_splits dest!: consumingD [OF consuming_varint32]
      dest: forwardD [OF consuming_forward [OF consuming_varint32]])

lemma close_substream_left: "pb_close_string_substream st sub = (r, st') \<Longrightarrow> is_left st' = is_left st"
  by (auto simp: pb_close_string_substream_def split: prod.splits option.splits)


section \<open>Safe steps\<close>

text \<open>
  From \<open>s\<close> to \<open>s'\<close> only the memory from \<open>a\<close> on, \<open>n\<close> bytes, may differ, the allocator was not called
  and the stream did not go back. A run is \<open>safe\<close> if it returns, stays within these bounds, and gives
  a result for which \<open>Q\<close> holds whenever it succeeds.
\<close>

definition within :: "nat \<Rightarrow> nat \<Rightarrow> ('s, 'h) pb_state \<Rightarrow> ('s, 'h) pb_state \<Rightarrow> bool" where
  "within a n s s' \<longleftrightarrow>
     (\<forall>x. x < a \<or> a + n \<le> x \<longrightarrow> p_mem s' x = p_mem s x) \<and> p_heap s' = p_heap s \<and>
     is_left (p_in s') \<le> is_left (p_in s)"

definition safe ::
  "nat \<Rightarrow> nat \<Rightarrow> ('s, 'h) pb_state \<Rightarrow> ('a \<Rightarrow> ('s, 'h) pb_state \<Rightarrow> bool) \<Rightarrow>
   ('a option \<times> ('s, 'h) pb_state) option \<Rightarrow> bool" where
  "safe a n s Q x \<longleftrightarrow>
     (\<exists>r s'. x = Some (r, s') \<and> within a n s s' \<and> (\<forall>v. r = Some v \<longrightarrow> Q v s'))"

abbreviation "anything \<equiv> \<lambda>_ _. True"

named_theorems safe_rules

lemma within_refl [simp, intro]: "within a n s s"
  by (simp add: within_def)

lemma within_trans: "within a n s s' \<Longrightarrow> within a n s' s'' \<Longrightarrow> within a n s s''"
  by (auto simp: within_def)

lemma within_widen: "within a n s s' \<Longrightarrow> b \<le> a \<Longrightarrow> a + n \<le> b + m \<Longrightarrow> within b m s s'"
  by (auto simp: within_def)

lemma safe_widen: "safe a n s Q x \<Longrightarrow> b \<le> a \<Longrightarrow> a + n \<le> b + m \<Longrightarrow> safe b m s Q x"
  unfolding safe_def using within_widen by blast

lemma safe_weaken: "safe a n s Q x \<Longrightarrow> (\<And>v s'. Q v s' \<Longrightarrow> R v s') \<Longrightarrow> safe a n s R x"
  unfolding safe_def by blast

lemma safe_from: "within a n s s1 \<Longrightarrow> safe a n s1 Q x \<Longrightarrow> safe a n s Q x"
  unfolding safe_def using within_trans by blast

lemma safe_Some: "within a n s s' \<Longrightarrow> (\<And>v. r = Some v \<Longrightarrow> Q v s') \<Longrightarrow> safe a n s Q (Some (r, s'))"
  by (simp add: safe_def)

lemma safe_ret: "within a n s s' \<Longrightarrow> Q v s' \<Longrightarrow> safe a n s Q (ret v s')"
  by (simp add: ret_def safe_def)

lemma safe_andthen:
  assumes "safe a n s Q x" and "\<And>v s'. within a n s s' \<Longrightarrow> Q v s' \<Longrightarrow> safe a n s' R (k v s')"
  shows "safe a n s R (andthen x k)"
proof -
  from assms(1) obtain r s' where x: "x = Some (r, s')" "within a n s s'" "\<And>v. r = Some v \<Longrightarrow> Q v s'"
    unfolding safe_def by blast
  show ?thesis
  proof (cases r)
    case None
    then show ?thesis using x by (simp add: safe_def)
  next
    case (Some v)
    then show ?thesis using x safe_from [OF x(2) assms(2) [OF x(2)]] by simp
  qed
qed

lemma safe_stream:
  assumes "forward f"
    and "\<And>v st. f (p_in s) = (Some v, st) \<Longrightarrow> Q v (s\<lparr>p_in := st\<rparr>)"
  shows "safe a n s Q (on_stream f s)"
  using forwardD [OF assms(1)] assms(2)
  by (cases "f (p_in s)") (auto simp: on_stream_def safe_def within_def)

lemma safe_error: "safe a n s Q (pb_error msg s)"
  unfolding pb_error_def by (rule safe_stream [OF forward_fail]) (simp add: fail_def)

lemma within_poke: "a \<le> b \<Longrightarrow> b + length d \<le> a + n \<Longrightarrow> within a n s (poke (write_bytes b d) s)"
  by (simp add: within_def poke_def write_bytes_outside)

lemma within_set_count: "(\<And>b. loc = At b \<Longrightarrow> a \<le> b \<and> b + 4 \<le> a + n) \<Longrightarrow> within a n s (set_count loc k s)"
  by (cases loc) (simp_all add: set_count_def write_count_def within_poke, simp add: within_def)

lemma within_set_flag: "(\<And>b. loc = At b \<Longrightarrow> a \<le> b \<and> b + 1 \<le> a + n) \<Longrightarrow> within a n s (set_flag loc k s)"
  by (cases loc) (auto simp: set_flag_def within_poke)

text \<open>The outer stream of a substream comes back where the substream was taken off.\<close>

lemma safe_put_back:
  assumes "within a n (s\<lparr>p_in := sub\<rparr>) s'" and "is_left st \<le> is_left (p_in s)"
  shows "within a n s (s'\<lparr>p_in := st\<rparr>)"
  using assms by (auto simp: within_def)

section \<open>Values\<close>

abbreviation taken :: "('s, 'h) pb_state \<Rightarrow> 'a \<Rightarrow> ('s, 'h) pb_state \<Rightarrow> bool" where
  "taken s \<equiv> \<lambda>_ s'. is_left (p_in s') < is_left (p_in s)"

lemma poke_in [simp]: "p_in (poke f s) = p_in s"
  by (simp add: poke_def)

lemma safe_consume: "consuming f \<Longrightarrow> safe a n s (taken s) (on_stream f s)"
  by (rule safe_stream) (auto dest: consuming_forward consumingD)

lemma safe_store:
  assumes "consuming f" and "\<And>v. length (d v) \<le> n"
  shows "safe a n s (taken s) (andthen (on_stream f s) (\<lambda>v s. ret () (poke (write_bytes a (d v)) s)))"
  by (rule safe_andthen [OF safe_consume [OF assms(1)]]) (auto intro!: safe_ret within_poke simp: assms(2))

lemma safe_bool: "1 \<le> n \<Longrightarrow> safe a n s (taken s) (pb_dec_bool a s)"
  unfolding pb_dec_bool_def by (rule safe_store [OF consuming_varint32]) simp

lemma safe_fixed32: "4 \<le> n \<Longrightarrow> safe a n s (taken s) (pb_dec_fixed32 a s)"
  unfolding pb_dec_fixed32_def by (rule safe_store [OF consuming_fixed32]) simp

lemma safe_fixed64: "8 \<le> n \<Longrightarrow> safe a n s (taken s) (pb_dec_fixed64 a s)"
  unfolding pb_dec_fixed64_def by (rule safe_store [OF consuming_fixed64]) simp

lemma safe_store_clamped:
  assumes "is_left (p_in s) < is_left (p_in t)" and "f_data_size f \<le> n"
  shows "safe a n s (taken t) (store_clamped b f a v s)"
  using assms
  by (auto simp: store_clamped_def Let_def split: option.splits intro!: safe_error safe_ret within_poke
      intro: safe_from [OF within_poke safe_error])

lemma safe_ints:
  assumes "f_data_size f \<le> n"
  shows "safe a n s (taken s) (pb_dec_varint f a s)"
    and "safe a n s (taken s) (pb_dec_uvarint f a s)"
    and "safe a n s (taken s) (pb_dec_svarint f a s)"
  unfolding pb_dec_varint_def pb_dec_uvarint_def pb_dec_svarint_def
  by (rule safe_andthen [OF safe_consume], rule consuming_readers,
      rule safe_store_clamped [OF _ assms], assumption)+

lemma safe_read_to: "a \<le> b \<Longrightarrow> b + k \<le> a + n \<Longrightarrow> safe a n s anything (read_to b k s)"
  unfolding read_to_def
  by (rule safe_andthen [OF safe_stream [where Q = "\<lambda>d _. length d \<le> k"]])
    (auto intro!: safe_ret within_poke forward_rules simp: pb_read_def read_into_def fail_def call_input_def
      split: if_splits option.splits prod.splits pb_input.splits)


lemma safe_dec_bytes:
  assumes "PB_ATYPE (f_type f) = PB_ATYPE_STATIC" and "f_data_size f \<le> n"
  shows "safe a n s anything (pb_dec_bytes env f a s)"
  unfolding pb_dec_bytes_def
proof (rule safe_andthen [OF safe_consume [OF consuming_varint32]])
  fix v :: u32 and s' :: "('a, 'b) pb_state"
  show "safe a n s' anything
    (let alloc_size = unat v + 4
     in andthen
         (if PB_ATYPE (f_type f) = PB_ATYPE_POINTER then
            andthen (allocate_field env a alloc_size 1 s') (\<lambda>_ s. ret (read_pointer (p_mem s) a) s)
          else if alloc_size > f_data_size f then pb_error ''bytes overflow'' s'
          else ret a s')
         (\<lambda>bdest s. read_to (bdest + 4) (unat v) (poke (write_count bdest (unat v)) s)))"
    using assms
    by (auto simp: Let_def pb_atypes safe_error pb_error_def [symmetric]
        intro!: safe_andthen [where Q = "\<lambda>b _. b = a \<and> unat v + 4 \<le> f_data_size f"] safe_ret safe_error
          safe_from [OF within_poke [of a a "word_bytes 4 (of_nat (unat v) :: u32)", folded write_count_def]] safe_read_to)
qed

lemma safe_dec_string:
  assumes "PB_ATYPE (f_type f) = PB_ATYPE_STATIC" and "f_data_size f \<le> n"
  shows "safe a n s anything (pb_dec_string env f a s)"
  unfolding pb_dec_string_def
proof (rule safe_andthen [OF safe_consume [OF consuming_varint32]])
  fix v :: u32 and s' :: "('a, 'b) pb_state"
  have zero: "safe a n t anything
      (map_option (\<lambda>(status, s). (status, poke (write_bytes (a + unat v) [0]) s)) (read_to a (unat v) t))"
    if "unat v + 1 \<le> n" for t :: "('a, 'b) pb_state"
  proof -
    from safe_read_to [of a a "unat v" n t] that
    obtain r t' where "read_to a (unat v) t = Some (r, t')" "within a n t t'" unfolding safe_def by auto
    then show ?thesis
      using that by (auto simp: safe_def intro!: within_trans [OF _ within_poke])
  qed
  have room: "unat v + 1 \<le> n" if "\<not> unat (v + 1) < unat v" "unat (v + 1) \<le> f_data_size f"
    using that assms(2) unsigned_less [where 'a=nat, of v]
    by (cases "unat v + 1 = 2 ^ 32") (auto simp: unat_word_ariths)
  show "safe a n s' anything
    (let alloc_size = unat (v + 1)
     in if alloc_size < unat v then pb_error ''size too large'' s'
        else andthen
              (if PB_ATYPE (f_type f) = PB_ATYPE_POINTER then
                 andthen (allocate_field env a alloc_size 1 s') (\<lambda>_ s. ret (read_pointer (p_mem s) a) s)
               else if alloc_size > f_data_size f then pb_error ''string overflow'' s'
               else ret a s')
              (\<lambda>dest s.
                 map_option (\<lambda>(status, s). (status, poke (write_bytes (dest + unat v) [0]) s))
                   (read_to dest (unat v) s)))"
    using assms(1) zero room
    by (auto simp: Let_def pb_atypes
        intro!: safe_andthen [where Q = "\<lambda>b _. b = a \<and> unat v + 1 \<le> n"] safe_ret safe_error)
qed

lemma safe_dec_fixed_length_bytes:
  assumes "f_data_size f \<le> n"
  shows "safe a n s anything (pb_dec_fixed_length_bytes f a s)"
  unfolding pb_dec_fixed_length_bytes_def
  by (rule safe_andthen [OF safe_consume [OF consuming_varint32]])
    (auto intro!: safe_ret safe_error safe_read_to within_poke simp: assms)

lemma forward_make_substream: "forward pb_make_string_substream"
  by (rule forwardI) (auto dest: make_substream_left)

lemma forward_close_substream: "forward (\<lambda>st. pb_close_string_substream st sub)"
  by (rule forwardI) (auto dest: close_substream_left)

lemma safe_in_substream:
  assumes "\<And>t. safe a n t anything (f t)"
  shows "safe a n s anything (in_substream f s)"
  unfolding in_substream_def
proof (rule safe_andthen [OF safe_stream [OF forward_make_substream, where Q = anything]])
  fix sub :: "'a pb_istream" and s' :: "('a, 'b) pb_state"
  obtain r t where run: "f (s'\<lparr>p_in := sub\<rparr>) = Some (r, t)" "within a n (s'\<lparr>p_in := sub\<rparr>) t"
    using assms [of "s'\<lparr>p_in := sub\<rparr>"] unfolding safe_def by blast
  have "safe a n (t\<lparr>p_in := p_in s'\<rparr>) anything
      (andthen (on_stream (\<lambda>st. pb_close_string_substream st (p_in t)) (t\<lparr>p_in := p_in s'\<rparr>)) (\<lambda>_ s. Some (r, s)))"
    by (rule safe_andthen [OF safe_stream [OF forward_close_substream, where Q = anything]]) (auto simp: safe_Some)
  from safe_from [OF safe_put_back [OF run(2)] this]
  show "safe a n s' anything
      (case f (s'\<lparr>p_in := sub\<rparr>) of
         None \<Rightarrow> None
       | Some (status, s'') \<Rightarrow>
           andthen (on_stream (\<lambda>st. pb_close_string_substream st (p_in s'')) (s''\<lparr>p_in := p_in s'\<rparr>))
             (\<lambda>_ s. Some (status, s)))"
    using run(1) by simp
qed simp

end
