(* ===== verification/PbInside.thy ===== *)
theory PbInside
  imports PbSafe
begin

text \<open>
  Messages whose fields are all stored in the structure. \<open>struct_ok\<close> is a check on descriptors that
  the generator's output passes: every field, its flag and its count lie in the structure. For such
  descriptors decoding is safe: it returns on every input and writes only to the structure.
\<close>

section \<open>Well-formed descriptors\<close>

text \<open>Where the data of the i-th field and its count or flag are, from the start of the structure.\<close>

fun data_pos :: "pb_field list \<Rightarrow> nat \<Rightarrow> nat" where
  "data_pos fs 0 = f_data_offset (field_at fs 0)"
| "data_pos fs (Suc i) =
     (if in_union (field_at fs i) (field_at fs (Suc i)) then data_pos fs i
      else data_pos fs i + prev_size (field_at fs i) + f_data_offset (field_at fs (Suc i)))"

fun size_pos :: "pb_field list \<Rightarrow> nat \<Rightarrow> int" where
  "size_pos fs 0 = int (data_pos fs 0) + f_size_offset (field_at fs 0)"
| "size_pos fs (Suc i) =
     (if in_union (field_at fs i) (field_at fs (Suc i)) then size_pos fs i
      else int (data_pos fs (Suc i)) + f_size_offset (field_at fs (Suc i)))"

definition field_extent :: "pb_field \<Rightarrow> nat" where
  "field_extent f =
     (if PB_HTYPE (f_type f) = PB_HTYPE_REPEATED then f_data_size f * f_array_size f else f_data_size f)"

definition least_size :: "u8 \<Rightarrow> nat" where
  "least_size l =
     (if l = PB_LTYPE_BOOL then 1 else if l = PB_LTYPE_FIXED32 then 4 else if l = PB_LTYPE_FIXED64 then 8 else 0)"

definition field_ok :: "(pb_field list \<Rightarrow> nat \<Rightarrow> bool) \<Rightarrow> nat \<Rightarrow> pb_field \<Rightarrow> nat \<Rightarrow> int \<Rightarrow> bool" where
  "field_ok sub n f at_data at_size \<longleftrightarrow>
     (let h = PB_HTYPE (f_type f); l = PB_LTYPE (f_type f)
      in f_tag f \<noteq> 0 \<and> PB_ATYPE (f_type f) = PB_ATYPE_STATIC \<and>
         (l \<le> PB_LTYPE_SUBMESSAGE \<or> l = PB_LTYPE_FIXED_LENGTH_BYTES) \<and>
         least_size l \<le> f_data_size f \<and> at_data + field_extent f \<le> n \<and>
         (h = PB_HTYPE_OPTIONAL \<and> at_size \<noteq> int at_data \<longrightarrow> 0 \<le> at_size \<and> at_size + 1 \<le> int n) \<and>
         (h = PB_HTYPE_REPEATED \<or> h = PB_HTYPE_ONEOF \<longrightarrow> 0 \<le> at_size \<and> at_size + 4 \<le> int n) \<and>
         (l = PB_LTYPE_SUBMESSAGE \<longrightarrow> (case f_ptr f of Submsg fs \<Rightarrow> sub fs (f_data_size f) | _ \<Rightarrow> False)))"

primrec struct_ok :: "nat \<Rightarrow> pb_field list \<Rightarrow> nat \<Rightarrow> bool" where
  "struct_ok 0 = (\<lambda>fs n. False)"
| "struct_ok (Suc k) =
     (\<lambda>fs n. 1 \<le> n \<and>
        (\<forall>i\<in>{0..<length fs}. field_ok (struct_ok k) n (fs ! i) (data_pos fs i) (size_pos fs i)))"

section \<open>The iterator\<close>

definition at_field :: "pb_field list \<Rightarrow> nat \<Rightarrow> pb_iter \<Rightarrow> bool" where
  "at_field fs a it \<longleftrightarrow>
     it_start it = fs \<and> it_dest it = a \<and> it_pos it < max 1 (length fs) \<and>
     it_data it = a + data_pos fs (it_pos it) \<and>
     (it_size it = At (nat (int a + size_pos fs (it_pos it))) \<or> it_size it = Fixed_count)"

lemma at_field_begin: "at_field fs a (snd (pb_field_iter_begin fs a))"
  by (simp add: pb_field_iter_begin_def at_field_def Let_def size_at_def algebra_simps)

lemma last_tag [simp]: "f_tag PB_LAST_FIELD = 0"
  by (simp add: PB_LAST_FIELD_def)

lemma at_field_next:
  assumes "at_field fs a it" and tags: "\<And>f. f \<in> set fs \<Longrightarrow> f_tag f \<noteq> 0"
    and "pb_field_iter_next it = (again, it')"
  shows "at_field fs a it' \<and> (again \<longleftrightarrow> it_pos it + 1 < length fs) \<and> (again \<longrightarrow> it_pos it' = it_pos it + 1)"
proof -
  have zero: "f_tag (field_at fs i) = 0 \<longleftrightarrow> length fs \<le> i" for i
    using tags by (simp add: field_at_def)
  have prev: "f_tag (field_of it) = 0 \<longleftrightarrow> fs = []"
  proof -
    have "it_start it = fs" "length fs \<le> it_pos it \<longleftrightarrow> fs = []"
      using assms(1) by (simp_all add: at_field_def) (cases fs; auto)
    then show ?thesis by (simp add: field_of_def zero)
  qed
  show ?thesis
  proof (cases "it_pos it + 1 < length fs")
    case True
    let ?g = "field_at fs (it_pos it + 1)"
    have it: "it_start it = fs" "it_dest it = a" "it_data it = a + data_pos fs (it_pos it)"
      using assms(1) by (simp_all add: at_field_def)
    have tags: "f_tag (field_of it) \<noteq> 0" "f_tag ?g \<noteq> 0" using True prev zero by auto
    show ?thesis
    proof (cases "in_union (field_of it) ?g")
      case union: True
      then have "again \<and> it' = it\<lparr>it_pos := it_pos it + 1\<rparr>"
        using assms(3) it tags by (simp add: pb_field_iter_next_def Let_def)
      then show ?thesis using assms(1) True union it by (auto simp: at_field_def field_of_def)
    next
      case apart: False
      let ?d = "a + data_pos fs (it_pos it + 1)"
      have d: "it_data it + prev_size (field_of it) + f_data_offset ?g = ?d"
        using apart it by (simp add: field_of_def)
      then have "again \<and> it_start it' = fs \<and> it_dest it' = a \<and> it_pos it' = it_pos it + 1 \<and> it_data it' = ?d \<and>
          it_size it' = size_at ?d ?g"
        using assms(3) it tags apart by (auto simp: pb_field_iter_next_def Let_def add.assoc)
      then show ?thesis using True apart it by (simp add: at_field_def size_at_def field_of_def algebra_simps)
    qed
  next
    case False
    then show ?thesis
      using assms(1,3) prev at_field_begin [of fs a]
      by (auto simp: pb_field_iter_next_def Let_def zero at_field_def split: if_splits)
  qed
qed

lemma find_loop_at_field:
  assumes "at_field fs a it" and tags: "\<And>f. f \<in> set fs \<Longrightarrow> f_tag f \<noteq> 0"
    and "find_loop p start k it = (found, it')"
  shows "at_field fs a it' \<and> (found \<longrightarrow> p (field_of it'))"
  using assms(1,3)
proof (induction p start k it rule: find_loop.induct)
  case (2 p start k it)
  have "at_field fs a (snd (pb_field_iter_next it))"
    using at_field_next [OF 2(2) tags, of "fst (pb_field_iter_next it)" "snd (pb_field_iter_next it)"] by simp
  then show ?case using 2 by (auto simp: Let_def split: if_splits)
qed simp


text \<open>
  What the code needs of the field it is at. The terminator of a message without fields is decoded
  like a required field of one byte.
\<close>

definition item_size :: "pb_field \<Rightarrow> nat" where
  "item_size f = max (f_data_size f) (least_size (PB_LTYPE (f_type f)))"

definition in_place :: "(pb_field list \<Rightarrow> nat \<Rightarrow> bool) \<Rightarrow> nat \<Rightarrow> nat \<Rightarrow> pb_iter \<Rightarrow> bool" where
  "in_place sub a n it \<longleftrightarrow>
     (let f = field_of it; h = PB_HTYPE (f_type f); l = PB_LTYPE (f_type f)
      in PB_ATYPE (f_type f) = PB_ATYPE_STATIC \<and> (l \<le> PB_LTYPE_SUBMESSAGE \<or> l = PB_LTYPE_FIXED_LENGTH_BYTES) \<and>
         a \<le> it_data it \<and> it_data it + (if h = PB_HTYPE_REPEATED then f_data_size f * f_array_size f else item_size f) \<le> a + n \<and>
         (h = PB_HTYPE_REPEATED \<longrightarrow> item_size f = f_data_size f) \<and>
         (\<forall>b. it_size it = At b \<and> h = PB_HTYPE_OPTIONAL \<and> b \<noteq> it_data it \<longrightarrow> a \<le> b \<and> b + 1 \<le> a + n) \<and>
         (\<forall>b. it_size it = At b \<and> (h = PB_HTYPE_REPEATED \<or> h = PB_HTYPE_ONEOF) \<longrightarrow> a \<le> b \<and> b + 4 \<le> a + n) \<and>
         (l = PB_LTYPE_SUBMESSAGE \<longrightarrow> (\<exists>fs. f_ptr f = Submsg fs \<and> sub fs (f_data_size f))))"

lemma struct_ok_tags: "struct_ok k fs n \<Longrightarrow> f \<in> set fs \<Longrightarrow> f_tag f \<noteq> 0"
  by (cases k) (auto simp: field_ok_def Let_def in_set_conv_nth)

lemma in_place_last:
  assumes "field_of it = PB_LAST_FIELD" and "it_data it = a" and "1 \<le> n"
  shows "in_place sub a n it"
  using assms
  by (simp add: in_place_def PB_LAST_FIELD_def PB_ATYPE_def PB_HTYPE_def PB_LTYPE_def pb_ltypes pb_htypes pb_atypes
      item_size_def least_size_def)

lemma at_field_in_place:
  assumes ok: "struct_ok (Suc k) fs n" and it: "at_field fs a it"
  shows "in_place (struct_ok k) a n it"
proof (cases "fs = []")
  case True
  then have "field_of it = PB_LAST_FIELD" "it_data it = a"
    using it by (auto simp: at_field_def field_of_def field_at_def PB_LAST_FIELD_def)
  then show ?thesis using ok in_place_last by simp
next
  case False
  then have pos: "it_pos it < length fs" using it by (simp add: at_field_def max_def split: if_splits)
  have f: "field_of it = fs ! it_pos it" using pos it by (simp add: at_field_def field_of_def field_at_def)
  have fok: "field_ok (struct_ok k) n (field_of it) (data_pos fs (it_pos it)) (size_pos fs (it_pos it))"
    using ok pos f by simp
  have size: "it_size it = At (nat (int a + size_pos fs (it_pos it))) \<or> it_size it = Fixed_count"
    and "data": "it_data it = a + data_pos fs (it_pos it)"
    using it by (auto simp: at_field_def)
  have item: "item_size (field_of it) = f_data_size (field_of it)"
    using fok by (simp add: field_ok_def Let_def item_size_def)
  have sub: "PB_LTYPE (f_type (field_of it)) = PB_LTYPE_SUBMESSAGE \<Longrightarrow>
      \<exists>fs. f_ptr (field_of it) = Submsg fs \<and> struct_ok k fs (f_data_size (field_of it))"
    using fok by (simp add: field_ok_def Let_def split: pb_ptr.splits)
  let ?h = "PB_HTYPE (f_type (field_of it))" and ?l = "PB_LTYPE (f_type (field_of it))"
  have kind: "PB_ATYPE (f_type (field_of it)) = PB_ATYPE_STATIC"
    "?l \<le> PB_LTYPE_SUBMESSAGE \<or> ?l = PB_LTYPE_FIXED_LENGTH_BYTES"
    and extent: "data_pos fs (it_pos it) + field_extent (field_of it) \<le> n"
    and flag: "?h = PB_HTYPE_OPTIONAL \<Longrightarrow> size_pos fs (it_pos it) \<noteq> int (data_pos fs (it_pos it)) \<Longrightarrow>
      0 \<le> size_pos fs (it_pos it) \<and> size_pos fs (it_pos it) + 1 \<le> int n"
    and count: "?h = PB_HTYPE_REPEATED \<or> ?h = PB_HTYPE_ONEOF \<Longrightarrow>
      0 \<le> size_pos fs (it_pos it) \<and> size_pos fs (it_pos it) + 4 \<le> int n"
    using fok unfolding field_ok_def Let_def by blast+
  have place: "b = nat (int a + size_pos fs (it_pos it))" if "it_size it = At b" for b
    using size that by simp
  have flags: "a \<le> b \<and> b + 1 \<le> a + n"
    if "it_size it = At b" "?h = PB_HTYPE_OPTIONAL" "b \<noteq> it_data it" for b
    using flag [OF that(2)] place [OF that(1)] that(3) "data" by linarith
  have counts: "a \<le> b \<and> b + 4 \<le> a + n"
    if "it_size it = At b" "?h = PB_HTYPE_REPEATED \<or> ?h = PB_HTYPE_ONEOF" for b
    using count [OF that(2)] place [OF that(1)] by linarith
  show ?thesis
    unfolding in_place_def Let_def using kind sub flags counts extent "data" item
    by (intro conjI allI impI) (auto simp only: field_extent_def split: if_splits)
qed

section \<open>Walks over the fields\<close>

lemma safe_each_field:
  assumes ok: "struct_ok (Suc k) fs n"
    and f: "\<And>it s. in_place (struct_ok k) a n it \<Longrightarrow> safe a n s anything (f it s)"
    and "at_field fs a it" and "length fs < it_pos it + m" and "it_pos it < length fs"
  shows "safe a n s anything (each_field f m it s)"
  using assms(3-)
proof (induction m arbitrary: it s)
  case (Suc m)
  obtain again it' where "next": "pb_field_iter_next it = (again, it')" by fastforce
  from at_field_next [OF Suc(2) struct_ok_tags [OF ok] this]
  have it': "at_field fs a it'" "again \<Longrightarrow> it_pos it' = it_pos it + 1" "again \<Longrightarrow> it_pos it' < length fs"
    by auto
  have "safe a n t anything (if again then each_field f m it' t else ret () t)" for t
    using Suc(1) [OF it'(1)] it'(2,3) Suc(3) by (auto intro: safe_ret)
  then show ?case
    using "next" by (auto intro: safe_andthen [OF f [OF at_field_in_place [OF ok Suc(2)]]])
qed simp

lemma safe_each_of:
  assumes ok: "struct_ok (Suc k) fs n"
    and f: "\<And>it s. in_place (struct_ok k) a n it \<Longrightarrow> safe a n s anything (f it s)"
  shows "safe a n s anything (each_of f fs a s)"
proof (cases "pb_field_iter_begin fs a")
  case (Pair nonempty it)
  have "at_field fs a it" using at_field_begin [of fs a] Pair by simp
  moreover have "it_pos it = 0" "nonempty \<Longrightarrow> fs \<noteq> []"
    using Pair by (auto simp: pb_field_iter_begin_def Let_def field_at_def split: if_splits)
  ultimately show ?thesis
    using safe_each_field [where f = f and it = it and m = "length fs + 1", OF ok f] Pair
    by (auto simp: each_of_def intro: safe_ret)
qed

lemma not_extension:
  "l \<le> PB_LTYPE_SUBMESSAGE \<or> l = PB_LTYPE_FIXED_LENGTH_BYTES \<Longrightarrow> l \<noteq> PB_LTYPE_EXTENSION"
  by (auto simp: pb_ltypes)

lemma safe_set_to_default:
  assumes "in_place (struct_ok k) a n it" and "k < m"
  shows "safe a n s anything (pb_field_set_to_default env m it s)"
  using assms
proof (induction m arbitrary: k a n it s)
  case (Suc m)
  let ?f = "field_of it"
  have static: "PB_ATYPE (f_type ?f) = PB_ATYPE_STATIC" and l: "PB_LTYPE (f_type ?f) \<noteq> PB_LTYPE_EXTENSION"
    and low: "a \<le> it_data it"
    using Suc(2) not_extension by (auto simp: in_place_def Let_def)
  have counted: "safe a n s anything (ret () (set_count (it_size it) 0 s))"
    if "PB_HTYPE (f_type ?f) = PB_HTYPE_REPEATED \<or> PB_HTYPE (f_type ?f) = PB_HTYPE_ONEOF"
    using Suc(2) that by (auto simp: in_place_def Let_def intro!: safe_ret within_set_count)
  show ?case
  proof (cases "PB_HTYPE (f_type ?f) = PB_HTYPE_REPEATED \<or> PB_HTYPE (f_type ?f) = PB_HTYPE_ONEOF")
    case True
    then show ?thesis using counted static l by (simp add: set_default_step_def Let_def)
  next
    case False
    then have room: "it_data it + f_data_size ?f \<le> a + n"
      using Suc(2) by (auto simp: in_place_def Let_def item_size_def)
    define t where
      "t = (if PB_HTYPE (f_type ?f) = PB_HTYPE_OPTIONAL \<and> it_size it \<noteq> At (it_data it)
            then set_flag (it_size it) False s else s)"
    have "within a n s t"
      using Suc(2) by (auto simp: t_def in_place_def Let_def intro!: within_set_flag)
    moreover have "safe a n t anything (each_of (pb_field_set_to_default env m) fs (it_data it) t)"
      if "struct_ok k fs (f_data_size ?f)" for fs
    proof (cases k)
      case (Suc k')
      with that Suc.prems(2) have "safe (it_data it) (f_data_size ?f) t anything
          (each_of (pb_field_set_to_default env m) fs (it_data it) t)"
        by (intro safe_each_of [of k'] Suc.IH) auto
      then show ?thesis using safe_widen low room by blast
    qed (use that in simp)
    moreover have "safe a n t anything (ret () (poke (write_bytes (it_data it) d) t))"
      if "length d \<le> f_data_size ?f" for d
      using that low room by (auto intro!: safe_ret within_poke)
    moreover have "PB_LTYPE (f_type ?f) = PB_LTYPE_SUBMESSAGE \<Longrightarrow>
        \<exists>fs. f_ptr ?f = Submsg fs \<and> struct_ok k fs (f_data_size ?f)"
      using Suc(2) by (auto simp: in_place_def Let_def)
    ultimately show ?thesis
      using False static l
      by (auto simp: set_default_step_def Let_def t_def [symmetric] intro: safe_from split: pb_ptr.splits)
  qed
qed simp

lemma safe_set_to_defaults:
  assumes "struct_ok k fs n" and "k \<le> m"
  shows "safe a n s anything (pb_message_set_to_defaults env m fs a s)"
proof (cases k)
  case (Suc k')
  then show ?thesis
    unfolding pb_message_set_to_defaults_def
    using assms by (intro safe_each_of [of k'] safe_set_to_default) auto
qed (use assms in simp)

end
