(* ===== verification/PbDecSafe.thy ===== *)
theory PbDecSafe
  imports PbInside
begin

text \<open>The decoding of a message of static fields is safe: release, one field, all fields, nested messages.\<close>

section \<open>Release\<close>

lemma safe_each_item:
  assumes "\<And>i s. i < c \<Longrightarrow> safe a n s anything (f (b + d * i) s)"
  shows "safe a n s anything (each_item f d c b s)"
  using assms
proof (induction c arbitrary: b s)
  case (Suc c)
  have "safe a n t anything (each_item f d c (b + d) t)" for t
    using Suc(2) [of "Suc _"] by (intro Suc.IH) (simp add: algebra_simps)
  then show ?case using Suc(2) [of 0] by (auto intro: safe_andthen)
qed (simp add: safe_ret)

lemma safe_release_with:
  assumes "struct_ok (Suc k) fs n"
    and "\<And>it s. in_place (struct_ok k) a n it \<Longrightarrow> safe a n s anything (f it s)"
  shows "safe a n s anything (pb_release_with f fs a s)"
  using safe_each_of [OF assms(1), of a f] assms(2) by (auto simp: pb_release_with_def intro: safe_ret)

lemma safe_release_single:
  assumes "in_place (struct_ok k) a n it" and "k < m"
  shows "safe a n s anything (pb_release_single_field env m it s)"
  using assms
proof (induction m arbitrary: k a n it s)
  case (Suc m)
  let ?f = "field_of it"
  let ?h = "PB_HTYPE (f_type ?f)"
  have static: "PB_ATYPE (f_type ?f) = PB_ATYPE_STATIC" and l: "PB_LTYPE (f_type ?f) \<noteq> PB_LTYPE_EXTENSION"
    and low: "a \<le> it_data it"
    using Suc(2) not_extension by (auto simp: in_place_def Let_def)
  have item: "safe a n t anything (pb_release_with (pb_release_single_field env m) fs (it_data it + f_data_size ?f * i) t)"
    if fs: "struct_ok k fs (f_data_size ?f)" and i: "if ?h = PB_HTYPE_REPEATED then i < f_array_size ?f else i = 0" for fs i t
  proof (cases k)
    case (Suc k')
    let ?b = "it_data it + f_data_size ?f * i"
    have "f_data_size ?f * (i + 1) \<le> f_data_size ?f * f_array_size ?f" if "?h = PB_HTYPE_REPEATED"
      using i that by (intro mult_le_mono2) simp
    then have room: "?b + f_data_size ?f \<le> a + n"
      using Suc.prems(1) i by (auto simp: in_place_def Let_def item_size_def split: if_splits)
    have "safe ?b (f_data_size ?f) t anything (pb_release_with (pb_release_single_field env m) fs ?b t)"
      using fs Suc Suc.prems(2) by (intro safe_release_with [of k'] Suc.IH) auto
    then show ?thesis using safe_widen room low by (meson trans_le_add1)
  qed (use fs in simp)
  have "\<exists>fs. f_ptr ?f = Submsg fs \<and> struct_ok k fs (f_data_size ?f)"
    if "PB_LTYPE (f_type ?f) = PB_LTYPE_SUBMESSAGE"
    using Suc(2) that by (auto simp: in_place_def Let_def)
  then have "safe a n s anything (release_inner env (pb_release_single_field env m) it s)"
    using static l item
    by (auto simp: release_inner_def Let_def pb_atypes simp del: each_item.simps intro!: safe_ret safe_each_item)
  then show ?case
    using static by (auto simp: release_step_def Let_def pb_atypes intro!: safe_ret safe_andthen)
qed simp

lemma safe_release:
  assumes "struct_ok k fs n" and "k \<le> m"
  shows "safe a n s anything (pb_release env m fs a s)"
proof (cases k)
  case (Suc k')
  then show ?thesis
    unfolding pb_release_def using assms by (intro safe_release_with [of k'] safe_release_single) auto
qed (use assms in simp)

section \<open>One value\<close>

definition decodes_safely ::
  "(pb_field list \<Rightarrow> nat \<Rightarrow> bool) \<Rightarrow> (pb_field list \<Rightarrow> nat \<Rightarrow> (unit, 's, 'h) pb_op) \<Rightarrow> bool" where
  "decodes_safely sub f \<longleftrightarrow> (\<forall>fs n a s. sub fs n \<longrightarrow> safe a n s anything (f fs a s))"

lemma safe_submessage:
  assumes "decodes_safely sub noinit" "decodes_safely sub init" and "f_ptr f = Submsg fs" "sub fs n"
  shows "safe b n s anything (pb_dec_submessage noinit init f b s)"
  using assms by (auto simp: pb_dec_submessage_def decodes_safely_def intro!: safe_in_substream)

lemma ltype_cases:
  assumes "l \<le> PB_LTYPE_SUBMESSAGE \<or> l = PB_LTYPE_FIXED_LENGTH_BYTES"
  shows "l \<in> {0, 1, 2, 3, 4, 5, 6, 7, 8, 10 :: u8}"
proof (cases "l = 10")
  case False
  then have "unat l \<le> 8" using assms by (simp add: pb_ltypes word_le_nat_alt)
  then obtain k where "l = word_of_nat k" and "k \<in> {0, 1, 2, 3, 4, 5, 6, 7, 8 :: nat}"
    by (rule_tac that [of "unat l"]) auto
  then show ?thesis by auto
qed simp

lemma htype_cases: "PB_HTYPE t = PB_HTYPE_REQUIRED \<or> PB_HTYPE t = PB_HTYPE_OPTIONAL \<or>
    PB_HTYPE t = PB_HTYPE_REPEATED \<or> PB_HTYPE t = PB_HTYPE_ONEOF"
proof -
  define x where "x = take_bit 2 (drop_bit 4 t)"
  have "x < 4" unfolding x_def
    by (simp add: take_bit_eq_mod word_mod_less_divisor)
  then have "unat x \<in> {0, 1, 2, 3}" by (simp add: word_less_nat_alt) linarith
  then obtain k where "x = word_of_nat k" "k \<in> {0, 1, 2, 3 :: nat}" by (rule_tac that [of "unat x"]) auto
  moreover have "t AND push_bit 4 (mask 2) = push_bit 4 x"
    unfolding x_def by (rule bit_word_eqI) (auto simp: bit_simps)
  ultimately show ?thesis by (auto simp: PB_HTYPE_def pb_htypes mask_eq_exp_minus_1)
qed

lemma safe_decoder:
  assumes subs: "decodes_safely sub noinit" "decodes_safely sub init"
    and static: "PB_ATYPE (f_type f) = PB_ATYPE_STATIC"
    and l: "PB_LTYPE (f_type f) \<le> PB_LTYPE_SUBMESSAGE \<or> PB_LTYPE (f_type f) = PB_LTYPE_FIXED_LENGTH_BYTES"
    and ptr: "PB_LTYPE (f_type f) = PB_LTYPE_SUBMESSAGE \<Longrightarrow> \<exists>fs. f_ptr f = Submsg fs \<and> sub fs (f_data_size f)"
  shows "safe b (item_size f) s (\<lambda>_ s'. PB_LTYPE (f_type f) \<le> PB_LTYPE_LAST_PACKABLE \<longrightarrow> taken s () s')
      (pb_decoder env noinit init f b s)"
proof -
  have sub: "safe b (item_size f) s anything (pb_dec_submessage noinit init f b s)"
    if "PB_LTYPE (f_type f) = PB_LTYPE_SUBMESSAGE"
  proof -
    from ptr [OF that] obtain fs where "f_ptr f = Submsg fs" "sub fs (f_data_size f)" by blast
    from safe_widen [OF safe_submessage [OF subs this]] show ?thesis by (simp add: item_size_def)
  qed
  have least: "least_size (PB_LTYPE (f_type f)) \<le> item_size f" and data_le: "f_data_size f \<le> item_size f"
    by (simp_all add: item_size_def)
  show ?thesis
    using ltype_cases [OF l] sub least
    by (simp add: pb_decoder_def Let_def, elim disjE, simp_all add: pb_ltypes least_size_def)
      (auto intro!: safe_weaken [OF safe_bool] safe_weaken [OF safe_fixed32] safe_weaken [OF safe_fixed64]
        safe_weaken [OF safe_ints(1) [OF data_le]] safe_weaken [OF safe_ints(2) [OF data_le]] safe_weaken [OF safe_ints(3) [OF data_le]]
        safe_dec_bytes [OF static data_le] safe_dec_string [OF static data_le] safe_dec_fixed_length_bytes [OF data_le])
qed


section \<open>One field\<close>

lemma item_place:
  assumes "in_place sub a n it" and "PB_HTYPE (f_type (field_of it)) = PB_HTYPE_REPEATED"
    and "i < f_array_size (field_of it)"
  shows "a \<le> it_data it + f_data_size (field_of it) * i"
    and "it_data it + f_data_size (field_of it) * i + item_size (field_of it) \<le> a + n"
proof -
  have "f_data_size (field_of it) * (i + 1) \<le> f_data_size (field_of it) * f_array_size (field_of it)"
    using assms(3) by (intro mult_le_mono2) simp
  then show "a \<le> it_data it + f_data_size (field_of it) * i"
    and "it_data it + f_data_size (field_of it) * i + item_size (field_of it) \<le> a + n"
    using assms(1,2) by (auto simp: in_place_def Let_def)
qed

lemma in_place_count:
  "in_place sub a n it \<Longrightarrow>
     PB_HTYPE (f_type (field_of it)) = PB_HTYPE_REPEATED \<or> PB_HTYPE (f_type (field_of it)) = PB_HTYPE_ONEOF \<Longrightarrow>
     within a n s (set_count (it_size it) c s)"
  by (auto simp: in_place_def Let_def intro!: within_set_count)

lemma in_place_room:
  "in_place sub a n it \<Longrightarrow> PB_HTYPE (f_type (field_of it)) \<noteq> PB_HTYPE_REPEATED \<Longrightarrow>
     a \<le> it_data it \<and> it_data it + item_size (field_of it) \<le> a + n"
  by (auto simp: in_place_def Let_def)

lemma set_count_in [simp]: "p_in (set_count loc c s) = p_in s"
  by (cases loc) (simp_all add: set_count_def poke_def)

lemma safe_packed_loop:
  assumes it: "in_place sub a n it" "PB_HTYPE (f_type (field_of it)) = PB_HTYPE_REPEATED"
    and func: "\<And>b s. safe b (item_size (field_of it)) s (taken s) (func b s)"
  shows "\<exists>b s'. packed_loop func it s = Some (Some b, s') \<and> within a n s s'"
proof (induction "is_left (p_in s)" arbitrary: s rule: less_induct)
  case less
  show ?case
  proof (cases "is_left (p_in s) > 0 \<and> get_count (it_size it) s < f_array_size (field_of it)")
    case True
    let ?b = "it_data it + f_data_size (field_of it) * get_count (it_size it) s"
    have "safe a n s (taken s) (func ?b s)"
      using safe_widen [OF func] item_place [OF it] True by blast
    then obtain r s' where run: "func ?b s = Some (r, s')" "within a n s s'"
      and shorter: "r \<noteq> None \<Longrightarrow> is_left (p_in s') < is_left (p_in s)"
      unfolding safe_def by auto
    show ?thesis
    proof (cases r)
      case None
      then show ?thesis using True run by (subst packed_loop.simps) (auto simp: ret_def)
    next
      case (Some u)
      let ?t = "set_count (it_size it) (get_count (it_size it) s' + 1) s'"
      have "within a n s ?t"
        using within_trans [OF run(2) in_place_count [OF it(1)]] it(2) by blast
      moreover obtain b s'' where "packed_loop func it ?t = Some (Some b, s'')" "within a n ?t s''"
        using less [of ?t] shorter Some by auto
      ultimately show ?thesis
        using True run(1) Some by (subst packed_loop.simps) (auto intro: within_trans)
    qed
  qed (subst packed_loop.simps; auto simp: ret_def)
qed

lemma safe_status: "safe a n s anything (status_of b s)"
  by (simp add: status_of_def safe_Some)

lemma safe_packed_static:
  assumes "in_place sub a n it" "PB_HTYPE (f_type (field_of it)) = PB_HTYPE_REPEATED"
    and "\<And>b s. safe b (item_size (field_of it)) s (taken s) (func b s)"
  shows "safe a n s anything (packed_static func it s)"
  unfolding packed_static_def
proof (rule safe_andthen [OF safe_stream [OF forward_make_substream, where Q = anything]])
  fix sub' :: "'a pb_istream" and s' :: "('a, 'b) pb_state"
  obtain b t where run: "packed_loop func it (s'\<lparr>p_in := sub'\<rparr>) = Some (Some b, t)" and
      after: "within a n (s'\<lparr>p_in := sub'\<rparr>) t"
    using safe_packed_loop [OF assms, of "s'\<lparr>p_in := sub'\<rparr>"] by blast
  have restored: "within a n s' (t\<lparr>p_in := p_in s'\<rparr>)"
    by (rule safe_put_back [OF after]) simp
  have "safe a n (t\<lparr>p_in := p_in s'\<rparr>) anything
      (andthen (on_stream (\<lambda>st. pb_close_string_substream st (p_in t)) (t\<lparr>p_in := p_in s'\<rparr>)) (\<lambda>_. status_of b))"
    by (rule safe_andthen [OF safe_stream [OF forward_close_substream, where Q = anything]]) (auto simp: safe_status)
  then show "safe a n s' anything
      (andthen (packed_loop func it (s'\<lparr>p_in := sub'\<rparr>)) (\<lambda>status t.
         if is_left (p_in t) \<noteq> 0 then pb_error ''array overflow'' (t\<lparr>p_in := p_in s'\<rparr>)
         else
           andthen (on_stream (\<lambda>st. pb_close_string_substream st (p_in t)) (t\<lparr>p_in := p_in s'\<rparr>))
             (\<lambda>_. status_of status)))"
    using run by (auto intro: safe_from [OF restored] safe_error)
qed simp


lemma safe_static_field:
  assumes it: "in_place sub a n it" and defaults: "decodes_safely sub defaults"
    and func: "\<And>b s. safe b (item_size (field_of it)) s
      (\<lambda>_ s'. PB_LTYPE (f_type (field_of it)) \<le> PB_LTYPE_LAST_PACKABLE \<longrightarrow> taken s () s') (func b s)"
  shows "safe a n s anything (decode_static_field defaults func w it s)"
proof -
  let ?f = "field_of it"
  let ?h = "PB_HTYPE (f_type ?f)" and ?l = "PB_LTYPE (f_type ?f)"
  have at_place: "safe a n t anything (func b t)" if "a \<le> b" "b + item_size ?f \<le> a + n" for b t
    by (rule safe_weaken [OF safe_widen [OF func that]]) simp
  consider "?h = PB_HTYPE_REQUIRED" | "?h = PB_HTYPE_OPTIONAL" | "?h = PB_HTYPE_REPEATED" "w = PB_WT_STRING \<and> ?l \<le> PB_LTYPE_LAST_PACKABLE"
    | "?h = PB_HTYPE_REPEATED" "\<not> (w = PB_WT_STRING \<and> ?l \<le> PB_LTYPE_LAST_PACKABLE)"
    | "?h = PB_HTYPE_ONEOF"
    using htype_cases by metis
  then show ?thesis
  proof cases
    case 1
    then show ?thesis
      using at_place in_place_room [OF it] by (simp add: decode_static_field_def Let_def pb_htypes)
  next
    case 2
    define t where "t = (if it_size it \<noteq> At (it_data it) then set_flag (it_size it) True s else s)"
    have "within a n s t"
      using it 2 by (auto simp: t_def in_place_def Let_def intro!: within_set_flag)
    then have "safe a n s anything (func (it_data it) t)"
      using in_place_room [OF it] 2 by (intro safe_from [OF _ at_place]) (auto simp: pb_htypes)
    then show ?thesis
      using 2 by (simp add: decode_static_field_def Let_def pb_htypes t_def)
  next
    case 3
    then have "safe b (item_size ?f) t (taken t) (func b t)" for b t
      by (intro safe_weaken [OF func]) auto
    from safe_packed_static [OF it 3(1) this] show ?thesis
      using 3 by (simp add: decode_static_field_def Let_def pb_htypes)
  next
    case 4
    have within: "within a n s (set_count (it_size it) c s)" for c
      using in_place_count [OF it] 4 by blast
    have "safe a n s anything (func (it_data it + f_data_size ?f * i) (set_count (it_size it) c s))"
      if "i < f_array_size ?f" for i c
      using item_place [OF it 4(1) that] by (intro safe_from [OF within at_place])
    then show ?thesis
      using 4 safe_from [OF within safe_error]
      by (auto simp: decode_static_field_def Let_def pb_htypes not_le intro: safe_from [OF within safe_error])
  next
    case 5
    then have room: "a \<le> it_data it" "it_data it + f_data_size ?f \<le> a + n" "it_data it + item_size ?f \<le> a + n"
      using in_place_room [OF it] by (auto simp: pb_htypes item_size_def)
    have "within a n s (poke (write_bytes (it_data it) (replicate (f_data_size ?f) 0)) s)"
      using room by (intro within_poke) auto
    moreover have "safe a n t anything (defaults fs (it_data it) t)" if "sub fs (f_data_size ?f)" for fs t
      using defaults that safe_widen room(1,2) unfolding decodes_safely_def by blast
    ultimately have init: "sub fs (f_data_size ?f) \<Longrightarrow>
        safe a n s anything (defaults fs (it_data it) (poke (write_bytes (it_data it) (replicate (f_data_size ?f) 0)) s))" for fs
      by (rule safe_from)
    moreover have "?l = PB_LTYPE_SUBMESSAGE \<Longrightarrow> \<exists>fs. f_ptr ?f = Submsg fs \<and> sub fs (f_data_size ?f)"
      using it by (auto simp: in_place_def Let_def)
    ultimately have first: "safe a n s anything
        (if ?l = PB_LTYPE_SUBMESSAGE \<and> get_count (it_size it) s \<noteq> unat (f_tag ?f) then
           let s = poke (write_bytes (it_data it) (replicate (f_data_size ?f) 0)) s
           in (case f_ptr ?f of Submsg fs \<Rightarrow> defaults fs (it_data it) s | _ \<Rightarrow> None)
         else ret () s)"
      by (auto simp: Let_def intro: safe_ret)
    have "safe a n t anything (func (it_data it) (set_count (it_size it) c t))" for c t
      using in_place_count [OF it] 5 by (intro safe_from [OF _ at_place [OF room(1,3)]]) auto
    then show ?thesis
      using 5 safe_andthen [OF first, where R = anything and k = "\<lambda>_ s. func (it_data it) (set_count (it_size it) (unat (f_tag ?f)) s)"]
      by (simp add: decode_static_field_def Let_def pb_htypes)
  qed
qed


lemma safe_union_field:
  assumes ok: "struct_ok (Suc k) fs n" and "k < m" and it: "at_field fs a it"
  shows "safe a n s (\<lambda>it' _. at_field fs a it') (pb_release_union_field (pb_release_single_field env m) it s)"
proof -
  let ?old = "of_nat (get_count (it_size it) s) :: u32" and ?new = "f_tag (field_of it)"
  have found: "at_field fs a i \<Longrightarrow> pb_field_iter_find tag i = (ok', i') \<Longrightarrow> at_field fs a i'" for i i' ok' tag
    using find_loop_at_field [OF _ struct_ok_tags [OF ok]] unfolding pb_field_iter_find_def by blast
  have again: "safe a n t (\<lambda>it' _. at_field fs a it')
      (case pb_field_iter_find ?new i of
         (False, _) \<Rightarrow> pb_error ''iterator error'' t
       | (True, it) \<Rightarrow> ret it t)" if "at_field fs a i" for i t
    using found [OF that] by (auto intro: safe_ret safe_error split: prod.splits bool.splits)
  show ?thesis
  proof (cases "pb_field_iter_find ?old it")
    case (Pair ok' i)
    have i: "at_field fs a i" using found [OF it Pair] .
    have "safe a n s anything (pb_release_single_field env m i s)"
      using safe_release_single at_field_in_place [OF ok i] \<open>k < m\<close> by blast
    then show ?thesis
      using it Pair again [OF i]
      by (auto simp: pb_release_union_field_def Let_def intro: safe_ret safe_error safe_andthen split: bool.splits)
  qed
qed

lemma safe_decode_with:
  assumes "decodes_safely (struct_ok k) noinit" and "k \<le> m"
  shows "decodes_safely (struct_ok k) (pb_decode_with env m noinit)"
  unfolding decodes_safely_def
proof (intro allI impI)
  fix fs n a and s :: "('a, 'b) pb_state" assume ok: "struct_ok k fs n"
  have "safe a n t anything
      (case noinit fs a t of
         None \<Rightarrow> None
       | Some (Some _, s) \<Rightarrow> ret () s
       | Some (None, s) \<Rightarrow> andthen (pb_release env m fs a s) (\<lambda>_ s. Some (None, s)))" for t
  proof -
    obtain r t' where run: "noinit fs a t = Some (r, t')" "within a n t t'"
      using assms(1) ok unfolding decodes_safely_def safe_def by blast
    have "safe a n t' anything (andthen (pb_release env m fs a t') (\<lambda>_ s. Some (None, s)))"
      by (rule safe_andthen [OF safe_release [OF ok assms(2)]]) (simp add: safe_Some)
    then show ?thesis using run by (cases r) (auto intro: safe_from safe_ret)
  qed
  then show "safe a n s anything (pb_decode_with env m noinit fs a s)"
    unfolding pb_decode_with_def by (intro safe_andthen [OF safe_set_to_defaults [OF ok assms(2)]])
qed

lemma safe_decode_field:
  assumes ok: "struct_ok (Suc k) fs n" and "k < m" and it: "at_field fs a it"
    and noinit: "decodes_safely (struct_ok k) noinit"
  shows "safe a n s (\<lambda>it' _. at_field fs a it') (decode_field env m noinit w it s)"
proof -
  have one: "safe a n t (\<lambda>it' _. at_field fs a it')
      (let field = field_of i; at = PB_ATYPE (f_type field);
           func = pb_decoder env noinit (pb_decode_with env m noinit) field
       in andthen
           (if at = PB_ATYPE_STATIC then decode_static_field (pb_message_set_to_defaults env m) func w i t
            else if at = PB_ATYPE_POINTER then
              decode_pointer_field env (pb_message_set_to_defaults env m) (pb_release_single_field env m) func w i t
            else if at = PB_ATYPE_CALLBACK then decode_callback_field env w i t
            else pb_error ''invalid field type'' t)
           (\<lambda>_. ret i))" if i: "at_field fs a i" for i t
  proof -
    have p: "in_place (struct_ok k) a n i" by (rule at_field_in_place [OF ok i])
    have defaults: "decodes_safely (struct_ok k) (pb_message_set_to_defaults env m)"
      using safe_set_to_defaults [OF _ less_imp_le [OF \<open>k < m\<close>]] unfolding decodes_safely_def by blast
    have init: "decodes_safely (struct_ok k) (pb_decode_with env m noinit)"
      using safe_decode_with [OF noinit] \<open>k < m\<close> by simp
    have "safe a n t anything (decode_static_field (pb_message_set_to_defaults env m)
        (pb_decoder env noinit (pb_decode_with env m noinit) (field_of i)) w i t)"
      by (rule safe_static_field [OF p defaults], rule safe_decoder [OF noinit init])
        (use p in \<open>auto simp: in_place_def Let_def\<close>)
    then show ?thesis
      using p i by (auto simp: in_place_def Let_def intro!: safe_andthen safe_ret)
  qed
  show ?thesis
    unfolding decode_field_def
    by (rule safe_andthen [where Q = "\<lambda>it' _. at_field fs a it'"])
      (use safe_union_field [OF ok \<open>k < m\<close> it] it one in \<open>auto intro: safe_ret\<close>)
qed


section \<open>All fields\<close>

text \<open>A field without a match is skipped: a message of static fields has no extensions.\<close>

lemma safe_unknown_field:
  assumes ok: "struct_ok (Suc k) fs n" and it: "at_field fs a (l_iter l)" and tag: "tag < - 1"
  shows "safe a n s (\<lambda>l' _. at_field fs a (l_iter l')) (unknown_field env m noinit w tag l s)"
proof (cases "find_extension_field (l_iter l)")
  case (Pair found it')
  from find_loop_at_field [OF it struct_ok_tags [OF ok] this [unfolded find_extension_field_def]]
  have it': "at_field fs a it'" and ext: "found \<Longrightarrow> PB_LTYPE (f_type (field_of it')) = PB_LTYPE_EXTENSION"
    by auto
  have "\<not> found"
    using ext at_field_in_place [OF ok it'] not_extension by (auto simp: in_place_def Let_def)
  moreover have "\<not> tag \<ge> - 1" using tag by simp
  moreover have skip: "safe a n s (\<lambda>l' _. at_field fs a (l_iter l'))
      (andthen (on_stream (pb_skip_field w) s) (\<lambda>_. ret l'))" if "at_field fs a (l_iter l')" for l'
    using that by (intro safe_andthen [OF safe_stream [OF forward_skip_field, where Q = anything]]) (auto intro: safe_ret)
  ultimately show ?thesis
    using Pair skip it it' by (auto simp: unknown_field_def Let_def)
qed

lemma at_field_fixed: "at_field fs a it \<Longrightarrow> at_field fs a (it\<lparr>it_size := Fixed_count\<rparr>)"
  by (simp add: at_field_def)

lemma safe_known_field:
  assumes ok: "struct_ok (Suc k) fs n" and "k < m" and it: "at_field fs a (l_iter l)"
    and noinit: "decodes_safely (struct_ok k) noinit"
  shows "safe a n s (\<lambda>l' _. at_field fs a (l_iter l')) (known_field env m noinit w l s)"
proof -
  have field: "safe a n t (\<lambda>l' _. at_field fs a (l_iter l'))
      (andthen (decode_field env m noinit w i t) (\<lambda>it. ret (l'\<lparr>l_iter := it\<rparr>)))" if "at_field fs a i" for i l' t
    by (rule safe_andthen [OF safe_decode_field [OF ok \<open>k < m\<close> that noinit]]) (auto intro: safe_ret)
  define i where "i = l_iter l"
  define h where "h = PB_HTYPE (f_type (field_of i))"
  define fixed where "fixed \<longleftrightarrow> h = PB_HTYPE_REPEATED \<and> it_size i = At (it_data i)"
  define t where "t = (if fixed \<and> l_fixed l \<noteq> Some (it_pos i) then s\<lparr>p_count := 0\<rparr> else s)"
  define l1 where
    "l1 = (if fixed then l\<lparr>l_fixed := Some (it_pos i), l_iter := i\<lparr>it_size := Fixed_count\<rparr>\<rparr> else l)"
  define l2 where
    "l2 = (if h = PB_HTYPE_REQUIRED \<and> it_required i < PB_MAX_REQUIRED_FIELDS
           then l1\<lparr>l_seen := mark_seen (it_required i) (l_seen l1)\<rparr> else l1)"
  have eq: "known_field env m noinit w l s =
      (if fixed \<and> l_fixed l \<noteq> Some (it_pos i) \<and> wrong_count l s then pb_error ''wrong size for fixed count field'' s
       else andthen (decode_field env m noinit w (l_iter l2) t) (\<lambda>it. ret (l2\<lparr>l_iter := it\<rparr>)))"
    unfolding known_field_def Let_def i_def [symmetric] h_def [symmetric] fixed_def [symmetric]
      l1_def [symmetric] l2_def [symmetric] t_def [symmetric] by (rule refl)
  have "at_field fs a (l_iter l2)"
    using it at_field_fixed [OF it] by (simp add: l2_def l1_def i_def)
  moreover have "within a n s t" by (simp add: t_def within_def)
  ultimately show ?thesis
    unfolding eq by (auto intro: safe_error safe_from [OF _ field])
qed

lemma safe_message_loop:
  assumes known: "\<And>w l s. at_field fs a (l_iter l) \<Longrightarrow> safe a n s (\<lambda>l' _. at_field fs a (l_iter l')) (known w l s)"
    and unknown: "\<And>w tag l s. at_field fs a (l_iter l) \<Longrightarrow> tag < - 1 \<Longrightarrow>
      safe a n s (\<lambda>l' _. at_field fs a (l_iter l')) (unknown w tag l s)"
    and tags: "\<And>f. f \<in> set fs \<Longrightarrow> f_tag f \<noteq> 0"
    and "at_field fs a (l_iter l)"
  shows "safe a n s (\<lambda>l' _. at_field fs a (l_iter l')) (message_loop unknown known l s)"
  using assms(4)
proof (induction "is_left (p_in s)" arbitrary: l s rule: less_induct)
  case less
  let ?Q = "\<lambda>l' _. at_field fs a (l_iter l')"
  obtain r st where read: "pb_decode_tag (p_in s) = (r, st)" by fastforce
  have start: "within a n s (s\<lparr>p_in := st\<rparr>)" using decode_tag_left [OF read] by (simp add: within_def)
  show ?case
  proof (cases r)
    case (Inl eof)
    then show ?thesis
      using read less(2) start by (subst message_loop.simps, cases eof) (auto intro!: safe_ret safe_Some)
  next
    case (Inr p)
    obtain w tag where p: "p = (w, tag)" by fastforce
    have shorter: "is_left st < is_left (p_in s)" and small: "tag < - 1"
      using decode_tag_left [OF read] Inr p by auto
    obtain found it where find: "pb_field_iter_find tag (l_iter l) = (found, it)" by fastforce
    have it: "at_field fs a it"
      using find_loop_at_field [OF less(2) tags find [unfolded pb_field_iter_find_def]] by blast
    have "safe a n (s\<lparr>p_in := st\<rparr>) ?Q
        (if found then known w (l\<lparr>l_iter := it\<rparr>) (s\<lparr>p_in := st\<rparr>) else unknown w tag (l\<lparr>l_iter := it\<rparr>) (s\<lparr>p_in := st\<rparr>))"
      using known unknown it small by simp
    then have "safe a n (s\<lparr>p_in := st\<rparr>) ?Q
        (andthen
          (if found then known w (l\<lparr>l_iter := it\<rparr>) (s\<lparr>p_in := st\<rparr>)
           else unknown w tag (l\<lparr>l_iter := it\<rparr>) (s\<lparr>p_in := st\<rparr>))
          (message_loop unknown known))"
      using shorter by (rule_tac safe_andthen [OF _ less(1)]) (auto simp: within_def)
    from safe_from [OF start this] show ?thesis
      using read Inr p find by (subst message_loop.simps) (auto intro: safe_ret less(2))
  qed
qed

lemma safe_noinit_body:
  assumes ok: "struct_ok (Suc k) fs n" and "k < m" and noinit: "decodes_safely (struct_ok k) noinit"
  shows "safe a n s anything (noinit_body env m noinit fs a s)"
proof -
  define l where
    "l = \<lparr>l_iter = snd (pb_field_iter_begin fs a), l_seen = [0, 0], l_ext_start = 0, l_fixed = None\<rparr>"
  have "at_field fs a (l_iter l)" by (simp add: l_def at_field_begin)
  note safe_message_loop [OF safe_known_field [OF ok \<open>k < m\<close> _ noinit] safe_unknown_field [OF ok] struct_ok_tags [OF ok] this]
  then have "safe a n (s\<lparr>p_count := 0\<rparr>) anything
      (andthen (message_loop (unknown_field env m noinit) (known_field env m noinit) l (s\<lparr>p_count := 0\<rparr>)) (\<lambda>l s.
         if wrong_count l s then pb_error ''wrong size for fixed count field'' s
         else if \<not> all_seen (required_count (l_iter l)) (l_seen l) then pb_error ''missing required field'' s
         else ret () s))"
    by (rule safe_andthen) (auto intro: safe_error safe_ret)
  then show ?thesis
    by (auto simp: noinit_body_def l_def [symmetric] safe_def within_def)
qed

lemma safe_noinit: "k < m \<Longrightarrow> decodes_safely (struct_ok k) (pb_decode_noinit env m)"
proof (induction m arbitrary: k)
  case (Suc m)
  show ?case
  proof (cases k)
    case (Suc k')
    have "safe a n s anything (noinit_body env m (pb_decode_noinit env m) fs a s)"
      if "struct_ok k fs n" for fs n a and s :: "('a, 'b) pb_state"
      using that Suc Suc.prems Suc.IH [of k'] by (intro safe_noinit_body [of k']) auto
    then show ?thesis by (simp add: decodes_safely_def)
  qed (simp add: decodes_safely_def)
qed simp

lemma safe_pb_decode:
  assumes "struct_ok k fs n" and "k < m"
  shows "safe a n s anything (pb_decode env m fs a s)"
  using safe_decode_with [OF safe_noinit [OF assms(2)] less_imp_le [OF assms(2)]] assms(1)
  unfolding pb_decode_def decodes_safely_def by blast

end
