(* ===== verification/PbMsgEncode.thy ===== *)
theory PbMsgEncode
  imports PbMsgDecode PbEncode
begin

text \<open>
  \<open>nanopb/pb_encode.c\<close>: the encoding of messages from memory. The structure is only read, so memory
  is a parameter; an operation takes the stream to an option as in the decoder, \<open>None\<close> when it does
  not return or goes through a null function pointer. The user's functions are collected in an
  environment; they may write to the stream, not to the structure.
\<close>

unbundle bit_operations_syntax

record 's pb_out_env =
  n_callback :: "nat \<Rightarrow> pb_field \<Rightarrow> nat \<Rightarrow> 's pb_ostream \<Rightarrow> bool \<times> 's pb_ostream"
  n_extension :: "nat \<Rightarrow> nat \<Rightarrow> 's pb_ostream \<Rightarrow> bool \<times> 's pb_ostream"
  n_field :: "nat \<Rightarrow> pb_field"

type_synonym 's out_op = "(unit, 's pb_ostream) op"

definition out :: "('t \<Rightarrow> 'a option \<times> 't) \<Rightarrow> ('a, 't) op" where
  "out f st = Some (f st)"

section \<open>Values\<close>

definition safe_read_bool :: "pb_memory \<Rightarrow> nat \<Rightarrow> bool" where
  "safe_read_bool m p \<longleftrightarrow> m p \<noteq> 0"

definition pb_enc_bool :: "pb_memory \<Rightarrow> nat \<Rightarrow> 's out_op" where
  "pb_enc_bool m src = out (pb_encode_varint (if safe_read_bool m src then 1 else 0))"

text \<open>The value of a field of the size given, sign-extended or zero-extended to 64 bits.\<close>

definition field_value :: "bool \<Rightarrow> nat \<Rightarrow> pb_memory \<Rightarrow> nat \<Rightarrow> u64 option" where
  "field_value is_signed n m src =
     (if n = 1 then
        Some (if is_signed then scast (le_word (read_bytes m src 1) :: u8) else ucast (le_word (read_bytes m src 1) :: u8))
      else if n = 2 then
        Some (if is_signed then scast (le_word (read_bytes m src 2) :: u16) else ucast (le_word (read_bytes m src 2) :: u16))
      else if n = 4 then
        Some (if is_signed then scast (le_word (read_bytes m src 4) :: u32) else ucast (le_word (read_bytes m src 4) :: u32))
      else if n = 8 then Some (le_word (read_bytes m src 8))
      else None)"

definition enc_value ::
  "bool \<Rightarrow> (u64 \<Rightarrow> 's pb_ostream \<Rightarrow> unit option \<times> 's pb_ostream) \<Rightarrow> pb_memory \<Rightarrow> pb_field \<Rightarrow> nat \<Rightarrow> 's out_op" where
  "enc_value is_signed encode m field src =
     (case field_value is_signed (f_data_size field) m src of
        None \<Rightarrow> out (os_fail ''invalid data_size'')
      | Some v \<Rightarrow> out (encode v))"

definition pb_enc_varint :: "pb_memory \<Rightarrow> pb_field \<Rightarrow> nat \<Rightarrow> 's out_op" where
  "pb_enc_varint = enc_value True pb_encode_varint"

definition pb_enc_uvarint :: "pb_memory \<Rightarrow> pb_field \<Rightarrow> nat \<Rightarrow> 's out_op" where
  "pb_enc_uvarint = enc_value False pb_encode_varint"

definition pb_enc_svarint :: "pb_memory \<Rightarrow> pb_field \<Rightarrow> nat \<Rightarrow> 's out_op" where
  "pb_enc_svarint = enc_value True pb_encode_svarint"

definition pb_enc_fixed32 :: "pb_memory \<Rightarrow> nat \<Rightarrow> 's out_op" where
  "pb_enc_fixed32 m src = out (pb_encode_fixed32 (le_word (read_bytes m src 4)))"

definition pb_enc_fixed64 :: "pb_memory \<Rightarrow> nat \<Rightarrow> 's out_op" where
  "pb_enc_fixed64 m src = out (pb_encode_fixed64 (le_word (read_bytes m src 8)))"

definition enc_block :: "pb_memory \<Rightarrow> nat \<Rightarrow> nat \<Rightarrow> 's out_op" where
  "enc_block m src n = out (pb_encode_string (read_bytes m src n) n)"

definition pb_enc_bytes :: "pb_memory \<Rightarrow> pb_field \<Rightarrow> nat \<Rightarrow> 's out_op" where
  "pb_enc_bytes m field src =
     (if src = 0 then enc_block m 0 0
      else
        let n = read_count m src
        in if PB_ATYPE (f_type field) = PB_ATYPE_STATIC \<and> n + 4 > f_data_size field
           then out (os_fail ''bytes size exceeded'')
           else enc_block m (src + 4) n)"

function string_size :: "pb_memory \<Rightarrow> nat \<Rightarrow> nat \<Rightarrow> nat \<Rightarrow> nat" where
  "string_size m src max_size n =
     (if n < max_size \<and> m (src + n) \<noteq> 0 then string_size m src max_size (n + 1) else n)"
  by pat_completeness auto
termination by (relation "measure (\<lambda>(m, src, max_size, n). max_size - n)") auto

declare string_size.simps [simp del]

definition pb_enc_string :: "pb_memory \<Rightarrow> pb_field \<Rightarrow> nat \<Rightarrow> 's out_op" where
  "pb_enc_string m field src =
     (let max_size = (if PB_ATYPE (f_type field) = PB_ATYPE_POINTER then 2 ^ 64 - 1 else f_data_size field)
      in enc_block m src (if src = 0 then 0 else string_size m src max_size 0))"

definition pb_enc_fixed_length_bytes :: "pb_memory \<Rightarrow> pb_field \<Rightarrow> nat \<Rightarrow> 's out_op" where
  "pb_enc_fixed_length_bytes m field src = enc_block m src (f_data_size field)"

section \<open>Submessages\<close>

text \<open>The size is found on a counting stream; the message is then written to a stream limited to it.\<close>

definition pb_encode_submessage ::
  "(pb_field list \<Rightarrow> nat \<Rightarrow> 's out_op) \<Rightarrow> pb_field list \<Rightarrow> nat \<Rightarrow> 's out_op" where
  "pb_encode_submessage encode fs src st =
     (case encode fs src PB_OSTREAM_SIZING of
        None \<Rightarrow> None
      | Some (None, sub) \<Rightarrow> Some (None, st\<lparr>os_err := os_err sub\<rparr>)
      | Some (Some _, sub) \<Rightarrow>
          let n = os_written sub
          in andthen (out (pb_encode_varint (of_nat n)) st) (\<lambda>_ st.
               if is_sizing st then out (pb_write [] n) st
               else if size_add (os_written st) n > os_max st then out (os_fail ''stream full'') st
               else
                 (case encode fs src \<lparr>os_output = os_output st, os_max = n, os_written = 0, os_err = None\<rparr> of
                    None \<Rightarrow> None
                  | Some (status, sub) \<Rightarrow>
                      let st = st\<lparr>os_output := os_output sub, os_written := size_add (os_written st) (os_written sub),
                            os_err := os_err sub\<rparr>
                      in if os_written sub \<noteq> n then out (os_fail ''submsg size changed'') st else Some (status, st))))"

definition pb_enc_submessage ::
  "(pb_field list \<Rightarrow> nat \<Rightarrow> 's out_op) \<Rightarrow> pb_field \<Rightarrow> nat \<Rightarrow> 's out_op" where
  "pb_enc_submessage encode field src =
     (case f_ptr field of
        Null \<Rightarrow> out (os_fail ''invalid field descriptor'')
      | Submsg fs \<Rightarrow> pb_encode_submessage encode fs src
      | Default_value _ \<Rightarrow> (\<lambda>_. None))"

text \<open>\<open>PB_ENCODERS\<close>.\<close>

definition pb_encoder :: "pb_memory \<Rightarrow> (pb_field list \<Rightarrow> nat \<Rightarrow> 's out_op) \<Rightarrow> pb_field \<Rightarrow> nat \<Rightarrow> 's out_op" where
  "pb_encoder m encode field src =
     (let l = PB_LTYPE (f_type field)
      in if l = PB_LTYPE_BOOL then pb_enc_bool m src
         else if l = PB_LTYPE_VARINT then pb_enc_varint m field src
         else if l = PB_LTYPE_UVARINT then pb_enc_uvarint m field src
         else if l = PB_LTYPE_SVARINT then pb_enc_svarint m field src
         else if l = PB_LTYPE_FIXED32 then pb_enc_fixed32 m src
         else if l = PB_LTYPE_FIXED64 then pb_enc_fixed64 m src
         else if l = PB_LTYPE_BYTES then pb_enc_bytes m field src
         else if l = PB_LTYPE_STRING then pb_enc_string m field src
         else if l = PB_LTYPE_SUBMESSAGE then pb_enc_submessage encode field src
         else if l = PB_LTYPE_FIXED_LENGTH_BYTES then pb_enc_fixed_length_bytes m field src
         else (\<lambda>_. None))"

definition wire_type_of :: "u8 \<Rightarrow> u32 option" where
  "wire_type_of l =
     (if l \<in> {PB_LTYPE_BOOL, PB_LTYPE_VARINT, PB_LTYPE_UVARINT, PB_LTYPE_SVARINT} then Some PB_WT_VARINT
      else if l = PB_LTYPE_FIXED32 then Some PB_WT_32BIT
      else if l = PB_LTYPE_FIXED64 then Some PB_WT_64BIT
      else if l \<in> {PB_LTYPE_BYTES, PB_LTYPE_STRING, PB_LTYPE_SUBMESSAGE, PB_LTYPE_FIXED_LENGTH_BYTES}
      then Some PB_WT_STRING
      else None)"

definition pb_encode_tag_for_field :: "pb_field \<Rightarrow> 's out_op" where
  "pb_encode_tag_for_field field =
     (case wire_type_of (PB_LTYPE (f_type field)) of
        None \<Rightarrow> out (os_fail ''invalid field type'')
      | Some wire_type \<Rightarrow> out (pb_encode_tag wire_type (f_tag field)))"

section \<open>Arrays\<close>

definition packed_size :: "(nat \<Rightarrow> 's out_op) \<Rightarrow> pb_field \<Rightarrow> nat \<Rightarrow> nat \<Rightarrow> (nat, 's pb_ostream) op" where
  "packed_size func field pData count st =
     (if PB_LTYPE (f_type field) = PB_LTYPE_FIXED32 then ret (4 * count) st
      else if PB_LTYPE (f_type field) = PB_LTYPE_FIXED64 then ret (8 * count) st
      else
        (case each_item func (f_data_size field) count pData PB_OSTREAM_SIZING of
           None \<Rightarrow> None
         | Some (r, sizestream) \<Rightarrow> Some (map_option (\<lambda>_. os_written sizestream) r, st)))"

definition encode_array ::
  "pb_memory \<Rightarrow> (nat \<Rightarrow> 's out_op) \<Rightarrow> pb_field \<Rightarrow> nat \<Rightarrow> nat \<Rightarrow> 's out_op" where
  "encode_array m func field pData count st =
     (let t = f_type field; pointer = PB_ATYPE t = PB_ATYPE_POINTER
      in if count = 0 then ret () st
         else if \<not> pointer \<and> count > f_array_size field then out (os_fail ''array max size exceeded'') st
         else if PB_LTYPE t \<le> PB_LTYPE_LAST_PACKABLE then
           andthen (out (pb_encode_tag PB_WT_STRING (f_tag field)) st) (\<lambda>_ st.
             andthen (packed_size func field pData count st) (\<lambda>n st.
               andthen (out (pb_encode_varint (of_nat n)) st) (\<lambda>_ st.
                 if is_sizing st then out (pb_write [] n) st
                 else each_item func (f_data_size field) count pData st)))
         else
           each_item
             (\<lambda>p st. andthen (pb_encode_tag_for_field field st) (\<lambda>_.
                func (if pointer \<and> (PB_LTYPE t = PB_LTYPE_STRING \<or> PB_LTYPE t = PB_LTYPE_BYTES)
                      then read_pointer m p else p)))
             (f_data_size field) count pData st)"

section \<open>The test for default values\<close>

fun all_default :: "(pb_field \<Rightarrow> nat \<Rightarrow> bool option) \<Rightarrow> nat \<Rightarrow> pb_iter \<Rightarrow> bool option" where
  "all_default f 0 it = None"
| "all_default f (Suc k) it =
     (case f (field_of it) (it_data it) of
        None \<Rightarrow> None
      | Some False \<Rightarrow> Some False
      | Some True \<Rightarrow>
          (case pb_field_iter_next it of (again, it) \<Rightarrow> if again then all_default f k it else Some True))"

definition size_pointer :: "pb_field \<Rightarrow> nat \<Rightarrow> nat" where
  "size_pointer field pData = nat (int pData + f_size_offset field)"

definition default_step ::
  "pb_memory \<Rightarrow> (pb_field \<Rightarrow> nat \<Rightarrow> bool option) \<Rightarrow> pb_field \<Rightarrow> nat \<Rightarrow> bool option" where
  "default_step m is_default field pData =
     (let t = f_type field; h = PB_HTYPE t; l = PB_LTYPE t; static = PB_ATYPE t = PB_ATYPE_STATIC;
          pSize = size_pointer field pData
      in if h = PB_HTYPE_REQUIRED then Some False
         else if h = PB_HTYPE_REPEATED \<and> f_size_offset field \<noteq> 0 then Some (read_count m pSize = 0)
         else if h = PB_HTYPE_REPEATED \<and> static then Some False
         else if h = PB_HTYPE_ONEOF then Some (read_count m pSize = 0)
         else if h = PB_HTYPE_OPTIONAL \<and> f_size_offset field \<noteq> 0 then Some (\<not> safe_read_bool m pSize)
         else if static \<and> l = PB_LTYPE_BYTES then Some (read_count m pData = 0)
         else if static \<and> l = PB_LTYPE_STRING then Some (m pData = 0)
         else if static \<and> l = PB_LTYPE_FIXED_LENGTH_BYTES then Some (f_data_size field = 0)
         else if static \<and> l = PB_LTYPE_SUBMESSAGE then
           (case f_ptr field of
              Submsg fs \<Rightarrow>
                (case pb_field_iter_begin fs pData of
                   (ok, it) \<Rightarrow> if ok then all_default is_default (length fs + 1) it else Some True)
            | _ \<Rightarrow> None)
         else if PB_ATYPE t = PB_ATYPE_POINTER \<and> l > PB_LTYPE_LAST_PACKABLE then Some (read_pointer m pData = 0)
         else Some (list_all (\<lambda>b. b = 0) (read_bytes m pData (f_data_size field))))"

primrec pb_check_proto3_default_value :: "pb_memory \<Rightarrow> nat \<Rightarrow> pb_field \<Rightarrow> nat \<Rightarrow> bool option" where
  "pb_check_proto3_default_value m 0 = (\<lambda>field pData. None)"
| "pb_check_proto3_default_value m (Suc n) = default_step m (pb_check_proto3_default_value m n)"

section \<open>One field\<close>

definition encode_basic_field ::
  "pb_memory \<Rightarrow> (pb_field \<Rightarrow> nat \<Rightarrow> bool option) \<Rightarrow> (nat \<Rightarrow> 's out_op) \<Rightarrow> pb_field \<Rightarrow> nat \<Rightarrow> 's out_op" where
  "encode_basic_field m is_default func field pData st =
     (let t = f_type field; h = PB_HTYPE t; pointer = PB_ATYPE t = PB_ATYPE_POINTER;
          sized = f_size_offset field \<noteq> 0; pSize = size_pointer field pData;
          p = (if pointer then read_pointer m pData else pData);
          implicit = (if \<not> sized \<and> h = PB_HTYPE_OPTIONAL then map_option Not (is_default field pData) else Some True);
          encode = (\<lambda>st. andthen (pb_encode_tag_for_field field st) (\<lambda>_. func p))
      in case implicit of
           None \<Rightarrow> None
         | Some implicit_has \<Rightarrow>
             let implicit_has = (if pointer then p \<noteq> 0 else implicit_has)
             in if h = PB_HTYPE_REQUIRED then
                  if p = 0 then out (os_fail ''missing required field'') st else encode st
                else if h = PB_HTYPE_OPTIONAL then
                  if (if sized then safe_read_bool m pSize else implicit_has) then encode st else ret () st
                else if h = PB_HTYPE_REPEATED then
                  encode_array m func field p (if sized then read_count m pSize else f_array_size field) st
                else if \<not> sized then None
                else if read_count m pSize = unat (f_tag field) then encode st
                else ret () st)"

definition encode_callback_field :: "'s pb_out_env \<Rightarrow> pb_memory \<Rightarrow> pb_field \<Rightarrow> nat \<Rightarrow> 's out_op" where
  "encode_callback_field env m field pData st =
     (let encode = read_pointer m pData
      in if encode \<noteq> 0 then
           (case n_callback env encode field (pData + 8) st of
              (ok, st) \<Rightarrow> if ok then ret () st else out (os_fail ''callback error'') st)
         else ret () st)"

definition encode_field ::
  "'s pb_out_env \<Rightarrow> pb_memory \<Rightarrow> (pb_field \<Rightarrow> nat \<Rightarrow> bool option) \<Rightarrow> (pb_field list \<Rightarrow> nat \<Rightarrow> 's out_op) \<Rightarrow>
   pb_field \<Rightarrow> nat \<Rightarrow> 's out_op" where
  "encode_field env m is_default encode field pData =
     (let a = PB_ATYPE (f_type field)
      in if a = PB_ATYPE_STATIC \<or> a = PB_ATYPE_POINTER
         then encode_basic_field m is_default (pb_encoder m encode field) field pData
         else if a = PB_ATYPE_CALLBACK then encode_callback_field env m field pData
         else out (os_fail ''invalid field type''))"

section \<open>Extensions\<close>

text \<open>In the type of an extension \<open>encode\<close> is at 8 and \<open>arg\<close> at 16.\<close>

definition default_extension_encoder ::
  "'s pb_out_env \<Rightarrow> pb_memory \<Rightarrow> (pb_field \<Rightarrow> nat \<Rightarrow> 's out_op) \<Rightarrow> nat \<Rightarrow> 's out_op" where
  "default_extension_encoder env m encode ext =
     (let field = n_field env (read_pointer m (read_pointer m ext + 16))
      in if PB_ATYPE (f_type field) = PB_ATYPE_POINTER then encode field (ext + 8)
         else encode field (read_pointer m (ext + 8)))"

partial_function (option) extension_loop :: "(nat \<Rightarrow> 's out_op) \<Rightarrow> pb_memory \<Rightarrow> nat \<Rightarrow> 's out_op" where
  "extension_loop f m ext st =
     (if ext = 0 then ret () st
      else andthen (f ext st) (\<lambda>_ st. extension_loop f m (read_pointer m (ext + 16)) st))"

definition encode_extension_field ::
  "'s pb_out_env \<Rightarrow> pb_memory \<Rightarrow> (pb_field \<Rightarrow> nat \<Rightarrow> 's out_op) \<Rightarrow> nat \<Rightarrow> 's out_op" where
  "encode_extension_field env m encode pData =
     extension_loop
       (\<lambda>ext st.
          let f = read_pointer m (read_pointer m ext + 8)
          in if f \<noteq> 0 then passed (n_extension env f ext st)
             else default_extension_encoder env m encode ext st)
       m (read_pointer m pData)"

section \<open>All fields\<close>

definition encode_step ::
  "'s pb_out_env \<Rightarrow> pb_memory \<Rightarrow> (pb_field \<Rightarrow> nat \<Rightarrow> bool option) \<Rightarrow> (pb_field list \<Rightarrow> nat \<Rightarrow> 's out_op) \<Rightarrow>
   pb_iter \<Rightarrow> 's out_op" where
  "encode_step env m is_default encode it =
     (if PB_LTYPE (f_type (field_of it)) = PB_LTYPE_EXTENSION
      then encode_extension_field env m (encode_field env m is_default encode) (it_data it)
      else encode_field env m is_default encode (field_of it) (it_data it))"

primrec pb_encode :: "'s pb_out_env \<Rightarrow> pb_memory \<Rightarrow> nat \<Rightarrow> pb_field list \<Rightarrow> nat \<Rightarrow> 's out_op" where
  "pb_encode env m 0 = (\<lambda>fs src st. None)"
| "pb_encode env m (Suc n) =
     each_of (encode_step env m (pb_check_proto3_default_value m (Suc n)) (pb_encode env m n))"

definition pb_encode_delimited :: "'s pb_out_env \<Rightarrow> pb_memory \<Rightarrow> nat \<Rightarrow> pb_field list \<Rightarrow> nat \<Rightarrow> 's out_op" where
  "pb_encode_delimited env m n = pb_encode_submessage (pb_encode env m n)"

definition pb_encode_nullterminated ::
  "'s pb_out_env \<Rightarrow> pb_memory \<Rightarrow> nat \<Rightarrow> pb_field list \<Rightarrow> nat \<Rightarrow> 's out_op" where
  "pb_encode_nullterminated env m n fs src st = andthen (pb_encode env m n fs src st) (\<lambda>_. out (pb_write [0] 1))"

definition pb_get_encoded_size ::
  "'s pb_out_env \<Rightarrow> pb_memory \<Rightarrow> nat \<Rightarrow> pb_field list \<Rightarrow> nat \<Rightarrow> nat option option" where
  "pb_get_encoded_size env m n fs src =
     map_option (\<lambda>(r, st). map_option (\<lambda>_. os_written st) r) (pb_encode env m n fs src PB_OSTREAM_SIZING)"

end
