(* ===== verification/PbFormat.thy ===== *)
theory PbFormat
  imports PbDecSafe PbMsgEncode PbSink
begin

text \<open>
  The bytes of a message, as a function of the descriptors and the memory, and the proof that the
  encoder writes them: on a counting stream it counts them, on memory it writes them where there is
  room, and fails where there is none.
\<close>

unbundle bit_operations_syntax

section \<open>The format\<close>

text \<open>\<open>None\<close> is a message that cannot be encoded.\<close>

definition join_bytes :: "bytes option \<Rightarrow> bytes option \<Rightarrow> bytes option" where
  "join_bytes x y = (case (x, y) of (Some d, Some e) \<Rightarrow> Some (d @ e) | _ \<Rightarrow> None)"

definition delimited :: "bytes \<Rightarrow> bytes" where
  "delimited d = varint (length d) @ d"

fun items_bytes :: "(nat \<Rightarrow> bytes option) \<Rightarrow> nat \<Rightarrow> nat \<Rightarrow> nat \<Rightarrow> bytes option" where
  "items_bytes f step 0 p = Some []"
| "items_bytes f step (Suc k) p = join_bytes (f p) (items_bytes f step k (p + step))"

definition string_bytes :: "pb_memory \<Rightarrow> pb_field \<Rightarrow> nat \<Rightarrow> bytes" where
  "string_bytes m f p =
     (if p = 0 then []
      else read_bytes m p
        (string_size m p (if PB_ATYPE (f_type f) = PB_ATYPE_POINTER then 2 ^ 64 - 1 else f_data_size f) 0))"

definition value_bytes :: "pb_memory \<Rightarrow> (pb_field list \<Rightarrow> nat \<Rightarrow> bytes option) \<Rightarrow> pb_field \<Rightarrow> nat \<Rightarrow> bytes option" where
  "value_bytes m message f p =
     (let l = PB_LTYPE (f_type f)
      in if l = PB_LTYPE_BOOL then Some (varint (if m p \<noteq> 0 then 1 else 0))
         else if l = PB_LTYPE_VARINT then map_option (\<lambda>v. varint (unat v)) (field_value True (f_data_size f) m p)
         else if l = PB_LTYPE_UVARINT then map_option (\<lambda>v. varint (unat v)) (field_value False (f_data_size f) m p)
         else if l = PB_LTYPE_SVARINT then
           map_option (\<lambda>v. varint (unat (zigzag v))) (field_value True (f_data_size f) m p)
         else if l = PB_LTYPE_FIXED32 then Some (read_bytes m p 4)
         else if l = PB_LTYPE_FIXED64 then Some (read_bytes m p 8)
         else if l = PB_LTYPE_BYTES then
           if p = 0 then Some (delimited [])
           else if PB_ATYPE (f_type f) = PB_ATYPE_STATIC \<and> read_count m p + 4 > f_data_size f then None
           else Some (delimited (read_bytes m (p + 4) (read_count m p)))
         else if l = PB_LTYPE_STRING then Some (delimited (string_bytes m f p))
         else if l = PB_LTYPE_SUBMESSAGE then
           (case f_ptr f of Submsg fs \<Rightarrow> map_option delimited (message fs p) | _ \<Rightarrow> None)
         else if l = PB_LTYPE_FIXED_LENGTH_BYTES then Some (delimited (read_bytes m p (f_data_size f)))
         else None)"

definition tagged :: "pb_field \<Rightarrow> bytes option \<Rightarrow> bytes option" where
  "tagged f d =
     (case wire_type_of (PB_LTYPE (f_type f)) of
        None \<Rightarrow> None
      | Some wt \<Rightarrow> join_bytes (Some (tag_bytes wt (f_tag f))) d)"

definition array_bytes :: "pb_memory \<Rightarrow> (nat \<Rightarrow> bytes option) \<Rightarrow> pb_field \<Rightarrow> nat \<Rightarrow> nat \<Rightarrow> bytes option" where
  "array_bytes m val f p count =
     (let t = f_type f; pointer = PB_ATYPE t = PB_ATYPE_POINTER
      in if count = 0 then Some []
         else if \<not> pointer \<and> count > f_array_size f then None
         else if PB_LTYPE t \<le> PB_LTYPE_LAST_PACKABLE then
           join_bytes (Some (tag_bytes PB_WT_STRING (f_tag f))) (map_option delimited (items_bytes val (f_data_size f) count p))
         else
           items_bytes
             (\<lambda>p. tagged f (val (if pointer \<and> (PB_LTYPE t = PB_LTYPE_STRING \<or> PB_LTYPE t = PB_LTYPE_BYTES)
                then read_pointer m p else p)))
             (f_data_size f) count p)"

text \<open>\<open>cb\<close> gives what the user's callbacks write.\<close>

definition field_bytes ::
  "pb_memory \<Rightarrow> (nat \<Rightarrow> pb_field \<Rightarrow> nat \<Rightarrow> bytes option) \<Rightarrow> (pb_field \<Rightarrow> nat \<Rightarrow> bool option) \<Rightarrow>
   (pb_field list \<Rightarrow> nat \<Rightarrow> bytes option) \<Rightarrow> pb_field \<Rightarrow> nat \<Rightarrow> bytes option" where
  "field_bytes m cb is_default message f pData =
     (let t = f_type f; h = PB_HTYPE t; a = PB_ATYPE t; pointer = a = PB_ATYPE_POINTER;
          sized = f_size_offset f \<noteq> 0; pSize = size_pointer f pData;
          p = (if pointer then read_pointer m pData else pData); one = tagged f (value_bytes m message f p)
      in if a = PB_ATYPE_CALLBACK then
           if read_pointer m pData = 0 then Some [] else cb (read_pointer m pData) f (pData + 8)
         else if a \<noteq> PB_ATYPE_STATIC \<and> \<not> pointer then None
         else if h = PB_HTYPE_REQUIRED then if p = 0 then None else one
         else if h = PB_HTYPE_OPTIONAL then
           (case (if \<not> sized then is_default f pData else Some True) of
              None \<Rightarrow> None
            | Some zero \<Rightarrow>
                if (if sized then m pSize \<noteq> 0 else if pointer then p \<noteq> 0 else \<not> zero) then one else Some [])
         else if h = PB_HTYPE_REPEATED then
           array_bytes m (value_bytes m message f) f p (if sized then read_count m pSize else f_array_size f)
         else if \<not> sized then None
         else if read_count m pSize = unat (f_tag f) then one
         else Some [])"

fun fields_bytes :: "(pb_field \<Rightarrow> nat \<Rightarrow> bytes option) \<Rightarrow> pb_field list \<Rightarrow> nat \<Rightarrow> nat \<Rightarrow> nat \<Rightarrow> bytes option" where
  "fields_bytes g fs src i 0 = Some []"
| "fields_bytes g fs src i (Suc k) =
     join_bytes (g (fs ! i) (src + data_pos fs i)) (fields_bytes g fs src (i + 1) k)"

primrec message_bytes ::
  "pb_memory \<Rightarrow> (nat \<Rightarrow> pb_field \<Rightarrow> nat \<Rightarrow> bytes option) \<Rightarrow> nat \<Rightarrow> pb_field list \<Rightarrow> nat \<Rightarrow> bytes option" where
  "message_bytes m cb 0 = (\<lambda>fs src. None)"
| "message_bytes m cb (Suc n) =
     (\<lambda>fs src.
        fields_bytes (field_bytes m cb (pb_check_proto3_default_value m (Suc n)) (message_bytes m cb n))
          fs src 0 (length fs))"

text \<open>Descriptors as generated: numbers from 1 on, and no extension fields.\<close>

primrec plain :: "nat \<Rightarrow> pb_field list \<Rightarrow> bool" where
  "plain 0 = (\<lambda>fs. True)"
| "plain (Suc n) =
     list_all (\<lambda>f. f_tag f \<noteq> 0 \<and> PB_LTYPE (f_type f) \<noteq> PB_LTYPE_EXTENSION \<and>
        (case f_ptr f of Submsg fs \<Rightarrow> plain n fs | _ \<Rightarrow> True))"

section \<open>Operations that write given bytes\<close>

definition fills :: "('s pb_ostream \<Rightarrow> bytes \<Rightarrow> bool) \<Rightarrow> nat \<Rightarrow> 's out_op \<Rightarrow> bytes \<Rightarrow> bool" where
  "fills has room f d \<longleftrightarrow>
     (\<forall>st bs. has st bs \<longrightarrow> length bs + length d \<le> room \<longrightarrow>
        (\<exists>st'. f st = Some (Some (), st') \<and> has st' (bs @ d)))"

definition spills :: "('s pb_ostream \<Rightarrow> bytes \<Rightarrow> bool) \<Rightarrow> nat \<Rightarrow> 's out_op \<Rightarrow> bytes \<Rightarrow> bool" where
  "spills has room f d \<longleftrightarrow>
     (\<forall>st bs. has st bs \<longrightarrow> room < length bs + length d \<longrightarrow>
        (\<exists>st' e. f st = Some (None, st') \<and> has st' (bs @ e) \<and> prefix e d))"

lemma fills_out: "encodes has room f d \<Longrightarrow> fills has room (out f) d"
  by (simp add: fills_def encodes_def out_def)

lemma spills_out: "stops has room f d \<Longrightarrow> spills has room (out f) d"
  by (simp add: spills_def stops_def out_def)

lemma fills_ok:
  assumes "fills has room f d" and "has st bs" and "length bs + length d \<le> room"
  obtains st' where "f st = Some (Some (), st')" and "has st' (bs @ d)"
  using assms by (auto simp: fills_def)

lemma fills_then:
  assumes "fills has room f d" and "fills has room g e"
  shows "fills has room (\<lambda>st. andthen (f st) (\<lambda>_. g)) (d @ e)"
  unfolding fills_def
proof (intro allI impI)
  fix st bs assume st: "has st bs" "length bs + length (d @ e) \<le> room"
  obtain st1 where st1: "f st = Some (Some (), st1)" "has st1 (bs @ d)"
    by (rule fills_ok [OF assms(1) st(1)]) (use st(2) in simp)
  obtain st2 where "g st1 = Some (Some (), st2)" "has st2 ((bs @ d) @ e)"
    by (rule fills_ok [OF assms(2) st1(2)]) (use st(2) in simp)
  then show "\<exists>st'. andthen (f st) (\<lambda>_. g) = Some (Some (), st') \<and> has st' (bs @ d @ e)" by (simp add: st1(1))
qed

lemma spills_then:
  assumes "fills has room f d" and "spills has room f d" and "spills has room g e"
  shows "spills has room (\<lambda>st. andthen (f st) (\<lambda>_. g)) (d @ e)"
  unfolding spills_def
proof (intro allI impI)
  fix st bs assume st: "has st bs" "room < length bs + length (d @ e)"
  show "\<exists>st' x. andthen (f st) (\<lambda>_. g) = Some (None, st') \<and> has st' (bs @ x) \<and> prefix x (d @ e)"
  proof (cases "length bs + length d \<le> room")
    case True
    then obtain st1 where st1: "f st = Some (Some (), st1)" "has st1 (bs @ d)"
      using assms(1) st(1) unfolding fills_def by blast
    have "room < length (bs @ d) + length e" using st(2) by simp
    then obtain st' x where "g st1 = Some (None, st')" "has st' ((bs @ d) @ x)" "prefix x e"
      using assms(3) st1(2) unfolding spills_def by blast
    then show ?thesis by (intro exI [of _ st'] exI [of _ "d @ x"]) (simp add: st1(1))
  next
    case False
    then obtain st' x where "f st = Some (None, st')" "has st' (bs @ x)" "prefix x d"
      using assms(2) st(1) unfolding spills_def by (meson not_le)
    then show ?thesis by (intro exI [of _ st'] exI [of _ x]) (simp add: prefix_prefix)
  qed
qed

text \<open>
  Below 2^63 bytes: above, the sum of the size of a submessage and the bytes written so far could
  wrap around, which \<open>pb_encode_submessage\<close> does not test.
\<close>

definition puts :: "'s out_op \<Rightarrow> bytes \<Rightarrow> bool" where
  "puts f d \<longleftrightarrow>
     (length d < 2 ^ 63 \<longrightarrow>
        fills counted (2 ^ 64 - 1) f d \<and>
        (\<forall>pre buf w room. fills (in_block pre buf w room) room f d \<and> spills (in_block pre buf w room) room f d))"

definition never :: "'s out_op \<Rightarrow> bool" where
  "never f \<longleftrightarrow> (\<forall>st u st'. f st \<noteq> Some (Some u, st'))"

definition follows :: "'s out_op \<Rightarrow> bytes option \<Rightarrow> bool" where
  "follows f x \<longleftrightarrow> (case x of None \<Rightarrow> never f | Some d \<Rightarrow> puts f d)"

lemma puts_then:
  assumes "puts f d" and "puts g e"
  shows "puts (\<lambda>st. andthen (f st) (\<lambda>_. g)) (d @ e)"
  using assms unfolding puts_def by (auto intro: fills_then spills_then)

lemma never_then: "never f \<Longrightarrow> never (\<lambda>st. andthen (f st) (\<lambda>_. g))"
  unfolding never_def
proof (intro allI notI)
  fix st u st' assume "\<forall>st u st'. f st \<noteq> Some (Some u, st')" "andthen (f st) (\<lambda>_. g) = Some (Some u, st')"
  then show False by (cases "f st"; cases "fst (the (f st))") (auto simp: andthen_bind)
qed

lemma never_after: "never g \<Longrightarrow> never (\<lambda>st. andthen (f st) (\<lambda>_. g))"
  unfolding never_def
proof (intro allI notI)
  fix st u st' assume "\<forall>st u st'. g st \<noteq> Some (Some u, st')" "andthen (f st) (\<lambda>_. g) = Some (Some u, st')"
  then show False by (cases "f st"; cases "fst (the (f st))") (auto simp: andthen_bind)
qed

lemma follows_then:
  assumes "follows f x" and "follows g y"
  shows "follows (\<lambda>st. andthen (f st) (\<lambda>_. g)) (join_bytes x y)"
  using assms puts_then never_then never_after by (auto simp: follows_def join_bytes_def split: option.splits)


lemma puts_follows: "puts f d \<Longrightarrow> follows f (Some d)"
  by (simp add: follows_def)

lemma follows_never: "(\<And>st. f st = None) \<Longrightarrow> follows f None"
  by (simp add: follows_def never_def)

lemma follows_error: "follows (out (os_fail msg)) None"
  by (simp add: follows_def never_def out_def os_fail_def)

lemma follows_if:
  "(P \<Longrightarrow> follows f x) \<Longrightarrow> (\<not> P \<Longrightarrow> follows g y) \<Longrightarrow> follows (if P then f else g) (if P then x else y)"
  by simp

section \<open>Values\<close>

lemma puts_write: "puts (out (pb_write d (length d))) d"
  unfolding puts_def
  by (intro impI conjI allI fills_out spills_out sizing.pb_write block.pb_write block.pb_write_stops) simp

lemma puts_varint: "puts (out (pb_encode_varint v)) (varint (unat v))"
  unfolding pb_encode_varint_write by (rule puts_write)

lemma puts_tag: "unat wt < 8 \<Longrightarrow> puts (out (pb_encode_tag wt field)) (tag_bytes wt field)"
  by (simp add: pb_encode_tag_write puts_write)

lemma puts_nothing: "puts (ret ()) []"
  by (auto simp: puts_def fills_def spills_def ret_def counted_def in_block_def)

lemma out_on_ok: "out (\<lambda>st. on_ok (f st) (\<lambda>_. g)) = (\<lambda>st. andthen (out f st) (\<lambda>_. out g))"
proof
  show "out (\<lambda>st. on_ok (f st) (\<lambda>_. g)) st = andthen (out f st) (\<lambda>_. out g)" for st
    by (cases "f st"; cases "fst (f st)") (auto simp: out_def)
qed

lemma puts_string: "puts (out (pb_encode_string d (length d))) (delimited d)"
proof -
  have "puts (\<lambda>st. andthen (out (pb_encode_varint (of_nat (length d))) st) (\<lambda>_. out (pb_write d (length d))))
      (varint (unat (of_nat (length d) :: u64)) @ d)"
    by (rule puts_then [OF puts_varint puts_write])
  moreover have "unat (of_nat (length d) :: u64) = length d" if "length (delimited d) < 2 ^ 63"
    using that by (intro unat_of_nat_u64) (simp add: delimited_def)
  ultimately show ?thesis
    unfolding puts_def pb_encode_string_def [abs_def] out_on_ok by (auto simp: delimited_def)
qed

lemma length_read_bytes [simp]: "length (read_bytes m p n) = n"
  by (simp add: read_bytes_def)

lemma puts_block: "puts (enc_block m src n) (delimited (read_bytes m src n))"
  using puts_string [of "read_bytes m src n"] by (simp add: enc_block_def)

lemma word_digits:
  assumes "length bs = n" and "8 * n \<le> LENGTH('a)"
  shows "map (\<lambda>i. ucast (drop_bit (8 * i) (le_word bs :: 'a::len word) AND 0xff) :: u8) [0..<n] = bs"
proof (rule nth_equalityI)
  fix i assume "i < length (map (\<lambda>i. ucast (drop_bit (8 * i) (le_word bs :: 'a word) AND 0xff) :: u8) [0..<n])"
  then have i: "i < n" by simp
  have mask: "(0xff :: 'a word) = mask 8" by (simp add: mask_eq_exp_minus_1)
  show "map (\<lambda>i. ucast (drop_bit (8 * i) (le_word bs :: 'a word) AND 0xff) :: u8) [0..<n] ! i = bs ! i"
  proof (rule bit_word_eqI)
    fix j assume j: "j < LENGTH(8)"
    then have "8 * i + j < LENGTH('a)" "(8 * i + j) div 8 = i" "(8 * i + j) mod 8 = j" using i assms(2) by auto
    then show "bit (map (\<lambda>i. ucast (drop_bit (8 * i) (le_word bs :: 'a word) AND 0xff) :: u8) [0..<n] ! i) j = bit (bs ! i) j"
      using i j assms by (simp add: mask bit_simps bit_le_word)
  qed
qed (simp add: assms)

lemma puts_fixed32: "puts (pb_enc_fixed32 m src) (read_bytes m src 4)"
  using puts_write [of "read_bytes m src 4"] word_digits [of "read_bytes m src 4" 4, where 'a = 32]
  by (simp add: pb_enc_fixed32_def pb_encode_fixed32_def)

lemma puts_fixed64: "puts (pb_enc_fixed64 m src) (read_bytes m src 8)"
  using puts_write [of "read_bytes m src 8"] word_digits [of "read_bytes m src 8" 8, where 'a = 64]
  by (simp add: pb_enc_fixed64_def pb_encode_fixed64_def)

lemma follows_ints:
  "follows (pb_enc_varint m f src) (map_option (\<lambda>v. varint (unat v)) (field_value True (f_data_size f) m src))"
  "follows (pb_enc_uvarint m f src) (map_option (\<lambda>v. varint (unat v)) (field_value False (f_data_size f) m src))"
  "follows (pb_enc_svarint m f src) (map_option (\<lambda>v. varint (unat (zigzag v))) (field_value True (f_data_size f) m src))"
  by (auto simp: pb_enc_varint_def pb_enc_uvarint_def pb_enc_svarint_def enc_value_def pb_encode_svarint_write
      intro: follows_error puts_follows puts_varint split: option.splits)


section \<open>Submessages\<close>

lemma puts_sizing:
  assumes "puts f d" and "length d < 2 ^ 63"
  obtains st where "f PB_OSTREAM_SIZING = Some (Some (), st)" and "os_written st = length d"
proof -
  have start: "counted (PB_OSTREAM_SIZING :: 'a pb_ostream) []" by (simp add: counted_def PB_OSTREAM_SIZING_def)
  have "fills counted (2 ^ 64 - 1) f d" using assms by (simp add: puts_def)
  from fills_ok [OF this start] assms(2) that show ?thesis by (auto simp: counted_def)
qed

lemma counted_more: "counted st bs \<Longrightarrow> length bs + length d < 2 ^ 64 \<Longrightarrow>
    \<exists>st'. pb_write [] (length d) st = (Some (), st') \<and> counted st' (bs @ d)"
  by (simp add: counted_def pb_write_def is_sizing_def size_add_small)

text \<open>A counting stream is told the size; a stream into memory gets the bytes.\<close>

lemma puts_counting:
  assumes "\<And>pre buf w room. length d < 2 ^ 63 \<Longrightarrow>
    fills (in_block pre buf w room) room g d \<and> spills (in_block pre buf w room) room g d"
  shows "puts (\<lambda>st. if is_sizing st then out (pb_write [] (length d)) st else g st) d" (is "puts ?f d")
proof -
  have "fills counted (2 ^ 64 - 1) ?f d"
    unfolding fills_def
  proof (intro allI impI)
    fix st :: "'a pb_ostream" and bs assume st: "counted st bs" "length bs + length d \<le> 2 ^ 64 - 1"
    then obtain st' where "pb_write [] (length d) st = (Some (), st')" "counted st' (bs @ d)"
      using counted_more [of st bs d] by auto
    then show "\<exists>st'. ?f st = Some (Some (), st') \<and> counted st' (bs @ d)"
      using st(1) by (auto simp: is_sizing_def counted_def out_def)
  qed
  moreover have "fills (in_block pre buf w room) room ?f d \<and> spills (in_block pre buf w room) room ?f d"
    if "length d < 2 ^ 63" for pre buf w room
    using assms [OF that, of pre buf w room]
    by (auto simp: fills_def spills_def in_block_def is_sizing_def)
  ultimately show ?thesis by (simp add: puts_def)
qed

lemma sub_block:
  assumes "in_block pre buf w room st bs" and "length bs + n \<le> room"
  shows "in_block (pre @ bs) buf 0 n \<lparr>os_output = os_output st, os_max = n, os_written = 0, os_err = None\<rparr> []"
  using assms by (simp add: in_block_def)

lemma sub_block_end:
  assumes "in_block pre buf w room st bs" and "in_block (pre @ bs) buf 0 n sub d" and "length bs + n \<le> room"
  shows "in_block pre buf w room
    (st\<lparr>os_output := os_output sub, os_written := size_add (os_written st) (os_written sub), os_err := e\<rparr>) (bs @ d)"
  using assms by (auto simp: in_block_def size_add_small add.assoc)

lemma puts_submessage:
  assumes sub: "puts (encode fs src) d"
  shows "puts (pb_encode_submessage encode fs src) (delimited d)"
proof (cases "length (delimited d) < 2 ^ 63")
  case True
  let ?n = "varint (length d)"
  have n: "length d < 2 ^ 63" using True by (simp add: delimited_def)
  have u: "unat (of_nat (length d) :: u64) = length d" by (rule unat_of_nat_u64) (use n in simp)
  obtain sub where sizing: "encode fs src PB_OSTREAM_SIZING = Some (Some (), sub)" "os_written sub = length d"
    by (rule puts_sizing [OF sub n])
  define rest where "rest = (\<lambda>st :: 'a pb_ostream.
      if size_add (os_written st) (length d) > os_max st then out (os_fail ''stream full'') st
      else
        (case encode fs src \<lparr>os_output = os_output st, os_max = length d, os_written = 0, os_err = None\<rparr> of
           None \<Rightarrow> None
         | Some (status, sub) \<Rightarrow>
             let st = st\<lparr>os_output := os_output sub, os_written := size_add (os_written st) (os_written sub),
                   os_err := os_err sub\<rparr>
             in if os_written sub \<noteq> length d then out (os_fail ''submsg size changed'') st else Some (status, st)))"
  have eq: "pb_encode_submessage encode fs src =
      (\<lambda>st. andthen (out (pb_encode_varint (of_nat (length d))) st)
         (\<lambda>_ st. if is_sizing st then out (pb_write [] (length d)) st else rest st))"
    by (simp only: fun_eq_iff pb_encode_submessage_def rest_def sizing option.case prod.case Let_def simp_thms)
  have "fills (in_block pre buf w room) room rest d" for pre buf w room
    unfolding fills_def
  proof (intro allI impI)
    fix st :: "'a pb_ostream" and bs
    assume st: "in_block pre buf w room st bs" "length bs + length d \<le> room"
    have "fills (in_block (pre @ bs) buf 0 (length d)) (length d) (encode fs src) d"
      using sub n by (simp add: puts_def)
    from fills_ok [OF this sub_block [OF st]] obtain sub where
      sub: "encode fs src \<lparr>os_output = os_output st, os_max = length d, os_written = 0, os_err = None\<rparr> = Some (Some (), sub)"
      "in_block (pre @ bs) buf 0 (length d) sub d" by auto
    have "\<not> size_add (os_written st) (length d) > os_max st" "os_written sub = length d"
      using st sub(2) by (auto simp: in_block_def size_add_small)
    then show "\<exists>st'. rest st = Some (Some (), st') \<and> in_block pre buf w room st' (bs @ d)"
      using sub(1) sub_block_end [OF st(1) sub(2) st(2)] by (simp add: rest_def)
  qed
  moreover have "spills (in_block pre buf w room) room rest d" for pre buf w room
    unfolding spills_def
  proof (intro allI impI)
    fix st :: "'a pb_ostream" and bs
    assume st: "in_block pre buf w room st bs" "room < length bs + length d"
    then have "size_add (os_written st) (length d) > os_max st"
      using n by (auto simp: in_block_def size_add_small)
    then show "\<exists>st' e. rest st = Some (None, st') \<and> in_block pre buf w room st' (bs @ e) \<and> prefix e d"
      using st(1) by (intro exI [of _ "snd (os_fail ''stream full'' st :: unit option \<times> _)"] exI [of _ "[]"])
        (simp add: rest_def out_def os_fail_def in_block_def)
  qed
  ultimately have "puts (\<lambda>st. if is_sizing st then out (pb_write [] (length d)) st else rest st) d"
    by (intro puts_counting conjI)
  from puts_then [OF puts_varint this, of "of_nat (length d)"] show ?thesis
    unfolding eq delimited_def u .
qed (simp add: puts_def)

lemma never_submessage:
  assumes "never (encode fs src)"
  shows "never (pb_encode_submessage encode fs src)"
proof -
  have "encode fs src PB_OSTREAM_SIZING \<noteq> Some (Some u, st)" for u st
    using assms by (simp add: never_def)
  then show ?thesis
    by (auto simp: never_def pb_encode_submessage_def split: option.splits prod.splits)
qed

lemma follows_submessage:
  "follows (encode fs src) x \<Longrightarrow> follows (pb_encode_submessage encode fs src) (map_option delimited x)"
  by (cases x) (auto simp: follows_def puts_submessage never_submessage)


section \<open>Fields\<close>

lemma follows_value:
  assumes "\<And>fs p. f_ptr f = Submsg fs \<Longrightarrow> follows (encode fs p) (message fs p)"
  shows "follows (pb_encoder m encode f p) (value_bytes m message f p)"
proof -
  have bool: "follows (pb_enc_bool m p) (Some (varint (if m p \<noteq> 0 then 1 else 0)))"
    using puts_varint [of "if m p \<noteq> 0 then 1 else 0"]
    by (auto simp: pb_enc_bool_def safe_read_bool_def intro!: puts_follows split: if_splits)
  have "bytes": "follows (pb_enc_bytes m f p)
      (if p = 0 then Some (delimited [])
       else if PB_ATYPE (f_type f) = PB_ATYPE_STATIC \<and> read_count m p + 4 > f_data_size f then None
       else Some (delimited (read_bytes m (p + 4) (read_count m p))))"
    using puts_block [of m 0 0]
    by (auto simp: pb_enc_bytes_def Let_def read_bytes_def intro: puts_follows puts_block [unfolded read_bytes_def] follows_error)
  have string: "follows (pb_enc_string m f p) (Some (delimited (string_bytes m f p)))"
    using puts_block [of m p 0]
    by (auto simp: pb_enc_string_def string_bytes_def Let_def read_bytes_def
        intro: puts_follows puts_block [unfolded read_bytes_def])
  have sub: "follows (pb_enc_submessage encode f p)
      (case f_ptr f of Submsg fs \<Rightarrow> map_option delimited (message fs p) | _ \<Rightarrow> None)"
    using assms
    by (auto simp: pb_enc_submessage_def intro: follows_submessage follows_error follows_never split: pb_ptr.splits)
  show ?thesis
    unfolding pb_encoder_def value_bytes_def Let_def
    using follows_never [of "\<lambda>_. None"] puts_follows [OF puts_block [of m p "f_data_size f"]]
    by (intro follows_if bool follows_ints puts_follows [OF puts_fixed32] puts_follows [OF puts_fixed64] "bytes" string sub)
      (simp_all add: pb_enc_fixed_length_bytes_def)
qed

lemma wire_type_small: "wire_type_of l = Some wt \<Longrightarrow> unat wt < 8"
  by (auto simp: wire_type_of_def wire_types split: if_splits)

lemma follows_tagged:
  assumes "follows f x"
  shows "follows (\<lambda>st. andthen (pb_encode_tag_for_field field st) (\<lambda>_. f)) (tagged field x)"
proof (cases "wire_type_of (PB_LTYPE (f_type field))")
  case None
  then show ?thesis
    using never_then [of "out (os_fail ''invalid field type'')" f] follows_error [of "''invalid field type''"]
    by (simp add: tagged_def pb_encode_tag_for_field_def [abs_def] follows_def)
next
  case (Some wt)
  from follows_then [OF puts_follows [OF puts_tag [OF wire_type_small [OF this]]] assms, of "f_tag field"] Some
  show ?thesis by (simp add: tagged_def pb_encode_tag_for_field_def [abs_def])
qed

lemma follows_items:
  assumes "\<And>p. follows (f p) (g p)"
  shows "follows (each_item f step k p) (items_bytes g step k p)"
proof (induction k arbitrary: p)
  case 0
  have "each_item f step 0 p = ret ()" by auto
  then show ?case using puts_follows [OF puts_nothing] by simp
next
  case (Suc k)
  have "each_item f step (Suc k) p = (\<lambda>st. andthen (f p st) (\<lambda>_. each_item f step k (p + step)))" by auto
  then show ?case using follows_then [OF assms Suc] by simp
qed


lemma items_length:
  assumes "items_bytes g step k p = Some d" and "\<And>p e. g p = Some e \<Longrightarrow> length e = n"
  shows "length d = n * k"
  using assms(1)
  by (induction k arbitrary: p d) (auto simp: join_bytes_def assms(2) split: option.splits)

lemma items_some:
  assumes "\<And>p. g p \<noteq> None"
  shows "items_bytes g step k p \<noteq> None"
proof (induction k arbitrary: p)
  case (Suc k)
  show ?case using assms [of p] Suc [of "p + step"] by (auto simp: join_bytes_def)
qed simp

lemma never_packed:
  assumes items: "follows (each_item func (f_data_size f) count p) None"
    and fixed: "PB_LTYPE (f_type f) \<noteq> PB_LTYPE_FIXED32" "PB_LTYPE (f_type f) \<noteq> PB_LTYPE_FIXED64"
  shows "never (\<lambda>st. andthen (packed_size func f p count st) k)"
proof (cases "each_item func (f_data_size f) count p PB_OSTREAM_SIZING")
  case None
  then show ?thesis using fixed by (simp add: never_def packed_size_def)
next
  case (Some r)
  then have "fst r = None"
    using items by (cases r; cases "fst r") (auto simp: follows_def never_def)
  then show ?thesis using Some fixed by (simp add: never_def packed_size_def prod.case_eq_if)
qed

lemma packed_size_is:
  assumes "puts (each_item func (f_data_size f) count p) d" and "length d < 2 ^ 63"
    and "PB_LTYPE (f_type f) = PB_LTYPE_FIXED32 \<Longrightarrow> length d = 4 * count"
    and "PB_LTYPE (f_type f) = PB_LTYPE_FIXED64 \<Longrightarrow> length d = 8 * count"
  shows "packed_size func f p count st = ret (length d) st"
proof -
  obtain sub where "each_item func (f_data_size f) count p PB_OSTREAM_SIZING = Some (Some (), sub)"
    "os_written sub = length d" by (rule puts_sizing [OF assms(1,2)])
  then show ?thesis using assms(3,4) by (simp add: packed_size_def ret_def)
qed

lemma follows_packed:
  assumes items: "\<And>p. follows (func p) (val p)"
    and fixed: "\<And>p. PB_LTYPE (f_type f) = PB_LTYPE_FIXED32 \<Longrightarrow> \<exists>d. val p = Some d \<and> length d = 4"
      "\<And>p. PB_LTYPE (f_type f) = PB_LTYPE_FIXED64 \<Longrightarrow> \<exists>d. val p = Some d \<and> length d = 8"
  shows "follows (\<lambda>st. andthen (packed_size func f p count st) (\<lambda>n st.
      andthen (out (pb_encode_varint (of_nat n)) st) (\<lambda>_ st.
        if is_sizing st then out (pb_write [] n) st else each_item func (f_data_size f) count p st)))
    (map_option delimited (items_bytes val (f_data_size f) count p))" (is "follows ?op _")
proof (cases "items_bytes val (f_data_size f) count p")
  case None
  moreover have "PB_LTYPE (f_type f) \<noteq> PB_LTYPE_FIXED32" "PB_LTYPE (f_type f) \<noteq> PB_LTYPE_FIXED64"
    using None items_some [of val "f_data_size f" count p] fixed by (metis option.distinct(1))+
  ultimately show ?thesis
    using never_packed follows_items [where f = func and g = val and step = "f_data_size f" and k = count and p = p, OF items] by (simp add: follows_def)
next
  case (Some d)
  have each: "puts (each_item func (f_data_size f) count p) d"
    using follows_items [where f = func and g = val and step = "f_data_size f" and k = count and p = p, OF items] Some by (simp add: follows_def)
  have "puts ?op (delimited d)"
  proof (cases "length (delimited d) < 2 ^ 63")
    case True
    then have n: "length d < 2 ^ 63" by (simp add: delimited_def)
    have u: "unat (of_nat (length d) :: u64) = length d" by (rule unat_of_nat_u64) (use n in simp)
    have "length d = 4 * count" if "PB_LTYPE (f_type f) = PB_LTYPE_FIXED32"
      by (rule items_length [OF Some]) (use fixed(1) [OF that] in \<open>metis option.inject\<close>)
    moreover have "length d = 8 * count" if "PB_LTYPE (f_type f) = PB_LTYPE_FIXED64"
      by (rule items_length [OF Some]) (use fixed(2) [OF that] in \<open>metis option.inject\<close>)
    ultimately have "?op = (\<lambda>st. andthen (out (pb_encode_varint (of_nat (length d))) st) (\<lambda>_ st.
        if is_sizing st then out (pb_write [] (length d)) st else each_item func (f_data_size f) count p st))"
      using packed_size_is [OF each n] by (simp add: ret_def)
    moreover have "puts (\<lambda>st. if is_sizing st then out (pb_write [] (length d)) st
        else each_item func (f_data_size f) count p st) d"
      using each by (intro puts_counting) (simp add: puts_def)
    ultimately show ?thesis
      using puts_then [OF puts_varint, of _ d "of_nat (length d)"] by (simp add: delimited_def u)
  qed (simp add: puts_def)
  then show ?thesis by (simp add: Some follows_def)
qed

lemma follows_array:
  assumes items: "\<And>p. follows (func p) (val p)"
    and fixed: "\<And>p. PB_LTYPE (f_type f) = PB_LTYPE_FIXED32 \<Longrightarrow> \<exists>d. val p = Some d \<and> length d = 4"
      "\<And>p. PB_LTYPE (f_type f) = PB_LTYPE_FIXED64 \<Longrightarrow> \<exists>d. val p = Some d \<and> length d = 8"
  shows "follows (encode_array m func f p count) (array_bytes m val f p count)"
proof -
  have "follows (\<lambda>st. andthen (out (pb_encode_tag PB_WT_STRING (f_tag f)) st) (\<lambda>_ st.
      andthen (packed_size func f p count st) (\<lambda>n st.
        andthen (out (pb_encode_varint (of_nat n)) st) (\<lambda>_ st.
          if is_sizing st then out (pb_write [] n) st else each_item func (f_data_size f) count p st))))
    (join_bytes (Some (tag_bytes PB_WT_STRING (f_tag f))) (map_option delimited (items_bytes val (f_data_size f) count p)))"
    by (intro follows_then puts_follows puts_tag follows_packed items fixed) (simp add: wire_types)
  moreover have "follows (each_item (\<lambda>p st. andthen (pb_encode_tag_for_field f st) (\<lambda>_. func (h p))) (f_data_size f) count p)
      (items_bytes (\<lambda>p. tagged f (val (h p))) (f_data_size f) count p)" for h
    by (intro follows_items follows_tagged items)
  ultimately show ?thesis
    using puts_follows [OF puts_nothing] follows_error [of "''array max size exceeded''"]
    unfolding encode_array_def [abs_def] array_bytes_def Let_def
    by (auto simp: split del: if_split split: if_split)
qed


lemma value_fixed:
  "PB_LTYPE (f_type f) = PB_LTYPE_FIXED32 \<Longrightarrow> \<exists>d. value_bytes m message f p = Some d \<and> length d = 4"
  "PB_LTYPE (f_type f) = PB_LTYPE_FIXED64 \<Longrightarrow> \<exists>d. value_bytes m message f p = Some d \<and> length d = 8"
  by (simp_all add: value_bytes_def pb_ltypes)

definition callbacks_follow :: "'s pb_out_env \<Rightarrow> (nat \<Rightarrow> pb_field \<Rightarrow> nat \<Rightarrow> bytes option) \<Rightarrow> bool" where
  "callbacks_follow env cb \<longleftrightarrow> (\<forall>a f arg. follows (\<lambda>st. passed (n_callback env a f arg st)) (cb a f arg))"

lemma in_block_err [simp]: "in_block pre buf w room (st\<lparr>os_err := e\<rparr>) bs = in_block pre buf w room st bs"
  by (simp add: in_block_def)

text \<open>Only the message of an error may be added.\<close>

lemma puts_same:
  assumes "puts f d" and ok: "\<And>st st'. f st = Some (Some (), st') \<Longrightarrow> g st = Some (Some (), st')"
    and bad: "\<And>st st'. f st = Some (None, st') \<Longrightarrow> \<exists>e. g st = Some (None, st'\<lparr>os_err := e\<rparr>)"
  shows "puts g d"
proof -
  have "fills has room g d" if "fills has room f d" for has :: "'a pb_ostream \<Rightarrow> bytes \<Rightarrow> bool" and room
    using that ok unfolding fills_def by blast
  moreover have "spills (in_block pre buf w room) room g d" if "spills (in_block pre buf w room) room f d" for pre buf w room
    unfolding spills_def
  proof (intro allI impI)
    fix st :: "'a pb_ostream" and bs assume "in_block pre buf w room st bs" "room < length bs + length d"
    with that obtain st' e where run: "f st = Some (None, st')" "in_block pre buf w room st' (bs @ e)" "prefix e d"
      unfolding spills_def by blast
    from bad [OF run(1)] obtain er where "g st = Some (None, st'\<lparr>os_err := er\<rparr>)" by blast
    then show "\<exists>st' e. g st = Some (None, st') \<and> in_block pre buf w room st' (bs @ e) \<and> prefix e d"
      using run(2,3) by auto
  qed
  ultimately show ?thesis using assms(1) by (simp add: puts_def)
qed

lemma follows_callback:
  assumes "callbacks_follow env cb"
  shows "follows (encode_callback_field env m f p)
    (if read_pointer m p = 0 then Some [] else cb (read_pointer m p) f (p + 8))"
proof (cases "read_pointer m p = 0")
  case True
  then have "encode_callback_field env m f p = ret ()" by (simp add: fun_eq_iff encode_callback_field_def)
  then show ?thesis using True puts_follows [OF puts_nothing] by simp
next
  case False
  let ?op = "\<lambda>st. passed (n_callback env (read_pointer m p) f (p + 8) st)"
  define run where "run = encode_callback_field env m f p"
  have follows: "follows ?op (cb (read_pointer m p) f (p + 8))" using assms by (simp add: callbacks_follow_def)
  have ok: "run st = Some (Some (), st')" if "?op st = Some (Some (), st')" for st st'
    using that False by (auto simp: run_def encode_callback_field_def passed_def ret_def split: prod.splits if_splits)
  have bad: "\<exists>e. run st = Some (None, st'\<lparr>os_err := e\<rparr>)" if "?op st = Some (None, st')" for st st'
    using that False
    by (auto simp: run_def encode_callback_field_def passed_def out_def os_fail_def split: prod.splits if_splits)
  have "?op st = Some (Some (), st')" if "run st = Some (Some (), st')" for st st'
    using that False
    by (auto simp: run_def encode_callback_field_def passed_def ret_def out_def os_fail_def split: prod.splits if_splits)
  then have "never ?op \<Longrightarrow> never run" by (auto simp: never_def)
  moreover have "puts run d" if "puts ?op d" for d
    by (rule puts_same [OF that ok bad])
  ultimately show ?thesis using follows False by (auto simp: follows_def run_def split: option.splits)
qed

lemma follows_basic:
  assumes val: "\<And>p. follows (func p) (value_bytes m message f p)"
    and static: "PB_ATYPE (f_type f) = PB_ATYPE_STATIC \<or> PB_ATYPE (f_type f) = PB_ATYPE_POINTER"
  shows "follows (encode_basic_field m is_default func f pData) (field_bytes m cb is_default message f pData)"
proof -
  let ?p = "if PB_ATYPE (f_type f) = PB_ATYPE_POINTER then read_pointer m pData else pData"
  let ?one = "\<lambda>st. andthen (pb_encode_tag_for_field f st) (\<lambda>_. func ?p)"
  have one: "follows ?one (tagged f (value_bytes m message f ?p))"
    by (rule follows_tagged [OF val])
  have array: "follows (encode_array m func f q k) (array_bytes m (value_bytes m message f) f q k)" for q k
    by (rule follows_array [OF val value_fixed])

  let ?h = "PB_HTYPE (f_type f)" and ?sized = "f_size_offset f \<noteq> 0"
  let ?op = "encode_basic_field m is_default func f pData" and ?bytes = "field_bytes m cb is_default message f pData"
  consider "?h = PB_HTYPE_REQUIRED" | "?h = PB_HTYPE_OPTIONAL" | "?h = PB_HTYPE_REPEATED" | "?h = PB_HTYPE_ONEOF"
    using htype_cases by blast
  then show ?thesis
  proof cases
    case 1
    then have "?op = (if ?p = 0 then out (os_fail ''missing required field'') else ?one)"
      and "?bytes = (if ?p = 0 then None else tagged f (value_bytes m message f ?p))"
      using static by (auto simp: fun_eq_iff encode_basic_field_def field_bytes_def Let_def pb_htypes pb_atypes)
    then show ?thesis by (simp only:) (intro follows_if follows_error one)
  next
    case 2
    let ?check = "if \<not> ?sized then is_default f pData else Some True"
    show ?thesis
    proof (cases ?check)
      case None
      then have "?op = (\<lambda>_. None)" and "?bytes = None"
        using 2 static
        by (auto simp: fun_eq_iff encode_basic_field_def field_bytes_def Let_def pb_htypes pb_atypes split: if_splits)
      then show ?thesis by (simp add: follows_never)
    next
      case (Some zero)
      let ?has = "if ?sized then m (size_pointer f pData) \<noteq> 0
        else if PB_ATYPE (f_type f) = PB_ATYPE_POINTER then ?p \<noteq> 0 else \<not> zero"
      have "?op = (if ?has then ?one else ret ())"
        and "?bytes = (if ?has then tagged f (value_bytes m message f ?p) else Some [])"
        using 2 static Some
        by (auto simp: fun_eq_iff encode_basic_field_def field_bytes_def Let_def pb_htypes pb_atypes safe_read_bool_def
            split: if_splits)
      then show ?thesis by (simp only:) (intro follows_if one puts_follows puts_nothing)
    qed
  next
    case 3
    then have "?op = encode_array m func f ?p (if ?sized then read_count m (size_pointer f pData) else f_array_size f)"
      and "?bytes = array_bytes m (value_bytes m message f) f ?p
        (if ?sized then read_count m (size_pointer f pData) else f_array_size f)"
      using static by (auto simp: fun_eq_iff encode_basic_field_def field_bytes_def Let_def pb_htypes pb_atypes)
    then show ?thesis using array by simp
  next
    case 4
    then have "?op = (if \<not> ?sized then (\<lambda>_. None)
        else if read_count m (size_pointer f pData) = unat (f_tag f) then ?one else ret ())"
      and "?bytes = (if \<not> ?sized then None
        else if read_count m (size_pointer f pData) = unat (f_tag f) then tagged f (value_bytes m message f ?p)
        else Some [])"
      using static by (auto simp: fun_eq_iff encode_basic_field_def field_bytes_def Let_def pb_htypes pb_atypes)
    then show ?thesis by (simp only:) (intro follows_if follows_never one puts_follows puts_nothing refl)
  qed
qed


section \<open>Messages\<close>

lemma follows_encode_field:
  assumes "\<And>fs p. f_ptr f = Submsg fs \<Longrightarrow> follows (encode fs p) (message fs p)" and "callbacks_follow env cb"
  shows "follows (encode_field env m is_default encode f p) (field_bytes m cb is_default message f p)"
proof -
  have kinds: "PB_ATYPE_CALLBACK \<noteq> PB_ATYPE_STATIC" "PB_ATYPE_CALLBACK \<noteq> PB_ATYPE_POINTER"
    by (simp_all add: pb_atypes)
  consider "PB_ATYPE (f_type f) = PB_ATYPE_STATIC \<or> PB_ATYPE (f_type f) = PB_ATYPE_POINTER"
    | "PB_ATYPE (f_type f) = PB_ATYPE_CALLBACK"
    | "PB_ATYPE (f_type f) \<notin> {PB_ATYPE_STATIC, PB_ATYPE_POINTER, PB_ATYPE_CALLBACK}" by blast
  then show ?thesis
  proof cases
    case 1
    then show ?thesis using follows_basic [OF follows_value [OF assms(1)] 1] by (simp add: encode_field_def)
  next
    case 2
    then show ?thesis using follows_callback [OF assms(2), of m f p] kinds
      by (simp add: encode_field_def field_bytes_def Let_def)
  next
    case 3
    then have "encode_field env m is_default encode f p = out (os_fail ''invalid field type'')"
      and "field_bytes m cb is_default message f p = None"
      by (auto simp: encode_field_def field_bytes_def Let_def)
    then show ?thesis by (simp add: follows_error)
  qed
qed

lemma follows_each_field:
  assumes step: "\<And>it. at_field fs src it \<Longrightarrow> it_pos it < length fs \<Longrightarrow>
      follows (op it) (g (fs ! it_pos it) (src + data_pos fs (it_pos it)))"
    and tags: "\<And>f. f \<in> set fs \<Longrightarrow> f_tag f \<noteq> 0"
    and "at_field fs src it" and "it_pos it + k = length fs" and "0 < k"
  shows "follows (each_field op (k + 1) it) (fields_bytes g fs src (it_pos it) k)"
  using assms(3-)
proof (induction k arbitrary: it)
  case (Suc k)
  obtain again it' where "next": "pb_field_iter_next it = (again, it')" by fastforce
  from at_field_next [OF Suc(2) tags this]
  have it': "at_field fs src it'" "again \<longleftrightarrow> it_pos it + 1 < length fs" "again \<Longrightarrow> it_pos it' = it_pos it + 1"
    by auto
  let ?rest = "if again then each_field op (k + 1) it' else ret ()"
  have "follows ?rest (fields_bytes g fs src (it_pos it + 1) k)"
  proof (cases again)
    case True
    then have "0 < k" "it_pos it' + k = length fs" using it'(2,3) Suc(3) by auto
    from Suc.IH [OF it'(1) this(2,1)] show ?thesis using True it'(3) by (simp del: each_field.simps)
  next
    case False
    then have "k = 0" using it'(2) Suc(3) by simp
    then show ?thesis using False puts_follows [OF puts_nothing] by simp
  qed
  moreover have "each_field op (Suc k + 1) it = (\<lambda>st. andthen (op it st) (\<lambda>_. ?rest))"
    using "next"
    by (cases again) (simp_all add: fun_eq_iff each_field.simps(2) [of op "Suc k" it] del: each_field.simps)
  moreover have "follows (op it) (g (fs ! it_pos it) (src + data_pos fs (it_pos it)))"
    using step Suc(2,3) by simp
  ultimately show ?case using follows_then by (simp only: fields_bytes.simps)
qed simp

lemma follows_each_of:
  assumes step: "\<And>it. at_field fs src it \<Longrightarrow> it_pos it < length fs \<Longrightarrow>
      follows (op it) (g (fs ! it_pos it) (src + data_pos fs (it_pos it)))"
    and tags: "\<And>f. f \<in> set fs \<Longrightarrow> f_tag f \<noteq> 0"
  shows "follows (each_of op fs src) (fields_bytes g fs src 0 (length fs))"
proof (cases "fs = []")
  case True
  then have "each_of op fs src = ret ()"
    by (simp add: fun_eq_iff each_of_def pb_field_iter_begin_def Let_def field_at_def)
  then show ?thesis using True puts_follows [OF puts_nothing] by simp
next
  case False
  let ?it = "snd (pb_field_iter_begin fs src)"
  have start: "fst (pb_field_iter_begin fs src)" "it_pos ?it = 0"
    using tags False by (auto simp: pb_field_iter_begin_def Let_def field_at_def)
  have "follows (each_field op (length fs + 1) ?it) (fields_bytes g fs src (it_pos ?it) (length fs))"
    by (rule follows_each_field [where op = op and g = g, OF step tags at_field_begin]) (use False start in auto)
  then show ?thesis using start by (simp add: each_of_def [abs_def] split_beta del: each_field.simps)
qed

lemma follows_message:
  assumes "callbacks_follow env cb" and "plain n fs"
  shows "follows (pb_encode env m n fs src) (message_bytes m cb n fs src)"
  using assms(2)
proof (induction n arbitrary: fs src)
  case 0
  then show ?case by (simp add: follows_never)
next
  case (Suc n)
  let ?d = "pb_check_proto3_default_value m (Suc n)"
  let ?g = "field_bytes m cb ?d (message_bytes m cb n)"
  have fields: "f_tag f \<noteq> 0 \<and> PB_LTYPE (f_type f) \<noteq> PB_LTYPE_EXTENSION \<and>
      (\<forall>fs. f_ptr f = Submsg fs \<longrightarrow> plain n fs)" if "f \<in> set fs" for f
    using Suc.prems that by (auto simp: list_all_iff)
  have "follows (encode_step env m ?d (pb_encode env m n) it) (?g (fs ! it_pos it) (src + data_pos fs (it_pos it)))"
    if it: "at_field fs src it" "it_pos it < length fs" for it
  proof -
    have f: "field_of it = fs ! it_pos it" "it_data it = src + data_pos fs (it_pos it)"
      using it by (simp_all add: at_field_def field_of_def field_at_def)
    show ?thesis
      using fields [of "fs ! it_pos it"] it(2) Suc.IH
      by (auto simp: encode_step_def f intro!: follows_encode_field assms(1))
  qed
  then show ?case using fields by (auto intro: follows_each_of)
qed

end
