(* ===== verification/Spec2Isabelle.thy ===== *)
theory Spec2Isabelle
  imports BnDiv Oid Asn1Values Unicode Ber Base64 Stack Buf Lhash PairStream BioMem Modes PbWire PbFormat
begin

text \<open>
  A model of C code that the iOS application builds in: the byte string, encoding,
  container, stream, cipher mode and big number layers of BoringSSL (Pods/BoringSSL-GRPC/src/crypto),
  on which its certificate and TLS code rests, and nanopb (Pods/nanopb), the protocol buffer library
  of the Firebase clients.

  Components, one theory each:
    Prelude      machine types, on_ok (the code's "if (!f(x)) return 0"), memory blocks, big-endian
                 numbers, word lemmas; the rule collections.
    Mem          mem.c: OPENSSL_malloc and realloc over a parameter for malloc, memdup, strdup,
                 strndup, CRYPTO_memcmp, hash32, strnlen, strncasecmp, strlcpy, strlcat.
    Cbs          bytestring/cbs.c: a parser is the memory from its pointer on and the number of
                 bytes it may read. The locales reader and progressing_reader are the contract
                 of the CBS_get_ functions: they move forward within their bytes and depend on
                 nothing behind them; progress makes the loops over them end.
    Der          the specification of DER (tags, lengths, elements, unsigned integers) and the
                 proofs that the parsers accept exactly it.
    Cbb          bytestring/cbb.c: a growing buffer and the chain of pending children, outermost
                 first; a handle is the depth of its child. The abstraction is represents: the
                 bytes before the children, and for each child its prefix and its bytes. The
                 locales appender and opener are the contract of the functions that append.
    Oid          the dotted text of object identifiers, both ways (cbb.c, cbs.c).
    Asn1Values   INTEGER as int64, and the sorting of SET OF (cbb.c); qsort is a stable sort.
    Unicode      bytestring/unicode.c: UTF-8, Latin-1, UCS-2, UTF-32.
    Ber          bytestring/ber.c: search for BER, conversion to DER, implicit strings.
    ConstTime    crypto/internal.h: branch-free comparisons.
    Base64       base64/base64.c: block and streaming encoder and decoder.
    Libc         memcmp, strcmp, qsort, and the contract of comparison functions.
    Stack        stack/stack.c: a growable array of pointers; elems is the list it represents.
    Buf          buf/buf.c: a growable byte buffer.
    Lhash        lhash/lhash.c: a chained hash table; table is the multiset of its items.
    Bio          bio/bio.c: BIO objects on a heap, with the callbacks of a method as functions on
                 that heap. An operation returns an option: None is abort() or not returning, as
                 for the partial functions that are its loops.
    BioAsn1      BIO_read_asn1 (bio.c). The locales bio_source and bio_sink are the contract of a
                 BIO that delivers, or accepts, a stream of bytes.
    Pair         bio/pair.c: ring buffers; the specification is a pair of bounded queues (pipe).
    PairStream   the pair as source and sink; traffic is the step relation of its two users.
    BioMem       bio/bio_mem.c: memory BIOs as source and sink.
    Modes        fipsmodule/modes: OFB, CFB and CTR over a parameter for the block cipher. The
                 locale stream_shape is the law that makes a block the same as sixteen bytes.
    BnWords      fipsmodule/bn/generic.c: the word loops; words_val is the value of an array to the
                 base beta = 2^64.
    BnComba      generic.c: the unrolled products of four and eight words, as tables of columns.
    Bn           bn/bn.c and cmp.c: BIGNUMs, their value bn_int, widths, comparison.
    BnAdd        bn/add.c.  BnShift: bn/shift.c.  BnBytes: bn/bytes.c.
    BnMul        bn/mul.c: schoolbook and Karatsuba products.  BnSqr: squares, BN_mul, BN_sqr.
    BnWorks      bn_room is when a number can grow (memory, no static block, a size within the
                 limit of bn_wexpand); with it every operation returns a result.
    BnDiv        bn/div.c: long division and the remainders by words and powers of two. The context
                 is the list of the numbers BN_CTX_get returns.
    PbDecode     nanopb/pb_decode.c: input streams (memory or callback), varints, tags, skipping.
    PbSource     the contract of an input stream (locale pb_source) and its instance.
    PbVarint     varints as a specification; what the two varint decoders accept.
    PbFields     payloads, tags, substreams, little-endian words on every such stream.
    PbEncode     nanopb/pb_encode.c: output streams (sizing, memory, callback) and encoders.
    PbSink       the contracts pb_sink and bounded_sink, for the sizing stream and for memory.
    PbWire       what the encoders write the decoders read.
    PbMessage    nanopb/pb.h and pb_common.c: descriptors, flat memory, the field iterator.
    PbMsgDecode  pb_decode.c: field decoders, allocation, default values, release.
    PbMsgLoop    pb_decode.c: one field in each allocation, all fields, pb_decode.
    PbSafe       steps that return and stay inside a block of memory; the value decoders.
    PbInside     struct_ok, the layout check on descriptors; the iterator stays on its fields.
    PbMsgEncode  nanopb/pb_encode.c: the encoding of messages.
    PbFormat     the bytes of a message as a function; pb_encode writes and counts exactly these.
    PbDecSafe    pb_decode of such descriptors returns and stays inside the structure.

  Conventions: size_t is a natural number, and where the code tests for or relies on its
  wrap-around the operation is taken modulo 2 ^ 64 (size_add, size_mul); 8, 16, 32 and 64 bit
  integers are words of that width. A function that returns 1 or 0 and changes an object is a
  function to an optional result and the new object, also on failure. malloc is a parameter
  from sizes to optional blocks; theorems that promise success assume that it succeeds.
  The bounds on lengths (2 ^ 62 and below) keep the code's own size computations from wrapping;
  no buffer of a 64-bit device reaches them. Loops end by measures on the bytes left, or are partial
  functions whose None is not returning (Bio); fuel stands only for the depth of nesting: kMaxDepth
  of ber.c, and the depth argument of the nanopb messages, where the theorems show that the depth of
  the descriptor is enough.
  An assert is a precondition of the code: len_len <= 3 in cbs_get_length_prefixed, the inner tag of
  CBS_get_asn1_implicit_string, the bucket count in lh_maybe_resize, the counts in BIO_pending and
  bio_read_all. The definitions do not repeat them: they go on as the code does under NDEBUG.
  Arguments are values, so a target may be an operand where the code reads the operands before it
  writes; not covered is BN_div with the quotient in the place of the numerator.

  Not modelled: the Swift screens (calls of UIKit and Firebase, which are not in the
  repository as code), Firestore, gRPC and Abseil (C++), the rest of BoringSSL and the generated tables.
\<close>

section \<open>Example inputs\<close>

definition example_alloc :: alloc where
  "example_alloc n = Some (replicate n 0)"

lemma example_alloc_works: "\<forall>k. example_alloc k \<noteq> None"
  by (simp add: example_alloc_def)

lemma small_bound: "0 + 8 < (2 :: nat) ^ 64"
  by simp

definition example_cbb :: cbb where
  "example_cbb =
     \<lparr>base = \<lparr>buf = [9, 0, 0, 7, 8, 0], buf_len = 5, cap = 6, can_resize = True, error = False\<rparr>,
      chain = [\<lparr>offset = 1, pending_len_len = 2, pending_is_asn1 = False\<rparr>]\<rparr>"

definition example_bn :: "bn_ulong list \<Rightarrow> bool \<Rightarrow> bignum" where
  "example_bn ws neg =
     \<lparr>bn_d = ws, bn_width = length ws, bn_dmax = length ws, bn_neg = neg, bn_malloced = True, bn_static = False\<rparr>"

lemma example_bn_ok: "length ws \<le> 100 \<Longrightarrow> bn_ok (example_bn ws neg)"
  by (simp add: bn_ok_def example_bn_def INT_MAX_def)

definition example_bn_mem :: bn_mem where
  "example_bn_mem n = Some (replicate (n div 8) 0)"

lemma example_bn_room: "n \<le> 1000 \<Longrightarrow> bn_room example_bn_mem n (example_bn ws neg)"
  by (simp add: bn_room_def example_bn_mem_def example_bn_def INT_MAX_def)

lemma example_bn_int: "bn_int (example_bn [w] neg) = (if neg then - int (unat w) else int (unat w))"
  by (simp add: example_bn_def bn_int_def bn_abs_def bn_words_def)

lemma example_bn_width: "bn_width (example_bn ws neg) = length ws"
  by (simp add: example_bn_def)

definition wide_varint :: bytes where
  "wide_varint = [0x80, 0x80, 0x80, 0x80, 0x88, 0x80, 0x80, 0x80, 0x80, 1]"

definition example_inner :: "pb_field list" where
  "example_inner = [Pb_field 1 0x01 0 0 4 0 Null]"

definition example_message :: "pb_field list" where
  "example_message =
     [Pb_field 1 0x11 4 (-4) 4 0 Null,
      Pb_field 2 0x28 4 (-4) 4 2 (Submsg example_inner),
      Pb_field 3 0x07 0 0 10 0 Null]"

definition example_env :: "(unit, unit) pb_env" where
  "example_env =
     \<lparr>e_callback = \<lambda>_ _ _ s. (False, s), e_extension = \<lambda>_ _ _ _ s. (False, s), e_field = \<lambda>_. PB_LAST_FIELD,
      e_realloc = \<lambda>_ _ m h. (0, m, h), e_free = \<lambda>_ m h. (m, h)\<rparr>"

definition example_input :: "bytes \<Rightarrow> (unit, unit) pb_state" where
  "example_input d =
     \<lparr>p_in = pb_istream_from_buffer d (length d), p_mem = \<lambda>_. 0xff, p_heap = (), p_count = 0\<rparr>"

definition example_memory :: pb_memory where
  "example_memory =
     (\<lambda>x. if x < 100 then 0
        else [1, 0, 0, 0, 44, 1, 0, 0, 2, 0, 0, 0, 7, 0, 0, 0, 9, 0, 0, 0, 72, 105, 0, 0, 0, 0, 0, 0, 0, 0] ! (x - 100))"

definition example_out_env :: "unit pb_out_env" where
  "example_out_env =
     \<lparr>n_callback = \<lambda>_ _ _ st. (False, st), n_extension = \<lambda>_ _ st. (False, st), n_field = \<lambda>_. PB_LAST_FIELD\<rparr>"

definition example_bytes :: bytes where
  "example_bytes = [0x08, 0xac, 0x02, 0x12, 0x02, 0x08, 0x07, 0x12, 0x02, 0x08, 0x09, 0x1a, 0x02, 0x48, 0x69]"

definition example_heap :: "bio_bio bios" where
  "example_heap = (\<lambda>_. None)"

lemma example_pair:
  obtains h where "BIO_new_bio_pair example_alloc (\<lambda>_. methods_biop example_alloc) 0 1 2 4 0 example_heap =
      Some ((True, Some 1, Some 2), h)"
    and "joined 0 1 2 h" and "pipe_at 1 h = \<lparr>p_closed = False, p_size = 4, p_queue = []\<rparr>"
proof (rule BIO_new_bio_pair_joined [where ms = "\<lambda>_. methods_biop example_alloc" and m = 0 and h = example_heap
      and ?a1.0 = 1 and ?a2.0 = 2 and ?n1.0 = 4 and ?n2.0 = 0, OF example_alloc_works refl])
  fix h'
  assume h': "BIO_new_bio_pair example_alloc (\<lambda>_. methods_biop example_alloc) 0 1 2 4 0 example_heap =
      Some ((True, Some 1, Some 2), h')" "joined 0 1 2 h'"
    "pipe_at 1 h' = \<lparr>p_closed = False, p_size = if (4 :: nat) = 0 then 17 * 1024 else 4, p_queue = []\<rparr>"
  then show ?thesis by (intro that [of h']) simp_all
qed simp_all

definition example_mem_heap :: "mem_ptr bios" where
  "example_mem_heap = (\<lambda>_. None)"

definition example_block :: block where
  "example_block x = map (\<lambda>b. b XOR 1) x"

definition example_palloc :: palloc where
  "example_palloc n = Some (replicate n 0)"

definition example_cmp :: call_cmp where
  "example_cmp f p q = sint p - sint q"

lemma example_comparison: "comparison (example_cmp f) S"
  by unfold_locales (auto simp: example_cmp_def)

definition example_stack :: stack where
  "example_stack = \<lparr>st_num = 2, st_data = [3, 5, 0, 0], st_sorted = True, st_num_alloc = 4, st_comp = Some 0\<rparr>"

lemma example_stack_ok: "stack_ok example_stack"
  by (simp add: stack_ok_def example_stack_def)

lemma example_stack_elems: "elems example_stack = [3, 5]"
  by (simp add: elems_def example_stack_def)

lemma example_stack_flag: "sorted_flag_ok example_cmp example_stack"
  by (simp add: sorted_flag_ok_def example_stack_elems) (simp add: example_stack_def example_cmp_def)

definition example_hash :: call_hash where
  "example_hash f p = ucast p"

lemma example_elements: "element_laws (example_hash f) (example_cmp g)"
proof
  fix x y assume "example_cmp g x y = 0"
  then have "(of_int (sint x) :: ptr) = of_int (sint y)" by (simp add: example_cmp_def del: of_int_sint)
  then show "example_hash f x = example_hash f y" by simp
qed (simp_all add: example_cmp_def)

lemma example_table:
  obtains lh where "lh_new example_palloc 0 0 = Some lh" and "lh_items lh = 0"
    and "table_ok (example_hash (lh_hash lh)) (example_cmp (lh_comp lh)) lh"
    and "\<forall>x. lh_retrieve example_hash example_cmp lh x = NULL"
proof -
  obtain lh where lh: "lh_new example_palloc 0 0 = Some lh" "lh_items lh = 0"
    by (simp add: lh_new_def example_palloc_def ossl_malloc_def)
  have ok: "table_ok (example_hash (lh_hash lh)) (example_cmp (lh_comp lh)) lh" "table lh = {#}"
    using lh_new_ok [OF lh(1)] by auto
  have "lh_retrieve example_hash example_cmp lh x = NULL" for x
    using element_laws.lh_retrieve_value [of "example_hash (lh_hash lh)" "example_cmp (lh_comp lh)" lh
        example_hash example_cmp x, OF example_elements ok(1) refl refl]
    by (simp add: ok(2) found_def value_of_def)
  with lh ok show ?thesis by (intro that) auto
qed

section \<open>Parsing DER\<close>

text \<open>
  C1: CBS_get_any_asn1_element accepts exactly the canonical DER encodings: from a parser it
  returns an element with a tag and leaves a rest if and only if the bytes are the minimal
  header of that tag and the length of a body shorter than 2^32, the body, and the rest.
  Indefinite and non-minimal lengths and non-minimal tags are therefore refused.
\<close>

lemma asn1_element_exact:
  assumes "cbs_wf c"
  shows "(\<exists>out h c'. CBS_get_any_asn1_element c = (Some (out, tag, h), c') \<and>
            cbs_view out = e \<and> cbs_view c' = rest) \<longleftrightarrow>
         (\<exists>body. length body < 2 ^ 32 \<and> e = der_element tag body \<and> cbs_view c = e @ rest)"
  by (rule CBS_get_any_asn1_element_iff [OF assms])

lemma asn1_element_exact_witness:
  "\<exists>out h c'. CBS_get_any_asn1_element (CBS_init [4, 1, 7, 5, 0] 5) = (Some (out, 4, h), c') \<and>
     cbs_view out = [4, 1, 7] \<and> cbs_view c' = [5, 0]"
proof -
  have wf: "cbs_wf (CBS_init [4, 1, 7, 5, 0] 5)" by code_simp
  have "[4, 1, 7] = der_element 4 [7]" "cbs_view (CBS_init [4, 1, 7, 5, 0] 5) = [4, 1, 7] @ [5, 0]"
    "length [7 :: u8] < 2 ^ 32" by (code_simp, code_simp, simp)
  then show ?thesis using asn1_element_exact [OF wf, of 4 "[4, 1, 7]" "[5, 0]"] by blast
qed

text \<open>
  C2: CBS_get_asn1_uint64 succeeds with a value exactly when the input starts with the
  INTEGER whose contents are the shortest big-endian bytes of that value with the sign bit
  clear: negative, padded and too large integers are refused.
\<close>

lemma asn1_uint64_exact:
  assumes "cbs_wf c"
  shows "(\<exists>c'. CBS_get_asn1_uint64 c = (Some v, c') \<and> cbs_view c' = rest) \<longleftrightarrow>
    cbs_view c = der_element CBS_ASN1_INTEGER (uint_bytes (unat v)) @ rest"
  by (rule CBS_get_asn1_uint64_iff [OF assms])

lemma asn1_uint64_exact_witness:
  "\<exists>c'. CBS_get_asn1_uint64 (CBS_init [2, 2, 0, 200, 9] 5) = (Some 200, c') \<and> cbs_view c' = [9]"
proof -
  have wf: "cbs_wf (CBS_init [2, 2, 0, 200, 9] 5)" by code_simp
  have "cbs_view (CBS_init [2, 2, 0, 200, 9] 5) =
    der_element CBS_ASN1_INTEGER (uint_bytes (unat (200 :: u64))) @ [9]" by code_simp
  then show ?thesis using asn1_uint64_exact [OF wf, of 200 "[9]"] by blast
qed

text \<open>
  C3: parse_asn1_tag reads a tag exactly when the input starts with the one shortest
  identifier of that tag, in the low form for numbers below 31 and the base-128 form above.
\<close>

lemma asn1_tag_exact:
  assumes "cbs_wf c"
  shows "(\<exists>c'. parse_asn1_tag c = (Some tag, c') \<and> cbs_view c' = rest) \<longleftrightarrow>
    cbs_view c = der_tag tag @ rest"
  using parse_asn1_tag_der [OF assms] parse_asn1_tag_canonical [OF assms] by fastforce

lemma asn1_tag_exact_witness:
  "\<exists>c'. parse_asn1_tag (CBS_init [0x9f, 0x81, 0, 5] 4) = (Some 0x80000080, c') \<and> cbs_view c' = [5]"
proof -
  have wf: "cbs_wf (CBS_init [0x9f, 0x81, 0, 5] 4)" by code_simp
  have "cbs_view (CBS_init [0x9f, 0x81, 0, 5] 4) = [0x9f, 0x81, 0, 5]" by code_simp
  moreover have "der_tag 0x80000080 = [0x9f, 0x81, 0]"
    by code_simp
  ultimately show ?thesis using asn1_tag_exact [OF wf, of "0x80000080" "[5]"] by simp
qed

text \<open>
  C4: The CBS_get_ functions of cbs.c, also when they fail, only move the parser forwards
  within the bytes it had, and their results and what they leave depend on these bytes
  alone, never on the memory behind them. CBS_get_last_u8 takes its byte from the end
  instead: it leaves the pointer and shortens the length by one, and it too depends on
  nothing behind the parser's bytes.
\<close>

lemma readers_stay_inside:
  "reader (=) CBS_get_u8 \<and> reader (=) CBS_get_u16 \<and> reader (=) CBS_get_u16le \<and> reader (=) CBS_get_u24 \<and>
   reader (=) CBS_get_u32 \<and> reader (=) CBS_get_u32le \<and> reader (=) CBS_get_u64 \<and> reader (=) CBS_get_u64le \<and>
   reader same (CBS_get_bytes n) \<and> reader (=) (CBS_copy_bytes n) \<and>
   reader same CBS_get_u8_length_prefixed \<and> reader same CBS_get_u16_length_prefixed \<and>
   reader same CBS_get_u24_length_prefixed \<and> reader (rel_prod same (=)) CBS_get_any_asn1 \<and>
   reader (=) parse_asn1_tag \<and> reader (rel_prod same (=)) CBS_get_any_asn1_element \<and>
   reader (rel_prod same (=)) CBS_get_any_ber_asn1_element \<and> reader same (CBS_get_asn1 tag) \<and>
   reader same (CBS_get_asn1_element tag) \<and> reader (=) CBS_get_asn1_uint64 \<and> reader (=) CBS_get_asn1_int64 \<and>
   reader (=) CBS_get_asn1_bool \<and> reader (rel_option same) (CBS_get_optional_asn1 tag) \<and>
   reader (rel_prod same (=)) (CBS_get_optional_asn1_octet_string tag) \<and>
   reader (=) (CBS_get_optional_asn1_uint64 tag dflt) \<and> reader (=) (CBS_get_optional_asn1_bool tag b) \<and>
   rel_fun same (sameR (=)) CBS_get_last_u8 CBS_get_last_u8 \<and>
   snd (CBS_get_last_u8 c) = c\<lparr>cbs_len := cbs_len c - 1\<rparr>"
  unfolding CBS_get_u8_length_prefixed_def CBS_get_u16_length_prefixed_def CBS_get_u24_length_prefixed_def
  by (intro conjI reader_rules last_u8_view last_u8_rest)

section \<open>Building\<close>

text \<open>
  C5: CBB_flush refines the closing of nested length prefixes: of any stack of pending
  children it leaves the bytes with every prefix filled in (a DER length moves the body up
  where it needs more than one byte) and no child pending. It fails, setting the error flag,
  only when some body is too long for its prefix, the buffer is fixed and too small, or
  memory runs out, and a body too long for its prefix always makes it fail.
\<close>

lemma CBB_flush_refines:
  assumes "represents s cs root fs" and "length (root @ layout fs) + 4 * length fs \<le> 2 ^ 62"
  shows "case CBB_flush mem (length cs) s of
      (Some _, s') \<Rightarrow> (\<exists>cl. collapse fs = Some cl \<and> represents s' cs (root @ cl) []) \<and> grown (base s) (base s')
    | (None, s') \<Rightarrow> error (base s') \<and> (\<forall>cl. collapse fs = Some cl \<longrightarrow> \<not> ready mem (length (root @ cl)) (base s))"
proof (cases "CBB_flush mem (length cs) s")
  case (Pair r s')
  have fail: "r = None \<Longrightarrow> error (base s')"
    using CBB_flush_error [of mem "length cs" s s'] Pair assms(1) by (simp add: represents_def buffer_ok_def)
  show ?thesis
  proof (cases "collapse fs")
    case None
    then have "r = None" using CBB_flush_too_long [OF assms(1) None assms(2), of mem] Pair by simp
    then show ?thesis using Pair None fail by simp
  next
    case (Some cl)
    then have "length (root @ cl) \<le> 2 ^ 62" using collapse_length_le [OF Some] assms(2) by simp
    from CBB_flush_yields [OF assms(1) Some this, of mem] show ?thesis
      using Pair Some fail by (simp add: yields_def split: option.splits)
  qed
qed

lemma CBB_flush_refines_witness:
  "case CBB_flush example_alloc 0 example_cbb of
      (Some _, s') \<Rightarrow> represents s' [] [9, 0, 2, 7, 8] [] \<and> grown (base example_cbb) (base s')
    | (None, s') \<Rightarrow> error (base s') \<and> \<not> ready example_alloc (length ([9, 0, 2, 7, 8] :: bytes)) (base example_cbb)"
proof -
  have rep: "represents example_cbb [] [9] [(Fixed 2, [7, 8])]"
    by (simp add: example_cbb_def represents_def buffer_ok_def written_def numeral_2_eq_2)
  have col: "collapse [(Fixed 2, [7, 8 :: u8])] = Some [0, 2, 7, 8]"
    by (simp add: numeral_2_eq_2)
  have len: "length ([9] @ layout [(Fixed 2, [7, 8 :: u8])]) + 4 * length [(Fixed 2, [7, 8 :: u8])] \<le> 2 ^ 62" by simp
  have be: "be_fixed 2 (Suc (Suc 0)) = [0, 2]" by (simp add: numeral_2_eq_2)
  from CBB_flush_refines [OF rep len, of example_alloc]
  show ?thesis by (cases "CBB_flush example_alloc 0 example_cbb") (simp add: be split: option.splits)
qed

text \<open>
  C6: A body written below a length prefix of k bytes (for k from 1 to 3, the sizes the code
  has, the body shorter than 256^k) is read back whole by cbs_get_length_prefixed, with
  nothing left over; with working memory every call succeeds.
\<close>

lemma length_prefixed_roundtrip:
  assumes mem: "\<forall>k. mem k \<noteq> None" and n: "n + 8 < 2 ^ 64"
    and k: "0 < k" "k \<le> 3" and body: "length body < 256 ^ k"
  shows "\<exists>c out c'. built mem n (\<lambda>d s. on_ok (cbb_add_length_prefixed mem k d s) (\<lambda>_ s.
        on_ok (CBB_add_bytes mem body (Suc d) s) (\<lambda>_. CBB_flush mem d))) = Some c \<and>
    cbs_get_length_prefixed k c = (Some out, c') \<and> cbs_view out = body \<and> CBS_len c' = 0"
proof -
  have close: "close (Fixed k) body = Some (be_fixed k (length body) @ body)" using body by simp
  have "(256 :: nat) ^ k \<le> 256 ^ 3" using k(2) by (intro power_increasing) simp_all
  then have "length (be_fixed k (length body) @ body) \<le> 2 ^ 62" using body k(2) by simp
  then obtain c where c: "built mem n (\<lambda>d s. on_ok (cbb_add_length_prefixed mem k d s) (\<lambda>_ s.
        on_ok (CBB_add_bytes mem body (Suc d) s) (\<lambda>_. CBB_flush mem d))) = Some c"
      "cbs_wf c" "cbs_view c = be_fixed k (length body) @ body"
    using appender.built_view [OF opener.nested [OF opener_length_prefixed [OF k(1)] appender_add_bytes close] mem n]
    by auto
  have "be_val (be_fixed k (length body)) = length body" using body by (simp add: be_val_be_fixed)
  then obtain out where "cbs_get_length_prefixed k c = (Some out, advance (k + length body) c)"
      "cbs_wf out" "cbs_view out = body"
    using cbs_get_length_prefixed_eq [OF c(2), of "be_fixed k (length body)" body "[]" k] c(3) k(2) by auto
  moreover have "cbs_len c = k + length body"
    using length_cbs_view [OF c(2)] c(3) by simp
  ultimately show ?thesis using c(1) by (simp add: CBS_len_def)
qed

lemma length_prefixed_roundtrip_witness:
  "\<exists>c out c'. built example_alloc 0 (\<lambda>d s. on_ok (cbb_add_length_prefixed example_alloc 2 d s) (\<lambda>_ s.
        on_ok (CBB_add_bytes example_alloc [7, 8, 9] (Suc d) s) (\<lambda>_. CBB_flush example_alloc d))) = Some c \<and>
    cbs_get_length_prefixed 2 c = (Some out, c') \<and> cbs_view out = [7, 8, 9] \<and> CBS_len c' = 0"
  by (rule length_prefixed_roundtrip [OF example_alloc_works small_bound]) simp_all

text \<open>
  C7: Whatever dotted text CBB_add_asn1_oid_from_text accepts, CBS_asn1_oid_to_text turns
  the encoding back into exactly that text, followed by a NUL.
\<close>

lemma oid_text_roundtrip:
  assumes mem: "\<forall>k. mem k \<noteq> None" and n: "n + 8 < 2 ^ 64" and len: "length text < 2 ^ 58"
    and run: "built mem n (CBB_add_asn1_oid_from_text mem text) = Some c"
  shows "\<exists>txt. CBS_asn1_oid_to_text mem c = Some txt \<and> take (Suc (length text)) txt = text @ [0]"
proof -
  obtain ns where ns: "oid_valid ns" "text = dots ns"
    using run oid_from_text_canonical
    by (auto simp: built_def on_ok_Some split: option.split_asm prod.split_asm) fastforce
  have "length (oid_der ns) \<le> 2 ^ 62"
    using length_oid_der [OF ns(1)] length_dots_ge [of ns] len by (simp add: ns(2))
  then have "cbs_wf c \<and> cbs_view c = oid_der ns"
    using appender.built_view [OF appender_oid_from_text [OF ns(1)] mem n] run by (auto simp: ns(2))
  then show ?thesis
    using oid_to_text_correct [OF mem ns(1)] len by (simp add: ns(2))
qed

lemma oid_text_roundtrip_witness:
  "\<exists>c txt. built example_alloc 0 (CBB_add_asn1_oid_from_text example_alloc [50, 46, 53]) = Some c \<and>
    CBS_asn1_oid_to_text example_alloc c = Some txt \<and> take (Suc (length [50, 46, 53 :: u8])) txt = [50, 46, 53] @ [0]"
proof -
  have dots: "dots [2, 5] = [50, 46, 53]" by (simp add: dec.simps)
  obtain c where "built example_alloc 0 (CBB_add_asn1_oid_from_text example_alloc (dots [2, 5])) = Some c"
    using appender.built_view [OF appender_oid_from_text [of "[2, 5]"] example_alloc_works small_bound]
      length_oid_der [of "[2, 5]"] by auto
  then have c: "built example_alloc 0 (CBB_add_asn1_oid_from_text example_alloc [50, 46, 53]) = Some c"
    by (simp only: dots)
  have "length [50, 46, 53 :: u8] < 2 ^ 58" by simp
  from oid_text_roundtrip [OF example_alloc_works small_bound this c] c show ?thesis by blast
qed

text \<open>
  C8: CBB_flush_asn1_set_of reorders the elements of the innermost child, and nothing before
  it, into the ascending order that DER asks of a SET OF: the result is a permutation of the
  elements, sorted bytewise.
\<close>

lemma set_of_sorts:
  assumes "\<forall>k. mem k \<noteq> None" and "represents s cs (pre @ concat els) []"
    and "der_elements els" and "cbb_start (length cs) s = length pre"
    and "length (pre @ concat els) < 2 ^ 60"
  shows "\<exists>els' s'. CBB_flush_asn1_set_of mem (length cs) s = (Some (), s') \<and>
    represents s' cs (pre @ concat els') [] \<and> mset els' = mset els \<and> sorted_wrt der_le els'"
  by (rule flush_set_of_sorts [OF assms])

lemma set_of_sorts_witness:
  "\<exists>els' s'. CBB_flush_asn1_set_of example_alloc 0
      \<lparr>base = \<lparr>buf = [2, 1, 9, 2, 1, 3], buf_len = 6, cap = 6, can_resize = True, error = False\<rparr>, chain = []\<rparr> =
      (Some (), s') \<and>
    represents s' [] ([] @ concat els') [] \<and> mset els' = mset [[2, 1, 9], [2, 1, 3]] \<and> sorted_wrt der_le els'"
    (is "\<exists>els' s'. CBB_flush_asn1_set_of _ 0 ?s = _ \<and> _")
proof -
  have rep: "represents ?s [] ([] @ concat [[2, 1, 9], [2, 1, 3]]) []"
    by (simp add: represents_def buffer_ok_def written_def)
  have e: "der_element 2 [9] = [2, 1, 9]" "der_element 2 [3] = [2, 1, 3]" by (code_simp, code_simp)
  have els: "der_elements [[2, 1, 9], [2, 1, 3]]"
    unfolding der_elements_def
  proof
    fix x assume "x \<in> set [[2, 1, 9], [2, 1, 3 :: u8]]"
    then consider "x = der_element 2 [9]" | "x = der_element 2 [3]" by (auto simp: e)
    then show "\<exists>tag body. x = der_element tag body \<and> length body < 2 ^ 32" by cases fastforce+
  qed
  have start: "cbb_start (length ([] :: cbb_child list)) ?s = length ([] :: bytes)" by code_simp
  from set_of_sorts [OF example_alloc_works rep els start] show ?thesis by simp
qed

section \<open>BER\<close>

text \<open>
  C9: The search for BER forgets what it found: take an element whose contents are a
  constructed element in which the search finds BER. Alone it is reported. When any DER
  element that is constructed (and not a string) follows the inner one as a sibling, and
  only DER after it, the whole is reported as pure DER, because every recursive call of
  cbs_find_ber resets the flag, and CBS_asn1_ber_to_der returns the BER input unconverted.
\<close>

lemma ber_found_is_reset:
  assumes bad: "cbs_find_ber (CBS_init bad (length bad)) 2 = Some True"
    and tags: "\<forall>t \<in> {tag, t1, t2}. t AND CBS_ASN1_CONSTRUCTED \<noteq> 0 \<and> \<not> is_string_type t"
    and good: "der_forest (kMaxDepth - 2) good" "der_forest (kMaxDepth - 1) rest"
    and len: "length (der_element t1 bad @ der_element t2 good @ rest) < 2 ^ 32"
  defines "alone \<equiv> der_element tag (der_element t1 bad)"
    and "both \<equiv> der_element tag (der_element t1 bad @ der_element t2 good @ rest)"
  shows "cbs_find_ber (CBS_init alone (length alone)) 0 = Some True \<and>
    cbs_find_ber (CBS_init both (length both)) 0 = Some False \<and>
    (\<exists>out rest. CBS_asn1_ber_to_der mem (CBS_init both (length both)) = (Some (out, None), rest) \<and>
      cbs_view out = both \<and> cbs_view rest = [])"
proof -
  have wf: "cbs_wf (CBS_init xs (length xs))" "cbs_view (CBS_init xs (length xs)) = xs" for xs by simp_all
  have one: "cbs_find_ber (CBS_init alone (length alone)) 0 = Some True"
    by (rule ber_hidden_by_sibling(1) [OF bad tags good len wf(1)]) (simp add: alone_def)
  have two: "cbs_find_ber (CBS_init both (length both)) 0 = Some False"
    by (rule ber_hidden_by_sibling(2) [OF bad tags good len wf(1)]) (simp add: both_def)
  obtain out h c' where el: "CBS_get_any_asn1_element (CBS_init both (length both)) = (Some (out, tag, h), c')"
    "cbs_view out = both" "cbs_view c' = []"
    using CBS_get_any_asn1_element_iff [OF wf(1), of both tag both "[]"] len unfolding both_def wf(2) by fastforce
  then show ?thesis using one two by (simp add: CBS_asn1_ber_to_der_def)
qed

lemma ber_found_is_reset_witness:
  "cbs_find_ber (CBS_init [0x30, 6, 0x30, 4, 0x30, 0x80, 0, 0] 8) 0 = Some True \<and>
   (\<exists>out rest. CBS_asn1_ber_to_der example_alloc (CBS_init [0x30, 8, 0x30, 4, 0x30, 0x80, 0, 0, 0x30, 0] 10) =
     (Some (out, None), rest) \<and> cbs_view out = [0x30, 8, 0x30, 4, 0x30, 0x80, 0, 0, 0x30, 0] \<and> cbs_view rest = [])"
proof -
  let ?t = "0x20000010 :: u32"
  have bad: "cbs_find_ber (CBS_init [0x30, 0x80, 0, 0] (length [0x30 :: u8, 0x80, 0, 0])) 2 = Some True" by code_simp
  have tags: "\<forall>t \<in> {?t, ?t, ?t}. t AND CBS_ASN1_CONSTRUCTED \<noteq> 0 \<and> \<not> is_string_type t"
    by (simp add: CBS_ASN1_CONSTRUCTED_def CBS_ASN1_TAG_SHIFT_def is_string_type_def string_tags_def)
  have "der_element ?t [0x30, 0x80, 0, 0] @ der_element ?t [] @ [] = [0x30, 4, 0x30, 0x80, 0, 0, 0x30, 0]" by code_simp
  then have len: "length (der_element ?t [0x30, 0x80, 0, 0] @ der_element ?t [] @ []) < 2 ^ 32" by simp
  have enc: "der_element ?t (der_element ?t [0x30, 0x80, 0, 0]) = [0x30, 6, 0x30, 4, 0x30, 0x80, 0, 0]"
    "der_element ?t (der_element ?t [0x30, 0x80, 0, 0] @ der_element ?t [] @ []) =
      [0x30, 8, 0x30, 4, 0x30, 0x80, 0, 0, 0x30, 0]" by code_simp+
  have n: "length ([0x30, 6, 0x30, 4, 0x30, 0x80, 0, 0] :: bytes) = 8"
    "length ([0x30, 8, 0x30, 4, 0x30, 0x80, 0, 0, 0x30, 0] :: bytes) = 10" by simp_all
  from ber_found_is_reset [OF bad tags der_forest_Nil der_forest_Nil len, of example_alloc]
  show ?thesis unfolding enc n by blast
qed

text \<open>
  C10: Input that is already DER (elements nested at most kMaxDepth deep, without
  constructed strings) is passed through by CBS_asn1_ber_to_der as it stands, without an
  allocation.
\<close>

lemma ber_to_der_keeps_der:
  assumes "cbs_wf c" and "cbs_view c = der_element tag body @ rest" and "length body < 2 ^ 32"
    and "der_forest kMaxDepth (der_element tag body @ rest)"
  shows "\<exists>out c'. CBS_asn1_ber_to_der mem c = (Some (out, None), c') \<and>
    cbs_view out = der_element tag body \<and> cbs_view c' = rest"
  by (rule ber_to_der_identity [OF assms])

lemma ber_to_der_keeps_der_witness:
  "\<exists>out c'. CBS_asn1_ber_to_der example_alloc (CBS_init [0x30, 3, 2, 1, 7] 5) = (Some (out, None), c') \<and>
    cbs_view out = der_element 0x20000010 [2, 1, 7] \<and> cbs_view c' = []"
proof (rule ber_to_der_keeps_der)
  have "der_element 2 [7] @ [] = [2, 1, 7]" by code_simp
  moreover have "der_forest 2047 (der_element 2 [7] @ [])"
    by (rule der_forest_primitive) (simp_all add: CBS_ASN1_CONSTRUCTED_def CBS_ASN1_TAG_SHIFT_def der_forest_Nil)
  ultimately have "der_forest (Suc 2047) (der_element 0x20000010 [2, 1, 7] @ [])"
    by (intro der_forest_constructed der_forest_Nil)
      (simp_all add: CBS_ASN1_CONSTRUCTED_def CBS_ASN1_TAG_SHIFT_def is_string_type_def string_tags_def)
  then show "der_forest kMaxDepth (der_element 0x20000010 [2, 1, 7] @ [])" by (simp add: kMaxDepth_def)
  show "cbs_wf (CBS_init [0x30, 3, 2, 1, 7] 5)" by code_simp
  show "cbs_view (CBS_init [0x30, 3, 2, 1, 7] 5) = der_element 0x20000010 [2, 1, 7] @ []" by code_simp
qed simp

text \<open>
  C11: CBS_get_asn1_implicit_string returns the concatenation of the parts of a constructed,
  implicitly tagged string, consumes exactly that element, and succeeds when memory is
  available.
\<close>

lemma implicit_string_joins:
  assumes "\<forall>k. mem k \<noteq> None" and "outer AND CBS_ASN1_CONSTRUCTED = 0"
    and "cbs_wf c" and "cbs_view c =
      der_element (outer OR CBS_ASN1_CONSTRUCTED) (concat (map (der_element inner) chunks)) @ rest"
    and "length (concat (map (der_element inner) chunks)) < 2 ^ 32" and "cbs_len c < 2 ^ 62"
  shows "\<exists>out st c'. CBS_get_asn1_implicit_string mem outer inner c = (Some (out, Some st), c') \<and>
    cbs_view out = concat chunks \<and> cbs_view c' = rest"
  by (rule implicit_string_constructed [OF assms])

lemma implicit_string_joins_witness:
  "\<exists>out st c'. CBS_get_asn1_implicit_string example_alloc 0x80000000 4
      (CBS_init [0xa0, 6, 4, 1, 65, 4, 1, 66] 8) = (Some (out, Some st), c') \<and>
    cbs_view out = concat [[65], [66]] \<and> cbs_view c' = []"
proof (rule implicit_string_joins [OF example_alloc_works])
  show "cbs_wf (CBS_init [0xa0, 6, 4, 1, 65, 4, 1, 66] 8)" by code_simp
  show "cbs_view (CBS_init [0xa0, 6, 4, 1, 65, 4, 1, 66] 8) =
    der_element (0x80000000 OR CBS_ASN1_CONSTRUCTED) (concat (map (der_element 4) [[65], [66]])) @ []"
    by code_simp
  have "der_element 4 [65] = [4, 1, 65]" "der_element 4 [66] = [4, 1, 66]" by (code_simp, code_simp)
  then show "length (concat (map (der_element 4) [[65], [66]])) < 2 ^ 32" by simp
qed (simp_all add: CBS_ASN1_CONSTRUCTED_def CBS_ASN1_TAG_SHIFT_def CBS_init_def)

section \<open>Unicode\<close>

text \<open>
  C12: cbs_get_utf8 accepts exactly the shortest UTF-8 form of the valid code points:
  overlong forms, surrogates, noncharacters, and values above 0x10ffff are refused.
\<close>

lemma utf8_exact:
  assumes "cbs_wf c"
  shows "(\<exists>c'. cbs_get_utf8 c = (Some u, c') \<and> cbs_view c' = rest) \<longleftrightarrow>
    is_valid_code_point u \<and> cbs_view c = utf8 (unat u) @ rest"
  using cbs_get_utf8_complete [OF assms] cbs_get_utf8_canonical [OF assms] by fastforce

lemma utf8_exact_witness:
  "\<exists>c'. cbs_get_utf8 (CBS_init [0xe2, 0x82, 0xac, 0x21] 4) = (Some 0x20ac, c') \<and> cbs_view c' = [0x21]"
proof -
  have wf: "cbs_wf (CBS_init [0xe2, 0x82, 0xac, 0x21] 4)" by code_simp
  have "is_valid_code_point 0x20ac" "cbs_view (CBS_init [0xe2, 0x82, 0xac, 0x21] 4) = [0xe2, 0x82, 0xac, 0x21]"
    by (code_simp, code_simp)
  moreover have "utf8 (unat (0x20ac :: u32)) = [0xe2, 0x82, 0xac]" by (simp add: utf8_def)
  ultimately have "is_valid_code_point 0x20ac"
    "cbs_view (CBS_init [0xe2, 0x82, 0xac, 0x21] 4) = utf8 (unat (0x20ac :: u32)) @ [0x21]" by simp_all
  then show ?thesis using utf8_exact [OF wf, of "0x20ac" "[0x21]"] by blast
qed

section \<open>Base64\<close>

text \<open>
  C13: Text that the streaming encoder produced, from input cut into any pieces, is decoded
  by the streaming decoder to the input, again from any pieces, and EVP_DecodeFinal then
  reports success.
\<close>

lemma base64_stream_roundtrip:
  assumes pieces: "\<forall>p \<in> set ps. length p \<le> 2 ^ 29" and len: "length (concat ps) \<le> INT_MAX"
    and cut: "concat qs = encode_pieces EVP_EncodeInit ps"
  shows "\<exists>ctx. decode_pieces EVP_DecodeInit qs = (Some (concat ps), ctx) \<and> EVP_DecodeFinal ctx = 1"
proof -
  have "encode_ctx_ok EVP_EncodeInit" by (simp add: encode_ctx_ok_def EVP_EncodeInit_def)
  from encode_pieces_text [OF this pieces] have enc: "concat qs = base64_text (concat ps)"
    by (simp add: cut pending_def EVP_EncodeInit_def)
  have ok: "decode_ctx_ok EVP_DecodeInit" "\<not> eof_seen EVP_DecodeInit" "\<not> error_encountered EVP_DecodeInit"
    by (simp_all add: decode_ctx_ok_def EVP_DecodeInit_def EVP_EncodeInit_def)
  obtain ctx where "decode_chars (concat qs) [] EVP_DecodeInit = (Some (concat ps), ctx)" "decode_ctx_ok ctx"
    using decode_chars_text [OF ok(1,2), of "concat ps" "[]"] by (auto simp: enc)
  then show ?thesis
    using decode_pieces_concat [OF ok(3) _ len] by (auto simp: EVP_DecodeFinal_def decode_ctx_ok_def)
qed

lemma base64_stream_roundtrip_witness:
  "\<exists>ctx. decode_pieces EVP_DecodeInit [[65, 81], [73, 68, 66, 65, 61], [61, 10]] = (Some (concat [[1, 2], [3, 4]]), ctx) \<and>
     EVP_DecodeFinal ctx = 1"
proof (rule base64_stream_roundtrip)
  show "concat [[65, 81], [73, 68, 66, 65, 61], [61, 10]] = encode_pieces EVP_EncodeInit [[1, 2], [3, 4]]"
    by code_simp
qed (simp_all add: INT_MAX_def)

section \<open>Constant-time helpers and memory\<close>

text \<open>
  C14: OPENSSL_malloc adds its prefix to the size without a test for wrap-around: for the
  eight largest sizes it asks malloc for fewer than eight bytes and hands out a block that
  holds none of the bytes it promises.
\<close>

lemma malloc_wraps:
  assumes "2 ^ 64 - 8 \<le> sz" and "sz < 2 ^ 64" and "mem (sz + 8 - 2 ^ 64) = Some b"
  shows "OPENSSL_malloc mem sz = Some []"
proof -
  have "size_add sz 8 = sz + 8 - 2 ^ 64" using assms(1,2) by (simp add: size_add_def mod_if)
  moreover have "sz + 8 - 2 ^ 64 < 8" using assms(2) by simp
  ultimately show ?thesis using assms(3) by (simp add: ossl_malloc_def OPENSSL_MALLOC_PREFIX_def)
qed

lemma malloc_wraps_witness: "OPENSSL_malloc (\<lambda>n. Some (replicate n 0)) (2 ^ 64 - 1) = Some []"
  by (rule malloc_wraps [where b = "replicate 7 0"]) simp_all

section \<open>Containers\<close>

text \<open>
  C15: sk_insert refines insertion into a list: the new length is returned and the pointer
  stands at the position asked for (at the end when the position is beyond it), the array
  growing as needed; it fails only when memory runs out and then changes nothing.
\<close>

lemma sk_insert_refines:
  assumes "stack_ok s" and "st_num s < 2 ^ 57"
  shows "case sk_insert mem (Some s) p i of
      (n, Some s') \<Rightarrow>
        n = 0 \<and> s' = s \<and> (\<exists>k. mem k = None) \<or>
        n = length (elems s') \<and> stack_ok s' \<and> elems s' = take i (elems s) @ p # drop i (elems s)
    | (n, None) \<Rightarrow> False"
  using assms
proof (cases rule: sk_insert_elems [where mem = mem and p = p and i = i])
  case (2 s')
  then have "st_num s' = st_num s + 1" using assms(1) by (simp flip: length_elems)
  with 2 have "st_num s + 1 = length (elems s')" by (metis length_elems)
  with 2 show ?thesis by simp
qed auto

lemma sk_insert_refines_witness:
  "case sk_insert example_palloc (Some example_stack) 7 1 of
      (n, Some s') \<Rightarrow> n = 3 \<and> stack_ok s' \<and> elems s' = [3, 7, 5] | (n, None) \<Rightarrow> False"
proof -
  have n: "st_num example_stack < 2 ^ 57" by (simp add: example_stack_def)
  show ?thesis
    using sk_insert_refines [OF example_stack_ok n, where mem = example_palloc and p = 7 and i = 1]
    by (auto simp: example_stack_elems example_palloc_def split: prod.splits option.splits)
qed

text \<open>
  C16: sk_find, which bisects a sorted stack, always reports the position of the first
  element that compares equal, as the linear search does.
\<close>

lemma sk_find_is_linear:
  assumes "stack_ok s" and "sorted_flag_ok call_cmp s" and "p \<noteq> NULL"
    and "\<forall>cf. st_comp s = Some cf \<longrightarrow> comparison (call_cmp cf) (insert p (set (elems s)))"
  shows "sk_find call_cmp (Some s) p = Some i \<longleftrightarrow>
    i < st_num s \<and>
    (let hit = (\<lambda>q. case st_comp s of None \<Rightarrow> q = p | Some cf \<Rightarrow> call_cmp cf p q = 0)
     in hit (elems s ! i) \<and> (\<forall>j < i. \<not> hit (elems s ! j)))"
  unfolding Let_def using assms(4) by (intro sk_find_first [OF assms(1,2) _ assms(3)]) simp

lemma sk_find_is_linear_witness: "sk_find example_cmp (Some example_stack) 5 = Some 1"
proof -
  have cmp: "\<forall>cf. st_comp example_stack = Some cf \<longrightarrow>
    comparison (example_cmp cf) (insert 5 (set (elems example_stack)))"
    by (simp add: example_comparison)
  have s: "(5 :: ptr) \<noteq> NULL" "st_num example_stack = 2" "st_comp example_stack = Some 0"
    by (simp_all add: example_stack_def)
  have hit: "1 < (2 :: nat) \<and> example_cmp 0 5 ([3, 5] ! 1) = 0 \<and> (\<forall>j < 1. example_cmp 0 5 ([3, 5] ! j) \<noteq> 0)"
    by (simp add: example_cmp_def)
  from sk_find_is_linear [OF example_stack_ok example_stack_flag s(1) cmp, of 1]
  show ?thesis unfolding Let_def s example_stack_elems option.case using hit by (rule iffD2)
qed

text \<open>
  C17: sk_set does not clear the sorted flag: when it replaces the last element of a sorted
  stack of at least two by a pointer that compares below all the others, the pointer is in
  the stack, but sk_find does not find it, although with the flag cleared the linear search
  would.
\<close>

lemma sk_set_stale_flag:
  assumes "stack_ok s" and "sk_is_sorted (Some s)" and "st_comp s = Some cf" and "2 \<le> st_num s" and "p \<noteq> NULL"
    and below: "\<forall>j < st_num s - 1. call_cmp cf p (elems s ! j) < 0" and "call_cmp cf p p = 0"
  shows "\<exists>s'. sk_set (Some s) (st_num s - 1) p = (p, Some s') \<and> sk_value (Some s') (st_num s - 1) = p \<and>
    sk_find call_cmp (Some s') p = None \<and>
    sk_find call_cmp (Some (s'\<lparr>st_sorted := False\<rparr>)) p = Some (st_num s - 1)"
proof -
  let ?n = "st_num s" and ?s = "s\<lparr>st_data := (st_data s)[st_num s - 1 := p]\<rparr>"
  have last: "\<not> ?n - 1 \<ge> ?n" using assms(4) by simp
  have run: "sk_set (Some s) (?n - 1) p = (p, Some ?s)" using last by (simp add: sk_set_def)
  have d: "st_data ?s ! (?n - 1) = p" "\<And>j. j < ?n - 1 \<Longrightarrow> call_cmp cf p (st_data ?s ! j) < 0"
    using assms(1,4) below by (auto simp: stack_ok_def elems_def)
  have val: "sk_value (Some ?s) (?n - 1) = p" using d(1) last by (simp add: sk_value_def)
  have "sk_bsearch (call_cmp cf p) (st_data ?s) 0 ?n = None"
    by (intro sk_bsearch_last_below assms(4) d(2))
  then have lost: "sk_find call_cmp (Some ?s) p = None"
    using assms(2,3,5) by (simp add: sk_find_def sk_is_sorted_def)
  have "sk_scan (\<lambda>q. call_cmp cf p q = 0) (st_data ?s) 0 ?n = Some (?n - 1)"
    unfolding sk_scan_Some using d assms(4,7) by fastforce
  then have "sk_find call_cmp (Some (?s\<lparr>st_sorted := False\<rparr>)) p = Some (?n - 1)"
    using assms(3,5) by (simp add: sk_find_def sk_is_sorted_def)
  with run val lost show ?thesis by blast
qed

lemma sk_set_stale_flag_witness:
  "\<exists>s'. sk_set (Some example_stack) 1 1 = (1, Some s') \<and> sk_find example_cmp (Some s') 1 = None"
proof -
  have s: "sk_is_sorted (Some example_stack)" "st_comp example_stack = Some 0" "2 \<le> st_num example_stack"
    by (simp_all add: example_stack_def sk_is_sorted_def)
  have n: "st_num example_stack - 1 = 1" by (simp add: example_stack_def)
  have p: "(1 :: ptr) \<noteq> NULL" "\<forall>j < st_num example_stack - 1. example_cmp 0 1 (elems example_stack ! j) < 0"
    "example_cmp 0 1 1 = 0"
    unfolding n by (simp_all add: example_stack_elems example_cmp_def)
  from sk_set_stale_flag [where call_cmp = example_cmp, OF example_stack_ok s p] show ?thesis unfolding n by blast
qed

text \<open>
  C18: lh_insert is a map update, resizing included: it returns what lh_retrieve found
  before, afterwards lh_retrieve finds the new element under every equal key and what it
  found before under the others, and every item still lies in the bucket of its hash.
\<close>

lemma lh_insert_law:
  assumes "element_laws (call_hash (lh_hash lh)) (call_cmp (lh_comp lh))"
    and "table_ok (call_hash (lh_hash lh)) (call_cmp (lh_comp lh)) lh" and "lh_items lh < 2 ^ 63"
    and "\<forall>n. mem n \<noteq> None"
  shows "\<exists>lh'. lh_insert mem call_hash call_cmp d lh = ((True, lh_retrieve call_hash call_cmp lh d), lh') \<and>
    table_ok (call_hash (lh_hash lh')) (call_cmp (lh_comp lh')) lh' \<and>
    (\<forall>y. lh_retrieve call_hash call_cmp lh' y =
      (if call_cmp (lh_comp lh) d y = 0 then d else lh_retrieve call_hash call_cmp lh y))"
proof -
  obtain dn old lh' where run: "lh_insert mem call_hash call_cmp d lh = ((dn, old), lh')"
    by (metis prod.collapse)
  from element_laws.lh_insert_retrieve [OF assms(1,2) refl refl assms(3) run] assms(4)
  show ?thesis by (cases dn) (auto simp: run)
qed

lemma lh_insert_law_witness:
  "\<exists>lh lh'. lh_new example_palloc 0 0 = Some lh \<and>
    lh_insert example_palloc example_hash example_cmp 7 lh = ((True, NULL), lh') \<and>
    lh_retrieve example_hash example_cmp lh' 7 = 7"
proof -
  obtain lh where lh: "lh_new example_palloc 0 0 = Some lh" "lh_items lh = 0"
      "table_ok (example_hash (lh_hash lh)) (example_cmp (lh_comp lh)) lh"
      "\<forall>x. lh_retrieve example_hash example_cmp lh x = NULL"
    by (rule example_table)
  have "lh_items lh < 2 ^ 63" "\<forall>n. example_palloc n \<noteq> None" by (simp_all add: lh(2) example_palloc_def)
  note run = lh_insert_law [where call_hash = example_hash and call_cmp = example_cmp and d = 7,
      OF example_elements lh(3) this]
  have "example_cmp (lh_comp lh) 7 7 = 0" by (simp add: example_cmp_def)
  with run lh(1,4) show ?thesis by auto
qed

text \<open>
  C19: lh_delete removes from the map, resizing included: it returns what lh_retrieve found,
  afterwards lh_retrieve finds nothing under equal keys and what it found before under the
  others, and every item still lies in the bucket of its hash.
\<close>

lemma lh_delete_law:
  assumes "element_laws (call_hash (lh_hash lh)) (call_cmp (lh_comp lh))"
    and "table_ok (call_hash (lh_hash lh)) (call_cmp (lh_comp lh)) lh"
  shows "\<exists>lh'. lh_delete mem call_hash call_cmp d lh = (lh_retrieve call_hash call_cmp lh d, lh') \<and>
    table_ok (call_hash (lh_hash lh')) (call_cmp (lh_comp lh')) lh' \<and>
    (\<forall>y. lh_retrieve call_hash call_cmp lh' y =
      (if call_cmp (lh_comp lh) d y = 0 then NULL else lh_retrieve call_hash call_cmp lh y))"
proof -
  obtain old lh' where run: "lh_delete mem call_hash call_cmp d lh = (old, lh')"
    by (metis prod.collapse)
  from element_laws.lh_delete_retrieve [OF assms(1,2) refl refl run] show ?thesis
    by (auto simp: run)
qed

lemma lh_delete_law_witness:
  "\<exists>lh lh'. lh_new example_palloc 0 0 = Some lh \<and>
    lh_delete example_palloc example_hash example_cmp 7 lh = (NULL, lh')"
proof -
  obtain lh where lh: "lh_new example_palloc 0 0 = Some lh" "lh_items lh = 0"
      "table_ok (example_hash (lh_hash lh)) (example_cmp (lh_comp lh)) lh"
      "\<forall>x. lh_retrieve example_hash example_cmp lh x = NULL"
    by (rule example_table)
  from lh_delete_law [where call_hash = example_hash and call_cmp = example_cmp and mem = example_palloc and d = 7,
      OF example_elements lh(3)] lh(1,4) show ?thesis by auto
qed

section \<open>Big numbers\<close>

text \<open>
  C20: The word loops of generic.c are exact: bn_add_words and bn_sub_words return the sum
  and the difference of two arrays with the carry or borrow that is missing,
  bn_mul_add_words adds a multiple of an array and returns the top word, and the unrolled
  columns of bn_mul_comba8 and bn_sqr_comba8 give the full product and square.
\<close>

lemma bn_word_arithmetic:
  assumes "n \<le> length a" "n \<le> length b"
  shows "(case bn_add_words a b n of (x, c) \<Rightarrow>
            length x = n \<and> unat c \<le> 1 \<and> words_val x + beta ^ n * unat c = words_val (take n a) + words_val (take n b))
       \<and> (case bn_sub_words a b n of (x, c) \<Rightarrow>
            length x = n \<and> unat c \<le> 1 \<and> words_val x + words_val (take n b) = words_val (take n a) + beta ^ n * unat c)
       \<and> (case bn_mul_add_words a b n w of (x, c) \<Rightarrow>
            length x = n \<and> words_val x + beta ^ n * unat c = words_val (take n a) + words_val (take n b) * unat w)
       \<and> (n = 8 \<longrightarrow> words_val (bn_mul_comba8 a b) = words_val (take 8 a) * words_val (take 8 b)
                 \<and> words_val (bn_sqr_comba8 a) = words_val (take 8 a) * words_val (take 8 a))"
  using bn_add_words_exact [OF assms] bn_sub_words_exact [OF assms] bn_mul_add_words_exact [OF assms, of w]
    bn_mul_comba8_prefix [of a b] bn_sqr_comba8_prefix [of a] assms
  by (auto split: prod.splits)

lemma bn_word_arithmetic_witness:
  "case bn_add_words [1, 2] [3, - 1] 2 of (x, c) \<Rightarrow>
     words_val x + beta ^ 2 * unat c = words_val [1, 2] + words_val [3, - 1]"
  using bn_word_arithmetic [of 2 "[1, 2]" "[3, - 1]" 5] by (simp split: prod.splits)

text \<open>
  C21: BN_add and BN_sub compute the sum and the difference of the integers, whatever the
  signs and however many leading zero words the operands have, into any target, never as a
  negative zero when the first operand is none; they fail only when the target cannot be
  made large enough.
\<close>

lemma bn_add_exact:
  assumes "bn_ok a" "bn_ok b" "bn_ok r" "max (bn_width a) (bn_width b) < n"
  shows "(case BN_add mem a b r of
            (Some _, r') \<Rightarrow> bn_ok r' \<and> bn_int r' = bn_int a + bn_int b \<and> (bn_canonical a \<longrightarrow> bn_canonical r')
          | (None, _) \<Rightarrow> \<not> bn_room mem n r)
       \<and> (case BN_sub mem a b r of
            (Some _, r') \<Rightarrow> bn_ok r' \<and> bn_int r' = bn_int a - bn_int b \<and> (bn_canonical a \<longrightarrow> bn_canonical r')
          | (None, _) \<Rightarrow> \<not> bn_room mem n r)"
proof -
  have n: "max (bn_width a) (bn_width b) + 1 \<le> n" using assms(4) by linarith
  show ?thesis
    using BN_add_spec [OF assms(1-3)] BN_sub_spec [OF assms(1-3)]
      BN_add_room [OF assms(1-3) _ n] BN_sub_room [OF assms(1-3) _ n]
    by (intro conjI exact_or_no_room) blast+
qed

lemma bn_add_exact_witness:
  "case BN_add example_bn_mem (example_bn [5] False) (example_bn [7] True) (example_bn [0] False) of
     (Some _, r') \<Rightarrow> bn_ok r' \<and> bn_int r' = - 2 | (None, _) \<Rightarrow> False"
proof -
  have "max (bn_width (example_bn [5] False)) (bn_width (example_bn [7] True)) < 5"
    by (simp add: example_bn_width)
  from bn_add_exact [where mem = example_bn_mem and r = "example_bn [0] False", OF example_bn_ok example_bn_ok example_bn_ok this]
  show ?thesis by (simp add: example_bn_int example_bn_room split: prod.splits option.splits)
qed

text \<open>
  C22: BN_mul and BN_sqr compute the product and the square of the integers for operands of
  every size, whichever of the comba, schoolbook and Karatsuba routines the sizes select,
  also when the target is an operand. They fail only when there is no room (bn_room): memory
  runs out, a number involved stands in a static block, or the sizes exceed the limit of
  bn_wexpand (INT_MAX / 256 words).
\<close>

lemma bn_mul_exact:
  assumes "bn_ok a" "bn_ok b" "bn_ok r" "bn_ok rr" "bn_ok t" "8 * (bn_width a + bn_width b) \<le> n"
  shows "(case BN_mul mem (Some rr) (Some t) al a b r of
            (Some _, r') \<Rightarrow> bn_ok r' \<and> bn_int r' = bn_int a * bn_int b \<and> bn_canonical r'
          | (None, _) \<Rightarrow> \<not> (bn_room mem n r \<and> bn_room mem n rr \<and> bn_room mem n t))
       \<and> (case BN_sqr mem (Some rr) (Some t) al a r of
            (Some _, r') \<Rightarrow> bn_ok r' \<and> bn_int r' = bn_int a * bn_int a \<and> bn_canonical r'
          | (None, _) \<Rightarrow> \<not> (bn_room mem n r \<and> bn_room mem n rr \<and> bn_room mem n t))"
proof -
  have rr: "pred_option bn_ok (Some rr)" using assms(4) by simp
  have n: "4 * bn_width a \<le> n" using assms(6) by simp
  show ?thesis
    using BN_mul_spec [OF assms(1-3) rr] BN_sqr_spec [OF assms(1,3) rr]
      BN_mul_room [of mem n r "Some rr" "Some t" al, OF _ _ _ _ _ assms(6,1,2)]
      BN_sqr_room [of mem n r "Some rr" "Some t" al, OF _ _ _ _ _ n]
    by (intro conjI exact_or_no_room) auto
qed

lemma bn_mul_exact_witness:
  "case BN_mul example_bn_mem (Some (example_bn [] False)) (Some (example_bn [] False)) True
       (example_bn [5] False) (example_bn [7] True) (example_bn [5] False) of
     (Some _, r') \<Rightarrow> bn_ok r' \<and> bn_int r' = - 35 | (None, _) \<Rightarrow> False"
proof -
  have "8 * (bn_width (example_bn [5] False) + bn_width (example_bn [7] True)) \<le> 20"
    by (simp add: example_bn_width)
  from bn_mul_exact [where mem = example_bn_mem and al = True and rr = "example_bn [] False"
      and t = "example_bn [] False" and r = "example_bn [5] False",
      OF example_bn_ok example_bn_ok example_bn_ok example_bn_ok example_bn_ok this]
  show ?thesis by (simp add: example_bn_int example_bn_room split: prod.splits option.splits)
qed

text \<open>
  C23: For operands of 2^k words bn_mul_recursive (Karatsuba, with the signs of the
  differences kept in masks) leaves the same words as the schoolbook product bn_mul_normal.
\<close>

lemma karatsuba_is_schoolbook:
  assumes "length a = 2 ^ k" "length b = 2 ^ k" "length r = 2 * 2 ^ k"
  shows "bn_mul_recursive a b (2 ^ k) 0 0 r = bn_mul_normal r a (2 ^ k) b (2 ^ k)"
proof -
  define n :: nat where "n = 2 ^ k"
  have l: "n + n \<le> length r" "n \<le> length a" "n \<le> length b" "length r = 2 * n" using assms by (simp_all add: n_def)
  note m = bn_mul_normal_exact [OF l(1-3)]
  note k = bn_mul_recursive_exact [OF n_def, of 0 0 r a b]
  have "length (bn_mul_recursive a b (2 ^ k) 0 0 r) = length (bn_mul_normal r a (2 ^ k) b (2 ^ k))"
    using k m(1) l by (simp add: n_def [symmetric])
  moreover have "take (n + n) (bn_mul_normal r a n b n) = bn_mul_normal r a n b n" using m(1) l(4) by simp
  then have "words_val (bn_mul_recursive a b (2 ^ k) 0 0 r) = words_val (bn_mul_normal r a (2 ^ k) b (2 ^ k))"
    using k m(2) l by (simp add: n_def [symmetric])
  ultimately show ?thesis by (simp add: words_val_inject)
qed

lemma karatsuba_is_schoolbook_witness:
  "bn_mul_recursive (replicate 16 7) (replicate 16 9) (2 ^ 4) 0 0 (replicate 32 0) =
   bn_mul_normal (replicate 32 0) (replicate 16 7) (2 ^ 4) (replicate 16 9) (2 ^ 4)"
  by (rule karatsuba_is_schoolbook) simp_all

text \<open>
  C24: BN_div (Knuth's algorithm D) is exact for all operands: when it succeeds the divisor
  is not zero, numerator = quotient * divisor + remainder, the remainder is smaller than the
  divisor in absolute value and has the sign of the numerator, and neither result is a
  negative zero. It fails only for a zero divisor or when there is no room (bn_room) in the
  results or the four numbers of the context.
\<close>

lemma bn_div_exact:
  assumes "bn_ok a" "bn_ok b" "list_all bn_ok ctx" "bn_ok q" "bn_ok r"
    and "4 \<le> length ctx" "max (bn_width a) (bn_width b) + 4 \<le> n"
  shows "case BN_div mem ctx a b (Some q, Some r) of
      (Some _, Some q', Some r') \<Rightarrow> bn_ok q' \<and> bn_ok r' \<and> bn_canonical q' \<and> bn_canonical r' \<and>
        bn_int a = bn_int q' * bn_int b + bn_int r' \<and> \<bar>bn_int r'\<bar> < \<bar>bn_int b\<bar> \<and> 0 \<le> bn_int r' * bn_int a
    | (Some _, _) \<Rightarrow> False
    | (None, _) \<Rightarrow> bn_int b = 0 \<or> \<not> (list_all (bn_room mem n) ctx \<and> bn_room mem n q \<and> bn_room mem n r)"
proof (cases "BN_div mem ctx a b (Some q, Some r)")
  case (fields u q' r')
  have oks: "pred_option bn_ok (Some q)" "pred_option bn_ok (Some r)" using assms(4,5) by simp_all
  show ?thesis
  proof (cases u)
    case None
    then have "\<not> succeeds (BN_div mem ctx a b (Some q, Some r))" using fields by (simp add: succeeds_def)
    then have "bn_int b = 0 \<or> \<not> (list_all (bn_room mem n) ctx \<and> bn_room mem n q \<and> bn_room mem n r)"
      using BN_div_room [OF assms(1-3) oks, of mem n] assms(6,7) by auto
    then show ?thesis using fields None by (auto split: option.splits)
  next
    case (Some v)
    then obtain x y where xy: "q' = Some x" "r' = Some y"
      and s: "bn_int b \<noteq> 0" "bn_ok x" "bn_int x = bn_int a sdiv bn_int b" "bn_canonical x"
        "bn_ok y" "bn_int y = bn_int a smod bn_int b" "bn_canonical y"
      using BN_div_spec [OF assms(1-3) oks fields [unfolded Some]] by fastforce
    have "bn_int x * bn_int b + bn_int y = bn_int a" using s(3,6) by (simp add: sdiv_mult_smod_eq)
    moreover have "\<bar>bn_int y\<bar> < \<bar>bn_int b\<bar>" "0 \<le> bn_int y * bn_int a"
      using smod_bounds [OF s(1), of "bn_int a"] s(6) by simp_all
    ultimately show ?thesis using fields Some xy s by simp
  qed
qed

lemma bn_div_exact_witness:
  "\<exists>q r. BN_div example_bn_mem (replicate 4 (example_bn [0] False)) (example_bn [7] True) (example_bn [2] False)
      (Some (example_bn [0] False), Some (example_bn [0] False)) = (Some (), Some q, Some r) \<and>
    bn_int q = - 3 \<and> bn_int r = - 1"
proof -
  let ?z = "example_bn [0] False" and ?a = "example_bn [7] True" and ?b = "example_bn [2] False"
  have z: "bn_ok ?z" "bn_ok ?a" "bn_ok ?b" by (simp_all add: example_bn_ok)
  have ctx: "list_all bn_ok (replicate 4 ?z)" "4 \<le> length (replicate 4 ?z)"
    using z(1) by (simp_all add: list_all_iff)
  have n: "max (bn_width ?a) (bn_width ?b) + 4 \<le> 5" by (simp add: example_bn_width)
  have room: "list_all (bn_room example_bn_mem 5) (replicate 4 ?z)" "bn_room example_bn_mem 5 ?z"
    by (simp_all add: list_all_iff example_bn_room)
  have v: "bn_int ?a = - 7" "bn_int ?b = 2" by (simp_all add: example_bn_int)
  obtain x y w where d: "BN_div example_bn_mem (replicate 4 ?z) ?a ?b (Some ?z, Some ?z) = (x, y, w)"
    using prod_cases3 by blast
  note e = bn_div_exact [OF z(2,3) ctx(1) z(1,1) ctx(2) n, of example_bn_mem, unfolded d v prod.case]
  from e room obtain q r where r: "x = Some ()" "y = Some q" "w = Some r"
    "- 7 = bn_int q * 2 + bn_int r" "\<bar>bn_int r\<bar> < 2" "0 \<le> bn_int r * - 7"
    by (cases x; cases y; cases w) auto
  from r(5,6) have "bn_int r = 0 \<or> bn_int r = - 1" by linarith
  with r(4) have "bn_int r = - 1 \<and> bn_int q = - 3" by presburger
  with d r show ?thesis by simp
qed

text \<open>
  C25: BN_nnmod gives the remainder between zero and the absolute value of the divisor,
  whatever the signs, and fails only for a zero divisor or without room. For a word that is
  not zero, BN_mod_word gives the remainder of the absolute value, and with room BN_div_word
  gives the same and leaves the quotient, rounded towards zero.
\<close>

lemma bn_mod_exact:
  assumes "bn_ok a" "bn_ok b" "list_all bn_ok ctx" "bn_ok r" "4 \<le> length ctx"
    and "max (bn_width a) (bn_width b) + 5 \<le> n" "w \<noteq> 0"
  shows "(case BN_nnmod mem ctx a b r of
            (Some _, m) \<Rightarrow> bn_ok m \<and> bn_int b \<noteq> 0 \<and> bn_int m = bn_int a mod \<bar>bn_int b\<bar>
          | (None, _) \<Rightarrow> \<not> (bn_int b \<noteq> 0 \<and> list_all (bn_room mem n) ctx \<and> bn_room mem n r))
    \<and> unat (BN_mod_word a w) = bn_abs a mod unat w
    \<and> (bn_room mem n a \<longrightarrow>
        (case BN_div_word mem w a of
           (m, q) \<Rightarrow> m = BN_mod_word a w \<and> bn_ok q \<and> bn_int q = bn_int a sdiv int (unat w)))"
proof (intro conjI)
  show "case BN_nnmod mem ctx a b r of
      (Some _, m) \<Rightarrow> bn_ok m \<and> bn_int b \<noteq> 0 \<and> bn_int m = bn_int a mod \<bar>bn_int b\<bar>
    | (None, _) \<Rightarrow> \<not> (bn_int b \<noteq> 0 \<and> list_all (bn_room mem n) ctx \<and> bn_room mem n r)"
    using BN_nnmod_spec [OF assms(1-4)] BN_nnmod_room [OF assms(1-4), of mem n] assms(5,6)
    by (intro exact_or_no_room) auto
  show m: "unat (BN_mod_word a w) = bn_abs a mod unat w" by (rule BN_mod_word_spec [OF assms(1,7)])
  have n: "bn_width a + 2 \<le> n" using assms(6) by simp
  show "bn_room mem n a \<longrightarrow>
        (case BN_div_word mem w a of
           (m, q) \<Rightarrow> m = BN_mod_word a w \<and> bn_ok q \<and> bn_int q = bn_int a sdiv int (unat w))"
  proof
    assume room: "bn_room mem n a"
    obtain m q where mq: "BN_div_word mem w a = (m, q)" by fastforce
    have "bn_ok q \<and> bn_int q = bn_int a sdiv int (unat w) \<and> unat m = bn_abs a mod unat w"
      using BN_div_word_spec [OF assms(1,7) room n] mq by simp
    then show "case BN_div_word mem w a of
        (m, q) \<Rightarrow> m = BN_mod_word a w \<and> bn_ok q \<and> bn_int q = bn_int a sdiv int (unat w)"
      unfolding mq prod.case word_unat_eq_iff [of m] m by blast
  qed
qed

lemma bn_mod_exact_witness:
  "(\<exists>m. BN_nnmod example_bn_mem (replicate 4 (example_bn [0] False)) (example_bn [7] True) (example_bn [5] False)
      (example_bn [0] False) = (Some (), m) \<and> bn_int m = 3) \<and>
    BN_mod_word (example_bn [7] True) 5 = 2"
proof -
  let ?z = "example_bn [0] False" and ?a = "example_bn [7] True" and ?b = "example_bn [5] False"
  have z: "bn_ok ?z" "bn_ok ?a" "bn_ok ?b" by (simp_all add: example_bn_ok)
  have ctx: "list_all bn_ok (replicate 4 ?z)" "4 \<le> length (replicate 4 ?z)"
    using z(1) by (simp_all add: list_all_iff)
  have n: "max (bn_width ?a) (bn_width ?b) + 5 \<le> 6" by (simp add: example_bn_width)
  have room: "list_all (bn_room example_bn_mem 6) (replicate 4 ?z)" "bn_room example_bn_mem 6 ?z"
    by (simp_all add: list_all_iff example_bn_room)
  have v: "bn_int ?a = - 7" "bn_int ?b = 5" "bn_abs ?a = 7"
    by (simp_all add: example_bn_int) (simp add: example_bn_def bn_abs_def bn_words_def)
  have w: "(5 :: bn_ulong) \<noteq> 0" by simp
  obtain x m where d: "BN_nnmod example_bn_mem (replicate 4 ?z) ?a ?b ?z = (x, m)" by fastforce
  note e = bn_mod_exact [OF z(2,3) ctx(1) z(1) ctx(2) n w, of example_bn_mem, unfolded d v prod.case]
  from e room have "x = Some ()" "bn_int m = 3" by (cases x; simp)+
  moreover from e have "unat (BN_mod_word ?a 5) = unat (2 :: bn_ulong)" by simp
  then have "BN_mod_word ?a 5 = 2" by (simp only: word_unat_eq_iff)
  ultimately show ?thesis using d by simp
qed

text \<open>
  C26: For operands that are not a negative zero, BN_cmp returns the sign of the difference
  of the two integers and BN_equal_consttime decides their equality, whatever the widths.
\<close>

lemma bn_cmp_exact:
  assumes "bn_ok a" "bn_ok b" "bn_canonical a" "bn_canonical b"
  shows "sint (BN_cmp (Some a) (Some b)) = sgn (bn_int a - bn_int b) \<and>
    (BN_equal_consttime a b \<longleftrightarrow> bn_int a = bn_int b)"
  using BN_cmp_spec [OF assms] BN_equal_consttime_spec [OF assms] by simp

lemma bn_cmp_exact_witness: "sint (BN_cmp (Some (example_bn [5] True)) (Some (example_bn [7] False))) = - 1"
proof -
  have "bn_canonical (example_bn [5] True)" "bn_canonical (example_bn [7] False)"
    by (simp_all add: bn_canonical_def bn_abs_def bn_words_def example_bn_def)
  with bn_cmp_exact [OF example_bn_ok example_bn_ok, of "[5]" "[7]" True False] show ?thesis
    by (simp add: example_bn_int)
qed

text \<open>
  C27: BN_bn2bin_padded fails exactly when the absolute value needs more bytes than asked
  for; otherwise it gives that many bytes, and BN_bin2bn reads the value back from them.
  BN_bin2bn fails only when there is no room (bn_room): memory runs out, the target is a
  static block, or the length exceeds the limit of bn_wexpand.
\<close>

lemma bn_bytes_roundtrip:
  assumes "bn_ok a" "bn_ok r"
  shows "case BN_bn2bin_padded len a of
      None \<Rightarrow> 256 ^ len \<le> bn_abs a
    | Some bs \<Rightarrow> length bs = len \<and>
        (case BN_bin2bn mem bs (Some r) of
           (Some _, Some r') \<Rightarrow> bn_ok r' \<and> bn_abs r' = bn_abs a
         | (Some _, None) \<Rightarrow> False
         | (None, _) \<Rightarrow> \<not> bn_room mem ((len - 1) div 8 + 1) r)"
proof (cases "BN_bn2bin_padded len a")
  case None
  with BN_bn2bin_padded_spec(2) [OF assms(1), of len] show ?thesis by simp
next
  case (Some bs)
  note o = BN_bn2bin_padded_spec(1) [OF assms(1) Some]
  have "pred_option bn_ok (Some r)" using assms(2) by simp
  show ?thesis
  proof (cases "BN_bin2bn mem bs (Some r)")
    case (Pair u r')
    show ?thesis
    proof (cases u)
      case None
      then have "fst (bn_wexpand mem ((len - 1) div 8 + 1) r) = None"
        using Pair o by (auto simp: BN_bin2bn_def Let_def split: if_splits prod.splits option.splits)
      then have "\<not> bn_room mem ((len - 1) div 8 + 1) r" using bn_wexpand_room [of mem _ r, OF _ order_refl]
        by (auto simp: succeeds_def)
      then show ?thesis using Pair None Some o by simp
    next
      case (Some v)
      then obtain r'' where "r' = Some r''"
        using Pair by (auto simp: BN_bin2bn_def Let_def split: if_splits prod.splits option.splits)
      then show ?thesis
        using BN_bin2bn_exact(1) [of "Some r" mem bs v r''] assms(2) Pair Some o \<open>BN_bn2bin_padded len a = Some bs\<close> by simp
    qed
  qed
qed

lemma bn_bytes_roundtrip_witness:
  "case BN_bn2bin_padded 10 (example_bn [300] False) of
      None \<Rightarrow> 256 ^ 10 \<le> bn_abs (example_bn [300] False)
    | Some bs \<Rightarrow> length bs = 10 \<and>
        (case BN_bin2bn example_bn_mem bs (Some (example_bn [] False)) of
           (Some _, Some r') \<Rightarrow> bn_ok r' \<and> bn_abs r' = bn_abs (example_bn [300] False)
         | (Some _, None) \<Rightarrow> False
         | (None, _) \<Rightarrow> False)"
proof -
  have "bn_room example_bn_mem ((10 - 1) div 8 + 1) (example_bn [] False)" by (rule example_bn_room) simp
  then show ?thesis
    using bn_bytes_roundtrip [where mem = example_bn_mem and len = 10 and a = "example_bn [300] False"
      and r = "example_bn [] False", OF example_bn_ok example_bn_ok]
    by (simp split: prod.splits option.splits) blast
qed

text \<open>
  C28: BN_lshift multiplies the integer by the power of two, and BN_rshift divides it,
  rounding towards zero; neither leaves a negative zero, and both refuse a negative amount.
  Otherwise they fail only when there is no room (bn_room): memory runs out, the target is a
  static block, or the size exceeds the limit of bn_wexpand, as for a very large amount.
\<close>

lemma bn_shift_exact:
  assumes "bn_ok a" "bn_ok r" "bn_width a + nat k div 64 + 1 \<le> n"
  shows "(case BN_lshift mem a k r of
            (Some _, r') \<Rightarrow> 0 \<le> k \<and> bn_ok r' \<and> bn_int r' = bn_int a * 2 ^ nat k \<and> bn_canonical r'
          | (None, _) \<Rightarrow> k < 0 \<or> \<not> bn_room mem n r)
       \<and> (case BN_rshift mem a k r of
            (Some _, r') \<Rightarrow> 0 \<le> k \<and> bn_ok r' \<and> bn_int r' = sgn (bn_int a) * (\<bar>bn_int a\<bar> div 2 ^ nat k) \<and> bn_canonical r'
          | (None, _) \<Rightarrow> k < 0 \<or> \<not> bn_room mem n r)"
proof (cases "k < 0")
  case True
  then show ?thesis by (simp add: BN_lshift_def BN_rshift_def)
next
  case False
  then have k: "0 \<le> k" by simp
  have "bn_width a \<le> n" using assms(3) by simp
  then have "(case BN_lshift mem a k r of
            (Some _, r') \<Rightarrow> 0 \<le> k \<and> bn_ok r' \<and> bn_int r' = bn_int a * 2 ^ nat k \<and> bn_canonical r'
          | (None, _) \<Rightarrow> \<not> bn_room mem n r)
       \<and> (case BN_rshift mem a k r of
            (Some _, r') \<Rightarrow> 0 \<le> k \<and> bn_ok r' \<and> bn_int r' = sgn (bn_int a) * (\<bar>bn_int a\<bar> div 2 ^ nat k) \<and> bn_canonical r'
          | (None, _) \<Rightarrow> \<not> bn_room mem n r)"
    using BN_lshift_spec [OF assms(1,2)] BN_rshift_spec [OF assms(1,2)]
      BN_lshift_room [OF _ assms(3) k, of mem r] BN_rshift_room [of mem n r a k] k
    by (intro conjI exact_or_no_room) (auto simp: shift_int_def)
  then show ?thesis by (auto split: option.splits)
qed

lemma bn_shift_exact_witness:
  "case BN_rshift example_bn_mem (example_bn [13] True) 2 (example_bn [0] False) of
     (Some _, r') \<Rightarrow> bn_int r' = - 3 | (None, _) \<Rightarrow> False"
proof -
  have "bn_width (example_bn [13] True) + nat 2 div 64 + 1 \<le> 5" by (simp add: example_bn_width)
  from bn_shift_exact [where mem = example_bn_mem and r = "example_bn [0] False", OF example_bn_ok example_bn_ok this]
  show ?thesis by (simp add: example_bn_int example_bn_room split: prod.splits option.splits)
qed

text \<open>
  C29: BN_uadd does not set the sign: added into a target that was negative, two numbers
  give the negative of the sum of their absolute values.
\<close>

lemma uadd_keeps_sign:
  assumes "bn_ok a" "bn_ok b" "bn_ok r" "bn_neg r" "BN_uadd mem a b r = (Some u, r')"
  shows "bn_int r' = - int (bn_abs a + bn_abs b)"
  using BN_uadd_spec [OF assms(1-3,5)] assms(4) by (auto simp: bn_int_def)

lemma uadd_keeps_sign_witness: "\<exists>r'. BN_uadd example_bn_mem (example_bn [1] False) (example_bn [1] False)
     (example_bn [3] True) = (Some (), r') \<and> bn_int r' = - 2"
proof -
  let ?a = "example_bn [1] False" and ?r = "example_bn [3] True"
  have "succeeds (BN_uadd example_bn_mem ?a ?a ?r)"
    by (rule BN_uadd_room [OF example_bn_room [of 5]]) (simp_all add: example_bn_width)
  then obtain r' where r': "BN_uadd example_bn_mem ?a ?a ?r = (Some (), r')" using works by blast
  have "bn_neg ?r" by (simp add: example_bn_def)
  from uadd_keeps_sign [OF example_bn_ok example_bn_ok example_bn_ok this r'] r'
  show ?thesis by (simp add: bn_abs_def bn_words_def example_bn_def)
qed

text \<open>
  C30: BN_le2bn and BN_bin2bn treat the sign of a target that was negative in opposite ways:
  BN_le2bn keeps it for non-empty bytes, giving a negative number, and clears it for empty
  ones; BN_bin2bn clears it for non-empty bytes and keeps it for empty ones, leaving a
  negative zero.
\<close>

lemma le2bn_keeps_sign:
  assumes "bn_ok r" "bn_neg r"
    and "BN_le2bn mem inp (Some r) = (Some u, Some l)" "BN_bin2bn mem inp (Some r) = (Some v, Some b)"
  shows "bn_abs l = le_val inp \<and> (bn_neg l \<longleftrightarrow> inp \<noteq> []) \<and> bn_abs b = be_val inp \<and> (bn_neg b \<longleftrightarrow> inp = [])"
  using BN_le2bn_exact [OF _ assms(3)] BN_bin2bn_exact [OF _ assms(4)] assms(1,2) by auto

lemma le2bn_keeps_sign_witness:
  "\<exists>l b. BN_le2bn example_bn_mem [5] (Some (example_bn [3] True)) = (Some (), Some l) \<and>
     BN_bin2bn example_bn_mem [5] (Some (example_bn [3] True)) = (Some (), Some b) \<and> bn_neg l \<and> \<not> bn_neg b"
proof -
  have ok: "bn_ok (example_bn [3] True)" "bn_neg (example_bn [3] True)" "bn_dmax (example_bn [3] True) = 1"
    using example_bn_ok [of "[3]" True] by (simp_all add: example_bn_def)
  then obtain l b where r: "BN_le2bn example_bn_mem [5] (Some (example_bn [3] True)) = (Some (), Some l)"
    "BN_bin2bn example_bn_mem [5] (Some (example_bn [3] True)) = (Some (), Some b)"
    by (simp add: BN_le2bn_def BN_bin2bn_def bn_wexpand_def)
  from le2bn_keeps_sign [OF ok(1,2) r] r show ?thesis by simp
qed

section \<open>Streams\<close>

text \<open>
  C31: Writing to and reading from one end of a BIO pair refine operations on two bounded
  byte queues: a write takes as many bytes as fit behind those queued and reports how many
  (or that the pair is closed or full), a read takes bytes from the front of the peer's
  queue, the wrap-around of the ring buffers is invisible, and both ends stay joined.
\<close>

lemma bio_pair_refines_pipes:
  assumes "joined m a p h" and "ms m = methods_biop mem"
    and "0 < n" and "n \<le> int INT_MAX" and "n \<le> int (length d)"
  shows "(\<exists>h'. BIO_write ms (Some a) (Some d) n h =
        Some (fst (pipe_write (take (nat n) d) (pipe_at a h)), h') \<and> joined m a p h' \<and>
        pipe_at a h' = snd (pipe_write (take (nat n) d) (pipe_at a h)) \<and> pipe_at p h' = pipe_at p h) \<and>
    (\<exists>h'. BIO_read ms (Some a) (Some d) n h =
        Some ((fst (fst (pipe_read (nat n) (pipe_at p h))),
          Some (blit d 0 (snd (fst (pipe_read (nat n) (pipe_at p h)))))), h') \<and> joined m a p h' \<and>
        pipe_at p h' = snd (pipe_read (nat n) (pipe_at p h)) \<and> pipe_at a h' = pipe_at a h)"
  using BIO_write_pipe [where ms = ms, OF assms] BIO_read_pipe [where ms = ms, OF assms] by blast

lemma bio_pair_refines_pipes_witness:
  "\<exists>h h'. BIO_new_bio_pair example_alloc (\<lambda>_. methods_biop example_alloc) 0 1 2 4 0 example_heap =
      Some ((True, Some 1, Some 2), h) \<and>
    BIO_write (\<lambda>_. methods_biop example_alloc) (Some 1) (Some [7, 8, 9, 10, 11]) 5 h = Some (4, h') \<and>
    p_queue (pipe_at 1 h') = [7, 8, 9, 10]"
proof -
  obtain h where h: "BIO_new_bio_pair example_alloc (\<lambda>_. methods_biop example_alloc) 0 1 2 4 0 example_heap =
      Some ((True, Some 1, Some 2), h)" "joined 0 1 2 h" "pipe_at 1 h = \<lparr>p_closed = False, p_size = 4, p_queue = []\<rparr>"
    by (rule example_pair)
  have n: "0 < (5 :: int)" "5 \<le> int INT_MAX" "5 \<le> int (length [7, 8, 9, 10, 11 :: u8])" by (simp_all add: INT_MAX_def)
  have w: "pipe_write (take (nat 5) [7, 8, 9, 10, 11]) (pipe_at 1 h) =
      (4, \<lparr>p_closed = False, p_size = 4, p_queue = [7, 8, 9, 10]\<rparr>)"
    unfolding h(3) by (simp add: pipe_write_def)
  from bio_pair_refines_pipes [where ms = "\<lambda>_. methods_biop example_alloc", OF h(2) refl n] h(1) show ?thesis
    unfolding w by auto
qed

text \<open>
  C32: Bytes travel through a new BIO pair in order: after any interleaving of writes to one
  end, reads from the other and a shutdown, what was accepted is what was delivered followed
  by what the ring buffer still holds, and at most the buffer's size is in flight.
\<close>

lemma bio_pair_is_fifo:
  assumes "BIO_new_bio_pair mem ms m a p n1 n2 h00 = Some ((True, Some a, Some p), h0)"
    and "\<forall>k. mem k \<noteq> None" and "ms m = methods_biop mem" and "a \<noteq> p" and "n1 < 2 ^ 62" and "n2 < 2 ^ 62"
    and "traffic ms a p h0 sent got h"
  shows "sent = got @ p_queue (pipe_at a h) \<and> length sent \<le> length got + (if n1 = 0 then 17 * 1024 else n1)"
proof -
  obtain h' where h': "BIO_new_bio_pair mem ms m a p n1 n2 h00 = Some ((True, Some a, Some p), h')" "joined m a p h'"
      "pipe_at a h' = \<lparr>p_closed = False, p_size = (if n1 = 0 then 17 * 1024 else n1), p_queue = []\<rparr>"
    by (rule BIO_new_bio_pair_joined [where ms = ms and h = h00, OF assms(2-6)])
  then have h0: "h' = h0" using assms(1) by simp
  have "joined m a p h \<and> sent = got @ p_queue (pipe_at a h) \<and> p_size (pipe_at a h) = p_size (pipe_at a h0)"
    using traffic_fifo [where ms = ms, OF assms(7) h'(2) [unfolded h0] assms(3)] h'(3) by (simp add: h0)
  moreover from this have "length (p_queue (pipe_at a h)) \<le> p_size (pipe_at a h)" by (blast intro: queue_fits)
  ultimately show ?thesis using h'(3) by (simp add: h0)
qed

lemma bio_pair_is_fifo_witness:
  "\<exists>h0 h. BIO_new_bio_pair example_alloc (\<lambda>_. methods_biop example_alloc) 0 1 2 4 0 example_heap =
      Some ((True, Some 1, Some 2), h0) \<and>
    BIO_write (\<lambda>_. methods_biop example_alloc) (Some 1) (Some [7, 8, 9, 10, 11]) 5 h0 = Some (4, h) \<and>
    p_queue (pipe_at 1 h) = [7, 8, 9, 10]"
proof -
  let ?ms = "\<lambda>_ :: nat. methods_biop example_alloc"
  obtain h0 where h0: "BIO_new_bio_pair example_alloc ?ms 0 1 2 4 0 example_heap =
      Some ((True, Some 1, Some 2), h0)" "joined 0 1 2 h0" "pipe_at 1 h0 = \<lparr>p_closed = False, p_size = 4, p_queue = []\<rparr>"
    by (rule example_pair)
  have n: "0 < (5 :: int)" "5 \<le> int INT_MAX" "5 \<le> int (length [7, 8, 9, 10, 11 :: u8])" by (simp_all add: INT_MAX_def)
  have w: "pipe_write (take (nat 5) [7, 8, 9, 10, 11]) (pipe_at 1 h0) =
      (4, \<lparr>p_closed = False, p_size = 4, p_queue = [7, 8, 9, 10]\<rparr>)"
    unfolding h0(3) by (simp add: pipe_write_def)
  obtain h where h: "BIO_write ?ms (Some 1) (Some [7, 8, 9, 10, 11]) 5 h0 = Some (4, h)"
    using BIO_write_pipe [where ms = ?ms, OF h0(2) refl n] unfolding w by auto
  have "traffic ?ms 1 2 h0 ([] @ take (nat 4) [7, 8, 9, 10, 11]) [] h"
    by (rule traffic.write_a [OF traffic.start n h])
  then have t: "traffic ?ms 1 2 h0 [7, 8, 9, 10] [] h" by simp
  from bio_pair_is_fifo [where ms = ?ms, OF h0(1) example_alloc_works refl _ _ _ t] h0(1) h show ?thesis by auto
qed

text \<open>
  C33: BIO_read_asn1 on a memory BIO returns exactly the first DER element of its contents
  and leaves the bytes behind it unread, when the tag is in the low form and the element
  within the limit.
\<close>

lemma mem_bio_reads_der:
  assumes "\<forall>k. mem k \<noteq> None" and "ms = (\<lambda>_. mem_method mem)" and "tag_num tag < 31"
    and "input = der_element tag body @ rest" and "length input < 2 ^ 31"
    and "length (der_element tag body) \<le> max_len"
  shows "\<exists>h1 h2. BIO_new_mem_buf mem ms m a (Some input) (int (length input)) h = Some (Some a, h1) \<and>
    BIO_read_asn1 mem ms (Some a) max_len h1 =
      Some (Inr (der_element tag body, length (der_element tag body)), h2) \<and>
    mem_bytes a h2 = rest"
proof -
  have ms: "ms m = mem_method mem" by (simp add: assms(2))
  obtain h1 where h1: "BIO_new_mem_buf mem ms m a (Some input) (int (length input)) h = Some (Some a, h1)"
      "readable m a h1" "mem_bytes a h1 = input"
    by (rule BIO_new_mem_buf_readable [where ms = ms and m = m, OF assms(1) ms assms(5)])
  have len: "length body \<le> INT_MAX" using assms(4,5) by (simp add: der_element_def INT_MAX_def)
  from mem_source.BIO_read_asn1_element [OF h1(2) assms(1,3) len assms(6) h1(3) [unfolded assms(4)]] h1(1)
  show ?thesis unfolding assms(2) by blast
qed

lemma mem_bio_reads_der_witness:
  "\<exists>h1 h2. BIO_new_mem_buf example_alloc (\<lambda>_. mem_method example_alloc) 0 3 (Some [4, 2, 65, 66, 5, 0]) 6
      example_mem_heap = Some (Some 3, h1) \<and>
    BIO_read_asn1 example_alloc (\<lambda>_. mem_method example_alloc) (Some 3) 100 h1 = Some (Inr ([4, 2, 65, 66], 4), h2) \<and>
    mem_bytes 3 h2 = [5, 0]"
proof -
  have e: "der_element 4 [65, 66] = [4, 2, 65, 66]" by code_simp
  have i: "tag_num 4 < 31" "[4, 2, 65, 66, 5, 0] = der_element 4 [65, 66] @ [5, 0]"
    "length [4, 2, 65, 66, 5, 0 :: u8] < 2 ^ 31" "length (der_element 4 [65, 66]) \<le> 100"
    unfolding e by (code_simp, simp_all)
  have l: "length [4, 2, 65, 66 :: u8] = 4" "int (length [4, 2, 65, 66, 5, 0 :: u8]) = 6" by simp_all
  from mem_bio_reads_der [OF example_alloc_works refl i, of 0 3 example_mem_heap] show ?thesis
    unfolding e l .
qed

text \<open>
  C34: BIO_write_all on an end of a BIO pair always returns: the bytes accepted are a prefix
  of the data, the whole of it if and only if it reports success, and they stand behind
  those queued before.
\<close>

lemma write_all_returns:
  assumes "joined m a p h" and "ms = (\<lambda>_. methods_biop mem)"
  shows "\<exists>ok k h'. BIO_write_all ms (Some a) d h = Some (ok, h') \<and> joined m a p h' \<and>
    p_queue (pipe_at a h') = p_queue (pipe_at a h) @ take k d \<and> (if ok then k = length d else k < length d)"
  unfolding assms(2) by (rule pair_sink.BIO_write_all [OF assms(1)])

lemma write_all_returns_witness:
  "\<exists>h ok k h'. BIO_new_bio_pair example_alloc (\<lambda>_. methods_biop example_alloc) 0 1 2 4 0 example_heap =
      Some ((True, Some 1, Some 2), h) \<and>
    BIO_write_all (\<lambda>_. methods_biop example_alloc) (Some 1) [7, 8] h = Some (ok, h') \<and>
    p_queue (pipe_at 1 h') = take k [7, 8]"
proof -
  obtain h where h: "BIO_new_bio_pair example_alloc (\<lambda>_. methods_biop example_alloc) 0 1 2 4 0 example_heap =
      Some ((True, Some 1, Some 2), h)" "joined 0 1 2 h" "pipe_at 1 h = \<lparr>p_closed = False, p_size = 4, p_queue = []\<rparr>"
    by (rule example_pair)
  from write_all_returns [OF h(2) refl, of example_alloc "[7, 8]"] h(1,3) show ?thesis by auto
qed

section \<open>Cipher modes\<close>

text \<open>
  C35: Decryption undoes encryption in OFB, CFB and CTR for every block function, message,
  initial vector and position in the block, and both sides end in the same state.
\<close>

lemma stream_modes_roundtrip:
  assumes "length ivec = 16" and "length ecount = 16" and "n < 16"
  shows "(case CRYPTO_ofb128_encrypt block x ivec n of (c, s, k) \<Rightarrow>
      CRYPTO_ofb128_encrypt block c ivec n = (x, s, k)) \<and>
    (case CRYPTO_cfb128_encrypt block x ivec n True of (c, s, k) \<Rightarrow>
      CRYPTO_cfb128_encrypt block c ivec n False = (x, s, k)) \<and>
    (case CRYPTO_ctr128_encrypt block x (ivec, ecount) n of (c, s, k) \<Rightarrow>
      CRYPTO_ctr128_encrypt block c (ivec, ecount) n = (x, s, k))"
  using assms
  by (simp add: CRYPTO_ofb128_encrypt_def CRYPTO_cfb128_encrypt_def CRYPTO_ctr128_encrypt_def
    ofb.stream_mode_eq cfb_enc.stream_mode_eq cfb_dec.stream_mode_eq ctr.stream_mode_eq split: prod.split)
    (auto intro: byte_inverse [OF ofb_inverse] byte_inverse [OF cfb_inverse] byte_inverse [OF ctr_inverse])

lemma stream_modes_roundtrip_witness:
  "case CRYPTO_ofb128_encrypt example_block [7, 8] (replicate 16 0) 15 of (c, s, k) \<Rightarrow>
    CRYPTO_ofb128_encrypt example_block c (replicate 16 0) 15 = ([7, 8], s, k)"
proof -
  have n: "length (replicate 16 (0 :: u8)) = 16" "15 < (16 :: nat)" by simp_all
  from stream_modes_roundtrip [OF n(1,1,2), of example_block "[7, 8]"] show ?thesis by (rule conjunct1)
qed

section \<open>Protocol buffers\<close>

text \<open>
  C36: Every 64-bit and 32-bit value that pb_encode_varint, pb_encode_svarint,
  pb_encode_fixed64 or pb_encode_fixed32 writes into memory is read back by the matching
  decoder, which stops exactly behind it, whether the stream reads from memory or through a
  callback; varints take at most ten bytes.
\<close>

lemma pb_values_roundtrip:
  "(\<exists>d. encodes (in_buffer blk room) room (pb_encode_varint v) d \<and> length d \<le> 10 \<and> decodes pb_decode_varint d v) \<and>
   (\<exists>d. encodes (in_buffer blk room) room (pb_encode_svarint v) d \<and> length d \<le> 10 \<and> decodes pb_decode_svarint d v) \<and>
   (\<exists>d. encodes (in_buffer blk room) room (pb_encode_fixed64 v) d \<and> length d = 8 \<and> decodes pb_decode_fixed64 d v) \<and>
   (\<exists>d. encodes (in_buffer blk room) room (pb_encode_fixed32 w) d \<and> length d = 4 \<and> decodes pb_decode_fixed32 d w)"
proof (intro conjI exI)
  show "encodes (in_buffer blk room) room (pb_encode_varint v) (varint (unat v))" by (rule memory.pb_encode_varint)
  show "encodes (in_buffer blk room) room (pb_encode_svarint v) (varint (unat (zigzag v)))"
    by (rule memory.pb_encode_svarint)
  show "encodes (in_buffer blk room) room (pb_encode_fixed64 v) (map (\<lambda>i. ucast (drop_bit (8 * i) v AND 0xff)) [0..<8])"
    by (rule memory.pb_encode_fixed64)
  show "encodes (in_buffer blk room) room (pb_encode_fixed32 w) (map (\<lambda>i. ucast (drop_bit (8 * i) w AND 0xff)) [0..<4])"
    by (rule memory.pb_encode_fixed32)
qed (simp_all add: length_varint_u64 decodes_varint decodes_svarint decodes_fixed32 decodes_fixed64)

text \<open>
  C37: The overflow test of pb_decode_varint32 has two holes, whatever the first five bytes
  of a longer varint. Bits 32 to 34 of the fifth byte are not checked, so when the bytes
  behind it are zero digits (or, if bit 31 is set, sign digits) the value is accepted
  reduced to 32 bits, where pb_decode_varint gives all of it. And since bitpos is one byte
  it wraps: after 32 zero digits the 38th byte is put into the result at bit 3, where
  pb_decode_varint reports an overflow.
\<close>

lemma pb_varint32_misses_overflow:
  assumes "length ds = 5" "\<forall>b\<in>set ds. 128 \<le> unat b" "length pad \<le> 4" "unat b < 128"
    and "set pad \<subseteq> {0x80} \<or> set pad \<subseteq> {0x80, 0xff} \<and> odd (varint_value ds div 2 ^ 31)"
    and "e = 0 \<or> e = 1 \<and> length pad = 4 \<and> odd (varint_value ds div 2 ^ 31)"
    and wide: "reads delivers st (ds @ pad @ [e]) ahead" and long: "reads delivers st' (ds @ replicate 32 0x80 @ [b]) ahead"
  shows "fst (pb_decode_varint32 st) = Some (of_nat (varint_value ds)) \<and>
    fst (pb_decode_varint st) = Some (of_nat (varint_value (ds @ pad @ [e]))) \<and>
    fst (pb_decode_varint32 st') = Some (of_nat (varint_value ds) OR push_bit 3 (ucast b)) \<and>
    fst (pb_decode_varint st') = None"
proof (intro conjI)
  show "fst (pb_decode_varint32 st) = Some (of_nat (varint_value ds))"
    by (rule input.varint32_truncates [OF wide assms(1-3,5,6)])
  show "fst (pb_decode_varint32 st') = Some (of_nat (varint_value ds) OR push_bit 3 (ucast b))"
    by (rule input.varint32_wraps [OF long assms(1,2,4)])
  have "\<forall>x\<in>set (ds @ pad). 128 \<le> unat x" using assms(2,5) by auto
  then have "is_varint ((ds @ pad) @ [e])" using assms(6) unfolding is_varint_snoc by auto
  then have "take_varint 10 (ds @ pad @ [e]) = Some (ds @ pad @ [e], [])"
    using take_varint_append [of "ds @ pad @ [e]" 10 "[]"] assms(1,3) by simp
  then show "fst (pb_decode_varint st) = Some (of_nat (varint_value (ds @ pad @ [e])))"
    using input.pb_decode_varint [OF wide] by auto
  have "take_varint 10 ((ds @ replicate 32 0x80) @ [b]) = None"
    using assms(1,2) by (intro take_varint_long) auto
  then show "fst (pb_decode_varint st') = None" using input.pb_decode_varint [OF long] by simp
qed

lemma pb_varint32_misses_overflow_witness:
  "varint (2 ^ 63 + 2 ^ 31) = wide_varint \<and>
   fst (pb_decode_varint32 (pb_istream_from_buffer wide_varint 10 :: unit pb_istream)) = Some 0x80000000 \<and>
   fst (pb_decode_varint (pb_istream_from_buffer wide_varint 10 :: unit pb_istream)) = Some 0x8000000080000000"
proof -
  let ?ds = "[0x80, 0x80, 0x80, 0x80, 0x88] :: bytes" and ?pad = "[0x80, 0x80, 0x80, 0x80] :: bytes"
  have w: "?ds @ ?pad @ [1] = wide_varint" "length wide_varint = 10" by (simp_all add: wide_varint_def)
  have r: "reads delivers (pb_istream_from_buffer bs (length bs) :: unit pb_istream) bs []" for bs
    using reads_buffer [of bs "[]"] by simp
  have val: "varint_value ?ds = 2 ^ 31" "varint_value (?ds @ ?pad @ [1]) = 2 ^ 63 + 2 ^ 31" by simp_all
  have *: "length ?ds = 5" "\<forall>b\<in>set ?ds. 128 \<le> unat b" "length ?pad \<le> 4" "unat (1 :: u8) < 128"
    "set ?pad \<subseteq> {0x80} \<or> set ?pad \<subseteq> {0x80, 0xff} \<and> odd (varint_value ?ds div 2 ^ 31)"
    "(1 :: u8) = 0 \<or> (1 :: u8) = 1 \<and> length ?pad = 4 \<and> odd (varint_value ?ds div 2 ^ 31)"
    unfolding val by simp_all
  have "varint (2 ^ 63 + 2 ^ 31) = wide_varint" by (simp add: varint.simps wide_varint_def)
  then show ?thesis
    using pb_varint32_misses_overflow [OF * r r] unfolding val unfolding w by simp
qed

text \<open>
  C38: pb_encode_string on a memory stream writes the length and the bytes when they fit,
  and otherwise fails having written a beginning of them; in both cases the memory beyond
  what was written, and beyond the room given, is unchanged. A sizing stream counts exactly
  the bytes that are written.
\<close>

lemma pb_string_stays_inside:
  assumes "in_buffer blk room st bs" and "length d < 2 ^ 64"
  shows "(if length bs + length (varint (length d) @ d) \<le> room
     then \<exists>st'. pb_encode_string d (length d) st = (Some (), st') \<and> in_buffer blk room st' (bs @ varint (length d) @ d)
     else \<exists>st' e. pb_encode_string d (length d) st = (None, st') \<and> in_buffer blk room st' (bs @ e) \<and>
       prefix e (varint (length d) @ d)) \<and>
    (length (varint (length d) @ d) < 2 ^ 64 \<longrightarrow>
      (\<exists>st'. pb_encode_string d (length d) (PB_OSTREAM_SIZING :: 's pb_ostream) = (Some (), st') \<and>
        os_written st' = length (varint (length d) @ d)))"
proof (intro conjI impI)
  show "if length bs + length (varint (length d) @ d) \<le> room
     then \<exists>st'. pb_encode_string d (length d) st = (Some (), st') \<and> in_buffer blk room st' (bs @ varint (length d) @ d)
     else \<exists>st' e. pb_encode_string d (length d) st = (None, st') \<and> in_buffer blk room st' (bs @ e) \<and>
       prefix e (varint (length d) @ d)"
  proof (cases "length bs + length (varint (length d) @ d) \<le> room")
    case True
    from encodes_ok [OF memory.pb_encode_string [OF assms(2)] assms(1) this] True show ?thesis by auto
  next
    case False
    then have "room < length bs + length (varint (length d) @ d)" by simp
    with memory.pb_encode_string_stops [OF assms(2), of blk room] assms(1) show ?thesis
      unfolding if_not_P [OF False] stops_def by blast
  qed
  assume l: "length (varint (length d) @ d) < 2 ^ 64"
  have "counted (PB_OSTREAM_SIZING :: 's pb_ostream) []" by (simp add: counted_def PB_OSTREAM_SIZING_def)
  from encodes_ok [OF sizing.pb_encode_string [OF assms(2)] this] l
  obtain st' :: "'s pb_ostream" where "pb_encode_string d (length d) PB_OSTREAM_SIZING = (Some (), st')"
    "counted st' (varint (length d) @ d)" by auto
  then show "\<exists>st'. pb_encode_string d (length d) (PB_OSTREAM_SIZING :: 's pb_ostream) = (Some (), st') \<and>
      os_written st' = length (varint (length d) @ d)" by (auto simp: counted_def)
qed

lemma pb_string_stays_inside_witness:
  "\<exists>st' e. pb_encode_string [1, 2, 3] 3 (pb_ostream_from_buffer [9, 9, 9, 9, 9] 2 :: unit pb_ostream) = (None, st') \<and>
    os_output st' = To_buffer (e @ drop (length e) [9, 9, 9, 9, 9]) (length e) \<and> prefix e [3, 1, 2, 3]"
proof -
  have b: "in_buffer [9, 9, 9, 9, 9] 2 (pb_ostream_from_buffer [9, 9, 9, 9, 9] 2 :: unit pb_ostream) []"
    by (simp add: in_buffer_def pb_ostream_from_buffer_def)
  have l: "length [1, 2, 3 :: u8] < 2 ^ 64" by simp
  have v: "varint 3 = [3]" by (simp add: varint.simps)
  have n: "length [1, 2, 3 :: u8] = 3" by simp
  from pb_string_stays_inside [OF b l] obtain st' e where
    "pb_encode_string [1, 2, 3] 3 (pb_ostream_from_buffer [9, 9, 9, 9, 9] 2 :: unit pb_ostream) = (None, st')"
    "in_buffer [9, 9, 9, 9, 9] 2 st' ([] @ e)" "prefix e [3, 1, 2, 3]"
    unfolding n v by auto
  then show ?thesis by (auto simp: in_buffer_def)
qed

section \<open>Messages of nanopb\<close>

text \<open>
  C39: For descriptors that pass the layout check struct_ok (every field, flag and count
  lies in the structure, nested at most k deep), pb_decode returns on every input, whatever
  the stream, and on every path, errors included, changes no memory outside the structure,
  calls the allocator never, and does not move the stream back.
\<close>

theorem pb_decode_stays_inside:
  assumes "struct_ok k fs n" and "k < m"
  shows "\<exists>r s'. pb_decode env m fs dest s = Some (r, s') \<and>
    (\<forall>x. x < dest \<or> dest + n \<le> x \<longrightarrow> p_mem s' x = p_mem s x) \<and>
    p_heap s' = p_heap s \<and> is_left (p_in s') \<le> is_left (p_in s)"
  using safe_pb_decode [OF assms] unfolding safe_def within_def by blast

theorem pb_decode_stays_inside_witness:
  "struct_ok 2 example_message 30 \<and>
   (\<exists>r s'. pb_decode example_env 3 example_message 100
        (example_input [0x08, 0x07, 0x12, 0x02, 0x08, 0x05, 0x1a, 0x01, 0x41]) = Some (r, s') \<and>
      (\<forall>x. x < 100 \<or> 130 \<le> x \<longrightarrow> p_mem s' x = 0xff))"
proof -
  have ok: "struct_ok 2 example_message 30" by code_simp
  show ?thesis
    using ok pb_decode_stays_inside [OF ok, of 3 example_env 100
      "example_input [0x08, 0x07, 0x12, 0x02, 0x08, 0x05, 0x1a, 0x01, 0x41]"]
    by (auto simp: example_input_def)
qed

text \<open>
  C40: pb_encode refines the wire format: for descriptors without extensions and callbacks
  that write given bytes, a message that has no encoding is never reported as encoded; else
  pb_get_encoded_size returns exactly the length of its bytes, and pb_encode writes exactly
  these bytes to a memory stream where they fit, and otherwise fails having written a
  beginning of them; memory beyond is untouched.
\<close>

theorem pb_encode_refines_format:
  assumes "callbacks_follow env cb" and "plain n fs" and room: "room \<le> length blk" "length blk < 2 ^ 63"
  shows "case message_bytes m cb n fs src of
     None \<Rightarrow>
       (\<forall>k. pb_get_encoded_size env m n fs src \<noteq> Some (Some k)) \<and>
       (\<forall>st. pb_encode env m n fs src (pb_ostream_from_buffer blk room) \<noteq> Some (Some (), st))
   | Some d \<Rightarrow> length d < 2 ^ 63 \<longrightarrow>
       pb_get_encoded_size env m n fs src = Some (Some (length d)) \<and>
       (\<exists>r st e. pb_encode env m n fs src (pb_ostream_from_buffer blk room) = Some (r, st) \<and>
          os_output st = To_buffer (e @ drop (length e) blk) (length e) \<and> os_written st = length e \<and> length e \<le> room \<and>
          (if length d \<le> room then r = Some () \<and> e = d else r = None \<and> prefix e d))"
proof (cases "message_bytes m cb n fs src")
  case None
  then have "never (pb_encode env m n fs src)"
    using follows_message [OF assms(1,2), of m src] by (simp add: follows_def)
  then show ?thesis using None by (auto simp: never_def pb_get_encoded_size_def)
next
  case (Some d)
  have puts: "puts (pb_encode env m n fs src) d"
    using follows_message [OF assms(1,2), of m src] Some by (simp add: follows_def)
  have st: "in_block [] blk 0 room (pb_ostream_from_buffer blk room :: 'a pb_ostream) []"
    using room by (simp add: in_block_def pb_ostream_from_buffer_def)
  show ?thesis
  proof (cases "length d < 2 ^ 63")
    case True
    obtain s where "pb_encode env m n fs src PB_OSTREAM_SIZING = Some (Some (), s)" "os_written s = length d"
      by (rule puts_sizing [OF puts True])
    then have "pb_get_encoded_size env m n fs src = Some (Some (length d))" by (simp add: pb_get_encoded_size_def)
    moreover have "\<exists>r st e. pb_encode env m n fs src (pb_ostream_from_buffer blk room) = Some (r, st) \<and>
        in_block [] blk 0 room st e \<and> (if length d \<le> room then r = Some () \<and> e = d else r = None \<and> prefix e d)"
      using puts True st unfolding puts_def fills_def spills_def by (metis add_0 append_Nil list.size(3) not_le)
    ultimately show ?thesis using Some True by (fastforce simp: in_block_def)
  qed (simp add: Some)
qed

theorem pb_encode_refines_format_witness:
  "pb_get_encoded_size example_out_env example_memory 2 example_message 100 = Some (Some 15) \<and>
   (\<exists>st. pb_encode example_out_env example_memory 2 example_message 100
        (pb_ostream_from_buffer (replicate 20 0) 15) = Some (Some (), st) \<and>
      os_output st = To_buffer (example_bytes @ replicate 5 0) 15) \<and>
   (\<exists>st. pb_encode example_out_env example_memory 2 example_message 100
        (pb_ostream_from_buffer (replicate 20 0) 14) = Some (None, st))"
proof -
  have d: "message_bytes example_memory (\<lambda>_ _ _. None) 2 example_message 100 = Some example_bytes" by code_simp
  have l: "length example_bytes = 15" by (simp add: example_bytes_def)
  have cb: "callbacks_follow example_out_env (\<lambda>_ _ _. None)"
    by (simp add: callbacks_follow_def example_out_env_def follows_def never_def passed_def)
  have plain: "plain 2 example_message" by code_simp
  show ?thesis
    using pb_encode_refines_format [OF cb plain, of 15 "replicate 20 0" example_memory 100]
      pb_encode_refines_format [OF cb plain, of 14 "replicate 20 0" example_memory 100]
    by (auto simp: d l)
qed

section \<open>Further results\<close>

text \<open>
  bn_rshift_secret_shift looks only at the bits of the amount below the bit length of 64
  times the width: it shifts by the amount modulo that power of two, where BN_rshift shifts
  by all of it and gives zero for larger amounts.
\<close>

lemma secret_shift_ignores_high_bits:
  assumes "bn_ok a" "bn_ok r" "0 < bn_width a"
    and "bn_rshift_secret_shift mem tmp a n r = (Some u, s)" "BN_rshift mem a (int n) r = (Some v, q)"
  shows "bn_abs s = bn_abs a div 2 ^ (n mod 2 ^ bit_len (64 * bn_width a)) \<and> bn_abs q = bn_abs a div 2 ^ n \<and>
    (2 ^ bit_len (64 * bn_width a) \<le> n \<longrightarrow> bn_abs q = 0)"
proof -
  let ?L = "bit_len (64 * bn_width a)"
  have q: "bn_abs q = bn_abs a div 2 ^ n"
  proof -
    have "nat \<bar>bn_int x\<bar> = bn_abs x" for x by (simp add: bn_int_def)
    moreover have "bn_int q = sgn (bn_int a) * (\<bar>bn_int a\<bar> div 2 ^ n)"
      using BN_rshift_spec [OF assms(1,2,5)] by (simp add: shift_int_def)
    then have "\<bar>bn_int q\<bar> = \<bar>bn_int a\<bar> div 2 ^ n" by (auto simp: abs_mult sgn_if pos_imp_zdiv_nonneg_iff)
    ultimately show ?thesis by (metis abs_ge_zero nat_div_distrib nat_power_eq nat_numeral zero_le_numeral)
  qed
  have "bn_abs q = 0" if n: "2 ^ ?L \<le> n"
  proof -
    have "bn_abs a < beta ^ bn_width a" by (rule bn_abs_less [OF assms(1)])
    also have "\<dots> = 2 ^ (64 * bn_width a)" by (simp add: beta_def power_mult)
    also have "\<dots> \<le> 2 ^ n"
      using n bit_len_bounds [of "64 * bn_width a"] assms(3) by (intro power_increasing) simp_all
    finally show ?thesis by (simp add: q)
  qed
  then show ?thesis using bn_rshift_secret_shift_spec [OF assms(1,2,4,3)] q by blast
qed

lemma secret_shift_ignores_high_bits_witness:
  "\<exists>s q. bn_rshift_secret_shift example_bn_mem (Some (example_bn [0] False)) (example_bn [5] False) 129
      (example_bn [0] False) = (Some (), s) \<and> bn_abs s = 2 \<and>
    BN_rshift example_bn_mem (example_bn [5] False) 129 (example_bn [0] False) = (Some (), q) \<and> bn_abs q = 0"
proof -
  let ?a = "example_bn [5] False" and ?r = "example_bn [0] False"
  obtain s where s: "bn_rshift_secret_shift example_bn_mem (Some ?r) ?a 129 ?r = (Some (), s)"
    by (simp add: bn_rshift_secret_shift_def BN_copy_def bn_wexpand_def example_bn_def)
  obtain q where q: "BN_rshift example_bn_mem ?a (int 129) ?r = (Some (), q)"
    by (simp add: BN_rshift_def bn_wexpand_def example_bn_def)
  have w: "0 < bn_width ?a" by (simp add: example_bn_width)
  have "64 * bn_width ?a = 64" "bit_len 64 = 7" by (simp_all add: example_bn_width bit_len.simps)
  moreover have "bn_abs ?a = 5" by (simp add: example_bn_def bn_abs_def bn_words_def)
  ultimately show ?thesis
    using secret_shift_ignores_high_bits [OF example_bn_ok example_bn_ok w s q] s q by simp
qed

text \<open>
  Setting a message to its defaults writes four bytes to a repeated field of fixed count,
  whose count is not stored (its size_offset is zero): whatever the size of the field, four
  zero bytes are stored at its start. In the example, an array of one byte, the three bytes
  behind it are overwritten.
\<close>

lemma pb_defaults_overrun:
  assumes "PB_LTYPE (f_type f) \<noteq> PB_LTYPE_EXTENSION" "PB_ATYPE (f_type f) = PB_ATYPE_STATIC"
    and "PB_HTYPE (f_type f) = PB_HTYPE_REPEATED" "f_size_offset f = 0" "f_tag f \<noteq> 0"
  shows "pb_message_set_to_defaults env (Suc n) [f] dest s =
    Some (Some (), poke (write_bytes (dest + f_data_offset f) [0, 0, 0, 0]) s)"
proof -
  have t: "f_tag PB_LAST_FIELD = 0" by (simp add: PB_LAST_FIELD_def)
  show ?thesis
    using assms
    by (simp add: pb_message_set_to_defaults_def each_of_def pb_field_iter_begin_def field_at_def t
        set_default_step_def field_of_def size_at_def set_count_def write_count_def word_bytes_def ret_def
        pb_field_iter_next_def upt_rec nat_int_add)
qed

lemma pb_defaults_overrun_witness:
  "pb_message_set_to_defaults env 1 [Pb_field 1 0x20 0 0 1 1 Null] dest s =
     Some (Some (), poke (write_bytes dest [0, 0, 0, 0]) s)"
proof -
  let ?f = "Pb_field 1 0x20 0 0 1 1 Null"
  have f: "PB_LTYPE (f_type ?f) \<noteq> PB_LTYPE_EXTENSION" "PB_ATYPE (f_type ?f) = PB_ATYPE_STATIC"
    "PB_HTYPE (f_type ?f) = PB_HTYPE_REPEATED" "f_size_offset ?f = 0" "f_tag ?f \<noteq> 0"
    by (simp_all add: PB_HTYPE_def PB_LTYPE_def PB_ATYPE_def pb_ltypes pb_htypes pb_atypes)
  from pb_defaults_overrun [OF f, of env 0 dest s] show ?thesis by simp
qed

text \<open>
  What CBB_add_asn1_int64 writes, CBS_get_asn1_int64 reads back to the same signed value and
  to the end, for every 64-bit pattern.
\<close>

lemma asn1_int64_roundtrip:
  assumes "\<forall>k. mem k \<noteq> None" and "n + 8 < 2 ^ 64"
  shows "\<exists>c c'. built mem n (CBB_add_asn1_int64 mem v) = Some c \<and>
    CBS_get_asn1_int64 c = (Some (sint v), c') \<and> CBS_len c' = 0"
proof -
  have bs: "length (int_bytes v) < 2 ^ 32" using length_int_bytes [of v] by simp
  then have "length (der_element CBS_ASN1_INTEGER (int_bytes v)) \<le> 2 ^ 62"
    using length_der_element_le [of "int_bytes v" CBS_ASN1_INTEGER] by simp
  then obtain c where c: "built mem n (CBB_add_asn1_int64 mem v) = Some c" "cbs_wf c"
      "cbs_view c = der_element CBS_ASN1_INTEGER (int_bytes v) @ []"
    using add_int64.built_view [OF assms] by auto
  then obtain b where "CBS_get_asn1 CBS_ASN1_INTEGER c =
      (Some b, advance (length (der_element CBS_ASN1_INTEGER (int_bytes v))) c)"
      "cbs_wf b" "cbs_view b = int_bytes v"
    using CBS_get_asn1_der [OF c(2,3) bs] by blast
  moreover have "cbs_len c = length (der_element CBS_ASN1_INTEGER (int_bytes v))"
    using c(2,3) by (metis append_Nil2 cbs_view_def cbs_wf_def length_take min.absorb2)
  ultimately show ?thesis
    using c(1) by (auto simp: CBS_get_asn1_int64_contents int64_of_contents_int_bytes CBS_len_def)
qed

lemma asn1_int64_roundtrip_witness:
  "\<exists>c c'. built example_alloc 0 (CBB_add_asn1_int64 example_alloc (- 129)) = Some c \<and>
    CBS_get_asn1_int64 c = (Some (- 129), c') \<and> CBS_len c' = 0"
  using asn1_int64_roundtrip [OF example_alloc_works small_bound, of "- 129"] by simp

text \<open>
  For a valid code point, cbb_add_utf8 writes cbb_get_utf8_len bytes, and cbs_get_utf8 reads
  the code point back from them.
\<close>

lemma utf8_roundtrip:
  assumes "\<forall>k. mem k \<noteq> None" and "n + 8 < 2 ^ 64" and valid: "is_valid_code_point u"
  shows "\<exists>c c'. built mem n (cbb_add_utf8 mem u) = Some c \<and>
    CBS_len c = cbb_get_utf8_len u \<and> cbs_get_utf8 c = (Some u, c') \<and> CBS_len c' = 0"
proof -
  have "length (utf8 (unat u)) \<le> 2 ^ 62"
    using length_utf8 [OF valid] by (simp add: cbb_get_utf8_len_def)
  then obtain c where c: "built mem n (cbb_add_utf8 mem u) = Some c" "cbs_wf c" "cbs_view c = utf8 (unat u)"
    using appender.built_view [OF appender_utf8 [OF valid] assms(1,2)] by blast
  moreover have "cbs_len c = length (utf8 (unat u))" using c(2,3) length_cbs_view by metis
  ultimately show ?thesis
    using cbs_get_utf8_complete [of c u "[]"] valid length_utf8 [OF valid] by (auto simp: CBS_len_def)
qed

lemma utf8_roundtrip_witness:
  "\<exists>c c'. built example_alloc 0 (cbb_add_utf8 example_alloc 0x20ac) = Some c \<and>
    CBS_len c = cbb_get_utf8_len 0x20ac \<and> cbs_get_utf8 c = (Some 0x20ac, c') \<and> CBS_len c' = 0"
proof -
  have "is_valid_code_point 0x20ac" by code_simp
  from utf8_roundtrip [OF example_alloc_works small_bound this] show ?thesis .
qed

text \<open>
  When EVP_EncodedLength reports a length, without wrap-around, it is exactly what
  EVP_EncodeBlock writes, the terminating NUL included: a buffer of that size is never
  overrun.
\<close>

lemma base64_length_is_exact:
  assumes "EVP_EncodedLength (length src) = Some len" and "length src < 2 ^ 64"
  shows "length (fst (EVP_EncodeBlock src)) = len \<and> snd (EVP_EncodeBlock src) + 1 = len"
  using EVP_EncodedLength_Some [OF assms] by (simp add: EVP_EncodeBlock_def length_encode_quads)

lemma base64_length_is_exact_witness:
  "length (fst (EVP_EncodeBlock [1, 2, 3, 4])) = 9 \<and> snd (EVP_EncodeBlock [1, 2, 3, 4]) + 1 = 9"
  by (rule base64_length_is_exact) (simp_all add: EVP_EncodedLength_def size_add_def size_mul_def)

text \<open>
  The branch-free comparisons return all ones exactly when the comparison holds for the
  unsigned words and zero otherwise, and constant_time_select_w then selects as a
  conditional would.
\<close>

lemma constant_time_comparisons:
  "constant_time_lt_w a b = (if a < b then - 1 else 0) \<and>
   constant_time_ge_w a b = (if b \<le> a then - 1 else 0) \<and>
   constant_time_is_zero_w a = (if a = 0 then - 1 else 0) \<and>
   constant_time_eq_w a b = (if a = b then - 1 else 0) \<and>
   constant_time_select_w (constant_time_lt_w a b) x y = (if a < b then x else y)"
  using constant_time_lt [of a b] constant_time_is_zero [of a] constant_time_eq [of a b]
    constant_time_select [of "a < b" x y]
  by (auto simp: ct_mask_def constant_time_ge_w_def not_less)

text \<open>
  sk_delete refines removal from a list: it returns the pointer at the position, closes the
  gap, and keeps a sorted stack sorted.
\<close>

lemma sk_delete_refines:
  assumes "stack_ok s" and "i < st_num s"
  shows "\<exists>s'. sk_delete (Some s) i = (elems s ! i, Some s') \<and> stack_ok s' \<and>
    elems s' = take i (elems s) @ drop (Suc i) (elems s) \<and>
    (sorted_flag_ok call_cmp s \<longrightarrow> sorted_flag_ok call_cmp s')"
  using assms sk_delete_sorted [OF assms(1)] by (cases rule: sk_delete_elems) auto

lemma sk_delete_refines_witness:
  "\<exists>s'. sk_delete (Some example_stack) 0 = (3, Some s') \<and> elems s' = [5]"
proof -
  have n: "0 < st_num example_stack" by (simp add: example_stack_def)
  from sk_delete_refines [OF example_stack_ok n, of example_cmp]
  show ?thesis by (auto simp: example_stack_elems)
qed

text \<open>
  sk_sort leaves the stack a sorted permutation of itself, and a search in it then succeeds
  exactly when the stack held an element that compares equal.
\<close>

lemma sk_sort_then_find:
  assumes "stack_ok s" and "sorted_flag_ok call_cmp s" and "st_comp s = Some cf" and "p \<noteq> NULL"
    and "comparison (call_cmp cf) (insert p (set (elems s)))"
  shows "\<exists>s'. sk_sort call_cmp (Some s) = Some s' \<and> sk_is_sorted (Some s') \<and> stack_ok s' \<and>
    mset (elems s') = mset (elems s) \<and> sorted_wrt (\<lambda>x y. call_cmp cf x y \<le> 0) (elems s') \<and>
    (sk_find call_cmp (Some s') p \<noteq> None \<longleftrightarrow> (\<exists>q \<in> set (elems s). call_cmp cf p q = 0))"
proof -
  have cmp: "comparison (call_cmp cf) (set (elems s))"
    using assms(5) by (rule comparison_mono) blast
  obtain s' where s': "sk_sort call_cmp (Some s) = Some s'" "stack_ok s'" "sorted_flag_ok call_cmp s'"
    "mset (elems s') = mset (elems s)" "st_comp s' = Some cf" "st_sorted s'"
  proof (rule sk_sort_sorts [OF assms(1,2)])
    show "comparison (call_cmp cf') (set (elems s))" if eq: "st_comp s = Some cf'" for cf'
      using eq cmp assms(3) by simp
  qed (use assms(3) in simp)
  have set: "set (elems s') = set (elems s)" using s'(4) by (rule mset_eq_setD)
  have "comparison (call_cmp cf') (insert p (set (elems s')))" if "st_comp s' = Some cf'" for cf'
    using that s'(5) set assms(5) by simp
  from sk_find_scan [OF s'(2,3) this]
  have find: "sk_find call_cmp (Some s') p = sk_scan (\<lambda>q. call_cmp cf p q = 0) (st_data s') 0 (st_num s')"
    using assms(4) s'(5) by (simp add: sk_find_def sk_is_sorted_def)
  have "(\<exists>j < st_num s'. call_cmp cf p (st_data s' ! j) = 0) \<longleftrightarrow> (\<exists>q \<in> set (elems s'). call_cmp cf p q = 0)"
    by (metis in_set_conv_nth length_elems [OF s'(2)] nth_elems)
  then have "sk_find call_cmp (Some s') p \<noteq> None \<longleftrightarrow> (\<exists>q \<in> set (elems s). call_cmp cf p q = 0)"
    unfolding find sk_scan_None set by auto
  with s' show ?thesis by (auto simp: sk_is_sorted_def sorted_flag_ok_def)
qed

lemma sk_sort_then_find_witness:
  "\<exists>s'. sk_sort example_cmp (Some (example_stack\<lparr>st_data := [5, 3, 0, 0], st_sorted := False\<rparr>)) = Some s' \<and>
    sk_find example_cmp (Some s') 3 \<noteq> None"
proof -
  let ?s = "example_stack\<lparr>st_data := [5, 3, 0, 0], st_sorted := False\<rparr>"
  have s: "stack_ok ?s" "elems ?s = [5, 3]" "sorted_flag_ok example_cmp ?s" "st_comp ?s = Some 0"
    by (simp_all add: stack_ok_def elems_def sorted_flag_ok_def example_stack_def)
  have "\<exists>q \<in> set (elems ?s). example_cmp 0 3 q = 0" by (simp add: s(2) example_cmp_def)
  with sk_sort_then_find [OF s(1,3,4) _ example_comparison, of 3] show ?thesis by fastforce
qed

text \<open>
  BUF_MEM_append adds the bytes behind those in the buffer, and fails, changing nothing,
  only when memory runs out.
\<close>

lemma buffer_append:
  assumes "buf_ok b" and "bm_length b + length inp < 2 ^ 61"
  shows "case BUF_MEM_append mem inp b of
      (None, b') \<Rightarrow> b' = b \<and> (\<exists>n. mem n = None)
    | (Some _, b') \<Rightarrow> buf_ok b' \<and> buf_bytes b' = buf_bytes b @ inp"
  using assms by (cases rule: BUF_MEM_append_bytes [where mem = mem]) auto

lemma buffer_append_witness:
  "case BUF_MEM_append example_alloc [7, 8] \<lparr>bm_length = 1, bm_data = Some [5], bm_max = 1\<rparr> of
      (None, b') \<Rightarrow> False | (Some _, b') \<Rightarrow> buf_bytes b' = [5, 7, 8]"
proof -
  let ?b = "\<lparr>bm_length = 1, bm_data = Some [5], bm_max = 1\<rparr>"
  have b: "buf_ok ?b" "bm_length ?b + length [7, 8 :: u8] < 2 ^ 61" by (simp_all add: buf_ok_def)
  have "buf_bytes ?b = [5]" by (simp add: buf_bytes_def)
  with buffer_append [OF b, of example_alloc] show ?thesis
    by (auto simp: example_alloc_def split: prod.splits option.splits)
qed

text \<open>
  OFB, CFB and CTR process a message exactly as if it went one byte at a time through the
  mode's byte step, from any position in the current block: the word-wise fast path over
  whole blocks and the tail agree with it.
\<close>

lemma stream_modes_are_bytewise:
  assumes "length ivec = 16" and "length ecount = 16" and "n < 16"
  shows "CRYPTO_ofb128_encrypt block inp ivec n =
      run_bytes (byte_step ofb_byte (call_block block)) (ivec, n) inp \<and>
    CRYPTO_cfb128_encrypt block inp ivec n True =
      run_bytes (byte_step cfb_enc_byte (call_block block)) (ivec, n) inp \<and>
    CRYPTO_cfb128_encrypt block inp ivec n False =
      run_bytes (byte_step cfb_dec_byte (call_block block)) (ivec, n) inp \<and>
    CRYPTO_ctr128_encrypt block inp (ivec, ecount) n =
      run_bytes (byte_step ctr_byte (ctr_refill block)) ((ivec, ecount), n) inp"
  using assms ofb.stream_mode_eq cfb_enc.stream_mode_eq cfb_dec.stream_mode_eq ctr.stream_mode_eq
  by (simp add: CRYPTO_ofb128_encrypt_def CRYPTO_cfb128_encrypt_def CRYPTO_ctr128_encrypt_def)

lemma stream_modes_are_bytewise_witness:
  "CRYPTO_ofb128_encrypt example_block [7, 8] (replicate 16 0) 15 =
    run_bytes (byte_step ofb_byte (call_block example_block)) (replicate 16 0, 15) [7, 8]"
proof -
  have n: "length (replicate 16 (0 :: u8)) = 16" "15 < (16 :: nat)" by simp_all
  from stream_modes_are_bytewise [OF n(1,1,2), of example_block "[7, 8]"] show ?thesis by (rule conjunct1)
qed

text \<open>
  Of the shortest encodings below 2^63, pb_decode_varint32 accepts exactly the values that
  fit 32 bits and reports an overflow for all others; it also accepts every negative 32-bit
  number sign-extended to 64 bits, and gives its low half.
\<close>

lemma pb_varint32_exact:
  assumes "reads delivers st (varint v @ rest) ahead"
  shows "(v < 2 ^ 32 \<longrightarrow> (\<exists>st'. pb_decode_varint32 st = (Some (of_nat v), st') \<and> reads delivers st' rest ahead)) \<and>
    (2 ^ 32 \<le> v \<and> v < 2 ^ 63 \<longrightarrow> fst (pb_decode_varint32 st) = None) \<and>
    (2 ^ 64 - 2 ^ 31 \<le> v \<and> v < 2 ^ 64 \<longrightarrow>
      (\<exists>st'. pb_decode_varint32 st = (Some (of_nat v), st') \<and> reads delivers st' rest ahead))"
proof (intro conjI impI)
  assume "v < 2 ^ 32"
  from input.varint32_small [OF assms this]
  show "\<exists>st'. pb_decode_varint32 st = (Some (of_nat v), st') \<and> reads delivers st' rest ahead"
    by (auto simp: pb_decode_varint32_def)
next
  assume "2 ^ 32 \<le> v \<and> v < 2 ^ 63"
  with input.varint32_too_large [OF assms] show "fst (pb_decode_varint32 st) = None"
    by (auto simp: pb_decode_varint32_def)
next
  assume v: "2 ^ 64 - 2 ^ 31 \<le> v \<and> v < 2 ^ 64"
  then have "v div 2 ^ 35 = 2 ^ 29 - 1" by (intro div_nat_eqI) simp_all
  then have d: "varint (v div 2 ^ 35) = [0xff, 0xff, 0xff, 0xff] @ [1]" by (simp add: varint.simps)
  have "v div 2 ^ 31 = 2 ^ 33 - 1" using v by (intro div_nat_eqI) simp_all
  then have "odd (v div 2 ^ 31)" by simp
  then have "bit v 31" by (simp add: bit_iff_odd)
  from input.varint32_sign_extended [OF assms d _ _ this]
  show "\<exists>st'. pb_decode_varint32 st = (Some (of_nat v), st') \<and> reads delivers st' rest ahead"
    by (auto simp: pb_decode_varint32_def)
qed

lemma pb_varint32_exact_witness:
  "\<exists>st'. pb_decode_varint32 (pb_istream_from_buffer [0xac, 0x02, 7] 3 :: unit pb_istream) = (Some 300, st') \<and>
    reads delivers st' [7] []"
proof -
  have v: "varint 300 @ [7] = [0xac, 0x02, 7]" by (simp add: varint.simps)
  have "reads delivers (pb_istream_from_buffer [0xac, 0x02, 7] 3 :: unit pb_istream) (varint 300 @ [7]) []"
  proof -
    have l: "length [0xac, 0x02, 7 :: u8] = 3" by simp
    show ?thesis unfolding v using reads_buffer [of "[0xac, 0x02, 7]" "[]"] unfolding l by simp
  qed
  from pb_varint32_exact [OF this] show ?thesis by simp
qed

text \<open>
  For every well-formed field, whatever its number and wire type, pb_decode_tag returns the
  wire type and the number, and pb_skip_field then moves exactly to the next field.
\<close>

lemma pb_skips_fields:
  assumes "payload wt d" and "reads delivers st (tag_bytes wt field @ d @ rest) ahead" and "field \<noteq> 0" and "unat field < 2 ^ 29"
  shows "\<exists>st1 st2. pb_decode_tag st = (Inr (wt, field), st1) \<and> pb_skip_field wt st1 = (Some (), st2) \<and>
    reads delivers st2 rest ahead"
proof -
  have wt: "unat wt < 8" using assms(1) by (auto simp: payload_def wire_types split: if_splits)
  obtain st1 where st1: "pb_decode_tag st = (Inr (wt, field), st1)" "reads delivers st1 (d @ rest) ahead"
    by (rule input.pb_decode_tag [OF assms(2,4) wt]) (use assms(3) in simp_all)
  from input.pb_skip_field [OF assms(1) st1(2)] st1(1) show ?thesis by auto
qed

lemma pb_skips_fields_witness:
  "\<exists>st1 st2. pb_decode_tag (pb_istream_from_buffer [0x12, 2, 65, 66, 7] 5 :: unit pb_istream) = (Inr (2, 2), st1) \<and>
    pb_skip_field 2 st1 = (Some (), st2) \<and> reads delivers st2 [7] []"
proof -
  have p: "payload 2 [2, 65, 66]"
    by (auto simp: payload_def wire_types varint.simps intro!: exI [of _ "[65, 66]"])
  have t: "tag_bytes 2 2 @ [2, 65, 66] @ [7] = [0x12, 2, 65, 66, 7]" by (simp add: tag_bytes_def varint.simps)
  have r: "reads delivers (pb_istream_from_buffer [0x12, 2, 65, 66, 7] 5 :: unit pb_istream)
      (tag_bytes 2 2 @ [2, 65, 66] @ [7]) []"
  proof -
    have l: "length [0x12, 2, 65, 66, 7 :: u8] = 5" by simp
    show ?thesis unfolding t using reads_buffer [of "[0x12, 2, 65, 66, 7]" "[]"] unfolding l by simp
  qed
  from pb_skips_fields [OF p r] show ?thesis by simp
qed

text \<open>
  The branch of bn_mul_part_recursive for fewer than eight words, which BN_mul does not
  reach, clears bytes where it means words, so the last words of the result keep what was
  there before.
\<close>

lemma part_recursive_clears_bytes:
  "bn_mul_part_recursive (replicate 3 0) (replicate 3 0) 2 1 1 (replicate 8 7) ! 7 = 7"
  by code_simp

end
